(* ===== verification/Prelude.thy ===== *)
theory Prelude
  imports Main "HOL-Library.Word" "HOL-Library.Monad_Syntax"
begin

text \<open>
  Shared vocabulary of the development.

  The machine integers of the C sources are words of their width.  An array of fixed size is
  a list of that length; reading or writing it out of range is undefined behaviour in C, so
  \<open>rd\<close>, \<open>wr\<close>, \<open>rdn\<close> and \<open>wrn\<close> return \<open>None\<close> there, and a handler of the model is a function
  into \<open>option\<close> whose \<open>None\<close> means that the C program performs such an access.
  The big-endian packing and unpacking that every protocol module writes out by hand is
  collected here with its round trips.
\<close>

unbundle bit_operations_syntax

named_theorems frame_simps \<open>record fields an operation does not touch\<close>
named_theorems bytes_simps \<open>packing and unpacking of big-endian byte sequences\<close>

type_synonym u8 = "8 word"
type_synonym u16 = "16 word"
type_synonym u32 = "32 word"
type_synonym u64 = "64 word"

section \<open>Arrays with their bounds\<close>

definition rd :: "'a list \<Rightarrow> nat \<Rightarrow> 'a option" where
  "rd xs i = (if i < length xs then Some (xs ! i) else None)"

definition wr :: "'a list \<Rightarrow> nat \<Rightarrow> 'a \<Rightarrow> 'a list option" where
  "wr xs i v = (if i < length xs then Some (xs[i := v]) else None)"

text \<open>\<open>rdn xs i n\<close> reads the \<open>n\<close> elements from index \<open>i\<close>, \<open>wrn xs i ys\<close> copies \<open>ys\<close> to index \<open>i\<close>
  on, as \<open>memcpy\<close> does between disjoint objects.\<close>

definition rdn :: "'a list \<Rightarrow> nat \<Rightarrow> nat \<Rightarrow> 'a list option" where
  "rdn xs i n = (if i + n \<le> length xs then Some (take n (drop i xs)) else None)"

definition wrn :: "'a list \<Rightarrow> nat \<Rightarrow> 'a list \<Rightarrow> 'a list option" where
  "wrn xs i ys =
     (if i + length ys \<le> length xs then Some (take i xs @ ys @ drop (i + length ys) xs) else None)"

lemma rd_Some [simp]: "i < length xs \<Longrightarrow> rd xs i = Some (xs ! i)"
  by (simp add: rd_def)

lemma rd_None [simp]: "length xs \<le> i \<Longrightarrow> rd xs i = None"
  by (simp add: rd_def)

lemma wr_Some [simp]: "i < length xs \<Longrightarrow> wr xs i v = Some (xs[i := v])"
  by (simp add: wr_def)

lemma wr_None [simp]: "length xs \<le> i \<Longrightarrow> wr xs i v = None"
  by (simp add: wr_def)

lemma wr_length: "wr xs i v = Some ys \<Longrightarrow> length ys = length xs"
  by (auto simp: wr_def split: if_splits)

lemma rdn_Some [simp]: "i + n \<le> length xs \<Longrightarrow> rdn xs i n = Some (take n (drop i xs))"
  by (simp add: rdn_def)

lemma rdn_length: "rdn xs i n = Some ys \<Longrightarrow> length ys = n"
  by (auto simp: rdn_def split: if_splits)

lemma wrn_length: "wrn xs i ys = Some zs \<Longrightarrow> length zs = length xs"
  by (auto simp: wrn_def split: if_splits)

lemma wrn_Nil [simp]: "i \<le> length xs \<Longrightarrow> wrn xs i [] = Some xs"
  by (simp add: wrn_def)

lemma take_update_Suc: "i < length xs \<Longrightarrow> take (Suc i) (xs[i := v]) = take i xs @ [v]"
  by (simp add: take_Suc_conv_app_nth)

text \<open>Writing byte after byte with a growing index is one copy.\<close>

lemma wr_wrn:
  assumes "i < length xs"
  shows "Option.bind (wr xs i y) (\<lambda>zs. wrn zs (Suc i) ys) = wrn xs i (y # ys)"
  using assms
  by (auto simp: wrn_def take_update_Suc drop_update_cancel)

lemma wrn_append:
  assumes "i + length ys \<le> length xs"
  shows "Option.bind (wrn xs i ys) (\<lambda>zs. wrn zs (i + length ys) us) = wrn xs i (ys @ us)"
  using assms by (auto simp: wrn_def ac_simps)

lemma wr_wrn_single: "wr xs i v = wrn xs i [v]"
  by (simp add: wr_def wrn_def upd_conv_take_nth_drop)

lemma wrn_at:
  "i = length xs \<Longrightarrow> length ys \<le> length zs \<Longrightarrow> wrn (xs @ zs) i ys = Some (xs @ ys @ drop (length ys) zs)"
  by (simp add: wrn_def)

section \<open>Big-endian packing\<close>

definition hi8 :: "u16 \<Rightarrow> u8" where "hi8 w = ucast (drop_bit 8 w)"
definition lo8 :: "u16 \<Rightarrow> u8" where "lo8 w = ucast w"
definition be16 :: "u8 \<Rightarrow> u8 \<Rightarrow> u16" where "be16 h l = push_bit 8 (ucast h) OR ucast l"

definition be32 :: "u8 \<Rightarrow> u8 \<Rightarrow> u8 \<Rightarrow> u8 \<Rightarrow> u32" where
  "be32 a b c d = push_bit 24 (ucast a) OR push_bit 16 (ucast b) OR push_bit 8 (ucast c) OR ucast d"

definition byte_of :: "nat \<Rightarrow> u32 \<Rightarrow> u8" where "byte_of k w = ucast (drop_bit (8 * k) w)"

lemma be16_hi_lo [bytes_simps]: "be16 (hi8 w) (lo8 w) = w"
  by (rule bit_word_eqI) (auto simp: be16_def hi8_def lo8_def bit_simps)

lemma hi8_be16 [bytes_simps]: "hi8 (be16 h l) = h"
  by (rule bit_word_eqI) (auto simp: be16_def hi8_def bit_simps dest: bit_imp_le_length)

lemma lo8_be16 [bytes_simps]: "lo8 (be16 h l) = l"
  by (rule bit_word_eqI) (auto simp: be16_def lo8_def bit_simps dest: bit_imp_le_length)

lemma be32_bytes [bytes_simps]: "be32 (byte_of 3 w) (byte_of 2 w) (byte_of 1 w) (byte_of 0 w) = w"
proof (rule bit_word_eqI)
  fix n assume "n < LENGTH(32)"
  then consider "n < 8" | "8 \<le> n" "n < 16" | "16 \<le> n" "n < 24" | "24 \<le> n" "n < 32"
    by fastforce
  then show "bit (be32 (byte_of 3 w) (byte_of 2 w) (byte_of 1 w) (byte_of 0 w)) n \<longleftrightarrow> bit w n"
    by cases (auto simp: be32_def byte_of_def bit_simps)
qed

lemma bytes_be32 [bytes_simps]:
  "byte_of 3 (be32 a b c d) = a" "byte_of 2 (be32 a b c d) = b"
  "byte_of 1 (be32 a b c d) = c" "byte_of 0 (be32 a b c d) = d"
  by (rule bit_word_eqI; auto simp: be32_def byte_of_def bit_simps dest: bit_imp_le_length)+

lemmas be32_bytes_Suc [bytes_simps] = be32_bytes [unfolded One_nat_def]

lemma be32_sum: "push_bit 8 (push_bit 8 (push_bit 8 (ucast a) + ucast b) + ucast c) + ucast d = be32 a b c d"
proof -
  have step: "push_bit 8 w + ucast (x :: u8) = push_bit 8 w OR (ucast x :: u32)" for w x
    by (rule disjunctive_add) (auto simp: bit_simps dest: bit_imp_le_length)
  show ?thesis
    by (simp only: step) (simp add: be32_def or.assoc)
qed

lemma unat_ucast_up:
  "LENGTH('a :: len) \<le> LENGTH('b :: len) \<Longrightarrow> unat (ucast (w :: 'a word) :: 'b word) = unat w"
proof -
  assume "LENGTH('a) \<le> LENGTH('b)"
  then have "unat w < 2 ^ LENGTH('b)"
    using unsigned_less [of w, where ?'a = nat] by (meson le_less_trans less_le_trans one_le_numeral power_increasing not_le)
  then show ?thesis by (simp add: unsigned_ucast_eq take_bit_nat_eq_self)
qed

lemma unat_ucast_widen [simp]:
  "unat (ucast (b :: u8) :: u16) = unat b" "unat (ucast (b :: u8) :: u32) = unat b"
  "unat (ucast (h :: u16) :: u32) = unat h" "unat (ucast (w :: u32) :: u64) = unat w"
  by (simp_all add: unat_ucast_up)

lemma unat_u8_less: "unat (b :: u8) < 256"
  using unsigned_less [of b] by simp

lemma unat_u16_less: "unat (w :: u16) < 65536"
  using unsigned_less [of w] by simp

lemma unat_u32_less: "unat (w :: u32) < 4294967296"
  using unsigned_less [of w, where ?'a = nat] by simp

lemma unat_be16: "unat (be16 h l) = unat h * 256 + unat l"
proof -
  have "be16 h l = of_nat (unat h * 256 + unat l)"
  proof -
    have "push_bit 8 (ucast h :: u16) AND ucast l = 0"
      by (rule bit_word_eqI) (auto simp: bit_simps dest: bit_imp_le_length)
    then have "be16 h l = push_bit 8 (ucast h) + ucast l"
      by (simp add: be16_def disjunctive_add bit_eq_iff bit_simps)
    then show ?thesis
      by (simp add: push_bit_eq_mult)
  qed
  then have "unat (be16 h l) = (unat h * 256 + unat l) mod 2 ^ LENGTH(16)"
    by (simp only: unat_of_nat)
  moreover have "unat h * 256 + unat l < 2 ^ 16"
    using unat_u8_less [of h] unat_u8_less [of l] by simp
  ultimately show ?thesis by simp
qed

lemma ucast_and_FF: "(ucast (w AND 0xFF :: u32) :: u8) = ucast w"
proof -
  have *: "(0xFF :: u32) = mask 8" by (simp add: mask_eq_exp_minus_1)
  show ?thesis
    by (subst *, rule bit_word_eqI) (simp only: bit_simps, auto)
qed

section \<open>Exclusive or, iteration\<close>

lemma xor_eq_0_iff: "(a :: 'a :: len word) XOR b = 0 \<longleftrightarrow> a = b"
  by (metis xor.assoc xor.left_neutral xor_self_eq xor.right_neutral)

lemma xor_left_inject: "(c :: 'a :: len word) XOR x = c XOR y \<longleftrightarrow> x = y"
  by (metis xor.assoc xor.left_neutral xor_self_eq)

lemma xor_right_inject: "(x :: 'a :: len word) XOR c = y XOR c \<longleftrightarrow> x = y"
  by (simp only: xor.commute [of _ c] xor_left_inject)

lemma be16_inject: "be16 h l = be16 h' l' \<longleftrightarrow> h = h' \<and> l = l'"
  by (metis hi8_be16 lo8_be16)

lemma funpow8: "(f ^^ 8) x = f (f (f (f (f (f (f (f x)))))))"
  by (simp add: eval_nat_numeral)

end
