(* ===== verification/Crc16.thy ===== *)
theory Crc16
  imports Prelude
begin

text \<open>
  The CRC-16 of the Modbus RTU frames: the two lookup tables and the loop of
  \<open>MDB_Get_CRC16\<close> (APP/Src/ModBusRtu.c), and the bit-serial definition of the checksum
  (polynomial 0x8005, reflected, initial value 0xFFFF) that the tables are meant to implement.
  The lemmas show that the two agree, that a frame with its checksum appended has remainder 0,
  and that corruption within two neighbouring bytes is always noticed.
\<close>

definition auchCRCLo :: "u8 list" where
  "auchCRCLo = [
   0x00, 0xC1, 0x81, 0x40, 0x01, 0xC0, 0x80, 0x41, 0x01, 0xC0, 0x80, 0x41, 0x00, 0xC1, 0x81, 0x40,
   0x01, 0xC0, 0x80, 0x41, 0x00, 0xC1, 0x81, 0x40, 0x00, 0xC1, 0x81, 0x40, 0x01, 0xC0, 0x80, 0x41,
   0x01, 0xC0, 0x80, 0x41, 0x00, 0xC1, 0x81, 0x40, 0x00, 0xC1, 0x81, 0x40, 0x01, 0xC0, 0x80, 0x41,
   0x00, 0xC1, 0x81, 0x40, 0x01, 0xC0, 0x80, 0x41, 0x01, 0xC0, 0x80, 0x41, 0x00, 0xC1, 0x81, 0x40,
   0x01, 0xC0, 0x80, 0x41, 0x00, 0xC1, 0x81, 0x40, 0x00, 0xC1, 0x81, 0x40, 0x01, 0xC0, 0x80, 0x41,
   0x00, 0xC1, 0x81, 0x40, 0x01, 0xC0, 0x80, 0x41, 0x01, 0xC0, 0x80, 0x41, 0x00, 0xC1, 0x81, 0x40,
   0x00, 0xC1, 0x81, 0x40, 0x01, 0xC0, 0x80, 0x41, 0x01, 0xC0, 0x80, 0x41, 0x00, 0xC1, 0x81, 0x40,
   0x01, 0xC0, 0x80, 0x41, 0x00, 0xC1, 0x81, 0x40, 0x00, 0xC1, 0x81, 0x40, 0x01, 0xC0, 0x80, 0x41,
   0x01, 0xC0, 0x80, 0x41, 0x00, 0xC1, 0x81, 0x40, 0x00, 0xC1, 0x81, 0x40, 0x01, 0xC0, 0x80, 0x41,
   0x00, 0xC1, 0x81, 0x40, 0x01, 0xC0, 0x80, 0x41, 0x01, 0xC0, 0x80, 0x41, 0x00, 0xC1, 0x81, 0x40,
   0x00, 0xC1, 0x81, 0x40, 0x01, 0xC0, 0x80, 0x41, 0x01, 0xC0, 0x80, 0x41, 0x00, 0xC1, 0x81, 0x40,
   0x01, 0xC0, 0x80, 0x41, 0x00, 0xC1, 0x81, 0x40, 0x00, 0xC1, 0x81, 0x40, 0x01, 0xC0, 0x80, 0x41,
   0x00, 0xC1, 0x81, 0x40, 0x01, 0xC0, 0x80, 0x41, 0x01, 0xC0, 0x80, 0x41, 0x00, 0xC1, 0x81, 0x40,
   0x01, 0xC0, 0x80, 0x41, 0x00, 0xC1, 0x81, 0x40, 0x00, 0xC1, 0x81, 0x40, 0x01, 0xC0, 0x80, 0x41,
   0x01, 0xC0, 0x80, 0x41, 0x00, 0xC1, 0x81, 0x40, 0x00, 0xC1, 0x81, 0x40, 0x01, 0xC0, 0x80, 0x41,
   0x00, 0xC1, 0x81, 0x40, 0x01, 0xC0, 0x80, 0x41, 0x01, 0xC0, 0x80, 0x41, 0x00, 0xC1, 0x81, 0x40]"

definition auchCRCHi :: "u8 list" where
  "auchCRCHi = [
   0x00, 0xC0, 0xC1, 0x01, 0xC3, 0x03, 0x02, 0xC2, 0xC6, 0x06, 0x07, 0xC7, 0x05, 0xC5, 0xC4, 0x04,
   0xCC, 0x0C, 0x0D, 0xCD, 0x0F, 0xCF, 0xCE, 0x0E, 0x0A, 0xCA, 0xCB, 0x0B, 0xC9, 0x09, 0x08, 0xC8,
   0xD8, 0x18, 0x19, 0xD9, 0x1B, 0xDB, 0xDA, 0x1A, 0x1E, 0xDE, 0xDF, 0x1F, 0xDD, 0x1D, 0x1C, 0xDC,
   0x14, 0xD4, 0xD5, 0x15, 0xD7, 0x17, 0x16, 0xD6, 0xD2, 0x12, 0x13, 0xD3, 0x11, 0xD1, 0xD0, 0x10,
   0xF0, 0x30, 0x31, 0xF1, 0x33, 0xF3, 0xF2, 0x32, 0x36, 0xF6, 0xF7, 0x37, 0xF5, 0x35, 0x34, 0xF4,
   0x3C, 0xFC, 0xFD, 0x3D, 0xFF, 0x3F, 0x3E, 0xFE, 0xFA, 0x3A, 0x3B, 0xFB, 0x39, 0xF9, 0xF8, 0x38,
   0x28, 0xE8, 0xE9, 0x29, 0xEB, 0x2B, 0x2A, 0xEA, 0xEE, 0x2E, 0x2F, 0xEF, 0x2D, 0xED, 0xEC, 0x2C,
   0xE4, 0x24, 0x25, 0xE5, 0x27, 0xE7, 0xE6, 0x26, 0x22, 0xE2, 0xE3, 0x23, 0xE1, 0x21, 0x20, 0xE0,
   0xA0, 0x60, 0x61, 0xA1, 0x63, 0xA3, 0xA2, 0x62, 0x66, 0xA6, 0xA7, 0x67, 0xA5, 0x65, 0x64, 0xA4,
   0x6C, 0xAC, 0xAD, 0x6D, 0xAF, 0x6F, 0x6E, 0xAE, 0xAA, 0x6A, 0x6B, 0xAB, 0x69, 0xA9, 0xA8, 0x68,
   0x78, 0xB8, 0xB9, 0x79, 0xBB, 0x7B, 0x7A, 0xBA, 0xBE, 0x7E, 0x7F, 0xBF, 0x7D, 0xBD, 0xBC, 0x7C,
   0xB4, 0x74, 0x75, 0xB5, 0x77, 0xB7, 0xB6, 0x76, 0x72, 0xB2, 0xB3, 0x73, 0xB1, 0x71, 0x70, 0xB0,
   0x50, 0x90, 0x91, 0x51, 0x93, 0x53, 0x52, 0x92, 0x96, 0x56, 0x57, 0x97, 0x55, 0x95, 0x94, 0x54,
   0x9C, 0x5C, 0x5D, 0x9D, 0x5F, 0x9F, 0x9E, 0x5E, 0x5A, 0x9A, 0x9B, 0x5B, 0x99, 0x59, 0x58, 0x98,
   0x88, 0x48, 0x49, 0x89, 0x4B, 0x8B, 0x8A, 0x4A, 0x4E, 0x8E, 0x8F, 0x4F, 0x8D, 0x4D, 0x4C, 0x8C,
   0x44, 0x84, 0x85, 0x45, 0x87, 0x47, 0x46, 0x86, 0x82, 0x42, 0x43, 0x83, 0x41, 0x81, 0x80, 0x40]"

text \<open>The loop \<open>while (MsgLen--)\<close>, with the pointer \<open>Msg\<close> advancing through the message.\<close>

fun crc_loop :: "u8 \<Rightarrow> u8 \<Rightarrow> u8 list \<Rightarrow> u8 \<times> u8" where
  "crc_loop CRCLo CRCHi [] = (CRCLo, CRCHi)"
| "crc_loop CRCLo CRCHi (b # Msg) =
     (let uIndex = CRCLo XOR b
      in crc_loop (CRCHi XOR auchCRCLo ! unat uIndex) (auchCRCHi ! unat uIndex) Msg)"

definition MDB_Get_CRC16 :: "u8 list \<Rightarrow> u16" where
  "MDB_Get_CRC16 Msg = (case crc_loop 0xFF 0xFF Msg of (CRCLo, CRCHi) \<Rightarrow> be16 CRCHi CRCLo)"

section \<open>The bit-serial checksum\<close>

definition crc_bit :: "u16 \<Rightarrow> u16" where
  "crc_bit c = (if bit c 0 then drop_bit 1 c XOR 0xA001 else drop_bit 1 c)"

definition crc_byte :: "u16 \<Rightarrow> u8 \<Rightarrow> u16" where
  "crc_byte c b = (crc_bit ^^ 8) (c XOR ucast b)"

definition crc16_spec :: "u8 list \<Rightarrow> u16" where
  "crc16_spec Msg = foldl crc_byte 0xFFFF Msg"

section \<open>Linearity of the bit-serial step\<close>

lemma crc_bit_xor: "crc_bit (a XOR b) = crc_bit a XOR crc_bit b"
  by (simp add: crc_bit_def bit_simps ac_simps)

lemma crc_bits_xor: "(crc_bit ^^ n) (a XOR b) = (crc_bit ^^ n) a XOR (crc_bit ^^ n) b"
  by (induction n) (simp_all add: crc_bit_xor)

lemma crc_bit_eq_0: 
  assumes "crc_bit c = 0"
  shows "c = 0"
proof (rule bit_word_eqI)
  fix n assume n: "n < LENGTH(16)"
  have "\<not> bit (crc_bit c) m" for m using assms by simp
  note low = this
  have "\<not> bit c 0"
    using low [of 15] by (auto simp: crc_bit_def bit_simps dest: bit_imp_le_length split: if_splits)
  with low [of "n - 1"] show "bit c n = bit 0 n"
    by (cases n) (auto simp: crc_bit_def bit_simps split: if_splits)
qed

lemma crc_bit_inj: "crc_bit a = crc_bit b \<longleftrightarrow> a = b"
  using crc_bit_eq_0 [of "a XOR b"] by (auto simp: crc_bit_xor xor_eq_0_iff)

lemma crc_bits_inj: "(crc_bit ^^ n) a = (crc_bit ^^ n) b \<longleftrightarrow> a = b"
  by (induction n) (simp_all add: crc_bit_inj)

lemma crc_bit_shift: "n < 8 \<Longrightarrow> crc_bit (push_bit (Suc n) (ucast (y :: u8))) = push_bit n (ucast y)"
  apply (simp add: crc_bit_def bit_simps del: push_bit_Suc)
  apply (rule bit_word_eqI)
  apply (auto simp: bit_simps dest: bit_imp_le_length simp del: push_bit_Suc)
  done

lemma crc_bits_shift: "n \<le> 8 \<Longrightarrow> (crc_bit ^^ n) (push_bit n (ucast (y :: u8))) = ucast y"
  by (induction n) (simp_all add: crc_bit_shift funpow_swap1 del: push_bit_Suc)

section \<open>The lookup tables\<close>

text \<open>
  Halving is the bit-serial step on even indices and the tables are linear on the lowest
  bit, so 256 single steps over the literal tables determine every entry.
\<close>

definition crc_table :: "u16 list" where "crc_table = map2 be16 auchCRCHi auchCRCLo"

fun evens :: "'a list \<Rightarrow> 'a list" where
  "evens (x # y # xs) = x # evens xs"
| "evens xs = []"

fun odds :: "'a list \<Rightarrow> 'a list" where
  "odds (x # y # xs) = y # odds xs"
| "odds xs = []"

lemma evens_nth: "2 * k + 1 < length xs \<Longrightarrow> evens xs ! k = xs ! (2 * k)"
  by (induction xs arbitrary: k rule: evens.induct) (auto simp: nth_Cons' Suc_diff_Suc numeral_2_eq_2)

lemma odds_nth: "2 * k + 1 < length xs \<Longrightarrow> odds xs ! k = xs ! (2 * k + 1)"
  by (induction xs arbitrary: k rule: evens.induct) (auto simp: nth_Cons' Suc_diff_Suc numeral_2_eq_2)

lemma crc_table_halves: "map crc_bit (evens crc_table) = take 128 crc_table"
  by (simp add: crc_bit_def crc_table_def auchCRCHi_def auchCRCLo_def be16_def)

lemma crc_table_odd: "odds crc_table = map (\<lambda>x. x XOR 0xC0C1) (evens crc_table)"
  by (simp add: crc_bit_def crc_table_def auchCRCHi_def auchCRCLo_def be16_def)

lemma crc_table_0: "crc_table ! 0 = 0"
  by (simp add: crc_bit_def crc_table_def auchCRCHi_def auchCRCLo_def be16_def)
lemma crc_table_len: "length auchCRCHi = 256" "length auchCRCLo = 256" "length crc_table = 256" 
  by (simp_all add: crc_table_def auchCRCHi_def auchCRCLo_def be16_def)

lemma crc_bits_1: "(crc_bit ^^ 8) 1 = 0xC0C1"
  by (simp add: funpow8 crc_bit_def)

lemma crc_bit_double: "k < 128 \<Longrightarrow> crc_bit (of_nat (2 * k)) = of_nat k"
proof -
  assume "k < 128"
  then have "ucast (of_nat k :: u8) = (of_nat k :: u16)"
    by (intro word_unat_eq_iff [THEN iffD2]) (simp add: unat_of_nat unsigned_ucast_eq take_bit_nat_eq_self)
  with crc_bit_shift [of 0 "of_nat k"] show ?thesis
    by (simp add: mult.commute)
qed

lemma crc_table_even: "k < 128 \<Longrightarrow> crc_bit (crc_table ! (2 * k)) = crc_table ! k"
proof -
  assume k: "k < 128"
  have len: "length (evens crc_table) = 128"
    using crc_table_halves by (auto dest: arg_cong [where f = length] simp: crc_table_len)
  have "map crc_bit (evens crc_table) ! k = take 128 crc_table ! k"
    by (simp only: crc_table_halves)
  with k len show ?thesis by (simp add: evens_nth crc_table_len)
qed

lemma crc_table_succ: "k < 128 \<Longrightarrow> crc_table ! (2 * k + 1) = crc_table ! (2 * k) XOR 0xC0C1"
proof -
  assume k: "k < 128"
  have len: "length (evens crc_table) = 128"
    using crc_table_halves by (auto dest: arg_cong [where f = length] simp: crc_table_len)
  have "odds crc_table ! k = map (\<lambda>x. x XOR 0xC0C1) (evens crc_table) ! k"
    by (simp only: crc_table_odd)
  with k len show ?thesis
    by (simp add: evens_nth odds_nth crc_table_len)
qed

lemma crc_table_eq_even:
  assumes "k < 128" "0 < k \<Longrightarrow> crc_table ! k = (crc_bit ^^ 8) (of_nat k)"
  shows "crc_table ! (2 * k) = (crc_bit ^^ 8) (of_nat (2 * k))"
proof (cases "k = 0")
  case True
  have "(crc_bit ^^ 8) 0 = 0" by (simp add: funpow8 crc_bit_def)
  with True show ?thesis by (simp add: crc_table_0)
next
  case False
  with assms(2) have "crc_table ! k = (crc_bit ^^ 8) (of_nat k)" by simp
  then have "crc_bit (crc_table ! (2 * k)) = (crc_bit ^^ 8) (crc_bit (of_nat (2 * k)))"
    by (simp only: crc_table_even [OF assms(1)] crc_bit_double [OF assms(1)])
  also have "\<dots> = crc_bit ((crc_bit ^^ 8) (of_nat (2 * k)))"
    by (simp only: funpow_swap1)
  finally show ?thesis by (simp only: crc_bit_inj)
qed

lemma crc_table_eq: "n < 256 \<Longrightarrow> crc_table ! n = (crc_bit ^^ 8) (of_nat n)"
proof (induction n rule: less_induct)
  case (less n)
  define k where "k = n div 2"
  have k: "k < 128" using less.prems by (simp add: k_def)
  have ev: "crc_table ! (2 * k) = (crc_bit ^^ 8) (of_nat (2 * k))"
    by (rule crc_table_eq_even [OF k], rule less.IH) (use k in \<open>simp_all add: k_def\<close>)
  show ?case
  proof (cases "even n")
    case True
    then have "n = 2 * k" by (simp add: k_def)
    with ev show ?thesis by simp
  next
    case False
    then have n: "n = 2 * k + 1" by (simp add: k_def)
    have "of_nat n = of_nat (2 * k) XOR (1 :: u16)"
      by (simp add: n xor_one_eq)
    then have "(crc_bit ^^ 8) (of_nat n) = crc_table ! (2 * k) XOR 0xC0C1"
      by (simp only: crc_bits_xor crc_bits_1 ev)
    then show ?thesis using crc_table_succ [OF k] n by simp
  qed
qed

section \<open>The table-driven loop computes the bit-serial checksum\<close>

lemma crc_byte_table:
  "crc_byte (be16 h l) b =
     be16 (auchCRCHi ! unat (l XOR b)) (h XOR auchCRCLo ! unat (l XOR b))"
proof -
  let ?i = "l XOR b"
  have i: "unat ?i < 256" by (rule unat_u8_less)
  have "be16 h l XOR ucast b = push_bit 8 (ucast h) XOR ucast ?i"
    by (rule bit_word_eqI) (auto simp: be16_def bit_simps dest: bit_imp_le_length)
  then have "crc_byte (be16 h l) b = ucast h XOR (crc_bit ^^ 8) (ucast ?i)"
    by (simp only: crc_byte_def crc_bits_xor crc_bits_shift [OF order_refl])
  also have "(crc_bit ^^ 8) (ucast ?i) = crc_table ! unat ?i"
    using crc_table_eq [OF i] by simp
  also have "\<dots> = be16 (auchCRCHi ! unat ?i) (auchCRCLo ! unat ?i)"
    using i by (simp add: crc_table_def crc_table_len)
  also have "ucast h XOR \<dots> = be16 (auchCRCHi ! unat ?i) (h XOR auchCRCLo ! unat ?i)"
    by (rule bit_word_eqI) (auto simp: be16_def bit_simps dest: bit_imp_le_length)
  finally show ?thesis .
qed

lemma crc_loop_spec:
  "(case crc_loop l h Msg of (lo, hi) \<Rightarrow> be16 hi lo) = foldl crc_byte (be16 h l) Msg"
  by (induction Msg arbitrary: l h) (simp_all add: Let_def crc_byte_table)

lemma be16_ones: "be16 0xFF 0xFF = 0xFFFF"
  by (simp add: be16_def)

lemma MDB_Get_CRC16_foldl: "MDB_Get_CRC16 Msg = foldl crc_byte 0xFFFF Msg"
  by (simp add: MDB_Get_CRC16_def crc_loop_spec be16_ones)

section \<open>Remainders and error detection\<close>

lemma crc_byte_inj: "crc_byte c b = crc_byte d b \<longleftrightarrow> c = d"
  by (simp add: crc_byte_def crc_bits_inj xor_right_inject)

lemma crc_fold_inj: "foldl crc_byte c Msg = foldl crc_byte d Msg \<longleftrightarrow> c = d"
  by (induction Msg arbitrary: c d) (simp_all add: crc_byte_inj)

lemma crc_two_bytes: "crc_byte (crc_byte c a) b = (crc_bit ^^ 16) (c XOR be16 b a)"
proof -
  have "crc_byte (crc_byte c a) b
      = (crc_bit ^^ 8) ((crc_bit ^^ 8) (c XOR ucast a) XOR (crc_bit ^^ 8) (push_bit 8 (ucast b)))"
    by (simp only: crc_byte_def crc_bits_shift [OF order_refl])
  also have "\<dots> = (crc_bit ^^ 8) ((crc_bit ^^ 8) ((c XOR ucast a) XOR push_bit 8 (ucast b)))"
    by (simp only: crc_bits_xor)
  also have "(c XOR ucast a) XOR push_bit 8 (ucast b) = c XOR be16 b a"
    by (rule bit_word_eqI) (auto simp: be16_def bit_simps dest: bit_imp_le_length)
  finally show ?thesis
    by (simp flip: funpow_add [THEN fun_cong, unfolded comp_def])
qed

lemma crc_bits_0: "(crc_bit ^^ n) c = 0 \<longleftrightarrow> c = 0"
proof -
  have "(crc_bit ^^ n) 0 = 0" by (induction n) (simp_all add: crc_bit_def)
  then show ?thesis using crc_bits_inj [of n c 0] by simp
qed

lemma crc_remainder: "foldl crc_byte c (Msg @ [lo, hi]) = 0 \<longleftrightarrow> foldl crc_byte c Msg = be16 hi lo"
  by (simp add: crc_two_bytes crc_bits_0 xor_eq_0_iff)

text \<open>Messages that differ within two neighbouring bytes have different checksums.\<close>

lemma crc_burst:
  assumes "(a, b) \<noteq> (a', b')"
  shows "foldl crc_byte c (p @ [a, b] @ q) \<noteq> foldl crc_byte c (p @ [a', b'] @ q)"
  using assms by (auto simp: crc_fold_inj crc_two_bytes crc_bits_inj xor_left_inject be16_inject) 

section \<open>Claims\<close>

text \<open>C37.  The table-driven loop of MDB_Get_CRC16 computes the bit-serial CRC-16 with the
  reflected polynomial 0xA001 and initial value 0xFFFF, on every message.\<close>

theorem crc_table_driven: "MDB_Get_CRC16 Msg = crc16_spec Msg"
  by (simp add: MDB_Get_CRC16_foldl crc16_spec_def)

text \<open>A frame is a message followed by its checksum, low byte first: the checksum over the
  whole frame is 0 exactly when the last two bytes are the checksum of the rest.\<close>

theorem crc_frame_remainder:
  "MDB_Get_CRC16 (Msg @ [lo, hi]) = 0 \<longleftrightarrow> lo = lo8 (MDB_Get_CRC16 Msg) \<and> hi = hi8 (MDB_Get_CRC16 Msg)"
  by (simp only: MDB_Get_CRC16_foldl crc_remainder) (auto simp: bytes_simps)

text \<open>A frame with remainder 0 that is changed within two neighbouring bytes no longer has
  remainder 0: every such corruption is noticed.\<close>

theorem crc_detects_burst:
  assumes "MDB_Get_CRC16 (p @ [a, b] @ q) = 0" and "(a, b) \<noteq> (a', b')"
  shows "MDB_Get_CRC16 (p @ [a', b'] @ q) \<noteq> 0"
  using assms crc_burst [OF assms(2), of "0xFFFF" p q] by (simp only: MDB_Get_CRC16_foldl)

theorem crc_detects_burst_witness:
  "MDB_Get_CRC16 ([1, 3, 0] @ [0x31, 0] @ [1, 0x84, 0x05]) \<noteq> 0"
proof (rule crc_detects_burst [where a = "0x30" and b = 0])
  show "MDB_Get_CRC16 ([1, 3, 0] @ [0x30, 0] @ [1, 0x84, 0x05]) = 0"
    by code_simp
qed simp

end
