(* ===== verification/TypeConvert.thy ===== *)
theory TypeConvert
  imports Prelude "HOL-Library.Multiset"
begin

text \<open>
  The conversions and the trimmed mean of APP/Src/TypeConvert.c.  A C \<open>float\<close> is its 32-bit
  pattern here, which is all these routines look at.  Array accesses are checked
  (\<open>None\<close> outside the array) and the loop bounds are computed in 32-bit unsigned
  arithmetic as in the code.  The reference for the trimmed mean is: sort the samples, drop
  the smallest and the largest, average the rest.
\<close>

section \<open>Byte conversions\<close>

definition HexToUlong :: "u8 list \<Rightarrow> u32 option" where
  "HexToUlong pData = do {
     b0 \<leftarrow> rd pData 0; let Data = ucast b0;
     let Data = push_bit 8 Data; b1 \<leftarrow> rd pData 1; let Data = Data + ucast b1;
     let Data = push_bit 8 Data; b2 \<leftarrow> rd pData 2; let Data = Data + ucast b2;
     let Data = push_bit 8 Data; b3 \<leftarrow> rd pData 3; let Data = Data + ucast b3;
     Some Data }"

text \<open>\<open>HexToFloat\<close> builds the same word and reads it back as a \<open>float\<close>.\<close>

definition HexToFloat :: "u8 list \<Rightarrow> u32 option" where
  "HexToFloat pData = do {
     b0 \<leftarrow> rd pData 0; let Data = ucast b0;
     let Data = push_bit 8 Data; b1 \<leftarrow> rd pData 1; let Data = Data + ucast b1;
     let Data = push_bit 8 Data; b2 \<leftarrow> rd pData 2; let Data = Data + ucast b2;
     let Data = push_bit 8 Data; b3 \<leftarrow> rd pData 3; let Data = Data + ucast b3;
     Some Data }"

text \<open>The loop of \<open>floatToHexArray\<close> at index \<open>i\<close>, \<open>k\<close> iterations left.  A shift by 32 or more
  is undefined in C, hence \<open>None\<close>.\<close>

fun floatToHex_loop :: "u32 \<Rightarrow> nat \<Rightarrow> nat \<Rightarrow> nat \<Rightarrow> u8 list \<Rightarrow> u8 list option" where
  "floatToHex_loop u32Source num i 0 pu8Temp = Some pu8Temp"
| "floatToHex_loop u32Source num i (Suc k) pu8Temp =
     (if 32 \<le> 8 * i then None
      else do { pu8Temp \<leftarrow> wr pu8Temp (num - i - 1) (ucast (drop_bit (8 * i) u32Source AND 0xFF));
                floatToHex_loop u32Source num (Suc i) k pu8Temp })"

definition floatToHexArray :: "u32 \<Rightarrow> u8 list \<Rightarrow> u16 \<Rightarrow> u8 list option" where
  "floatToHexArray fSource pu8Temp num =
     floatToHex_loop fSource (unat num) 0 (unat num) pu8Temp"

section \<open>Partial sorting from both ends\<close>

definition sub32 :: "nat \<Rightarrow> nat \<Rightarrow> nat" where
  "sub32 a b = (a + 2 ^ 32 - b) mod 2 ^ 32"

definition cmp_swap :: "u32 list \<Rightarrow> nat \<Rightarrow> nat \<Rightarrow> u32 list option" where
  "cmp_swap Array j k = do {
     a \<leftarrow> rd Array j; b \<leftarrow> rd Array k;
     if a > b then do { temp \<leftarrow> rd Array j;
                        Array' \<leftarrow> wr Array j b; wr Array' k temp }
     else Some Array }"

text \<open>\<open>tail_pass n j\<close>: the inner loop upwards from \<open>j\<close>, \<open>n\<close> iterations; \<open>head_pass n j\<close>: the
  inner loop downwards from \<open>j\<close>.\<close>

fun tail_pass :: "nat \<Rightarrow> nat \<Rightarrow> u32 list \<Rightarrow> u32 list option" where
  "tail_pass 0 j Array = Some Array"
| "tail_pass (Suc n) j Array = do { Array \<leftarrow> cmp_swap Array j (j + 1); tail_pass n (j + 1) Array }"

fun head_pass :: "nat \<Rightarrow> nat \<Rightarrow> u32 list \<Rightarrow> u32 list option" where
  "head_pass 0 j Array = Some Array"
| "head_pass (Suc n) j Array = do { Array \<leftarrow> cmp_swap Array (j - 1) j; head_pass n (j - 1) Array }"

fun tail_passes :: "nat \<Rightarrow> nat \<Rightarrow> nat \<Rightarrow> u32 list \<Rightarrow> u32 list option" where
  "tail_passes ArraySize i 0 Array = Some Array"
| "tail_passes ArraySize i (Suc k) Array = do {
     Array \<leftarrow> tail_pass (sub32 (sub32 ArraySize i) 1) 0 Array;
     tail_passes ArraySize (Suc i) k Array }"

fun head_passes :: "nat \<Rightarrow> nat \<Rightarrow> nat \<Rightarrow> nat \<Rightarrow> u32 list \<Rightarrow> u32 list option" where
  "head_passes ArraySize SortTailSize i 0 Array = Some Array"
| "head_passes ArraySize SortTailSize i (Suc k) Array = do {
     let top = sub32 (sub32 ArraySize SortTailSize) 1;
     Array \<leftarrow> head_pass (top - i) top Array;
     head_passes ArraySize SortTailSize (Suc i) k Array }"

definition SortArrayExtreme :: "u32 list \<Rightarrow> u32 \<Rightarrow> u32 \<Rightarrow> u32 \<Rightarrow> u32 list option" where
  "SortArrayExtreme Array ArraySize SortHeadSize SortTailSize = do {
     Array \<leftarrow> tail_passes (unat ArraySize) 0 (unat SortTailSize) Array;
     head_passes (unat ArraySize) (unat SortTailSize) 0 (unat SortHeadSize) Array }"

fun sum_loop :: "nat \<Rightarrow> nat \<Rightarrow> u32 list \<Rightarrow> u64 \<Rightarrow> u64 option" where
  "sum_loop i 0 Array acc = Some acc"
| "sum_loop i (Suc k) Array acc = do { x \<leftarrow> rd Array i; sum_loop (Suc i) k Array (acc + ucast x) }"

definition GetAverage :: "u32 list \<Rightarrow> u32 \<Rightarrow> u32 \<Rightarrow> u32 \<Rightarrow> u32 option" where
  "GetAverage Array ArraySize DelHeadSize DelTailSize =
     (if DelHeadSize + DelTailSize \<ge> ArraySize then Some 0
      else do {
        total \<leftarrow> sum_loop (unat DelHeadSize) (unat (ArraySize - DelTailSize) - unat DelHeadSize) Array 0;
        Some (ucast (total div ucast (ArraySize - DelHeadSize - DelTailSize))) })"

definition GetDelExtremeAndAverage :: "u32 list \<Rightarrow> u32 \<Rightarrow> u32 \<Rightarrow> u32 \<Rightarrow> (u32 list \<times> u32) option" where
  "GetDelExtremeAndAverage Array ArraySize SortHeadSize SortTailSize = do {
     Array \<leftarrow> SortArrayExtreme Array ArraySize SortHeadSize SortTailSize;
     avg \<leftarrow> GetAverage Array ArraySize SortHeadSize SortTailSize;
     Some (Array, avg) }"

section \<open>The passes as list functions\<close>

text \<open>\<open>sink\<close> carries the largest element to the end, \<open>float_up\<close> the smallest to the front.\<close>

fun sink :: "'a :: linorder list \<Rightarrow> 'a list" where
  "sink (x # y # xs) = (if x > y then y # sink (x # xs) else x # sink (y # xs))"
| "sink xs = xs"

fun float_up :: "'a :: linorder list \<Rightarrow> 'a list" where
  "float_up [] = []"
| "float_up (x # xs) =
     (case float_up xs of [] \<Rightarrow> [x] | y # ys \<Rightarrow> if x > y then y # x # ys else x # y # ys)"

lemma mset_sink [simp]: "mset (sink xs) = mset xs"
  by (induction xs rule: sink.induct) auto

lemma mset_float_up [simp]: "mset (float_up xs) = mset xs"
  by (induction xs) (auto split: list.splits)

lemma length_sink [simp]: "length (sink xs) = length xs"
  by (metis mset_sink size_mset)

lemma length_float_up [simp]: "length (float_up xs) = length xs"
  by (metis mset_float_up size_mset)

lemma set_sink [simp]: "set (sink xs) = set xs"
  by (metis mset_sink set_mset_mset)

lemma set_float_up [simp]: "set (float_up xs) = set xs"
  by (metis mset_float_up set_mset_mset)

lemma sink_Nil_iff [simp]: "sink xs = [] \<longleftrightarrow> xs = []"
  by (metis length_0_conv length_sink)

lemma sink_last_max: "x \<in> set xs \<Longrightarrow> x \<le> last (sink xs)"
proof (induction xs arbitrary: x rule: sink.induct)
  case (1 a b zs)
  show ?case
  proof (cases "a > b")
    case True
    with "1.IH"(1) [of a] "1.IH"(1) [of x] "1.prems" show ?thesis
      by (auto intro: order_trans [OF less_imp_le])
  next
    case False
    with "1.IH"(2) [of b] "1.IH"(2) [of x] "1.prems" show ?thesis
      by (auto intro: order_trans)
  qed
qed auto

lemma float_up_Nil_iff [simp]: "float_up xs = [] \<longleftrightarrow> xs = []"
  by (metis length_0_conv length_float_up)

lemma float_up_hd_min: "x \<in> set xs \<Longrightarrow> hd (float_up xs) \<le> x"
  by (induction xs) (auto split: list.splits if_splits)

lemma cmp_swap_sink:
  assumes "length p = j"
  shows "cmp_swap (p @ x # y # xs) j (j + 1) =
           Some (p @ (if x > y then y # x # xs else x # y # xs))"
  using assms by (auto simp: cmp_swap_def nth_append list_update_append)

lemma tail_pass_sink:
  "length p = j \<Longrightarrow> n + 1 = length xs \<Longrightarrow> tail_pass n j (p @ xs @ s) = Some (p @ sink xs @ s)"
proof (induction n arbitrary: p j xs)
  case 0
  then obtain x where "xs = [x]" by (cases xs) auto
  then show ?case by simp
next
  case (Suc n)
  then obtain x y zs where xs: "xs = x # y # zs"
    by (metis One_nat_def Suc_eq_plus1 length_Suc_conv)
  let ?m = "if x > y then y else x" and ?M = "if x > y then x else y"
  have "tail_pass (Suc n) j (p @ xs @ s) = tail_pass n (j + 1) ((p @ [?m]) @ (?M # zs) @ s)"
    using Suc.prems cmp_swap_sink [of p j x y "zs @ s"] by (simp add: xs)
  also have "\<dots> = Some ((p @ [?m]) @ sink (?M # zs) @ s)"
    by (rule Suc.IH) (use Suc.prems xs in auto)
  finally show ?case by (simp add: xs)
qed

lemma head_pass_float_up:
  "length p + n = j \<Longrightarrow> length xs = n \<Longrightarrow> ys \<noteq> [] \<Longrightarrow> float_up ys = ys' \<Longrightarrow>
   head_pass n j (p @ xs @ ys' @ s) = Some (p @ float_up (xs @ ys) @ s)"
proof (induction n arbitrary: j xs ys ys')
  case 0
  then show ?case by simp
next
  case (Suc n)
  from Suc.prems obtain zs x where xs: "xs = zs @ [x]"
    by (metis length_0_conv nat.distinct(1) rev_exhaust)
  from Suc.prems obtain y us where ys': "ys' = y # us"
    by (metis length_0_conv length_float_up neq_Nil_conv)
  have fx: "float_up (x # ys) = (if x > y then y # x # us else x # y # us)"
    using Suc.prems ys' by simp
  have j: "j - 1 = length (p @ zs)" "j - 1 + 1 = j" using Suc.prems xs by auto
  have "cmp_swap ((p @ zs) @ x # y # us @ s) (j - 1) j
      = Some ((p @ zs) @ (if x > y then y # x # us @ s else x # y # us @ s))"
    using cmp_swap_sink [of "p @ zs" "j - 1" x y "us @ s"] j by simp
  then have "head_pass (Suc n) j (p @ xs @ ys' @ s)
      = head_pass n (j - 1) (p @ zs @ float_up (x # ys) @ s)"
    by (simp add: xs ys' fx del: float_up.simps)
  also have "\<dots> = Some (p @ float_up (zs @ x # ys) @ s)"
    by (rule Suc.IH) (use Suc.prems xs in auto)
  finally show ?case by (simp add: xs)
qed

section \<open>Both ends sorted\<close>

definition dominates :: "'a :: linorder list \<Rightarrow> 'a list \<Rightarrow> bool" where
  "dominates hi lo \<longleftrightarrow> (\<forall>x \<in> set lo. \<forall>y \<in> set hi. x \<le> y)"

lemma sub32_less: "b \<le> a \<Longrightarrow> a < 2 ^ 32 \<Longrightarrow> sub32 a b = a - b"
proof -
  assume *: "b \<le> a" "a < 2 ^ 32"
  then have "a + 2 ^ 32 - b = (a - b) + 2 ^ 32" by simp
  then have "sub32 a b = (a - b) mod 2 ^ 32" by (simp only: sub32_def mod_add_self2)
  then show ?thesis using * by simp
qed

lemma sorted_Cons_dominates: "sorted S \<Longrightarrow> dominates S [x] \<Longrightarrow> sorted (x # S)"
  by (auto simp: dominates_def)

lemma sink_split:
  assumes "P \<noteq> []" "dominates S P" "sorted S"
  obtains Q x where "sink P = Q @ [x]" "sorted (x # S)" "dominates (x # S) Q"
proof -
  have sp: "sink P = butlast (sink P) @ [last (sink P)]"
    using assms(1) by simp
  have last_in: "last (sink P) \<in> set P"
    using assms(1) by (metis last_in_set set_sink sink_Nil_iff)
  have "dominates (last (sink P) # S) (butlast (sink P))"
    using assms sink_last_max [of _ P]
    by (auto simp: dominates_def dest!: in_set_butlastD)
  moreover have "sorted (last (sink P) # S)"
    using assms last_in by (auto simp: dominates_def)
  ultimately show thesis using sp that by blast
qed

lemma tail_passes_ok:
  assumes "length (P @ S) = n" "n < 2 ^ 32" "length S = i" "i + k \<le> n" "sorted S" "dominates S P"
  shows "\<exists>P' S'. tail_passes n i k (P @ S) = Some (P' @ S') \<and> length S' = i + k \<and> sorted S' \<and>
           dominates S' P' \<and> mset (P' @ S') = mset (P @ S)"
  using assms
proof (induction k arbitrary: P S i)
  case 0
  then show ?case by fastforce
next
  case (Suc k)
  then have "P \<noteq> []" by auto
  then obtain Q x where Q: "sink P = Q @ [x]" "sorted (x # S)" "dominates (x # S) Q"
    using Suc.prems sink_split by blast
  have lim: "sub32 (sub32 n i) 1 = n - i - 1"
    using Suc.prems by (simp add: sub32_less)
  have "tail_pass (n - i - 1) 0 ([] @ P @ S) = Some ([] @ sink P @ S)"
    by (rule tail_pass_sink) (use Suc.prems in auto)
  then have step: "tail_passes n i (Suc k) (P @ S) = tail_passes n (Suc i) k (Q @ x # S)"
    by (simp add: lim Q(1) del: One_nat_def)
  have len: "length Q + 1 = length P" using Q(1) by (metis length_append_singleton length_sink Suc_eq_plus1)
  have ms: "mset (Q @ x # S) = mset (P @ S)"
    using arg_cong [OF Q(1), of mset] by simp
  have "\<exists>P' S'. tail_passes n (Suc i) k (Q @ x # S) = Some (P' @ S') \<and> length S' = Suc i + k \<and>
           sorted S' \<and> dominates S' P' \<and> mset (P' @ S') = mset (Q @ x # S)"
    by (rule Suc.IH) (use Suc.prems Q len in auto)
  then show ?case by (simp only: step ms) simp
qed

lemma head_passes_ok:
  assumes "length (H @ M @ S) = n" "n < 2 ^ 32" "length H = i" "length S = t" "i + k + t \<le> n" "t < n"
    "sorted H" "dominates (M @ S) H" "dominates S M"
  shows "\<exists>H' M'. head_passes n t i k (H @ M @ S) = Some (H' @ M' @ S) \<and> length H' = i + k \<and>
           sorted H' \<and> dominates (M' @ S) H' \<and> dominates S M' \<and> mset (H' @ M') = mset (H @ M)"
  using assms
proof (induction k arbitrary: H M i)
  case 0
  then show ?case by fastforce
next
  case (Suc k)
  then have "M \<noteq> []" by auto
  then obtain M0 z where M: "M = M0 @ [z]" by (metis rev_exhaust)
  obtain y U where fM: "float_up M = y # U" using \<open>M \<noteq> []\<close> by (metis float_up_Nil_iff list.exhaust)
  have y_min: "\<forall>x \<in> set M. y \<le> x" using float_up_hd_min [of _ M] fM by simp
  have sU: "set M = insert y (set U)" using set_float_up [of M] fM by simp
  have top: "sub32 (sub32 n t) 1 = n - t - 1"
    using Suc.prems by (simp add: sub32_less)
  have "head_pass (n - t - 1 - i) (n - t - 1) (H @ M0 @ [z] @ S) = Some (H @ float_up (M0 @ [z]) @ S)"
    by (rule head_pass_float_up) (use Suc.prems M in auto)
  then have step: "head_passes n t i (Suc k) (H @ M @ S) = head_passes n t (Suc i) k ((H @ [y]) @ U @ S)"
    by (simp add: top M fM [unfolded M] Let_def del: One_nat_def)
  have len: "length M = Suc (length U)" using length_float_up [of M] fM by simp
  have ms: "mset ((H @ [y]) @ U) = mset (H @ M)"
    using mset_float_up [of M] fM by simp
  have "\<exists>H' M'. head_passes n t (Suc i) k ((H @ [y]) @ U @ S) = Some (H' @ M' @ S) \<and>
           length H' = Suc i + k \<and> sorted H' \<and> dominates (M' @ S) H' \<and> dominates S M' \<and>
           mset (H' @ M') = mset ((H @ [y]) @ U)"
  proof (rule Suc.IH)
    show "sorted (H @ [y])"
      using Suc.prems sU by (auto simp: sorted_append dominates_def)
    show "dominates (U @ S) (H @ [y])"
      using Suc.prems sU y_min
      by (auto simp: dominates_def)
    show "dominates S U"
      using Suc.prems sU by (auto simp: dominates_def)
  qed (use Suc.prems len in auto)
  then show ?case by (simp only: step ms) simp
qed
lemma SortArrayExtreme_ok:
  assumes "length A = unat n" "unat h + unat t < unat n"
  shows "\<exists>H M T. SortArrayExtreme A n h t = Some (H @ M @ T) \<and> length H = unat h \<and>
           length T = unat t \<and> mset (H @ M @ T) = mset A \<and> sorted H \<and> sorted T \<and>
           dominates (M @ T) H \<and> dominates T M"
proof -
  have n: "unat n < 2 ^ 32" using unat_u32_less [of n] by simp
  have "\<exists>P T. tail_passes (unat n) 0 (unat t) (A @ []) = Some (P @ T) \<and> length T = 0 + unat t \<and>
          sorted T \<and> dominates T P \<and> mset (P @ T) = mset (A @ [])"
    by (rule tail_passes_ok) (use assms n in \<open>auto simp: dominates_def\<close>)
  then obtain P T where P: "tail_passes (unat n) 0 (unat t) A = Some (P @ T)" "length T = unat t"
      "sorted T" "dominates T P" "mset (P @ T) = mset A"
    by auto
  have lenP: "length (P @ T) = unat n"
    using P(5) assms(1) by (metis size_mset)
  have "\<exists>H M. head_passes (unat n) (unat t) 0 (unat h) ([] @ P @ T) = Some (H @ M @ T) \<and>
          length H = 0 + unat h \<and> sorted H \<and> dominates (M @ T) H \<and> dominates T M \<and>
          mset (H @ M) = mset ([] @ P)"
    by (rule head_passes_ok) (use assms n P lenP in \<open>auto simp: dominates_def\<close>)
  then obtain H M where "head_passes (unat n) (unat t) 0 (unat h) (P @ T) = Some (H @ M @ T)"
      "length H = unat h" "sorted H" "dominates (M @ T) H" "dominates T M" "mset (H @ M) = mset P"
    by auto
  moreover from this have "mset (H @ M @ T) = mset A"
    using P(5) by (metis append_assoc mset_append)
  moreover have "SortArrayExtreme A n h t = Some (H @ M @ T)"
    using calculation(1) P(1) by (simp add: SortArrayExtreme_def)
  ultimately show ?thesis using P(2,3) by blast
qed

lemma sort_three_parts:
  assumes "sorted H" "sorted T" "dominates (M @ T) H" "dominates T M"
  shows "sort (H @ M @ T) = H @ sort M @ T"
proof (rule properties_for_sort)
  show "mset (H @ sort M @ T) = mset (H @ M @ T)" by simp
  show "sorted (H @ sort M @ T)"
    using assms by (auto simp: sorted_append dominates_def)
qed

section \<open>The mean of the middle part\<close>

definition trimmed_mean :: "nat list \<Rightarrow> nat \<Rightarrow> nat \<Rightarrow> nat" where
  "trimmed_mean xs h t =
     sum_list (take (length xs - h - t) (drop h (sort xs))) div (length xs - h - t)"

lemma sum_loop_eq:
  "i + k \<le> length A \<Longrightarrow>
   sum_loop i k A acc = Some (acc + of_nat (sum_list (map unat (take k (drop i A)))))"
proof (induction k arbitrary: i acc)
  case 0
  then show ?case by simp
next
  case (Suc k)
  then have "drop i A = A ! i # drop (Suc i) A"
    by (simp add: Cons_nth_drop_Suc)
  with Suc show ?case by (simp add: add.assoc)
qed

lemma sum_list_unat_bound: "sum_list (map unat (xs :: u32 list)) \<le> length xs * (2 ^ 32 - 1)"
proof (induction xs)
  case (Cons x xs)
  have "unat x \<le> 2 ^ 32 - 1" using unat_u32_less [of x] by simp
  with Cons show ?case by simp
qed simp

lemma map_unat_sort: "sort (map unat (xs :: u32 list)) = map unat (sort xs)"
proof (rule properties_for_sort)
  show "sorted (map unat (sort xs))"
    using sorted_sort [of xs]
    by (simp add: sorted_iff_nth_mono_less word_le_nat_alt del: sorted_sort)
qed simp

lemma unat_of_nat_u64: "n < 2 ^ 64 \<Longrightarrow> unat (of_nat n :: u64) = n"
  by (simp only: unat_of_nat) simp

lemma GetAverage_middle:
  assumes "length (H @ M @ T) = unat n" "length H = unat h" "length T = unat t" "M \<noteq> []"
  shows "\<exists>avg. GetAverage (H @ M @ T) n h t = Some avg \<and>
           unat avg = sum_list (map unat M) div length M"
proof -
  have lens: "unat h + length M + unat t = unat n" "0 < length M" using assms by auto
  have ht: "unat (h + t) = unat h + unat t"
    using lens unat_u32_less [of n] by (simp add: unat_add_lem [THEN iffD1])
  then have "\<not> h + t \<ge> n"
    unfolding word_le_nat_alt using lens by linarith
  have nt: "unat (n - t) = unat n - unat t"
    using lens by (simp add: unat_sub word_le_nat_alt)
  have nht: "unat (n - h - t) = length M"
  proof -
    have "unat (n - (h + t)) = unat n - unat (h + t)"
      using lens ht by (simp add: unat_sub word_le_nat_alt)
    then show ?thesis using ht lens by (simp add: algebra_simps)
  qed
  let ?S = "sum_list (map unat M)"
  have "length M * (2 ^ 32 - 1) < 2 ^ 32 * 2 ^ 32"
    using lens unat_u32_less [of n] by (intro mult_less_le_imp_less) auto
  with sum_list_unat_bound [of M] have S: "?S < 2 ^ 64" by simp
  have sum: "sum_loop (unat h) (unat (n - t) - unat h) (H @ M @ T) 0 = Some (of_nat ?S)"
    using assms(2) lens by (simp add: sum_loop_eq nt)
  have q: "?S div length M < 2 ^ 32"
  proof -
    have "?S div length M \<le> length M * (2 ^ 32 - 1) div length M"
      by (rule div_le_mono [OF sum_list_unat_bound])
    then show ?thesis using lens(2) by simp
  qed
  have "unat (ucast (of_nat ?S div ucast (n - h - t) :: u64) :: u32) = ?S div length M"
  proof -
    have "unat (of_nat ?S div ucast (n - h - t) :: u64) = ?S div length M"
      using S nht by (simp only: unat_div unat_of_nat_u64 unat_ucast_widen)
    then show ?thesis using q by (simp add: unsigned_ucast_eq take_bit_nat_eq_self)
  qed
  then show ?thesis
    using \<open>\<not> h + t \<ge> n\<close> by (simp only: GetAverage_def sum if_False Option.bind.simps option.inject) blast
qed
lemma mean_bounds:
  assumes "xs \<noteq> []" "\<forall>x \<in> set xs. lo \<le> x \<and> x \<le> hi"
  shows "lo \<le> sum_list xs div length xs \<and> sum_list xs div length xs \<le> (hi :: nat)"
proof -
  have "lo * length xs \<le> sum_list xs" and "sum_list xs \<le> hi * length xs"
    using assms(2) by (induction xs) (auto simp: algebra_simps)
  then show ?thesis
    using assms(1) by (auto simp: less_eq_div_iff_mult_less_eq dest: div_le_mono [where k = "length xs"])
qed

lemma trimmed_parts:
  assumes "length A = unat n" "unat h + unat t < unat n"
  obtains A' M avg where
    "GetDelExtremeAndAverage A n h t = Some (A', avg)" "mset A' = mset A"
    "M \<noteq> []" "set M \<subseteq> set A" "unat avg = sum_list (map unat M) div length M"
    "trimmed_mean (map unat A) (unat h) (unat t) = sum_list (map unat M) div length M"
proof -
  obtain H M T where S: "SortArrayExtreme A n h t = Some (H @ M @ T)" "length H = unat h"
      "length T = unat t" "mset (H @ M @ T) = mset A" "sorted H" "sorted T"
      "dominates (M @ T) H" "dominates T M"
    using SortArrayExtreme_ok [OF assms] by blast
  have len: "length (H @ M @ T) = unat n" using S(4) assms(1) by (metis size_mset)
  have M: "M \<noteq> []" using len S(2,3) assms(2) by auto
  have lenM: "unat n - (unat h + unat t) = length M" using len S(2,3) by simp
  obtain avg where avg: "GetAverage (H @ M @ T) n h t = Some avg"
      "unat avg = sum_list (map unat M) div length M"
    using GetAverage_middle [OF len S(2,3) M] by blast
  have "sort A = sort (H @ M @ T)"
    using S(4) by (metis mset_sort properties_for_sort sorted_sort)
  then have "sort (map unat A) = map unat (H @ sort M @ T)"
    using sort_three_parts [OF S(5-8)] by (simp only: map_unat_sort)
  moreover have "mset (map unat (sort M)) = mset (map unat M)"
    by simp
  then have "sum_list (map unat (sort M)) = sum_list (map unat M)"
    by (metis sum_mset_sum_list)
  ultimately have "trimmed_mean (map unat A) (unat h) (unat t) = sum_list (map unat M) div length M"
    using lenM S(2) assms(1) by (simp add: trimmed_mean_def)
  moreover have "set M \<subseteq> set A"
    using S(4) by (metis Un_iff mset_eq_setD set_append subsetI)
  ultimately show thesis
    using S(1,4) avg M by (intro that [of "H @ M @ T" avg M]) (auto simp: GetDelExtremeAndAverage_def)
qed

lemma trimmed_in_range:
  assumes "length A = unat n" "unat h + unat t < unat n" "\<forall>x \<in> set A. lo \<le> x \<and> x \<le> hi"
  obtains A' avg where "GetDelExtremeAndAverage A n h t = Some (A', avg)" "mset A' = mset A"
    "lo \<le> avg" "avg \<le> hi"
proof -
  obtain A' M avg where *: "GetDelExtremeAndAverage A n h t = Some (A', avg)" "mset A' = mset A"
      "M \<noteq> []" "set M \<subseteq> set A" "unat avg = sum_list (map unat M) div length M"
    using trimmed_parts [OF assms(1,2)] by metis
  have "unat lo \<le> unat avg \<and> unat avg \<le> unat hi"
    using mean_bounds [of "map unat M" "unat lo" "unat hi"] * assms(3)
    by (auto simp: word_le_nat_alt)
  then show thesis using * that by (simp add: word_le_nat_alt)
qed

section \<open>Bytes and patterns\<close>

lemma HexToUlong_bytes [bytes_simps]: "HexToUlong (a # b # c # d # xs) = Some (be32 a b c d)"
  by (simp add: HexToUlong_def Let_def flip: be32_sum)

lemma HexToFloat_bytes [bytes_simps]: "HexToFloat (a # b # c # d # xs) = Some (be32 a b c d)"
  by (simp add: HexToFloat_def Let_def flip: be32_sum)

section \<open>Claims\<close>

text \<open>GetDelExtremeAndAverage, whose partial bubble sort only orders both ends of the array,
  returns the mean of the fully sorted samples without the SortHeadSize smallest and the
  SortTailSize largest ones; it stays inside the array and only permutes it.\<close>

theorem trimmed_average_correct:
  assumes "length A = unat n" and "unat h + unat t < unat n"
  shows "\<exists>A' avg. GetDelExtremeAndAverage A n h t = Some (A', avg) \<and> mset A' = mset A \<and>
           unat avg = trimmed_mean (map unat A) (unat h) (unat t)"
  using trimmed_parts [OF assms] by metis

theorem trimmed_average_correct_witness:
  "\<exists>A' avg. GetDelExtremeAndAverage [9, 1, 7, 3, 5] 5 1 1 = Some (A', avg) \<and>
     mset A' = mset [9, 1, 7, 3, 5] \<and> unat avg = trimmed_mean [9, 1, 7, 3, 5] 1 1"
  using trimmed_average_correct [of "[9, 1, 7, 3, 5]" 5 1 1] by simp

text \<open>The bytes written by floatToHexArray for a float are read back by HexToFloat as the same
  32-bit pattern, whatever the four bytes held before.\<close>

theorem float_hex_roundtrip:
  "\<exists>bs. floatToHexArray f [x0, x1, x2, x3] 4 = Some bs \<and> HexToFloat bs = Some f"
proof -
  have "floatToHexArray f [x0, x1, x2, x3] 4 = Some [byte_of 3 f, byte_of 2 f, byte_of 1 f, byte_of 0 f]"
  proof -
    have four: "unat (4 :: u16) = Suc (Suc (Suc (Suc 0)))" by simp
    show ?thesis
      unfolding floatToHexArray_def four by (simp add: byte_of_def ucast_and_FF)
  qed
  then show ?thesis by (simp add: bytes_simps)
qed

end
