(* ===== verification/FlashHal.thy ===== *)
theory FlashHal
  imports Prelude
begin

text \<open>
  The on-chip flash of the STM32F072 and what the sources rely on of ST's flash driver
  (\<open>HAL_FLASH_Program\<close> with \<open>FLASH_TYPEPROGRAM_WORD\<close>, \<open>HAL_FLASHEx_Erase\<close> with
  \<open>FLASH_TYPEERASE_PAGES\<close>).  Its clients take the driver as a parameter, a record
  \<open>hal_flash\<close>; the locale \<open>flash_hal\<close> names the laws they rest on and \<open>reliable_flash\<close> those of a
  driver that does not fail.  The theory \<open>HalFlash\<close> has the driver itself and proves the laws of it.
\<close>

datatype HAL_StatusTypeDef = HAL_OK | HAL_ERROR | HAL_BUSY | HAL_TIMEOUT

text \<open>\<open>fl_mem\<close> maps an absolute address to the byte there, \<open>fl_lock\<close> is the \<open>LOCK\<close> bit of
  \<open>FLASH_CR\<close>, \<open>fl_env\<close> is the environment's choice of the operations that fail.\<close>

record flash =
  fl_mem :: "nat \<Rightarrow> u8"
  fl_lock :: bool
  fl_env :: "bool list"

abbreviation FLASH_PAGE_SIZE :: nat where "FLASH_PAGE_SIZE \<equiv> 2048"
abbreviation FLASH_LOW :: nat where "FLASH_LOW \<equiv> 0x08000000"
abbreviation FLASH_TOP :: nat where "FLASH_TOP \<equiv> 0x08020000"

record hal_flash =
  hProgram :: "nat \<Rightarrow> u32 \<Rightarrow> flash \<Rightarrow> HAL_StatusTypeDef \<times> flash"
  hErase :: "nat \<Rightarrow> nat \<Rightarrow> flash \<Rightarrow> HAL_StatusTypeDef \<times> flash"

definition HAL_FLASH_Unlock :: "flash \<Rightarrow> flash" where
  "HAL_FLASH_Unlock f = f\<lparr>fl_lock := False\<rparr>"

definition HAL_FLASH_Lock :: "flash \<Rightarrow> flash" where
  "HAL_FLASH_Lock f = f\<lparr>fl_lock := True\<rparr>"

text \<open>The byte of the flash that an address selects.  At reset the device maps its main flash at
  address 0 as well (\<open>stm32f0xx_ll_system.h\<close>, \<open>LL_SYSCFG_REMAP_FLASH\<close>), and the boot loader leaves it
  so: the first 128 KB are an alias of the flash.  The sensor program maps RAM there
  (\<open>__HAL_SYSCFG_REMAPMEMORY_SRAM\<close>), but uses no address below \<open>FLASH_LOW\<close> for the flash.\<close>

definition phys :: "nat \<Rightarrow> nat" where
  "phys a = (if a < 0x20000 then a + FLASH_LOW else a)"

lemma phys_high [simp]: "0x20000 \<le> a \<Longrightarrow> phys a = a"
  by (simp add: phys_def)

lemma phys_low: "a < 0x20000 \<Longrightarrow> phys a = a + FLASH_LOW"
  by (simp add: phys_def)

definition flash_get :: "flash \<Rightarrow> nat \<Rightarrow> u8 option" where
  "flash_get f a = (if FLASH_LOW \<le> phys a \<and> phys a < FLASH_TOP then Some (fl_mem f (phys a)) else None)"

lemma lock_frame [frame_simps, simp]:
  "fl_mem (HAL_FLASH_Unlock f) = fl_mem f" "fl_mem (HAL_FLASH_Lock f) = fl_mem f"
  "fl_lock (HAL_FLASH_Unlock f) = False" "fl_lock (HAL_FLASH_Lock f) = True"
  by (simp_all add: HAL_FLASH_Unlock_def HAL_FLASH_Lock_def)

section \<open>The driver's contract\<close>

text \<open>A half word is programmable when it reads \<open>0xFFFF\<close> or when zero is programmed.\<close>

definition hw_ok :: "flash \<Rightarrow> nat \<Rightarrow> u8 \<Rightarrow> u8 \<Rightarrow> bool" where
  "hw_ok f a b0 b1 \<longleftrightarrow> (fl_mem f a = 0xFF \<and> fl_mem f (a + 1) = 0xFF) \<or> (b0 = 0 \<and> b1 = 0)"

locale flash_hal =
  fixes H :: hal_flash
  assumes program_lock: "hProgram H a w f = (st, f') \<Longrightarrow> fl_lock f' = fl_lock f"
    and program_ok: "hProgram H a w f = (HAL_OK, f') \<Longrightarrow> \<not> fl_lock f \<Longrightarrow> a mod 4 = 0 \<Longrightarrow> i < 4
                      \<Longrightarrow> fl_mem f' (phys (a + i)) = byte_of i w"
    and program_frame: "hProgram H a w f = (st, f') \<Longrightarrow> \<forall>i < 4. x \<noteq> phys (a + i)
                      \<Longrightarrow> fl_mem f' x = fl_mem f x"
    and program_refused: "hProgram H a w f = (st, f') \<Longrightarrow> \<not> fl_lock f
                      \<Longrightarrow> \<not> hw_ok f (phys a) (byte_of 0 w) (byte_of 1 w) \<Longrightarrow> st \<noteq> HAL_OK"
    and erase_lock: "hErase H a n f = (st, f') \<Longrightarrow> fl_lock f' = fl_lock f"
    and erase_ok: "hErase H a n f = (HAL_OK, f') \<Longrightarrow> \<not> fl_lock f \<Longrightarrow> a mod FLASH_PAGE_SIZE = 0
                      \<Longrightarrow> a + n * FLASH_PAGE_SIZE \<le> FLASH_TOP \<Longrightarrow> a \<le> x \<Longrightarrow> x < a + n * FLASH_PAGE_SIZE \<Longrightarrow> fl_mem f' x = 0xFF"
    and erase_frame: "hErase H a n f = (st, f') \<Longrightarrow> a mod FLASH_PAGE_SIZE = 0 \<Longrightarrow> x < a \<or> a + n * FLASH_PAGE_SIZE \<le> x
                      \<Longrightarrow> fl_mem f' x = fl_mem f x"

text \<open>Programming at an address that is not an alias.\<close>

context flash_hal
begin

lemma program_high_ok:
  "hProgram H a w f = (HAL_OK, f') \<Longrightarrow> \<not> fl_lock f \<Longrightarrow> a mod 4 = 0 \<Longrightarrow> FLASH_LOW \<le> a \<Longrightarrow> i < 4
    \<Longrightarrow> fl_mem f' (a + i) = byte_of i w"
  using program_ok [of a w f f' i] by simp

lemma program_high_frame:
  "hProgram H a w f = (st, f') \<Longrightarrow> FLASH_LOW \<le> a \<Longrightarrow> x < a \<or> a + 4 \<le> x \<Longrightarrow> fl_mem f' x = fl_mem f x"
  using program_frame [of a w f st f' x] by auto

end

text \<open>A driver that does not fail while \<open>good\<close> holds of the device: an erase of pages of the
  flash succeeds, and so does programming an erased word.\<close>

locale reliable_flash = flash_hal +
  fixes good :: "flash \<Rightarrow> bool"
  assumes good_lock: "good (HAL_FLASH_Lock f) = good f" "good (HAL_FLASH_Unlock f) = good f"
    and program_good: "hProgram H a w f = (st, f') \<Longrightarrow> good f \<Longrightarrow> good f'"
    and erase_good: "hErase H a n f = (st, f') \<Longrightarrow> good f \<Longrightarrow> good f'"
    and program_succeeds: "hProgram H a w f = (st, f') \<Longrightarrow> good f \<Longrightarrow> \<not> fl_lock f \<Longrightarrow> a mod 4 = 0
          \<Longrightarrow> FLASH_LOW \<le> a \<Longrightarrow> a + 4 \<le> FLASH_TOP \<Longrightarrow> (\<And>i. i < 4 \<Longrightarrow> fl_mem f (a + i) = 0xFF)
          \<Longrightarrow> st = HAL_OK"
    and erase_succeeds: "hErase H a n f = (st, f') \<Longrightarrow> good f \<Longrightarrow> \<not> fl_lock f \<Longrightarrow> 0 < n
          \<Longrightarrow> a mod FLASH_PAGE_SIZE = 0 \<Longrightarrow> FLASH_LOW \<le> a \<Longrightarrow> a + n * FLASH_PAGE_SIZE \<le> FLASH_TOP
          \<Longrightarrow> st = HAL_OK"

lemma less4_cases: "(i :: nat) < 4 \<Longrightarrow> i = 0 \<or> i = 1 \<or> i = 2 \<or> i = 3"
  by arith

text \<open>The device on which the environment injects no fault any more.\<close>

definition no_faults :: "flash \<Rightarrow> bool" where
  "no_faults f \<longleftrightarrow> fl_env f = []"

end
