(* ===== verification/HalFlash.thy ===== *)
theory HalFlash
  imports FlashHal
begin

text \<open>
  ST's flash driver (\<open>stm32f0xx_hal_flash.c\<close>, \<open>stm32f0xx_hal_flash_ex.c\<close>), on the registers of
  the flash controller.

  \<open>flash_ctl\<close> is the controller (\<open>KEYR\<close>, \<open>SR\<close>, \<open>CR\<close>, \<open>AR\<close> and the memory) with the driver's
  variable \<open>pFlash\<close> and the tick counter.  An operation that the controller has started keeps
  \<open>BSY\<close> set for \<open>fc_lat\<close> milliseconds; the environment \<open>fc_env\<close> chooses the operations that end
  with a write protection error.  \<open>None\<close> is a hard fault (a store outside of the flash or to an
  odd address).

  The driver on an idle controller refines \<open>dev_word\<close> and \<open>dev_pages\<close>, what it does to the memory
  alone; that gives the laws of \<open>flash_hal\<close> and \<open>reliable_flash\<close>, so the theories that rest on
  those interfaces hold of this driver.
\<close>

section \<open>The flash controller\<close>

abbreviation (input) FLASH_SR_BSY :: u32 where "FLASH_SR_BSY \<equiv> 0x1"
abbreviation (input) FLASH_SR_PGERR :: u32 where "FLASH_SR_PGERR \<equiv> 0x4"
abbreviation (input) FLASH_SR_WRPERR :: u32 where "FLASH_SR_WRPERR \<equiv> 0x10"
abbreviation (input) FLASH_SR_EOP :: u32 where "FLASH_SR_EOP \<equiv> 0x20"
abbreviation (input) FLASH_CR_PG :: u32 where "FLASH_CR_PG \<equiv> 0x1"
abbreviation (input) FLASH_CR_PER :: u32 where "FLASH_CR_PER \<equiv> 0x2"
abbreviation (input) FLASH_CR_MER :: u32 where "FLASH_CR_MER \<equiv> 0x4"
abbreviation (input) FLASH_CR_STRT :: u32 where "FLASH_CR_STRT \<equiv> 0x40"
abbreviation (input) FLASH_CR_LOCK :: u32 where "FLASH_CR_LOCK \<equiv> 0x80"
abbreviation (input) FLASH_KEY1 :: u32 where "FLASH_KEY1 \<equiv> 0x45670123"
abbreviation (input) FLASH_KEY2 :: u32 where "FLASH_KEY2 \<equiv> 0xCDEF89AB"
abbreviation (input) FLASH_TIMEOUT_VALUE :: u32 where "FLASH_TIMEOUT_VALUE \<equiv> 50000"
abbreviation (input) HAL_MAX_DELAY :: u32 where "HAL_MAX_DELAY \<equiv> 0xFFFFFFFF"
abbreviation (input) HAL_FLASH_ERROR_NONE :: u32 where "HAL_FLASH_ERROR_NONE \<equiv> 0"
abbreviation (input) HAL_FLASH_ERROR_PROG :: u32 where "HAL_FLASH_ERROR_PROG \<equiv> 1"
abbreviation (input) HAL_FLASH_ERROR_WRP :: u32 where "HAL_FLASH_ERROR_WRP \<equiv> 2"
abbreviation (input) FLASH_TYPEPROGRAM_HALFWORD :: u32 where "FLASH_TYPEPROGRAM_HALFWORD \<equiv> 1"
abbreviation (input) FLASH_TYPEPROGRAM_WORD :: u32 where "FLASH_TYPEPROGRAM_WORD \<equiv> 2"
abbreviation (input) FLASH_TYPEPROGRAM_DOUBLEWORD :: u32 where "FLASH_TYPEPROGRAM_DOUBLEWORD \<equiv> 3"
abbreviation (input) FLASH_TYPEERASE_PAGES :: u32 where "FLASH_TYPEERASE_PAGES \<equiv> 0"
abbreviation (input) FLASH_TYPEERASE_MASSERASE :: u32 where "FLASH_TYPEERASE_MASSERASE \<equiv> 1"

text \<open>The unlock sequence: nothing written yet, the first key written, or a wrong key, after
  which the controller stays locked until reset.\<close>

datatype key_state = NoKey | GotKey1 | KeyError

record flash_ctl =
  fc_mem :: "nat \<Rightarrow> u8"
  fc_SR :: u32
  fc_CR :: u32
  fc_AR :: u32
  fc_key :: key_state
  fc_busy :: nat
  fc_lat :: nat
  fc_tick :: u32
  fc_env :: "bool list"
  fc_ErrorCode :: u32
  fc_Lock :: bool

text \<open>What the callers of the driver see of the controller.\<close>

definition flash_of :: "flash_ctl \<Rightarrow> flash" where
  "flash_of c = \<lparr>fl_mem = fc_mem c, fl_lock = (fc_CR c AND FLASH_CR_LOCK \<noteq> 0), fl_env = fc_env c\<rparr>"

definition next_fault :: "flash \<Rightarrow> bool" where
  "next_fault f = (case fl_env f of [] \<Rightarrow> False | b # bs \<Rightarrow> b)"

definition in_flash :: "nat \<Rightarrow> bool" where
  "in_flash a \<longleftrightarrow> FLASH_LOW \<le> a \<and> a < FLASH_TOP"

definition read_SR :: "flash_ctl \<Rightarrow> u32" where
  "read_SR c = (if 0 < fc_busy c then fc_SR c OR FLASH_SR_BSY else fc_SR c)"

text \<open>The flags of \<open>SR\<close> are cleared by writing ones.\<close>

definition write_SR :: "u32 \<Rightarrow> flash_ctl \<Rightarrow> flash_ctl" where
  "write_SR v c = c\<lparr>fc_SR := fc_SR c AND NOT v\<rparr>"

definition write_KEYR :: "u32 \<Rightarrow> flash_ctl \<Rightarrow> flash_ctl" where
  "write_KEYR k c =
     (if fc_key c = NoKey \<and> k = FLASH_KEY1 then c\<lparr>fc_key := GotKey1\<rparr>
      else if fc_key c = GotKey1 \<and> k = FLASH_KEY2
      then c\<lparr>fc_key := NoKey, fc_CR := fc_CR c AND NOT FLASH_CR_LOCK\<rparr>
      else c\<lparr>fc_key := KeyError\<rparr>)"

text \<open>An operation starts: the controller is busy, and the environment decides the fault.\<close>

definition start_op :: "flash_ctl \<Rightarrow> flash_ctl" where
  "start_op c = c\<lparr>fc_busy := fc_lat c, fc_env := tl (fc_env c)\<rparr>"

definition page_base :: "nat \<Rightarrow> nat" where
  "page_base a = a - a mod FLASH_PAGE_SIZE"

definition erase_page :: "nat \<Rightarrow> (nat \<Rightarrow> u8) \<Rightarrow> nat \<Rightarrow> u8" where
  "erase_page a mem = (\<lambda>x. if page_base a \<le> x \<and> x < page_base a + FLASH_PAGE_SIZE then 0xFF else mem x)"

definition start_erase :: "flash_ctl \<Rightarrow> flash_ctl" where
  "start_erase c =
     (if fc_CR c AND FLASH_CR_MER \<noteq> 0 then
        (if next_fault (flash_of c) then (start_op c)\<lparr>fc_SR := fc_SR c OR FLASH_SR_WRPERR\<rparr>
         else (start_op c)\<lparr>fc_SR := fc_SR c OR FLASH_SR_EOP,
                           fc_mem := (\<lambda>x. if in_flash x then 0xFF else fc_mem c x)\<rparr>)
      else if fc_CR c AND FLASH_CR_PER \<noteq> 0 then
        (if next_fault (flash_of c) \<or> \<not> in_flash (unat (fc_AR c))
         then (start_op c)\<lparr>fc_SR := fc_SR c OR FLASH_SR_WRPERR\<rparr>
         else (start_op c)\<lparr>fc_SR := fc_SR c OR FLASH_SR_EOP,
                           fc_mem := erase_page (unat (fc_AR c)) (fc_mem c)\<rparr>)
      else c)"

text \<open>A locked \<open>CR\<close> ignores writes.  \<open>STRT\<close> starts the erase that \<open>PER\<close> or \<open>MER\<close> selects and
  is cleared by the controller.\<close>

definition write_CR :: "u32 \<Rightarrow> flash_ctl \<Rightarrow> flash_ctl" where
  "write_CR v c =
     (if fc_CR c AND FLASH_CR_LOCK \<noteq> 0 then c
      else let c = c\<lparr>fc_CR := v AND NOT FLASH_CR_STRT\<rparr>
           in if v AND FLASH_CR_STRT \<noteq> 0 then start_erase c else c)"

definition write_AR :: "u32 \<Rightarrow> flash_ctl \<Rightarrow> flash_ctl" where
  "write_AR v c = c\<lparr>fc_AR := v\<rparr>"

definition set_CR :: "u32 \<Rightarrow> flash_ctl \<Rightarrow> flash_ctl" where
  "set_CR b c = write_CR (fc_CR c OR b) c"

definition clear_CR :: "u32 \<Rightarrow> flash_ctl \<Rightarrow> flash_ctl" where
  "clear_CR b c = write_CR (fc_CR c AND NOT b) c"

text \<open>A half-word store to the flash: with \<open>PG\<close> set it programs the half word, which must be
  erased unless zero is programmed; without \<open>PG\<close> it has no effect.\<close>

definition store_half :: "u32 \<Rightarrow> u16 \<Rightarrow> flash_ctl \<Rightarrow> flash_ctl option" where
  "store_half A d c =
     (let a = phys (unat A) in
      if a mod 2 \<noteq> 0 \<or> \<not> in_flash a then None
      else if fc_CR c AND FLASH_CR_PG = 0 then Some c
      else if next_fault (flash_of c) then Some ((start_op c)\<lparr>fc_SR := fc_SR c OR FLASH_SR_WRPERR\<rparr>)
      else if \<not> hw_ok (flash_of c) a (lo8 d) (hi8 d)
      then Some ((start_op c)\<lparr>fc_SR := fc_SR c OR FLASH_SR_PGERR\<rparr>)
      else Some ((start_op c)\<lparr>fc_SR := fc_SR c OR FLASH_SR_EOP,
                              fc_mem := (fc_mem c)(a := lo8 d, a + 1 := hi8 d)\<rparr>))"

text \<open>A millisecond passes.\<close>

definition hw_tick :: "flash_ctl \<Rightarrow> flash_ctl" where
  "hw_tick c = c\<lparr>fc_busy := fc_busy c - 1, fc_tick := fc_tick c + 1\<rparr>"

section \<open>The driver\<close>

definition GET_FLAG :: "u32 \<Rightarrow> flash_ctl \<Rightarrow> bool" where
  "GET_FLAG b c \<longleftrightarrow> read_SR c AND b = b"

definition FLASH_SetErrorCode :: "flash_ctl \<Rightarrow> flash_ctl" where
  "FLASH_SetErrorCode c =
     (let flags = 0;
          (c, flags) = (if GET_FLAG FLASH_SR_WRPERR c
                        then (c\<lparr>fc_ErrorCode := fc_ErrorCode c OR HAL_FLASH_ERROR_WRP\<rparr>, flags OR FLASH_SR_WRPERR)
                        else (c, flags));
          (c, flags) = (if GET_FLAG FLASH_SR_PGERR c
                        then (c\<lparr>fc_ErrorCode := fc_ErrorCode c OR HAL_FLASH_ERROR_PROG\<rparr>, flags OR FLASH_SR_PGERR)
                        else (c, flags))
      in write_SR flags c)"

text \<open>The polling loop; \<open>start\<close> is the tick count at its beginning.\<close>

function wait_bsy :: "u32 \<Rightarrow> u32 \<Rightarrow> flash_ctl \<Rightarrow> HAL_StatusTypeDef \<times> flash_ctl" where
  "wait_bsy Timeout start c =
     (if 0 < fc_busy c then
        let c = hw_tick c in
        if Timeout \<noteq> HAL_MAX_DELAY \<and> (Timeout = 0 \<or> fc_tick c - start > Timeout)
        then (HAL_TIMEOUT, c)
        else wait_bsy Timeout start c
      else (HAL_OK, c))"
  by pat_completeness auto
termination
  by (relation "measure (\<lambda>(t, s, c). fc_busy c)") (auto simp: hw_tick_def)

declare wait_bsy.simps [simp del]

definition FLASH_WaitForLastOperation :: "u32 \<Rightarrow> flash_ctl \<Rightarrow> HAL_StatusTypeDef \<times> flash_ctl" where
  "FLASH_WaitForLastOperation Timeout c =
     (case wait_bsy Timeout (fc_tick c) c of (st, c) \<Rightarrow>
        if st \<noteq> HAL_OK then (st, c)
        else let c = (if GET_FLAG FLASH_SR_EOP c then write_SR FLASH_SR_EOP c else c)
             in if GET_FLAG FLASH_SR_WRPERR c \<or> GET_FLAG FLASH_SR_PGERR c
                then (HAL_ERROR, FLASH_SetErrorCode c)
                else (HAL_OK, c))"

definition FLASH_Program_HalfWord :: "u32 \<Rightarrow> u16 \<Rightarrow> flash_ctl \<Rightarrow> flash_ctl option" where
  "FLASH_Program_HalfWord Address Data c =
     (let c = c\<lparr>fc_ErrorCode := HAL_FLASH_ERROR_NONE\<rparr>;
          c = set_CR FLASH_CR_PG c
      in store_half Address Data c)"

text \<open>The loop over the half words; the first argument is the number of iterations left.\<close>

fun program_halves :: "nat \<Rightarrow> nat \<Rightarrow> u32 \<Rightarrow> u64 \<Rightarrow> HAL_StatusTypeDef \<Rightarrow> flash_ctl
                        \<Rightarrow> (HAL_StatusTypeDef \<times> flash_ctl) option" where
  "program_halves 0 index Address Data status c = Some (status, c)"
| "program_halves (Suc n) index Address Data status c =
     Option.bind (FLASH_Program_HalfWord (Address + 2 * of_nat index) (ucast (drop_bit (16 * index) Data)) c)
       (\<lambda>c. case FLASH_WaitForLastOperation FLASH_TIMEOUT_VALUE c of (status, c) \<Rightarrow>
          let c = clear_CR FLASH_CR_PG c in
          if status \<noteq> HAL_OK then Some (status, c)
          else program_halves n (Suc index) Address Data status c)"

definition HAL_FLASH_Program :: "u32 \<Rightarrow> u32 \<Rightarrow> u64 \<Rightarrow> flash_ctl \<Rightarrow> (HAL_StatusTypeDef \<times> flash_ctl) option" where
  "HAL_FLASH_Program TypeProgram Address Data c =
     (if fc_Lock c then Some (HAL_BUSY, c)
      else
        let c = c\<lparr>fc_Lock := True\<rparr> in
        Option.bind
          (case FLASH_WaitForLastOperation FLASH_TIMEOUT_VALUE c of (status, c) \<Rightarrow>
             if status = HAL_OK then
               let nbiterations = (if TypeProgram = FLASH_TYPEPROGRAM_HALFWORD then 1
                                   else if TypeProgram = FLASH_TYPEPROGRAM_WORD then 2 else 4)
               in program_halves nbiterations 0 Address Data status c
             else Some (status, c))
          (\<lambda>(status, c). Some (status, c\<lparr>fc_Lock := False\<rparr>)))"

definition HAL_FLASH_Unlock_reg :: "flash_ctl \<Rightarrow> HAL_StatusTypeDef \<times> flash_ctl" where
  "HAL_FLASH_Unlock_reg c =
     (if fc_CR c AND FLASH_CR_LOCK \<noteq> 0 then
        let c = write_KEYR FLASH_KEY1 c;
            c = write_KEYR FLASH_KEY2 c
        in (if fc_CR c AND FLASH_CR_LOCK \<noteq> 0 then HAL_ERROR else HAL_OK, c)
      else (HAL_OK, c))"

definition HAL_FLASH_Lock_reg :: "flash_ctl \<Rightarrow> HAL_StatusTypeDef \<times> flash_ctl" where
  "HAL_FLASH_Lock_reg c = (HAL_OK, set_CR FLASH_CR_LOCK c)"

record FLASH_EraseInitTypeDef =
  TypeErase :: u32
  PageAddress :: u32
  NbPages :: u32

definition FLASH_PageErase :: "u32 \<Rightarrow> flash_ctl \<Rightarrow> flash_ctl" where
  "FLASH_PageErase Address c =
     (let c = c\<lparr>fc_ErrorCode := HAL_FLASH_ERROR_NONE\<rparr>;
          c = set_CR FLASH_CR_PER c;
          c = write_AR Address c
      in set_CR FLASH_CR_STRT c)"

definition FLASH_MassErase :: "flash_ctl \<Rightarrow> flash_ctl" where
  "FLASH_MassErase c =
     (let c = c\<lparr>fc_ErrorCode := HAL_FLASH_ERROR_NONE\<rparr>;
          c = set_CR FLASH_CR_MER c
      in set_CR FLASH_CR_STRT c)"

text \<open>The loop over the pages, which compares 32-bit addresses.\<close>

partial_function (option) erase_loop ::
    "u32 \<Rightarrow> u32 \<Rightarrow> HAL_StatusTypeDef \<Rightarrow> u32 \<Rightarrow> flash_ctl \<Rightarrow> (HAL_StatusTypeDef \<times> u32 \<times> flash_ctl) option" where
  "erase_loop address bound status PageError c =
     (if address < bound then
        let c = FLASH_PageErase address c in
        case FLASH_WaitForLastOperation FLASH_TIMEOUT_VALUE c of (status, c) \<Rightarrow>
          let c = clear_CR FLASH_CR_PER c in
          if status \<noteq> HAL_OK then Some (status, address, c)
          else erase_loop (address + 0x800) bound status PageError c
      else Some (status, PageError, c))"

definition HAL_FLASHEx_Erase :: "FLASH_EraseInitTypeDef \<Rightarrow> u32 \<Rightarrow> flash_ctl
                                   \<Rightarrow> (HAL_StatusTypeDef \<times> u32 \<times> flash_ctl) option" where
  "HAL_FLASHEx_Erase e PageError c =
     (if fc_Lock c then Some (HAL_BUSY, PageError, c)
      else
        let c = c\<lparr>fc_Lock := True\<rparr>; status = HAL_ERROR in
        Option.bind
          (case FLASH_WaitForLastOperation FLASH_TIMEOUT_VALUE c of (st, c) \<Rightarrow>
             if TypeErase e = FLASH_TYPEERASE_MASSERASE then
               if st = HAL_OK then
                 let c = FLASH_MassErase c in
                 case FLASH_WaitForLastOperation FLASH_TIMEOUT_VALUE c of (status, c) \<Rightarrow>
                   Some (status, PageError, clear_CR FLASH_CR_MER c)
               else Some (status, PageError, c)
             else
               if st = HAL_OK then
                 erase_loop (PageAddress e) (NbPages e * 0x800 + PageAddress e) status 0xFFFFFFFF c
               else Some (status, PageError, c))
          (\<lambda>(status, PageError, c). Some (status, PageError, c\<lparr>fc_Lock := False\<rparr>)))"

section \<open>Waiting for the controller\<close>

text \<open>The controller is quiet: no operation runs, no flag is set.\<close>

definition ctl_quiet :: "flash_ctl \<Rightarrow> bool" where
  "ctl_quiet c \<longleftrightarrow> fc_SR c = 0 \<and> fc_busy c = 0 \<and> fc_lat c \<le> 50000
     \<and> (fc_CR c = 0 \<or> fc_CR c = FLASH_CR_LOCK) \<and> fc_key c = NoKey"

definition ctl_idle :: "flash_ctl \<Rightarrow> bool" where
  "ctl_idle c \<longleftrightarrow> ctl_quiet c \<and> \<not> fc_Lock c"

text \<open>The parts of the controller that waiting leaves alone.\<close>

definition ctl_waited :: "flash_ctl \<Rightarrow> flash_ctl" where
  "ctl_waited c = c\<lparr>fc_busy := 0, fc_tick := fc_tick c + of_nat (fc_busy c)\<rparr>"

lemma wait_bsy_ready: "fc_busy c = 0 \<Longrightarrow> wait_bsy t start c = (HAL_OK, c)"
  by (simp add: wait_bsy.simps)

lemma waited_tick: "0 < fc_busy c \<Longrightarrow> ctl_waited (hw_tick c) = ctl_waited c"
  by (cases "fc_busy c") (simp_all add: ctl_waited_def hw_tick_def)

lemma waited_ready: "fc_busy c = 0 \<Longrightarrow> ctl_waited c = c"
  by (simp add: ctl_waited_def)

lemma wait_bsy_ends:
  "fc_tick c - start = of_nat e \<Longrightarrow> e + fc_busy c \<le> unat t \<Longrightarrow> wait_bsy t start c = (HAL_OK, ctl_waited c)"
proof (induction "fc_busy c" arbitrary: c e)
  case 0
  then show ?case by (simp add: wait_bsy_ready waited_ready)
next
  case (Suc n)
  let ?c = "hw_tick c"
  have e: "unat (of_nat (Suc e) :: u32) = Suc e"
    using Suc.hyps(2) Suc.prems(2) unat_u32_less [of t] by (simp only: unat_of_nat) simp
  have tick: "fc_tick ?c - start = of_nat (Suc e)"
    using Suc.prems(1) by (simp add: hw_tick_def algebra_simps)
  have go: "\<not> fc_tick ?c - start > t" "t \<noteq> 0"
    using Suc.hyps(2) Suc.prems(2) e by (auto simp: tick word_less_nat_alt)
  have "wait_bsy t start ?c = (HAL_OK, ctl_waited ?c)"
    by (rule Suc.hyps(1) [OF _ tick]) (use Suc.hyps(2) Suc.prems(2) in \<open>simp_all add: hw_tick_def\<close>)
  then show ?case
    using Suc.hyps(2) go by (subst wait_bsy.simps) (simp add: waited_tick Let_def)
qed

lemma wait_bsy_times_out:
  "fc_tick c - start = of_nat e \<Longrightarrow> e \<le> unat t \<Longrightarrow> unat t < e + fc_busy c \<Longrightarrow> t \<noteq> HAL_MAX_DELAY
   \<Longrightarrow> \<exists>c'. wait_bsy t start c = (HAL_TIMEOUT, c')
        \<and> c' = c\<lparr>fc_busy := fc_busy c + e - unat t - 1, fc_tick := start + t + 1\<rparr>"
proof (induction "unat t - e" arbitrary: c e)
  case 0
  then have e: "e = unat t" by simp
  then have "fc_tick c = start + t" using "0.prems"(1) by (simp add: algebra_simps)
  moreover have "t + 1 > t"
    using "0.prems"(4) unat_u32_less [of t]
    by (simp add: word_less_nat_alt unat_word_ariths word_unat_eq_iff)
  ultimately show ?case
    using 0 e by (subst wait_bsy.simps) (simp add: hw_tick_def Let_def)
next
  case (Suc n)
  let ?c = "hw_tick c"
  have busy: "0 < fc_busy c" using Suc.prems by simp
  have e: "unat (of_nat (Suc e) :: u32) = Suc e"
    using Suc.hyps(2) unat_u32_less [of t] by (simp only: unat_of_nat) simp
  have tick: "fc_tick ?c - start = of_nat (Suc e)"
    using Suc.prems(1) by (simp add: hw_tick_def algebra_simps)
  have go: "\<not> fc_tick ?c - start > t" "t \<noteq> 0"
    using Suc.hyps(2) e by (auto simp: tick word_less_nat_alt)
  have "\<exists>c'. wait_bsy t start ?c = (HAL_TIMEOUT, c')
        \<and> c' = ?c\<lparr>fc_busy := fc_busy ?c + Suc e - unat t - 1, fc_tick := start + t + 1\<rparr>"
    by (rule Suc.hyps(1) [OF _ tick]) (use Suc.hyps(2) Suc.prems(2-) busy in \<open>simp_all add: hw_tick_def\<close>)
  then show ?case
    using busy go by (subst wait_bsy.simps) (simp add: hw_tick_def Let_def)
qed

lemma wait_ends:
  assumes "fc_busy c \<le> 50000"
  shows "wait_bsy FLASH_TIMEOUT_VALUE (fc_tick c) c = (HAL_OK, ctl_waited c)"
  by (rule wait_bsy_ends [where e = 0]) (use assms in simp_all)

lemmas wait_simps = FLASH_WaitForLastOperation_def FLASH_SetErrorCode_def GET_FLAG_def read_SR_def
  write_SR_def

lemma wait_free:
  assumes "fc_SR c = 0" "fc_busy c = 0"
  shows "FLASH_WaitForLastOperation FLASH_TIMEOUT_VALUE c = (HAL_OK, c)"
  using assms wait_ends [of c] by (simp add: wait_simps ctl_waited_def)

lemma wait_quiet:
  assumes "ctl_quiet c"
  shows "FLASH_WaitForLastOperation FLASH_TIMEOUT_VALUE c = (HAL_OK, c)"
  using assms by (simp add: ctl_quiet_def wait_free)

lemma wait_stuck:
  assumes "50000 < fc_busy c"
  obtains k where "FLASH_WaitForLastOperation FLASH_TIMEOUT_VALUE c
    = (HAL_TIMEOUT, c\<lparr>fc_busy := k, fc_tick := fc_tick c + 50001\<rparr>)"
  using wait_bsy_times_out [of c "fc_tick c" 0 FLASH_TIMEOUT_VALUE] assms that
  by (auto simp: FLASH_WaitForLastOperation_def add.assoc)

text \<open>An operation has ended with one of the flags set.\<close>

lemma wait_flag:
  assumes "fc_busy c \<le> 50000"
  shows "fc_SR c = FLASH_SR_EOP \<Longrightarrow> FLASH_WaitForLastOperation FLASH_TIMEOUT_VALUE c
           = (HAL_OK, (ctl_waited c)\<lparr>fc_SR := 0\<rparr>)"
    and "fc_SR c = FLASH_SR_WRPERR \<Longrightarrow> FLASH_WaitForLastOperation FLASH_TIMEOUT_VALUE c
           = (HAL_ERROR, (ctl_waited c)\<lparr>fc_SR := 0, fc_ErrorCode := fc_ErrorCode c OR HAL_FLASH_ERROR_WRP\<rparr>)"
    and "fc_SR c = FLASH_SR_PGERR \<Longrightarrow> FLASH_WaitForLastOperation FLASH_TIMEOUT_VALUE c
           = (HAL_ERROR, (ctl_waited c)\<lparr>fc_SR := 0, fc_ErrorCode := fc_ErrorCode c OR HAL_FLASH_ERROR_PROG\<rparr>)"
  using wait_ends [OF assms] by (simp_all add: wait_simps ctl_waited_def)

section \<open>What the driver does to the memory\<close>

text \<open>Programming a half word, then a word; erasing pages one after the other.  A locked
  controller ignores both and reports success.\<close>

definition dev_half :: "nat \<Rightarrow> u8 \<Rightarrow> u8 \<Rightarrow> flash \<Rightarrow> HAL_StatusTypeDef \<times> flash" where
  "dev_half a b0 b1 f =
     (if fl_lock f then (HAL_OK, f)
      else let g = f\<lparr>fl_env := tl (fl_env f)\<rparr>
           in if next_fault f \<or> \<not> hw_ok f a b0 b1 then (HAL_ERROR, g)
              else (HAL_OK, g\<lparr>fl_mem := (fl_mem f)(a := b0, a + 1 := b1)\<rparr>))"

definition dev_word :: "nat \<Rightarrow> u32 \<Rightarrow> flash \<Rightarrow> HAL_StatusTypeDef \<times> flash" where
  "dev_word a w f =
     (case dev_half a (byte_of 0 w) (byte_of 1 w) f of (st, f1) \<Rightarrow>
        if st \<noteq> HAL_OK then (st, f1) else dev_half (a + 2) (byte_of 2 w) (byte_of 3 w) f1)"

definition dev_page :: "nat \<Rightarrow> flash \<Rightarrow> HAL_StatusTypeDef \<times> flash" where
  "dev_page a f =
     (if fl_lock f then (HAL_OK, f)
      else let g = f\<lparr>fl_env := tl (fl_env f)\<rparr>
           in if next_fault f \<or> \<not> in_flash a then (HAL_ERROR, g)
              else (HAL_OK, g\<lparr>fl_mem := erase_page a (fl_mem f)\<rparr>))"

fun dev_pages :: "nat \<Rightarrow> nat \<Rightarrow> flash \<Rightarrow> HAL_StatusTypeDef \<times> flash" where
  "dev_pages 0 a f = (HAL_OK, f)"
| "dev_pages (Suc n) a f =
     (case dev_page a f of (st, f1) \<Rightarrow>
        if st \<noteq> HAL_OK then (st, f1) else dev_pages n (a + FLASH_PAGE_SIZE) f1)"

definition word_range :: "nat \<Rightarrow> bool" where
  "word_range a \<longleftrightarrow> a mod 2 = 0 \<and> FLASH_LOW \<le> phys a \<and> phys a + 4 \<le> FLASH_TOP"

lemma word_range_phys:
  assumes "word_range a" "i < 4"
  shows "phys (a + i) = phys a + i" "phys a mod 2 = 0"
  using assms by (auto simp: word_range_def phys_def split: if_splits)

lemma word_range_high: "FLASH_LOW \<le> a \<Longrightarrow> word_range a \<longleftrightarrow> a mod 2 = 0 \<and> a + 4 \<le> FLASH_TOP"
  by (auto simp: word_range_def)

section \<open>The driver refines it\<close>

lemma fl_of [simp]:
  "fl_mem (flash_of c) = fc_mem c" "fl_env (flash_of c) = fc_env c"
  "fl_lock (flash_of c) \<longleftrightarrow> fc_CR c AND FLASH_CR_LOCK \<noteq> 0"
  by (simp_all add: flash_of_def)

lemmas ctl_simps = set_CR_def clear_CR_def write_CR_def start_op_def ctl_waited_def ctl_quiet_def

text \<open>One turn of the programming loop.\<close>

lemma half_step:
  assumes "ctl_quiet c" "phys (unat A) mod 2 = 0" "in_flash (phys (unat A))"
  obtains c1 c2 st where
    "FLASH_Program_HalfWord A d c = Some c1"
    "FLASH_WaitForLastOperation FLASH_TIMEOUT_VALUE c1 = (st, c2)"
    "ctl_quiet (clear_CR FLASH_CR_PG c2)" "fc_Lock (clear_CR FLASH_CR_PG c2) = fc_Lock c"
    "dev_half (phys (unat A)) (lo8 d) (hi8 d) (flash_of c) = (st, flash_of (clear_CR FLASH_CR_PG c2))"
proof -
  let ?c = "c\<lparr>fc_ErrorCode := HAL_FLASH_ERROR_NONE\<rparr>"
  have q: "ctl_quiet ?c" using assms(1) by (simp add: ctl_quiet_def)
  consider (locked) "fc_CR c = FLASH_CR_LOCK" | (fault) "fc_CR c = 0" "next_fault (flash_of c)"
    | (dirty) "fc_CR c = 0" "\<not> next_fault (flash_of c)" "\<not> hw_ok (flash_of c) (phys (unat A)) (lo8 d) (hi8 d)"
    | (ok) "fc_CR c = 0" "\<not> next_fault (flash_of c)" "hw_ok (flash_of c) (phys (unat A)) (lo8 d) (hi8 d)"
    using assms(1) by (auto simp: ctl_quiet_def)
  then show ?thesis
  proof cases
    case locked
    show ?thesis
      by (rule that [of ?c HAL_OK ?c])
        (use locked assms q wait_quiet [OF q] in
          \<open>auto simp: FLASH_Program_HalfWord_def store_half_def ctl_simps dev_half_def flash_of_def Let_def\<close>)
  next
    case fault
    let ?c1 = "?c\<lparr>fc_CR := FLASH_CR_PG, fc_busy := fc_lat c, fc_env := tl (fc_env c), fc_SR := FLASH_SR_WRPERR\<rparr>"
    show ?thesis
      by (rule that [OF _ wait_flag(2) [of ?c1]])
        (use fault assms in
          \<open>auto simp: FLASH_Program_HalfWord_def store_half_def ctl_simps dev_half_def flash_of_def
             next_fault_def Let_def\<close>)
  next
    case dirty
    let ?c1 = "?c\<lparr>fc_CR := FLASH_CR_PG, fc_busy := fc_lat c, fc_env := tl (fc_env c), fc_SR := FLASH_SR_PGERR\<rparr>"
    show ?thesis
      by (rule that [OF _ wait_flag(3) [of ?c1]])
        (use dirty assms in
          \<open>auto simp: FLASH_Program_HalfWord_def store_half_def ctl_simps dev_half_def flash_of_def
             next_fault_def hw_ok_def Let_def\<close>)
  next
    case ok
    let ?c1 = "?c\<lparr>fc_CR := FLASH_CR_PG, fc_busy := fc_lat c, fc_env := tl (fc_env c), fc_SR := FLASH_SR_EOP,
                  fc_mem := (fc_mem c)(phys (unat A) := lo8 d, phys (unat A) + 1 := hi8 d)\<rparr>"
    show ?thesis
      by (rule that [OF _ wait_flag(1) [of ?c1]])
        (use ok assms in
          \<open>auto simp: FLASH_Program_HalfWord_def store_half_def ctl_simps dev_half_def flash_of_def
             next_fault_def hw_ok_def Let_def\<close>)
  qed
qed

lemma half_bytes:
  "lo8 (ucast (ucast (w :: u32) :: u64)) = byte_of 0 w" "hi8 (ucast (ucast w :: u64)) = byte_of 1 w"
  "lo8 (ucast (drop_bit 16 (ucast w :: u64))) = byte_of 2 w"
  "hi8 (ucast (drop_bit 16 (ucast w :: u64))) = byte_of 3 w"
  by (rule bit_word_eqI; auto simp: lo8_def hi8_def byte_of_def bit_simps)+

lemma program_word_step:
  assumes q: "ctl_quiet c" and a: "word_range (unat A)"
  obtains st c' where "program_halves 2 0 A (ucast w) s c = Some (st, c')" "ctl_quiet c'" "fc_Lock c' = fc_Lock c"
    "dev_word (phys (unat A)) w (flash_of c) = (st, flash_of c')"
proof -
  let ?D = "ucast w :: u64"
  have A2: "unat (A + 2) = unat A + 2"
    using a by (auto simp: word_range_def phys_def unat_word_ariths split: if_splits)
  have A3: "phys (unat (A + 2)) = phys (unat A) + 2"
    using word_range_phys(1) [OF a, of 2] by (simp add: A2)
  have r: "phys (unat A) mod 2 = 0" "in_flash (phys (unat A))"
    "phys (unat (A + 2)) mod 2 = 0" "in_flash (phys (unat (A + 2)))"
    using a word_range_phys(2) [OF a, of 0] by (auto simp: word_range_def in_flash_def A3)
  obtain c1 c2 st where 1: "FLASH_Program_HalfWord A (ucast ?D) c = Some c1"
      "FLASH_WaitForLastOperation FLASH_TIMEOUT_VALUE c1 = (st, c2)"
      "ctl_quiet (clear_CR FLASH_CR_PG c2)" "fc_Lock (clear_CR FLASH_CR_PG c2) = fc_Lock c"
      "dev_half (phys (unat A)) (byte_of 0 w) (byte_of 1 w) (flash_of c) = (st, flash_of (clear_CR FLASH_CR_PG c2))"
    by (rule half_step [OF q r(1,2), of "ucast ?D", unfolded half_bytes])
  obtain c3 c4 st' where 2:
      "FLASH_Program_HalfWord (A + 2) (ucast (drop_bit 16 ?D)) (clear_CR FLASH_CR_PG c2) = Some c3"
      "FLASH_WaitForLastOperation FLASH_TIMEOUT_VALUE c3 = (st', c4)"
      "ctl_quiet (clear_CR FLASH_CR_PG c4)" "fc_Lock (clear_CR FLASH_CR_PG c4) = fc_Lock c"
      "dev_half (phys (unat A) + 2) (byte_of 2 w) (byte_of 3 w) (flash_of (clear_CR FLASH_CR_PG c2))
         = (st', flash_of (clear_CR FLASH_CR_PG c4))"
    by (rule half_step [OF 1(3) r(3,4), of "ucast (drop_bit 16 ?D)", unfolded half_bytes 1(4) A3])
  show ?thesis
  proof (cases "st = HAL_OK")
    case True
    then show ?thesis
      using that [of st' "clear_CR FLASH_CR_PG c4"] 1 2 by (simp add: dev_word_def Let_def numeral_2_eq_2)
  next
    case False
    then show ?thesis
      using that [of st "clear_CR FLASH_CR_PG c2"] 1 by (simp add: dev_word_def Let_def numeral_2_eq_2)
  qed
qed

lemma flash_of_Lock [simp]: "flash_of (c\<lparr>fc_Lock := b\<rparr>) = flash_of c"
  by (simp add: flash_of_def)

lemma quiet_Lock [simp]: "ctl_quiet (c\<lparr>fc_Lock := b\<rparr>) = ctl_quiet c"
  by (simp add: ctl_quiet_def)

lemma program_refines:
  assumes "ctl_idle c" "word_range (unat A)"
  obtains st c' where "HAL_FLASH_Program FLASH_TYPEPROGRAM_WORD A (ucast w) c = Some (st, c')" "ctl_idle c'"
    "dev_word (phys (unat A)) w (flash_of c) = (st, flash_of c')"
proof -
  let ?c = "c\<lparr>fc_Lock := True\<rparr>"
  have q: "ctl_quiet ?c" "\<not> fc_Lock c" using assms(1) by (simp_all add: ctl_idle_def)
  obtain st c' where "program_halves 2 0 A (ucast w) HAL_OK ?c = Some (st, c')" "ctl_quiet c'"
      "dev_word (phys (unat A)) w (flash_of c) = (st, flash_of c')"
    using program_word_step [OF q(1) assms(2)] by (metis flash_of_Lock)
  then show ?thesis
    using that [of st "c'\<lparr>fc_Lock := False\<rparr>"] q wait_quiet [OF q(1)]
    by (simp add: HAL_FLASH_Program_def Let_def ctl_idle_def)
qed

lemma page_step:
  assumes "ctl_quiet c"
  obtains c2 st where
    "FLASH_WaitForLastOperation FLASH_TIMEOUT_VALUE (FLASH_PageErase A c) = (st, c2)"
    "ctl_quiet (clear_CR FLASH_CR_PER c2)" "fc_Lock (clear_CR FLASH_CR_PER c2) = fc_Lock c"
    "dev_page (unat A) (flash_of c) = (st, flash_of (clear_CR FLASH_CR_PER c2))"
proof -
  let ?c = "c\<lparr>fc_ErrorCode := HAL_FLASH_ERROR_NONE, fc_AR := A\<rparr>"
  have q: "ctl_quiet ?c" using assms(1) by (simp add: ctl_quiet_def)
  consider (locked) "fc_CR c = FLASH_CR_LOCK"
    | (fault) "fc_CR c = 0" "next_fault (flash_of c) \<or> \<not> in_flash (unat A)"
    | (ok) "fc_CR c = 0" "\<not> next_fault (flash_of c)" "in_flash (unat A)"
    using assms(1) by (auto simp: ctl_quiet_def)
  then show ?thesis
  proof cases
    case locked
    show ?thesis
      by (rule that [of HAL_OK ?c])
        (use locked assms wait_quiet [OF q] in
          \<open>auto simp: FLASH_PageErase_def ctl_simps write_AR_def dev_page_def flash_of_def Let_def\<close>)
  next
    case fault
    let ?c1 = "?c\<lparr>fc_CR := FLASH_CR_PER, fc_busy := fc_lat c, fc_env := tl (fc_env c), fc_SR := FLASH_SR_WRPERR\<rparr>"
    have e: "FLASH_PageErase A c = ?c1"
      using fault assms
      by (auto simp: FLASH_PageErase_def start_erase_def ctl_simps write_AR_def next_fault_def Let_def)
    show ?thesis
      by (rule that [unfolded e, OF wait_flag(2)])
        (use fault assms in \<open>auto simp: ctl_simps dev_page_def flash_of_def next_fault_def Let_def\<close>)
  next
    case ok
    let ?c1 = "?c\<lparr>fc_CR := FLASH_CR_PER, fc_busy := fc_lat c, fc_env := tl (fc_env c), fc_SR := FLASH_SR_EOP,
                  fc_mem := erase_page (unat A) (fc_mem c)\<rparr>"
    have e: "FLASH_PageErase A c = ?c1"
      using ok assms
      by (auto simp: FLASH_PageErase_def start_erase_def ctl_simps write_AR_def next_fault_def Let_def)
    show ?thesis
      by (rule that [unfolded e, OF wait_flag(1)])
        (use ok assms in \<open>auto simp: ctl_simps dev_page_def flash_of_def next_fault_def Let_def\<close>)
  qed
qed

lemma erase_loop_refines:
  assumes "ctl_quiet c" "unat A + n * 2048 < 2 ^ 32" "unat B = unat A + n * 2048"
  shows "\<exists>st p c'. erase_loop A B s P c = Some (if n = 0 then s else st, p, c') \<and> ctl_quiet c' \<and> fc_Lock c' = fc_Lock c
     \<and> dev_pages n (unat A) (flash_of c) = (st, flash_of c')"
  using assms
proof (induction n arbitrary: A c s P)
  case 0
  then show ?case
    by (auto simp: erase_loop.simps word_less_nat_alt)
next
  case (Suc n)
  obtain c2 st where 1:
    "FLASH_WaitForLastOperation FLASH_TIMEOUT_VALUE (FLASH_PageErase A c) = (st, c2)"
    "ctl_quiet (clear_CR FLASH_CR_PER c2)" "fc_Lock (clear_CR FLASH_CR_PER c2) = fc_Lock c"
    "dev_page (unat A) (flash_of c) = (st, flash_of (clear_CR FLASH_CR_PER c2))"
    by (rule page_step [OF Suc.prems(1)])
  have A: "unat (A + 0x800) = unat A + 2048"
    using Suc.prems(2) by (simp add: unat_word_ariths)
  have lt: "A < B" using Suc.prems(3) by (simp add: word_less_nat_alt)
  show ?case
  proof (cases "st = HAL_OK")
    case True
    have "\<exists>st' p c'. erase_loop (A + 0x800) B st P (clear_CR FLASH_CR_PER c2)
        = Some (if n = 0 then st else st', p, c') \<and> ctl_quiet c'
        \<and> fc_Lock c' = fc_Lock (clear_CR FLASH_CR_PER c2)
        \<and> dev_pages n (unat (A + 0x800)) (flash_of (clear_CR FLASH_CR_PER c2)) = (st', flash_of c')"
      by (rule Suc.IH) (use 1 A Suc.prems in \<open>simp_all\<close>)
    then obtain st' p c' where 2: "erase_loop (A + 0x800) B st P (clear_CR FLASH_CR_PER c2)
        = Some (if n = 0 then st else st', p, c')" "ctl_quiet c'" "fc_Lock c' = fc_Lock c"
        "dev_pages n (unat A + 2048) (flash_of (clear_CR FLASH_CR_PER c2)) = (st', flash_of c')"
      using 1 A by auto
    moreover have "n = 0 \<Longrightarrow> st' = HAL_OK" using 2(4) by auto
    ultimately show ?thesis
      using True 1 lt by (subst erase_loop.simps) (auto simp: Let_def)
  next
    case False
    then show ?thesis
      using 1 lt by (subst erase_loop.simps) (auto simp: Let_def)
  qed
qed

lemma erase_refines:
  assumes "ctl_idle c" "unat A + n * 2048 < 2 ^ 32" "0 < n"
  obtains st p c' where
    "HAL_FLASHEx_Erase \<lparr>TypeErase = FLASH_TYPEERASE_PAGES, PageAddress = A, NbPages = of_nat n\<rparr> P c
       = Some (st, p, c')" "ctl_idle c'"
    "dev_pages n (unat A) (flash_of c) = (st, flash_of c')"
proof -
  let ?c = "c\<lparr>fc_Lock := True\<rparr>"
  have q: "ctl_quiet ?c" "\<not> fc_Lock c" using assms(1) by (simp_all add: ctl_idle_def)
  have B: "unat (of_nat n * 0x800 + A) = unat A + n * 2048"
    using assms(2) by (simp add: unat_word_ariths unat_of_nat)
  obtain st p c' where "erase_loop A (of_nat n * 0x800 + A) HAL_ERROR 0xFFFFFFFF ?c = Some (st, p, c')"
      "ctl_quiet c'" "dev_pages n (unat A) (flash_of c) = (st, flash_of c')"
    using erase_loop_refines [OF q(1) assms(2) B, of HAL_ERROR "0xFFFFFFFF"] assms(3) by auto
  then show ?thesis
    using that [of st p "c'\<lparr>fc_Lock := False\<rparr>"] q wait_quiet [OF q(1)]
    by (simp add: HAL_FLASHEx_Erase_def Let_def ctl_idle_def)
qed

section \<open>The driver behind its interface\<close>

text \<open>The driver on an idle controller that holds \<open>f\<close> and needs \<open>lat\<close> milliseconds for an
  operation.  A word outside of the flash, where a store is a hard fault, and a range of pages
  beyond the address space are refused.\<close>

definition ctl_of :: "nat \<Rightarrow> flash \<Rightarrow> flash_ctl" where
  "ctl_of lat f = \<lparr>fc_mem = fl_mem f, fc_SR = 0, fc_CR = (if fl_lock f then FLASH_CR_LOCK else 0), fc_AR = 0,
     fc_key = NoKey, fc_busy = 0, fc_lat = lat, fc_tick = 0, fc_env = fl_env f, fc_ErrorCode = 0,
     fc_Lock = False\<rparr>"

definition driver_program :: "nat \<Rightarrow> nat \<Rightarrow> u32 \<Rightarrow> flash \<Rightarrow> HAL_StatusTypeDef \<times> flash" where
  "driver_program lat a w f =
     (if \<not> word_range a then (HAL_ERROR, f)
      else case HAL_FLASH_Program FLASH_TYPEPROGRAM_WORD (of_nat a) (ucast w) (ctl_of lat f) of
             None \<Rightarrow> (HAL_ERROR, f)
           | Some (st, c) \<Rightarrow> (st, flash_of c))"

definition driver_erase :: "nat \<Rightarrow> nat \<Rightarrow> nat \<Rightarrow> flash \<Rightarrow> HAL_StatusTypeDef \<times> flash" where
  "driver_erase lat a n f =
     (if 2 ^ 32 \<le> a + n * FLASH_PAGE_SIZE then (HAL_ERROR, f)
      else case HAL_FLASHEx_Erase \<lparr>TypeErase = FLASH_TYPEERASE_PAGES, PageAddress = of_nat a, NbPages = of_nat n\<rparr>
                  0 (ctl_of lat f) of
             None \<Rightarrow> (HAL_ERROR, f)
           | Some (st, PageError, c) \<Rightarrow> (st, flash_of c))"

definition hal_driver :: "nat \<Rightarrow> hal_flash" where
  "hal_driver lat = \<lparr>hProgram = driver_program lat, hErase = driver_erase lat\<rparr>"

lemma flash_of_ctl_of [simp]: "flash_of (ctl_of lat f) = f"
  by (simp add: flash_of_def ctl_of_def)

lemma idle_ctl_of: "lat \<le> 50000 \<Longrightarrow> ctl_idle (ctl_of lat f)"
  by (simp add: ctl_idle_def ctl_quiet_def ctl_of_def)

lemma driver_program_eq:
  assumes "lat \<le> 50000" "word_range a"
  shows "driver_program lat a w f = dev_word (phys a) w f"
proof -
  have a: "unat (of_nat a :: u32) = a"
    using assms(2) by (auto simp: word_range_def phys_def unat_of_nat split: if_splits)
  show ?thesis
    by (rule program_refines [OF idle_ctl_of [OF assms(1)], of "of_nat a" w f])
      (use assms(2) in \<open>simp_all add: a driver_program_def\<close>)
qed

lemma driver_erase_eq:
  assumes "lat \<le> 50000" "a + n * FLASH_PAGE_SIZE < 2 ^ 32" "0 < n"
  shows "driver_erase lat a n f = dev_pages n a f"
proof -
  have a: "unat (of_nat a :: u32) = a"
    using assms(2) by (simp add: unat_of_nat)
  show ?thesis
    by (rule erase_refines [OF idle_ctl_of [OF assms(1)], of "of_nat a" n 0 f])
      (use assms(2,3) in \<open>simp_all add: a driver_erase_def\<close>)
qed

lemma driver_erase_none: "lat \<le> 50000 \<Longrightarrow> driver_erase lat a 0 f = (HAL_ERROR, f)"
proof -
  assume "lat \<le> 50000"
  then have "ctl_quiet ((ctl_of lat f)\<lparr>fc_Lock := True\<rparr>)" using idle_ctl_of [of lat f] by (simp add: ctl_idle_def)
  then show ?thesis
    by (simp add: driver_erase_def HAL_FLASHEx_Erase_def wait_quiet erase_loop.simps Let_def)
       (simp add: ctl_of_def)
qed

section \<open>The laws\<close>

lemma dev_half_frame:
  assumes "dev_half a b0 b1 f = (st, f')"
  shows "fl_lock f' = fl_lock f" "x < a \<or> a + 2 \<le> x \<Longrightarrow> fl_mem f' x = fl_mem f x"
    "fl_env f = [] \<Longrightarrow> fl_env f' = []"
  using assms by (auto simp: dev_half_def Let_def split: if_splits)

lemma dev_half_ok:
  assumes "dev_half a b0 b1 f = (HAL_OK, f')" "\<not> fl_lock f"
  shows "fl_mem f' a = b0" "fl_mem f' (a + 1) = b1" "hw_ok f a b0 b1"
  using assms by (auto simp: dev_half_def Let_def split: if_splits)

lemma dev_half_succeeds:
  assumes "dev_half a b0 b1 f = (st, f')" "fl_env f = []" "hw_ok f a b0 b1"
  shows "st = HAL_OK"
  using assms by (auto simp: dev_half_def next_fault_def Let_def split: if_splits)

lemma dev_word_frame:
  assumes "dev_word a w f = (st, f')"
  shows "fl_lock f' = fl_lock f" "x < a \<or> a + 4 \<le> x \<Longrightarrow> fl_mem f' x = fl_mem f x"
    "fl_env f = [] \<Longrightarrow> fl_env f' = []"
  using assms
  by (auto simp: dev_word_def dev_half_frame split: prod.splits if_splits dest: dev_half_frame)

lemma dev_word_ok:
  assumes "dev_word a w f = (HAL_OK, f')" "\<not> fl_lock f"
  shows "i < 4 \<Longrightarrow> fl_mem f' (a + i) = byte_of i w" "hw_ok f a (byte_of 0 w) (byte_of 1 w)"
proof -
  obtain f1 where 1: "dev_half a (byte_of 0 w) (byte_of 1 w) f = (HAL_OK, f1)"
      and 2: "dev_half (a + 2) (byte_of 2 w) (byte_of 3 w) f1 = (HAL_OK, f')"
    using assms(1) by (auto simp: dev_word_def split: prod.splits if_splits)
  have lock: "\<not> fl_lock f1" using dev_half_frame(1) [OF 1] assms(2) by simp
  show "hw_ok f a (byte_of 0 w) (byte_of 1 w)" by (rule dev_half_ok(3) [OF 1 assms(2)])
  show "fl_mem f' (a + i) = byte_of i w" if "i < 4"
    using less4_cases [OF that] dev_half_ok [OF 1 assms(2)] dev_half_ok [OF 2 lock]
      dev_half_frame(2) [OF 2, of a] dev_half_frame(2) [OF 2, of "a + 1"]
    by (auto simp: add.assoc numeral_3_eq_3)
qed

lemma dev_word_succeeds:
  assumes "dev_word a w f = (st, f')" "fl_env f = []" "\<And>i. i < 4 \<Longrightarrow> fl_mem f (a + i) = 0xFF"
  shows "st = HAL_OK"
proof -
  obtain st1 f1 where 1: "dev_half a (byte_of 0 w) (byte_of 1 w) f = (st1, f1)" by fastforce
  have m: "fl_mem f a = 0xFF" "fl_mem f (a + 1) = 0xFF" "fl_mem f (a + 2) = 0xFF" "fl_mem f (a + 3) = 0xFF"
    using assms(3) [of 0] assms(3) [of 1] assms(3) [of 2] assms(3) [of 3] by simp_all
  have st1: "st1 = HAL_OK"
    by (rule dev_half_succeeds [OF 1 assms(2)]) (use m in \<open>simp add: hw_ok_def\<close>)
  have "hw_ok f1 (a + 2) (byte_of 2 w) (byte_of 3 w)"
    using m dev_half_frame(2) [OF 1, of "a + 2"] dev_half_frame(2) [OF 1, of "a + 3"]
    by (simp add: hw_ok_def numeral_3_eq_3)
  then show ?thesis
    using assms(1) 1 st1 dev_half_succeeds [OF _ dev_half_frame(3) [OF 1 assms(2)]]
    by (auto simp: dev_word_def)
qed

lemma page_base_aligned: "a mod 2048 = 0 \<Longrightarrow> page_base a = a"
  by (simp add: page_base_def)

lemma dev_page_frame:
  assumes "dev_page a f = (st, f')"
  shows "fl_lock f' = fl_lock f" "fl_env f = [] \<Longrightarrow> fl_env f' = []"
    "a mod 2048 = 0 \<Longrightarrow> x < a \<or> a + 2048 \<le> x \<Longrightarrow> fl_mem f' x = fl_mem f x"
  using assms by (auto simp: dev_page_def erase_page_def page_base_aligned Let_def split: if_splits)

lemma dev_pages_frame:
  "dev_pages n a f = (st, f') \<Longrightarrow> fl_lock f' = fl_lock f \<and> (fl_env f = [] \<longrightarrow> fl_env f' = [])
    \<and> (a mod 2048 = 0 \<longrightarrow> x < a \<or> a + n * 2048 \<le> x \<longrightarrow> fl_mem f' x = fl_mem f x)"
proof (induction n arbitrary: a f)
  case (Suc n)
  obtain st1 f1 where 1: "dev_page a f = (st1, f1)" by fastforce
  note fr = dev_page_frame [OF 1]
  show ?case
  proof (cases "st1 = HAL_OK")
    case True
    with Suc.prems 1 have "dev_pages n (a + 2048) f1 = (st, f')" by simp
    from Suc.IH [OF this] show ?thesis using fr by (auto simp: mod_add_self2)
  next
    case False
    then show ?thesis using Suc.prems 1 fr by auto
  qed
qed simp

lemma dev_pages_ok:
  "dev_pages n a f = (HAL_OK, f') \<Longrightarrow> \<not> fl_lock f \<Longrightarrow> a mod 2048 = 0 \<Longrightarrow> a \<le> x \<Longrightarrow> x < a + n * 2048
   \<Longrightarrow> fl_mem f' x = 0xFF"
proof (induction n arbitrary: a f)
  case (Suc n)
  obtain f1 where 1: "dev_page a f = (HAL_OK, f1)" and 2: "dev_pages n (a + 2048) f1 = (HAL_OK, f')"
    using Suc.prems(1) by (auto split: prod.splits if_splits)
  have lock: "\<not> fl_lock f1" and al: "(a + 2048) mod 2048 = 0"
    using dev_page_frame(1) [OF 1] Suc.prems(2,3) by (simp_all add: mod_add_self2)
  show ?case
  proof (cases "x < a + 2048")
    case True
    have "fl_mem f1 x = 0xFF"
      using 1 Suc.prems(2-4) True
      by (auto simp: dev_page_def erase_page_def page_base_aligned Let_def split: if_splits)
    then show ?thesis using dev_pages_frame [OF 2, of x] True al by simp
  next
    case False
    then show ?thesis using Suc.IH [OF 2 lock al] Suc.prems(5) by simp
  qed
qed simp

lemma dev_pages_succeeds:
  "dev_pages n a f = (st, f') \<Longrightarrow> fl_env f = [] \<Longrightarrow> FLASH_LOW \<le> a \<Longrightarrow> a + n * 2048 \<le> FLASH_TOP \<Longrightarrow> st = HAL_OK"
proof (induction n arbitrary: a f)
  case (Suc n)
  obtain st1 f1 where 1: "dev_page a f = (st1, f1)" by fastforce
  have "st1 = HAL_OK"
    using 1 Suc.prems(2-4) by (auto simp: dev_page_def next_fault_def in_flash_def Let_def split: if_splits)
  then have 2: "dev_pages n (a + 2048) f1 = (st, f')" using Suc.prems(1) 1 by simp
  show ?case
    by (rule Suc.IH [OF 2 dev_page_frame(2) [OF 1 Suc.prems(2)]]) (use Suc.prems in simp_all)
qed simp

lemma hal_driver_sel [simp]:
  "hProgram (hal_driver lat) = driver_program lat" "hErase (hal_driver lat) = driver_erase lat"
  by (simp_all add: hal_driver_def)

lemma driver_program_cases:
  assumes "driver_program lat a w f = (st, f')" "lat \<le> 50000"
  obtains "\<not> word_range a" "st = HAL_ERROR" "f' = f" | "word_range a" "dev_word (phys a) w f = (st, f')"
proof (cases "word_range a")
  case True
  then show ?thesis using assms that(2) by (simp add: driver_program_eq)
next
  case False
  then show ?thesis using assms that(1) by (simp add: driver_program_def)
qed

lemma driver_erase_cases:
  assumes "driver_erase lat a n f = (st, f')" "lat \<le> 50000"
  obtains "n = 0 \<or> 2 ^ 32 \<le> a + n * FLASH_PAGE_SIZE" "st = HAL_ERROR" "f' = f"
  | "0 < n" "dev_pages n a f = (st, f')"
proof (cases "n = 0 \<or> 2 ^ 32 \<le> a + n * FLASH_PAGE_SIZE")
  case True
  then show ?thesis using assms that(1) by (auto simp: driver_erase_none) (simp add: driver_erase_def)
next
  case False
  then show ?thesis using assms that(2) by (simp add: driver_erase_eq)
qed

lemma hal_driver_laws:
  assumes lat: "lat \<le> 50000"
  shows "flash_hal (hal_driver lat)"
proof
  fix a w f f' st x
  assume p: "hProgram (hal_driver lat) a w f = (st, f')"
  show "fl_lock f' = fl_lock f"
    by (rule driver_program_cases [OF p [simplified] lat]) (auto dest: dev_word_frame)
  show "fl_mem f' x = fl_mem f x" if x: "\<forall>i < 4. x \<noteq> phys (a + i)"
  proof (rule driver_program_cases [OF p [simplified] lat])
    assume w: "word_range a" "dev_word (phys a) w f = (st, f')"
    have "x \<noteq> phys a + i" if "i < 4" for i
      using x that word_range_phys(1) [OF w(1) that] by metis
    from this [of "x - phys a"] have "x < phys a \<or> phys a + 4 \<le> x" by arith
    then show "fl_mem f' x = fl_mem f x" by (rule dev_word_frame(2) [OF w(2)])
  qed simp
  show "st \<noteq> HAL_OK" if "\<not> fl_lock f" "\<not> hw_ok f (phys a) (byte_of 0 w) (byte_of 1 w)"
    by (rule driver_program_cases [OF p [simplified] lat]) (use that dev_word_ok(2) in auto)
next
  fix a w f f' and i :: nat
  assume p: "hProgram (hal_driver lat) a w f = (HAL_OK, f')" "\<not> fl_lock f" "i < 4"
  show "fl_mem f' (phys (a + i)) = byte_of i w"
    by (rule driver_program_cases [OF p(1) [simplified] lat])
      (use p(2,3) dev_word_ok(1) word_range_phys(1) [OF _ p(3), of a] in auto)
next
  fix a n f f' st x
  assume e: "hErase (hal_driver lat) a n f = (st, f')"
  show "fl_lock f' = fl_lock f"
    by (rule driver_erase_cases [OF e [simplified] lat]) (auto dest: dev_pages_frame)
  show "fl_mem f' x = fl_mem f x" if "a mod FLASH_PAGE_SIZE = 0" "x < a \<or> a + n * FLASH_PAGE_SIZE \<le> x"
    by (rule driver_erase_cases [OF e [simplified] lat]) (use that in \<open>auto dest: dev_pages_frame [of _ _ _ _ _ x]\<close>)
next
  fix a n f f' x
  assume e: "hErase (hal_driver lat) a n f = (HAL_OK, f')" "\<not> fl_lock f" "a mod FLASH_PAGE_SIZE = 0"
    "a \<le> x" "x < a + n * FLASH_PAGE_SIZE"
  show "fl_mem f' x = 0xFF"
    by (rule driver_erase_cases [OF e(1) [simplified] lat]) (use e dev_pages_ok in auto)
qed

lemma hal_driver_reliable:
  assumes lat: "lat \<le> 50000"
  shows "reliable_flash (hal_driver lat) no_faults"
proof (intro reliable_flash.intro reliable_flash_axioms.intro)
  show "flash_hal (hal_driver lat)" by (rule hal_driver_laws [OF lat])
next
  fix f
  show "no_faults (HAL_FLASH_Lock f) = no_faults f" "no_faults (HAL_FLASH_Unlock f) = no_faults f"
    by (simp_all add: no_faults_def HAL_FLASH_Lock_def HAL_FLASH_Unlock_def)
next
  fix a w f st f'
  assume p: "hProgram (hal_driver lat) a w f = (st, f')" and g: "no_faults f"
  show "no_faults f'"
    by (rule driver_program_cases [OF p [simplified] lat])
      (use g in \<open>auto simp: no_faults_def dest: dev_word_frame(3)\<close>)
  show "st = HAL_OK" if "a mod 4 = 0" "FLASH_LOW \<le> a" "a + 4 \<le> FLASH_TOP" "\<And>i. i < 4 \<Longrightarrow> fl_mem f (a + i) = 0xFF"
  proof (rule driver_program_cases [OF p [simplified] lat])
    have "a mod 2 = 0" using that(1) by presburger
    then show "st = HAL_OK" if "\<not> word_range a"
      using that \<open>FLASH_LOW \<le> a\<close> \<open>a + 4 \<le> FLASH_TOP\<close> by (simp add: word_range_high)
    show "st = HAL_OK" if "dev_word (phys a) w f = (st, f')"
      by (rule dev_word_succeeds [OF that])
        (use g \<open>FLASH_LOW \<le> a\<close> \<open>\<And>i. i < 4 \<Longrightarrow> fl_mem f (a + i) = 0xFF\<close> in \<open>auto simp: no_faults_def\<close>)
  qed
next
  fix a n f st f'
  assume e: "hErase (hal_driver lat) a n f = (st, f')" and g: "no_faults f"
  show "no_faults f'"
    by (rule driver_erase_cases [OF e [simplified] lat])
      (use g in \<open>auto simp: no_faults_def dest: dev_pages_frame\<close>)
  show "st = HAL_OK" if "0 < n" "FLASH_LOW \<le> a" "a + n * FLASH_PAGE_SIZE \<le> FLASH_TOP"
    by (rule driver_erase_cases [OF e [simplified] lat])
      (use g that dev_pages_succeeds in \<open>auto simp: no_faults_def\<close>)
qed

text \<open>An erase takes at most 40 ms (t\_ERASE of the data sheet).\<close>

definition st_hal :: hal_flash where
  "st_hal = hal_driver 40"

interpretation st_drv: flash_hal st_hal
  unfolding st_hal_def by (rule hal_driver_laws) simp

interpretation st_drv: reliable_flash st_hal no_faults
  unfolding st_hal_def by (rule hal_driver_reliable) simp

lemma st_hal_flash_hal [simp]: "flash_hal st_hal"
  by (rule st_drv.flash_hal_axioms)

section \<open>Properties of the driver\<close>

lemma store_started:
  assumes "fc_CR c = 0" "word_range (unat A)"
  shows "\<exists>c1. FLASH_Program_HalfWord A d c = Some c1 \<and> fc_CR c1 = FLASH_CR_PG
    \<and> fc_busy c1 = fc_lat c \<and> fc_tick c1 = fc_tick c \<and> fc_Lock c1 = fc_Lock c"
proof -
  let ?c = "c\<lparr>fc_ErrorCode := HAL_FLASH_ERROR_NONE, fc_CR := FLASH_CR_PG\<rparr>"
  have "set_CR FLASH_CR_PG (c\<lparr>fc_ErrorCode := HAL_FLASH_ERROR_NONE\<rparr>) = ?c"
    using assms(1) by (simp add: set_CR_def write_CR_def Let_def)
  then have *: "FLASH_Program_HalfWord A d c = store_half A d ?c"
    by (simp only: FLASH_Program_HalfWord_def Let_def)
  show ?thesis
    unfolding * using assms
    by (cases "next_fault (flash_of ?c)"; cases "hw_ok (flash_of ?c) (phys (unat A)) (lo8 d) (hi8 d)")
       (simp_all add: store_half_def start_op_def word_range_phys(2) [OF assms(2), of 0] in_flash_def Let_def,
        simp_all add: word_range_def)
qed

lemma erase_started:
  assumes "fc_CR c = 0"
  shows "fc_CR (FLASH_PageErase P c) = FLASH_CR_PER" "fc_busy (FLASH_PageErase P c) = fc_lat c"
    "fc_tick (FLASH_PageErase P c) = fc_tick c" "fc_Lock (FLASH_PageErase P c) = fc_Lock c"
  using assms
  by (simp_all add: FLASH_PageErase_def start_erase_def set_CR_def write_CR_def write_AR_def start_op_def Let_def)

text \<open>Unlocking writes the two keys, locking sets the bit.\<close>

lemma unlock_refines:
  assumes "ctl_idle c"
  shows "\<exists>c'. HAL_FLASH_Unlock_reg c = (HAL_OK, c') \<and> ctl_idle c' \<and> flash_of c' = HAL_FLASH_Unlock (flash_of c)"
  using assms
  by (auto simp: HAL_FLASH_Unlock_reg_def HAL_FLASH_Unlock_def write_KEYR_def flash_of_def ctl_idle_def ctl_quiet_def)

lemma lock_refines:
  assumes "ctl_idle c"
  shows "\<exists>c'. HAL_FLASH_Lock_reg c = (HAL_OK, c') \<and> ctl_idle c' \<and> flash_of c' = HAL_FLASH_Lock (flash_of c)"
  using assms
  by (auto simp: HAL_FLASH_Lock_reg_def HAL_FLASH_Lock_def set_CR_def write_CR_def flash_of_def ctl_idle_def
      ctl_quiet_def Let_def)

text \<open>C16.  ST's flash driver does what its interface says.  From an idle controller
  (no operation runs, no flag is set, \<open>pFlash\<close> is free, no wrong key has been written), locked or
  not: \<open>HAL_FLASH_Program\<close> of a word in the flash, at its own address or at the alias of it at
  address 0, and \<open>HAL_FLASHEx_Erase\<close> of pages return, leave the controller idle with \<open>PG\<close> and \<open>PER\<close>
  cleared, and their status and the memory they leave are those of \<open>dev_word\<close> and \<open>dev_pages\<close>: half
  word after half word and page after page until one fails.  \<open>HAL_FLASH_Unlock\<close> and
  \<open>HAL_FLASH_Lock\<close> succeed, leave the controller idle and do to the flash what their abstract
  operations do: they clear and set its lock and change no byte.\<close>

theorem hal_flash_refines:
  assumes "ctl_idle c" and "word_range (unat A)"
    and "0 < n" and "unat P + n * FLASH_PAGE_SIZE < 2 ^ 32"
  shows "(\<exists>st c'. HAL_FLASH_Program FLASH_TYPEPROGRAM_WORD A (ucast w) c = Some (st, c') \<and> ctl_idle c'
           \<and> dev_word (phys (unat A)) w (flash_of c) = (st, flash_of c')) \<and>
         (\<exists>st e c'. HAL_FLASHEx_Erase \<lparr>TypeErase = FLASH_TYPEERASE_PAGES, PageAddress = P, NbPages = of_nat n\<rparr> v c
             = Some (st, e, c') \<and> ctl_idle c' \<and> dev_pages n (unat P) (flash_of c) = (st, flash_of c')) \<and>
         (\<exists>c'. HAL_FLASH_Unlock_reg c = (HAL_OK, c') \<and> ctl_idle c' \<and> flash_of c' = HAL_FLASH_Unlock (flash_of c)) \<and>
         (\<exists>c'. HAL_FLASH_Lock_reg c = (HAL_OK, c') \<and> ctl_idle c' \<and> flash_of c' = HAL_FLASH_Lock (flash_of c))"
proof (intro conjI unlock_refines [OF assms(1)] lock_refines [OF assms(1)])
  show "\<exists>st c'. HAL_FLASH_Program FLASH_TYPEPROGRAM_WORD A (ucast w) c = Some (st, c') \<and> ctl_idle c'
           \<and> dev_word (phys (unat A)) w (flash_of c) = (st, flash_of c')"
    by (rule program_refines [OF assms(1,2)]) blast
  show "\<exists>st e c'. HAL_FLASHEx_Erase \<lparr>TypeErase = FLASH_TYPEERASE_PAGES, PageAddress = P, NbPages = of_nat n\<rparr> v c
             = Some (st, e, c') \<and> ctl_idle c' \<and> dev_pages n (unat P) (flash_of c) = (st, flash_of c')"
    by (rule erase_refines [OF assms(1,4,3)]) blast
qed

text \<open>On an erased device the word \<open>0x12345678\<close> is written, low byte first.\<close>

definition erased_flash :: flash where
  "erased_flash = \<lparr>fl_mem = (\<lambda>_. 0xFF), fl_lock = False, fl_env = []\<rparr>"

theorem hal_flash_refines_witness:
  "\<exists>c'. HAL_FLASH_Program FLASH_TYPEPROGRAM_WORD 0x08003000 (ucast (0x12345678 :: u32)) (ctl_of 40 erased_flash)
          = Some (HAL_OK, c') \<and> ctl_idle c' \<and> fc_mem c' 0x08003000 = 0x78 \<and> fc_mem c' 0x08003003 = 0x12"
proof -
  have i: "ctl_idle (ctl_of 40 erased_flash)" by (rule idle_ctl_of) simp
  obtain st c' where *: "HAL_FLASH_Program FLASH_TYPEPROGRAM_WORD 0x08003000 (ucast (0x12345678 :: u32))
       (ctl_of 40 erased_flash) = Some (st, c')" "ctl_idle c'" "dev_word 0x08003000 0x12345678 erased_flash = (st, flash_of c')"
    using hal_flash_refines [OF i, of "0x08003000" 1 "0x08003000" "0x12345678" 0]
    by (auto simp: word_range_def)
  have st: "st = HAL_OK"
    by (rule dev_word_succeeds [OF *(3)]) (simp_all add: erased_flash_def)
  have "\<not> fl_lock erased_flash" by (simp add: erased_flash_def)
  then have "fc_mem c' 0x08003000 = byte_of 0 0x12345678" "fc_mem c' 0x08003003 = byte_of 3 0x12345678"
    using dev_word_ok(1) [OF *(3) [unfolded st], of 0] dev_word_ok(1) [OF *(3) [unfolded st], of 3] by simp_all
  with *(1,2) st show ?thesis by (simp add: byte_of_def)
qed

text \<open>A controller that does not finish does not hang the driver: when an
  operation that \<open>HAL_FLASH_Program\<close> or \<open>HAL_FLASHEx_Erase\<close> started takes more than the 50 s of
  \<open>FLASH_TIMEOUT_VALUE\<close>, the call returns \<open>HAL_TIMEOUT\<close> one tick after the limit, with \<open>PG\<close> or
  \<open>PER\<close> cleared and \<open>pFlash\<close> released, and the erase reports the page at which it stopped.\<close>

theorem hal_flash_times_out:
  assumes "fc_SR c = 0" and "fc_busy c = 0" and "fc_CR c = 0" and "\<not> fc_Lock c" and "50000 < fc_lat c"
    and "word_range (unat A)" and "P < B" and "B = NbPages e * 0x800 + P"
    and "PageAddress e = P" and "TypeErase e \<noteq> FLASH_TYPEERASE_MASSERASE"
  shows "(\<exists>c'. HAL_FLASH_Program FLASH_TYPEPROGRAM_WORD A D c = Some (HAL_TIMEOUT, c')
             \<and> fc_tick c' = fc_tick c + 50001 \<and> \<not> fc_Lock c' \<and> fc_CR c' = 0) \<and>
         (\<exists>c'. HAL_FLASHEx_Erase e v c = Some (HAL_TIMEOUT, P, c')
             \<and> fc_tick c' = fc_tick c + 50001 \<and> \<not> fc_Lock c' \<and> fc_CR c' = 0)"
proof (rule conjI)
  let ?c = "c\<lparr>fc_Lock := True\<rparr>"
  have free: "FLASH_WaitForLastOperation FLASH_TIMEOUT_VALUE ?c = (HAL_OK, ?c)"
    using assms(1,2) by (simp add: wait_free)
  obtain c1 where 1: "FLASH_Program_HalfWord A (ucast D) ?c = Some c1" "fc_CR c1 = FLASH_CR_PG"
      "fc_busy c1 = fc_lat c" "fc_tick c1 = fc_tick c"
    using store_started [of ?c A "ucast D"] assms(3,6) by auto
  obtain k where "FLASH_WaitForLastOperation FLASH_TIMEOUT_VALUE c1
      = (HAL_TIMEOUT, c1\<lparr>fc_busy := k, fc_tick := fc_tick c + 50001\<rparr>)"
    by (rule wait_stuck [of c1]) (use 1 assms(5) in auto)
  then show "\<exists>c'. HAL_FLASH_Program FLASH_TYPEPROGRAM_WORD A D c = Some (HAL_TIMEOUT, c')
      \<and> fc_tick c' = fc_tick c + 50001 \<and> \<not> fc_Lock c' \<and> fc_CR c' = 0"
    using free 1 assms(4)
    by (simp add: HAL_FLASH_Program_def Let_def numeral_2_eq_2 clear_CR_def write_CR_def)
  obtain c1 where 2: "FLASH_PageErase P ?c = c1" "fc_CR c1 = FLASH_CR_PER"
      "fc_busy c1 = fc_lat c" "fc_tick c1 = fc_tick c"
    using erase_started [of ?c P] assms(3) by simp
  obtain k where "FLASH_WaitForLastOperation FLASH_TIMEOUT_VALUE c1
      = (HAL_TIMEOUT, c1\<lparr>fc_busy := k, fc_tick := fc_tick c + 50001\<rparr>)"
    by (rule wait_stuck [of c1]) (use 2 assms(5) in auto)
  then show "\<exists>c'. HAL_FLASHEx_Erase e v c = Some (HAL_TIMEOUT, P, c')
      \<and> fc_tick c' = fc_tick c + 50001 \<and> \<not> fc_Lock c' \<and> fc_CR c' = 0"
    using free 2 assms(4,7-10)
    by (subst HAL_FLASHEx_Erase_def, subst erase_loop.simps) (simp add: Let_def clear_CR_def write_CR_def)
qed

theorem hal_flash_times_out_witness:
  "\<exists>c'. HAL_FLASHEx_Erase \<lparr>TypeErase = FLASH_TYPEERASE_PAGES, PageAddress = 0x08003000, NbPages = 54\<rparr> 0
          (ctl_of 60000 erased_flash) = Some (HAL_TIMEOUT, 0x08003000, c') \<and> fc_tick c' = 50001"
proof -
  have c: "fc_SR (ctl_of 60000 erased_flash) = 0" "fc_busy (ctl_of 60000 erased_flash) = 0"
    "fc_CR (ctl_of 60000 erased_flash) = 0" "\<not> fc_Lock (ctl_of 60000 erased_flash)"
    "50000 < fc_lat (ctl_of 60000 erased_flash)" "fc_tick (ctl_of 60000 erased_flash) = 0"
    by (simp_all add: ctl_of_def erased_flash_def)
  have w: "word_range (unat (0x08003000 :: u32))" by (simp add: word_range_def)
  have B: "(0x08003000 :: u32) < 0x0801E000" by simp
  let ?e = "\<lparr>TypeErase = FLASH_TYPEERASE_PAGES, PageAddress = 0x08003000, NbPages = 54\<rparr>"
  have e: "(0x0801E000 :: u32) = NbPages ?e * 0x800 + 0x08003000" "PageAddress ?e = 0x08003000"
    "TypeErase ?e \<noteq> FLASH_TYPEERASE_MASSERASE"
    by simp_all
  show ?thesis
    using conjunct2 [OF hal_flash_times_out [OF c(1-5) w B e, of 0 0]] unfolding c(6) by (elim exE conjE) auto
qed

end
