(* ===== verification/InFlash.thy ===== *)
theory InFlash
  imports HalFlash
begin

text \<open>
  \<open>BSP/Src/In_Flash.c\<close>: the parameter area at the end of the flash, read byte by byte and
  written page by page (read the page, change it, erase, program it back).  Addresses are
  offsets from \<open>IN_FLASH_BASE_ADDRESS\<close>.  The static \<open>Flash_Buf\<close> is filled by every operation
  before it is used, so it is a local of the model.
\<close>

section \<open>Operations\<close>

abbreviation IN_FLASH_BASE_ADDRESS :: nat where "IN_FLASH_BASE_ADDRESS \<equiv> 0x0801E800"
abbreviation IN_FLASH_END :: nat where "IN_FLASH_END \<equiv> 0x17FF"

abbreviation (input) OP_SUCCESS :: u8 where "OP_SUCCESS \<equiv> 0"
abbreviation (input) OP_FAILED :: u8 where "OP_FAILED \<equiv> 1"

definition InFlash_Read_OneByte :: "flash \<Rightarrow> u16 \<Rightarrow> u8 option" where
  "InFlash_Read_OneByte f RWAddr = flash_get f (IN_FLASH_BASE_ADDRESS + unat RWAddr)"

fun read_loop :: "flash \<Rightarrow> u16 \<Rightarrow> nat \<Rightarrow> u8 list option" where
  "read_loop f RWAddress 0 = Some []"
| "read_loop f RWAddress (Suc n) = do {
     b \<leftarrow> InFlash_Read_OneByte f RWAddress;
     bs \<leftarrow> read_loop f (RWAddress + 1) n;
     Some (b # bs) }"

definition InFlash_Read_MultiBytes :: "flash \<Rightarrow> u16 \<Rightarrow> u16 \<Rightarrow> u8 list option" where
  "InFlash_Read_MultiBytes f RWAddr Rdlen = read_loop f RWAddr (unat Rdlen)"

definition page_of :: "u16 \<Rightarrow> u16" where
  "page_of RWAddr = (RWAddr div 2048) * 2048"

definition InFlash_Erase_Page :: "hal_flash \<Rightarrow> flash \<Rightarrow> u16 \<Rightarrow> u8 \<Rightarrow> HAL_StatusTypeDef \<times> flash" where
  "InFlash_Erase_Page H f RWAddr PageNb =
     (let (sta, f') = hErase H (IN_FLASH_BASE_ADDRESS + unat (page_of RWAddr)) (unat PageNb)
                        (HAL_FLASH_Unlock f)
      in (sta, HAL_FLASH_Lock f'))"

text \<open>\<open>Flash_Buf\<close> is an array of words, the bytes in it are addressed little-endian.\<close>

fun words_of :: "u8 list \<Rightarrow> u32 list" where
  "words_of (b0 # b1 # b2 # b3 # bs) = be32 b3 b2 b1 b0 # words_of bs"
| "words_of bs = []"

fun program_words :: "hal_flash \<Rightarrow> nat \<Rightarrow> u32 list \<Rightarrow> HAL_StatusTypeDef \<Rightarrow> flash
                        \<Rightarrow> HAL_StatusTypeDef \<times> flash" where
  "program_words H addr [] st f = (st, f)"
| "program_words H addr (w # ws) st f =
     (let (st', f') = hProgram H addr w f in
      if st' \<noteq> HAL_OK then (st', f') else program_words H (addr + 4) ws st' f')"

definition InFlash_Write_OneByte :: "hal_flash \<Rightarrow> flash \<Rightarrow> u16 \<Rightarrow> u8 \<Rightarrow> (u8 \<times> flash) option" where
  "InFlash_Write_OneByte H f RWAddr WrData =
     (if IN_FLASH_END < unat RWAddr then Some (OP_FAILED, f)
      else do {
        let WrAddr = page_of RWAddr;
        buf \<leftarrow> InFlash_Read_MultiBytes f WrAddr 2048;
        buf \<leftarrow> wr buf (unat RWAddr mod FLASH_PAGE_SIZE) WrData;
        v \<leftarrow> rd buf (unat RWAddr mod FLASH_PAGE_SIZE);
        let (est, f1) = (if v \<noteq> 0xFF then InFlash_Erase_Page H f RWAddr 1 else (HAL_OK, f));
        if est \<noteq> HAL_OK then Some (OP_FAILED, f1)
        else do {
          let (st, f2) = program_words H (unat WrAddr + IN_FLASH_BASE_ADDRESS) (words_of buf) est
                           (HAL_FLASH_Unlock f1);
          let f3 = HAL_FLASH_Lock f2;
          Some (if st \<noteq> HAL_OK then OP_FAILED else OP_SUCCESS, f3) } })"

text \<open>The page loop of \<open>InFlash_Write_MultiBytes\<close>.  Its bound \<open>(Wrlen / FLASH_PAGE_SIZE) + 1\<close> is
  evaluated again in every iteration, with the \<open>Wrlen\<close> that the body has decreased.\<close>

function write_pages :: "hal_flash \<Rightarrow> nat \<Rightarrow> u16 \<Rightarrow> u16 \<Rightarrow> u8 list \<Rightarrow> u16 \<Rightarrow> u16 \<Rightarrow> HAL_StatusTypeDef
                           \<Rightarrow> flash \<Rightarrow> (HAL_StatusTypeDef \<times> flash) option" where
  "write_pages H j WrAddr off wbuf Wrlen remain st f =
     (if j < unat Wrlen div FLASH_PAGE_SIZE + 1 then do {
        flash_buf \<leftarrow> InFlash_Read_MultiBytes f WrAddr 2048;
        new \<leftarrow> rdn wbuf 0 (unat remain);
        flash_buf \<leftarrow> wrn flash_buf (unat off) new;
        let (est, f1) = InFlash_Erase_Page H f WrAddr 1;
        if est \<noteq> HAL_OK then Some (est, f1)
        else do {
          let (pst, f2) = program_words H (unat WrAddr + IN_FLASH_BASE_ADDRESS)
                            (words_of flash_buf) est (HAL_FLASH_Unlock f1);
          let f3 = HAL_FLASH_Lock f2;
          if pst \<noteq> HAL_OK then Some (pst, f3)
          else write_pages H (Suc j) (WrAddr + 2048) 0 (drop (unat remain) wbuf) (Wrlen - remain)
                 (if Wrlen - remain > 2048 then 2048 else Wrlen - remain) pst f3 } }
      else Some (st, f))"
  by pat_completeness auto

termination
proof (relation "measure (\<lambda>(H, j, WrAddr, off, wbuf, Wrlen, remain, st, f). 33 - j)", goal_cases)
  case 1
  then show ?case by simp
next
  case (2 H j WrAddr off wbuf Wrlen)
  moreover have "unat Wrlen div FLASH_PAGE_SIZE \<le> 31"
    using unat_u16_less [of Wrlen] by simp
  ultimately show ?case by simp
qed

definition InFlash_Write_MultiBytes ::
  "hal_flash \<Rightarrow> flash \<Rightarrow> u16 \<Rightarrow> u8 list \<Rightarrow> u16 \<Rightarrow> (u8 \<times> flash) option" where
  "InFlash_Write_MultiBytes H f RWAddr pWrbuf Wrlen =
     (if IN_FLASH_END < unat RWAddr then Some (OP_FAILED, f)
      else do {
        let WrAddr = page_of RWAddr;
        let off = RWAddr mod 2048;
        let remain = 2048 - off;
        let remain = (if Wrlen \<le> remain then Wrlen else remain);
        (st, f') \<leftarrow> write_pages H 0 WrAddr off pWrbuf Wrlen remain HAL_OK f;
        Some (if st \<noteq> HAL_OK then OP_FAILED else OP_SUCCESS, f') })"


section \<open>Reading\<close>

declare write_pages.simps [simp del]

lemma unat_page_of: "unat (page_of a) = unat a div FLASH_PAGE_SIZE * FLASH_PAGE_SIZE"
proof -
  have "unat a div 2048 * 2048 < 2 ^ LENGTH(16)"
    using unat_u16_less [of a] by (simp add: le_less_trans [OF div_times_less_eq_dividend])
  then show ?thesis
    by (simp add: page_of_def unat_word_ariths unat_div)
qed

text \<open>The bytes of the parameter area, as a function of the offset.\<close>

definition area :: "flash \<Rightarrow> nat \<Rightarrow> u8" where
  "area f k = fl_mem f (IN_FLASH_BASE_ADDRESS + k)"

lemma area_lock [simp]: "area (HAL_FLASH_Lock f) = area f" "area (HAL_FLASH_Unlock f) = area f"
  by (simp_all add: area_def fun_eq_iff)

lemma Read_OneByte_area:
  "unat a \<le> IN_FLASH_END \<Longrightarrow> InFlash_Read_OneByte f a = Some (area f (unat a))"
  by (simp add: InFlash_Read_OneByte_def flash_get_def area_def)

lemma read_loop_area:
  "unat a + n \<le> IN_FLASH_END + 1 \<Longrightarrow> read_loop f a n = Some (map (\<lambda>k. area f (unat a + k)) [0..<n])"
proof (induction n arbitrary: a)
  case (Suc n)
  show ?case
  proof (cases n)
    case 0
    with Suc.prems show ?thesis by (simp add: Read_OneByte_area)
  next
    case (Suc m)
    have "unat (a + 1) = unat a + 1"
      using Suc.prems Suc by (simp add: unat_word_ariths)
    then show ?thesis
      using Suc.prems Suc.IH [of "a + 1"] Suc
      by (simp add: Read_OneByte_area map_upt_Suc del: upt_Suc)
  qed
qed simp

lemma Read_MultiBytes_area:
  "unat a + unat n \<le> IN_FLASH_END + 1
   \<Longrightarrow> InFlash_Read_MultiBytes f a n = Some (map (\<lambda>k. area f (unat a + k)) [0..<unat n])"
  by (simp add: InFlash_Read_MultiBytes_def read_loop_area)

lemma Read_page:
  "unat a \<le> IN_FLASH_END \<Longrightarrow> InFlash_Read_MultiBytes f (page_of a) 2048
     = Some (map (\<lambda>k. area f (unat (page_of a) + k)) [0..<FLASH_PAGE_SIZE])"
  by (subst Read_MultiBytes_area) (auto simp: unat_page_of)

section \<open>Programming a page\<close>

lemma words_of_length: "length (words_of bs) = length bs div 4"
  by (induction bs rule: words_of.induct) auto

context flash_hal
begin

lemma program_words_frame:
  "program_words H a ws st f = (st', f') \<Longrightarrow> FLASH_LOW \<le> a
   \<Longrightarrow> fl_lock f' = fl_lock f \<and> (\<forall>x. x < a \<or> a + 4 * length ws \<le> x \<longrightarrow> fl_mem f' x = fl_mem f x)"
proof (induction ws arbitrary: a st f)
  case (Cons w ws)
  obtain s1 f1 where 1: "hProgram H a w f = (s1, f1)" by fastforce
  note p = program_lock [OF 1] program_high_frame [OF 1 Cons.prems(2)]
  show ?case
  proof (cases "s1 = HAL_OK")
    case True
    then show ?thesis using Cons.IH [of "a + 4" s1 f1] Cons.prems 1 p by auto
  next
    case False
    then show ?thesis using Cons.prems 1 p by auto
  qed
qed simp

lemma program_words_ok:
  "program_words H a (words_of bs) st f = (HAL_OK, f') \<Longrightarrow> \<not> fl_lock f \<Longrightarrow> a mod 4 = 0 \<Longrightarrow> FLASH_LOW \<le> a
   \<Longrightarrow> length bs mod 4 = 0 \<Longrightarrow> i < length bs \<Longrightarrow> fl_mem f' (a + i) = bs ! i"
proof (induction bs arbitrary: a st f i rule: words_of.induct)
  case (1 b0 b1 b2 b3 bs)
  let ?w = "be32 b3 b2 b1 b0"
  obtain f1 where f1: "hProgram H a ?w f = (HAL_OK, f1)"
    and rest: "program_words H (a + 4) (words_of bs) HAL_OK f1 = (HAL_OK, f')"
    using "1.prems"(1) by (auto split: prod.splits if_splits)
  show ?case
  proof (cases "i < 4")
    case True
    have "fl_mem f' (a + i) = fl_mem f1 (a + i)"
      using program_words_frame [OF rest] True "1.prems"(4) by simp
    also have "\<dots> = byte_of i ?w"
      using program_high_ok [OF f1 _ _ _ True] "1.prems" by simp
    finally show ?thesis
      using less4_cases [OF True]
      by (auto simp: bytes_be32 bytes_be32 [unfolded One_nat_def])
  next
    case False
    have "fl_mem f' ((a + 4) + (i - 4)) = bs ! (i - 4)"
    proof (rule "1.IH" [OF rest])
      show "\<not> fl_lock f1" using program_lock [OF f1] "1.prems" by simp
      show "(a + 4) mod 4 = 0" "FLASH_LOW \<le> a + 4" "length bs mod 4 = 0" "i - 4 < length bs"
        using "1.prems" False by (simp_all add: mod_add_right_eq)
    qed
    moreover have "(a + 4) + (i - 4) = a + i" "(b0 # b1 # b2 # b3 # bs) ! i = bs ! (i - 4)"
      using False by (auto simp: nth_Cons' numeral_eq_Suc)
    ultimately show ?thesis by simp
  qed
qed auto


text \<open>Erasing a page and programming it back: the lock bit is set afterwards, nothing outside
  the page changes, and when both driver calls succeed the page holds the buffer.\<close>

lemma erase_page_frame:
  assumes "InFlash_Erase_Page H f a 1 = (st, f1)"
  shows "fl_lock f1"
    and "x < IN_FLASH_BASE_ADDRESS + unat (page_of a) \<or> IN_FLASH_BASE_ADDRESS + unat (page_of a) + 2048 \<le> x
         \<Longrightarrow> fl_mem f1 x = fl_mem f x"
  using assms erase_frame [of "IN_FLASH_BASE_ADDRESS + unat (page_of a)" 1]
  by (auto simp: InFlash_Erase_Page_def unat_page_of mod_add_left_eq split: prod.splits)

lemma program_page_frame:
  assumes "program_words H (unat (page_of a) + IN_FLASH_BASE_ADDRESS) (words_of buf) st f = (st', f')"
    and "length buf = 2048"
    and "x < IN_FLASH_BASE_ADDRESS + unat (page_of a) \<or> IN_FLASH_BASE_ADDRESS + unat (page_of a) + 2048 \<le> x"
  shows "fl_mem f' x = fl_mem f x"
  using program_words_frame [OF assms(1)] assms(2,3) by (auto simp: words_of_length)

lemma program_page_ok:
  assumes "program_words H (unat (page_of a) + IN_FLASH_BASE_ADDRESS) (words_of buf) st
             (HAL_FLASH_Unlock f) = (HAL_OK, f')"
    and "length buf = 2048" "i < 2048"
  shows "area f' (unat (page_of a) + i) = buf ! i"
proof -
  have "(unat (page_of a) + IN_FLASH_BASE_ADDRESS) mod 4 = 0"
    by (simp add: unat_page_of)
  then show ?thesis
    using program_words_ok [OF assms(1), of i] assms(2,3) by (simp add: area_def ac_simps)
qed


end

text \<open>What a write means: the bytes \<open>bs\<close> from offset \<open>a\<close> on replace what was there.\<close>

definition overwrite :: "(nat \<Rightarrow> u8) \<Rightarrow> nat \<Rightarrow> u8 list \<Rightarrow> nat \<Rightarrow> u8" where
  "overwrite g a bs k = (if a \<le> k \<and> k < a + length bs then bs ! (k - a) else g k)"

text \<open>The addresses that a write to offset \<open>a\<close> may touch: those of its page.\<close>

definition in_page :: "u16 \<Rightarrow> nat \<Rightarrow> bool" where
  "in_page a x \<longleftrightarrow> IN_FLASH_BASE_ADDRESS + unat (page_of a) \<le> x
                  \<and> x < IN_FLASH_BASE_ADDRESS + unat (page_of a) + FLASH_PAGE_SIZE"

lemma page_split: "unat (a :: u16) = unat (page_of a) + unat a mod FLASH_PAGE_SIZE"
  by (simp add: unat_page_of)

text \<open>Patching the copy of the page and writing it back overwrites the area.\<close>

lemma patched_page:
  assumes "unat a mod FLASH_PAGE_SIZE + length bs \<le> FLASH_PAGE_SIZE"
    and "wrn (map (\<lambda>k. area f (unat (page_of a) + k)) [0..<FLASH_PAGE_SIZE])
             (unat a mod FLASH_PAGE_SIZE) bs = Some buf"
    and "\<And>i. i < FLASH_PAGE_SIZE \<Longrightarrow> area f' (unat (page_of a) + i) = buf ! i"
    and "\<And>x. \<not> in_page a x \<Longrightarrow> fl_mem f' x = fl_mem f x"
  shows "area f' = overwrite (area f) (unat a) bs"
proof (rule ext)
  fix k
  let ?p = "unat (page_of a)" and ?o = "unat a mod FLASH_PAGE_SIZE"
  have buf: "buf = take ?o (map (\<lambda>k. area f (?p + k)) [0..<FLASH_PAGE_SIZE]) @ bs
                     @ drop (?o + length bs) (map (\<lambda>k. area f (?p + k)) [0..<FLASH_PAGE_SIZE])"
    using assms(2) by (simp add: wrn_def split: if_splits)
  show "area f' k = overwrite (area f) (unat a) bs k"
  proof (cases "?p \<le> k \<and> k < ?p + FLASH_PAGE_SIZE")
    case True
    then obtain i where k: "k = ?p + i" and i: "i < FLASH_PAGE_SIZE"
      by (metis le_add_diff_inverse nat_add_left_cancel_less)
    have "buf ! i = (if ?o \<le> i \<and> i < ?o + length bs then bs ! (i - ?o) else area f (?p + i))"
      using i assms(1) by (auto simp: buf nth_append)
    moreover have "k - unat a = i - ?o" "(unat a \<le> k) = (?o \<le> i)"
      "(k < unat a + length bs) = (i < ?o + length bs)"
      using page_split [of a] k by linarith+
    ultimately show ?thesis
      using assms(3) [OF i] k by (auto simp: overwrite_def)
  next
    case False
    then have "area f' k = area f k"
      using assms(4) [of "IN_FLASH_BASE_ADDRESS + k"] by (auto simp: area_def in_page_def)
    then show ?thesis
      using False page_split [of a] assms(1) by (auto simp: overwrite_def)
  qed
qed


text \<open>How a write comes to its result: it erases the page of \<open>a\<close> and, if that succeeds, programs
  some buffer of the size of a page.\<close>

definition committed :: "hal_flash \<Rightarrow> flash \<Rightarrow> u16 \<Rightarrow> u8 \<Rightarrow> flash \<Rightarrow> bool" where
  "committed H f a st f' \<longleftrightarrow> (\<exists>est f1. InFlash_Erase_Page H f a 1 = (est, f1) \<and>
     (if est \<noteq> HAL_OK then st = OP_FAILED \<and> f' = f1
      else \<exists>buf pst f2. length buf = 2048 \<and> f' = HAL_FLASH_Lock f2
             \<and> program_words H (unat (page_of a) + IN_FLASH_BASE_ADDRESS) (words_of buf) est
                 (HAL_FLASH_Unlock f1) = (pst, f2)
             \<and> st = (if pst \<noteq> HAL_OK then OP_FAILED else OP_SUCCESS)))"

lemma page_of_idem [simp]: "page_of (page_of a) = page_of a"
  by (rule word_unat_eq_iff [THEN iffD2]) (simp add: unat_page_of)

lemma Erase_page_of [simp]: "InFlash_Erase_Page H f (page_of a) n = InFlash_Erase_Page H f a n"
  by (simp add: InFlash_Erase_Page_def)

context flash_hal
begin

text \<open>One iteration of the page loop whose page is in the area.\<close>

lemma write_pages_step:
  assumes a: "unat a \<le> IN_FLASH_END"
    and fits: "unat a mod FLASH_PAGE_SIZE + unat remain \<le> FLASH_PAGE_SIZE" "unat remain \<le> length wbuf"
    and j: "j < unat n div FLASH_PAGE_SIZE + 1"
    and last: "\<not> Suc j < unat (n - remain) div FLASH_PAGE_SIZE + 1"
  obtains st' f' where
    "write_pages H j (page_of a) (a mod 2048) wbuf n remain st f = Some (st', f')"
    "fl_lock f'" "\<And>x. \<not> in_page a x \<Longrightarrow> fl_mem f' x = fl_mem f x"
    "st' = HAL_OK \<Longrightarrow> area f' = overwrite (area f) (unat a) (take (unat remain) wbuf)"
    "committed H f a (if st' \<noteq> HAL_OK then OP_FAILED else OP_SUCCESS) f'"
proof -
  define page where "page = map (\<lambda>k. area f (unat (page_of a) + k)) [0..<FLASH_PAGE_SIZE]"
  have plen: "length page = 2048" by (simp add: page_def)
  note rd = Read_page [OF a, of f, folded page_def]
  let ?o = "unat a mod FLASH_PAGE_SIZE" and ?new = "take (unat remain) wbuf"
  obtain buf where buf: "wrn page ?o ?new = Some buf"
    using fits plen by (simp add: wrn_def)
  then have len: "length buf = 2048" using wrn_length plen by metis
  have off: "unat (a mod 2048) = ?o" by (simp add: unat_mod)
  have rdn: "rdn wbuf 0 (unat remain) = Some ?new" using fits by simp
  obtain est f1 where e: "InFlash_Erase_Page H f a 1 = (est, f1)" by fastforce
  note ef = erase_page_frame [OF e]
  obtain pst f2 where p: "program_words H (unat (page_of a) + IN_FLASH_BASE_ADDRESS) (words_of buf)
                            est (HAL_FLASH_Unlock f1) = (pst, f2)" by fastforce
  note pf = program_page_frame [OF p len]
  have frame: "fl_mem f2 x = fl_mem f x" if "\<not> in_page a x" for x
    using that ef(2) [of x] pf [of x] by (auto simp: in_page_def)
  have ok: "area (HAL_FLASH_Lock f2) = overwrite (area f) (unat a) ?new" if "pst = HAL_OK"
  proof (rule patched_page [OF _ buf [unfolded page_def]])
    show "?o + length ?new \<le> FLASH_PAGE_SIZE" using fits by simp
    show "area (HAL_FLASH_Lock f2) (unat (page_of a) + i) = buf ! i" if "i < FLASH_PAGE_SIZE" for i
      using program_page_ok [OF p [unfolded \<open>pst = HAL_OK\<close>] len that] by simp
  qed (simp add: frame)
  show thesis
  proof (cases "est = HAL_OK")
    case False
    with j e ef show thesis
      by (intro that [of est f1])
        (auto simp: write_pages.simps [of H j] rd off rdn buf in_page_def committed_def)
  next
    case True
    have "write_pages H j (page_of a) (a mod 2048) wbuf n remain st f = Some (pst, HAL_FLASH_Lock f2)"
      using True j e p last
      by (subst write_pages.simps) (simp add: rd off rdn buf Let_def write_pages.simps [of H "Suc j"])
    then show thesis
      by (rule that) (use ok True e p len in \<open>auto simp: frame committed_def\<close>)
  qed
qed

text \<open>A write of at most a page: it always returns, leaves the flash locked and everything
  outside the page of \<open>RWAddr\<close> as it was, and on success it has written what fits in the
  page and nothing else; the rest of a write that crosses the page is dropped.\<close>

lemma write_multi:
  assumes a: "unat a \<le> IN_FLASH_END" and n: "unat n \<le> FLASH_PAGE_SIZE"
    and m: "m = min (unat n) (FLASH_PAGE_SIZE - unat a mod FLASH_PAGE_SIZE)" "m \<le> length buf"
  obtains st f' where
    "InFlash_Write_MultiBytes H f a buf n = Some (st, f')" "st = OP_SUCCESS \<or> st = OP_FAILED"
    "fl_lock f'" "\<And>x. \<not> in_page a x \<Longrightarrow> fl_mem f' x = fl_mem f x"
    "st = OP_SUCCESS \<Longrightarrow> area f' = overwrite (area f) (unat a) (take m buf)"
    "committed H f a st f'"
proof -
  let ?o = "unat a mod FLASH_PAGE_SIZE"
  define remain where "remain = (if n \<le> 2048 - a mod 2048 then n else 2048 - a mod 2048)"
  have o: "unat (a mod 2048) = ?o" by (simp add: unat_mod)
  have "a mod 2048 \<le> 2048" using o by (simp add: word_le_nat_alt)
  then have "unat (2048 - a mod 2048) = 2048 - ?o" using o by (simp add: unat_sub)
  then have r: "unat remain = m"
    using n by (auto simp: remain_def m word_le_nat_alt)
  have "unat (n - remain) = unat n - m"
    using r m by (subst unat_sub) (auto simp: word_le_nat_alt)
  moreover have "unat n - m < 2048" using n m by (auto simp: min_def)
  ultimately have last: "\<not> Suc 0 < unat (n - remain) div FLASH_PAGE_SIZE + 1" by simp
  have "?o < FLASH_PAGE_SIZE" by simp
  then have fit: "?o + unat remain \<le> FLASH_PAGE_SIZE" "unat remain \<le> length buf"
    using r m by linarith+
  obtain st f' where *: "write_pages H 0 (page_of a) (a mod 2048) buf n remain HAL_OK f = Some (st, f')"
    "fl_lock f'" "\<And>x. \<not> in_page a x \<Longrightarrow> fl_mem f' x = fl_mem f x"
    "st = HAL_OK \<Longrightarrow> area f' = overwrite (area f) (unat a) (take m buf)"
    "committed H f a (if st \<noteq> HAL_OK then OP_FAILED else OP_SUCCESS) f'"
    using write_pages_step [OF a fit _ last] r by (metis zero_less_Suc Suc_eq_plus1)
  show thesis
    by (rule that [of "if st \<noteq> HAL_OK then OP_FAILED else OP_SUCCESS" f'])
      (use a * in \<open>auto simp: InFlash_Write_MultiBytes_def Let_def remain_def [symmetric] split: if_splits\<close>)
qed

end


context flash_hal
begin

lemma write_one:
  assumes a: "unat a \<le> IN_FLASH_END" and v: "v \<noteq> 0xFF"
  obtains st f' where
    "InFlash_Write_OneByte H f a v = Some (st, f')" "st = OP_SUCCESS \<or> st = OP_FAILED"
    "fl_lock f'" "\<And>x. \<not> in_page a x \<Longrightarrow> fl_mem f' x = fl_mem f x"
    "st = OP_SUCCESS \<Longrightarrow> area f' = (area f)(unat a := v)"
    "committed H f a st f'"
proof -
  define page where "page = map (\<lambda>k. area f (unat (page_of a) + k)) [0..<FLASH_PAGE_SIZE]"
  have plen: "length page = 2048" by (simp add: page_def)
  note rd = Read_page [OF a, of f, folded page_def]
  let ?o = "unat a mod FLASH_PAGE_SIZE"
  define buf where "buf = page[?o := v]"
  have buf: "wr page ?o v = Some buf" and len: "length buf = 2048" and bo: "buf ! ?o = v"
    using plen by (simp_all add: buf_def)
  obtain est f1 where e: "InFlash_Erase_Page H f a 1 = (est, f1)" by fastforce
  note ef = erase_page_frame [OF e]
  obtain pst f2 where p: "program_words H (unat (page_of a) + IN_FLASH_BASE_ADDRESS) (words_of buf)
                            est (HAL_FLASH_Unlock f1) = (pst, f2)" by fastforce
  note pf = program_page_frame [OF p len]
  have frame: "fl_mem f2 x = fl_mem f x" if "\<not> in_page a x" for x
    using that ef(2) [of x] pf [of x] by (auto simp: in_page_def)
  have ok: "area f2 = (area f)(unat a := v)" if "pst = HAL_OK"
  proof -
    have "area (HAL_FLASH_Lock f2) = overwrite (area f) (unat a) [v]"
    proof (rule patched_page [OF _ buf [unfolded page_def wr_wrn_single]])
      show "?o + length [v] \<le> FLASH_PAGE_SIZE" by simp
      show "area (HAL_FLASH_Lock f2) (unat (page_of a) + i) = buf ! i" if "i < FLASH_PAGE_SIZE" for i
        using program_page_ok [OF p [unfolded \<open>pst = HAL_OK\<close>] len that] by simp
    qed (simp add: frame)
    then show ?thesis by (auto simp: overwrite_def fun_eq_iff)
  qed
  show thesis
  proof (cases "est = HAL_OK")
    case False
    with e ef show thesis
      by (intro that [of OP_FAILED f1])
        (use a v in \<open>auto simp: InFlash_Write_OneByte_def rd buf len bo in_page_def committed_def\<close>)
  next
    case True
    then show thesis
      by (intro that [of "if pst \<noteq> HAL_OK then OP_FAILED else OP_SUCCESS" "HAL_FLASH_Lock f2"])
        (use a v e p ok len in \<open>auto simp: InFlash_Write_OneByte_def rd buf bo frame committed_def
           split: if_splits\<close>)
  qed
qed

end


text \<open>With a driver that does not fail, a write succeeds.\<close>

context reliable_flash
begin

lemma erase_page_reliable:
  assumes "InFlash_Erase_Page H f a 1 = (st, f1)" "good f" "unat a \<le> IN_FLASH_END"
  shows "st = HAL_OK" "good f1"
    and "in_page a x \<Longrightarrow> fl_mem f1 x = 0xFF"
proof -
  let ?b = "IN_FLASH_BASE_ADDRESS + unat (page_of a)"
  obtain f0 where e: "hErase H ?b 1 (HAL_FLASH_Unlock f) = (st, f0)" and f1: "f1 = HAL_FLASH_Lock f0"
    using assms(1) by (auto simp: InFlash_Erase_Page_def split: prod.splits)
  have b: "?b mod FLASH_PAGE_SIZE = 0" "FLASH_LOW \<le> ?b" "?b + 1 * FLASH_PAGE_SIZE \<le> FLASH_TOP"
    using assms(3) by (auto simp: unat_page_of mod_add_left_eq)
  show ok: "st = HAL_OK"
    using erase_succeeds [OF e _ _ _ b] assms(2) by (simp add: good_lock)
  show "good f1"
    using erase_good [OF e] assms(2) by (simp add: good_lock f1)
  show "fl_mem f1 x = 0xFF" if "in_page a x"
    using erase_ok [OF e [unfolded ok] _ b(1,3), of x] that by (simp add: f1 in_page_def)
qed

lemma program_words_reliable:
  "program_words H a ws HAL_OK f = (st, f') \<Longrightarrow> good f \<Longrightarrow> \<not> fl_lock f \<Longrightarrow> a mod 4 = 0
   \<Longrightarrow> FLASH_LOW \<le> a \<Longrightarrow> a + 4 * length ws \<le> FLASH_TOP
   \<Longrightarrow> (\<And>x. a \<le> x \<Longrightarrow> x < a + 4 * length ws \<Longrightarrow> fl_mem f x = 0xFF) \<Longrightarrow> st = HAL_OK \<and> good f'"
proof (induction ws arbitrary: a f)
  case (Cons w ws)
  obtain s1 f1 where 1: "hProgram H a w f = (s1, f1)" by fastforce
  have "s1 = HAL_OK"
    by (rule program_succeeds [OF 1 Cons.prems(2-5)]) (use Cons.prems(6,7) in auto)
  then show ?case
    using Cons.prems 1 Cons.IH [of "a + 4" f1] program_good [OF 1] program_lock [OF 1]
      program_high_frame [OF 1 Cons.prems(5)]
    by (auto simp: mod_add_left_eq)
qed simp

lemma committed_reliable:
  assumes "committed H f a st f'" "good f" "unat a \<le> IN_FLASH_END"
  shows "st = OP_SUCCESS" "good f'"
proof -
  obtain est f1 where e: "InFlash_Erase_Page H f a 1 = (est, f1)" by fastforce
  note r = erase_page_reliable [OF e assms(2,3)]
  obtain buf pst f2 where p: "length buf = 2048" "f' = HAL_FLASH_Lock f2"
    "program_words H (unat (page_of a) + IN_FLASH_BASE_ADDRESS) (words_of buf) HAL_OK
       (HAL_FLASH_Unlock f1) = (pst, f2)"
    "st = (if pst \<noteq> HAL_OK then OP_FAILED else OP_SUCCESS)"
    using assms(1) e r(1) by (auto simp: committed_def)
  have "pst = HAL_OK \<and> good f2"
    by (rule program_words_reliable [OF p(3)])
      (use r p(1) assms(3) in \<open>auto simp: good_lock unat_page_of words_of_length in_page_def mod_add_left_eq\<close>)
  then show "st = OP_SUCCESS" "good f'" using p by (simp_all add: good_lock)
qed

end


section \<open>Properties\<close>

text \<open>C34.  \<open>InFlash_Write_MultiBytes\<close> of at most a page (2048 bytes) to an offset inside the parameter
  area, over every outcome of the flash driver:
  the call returns, leaves the flash locked, changes no byte outside the page of its address,
  and when it answers \<open>OP_SUCCESS\<close> the area is the old one with the bytes that fit in the page
  written.  The rest of a write that crosses the page boundary is dropped, although the
  answer is \<open>OP_SUCCESS\<close>.\<close>

theorem write_multi_safe:
  assumes "flash_hal H" "unat a \<le> IN_FLASH_END" "unat n \<le> FLASH_PAGE_SIZE"
    and "m = min (unat n) (FLASH_PAGE_SIZE - unat a mod FLASH_PAGE_SIZE)" "m \<le> length buf"
  shows "\<exists>st f'. InFlash_Write_MultiBytes H f a buf n = Some (st, f')
           \<and> (st = OP_SUCCESS \<or> st = OP_FAILED) \<and> fl_lock f'
           \<and> (\<forall>x. in_page a x \<or> fl_mem f' x = fl_mem f x)
           \<and> (st = OP_SUCCESS \<longrightarrow> area f' = overwrite (area f) (unat a) (take m buf))"
  by (rule flash_hal.write_multi [OF assms, of f]) blast

definition blank_flash :: flash where
  "blank_flash = \<lparr>fl_mem = \<lambda>_. 0xFF, fl_lock = True, fl_env = []\<rparr>"

definition faulty_flash :: flash where
  "faulty_flash = \<lparr>fl_mem = \<lambda>_. 0x55, fl_lock = True, fl_env = [False, True]\<rparr>"

lemma write_multi_safe_witness:
  "\<exists>st f'. InFlash_Write_MultiBytes st_hal faulty_flash 0x7FF [1, 2, 3] 3 = Some (st, f')
     \<and> (st = OP_SUCCESS \<or> st = OP_FAILED) \<and> fl_lock f'
     \<and> (\<forall>x. in_page 0x7FF x \<or> fl_mem f' x = fl_mem faulty_flash x)
     \<and> (st = OP_SUCCESS \<longrightarrow> area f' = overwrite (area faulty_flash) 0x7FF [1])"
  using write_multi_safe [OF st_hal_flash_hal, where a = 2047 and n = 3 and m = 1 and buf = "[1, 2, 3]" and f = faulty_flash] by simp

text \<open>On a device whose driver does not fail, \<open>InFlash_Write_MultiBytes\<close> answers
  \<open>OP_SUCCESS\<close> and has written exactly the bytes that fit in the page.\<close>

theorem write_multi_succeeds:
  assumes "reliable_flash H good" "good f" "unat a \<le> IN_FLASH_END" "unat n \<le> FLASH_PAGE_SIZE"
    and "m = min (unat n) (FLASH_PAGE_SIZE - unat a mod FLASH_PAGE_SIZE)" "m \<le> length buf"
  shows "\<exists>f'. InFlash_Write_MultiBytes H f a buf n = Some (OP_SUCCESS, f') \<and> good f' \<and> fl_lock f'
           \<and> area f' = overwrite (area f) (unat a) (take m buf)"
proof -
  have H: "flash_hal H" using assms(1) by (rule reliable_flash.axioms)
  show ?thesis
  proof (rule flash_hal.write_multi [OF H assms(3-6), of f])
    fix st f'
    assume w: "InFlash_Write_MultiBytes H f a buf n = Some (st, f')" "fl_lock f'"
      "st = OP_SUCCESS \<Longrightarrow> area f' = overwrite (area f) (unat a) (take m buf)"
      and c: "committed H f a st f'"
    show ?thesis
      using w reliable_flash.committed_reliable [OF assms(1) c assms(2,3)] by blast
  qed
qed

lemma write_multi_succeeds_witness:
  "\<exists>f'. InFlash_Write_MultiBytes st_hal blank_flash 0x7FF [1, 2, 3] 3 = Some (OP_SUCCESS, f')
     \<and> no_faults f' \<and> fl_lock f' \<and> area f' = overwrite (area blank_flash) 0x7FF [1]"
  using write_multi_succeeds [OF st_drv.reliable_flash_axioms, where f = blank_flash
      and a = 2047 and n = 3 and m = 1 and buf = "[1, 2, 3]"]
  by (simp add: no_faults_def blank_flash_def)

text \<open>\<open>InFlash_Write_OneByte\<close> of a byte other than \<open>0xFF\<close>, over every outcome of the
  driver: it returns, leaves the flash locked and everything outside the page as it was, and
  on \<open>OP_SUCCESS\<close> changes exactly the addressed byte.\<close>

theorem write_one_safe:
  assumes "flash_hal H" "unat a \<le> IN_FLASH_END" "v \<noteq> 0xFF"
  shows "\<exists>st f'. InFlash_Write_OneByte H f a v = Some (st, f')
           \<and> (st = OP_SUCCESS \<or> st = OP_FAILED) \<and> fl_lock f'
           \<and> (\<forall>x. in_page a x \<or> fl_mem f' x = fl_mem f x)
           \<and> (st = OP_SUCCESS \<longrightarrow> area f' = (area f)(unat a := v))"
  by (rule flash_hal.write_one [OF assms, of f]) blast

lemma write_one_safe_witness:
  "\<exists>st f'. InFlash_Write_OneByte st_hal faulty_flash 0x1001 0xAA = Some (st, f')
     \<and> (st = OP_SUCCESS \<or> st = OP_FAILED) \<and> fl_lock f'
     \<and> (\<forall>x. in_page 0x1001 x \<or> fl_mem f' x = fl_mem faulty_flash x)
     \<and> (st = OP_SUCCESS \<longrightarrow> area f' = (area faulty_flash)(0x1001 := 0xAA))"
  using write_one_safe [OF st_hal_flash_hal, where a = 4097 and v = 170 and f = faulty_flash] by simp

text \<open>\<open>InFlash_Write_OneByte\<close> skips the erase when the byte to write is \<open>0xFF\<close> and then
  programs the whole page over its old contents, which the flash refuses: with any other byte
  of the page's first word in use, the call answers \<open>OP_FAILED\<close>, whatever is written where.\<close>

theorem write_one_FF_fails:
  assumes "flash_hal H" "unat a \<le> IN_FLASH_END" "2 \<le> unat a mod FLASH_PAGE_SIZE"
    and "area f (unat (page_of a)) \<noteq> 0xFF" "area f (unat (page_of a)) \<noteq> 0"
  shows "\<exists>f'. InFlash_Write_OneByte H f a 0xFF = Some (OP_FAILED, f') \<and> fl_lock f'"
proof -
  define page where "page = map (\<lambda>k. area f (unat (page_of a) + k)) [0..<FLASH_PAGE_SIZE]"
  have plen: "length page = 2048" and p0: "page ! 0 = area f (unat (page_of a))"
    by (simp_all add: page_def)
  note rd = Read_page [OF assms(2), of f, folded page_def]
  let ?o = "unat a mod FLASH_PAGE_SIZE" and ?b = "unat (page_of a) + IN_FLASH_BASE_ADDRESS"
  define buf where "buf = page[?o := 0xFF]"
  have buf: "wr page ?o 0xFF = Some buf" "buf ! ?o = 0xFF" "length buf = 2048"
      "rd buf ?o = Some 0xFF"
    using plen by (simp_all add: buf_def)
  obtain b0 b1 b2 b3 bs where split: "buf = b0 # b1 # b2 # b3 # bs"
    by (rule words_of.cases [of buf]) (use buf(3) in auto)
  have words: "words_of buf = be32 b3 b2 b1 b0 # words_of bs" by (simp add: split)
  have b0: "b0 = area f (unat (page_of a))"
  proof -
    have "b0 = buf ! 0" unfolding split by simp
    also have "\<dots> = page ! 0" using assms(3) plen by (simp add: buf_def)
    finally show ?thesis by (simp add: p0)
  qed
  obtain st f1 where p: "hProgram H ?b (be32 b3 b2 b1 b0) (HAL_FLASH_Unlock f) = (st, f1)" by fastforce
  have "st \<noteq> HAL_OK"
    by (rule flash_hal.program_refused [OF assms(1) p])
      (use assms(4,5) in \<open>auto simp: phys_def hw_ok_def b0 bytes_be32 area_def ac_simps\<close>)
  then show ?thesis
    using assms(2) p by (simp add: InFlash_Write_OneByte_def rd buf(1,4) words)
qed

lemma write_one_FF_fails_witness:
  "\<exists>f'. InFlash_Write_OneByte st_hal faulty_flash 33 0xFF = Some (OP_FAILED, f') \<and> fl_lock f'"
  by (rule write_one_FF_fails [OF st_hal_flash_hal])
    (simp_all add: faulty_flash_def area_def)

end
