(* ===== verification/InFlashApp.thy ===== *)
theory InFlashApp
  imports InFlash
begin

text \<open>
  \<open>APP/Src/In_Flash_app.c\<close>: the map of the device parameters in the parameter area, the
  triple copy (\<open>RUN_ADDR_BASE\<close>, \<open>SYSTEM_PARAM_BAK1\<close>, \<open>SYSTEM_PARAM_BAK2\<close>, one flash page each),
  its repair by majority when the device starts, and the default parameters.
\<close>

section \<open>The parameter map\<close>

abbreviation (input) "RUN_ADDR_BASE \<equiv> (0x00 :: u16)"
abbreviation (input) "DEVICE_ADDR \<equiv> (0x01 :: u16)"
abbreviation (input) "BAUDRATE \<equiv> (0x02 :: u16)"
abbreviation (input) "PARITY \<equiv> (0x03 :: u16)"
abbreviation (input) "FILTER \<equiv> (0x04 :: u16)"
abbreviation (input) "AUTO_UPLOAD \<equiv> (0x05 :: u16)"
abbreviation (input) "COMPENSATE \<equiv> (0x06 :: u16)"
abbreviation (input) "FREEZE \<equiv> (0x07 :: u16)"
abbreviation (input) "OUTPUTMODE \<equiv> (0x08 :: u16)"
abbreviation (input) "HEIGHTRANGE \<equiv> (9 :: u16)"
abbreviation (input) "CAPMIN \<equiv> (11 :: u16)"
abbreviation (input) "CAPMAX \<equiv> (15 :: u16)"
abbreviation (input) "CAPMINBAK \<equiv> (19 :: u16)"
abbreviation (input) "CAPMAXBAK \<equiv> (23 :: u16)"
abbreviation (input) "CAPADMIN \<equiv> (27 :: u16)"
abbreviation (input) "CAPADLOW \<equiv> (29 :: u16)"
abbreviation (input) "CAPADHIGH \<equiv> (31 :: u16)"
abbreviation (input) "CAPADMAX \<equiv> (33 :: u16)"
abbreviation (input) "CAPDAMIN \<equiv> (35 :: u16)"
abbreviation (input) "CAPDALOW \<equiv> (37 :: u16)"
abbreviation (input) "CAPDAHIGH \<equiv> (39 :: u16)"
abbreviation (input) "CAPDAMAX \<equiv> (41 :: u16)"
abbreviation (input) "TEMPDAMIN \<equiv> (43 :: u16)"
abbreviation (input) "TEMPDAMAX \<equiv> (45 :: u16)"
abbreviation (input) "CORRECT_K \<equiv> (47 :: u16)"
abbreviation (input) "CORRECT_B \<equiv> (49 :: u16)"
abbreviation (input) "TEMPER_K1 \<equiv> (51 :: u16)"
abbreviation (input) "TEMPER_B1 \<equiv> (53 :: u16)"
abbreviation (input) "TEMPER_K2 \<equiv> (55 :: u16)"
abbreviation (input) "TEMPER_B2 \<equiv> (57 :: u16)"
abbreviation (input) "SYSTEMPARAM_PROGRAMED \<equiv> (59 :: u16)"
abbreviation (input) "SYSTEM_PARAM_BAK1 \<equiv> (2048 :: u16)"
abbreviation (input) "SYSTEM_PARAM_BAK2 \<equiv> (4096 :: u16)"
abbreviation (input) "ORGANIZATION \<equiv> (0x0400 :: u16)"
abbreviation (input) "PRODUCTION \<equiv> (0x0430 :: u16)"
abbreviation (input) "HARDWAREVER \<equiv> (0x0460 :: u16)"
abbreviation (input) "SOFTWAREVER \<equiv> (0x0490 :: u16)"
abbreviation (input) "DEVICENUM \<equiv> (0x04B0 :: u16)"
abbreviation (input) "CUSTOMER \<equiv> (0x04E0 :: u16)"
abbreviation (input) "USER_DEFAULT_LEN \<equiv> (9 :: u16)"
abbreviation (input) "PRO_DEFAULT_LEN \<equiv> (60 :: u16)"
abbreviation (input) "SYSTEMPARAM_IS_PROGRAMED \<equiv> (0xAA :: u8)"

definition User_Default_Param :: "u8 list" where
  "User_Default_Param =
    [0x01,
     0x01, 0x01, 0x00, 0x01, 0x00, 0x00, 0x00, 0x00,
     0x00, 0x94,
     0x00, 0x19, 0x43, 0x4E,
     0x00, 0x25, 0x07, 0xEF,
     0x00, 0x19, 0x43, 0x4E,
     0x00, 0x25, 0x07, 0xEF,
     0x00, 0x01,
     0x51, 0xA4,
     0xB7, 0x98,
     0xFF, 0xFF,
     0x00, 0x82,
     0x02, 0x44,
     0x03, 0xA2,
     0x04, 0x6A,
     0x00, 0x00,
     0x0F, 0xFF,
     0x00, 0x64,
     0x00, 0x64,
     0x00, 0x64,
     0x00, 0x64,
     0x00, 0x64,
     0x00, 0x64,
     SYSTEMPARAM_IS_PROGRAMED]"

section \<open>Operations\<close>

definition InFlash_Write3T_MultiBytes ::
  "hal_flash \<Rightarrow> flash \<Rightarrow> u16 \<Rightarrow> u8 list \<Rightarrow> u16 \<Rightarrow> (u8 \<times> flash) option" where
  "InFlash_Write3T_MultiBytes H f FlashAddr pWrbuf Wrlen = do {
     let Err = OP_SUCCESS;
     (Wrsta, f) \<leftarrow> InFlash_Write_MultiBytes H f FlashAddr pWrbuf Wrlen;
     let Err = (if OP_SUCCESS \<noteq> Wrsta then OP_FAILED else Err);
     (Wrsta, f) \<leftarrow> InFlash_Write_MultiBytes H f (SYSTEM_PARAM_BAK1 + FlashAddr) pWrbuf Wrlen;
     let Err = (if OP_SUCCESS \<noteq> Wrsta then OP_FAILED else Err);
     (Wrsta, f) \<leftarrow> InFlash_Write_MultiBytes H f (SYSTEM_PARAM_BAK2 + FlashAddr) pWrbuf Wrlen;
     let Err = (if OP_SUCCESS \<noteq> Wrsta then OP_FAILED else Err);
     Some (Err, f) }"

definition check_sta :: "u8 \<Rightarrow> u8 \<Rightarrow> u8 \<Rightarrow> u8" where
  "check_sta cur bak1 bak2 =
     (let s = 0;
          s = (if cur \<noteq> bak1 then s OR 0x01 else s);
          s = (if bak1 \<noteq> bak2 then s OR 0x02 else s)
      in (if cur \<noteq> bak2 then s OR 0x04 else s))"

text \<open>The loop over the parameters.  \<open>Check_Sta\<close> has no value before the first iteration.\<close>

fun check_loop :: "hal_flash \<Rightarrow> u8 list \<Rightarrow> nat \<Rightarrow> u16 \<Rightarrow> u8 option \<Rightarrow> flash
                     \<Rightarrow> (u8 option \<times> flash) option" where
  "check_loop H Cur_Param 0 Cnt sta f = Some (sta, f)"
| "check_loop H Cur_Param (Suc n) Cnt sta f = do {
     bak1 \<leftarrow> InFlash_Read_OneByte f (SYSTEM_PARAM_BAK1 + Cnt);
     bak2 \<leftarrow> InFlash_Read_OneByte f (SYSTEM_PARAM_BAK2 + Cnt);
     cur \<leftarrow> rd Cur_Param (unat Cnt);
     let s = check_sta cur bak1 bak2;
     if s = 0x06 then do {
       (_, f) \<leftarrow> InFlash_Write_OneByte H f (SYSTEM_PARAM_BAK2 + Cnt) cur;
       check_loop H Cur_Param n (Cnt + 1) (Some s) f }
     else if s = 0x03 then do {
       (_, f) \<leftarrow> InFlash_Write_OneByte H f (SYSTEM_PARAM_BAK1 + Cnt) cur;
       check_loop H Cur_Param n (Cnt + 1) (Some s) f }
     else if s = 0x05 then do {
       (_, f) \<leftarrow> InFlash_Write_OneByte H f (RUN_ADDR_BASE + Cnt) bak1;
       check_loop H Cur_Param n (Cnt + 1) (Some s) f }
     else if s \<noteq> 0 then Some (Some s, f)
     else check_loop H Cur_Param n (Cnt + 1) (Some s) f }"

definition InFlash_SystemParam_Check ::
  "hal_flash \<Rightarrow> flash \<Rightarrow> u8 list \<Rightarrow> u16 \<Rightarrow> flash option" where
  "InFlash_SystemParam_Check H f Cur_Param Num_Of_Cur_Param = do {
     (Check_Sta, f) \<leftarrow> check_loop H Cur_Param (unat Num_Of_Cur_Param) 0 None f;
     let write_systemparam = (\<lambda>f. do {
           (_, f) \<leftarrow> InFlash_Write3T_MultiBytes H f RUN_ADDR_BASE User_Default_Param Num_Of_Cur_Param;
           Some f });
     p0 \<leftarrow> InFlash_Read_OneByte f SYSTEMPARAM_PROGRAMED;
     if p0 \<noteq> SYSTEMPARAM_IS_PROGRAMED then write_systemparam f
     else do {
       p1 \<leftarrow> InFlash_Read_OneByte f (SYSTEM_PARAM_BAK1 + SYSTEMPARAM_PROGRAMED);
       if p1 \<noteq> SYSTEMPARAM_IS_PROGRAMED then write_systemparam f
       else do {
         p2 \<leftarrow> InFlash_Read_OneByte f (SYSTEM_PARAM_BAK2 + SYSTEMPARAM_PROGRAMED);
         if p2 \<noteq> SYSTEMPARAM_IS_PROGRAMED then write_systemparam f
         else do {
           s \<leftarrow> Check_Sta;
           if s = 0x01 \<or> s = 0x02 \<or> s = 0x04 \<or> s = 0x07 then write_systemparam f
           else Some f } } } }"

abbreviation (input) WRITE_FLASH_ERR_MAX :: nat where "WRITE_FLASH_ERR_MAX \<equiv> 3"

function write_user_defaults :: "hal_flash \<Rightarrow> nat \<Rightarrow> flash \<Rightarrow> flash option" where
  "write_user_defaults H ParaTemp f = do {
     (st, f) \<leftarrow> InFlash_Write3T_MultiBytes H f RUN_ADDR_BASE User_Default_Param USER_DEFAULT_LEN;
     if OP_SUCCESS \<noteq> st
     then if WRITE_FLASH_ERR_MAX < ParaTemp + 1 then Some f
          else write_user_defaults H (ParaTemp + 1) f
     else Some f }"
  by pat_completeness auto
termination by (relation "measure (\<lambda>(H, p, f). Suc WRITE_FLASH_ERR_MAX - p)") auto

definition Check_Device_Param :: "hal_flash \<Rightarrow> flash \<Rightarrow> flash option" where
  "Check_Device_Param H f = do {
     InFlashInitFlg \<leftarrow> InFlash_Read_OneByte f RUN_ADDR_BASE;
     dflt \<leftarrow> rd User_Default_Param (unat RUN_ADDR_BASE);
     f \<leftarrow> (if InFlashInitFlg \<noteq> dflt then write_user_defaults H 0 f else Some f);
     Device_Param \<leftarrow> InFlash_Read_MultiBytes f RUN_ADDR_BASE PRO_DEFAULT_LEN;
     InFlash_SystemParam_Check H f Device_Param PRO_DEFAULT_LEN }"

declare write_user_defaults.simps [simp del]


section \<open>The triple write\<close>

definition overwrite3 :: "(nat \<Rightarrow> u8) \<Rightarrow> nat \<Rightarrow> u8 list \<Rightarrow> nat \<Rightarrow> u8" where
  "overwrite3 g a bs = overwrite (overwrite (overwrite g a bs) (2048 + a) bs) (4096 + a) bs"

lemma bak_addr:
  assumes "unat a < FLASH_PAGE_SIZE"
  shows "unat (SYSTEM_PARAM_BAK1 + a) = 2048 + unat a" "unat (SYSTEM_PARAM_BAK2 + a) = 4096 + unat a"
  using assms by (simp_all add: unat_word_ariths)

text \<open>The offsets of the parameter area: the three pages.\<close>

definition in_area :: "nat \<Rightarrow> bool" where
  "in_area x \<longleftrightarrow> IN_FLASH_BASE_ADDRESS \<le> x \<and> x \<le> IN_FLASH_BASE_ADDRESS + IN_FLASH_END"

lemma in_page_in_area: "unat a \<le> IN_FLASH_END \<Longrightarrow> in_page a x \<Longrightarrow> in_area x"
  using div_le_mono [of "unat a" IN_FLASH_END FLASH_PAGE_SIZE]
  by (auto simp: in_page_def in_area_def unat_page_of)

context flash_hal
begin

lemma write3t:
  assumes a: "unat a + unat n \<le> FLASH_PAGE_SIZE" "unat a < FLASH_PAGE_SIZE" and n: "unat n \<le> length buf"
  obtains st f' where
    "InFlash_Write3T_MultiBytes H f a buf n = Some (st, f')" "st = OP_SUCCESS \<or> st = OP_FAILED"
    "fl_lock f'" "\<And>x. \<not> in_area x \<Longrightarrow> fl_mem f' x = fl_mem f x"
    "st = OP_SUCCESS \<Longrightarrow> area f' = overwrite3 (area f) (unat a) (take (unat n) buf)"
    "\<exists>s1 f1 s2 f2 s3. committed H f a s1 f1 \<and> committed H f1 (SYSTEM_PARAM_BAK1 + a) s2 f2
        \<and> committed H f2 (SYSTEM_PARAM_BAK2 + a) s3 f'
        \<and> st = (if s1 = OP_SUCCESS \<and> s2 = OP_SUCCESS \<and> s3 = OP_SUCCESS then OP_SUCCESS else OP_FAILED)"
proof -
  note b = bak_addr [OF a(2)]
  have len: "unat n \<le> FLASH_PAGE_SIZE" using a by simp
  have mod: "unat (SYSTEM_PARAM_BAK1 + a) mod FLASH_PAGE_SIZE = unat a"
    "unat (SYSTEM_PARAM_BAK2 + a) mod FLASH_PAGE_SIZE = unat a" "unat a mod FLASH_PAGE_SIZE = unat a"
    unfolding b using a(2) by (simp_all add: mod_add_left_eq [symmetric])
  have m: "unat n = min (unat n) (FLASH_PAGE_SIZE - unat x mod FLASH_PAGE_SIZE)"
    if "unat x mod FLASH_PAGE_SIZE = unat a" for x :: u16
    using a that by (simp add: min_def)
  have i: "unat a \<le> IN_FLASH_END" "unat (SYSTEM_PARAM_BAK1 + a) \<le> IN_FLASH_END"
    "unat (SYSTEM_PARAM_BAK2 + a) \<le> IN_FLASH_END" using a(2) b by auto
  obtain s1 f1 where 1: "InFlash_Write_MultiBytes H f a buf n = Some (s1, f1)"
    "\<And>x. \<not> in_page a x \<Longrightarrow> fl_mem f1 x = fl_mem f x"
    "s1 = OP_SUCCESS \<Longrightarrow> area f1 = overwrite (area f) (unat a) (take (unat n) buf)"
    "committed H f a s1 f1"
    by (rule write_multi [OF i(1) len m [OF mod(3)] n, of f]) blast
  obtain s2 f2 where 2: "InFlash_Write_MultiBytes H f1 (SYSTEM_PARAM_BAK1 + a) buf n = Some (s2, f2)"
    "\<And>x. \<not> in_page (SYSTEM_PARAM_BAK1 + a) x \<Longrightarrow> fl_mem f2 x = fl_mem f1 x"
    "s2 = OP_SUCCESS \<Longrightarrow> area f2 = overwrite (area f1) (2048 + unat a) (take (unat n) buf)"
    "committed H f1 (SYSTEM_PARAM_BAK1 + a) s2 f2"
    by (rule write_multi [OF i(2) len m [OF mod(1)] n, of f1, unfolded b]) blast
  obtain s3 f3 where 3: "InFlash_Write_MultiBytes H f2 (SYSTEM_PARAM_BAK2 + a) buf n = Some (s3, f3)"
    "fl_lock f3" "\<And>x. \<not> in_page (SYSTEM_PARAM_BAK2 + a) x \<Longrightarrow> fl_mem f3 x = fl_mem f2 x"
    "s3 = OP_SUCCESS \<Longrightarrow> area f3 = overwrite (area f2) (4096 + unat a) (take (unat n) buf)"
    "committed H f2 (SYSTEM_PARAM_BAK2 + a) s3 f3"
    by (rule write_multi [OF i(3) len m [OF mod(2)] n, of f2, unfolded b]) blast
  let ?st = "if s1 = OP_SUCCESS \<and> s2 = OP_SUCCESS \<and> s3 = OP_SUCCESS then OP_SUCCESS else OP_FAILED"
  have w: "InFlash_Write3T_MultiBytes H f a buf n = Some (?st, f3)"
    by (simp add: InFlash_Write3T_MultiBytes_def 1(1) 2(1) 3(1) Let_def)
  have frame: "fl_mem f3 x = fl_mem f x" if "\<not> in_area x" for x
    using that in_page_in_area i 1(2) 2(2) 3(3) by metis
  have ok: "area f3 = overwrite3 (area f) (unat a) (take (unat n) buf)" if "?st = OP_SUCCESS"
    using that 1(3) 2(3) 3(4) by (simp add: overwrite3_def split: if_splits)
  have c: "\<exists>s1 f1 s2 f2 s3. committed H f a s1 f1 \<and> committed H f1 (SYSTEM_PARAM_BAK1 + a) s2 f2
        \<and> committed H f2 (SYSTEM_PARAM_BAK2 + a) s3 f3
        \<and> ?st = (if s1 = OP_SUCCESS \<and> s2 = OP_SUCCESS \<and> s3 = OP_SUCCESS then OP_SUCCESS else OP_FAILED)"
    using 1(4) 2(4) 3(5) by blast
  show thesis
    by (rule that [OF w _ 3(2) frame ok c]) auto
qed

end

context reliable_flash
begin

lemma write3t_reliable:
  assumes "unat a + unat n \<le> FLASH_PAGE_SIZE" "unat a < FLASH_PAGE_SIZE" "unat n \<le> length buf" "good f"
  obtains f' where "InFlash_Write3T_MultiBytes H f a buf n = Some (OP_SUCCESS, f')"
    "good f'" "fl_lock f'" "area f' = overwrite3 (area f) (unat a) (take (unat n) buf)"
    "\<And>x. \<not> in_area x \<Longrightarrow> fl_mem f' x = fl_mem f x"
proof -
  have i: "unat a \<le> IN_FLASH_END" "unat (SYSTEM_PARAM_BAK1 + a) \<le> IN_FLASH_END"
    "unat (SYSTEM_PARAM_BAK2 + a) \<le> IN_FLASH_END"
    using bak_addr [OF assms(2)] assms(2) by auto
  show thesis
  proof (rule write3t [OF assms(1-3), of f], goal_cases)
    case (1 st f')
    then obtain s1 f1 s2 f2 s3 where c: "committed H f a s1 f1"
      "committed H f1 (SYSTEM_PARAM_BAK1 + a) s2 f2" "committed H f2 (SYSTEM_PARAM_BAK2 + a) s3 f'"
      "st = (if s1 = OP_SUCCESS \<and> s2 = OP_SUCCESS \<and> s3 = OP_SUCCESS then OP_SUCCESS else OP_FAILED)"
      by auto
    note r1 = committed_reliable [OF c(1) assms(4) i(1)]
    note r2 = committed_reliable [OF c(2) r1(2) i(2)]
    note r3 = committed_reliable [OF c(3) r2(2) i(3)]
    have "st = OP_SUCCESS" using r1(1) r2(1) r3(1) c(4) by simp
    then show thesis using that [of f'] 1 r3(2) by blast
  qed
qed

end


section \<open>Repair by majority\<close>

text \<open>The value that at least two of the three copies of parameter byte \<open>k\<close> hold, and the area
  in which every copy of the bytes \<open>c, \<dots>, c + n - 1\<close> holds it.\<close>

definition two_agree :: "(nat \<Rightarrow> u8) \<Rightarrow> nat \<Rightarrow> bool" where
  "two_agree g k \<longleftrightarrow> g k = g (2048 + k) \<or> g k = g (4096 + k) \<or> g (2048 + k) = g (4096 + k)"

definition majority :: "(nat \<Rightarrow> u8) \<Rightarrow> nat \<Rightarrow> u8" where
  "majority g k = (if g k = g (2048 + k) \<or> g k = g (4096 + k) then g k else g (2048 + k))"

definition repair :: "(nat \<Rightarrow> u8) \<Rightarrow> nat \<Rightarrow> nat \<Rightarrow> nat \<Rightarrow> u8" where
  "repair g c n x = (if x < 6144 \<and> c \<le> x mod 2048 \<and> x mod 2048 < c + n
                     then majority g (x mod 2048) else g x)"

text \<open>A byte can be repaired when two copies agree, and when the value to write is not the
  erased value \<open>0xFF\<close>, which \<open>InFlash_Write_OneByte\<close> cannot write.\<close>

definition repairable :: "(nat \<Rightarrow> u8) \<Rightarrow> nat \<Rightarrow> bool" where
  "repairable g k \<longleftrightarrow> two_agree g k
     \<and> (majority g k \<noteq> 0xFF \<or> g k = 0xFF \<and> g (2048 + k) = 0xFF \<and> g (4096 + k) = 0xFF)"

lemma repairable_cases:
  "repairable g k \<Longrightarrow> g k = g (2048 + k) \<and> g k = g (4096 + k)
     \<or> g k = g (2048 + k) \<and> g k \<noteq> g (4096 + k) \<and> g k \<noteq> 0xFF
     \<or> g k \<noteq> g (2048 + k) \<and> g k = g (4096 + k) \<and> g k \<noteq> 0xFF
     \<or> g k \<noteq> g (2048 + k) \<and> g (2048 + k) = g (4096 + k) \<and> g (2048 + k) \<noteq> 0xFF"
  by (auto simp: repairable_def two_agree_def majority_def split: if_splits)

lemma repair_0 [simp]: "repair g c 0 = g"
  by (auto simp: repair_def fun_eq_iff)

lemma repair_other:
  assumes "k < 2048" "k \<noteq> c"
  shows "repair g c (Suc 0) k = g k" "repair g c (Suc 0) (2048 + k) = g (2048 + k)"
    "repair g c (Suc 0) (4096 + k) = g (4096 + k)"
proof -
  have "(2048 + k) mod 2048 = k" "(4096 + k) mod 2048 = k"
    using assms(1) by (simp_all add: mod_add_left_eq [symmetric])
  then show "repair g c (Suc 0) k = g k" "repair g c (Suc 0) (2048 + k) = g (2048 + k)"
    "repair g c (Suc 0) (4096 + k) = g (4096 + k)"
    using assms by (auto simp: repair_def)
qed

lemma repair_step: "c + Suc n \<le> 2048 \<Longrightarrow> repair (repair g c (Suc 0)) (Suc c) n = repair g c (Suc n)"
proof (rule ext)
  fix x assume c: "c + Suc n \<le> 2048"
  show "repair (repair g c (Suc 0)) (Suc c) n x = repair g c (Suc n) x"
  proof (cases "x < 6144 \<and> Suc c \<le> x mod 2048 \<and> x mod 2048 < Suc c + n")
    case True
    then have k: "x mod 2048 < 2048" "x mod 2048 \<noteq> c" using c by auto
    have "majority (repair g c (Suc 0)) (x mod 2048) = majority g (x mod 2048)"
      unfolding majority_def by (simp only: repair_other [OF k])
    then show ?thesis using True by (simp add: repair_def)
  next
    case False
    then show ?thesis by (auto simp: repair_def)
  qed
qed

lemma three_pages: "x < 6144 \<Longrightarrow> x mod 2048 = c \<Longrightarrow> x = c \<or> x = 2048 + c \<or> x = 4096 + (c :: nat)"
proof -
  assume "x < 6144" "x mod 2048 = c"
  moreover have "x = 2048 * (x div 2048) + x mod 2048" by simp
  moreover have "x div 2048 < 3" using \<open>x < 6144\<close> by (simp add: less_mult_imp_div_less)
  moreover have "x div 2048 = 0 \<or> x div 2048 = 1 \<or> x div 2048 = 2" using calculation(4) by arith
  ultimately show ?thesis by auto
qed

lemma repair_one:
  assumes "c < 2048"
  shows "repair g c (Suc 0) = g(c := majority g c, 2048 + c := majority g c, 4096 + c := majority g c)"
proof -
  have "(2048 + c) mod 2048 = c" "(4096 + c) mod 2048 = c"
    using assms by (simp_all add: mod_add_left_eq [symmetric])
  then show ?thesis
    using assms three_pages by (fastforce simp: repair_def fun_eq_iff)
qed


lemma repairable_other:
  assumes "k < 2048" "k \<noteq> c"
  shows "repairable (repair g c (Suc 0)) k = repairable g k"
  unfolding repairable_def two_agree_def majority_def by (simp only: repair_other [OF assms])

text \<open>One byte of the loop: it writes at most one copy, the one in the minority.\<close>

context reliable_flash
begin

lemma write_one_reliable:
  assumes "unat a \<le> IN_FLASH_END" "v \<noteq> 0xFF" "good f"
  obtains f' where "InFlash_Write_OneByte H f a v = Some (OP_SUCCESS, f')" "good f'"
    "area f' = (area f)(unat a := v)"
proof (rule write_one [OF assms(1,2), of f], goal_cases)
  case (1 st f')
  have "st = OP_SUCCESS" "good f'" using committed_reliable [OF _ assms(3,1)] 1 by auto
  then show thesis using that [of f'] 1 by blast
qed

lemma check_loop_step:
  assumes c: "unat c < 2048" and cur: "unat c < length Cur" "Cur ! unat c = area f (unat c)"
    and r: "repairable (area f) (unat c)" and good: "good f"
  obtains s f' where "check_loop H Cur (Suc n) c sta f = check_loop H Cur n (c + 1) (Some s) f'"
    "s \<in> {0, 3, 5, 6}" "good f'" "area f' = repair (area f) (unat c) (Suc 0)"
proof -
  note b = bak_addr [OF c]
  let ?k = "unat c" and ?g = "area f"
  have a: "unat c \<le> IN_FLASH_END" "unat (SYSTEM_PARAM_BAK1 + c) \<le> IN_FLASH_END"
    "unat (SYSTEM_PARAM_BAK2 + c) \<le> IN_FLASH_END" using b c by auto
  note rd = Read_OneByte_area [OF a(2), of f, unfolded b] Read_OneByte_area [OF a(3), of f, unfolded b]
  note R = repair_one [OF c, of ?g]
  consider "?g ?k = ?g (2048 + ?k)" "?g ?k = ?g (4096 + ?k)"
    | "?g ?k = ?g (2048 + ?k)" "?g ?k \<noteq> ?g (4096 + ?k)" "?g ?k \<noteq> 0xFF"
    | "?g ?k \<noteq> ?g (2048 + ?k)" "?g ?k = ?g (4096 + ?k)" "?g ?k \<noteq> 0xFF"
    | "?g ?k \<noteq> ?g (2048 + ?k)" "?g (2048 + ?k) = ?g (4096 + ?k)" "?g (2048 + ?k) \<noteq> 0xFF"
    using repairable_cases [OF r] by blast
  then show thesis
  proof cases
    case 1
    then show thesis
      by (intro that [of 0 f]) (use cur rd R good in \<open>auto simp: check_sta_def majority_def fun_eq_iff\<close>)
  next
    case 2
    obtain f' where "InFlash_Write_OneByte H f (SYSTEM_PARAM_BAK2 + c) (?g ?k) = Some (OP_SUCCESS, f')"
      "good f'" "area f' = ?g(4096 + ?k := ?g ?k)"
      by (rule write_one_reliable [OF a(3) 2(3) good, unfolded b])
    with 2 show thesis
      by (intro that [of 6 f']) (use cur rd R in \<open>auto simp: check_sta_def majority_def fun_eq_iff\<close>)
  next
    case 3
    obtain f' where "InFlash_Write_OneByte H f (SYSTEM_PARAM_BAK1 + c) (?g ?k) = Some (OP_SUCCESS, f')"
      "good f'" "area f' = ?g(2048 + ?k := ?g ?k)"
      by (rule write_one_reliable [OF a(2) 3(3) good, unfolded b])
    with 3 show thesis
      by (intro that [of 3 f']) (use cur rd R in \<open>auto simp: check_sta_def majority_def fun_eq_iff\<close>)
  next
    case 4
    obtain f' where "InFlash_Write_OneByte H f c (?g (2048 + ?k)) = Some (OP_SUCCESS, f')"
      "good f'" "area f' = ?g(?k := ?g (2048 + ?k))"
      by (rule write_one_reliable [OF a(1) 4(3) good])
    with 4 show thesis
      by (intro that [of 5 f']) (use cur rd R in \<open>auto simp: check_sta_def majority_def fun_eq_iff\<close>)
  qed
qed

lemma check_loop_repair:
  "unat c + n \<le> 2048 \<Longrightarrow> unat c + n \<le> length Cur
   \<Longrightarrow> (\<And>k. unat c \<le> k \<Longrightarrow> k < unat c + n \<Longrightarrow> Cur ! k = area f k \<and> repairable (area f) k)
   \<Longrightarrow> good f \<Longrightarrow> \<exists>sta' f'. check_loop H Cur n c sta f = Some (sta', f') \<and> good f'
         \<and> area f' = repair (area f) (unat c) n
         \<and> (n \<noteq> 0 \<longrightarrow> sta' \<in> {Some 0, Some 3, Some 5, Some 6}) \<and> (n = 0 \<longrightarrow> sta' = sta)"
proof (induction n arbitrary: c sta f)
  case (Suc n)
  have c: "unat c < 2048" "unat c < length Cur" "unat (c + 1) = Suc (unat c)"
    using Suc.prems(1,2) by (simp_all add: unat_word_ariths)
  obtain s f1 where 1: "check_loop H Cur (Suc n) c sta f = check_loop H Cur n (c + 1) (Some s) f1"
    "s \<in> {0, 3, 5, 6}" "good f1" "area f1 = repair (area f) (unat c) (Suc 0)"
    by (rule check_loop_step [OF c(1,2), of f n sta]) (use Suc.prems in auto)
  have "Cur ! k = area f1 k \<and> repairable (area f1) k"
    if "unat (c + 1) \<le> k" "k < unat (c + 1) + n" for k
  proof -
    have k: "k < 2048" "k \<noteq> unat c" using that c Suc.prems(1) by auto
    show ?thesis
      using Suc.prems(3) [of k] that c
      by (simp add: 1(4) repair_other(1) [OF k] repairable_other [OF k])
  qed
  moreover have "unat (c + 1) + n \<le> 2048" "unat (c + 1) + n \<le> length Cur"
    using Suc.prems(1,2) c(3) by simp_all
  ultimately obtain sta' f' where "check_loop H Cur n (c + 1) (Some s) f1 = Some (sta', f')" "good f'"
    "area f' = repair (area f1) (unat (c + 1)) n"
    "n \<noteq> 0 \<longrightarrow> sta' \<in> {Some 0, Some 3, Some 5, Some 6}" "n = 0 \<longrightarrow> sta' = Some s"
    using Suc.IH [of "c + 1" f1 "Some s"] 1(3) by blast
  then show ?case
    using 1 repair_step [OF Suc.prems(1), of "area f"] c(3) by (cases n) auto
qed simp


text \<open>A byte whose three copies differ ends the loop with \<open>Check_Sta = 0x07\<close>.\<close>

lemma check_loop_conflict:
  "unat c + i < 2048 \<Longrightarrow> unat c + i < length Cur
   \<Longrightarrow> (\<And>k. unat c \<le> k \<Longrightarrow> k \<le> unat c + i \<Longrightarrow> Cur ! k = area f k)
   \<Longrightarrow> (\<And>k. unat c \<le> k \<Longrightarrow> k < unat c + i \<Longrightarrow> repairable (area f) k)
   \<Longrightarrow> \<not> two_agree (area f) (unat c + i) \<Longrightarrow> good f
   \<Longrightarrow> \<exists>f'. check_loop H Cur (i + Suc m) c sta f = Some (Some 7, f') \<and> good f'
         \<and> area f' = repair (area f) (unat c) i"
proof (induction i arbitrary: c sta f)
  case 0
  note b = bak_addr [of c]
  have a: "unat (SYSTEM_PARAM_BAK1 + c) \<le> IN_FLASH_END" "unat (SYSTEM_PARAM_BAK2 + c) \<le> IN_FLASH_END"
    using b 0 by auto
  show ?case
    using 0 b Read_OneByte_area [OF a(1), of f] Read_OneByte_area [OF a(2), of f]
    by (auto simp: two_agree_def check_sta_def Let_def)
next
  case (Suc i)
  have c: "unat c < 2048" "unat c < length Cur" "unat (c + 1) = Suc (unat c)"
    using Suc.prems(1,2) by (simp_all add: unat_word_ariths)
  obtain s f1 where 1: "check_loop H Cur (Suc (i + Suc m)) c sta f
      = check_loop H Cur (i + Suc m) (c + 1) (Some s) f1"
    "s \<in> {0, 3, 5, 6}" "good f1" "area f1 = repair (area f) (unat c) (Suc 0)"
    by (rule check_loop_step [OF c(1,2), of f "i + Suc m" sta]) (use Suc.prems in auto)
  have k: "k < 2048" "k \<noteq> unat c" if "unat (c + 1) \<le> k" "k \<le> unat (c + 1) + i" for k
    using that c Suc.prems(1) by auto
  have "\<exists>f'. check_loop H Cur (i + Suc m) (c + 1) (Some s) f1 = Some (Some 7, f') \<and> good f'
         \<and> area f' = repair (area f1) (unat (c + 1)) i"
  proof (rule Suc.IH)
    show "Cur ! k = area f1 k" if "unat (c + 1) \<le> k" "k \<le> unat (c + 1) + i" for k
      using Suc.prems(3) [of k] that c by (simp add: 1(4) repair_other(1) [OF k [OF that]])
    show "repairable (area f1) k" if "unat (c + 1) \<le> k" "k < unat (c + 1) + i" for k
      using Suc.prems(4) [of k] that c k [of k] by (simp add: 1(4) repairable_other)
    have "unat c + Suc i < 2048" "unat c + Suc i \<noteq> unat c" using Suc.prems(1) by auto
    from repair_other [OF this] show "\<not> two_agree (area f1) (unat (c + 1) + i)"
      using Suc.prems(5) c(3) by (simp add: two_agree_def 1(4))
  qed (use Suc.prems c 1 in auto)
  then show ?case
    using 1(1,4) repair_step [of "unat c" i "area f"] Suc.prems(1) c(3) by auto
qed

lemma write_defaults:
  assumes "good f" "n \<le> 60"
  obtains f' where "InFlash_Write3T_MultiBytes H f RUN_ADDR_BASE User_Default_Param n = Some (OP_SUCCESS, f')"
    "good f'" "area f' = overwrite3 (area f) 0 (take (unat n) User_Default_Param)"
proof -
  have len: "length User_Default_Param = 60" by (simp add: User_Default_Param_def)
  have "unat n \<le> 60" using assms(2) by (simp add: word_le_nat_alt)
  then show thesis
    using write3t_reliable [of RUN_ADDR_BASE n User_Default_Param f] that assms(1) len by auto
qed

end

lemma overwrite3_Default_area:
  assumes "\<And>x. \<not> (x < 6144 \<and> x mod 2048 < length bs) \<Longrightarrow> g x = h x" "length bs \<le> 2048"
  shows "overwrite3 g 0 bs = overwrite3 h 0 bs"
proof (rule ext)
  fix x
  show "overwrite3 g 0 bs x = overwrite3 h 0 bs x"
  proof (cases "x < 6144 \<and> x mod 2048 < length bs")
    case True
    then show ?thesis
      using three_pages [of x "x mod 2048"] by (auto simp: overwrite3_def overwrite_def)
  qed (simp add: overwrite3_def overwrite_def assms(1))
qed


section \<open>Properties\<close>

text \<open>\<open>InFlash_Write3T_MultiBytes\<close> of a parameter, over every outcome of the flash driver:
  it returns, leaves the flash locked and every byte outside the parameter area unchanged
  (in particular the program itself), and answers \<open>OP_SUCCESS\<close> only when all three copies hold
  the parameter and no other byte of the area has changed.\<close>

theorem write3t_safe:
  assumes "flash_hal H" "unat a + unat n \<le> FLASH_PAGE_SIZE" "unat a < FLASH_PAGE_SIZE"
    and "unat n \<le> length buf"
  shows "\<exists>st f'. InFlash_Write3T_MultiBytes H f a buf n = Some (st, f')
           \<and> (st = OP_SUCCESS \<or> st = OP_FAILED) \<and> fl_lock f'
           \<and> (\<forall>x. in_area x \<or> fl_mem f' x = fl_mem f x)
           \<and> (st = OP_SUCCESS \<longrightarrow> area f' = overwrite3 (area f) (unat a) (take (unat n) buf))"
  by (rule flash_hal.write3t [OF assms, of f]) blast

lemma write3t_safe_witness:
  "\<exists>st f'. InFlash_Write3T_MultiBytes st_hal faulty_flash HEIGHTRANGE [0, 0x94] 2 = Some (st, f')
     \<and> (st = OP_SUCCESS \<or> st = OP_FAILED) \<and> fl_lock f'
     \<and> (\<forall>x. in_area x \<or> fl_mem f' x = fl_mem faulty_flash x)
     \<and> (st = OP_SUCCESS \<longrightarrow> area f' = overwrite3 (area faulty_flash) 9 [0, 0x94])"
  using write3t_safe [OF st_hal_flash_hal, where a = 9 and n = 2 and buf = "[0, 148]" and f = faulty_flash]
  by simp

lemma Check_Device_Param_flag:
  assumes "area f 0 = 1"
  shows "Check_Device_Param H f = InFlash_SystemParam_Check H f (map (area f) [0..<60]) PRO_DEFAULT_LEN"
  using assms Read_MultiBytes_area [of 0 60 f] Read_OneByte_area [of 0 f]
  by (simp add: Check_Device_Param_def User_Default_Param_def)

lemma Read_programmed:
  "InFlash_Read_OneByte f SYSTEMPARAM_PROGRAMED = Some (area f 59)"
  "InFlash_Read_OneByte f 2107 = Some (area f 2107)"
  "InFlash_Read_OneByte f 4155 = Some (area f 4155)"
  by (simp_all add: Read_OneByte_area)

text \<open>C33.  Repair at start-up.  When the first byte of the first copy is the flag 1 (the only copy in
  which the code looks at it first; otherwise it writes the factory values, whatever the other copies
  hold), at each of the 60 parameter bytes two of the three copies agree (on a value that
  \<open>InFlash_Write_OneByte\<close> can write) and at byte 59 they agree on 0xAA, the mark of a programmed area, then
  \<open>Check_Device_Param\<close>, on a flash that does not fail, ends with all three copies holding the
  majority value at every byte and nothing else in the area changed.\<close>

theorem param_majority_repair:
  assumes "reliable_flash H good" "good f" "area f 0 = 1"
    and "\<forall>k<60. repairable (area f) k" "majority (area f) 59 = SYSTEMPARAM_IS_PROGRAMED"
  shows "\<exists>f'. Check_Device_Param H f = Some f' \<and> good f' \<and> area f' = repair (area f) 0 60"
proof -
  obtain sta' f' where *: "check_loop H (map (area f) [0..<60]) 60 0 None f = Some (sta', f')" "good f'"
    "area f' = repair (area f) 0 60" "sta' \<in> {Some 0, Some 3, Some 5, Some 6}"
    using reliable_flash.check_loop_repair [OF assms(1), of 0 60 "map (area f) [0..<60]" f None] assms(2,4)
    by auto
  have "area f' 59 = 0xAA" "area f' 2107 = 0xAA" "area f' 4155 = 0xAA"
    using assms(5) by (simp_all add: *(3) repair_def)
  then show ?thesis
    using *(1,2,4) unfolding Check_Device_Param_flag [OF assms(3)]
    by (auto simp: InFlash_SystemParam_Check_def Read_programmed Let_def *(3))
qed

text \<open>The defaults in all three copies, one bit of the second copy of the range flipped.\<close>

definition aged_flash :: flash where
  "aged_flash = \<lparr>fl_mem = (\<lambda>x. if x = IN_FLASH_BASE_ADDRESS + 2048 + 10 then 0x95
       else if IN_FLASH_BASE_ADDRESS \<le> x \<and> (x - IN_FLASH_BASE_ADDRESS) mod 2048 < 60
       then User_Default_Param ! ((x - IN_FLASH_BASE_ADDRESS) mod 2048) else 0xFF),
     fl_lock = True, fl_env = []\<rparr>"

lemma area_aged: "area aged_flash k = (if k = 2058 then 0x95
    else if k mod 2048 < 60 then User_Default_Param ! (k mod 2048) else 0xFF)"
  by (simp add: area_def aged_flash_def)

lemma no_faults_aged: "no_faults aged_flash"
  by (simp add: no_faults_def aged_flash_def)

lemma param_majority_repair_witness:
  "\<exists>f'. Check_Device_Param st_hal aged_flash = Some f' \<and> no_faults f'
     \<and> area f' = repair (area aged_flash) 0 60 \<and> area f' 2058 = 0x94"
proof -
  have r: "repairable (area aged_flash) k" if "k < 60" for k
  proof -
    have "(2048 + k) mod 2048 = k" "(4096 + k) mod 2048 = k" "k mod 2048 = k"
      using that by (simp_all add: mod_add_left_eq [symmetric])
    then show ?thesis
      using that by (auto simp: repairable_def two_agree_def majority_def area_aged User_Default_Param_def)
  qed
  have m: "majority (area aged_flash) 59 = 0xAA" "majority (area aged_flash) 10 = 0x94"
    by (simp_all add: majority_def area_aged User_Default_Param_def)
  have "\<exists>f'. Check_Device_Param st_hal aged_flash = Some f' \<and> no_faults f'
     \<and> area f' = repair (area aged_flash) 0 60"
    by (rule param_majority_repair [OF st_drv.reliable_flash_axioms])
      (use r m in \<open>auto simp: no_faults_aged area_aged User_Default_Param_def\<close>)
  then show ?thesis using m(2) by (auto simp: repair_def)
qed


text \<open>The defaults are written when the check says so; whatever it has repaired before is
  overwritten by them.\<close>

lemma defaults_written:
  assumes "reliable_flash H good" "good f" "area f = repair g 0 i" "i \<le> 60"
  shows "\<exists>f'. InFlash_Write3T_MultiBytes H f RUN_ADDR_BASE User_Default_Param PRO_DEFAULT_LEN
               = Some (OP_SUCCESS, f')
           \<and> good f' \<and> area f' = overwrite3 g 0 User_Default_Param"
proof -
  have len: "length User_Default_Param = 60" by (simp add: User_Default_Param_def)
  have "overwrite3 (area f) 0 User_Default_Param = overwrite3 g 0 User_Default_Param"
  proof (rule overwrite3_Default_area)
    show "area f x = g x" if "\<not> (x < 6144 \<and> x mod 2048 < length User_Default_Param)" for x
      using that assms(3,4) len by (auto simp: repair_def)
  qed (simp add: len)
  moreover obtain f' where "InFlash_Write3T_MultiBytes H f RUN_ADDR_BASE User_Default_Param PRO_DEFAULT_LEN
      = Some (OP_SUCCESS, f')" "good f'"
    "area f' = overwrite3 (area f) 0 (take (unat PRO_DEFAULT_LEN) User_Default_Param)"
    by (rule reliable_flash.write_defaults [OF assms(1,2), of PRO_DEFAULT_LEN]) auto
  ultimately show ?thesis by (simp add: len)
qed

text \<open>Repair at start-up, the hopeless case: when the three copies of some parameter byte are
  pairwise different, \<open>Check_Device_Param\<close> restores the default parameters in all three copies,
  whatever it has repaired before it reached that byte.\<close>

theorem param_conflict_defaults:
  assumes "reliable_flash H good" "good f" "area f 0 = 1" "i < 60"
    and "\<forall>k<i. repairable (area f) k" "\<not> two_agree (area f) i"
  shows "\<exists>f'. Check_Device_Param H f = Some f' \<and> good f'
           \<and> area f' = overwrite3 (area f) 0 User_Default_Param"
proof -
  have n: "i + Suc (59 - i) = 60" using assms(4) by simp
  obtain f1 where 1: "check_loop H (map (area f) [0..<60]) 60 0 None f = Some (Some 7, f1)" "good f1"
    "area f1 = repair (area f) 0 i"
    using reliable_flash.check_loop_conflict [OF assms(1), of 0 i "map (area f) [0..<60]" f "59 - i" None]
      assms(2,4-6) n by auto
  obtain f' where "InFlash_Write3T_MultiBytes H f1 RUN_ADDR_BASE User_Default_Param PRO_DEFAULT_LEN
      = Some (OP_SUCCESS, f')" "good f'" "area f' = overwrite3 (area f) 0 User_Default_Param"
    using defaults_written [OF assms(1) 1(2,3)] assms(4) by auto
  then show ?thesis
    using 1(1) unfolding Check_Device_Param_flag [OF assms(3)]
    by (simp add: InFlash_SystemParam_Check_def Read_programmed)
qed

definition torn_flash :: flash where
  "torn_flash = \<lparr>fl_mem = (\<lambda>x. if x = IN_FLASH_BASE_ADDRESS then 1
       else if x < IN_FLASH_BASE_ADDRESS + 2048 then 2 else if x < IN_FLASH_BASE_ADDRESS + 4096 then 1
       else 3), fl_lock = True, fl_env = []\<rparr>"

lemma param_conflict_defaults_witness:
  "\<exists>f'. Check_Device_Param st_hal torn_flash = Some f' \<and> no_faults f'
     \<and> area f' = overwrite3 (area torn_flash) 0 User_Default_Param"
  by (rule param_conflict_defaults [OF st_drv.reliable_flash_axioms, where i = 1])
    (simp_all add: no_faults_def torn_flash_def area_def repairable_def two_agree_def majority_def)

lemma less9_default: "k < 9 \<Longrightarrow> User_Default_Param ! k \<noteq> 0xFF"
proof -
  assume "k < 9"
  then have "k = 0 \<or> k = 1 \<or> k = 2 \<or> k = 3 \<or> k = 4 \<or> k = 5 \<or> k = 6 \<or> k = 7 \<or> k = 8" by arith
  then show ?thesis by (auto simp: User_Default_Param_def)
qed

text \<open>A device whose parameter area is erased starts with the default parameters in all
  three copies (first the user part, because the initialisation flag is missing, then all of
  them, because the area is not marked as programmed).\<close>

theorem blank_device_defaults:
  assumes "reliable_flash H good" "good f" "\<forall>k\<le>IN_FLASH_END. area f k = 0xFF"
  shows "\<exists>f'. Check_Device_Param H f = Some f' \<and> good f'
           \<and> area f' = overwrite3 (area f) 0 User_Default_Param"
proof -
  have len: "length User_Default_Param = 60" by (simp add: User_Default_Param_def)
  let ?u = "take 9 User_Default_Param" and ?g = "area f"
  obtain f1 where 1: "InFlash_Write3T_MultiBytes H f RUN_ADDR_BASE User_Default_Param 9 = Some (OP_SUCCESS, f1)"
    "good f1" "area f1 = overwrite3 ?g 0 ?u"
    using reliable_flash.write_defaults [OF assms(1,2), of 9] by auto
  have g1: "area f1 k = (if k < 9 then User_Default_Param ! k else 0xFF)"
    "area f1 (2048 + k) = (if k < 9 then User_Default_Param ! k else 0xFF)"
    "area f1 (4096 + k) = (if k < 9 then User_Default_Param ! k else 0xFF)" if "k < 60" for k
    using that assms(3) len by (auto simp: 1(3) overwrite3_def overwrite_def)
  have dev: "Check_Device_Param H f = InFlash_SystemParam_Check H f1 (map (area f1) [0..<60]) PRO_DEFAULT_LEN"
    using 1(1) assms(3) Read_MultiBytes_area [of 0 60 f1] Read_OneByte_area [of 0 f]
    by (simp add: Check_Device_Param_def write_user_defaults.simps User_Default_Param_def)
  have "repairable (area f1) k" if "k < 60" for k
    using g1 [OF that] by (auto simp: repairable_def two_agree_def majority_def less9_default)
  then obtain sta f2 where 2: "check_loop H (map (area f1) [0..<60]) 60 0 None f1 = Some (sta, f2)" "good f2"
    "area f2 = repair (area f1) 0 60"
    using reliable_flash.check_loop_repair [OF assms(1), of 0 60 "map (area f1) [0..<60]" f1 None] 1(2)
    by auto
  have "area f2 59 = 0xFF"
    using g1 [of 59] by (simp add: 2(3) repair_def majority_def)
  moreover obtain f' where "InFlash_Write3T_MultiBytes H f2 RUN_ADDR_BASE User_Default_Param PRO_DEFAULT_LEN
      = Some (OP_SUCCESS, f')" "good f'" "area f' = overwrite3 (area f1) 0 User_Default_Param"
    using defaults_written [OF assms(1) 2(2,3)] by auto
  moreover have "overwrite3 (area f1) 0 User_Default_Param = overwrite3 ?g 0 User_Default_Param"
  proof (rule overwrite3_Default_area)
    fix x assume x: "\<not> (x < 6144 \<and> x mod 2048 < length User_Default_Param)"
    then have "\<not> x < 9" "\<not> (2048 \<le> x \<and> x < 2048 + 9)" "\<not> (4096 \<le> x \<and> x < 4096 + 9)"
      using len by (auto simp: le_iff_add mod_add_left_eq [symmetric])
    then show "area f1 x = ?g x" by (auto simp: 1(3) overwrite3_def overwrite_def len)
  qed (simp add: len)
  ultimately show ?thesis
    using 2(1) unfolding dev by (simp add: InFlash_SystemParam_Check_def Read_programmed)
qed

lemma blank_device_defaults_witness:
  "\<exists>f'. Check_Device_Param st_hal blank_flash = Some f' \<and> no_faults f'
     \<and> area f' = overwrite3 (area blank_flash) 0 User_Default_Param"
  by (rule blank_device_defaults [OF st_drv.reliable_flash_axioms])
    (simp_all add: no_faults_def blank_flash_def area_def)


section \<open>The start-up returns\<close>

definition only_area :: "flash \<Rightarrow> flash \<Rightarrow> bool" where
  "only_area f f' \<longleftrightarrow> (\<forall>x. in_area x \<or> fl_mem f' x = fl_mem f x)"

lemma only_area_refl [simp]: "only_area f f"
  by (simp add: only_area_def)

lemma only_area_trans: "only_area f g \<Longrightarrow> only_area g h \<Longrightarrow> only_area f h"
  unfolding only_area_def by metis

context flash_hal
begin

text \<open>Whatever byte is written (\<open>0xFF\<close> takes the way without an erase).\<close>

lemma write_one_only_area:
  assumes a: "unat a \<le> IN_FLASH_END"
  obtains st f' where "InFlash_Write_OneByte H f a v = Some (st, f')" "only_area f f'"
proof -
  define buf where "buf = (map (\<lambda>k. area f (unat (page_of a) + k)) [0..<FLASH_PAGE_SIZE])[unat a mod FLASH_PAGE_SIZE := v]"
  have buf: "wr (map (\<lambda>k. area f (unat (page_of a) + k)) [0..<FLASH_PAGE_SIZE]) (unat a mod FLASH_PAGE_SIZE) v = Some buf"
    "length buf = 2048" "rd buf (unat a mod FLASH_PAGE_SIZE) = Some v"
    by (simp_all add: buf_def)
  obtain est f1 where e: "(if v \<noteq> 0xFF then InFlash_Erase_Page H f a 1 else (HAL_OK, f)) = (est, f1)"
    by fastforce
  have ef: "fl_mem f1 x = fl_mem f x" if "\<not> in_page a x" for x
    using e that erase_page_frame(2) [of f a est f1 x] by (auto simp: in_page_def split: if_splits)
  obtain pst f2 where p: "program_words H (unat (page_of a) + IN_FLASH_BASE_ADDRESS) (words_of buf)
                            est (HAL_FLASH_Unlock f1) = (pst, f2)" by fastforce
  have pf: "fl_mem f2 x = fl_mem f x" if "\<not> in_page a x" for x
    using that ef [OF that] program_page_frame [OF p buf(2), of x] by (auto simp: in_page_def)
  have "only_area f f1" "only_area f (HAL_FLASH_Lock f2)"
    using ef pf in_page_in_area [OF a] by (auto simp: only_area_def)
  then show thesis
    using a e p that [of OP_FAILED f1] that [of "if pst \<noteq> HAL_OK then OP_FAILED else OP_SUCCESS" "HAL_FLASH_Lock f2"]
    by (cases "est = HAL_OK") (simp_all add: InFlash_Write_OneByte_def Read_page [OF a] buf)
qed

lemma write3t_only_area:
  assumes "unat a + unat n \<le> FLASH_PAGE_SIZE" "unat a < FLASH_PAGE_SIZE" "unat n \<le> length buf"
  obtains st f' where "InFlash_Write3T_MultiBytes H f a buf n = Some (st, f')" "only_area f f'"
  by (rule write3t [OF assms, of f]) (auto simp: only_area_def intro: that)

lemma check_loop_returns:
  "unat c + n \<le> length Cur \<Longrightarrow> length Cur \<le> 60 \<Longrightarrow>
     \<exists>sta' f'. check_loop H Cur n c sta f = Some (sta', f') \<and> only_area f f' \<and> (n \<noteq> 0 \<or> sta \<noteq> None \<longrightarrow> sta' \<noteq> None)"
proof (induction n arbitrary: c sta f)
  case (Suc n)
  have c: "unat c < 2048" "unat c < length Cur" "unat (c + 1) + n \<le> length Cur"
    using Suc.prems by (simp_all add: unat_word_ariths)
  note b = bak_addr [OF c(1)]
  have a: "unat c \<le> IN_FLASH_END" "unat (RUN_ADDR_BASE + c) \<le> IN_FLASH_END"
    "unat (SYSTEM_PARAM_BAK1 + c) \<le> IN_FLASH_END" "unat (SYSTEM_PARAM_BAK2 + c) \<le> IN_FLASH_END"
    using b c by auto
  note rd = Read_OneByte_area [OF a(3), of f] Read_OneByte_area [OF a(4), of f]
  define s where "s = check_sta (Cur ! unat c) (area f (unat (SYSTEM_PARAM_BAK1 + c))) (area f (unat (SYSTEM_PARAM_BAK2 + c)))"
  have rest: "\<exists>sta' f'. Option.bind (InFlash_Write_OneByte H f x v) (\<lambda>(_, f). check_loop H Cur n (c + 1) (Some s) f)
        = Some (sta', f') \<and> only_area f f' \<and> sta' \<noteq> None"
    if x: "unat x \<le> IN_FLASH_END" for x v
  proof -
    obtain st f1 where 1: "InFlash_Write_OneByte H f x v = Some (st, f1)" "only_area f f1"
      by (rule write_one_only_area [OF x])
    obtain sta' f' where "check_loop H Cur n (c + 1) (Some s) f1 = Some (sta', f')" "only_area f1 f'" "sta' \<noteq> None"
      using Suc.IH [OF c(3) Suc.prems(2), of "Some s" f1] by auto
    with 1 show ?thesis by (auto intro: only_area_trans)
  qed
  have last: "\<exists>sta' f'. check_loop H Cur n (c + 1) (Some s) f = Some (sta', f') \<and> only_area f f' \<and> sta' \<noteq> None"
    using Suc.IH [OF c(3) Suc.prems(2), of "Some s" f] by auto
  consider "s = 6" | "s = 3" | "s = 5" | "s = 0" | "s \<notin> {0, 3, 5, 6}" by blast
  then show ?case
  proof cases
    case 1
    then show ?thesis using rest [OF a(4)] c(2) by (simp add: rd Let_def flip: s_def)
  next
    case 2
    then show ?thesis using rest [OF a(3)] c(2) by (simp add: rd Let_def flip: s_def)
  next
    case 3
    then show ?thesis using rest [OF a(2)] c(2) by (simp add: rd Let_def flip: s_def)
  qed (use last c(2) in \<open>simp_all add: rd Let_def flip: s_def\<close>)
qed auto

lemma SystemParam_Check_returns:
  assumes "length Cur = 60"
  shows "\<exists>f'. InFlash_SystemParam_Check H f Cur 60 = Some f' \<and> only_area f f'"
proof -
  obtain sta f1 where 1: "check_loop H Cur 60 0 None f = Some (Some sta, f1)" "only_area f f1"
    using check_loop_returns [of 0 60 Cur None f] assms by auto
  obtain st f2 where 2: "InFlash_Write3T_MultiBytes H f1 0 User_Default_Param 60 = Some (st, f2)" "only_area f1 f2"
    by (rule write3t_only_area [of 0 60 User_Default_Param f1]) (simp_all add: User_Default_Param_def)
  show ?thesis
    using 1 2 only_area_trans [OF 1(2) 2(2)]
    by (simp add: InFlash_SystemParam_Check_def Read_programmed Let_def)
qed

lemma write_user_defaults_returns: "\<exists>f'. write_user_defaults H n f = Some f' \<and> only_area f f'"
proof (induction "4 - n" arbitrary: n f rule: less_induct)
  case less
  obtain st f1 where 1: "InFlash_Write3T_MultiBytes H f 0 User_Default_Param USER_DEFAULT_LEN = Some (st, f1)"
    "only_area f f1"
    by (rule write3t_only_area [of 0 USER_DEFAULT_LEN User_Default_Param f]) (simp_all add: User_Default_Param_def)
  show ?case
  proof (cases "3 < n + 1")
    case False
    then have "4 - (n + 1) < 4 - n" by simp
    from less [OF this, of f1]
    obtain f' where "write_user_defaults H (n + 1) f1 = Some f'" "only_area f1 f'" by blast
    with 1 False show ?thesis
      by (auto simp: write_user_defaults.simps [of H n f] intro: only_area_trans)
  qed (use 1 in \<open>auto simp: write_user_defaults.simps [of H n f]\<close>)
qed

end

lemma Check_Device_Param_returns:
  assumes "flash_hal H"
  shows "\<exists>f'. Check_Device_Param H f = Some f' \<and> only_area f f'"
proof -
  have f0: "InFlash_Read_OneByte f 0 = Some (area f 0)" "rd User_Default_Param 0 = Some 1"
    using Read_OneByte_area [of 0 f] by (simp_all add: User_Default_Param_def)
  obtain f1 where 1: "(if area f 0 \<noteq> 1 then write_user_defaults H 0 f else Some f) = Some f1" "only_area f f1"
    using flash_hal.write_user_defaults_returns [OF assms, of 0 f] by (cases "area f 0 = 1") auto
  obtain f2 where "InFlash_SystemParam_Check H f1 (map (area f1) [0..<60]) 60 = Some f2" "only_area f1 f2"
    using flash_hal.SystemParam_Check_returns [OF assms, of "map (area f1) [0..<60]" f1] by auto
  then show ?thesis
    using 1 Read_MultiBytes_area [of 0 60 f1] only_area_trans [OF 1(2)]
    by (auto simp: Check_Device_Param_def f0)
qed

text \<open>C29.  The check of the parameters at start-up returns on every contents of the flash and with
  every outcome of every erase and programming operation, and changes nothing outside the
  parameter area.\<close>

theorem start_up_returns:
  assumes "flash_hal H"
  shows "\<exists>f'. Check_Device_Param H f = Some f' \<and> (\<forall>x. in_area x \<or> fl_mem f' x = fl_mem f x)"
  using Check_Device_Param_returns [OF assms] by (simp add: only_area_def)

lemma start_up_returns_witness:
  "\<exists>f'. Check_Device_Param st_hal faulty_flash = Some f'
     \<and> (\<forall>x. in_area x \<or> fl_mem f' x = fl_mem faulty_flash x)"
  by (rule start_up_returns [OF st_hal_flash_hal])

end
