(* ===== verification/Usart.thy ===== *)
theory Usart
  imports Prelude
begin

text \<open>
  \<open>BSP/Src/usart_bsp.c\<close> and \<open>APP/Src/usart_app.c\<close>: the RS-485 port.  Reception is a circular
  DMA transfer into \<open>USART_Receive_Buf\<close>; the receiver time-out interrupt marks the end of a
  frame and computes its length from the DMA counter.  Transmission is a DMA transfer whose
  completion interrupt turns the transceiver back to reception.  The record \<open>usart\<close> holds the
  static variables of both files, the registers and driver fields that the code reads, and
  the trace of what has been started on the port.  What the hardware does between two calls (a received
  byte, an interrupt) is an operation of the model of its own, \<open>dma_rx\<close> and the interrupt
  handlers.
\<close>

section \<open>State\<close>

abbreviation RECEIVE_SIZE :: nat where "RECEIVE_SIZE \<equiv> 600"

datatype uart_parity = UART_PARITY_NONE | UART_PARITY_ODD | UART_PARITY_EVEN
datatype uart_wordlength = UART_WORDLENGTH_8B | UART_WORDLENGTH_9B

text \<open>What the port shows to the outside: a new line configuration, the start of a transmission, a
  system reset.  \<open>EvTx\<close> records a transmission at its start: the level of the driver-enable pin and
  the bytes that the send buffer then holds.  The DMA controller reads the buffer while it sends,
  so these are the bytes on the line unless the program writes into the buffer before the
  transmission has ended; the model does not follow the controller byte by byte.\<close>

datatype uart_event =
    EvInit u32 uart_parity uart_wordlength
  | EvTx bool "u8 list"
  | EvReset

record uart_hw =
  CR1 :: u32
  CR2 :: u32
  RTOR :: u32
  RTOEN :: bool
  RTOIE :: bool
  TCIE :: bool
  flag_RTO :: bool
  flag_CM :: bool
  flag_TC :: bool
  flag_PE :: bool
  flag_FE :: bool
  flag_NE :: bool
  flag_ORE :: bool

record usart =
  RX_Len :: u16
  Used_RX_Len :: u16
  RX_OverRun_Flag :: u8
  TX_Cplt_Flag :: u8
  RX_Updata_Flag :: u8
  USART_Receive_Buf :: "u8 list"
  RxXferSize :: u16
  DMA_Counter :: u16
  gState_READY :: bool
  RE_DE_pin :: bool
  uart_wl :: uart_wordlength
  hw :: uart_hw
  trace :: "uart_event list"

abbreviation TX_ON :: "usart \<Rightarrow> usart" where "TX_ON u \<equiv> u\<lparr>RE_DE_pin := True\<rparr>"
abbreviation RX_ON :: "usart \<Rightarrow> usart" where "RX_ON u \<equiv> u\<lparr>RE_DE_pin := False\<rparr>"

section \<open>The driver, \<open>usart_bsp.c\<close>\<close>

text \<open>\<open>HAL_UART_Init\<close> applies the configuration and makes the transmitter ready; its error
  branch calls the empty \<open>Error_Handler\<close>.\<close>

definition BSP_USART_UART_Init :: "u32 \<Rightarrow> uart_parity \<Rightarrow> usart \<Rightarrow> usart" where
  "BSP_USART_UART_Init baudrate parity u =
     (let wl = (if parity = UART_PARITY_NONE then UART_WORDLENGTH_8B
                else if parity = UART_PARITY_ODD \<or> parity = UART_PARITY_EVEN
                then UART_WORDLENGTH_9B else uart_wl u)
      in u\<lparr>uart_wl := wl, gState_READY := True, trace := trace u @ [EvInit baudrate parity wl]\<rparr>)"

text \<open>\<open>HAL_UART_Transmit_DMA\<close> answers \<open>HAL_BUSY\<close> while a transmission runs and \<open>HAL_ERROR\<close> for
  an empty buffer; otherwise a transmission of these bytes is started (see \<open>EvTx\<close>).\<close>

definition BSP_UART_Transmit_DMA :: "u8 list \<Rightarrow> u16 \<Rightarrow> usart \<Rightarrow> (u8 \<times> usart) option" where
  "BSP_UART_Transmit_DMA pData Size u =
     (if \<not> gState_READY u \<or> Size = 0 then Some (1, u)
      else do {
        bytes \<leftarrow> rdn pData 0 (unat Size);
        Some (0, u\<lparr>gState_READY := False, trace := trace u @ [EvTx (RE_DE_pin u) bytes]\<rparr>) })"

definition BSP_UART_Receive_DMA :: "u16 \<Rightarrow> usart \<Rightarrow> usart" where
  "BSP_UART_Receive_DMA Size u = u\<lparr>RxXferSize := Size\<rparr>"

definition BSP_UART_ReceiverTimeout_Config :: "u32 \<Rightarrow> usart \<Rightarrow> usart" where
  "BSP_UART_ReceiverTimeout_Config TimeoutValue u =
     (let h = (hw u)\<lparr>RTOEN := False\<rparr>;
          h = h\<lparr>RTOIE := False\<rparr>;
          h = h\<lparr>RTOR := TimeoutValue\<rparr>;
          h = h\<lparr>RTOEN := True\<rparr>
      in u\<lparr>hw := h\<lparr>RTOIE := True\<rparr>\<rparr>)"

text \<open>\<open>USART_CR1_RE | USART_CR1_UE\<close> is \<open>0x5\<close>, \<open>CMIE\<close> is bit 14 of \<open>CR1\<close>, \<open>ADDM7\<close> bit 4 and \<open>ADD\<close>
  the top byte of \<open>CR2\<close>.\<close>

definition BSP_UART_CharMatch_Config :: "u8 \<Rightarrow> usart \<Rightarrow> usart" where
  "BSP_UART_CharMatch_Config Value u =
     (let h = hw u;
          usart_cr1 = CR1 h AND 0x5;
          h = h\<lparr>CR1 := CR1 h AND NOT usart_cr1\<rparr>;
          h = h\<lparr>CR1 := CR1 h AND NOT 0x4000\<rparr>;
          h = h\<lparr>CR2 := (CR2 h AND NOT 0x10) OR 0x10\<rparr>;
          h = h\<lparr>CR2 := (CR2 h AND NOT 0xFF000000) OR push_bit 24 (ucast Value)\<rparr>;
          h = h\<lparr>CR1 := CR1 h OR 0x4000\<rparr>;
          h = h\<lparr>CR1 := CR1 h OR usart_cr1\<rparr>
      in u\<lparr>hw := h\<rparr>)"

section \<open>The application, \<open>usart_app.c\<close>\<close>

definition RS485_RE_DE_GPIO_Init :: "usart \<Rightarrow> usart" where
  "RS485_RE_DE_GPIO_Init u = RX_ON u"

definition Sensor_USART_Init :: "u8 \<Rightarrow> u8 \<Rightarrow> usart \<Rightarrow> usart" where
  "Sensor_USART_Init baudrate_code parity_code u =
     (let baudrate = (if baudrate_code = 0 then 4800
                      else if baudrate_code = 1 then 9600
                      else if baudrate_code = 2 then 19200
                      else if baudrate_code = 3 then 38400
                      else if baudrate_code = 4 then 57600
                      else if baudrate_code = 5 then 115200
                      else 9600);
          parity = (if parity_code = 0 then UART_PARITY_NONE
                    else if parity_code = 1 then UART_PARITY_ODD
                    else if parity_code = 2 then UART_PARITY_EVEN
                    else UART_PARITY_NONE);
          u = BSP_USART_UART_Init baudrate parity u;
          u = RS485_RE_DE_GPIO_Init u;
          timeout = (if parity_code = 0 then 10 * 10 else 10 * 11);
          timeout = (if timeout mod 10 \<noteq> 0 then timeout div 10 + 1 else timeout div 10);
          u = BSP_UART_ReceiverTimeout_Config timeout u
      in BSP_UART_Receive_DMA 600 u)"

text \<open>\<open>Sensor_USART_GetReceData\<close> copies the last frame out of the circular buffer.  \<open>ReceData\<close> is
  the caller's array before the call; the result is the returned length and the array after
  it.\<close>

definition Sensor_USART_GetReceData :: "u8 list \<Rightarrow> usart \<Rightarrow> (u16 \<times> u8 list) option" where
  "Sensor_USART_GetReceData ReceData u =
     (let rx = unat (RX_Len u); used = unat (Used_RX_Len u) in
      if used > RECEIVE_SIZE \<or> rx > RECEIVE_SIZE then Some (0, ReceData)
      else if used > rx then do {
        bs \<leftarrow> rdn (USART_Receive_Buf u) (used - rx) rx;
        ReceData \<leftarrow> wrn ReceData 0 bs;
        Some (RX_Len u, ReceData) }
      else do {
        bs \<leftarrow> rdn (USART_Receive_Buf u) (RECEIVE_SIZE - rx + used) (rx - used);
        ReceData \<leftarrow> wrn ReceData 0 bs;
        bs \<leftarrow> rdn (USART_Receive_Buf u) 0 used;
        ReceData \<leftarrow> wrn ReceData (rx - used) bs;
        Some (RX_Len u, ReceData) })"

definition Sensor_USART_Get_RX_Len :: "usart \<Rightarrow> u16" where
  "Sensor_USART_Get_RX_Len u = RX_Len u"

definition Sensor_USART_Get_RXBuf_Used_Len :: "usart \<Rightarrow> u16" where
  "Sensor_USART_Get_RXBuf_Used_Len u = Used_RX_Len u"

definition Sensor_USART_Get_RX_Updata_Flag :: "usart \<Rightarrow> u8" where
  "Sensor_USART_Get_RX_Updata_Flag u = RX_Updata_Flag u"

definition Sensor_USART_Get_TX_Cplt_Flag :: "usart \<Rightarrow> u8" where
  "Sensor_USART_Get_TX_Cplt_Flag u = TX_Cplt_Flag u"

definition Sensor_USART_Clear_RX_Updata_Flag :: "usart \<Rightarrow> usart" where
  "Sensor_USART_Clear_RX_Updata_Flag u = u\<lparr>RX_Updata_Flag := 0\<rparr>"

definition Sensor_USART_Clear_TX_Cplt_Flag :: "usart \<Rightarrow> usart" where
  "Sensor_USART_Clear_TX_Cplt_Flag u = u\<lparr>TX_Cplt_Flag := 0\<rparr>"

text \<open>The callbacks.  \<open>RX_Len\<close> is computed in \<open>int\<close> and stored in 16 bits.\<close>

definition HAL_UART_RxTimoCallback :: "usart \<Rightarrow> usart" where
  "HAL_UART_RxTimoCallback u =
     (let rx_buf_used = RxXferSize u - DMA_Counter u;
          u = (if RX_OverRun_Flag u \<noteq> 0
               then u\<lparr>RX_Len := rx_buf_used + RxXferSize u - Used_RX_Len u, RX_OverRun_Flag := 0\<rparr>
               else u\<lparr>RX_Len := rx_buf_used - Used_RX_Len u\<rparr>)
      in u\<lparr>Used_RX_Len := rx_buf_used, RX_Updata_Flag := 1\<rparr>)"

definition HAL_UART_RxCpltCallback :: "usart \<Rightarrow> usart" where
  "HAL_UART_RxCpltCallback u = u\<lparr>RX_OverRun_Flag := 1\<rparr>"

definition HAL_UART_TxCpltCallback :: "usart \<Rightarrow> usart" where
  "HAL_UART_TxCpltCallback u = (RX_ON u)\<lparr>TX_Cplt_Flag := 1\<rparr>"

text \<open>The weak callback of the character match, which this configuration does not redefine.\<close>

definition HAL_UART_CMatchCallback :: "usart \<Rightarrow> usart" where
  "HAL_UART_CMatchCallback u = u"

text \<open>The error flags are only acknowledged.\<close>

definition clear_error_flags :: "uart_hw \<Rightarrow> uart_hw" where
  "clear_error_flags h =
     (let h = (if flag_PE h then h\<lparr>flag_PE := False\<rparr> else h);
          h = (if flag_FE h then h\<lparr>flag_FE := False\<rparr> else h);
          h = (if flag_NE h then h\<lparr>flag_NE := False\<rparr> else h)
      in (if flag_ORE h then h\<lparr>flag_ORE := False\<rparr> else h))"

definition USARTx_IRQHandler :: "usart \<Rightarrow> usart" where
  "USARTx_IRQHandler u =
     (let u = (if flag_RTO (hw u) then HAL_UART_RxTimoCallback (u\<lparr>hw := (hw u)\<lparr>flag_RTO := False\<rparr>\<rparr>) else u);
          u = (if flag_CM (hw u) then HAL_UART_CMatchCallback (u\<lparr>hw := (hw u)\<lparr>flag_CM := False\<rparr>\<rparr>) else u);
          u = (if flag_TC (hw u) \<and> TCIE (hw u)
               then HAL_UART_TxCpltCallback (u\<lparr>hw := (hw u)\<lparr>TCIE := False\<rparr>, gState_READY := True\<rparr>) else u)
      in u\<lparr>hw := clear_error_flags (hw u)\<rparr>)"

section \<open>What the hardware does\<close>

text \<open>A received byte: the DMA stores it at the position that its down-counter gives and
  reloads the counter (calling the completion callback) when the buffer is full.\<close>

definition dma_rx :: "u8 \<Rightarrow> usart \<Rightarrow> usart" where
  "dma_rx b u =
     (let u = u\<lparr>USART_Receive_Buf := (USART_Receive_Buf u)[unat (RxXferSize u) - unat (DMA_Counter u) := b],
                DMA_Counter := DMA_Counter u - 1\<rparr>
      in if DMA_Counter u = 0 then HAL_UART_RxCpltCallback (u\<lparr>DMA_Counter := RxXferSize u\<rparr>) else u)"

text \<open>The line falls silent: the receiver time-out interrupt.\<close>

definition rx_timeout :: "usart \<Rightarrow> usart" where
  "rx_timeout u = USARTx_IRQHandler (u\<lparr>hw := (hw u)\<lparr>flag_RTO := True\<rparr>\<rparr>)"

text \<open>The last bit of a transmission has gone out: the driver has enabled the \<open>TC\<close> interrupt
  when its DMA transfer ended, and the interrupt arrives.\<close>

definition tx_complete :: "usart \<Rightarrow> usart" where
  "tx_complete u = USARTx_IRQHandler (u\<lparr>hw := (hw u)\<lparr>flag_TC := True, TCIE := True\<rparr>\<rparr>)"

text \<open>\<open>while(Sensor_USART_Get_TX_Cplt_Flag() == 0);\<close>  The loop ends at once when the flag is set,
  with the completion interrupt when a transmission runs, and never otherwise (\<open>None\<close>).\<close>

definition wait_TX_Cplt :: "usart \<Rightarrow> usart option" where
  "wait_TX_Cplt u =
     (if Sensor_USART_Get_TX_Cplt_Flag u \<noteq> 0 then Some u
      else if gState_READY u then None
      else Some (tx_complete u))"

text \<open>The transmission part of \<open>ModBusRtu.c\<close>, \<open>Send_Data\<close>.\<close>

definition Send_Data :: "u8 list \<Rightarrow> u16 \<Rightarrow> usart \<Rightarrow> usart option" where
  "Send_Data pMsg len u = do {
     u \<leftarrow> wait_TX_Cplt (TX_ON u);
     let u = Sensor_USART_Clear_TX_Cplt_Flag u;
     (_, u) \<leftarrow> BSP_UART_Transmit_DMA pMsg len u;
     Some u }"


section \<open>Reception\<close>

text \<open>Between two frames: the DMA runs over the whole buffer and \<open>Used_RX_Len\<close> is its position.\<close>

definition rx_ready :: "usart \<Rightarrow> bool" where
  "rx_ready u \<longleftrightarrow> RxXferSize u = 600 \<and> length (USART_Receive_Buf u) = RECEIVE_SIZE
     \<and> 0 < unat (DMA_Counter u) \<and> unat (DMA_Counter u) \<le> RECEIVE_SIZE
     \<and> unat (Used_RX_Len u) = RECEIVE_SIZE - unat (DMA_Counter u) \<and> RX_OverRun_Flag u = 0"

definition rx_bytes :: "u8 list \<Rightarrow> usart \<Rightarrow> usart" where
  "rx_bytes bs u = fold dma_rx bs u"

lemma rx_bytes_tx:
  "TX_Cplt_Flag (rx_bytes bs u) = TX_Cplt_Flag u \<and> gState_READY (rx_bytes bs u) = gState_READY u
   \<and> hw (rx_bytes bs u) = hw u \<and> trace (rx_bytes bs u) = trace u"
  by (induction bs arbitrary: u) (auto simp: rx_bytes_def dma_rx_def HAL_UART_RxCpltCallback_def Let_def)

text \<open>In the middle of a frame that started at position \<open>p\<close>.\<close>

definition receiving :: "nat \<Rightarrow> u8 list \<Rightarrow> usart \<Rightarrow> bool" where
  "receiving p bs u \<longleftrightarrow> p < RECEIVE_SIZE \<and> RxXferSize u = 600
     \<and> length (USART_Receive_Buf u) = RECEIVE_SIZE \<and> unat (Used_RX_Len u) = p
     \<and> unat (DMA_Counter u) = RECEIVE_SIZE - (p + length bs) mod RECEIVE_SIZE
     \<and> (RX_OverRun_Flag u \<noteq> 0 \<longleftrightarrow> RECEIVE_SIZE \<le> p + length bs)
     \<and> (length bs \<le> RECEIVE_SIZE \<longrightarrow>
          (\<forall>j<length bs. USART_Receive_Buf u ! ((p + j) mod RECEIVE_SIZE) = bs ! j))"

lemma receiving_start: "rx_ready u \<Longrightarrow> receiving (unat (Used_RX_Len u)) [] u"
  by (auto simp: rx_ready_def receiving_def)

lemma ring_pos:
  "p < RECEIVE_SIZE \<Longrightarrow> j \<le> RECEIVE_SIZE
   \<Longrightarrow> (p + j) mod RECEIVE_SIZE = (if p + j < RECEIVE_SIZE then p + j else p + j - RECEIVE_SIZE)"
  by (simp add: mod_if)

lemma ring_distinct:
  "p < RECEIVE_SIZE \<Longrightarrow> j < k \<Longrightarrow> k < RECEIVE_SIZE
   \<Longrightarrow> (p + j) mod RECEIVE_SIZE \<noteq> (p + k) mod RECEIVE_SIZE"
  by (subst (1 2) ring_pos) (auto split: if_splits)

lemma ring_next:
  "q < RECEIVE_SIZE \<Longrightarrow> RECEIVE_SIZE - q - Suc 0 = 0 \<longleftrightarrow> Suc q mod RECEIVE_SIZE = 0"
  by (auto simp: mod_if)

lemma receiving_dma:
  assumes "receiving p bs u"
  shows "receiving p (bs @ [b]) (dma_rx b u)"
proof -
  let ?q = "(p + length bs) mod RECEIVE_SIZE"
  have q: "?q < RECEIVE_SIZE" by simp
  have c: "unat (DMA_Counter u) = RECEIVE_SIZE - ?q" "RxXferSize u = 600" "p < RECEIVE_SIZE"
    "length (USART_Receive_Buf u) = RECEIVE_SIZE"
    using assms by (simp_all add: receiving_def)
  have pos: "unat (RxXferSize u) - unat (DMA_Counter u) = ?q" using c(1,2) q by simp
  have dec: "unat (DMA_Counter u - 1) = RECEIVE_SIZE - ?q - 1"
    using c(1) q by (subst unat_sub) (auto simp: word_le_nat_alt)
  have next_q: "Suc (p + length bs) mod RECEIVE_SIZE = (if Suc ?q = RECEIVE_SIZE then 0 else Suc ?q)"
    by (simp add: mod_Suc)
  have zero: "DMA_Counter u - 1 = 0 \<longleftrightarrow> Suc ?q = RECEIVE_SIZE"
    using q by (auto simp: dec word_unat_eq_iff)
  have wrap: "RECEIVE_SIZE \<le> Suc (p + length bs) \<longleftrightarrow> RECEIVE_SIZE \<le> p + length bs \<or> Suc ?q = RECEIVE_SIZE"
    using c(3) by (cases "RECEIVE_SIZE \<le> p + length bs") (auto simp: mod_if)
  have data: "\<forall>j<length (bs @ [b]). (USART_Receive_Buf u)[?q := b] ! ((p + j) mod RECEIVE_SIZE) = (bs @ [b]) ! j"
    if "length (bs @ [b]) \<le> RECEIVE_SIZE"
  proof (intro allI impI)
    fix j assume j: "j < length (bs @ [b])"
    show "(USART_Receive_Buf u)[?q := b] ! ((p + j) mod RECEIVE_SIZE) = (bs @ [b]) ! j"
    proof (cases "j = length bs")
      case True
      then show ?thesis using c(4) by simp
    next
      case False
      then have "j < length bs" using j by simp
      moreover have "(p + j) mod RECEIVE_SIZE \<noteq> ?q"
        using ring_distinct [OF c(3) \<open>j < length bs\<close>] that by simp
      ultimately show ?thesis
        using assms that by (simp add: receiving_def nth_append)
    qed
  qed
  show ?thesis
    using assms data c dec next_q zero wrap q
    unfolding receiving_def dma_rx_def Let_def pos HAL_UART_RxCpltCallback_def
    by (auto simp: length_append)
qed

lemma receiving_bytes: "receiving p bs u \<Longrightarrow> receiving p (bs @ bs') (rx_bytes bs' u)"
proof (induction bs' arbitrary: bs u)
  case (Cons b bs')
  then show ?case
    using Cons.IH [OF receiving_dma [OF Cons.prems, of b]] by (simp add: rx_bytes_def)
qed (simp add: rx_bytes_def)

text \<open>The time-out interrupt, whatever other interrupt flags are pending with it.\<close>

lemma rx_timeout_fields:
  "RxXferSize (rx_timeout u) = RxXferSize u" "USART_Receive_Buf (rx_timeout u) = USART_Receive_Buf u"
  "DMA_Counter (rx_timeout u) = DMA_Counter u" "RX_OverRun_Flag (rx_timeout u) = 0"
  "Used_RX_Len (rx_timeout u) = RxXferSize u - DMA_Counter u" "RX_Updata_Flag (rx_timeout u) = 1"
  "RX_Len (rx_timeout u) = RxXferSize u - DMA_Counter u - Used_RX_Len u
     + (if RX_OverRun_Flag u \<noteq> 0 then RxXferSize u else 0)"
  by (simp_all add: rx_timeout_def USARTx_IRQHandler_def HAL_UART_RxTimoCallback_def
      HAL_UART_CMatchCallback_def HAL_UART_TxCpltCallback_def Let_def)


lemma receiving_timeout:
  assumes "receiving p bs u"
  defines "n \<equiv> length bs"
  shows "rx_ready (rx_timeout u)" "USART_Receive_Buf (rx_timeout u) = USART_Receive_Buf u"
    and "unat (Used_RX_Len (rx_timeout u)) = (p + n) mod RECEIVE_SIZE"
    and "p + n < 1200 \<Longrightarrow> unat (RX_Len (rx_timeout u)) = n"
proof -
  let ?q = "(p + n) mod RECEIVE_SIZE"
  have q: "?q < RECEIVE_SIZE" by simp
  have c: "unat (DMA_Counter u) = RECEIVE_SIZE - ?q" "RxXferSize u = 600" "p < RECEIVE_SIZE"
    "unat (Used_RX_Len u) = p" "RX_OverRun_Flag u \<noteq> 0 \<longleftrightarrow> RECEIVE_SIZE \<le> p + n"
    using assms by (simp_all add: receiving_def)
  have used: "unat (600 - DMA_Counter u) = ?q"
    using c(1) q by (subst unat_sub) (auto simp: word_le_nat_alt)
  then show "unat (Used_RX_Len (rx_timeout u)) = ?q" by (simp add: rx_timeout_fields c(2))
  then show "rx_ready (rx_timeout u)"
    using assms q c(1) by (auto simp: rx_ready_def receiving_def rx_timeout_fields)
  show "USART_Receive_Buf (rx_timeout u) = USART_Receive_Buf u" by (simp add: rx_timeout_fields)
  show "unat (RX_Len (rx_timeout u)) = n" if "p + n < 1200"
  proof (cases "RECEIVE_SIZE \<le> p + n")
    case True
    have "unat (d - w + 600) = ?q + 600 - p" if "unat d = ?q" "unat w = p" for d w :: u16
    proof -
      have eq: "d - w + 600 = (d + 600) - w" by simp
      have "unat (d + 600) = ?q + 600" using that(1) q by (simp add: unat_word_ariths)
      then show ?thesis
        unfolding eq using that(2) c(3) by (subst unat_sub) (simp_all add: word_le_nat_alt)
    qed
    note * = this [OF used c(4)]
    moreover have "?q = p + n - 600" using True that by (simp add: mod_if)
    ultimately have "unat (600 - DMA_Counter u - Used_RX_Len u + 600) = n" using True c(3) by simp
    then show ?thesis
      using True c(2,5) by (simp only: rx_timeout_fields if_True)
  next
    case False
    then have "?q = p + n" by simp
    then have "unat (600 - DMA_Counter u - Used_RX_Len u) = n"
      using used c(4) by (subst unat_sub) (auto simp: word_le_nat_alt)
    then show ?thesis using False c by (simp add: rx_timeout_fields)
  qed
qed

lemma list_eq_take_drop:
  assumes "length xs = n" "\<And>j. j < n \<Longrightarrow> ys ! (k + j) = xs ! j" "k + n \<le> length ys"
  shows "take n (drop k ys) = xs"
  using assms by (intro nth_equalityI) auto

text \<open>Reading the frame out of the ring.\<close>

lemma GetReceData_frame:
  assumes len: "length (USART_Receive_Buf u) = RECEIVE_SIZE" and p: "p < RECEIVE_SIZE"
    and n: "unat (RX_Len u) = length bs" "length bs \<le> RECEIVE_SIZE"
    and used: "unat (Used_RX_Len u) = (p + length bs) mod RECEIVE_SIZE"
    and data: "\<forall>j<length bs. USART_Receive_Buf u ! ((p + j) mod RECEIVE_SIZE) = bs ! j"
    and rb: "length rb = RECEIVE_SIZE"
  shows "Sensor_USART_GetReceData rb u = Some (RX_Len u, bs @ drop (length bs) rb)"
proof -
  let ?n = "length bs" and ?r = "USART_Receive_Buf u" and ?q = "(p + length bs) mod RECEIVE_SIZE"
  have q: "?q < RECEIVE_SIZE" by simp
  note ring = ring_pos [OF p]
  show ?thesis
  proof (cases "?n < ?q")
    case True
    then have pn: "p + ?n < RECEIVE_SIZE"
      using ring [OF n(2)] p n(2) by (auto split: if_splits)
    have "take ?n (drop p ?r) = bs"
      by (rule list_eq_take_drop) (use data pn len ring in \<open>auto\<close>)
    then show ?thesis
      using True pn q n used len rb by (simp add: Sensor_USART_GetReceData_def wrn_def)
  next
    case False
    define a where "a = ?n - ?q"
    have split: "take a (drop (RECEIVE_SIZE - ?n + ?q) ?r) = take a bs \<and> take ?q ?r = drop a bs"
    proof (cases "p + ?n < RECEIVE_SIZE")
      case True
      then have "?q = ?n" "p = 0" "a = 0" using False by (auto simp: a_def)
      moreover have "take ?n (drop 0 ?r) = bs"
        by (rule list_eq_take_drop) (use data len n True \<open>p = 0\<close> in auto)
      ultimately show ?thesis by simp
    next
      case wrap: False
      then have qq: "?q = p + ?n - RECEIVE_SIZE" using ring [OF n(2)] by simp
      then have a: "a = RECEIVE_SIZE - p" "RECEIVE_SIZE - ?n + ?q = p" "a \<le> ?n" "?q = ?n - a"
        using wrap p n(2) by (auto simp: a_def)
      have "take a (drop p ?r) = take a bs"
      proof (rule list_eq_take_drop)
        fix j assume "j < a"
        then have "(p + j) mod RECEIVE_SIZE = p + j" "j < ?n" using a(1,3) by auto
        then show "?r ! (p + j) = take a bs ! j" using data \<open>j < a\<close> by auto
      qed (use a len p in auto)
      moreover have "take ?q (drop 0 ?r) = drop a bs"
      proof (rule list_eq_take_drop)
        fix j assume j: "j < ?q"
        have "(p + (a + j)) mod RECEIVE_SIZE = j" using a(1) p j q by simp
        moreover have "a + j < ?n" using j a(3,4) by linarith
        ultimately show "?r ! (0 + j) = drop a bs ! j"
          using data [rule_format, of "a + j"] a(3) by simp
      qed (use a len q in auto)
      ultimately show ?thesis using a(2) by simp
    qed
    then have slices: "take a (drop (RECEIVE_SIZE - ?n + ?q) ?r) = take a bs" "take ?q ?r = drop a bs"
      by simp_all
    have an: "a \<le> ?n" "?n - a = ?q" "?q \<le> ?n" "a + ?q = ?n" "?q + a = ?n"
      using False by (simp_all add: a_def)
    have whole: "take a bs @ drop a bs @ xs = bs @ xs" for xs by (simp flip: append_assoc)
    have "rdn ?r (RECEIVE_SIZE - ?n + ?q) a = Some (take a bs)"
      using slices(1) n(2) an len by (simp add: a_def)
    moreover have "wrn rb 0 (take a bs) = Some (take a bs @ drop a rb)"
      using an n(2) rb by (simp add: wrn_def min_absorb2)
    moreover have "rdn ?r 0 ?q = Some (drop a bs)"
      using slices(2) q len by simp
    moreover have "wrn (take a bs @ drop a rb) a (drop a bs) = Some (bs @ drop ?n rb)"
      using an n(2) rb by (simp add: wrn_def min_absorb2 whole)
    ultimately show ?thesis
      using False q n used by (simp add: Sensor_USART_GetReceData_def a_def [symmetric])
  qed
qed


text \<open>A whole frame, from one gap on the line to the next.\<close>

lemma rx_frame:
  assumes "rx_ready u" "length bs \<le> RECEIVE_SIZE" "length rb = RECEIVE_SIZE"
  shows "rx_ready (rx_timeout (rx_bytes bs u))
     \<and> RX_Updata_Flag (rx_timeout (rx_bytes bs u)) = 1
     \<and> Sensor_USART_GetReceData rb (rx_timeout (rx_bytes bs u))
         = Some (of_nat (length bs), bs @ drop (length bs) rb)"
proof -
  let ?p = "unat (Used_RX_Len u)" and ?v = "rx_bytes bs u"
  have r: "receiving ?p bs ?v"
    using receiving_bytes [OF receiving_start [OF assms(1)], of bs] by simp
  then have p: "?p < RECEIVE_SIZE" and len: "length (USART_Receive_Buf ?v) = RECEIVE_SIZE"
    and data: "\<forall>j<length bs. USART_Receive_Buf ?v ! ((?p + j) mod RECEIVE_SIZE) = bs ! j"
    using assms(2) by (simp_all add: receiving_def)
  note t = receiving_timeout [OF r]
  have n: "unat (RX_Len (rx_timeout ?v)) = length bs" using t(4) p assms(2) by simp
  have "RX_Len (rx_timeout ?v) = of_nat (unat (RX_Len (rx_timeout ?v)))" by simp
  then have "RX_Len (rx_timeout ?v) = of_nat (length bs)" by (simp only: n)
  moreover have "Sensor_USART_GetReceData rb (rx_timeout ?v)
      = Some (RX_Len (rx_timeout ?v), bs @ drop (length bs) rb)"
    by (rule GetReceData_frame [OF _ p n assms(2) t(3) _ assms(3)]) (simp_all add: t(2) len data)
  ultimately show ?thesis using t(1) by (simp add: rx_timeout_fields)
qed

text \<open>The port has received the frame \<open>bs\<close>.\<close>

definition port_holds :: "usart \<Rightarrow> u8 list \<Rightarrow> bool" where
  "port_holds u bs \<longleftrightarrow> length bs \<le> RECEIVE_SIZE \<and>
     (\<forall>rb. length rb = RECEIVE_SIZE \<longrightarrow> Sensor_USART_GetReceData rb u = Some (of_nat (length bs), bs @ drop (length bs) rb))"

lemma port_holds_rx:
  "rx_ready u \<Longrightarrow> length bs \<le> RECEIVE_SIZE \<Longrightarrow> port_holds (rx_timeout (rx_bytes bs u)) bs"
  using rx_frame by (simp add: port_holds_def)

text \<open>Whatever lengths the interrupts have left behind, the copy out of the receive buffer stays
  inside it.\<close>

lemma port_holds_something:
  assumes "length (USART_Receive_Buf u) = RECEIVE_SIZE"
  obtains bs where "port_holds u bs"
proof -
  let ?rx = "unat (RX_Len u)" and ?used = "unat (Used_RX_Len u)" and ?B = "USART_Receive_Buf u"
  consider "?used > RECEIVE_SIZE \<or> ?rx > RECEIVE_SIZE" | "?used \<le> RECEIVE_SIZE" "?rx < ?used"
    | "?rx \<le> RECEIVE_SIZE" "?used \<le> ?rx" by linarith
  then show thesis
  proof cases
    case 1
    then show thesis
      by (intro that [of "[]"]) (auto simp: port_holds_def Sensor_USART_GetReceData_def Let_def)
  next
    case 2
    define bs where "bs = take ?rx (drop (?used - ?rx) ?B)"
    have "length bs = ?rx" "rdn ?B (?used - ?rx) ?rx = Some bs"
      using 2 assms by (simp_all add: bs_def)
    then show thesis
      using 2 by (intro that [of bs]) (simp add: port_holds_def Sensor_USART_GetReceData_def Let_def wrn_def)
  next
    case 3
    define b1 b2 where "b1 = take (?rx - ?used) (drop (RECEIVE_SIZE - ?rx + ?used) ?B)"
      and "b2 = take ?used ?B"
    have l: "length b1 = ?rx - ?used" "length b2 = ?used"
      "rdn ?B (RECEIVE_SIZE - ?rx + ?used) (?rx - ?used) = Some b1" "rdn ?B 0 ?used = Some b2"
      using 3 assms by (simp_all add: b1_def b2_def)
    moreover have "length (b1 @ b2) = ?rx" "?rx - ?used \<le> RECEIVE_SIZE" using 3 l by simp_all
    ultimately show thesis
      using 3 by (intro that [of "b1 @ b2"]) (simp add: port_holds_def Sensor_USART_GetReceData_def Let_def wrn_def)
  qed
qed

text \<open>The character-match callback of the boot loader's configuration (\<open>USING_CHARMATCH\<close>) computes
  the same lengths as the time-out callback.\<close>

lemma GetReceData_cong:
  "RX_Len u' = RX_Len u \<Longrightarrow> Used_RX_Len u' = Used_RX_Len u \<Longrightarrow> USART_Receive_Buf u' = USART_Receive_Buf u
    \<Longrightarrow> Sensor_USART_GetReceData rb u' = Sensor_USART_GetReceData rb u"
  by (simp add: Sensor_USART_GetReceData_def Let_def)

lemma port_holds_callback:
  assumes "rx_ready u" "length bs \<le> RECEIVE_SIZE"
  shows "port_holds (HAL_UART_RxTimoCallback (rx_bytes bs u)) bs"
proof -
  let ?v = "rx_bytes bs u"
  have "Sensor_USART_GetReceData rb (HAL_UART_RxTimoCallback ?v) = Sensor_USART_GetReceData rb (rx_timeout ?v)" for rb
    by (rule GetReceData_cong)
      (simp_all add: rx_timeout_def USARTx_IRQHandler_def HAL_UART_RxTimoCallback_def
        HAL_UART_CMatchCallback_def HAL_UART_TxCpltCallback_def Let_def)
  then show ?thesis
    using port_holds_rx [OF assms] by (simp add: port_holds_def)
qed



text \<open>A received byte leaves the size of the buffer and the transmit side alone.\<close>

lemma dma_rx_buf [frame_simps]: "length (USART_Receive_Buf (dma_rx b u)) = length (USART_Receive_Buf u)"
  by (simp add: dma_rx_def HAL_UART_RxCpltCallback_def Let_def)

section \<open>Transmission\<close>

text \<open>The transmit side can always make progress: the completion flag is set or a transmission
  is under way whose completion interrupt will set it.\<close>

definition tx_live :: "usart \<Rightarrow> bool" where
  "tx_live u \<longleftrightarrow> (TX_Cplt_Flag u = 0 \<longleftrightarrow> \<not> gState_READY u)"

lemma dma_rx_tx: "trace (dma_rx b u) = trace u" "tx_live (dma_rx b u) = tx_live u"
  by (simp_all add: dma_rx_def HAL_UART_RxCpltCallback_def tx_live_def Let_def)

lemma tx_complete_fields:
  "TX_Cplt_Flag (tx_complete u) = 1" "gState_READY (tx_complete u)" "\<not> RE_DE_pin (tx_complete u)"
  "trace (tx_complete u) = trace u"
  by (simp_all add: tx_complete_def USARTx_IRQHandler_def HAL_UART_RxTimoCallback_def
      HAL_UART_CMatchCallback_def HAL_UART_TxCpltCallback_def Let_def)

lemma wait_TX_Cplt_live:
  assumes "tx_live u"
  obtains u' where "wait_TX_Cplt u = Some u'" "gState_READY u'" "TX_Cplt_Flag u' \<noteq> 0"
    "trace u' = trace u" "RE_DE_pin u' = (RE_DE_pin u \<and> gState_READY u)"
proof (cases "TX_Cplt_Flag u = 0")
  case True
  with assms show thesis
    by (intro that [of "tx_complete u"])
      (simp_all add: wait_TX_Cplt_def tx_live_def Sensor_USART_Get_TX_Cplt_Flag_def tx_complete_fields)
next
  case False
  with assms show thesis
    by (intro that [of u]) (simp_all add: wait_TX_Cplt_def tx_live_def Sensor_USART_Get_TX_Cplt_Flag_def)
qed

lemma Send_Data_live:
  assumes "tx_live u" "0 < unat len" "unat len \<le> length msg"
  obtains u' where "Send_Data msg len u = Some u'" "tx_live u'" "\<not> gState_READY u'"
    "trace u' = trace u @ [EvTx (gState_READY u) (take (unat len) msg)]"
proof -
  have "tx_live (TX_ON u)" using assms(1) by (simp add: tx_live_def)
  then obtain v where v: "wait_TX_Cplt (TX_ON u) = Some v" "gState_READY v" "TX_Cplt_Flag v \<noteq> 0"
    "trace v = trace u" "RE_DE_pin v = gState_READY u"
    by (rule wait_TX_Cplt_live) simp
  have "len \<noteq> 0" using assms(2) by auto
  then show thesis
    using v assms(3)
    by (intro that [of "v\<lparr>TX_Cplt_Flag := 0, gState_READY := False,
           trace := trace u @ [EvTx (gState_READY u) (take (unat len) msg)]\<rparr>"])
      (simp_all add: Send_Data_def BSP_UART_Transmit_DMA_def Sensor_USART_Clear_TX_Cplt_Flag_def tx_live_def)
qed


section \<open>Properties\<close>

text \<open>C35.  Reception of one frame.  From a state between two frames, wherever in the circular
  buffer the last one ended, a frame of at most \<open>RECEIVE_SIZE\<close> bytes followed by the receiver
  time-out is reported exactly: \<open>Sensor_USART_GetReceData\<close> returns its length and has copied its
  bytes, in order and across the wrap-around, to the front of the caller's buffer, changing
  nothing behind them.  The port is again between two frames, so this holds of every
  sequence of such frames.\<close>

theorem rx_frame_received:
  assumes "rx_ready u" "length bs \<le> RECEIVE_SIZE" "length rb = RECEIVE_SIZE"
  shows "rx_ready (rx_timeout (rx_bytes bs u))
     \<and> RX_Updata_Flag (rx_timeout (rx_bytes bs u)) = 1
     \<and> Sensor_USART_GetReceData rb (rx_timeout (rx_bytes bs u))
         = Some (of_nat (length bs), bs @ drop (length bs) rb)"
  by (rule rx_frame [OF assms])

definition usart_reset :: usart where
  "usart_reset = \<lparr>RX_Len = 0, Used_RX_Len = 598, RX_OverRun_Flag = 0, TX_Cplt_Flag = 1,
     RX_Updata_Flag = 0, USART_Receive_Buf = replicate 600 0, RxXferSize = 600, DMA_Counter = 2,
     gState_READY = True, RE_DE_pin = False, uart_wl = UART_WORDLENGTH_8B,
     hw = \<lparr>CR1 = 0, CR2 = 0, RTOR = 0, RTOEN = False, RTOIE = False, TCIE = False,
           flag_RTO = False, flag_CM = False, flag_TC = False, flag_PE = False, flag_FE = False,
           flag_NE = False, flag_ORE = False\<rparr>, trace = []\<rparr>"

lemma rx_ready_reset: "rx_ready usart_reset"
  by (simp add: rx_ready_def usart_reset_def)

lemma rx_frame_received_witness:
  "Sensor_USART_GetReceData (replicate 600 7) (rx_timeout (rx_bytes [1, 2, 3, 4] usart_reset))
     = Some (4, [1, 2, 3, 4] @ replicate 596 7)"
  using rx_frame_received [OF rx_ready_reset, of "[1, 2, 3, 4]" "replicate 600 7"] by simp

text \<open>A frame that is longer than the buffer is dropped: as long as the DMA has wrapped
  around only once, \<open>Sensor_USART_GetReceData\<close> returns length 0 and leaves the caller's buffer
  alone.\<close>

theorem rx_frame_too_long:
  assumes "rx_ready u" "RECEIVE_SIZE < length bs" "unat (Used_RX_Len u) + length bs < 1200"
  shows "Sensor_USART_GetReceData rb (rx_timeout (rx_bytes bs u)) = Some (0, rb)
     \<and> rx_ready (rx_timeout (rx_bytes bs u))"
proof -
  have r: "receiving (unat (Used_RX_Len u)) bs (rx_bytes bs u)"
    using receiving_bytes [OF receiving_start [OF assms(1)], of bs] by simp
  show ?thesis
    using receiving_timeout(1,4) [OF r] assms(2,3) by (simp add: Sensor_USART_GetReceData_def Let_def)
qed

lemma rx_frame_too_long_witness:
  "Sensor_USART_GetReceData [9] (rx_timeout (rx_bytes (replicate 601 5) usart_reset)) = Some (0, [9])"
  using rx_frame_too_long [OF rx_ready_reset, of "replicate 601 5" "[9]"]
  by (simp add: usart_reset_def)

text \<open>\<open>Send_Data\<close> always returns, in every state in which the completion flag is set or a
  transmission runs, and leads to such a state again: its busy wait cannot hang.  The frame
  goes out with the RS-485 driver enabled exactly when no transmission was under way at the
  call: the driver is enabled before the wait, and the completion interrupt of the
  transmission waited for disables it again.\<close>

theorem send_data_progress:
  assumes "tx_live u" "0 < unat len" "unat len \<le> length msg"
  shows "\<exists>u'. Send_Data msg len u = Some u' \<and> tx_live u'
           \<and> trace u' = trace u @ [EvTx (gState_READY u) (take (unat len) msg)]"
  by (rule Send_Data_live [OF assms]) blast

lemma send_data_progress_witness:
  "\<exists>u'. Send_Data [1, 2, 3] 3 (usart_reset\<lparr>TX_Cplt_Flag := 0, gState_READY := False\<rparr>) = Some u'
     \<and> tx_live u' \<and> trace u' = [EvTx False [1, 2, 3]]"
  using send_data_progress [of "usart_reset\<lparr>TX_Cplt_Flag := 0, gState_READY := False\<rparr>" 3 "[1, 2, 3]"]
  by (simp add: tx_live_def usart_reset_def)

end
