(* ===== verification/Float32.thy ===== *)
theory Float32
  imports Prelude Complex_Main "HOL-Library.Log_Nat"
begin

text \<open>
  The C types \<open>float\<close> and \<open>double\<close> as IEEE-754 binary32 and binary64 with round to nearest,
  ties to even, which is what the soft-float library of the compiler computes.  A value is a
  rational, an infinity or a NaN; the sign of a zero is not kept, no operation of the sources
  depends on it.  Every arithmetic operation is the exact rational one followed by
  \<open>fl_round\<close>.  Bit patterns appear where the sources take them apart (\<open>f32_bits\<close>) or build
  them (\<open>f32_val\<close>).
\<close>

datatype fval = Fin rat | Inf bool | NaN

section \<open>Rounding\<close>

text \<open>The exponent of a positive rational: \<open>2 powi e \<le> x < 2 powi (e + 1)\<close>.\<close>

definition floor_log2 :: "rat \<Rightarrow> int" where
  "floor_log2 x =
     (let (a, b) = quotient_of x; k = bitlen a - bitlen b
      in if 2 powi k \<le> x then k else k - 1)"

text \<open>Nearest integer, ties to even.\<close>

definition rne :: "rat \<Rightarrow> int" where
  "rne m = (let f = \<lfloor>m\<rfloor>; d = m - of_int f in
            if d < 1 / 2 then f else if d > 1 / 2 then f + 1 else if even f then f else f + 1)"

text \<open>\<open>p\<close> bits of precision, least exponent \<open>qmin\<close> of a unit in the last place, overflow from
  \<open>2 powi emax\<close> on.\<close>

definition fl_quantum :: "int \<Rightarrow> int \<Rightarrow> rat \<Rightarrow> int" where
  "fl_quantum p qmin x = max (floor_log2 \<bar>x\<bar> - (p - 1)) qmin"

definition fl_round :: "int \<Rightarrow> int \<Rightarrow> int \<Rightarrow> rat \<Rightarrow> fval" where
  "fl_round p qmin emax x =
     (if x = 0 then Fin 0
      else let q = fl_quantum p qmin x; r = of_int (rne (x / 2 powi q)) * 2 powi q
           in if 2 powi emax \<le> \<bar>r\<bar> then Inf (x < 0) else Fin r)"

definition f32 :: "rat \<Rightarrow> fval" where "f32 = fl_round 24 (- 149) 128"
definition f64 :: "rat \<Rightarrow> fval" where "f64 = fl_round 53 (- 1074) 1024"

section \<open>Operations\<close>

text \<open>The first argument is the rounding of the result type, \<open>f32\<close> or \<open>f64\<close>.\<close>

fun f_round :: "(rat \<Rightarrow> fval) \<Rightarrow> fval \<Rightarrow> fval" where
  "f_round rnd (Fin r) = rnd r"
| "f_round rnd v = v"

fun f_add :: "(rat \<Rightarrow> fval) \<Rightarrow> fval \<Rightarrow> fval \<Rightarrow> fval" where
  "f_add rnd (Fin a) (Fin b) = rnd (a + b)"
| "f_add rnd NaN y = NaN"
| "f_add rnd x NaN = NaN"
| "f_add rnd (Inf s) (Inf t) = (if s = t then Inf s else NaN)"
| "f_add rnd (Inf s) (Fin b) = Inf s"
| "f_add rnd (Fin a) (Inf t) = Inf t"

fun f_neg :: "fval \<Rightarrow> fval" where
  "f_neg (Fin a) = Fin (- a)"
| "f_neg (Inf s) = Inf (\<not> s)"
| "f_neg NaN = NaN"

definition f_sub :: "(rat \<Rightarrow> fval) \<Rightarrow> fval \<Rightarrow> fval \<Rightarrow> fval" where
  "f_sub rnd x y = f_add rnd x (f_neg y)"

fun f_mul :: "(rat \<Rightarrow> fval) \<Rightarrow> fval \<Rightarrow> fval \<Rightarrow> fval" where
  "f_mul rnd (Fin a) (Fin b) = rnd (a * b)"
| "f_mul rnd NaN y = NaN"
| "f_mul rnd x NaN = NaN"
| "f_mul rnd (Inf s) (Inf t) = Inf (s \<noteq> t)"
| "f_mul rnd (Inf s) (Fin b) = (if b = 0 then NaN else Inf (s \<noteq> (b < 0)))"
| "f_mul rnd (Fin a) (Inf t) = (if a = 0 then NaN else Inf ((a < 0) \<noteq> t))"

fun f_div :: "(rat \<Rightarrow> fval) \<Rightarrow> fval \<Rightarrow> fval \<Rightarrow> fval" where
  "f_div rnd (Fin a) (Fin b) =
     (if b = 0 then (if a = 0 then NaN else Inf (a < 0)) else rnd (a / b))"
| "f_div rnd NaN y = NaN"
| "f_div rnd x NaN = NaN"
| "f_div rnd (Inf s) (Inf t) = NaN"
| "f_div rnd (Inf s) (Fin b) = Inf (s \<noteq> (b < 0))"
| "f_div rnd (Fin a) (Inf t) = Fin 0"

text \<open>Comparisons are false on NaN.\<close>

fun f_less :: "fval \<Rightarrow> fval \<Rightarrow> bool" where
  "f_less (Fin a) (Fin b) \<longleftrightarrow> a < b"
| "f_less (Inf s) (Inf t) \<longleftrightarrow> s \<and> \<not> t"
| "f_less (Inf s) (Fin b) \<longleftrightarrow> s"
| "f_less (Fin a) (Inf t) \<longleftrightarrow> \<not> t"
| "f_less x y \<longleftrightarrow> False"

definition f_le :: "fval \<Rightarrow> fval \<Rightarrow> bool" where
  "f_le x y \<longleftrightarrow> f_less x y \<or> (x = y \<and> x \<noteq> NaN)"

text \<open>Conversion to an unsigned integer of \<open>w\<close> bits: truncation, undefined when the truncated
  value does not fit.\<close>

fun f_to_uint :: "nat \<Rightarrow> fval \<Rightarrow> int option" where
  "f_to_uint w (Fin r) =
     (if - 1 < r \<and> r < 2 ^ w then Some (if r < 0 then 0 else \<lfloor>r\<rfloor>) else None)"
| "f_to_uint w v = None"

definition f_to_u16 :: "fval \<Rightarrow> u16 option" where
  "f_to_u16 v = map_option word_of_int (f_to_uint 16 v)"

definition f_to_u32 :: "fval \<Rightarrow> u32 option" where
  "f_to_u32 v = map_option word_of_int (f_to_uint 32 v)"

text \<open>Conversion from integers to \<open>float\<close>.\<close>

definition f_of_int :: "int \<Rightarrow> fval" where "f_of_int n = f32 (of_int n)"

section \<open>Bit patterns\<close>

definition f32_val :: "u32 \<Rightarrow> fval" where
  "f32_val w =
     (let n = uint w; neg = (n div 2 ^ 31 = 1); ex = n div 2 ^ 23 mod 256; m = n mod 2 ^ 23;
          sgn = (if neg then - 1 else 1)
      in if ex = 255 then (if m = 0 then Inf neg else NaN)
         else if ex = 0 then Fin (sgn * of_int m * 2 powi (- 149))
         else Fin (sgn * of_int (2 ^ 23 + m) * 2 powi (ex - 150)))"

definition f32_bits :: "fval \<Rightarrow> u32" where
  "f32_bits v = (case v of
       NaN \<Rightarrow> 0x7FC00000
     | Inf s \<Rightarrow> (if s then 0xFF800000 else 0x7F800000)
     | Fin r \<Rightarrow>
         if r = 0 then 0
         else let q = fl_quantum 24 (- 149) r;
                  m = \<lfloor>\<bar>r\<bar> / 2 powi q\<rfloor>;
                  s = (if r < 0 then 2 ^ 31 else 0)
              in word_of_int (s + (if m < 2 ^ 23 then m else (q + 149) * 2 ^ 23 + m)))"


section \<open>Exponents\<close>

lemma powi_mono: "k \<le> l \<Longrightarrow> (2 :: rat) powi k \<le> 2 powi l"
  by (rule power_int_increasing) simp_all

lemma powi_less_iff: "(2 :: rat) powi k < 2 powi l \<longleftrightarrow> k < l"
  by (meson linorder_not_le powi_mono power_int_strict_increasing one_less_numeral_iff
      semiring_norm(76))

lemma powi_nat: "0 \<le> k \<Longrightarrow> (2 :: rat) powi k = of_int (2 ^ nat k)"
  by (simp add: power_int_def)

lemma bitlen_rat:
  assumes "0 < a"
  shows "(2 :: rat) powi (bitlen a - 1) \<le> of_int a" "of_int a < (2 :: rat) powi (bitlen a)"
proof -
  have b: "2 ^ nat (bitlen a - 1) \<le> a" "a < 2 ^ nat (bitlen a)" "0 < bitlen a"
    using bitlen_bounds [OF assms] assms bitlen_nonneg [of a] bitlen_eq_zero_iff [of a] by auto
  have "(2 :: rat) powi (bitlen a - 1) = of_int (2 ^ nat (bitlen a - 1))"
    using b(3) by (intro powi_nat) simp
  then show "(2 :: rat) powi (bitlen a - 1) \<le> of_int a" using b(1) by (simp only: of_int_le_iff)
  have "(2 :: rat) powi (bitlen a) = of_int (2 ^ nat (bitlen a))"
    using b(3) by (intro powi_nat) simp
  then show "of_int a < (2 :: rat) powi (bitlen a)" using b(2) by (simp only: of_int_less_iff)
qed

lemma floor_log2_bounds:
  assumes "0 < x"
  shows "2 powi (floor_log2 x) \<le> x" "x < 2 powi (floor_log2 x + 1)"
proof -
  obtain a b where ab: "quotient_of x = (a, b)" by fastforce
  have b: "0 < b" using quotient_of_denom_pos [OF ab] .
  have x: "x = of_int a / of_int b" using quotient_of_div [OF ab] by (simp add: Fract_of_int_quotient)
  have a: "0 < a" using assms b x by (simp add: zero_less_divide_iff)
  define k where "k = bitlen a - bitlen b"
  have "x < 2 powi (bitlen a) / 2 powi (bitlen b - 1)"
    unfolding x using bitlen_rat [OF a] bitlen_rat [OF b] a b
    by (intro frac_less) (auto simp: zero_less_power_int)
  also have "\<dots> = 2 powi (k + 1)"
    by (simp add: k_def power_int_diff power_int_add)
  finally have up: "x < 2 powi (k + 1)" .
  have "2 powi (k - 1) = (2 :: rat) powi (bitlen a - 1) / 2 powi (bitlen b)"
    by (simp add: k_def power_int_diff power_int_add)
  also have "\<dots> \<le> x"
    unfolding x using bitlen_rat [OF a] bitlen_rat [OF b] a b
    by (intro frac_le) (auto simp: zero_less_power_int)
  finally have low: "2 powi (k - 1) \<le> x" .
  show "2 powi (floor_log2 x) \<le> x" "x < 2 powi (floor_log2 x + 1)"
    using up low by (auto simp: floor_log2_def ab Let_def k_def [symmetric])
qed

lemma floor_log2_unique:
  assumes "2 powi e \<le> x" "x < 2 powi (e + 1)"
  shows "floor_log2 x = e"
proof -
  have "0 < (2 :: rat) powi e" by (simp add: zero_less_power_int)
  then have "0 < x" using assms(1) by linarith
  note b = floor_log2_bounds [OF this]
  have "2 powi (floor_log2 x) < (2 :: rat) powi (e + 1)" "2 powi e < (2 :: rat) powi (floor_log2 x + 1)"
    using b assms by (auto intro: le_less_trans)
  then show ?thesis by (simp add: powi_less_iff)
qed

lemma fl_quantum_le:
  assumes "x \<noteq> 0" "\<bar>x\<bar> < 2 powi (p + k)" "qmin \<le> k"
  shows "fl_quantum p qmin x \<le> k"
proof -
  have "2 powi (floor_log2 \<bar>x\<bar>) < (2 :: rat) powi (p + k)"
    using floor_log2_bounds(1) [of "\<bar>x\<bar>"] assms(1,2) by (simp add: le_less_trans)
  then show ?thesis using assms(3) by (simp add: fl_quantum_def powi_less_iff)
qed

section \<open>Rounding to an integer\<close>

lemma rne_of_int [simp]: "rne (of_int n) = n"
  by (simp add: rne_def)

lemma rne_le: "m \<le> of_int n \<Longrightarrow> rne m \<le> n"
proof -
  assume m: "m \<le> of_int n"
  show ?thesis
  proof (cases "m = of_int n")
    case False
    then have "\<lfloor>m\<rfloor> < n" using m by (simp add: floor_less_iff)
    then show ?thesis by (auto simp: rne_def Let_def)
  qed simp
qed

lemma rne_ge: "of_int n \<le> m \<Longrightarrow> n \<le> rne m"
  by (auto simp: rne_def Let_def le_floor_iff intro: add_increasing2)

lemma rne_close: "\<bar>of_int (rne m) - m\<bar> \<le> 1 / 2"
  using floor_correct [of m] by (auto simp: rne_def Let_def abs_le_iff)


section \<open>Bounds of a rounded value\<close>

lemma fl_round_bounds:
  assumes lo: "of_int l \<le> x" and hi: "x \<le> of_int h"
    and small: "\<bar>l\<bar> < 2 ^ nat p" "\<bar>h\<bar> < 2 ^ nat p" and p: "0 \<le> p" "qmin \<le> 0" "p \<le> emax"
  shows "\<exists>r. fl_round p qmin emax x = Fin r \<and> of_int l \<le> r \<and> r \<le> of_int h"
proof (cases "x = 0")
  case True
  then show ?thesis using lo hi by (simp add: fl_round_def)
next
  case False
  define q where "q = fl_quantum p qmin x"
  define s where "s = (2 :: int) ^ nat (- q)"
  have P: "(2 :: rat) powi (p + 0) = of_int (2 ^ nat p)" using p(1) powi_nat [of p] by simp
  have "\<bar>x\<bar> < of_int (2 ^ nat p)"
  proof -
    have "x < of_int (2 ^ nat p)" using hi small(2) by (meson abs_less_iff le_less_trans of_int_less_iff)
    moreover have "- of_int (2 ^ nat p) < x"
      using lo small(1) by (metis abs_less_iff less_le_trans minus_less_iff of_int_less_iff of_int_minus)
    ultimately show ?thesis by (simp add: abs_less_iff)
  qed
  then have q: "q \<le> 0"
    unfolding q_def using False p(2) by (intro fl_quantum_le) (simp_all add: P [simplified])
  have inv: "(2 :: rat) powi q = 1 / of_int s"
    using q by (simp add: s_def power_int_def power_inverse field_simps)
  have s: "0 < (of_int s :: rat)" by (simp add: s_def)
  define m where "m = rne (x / 2 powi q)"
  have "x / 2 powi q \<le> of_int (h * s)" "of_int (l * s) \<le> x / 2 powi q"
    using lo hi s by (simp_all add: inv mult_right_mono)
  then have "m \<le> h * s" "l * s \<le> m" by (simp_all add: m_def rne_le rne_ge)
  then have "of_int m \<le> (of_int (h * s) :: rat)" "(of_int (l * s) :: rat) \<le> of_int m"
    by (simp_all only: of_int_le_iff)
  then have b: "of_int m * 2 powi q \<le> (of_int h :: rat)" "of_int l \<le> (of_int m * 2 powi q :: rat)"
    using s by (simp_all add: inv divide_le_eq le_divide_eq mult.commute)
  have "\<bar>of_int m * 2 powi q\<bar> < (2 :: rat) powi emax"
  proof -
    have "\<bar>of_int m * 2 powi q\<bar> < (of_int (2 ^ nat p) :: rat)"
    proof -
      have "of_int m * 2 powi q < (of_int (2 ^ nat p) :: rat)"
        using b(1) small(2) by (meson abs_less_iff le_less_trans of_int_less_iff)
      moreover have "- of_int (2 ^ nat p) < (of_int m * 2 powi q :: rat)"
        using b(2) small(1) by (metis abs_less_iff less_le_trans minus_less_iff of_int_less_iff of_int_minus)
      ultimately show ?thesis by (simp add: abs_less_iff)
    qed
    also have "\<dots> \<le> 2 powi emax" using P powi_mono [OF p(3)] by simp
    finally show ?thesis .
  qed
  then have "fl_round p qmin emax x = Fin (of_int m * 2 powi q)"
    using False by (auto simp: fl_round_def Let_def q_def [symmetric] m_def [symmetric])
  then show ?thesis using b by blast
qed

lemma f32_bounds:
  assumes "of_int l \<le> x" "x \<le> of_int h" "\<bar>l\<bar> < 16777216" "\<bar>h\<bar> < 16777216"
  obtains r where "f32 x = Fin r" "of_int l \<le> r" "r \<le> of_int h"
  using fl_round_bounds [OF assms(1,2), of 24 "- 149" 128] assms(3,4) by (auto simp: f32_def)

text \<open>The integers up to \<open>2 ^ 24\<close> are represented exactly.\<close>

lemma f_of_int_exact: "\<bar>n\<bar> < 16777216 \<Longrightarrow> f_of_int n = Fin (of_int n)"
  by (rule f32_bounds [of n "of_int n" n]) (auto simp: f_of_int_def)

lemma f32_exact_int: "\<bar>n\<bar> < 16777216 \<Longrightarrow> f32 (of_int n) = Fin (of_int n)"
  using f_of_int_exact by (simp add: f_of_int_def)

lemma uint_u16: "0 \<le> uint (w :: u16)" "uint (w :: u16) < 65536"
  using uint_ge_0 [of w] uint_bounded [of w] by simp_all

lemma f_of_u16 [simp]: "f_of_int (uint (w :: u16)) = Fin (of_int (uint w))"
  using uint_u16 [of w] by (intro f_of_int_exact) simp

text \<open>Truncation of a value between two integers of the target type.\<close>

lemma f_to_uint_bounds:
  assumes "of_int l \<le> r" "r \<le> of_int h" "0 \<le> l" "h < 2 ^ w"
  obtains n where "f_to_uint w (Fin r) = Some n" "l \<le> n" "n \<le> h"
proof -
  have "0 \<le> r" using assms(1,3) by (meson of_int_0_le_iff order_trans)
  moreover have "r < 2 ^ w" using assms(2,4)
    by (metis le_less_trans of_int_less_iff of_int_numeral of_int_power)
  moreover have "l \<le> \<lfloor>r\<rfloor>" using assms(1) by (simp add: le_floor_iff)
  moreover have "\<lfloor>r\<rfloor> \<le> h" using assms(2) by (metis floor_mono floor_of_int)
  ultimately show thesis by (intro that [of "\<lfloor>r\<rfloor>"]) auto
qed


section \<open>Monotonicity\<close>

lemma rne_mono: "m \<le> n \<Longrightarrow> rne m \<le> rne n"
proof -
  assume mn: "m \<le> n"
  then have fl: "\<lfloor>m\<rfloor> \<le> \<lfloor>n\<rfloor>" by (rule floor_mono)
  show ?thesis
  proof (cases "\<lfloor>m\<rfloor> = \<lfloor>n\<rfloor>")
    case True
    then show ?thesis using mn by (auto simp: rne_def Let_def)
  next
    case False
    then have "\<lfloor>m\<rfloor> + 1 \<le> \<lfloor>n\<rfloor>" using fl by simp
    moreover have "rne m \<le> \<lfloor>m\<rfloor> + 1" "\<lfloor>n\<rfloor> \<le> rne n" by (auto simp: rne_def Let_def)
    ultimately show ?thesis by linarith
  qed
qed

lemma floor_log2_mono: "0 < x \<Longrightarrow> x \<le> y \<Longrightarrow> floor_log2 x \<le> floor_log2 y"
proof -
  assume x: "0 < x" "x \<le> y"
  have "2 powi (floor_log2 x) < (2 :: rat) powi (floor_log2 y + 1)"
    using floor_log2_bounds(1) [OF x(1)] floor_log2_bounds(2) [of y] x by linarith
  then show ?thesis by (simp add: powi_less_iff)
qed

lemma fl_round_mono:
  assumes xy: "0 \<le> x" "x \<le> y" and p: "1 \<le> p" and y: "fl_round p qmin emax y = Fin s"
  shows "\<exists>r. fl_round p qmin emax x = Fin r \<and> 0 \<le> r \<and> r \<le> s"
proof (cases "x = 0")
  case True
  have "0 \<le> rne (y / 2 powi fl_quantum p qmin y)"
    by (rule rne_ge) (use xy in \<open>simp add: zero_le_divide_iff zero_le_power_int\<close>)
  then have "0 \<le> s"
    using y by (auto simp: fl_round_def Let_def zero_le_power_int split: if_splits)
  then show ?thesis using True by (simp add: fl_round_def)
next
  case False
  then have pos: "0 < x" "0 < y" using xy by auto
  define q where "q = fl_quantum p qmin x"
  define q' where "q' = fl_quantum p qmin y"
  define e' where "e' = floor_log2 y"
  have P: "0 < (2 :: rat) powi k" for k by (simp add: zero_less_power_int)
  have s: "s = of_int (rne (y / 2 powi q')) * 2 powi q'" "\<bar>s\<bar> < 2 powi emax"
    using y pos by (auto simp: fl_round_def Let_def q'_def [symmetric] not_le split: if_splits)
  define r where "r = (of_int (rne (x / 2 powi q)) * 2 powi q :: rat)"
  have "0 \<le> rne (x / 2 powi q)"
    by (rule rne_ge) (use xy P in \<open>simp add: zero_le_divide_iff less_imp_le\<close>)
  then have r0: "0 \<le> r" using P by (simp add: r_def less_imp_le)
  have qq: "q \<le> q'"
    using floor_log2_mono [OF pos(1) xy(2)] pos by (auto simp: q_def q'_def fl_quantum_def)
  have "r \<le> s"
  proof (cases "q = q'")
    case True
    have "x / 2 powi q' \<le> y / 2 powi q'" using xy(2) P by (simp add: divide_right_mono less_imp_le)
    then have "of_int (rne (x / 2 powi q')) \<le> (of_int (rne (y / 2 powi q')) :: rat)"
      using rne_mono by (simp only: of_int_le_iff)
    then show ?thesis
      using True P by (simp add: r_def s mult_right_mono less_imp_le)
  next
    case False
    then have lt: "q < q'" using qq by simp
    have "qmin \<le> q" by (simp add: q_def fl_quantum_def)
    then have q': "q' = e' - (p - 1)" using lt pos by (auto simp: q'_def fl_quantum_def e'_def max_def split: if_splits)
    have "floor_log2 x - (p - 1) \<le> q" using pos by (simp add: q_def fl_quantum_def)
    then have ex: "floor_log2 x + 1 \<le> e'" using lt q' by linarith
    have "x \<le> 2 powi (floor_log2 x + 1)" using floor_log2_bounds(2) [OF pos(1)] by simp
    also have "\<dots> \<le> 2 powi e'" by (rule powi_mono [OF ex])
    also have "2 powi e' = of_int (2 ^ nat (e' - q)) * (2 :: rat) powi q"
      using lt q' p by (simp add: powi_nat [symmetric] power_int_add [symmetric] del: of_int_power of_int_numeral)
    finally have "x / 2 powi q \<le> of_int (2 ^ nat (e' - q))" using P by (simp only: divide_le_eq) simp
    then have "rne (x / 2 powi q) \<le> 2 ^ nat (e' - q)" by (rule rne_le)
    then have "of_int (rne (x / 2 powi q)) \<le> (of_int (2 ^ nat (e' - q)) :: rat)" by (simp only: of_int_le_iff)
    then have "r \<le> of_int (2 ^ nat (e' - q)) * 2 powi q"
      unfolding r_def using P by (intro mult_right_mono) (auto simp: less_imp_le)
    also have "\<dots> = 2 powi e'"
      using lt q' p by (simp add: powi_nat [symmetric] power_int_add [symmetric] del: of_int_power of_int_numeral)
    also have "\<dots> = of_int (2 ^ nat (e' - q')) * 2 powi q'"
      using q' p by (simp add: powi_nat [symmetric] power_int_add [symmetric] del: of_int_power of_int_numeral)
    also have "\<dots> \<le> s"
    proof -
      have "of_int (2 ^ nat (e' - q')) * 2 powi q' = (2 :: rat) powi e'"
        using q' p by (simp add: powi_nat [symmetric] power_int_add [symmetric] del: of_int_power of_int_numeral)
      also have "\<dots> \<le> y" using floor_log2_bounds(1) [OF pos(2)] by (simp add: e'_def)
      finally have "of_int (2 ^ nat (e' - q')) \<le> y / 2 powi q'" using P by (simp only: le_divide_eq) simp
      then have "2 ^ nat (e' - q') \<le> rne (y / 2 powi q')" by (rule rne_ge)
      then have "of_int (2 ^ nat (e' - q')) \<le> (of_int (rne (y / 2 powi q')) :: rat)" by (simp only: of_int_le_iff)
      then show ?thesis unfolding s using P by (intro mult_right_mono) (auto simp: less_imp_le)
    qed
    finally show ?thesis .
  qed
  then have "\<bar>r\<bar> < 2 powi emax" using r0 s(2) by linarith
  then have "fl_round p qmin emax x = Fin r"
    using False by (auto simp: fl_round_def Let_def q_def [symmetric] r_def)
  then show ?thesis using r0 \<open>r \<le> s\<close> by blast
qed

lemma f32_mono:
  assumes "0 \<le> x" "x \<le> y" "f32 y = Fin s"
  obtains r where "f32 x = Fin r" "0 \<le> r" "r \<le> s"
  using fl_round_mono [OF assms(1,2) _ assms(3) [unfolded f32_def]] by (auto simp: f32_def)

lemma f32_two_32: "f32 4294967296 = Fin 4294967296"
  by code_simp

lemma f_of_int_finite:
  assumes "0 \<le> n" "n < 4294967296"
  obtains r where "f_of_int n = Fin r" "0 \<le> r"
  using f32_mono [of "of_int n" 4294967296, OF _ _ f32_two_32] assms by (auto simp: f_of_int_def)

lemma f_of_int_mono:
  assumes "0 \<le> m" "m \<le> n" "n < 4294967296"
  obtains r s where "f_of_int m = Fin r" "f_of_int n = Fin s" "0 \<le> r" "r \<le> s"
proof -
  obtain s where s: "f_of_int n = Fin s" using f_of_int_finite assms by (metis order_trans)
  have "f32 (of_int n) = Fin s" using s by (simp add: f_of_int_def)
  then obtain r where "f32 (of_int m) = Fin r" "0 \<le> r" "r \<le> s"
    using f32_mono [of "of_int m" "of_int n" s] assms(1,2) by auto
  then show thesis using that s by (simp add: f_of_int_def)
qed

section \<open>Encoding\<close>

lemma powi_split: "l \<le> k \<Longrightarrow> (2 :: rat) powi k = of_int (2 ^ nat (k - l)) * 2 powi l"
  by (simp add: powi_nat [symmetric] power_int_add [symmetric] del: of_int_power of_int_numeral)

text \<open>The significand of a value on the grid of some exponent is an integer.\<close>

lemma f32_significand:
  assumes r: "r = of_int k * 2 powi q0" "r \<noteq> 0" "\<bar>k\<bar> \<le> 2 ^ 24" "- 149 \<le> q0" "\<bar>r\<bar> < 2 powi 128"
  defines "q \<equiv> fl_quantum 24 (- 149) r"
  obtains m where "\<bar>r\<bar> = of_int m * 2 powi q" "0 < m" "m < 2 ^ 24" "2 ^ 23 \<le> m \<or> q = - 149"
    "- 149 \<le> q" "q \<le> 104"
proof -
  have grid: "\<exists>k' q'. \<bar>r\<bar> = of_int k' * 2 powi q' \<and> q \<le> q'"
  proof (cases "\<bar>k\<bar> = 2 ^ 24")
    case True
    have "\<bar>r\<bar> = of_int \<bar>k\<bar> * 2 powi q0" by (simp add: r(1) abs_mult)
    then have *: "\<bar>r\<bar> = of_int (2 ^ 23) * 2 powi (q0 + 1)"
      unfolding True by (simp add: power_int_add)
    have "\<bar>r\<bar> < 2 powi (24 + (q0 + 1))" unfolding * by (simp add: power_int_add)
    then have "q \<le> q0 + 1" unfolding q_def using r(2,4) by (intro fl_quantum_le) auto
    with * show ?thesis by blast
  next
    case False
    have *: "\<bar>r\<bar> = of_int \<bar>k\<bar> * 2 powi q0" by (simp add: r(1) abs_mult)
    have "of_int \<bar>k\<bar> < (of_int (2 ^ 24) :: rat)" using False r(3) by (simp only: of_int_less_iff)
    then have "\<bar>r\<bar> < of_int (2 ^ 24) * 2 powi q0"
      unfolding * by (intro mult_strict_right_mono) (simp_all add: zero_less_power_int)
    then have "\<bar>r\<bar> < 2 powi (24 + q0)" by (simp add: power_int_add)
    then have "q \<le> q0" unfolding q_def using r(2,4) by (intro fl_quantum_le) auto
    with * show ?thesis by blast
  qed
  then obtain k' q' where k': "\<bar>r\<bar> = of_int k' * 2 powi q'" "q \<le> q'" by blast
  define m where "m = k' * 2 ^ nat (q' - q)"
  have m: "\<bar>r\<bar> = of_int m * 2 powi q"
    by (simp add: k'(1) m_def powi_split [OF k'(2)])
  have pos: "0 < (2 :: rat) powi q" by (simp add: zero_less_power_int)
  define e where "e = floor_log2 \<bar>r\<bar>"
  have e: "2 powi e \<le> \<bar>r\<bar>" "\<bar>r\<bar> < 2 powi (e + 1)"
    using floor_log2_bounds [of "\<bar>r\<bar>"] r(2) by (simp_all add: e_def)
  have q: "q = max (e - 23) (- 149)" by (simp add: q_def fl_quantum_def e_def)
  have "2 powi e < (2 :: rat) powi 128" using e(1) r(5) by (rule le_less_trans)
  then have "e < 128" by (simp only: powi_less_iff)
  have "(0 :: rat) < of_int m" using m r(2) pos by (metis zero_less_abs_iff zero_less_mult_pos2)
  moreover have "of_int m < (of_int (2 ^ 24) :: rat)"
  proof -
    have "of_int m * 2 powi q < (2 :: rat) powi (e + 1)" using e(2) m by simp
    also have "\<dots> \<le> 2 powi (24 + q)" by (intro powi_mono) (simp add: q)
    also have "\<dots> = of_int (2 ^ 24) * 2 powi q" by (simp add: power_int_add)
    finally show ?thesis using pos by (simp only: mult_less_cancel_right_pos)
  qed
  moreover have "q = - 149 \<or> of_int (2 ^ 23) \<le> (of_int m :: rat)"
  proof (cases "q = - 149")
    case that: False
    have "of_int (2 ^ 23) * 2 powi q = (2 :: rat) powi (23 + q)" by (simp add: power_int_add)
    also have "\<dots> = 2 powi e" using that by (simp add: q max_def split: if_splits)
    also have "\<dots> \<le> of_int m * 2 powi q" using e(1) m by simp
    finally have "of_int (2 ^ 23) \<le> (of_int m :: rat)" using pos by (simp only: mult_le_cancel_right_pos)
    then show ?thesis ..
  qed simp
  ultimately have "0 < m" "m < 2 ^ 24" "q = - 149 \<or> 2 ^ 23 \<le> m"
    by (simp_all only: of_int_less_iff of_int_le_iff of_int_0_less_iff)
  then show thesis
    using m \<open>e < 128\<close> q by (intro that [of m]) auto
qed

lemma uint_word_of_int_id: "0 \<le> n \<Longrightarrow> n < 2 ^ 32 \<Longrightarrow> uint (word_of_int n :: u32) = n"
  by (simp add: unsigned_of_int take_bit_int_eq_self)

lemma f32_val_fields:
  assumes "0 \<le> fr" "fr < 2 ^ 23" "0 \<le> ex" "ex < 255"
  shows "f32_val (word_of_int ((if s then 2 ^ 31 else 0) + ex * 2 ^ 23 + fr))
    = Fin ((if s then - 1 else 1) * (if ex = 0 then of_int fr * 2 powi (- 149)
                                     else of_int (2 ^ 23 + fr) * 2 powi (ex - 150)))"
proof -
  define n where "n = (if s then 2 ^ 31 else 0) + ex * 2 ^ 23 + fr"
  have "0 \<le> n" "n < 2 ^ 32" using assms by (auto simp: n_def)
  then have u: "uint (word_of_int n :: u32) = n" by (simp add: uint_word_of_int_id)
  have "n div 2 ^ 31 = (if s then 1 else 0)" using assms by (auto simp: n_def)
  moreover have "n div 2 ^ 23 = (if s then 256 else 0) + ex" using assms by (auto simp: n_def)
  then have "n div 2 ^ 23 mod 256 = ex" using assms(3,4) by auto
  moreover have "n mod 2 ^ 23 = fr"
  proof -
    have "n = fr + ((if s then 256 else 0) + ex) * 2 ^ 23" by (simp add: n_def)
    then show ?thesis using assms(1,2) by (simp only: mod_mult_self1) simp
  qed
  ultimately show ?thesis
    using assms(4) unfolding f32_val_def n_def [symmetric] u Let_def by auto
qed


text \<open>A value that a \<open>float\<close> computation has produced.\<close>

lemma f32_grid:
  assumes "f32 x = Fin r" "x \<noteq> 0"
  obtains k q where "r = of_int k * 2 powi q" "\<bar>k\<bar> \<le> 2 ^ 24" "- 149 \<le> q" "\<bar>r\<bar> < 2 powi 128"
proof -
  define q where "q = fl_quantum 24 (- 149) x"
  define k where "k = rne (x / 2 powi q)"
  have r: "r = of_int k * 2 powi q" "\<bar>r\<bar> < 2 powi 128"
    using assms by (auto simp: f32_def fl_round_def Let_def q_def [symmetric] k_def [symmetric]
        not_le split: if_splits)
  have pos: "0 < (2 :: rat) powi q" by (simp add: zero_less_power_int)
  have "\<bar>x\<bar> < 2 powi (floor_log2 \<bar>x\<bar> + 1)" using floor_log2_bounds [of "\<bar>x\<bar>"] assms(2) by simp
  also have "\<dots> \<le> 2 powi (24 + q)" by (intro powi_mono) (simp add: q_def fl_quantum_def)
  also have "\<dots> = of_int (2 ^ 24) * 2 powi q" by (simp add: power_int_add)
  finally have "x \<le> of_int (2 ^ 24) * 2 powi q" "- of_int (2 ^ 24) * 2 powi q \<le> x"
    by (auto simp: abs_le_iff)
  then have "x / 2 powi q \<le> of_int (2 ^ 24)" "of_int (- (2 ^ 24)) \<le> x / 2 powi q"
    using pos by (simp_all add: divide_le_eq le_divide_eq)
  then have "k \<le> 2 ^ 24" "- (2 ^ 24) \<le> k" unfolding k_def by (blast intro: rne_le rne_ge)+
  then have "\<bar>k\<bar> \<le> 2 ^ 24" by simp
  moreover have "- 149 \<le> q" by (simp add: q_def fl_quantum_def)
  ultimately show thesis using r that by blast
qed

lemma f32_val_bits:
  assumes "f32 x = Fin r"
  shows "f32_val (f32_bits (Fin r)) = Fin r"
proof (cases "r = 0")
  case True
  then show ?thesis by (simp add: f32_bits_def f32_val_def)
next
  case False
  then have "x \<noteq> 0" using assms by (auto simp: f32_def fl_round_def)
  then obtain k q0 where k: "r = of_int k * 2 powi q0" "\<bar>k\<bar> \<le> 2 ^ 24" "- 149 \<le> q0" "\<bar>r\<bar> < 2 powi 128"
    using f32_grid assms by blast
  define q where "q = fl_quantum 24 (- 149) r"
  obtain m where m: "\<bar>r\<bar> = of_int m * 2 powi q" "0 < m" "m < 2 ^ 24" "2 ^ 23 \<le> m \<or> q = - 149"
    "- 149 \<le> q" "q \<le> 104"
    using f32_significand [OF k(1) False k(2-4)] unfolding q_def by blast
  have pos: "0 < (2 :: rat) powi q" by (simp add: zero_less_power_int)
  then have fl: "\<lfloor>\<bar>r\<bar> / 2 powi q\<rfloor> = m" by (simp add: m(1))
  have sgn: "r = (if r < 0 then - 1 else 1) * \<bar>r\<bar>" by simp
  have bits: "f32_bits (Fin r) = word_of_int ((if r < 0 then 2 ^ 31 else 0)
      + (if m < 2 ^ 23 then m else (q + 149) * 2 ^ 23 + m))"
    using False unfolding f32_bits_def by (simp only: fval.case if_False Let_def q_def [symmetric] fl)
  show ?thesis
  proof (cases "m < 2 ^ 23")
    case True
    then have q: "q = - 149" using m(4) by simp
    have "f32_bits (Fin r) = word_of_int ((if r < 0 then 2 ^ 31 else 0) + 0 * 2 ^ 23 + m)"
      unfolding bits using True by simp
    then show ?thesis
      using f32_val_fields [of m 0 "r < 0"] m(2) True sgn m(1) q by (simp only: refl if_True)
  next
    case False
    have "f32_bits (Fin r) = word_of_int ((if r < 0 then 2 ^ 31 else 0) + (q + 150) * 2 ^ 23 + (m - 2 ^ 23))"
      unfolding bits using False by (intro arg_cong [of _ _ word_of_int]) simp
    moreover have "f32_val \<dots> = Fin ((if r < 0 then - 1 else 1) * (of_int m * 2 powi q))"
      using f32_val_fields [of "m - 2 ^ 23" "q + 150" "r < 0"] m(3,5,6) False by simp
    ultimately show ?thesis using sgn m(1) by (simp only:)
  qed
qed

end
