(* ===== verification/PicocapApp.thy ===== *)
theory PicocapApp
  imports InFlashApp TypeConvert Float32
begin

text \<open>
  \<open>APP/Src/Picocap_app.c\<close>: the two-stage filter of the capacitance samples and the conversion
  of a capacitance into the level, its 16-bit image and the 12-bit output value.  The static
  buffers of \<open>Sensor_DataFilter\<close> are the record \<open>filter_buf\<close>.  A call that the code makes with
  a pointer to the first \<open>n\<close> elements of a longer array is modelled on the prefix
  \<open>take n\<close> of it, which bounds its accesses to these \<open>n\<close> elements.
\<close>

section \<open>Data\<close>

record DataFilterParam =
  FilterStart :: u8
  InputCountMax :: u8
  FilterFactor :: u8
  FilterBufMax :: u8
  FilterCycle :: u16
  InputRangeMax :: u32
  InputRangeMin :: u32

record PCap_DataConvert_Param =
  CompenEn :: u8
  HeightRange :: u16
  CapADMin :: u16
  CapADLow :: u16
  CapADHigh :: u16
  CapADMax :: u16
  CapDAMin :: u16
  CapDALow :: u16
  CapDAHigh :: u16
  CapDAMax :: u16
  CapMin :: u32
  CapMax :: u32
  CapMinBak :: u32
  CapMaxBak :: u32
  CapDA_ClibEn :: u8
  Correct_K :: fval
  Correct_B :: fval

record PCap_DataConvert_Out_Param =
  LiquidHeightAD :: u16
  LiquidHeight :: fval
  PCapDA_ResultValue :: u16
  PCapDA_OutValue :: u16
  PCap_ResultValue :: u32

abbreviation (input) "DATA_BUF_MAX \<equiv> (10 :: nat)"
abbreviation (input) "DATA_2ND_FILTER_BUF_MAX \<equiv> (10 :: nat)"
abbreviation (input) "DATA_1ST_FILTER_BUF_MAX \<equiv> (96 :: nat)"

record filter_buf =
  Data_1st_FilterBuf :: "u32 list"
  Data_1st_FilterBufBak :: "u32 list"
  Data_2nd_FilterBuf :: "u32 list"
  Data_2nd_FilterBufBak :: "u32 list"
  DataResBuf :: "u32 list"
  DataResBuf_Count :: u8

section \<open>Initialisation\<close>

definition SwitchCurFilter :: "u8 \<Rightarrow> DataFilterParam \<Rightarrow> DataFilterParam" where
  "SwitchCurFilter FiltFactor P =
     (let P = (if FiltFactor = 0 then P\<lparr>FilterBufMax := 1, FilterCycle := 1\<rparr>
               else if FiltFactor = 1 then P\<lparr>FilterBufMax := 1, FilterCycle := 12\<rparr>
               else if FiltFactor = 2 then P\<lparr>FilterBufMax := 2, FilterCycle := 12\<rparr>
               else if FiltFactor = 3 then P\<lparr>FilterBufMax := 3, FilterCycle := 12\<rparr>
               else if FiltFactor = 4 then P\<lparr>FilterBufMax := 4, FilterCycle := 15\<rparr>
               else if FiltFactor = 5 then P\<lparr>FilterBufMax := 5, FilterCycle := 24\<rparr>
               else if FiltFactor = 6 then P\<lparr>FilterBufMax := 6, FilterCycle := 30\<rparr>
               else if FiltFactor = 7 then P\<lparr>FilterBufMax := 8, FilterCycle := 30\<rparr>
               else if FiltFactor = 8 then P\<lparr>FilterBufMax := 8, FilterCycle := 60\<rparr>
               else if FiltFactor = 9 then P\<lparr>FilterBufMax := 10, FilterCycle := 96\<rparr>
               else P\<lparr>FilterBufMax := 1, FilterCycle := 12\<rparr>)
      in P\<lparr>FilterStart := 0\<rparr>)"

text \<open>Reading two or four big-endian bytes of a parameter.\<close>

definition flash_u16 :: "flash \<Rightarrow> u16 \<Rightarrow> u16 option" where
  "flash_u16 f a = do {
     Read_Data \<leftarrow> InFlash_Read_MultiBytes f a 2;
     b0 \<leftarrow> rd Read_Data 0; b1 \<leftarrow> rd Read_Data 1;
     Some (be16 b0 b1) }"

definition flash_u32 :: "flash \<Rightarrow> u16 \<Rightarrow> u32 option" where
  "flash_u32 f a = do {
     Read_Data \<leftarrow> InFlash_Read_MultiBytes f a 4;
     HexToUlong Read_Data }"

definition flash_u8 :: "flash \<Rightarrow> u16 \<Rightarrow> u8 option" where
  "flash_u8 f a = do {
     Read_Data \<leftarrow> InFlash_Read_MultiBytes f a 1;
     rd Read_Data 0 }"

definition DataFilterParam_Init :: "flash \<Rightarrow> DataFilterParam \<Rightarrow> u16 \<Rightarrow> DataFilterParam option" where
  "DataFilterParam_Init f P Filterfactor_CountMax = do {
     b \<leftarrow> flash_u8 f FILTER;
     let P = P\<lparr>FilterFactor := b\<rparr>;
     let P = SwitchCurFilter b P;
     let P = P\<lparr>InputCountMax := ucast Filterfactor_CountMax\<rparr>;
     v \<leftarrow> flash_u32 f CAPMAX;
     let P = P\<lparr>InputRangeMax := v\<rparr>;
     v \<leftarrow> flash_u32 f CAPMIN;
     Some (P\<lparr>InputRangeMin := v\<rparr>) }"

definition DataConvertParam_Init :: "flash \<Rightarrow> PCap_DataConvert_Param \<Rightarrow> PCap_DataConvert_Param option" where
  "DataConvertParam_Init f P = do {
     b \<leftarrow> flash_u8 f COMPENSATE;  let P = P\<lparr>CompenEn := b\<rparr>;
     v \<leftarrow> flash_u16 f HEIGHTRANGE; let P = P\<lparr>HeightRange := v\<rparr>;
     v \<leftarrow> flash_u32 f CAPMIN; let P = P\<lparr>CapMin := v\<rparr>;
     v \<leftarrow> flash_u32 f CAPMAX; let P = P\<lparr>CapMax := v\<rparr>;
     v \<leftarrow> flash_u32 f CAPMINBAK; let P = P\<lparr>CapMinBak := v\<rparr>;
     v \<leftarrow> flash_u32 f CAPMAXBAK; let P = P\<lparr>CapMaxBak := v\<rparr>;
     v \<leftarrow> flash_u16 f CAPADMIN; let P = P\<lparr>CapADMin := v\<rparr>;
     v \<leftarrow> flash_u16 f CAPADLOW; let P = P\<lparr>CapADLow := v\<rparr>;
     v \<leftarrow> flash_u16 f CAPADHIGH; let P = P\<lparr>CapADHigh := v\<rparr>;
     v \<leftarrow> flash_u16 f CAPADMAX; let P = P\<lparr>CapADMax := v\<rparr>;
     v \<leftarrow> flash_u16 f CAPDAMIN; let P = P\<lparr>CapDAMin := v\<rparr>;
     v \<leftarrow> flash_u16 f CAPDALOW; let P = P\<lparr>CapDALow := v\<rparr>;
     v \<leftarrow> flash_u16 f CAPDAHIGH; let P = P\<lparr>CapDAHigh := v\<rparr>;
     v \<leftarrow> flash_u16 f CAPDAMAX; let P = P\<lparr>CapDAMax := v\<rparr>;
     v \<leftarrow> flash_u16 f CORRECT_K;
     let P = P\<lparr>Correct_K := f_round f32 (f_div f64 (f_of_int (uint v)) (Fin 100))\<rparr>;
     v \<leftarrow> flash_u16 f CORRECT_B;
     let P = P\<lparr>Correct_B := f_round f32 (f_sub f64 (f_of_int (uint v)) (Fin 100))\<rparr>;
     Some (P\<lparr>CapDA_ClibEn := 0\<rparr>) }"

section \<open>The filter\<close>

fun fill_loop :: "nat \<Rightarrow> nat \<Rightarrow> u32 \<Rightarrow> u32 list \<Rightarrow> u32 list option" where
  "fill_loop i 0 v buf = Some buf"
| "fill_loop i (Suc k) v buf = do { buf \<leftarrow> wr buf i v; fill_loop (Suc i) k v buf }"

text \<open>\<open>for(i = 0; i < n - 1; i++) buf[i] = buf[i + 1]; buf[i] = v;\<close>\<close>

fun shift_loop :: "nat \<Rightarrow> nat \<Rightarrow> u32 list \<Rightarrow> u32 list option" where
  "shift_loop i 0 buf = Some buf"
| "shift_loop i (Suc k) buf = do {
     x \<leftarrow> rd buf (i + 1);
     buf \<leftarrow> wr buf i x;
     shift_loop (Suc i) k buf }"

definition shift_in :: "nat \<Rightarrow> u32 \<Rightarrow> u32 list \<Rightarrow> u32 list option" where
  "shift_in n v buf = do { buf \<leftarrow> shift_loop 0 (n - 1) buf; wr buf (n - 1) v }"

text \<open>The average of the first \<open>n\<close> elements of \<open>buf\<close>, \<open>bak\<close> being the array that is copied to and
  partially sorted.\<close>

definition stage_average :: "u32 \<Rightarrow> u32 list \<Rightarrow> u32 list \<Rightarrow> (u32 list \<times> u32) option" where
  "stage_average n buf bak =
     (if n \<ge> 3 then do {
        bs \<leftarrow> rdn buf 0 (unat n);
        bak \<leftarrow> wrn bak 0 bs;
        (srt, avg) \<leftarrow> GetDelExtremeAndAverage (take (unat n) bak) n (n div 3) (n div 3);
        Some (srt @ drop (unat n) bak, avg) }
      else do {
        total \<leftarrow> sum_loop 0 (unat n) buf 0;
        Some (bak, ucast (total div ucast n)) })"

definition Sensor_DataFilter ::
  "DataFilterParam \<Rightarrow> filter_buf \<Rightarrow> u32 \<Rightarrow> (u8 \<times> u32 option \<times> DataFilterParam \<times> filter_buf) option" where
  "Sensor_DataFilter P B InputValue =
     (let InputValue = (if InputValue > InputRangeMax P then InputRangeMax P else InputValue);
          InputValue = (if InputValue < InputRangeMin P then InputRangeMin P else InputValue) in
      if FilterStart P = 0 then do {
        let B = B\<lparr>DataResBuf_Count := 0\<rparr>;
        b1 \<leftarrow> fill_loop 0 DATA_1ST_FILTER_BUF_MAX InputValue (Data_1st_FilterBuf B);
        b2 \<leftarrow> fill_loop 0 DATA_2ND_FILTER_BUF_MAX InputValue (Data_2nd_FilterBuf B);
        Some (OP_FAILED, None, P\<lparr>FilterStart := 1\<rparr>, B\<lparr>Data_1st_FilterBuf := b1, Data_2nd_FilterBuf := b2\<rparr>) }
      else do {
        rb \<leftarrow> wr (DataResBuf B) (unat (DataResBuf_Count B)) InputValue;
        let B = B\<lparr>DataResBuf := rb, DataResBuf_Count := DataResBuf_Count B + 1\<rparr>;
        if unat (DataResBuf_Count B) < DATA_BUF_MAX then Some (OP_FAILED, None, P, B)
        else do {
          let B = B\<lparr>DataResBuf_Count := 0\<rparr>;
          (rb, Data_Avg1) \<leftarrow> GetDelExtremeAndAverage (DataResBuf B) 10 2 5;
          let B = B\<lparr>DataResBuf := rb\<rparr>;
          if FilterCycle P < 2 then Some (OP_SUCCESS, Some Data_Avg1, P, B)
          else do {
            b1 \<leftarrow> shift_in (unat (FilterCycle P)) Data_Avg1 (Data_1st_FilterBuf B);
            let B = B\<lparr>Data_1st_FilterBuf := b1\<rparr>;
            (bak, Data_Avg2) \<leftarrow> stage_average (ucast (FilterCycle P)) b1 (Data_1st_FilterBufBak B);
            let B = B\<lparr>Data_1st_FilterBufBak := bak\<rparr>;
            if FilterBufMax P < 2 then Some (OP_SUCCESS, Some Data_Avg2, P, B)
            else do {
              b2 \<leftarrow> shift_in (unat (FilterBufMax P)) Data_Avg2 (Data_2nd_FilterBuf B);
              let B = B\<lparr>Data_2nd_FilterBuf := b2\<rparr>;
              (bak, Data_Avg3) \<leftarrow> stage_average (ucast (FilterBufMax P)) b2 (Data_2nd_FilterBufBak B);
              let B = B\<lparr>Data_2nd_FilterBufBak := bak\<rparr>;
              Some (OP_SUCCESS, Some Data_Avg3, P, B) } } } })"

section \<open>The conversion\<close>

text \<open>One segment of the four-point interpolation: the input \<open>ad\<close> between \<open>ad0\<close> and \<open>ad1\<close> gives
  an output between \<open>da0\<close> and \<open>da1\<close>.\<close>

definition interpolate :: "u16 \<Rightarrow> u16 \<Rightarrow> u16 \<Rightarrow> u16 \<Rightarrow> u16 \<Rightarrow> u16 option" where
  "interpolate ad ad0 ad1 da0 da1 = do {
     let Rate = f_div f32 (f_of_int (uint ad - uint ad0)) (f_of_int (uint ad1 - uint ad0));
     let OutValue = da1 - da0;
     d \<leftarrow> f_to_u16 (f_mul f32 Rate (f_of_int (uint OutValue)));
     Some (d + da0) }"

text \<open>The corrected capacitance, the rate of the range, and the output value.\<close>

definition PCap_corrected :: "PCap_DataConvert_Param \<Rightarrow> u32 \<Rightarrow> u32 option" where
  "PCap_corrected P InputValue =
     (if CompenEn P = 1
      then f_to_u32 (f_add f32 (f_mul f32 (f_of_int (uint InputValue)) (Correct_K P))
                               (f_sub f32 (Correct_B P) (f_of_int 100)))
      else Some InputValue)"

definition LiquidHeight_Rate :: "PCap_DataConvert_Param \<Rightarrow> u32 \<Rightarrow> fval" where
  "LiquidHeight_Rate P PCap_Result =
     (let rate = f_div f32 (f_of_int (uint (PCap_Result - CapMin P)))
                           (f_of_int (uint (CapMax P - CapMin P)))
      in if f_less (Fin 1) rate then Fin 1
         else if f_less rate (Fin 0) then Fin 0
         else rate)"

definition PCapDA_Out :: "PCap_DataConvert_Param \<Rightarrow> fval \<Rightarrow> u16 \<Rightarrow> u16 option" where
  "PCapDA_Out P LiquidHeightRate ad =
     (if CapDALow P = 0 \<or> CapDAHigh P = 0 then do {
        d \<leftarrow> f_to_u16 (f_mul f32 LiquidHeightRate (f_of_int (uint (CapDAMax P) - uint (CapDAMin P))));
        Some (d + CapDAMin P) }
      else if ad < CapADMin P then Some (CapDAMin P)
      else if ad < CapADLow P \<and> ad \<ge> CapADMin P
      then interpolate ad (CapADMin P) (CapADLow P) (CapDAMin P) (CapDALow P)
      else if ad < CapADHigh P \<and> ad \<ge> CapADLow P
      then interpolate ad (CapADLow P) (CapADHigh P) (CapDALow P) (CapDAHigh P)
      else if ad < CapADMax P \<and> ad \<ge> CapADHigh P
      then interpolate ad (CapADHigh P) (CapADMax P) (CapDAHigh P) (CapDAMax P)
      else Some (CapDAMax P))"

definition Sensor_PCap_DataConvert ::
  "PCap_DataConvert_Param \<Rightarrow> u32 \<Rightarrow> PCap_DataConvert_Out_Param \<Rightarrow> PCap_DataConvert_Out_Param option" where
  "Sensor_PCap_DataConvert P InputValue Out = do {
     PCap_Result \<leftarrow> PCap_corrected P InputValue;
     let LiquidHeightRate = LiquidHeight_Rate P PCap_Result;
     ad \<leftarrow> f_to_u16 (f_mul f32 LiquidHeightRate (f_of_int 65535));
     let Out = Out\<lparr>LiquidHeight := f_mul f32 LiquidHeightRate (f_of_int (uint (HeightRange P)))\<rparr>;
     da \<leftarrow> f_to_u16 (f_mul f32 LiquidHeightRate (f_of_int (4095 - 0)));
     let Out = Out\<lparr>PCapDA_ResultValue := da + 0\<rparr>;
     v \<leftarrow> PCapDA_Out P LiquidHeightRate ad;
     Some (Out\<lparr>PCapDA_OutValue := v, LiquidHeightAD := ad\<rparr>) }"

section \<open>Facts about the loops\<close>

lemma fill_loop_append:
  "length ys = k \<Longrightarrow> fill_loop (length xs) k v (xs @ ys) = Some (xs @ replicate k v)"
proof (induction k arbitrary: xs ys)
  case (Suc k)
  then obtain y zs where ys: "ys = y # zs" "length zs = k" by (metis length_Suc_conv)
  show ?case
    using Suc.IH [of zs "xs @ [v]"] ys by (simp add: replicate_append_same)
qed simp

lemma fill_loop_replicate: "length buf = k \<Longrightarrow> fill_loop 0 k v buf = Some (replicate k v)"
  using fill_loop_append [of buf k "[]"] by simp

lemma shift_loop_ok:
  "i + k < length buf \<Longrightarrow> \<exists>buf'. shift_loop i k buf = Some buf' \<and> length buf' = length buf \<and> set buf' \<subseteq> set buf"
proof (induction k arbitrary: i buf)
  case (Suc k)
  let ?b = "buf[i := buf ! (i + 1)]"
  have "set ?b \<subseteq> set buf"
    using Suc.prems set_update_subset_insert [of buf i "buf ! (i + 1)"] by (auto simp: subset_iff)
  moreover obtain buf' where "shift_loop (Suc i) k ?b = Some buf'" "length buf' = length ?b" "set buf' \<subseteq> set ?b"
    using Suc.IH [of "Suc i" ?b] Suc.prems by auto
  ultimately show ?case using Suc.prems by auto
qed simp

lemma shift_in_ok:
  assumes "0 < n" "n \<le> length buf"
  obtains buf' where "shift_in n v buf = Some buf'" "length buf' = length buf" "set buf' \<subseteq> insert v (set buf)"
proof -
  have "0 + (n - 1) < length buf" using assms by linarith
  then obtain b where b: "shift_loop 0 (n - 1) buf = Some b" "length b = length buf" "set b \<subseteq> set buf"
    using shift_loop_ok by blast
  have "set (b[n - 1 := v]) \<subseteq> insert v (set buf)"
    using b(3) set_update_subset_insert [of b "n - 1" v] by auto
  then show thesis using b assms that [of "b[n - 1 := v]"] by (simp add: shift_in_def)
qed

text \<open>The values of an array lie between \<open>lo\<close> and \<open>hi\<close>.\<close>

definition all_in :: "u32 \<Rightarrow> u32 \<Rightarrow> u32 list \<Rightarrow> bool" where
  "all_in lo hi xs \<longleftrightarrow> (\<forall>x \<in> set xs. lo \<le> x \<and> x \<le> hi)"

lemma stage_average_ok:
  assumes n: "0 < unat n" "unat n \<le> length buf" "unat n \<le> length bak" and w: "all_in lo hi buf"
  obtains bak' avg where "stage_average n buf bak = Some (bak', avg)" "length bak' = length bak"
    "lo \<le> avg" "avg \<le> hi"
proof (cases "3 \<le> n")
  case True
  let ?A = "take (unat n) buf"
  have A: "length ?A = unat n" "\<forall>x \<in> set ?A. lo \<le> x \<and> x \<le> hi"
    using n w by (auto simp: all_in_def dest: in_set_takeD)
  have "unat (n div 3) + unat (n div 3) < unat n"
    using True n(1) by (simp add: unat_div word_le_nat_alt)
  then obtain A' avg where g: "GetDelExtremeAndAverage ?A n (n div 3) (n div 3) = Some (A', avg)"
    "mset A' = mset ?A" "lo \<le> avg" "avg \<le> hi"
    using trimmed_in_range [OF A(1) _ A(2)] by blast
  have "length A' = unat n" using g(2) A(1) by (metis size_mset)
  moreover have "rdn buf 0 (unat n) = Some ?A" using n(2) by simp
  moreover have "wrn bak 0 ?A = Some (?A @ drop (unat n) bak)" using n(2,3) by (simp add: wrn_def min_absorb2)
  ultimately show thesis
    using True g n by (intro that [of "A' @ drop (unat n) bak" avg])
      (simp_all add: stage_average_def min_absorb2)
next
  case False
  let ?A = "take (unat n) buf"
  have n3: "unat n \<le> 2" using False by (simp add: word_le_nat_alt)
  have A: "length ?A = unat n" "?A \<noteq> []" "\<forall>x \<in> set ?A. lo \<le> x \<and> x \<le> hi"
    using n w by (auto simp: all_in_def dest: in_set_takeD)
  define S where "S = sum_list (map unat ?A)"
  have m: "unat lo \<le> S div unat n" "S div unat n \<le> unat hi"
    using mean_bounds [of "map unat ?A" "unat lo" "unat hi"] A n by (auto simp: S_def word_le_nat_alt)
  have sum: "sum_loop 0 (unat n) buf 0 = Some (of_nat S)"
    using sum_loop_eq [of 0 "unat n" buf 0] n(2) by (simp add: S_def)
  have "S \<le> length ?A * (2 ^ 32 - 1)" unfolding S_def by (rule sum_list_unat_bound)
  then have "S \<le> unat n * (2 ^ 32 - 1)" by (simp only: A(1))
  then have S: "S < 2 ^ 64" using n3 by simp
  have q: "S div unat n < 2 ^ 32" using m(2) unat_u32_less [of hi] by simp
  have "unat (ucast (of_nat S div ucast n :: u64) :: u32) = S div unat n"
  proof -
    have "unat (of_nat S div ucast n :: u64) = S div unat n"
      using S by (simp only: unat_div unat_of_nat_u64 unat_ucast_widen)
    then show ?thesis using q by (simp add: unsigned_ucast_eq take_bit_nat_eq_self)
  qed
  then show thesis
    using False sum m by (intro that [of bak "ucast (of_nat S div ucast n :: u64)"])
      (simp_all add: stage_average_def word_le_nat_alt)
qed


section \<open>The filter's invariant\<close>

definition clamp :: "DataFilterParam \<Rightarrow> u32 \<Rightarrow> u32" where
  "clamp P v = (let v = (if v > InputRangeMax P then InputRangeMax P else v)
                in (if v < InputRangeMin P then InputRangeMin P else v))"

definition filter_config :: "DataFilterParam \<Rightarrow> bool" where
  "filter_config P \<longleftrightarrow> 0 < unat (FilterCycle P) \<and> unat (FilterCycle P) \<le> DATA_1ST_FILTER_BUF_MAX
     \<and> 0 < unat (FilterBufMax P) \<and> unat (FilterBufMax P) \<le> DATA_2ND_FILTER_BUF_MAX"

definition filter_arrays :: "filter_buf \<Rightarrow> bool" where
  "filter_arrays B \<longleftrightarrow> length (Data_1st_FilterBuf B) = 96 \<and> length (Data_1st_FilterBufBak B) = 96
     \<and> length (Data_2nd_FilterBuf B) = 10 \<and> length (Data_2nd_FilterBufBak B) = 10
     \<and> length (DataResBuf B) = 10"

definition filter_inv :: "u32 \<Rightarrow> u32 \<Rightarrow> DataFilterParam \<Rightarrow> filter_buf \<Rightarrow> bool" where
  "filter_inv lo hi P B \<longleftrightarrow> filter_config P \<and> filter_arrays B
     \<and> (FilterStart P \<noteq> 0 \<longrightarrow> unat (DataResBuf_Count B) < 10
          \<and> all_in lo hi (Data_1st_FilterBuf B) \<and> all_in lo hi (Data_2nd_FilterBuf B)
          \<and> all_in lo hi (take (unat (DataResBuf_Count B)) (DataResBuf B)))"

lemma SwitchCurFilter_config: "filter_config (SwitchCurFilter factor P)"
  by (simp add: filter_config_def SwitchCurFilter_def Let_def)

text \<open>A change of the filter's parameters while it runs: it keeps the configuration valid, and
  leaves the filter started only where it was started.\<close>

definition filter_step :: "DataFilterParam \<Rightarrow> DataFilterParam \<Rightarrow> bool" where
  "filter_step P P' \<longleftrightarrow> (filter_config P \<longrightarrow> filter_config P')
     \<and> (FilterStart P' = FilterStart P \<or> FilterStart P' = 0)"

lemma filter_step_refl [simp]: "filter_step P P"
  by (simp add: filter_step_def)

lemma filter_step_trans: "filter_step P Q \<Longrightarrow> filter_step Q R \<Longrightarrow> filter_step P R"
  by (auto simp: filter_step_def)

lemma filter_step_updates [simp]:
  "filter_step P (SwitchCurFilter factor Q)"
  "filter_step P (Q\<lparr>InputRangeMin := lo\<rparr>) = filter_step P Q"
  "filter_step P (Q\<lparr>InputRangeMax := hi\<rparr>) = filter_step P Q"
  using SwitchCurFilter_config [of factor Q]
  by (simp_all add: filter_step_def) (simp_all add: SwitchCurFilter_def filter_config_def)

lemma filter_inv_step:
  assumes "filter_inv lo hi P B" "filter_step P P'"
  shows "filter_inv lo hi P' B"
  using assms by (auto simp: filter_inv_def filter_step_def)

lemma all_in_insert: "all_in lo hi xs \<Longrightarrow> lo \<le> v \<Longrightarrow> v \<le> hi \<Longrightarrow> set ys \<subseteq> insert v (set xs) \<Longrightarrow> all_in lo hi ys"
  by (auto simp: all_in_def)

lemma all_in_mset: "mset ys = mset xs \<Longrightarrow> all_in lo hi xs \<Longrightarrow> all_in lo hi ys"
  by (metis all_in_def mset_eq_setD)

text \<open>One stage: shift in, copy, average.\<close>

lemma filter_stage:
  assumes "0 < unat n" "unat n \<le> length buf" "length bak = length buf" "all_in lo hi buf" "lo \<le> v" "v \<le> hi"
  obtains buf' bak' avg where "shift_in (unat n) v buf = Some buf'" "stage_average n buf' bak = Some (bak', avg)"
    "length buf' = length buf" "length bak' = length bak" "all_in lo hi buf'" "lo \<le> avg" "avg \<le> hi"
proof -
  obtain buf' where b: "shift_in (unat n) v buf = Some buf'" "length buf' = length buf"
    "set buf' \<subseteq> insert v (set buf)"
    using shift_in_ok [OF assms(1,2)] by blast
  have w: "all_in lo hi buf'" using all_in_insert [OF assms(4-6) b(3)] .
  obtain bak' avg where "stage_average n buf' bak = Some (bak', avg)" "length bak' = length bak"
    "lo \<le> avg" "avg \<le> hi"
    using stage_average_ok [OF assms(1) _ _ w, of bak] assms(2,3) b(2) by auto
  then show thesis using that b w by blast
qed

lemma DataFilter_start:
  assumes "filter_inv lo hi P B" "FilterStart P = 0" "lo \<le> clamp P v" "clamp P v \<le> hi"
  shows "\<exists>B'. Sensor_DataFilter P B v = Some (OP_FAILED, None, P\<lparr>FilterStart := 1\<rparr>, B')
           \<and> filter_inv lo hi (P\<lparr>FilterStart := 1\<rparr>) B'"
  using assms
  by (auto simp: Sensor_DataFilter_def clamp_def [unfolded Let_def, symmetric] Let_def fill_loop_replicate
      filter_inv_def filter_arrays_def filter_config_def all_in_def)

lemma take_Suc_update: "i < length xs \<Longrightarrow> take (Suc i) (xs[i := v]) = take i xs @ [v]"
  by (rule take_update_Suc)

lemma DataFilter_collect:
  assumes inv: "filter_inv lo hi P B" and started: "FilterStart P \<noteq> 0"
    and v: "lo \<le> clamp P v" "clamp P v \<le> hi" and n: "unat (DataResBuf_Count B) < 9"
  shows "\<exists>B'. Sensor_DataFilter P B v = Some (OP_FAILED, None, P, B') \<and> filter_inv lo hi P B'"
proof -
  let ?c = "DataResBuf_Count B"
  have c: "unat (?c + 1) = Suc (unat ?c)" using n by (simp add: unat_word_ariths)
  have len: "length (DataResBuf B) = 10" using inv by (simp add: filter_inv_def filter_arrays_def)
  have w: "all_in lo hi (take (Suc (unat ?c)) ((DataResBuf B)[unat ?c := clamp P v]))"
    using inv started v n len by (simp add: take_Suc_update filter_inv_def all_in_def)
  define B' where "B' = B\<lparr>DataResBuf := (DataResBuf B)[unat ?c := clamp P v], DataResBuf_Count := ?c + 1\<rparr>"
  have "Sensor_DataFilter P B v = Some (OP_FAILED, None, P, B')"
    using started n c len unfolding Sensor_DataFilter_def clamp_def [unfolded Let_def, symmetric] Let_def
    by (simp add: B'_def)
  moreover have "filter_inv lo hi P B'"
    using inv started w c n by (simp add: filter_inv_def filter_arrays_def B'_def)
  ultimately show ?thesis by blast
qed


lemma DataFilter_output:
  assumes inv: "filter_inv lo hi P B" and started: "FilterStart P \<noteq> 0"
    and v: "lo \<le> clamp P v" "clamp P v \<le> hi" and n: "unat (DataResBuf_Count B) = 9"
  shows "\<exists>x B'. Sensor_DataFilter P B v = Some (OP_SUCCESS, Some x, P, B') \<and> filter_inv lo hi P B'
           \<and> lo \<le> x \<and> x \<le> hi"
proof -
  note i = inv [unfolded filter_inv_def filter_config_def filter_arrays_def]
  let ?c = "DataResBuf_Count B" and ?rb = "(DataResBuf B)[9 := clamp P v]"
  have c: "?c + 1 = 10"
  proof -
    have "?c = of_nat (unat ?c)" by simp
    then show ?thesis by (simp only: n) simp
  qed
  have len: "length (DataResBuf B) = 10" using i by simp
  have all: "all_in lo hi ?rb"
  proof -
    have "take (Suc 9) ?rb = take 9 (DataResBuf B) @ [clamp P v]" using len by (simp only: take_Suc_update)
    moreover have "take (Suc 9) ?rb = ?rb" using len by simp
    ultimately show ?thesis using i started v n by (auto simp: all_in_def)
  qed
  obtain rb' a1 where 1: "GetDelExtremeAndAverage ?rb 10 2 5 = Some (rb', a1)" "mset rb' = mset ?rb"
    "lo \<le> a1" "a1 \<le> hi"
    using trimmed_in_range [of ?rb 10 2 5 lo hi] all len by (auto simp: all_in_def)
  have rb': "length rb' = 10" using 1(2) len by (metis length_list_update size_mset)
  define B1 where "B1 = B\<lparr>DataResBuf_Count := 0, DataResBuf := rb'\<rparr>"
  have B1: "filter_inv lo hi P B1" using i rb' started by (simp add: B1_def filter_inv_def filter_config_def
        filter_arrays_def all_in_def)
  let ?n1 = "ucast (FilterCycle P) :: u32" and ?n2 = "ucast (FilterBufMax P) :: u32"
  obtain b1 k1 a2 where 2: "shift_in (unat ?n1) a1 (Data_1st_FilterBuf B) = Some b1"
    "stage_average ?n1 b1 (Data_1st_FilterBufBak B) = Some (k1, a2)" "length b1 = length (Data_1st_FilterBuf B)"
    "length k1 = length (Data_1st_FilterBufBak B)" "all_in lo hi b1" "lo \<le> a2" "a2 \<le> hi"
    by (rule filter_stage [of ?n1 "Data_1st_FilterBuf B" "Data_1st_FilterBufBak B" lo hi a1])
      (use i started 1(3,4) in auto)
  obtain b2 k2 a3 where 3: "shift_in (unat ?n2) a2 (Data_2nd_FilterBuf B) = Some b2"
    "stage_average ?n2 b2 (Data_2nd_FilterBufBak B) = Some (k2, a3)" "length b2 = length (Data_2nd_FilterBuf B)"
    "length k2 = length (Data_2nd_FilterBufBak B)" "all_in lo hi b2" "lo \<le> a3" "a3 \<le> hi"
    by (rule filter_stage [of ?n2 "Data_2nd_FilterBuf B" "Data_2nd_FilterBufBak B" lo hi a2])
      (use i started 2(6,7) in auto)
  define B2 where "B2 = B1\<lparr>Data_1st_FilterBuf := b1, Data_1st_FilterBufBak := k1\<rparr>"
  define B3 where "B3 = B2\<lparr>Data_2nd_FilterBuf := b2, Data_2nd_FilterBufBak := k2\<rparr>"
  have inv2: "filter_inv lo hi P B2" using B1 2 i
    by (simp add: B2_def B1_def filter_inv_def filter_arrays_def)
  have inv3: "filter_inv lo hi P B3" using inv2 3 i
    by (simp add: B3_def B2_def B1_def filter_inv_def filter_arrays_def)
  note body = Sensor_DataFilter_def clamp_def [unfolded Let_def, symmetric] Let_def
  consider "FilterCycle P < 2" | "\<not> FilterCycle P < 2" "FilterBufMax P < 2"
    | "\<not> FilterCycle P < 2" "\<not> FilterBufMax P < 2" by blast
  then show ?thesis
  proof cases
    case 1
    then show ?thesis
      using started n c len \<open>GetDelExtremeAndAverage _ _ _ _ = _\<close> B1 \<open>lo \<le> a1\<close> \<open>a1 \<le> hi\<close>
      unfolding body by (simp add: B1_def)
  next
    case case2: 2
    then show ?thesis
      using started n c len 1(1) inv2 2(1,2,6,7) unfolding body by (simp add: B2_def B1_def)
  next
    case case3: 3
    then show ?thesis
      using started n c len 1(1) inv3 2(1,2) 3(1,2,6,7) unfolding body
      by (simp add: B3_def B2_def B1_def)
  qed
qed

section \<open>Bounds of the conversion\<close>

lemma u16_of_int:
  assumes "0 \<le> n" "n < 65536"
  shows "uint (word_of_int n :: u16) = n"
  using assms by (simp add: unsigned_of_int take_bit_int_eq_self)

text \<open>A rate between 0 and 1 of a non-negative span.\<close>

lemma scaled_u16:
  assumes "0 \<le> r" "r \<le> 1" "0 \<le> K" "K < 65536"
  obtains d where "f_to_u16 (f_mul f32 (Fin r) (f_of_int K)) = Some d" "uint d \<le> K"
    "r = 0 \<Longrightarrow> d = 0" "r = 1 \<Longrightarrow> uint d = K"
proof -
  have K: "f_of_int K = Fin (of_int K)" using assms by (intro f_of_int_exact) simp
  define l where "l = (if r = 1 then K else 0)"
  define h where "h = (if r = 0 then 0 else K)"
  have lh: "of_int l \<le> r * of_int K" "r * of_int K \<le> of_int h" "0 \<le> l" "h < 65536"
    using assms mult_left_le_one_le [of "of_int K" r] by (auto simp: l_def h_def)
  have h0: "0 \<le> h" "l < 65536" using assms by (auto simp: h_def l_def)
  obtain v where v: "f32 (r * of_int K) = Fin v" "of_int l \<le> v" "v \<le> of_int h"
    using f32_bounds [OF lh(1,2)] lh(3,4) h0 by auto
  obtain n where n: "f_to_uint 16 (Fin v) = Some n" "l \<le> n" "n \<le> h"
    using f_to_uint_bounds [OF v(2,3) lh(3), of 16] lh(4) by auto
  have "uint (word_of_int n :: u16) = n" using n lh h0 by (intro u16_of_int) auto
  then show thesis
    using n v assms(3) by (intro that [of "word_of_int n"])
      (auto simp: K f_to_u16_def l_def h_def split: if_splits)
qed

lemma uint_sub_le: "(a :: 'a :: len word) \<le> b \<Longrightarrow> uint (b - a) = uint b - uint a"
  by (simp add: uint_sub_if' word_le_def)

lemma uint_add_u16: "uint (a :: u16) + uint b < 65536 \<Longrightarrow> uint (a + b) = uint a + uint b"
  by (simp add: uint_plus_if')

text \<open>The rate of a quotient of integers.\<close>

lemma rate_bounds:
  assumes "0 \<le> a" "a \<le> b" "0 < b" "b < 4294967296"
  obtains r where "f_div f32 (f_of_int a) (f_of_int b) = Fin r" "0 \<le> r" "r \<le> 1"
    "a = 0 \<Longrightarrow> r = 0" "a = b \<Longrightarrow> r = 1"
proof -
  obtain x y where xy: "f_of_int a = Fin x" "f_of_int b = Fin y" "0 \<le> x" "x \<le> y"
    using f_of_int_mono [OF assms(1,2,4)] by blast
  obtain z where "f_of_int 1 = Fin z" "z \<le> y"
    using f_of_int_mono [of 1 b] assms(3,4) xy(2) by (metis fval.inject(1) zero_le_one zless_imp_add1_zle add_0)
  moreover have "f_of_int 1 = Fin 1" using f_of_int_exact [of 1] by simp
  ultimately have y: "0 < y" by simp
  define l where "l = (if a = b then 1 else 0 :: int)"
  define h where "h = (if a = 0 then 0 else 1 :: int)"
  have x0: "a = 0 \<Longrightarrow> x = 0" using xy(1) f_of_int_exact [of 0] by simp
  have "of_int l \<le> x / y" "x / y \<le> of_int h"
    using xy y x0 assms(3) by (auto simp: l_def h_def divide_le_eq zero_le_divide_iff)
  then obtain r where "f32 (x / y) = Fin r" "of_int l \<le> r" "r \<le> of_int h"
    by (rule f32_bounds) (auto simp: l_def h_def)
  then show thesis
    using xy y assms(3) by (intro that [of r]) (auto simp: l_def h_def split: if_splits)
qed

lemma interpolate_bounds:
  assumes "ad0 \<le> ad" "ad \<le> ad1" "ad0 < ad1" "da0 \<le> da1"
  obtains v where "interpolate ad ad0 ad1 da0 da1 = Some v" "da0 \<le> v" "v \<le> da1"
proof -
  have i: "uint ad0 \<le> uint ad" "uint ad \<le> uint ad1" "uint ad0 < uint ad1" "uint da0 \<le> uint da1"
    using assms by (simp_all add: word_le_def word_less_def)
  note u = uint_u16 [of ad] uint_u16 [of ad0] uint_u16 [of ad1] uint_u16 [of da0] uint_u16 [of da1]
  obtain r where r: "f_div f32 (f_of_int (uint ad - uint ad0)) (f_of_int (uint ad1 - uint ad0)) = Fin r"
    "0 \<le> r" "r \<le> 1"
    by (rule rate_bounds [of "uint ad - uint ad0" "uint ad1 - uint ad0"]) (use i u in linarith)+
  have d1: "uint (da1 - da0) = uint da1 - uint da0" using assms(4) by (rule uint_sub_le)
  obtain d where d: "f_to_u16 (f_mul f32 (Fin r) (f_of_int (uint (da1 - da0)))) = Some d"
    "uint d \<le> uint (da1 - da0)"
    by (rule scaled_u16 [OF r(2,3), of "uint (da1 - da0)"]) (use u d1 i in linarith)+
  have "uint (d + da0) = uint d + uint da0"
    by (rule uint_add_u16) (use d d1 u in linarith)
  then show thesis
    using d d1 r(1) uint_ge_0 [of d] by (intro that [of "d + da0"])
      (auto simp: interpolate_def word_le_def simp del: f_of_u16)
qed

definition DA_ordered :: "PCap_DataConvert_Param \<Rightarrow> bool" where
  "DA_ordered P \<longleftrightarrow> (if CapDALow P = 0 \<or> CapDAHigh P = 0 then CapDAMin P \<le> CapDAMax P
     else CapDAMin P \<le> CapDALow P \<and> CapDALow P \<le> CapDAHigh P \<and> CapDAHigh P \<le> CapDAMax P)"

lemma PCapDA_Out_bounds:
  assumes "DA_ordered P" "0 \<le> r" "r \<le> 1"
  obtains v where "PCapDA_Out P (Fin r) ad = Some v" "CapDAMin P \<le> v" "v \<le> CapDAMax P"
proof (cases "CapDALow P = 0 \<or> CapDAHigh P = 0")
  case True
  then have o: "uint (CapDAMin P) \<le> uint (CapDAMax P)" using assms(1) by (simp add: DA_ordered_def word_le_def)
  note u = uint_u16 [of "CapDAMin P"] uint_u16 [of "CapDAMax P"]
  let ?K = "uint (CapDAMax P) - uint (CapDAMin P)"
  obtain d where d: "f_to_u16 (f_mul f32 (Fin r) (f_of_int ?K)) = Some d" "uint d \<le> ?K"
    by (rule scaled_u16 [OF assms(2,3), of ?K]) (use u o in linarith)+
  have "uint (d + CapDAMin P) = uint d + uint (CapDAMin P)"
    by (rule uint_add_u16) (use d u in linarith)
  then show thesis
    using d True uint_ge_0 [of d] by (intro that [of "d + CapDAMin P"])
      (auto simp: PCapDA_Out_def word_le_def)
next
  case False
  then have o: "CapDAMin P \<le> CapDALow P" "CapDALow P \<le> CapDAHigh P" "CapDAHigh P \<le> CapDAMax P"
    using assms(1) by (simp_all add: DA_ordered_def)
  note tr = order_trans [OF o(1,2)] order_trans [OF o(2,3)] order_trans [OF order_trans [OF o(1,2)] o(3)]
  consider "ad < CapADMin P" | "CapADMin P \<le> ad" "ad < CapADLow P"
    | "CapADMin P \<le> ad" "CapADLow P \<le> ad" "ad < CapADHigh P"
    | "CapADMin P \<le> ad" "CapADLow P \<le> ad" "CapADHigh P \<le> ad" "ad < CapADMax P"
    | "CapADMin P \<le> ad" "CapADLow P \<le> ad" "CapADHigh P \<le> ad" "CapADMax P \<le> ad"
    by (meson not_le)
  then show thesis
  proof cases
    case 1
    then show thesis using False tr(3) that by (auto simp: PCapDA_Out_def)
  next
    case 2
    then have "CapADMin P < CapADLow P" "ad \<le> CapADLow P" by auto
    then obtain v where "interpolate ad (CapADMin P) (CapADLow P) (CapDAMin P) (CapDALow P) = Some v"
      "CapDAMin P \<le> v" "v \<le> CapDALow P" using interpolate_bounds 2 o(1) by metis
    then show thesis using 2 False tr
      by (intro that [of v]) (auto simp: PCapDA_Out_def not_less)
  next
    case 3
    then have "CapADLow P < CapADHigh P" "ad \<le> CapADHigh P" by auto
    then obtain v where "interpolate ad (CapADLow P) (CapADHigh P) (CapDALow P) (CapDAHigh P) = Some v"
      "CapDALow P \<le> v" "v \<le> CapDAHigh P" using interpolate_bounds 3 o(2) by metis
    then show thesis using 3 False o
      by (intro that [of v]) (auto simp: PCapDA_Out_def not_less)
  next
    case 4
    then have "CapADHigh P < CapADMax P" "ad \<le> CapADMax P" by auto
    then obtain v where "interpolate ad (CapADHigh P) (CapADMax P) (CapDAHigh P) (CapDAMax P) = Some v"
      "CapDAHigh P \<le> v" "v \<le> CapDAMax P" using interpolate_bounds 4 o(3) by metis
    then show thesis using 4 False tr
      by (intro that [of v]) (auto simp: PCapDA_Out_def not_less)
  next
    case 5
    then show thesis using False tr(3)
      by (intro that [of "CapDAMax P"]) (auto simp: PCapDA_Out_def not_less)
  qed
qed

text \<open>The conversion of a rate that is already between 0 and 1.\<close>

lemma DataConvert_rate:
  assumes "PCap_corrected P v = Some pc" "LiquidHeight_Rate P pc = Fin r" "0 \<le> r" "r \<le> 1" "DA_ordered P"
  obtains Out' where "Sensor_PCap_DataConvert P v Out = Some Out'"
    "uint (PCapDA_ResultValue Out') \<le> 4095" "CapDAMin P \<le> PCapDA_OutValue Out'"
    "PCapDA_OutValue Out' \<le> CapDAMax P"
    "r = 0 \<Longrightarrow> LiquidHeightAD Out' = 0 \<and> PCapDA_ResultValue Out' = 0"
    "r = 1 \<Longrightarrow> LiquidHeightAD Out' = 65535 \<and> PCapDA_ResultValue Out' = 4095"
proof -
  obtain ad where ad: "f_to_u16 (f_mul f32 (Fin r) (f_of_int 65535)) = Some ad"
    "r = 0 \<Longrightarrow> ad = 0" "r = 1 \<Longrightarrow> uint ad = 65535"
    by (rule scaled_u16 [OF assms(3,4), of 65535]) auto
  obtain da where da: "f_to_u16 (f_mul f32 (Fin r) (f_of_int 4095)) = Some da" "uint da \<le> 4095"
    "r = 0 \<Longrightarrow> da = 0" "r = 1 \<Longrightarrow> uint da = 4095"
    by (rule scaled_u16 [OF assms(3,4), of 4095]) auto
  obtain w where w: "PCapDA_Out P (Fin r) ad = Some w" "CapDAMin P \<le> w" "w \<le> CapDAMax P"
    by (rule PCapDA_Out_bounds [OF assms(5,3,4)])
  have "r = 1 \<Longrightarrow> ad = 65535" "r = 1 \<Longrightarrow> da = 4095"
    using ad(3) da(4) by (auto simp: word_uint_eq_iff)
  then show thesis
    using assms(1,2) ad da w
    by (intro that [of "Out\<lparr>LiquidHeight := f_mul f32 (Fin r) (f_of_int (uint (HeightRange P))),
           PCapDA_ResultValue := da, PCapDA_OutValue := w, LiquidHeightAD := ad\<rparr>"])
      (auto simp: Sensor_PCap_DataConvert_def simp del: f_mul.simps)
qed

lemma LiquidHeight_Rate_in_range:
  assumes "CapMin P \<le> pc" "pc \<le> CapMax P" "CapMin P < CapMax P"
  obtains r where "LiquidHeight_Rate P pc = Fin r" "0 \<le> r" "r \<le> 1"
    "pc = CapMin P \<Longrightarrow> r = 0" "pc = CapMax P \<Longrightarrow> r = 1"
proof -
  have u: "uint (pc - CapMin P) = uint pc - uint (CapMin P)"
    "uint (CapMax P - CapMin P) = uint (CapMax P) - uint (CapMin P)"
    using assms by (auto intro!: uint_sub_le)
  have o: "uint (CapMin P) \<le> uint pc" "uint pc \<le> uint (CapMax P)" "uint (CapMin P) < uint (CapMax P)"
    using assms by (simp_all add: word_le_def word_less_def)
  have "uint (CapMax P - CapMin P) < 4294967296"
    using uint_bounded [of "CapMax P - CapMin P"] by simp
  then obtain r where r: "f_div f32 (f_of_int (uint (pc - CapMin P))) (f_of_int (uint (CapMax P - CapMin P))) = Fin r"
    "0 \<le> r" "r \<le> 1" "uint (pc - CapMin P) = 0 \<Longrightarrow> r = 0"
    "uint (pc - CapMin P) = uint (CapMax P - CapMin P) \<Longrightarrow> r = 1"
    using rate_bounds [of "uint (pc - CapMin P)" "uint (CapMax P - CapMin P)"] o unfolding u by auto
  then show thesis by (intro that [of r]) (auto simp: LiquidHeight_Rate_def)
qed

section \<open>Properties\<close>

text \<open>One call of the filter, on each of its three ways.\<close>

lemma DataFilter_returns:
  assumes "filter_inv lo hi P B" "lo \<le> clamp P v" "clamp P v \<le> hi"
  shows "\<exists>r out B'. Sensor_DataFilter P B v
             = Some (r, out, P\<lparr>FilterStart := if FilterStart P = 0 then 1 else FilterStart P\<rparr>, B')
           \<and> filter_inv lo hi (P\<lparr>FilterStart := if FilterStart P = 0 then 1 else FilterStart P\<rparr>) B'
           \<and> (if FilterStart P \<noteq> 0 \<and> DataResBuf_Count B = 9
              then \<exists>x. r = OP_SUCCESS \<and> out = Some x \<and> lo \<le> x \<and> x \<le> hi
              else r = OP_FAILED \<and> out = None)"
proof (cases "FilterStart P = 0")
  case True
  then show ?thesis using DataFilter_start [OF assms(1) True assms(2,3)] by auto
next
  case False
  have "unat (DataResBuf_Count B) < 10" using assms(1) False by (simp add: filter_inv_def)
  moreover have "DataResBuf_Count B = 9 \<longleftrightarrow> unat (DataResBuf_Count B) = 9"
    by (simp add: word_unat_eq_iff)
  ultimately consider "unat (DataResBuf_Count B) = 9" "DataResBuf_Count B = 9"
    | "unat (DataResBuf_Count B) < 9" "DataResBuf_Count B \<noteq> 9" by linarith
  then show ?thesis
  proof cases
    case 1
    then show ?thesis using DataFilter_output [OF assms(1) False assms(2,3)] False by auto
  next
    case 2
    then show ?thesis using DataFilter_collect [OF assms(1) False assms(2,3)] False by auto
  qed
qed


definition filter_param0 :: DataFilterParam where
  "filter_param0 = SwitchCurFilter 2 \<lparr>FilterStart = 0, InputCountMax = 10, FilterFactor = 2,
     FilterBufMax = 0, FilterCycle = 0, InputRangeMax = 2426863, InputRangeMin = 1655630\<rparr>"

definition filter_buf0 :: filter_buf where
  "filter_buf0 = \<lparr>Data_1st_FilterBuf = replicate 96 2000000, Data_1st_FilterBufBak = replicate 96 0,
     Data_2nd_FilterBuf = replicate 10 2000000, Data_2nd_FilterBufBak = replicate 10 0,
     DataResBuf = replicate 9 2000000 @ [0], DataResBuf_Count = 9\<rparr>"



lemma DataConvert_returns:
  assumes "CompenEn P \<noteq> 1" "CapMin P < CapMax P" "CapMin P \<le> v" "v \<le> CapMax P" "DA_ordered P"
  shows "\<exists>Out'. Sensor_PCap_DataConvert P v Out = Some Out'
     \<and> PCapDA_ResultValue Out' \<le> 4095
     \<and> CapDAMin P \<le> PCapDA_OutValue Out' \<and> PCapDA_OutValue Out' \<le> CapDAMax P
     \<and> (v = CapMin P \<longrightarrow> LiquidHeightAD Out' = 0 \<and> PCapDA_ResultValue Out' = 0)
     \<and> (v = CapMax P \<longrightarrow> LiquidHeightAD Out' = 65535 \<and> PCapDA_ResultValue Out' = 4095)"
proof -
  have pc: "PCap_corrected P v = Some v" using assms(1) by (simp add: PCap_corrected_def)
  obtain r where r: "LiquidHeight_Rate P v = Fin r" "0 \<le> r" "r \<le> 1" "v = CapMin P \<Longrightarrow> r = 0"
    "v = CapMax P \<Longrightarrow> r = 1"
    by (rule LiquidHeight_Rate_in_range [OF assms(3,4,2)]) blast
  obtain Out' where "Sensor_PCap_DataConvert P v Out = Some Out'"
    "uint (PCapDA_ResultValue Out') \<le> 4095" "CapDAMin P \<le> PCapDA_OutValue Out'"
    "PCapDA_OutValue Out' \<le> CapDAMax P"
    "r = 0 \<Longrightarrow> LiquidHeightAD Out' = 0 \<and> PCapDA_ResultValue Out' = 0"
    "r = 1 \<Longrightarrow> LiquidHeightAD Out' = 65535 \<and> PCapDA_ResultValue Out' = 4095"
    by (rule DataConvert_rate [OF pc r(1-3) assms(5), of Out]) blast
  then show ?thesis using r(4,5) by (auto simp: word_le_def)
qed

text \<open>The conversion of a capacitance inside the calibrated range, with compensation off and
  the output points in order: it returns (no float-to-integer conversion overflows), the raw
  output is a 12-bit value, the output stays between the calibrated end points in every one of
  the interpolation segments, and the two ends of the range give exactly the ends of the
  16-bit and of the 12-bit scale.\<close>

theorem convert_in_range:
  assumes "CompenEn P \<noteq> 1" "CapMin P < CapMax P" "CapMin P \<le> v" "v \<le> CapMax P" "DA_ordered P"
  shows "\<exists>Out'. Sensor_PCap_DataConvert P v Out = Some Out'
     \<and> PCapDA_ResultValue Out' \<le> 4095
     \<and> CapDAMin P \<le> PCapDA_OutValue Out' \<and> PCapDA_OutValue Out' \<le> CapDAMax P
     \<and> (v = CapMin P \<longrightarrow> LiquidHeightAD Out' = 0 \<and> PCapDA_ResultValue Out' = 0)
     \<and> (v = CapMax P \<longrightarrow> LiquidHeightAD Out' = 65535 \<and> PCapDA_ResultValue Out' = 4095)"
  by (rule DataConvert_returns [OF assms])

definition convert_param0 :: PCap_DataConvert_Param where
  "convert_param0 = \<lparr>CompenEn = 0, HeightRange = 148, CapADMin = 1, CapADLow = 20900,
     CapADHigh = 47000, CapADMax = 65535, CapDAMin = 130, CapDALow = 580, CapDAHigh = 930,
     CapDAMax = 1130, CapMin = 1655630, CapMax = 2426863, CapMinBak = 1655630,
     CapMaxBak = 2426863, CapDA_ClibEn = 0, Correct_K = Fin 1, Correct_B = Fin 0\<rparr>"

definition convert_out0 :: PCap_DataConvert_Out_Param where
  "convert_out0 = \<lparr>LiquidHeightAD = 0, LiquidHeight = Fin 0, PCapDA_ResultValue = 0,
     PCapDA_OutValue = 0, PCap_ResultValue = 0\<rparr>"

lemma convert_in_range_witness:
  "\<exists>Out'. Sensor_PCap_DataConvert convert_param0 2426863 convert_out0 = Some Out'
     \<and> LiquidHeightAD Out' = 65535 \<and> PCapDA_OutValue Out' \<le> 1130"
  using convert_in_range [of convert_param0 2426863 convert_out0]
  by (auto simp: convert_param0_def DA_ordered_def)

text \<open>With compensation on, a corrected capacitance below the zero point is not clamped to the
  empty level: the difference to \<open>CapMin\<close> is taken in unsigned arithmetic and wraps around, and
  the conversion reports the full scale.\<close>

theorem below_zero_reads_full:
  assumes "PCap_corrected P v = Some pc" "pc < CapMin P" "CapMin P < CapMax P"
    and "CapMax P - CapMin P \<le> 0x80000000" "CapMin P - pc < 0x80000000" "DA_ordered P"
  shows "\<exists>Out'. Sensor_PCap_DataConvert P v Out = Some Out'
     \<and> LiquidHeightAD Out' = 65535 \<and> PCapDA_ResultValue Out' = 4095"
proof -
  let ?a = "uint (pc - CapMin P)" and ?b = "uint (CapMax P - CapMin P)"
  have "uint (CapMin P - pc) = uint (CapMin P) - uint pc" using assms(2) by (auto intro!: uint_sub_le)
  then have small: "uint (CapMin P) - uint pc < 2147483648"
    using assms(5) by (simp add: word_less_def)
  have a: "?a = uint pc - uint (CapMin P) + 4294967296"
    using assms(2) by (simp add: uint_sub_if' word_less_def)
  have b: "0 < ?b" "?b \<le> 2147483648"
    using assms(3,4) uint_sub_le [of "CapMin P" "CapMax P"] by (auto simp: word_less_def word_le_def)
  have ab: "?b \<le> ?a" "?a < 4294967296"
    using small a b uint_bounded [of "pc - CapMin P"] by auto
  have b0: "0 \<le> ?b" "1 \<le> ?b" "?b < 4294967296" using b by auto
  obtain y x where xy: "f_of_int ?b = Fin y" "f_of_int ?a = Fin x" "0 \<le> y" "y \<le> x"
    by (rule f_of_int_mono [OF b0(1) ab])
  obtain z w where "f_of_int 1 = Fin z" "f_of_int ?b = Fin w" "z \<le> w"
    by (rule f_of_int_mono [OF _ b0(2,3)]) auto
  moreover have "f_of_int 1 = Fin 1" using f_of_int_exact [of 1] by simp
  ultimately have y: "1 \<le> y" using xy(1) by simp
  then have q: "1 \<le> x / y" using xy(4) by (simp add: le_divide_eq)
  have rate: "LiquidHeight_Rate P pc = Fin 1"
  proof (cases "f32 (x / y)")
    case (Fin r)
    have f1: "f32 1 = Fin 1" using f32_exact_int [of 1] by simp
    obtain z where "f32 1 = Fin z" "z \<le> r" using f32_mono [of 1 "x / y" r] q Fin by auto
    then show ?thesis using f1 xy y Fin by (simp add: LiquidHeight_Rate_def Let_def)
  next
    case (Inf s)
    then have "\<not> s" using q by (auto simp: f32_def fl_round_def Let_def split: if_splits)
    then show ?thesis using xy y Inf by (simp add: LiquidHeight_Rate_def Let_def)
  next
    case NaN
    then show ?thesis by (simp add: f32_def fl_round_def Let_def split: if_splits)
  qed
  show ?thesis
    by (rule DataConvert_rate [OF assms(1) rate _ _ assms(6), of Out]) auto
qed

text \<open>The default parameters (\<open>Correct_K = 1\<close> and \<open>Correct_B = 0\<close> once loaded) with compensation
  switched on, and a sample exactly at the zero point.\<close>

lemma below_zero_reads_full_witness:
  "\<exists>Out'. Sensor_PCap_DataConvert (convert_param0\<lparr>CompenEn := 1\<rparr>) 1655630 convert_out0 = Some Out'
     \<and> LiquidHeightAD Out' = 65535 \<and> PCapDA_ResultValue Out' = 4095"
proof -
  have "PCap_corrected (convert_param0\<lparr>CompenEn := 1\<rparr>) 1655630 = Some 1655530"
    using f_of_int_exact [of 1655630] f_of_int_exact [of 100] f32_exact_int [of 1655630]
      f32_exact_int [of 1655530] f32_exact_int [of "- 100"]
    by (simp add: PCap_corrected_def convert_param0_def f_sub_def f_to_u32_def)
  then show ?thesis
    by (rule below_zero_reads_full) (simp_all add: convert_param0_def DA_ordered_def)
qed

end
