(* ===== verification/AdcApp.thy ===== *)
theory AdcApp
  imports InFlashApp Float32
begin

text \<open>
  \<open>APP/Src/adc_app.c\<close> (the averaged ADC channels and the temperature of the internal sensor)
  and the output function of \<open>BSP/Src/dac_bsp.c\<close>.  The configuration enables the ADC channel 2
  and the temperature sensor (\<open>AD_CHANNEL_2\<close> is 0, \<open>AD_CHANNEL_TEMPSENSOR\<close> is 1) and the DAC
  channel 2.  The static variables are the record \<open>adc\<close>; \<open>gADC_GetData\<close> is written by the DMA
  controller, the calibration values of the factory are read from the system memory and are
  arguments of \<open>Sensor_ADC_Init\<close>.
\<close>

section \<open>Data\<close>

record ADC_TemperParam =
  Temper_K1 :: fval
  Temper_B1 :: fval
  Temper_K2 :: fval
  Temper_B2 :: fval
  TempDAMin :: u16
  TempDAMax :: u16
  TempDARange :: u16

record ADC_TemperOut =
  TemperInAirAD :: u16
  TemperInLiquidAD :: u16
  TemperInAir :: fval
  TemperInLiquid :: fval

abbreviation (input) "AD_GROUP_MAX \<equiv> (10 :: nat)"
abbreviation (input) "AD_CHANNEL_MAX \<equiv> (2 :: nat)"
abbreviation (input) "AD_CHANNEL_TEMPSENSOR \<equiv> (1 :: nat)"

record adc =
  Temp30_Vref_Adc :: u16
  Temp110_Vref_Adc :: u16
  TempVarySlope :: fval
  gADC_GetData :: "u16 list list"
  uADC_GetResult :: "u16 list list"
  ADC_Updata_Flag :: u8
  adc_running :: bool

section \<open>The temperature parameters\<close>

definition TemperParam_u16 :: "flash \<Rightarrow> u16 \<Rightarrow> u16 option" where
  "TemperParam_u16 f a = do {
     Read_Data \<leftarrow> InFlash_Read_MultiBytes f a 2;
     b0 \<leftarrow> rd Read_Data 0; b1 \<leftarrow> rd Read_Data 1;
     Some (be16 b0 b1) }"

definition Sensor_ADC_TemperParam_Init :: "flash \<Rightarrow> ADC_TemperParam \<Rightarrow> ADC_TemperParam option" where
  "Sensor_ADC_TemperParam_Init f P = do {
     v \<leftarrow> TemperParam_u16 f TEMPER_K1; let P = P\<lparr>Temper_K1 := f_of_int (uint v)\<rparr>;
     v \<leftarrow> TemperParam_u16 f TEMPER_B1; let P = P\<lparr>Temper_B1 := f_of_int (uint v)\<rparr>;
     v \<leftarrow> TemperParam_u16 f TEMPER_K2; let P = P\<lparr>Temper_K2 := f_of_int (uint v)\<rparr>;
     v \<leftarrow> TemperParam_u16 f TEMPER_B2; let P = P\<lparr>Temper_B2 := f_of_int (uint v)\<rparr>;
     v \<leftarrow> TemperParam_u16 f TEMPDAMIN; let P = P\<lparr>TempDAMin := v\<rparr>;
     v \<leftarrow> TemperParam_u16 f TEMPDAMAX; let P = P\<lparr>TempDAMax := v\<rparr>;
     Some (P\<lparr>TempDARange := TempDAMax P - TempDAMin P\<rparr>) }"

section \<open>The converter\<close>

definition Sensor_ADC_Init :: "u16 \<Rightarrow> u16 \<Rightarrow> adc \<Rightarrow> adc" where
  "Sensor_ADC_Init vref30 vref110 a =
     (let a = a\<lparr>Temp30_Vref_Adc := vref30\<rparr>;
          a = a\<lparr>Temp110_Vref_Adc := vref110\<rparr>;
          a = a\<lparr>TempVarySlope := f_round f32 (f_div f64 (Fin 80)
                 (f_of_int (uint (Temp110_Vref_Adc a) - uint (Temp30_Vref_Adc a))))\<rparr>
      in a\<lparr>adc_running := True\<rparr>)"

text \<open>\<open>for(cn = 0; cn < AD_GROUP_MAX; cn++) AD_Sum += uADC_GetResult[cn][Channel];\<close>\<close>

fun adc_sum :: "nat \<Rightarrow> nat \<Rightarrow> nat \<Rightarrow> u16 list list \<Rightarrow> u32 \<Rightarrow> u32 option" where
  "adc_sum cn 0 ch res AD_Sum = Some AD_Sum"
| "adc_sum cn (Suc k) ch res AD_Sum = do {
     row \<leftarrow> rd res cn;
     v \<leftarrow> rd row ch;
     adc_sum (Suc cn) k ch res (AD_Sum + ucast v) }"

definition Sensor_ADC_GetChn_Value :: "nat \<Rightarrow> adc \<Rightarrow> u16 option" where
  "Sensor_ADC_GetChn_Value ch a =
     (if ch \<ge> AD_CHANNEL_MAX then Some 0
      else do {
        AD_Sum \<leftarrow> adc_sum 0 AD_GROUP_MAX ch (uADC_GetResult a) 0;
        Some (ucast (AD_Sum div 10)) })"

definition Sensor_ADC_Get_TemperData :: "adc \<Rightarrow> fval option" where
  "Sensor_ADC_Get_TemperData a = do {
     AD_Sum \<leftarrow> adc_sum 0 AD_GROUP_MAX AD_CHANNEL_TEMPSENSOR (uADC_GetResult a) 0;
     let AD_Average = (ucast (AD_Sum div 10) :: u16);
     Some (f_add f32 (f_mul f32 (TempVarySlope a)
             (f_of_int (uint AD_Average - uint (Temp30_Vref_Adc a)))) (f_of_int 30)) }"

definition Sensor_ADC_Get_Updata_Flag :: "adc \<Rightarrow> u8" where
  "Sensor_ADC_Get_Updata_Flag a = ADC_Updata_Flag a"

definition BSP_ADC_Conver_Start :: "adc \<Rightarrow> adc" where
  "BSP_ADC_Conver_Start a = a\<lparr>adc_running := True\<rparr>"

definition BSP_ADC_Conver_Stop :: "adc \<Rightarrow> adc" where
  "BSP_ADC_Conver_Stop a = a\<lparr>adc_running := False\<rparr>"

definition Sensor_ADC_Clean_Updata_Flag :: "adc \<Rightarrow> adc" where
  "Sensor_ADC_Clean_Updata_Flag a = (BSP_ADC_Conver_Start a)\<lparr>ADC_Updata_Flag := 0\<rparr>"

text \<open>The interrupt at the end of a group of conversions.\<close>

definition HAL_ADC_ConvCpltCallback :: "adc \<Rightarrow> adc" where
  "HAL_ADC_ConvCpltCallback a =
     (let a = BSP_ADC_Conver_Stop a;
          a = a\<lparr>uADC_GetResult := gADC_GetData a\<rparr>
      in a\<lparr>ADC_Updata_Flag := 1\<rparr>)"

section \<open>The output\<close>

datatype DA_CHANNEL_NUM = DA_CHANNEL_1 | DA_CHANNEL_2

record dac =
  DAC_out1 :: "u16 option"
  DAC_out2 :: "u16 option"

definition BSP_DAC_Convert :: "u16 \<Rightarrow> DA_CHANNEL_NUM \<Rightarrow> dac \<Rightarrow> u8 \<times> dac" where
  "BSP_DAC_Convert DA_Value ch d =
     (if DA_Value > 4095 then (OP_FAILED, d)
      else if ch \<noteq> DA_CHANNEL_1 \<and> ch \<noteq> DA_CHANNEL_2 then (OP_FAILED, d)
      else (OP_SUCCESS, case ch of DA_CHANNEL_1 \<Rightarrow> d\<lparr>DAC_out1 := Some DA_Value\<rparr>
                                 | DA_CHANNEL_2 \<Rightarrow> d\<lparr>DAC_out2 := Some DA_Value\<rparr>))"

section \<open>The average\<close>

definition adc_arrays :: "u16 list list \<Rightarrow> bool" where
  "adc_arrays res \<longleftrightarrow> length res = AD_GROUP_MAX \<and> (\<forall>row \<in> set res. length row = AD_CHANNEL_MAX)"

lemma adc_sum_rows:
  assumes "\<forall>row \<in> set res. ch < length row" "cn + k = length res"
    and "unat s + (\<Sum>row\<leftarrow>drop cn res. unat (row ! ch)) < 4294967296"
  shows "\<exists>t. adc_sum cn k ch res s = Some t \<and> unat t = unat s + (\<Sum>row\<leftarrow>drop cn res. unat (row ! ch))"
  using assms(2,3)
proof (induction k arbitrary: cn s)
  case (Suc k)
  let ?v = "res ! cn ! ch"
  have cn: "cn < length res" "ch < length (res ! cn)" using Suc.prems assms(1) by auto
  have d: "drop cn res = res ! cn # drop (Suc cn) res" using cn(1) by (simp add: Cons_nth_drop_Suc)
  have s: "unat (s + ucast ?v) = unat s + unat ?v"
    using Suc.prems(2) unfolding d by (simp add: unat_word_ariths)
  then obtain t where "adc_sum (Suc cn) k ch res (s + ucast ?v) = Some t"
    "unat t = unat s + unat ?v + (\<Sum>row\<leftarrow>drop (Suc cn) res. unat (row ! ch))"
    using Suc.IH [of "Suc cn" "s + ucast ?v"] Suc.prems unfolding d by auto
  then show ?case using cn unfolding d by (auto simp: add.assoc)
qed simp

lemma sum_rows_bound: "(\<Sum>row\<leftarrow>res. unat (row ! ch :: u16)) \<le> length res * 65535"
proof (induction res)
  case (Cons row res)
  then show ?case using unat_u16_less [of "row ! ch"] by simp
qed simp

lemma adc_average:
  assumes "adc_arrays res" "ch < AD_CHANNEL_MAX"
  obtains t where "adc_sum 0 AD_GROUP_MAX ch res 0 = Some t"
    "unat (ucast (t div 10) :: u16) = (\<Sum>row\<leftarrow>res. unat (row ! ch)) div AD_GROUP_MAX"
proof -
  have len: "length res = AD_GROUP_MAX" and rows: "\<forall>row \<in> set res. ch < length row"
    using assms by (auto simp: adc_arrays_def)
  have b: "(\<Sum>row\<leftarrow>res. unat (row ! ch)) \<le> 655350"
    using sum_rows_bound [of ch res] len by simp
  then have "unat (0 :: u32) + (\<Sum>row\<leftarrow>drop 0 res. unat (row ! ch)) < 4294967296" by simp
  from adc_sum_rows [OF rows _ this, of AD_GROUP_MAX] len
  obtain t where t: "adc_sum 0 AD_GROUP_MAX ch res 0 = Some t" "unat t = (\<Sum>row\<leftarrow>res. unat (row ! ch))"
    by (simp del: adc_sum.simps) blast
  have "unat (t div 10) = unat t div 10" by (simp add: unat_div)
  moreover have "unat t div 10 < 65536"
    using b unfolding t(2) by (simp add: less_mult_imp_div_less)
  ultimately have "unat (ucast (t div 10) :: u16) = unat t div 10"
    by (simp add: unsigned_ucast_eq take_bit_nat_eq_self)
  then show thesis using that [OF t(1)] by (simp only: t(2))
qed

section \<open>Properties\<close>

text \<open>\<open>Sensor_ADC_GetChn_Value\<close> stays inside the result array, answers 0 for a channel that
  is not enabled, and is otherwise the truncated mean of the ten samples of the channel: neither
  the 32-bit sum nor the 16-bit result overflows.\<close>

theorem channel_mean:
  assumes "adc_arrays (uADC_GetResult a)"
  shows "\<exists>v. Sensor_ADC_GetChn_Value ch a = Some v
     \<and> unat v = (if ch < AD_CHANNEL_MAX then (\<Sum>row\<leftarrow>uADC_GetResult a. unat (row ! ch)) div AD_GROUP_MAX else 0)"
proof (cases "ch < AD_CHANNEL_MAX")
  case True
  obtain t where t: "adc_sum 0 AD_GROUP_MAX ch (uADC_GetResult a) 0 = Some t"
    "unat (ucast (t div 10) :: u16) = (\<Sum>row\<leftarrow>uADC_GetResult a. unat (row ! ch)) div AD_GROUP_MAX"
    by (rule adc_average [OF assms True])
  have "Sensor_ADC_GetChn_Value ch a = Some (ucast (t div 10))"
    using True t(1) by (simp only: Sensor_ADC_GetChn_Value_def) simp
  with True t(2) show ?thesis by (simp only: if_True) blast
qed (simp add: Sensor_ADC_GetChn_Value_def)

definition adc_sample :: adc where
  "adc_sample = \<lparr>Temp30_Vref_Adc = 1750, Temp110_Vref_Adc = 1320, TempVarySlope = Fin (- (2 / 11)),
     gADC_GetData = replicate 10 [0, 0], uADC_GetResult = replicate 9 [4095, 1750] @ [[4090, 1750]],
     ADC_Updata_Flag = 0, adc_running = True\<rparr>"

lemma adc_arrays_sample: "adc_arrays (uADC_GetResult adc_sample)"
  by (auto simp: adc_arrays_def adc_sample_def)

lemma channel_mean_witness:
  "\<exists>v. Sensor_ADC_GetChn_Value 0 adc_sample = Some v \<and> unat v = 4094"
  using channel_mean [OF adc_arrays_sample, of 0]
  by (simp add: adc_sample_def sum_list_replicate)

text \<open>At the factory's 30 degree point the temperature reads exactly 30, whatever finite
  slope \<open>Sensor_ADC_Init\<close> has computed.\<close>

theorem temper_at_calibration_point:
  assumes "adc_arrays (uADC_GetResult a)" "TempVarySlope a = Fin s"
    and "(\<Sum>row\<leftarrow>uADC_GetResult a. unat (row ! AD_CHANNEL_TEMPSENSOR)) div AD_GROUP_MAX
           = unat (Temp30_Vref_Adc a)"
  shows "Sensor_ADC_Get_TemperData a = Some (Fin 30)"
proof -
  obtain t where t: "adc_sum 0 AD_GROUP_MAX AD_CHANNEL_TEMPSENSOR (uADC_GetResult a) 0 = Some t"
    "unat (ucast (t div 10) :: u16) = unat (Temp30_Vref_Adc a)"
    by (rule adc_average [OF assms(1), of AD_CHANNEL_TEMPSENSOR]) (simp_all only: assms(3))
  have "(ucast (t div 10) :: u16) = Temp30_Vref_Adc a"
    using t(2) by (simp only: word_unat_eq_iff)
  moreover have "f32 0 = Fin 0" "f32 30 = Fin 30" "f_of_int 0 = Fin 0" "f_of_int 30 = Fin 30"
    using f32_exact_int [of 0] f32_exact_int [of 30] f_of_int_exact [of 0] f_of_int_exact [of 30]
    by simp_all
  ultimately show ?thesis
    using t(1) assms(2) by (simp add: Sensor_ADC_Get_TemperData_def)
qed

lemma temper_at_calibration_point_witness: "Sensor_ADC_Get_TemperData adc_sample = Some (Fin 30)"
  by (rule temper_at_calibration_point [OF adc_arrays_sample, where s = "- (2 / 11)"])
    (simp_all add: adc_sample_def sum_list_replicate)

text \<open>The DAC never gets a value of more than 12 bits: \<open>BSP_DAC_Convert\<close> answers \<open>OP_FAILED\<close>
  and leaves both outputs as they are for such a value, and sets exactly the addressed channel
  otherwise.\<close>

theorem dac_twelve_bits:
  "BSP_DAC_Convert v DA_CHANNEL_2 d
     = (if unat v < 4096 then (OP_SUCCESS, d\<lparr>DAC_out2 := Some v\<rparr>) else (OP_FAILED, d))"
  by (auto simp: BSP_DAC_Convert_def word_less_nat_alt)

end
