(* ===== verification/ModbusRtu.thy ===== *)
theory ModbusRtu
  imports Crc16 Usart PicocapApp AdcApp
begin

text \<open>
  The data of \<open>APP/Inc/ModBusRtu.h\<close> and \<open>APP/Inc/ModBus_Conf.h\<close>, and the part of
  \<open>APP/Src/ModBusRtu.c\<close> that does not depend on a function code: initialisation and sending.
  The record \<open>mb\<close> is all that a Modbus handler reads and writes: the base parameters with
  their two buffers, the parameters of the device, the static variables of the calibration, the
  flash and the serial port.  The only pointer that is passed as \<open>pMsg\<close> is the send buffer.
\<close>

section \<open>Data\<close>

abbreviation (input) "SEND_SIZE \<equiv> (32 :: nat)"
abbreviation (input) "BROADCASTADDR \<equiv> (0 :: u8)"
abbreviation (input) "MB_FUNC_EXCEPTION \<equiv> (1 :: u8)"
abbreviation (input) "MB_ADDR_EXCEPTION \<equiv> (2 :: u8)"
abbreviation (input) "MB_VALU_EXCEPTION \<equiv> (3 :: u8)"
abbreviation (input) "MB_DEVC_EXCEPTION \<equiv> (4 :: u8)"
abbreviation (input) "MB_REQ_FAILURE \<equiv> (0x80 :: u8)"
abbreviation (input) "FREEZE_ENABLE \<equiv> (0x0F :: u8)"
abbreviation (input) "FREEZE_DISABLE \<equiv> (0 :: u8)"
abbreviation (input) "IN_FLASH_WR_ENABLE \<equiv> (0x0F :: u8)"
abbreviation (input) "IN_FLASH_WR_DISABLE \<equiv> (0 :: u8)"

text \<open>The functions that are assigned to the pointer \<open>ModBus_CallBack\<close>; \<open>NULL\<close> is \<open>None\<close>.\<close>

datatype mb_callback = MB_USART_ReInit | MB_Freeze | MB_System_Reset | MB_SendData_NoCheck

record ModBusBaseParam =
  Device_Addr :: u8
  BaudRate :: u8
  Parity :: u8
  AutoUpload :: u8
  Output_Mode :: u8
  Factory_Reset :: u8
  Freeze :: u8
  InRomWrEn :: u8
  Send_Buf :: "u8 list"
  Send_Len :: u16
  Receive_Buf :: "u8 list"
  ModBus_CallBack :: "mb_callback option"

record ModBus_Device_Param =
  DataFilter :: DataFilterParam
  PCap_DataConvert :: PCap_DataConvert_Param
  PCap_DataConvert_Out :: PCap_DataConvert_Out_Param
  ADC_TemperParam :: ADC_TemperParam
  ADC_TemperOut :: ADC_TemperOut

record mb_calib =
  Calib_CapMin :: u32
  Calib_CapMax :: u32
  Calib_CapDAMin :: u16
  Calib_CapDALow :: u16
  Calib_CapDAHigh :: u16
  Calib_CapDAMax :: u16
  Calib_TempDAMin :: u16
  Calib_TempDAMax :: u16
  Calib_ADMin :: u16
  Calib_ADLow :: u16
  Calib_ADHigh :: u16
  Calib_ADMax :: u16
  CapDA_ClibFlag :: u8
  CalibFlag :: u8
  CapAD_ClibFlag :: u8
  CapAD_ClibEn :: u8
  TempDA_ClibFlag :: u8
  TempDA_ClibEn :: u8

record mb =
  base :: ModBusBaseParam
  dev :: ModBus_Device_Param
  cal :: mb_calib
  fls :: flash
  port :: usart

section \<open>Initialisation\<close>

definition ModBus_Init :: "flash \<Rightarrow> ModBusBaseParam \<Rightarrow> usart \<Rightarrow> (ModBusBaseParam \<times> usart) option" where
  "ModBus_Init f b u = do {
     v \<leftarrow> flash_u8 f DEVICE_ADDR; let b = b\<lparr>Device_Addr := v\<rparr>;
     v \<leftarrow> flash_u8 f BAUDRATE; let b = b\<lparr>BaudRate := v\<rparr>;
     v \<leftarrow> flash_u8 f PARITY; let b = b\<lparr>Parity := v\<rparr>;
     v \<leftarrow> flash_u8 f AUTO_UPLOAD; let b = b\<lparr>AutoUpload := v\<rparr>;
     v \<leftarrow> flash_u8 f OUTPUTMODE; let b = b\<lparr>Output_Mode := v\<rparr>;
     v \<leftarrow> flash_u8 f FREEZE; let b = b\<lparr>Freeze := v\<rparr>;
     let b = b\<lparr>InRomWrEn := IN_FLASH_WR_DISABLE\<rparr>;
     let b = b\<lparr>ModBus_CallBack := None\<rparr>;
     let b = b\<lparr>Send_Len := 0\<rparr>;
     Some (b, Sensor_USART_Init (BaudRate b) (Parity b) u) }"

section \<open>Sending\<close>

definition MDB_Snd_Msg_RTU :: "u16 \<Rightarrow> bool \<Rightarrow> mb \<Rightarrow> mb option" where
  "MDB_Snd_Msg_RTU len Check_Addr s =
     (let pMsg = Send_Buf (base s) in
      if len = 0 \<or> SEND_SIZE - 2 < unat len then Some s
      else do {
        addr \<leftarrow> rd pMsg 0;
        if addr = BROADCASTADDR \<and> Check_Addr then Some s
        else if Freeze (base s) \<noteq> FREEZE_DISABLE then Some s
        else do {
          msg \<leftarrow> rdn pMsg 0 (unat len);
          let uiCRC = MDB_Get_CRC16 msg;
          pMsg \<leftarrow> wr pMsg (unat len) (lo8 uiCRC);
          pMsg \<leftarrow> wr pMsg (unat len + 1) (hi8 uiCRC);
          u \<leftarrow> Send_Data pMsg (len + 2) (port s);
          Some (s\<lparr>base := (base s)\<lparr>Send_Buf := pMsg\<rparr>, port := u\<rparr>) } })"

section \<open>Reading a request and filling the reply\<close>

definition ModBus_ReadPreHandle :: "ModBusBaseParam \<Rightarrow> (u16 \<times> u16 \<times> ModBusBaseParam) option" where
  "ModBus_ReadPreHandle b = do {
     r2 \<leftarrow> rd (Receive_Buf b) 2; r3 \<leftarrow> rd (Receive_Buf b) 3;
     r4 \<leftarrow> rd (Receive_Buf b) 4; r5 \<leftarrow> rd (Receive_Buf b) 5;
     bs \<leftarrow> rdn (Receive_Buf b) 0 2;
     sb \<leftarrow> wrn (Send_Buf b) 0 bs;
     Some (be16 r2 r3, be16 r4 r5, b\<lparr>Send_Buf := sb, Send_Len := 2\<rparr>) }"

definition ModBus_WritePreHandle :: "ModBusBaseParam \<Rightarrow> (u16 \<times> u16 \<times> ModBusBaseParam) option" where
  "ModBus_WritePreHandle b = do {
     r2 \<leftarrow> rd (Receive_Buf b) 2; r3 \<leftarrow> rd (Receive_Buf b) 3;
     r4 \<leftarrow> rd (Receive_Buf b) 4; r5 \<leftarrow> rd (Receive_Buf b) 5;
     bs \<leftarrow> rdn (Receive_Buf b) 0 6;
     sb \<leftarrow> wrn (Send_Buf b) 0 bs;
     Some (be16 r2 r3, be16 r4 r5, b\<lparr>Send_Buf := sb, Send_Len := 6\<rparr>) }"

text \<open>\<open>Send_Buf[1] |= MB_REQ_FAILURE; Send_Buf[2] = code; Send_Len = 3;\<close>\<close>

definition mb_exception :: "u8 \<Rightarrow> ModBusBaseParam \<Rightarrow> ModBusBaseParam option" where
  "mb_exception code b = do {
     c \<leftarrow> rd (Send_Buf b) 1;
     sb \<leftarrow> wr (Send_Buf b) 1 (c OR MB_REQ_FAILURE);
     sb \<leftarrow> wr sb 2 code;
     Some (b\<lparr>Send_Buf := sb, Send_Len := 3\<rparr>) }"

text \<open>\<open>Send_Buf[Send_Len++] = v;\<close>\<close>

definition mb_put :: "u8 \<Rightarrow> ModBusBaseParam \<Rightarrow> ModBusBaseParam option" where
  "mb_put v b = do {
     sb \<leftarrow> wr (Send_Buf b) (unat (Send_Len b)) v;
     Some (b\<lparr>Send_Buf := sb, Send_Len := Send_Len b + 1\<rparr>) }"

definition mb_put16 :: "u16 \<Rightarrow> ModBusBaseParam \<Rightarrow> ModBusBaseParam option" where
  "mb_put16 v b = do { b \<leftarrow> mb_put (hi8 v) b; mb_put (lo8 v) b }"

definition mb_put32 :: "u32 \<Rightarrow> ModBusBaseParam \<Rightarrow> ModBusBaseParam option" where
  "mb_put32 v b = do {
     b \<leftarrow> mb_put (byte_of 3 v) b; b \<leftarrow> mb_put (byte_of 2 v) b;
     b \<leftarrow> mb_put (byte_of 1 v) b; mb_put (byte_of 0 v) b }"

section \<open>Buffers\<close>

text \<open>The buffers have their sizes and the transmitter can make progress.\<close>

definition bufs_ok :: "ModBusBaseParam \<Rightarrow> bool" where
  "bufs_ok b \<longleftrightarrow> length (Send_Buf b) = SEND_SIZE \<and> length (Receive_Buf b) = RECEIVE_SIZE"

definition mb_ok :: "mb \<Rightarrow> bool" where
  "mb_ok s \<longleftrightarrow> bufs_ok (base s) \<and> tx_live (port s)"

text \<open>The reply under construction.\<close>

definition reply :: "ModBusBaseParam \<Rightarrow> u8 list" where
  "reply b = take (unat (Send_Len b)) (Send_Buf b)"

text \<open>The base parameters apart from the reply.\<close>

definition same_but_reply :: "ModBusBaseParam \<Rightarrow> ModBusBaseParam \<Rightarrow> bool" where
  "same_but_reply b' b \<longleftrightarrow> b' = b\<lparr>Send_Buf := Send_Buf b', Send_Len := Send_Len b'\<rparr>"

lemma same_but_reply_refl [simp]: "same_but_reply b b"
  by (simp add: same_but_reply_def)

lemma same_but_reply_fields:
  assumes "same_but_reply b' b"
  shows "Device_Addr b' = Device_Addr b" "BaudRate b' = BaudRate b" "Parity b' = Parity b"
    "AutoUpload b' = AutoUpload b" "Output_Mode b' = Output_Mode b" "Freeze b' = Freeze b"
    "InRomWrEn b' = InRomWrEn b" "Receive_Buf b' = Receive_Buf b" "ModBus_CallBack b' = ModBus_CallBack b"
    "Factory_Reset b' = Factory_Reset b"
  by (subst assms [unfolded same_but_reply_def], simp)+

lemma same_but_reply_trans: "same_but_reply c b \<Longrightarrow> same_but_reply b a \<Longrightarrow> same_but_reply c a"
  by (cases a; cases b; cases c) (simp add: same_but_reply_def)

lemma mb_put_ok:
  assumes "bufs_ok b" "unat (Send_Len b) < SEND_SIZE"
  obtains b' where "mb_put v b = Some b'" "bufs_ok b'" "reply b' = reply b @ [v]"
    "unat (Send_Len b') = unat (Send_Len b) + 1" "same_but_reply b' b"
proof -
  have len: "unat (Send_Len b + 1) = unat (Send_Len b) + 1"
    using assms(2) by (simp add: unat_word_ariths)
  have "mb_put v b = Some (b\<lparr>Send_Buf := (Send_Buf b)[unat (Send_Len b) := v], Send_Len := Send_Len b + 1\<rparr>)"
    using assms by (simp add: mb_put_def bufs_ok_def)
  then show thesis
    using assms len
    by (intro that [of "b\<lparr>Send_Buf := (Send_Buf b)[unat (Send_Len b) := v], Send_Len := Send_Len b + 1\<rparr>"])
      (simp_all add: bufs_ok_def reply_def take_update_Suc same_but_reply_def)
qed

lemma mb_put16_ok:
  assumes "bufs_ok b" "unat (Send_Len b) + 2 \<le> SEND_SIZE"
  obtains b' where "mb_put16 v b = Some b'" "bufs_ok b'" "reply b' = reply b @ [hi8 v, lo8 v]"
    "unat (Send_Len b') = unat (Send_Len b) + 2" "same_but_reply b' b"
proof -
  obtain b1 where 1: "mb_put (hi8 v) b = Some b1" "bufs_ok b1" "reply b1 = reply b @ [hi8 v]"
    "unat (Send_Len b1) = unat (Send_Len b) + 1" "same_but_reply b1 b"
    using mb_put_ok [OF assms(1), of "hi8 v"] assms(2) by auto
  obtain b2 where 2: "mb_put (lo8 v) b1 = Some b2" "bufs_ok b2" "reply b2 = reply b1 @ [lo8 v]"
    "unat (Send_Len b2) = unat (Send_Len b1) + 1" "same_but_reply b2 b1"
    using mb_put_ok [OF 1(2), of "lo8 v"] 1(4) assms(2) by auto
  show thesis
    by (rule that [of b2]) (use 1 2 same_but_reply_trans [OF 2(5) 1(5)] in \<open>simp_all add: mb_put16_def\<close>)
qed

lemma mb_put32_put16: "mb_put32 v b = Option.bind (mb_put16 (be16 (byte_of 3 v) (byte_of 2 v)) b)
    (mb_put16 (be16 (byte_of 1 v) (byte_of 0 v)))"
  by (simp add: mb_put32_def mb_put16_def [abs_def] bytes_simps del: One_nat_def)

lemma mb_put32_ok:
  assumes "bufs_ok b" "unat (Send_Len b) + 4 \<le> SEND_SIZE"
  obtains b' where "mb_put32 v b = Some b'" "bufs_ok b'"
    "reply b' = reply b @ [byte_of 3 v, byte_of 2 v, byte_of 1 v, byte_of 0 v]"
    "unat (Send_Len b') = unat (Send_Len b) + 4" "same_but_reply b' b"
proof -
  let ?h = "be16 (byte_of 3 v) (byte_of 2 v)" and ?l = "be16 (byte_of 1 v) (byte_of 0 v)"
  obtain b1 where 1: "mb_put16 ?h b = Some b1" "bufs_ok b1" "reply b1 = reply b @ [hi8 ?h, lo8 ?h]"
    "unat (Send_Len b1) = unat (Send_Len b) + 2" "same_but_reply b1 b"
    by (rule mb_put16_ok [OF assms(1), of ?h]) (use assms(2) in auto)
  obtain b2 where 2: "mb_put16 ?l b1 = Some b2" "bufs_ok b2" "reply b2 = reply b1 @ [hi8 ?l, lo8 ?l]"
    "unat (Send_Len b2) = unat (Send_Len b1) + 2" "same_but_reply b2 b1"
    by (rule mb_put16_ok [OF 1(2), of ?l]) (use assms(2) 1(4) in auto)
  show thesis
    by (rule that [of b2])
      (use 1 2 same_but_reply_trans [OF 2(5) 1(5)] in \<open>simp_all add: mb_put32_put16 bytes_simps\<close>)
qed

lemma mb_put_overflow:
  "bufs_ok b \<Longrightarrow> SEND_SIZE \<le> unat (Send_Len b) \<Longrightarrow> mb_put v b = None"
  by (simp add: mb_put_def bufs_ok_def)

end
