(* ===== verification/ModbusRead.thy ===== *)
theory ModbusRead
  imports ModbusRtu
begin

text \<open>
  The reading function codes of \<open>APP/Src/ModBus_Conf.c\<close>: 03 (holding registers), 04 (input
  registers), 26 (calibration values) and 2B (version strings).  The body of the register loop
  is a function of its own for each code (\<open>reg03\<close>, \<open>reg04\<close>, \<open>reg26\<close>, \<open>obj2B\<close>); a \<open>float\<close> that
  the code reinterprets as \<open>uint32_t\<close> is \<open>f32_bits\<close> of it.
\<close>

section \<open>Function code 03\<close>

text \<open>The registers 0x30 to 0x41: the value, and the base parameters (register 0x30 requests a
  reply without check of the address when the request is a broadcast).\<close>

definition reg03 :: "u16 \<Rightarrow> mb \<Rightarrow> (u16 \<times> ModBusBaseParam) option" where
  "reg03 ReadAddr s =
     (let b = base s; P = PCap_DataConvert (dev s) in
      if ReadAddr = 0x0030 then do {
        r0 \<leftarrow> rd (Receive_Buf b) 0;
        Some (ucast (Device_Addr b),
              if r0 = BROADCASTADDR then b\<lparr>ModBus_CallBack := Some MB_SendData_NoCheck\<rparr> else b) }
      else if ReadAddr = 0x0031 then Some (ucast (BaudRate b), b)
      else if ReadAddr = 0x0032 then Some (ucast (Parity b), b)
      else if ReadAddr = 0x0033 then Some (0, b)
      else if ReadAddr = 0x0034 then Some (ucast (CompenEn P), b)
      else if ReadAddr = 0x0035 then Some (ucast (FilterFactor (DataFilter (dev s))), b)
      else if ReadAddr = 0x0036 then Some (ucast (AutoUpload b), b)
      else if ReadAddr = 0x0037 then do {
        v \<leftarrow> f_to_u16 (f_mul f32 (Correct_K P) (f_of_int 100));
        Some (v, b) }
      else if ReadAddr = 0x0038 then do {
        v \<leftarrow> f_to_u16 (Correct_B P);
        Some (v + 100, b) }
      else if ReadAddr = 0x0039 then Some (ucast (Output_Mode b), b)
      else if ReadAddr = 0x003F then Some (HeightRange P, b)
      else if ReadAddr = 0x0040 then Some (0, b)
      else if ReadAddr = 0x0041 then Some (0, b)
      else Some (0, b))"

fun loop03 :: "nat \<Rightarrow> u16 \<Rightarrow> mb \<Rightarrow> mb option" where
  "loop03 0 ReadAddr s = Some s"
| "loop03 (Suc n) ReadAddr s = do {
     (DataBuf, b) \<leftarrow> reg03 ReadAddr s;
     b \<leftarrow> mb_put16 DataBuf b;
     loop03 n (ReadAddr + 1) (s\<lparr>base := b\<rparr>) }"

definition ModbusFunc03 :: "mb \<Rightarrow> mb option" where
  "ModbusFunc03 s = do {
     (ReadAddr, RegNum, b) \<leftarrow> ModBus_ReadPreHandle (base s);
     if ReadAddr < 0x0030 \<or> unat ReadAddr + unat RegNum > 0x0041 + 1 \<or> RegNum = 0
     then do { b \<leftarrow> mb_exception MB_ADDR_EXCEPTION b; Some (s\<lparr>base := b\<rparr>) }
     else do {
       b \<leftarrow> mb_put (ucast (RegNum * 2)) b;
       loop03 (unat RegNum) ReadAddr (s\<lparr>base := b\<rparr>) } }"

section \<open>Function code 04\<close>

definition reg04 :: "u16 \<Rightarrow> mb \<Rightarrow> u32" where
  "reg04 ReadAddr s =
     (let Out = PCap_DataConvert_Out (dev s); T = ADC_TemperOut (dev s) in
      if ReadAddr = 0x0000 then f32_bits (f_of_int (uint (LiquidHeightAD Out)))
      else if ReadAddr = 0x0002 then f32_bits (TemperInAir T)
      else if ReadAddr = 0x0004 then f32_bits (TemperInLiquid T)
      else if ReadAddr = 0x0080 then f32_bits (f_of_int (uint (PCap_ResultValue Out)))
      else 0)"

text \<open>The loop makes one iteration for \<open>Nr = 0, 2, \<dots>\<close> below \<open>RegNum\<close>.\<close>

fun loop04 :: "nat \<Rightarrow> u16 \<Rightarrow> mb \<Rightarrow> mb option" where
  "loop04 0 ReadAddr s = Some s"
| "loop04 (Suc n) ReadAddr s = do {
     b \<leftarrow> mb_put32 (reg04 ReadAddr s) (base s);
     loop04 n (ReadAddr + 2) (s\<lparr>base := b\<rparr>) }"

definition ModbusFunc04 :: "mb \<Rightarrow> mb option" where
  "ModbusFunc04 s = do {
     (ReadAddr, RegNum, b) \<leftarrow> ModBus_ReadPreHandle (base s);
     if unat ReadAddr + unat RegNum > 0x0080 + 2 \<or> ReadAddr AND 0x01 \<noteq> 0 \<or> RegNum AND 0x01 \<noteq> 0
        \<or> RegNum = 0
     then do { b \<leftarrow> mb_exception MB_ADDR_EXCEPTION b; Some (s\<lparr>base := b\<rparr>) }
     else do {
       b \<leftarrow> mb_put (ucast (RegNum * 2)) b;
       loop04 ((unat RegNum + 1) div 2) ReadAddr (s\<lparr>base := b\<rparr>) } }"

section \<open>Function code 26\<close>

text \<open>\<open>DataBuf\<close> is a local variable without initial value (\<open>None\<close>); the registers 0x94 to 0x9A
  leave it as it is.\<close>

definition reg26 :: "u16 \<Rightarrow> mb \<Rightarrow> u32 option \<Rightarrow> u32 option" where
  "reg26 ReadAddr s DataBuf =
     (let P = PCap_DataConvert (dev s); T = ADC_TemperParam (dev s) in
      if ReadAddr = 0x0080 then Some (f32_bits (f_of_int (uint (CapMax P))))
      else if ReadAddr = 0x0082 then Some (f32_bits (f_of_int (uint (CapMin P))))
      else if ReadAddr = 0x0084 then Some (f32_bits (f_of_int (uint (CapDAMax P))))
      else if ReadAddr = 0x0086 then Some (f32_bits (f_of_int (uint (CapDAHigh P))))
      else if ReadAddr = 0x0088 then Some (f32_bits (f_of_int (uint (CapDALow P))))
      else if ReadAddr = 0x008A then Some (f32_bits (f_of_int (uint (CapDAMin P))))
      else if ReadAddr = 0x008C then Some (f32_bits (f_of_int (uint (CapADMax P))))
      else if ReadAddr = 0x008E then Some (f32_bits (f_of_int (uint (CapADHigh P))))
      else if ReadAddr = 0x0090 then Some (f32_bits (f_of_int (uint (CapADLow P))))
      else if ReadAddr = 0x0092 then Some (f32_bits (f_of_int (uint (CapADMin P))))
      else if ReadAddr = 0x009C then Some (f32_bits (Temper_K1 T))
      else if ReadAddr = 0x009E then Some (f32_bits (Temper_B1 T))
      else if ReadAddr = 0x00A0 then Some (f32_bits (Temper_K2 T))
      else if ReadAddr = 0x00A2 then Some (f32_bits (Temper_B2 T))
      else DataBuf)"

fun loop26 :: "nat \<Rightarrow> u16 \<Rightarrow> u32 option \<Rightarrow> mb \<Rightarrow> mb option" where
  "loop26 0 ReadAddr DataBuf s = Some s"
| "loop26 (Suc n) ReadAddr DataBuf s = do {
     v \<leftarrow> reg26 ReadAddr s DataBuf;
     b \<leftarrow> mb_put32 v (base s);
     loop26 n (ReadAddr + 2) (Some v) (s\<lparr>base := b\<rparr>) }"

definition ModbusFunc26 :: "mb \<Rightarrow> mb option" where
  "ModbusFunc26 s = do {
     (ReadAddr, RegNum, b) \<leftarrow> ModBus_ReadPreHandle (base s);
     if ReadAddr < 0x0080 \<or> unat ReadAddr + unat RegNum > 0x00A2 + 2
        \<or> RegNum AND 0x01 \<noteq> 0 \<or> ReadAddr AND 0x01 \<noteq> 0 \<or> RegNum = 0
     then do { b \<leftarrow> mb_exception MB_ADDR_EXCEPTION b; Some (s\<lparr>base := b\<rparr>) }
     else do {
       b \<leftarrow> mb_put (ucast (RegNum * 2)) b;
       loop26 ((unat RegNum + 1) div 2) ReadAddr None (s\<lparr>base := b\<rparr>) } }"

section \<open>Function code 2B\<close>

text \<open>The six objects differ in their address only.\<close>

definition version_addr :: "u16 \<Rightarrow> u16 option" where
  "version_addr a =
     (if a = 0x00E0 then Some ORGANIZATION else if a = 0x00E1 then Some PRODUCTION
      else if a = 0x00E2 then Some HARDWAREVER else if a = 0x00E3 then Some SOFTWAREVER
      else if a = 0x00E4 then Some DEVICENUM else if a = 0x00E5 then Some CUSTOMER else None)"

definition obj2B :: "flash \<Rightarrow> u16 \<Rightarrow> ModBusBaseParam \<Rightarrow> ModBusBaseParam option" where
  "obj2B f ADDR b = do {
     objlen \<leftarrow> InFlash_Read_OneByte f ADDR;
     b \<leftarrow> mb_put objlen b;
     if unat objlen > SEND_SIZE div 3 \<or> objlen = 0
     then do {
       sb \<leftarrow> wr (Send_Buf b) (unat (Send_Len b) - 1) 1;
       mb_put 0 (b\<lparr>Send_Buf := sb\<rparr>) }
     else do {
       bs \<leftarrow> InFlash_Read_MultiBytes f (ADDR + 1) (ucast objlen);
       sb \<leftarrow> wrn (Send_Buf b) (unat (Send_Len b)) bs;
       Some (b\<lparr>Send_Buf := sb, Send_Len := Send_Len b + ucast objlen\<rparr>) } }"

fun loop2B :: "flash \<Rightarrow> nat \<Rightarrow> u16 \<Rightarrow> ModBusBaseParam \<Rightarrow> ModBusBaseParam option" where
  "loop2B f 0 ReadAddr b = Some b"
| "loop2B f (Suc n) ReadAddr b = do {
     b \<leftarrow> (case version_addr ReadAddr of Some a \<Rightarrow> obj2B f a b | None \<Rightarrow> Some b);
     loop2B f n (ReadAddr + 1) b }"

definition ModbusFunc2B :: "mb \<Rightarrow> mb option" where
  "ModbusFunc2B s = do {
     (ReadAddr, RegNum, b) \<leftarrow> ModBus_ReadPreHandle (base s);
     if ReadAddr < 0x00E0 \<or> unat ReadAddr + unat RegNum > 0x00E5 + 1 \<or> RegNum = 0
     then do { b \<leftarrow> mb_exception MB_ADDR_EXCEPTION b; Some (s\<lparr>base := b\<rparr>) }
     else do {
       b45 \<leftarrow> rdn (Receive_Buf b) 4 2;
       b23 \<leftarrow> rdn (Receive_Buf b) 2 2;
       sb \<leftarrow> wrn (Send_Buf b) 2 b45;
       sb \<leftarrow> wrn sb 4 b23;
       b \<leftarrow> loop2B (fls s) (unat RegNum) ReadAddr (b\<lparr>Send_Buf := sb, Send_Len := 6\<rparr>);
       Some (s\<lparr>base := b\<rparr>) } }"


section \<open>The interface of a register loop\<close>

text \<open>The base parameters apart from the reply and the callback.\<close>

definition same_but_reply_cb :: "ModBusBaseParam \<Rightarrow> ModBusBaseParam \<Rightarrow> bool" where
  "same_but_reply_cb b' b \<longleftrightarrow>
     b' = b\<lparr>Send_Buf := Send_Buf b', Send_Len := Send_Len b', ModBus_CallBack := ModBus_CallBack b'\<rparr>"

lemma same_but_reply_cb_refl [simp]: "same_but_reply_cb b b"
  by (simp add: same_but_reply_cb_def)

lemma same_but_reply_cb_trans:
  "same_but_reply_cb c b \<Longrightarrow> same_but_reply_cb b a \<Longrightarrow> same_but_reply_cb c a"
  by (cases a; cases b; cases c) (simp add: same_but_reply_cb_def)

lemma same_but_reply_imp_cb: "same_but_reply c b \<Longrightarrow> same_but_reply_cb c b"
  by (cases b; cases c) (simp add: same_but_reply_cb_def same_but_reply_def)

lemma same_but_reply_cb_fields:
  assumes "same_but_reply_cb b' b"
  shows "Device_Addr b' = Device_Addr b" "BaudRate b' = BaudRate b" "Parity b' = Parity b"
    "AutoUpload b' = AutoUpload b" "Output_Mode b' = Output_Mode b" "Freeze b' = Freeze b"
    "InRomWrEn b' = InRomWrEn b" "Receive_Buf b' = Receive_Buf b" "Factory_Reset b' = Factory_Reset b"
  by (subst assms [unfolded same_but_reply_cb_def], simp)+

text \<open>What the loops of the reading function codes share.  \<open>loop n a x s\<close> handles \<open>n\<close> more
  registers from \<open>a\<close> on with the local variables \<open>x\<close>; \<open>value a s\<close> is the contents of register
  \<open>a\<close>, which does not depend on the reply under construction; \<open>put\<close> appends its \<open>width\<close> bytes
  \<open>enc v\<close>, and fails when they do not fit; reading a register of \<open>marked\<close> in a broadcast
  requests the unchecked reply.\<close>

definition cb_after :: "bool \<Rightarrow> ModBusBaseParam \<Rightarrow> mb_callback option" where
  "cb_after m b = (if m \<and> Receive_Buf b ! 0 = BROADCASTADDR then Some MB_SendData_NoCheck
                   else ModBus_CallBack b)"

definition mark_cb :: "bool \<Rightarrow> ModBusBaseParam \<Rightarrow> ModBusBaseParam" where
  "mark_cb m b = b\<lparr>ModBus_CallBack := cb_after m b\<rparr>"

locale reg_bank =
  fixes loop :: "nat \<Rightarrow> u16 \<Rightarrow> 'x \<Rightarrow> mb \<Rightarrow> mb option"
    and value_of :: "u16 \<Rightarrow> mb \<Rightarrow> 'v option"
    and marked :: "u16 \<Rightarrow> bool"
    and put :: "'v \<Rightarrow> ModBusBaseParam \<Rightarrow> ModBusBaseParam option"
    and enc :: "'v \<Rightarrow> u8 list"
    and width :: nat
    and stride :: u16
    and after :: "'v \<Rightarrow> 'x \<Rightarrow> 'x"
  assumes loop_0: "loop 0 a x s = Some s"
    and loop_Suc: "bufs_ok (base s) \<Longrightarrow> value_of a s = Some v \<Longrightarrow>
          loop (Suc n) a x s = Option.bind (put v (mark_cb (marked a) (base s)))
            (\<lambda>b. loop n (a + stride) (after v x) (s\<lparr>base := b\<rparr>))"
    and value_frame: "same_but_reply_cb b (base s) \<Longrightarrow> value_of a (s\<lparr>base := b\<rparr>) = value_of a s"
    and put_ok: "bufs_ok b \<Longrightarrow> unat (Send_Len b) + width \<le> SEND_SIZE \<Longrightarrow>
          \<exists>b'. put v b = Some b' \<and> bufs_ok b' \<and> reply b' = reply b @ enc v
             \<and> unat (Send_Len b') = unat (Send_Len b) + width \<and> same_but_reply b' b"
    and put_overflow: "bufs_ok b \<Longrightarrow> SEND_SIZE < unat (Send_Len b) + width \<Longrightarrow> put v b = None"
begin

lemma mark_frame:
  "bufs_ok (mark_cb m b) = bufs_ok b" "reply (mark_cb m b) = reply b" "Send_Len (mark_cb m b) = Send_Len b"
  "same_but_reply_cb (mark_cb m b) b"
  by (simp_all add: mark_cb_def bufs_ok_def reply_def same_but_reply_cb_def)

lemma mark_callback: "ModBus_CallBack (mark_cb m b) = cb_after m b"
  by (simp add: mark_cb_def)

lemma cb_after_twice:
  assumes "same_but_reply_cb b a" "ModBus_CallBack b = cb_after m a"
  shows "cb_after m' b = cb_after (m \<or> m') a"
  using assms(2) same_but_reply_cb_fields(8) [OF assms(1)] by (simp add: cb_after_def)

text \<open>One iteration that fits.\<close>

lemma loop_step:
  assumes "bufs_ok (base s)" "unat (Send_Len (base s)) + width \<le> SEND_SIZE" "value_of a s = Some v"
  obtains b where "loop (Suc n) a x s = loop n (a + stride) (after v x) (s\<lparr>base := b\<rparr>)" "bufs_ok b"
    "reply b = reply (base s) @ enc v" "unat (Send_Len b) = unat (Send_Len (base s)) + width"
    "same_but_reply_cb b (base s)"
    "ModBus_CallBack b = cb_after (marked a) (base s)"
proof -
  let ?m = "mark_cb (marked a) (base s)"
  obtain b where b: "put v ?m = Some b" "bufs_ok b" "reply b = reply ?m @ enc v"
    "unat (Send_Len b) = unat (Send_Len ?m) + width" "same_but_reply b ?m"
    using put_ok [of ?m v] assms(1,2) by (auto simp: mark_frame)
  have "same_but_reply_cb b (base s)"
    by (rule same_but_reply_cb_trans [OF same_but_reply_imp_cb [OF b(5)] mark_frame(4)])
  with b show thesis
    using that [of b] loop_Suc [OF assms(1,3), of n x] same_but_reply_fields(9) [OF b(5)]
    by (simp add: mark_frame mark_callback)
qed

lemma loop_reply:
  assumes "bufs_ok (base s)" "unat (Send_Len (base s)) + length vs * width \<le> SEND_SIZE"
    and "\<And>k. k < length vs \<Longrightarrow> value_of (a + of_nat k * stride) s = Some (vs ! k)"
  shows "\<exists>b. loop (length vs) a x s = Some (s\<lparr>base := b\<rparr>) \<and> bufs_ok b
     \<and> reply b = reply (base s) @ concat (map enc vs)
     \<and> unat (Send_Len b) = unat (Send_Len (base s)) + length vs * width
     \<and> same_but_reply_cb b (base s)
     \<and> ModBus_CallBack b = cb_after (\<exists>k<length vs. marked (a + of_nat k * stride)) (base s)"
  using assms
proof (induction vs arbitrary: a x s)
  case Nil
  then show ?case by (auto simp: loop_0 cb_after_def intro: exI [of _ "base s"])
next
  case (Cons v vs)
  have v: "value_of a s = Some v" using Cons.prems(3) [of 0] by simp
  have "unat (Send_Len (base s)) + width \<le> SEND_SIZE" using Cons.prems(2) by simp
  from loop_step [OF Cons.prems(1) this v] obtain b where
    b: "loop (Suc (length vs)) a x s = loop (length vs) (a + stride) (after v x) (s\<lparr>base := b\<rparr>)"
    "bufs_ok b" "reply b = reply (base s) @ enc v" "unat (Send_Len b) = unat (Send_Len (base s)) + width"
    "same_but_reply_cb b (base s)"
    "ModBus_CallBack b = cb_after (marked a) (base s)"
    by blast
  have idx: "a + stride + of_nat k * stride = a + of_nat (Suc k) * stride" for k
    by (simp add: algebra_simps)
  have "value_of (a + stride + of_nat k * stride) (s\<lparr>base := b\<rparr>) = Some (vs ! k)" if "k < length vs" for k
    using Cons.prems(3) [of "Suc k"] that unfolding value_frame [OF b(5)] idx by simp
  then have "\<exists>c. loop (length vs) (a + stride) (after v x) (s\<lparr>base := b\<rparr>) = Some (s\<lparr>base := c\<rparr>) \<and> bufs_ok c
      \<and> reply c = reply b @ concat (map enc vs) \<and> unat (Send_Len c) = unat (Send_Len b) + length vs * width
      \<and> same_but_reply_cb c b
      \<and> ModBus_CallBack c = cb_after (\<exists>k<length vs. marked (a + stride + of_nat k * stride)) b"
    using Cons.IH [of "s\<lparr>base := b\<rparr>" "a + stride" "after v x"] Cons.prems(2) b(2,4) by simp
  then obtain c where c: "loop (length vs) (a + stride) (after v x) (s\<lparr>base := b\<rparr>) = Some (s\<lparr>base := c\<rparr>)" "bufs_ok c"
    "reply c = reply b @ concat (map enc vs)" "unat (Send_Len c) = unat (Send_Len b) + length vs * width"
    "same_but_reply_cb c b"
    "ModBus_CallBack c = cb_after (\<exists>k<length vs. marked (a + stride + of_nat k * stride)) b"
    by blast
  have ex: "(\<exists>k<Suc (length vs). marked (a + of_nat k * stride))
      \<longleftrightarrow> marked a \<or> (\<exists>k<length vs. marked (a + stride + of_nat k * stride))"
    unfolding idx by (auto simp: less_Suc_eq_0_disj)
  have "ModBus_CallBack c = cb_after (\<exists>k<Suc (length vs). marked (a + of_nat k * stride)) (base s)"
    unfolding ex c(6) by (rule cb_after_twice [OF b(5,6)])
  then show ?case
    using b(1,3,4) c(1-4) same_but_reply_cb_trans [OF c(5) b(5)] by (intro exI [of _ c]) simp
qed

text \<open>A reply that does not fit into the send buffer.\<close>

lemma loop_overflow:
  assumes "bufs_ok (base s)" "SEND_SIZE < unat (Send_Len (base s)) + length vs * width"
    and "unat (Send_Len (base s)) \<le> SEND_SIZE"
    and "\<And>k. k < length vs \<Longrightarrow> value_of (a + of_nat k * stride) s = Some (vs ! k)"
  shows "loop (length vs) a x s = None"
  using assms
proof (induction vs arbitrary: a x s)
  case (Cons v vs)
  have v: "value_of a s = Some v" using Cons.prems(4) [of 0] by simp
  show ?case
  proof (cases "unat (Send_Len (base s)) + width \<le> SEND_SIZE")
    case True
    from loop_step [OF Cons.prems(1) True v] obtain b where
      b: "loop (Suc (length vs)) a x s = loop (length vs) (a + stride) (after v x) (s\<lparr>base := b\<rparr>)"
      "bufs_ok b" "unat (Send_Len b) = unat (Send_Len (base s)) + width" "same_but_reply_cb b (base s)"
      by blast
    have idx: "a + stride + of_nat k * stride = a + of_nat (Suc k) * stride" for k
      by (simp add: algebra_simps)
    have "value_of (a + stride + of_nat k * stride) (s\<lparr>base := b\<rparr>) = Some (vs ! k)" if "k < length vs" for k
      using Cons.prems(4) [of "Suc k"] that unfolding value_frame [OF b(4)] idx by simp
    from Cons.IH [OF _ _ _ this] Cons.prems(2) True b show ?thesis by simp
  next
    case False
    then show ?thesis
      using loop_Suc [OF Cons.prems(1) v] put_overflow [of "mark_cb (marked a) (base s)"] Cons.prems(1)
      by (simp add: mark_frame)
  qed
qed simp

end

section \<open>The three banks\<close>

definition holding :: "u16 \<Rightarrow> mb \<Rightarrow> u16 option" where
  "holding a s = map_option fst (reg03 a s)"

lemma reg03_split:
  assumes "bufs_ok (base s)" "holding a s = Some v"
  shows "reg03 a s = Some (v, mark_cb (a = 0x0030) (base s))"
  using assms
  by (auto simp: holding_def reg03_def mark_cb_def cb_after_def bufs_ok_def Let_def bind_eq_Some_conv split: if_splits)

lemma holding_frame:
  assumes "same_but_reply_cb b (base s)"
  shows "holding a (s\<lparr>base := b\<rparr>) = holding a s"
proof -
  note f = same_but_reply_cb_fields [OF assms]
  show ?thesis
    by (simp add: holding_def reg03_def Let_def f option.map_comp comp_def map_option_bind cong: if_cong)
qed

lemma mb_put16_overflow:
  assumes "bufs_ok b" "SEND_SIZE < unat (Send_Len b) + 2"
  shows "mb_put16 v b = None"
proof (cases "unat (Send_Len b) < SEND_SIZE")
  case True
  then obtain b1 where "mb_put (hi8 v) b = Some b1" "bufs_ok b1" "unat (Send_Len b1) = unat (Send_Len b) + 1"
    using mb_put_ok [OF assms(1) True] by metis
  then show ?thesis using assms(2) mb_put_overflow [of b1] by (simp add: mb_put16_def)
qed (use assms(1) mb_put_overflow [of b] in \<open>simp add: mb_put16_def\<close>)

lemma mb_put32_overflow:
  assumes "bufs_ok b" "SEND_SIZE < unat (Send_Len b) + 4"
  shows "mb_put32 v b = None"
proof (cases "unat (Send_Len b) + 2 \<le> SEND_SIZE")
  case True
  let ?h = "be16 (byte_of 3 v) (byte_of 2 v)"
  obtain b1 where "mb_put16 ?h b = Some b1" "bufs_ok b1" "unat (Send_Len b1) = unat (Send_Len b) + 2"
    using mb_put16_ok [OF assms(1) True] by metis
  then show ?thesis using assms(2) mb_put16_overflow [of b1] by (simp add: mb_put32_put16)
qed (use assms(1) mb_put16_overflow [of b] in \<open>simp add: mb_put32_put16\<close>)

abbreviation enc16 :: "u16 \<Rightarrow> u8 list" where "enc16 v \<equiv> [hi8 v, lo8 v]"
abbreviation enc32 :: "u32 \<Rightarrow> u8 list" where
  "enc32 v \<equiv> [byte_of 3 v, byte_of 2 v, byte_of 1 v, byte_of 0 v]"

interpretation holding: reg_bank "\<lambda>n a (x :: unit) s. loop03 n a s" holding "\<lambda>a. a = 0x0030" mb_put16
  enc16 2 1 "\<lambda>_ x. x"
proof
  show "\<exists>b'. mb_put16 v b = Some b' \<and> bufs_ok b' \<and> reply b' = reply b @ enc16 v
         \<and> unat (Send_Len b') = unat (Send_Len b) + 2 \<and> same_but_reply b' b"
    if "bufs_ok b" "unat (Send_Len b) + 2 \<le> SEND_SIZE" for b v
    by (rule mb_put16_ok [OF that]) blast
qed (auto simp: reg03_split holding_frame mb_put16_overflow)

lemma put32_ok:
  "bufs_ok b \<Longrightarrow> unat (Send_Len b) + 4 \<le> SEND_SIZE \<Longrightarrow> \<exists>b'. mb_put32 v b = Some b' \<and> bufs_ok b'
     \<and> reply b' = reply b @ enc32 v \<and> unat (Send_Len b') = unat (Send_Len b) + 4 \<and> same_but_reply b' b"
  by (rule mb_put32_ok) blast+

lemma mark_cb_False [simp]: "mark_cb False b = b"
  by (simp add: mark_cb_def cb_after_def)

lemma reg04_frame: "reg04 a (s\<lparr>base := b\<rparr>) = reg04 a s"
  by (simp add: reg04_def)

interpretation input: reg_bank "\<lambda>n a (x :: unit) s. loop04 n a s" "\<lambda>a s. Some (reg04 a s)" "\<lambda>_. False"
  mb_put32 enc32 4 2 "\<lambda>_ x. x"
  by unfold_locales (rule put32_ok mb_put32_overflow | simp add: reg04_frame)+

lemma reg26_defined: "reg26 a s None = Some v \<Longrightarrow> reg26 a s x = Some v"
  by (auto simp: reg26_def Let_def split: if_splits)

lemma reg26_frame: "reg26 a (s\<lparr>base := b\<rparr>) x = reg26 a s x"
  by (simp add: reg26_def)

interpretation calib: reg_bank loop26 "\<lambda>a s. reg26 a s None" "\<lambda>_. False" mb_put32 enc32 4 2 "\<lambda>v _. Some v"
proof
  show "loop26 (Suc n) a x s = Option.bind (mb_put32 v (mark_cb False (base s)))
      (\<lambda>b. loop26 n (a + 2) (Some v) (s\<lparr>base := b\<rparr>))" if "reg26 a s None = Some v" for a s v n x
    by (simp only: loop26.simps reg26_defined [OF that] bind.simps mark_cb_False)
  show "\<exists>b'. mb_put32 v b = Some b' \<and> bufs_ok b' \<and> reply b' = reply b @ enc32 v
         \<and> unat (Send_Len b') = unat (Send_Len b) + 4 \<and> same_but_reply b' b"
    if "bufs_ok b" "unat (Send_Len b) + 4 \<le> SEND_SIZE" for b v
    by (rule put32_ok [OF that])
qed (simp_all add: reg26_frame mb_put32_overflow)


section \<open>Requests and exceptions\<close>

text \<open>The two 16-bit fields of a request.\<close>

definition req_addr :: "ModBusBaseParam \<Rightarrow> u16" where
  "req_addr b = be16 (Receive_Buf b ! 2) (Receive_Buf b ! 3)"

definition req_num :: "ModBusBaseParam \<Rightarrow> u16" where
  "req_num b = be16 (Receive_Buf b ! 4) (Receive_Buf b ! 5)"

lemma ReadPreHandle_ok:
  assumes "bufs_ok b"
  obtains b' where "ModBus_ReadPreHandle b = Some (req_addr b, req_num b, b')" "bufs_ok b'"
    "reply b' = take 2 (Receive_Buf b)" "Send_Len b' = 2" "same_but_reply b' b"
    "Send_Buf b' ! 0 = Receive_Buf b ! 0" "Send_Buf b' ! 1 = Receive_Buf b ! 1"
proof -
  let ?sb = "take 2 (Receive_Buf b) @ drop 2 (Send_Buf b)"
  have len: "length (Send_Buf b) = 32" "length (Receive_Buf b) = 600" using assms by (simp_all add: bufs_ok_def)
  have "wrn (Send_Buf b) 0 (take 2 (Receive_Buf b)) = Some ?sb"
    using len by (simp add: wrn_def numeral_2_eq_2)
  then have "ModBus_ReadPreHandle b = Some (req_addr b, req_num b, b\<lparr>Send_Buf := ?sb, Send_Len := 2\<rparr>)"
    using len by (simp add: ModBus_ReadPreHandle_def req_addr_def req_num_def)
  then show thesis
    using len by (intro that [of "b\<lparr>Send_Buf := ?sb, Send_Len := 2\<rparr>"])
      (simp_all add: bufs_ok_def reply_def same_but_reply_def nth_append)
qed

lemma WritePreHandle_ok:
  assumes "bufs_ok b"
  obtains b' where "ModBus_WritePreHandle b = Some (req_addr b, req_num b, b')" "bufs_ok b'"
    "reply b' = take 6 (Receive_Buf b)" "Send_Len b' = 6" "same_but_reply b' b"
    "Send_Buf b' ! 0 = Receive_Buf b ! 0" "Send_Buf b' ! 1 = Receive_Buf b ! 1"
proof -
  let ?sb = "take 6 (Receive_Buf b) @ drop 6 (Send_Buf b)"
  have len: "length (Send_Buf b) = 32" "length (Receive_Buf b) = 600" using assms by (simp_all add: bufs_ok_def)
  have "wrn (Send_Buf b) 0 (take 6 (Receive_Buf b)) = Some ?sb"
    using len by (simp add: wrn_def min_def)
  then have "ModBus_WritePreHandle b = Some (req_addr b, req_num b, b\<lparr>Send_Buf := ?sb, Send_Len := 6\<rparr>)"
    using len by (simp add: ModBus_WritePreHandle_def req_addr_def req_num_def)
  then show thesis
    using len by (intro that [of "b\<lparr>Send_Buf := ?sb, Send_Len := 6\<rparr>"])
      (simp_all add: bufs_ok_def reply_def same_but_reply_def nth_append)
qed

lemma mb_exception_ok:
  assumes "bufs_ok b"
  obtains b' where "mb_exception code b = Some b'" "bufs_ok b'"
    "reply b' = [Send_Buf b ! 0, Send_Buf b ! 1 OR MB_REQ_FAILURE, code]" "Send_Len b' = 3"
    "same_but_reply b' b"
proof -
  let ?sb = "(Send_Buf b)[1 := Send_Buf b ! 1 OR MB_REQ_FAILURE, 2 := code]"
  have len: "length (Send_Buf b) = 32" using assms by (simp add: bufs_ok_def)
  have "take 3 ?sb = [Send_Buf b ! 0, Send_Buf b ! 1 OR MB_REQ_FAILURE, code]"
    by (rule nth_equalityI) (use len in \<open>auto simp: less_Suc_eq numeral_eq_Suc\<close>)
  then show thesis
    using len assms
    by (intro that [of "b\<lparr>Send_Buf := ?sb, Send_Len := 3\<rparr>"])
      (simp_all add: mb_exception_def bufs_ok_def reply_def same_but_reply_def)
qed

text \<open>What an exception leaves: the base parameters up to the reply, which names the request's
  function code with the failure bit and the code.\<close>

definition exception_reply :: "u8 \<Rightarrow> mb \<Rightarrow> mb \<Rightarrow> bool" where
  "exception_reply code s s' \<longleftrightarrow> (\<exists>b. s' = s\<lparr>base := b\<rparr> \<and> bufs_ok b \<and> same_but_reply b (base s)
     \<and> reply b = [Receive_Buf (base s) ! 0, Receive_Buf (base s) ! 1 OR MB_REQ_FAILURE, code])"

lemma exception_after_prehandle:
  assumes "bufs_ok b" "same_but_reply b (base s)" "Send_Buf b ! 0 = Receive_Buf (base s) ! 0"
    "Send_Buf b ! 1 = Receive_Buf (base s) ! 1"
  shows "\<exists>s'. Option.bind (mb_exception code b) (\<lambda>b. Some (s\<lparr>base := b\<rparr>)) = Some s' \<and> exception_reply code s s'"
proof -
  obtain b' where b': "mb_exception code b = Some b'" "bufs_ok b'"
    "reply b' = [Send_Buf b ! 0, Send_Buf b ! 1 OR MB_REQ_FAILURE, code]" "same_but_reply b' b"
    by (rule mb_exception_ok [OF assms(1)])
  have "same_but_reply b' (base s)" using same_but_reply_trans [OF b'(4) assms(2)] .
  with b' assms(3,4) show ?thesis unfolding exception_reply_def by auto
qed

text \<open>The head of a reading reply: address, function code, number of bytes.\<close>

lemma read_head:
  assumes "bufs_ok b"
  obtains b1 b2 where "ModBus_ReadPreHandle b = Some (req_addr b, req_num b, b1)" "mb_put v b1 = Some b2"
    "bufs_ok b2" "reply b2 = take 2 (Receive_Buf b) @ [v]" "unat (Send_Len b2) = 3" "same_but_reply b2 b"
proof -
  obtain b1 where 1: "ModBus_ReadPreHandle b = Some (req_addr b, req_num b, b1)" "bufs_ok b1"
    "reply b1 = take 2 (Receive_Buf b)" "Send_Len b1 = 2" "same_but_reply b1 b"
    by (rule ReadPreHandle_ok [OF assms])
  obtain b2 where 2: "mb_put v b1 = Some b2" "bufs_ok b2" "reply b2 = reply b1 @ [v]"
    "unat (Send_Len b2) = unat (Send_Len b1) + 1" "same_but_reply b2 b1"
    by (rule mb_put_ok [OF 1(2), of v]) (simp add: 1(4))
  show thesis
    by (rule that [OF 1(1) 2(1,2)]) (use 1 2 same_but_reply_trans [OF 2(5) 1(5)] in simp_all)
qed


text \<open>A value that \<open>float\<close> represents.\<close>

definition is_float :: "fval \<Rightarrow> bool" where "is_float v \<longleftrightarrow> f32_val (f32_bits v) = v"

lemma is_float_of_int: "0 \<le> n \<Longrightarrow> n < 4294967296 \<Longrightarrow> is_float (f_of_int n)"
  by (erule (1) f_of_int_finite) (auto simp: is_float_def f_of_int_def intro: f32_val_bits)

lemma is_float_0: "is_float (Fin 0)"
  by (simp add: is_float_def f32_bits_def f32_val_def)

lemma is_float_u32: "is_float (f_of_int (uint (w :: u32)))"
  using uint_ge_0 [of w] uint_bounded [of w] by (intro is_float_of_int) simp_all

lemma is_float_u16: "is_float (Fin (of_int (uint (w :: u16))))"
  using uint_u16 [of w] is_float_of_int [of "uint w"] by (simp add: f_of_u16)

text \<open>The number the master gets from input register \<open>a\<close>.\<close>

definition input_value :: "u16 \<Rightarrow> mb \<Rightarrow> fval" where
  "input_value a s =
     (let Out = PCap_DataConvert_Out (dev s); T = ADC_TemperOut (dev s) in
      if a = 0 then Fin (of_int (uint (LiquidHeightAD Out)))
      else if a = 2 then TemperInAir T
      else if a = 4 then TemperInLiquid T
      else if a = 0x80 then f_of_int (uint (PCap_ResultValue Out))
      else Fin 0)"

lemma reg04_decodes:
  assumes "is_float (TemperInAir (ADC_TemperOut (dev s)))" "is_float (TemperInLiquid (ADC_TemperOut (dev s)))"
  shows "f32_val (reg04 a s) = input_value a s"
  using assms is_float_u32 is_float_u16 is_float_0
  by (simp add: reg04_def input_value_def is_float_def f32_bits_def Let_def cong: if_cong)

lemma same_but_reply_cb_callback:
  "same_but_reply_cb b a \<Longrightarrow> ModBus_CallBack b = ModBus_CallBack a \<Longrightarrow> same_but_reply b a"
  by (cases a; cases b) (simp add: same_but_reply_cb_def same_but_reply_def)

lemma cb_after_False [simp]: "cb_after False b = ModBus_CallBack b"
  by (simp add: cb_after_def)

lemma and_one_unat: "w AND 1 = 0 \<longleftrightarrow> even (unat (w :: u16))"
  by (simp add: and_one_eq word_unat_eq_iff unat_mod even_iff_mod_2_eq_zero)

lemma of_nat_unat_eq: "unat (w :: 'a :: len word) = n \<Longrightarrow> w = of_nat n"
  by auto

section \<open>Properties\<close>

text \<open>Function code 03: the reply to a request for the \<open>n\<close> holding registers from \<open>a\<close> on.\<close>

lemma Func03_reply:
  assumes "bufs_ok (base s)" "req_addr (base s) = a" "unat (req_num (base s)) = length vs"
    and "0x30 \<le> a" "unat a + length vs \<le> 0x42" "vs \<noteq> []" "length vs \<le> 14"
    and "\<forall>k<length vs. holding (a + of_nat k) s = Some (vs ! k)"
  shows "\<exists>b. ModbusFunc03 s = Some (s\<lparr>base := b\<rparr>) \<and> bufs_ok b
     \<and> reply b = take 2 (Receive_Buf (base s)) @ of_nat (2 * length vs) # concat (map enc16 vs)
     \<and> same_but_reply_cb b (base s)
     \<and> ModBus_CallBack b = cb_after (a = 0x30) (base s)"
proof -
  let ?n = "req_num (base s)" and ?v = "of_nat (2 * length vs) :: u8"
  obtain b1 b2 where 1: "ModBus_ReadPreHandle (base s) = Some (a, ?n, b1)" "mb_put ?v b1 = Some b2"
    "bufs_ok b2" "reply b2 = take 2 (Receive_Buf (base s)) @ [?v]" "unat (Send_Len b2) = 3"
    "same_but_reply b2 (base s)"
    using read_head [OF assms(1), of ?v] assms(2) by blast
  have cb: "same_but_reply_cb b2 (base s)" using 1(6) by (rule same_but_reply_imp_cb)
  have n: "?n = of_nat (length vs)" using assms(3) by (rule of_nat_unat_eq)
  then have v: "ucast (?n * 2) = ?v" using assms(7) by (simp add: word_unat_eq_iff unsigned_ucast_eq unat_word_ariths unat_of_nat take_bit_eq_mod)
  have idx: "marked = (\<lambda>a. a = 0x30) \<Longrightarrow> (\<exists>k<length vs. a + of_nat k * 1 = (0x30 :: u16)) \<longleftrightarrow> a = 0x30" for marked :: "u16 \<Rightarrow> bool"
  proof
    assume "\<exists>k<length vs. a + of_nat k * 1 = (0x30 :: u16)"
    then obtain k where k: "k < length vs" "a + of_nat k = (0x30 :: u16)" by auto
    have "unat (a + of_nat k) = unat a + k"
      using k(1) assms(5) by (simp add: unat_word_ariths unat_of_nat)
    then show "a = 0x30" using k(2) assms(4) by (simp add: word_le_nat_alt word_unat_eq_iff)
  qed (use assms(6) in auto)
  have "holding (a + of_nat k * 1) (s\<lparr>base := b2\<rparr>) = Some (vs ! k)" if "k < length vs" for k
    using assms(8) that by (simp add: holding_frame [OF cb])
  from holding.loop_reply [OF _ _ this] 1(3,5) assms(7)
  have "\<exists>b. loop03 (length vs) a (s\<lparr>base := b2\<rparr>) = Some (s\<lparr>base := b\<rparr>) \<and> bufs_ok b
     \<and> reply b = reply b2 @ concat (map enc16 vs) \<and> same_but_reply_cb b b2
     \<and> ModBus_CallBack b = cb_after (\<exists>k<length vs. a + of_nat k * 1 = 0x30) b2"
    by simp blast
  then obtain b where b: "loop03 (length vs) a (s\<lparr>base := b2\<rparr>) = Some (s\<lparr>base := b\<rparr>)" "bufs_ok b"
    "reply b = reply b2 @ concat (map enc16 vs)" "same_but_reply_cb b b2"
    "ModBus_CallBack b = cb_after (a = 0x30) b2"
    using idx [OF refl] by auto
  have "ModbusFunc03 s = loop03 (length vs) a (s\<lparr>base := b2\<rparr>)"
    unfolding ModbusFunc03_def 1(1) using assms(3-6) v 1(2)
    by (auto simp: word_le_nat_alt word_less_nat_alt)
  moreover have "cb_after (a = 0x30) b2 = cb_after (a = 0x30) (base s)"
    using same_but_reply_fields(8,9) [OF 1(6)] by (simp add: cb_after_def)
  ultimately show ?thesis
    using b 1(4) same_but_reply_cb_trans [OF b(4) cb] by auto
qed


text \<open>A request for 15 or more holding registers, which the range check admits, writes behind
  the end of the 32-byte send buffer.\<close>

theorem read_holding_overflow:
  assumes "bufs_ok (base s)" "req_addr (base s) = a" "unat (req_num (base s)) = length vs"
    and "0x30 \<le> a" "unat a + length vs \<le> 0x42" "15 \<le> length vs"
    and "\<forall>k<length vs. holding (a + of_nat k) s = Some (vs ! k)"
  shows "ModbusFunc03 s = None"
proof -
  let ?n = "req_num (base s)"
  have n: "0 < length vs" "length vs < 19"
    using assms(4-6) by (auto simp: word_le_nat_alt)
  obtain b1 b2 where 1: "ModBus_ReadPreHandle (base s) = Some (a, ?n, b1)" "mb_put (ucast (?n * 2)) b1 = Some b2"
    "bufs_ok b2" "unat (Send_Len b2) = 3" "same_but_reply b2 (base s)"
    using read_head [OF assms(1), of "ucast (?n * 2)"] assms(2) by blast
  have "holding (a + of_nat k * 1) (s\<lparr>base := b2\<rparr>) = Some (vs ! k)" if "k < length vs" for k
    using assms(7) that by (simp add: holding_frame [OF same_but_reply_imp_cb [OF 1(5)]])
  from holding.loop_overflow [OF _ _ _ this] 1(3,4) assms(6)
  have "loop03 (length vs) a (s\<lparr>base := b2\<rparr>) = None" by simp
  then show ?thesis
    unfolding ModbusFunc03_def 1(1) using assms(3-5) n 1(2)
    by (auto simp: word_le_nat_alt word_less_nat_alt)
qed

text \<open>Function code 03 outside its registers: an address below 0x30, a range that ends behind
  0x41 or an empty one is answered with the function code marked as failed and the exception code
  for a wrong address; nothing else changes.\<close>

theorem read_holding_bad_address:
  assumes "bufs_ok (base s)"
    and "req_addr (base s) < 0x30 \<or> 0x42 < unat (req_addr (base s)) + unat (req_num (base s)) \<or> req_num (base s) = 0"
  shows "\<exists>s'. ModbusFunc03 s = Some s' \<and> exception_reply MB_ADDR_EXCEPTION s s'"
proof -
  obtain b where b: "ModBus_ReadPreHandle (base s) = Some (req_addr (base s), req_num (base s), b)" "bufs_ok b"
    "same_but_reply b (base s)" "Send_Buf b ! 0 = Receive_Buf (base s) ! 0" "Send_Buf b ! 1 = Receive_Buf (base s) ! 1"
    by (rule ReadPreHandle_ok [OF assms(1)])
  show ?thesis
    using exception_after_prehandle [OF b(2-5), of MB_ADDR_EXCEPTION] assms(2)
    unfolding ModbusFunc03_def b(1) by (auto simp: word_less_nat_alt)
qed

text \<open>Function code 04.  A request for \<open>2 m\<close> input registers from an even address on, at most
  seven values, is answered with four bytes for each value, which read as a big-endian \<open>float\<close>
  are exactly the level, the temperatures, the raw capacitance, or 0 for an unused address.\<close>

theorem read_input_reply:
  assumes "bufs_ok (base s)" "req_addr (base s) = a" "unat (req_num (base s)) = 2 * m"
    and "a AND 1 = 0" "unat a + 2 * m \<le> 0x82" "0 < m" "m \<le> 7"
    and "is_float (TemperInAir (ADC_TemperOut (dev s)))" "is_float (TemperInLiquid (ADC_TemperOut (dev s)))"
  shows "\<exists>b vs. ModbusFunc04 s = Some (s\<lparr>base := b\<rparr>) \<and> bufs_ok b \<and> same_but_reply b (base s)
     \<and> reply b = take 2 (Receive_Buf (base s)) @ of_nat (4 * m) # concat (map enc32 vs)
     \<and> length vs = m \<and> (\<forall>k<m. f32_val (vs ! k) = input_value (a + of_nat k * 2) s)"
proof -
  let ?n = "req_num (base s)" and ?v = "of_nat (4 * m) :: u8"
  let ?vs = "map (\<lambda>k. reg04 (a + of_nat k * 2) s) [0..<m]"
  obtain b1 b2 where 1: "ModBus_ReadPreHandle (base s) = Some (a, ?n, b1)" "mb_put ?v b1 = Some b2"
    "bufs_ok b2" "reply b2 = take 2 (Receive_Buf (base s)) @ [?v]" "unat (Send_Len b2) = 3"
    "same_but_reply b2 (base s)"
    using read_head [OF assms(1), of ?v] assms(2) by blast
  have n: "?n = of_nat (2 * m)" using assms(3) by (rule of_nat_unat_eq)
  have v: "ucast (?n * 2) = ?v"
    using assms(3,7) by (simp add: word_unat_eq_iff unsigned_ucast_eq unat_word_ariths unat_of_nat take_bit_eq_mod)
  have "Some (reg04 (a + of_nat k * 2) (s\<lparr>base := b2\<rparr>)) = Some (?vs ! k)" if "k < length ?vs" for k
    using that by (simp add: reg04_frame)
  from input.loop_reply [OF _ _ this] 1(3,5) assms(7)
  have "\<exists>b. loop04 m a (s\<lparr>base := b2\<rparr>) = Some (s\<lparr>base := b\<rparr>) \<and> bufs_ok b
     \<and> reply b = reply b2 @ concat (map enc32 ?vs) \<and> same_but_reply_cb b b2
     \<and> ModBus_CallBack b = ModBus_CallBack b2"
    by simp blast
  then obtain b where b: "loop04 m a (s\<lparr>base := b2\<rparr>) = Some (s\<lparr>base := b\<rparr>)" "bufs_ok b"
    "reply b = reply b2 @ concat (map enc32 ?vs)" "same_but_reply b b2"
    using same_but_reply_cb_callback by blast
  have m: "(unat ?n + 1) div 2 = m" "?n AND 1 = 0" "?n \<noteq> 0"
    using assms(3,6) by (auto simp: and_one_unat)
  have "ModbusFunc04 s = loop04 m a (s\<lparr>base := b2\<rparr>)"
    unfolding ModbusFunc04_def 1(1) using assms(3-5) v 1(2) m by auto
  moreover have "f32_val (?vs ! k) = input_value (a + of_nat k * 2) s" if "k < m" for k
    using that by (simp add: reg04_decodes [OF assms(8,9)])
  ultimately show ?thesis
    using b 1(4) same_but_reply_trans [OF b(4) 1(6)] by (intro exI [of _ b] exI [of _ ?vs]) simp
qed


text \<open>Function code 26 on registers that have a value.\<close>

lemma read_calib_reply:
  assumes "bufs_ok (base s)" "req_addr (base s) = a" "unat (req_num (base s)) = 2 * length vs"
    and "0x80 \<le> a" "a AND 1 = 0" "unat a + 2 * length vs \<le> 0xA4" "vs \<noteq> []" "length vs \<le> 7"
    and "\<And>k. k < length vs \<Longrightarrow> reg26 (a + of_nat k * 2) s None = Some (vs ! k)"
  obtains b where "ModbusFunc26 s = Some (s\<lparr>base := b\<rparr>)" "bufs_ok b" "same_but_reply b (base s)"
    "reply b = take 2 (Receive_Buf (base s)) @ of_nat (4 * length vs) # concat (map enc32 vs)"
proof -
  let ?n = "req_num (base s)" and ?v = "of_nat (4 * length vs) :: u8"
  obtain b1 b2 where 1: "ModBus_ReadPreHandle (base s) = Some (a, ?n, b1)" "mb_put ?v b1 = Some b2"
    "bufs_ok b2" "reply b2 = take 2 (Receive_Buf (base s)) @ [?v]" "unat (Send_Len b2) = 3"
    "same_but_reply b2 (base s)"
    using read_head [OF assms(1), of ?v] assms(2) by blast
  have n: "?n = of_nat (2 * length vs)" using assms(3) by (rule of_nat_unat_eq)
  have v: "ucast (?n * 2) = ?v"
    using assms(3,8) by (simp add: word_unat_eq_iff unsigned_ucast_eq unat_word_ariths unat_of_nat take_bit_eq_mod)
  have "reg26 (a + of_nat k * 2) (s\<lparr>base := b2\<rparr>) None = Some (vs ! k)" if "k < length vs" for k
    using that assms(9) by (simp add: reg26_frame)
  from calib.loop_reply [OF _ _ this] 1(3,5) assms(8)
  have "\<exists>b. loop26 (length vs) a None (s\<lparr>base := b2\<rparr>) = Some (s\<lparr>base := b\<rparr>) \<and> bufs_ok b
     \<and> reply b = reply b2 @ concat (map enc32 vs) \<and> same_but_reply_cb b b2
     \<and> ModBus_CallBack b = ModBus_CallBack b2"
    by simp blast
  then obtain b where b: "loop26 (length vs) a None (s\<lparr>base := b2\<rparr>) = Some (s\<lparr>base := b\<rparr>)" "bufs_ok b"
    "reply b = reply b2 @ concat (map enc32 vs)" "same_but_reply b b2"
    using same_but_reply_cb_callback by blast
  have m: "(unat ?n + 1) div 2 = length vs" "?n AND 1 = 0" "?n \<noteq> 0"
    using assms(3,7) by (auto simp: and_one_unat)
  have "ModbusFunc26 s = loop26 (length vs) a None (s\<lparr>base := b2\<rparr>)"
    unfolding ModbusFunc26_def 1(1) using assms(3-6) v 1(2) m by (auto simp: word_le_nat_alt word_less_nat_alt)
  then show thesis
    using that b 1(4) same_but_reply_trans [OF b(4) 1(6)] by simp
qed

text \<open>Function code 26 has no value for the registers 0x94 to 0x9A: a request that starts there
  sends the contents of an uninitialised local variable.\<close>

theorem read_calib_uninitialised:
  assumes "bufs_ok (base s)" "req_addr (base s) \<in> {0x94, 0x96, 0x98, 0x9A}" "req_num (base s) = 2"
  shows "ModbusFunc26 s = None"
proof -
  obtain b1 b2 where 1: "ModBus_ReadPreHandle (base s) = Some (req_addr (base s), 2, b1)" "mb_put 4 b1 = Some b2"
    using read_head [OF assms(1), of 4] assms(3) by metis
  have "(req_addr (base s) < 0x80) = False" "0xA4 < unat (req_addr (base s)) + 2 \<longleftrightarrow> False"
    "req_addr (base s) AND 1 = 0" "reg26 (req_addr (base s)) (s\<lparr>base := b2\<rparr>) None = None"
    "(unat (2 :: u16) + 1) div 2 = Suc 0"
    using assms(2) by (auto simp: reg26_def)
  then show ?thesis
    unfolding ModbusFunc26_def 1(1) using 1(2) by simp
qed

section \<open>Witnesses\<close>

definition base0 :: ModBusBaseParam where
  "base0 = \<lparr>Device_Addr = 1, BaudRate = 1, Parity = 0, AutoUpload = 0, Output_Mode = 0, Factory_Reset = 0,
     Freeze = 0, InRomWrEn = 0x0F, Send_Buf = replicate 32 0, Send_Len = 0, Receive_Buf = replicate 600 0,
     ModBus_CallBack = None\<rparr>"

definition dev0 :: ModBus_Device_Param where
  "dev0 = \<lparr>DataFilter = filter_param0, PCap_DataConvert = convert_param0,
     PCap_DataConvert_Out = convert_out0\<lparr>LiquidHeightAD := 20900\<rparr>,
     ADC_TemperParam = \<lparr>Temper_K1 = Fin 100, Temper_B1 = Fin 100, Temper_K2 = Fin 100, Temper_B2 = Fin 100,
       TempDAMin = 0, TempDAMax = 4095, TempDARange = 4095\<rparr>,
     ADC_TemperOut = \<lparr>TemperInAirAD = 0, TemperInLiquidAD = 0, TemperInAir = Fin 0, TemperInLiquid = Fin 0\<rparr>\<rparr>"

definition cal0 :: mb_calib where
  "cal0 = \<lparr>Calib_CapMin = 0, Calib_CapMax = 0, Calib_CapDAMin = 0, Calib_CapDALow = 0, Calib_CapDAHigh = 0,
     Calib_CapDAMax = 0, Calib_TempDAMin = 0, Calib_TempDAMax = 0, Calib_ADMin = 0, Calib_ADLow = 0,
     Calib_ADHigh = 0, Calib_ADMax = 0, CapDA_ClibFlag = 0, CalibFlag = 0, CapAD_ClibFlag = 0,
     CapAD_ClibEn = 0, TempDA_ClibFlag = 0, TempDA_ClibEn = 0\<rparr>"

text \<open>A device that has received the bytes \<open>bs\<close>.\<close>

definition mb_with :: "u8 list \<Rightarrow> mb" where
  "mb_with bs = \<lparr>base = base0\<lparr>Receive_Buf := bs @ replicate (600 - length bs) 0\<rparr>, dev = dev0, cal = cal0,
     fls = blank_flash, port = usart_reset\<rparr>"

lemma bufs_ok_with: "length bs \<le> 600 \<Longrightarrow> bufs_ok (base (mb_with bs))"
  by (simp add: mb_with_def bufs_ok_def base0_def)

lemma be16_small: "be16 0 x = ucast x"
  by (simp add: be16_def)

lemma req_with: "6 \<le> length bs \<Longrightarrow> req_addr (base (mb_with bs)) = be16 (bs ! 2) (bs ! 3)
    \<and> req_num (base (mb_with bs)) = be16 (bs ! 4) (bs ! 5)"
  by (simp add: mb_with_def req_addr_def req_num_def base0_def nth_append)

lemma read_holding_overflow_witness: "ModbusFunc03 (mb_with [1, 3, 0, 0x32, 0, 15]) = None"
proof (rule read_holding_overflow [where a = "0x32" and vs = "map (\<lambda>k. the (holding (0x32 + of_nat k) (mb_with [1, 3, 0, 0x32, 0, 15]))) [0..<15]"])
  show "\<forall>k<length (map (\<lambda>k. the (holding (0x32 + of_nat k) (mb_with [1, 3, 0, 0x32, 0, 15]))) [0..<15]).
     holding (0x32 + of_nat k) (mb_with [1, 3, 0, 0x32, 0, 15])
       = Some (map (\<lambda>k. the (holding (0x32 + of_nat k) (mb_with [1, 3, 0, 0x32, 0, 15]))) [0..<15] ! k)"
  proof (intro allI impI)
    fix k assume k: "k < length (map (\<lambda>k. the (holding (0x32 + of_nat k) (mb_with [1, 3, 0, 0x32, 0, 15]))) [0..<15])"
    have K: "f_to_u16 (f_mul f32 (Fin 1) (f_of_int 100)) = Some 100" "f_to_u16 (Fin 0) = Some 0"
      by code_simp+
    have "holding a (mb_with [1, 3, 0, 0x32, 0, 15]) \<noteq> None" if "a \<noteq> 0x30" for a
      using that K by (auto simp: holding_def reg03_def mb_with_def dev0_def convert_param0_def Let_def)
    moreover have "0x32 + of_nat k \<noteq> (0x30 :: u16)"
      using k by (simp add: word_unat_eq_iff unat_word_ariths unat_of_nat)
    ultimately show "holding (0x32 + of_nat k) (mb_with [1, 3, 0, 0x32, 0, 15])
       = Some (map (\<lambda>k. the (holding (0x32 + of_nat k) (mb_with [1, 3, 0, 0x32, 0, 15]))) [0..<15] ! k)"
      using k by auto
  qed
qed (simp_all add: bufs_ok_with req_with be16_small)

lemma read_holding_bad_address_witness:
  "\<exists>s'. ModbusFunc03 (mb_with [1, 3, 0, 0x2F, 0, 1]) = Some s' \<and> reply (base s') = [1, 0x83, 2]"
proof -
  have "\<exists>s'. ModbusFunc03 (mb_with [1, 3, 0, 0x2F, 0, 1]) = Some s'
      \<and> exception_reply MB_ADDR_EXCEPTION (mb_with [1, 3, 0, 0x2F, 0, 1]) s'"
    by (rule read_holding_bad_address) (simp_all add: bufs_ok_with req_with be16_small)
  then show ?thesis
    by (auto simp: exception_reply_def mb_with_def base0_def)
qed

lemma read_input_reply_witness:
  "\<exists>b x0 x1 x2 x3. ModbusFunc04 (mb_with [1, 4, 0, 0, 0, 2]) = Some ((mb_with [1, 4, 0, 0, 0, 2])\<lparr>base := b\<rparr>)
     \<and> reply b = [1, 4, 4, x3, x2, x1, x0] \<and> f32_val (be32 x3 x2 x1 x0) = Fin 20900"
proof -
  let ?s = "mb_with [1, 4, 0, 0, 0, 2]"
  have "\<exists>b vs. ModbusFunc04 ?s = Some (?s\<lparr>base := b\<rparr>) \<and> bufs_ok b \<and> same_but_reply b (base ?s)
     \<and> reply b = take 2 (Receive_Buf (base ?s)) @ of_nat (4 * 1) # concat (map enc32 vs)
     \<and> length vs = 1 \<and> (\<forall>k<1. f32_val (vs ! k) = input_value (0 + of_nat k * 2) ?s)"
    by (rule read_input_reply)
      (simp_all add: bufs_ok_with req_with be16_small, simp_all add: mb_with_def dev0_def is_float_0)
  then obtain b v where "ModbusFunc04 ?s = Some (?s\<lparr>base := b\<rparr>)" "reply b = [1, 4, 4] @ enc32 v"
    "f32_val v = input_value 0 ?s"
    by (auto simp: length_Suc_conv mb_with_def base0_def)
  moreover have "input_value 0 ?s = Fin 20900"
    by (simp add: input_value_def mb_with_def dev0_def)
  ultimately show ?thesis
    by (intro exI [of _ b] exI [of _ "byte_of 0 v"] exI [of _ "byte_of 1 v"] exI [of _ "byte_of 2 v"]
        exI [of _ "byte_of 3 v"]) (simp add: be32_bytes_Suc)
qed

lemma read_calib_uninitialised_witness: "ModbusFunc26 (mb_with [1, 0x26, 0, 0x94, 0, 2]) = None"
  by (rule read_calib_uninitialised) (simp_all add: bufs_ok_with req_with be16_small)

end
