(* ===== verification/ModbusHandler.thy ===== *)
theory ModbusHandler
  imports ModbusRead
begin

text \<open>
  The interface between \<open>ModBusRtu.c\<close>, which calls the handlers of the function codes through
  weak symbols, and \<open>ModBus_Conf.c\<close>, which defines them: a handler works on the request and
  builds the reply; it does not touch the port, keeps the buffers and the received frame,
  leaves the capacitance filter in a state from which it can go on, and writes to the flash
  only inside the parameter area (\<open>mb_handler\<close>), and only while writing is enabled
  (\<open>guarded_handler\<close>).
\<close>

section \<open>The contract\<close>

definition flash_safe :: "flash \<Rightarrow> flash \<Rightarrow> bool" where
  "flash_safe f f' \<longleftrightarrow> (\<forall>x. in_area x \<or> fl_mem f' x = fl_mem f x)"

lemma flash_safe_refl [simp]: "flash_safe f f"
  by (simp add: flash_safe_def)

lemma flash_safe_trans: "flash_safe f g \<Longrightarrow> flash_safe g h \<Longrightarrow> flash_safe f h"
  unfolding flash_safe_def by metis

definition handled :: "mb \<Rightarrow> mb \<Rightarrow> bool" where
  "handled s s' \<longleftrightarrow> port s' = port s \<and> bufs_ok (base s')
     \<and> Receive_Buf (base s') = Receive_Buf (base s) \<and> flash_safe (fls s) (fls s')
     \<and> filter_step (DataFilter (dev s)) (DataFilter (dev s'))"

lemma handled_refl: "bufs_ok (base s) \<Longrightarrow> handled s s"
  by (simp add: handled_def)

lemma handled_trans: "handled s t \<Longrightarrow> handled t u \<Longrightarrow> handled s u"
  by (auto simp: handled_def intro: flash_safe_trans filter_step_trans)

locale mb_handler =
  fixes handle :: "mb \<Rightarrow> mb option"
  assumes handle_ok: "bufs_ok (base s) \<Longrightarrow> handle s = Some s' \<Longrightarrow> handled s s'"

locale guarded_handler = mb_handler +
  assumes handle_guard: "bufs_ok (base s) \<Longrightarrow> handle s = Some s' \<Longrightarrow> InRomWrEn (base s) \<noteq> IN_FLASH_WR_ENABLE
            \<Longrightarrow> fls s' = fls s"

text \<open>A handler that only builds a reply.\<close>

definition replies :: "mb \<Rightarrow> mb \<Rightarrow> bool" where
  "replies s s' \<longleftrightarrow> (\<exists>b. s' = s\<lparr>base := b\<rparr> \<and> bufs_ok b \<and> same_but_reply_cb b (base s))"

locale reading_handler =
  fixes handle :: "mb \<Rightarrow> mb option"
  assumes handle_replies: "bufs_ok (base s) \<Longrightarrow> handle s = Some s' \<Longrightarrow> replies s s'"

sublocale reading_handler \<subseteq> guarded_handler
proof
  fix s s' assume "bufs_ok (base s)" "handle s = Some s'"
  then obtain b where "s' = s\<lparr>base := b\<rparr>" "bufs_ok b" "same_but_reply_cb b (base s)"
    using handle_replies by (auto simp: replies_def)
  then show "handled s s'" "fls s' = fls s"
    by (simp_all add: handled_def same_but_reply_cb_fields)
qed

section \<open>Frames of the reply operations\<close>

lemma mb_put_frame:
  "mb_put v b = Some b' \<Longrightarrow> same_but_reply b' b \<and> (bufs_ok b \<longrightarrow> bufs_ok b')"
  by (auto simp: mb_put_def bind_eq_Some_conv same_but_reply_def bufs_ok_def dest: wr_length)

lemma mb_put16_frame:
  "mb_put16 v b = Some b' \<Longrightarrow> same_but_reply b' b \<and> (bufs_ok b \<longrightarrow> bufs_ok b')"
  by (auto simp: mb_put16_def bind_eq_Some_conv dest!: mb_put_frame intro: same_but_reply_trans)

lemma mb_put32_frame:
  "mb_put32 v b = Some b' \<Longrightarrow> same_but_reply b' b \<and> (bufs_ok b \<longrightarrow> bufs_ok b')"
  by (auto simp: mb_put32_put16 bind_eq_Some_conv dest!: mb_put16_frame intro: same_but_reply_trans)

lemma prehandle_frame:
  "ModBus_ReadPreHandle b = Some (a, n, b') \<Longrightarrow> same_but_reply b' b \<and> (bufs_ok b \<longrightarrow> bufs_ok b')"
  "ModBus_WritePreHandle b = Some (a, n, b') \<Longrightarrow> same_but_reply b' b \<and> (bufs_ok b \<longrightarrow> bufs_ok b')"
  by (auto simp: ModBus_ReadPreHandle_def ModBus_WritePreHandle_def bind_eq_Some_conv same_but_reply_def bufs_ok_def
      dest: wrn_length)

lemma mb_exception_frame:
  "mb_exception code b = Some b' \<Longrightarrow> same_but_reply b' b \<and> (bufs_ok b \<longrightarrow> bufs_ok b')"
  by (auto simp: mb_exception_def bind_eq_Some_conv same_but_reply_def bufs_ok_def dest: wr_length)

lemmas reply_frames = mb_put_frame mb_put16_frame mb_put32_frame prehandle_frame mb_exception_frame

lemma same_but_reply_bufs: "same_but_reply b' b \<Longrightarrow> Receive_Buf b' = Receive_Buf b"
  by (rule same_but_reply_fields)

lemma repliesI: "same_but_reply_cb b (base s) \<Longrightarrow> bufs_ok b \<Longrightarrow> replies s (s\<lparr>base := b\<rparr>)"
  by (auto simp: replies_def)

lemma replies_step:
  assumes "replies (s\<lparr>base := b\<rparr>) s'" "same_but_reply_cb b (base s)"
  shows "replies s s'"
  using assms by (auto simp: replies_def intro: same_but_reply_cb_trans)

section \<open>The reading handlers\<close>

lemma reg03_frame: "reg03 a s = Some (v, b) \<Longrightarrow> same_but_reply_cb b (base s) \<and> (bufs_ok (base s) \<longrightarrow> bufs_ok b)"
  by (auto simp: reg03_def Let_def bind_eq_Some_conv same_but_reply_cb_def bufs_ok_def split: if_splits)

lemma loop03_replies: "loop03 n a s = Some s' \<Longrightarrow> bufs_ok (base s) \<Longrightarrow> replies s s'"
proof (induction n arbitrary: a s)
  case 0
  then show ?case using repliesI [of "base s" s] by simp
next
  case (Suc n)
  then obtain v b c where 1: "reg03 a s = Some (v, b)" "mb_put16 v b = Some c"
    "loop03 n (a + 1) (s\<lparr>base := c\<rparr>) = Some s'"
    by (auto simp: bind_eq_Some_conv)
  have "same_but_reply_cb c (base s)" "bufs_ok c"
    using reg03_frame [OF 1(1)] mb_put16_frame [OF 1(2)] Suc.prems(2)
    by (auto intro: same_but_reply_cb_trans same_but_reply_imp_cb)
  with Suc.IH [OF 1(3)] show ?case by (auto intro: replies_step)
qed

lemma loop04_replies: "loop04 n a s = Some s' \<Longrightarrow> bufs_ok (base s) \<Longrightarrow> replies s s'"
proof (induction n arbitrary: a s)
  case 0
  then show ?case using repliesI [of "base s" s] by simp
next
  case (Suc n)
  then obtain b where 1: "mb_put32 (reg04 a s) (base s) = Some b" "loop04 n (a + 2) (s\<lparr>base := b\<rparr>) = Some s'"
    by (auto simp: bind_eq_Some_conv)
  with Suc.IH [OF 1(2)] mb_put32_frame [OF 1(1)] Suc.prems(2) show ?case
    by (auto intro: replies_step same_but_reply_imp_cb)
qed

lemma loop26_replies: "loop26 n a x s = Some s' \<Longrightarrow> bufs_ok (base s) \<Longrightarrow> replies s s'"
proof (induction n arbitrary: a x s)
  case 0
  then show ?case using repliesI [of "base s" s] by simp
next
  case (Suc n)
  then obtain v b where 1: "mb_put32 v (base s) = Some b" "loop26 n (a + 2) (Some v) (s\<lparr>base := b\<rparr>) = Some s'"
    by (auto simp: bind_eq_Some_conv)
  with Suc.IH [OF 1(2)] mb_put32_frame [OF 1(1)] Suc.prems(2) show ?case
    by (auto intro: replies_step same_but_reply_imp_cb)
qed

lemma obj2B_frame: "obj2B f a b = Some b' \<Longrightarrow> same_but_reply b' b \<and> (bufs_ok b \<longrightarrow> bufs_ok b')"
proof -
  assume "obj2B f a b = Some b'"
  then have "\<exists>v c. mb_put v b = Some c \<and>
      ((\<exists>sb. wr (Send_Buf c) (unat (Send_Len c) - 1) 1 = Some sb \<and> mb_put 0 (c\<lparr>Send_Buf := sb\<rparr>) = Some b')
        \<or> (\<exists>bs sb. wrn (Send_Buf c) (unat (Send_Len c)) bs = Some sb
             \<and> b' = c\<lparr>Send_Buf := sb, Send_Len := Send_Len c + ucast v\<rparr>))"
    by (simp add: obj2B_def bind_eq_Some_conv split: if_splits) blast+
  then obtain v c where c: "mb_put v b = Some c" and
    r: "(\<exists>sb. wr (Send_Buf c) (unat (Send_Len c) - 1) 1 = Some sb \<and> mb_put 0 (c\<lparr>Send_Buf := sb\<rparr>) = Some b')
        \<or> (\<exists>bs sb. wrn (Send_Buf c) (unat (Send_Len c)) bs = Some sb
             \<and> b' = c\<lparr>Send_Buf := sb, Send_Len := Send_Len c + ucast v\<rparr>)"
    by blast
  have "same_but_reply b' c \<and> (bufs_ok c \<longrightarrow> bufs_ok b')"
    using r
  proof (elim disjE exE conjE)
    fix sb assume 1: "wr (Send_Buf c) (unat (Send_Len c) - 1) 1 = Some sb" "mb_put 0 (c\<lparr>Send_Buf := sb\<rparr>) = Some b'"
    have "same_but_reply (c\<lparr>Send_Buf := sb\<rparr>) c" by (simp add: same_but_reply_def)
    then show ?thesis
      using mb_put_frame [OF 1(2)] wr_length [OF 1(1)] by (auto simp: bufs_ok_def intro: same_but_reply_trans)
  next
    fix bs sb assume "wrn (Send_Buf c) (unat (Send_Len c)) bs = Some sb"
      "b' = c\<lparr>Send_Buf := sb, Send_Len := Send_Len c + ucast v\<rparr>"
    then show ?thesis
      by (auto simp: same_but_reply_def bufs_ok_def dest: wrn_length)
  qed
  with mb_put_frame [OF c] show ?thesis by (auto intro: same_but_reply_trans)
qed

lemma loop2B_frame: "loop2B f n a b = Some b' \<Longrightarrow> same_but_reply b' b \<and> (bufs_ok b \<longrightarrow> bufs_ok b')"
proof (induction n arbitrary: a b)
  case (Suc n)
  then obtain c where c: "loop2B f n (a + 1) c = Some b'"
    "(case version_addr a of Some a \<Rightarrow> obj2B f a b | None \<Rightarrow> Some b) = Some c"
    by (auto simp: bind_eq_Some_conv)
  have "same_but_reply c b \<and> (bufs_ok b \<longrightarrow> bufs_ok c)"
    using c(2) obj2B_frame by (auto split: option.splits)
  with Suc.IH [OF c(1)] show ?case by (auto intro: same_but_reply_trans)
qed simp

lemma exception_replies:
  assumes "Option.bind (mb_exception code b) (\<lambda>b. Some (s\<lparr>base := b\<rparr>)) = Some s'"
    and "same_but_reply b (base s)" "bufs_ok b"
  shows "replies s s'"
  using assms mb_exception_frame
  by (auto simp: bind_eq_Some_conv intro!: repliesI same_but_reply_imp_cb intro: same_but_reply_trans)

text \<open>The common shape of the register codes: a byte count, then the loop.\<close>

lemma counted_loop_replies:
  assumes "Option.bind (mb_put v b) (\<lambda>b. lp (s\<lparr>base := b\<rparr>)) = Some s'"
    and "\<And>s s'. lp s = Some s' \<Longrightarrow> bufs_ok (base s) \<Longrightarrow> replies s s'"
    and "same_but_reply b (base s)" "bufs_ok b"
  shows "replies s s'"
proof -
  obtain c where c: "mb_put v b = Some c" "lp (s\<lparr>base := c\<rparr>) = Some s'"
    using assms(1) by (auto simp: bind_eq_Some_conv)
  have "replies (s\<lparr>base := c\<rparr>) s'"
    using assms(2) [OF c(2)] mb_put_frame [OF c(1)] assms(4) by simp
  then show ?thesis
    using mb_put_frame [OF c(1)] assms(3)
    by (auto intro: replies_step same_but_reply_imp_cb same_but_reply_trans)
qed

interpretation func03: reading_handler ModbusFunc03
proof
  fix s s' assume ok: "bufs_ok (base s)" and r: "ModbusFunc03 s = Some s'"
  obtain a n b where p: "ModBus_ReadPreHandle (base s) = Some (a, n, b)"
    using r by (auto simp: ModbusFunc03_def bind_eq_Some_conv)
  note b = prehandle_frame(1) [OF p]
  show "replies s s'"
    using r [unfolded ModbusFunc03_def p] ok b
      exception_replies [of MB_ADDR_EXCEPTION b s s']
      counted_loop_replies [of "ucast (n * 2)" b "loop03 (unat n) a" s s', OF _ loop03_replies]
    by (simp split: if_splits)
qed

interpretation func04: reading_handler ModbusFunc04
proof
  fix s s' assume ok: "bufs_ok (base s)" and r: "ModbusFunc04 s = Some s'"
  obtain a n b where p: "ModBus_ReadPreHandle (base s) = Some (a, n, b)"
    using r by (auto simp: ModbusFunc04_def bind_eq_Some_conv)
  note b = prehandle_frame(1) [OF p]
  show "replies s s'"
    using r [unfolded ModbusFunc04_def p] ok b
      exception_replies [of MB_ADDR_EXCEPTION b s s']
      counted_loop_replies [of "ucast (n * 2)" b "loop04 ((unat n + 1) div 2) a" s s', OF _ loop04_replies]
    by (simp split: if_splits)
qed

interpretation func26: reading_handler ModbusFunc26
proof
  fix s s' assume ok: "bufs_ok (base s)" and r: "ModbusFunc26 s = Some s'"
  obtain a n b where p: "ModBus_ReadPreHandle (base s) = Some (a, n, b)"
    using r by (auto simp: ModbusFunc26_def bind_eq_Some_conv)
  note b = prehandle_frame(1) [OF p]
  show "replies s s'"
    using r [unfolded ModbusFunc26_def p] ok b
      exception_replies [of MB_ADDR_EXCEPTION b s s']
      counted_loop_replies [of "ucast (n * 2)" b "loop26 ((unat n + 1) div 2) a None" s s', OF _ loop26_replies]
    by (simp split: if_splits)
qed

lemma set_reply_frame:
  "length sb = length (Send_Buf b) \<Longrightarrow> same_but_reply (b\<lparr>Send_Buf := sb, Send_Len := n\<rparr>) b
     \<and> (bufs_ok b \<longrightarrow> bufs_ok (b\<lparr>Send_Buf := sb, Send_Len := n\<rparr>))"
  by (simp add: same_but_reply_def bufs_ok_def)

interpretation func2B: reading_handler ModbusFunc2B
proof
  fix s s' assume ok: "bufs_ok (base s)" and r: "ModbusFunc2B s = Some s'"
  obtain a n b where p: "ModBus_ReadPreHandle (base s) = Some (a, n, b)"
    using r by (auto simp: ModbusFunc2B_def bind_eq_Some_conv)
  note b = prehandle_frame(1) [OF p]
  show "replies s s'"
  proof (cases "a < 0x00E0 \<or> unat a + unat n > 0x00E5 + 1 \<or> n = 0")
    case True
    then show ?thesis
      using r b ok exception_replies [of MB_ADDR_EXCEPTION b s s'] unfolding ModbusFunc2B_def p by auto
  next
    case False
    then obtain sb sb' x y c where w: "wrn (Send_Buf b) 2 x = Some sb" "wrn sb 4 y = Some sb'"
      "loop2B (fls s) (unat n) a (b\<lparr>Send_Buf := sb', Send_Len := 6\<rparr>) = Some c" "s' = s\<lparr>base := c\<rparr>"
      using r unfolding ModbusFunc2B_def p by (auto simp: bind_eq_Some_conv)
    have "length sb' = length (Send_Buf b)" using wrn_length [OF w(1)] wrn_length [OF w(2)] by simp
    note 1 = set_reply_frame [OF this, of 6] and 2 = loop2B_frame [OF w(3)]
    have "same_but_reply c (base s)" "bufs_ok c"
      using 1 2 b ok by (auto intro: same_but_reply_trans)
    then show ?thesis unfolding w(4) by (intro repliesI same_but_reply_imp_cb)
  qed
qed

end
