(* ===== verification/ModbusCalib.thy ===== *)
theory ModbusCalib
  imports ModbusHandler
begin

text \<open>
  The calibration functions of \<open>APP/Src/ModBus_Conf.c\<close> (\<open>MB_Cap_Calibration\<close>,
  \<open>MB_CapAD_Calibration\<close>, \<open>MB_CapDAOut_Calibration\<close>, \<open>MB_TempDAOut_Calibration\<close>) and the two
  function codes that collect calibration points: 05 (coils) and 25.  The static variables
  of the file and of the two functions are the record \<open>mb_calib\<close>.
\<close>

section \<open>The calibration functions\<close>

abbreviation (input) "upd_conv g d \<equiv> d\<lparr>PCap_DataConvert := g (PCap_DataConvert d)\<rparr>"
abbreviation (input) "upd_filt g d \<equiv> d\<lparr>DataFilter := g (DataFilter d)\<rparr>"
abbreviation (input) "upd_temp g d \<equiv> d\<lparr>ADC_TemperParam := g (ADC_TemperParam d)\<rparr>"

definition bytes32 :: "u32 \<Rightarrow> u8 list" where
  "bytes32 w = [byte_of 3 w, byte_of 2 w, byte_of 1 w, byte_of 0 w]"

definition bytes16 :: "u16 \<Rightarrow> u8 list" where "bytes16 w = [hi8 w, lo8 w]"

definition MB_Cap_Calibration :: "hal_flash \<Rightarrow> mb \<Rightarrow> mb option" where
  "MB_Cap_Calibration H s =
     (let lo = Calib_CapMin (cal s); hi = Calib_CapMax (cal s) in
      if lo < hi then do {
        let Cur_Param = bytes32 lo @ bytes32 hi;
        let d = upd_conv (\<lambda>P. P\<lparr>CapMin := lo, CapMax := hi\<rparr>) (dev s);
        let d = upd_filt (\<lambda>F. F\<lparr>InputRangeMin := lo, InputRangeMax := hi\<rparr>) d;
        (_, f) \<leftarrow> InFlash_Write3T_MultiBytes H (fls s) CAPMIN Cur_Param 8;
        if CapMaxBak (PCap_DataConvert d) = 0xFFFFFFFF then do {
          (_, f) \<leftarrow> InFlash_Write3T_MultiBytes H f CAPMINBAK Cur_Param 8;
          Some (s\<lparr>dev := upd_conv (\<lambda>P. P\<lparr>CapMinBak := lo, CapMaxBak := hi\<rparr>) d, fls := f\<rparr>) }
        else Some (s\<lparr>dev := d, fls := f\<rparr>) }
      else Some s)"

definition MB_CapAD_Calibration :: "hal_flash \<Rightarrow> mb \<Rightarrow> mb option" where
  "MB_CapAD_Calibration H s =
     (let c = cal s in
      if Calib_ADMin c < Calib_ADLow c \<and> Calib_ADLow c < Calib_ADHigh c \<and> Calib_ADHigh c < Calib_ADMax c
      then do {
        let Cur_Param = bytes16 (Calib_ADMin c) @ bytes16 (Calib_ADLow c) @ bytes16 (Calib_ADHigh c)
                          @ bytes16 (Calib_ADMax c);
        let d = upd_conv (\<lambda>P. P\<lparr>CapADMin := Calib_ADMin c, CapADLow := Calib_ADLow c,
                                CapADHigh := Calib_ADHigh c, CapADMax := Calib_ADMax c\<rparr>) (dev s);
        (_, f) \<leftarrow> InFlash_Write3T_MultiBytes H (fls s) CAPADMIN Cur_Param 8;
        Some (s\<lparr>dev := d, fls := f\<rparr>) }
      else Some s)"

definition MB_CapDAOut_Calibration :: "hal_flash \<Rightarrow> mb \<Rightarrow> mb option" where
  "MB_CapDAOut_Calibration H s =
     (let c = cal s; two_points = (CapDA_ClibFlag c = (0x20 OR 0x01)) in
      if two_points \<and> Calib_CapDAMax c \<le> Calib_CapDAMin c then Some s
      else if \<not> two_points \<and> (Calib_CapDAMax c \<le> Calib_CapDAHigh c \<or> Calib_CapDAHigh c \<le> Calib_CapDALow c
                \<or> Calib_CapDALow c \<le> Calib_CapDAMin c) then Some s
      else do {
        let c = (if two_points then c\<lparr>Calib_CapDAHigh := 0, Calib_CapDALow := 0\<rparr> else c);
        let Cur_Param = bytes16 (Calib_CapDAMin c) @ bytes16 (Calib_CapDALow c) @ bytes16 (Calib_CapDAHigh c)
                          @ bytes16 (Calib_CapDAMax c);
        (_, f) \<leftarrow> InFlash_Write3T_MultiBytes H (fls s) CAPDAMIN Cur_Param 8;
        let d = upd_conv (\<lambda>P. P\<lparr>CapDAMin := Calib_CapDAMin c, CapDALow := Calib_CapDALow c,
                                CapDAHigh := Calib_CapDAHigh c, CapDAMax := Calib_CapDAMax c\<rparr>) (dev s);
        Some (s\<lparr>cal := c, dev := d, fls := f\<rparr>) })"

definition MB_TempDAOut_Calibration :: "hal_flash \<Rightarrow> mb \<Rightarrow> mb option" where
  "MB_TempDAOut_Calibration H s =
     (let c = cal s in
      if Calib_TempDAMax c > Calib_TempDAMin c \<and> Calib_TempDAMax c \<le> 4095 then do {
        let Cur_Param = bytes16 (Calib_TempDAMin c) @ bytes16 (Calib_TempDAMax c);
        (_, f) \<leftarrow> InFlash_Write3T_MultiBytes H (fls s) TEMPDAMIN Cur_Param 4;
        let d = upd_temp (\<lambda>T. T\<lparr>TempDAMin := Calib_TempDAMin c, TempDAMax := Calib_TempDAMax c,
                                TempDARange := Calib_TempDAMax c - Calib_TempDAMin c\<rparr>) (dev s);
        Some (s\<lparr>dev := d, fls := f\<rparr>) }
      else Some s)"

section \<open>Function code 05\<close>

abbreviation (input) "mb_fail code s b \<equiv> Option.bind (mb_exception code b) (\<lambda>b. Some (s\<lparr>base := b\<rparr>))"

text \<open>Coil 0x50: a calibration point of the capacitance.\<close>

definition coil50 :: "hal_flash \<Rightarrow> u16 \<Rightarrow> mb \<Rightarrow> mb option" where
  "coil50 H DataBuf s =
     (let raw = PCap_ResultValue (PCap_DataConvert_Out (dev s)); c = cal s;
          c = (if DataBuf = 0xFF00 then c\<lparr>Calib_CapMax := raw, CalibFlag := CalibFlag c OR 0x10\<rparr>
               else if DataBuf = 0 then c\<lparr>Calib_CapMin := raw, CalibFlag := CalibFlag c OR 0x01\<rparr>
               else c);
          s = s\<lparr>cal := c\<rparr>
      in if CalibFlag c = 0x11 then do {
           s \<leftarrow> MB_Cap_Calibration H s;
           Some (s\<lparr>cal := (cal s)\<lparr>CalibFlag := 0\<rparr>\<rparr>) }
         else Some s)"

text \<open>Coil 0x51: back to the factory calibration.\<close>

definition coil51 :: "hal_flash \<Rightarrow> u16 \<Rightarrow> mb \<Rightarrow> mb option" where
  "coil51 H DataBuf s =
     (if DataBuf = 0xFF00 then
        MB_Cap_Calibration H (s\<lparr>cal := (cal s)\<lparr>Calib_CapMin := CapMinBak (PCap_DataConvert (dev s)),
                                              Calib_CapMax := CapMaxBak (PCap_DataConvert (dev s))\<rparr>\<rparr>)
      else Some s)"

definition wr_enable :: "u16 \<Rightarrow> ModBusBaseParam \<Rightarrow> ModBusBaseParam" where
  "wr_enable DataBuf b =
     (if DataBuf = 0xFF00 then b\<lparr>InRomWrEn := IN_FLASH_WR_ENABLE\<rparr>
      else if DataBuf = 0 then b\<lparr>InRomWrEn := IN_FLASH_WR_DISABLE\<rparr> else b)"

definition ModbusFunc05 :: "hal_flash \<Rightarrow> mb \<Rightarrow> mb option" where
  "ModbusFunc05 H s = do {
     (WriteAddr, _, b) \<leftarrow> ModBus_WritePreHandle (base s);
     if (WriteAddr < 0x0050 \<or> WriteAddr > 0x0053) \<and> WriteAddr \<noteq> 0x004A
     then mb_fail MB_ADDR_EXCEPTION s b
     else do {
       d4 \<leftarrow> rd (Receive_Buf b) 4; d5 \<leftarrow> rd (Receive_Buf b) 5;
       let DataBuf = be16 d4 d5;
       if DataBuf \<noteq> 0 \<and> DataBuf \<noteq> 0xFF00 then mb_fail MB_VALU_EXCEPTION s b
       else if WriteAddr = 0x004A then Some (s\<lparr>base := wr_enable DataBuf b\<rparr>)
       else if WriteAddr = 0x0050 then
         (if InRomWrEn b = IN_FLASH_WR_ENABLE then coil50 H DataBuf (s\<lparr>base := b\<rparr>)
          else mb_fail MB_DEVC_EXCEPTION s b)
       else if WriteAddr = 0x0051 then
         (if InRomWrEn b = IN_FLASH_WR_ENABLE then coil51 H DataBuf (s\<lparr>base := b\<rparr>)
          else mb_fail MB_DEVC_EXCEPTION s b)
       else if WriteAddr = 0x0052 then
         Some (s\<lparr>base := if DataBuf = 0xFF00 then b\<lparr>ModBus_CallBack := Some MB_Freeze\<rparr>
                         else if DataBuf = 0 then b\<lparr>Freeze := FREEZE_DISABLE\<rparr> else b\<rparr>)
       else if WriteAddr = 0x0053 then Some (s\<lparr>base := wr_enable DataBuf b\<rparr>)
       else Some (s\<lparr>base := b\<rparr>) } }"

section \<open>Function code 25\<close>

text \<open>The calibration of the output: points (1 and 3), then the end of the calibration (2).\<close>

definition func25_DA_point :: "bool \<Rightarrow> u16 \<Rightarrow> mb \<Rightarrow> mb" where
  "func25_DA_point ends DataBuf s =
     (let v = PCapDA_ResultValue (PCap_DataConvert_Out (dev s)); c = cal s in
      if CapDA_ClibEn (PCap_DataConvert (dev s)) = 0x0F then
        s\<lparr>cal := (if DataBuf = 0xFF00 then
                   (if ends then c\<lparr>CapDA_ClibFlag := CapDA_ClibFlag c OR 0x20, Calib_CapDAMax := v\<rparr>
                    else c\<lparr>CapDA_ClibFlag := CapDA_ClibFlag c OR 0x10, Calib_CapDAHigh := v\<rparr>)
                  else if DataBuf = 0 then
                   (if ends then c\<lparr>CapDA_ClibFlag := CapDA_ClibFlag c OR 0x01, Calib_CapDAMin := v\<rparr>
                    else c\<lparr>CapDA_ClibFlag := CapDA_ClibFlag c OR 0x02, Calib_CapDALow := v\<rparr>)
                  else c)\<rparr>
      else s)"

definition func25_DA_enable :: "hal_flash \<Rightarrow> u16 \<Rightarrow> mb \<Rightarrow> mb option" where
  "func25_DA_enable H DataBuf s =
     (let s = s\<lparr>dev := upd_conv (\<lambda>P. if DataBuf = 0xFF00 then P\<lparr>CapDA_ClibEn := 0x0F\<rparr>
                                     else if DataBuf = 0 then P\<lparr>CapDA_ClibEn := 0\<rparr> else P) (dev s)\<rparr> in
      if CapDA_ClibEn (PCap_DataConvert (dev s)) = 0
         \<and> CapDA_ClibFlag (cal s) AND (0x20 OR 0x01) = (0x20 OR 0x01)
      then do {
        s \<leftarrow> MB_CapDAOut_Calibration H s;
        Some (s\<lparr>cal := (cal s)\<lparr>CapDA_ClibFlag := 0\<rparr>\<rparr>) }
      else Some s)"

text \<open>The calibration of the temperature output: enable (4) and points (5).\<close>

definition func25_Temp_enable :: "hal_flash \<Rightarrow> u16 \<Rightarrow> mb \<Rightarrow> mb option" where
  "func25_Temp_enable H DataBuf s =
     (let s = s\<lparr>cal := (if DataBuf = 0xFF00 then (cal s)\<lparr>TempDA_ClibEn := 0x0F\<rparr>
                        else if DataBuf = 0 then (cal s)\<lparr>TempDA_ClibEn := 0\<rparr> else cal s)\<rparr> in
      if TempDA_ClibEn (cal s) = 0 \<and> TempDA_ClibFlag (cal s) = 0x11
      then do {
        s \<leftarrow> MB_TempDAOut_Calibration H s;
        Some (s\<lparr>cal := (cal s)\<lparr>TempDA_ClibFlag := 0\<rparr>\<rparr>) }
      else Some s)"

definition func25_Temp_point :: "u16 \<Rightarrow> mb \<Rightarrow> mb" where
  "func25_Temp_point DataBuf s =
     (let v = TemperInAirAD (ADC_TemperOut (dev s)); c = cal s in
      if TempDA_ClibEn c = 0x0F then
        s\<lparr>cal := (if DataBuf = 0xFF00
                  then c\<lparr>TempDA_ClibFlag := TempDA_ClibFlag c OR 0x10, Calib_TempDAMax := v\<rparr>
                  else if DataBuf = 0
                  then c\<lparr>TempDA_ClibFlag := TempDA_ClibFlag c OR 0x01, Calib_TempDAMin := v\<rparr>
                  else c)\<rparr>
      else s)"

text \<open>The calibration of the level: enable (7) and points (8 and 9).\<close>

definition func25_AD_enable :: "hal_flash \<Rightarrow> u16 \<Rightarrow> mb \<Rightarrow> mb option" where
  "func25_AD_enable H DataBuf s =
     (let s = s\<lparr>cal := (if DataBuf = 0xFF00 then (cal s)\<lparr>CapAD_ClibFlag := 0, CapAD_ClibEn := 0x0F\<rparr>
                        else if DataBuf = 0 then (cal s)\<lparr>CapAD_ClibEn := 0\<rparr> else cal s)\<rparr> in
      if CapAD_ClibEn (cal s) = 0 \<and> CapAD_ClibFlag (cal s) = 0x33
      then do {
        s \<leftarrow> MB_CapAD_Calibration H s;
        Some (s\<lparr>cal := (cal s)\<lparr>CapAD_ClibFlag := 0\<rparr>\<rparr>) }
      else Some s)"

definition func25_AD_point :: "bool \<Rightarrow> u16 \<Rightarrow> mb \<Rightarrow> mb" where
  "func25_AD_point ends DataBuf s =
     (let v = LiquidHeightAD (PCap_DataConvert_Out (dev s)); c = cal s in
      if CapAD_ClibEn c = 0x0F then
        s\<lparr>cal := (if DataBuf = 0xFF00 then
                   (if ends then c\<lparr>Calib_ADMax := v, CapAD_ClibFlag := CapAD_ClibFlag c OR 0x20\<rparr>
                    else c\<lparr>Calib_ADHigh := v, CapAD_ClibFlag := CapAD_ClibFlag c OR 0x10\<rparr>)
                  else if DataBuf = 0 then
                   (if ends then c\<lparr>Calib_ADMin := v, CapAD_ClibFlag := CapAD_ClibFlag c OR 0x01\<rparr>
                    else c\<lparr>Calib_ADLow := v, CapAD_ClibFlag := CapAD_ClibFlag c OR 0x02\<rparr>)
                  else c)\<rparr>
      else s)"

definition func25_switch :: "hal_flash \<Rightarrow> u16 \<Rightarrow> u16 \<Rightarrow> mb \<Rightarrow> mb option" where
  "func25_switch H WriteAddr DataBuf s =
     (let a = WriteAddr AND NOT 0x00B0 in
      if a = 0x0001 then Some (func25_DA_point False DataBuf s)
      else if a = 0x0002 then func25_DA_enable H DataBuf s
      else if a = 0x0003 then Some (func25_DA_point True DataBuf s)
      else if a = 0x0004 then func25_Temp_enable H DataBuf s
      else if a = 0x0005 then Some (func25_Temp_point DataBuf s)
      else if a = 0x0007 then func25_AD_enable H DataBuf s
      else if a = 0x0008 then Some (func25_AD_point False DataBuf s)
      else if a = 0x0009 then Some (func25_AD_point True DataBuf s)
      else Some s)"

definition ModbusFunc25 :: "hal_flash \<Rightarrow> mb \<Rightarrow> mb option" where
  "ModbusFunc25 H s =
     (if InRomWrEn (base s) \<noteq> IN_FLASH_WR_ENABLE then mb_fail MB_DEVC_EXCEPTION s (base s)
      else do {
        (WriteAddr, _, b) \<leftarrow> ModBus_WritePreHandle (base s);
        if WriteAddr > 0x0009 \<and> WriteAddr AND 0x00B0 \<noteq> 0x00B0 then mb_fail MB_ADDR_EXCEPTION s b
        else do {
          d4 \<leftarrow> rd (Receive_Buf b) 4; d5 \<leftarrow> rd (Receive_Buf b) 5;
          let DataBuf = be16 d4 d5;
          if DataBuf \<noteq> 0 \<and> DataBuf \<noteq> 0xFF00 then mb_fail MB_VALU_EXCEPTION s b
          else func25_switch H WriteAddr DataBuf (s\<lparr>base := b\<rparr>) } })"


section \<open>The invariant of the conversion\<close>

text \<open>What \<open>Sensor_PCap_DataConvert\<close> needs of its parameters.\<close>

definition conv_ok :: "PCap_DataConvert_Param \<Rightarrow> bool" where
  "conv_ok P \<longleftrightarrow> CapMin P < CapMax P \<and> DA_ordered P"

definition conv_kept :: "mb \<Rightarrow> mb \<Rightarrow> bool" where
  "conv_kept s s' \<longleftrightarrow> (conv_ok (PCap_DataConvert (dev s)) \<longrightarrow> conv_ok (PCap_DataConvert (dev s')))"

text \<open>A calibration changes parameters, statics and the parameter area of the flash only.\<close>

definition calibrated :: "mb \<Rightarrow> mb \<Rightarrow> bool" where
  "calibrated s s' \<longleftrightarrow> base s' = base s \<and> port s' = port s \<and> flash_safe (fls s) (fls s')
     \<and> filter_step (DataFilter (dev s)) (DataFilter (dev s')) \<and> conv_kept s s'"

lemma calibrated_refl [simp]: "calibrated s s"
  by (simp add: calibrated_def conv_kept_def)

lemma calibrated_cal [simp]:
  "calibrated s (s'\<lparr>cal := c\<rparr>) = calibrated s s'" "calibrated (s\<lparr>cal := c\<rparr>) s' = calibrated s s'"
  by (simp_all add: calibrated_def conv_kept_def)

lemma length_bytes [simp]: "length (bytes32 w) = 4" "length (bytes16 v) = 2"
  by (simp_all add: bytes32_def bytes16_def)

lemma conv_ok_range: "conv_ok P \<Longrightarrow> lo < hi \<Longrightarrow> conv_ok (P\<lparr>CapMin := lo, CapMax := hi\<rparr>)"
  by (simp add: conv_ok_def DA_ordered_def)

lemma conv_ok_simps [simp]:
  "conv_ok (P\<lparr>CapMinBak := x, CapMaxBak := y\<rparr>) = conv_ok P"
  "conv_ok (P\<lparr>CapADMin := c0, CapADLow := c1, CapADHigh := c2, CapADMax := c3\<rparr>) = conv_ok P"
  "conv_ok (P\<lparr>CapDA_ClibEn := e\<rparr>) = conv_ok P"
  by (simp_all add: conv_ok_def DA_ordered_def)

lemma conv_ok_DA:
  "conv_ok P \<Longrightarrow> (l = 0 \<and> h = 0 \<and> lo < hi \<or> lo < l \<and> l < h \<and> h < hi)
   \<Longrightarrow> conv_ok (P\<lparr>CapDAMin := lo, CapDALow := l, CapDAHigh := h, CapDAMax := hi\<rparr>)"
  by (auto simp: conv_ok_def DA_ordered_def)

context flash_hal
begin

lemma write3t_param:
  assumes "unat a + unat n \<le> FLASH_PAGE_SIZE" "unat a < FLASH_PAGE_SIZE" "unat n \<le> length buf"
  obtains st f' where "InFlash_Write3T_MultiBytes H f a buf n = Some (st, f')" "flash_safe f f'"
  by (rule write3t [OF assms, of f]) (auto simp: flash_safe_def)

lemma Cap_Calibration_ok: "\<exists>s'. MB_Cap_Calibration H s = Some s' \<and> calibrated s s'"
proof (cases "Calib_CapMin (cal s) < Calib_CapMax (cal s)")
  case True
  let ?bs = "bytes32 (Calib_CapMin (cal s)) @ bytes32 (Calib_CapMax (cal s))"
  obtain st1 f1 where 1: "InFlash_Write3T_MultiBytes H (fls s) CAPMIN ?bs 8 = Some (st1, f1)" "flash_safe (fls s) f1"
    by (rule write3t_param [of CAPMIN 8 ?bs "fls s"]) auto
  obtain st2 f2 where 2: "InFlash_Write3T_MultiBytes H f1 CAPMINBAK ?bs 8 = Some (st2, f2)" "flash_safe f1 f2"
    by (rule write3t_param [of CAPMINBAK 8 ?bs f1]) auto
  show ?thesis
    using 1 2 True flash_safe_trans [OF 1(2) 2(2)]
    by (auto simp: MB_Cap_Calibration_def Let_def calibrated_def conv_kept_def conv_ok_range)
qed (simp add: MB_Cap_Calibration_def)

lemma CapAD_Calibration_ok: "\<exists>s'. MB_CapAD_Calibration H s = Some s' \<and> calibrated s s'"
proof -
  let ?bs = "bytes16 (Calib_ADMin (cal s)) @ bytes16 (Calib_ADLow (cal s)) @ bytes16 (Calib_ADHigh (cal s))
               @ bytes16 (Calib_ADMax (cal s))"
  obtain st1 f1 where 1: "InFlash_Write3T_MultiBytes H (fls s) CAPADMIN ?bs 8 = Some (st1, f1)" "flash_safe (fls s) f1"
    by (rule write3t_param [of CAPADMIN 8 ?bs "fls s"]) auto
  then show ?thesis
    by (auto simp: MB_CapAD_Calibration_def Let_def calibrated_def conv_kept_def)
qed

lemma CapDAOut_Calibration_ok: "\<exists>s'. MB_CapDAOut_Calibration H s = Some s' \<and> calibrated s s'"
proof -
  let ?two = "CapDA_ClibFlag (cal s) = (0x20 OR 0x01)"
  let ?c = "if ?two then (cal s)\<lparr>Calib_CapDAHigh := 0, Calib_CapDALow := 0\<rparr> else cal s"
  let ?bs = "bytes16 (Calib_CapDAMin ?c) @ bytes16 (Calib_CapDALow ?c) @ bytes16 (Calib_CapDAHigh ?c)
               @ bytes16 (Calib_CapDAMax ?c)"
  obtain st1 f1 where 1: "InFlash_Write3T_MultiBytes H (fls s) CAPDAMIN ?bs 8 = Some (st1, f1)" "flash_safe (fls s) f1"
    by (rule write3t_param [of CAPDAMIN 8 ?bs "fls s"]) auto
  show ?thesis
    using 1 by (cases ?two)
      (auto simp: MB_CapDAOut_Calibration_def Let_def calibrated_def conv_kept_def not_le intro!: conv_ok_DA)
qed

lemma TempDAOut_Calibration_ok: "\<exists>s'. MB_TempDAOut_Calibration H s = Some s' \<and> calibrated s s'"
proof -
  let ?bs = "bytes16 (Calib_TempDAMin (cal s)) @ bytes16 (Calib_TempDAMax (cal s))"
  obtain st1 f1 where 1: "InFlash_Write3T_MultiBytes H (fls s) TEMPDAMIN ?bs 4 = Some (st1, f1)" "flash_safe (fls s) f1"
    by (rule write3t_param [of TEMPDAMIN 4 ?bs "fls s"]) auto
  then show ?thesis
    by (auto simp: MB_TempDAOut_Calibration_def Let_def calibrated_def conv_kept_def)
qed

lemma coil50_ok: "\<exists>s'. coil50 H d s = Some s' \<and> calibrated s s'"
proof -
  have "\<exists>s'. (if P then Option.bind (MB_Cap_Calibration H (s\<lparr>cal := c\<rparr>)) (\<lambda>s. Some (s\<lparr>cal := g s\<rparr>))
              else Some (s\<lparr>cal := c\<rparr>)) = Some s' \<and> calibrated s s'" for P c g
    using Cap_Calibration_ok [of "s\<lparr>cal := c\<rparr>"] by auto
  then show ?thesis unfolding coil50_def Let_def .
qed

lemma coil51_ok: "\<exists>s'. coil51 H d s = Some s' \<and> calibrated s s'"
  using Cap_Calibration_ok [of "s\<lparr>cal := (cal s)\<lparr>Calib_CapMin := CapMinBak (PCap_DataConvert (dev s)),
           Calib_CapMax := CapMaxBak (PCap_DataConvert (dev s))\<rparr>\<rparr>"]
  by (auto simp: coil51_def)

lemma func25_DA_enable_ok: "\<exists>s'. func25_DA_enable H d s = Some s' \<and> calibrated s s'"
proof -
  let ?s = "s\<lparr>dev := upd_conv (\<lambda>P. if d = 0xFF00 then P\<lparr>CapDA_ClibEn := 0x0F\<rparr>
              else if d = 0 then P\<lparr>CapDA_ClibEn := 0\<rparr> else P) (dev s)\<rparr>"
  have "calibrated s ?s" by (simp add: calibrated_def conv_kept_def)
  then have "\<exists>s'. (if P then Option.bind (MB_CapDAOut_Calibration H ?s) (\<lambda>s. Some (s\<lparr>cal := g s\<rparr>))
              else Some ?s) = Some s' \<and> calibrated s s'" for P g
    using CapDAOut_Calibration_ok [of ?s] flash_safe_trans by (auto simp: calibrated_def conv_kept_def)
  then show ?thesis unfolding func25_DA_enable_def Let_def .
qed

lemma func25_Temp_enable_ok: "\<exists>s'. func25_Temp_enable H d s = Some s' \<and> calibrated s s'"
proof -
  have "\<exists>s'. (if P then Option.bind (MB_TempDAOut_Calibration H (s\<lparr>cal := c\<rparr>)) (\<lambda>s. Some (s\<lparr>cal := g s\<rparr>))
              else Some (s\<lparr>cal := c\<rparr>)) = Some s' \<and> calibrated s s'" for P c g
    using TempDAOut_Calibration_ok [of "s\<lparr>cal := c\<rparr>"] by auto
  then show ?thesis unfolding func25_Temp_enable_def Let_def .
qed

lemma func25_AD_enable_ok: "\<exists>s'. func25_AD_enable H d s = Some s' \<and> calibrated s s'"
proof -
  have "\<exists>s'. (if P then Option.bind (MB_CapAD_Calibration H (s\<lparr>cal := c\<rparr>)) (\<lambda>s. Some (s\<lparr>cal := g s\<rparr>))
              else Some (s\<lparr>cal := c\<rparr>)) = Some s' \<and> calibrated s s'" for P c g
    using CapAD_Calibration_ok [of "s\<lparr>cal := c\<rparr>"] by auto
  then show ?thesis unfolding func25_AD_enable_def Let_def .
qed

lemma func25_switch_ok: "\<exists>s'. func25_switch H a d s = Some s' \<and> calibrated s s'"
  using func25_DA_enable_ok [of d s] func25_Temp_enable_ok [of d s] func25_AD_enable_ok [of d s]
  by (simp add: func25_switch_def Let_def func25_DA_point_def func25_Temp_point_def func25_AD_point_def)

end

section \<open>The two handlers\<close>

text \<open>What both promise, whatever the flash does: they return, and besides the contract of every
  handler they keep the invariant of the conversion and respect the write protection.\<close>

definition calib_handled :: "mb \<Rightarrow> mb \<Rightarrow> bool" where
  "calib_handled s s' \<longleftrightarrow> handled s s' \<and> conv_kept s s'
     \<and> (InRomWrEn (base s) \<noteq> IN_FLASH_WR_ENABLE \<longrightarrow> fls s' = fls s)"

lemma calib_handled_base:
  "same_but_reply b (base s) \<Longrightarrow> bufs_ok b \<Longrightarrow> calib_handled s (s\<lparr>base := b\<rparr>)"
  by (simp add: calib_handled_def handled_def conv_kept_def same_but_reply_fields)

lemma calib_handled_exception:
  assumes "same_but_reply b (base s)" "bufs_ok b"
  shows "\<exists>s'. mb_fail code s b = Some s' \<and> calib_handled s s'"
proof -
  obtain b' where "mb_exception code b = Some b'" "bufs_ok b'" "same_but_reply b' b"
    using mb_exception_ok [OF assms(2), of code] by blast
  then show ?thesis
    using calib_handled_base [of b' s] same_but_reply_trans [OF _ assms(1)] by auto
qed

lemma calib_handled_calibrated:
  assumes "\<exists>s'. h (s\<lparr>base := b\<rparr>) = Some s' \<and> calibrated (s\<lparr>base := b\<rparr>) s'"
    and "same_but_reply b (base s)" "bufs_ok b" "InRomWrEn b = IN_FLASH_WR_ENABLE"
  shows "\<exists>s'. h (s\<lparr>base := b\<rparr>) = Some s' \<and> calib_handled s s'"
proof -
  obtain s' where s': "h (s\<lparr>base := b\<rparr>) = Some s'" "calibrated (s\<lparr>base := b\<rparr>) s'" using assms(1) by blast
  have "InRomWrEn (base s) = IN_FLASH_WR_ENABLE" "Receive_Buf b = Receive_Buf (base s)"
    using same_but_reply_fields [OF assms(2)] assms(4) by simp_all
  then have "calib_handled s s'"
    using s'(2) assms(3) by (simp add: calib_handled_def handled_def calibrated_def conv_kept_def)
  with s'(1) show ?thesis by blast
qed

context flash_hal
begin

lemma Func05_ok:
  assumes "bufs_ok (base s)"
  shows "\<exists>s'. ModbusFunc05 H s = Some s' \<and> calib_handled s s'"
proof -
  obtain b where b: "ModBus_WritePreHandle (base s) = Some (req_addr (base s), req_num (base s), b)" "bufs_ok b"
    "same_but_reply b (base s)"
    by (rule WritePreHandle_ok [OF assms])
  let ?d = "be16 (Receive_Buf b ! 4) (Receive_Buf b ! 5)"
  have rdb: "rd (Receive_Buf b) 4 = Some (Receive_Buf b ! 4)" "rd (Receive_Buf b) 5 = Some (Receive_Buf b ! 5)"
    using b(2) by (simp_all add: bufs_ok_def)
  have ch: "calib_handled s (s\<lparr>base := b'\<rparr>)"
    if "bufs_ok b'" "Receive_Buf b' = Receive_Buf b" for b'
    using that same_but_reply_fields(8) [OF b(3)] by (simp add: calib_handled_def handled_def conv_kept_def)
  have base_ok: "calib_handled s (s\<lparr>base := wr_enable d b\<rparr>)"
    "calib_handled s (s\<lparr>base := b\<lparr>ModBus_CallBack := Some MB_Freeze\<rparr>\<rparr>)"
    "calib_handled s (s\<lparr>base := b\<lparr>Freeze := FREEZE_DISABLE\<rparr>\<rparr>)" "calib_handled s (s\<lparr>base := b\<rparr>)" for d
    using b(2) by (auto simp: wr_enable_def bufs_ok_def intro!: ch)
  note ex = calib_handled_exception [OF b(3,2)]
  have coils: "\<exists>s'. coil50 H d (s\<lparr>base := b\<rparr>) = Some s' \<and> calib_handled s s'"
    "\<exists>s'. coil51 H d (s\<lparr>base := b\<rparr>) = Some s' \<and> calib_handled s s'"
    if "InRomWrEn b = IN_FLASH_WR_ENABLE" for d
    by (rule calib_handled_calibrated [OF _ b(3,2) that], rule coil50_ok coil51_ok)+
  show ?thesis
    unfolding ModbusFunc05_def b(1) using ex coils base_ok
    by (simp add: rdb Let_def)
qed

lemma Func25_ok:
  assumes "bufs_ok (base s)"
  shows "\<exists>s'. ModbusFunc25 H s = Some s' \<and> calib_handled s s'"
proof (cases "InRomWrEn (base s) = IN_FLASH_WR_ENABLE")
  case True
  obtain b where b: "ModBus_WritePreHandle (base s) = Some (req_addr (base s), req_num (base s), b)" "bufs_ok b"
    "same_but_reply b (base s)"
    by (rule WritePreHandle_ok [OF assms])
  let ?d = "be16 (Receive_Buf b ! 4) (Receive_Buf b ! 5)"
  have rdb: "rd (Receive_Buf b) 4 = Some (Receive_Buf b ! 4)" "rd (Receive_Buf b) 5 = Some (Receive_Buf b ! 5)"
    using b(2) by (simp_all add: bufs_ok_def)
  have "InRomWrEn b = IN_FLASH_WR_ENABLE" using True same_but_reply_fields [OF b(3)] by simp
  note sw = calib_handled_calibrated [of "func25_switch H (req_addr (base s)) ?d", OF func25_switch_ok b(3,2) this]
  show ?thesis
    unfolding ModbusFunc25_def b(1) using calib_handled_exception [OF b(3,2)] sw True
    by (simp add: rdb Let_def)
next
  case False
  then show ?thesis
    using calib_handled_exception [of "base s" s] assms by (simp add: ModbusFunc25_def)
qed

end

sublocale flash_hal \<subseteq> func05: guarded_handler "ModbusFunc05 H"
proof
  fix s s' assume "bufs_ok (base s)" "ModbusFunc05 H s = Some s'"
  then show "handled s s'" "InRomWrEn (base s) \<noteq> IN_FLASH_WR_ENABLE \<Longrightarrow> fls s' = fls s"
    using Func05_ok [of s] by (auto simp: calib_handled_def)
qed

sublocale flash_hal \<subseteq> func25: guarded_handler "ModbusFunc25 H"
proof
  fix s s' assume "bufs_ok (base s)" "ModbusFunc25 H s = Some s'"
  then show "handled s s'" "InRomWrEn (base s) \<noteq> IN_FLASH_WR_ENABLE \<Longrightarrow> fls s' = fls s"
    using Func25_ok [of s] by (auto simp: calib_handled_def)
qed


section \<open>Restart\<close>

lemma flash_u8_area: "unat a \<le> IN_FLASH_END \<Longrightarrow> flash_u8 f a = Some (area f (unat a))"
  by (simp add: flash_u8_def Read_MultiBytes_area)

lemma flash_u16_area:
  "unat a + 1 \<le> IN_FLASH_END \<Longrightarrow> flash_u16 f a = Some (be16 (area f (unat a)) (area f (unat a + 1)))"
  by (simp add: flash_u16_def Read_MultiBytes_area upt_rec)

lemma flash_u32_area:
  "unat a + 3 \<le> IN_FLASH_END \<Longrightarrow> flash_u32 f a = Some (be32 (area f (unat a)) (area f (unat a + 1))
     (area f (unat a + 2)) (area f (unat a + 3)))"
  by (simp add: flash_u32_def Read_MultiBytes_area upt_rec HexToUlong_bytes numeral_3_eq_3)

lemma DataConvertParam_Init_range:
  "\<exists>P'. DataConvertParam_Init f P = Some P'
     \<and> CapMin P' = be32 (area f 11) (area f 12) (area f 13) (area f 14)
     \<and> CapMax P' = be32 (area f 15) (area f 16) (area f 17) (area f 18)"
  by (simp add: DataConvertParam_Init_def flash_u8_area flash_u16_area flash_u32_area)

lemma overwrite3_in:
  "i < length bs \<Longrightarrow> a + length bs \<le> 2048 \<Longrightarrow> overwrite3 g a bs (a + i) = bs ! i"
  by (simp add: overwrite3_def overwrite_def)

text \<open>The first copy after a triple write of two 32-bit values.\<close>

lemma overwrite3_two32:
  assumes "a + 8 \<le> 2048"
  shows "be32 (overwrite3 g a (bytes32 x @ bytes32 y) a) (overwrite3 g a (bytes32 x @ bytes32 y) (a + 1))
           (overwrite3 g a (bytes32 x @ bytes32 y) (a + 2)) (overwrite3 g a (bytes32 x @ bytes32 y) (a + 3)) = x"
    and "be32 (overwrite3 g a (bytes32 x @ bytes32 y) (a + 4)) (overwrite3 g a (bytes32 x @ bytes32 y) (a + 5))
           (overwrite3 g a (bytes32 x @ bytes32 y) (a + 6)) (overwrite3 g a (bytes32 x @ bytes32 y) (a + 7)) = y"
  using assms by (simp_all add: overwrite3_def overwrite_def bytes32_def be32_bytes_Suc)

section \<open>Properties\<close>

text \<open>The calibration handlers are total and safe: whatever the flash driver answers, the
  function codes 05 and 25 return, leave the port alone, keep the buffers and the frame, change
  the flash only inside the parameter area and only when writing is enabled, and keep the
  condition under which the conversion of a capacitance stays within its bounds (an ordered
  range and ordered output points).\<close>

theorem calibration_safe:
  assumes "flash_hal H" "bufs_ok (base s)" "conv_ok (PCap_DataConvert (dev s))"
    and "h = ModbusFunc05 H \<or> h = ModbusFunc25 H"
  shows "\<exists>s'. h s = Some s' \<and> handled s s' \<and> conv_ok (PCap_DataConvert (dev s'))
     \<and> (InRomWrEn (base s) \<noteq> IN_FLASH_WR_ENABLE \<longrightarrow> fls s' = fls s)"
  using flash_hal.Func05_ok [OF assms(1,2)] flash_hal.Func25_ok [OF assms(1,2)] assms(3,4)
  by (auto simp: calib_handled_def conv_kept_def)

lemma conv_ok_0: "conv_ok convert_param0"
  by (simp add: conv_ok_def DA_ordered_def convert_param0_def)

lemma dev_with: "dev (mb_with bs) = dev0" "PCap_DataConvert dev0 = convert_param0" "fls (mb_with bs) = blank_flash"
  by (simp_all add: mb_with_def dev0_def)

lemma calibration_safe_witness:
  "\<exists>s'. ModbusFunc05 st_hal (mb_with [1, 5, 0, 0x50, 0xFF, 0]) = Some s' \<and> conv_ok (PCap_DataConvert (dev s'))"
  using calibration_safe [OF st_hal_flash_hal, of "mb_with [1, 5, 0, 80, 255, 0]" "ModbusFunc05 st_hal"]
  by (auto simp: bufs_ok_with conv_ok_0 dev_with)

text \<open>A calibrated range survives a restart: when the two calibration points are in order,
  \<open>MB_Cap_Calibration\<close> on a flash that does not fail takes them over into the parameters of the
  conversion and of the filter, and \<open>DataConvertParam_Init\<close> reads the same range back from the
  flash.\<close>

theorem calibration_survives_restart:
  assumes "reliable_flash H good" "good (fls s)" "Calib_CapMin (cal s) < Calib_CapMax (cal s)"
    and "CapMaxBak (PCap_DataConvert (dev s)) \<noteq> 0xFFFFFFFF"
  shows "\<exists>s'. MB_Cap_Calibration H s = Some s'
     \<and> CapMin (PCap_DataConvert (dev s')) = Calib_CapMin (cal s)
     \<and> CapMax (PCap_DataConvert (dev s')) = Calib_CapMax (cal s)
     \<and> InputRangeMin (DataFilter (dev s')) = Calib_CapMin (cal s)
     \<and> InputRangeMax (DataFilter (dev s')) = Calib_CapMax (cal s)
     \<and> (\<exists>P. DataConvertParam_Init (fls s') (PCap_DataConvert (dev s)) = Some P
            \<and> CapMin P = Calib_CapMin (cal s) \<and> CapMax P = Calib_CapMax (cal s))"
proof -
  let ?x = "Calib_CapMin (cal s)" and ?y = "Calib_CapMax (cal s)"
  let ?bs = "bytes32 ?x @ bytes32 ?y"
  obtain f where f: "InFlash_Write3T_MultiBytes H (fls s) CAPMIN ?bs 8 = Some (OP_SUCCESS, f)"
    "area f = overwrite3 (area (fls s)) 11 ?bs"
    using reliable_flash.write3t_reliable [OF assms(1), of CAPMIN 8 ?bs "fls s"] assms(2) by auto
  note two = overwrite3_two32 [of 11 "area (fls s)" ?x ?y]
  show ?thesis
    using f(1) assms(3,4) DataConvertParam_Init_range [of f "PCap_DataConvert (dev s)"] two
    by (simp add: MB_Cap_Calibration_def Let_def f(2))
qed

lemma calibration_survives_restart_witness:
  "\<exists>s'. MB_Cap_Calibration st_hal ((mb_with [])\<lparr>cal := cal0\<lparr>Calib_CapMin := 5, Calib_CapMax := 9\<rparr>\<rparr>) = Some s'
     \<and> (\<exists>P. DataConvertParam_Init (fls s') convert_param0 = Some P \<and> CapMin P = 5 \<and> CapMax P = 9)"
  using calibration_survives_restart [OF st_drv.reliable_flash_axioms,
      of "(mb_with [])\<lparr>cal := cal0\<lparr>Calib_CapMin := 5, Calib_CapMax := 9\<rparr>\<rparr>"]
  by (auto simp: dev_with convert_param0_def no_faults_def blank_flash_def cal0_def)

end
