(* ===== verification/ModbusWrite.thy ===== *)
theory ModbusWrite
  imports ModbusCalib
begin

text \<open>
  The writing function codes of \<open>APP/Src/ModBus_Conf.c\<close>: 10 (holding registers), 27
  (calibration values as \<open>float\<close>), 2A (version strings) and 41 (restart).  A pointer into the
  receive buffer that the code passes on is the rest of the buffer from that position.
\<close>

section \<open>Function code 10\<close>

text \<open>The triple write of a parameter, and what each register does with its value \<open>u16temp\<close>;
  \<open>field\<close> is the receive buffer from the value on.\<close>

definition write3 :: "hal_flash \<Rightarrow> u16 \<Rightarrow> u8 list \<Rightarrow> u16 \<Rightarrow> mb \<Rightarrow> mb option" where
  "write3 H a buf n s = do {
     (_, f) \<leftarrow> InFlash_Write3T_MultiBytes H (fls s) a buf n;
     Some (s\<lparr>fls := f\<rparr>) }"

definition reg10 :: "hal_flash \<Rightarrow> u16 \<Rightarrow> u16 \<Rightarrow> u8 list \<Rightarrow> mb \<Rightarrow> mb option" where
  "reg10 H WriteAddr u16temp field s =
     (let b = base s; d = dev s in
      if WriteAddr = 0x0030 then
        (if 0 < u16temp \<and> 0xF8 > u16temp
         then write3 H DEVICE_ADDR [ucast u16temp] 1 (s\<lparr>base := b\<lparr>Device_Addr := ucast u16temp\<rparr>\<rparr>)
         else Some s)
      else if WriteAddr = 0x0031 then
        (if 0x06 > u16temp
         then write3 H BAUDRATE [ucast u16temp] 1
                (s\<lparr>base := b\<lparr>BaudRate := ucast u16temp, ModBus_CallBack := Some MB_USART_ReInit\<rparr>\<rparr>)
         else Some s)
      else if WriteAddr = 0x0032 then
        (if 0x03 > u16temp
         then write3 H PARITY [ucast u16temp] 1
                (s\<lparr>base := b\<lparr>Parity := ucast u16temp, ModBus_CallBack := Some MB_USART_ReInit\<rparr>\<rparr>)
         else Some s)
      else if WriteAddr = 0x0034 then
        (if 2 > u16temp
         then write3 H COMPENSATE [ucast u16temp] 1
                (s\<lparr>dev := upd_conv (\<lambda>P. P\<lparr>CompenEn := ucast u16temp\<rparr>) d\<rparr>)
         else Some s)
      else if WriteAddr = 0x0035 then
        (if 0x0A > u16temp
         then write3 H FILTER [ucast u16temp] 1
                (s\<lparr>dev := upd_filt (\<lambda>F. SwitchCurFilter (ucast u16temp) (F\<lparr>FilterFactor := ucast u16temp\<rparr>)) d\<rparr>)
         else Some s)
      else if WriteAddr = 0x0036 then
        write3 H AUTO_UPLOAD [ucast u16temp] 1 (s\<lparr>base := b\<lparr>AutoUpload := ucast u16temp\<rparr>\<rparr>)
      else if WriteAddr = 0x0037 then
        (if 0 < u16temp
         then write3 H CORRECT_K field 2
                (s\<lparr>dev := upd_conv (\<lambda>P. P\<lparr>Correct_K :=
                     f_round f32 (f_div f64 (f_of_int (uint u16temp)) (Fin 100))\<rparr>) d\<rparr>)
         else Some s)
      else if WriteAddr = 0x0038 then
        write3 H CORRECT_B field 2
          (s\<lparr>dev := upd_conv (\<lambda>P. P\<lparr>Correct_B := f_of_int (uint u16temp)\<rparr>) d\<rparr>)
      else if WriteAddr = 0x0039 then
        (if 2 > u16temp
         then write3 H OUTPUTMODE [ucast u16temp] 1 (s\<lparr>base := b\<lparr>Output_Mode := ucast u16temp\<rparr>\<rparr>)
         else Some s)
      else if WriteAddr = 0x003F then
        (if u16temp > 0
         then write3 H HEIGHTRANGE field 2 (s\<lparr>dev := upd_conv (\<lambda>P. P\<lparr>HeightRange := u16temp\<rparr>) d\<rparr>)
         else Some s)
      else Some s)"

text \<open>The loop advances the index into the data by the length of all the data, not by the two bytes
  of one register.\<close>

fun loop10 :: "hal_flash \<Rightarrow> u16 \<Rightarrow> nat \<Rightarrow> u16 \<Rightarrow> u16 \<Rightarrow> mb \<Rightarrow> mb option" where
  "loop10 H DataLen 0 WriteAddr Index s = Some s"
| "loop10 H DataLen (Suc n) WriteAddr Index s = do {
     h \<leftarrow> rd (Receive_Buf (base s)) (7 + unat Index);
     l \<leftarrow> rd (Receive_Buf (base s)) (8 + unat Index);
     s \<leftarrow> reg10 H WriteAddr (be16 h l) (drop (7 + unat Index) (Receive_Buf (base s))) s;
     loop10 H DataLen n (WriteAddr + 1) (Index + DataLen) s }"

definition ModbusFunc10 :: "hal_flash \<Rightarrow> mb \<Rightarrow> mb option" where
  "ModbusFunc10 H s = do {
     r6 \<leftarrow> rd (Receive_Buf (base s)) 6;
     let DataLen = (ucast r6 :: u16);
     (WriteAddr, RegNum, b) \<leftarrow> ModBus_WritePreHandle (base s);
     if WriteAddr < 0x0030 \<or> unat WriteAddr + unat RegNum > 0x0041 + 1
        \<or> unat DataLen \<noteq> unat RegNum * 2 \<or> RegNum = 0
     then mb_fail MB_ADDR_EXCEPTION s b
     else if IN_FLASH_WR_ENABLE \<noteq> InRomWrEn b then mb_fail MB_DEVC_EXCEPTION s b
     else loop10 H DataLen (unat RegNum) WriteAddr 0 (s\<lparr>base := b\<rparr>) }"

section \<open>Function code 27\<close>

text \<open>The range of the capacitance is stored as it was received; a point of the output or of the
  level must be in range and is stored as an integer.\<close>

definition reg27_range :: "hal_flash \<Rightarrow> bool \<Rightarrow> fval \<Rightarrow> u8 list \<Rightarrow> mb \<Rightarrow> mb option" where
  "reg27_range H is_max fbuf field s = do {
     v \<leftarrow> f_to_u32 fbuf;
     let d = dev s;
     let d = (if is_max then upd_filt (\<lambda>F. F\<lparr>InputRangeMax := v\<rparr>) (upd_conv (\<lambda>P. P\<lparr>CapMax := v\<rparr>) d)
              else upd_filt (\<lambda>F. F\<lparr>InputRangeMin := v\<rparr>) (upd_conv (\<lambda>P. P\<lparr>CapMin := v\<rparr>) d));
     write3 H (if is_max then CAPMAX else CAPMIN) field 4 (s\<lparr>dev := d\<rparr>) }"

definition reg27_point :: "hal_flash \<Rightarrow> int \<Rightarrow> u16 \<Rightarrow> (u16 \<Rightarrow> PCap_DataConvert_Param \<Rightarrow> PCap_DataConvert_Param)
                             \<Rightarrow> fval \<Rightarrow> mb \<Rightarrow> mb option" where
  "reg27_point H hi a set_field fbuf s =
     (if f_le fbuf (Fin (of_int hi)) \<and> f_le (Fin 0) fbuf then do {
        v \<leftarrow> f_to_u16 fbuf;
        write3 H a (bytes16 v) 2 (s\<lparr>dev := upd_conv (set_field v) (dev s)\<rparr>) }
      else Some s)"

definition reg27 :: "hal_flash \<Rightarrow> u16 \<Rightarrow> fval \<Rightarrow> u8 list \<Rightarrow> mb \<Rightarrow> mb option" where
  "reg27 H WriteAddr fbuf field s =
     (if WriteAddr = 0x0080 then reg27_range H True fbuf field s
      else if WriteAddr = 0x0082 then reg27_range H False fbuf field s
      else if WriteAddr = 0x0084 then reg27_point H 4095 CAPDAMAX (\<lambda>v P. P\<lparr>CapDAMax := v\<rparr>) fbuf s
      else if WriteAddr = 0x0086 then reg27_point H 4095 CAPDAHIGH (\<lambda>v P. P\<lparr>CapDAHigh := v\<rparr>) fbuf s
      else if WriteAddr = 0x0088 then reg27_point H 4095 CAPDALOW (\<lambda>v P. P\<lparr>CapDALow := v\<rparr>) fbuf s
      else if WriteAddr = 0x008A then reg27_point H 4095 CAPDAMIN (\<lambda>v P. P\<lparr>CapDAMin := v\<rparr>) fbuf s
      else if WriteAddr = 0x008C then reg27_point H 65535 CAPADMAX (\<lambda>v P. P\<lparr>CapADMax := v\<rparr>) fbuf s
      else if WriteAddr = 0x008E then reg27_point H 65535 CAPADHIGH (\<lambda>v P. P\<lparr>CapADHigh := v\<rparr>) fbuf s
      else if WriteAddr = 0x0090 then reg27_point H 65535 CAPADLOW (\<lambda>v P. P\<lparr>CapADLow := v\<rparr>) fbuf s
      else if WriteAddr = 0x0092 then reg27_point H 65535 CAPADMIN (\<lambda>v P. P\<lparr>CapADMin := v\<rparr>) fbuf s
      else Some s)"

fun loop27 :: "hal_flash \<Rightarrow> u16 \<Rightarrow> nat \<Rightarrow> u16 \<Rightarrow> u16 \<Rightarrow> mb \<Rightarrow> mb option" where
  "loop27 H DataLen 0 WriteAddr index s = Some s"
| "loop27 H DataLen (Suc n) WriteAddr index s = do {
     let field = drop (7 + unat index) (Receive_Buf (base s));
     w \<leftarrow> HexToFloat field;
     s \<leftarrow> reg27 H WriteAddr (f32_val w) field s;
     loop27 H DataLen n (WriteAddr + 2) (index + DataLen) s }"

definition ModbusFunc27 :: "hal_flash \<Rightarrow> mb \<Rightarrow> mb option" where
  "ModbusFunc27 H s = do {
     (WriteAddr, RegNum, b) \<leftarrow> ModBus_WritePreHandle (base s);
     if IN_FLASH_WR_ENABLE \<noteq> InRomWrEn b then mb_fail MB_DEVC_EXCEPTION s b
     else do {
       r6 \<leftarrow> rd (Receive_Buf b) 6;
       let DataLen = (ucast r6 :: u16);
       if WriteAddr < 0x0080 \<or> unat WriteAddr + unat RegNum > 0x00A2 + 2
          \<or> RegNum AND 0x01 \<noteq> 0 \<or> WriteAddr AND 0x01 \<noteq> 0
          \<or> unat DataLen \<noteq> unat RegNum * 2 \<or> RegNum = 0
       then mb_fail MB_ADDR_EXCEPTION s b
       else loop27 H DataLen ((unat RegNum + 1) div 2) WriteAddr 0 (s\<lparr>base := b\<rparr>) } }"

section \<open>Function code 2A\<close>

text \<open>The six objects differ in their address only.  \<open>objlen\<close> and \<open>j\<close> are bytes.\<close>

definition obj2A :: "hal_flash \<Rightarrow> u16 \<Rightarrow> u8 \<Rightarrow> u8 \<Rightarrow> mb \<Rightarrow> mb option" where
  "obj2A H ADDR j objlen s =
     (if 0x2F < objlen then Some s
      else do {
        (_, f) \<leftarrow> InFlash_Write_MultiBytes H (fls s) ADDR (drop (unat j) (Receive_Buf (base s))) (ucast objlen);
        Some (s\<lparr>fls := f\<rparr>) })"

fun loop2A :: "hal_flash \<Rightarrow> nat \<Rightarrow> u16 \<Rightarrow> u8 \<Rightarrow> mb \<Rightarrow> mb option" where
  "loop2A H 0 WriteAddr j s = Some s"
| "loop2A H (Suc n) WriteAddr j s = do {
     l \<leftarrow> rd (Receive_Buf (base s)) (unat j);
     let objlen = l + 1;
     (case version_addr WriteAddr of
        Some a \<Rightarrow> do { s \<leftarrow> obj2A H a j objlen s; loop2A H n (WriteAddr + 1) (j + objlen) s }
      | None \<Rightarrow> loop2A H n (WriteAddr + 1) j s) }"

definition ModbusFunc2A :: "hal_flash \<Rightarrow> mb \<Rightarrow> mb option" where
  "ModbusFunc2A H s = do {
     (WriteAddr, RegNum, b) \<leftarrow> ModBus_WritePreHandle (base s);
     if WriteAddr < 0x00E0 \<or> unat WriteAddr + unat RegNum > 0x00E5 + 1 \<or> RegNum = 0
     then mb_fail MB_ADDR_EXCEPTION s b
     else loop2A H (unat RegNum) WriteAddr 6 (s\<lparr>base := b\<rparr>) }"

section \<open>Function code 41\<close>

definition ModbusFunc41 :: "mb \<Rightarrow> mb option" where
  "ModbusFunc41 s = do {
     let b = base s; let rb = Receive_Buf b;
     r2 \<leftarrow> rd rb 2; r3 \<leftarrow> rd rb 3; r4 \<leftarrow> rd rb 4; r5 \<leftarrow> rd rb 5;
     if be16 r2 r3 \<noteq> 0x0001 \<or> be16 r4 r5 \<noteq> 0x0000 then do {
       r0 \<leftarrow> rd rb 0; r1 \<leftarrow> rd rb 1;
       sb \<leftarrow> wr (Send_Buf b) 0 r0;
       sb \<leftarrow> wr sb 1 (r1 OR MB_REQ_FAILURE);
       sb \<leftarrow> wr sb 2 MB_VALU_EXCEPTION;
       Some (s\<lparr>base := b\<lparr>Send_Buf := sb, Send_Len := 3\<rparr>\<rparr>) }
     else do {
       bs \<leftarrow> rdn rb 0 5;
       sb \<leftarrow> wrn (Send_Buf b) 0 bs;
       sb \<leftarrow> wr sb 5 0x01;
       sb \<leftarrow> wr sb 6 0x00;
       Some (s\<lparr>base := b\<lparr>Send_Buf := sb, Send_Len := 7, ModBus_CallBack := Some MB_System_Reset\<rparr>\<rparr>) } }"


section \<open>The contract\<close>

lemma handled_base: "bufs_ok b \<Longrightarrow> Receive_Buf b = Receive_Buf (base s) \<Longrightarrow> handled s (s\<lparr>base := b\<rparr>)"
  by (simp add: handled_def)

lemma handled_dev [simp]:
  "filter_step (DataFilter (dev s)) (DataFilter d) \<Longrightarrow> handled s s' \<Longrightarrow> handled s (s'\<lparr>dev := d\<rparr>)"
  by (simp add: handled_def)

lemma handled_exception:
  "mb_fail code s b = Some s' \<Longrightarrow> same_but_reply b (base s) \<Longrightarrow> bufs_ok b \<Longrightarrow> handled s s' \<and> fls s' = fls s"
  using calib_handled_exception [of b s code] mb_exception_frame
  by (auto simp: calib_handled_def bind_eq_Some_conv)

context flash_hal
begin

lemma write3_handled:
  assumes "write3 H a buf n t = Some s'" "handled s t"
    and "unat a + unat n \<le> FLASH_PAGE_SIZE" "unat a < FLASH_PAGE_SIZE" "unat n \<le> length buf"
  shows "handled s s'"
proof -
  obtain st f where f: "InFlash_Write3T_MultiBytes H (fls t) a buf n = Some (st, f)" "flash_safe (fls t) f"
    by (rule write3t_param [OF assms(3-5)])
  then have "s' = t\<lparr>fls := f\<rparr>" using assms(1) by (simp add: write3_def)
  then show ?thesis using assms(2) f(2) by (auto simp: handled_def intro: flash_safe_trans filter_step_trans)
qed

lemma reg10_handled:
  assumes "reg10 H a v field s = Some s'" "bufs_ok (base s)" "2 \<le> length field"
  shows "handled s s'"
proof -
  have b: "handled s s" "\<And>x. handled s (s\<lparr>base := (base s)\<lparr>Device_Addr := x\<rparr>\<rparr>)"
    "\<And>x c. handled s (s\<lparr>base := (base s)\<lparr>BaudRate := x, ModBus_CallBack := c\<rparr>\<rparr>)"
    "\<And>x c. handled s (s\<lparr>base := (base s)\<lparr>Parity := x, ModBus_CallBack := c\<rparr>\<rparr>)"
    "\<And>x. handled s (s\<lparr>base := (base s)\<lparr>AutoUpload := x\<rparr>\<rparr>)"
    "\<And>x. handled s (s\<lparr>base := (base s)\<lparr>Output_Mode := x\<rparr>\<rparr>)"
    using assms(2) by (simp_all add: handled_def bufs_ok_def)
  show ?thesis
    using assms(1,3) b
    by (auto simp: reg10_def Let_def split: if_splits elim!: write3_handled)
qed

lemma loop10_handled: "loop10 H DataLen n a i s = Some s' \<Longrightarrow> bufs_ok (base s) \<Longrightarrow> handled s s'"
proof (induction n arbitrary: a i s)
  case 0
  then show ?case by (simp add: handled_refl)
next
  case (Suc n)
  let ?rb = "Receive_Buf (base s)"
  obtain h l t where t: "rd ?rb (8 + unat i) = Some l"
    "reg10 H a (be16 h l) (drop (7 + unat i) ?rb) s = Some t" "loop10 H DataLen n (a + 1) (i + DataLen) t = Some s'"
    using Suc.prems(1) by (auto simp: bind_eq_Some_conv)
  have "8 + unat i < length ?rb" using t(1) by (auto simp: rd_def split: if_splits)
  then have "handled s t" using reg10_handled [OF t(2) Suc.prems(2)] by simp
  then show ?case using Suc.IH [OF t(3)] by (auto simp: handled_def intro: flash_safe_trans filter_step_trans)
qed

lemma reg27_point_handled:
  assumes "reg27_point H hi a g v s = Some s'" "bufs_ok (base s)" "unat a + 2 \<le> FLASH_PAGE_SIZE"
  shows "handled s s'"
  using assms handled_refl [OF assms(2)]
  by (auto simp: reg27_point_def bind_eq_Some_conv split: if_splits elim!: write3_handled)

lemma reg27_range_handled:
  assumes "reg27_range H m v field s = Some s'" "bufs_ok (base s)" "4 \<le> length field"
  shows "handled s s'"
  using assms handled_refl [OF assms(2)]
  by (auto simp: reg27_range_def Let_def bind_eq_Some_conv split: if_splits elim!: write3_handled)

lemma reg27_handled:
  assumes "reg27 H a v field s = Some s'" "bufs_ok (base s)" "4 \<le> length field"
  shows "handled s s'"
  using assms handled_refl [OF assms(2)] reg27_range_handled [OF _ assms(2,3)] reg27_point_handled [OF _ assms(2)]
  unfolding reg27_def by (simp split: if_splits)

lemma HexToFloat_length: "HexToFloat bs = Some w \<Longrightarrow> 4 \<le> length bs"
  by (auto simp: HexToFloat_def bind_eq_Some_conv rd_def split: if_splits)

lemma loop27_handled: "loop27 H DataLen n a i s = Some s' \<Longrightarrow> bufs_ok (base s) \<Longrightarrow> handled s s'"
proof (induction n arbitrary: a i s)
  case 0
  then show ?case by (simp add: handled_refl)
next
  case (Suc n)
  let ?fl = "drop (7 + unat i) (Receive_Buf (base s))"
  obtain w t where t: "HexToFloat ?fl = Some w" "reg27 H a (f32_val w) ?fl s = Some t"
    "loop27 H DataLen n (a + 2) (i + DataLen) t = Some s'"
    using Suc.prems(1) by (auto simp: bind_eq_Some_conv Let_def)
  have "handled s t" by (rule reg27_handled [OF t(2) Suc.prems(2) HexToFloat_length [OF t(1)]])
  then show ?case using Suc.IH [OF t(3)] by (auto simp: handled_def intro: flash_safe_trans filter_step_trans)
qed

lemma version_addr_range: "version_addr a = Some x \<Longrightarrow> 1024 \<le> unat x \<and> unat x \<le> 1248"
  by (auto simp: version_addr_def split: if_splits)

lemma obj2A_handled:
  assumes "obj2A H x j n s = Some s'" "version_addr a = Some x" "bufs_ok (base s)"
  shows "handled s s'"
proof (cases "0x2F < n")
  case False
  then have n: "unat n \<le> 47" by (simp add: word_le_nat_alt not_less)
  have len: "length (Receive_Buf (base s)) = 600" using assms(3) by (simp add: bufs_ok_def)
  note x = version_addr_range [OF assms(2)]
  obtain st f where f: "InFlash_Write_MultiBytes H (fls s) x (drop (unat j) (Receive_Buf (base s))) (ucast n) = Some (st, f)"
    "\<And>y. \<not> in_page x y \<Longrightarrow> fl_mem f y = fl_mem (fls s) y"
    by (rule write_multi [of x "ucast n" "unat n" "drop (unat j) (Receive_Buf (base s))" "fls s"])
      (use n len x unat_u8_less [of j] in auto)
  have "flash_safe (fls s) f"
    using f(2) in_page_in_area [of x] x by (auto simp: flash_safe_def)
  moreover have "s' = s\<lparr>fls := f\<rparr>" using assms(1) False f(1) by (simp add: obj2A_def)
  ultimately show ?thesis using assms(3) by (simp add: handled_def)
qed (use assms handled_refl in \<open>simp add: obj2A_def\<close>)

lemma loop2A_handled: "loop2A H n a j s = Some s' \<Longrightarrow> bufs_ok (base s) \<Longrightarrow> handled s s'"
proof (induction n arbitrary: a j s)
  case 0
  then show ?case by (simp add: handled_refl)
next
  case (Suc n)
  show ?case
  proof (cases "version_addr a")
    case None
    then show ?thesis using Suc by (auto simp: bind_eq_Some_conv Let_def)
  next
    case (Some x)
    then obtain l t where t: "obj2A H x j (l + 1) s = Some t" "loop2A H n (a + 1) (j + (l + 1)) t = Some s'"
      using Suc.prems(1) by (auto simp: bind_eq_Some_conv Let_def)
    have "handled s t" by (rule obj2A_handled [OF t(1) Some Suc.prems(2)])
    then show ?thesis using Suc.IH [OF t(2)] by (auto simp: handled_def intro: flash_safe_trans filter_step_trans)
  qed
qed

end

text \<open>A writing handler after its prehandle.\<close>

lemma handled_after_prehandle:
  assumes "handled (s\<lparr>base := b\<rparr>) s'" "same_but_reply b (base s)"
  shows "handled s s'"
  using assms by (simp add: handled_def same_but_reply_fields)

sublocale flash_hal \<subseteq> func10: guarded_handler "ModbusFunc10 H"
proof
  fix s s' assume ok: "bufs_ok (base s)" and r: "ModbusFunc10 H s = Some s'"
  obtain a n b where p: "ModBus_WritePreHandle (base s) = Some (a, n, b)"
    using r by (auto simp: ModbusFunc10_def bind_eq_Some_conv)
  note b = prehandle_frame(2) [OF p, THEN conjunct1] prehandle_frame(2) [OF p, THEN conjunct2, rule_format, OF ok]
  note ex = handled_exception [of _ b s s', OF _ b]
  show "handled s s'"
    using r ok b ex handled_after_prehandle [OF loop10_handled b(1)] unfolding ModbusFunc10_def p
    by (auto simp: bind_eq_Some_conv split: if_splits)
  show "fls s' = fls s" if "InRomWrEn (base s) \<noteq> IN_FLASH_WR_ENABLE"
    using r ok b ex that same_but_reply_fields [OF b(1)] unfolding ModbusFunc10_def p
    by (auto simp: bind_eq_Some_conv split: if_splits)
qed

sublocale flash_hal \<subseteq> func27: guarded_handler "ModbusFunc27 H"
proof
  fix s s' assume ok: "bufs_ok (base s)" and r: "ModbusFunc27 H s = Some s'"
  obtain a n b where p: "ModBus_WritePreHandle (base s) = Some (a, n, b)"
    using r by (auto simp: ModbusFunc27_def bind_eq_Some_conv)
  note b = prehandle_frame(2) [OF p, THEN conjunct1] prehandle_frame(2) [OF p, THEN conjunct2, rule_format, OF ok]
  note ex = handled_exception [of _ b s s', OF _ b]
  show "handled s s'"
    using r ok b ex handled_after_prehandle [OF loop27_handled b(1)] unfolding ModbusFunc27_def p
    by (auto simp: bind_eq_Some_conv split: if_splits)
  show "fls s' = fls s" if "InRomWrEn (base s) \<noteq> IN_FLASH_WR_ENABLE"
    using r ok b ex that same_but_reply_fields [OF b(1)] unfolding ModbusFunc27_def p
    by (auto simp: bind_eq_Some_conv split: if_splits)
qed

sublocale flash_hal \<subseteq> func2A: mb_handler "ModbusFunc2A H"
proof
  fix s s' assume ok: "bufs_ok (base s)" and r: "ModbusFunc2A H s = Some s'"
  obtain a n b where p: "ModBus_WritePreHandle (base s) = Some (a, n, b)"
    using r by (auto simp: ModbusFunc2A_def bind_eq_Some_conv)
  note b = prehandle_frame(2) [OF p, THEN conjunct1] prehandle_frame(2) [OF p, THEN conjunct2, rule_format, OF ok]
  show "handled s s'"
    using r ok b handled_exception [of _ b s s', OF _ b] handled_after_prehandle [OF loop2A_handled b(1)]
    unfolding ModbusFunc2A_def p by (auto simp: bind_eq_Some_conv split: if_splits)
qed

interpretation func41: guarded_handler ModbusFunc41
proof
  fix s s' assume ok: "bufs_ok (base s)" and r: "ModbusFunc41 s = Some s'"
  have len: "length (Send_Buf (base s)) = 32" "length (Receive_Buf (base s)) = 600"
    using ok by (simp_all add: bufs_ok_def)
  have "\<exists>sb n c. s' = s\<lparr>base := (base s)\<lparr>Send_Buf := sb, Send_Len := n, ModBus_CallBack := c\<rparr>\<rparr>
      \<and> length sb = 32"
  proof (cases "be16 (Receive_Buf (base s) ! 2) (Receive_Buf (base s) ! 3) \<noteq> 1
      \<or> be16 (Receive_Buf (base s) ! 4) (Receive_Buf (base s) ! 5) \<noteq> 0")
    case True
    with r len have "s' = s\<lparr>base := (base s)\<lparr>Send_Buf := (Send_Buf (base s))[0 := Receive_Buf (base s) ! 0,
        1 := Receive_Buf (base s) ! 1 OR MB_REQ_FAILURE, 2 := MB_VALU_EXCEPTION], Send_Len := 3,
        ModBus_CallBack := ModBus_CallBack (base s)\<rparr>\<rparr>"
      by (simp add: ModbusFunc41_def Let_def)
    then show ?thesis using len by - (intro exI conjI, assumption, simp)
  next
    case False
    with r len have "s' = s\<lparr>base := (base s)\<lparr>Send_Buf := (take 5 (Receive_Buf (base s)) @ drop 5 (Send_Buf (base s)))[5 := 1, 6 := 0],
        Send_Len := 7, ModBus_CallBack := Some MB_System_Reset\<rparr>\<rparr>"
      by (simp add: ModbusFunc41_def wrn_def Let_def)
    then show ?thesis using len by - (intro exI conjI, assumption, simp)
  qed
  then show "handled s s'" "fls s' = fls s" using ok by (auto simp: handled_def bufs_ok_def)
qed

end
