(* ===== verification/ModbusHandle.thy ===== *)
theory ModbusHandle
  imports ModbusWrite
begin

text \<open>
  The centre of \<open>APP/Src/ModBusRtu.c\<close>: \<open>ModbusHandle\<close> takes a frame from the port, checks it,
  runs the handler of its function code, sends the reply and runs the callback that the handler
  may have left; \<open>ModbusAutoUpload\<close> and \<open>SensorEvent\<close> send measurements unasked.  The callback
  functions are those of \<open>APP/Src/ModBus_Conf.c\<close>.  A system reset is the event \<open>EvReset\<close> at the
  end of the trace of the port.
\<close>

section \<open>Callbacks\<close>

definition run_MB_USART_ReInit :: "mb \<Rightarrow> mb option" where
  "run_MB_USART_ReInit s = do {
     u \<leftarrow> wait_TX_Cplt (port s);
     Some (s\<lparr>port := Sensor_USART_Init (BaudRate (base s)) (Parity (base s)) u\<rparr>) }"

definition run_MB_Freeze :: "mb \<Rightarrow> mb option" where
  "run_MB_Freeze s = Some (s\<lparr>base := (base s)\<lparr>Freeze := FREEZE_ENABLE\<rparr>\<rparr>)"

definition run_MB_System_Reset :: "mb \<Rightarrow> mb option" where
  "run_MB_System_Reset s = do {
     u \<leftarrow> wait_TX_Cplt (port s);
     Some (s\<lparr>port := u\<lparr>trace := trace u @ [EvReset]\<rparr>\<rparr>) }"

definition run_MB_SendData_NoCheck :: "mb \<Rightarrow> mb option" where
  "run_MB_SendData_NoCheck s = MDB_Snd_Msg_RTU (Send_Len (base s)) False s"

fun run_callback :: "mb_callback \<Rightarrow> mb \<Rightarrow> mb option" where
  "run_callback MB_USART_ReInit s = run_MB_USART_ReInit s"
| "run_callback MB_Freeze s = run_MB_Freeze s"
| "run_callback MB_System_Reset s = run_MB_System_Reset s"
| "run_callback MB_SendData_NoCheck s = run_MB_SendData_NoCheck s"

section \<open>Dispatch\<close>

definition unknown_function :: "mb \<Rightarrow> mb option" where
  "unknown_function s = do {
     let b = base s;
     r0 \<leftarrow> rd (Receive_Buf b) 0;
     sb \<leftarrow> wr (Send_Buf b) 0 r0;
     r1 \<leftarrow> rd (Receive_Buf b) 1;
     sb \<leftarrow> wr sb 1 (r1 OR MB_REQ_FAILURE);
     sb \<leftarrow> wr sb 2 MB_FUNC_EXCEPTION;
     Some (s\<lparr>base := b\<lparr>Send_Buf := sb, Send_Len := 3\<rparr>\<rparr>) }"

definition modbus_switch :: "hal_flash \<Rightarrow> u8 \<Rightarrow> mb \<Rightarrow> mb option" where
  "modbus_switch H fc s =
     (if fc = 0x03 then ModbusFunc03 s
      else if fc = 0x04 then ModbusFunc04 s
      else if fc = 0x05 then ModbusFunc05 H s
      else if fc = 0x10 then ModbusFunc10 H s
      else if fc = 0x25 then ModbusFunc25 H s
      else if fc = 0x26 then ModbusFunc26 s
      else if fc = 0x27 then ModbusFunc27 H s
      else if fc = 0x2A then ModbusFunc2A H s
      else if fc = 0x2B then ModbusFunc2B s
      else if fc = 0x41 then ModbusFunc41 s
      else unknown_function s)"

text \<open>The end of \<open>ModbusHandle\<close>: the reply and the callback.\<close>

definition finish_request :: "mb \<Rightarrow> mb option" where
  "finish_request s = do {
     s \<leftarrow> MDB_Snd_Msg_RTU (Send_Len (base s)) True s;
     (case ModBus_CallBack (base s) of
        None \<Rightarrow> Some s
      | Some f \<Rightarrow> do {
          s \<leftarrow> run_callback f s;
          Some (s\<lparr>base := (base s)\<lparr>ModBus_CallBack := None\<rparr>\<rparr>) }) }"

definition ModbusHandle :: "hal_flash \<Rightarrow> mb \<Rightarrow> mb option" where
  "ModbusHandle H s = do {
     (recv_len, rb) \<leftarrow> Sensor_USART_GetReceData (Receive_Buf (base s)) (port s);
     let s = s\<lparr>base := (base s)\<lparr>Receive_Buf := rb\<rparr>\<rparr>;
     let n = unat recv_len;
     if n < 2 then Some s
     else do {
       h \<leftarrow> rd rb (n - 1);
       l \<leftarrow> rd rb (n - 2);
       msg \<leftarrow> rdn rb 0 (n - 2);
       r0 \<leftarrow> rd rb 0;
       if be16 h l \<noteq> MDB_Get_CRC16 msg \<or> (Device_Addr (base s) \<noteq> r0 \<and> BROADCASTADDR \<noteq> r0)
       then Some s
       else do {
         fc \<leftarrow> rd rb 1;
         s \<leftarrow> modbus_switch H fc s;
         finish_request s } } }"

section \<open>Unasked messages\<close>

definition ModbusAutoUpload :: "mb \<Rightarrow> mb option" where
  "ModbusAutoUpload s = do {
     let b = base s;
     sb \<leftarrow> wr (Send_Buf b) 0 (Device_Addr b);
     sb \<leftarrow> wr sb 1 0x04;
     sb \<leftarrow> wr sb 2 0x08;
     let b = b\<lparr>Send_Buf := sb, Send_Len := 3\<rparr>;
     b \<leftarrow> mb_put32 (f32_bits (f_of_int (uint (LiquidHeightAD (PCap_DataConvert_Out (dev s)))))) b;
     let b = b\<lparr>Send_Len := 7\<rparr>;
     b \<leftarrow> mb_put32 (f32_bits (TemperInAir (ADC_TemperOut (dev s)))) b;
     MDB_Snd_Msg_RTU (Send_Len b) False (s\<lparr>base := b\<rparr>) }"

text \<open>\<open>SensorEvent\<close> reads the tick counter up to twice; its static variable \<open>Old_Tick\<close> is threaded.\<close>

definition SensorEvent :: "u32 \<Rightarrow> u32 \<Rightarrow> u32 \<Rightarrow> mb \<Rightarrow> (u32 \<times> mb) option" where
  "SensorEvent tick tick' Old_Tick s =
     (if AutoUpload (base s) \<noteq> 0 \<and> ucast (AutoUpload (base s)) * 1000 \<le> tick - Old_Tick
      then do { s \<leftarrow> ModbusAutoUpload s; Some (tick', s) }
      else Some (Old_Tick, s))"


section \<open>Sending\<close>

text \<open>A frame on the line: a message and its checksum, low byte first.\<close>

definition rtu_frame :: "u8 list \<Rightarrow> u8 list" where
  "rtu_frame msg = msg @ [lo8 (MDB_Get_CRC16 msg), hi8 (MDB_Get_CRC16 msg)]"

text \<open>When the message under construction goes out at all.\<close>

definition sendable :: "bool \<Rightarrow> ModBusBaseParam \<Rightarrow> bool" where
  "sendable Check_Addr b \<longleftrightarrow> 0 < unat (Send_Len b) \<and> unat (Send_Len b) \<le> 30
     \<and> \<not> (Send_Buf b ! 0 = BROADCASTADDR \<and> Check_Addr) \<and> Freeze b = FREEZE_DISABLE"

text \<open>The base parameters apart from the contents of the send buffer.\<close>

definition same_but_buf :: "ModBusBaseParam \<Rightarrow> ModBusBaseParam \<Rightarrow> bool" where
  "same_but_buf b' b \<longleftrightarrow> b' = b\<lparr>Send_Buf := Send_Buf b'\<rparr> \<and> length (Send_Buf b') = length (Send_Buf b)"

lemma same_but_buf_fields:
  assumes "same_but_buf b' b"
  shows "Device_Addr b' = Device_Addr b" "BaudRate b' = BaudRate b" "Parity b' = Parity b"
    "AutoUpload b' = AutoUpload b" "Output_Mode b' = Output_Mode b" "Freeze b' = Freeze b"
    "InRomWrEn b' = InRomWrEn b" "Receive_Buf b' = Receive_Buf b" "ModBus_CallBack b' = ModBus_CallBack b"
    "Factory_Reset b' = Factory_Reset b" "Send_Len b' = Send_Len b" "bufs_ok b' = bufs_ok b"
  using assms(1) [unfolded same_but_buf_def, THEN conjunct2]
  by ((subst assms [unfolded same_but_buf_def, THEN conjunct1], simp add: bufs_ok_def)+)

text \<open>\<open>MDB_Snd_Msg_RTU\<close> returns, and puts exactly the frame of the message on the line, or nothing.\<close>

lemma Snd_Msg_ok:
  assumes "mb_ok s"
  obtains s' where "MDB_Snd_Msg_RTU (Send_Len (base s)) chk s = Some s'" "mb_ok s'"
    "same_but_buf (base s') (base s)" "dev s' = dev s" "cal s' = cal s" "fls s' = fls s"
    "trace (port s') = trace (port s)
       @ (if sendable chk (base s) then [EvTx (gState_READY (port s)) (rtu_frame (reply (base s)))] else [])"
    "take (unat (Send_Len (base s))) (Send_Buf (base s')) = reply (base s)"
    "\<not> sendable chk (base s) \<Longrightarrow> s' = s"
proof (cases "sendable chk (base s)")
  case True
  let ?b = "base s" and ?n = "Send_Len (base s)"
  let ?m = "reply ?b"
  have len: "length (Send_Buf ?b) = 32" "tx_live (port s)" and n: "0 < unat ?n" "unat ?n \<le> 30"
    using assms True by (simp_all add: mb_ok_def bufs_ok_def sendable_def)
  let ?sb = "(Send_Buf ?b)[unat ?n := lo8 (MDB_Get_CRC16 ?m), unat ?n + 1 := hi8 (MDB_Get_CRC16 ?m)]"
  have n2: "unat (?n + 2) = unat ?n + 2" using n by (simp add: unat_word_ariths)
  have tk: "take (unat ?n + 2) ?sb = rtu_frame ?m"
    using len n by (simp add: rtu_frame_def reply_def take_Suc_conv_app_nth)
  obtain u where u: "Send_Data ?sb (?n + 2) (port s) = Some u" "tx_live u"
    "trace u = trace (port s) @ [EvTx (gState_READY (port s)) (rtu_frame ?m)]"
    by (rule Send_Data_live [OF len(2), of "?n + 2" ?sb]) (use n n2 len tk in auto)
  have "MDB_Snd_Msg_RTU ?n chk s = Some (s\<lparr>base := ?b\<lparr>Send_Buf := ?sb\<rparr>, port := u\<rparr>)"
    using True len n u(1) by (auto simp: MDB_Snd_Msg_RTU_def sendable_def Let_def reply_def)
  then show thesis
    by (rule that) (use True assms u len n in \<open>simp_all add: mb_ok_def bufs_ok_def same_but_buf_def reply_def\<close>)
next
  case False
  have rd0: "rd (Send_Buf (base s)) 0 = Some (Send_Buf (base s) ! 0)"
    using assms by (simp add: mb_ok_def bufs_ok_def)
  have "Send_Len (base s) = 0 \<or> 30 < unat (Send_Len (base s)) \<or> Send_Buf (base s) ! 0 = BROADCASTADDR \<and> chk
      \<or> Freeze (base s) \<noteq> FREEZE_DISABLE"
    using False by (auto simp: sendable_def not_le unat_eq_0)
  then have "MDB_Snd_Msg_RTU (Send_Len (base s)) chk s = Some s"
    by (elim disjE) (simp_all add: MDB_Snd_Msg_RTU_def Let_def rd0)
  then show thesis
    by (rule that) (use False assms in \<open>simp_all add: same_but_buf_def reply_def\<close>)
qed


section \<open>Callbacks return\<close>

text \<open>What leaves the port: every transmitted frame is a message of one to thirty bytes with its
  checksum.\<close>

definition valid_event :: "uart_event \<Rightarrow> bool" where
  "valid_event e \<longleftrightarrow> (case e of EvTx de bs \<Rightarrow> (\<exists>m. bs = rtu_frame m \<and> m \<noteq> [] \<and> length m \<le> 30) | _ \<Rightarrow> True)"

definition emits :: "mb \<Rightarrow> mb \<Rightarrow> bool" where
  "emits s s' \<longleftrightarrow> (\<exists>evs. trace (port s') = trace (port s) @ evs \<and> list_all valid_event evs)"

lemma emits_refl [simp]: "emits s s"
  by (auto simp: emits_def)

lemma emits_trans: "emits s t \<Longrightarrow> emits t u \<Longrightarrow> emits s u"
  by (auto simp: emits_def)

lemma emits_same: "trace (port s') = trace (port s) \<Longrightarrow> emits s s'"
  by (auto simp: emits_def)

lemma valid_reply: "sendable chk b \<Longrightarrow> bufs_ok b \<Longrightarrow> valid_event (EvTx de (rtu_frame (reply b)))"
  by (auto simp: valid_event_def sendable_def reply_def bufs_ok_def intro!: exI [of _ "reply b"])

lemma Snd_Msg_emits:
  assumes "mb_ok s"
  obtains s' where "MDB_Snd_Msg_RTU (Send_Len (base s)) chk s = Some s'" "mb_ok s'"
    "same_but_buf (base s') (base s)" "fls s' = fls s" "dev s' = dev s" "emits s s'"
proof -
  obtain s' where s': "MDB_Snd_Msg_RTU (Send_Len (base s)) chk s = Some s'" "mb_ok s'"
    "same_but_buf (base s') (base s)" "dev s' = dev s" "fls s' = fls s"
    "trace (port s') = trace (port s)
       @ (if sendable chk (base s) then [EvTx (gState_READY (port s)) (rtu_frame (reply (base s)))] else [])"
    by (rule Snd_Msg_ok [OF assms])
  have "emits s s'"
    using s'(6) valid_reply [of chk "base s"] assms by (auto simp: emits_def mb_ok_def)
  with s' show thesis by (intro that)
qed

lemma USART_Init_fields:
  "TX_Cplt_Flag (Sensor_USART_Init b p u) = TX_Cplt_Flag u" "gState_READY (Sensor_USART_Init b p u)"
  "USART_Receive_Buf (Sensor_USART_Init b p u) = USART_Receive_Buf u"
  "\<exists>x y z. trace (Sensor_USART_Init b p u) = trace u @ [EvInit x y z]"
  by (simp_all add: Sensor_USART_Init_def BSP_USART_UART_Init_def RS485_RE_DE_GPIO_Init_def
      BSP_UART_ReceiverTimeout_Config_def BSP_UART_Receive_DMA_def Let_def)

lemma run_callback_ok:
  assumes "mb_ok s"
  shows "\<exists>s'. run_callback f s = Some s' \<and> mb_ok s' \<and> fls s' = fls s \<and> dev s' = dev s \<and> emits s s'
     \<and> InRomWrEn (base s') = InRomWrEn (base s)"
proof (cases f)
  case MB_USART_ReInit
  obtain u where u: "wait_TX_Cplt (port s) = Some u" "gState_READY u" "TX_Cplt_Flag u \<noteq> 0"
    "trace u = trace (port s)"
    using assms wait_TX_Cplt_live [of "port s"] unfolding mb_ok_def by metis
  obtain x y z where "trace (Sensor_USART_Init (BaudRate (base s)) (Parity (base s)) u) = trace u @ [EvInit x y z]"
    using USART_Init_fields(4) by blast
  then show ?thesis
    using u assms by (simp add: MB_USART_ReInit run_MB_USART_ReInit_def mb_ok_def tx_live_def
        USART_Init_fields emits_def valid_event_def)
next
  case MB_Freeze
  then show ?thesis using assms by (simp add: run_MB_Freeze_def mb_ok_def bufs_ok_def emits_def)
next
  case MB_System_Reset
  obtain u where u: "wait_TX_Cplt (port s) = Some u" "gState_READY u" "TX_Cplt_Flag u \<noteq> 0"
    "trace u = trace (port s)"
    using assms wait_TX_Cplt_live [of "port s"] unfolding mb_ok_def by metis
  then show ?thesis
    using assms by (simp add: MB_System_Reset run_MB_System_Reset_def mb_ok_def tx_live_def emits_def valid_event_def)
next
  case MB_SendData_NoCheck
  obtain t where t: "MDB_Snd_Msg_RTU (Send_Len (base s)) False s = Some t" "mb_ok t"
    "same_but_buf (base t) (base s)" "fls t = fls s" "dev t = dev s" "emits s t"
    by (rule Snd_Msg_emits [OF assms])
  then show ?thesis
    using MB_SendData_NoCheck same_but_buf_fields(7) [OF t(3)] by (simp add: run_MB_SendData_NoCheck_def)
qed

text \<open>The end of a request always returns.\<close>

lemma finish_request_ok:
  assumes "mb_ok s"
  shows "\<exists>s'. finish_request s = Some s' \<and> mb_ok s' \<and> fls s' = fls s \<and> dev s' = dev s \<and> emits s s'
     \<and> InRomWrEn (base s') = InRomWrEn (base s) \<and> ModBus_CallBack (base s') = None"
proof -
  obtain t where t: "MDB_Snd_Msg_RTU (Send_Len (base s)) True s = Some t" "mb_ok t"
    "same_but_buf (base t) (base s)" "fls t = fls s" "dev t = dev s" "emits s t"
    by (rule Snd_Msg_emits [OF assms])
  note f = same_but_buf_fields [OF t(3)]
  show ?thesis
  proof (cases "ModBus_CallBack (base s)")
    case None
    then show ?thesis using t f by (simp add: finish_request_def)
  next
    case (Some c)
    obtain u where "run_callback c t = Some u" "mb_ok u" "fls u = fls t" "dev u = dev t" "emits t u"
      "InRomWrEn (base u) = InRomWrEn (base t)"
      using run_callback_ok [OF t(2), of c] by blast
    then show ?thesis
      using t f Some emits_trans [OF t(6)] by (simp add: finish_request_def mb_ok_def bufs_ok_def emits_def)
  qed
qed

section \<open>Dispatch satisfies the contract\<close>

interpretation unknown: guarded_handler unknown_function
proof
  fix s s' assume ok: "bufs_ok (base s)" and r: "unknown_function s = Some s'"
  have "s' = s\<lparr>base := (base s)\<lparr>Send_Buf := (Send_Buf (base s))[0 := Receive_Buf (base s) ! 0,
       1 := Receive_Buf (base s) ! 1 OR MB_REQ_FAILURE, 2 := MB_FUNC_EXCEPTION], Send_Len := 3\<rparr>\<rparr>"
    using r ok by (simp add: unknown_function_def Let_def bufs_ok_def)
  then show "handled s s'" "fls s' = fls s" using ok by (simp_all add: handled_def bufs_ok_def)
qed

context flash_hal
begin

text \<open>Every function code but 2A respects the write protection.\<close>

lemma switch_handled:
  assumes "bufs_ok (base s)" "modbus_switch H fc s = Some s'"
  shows "handled s s'"
    and "fc \<noteq> 0x2A \<Longrightarrow> InRomWrEn (base s) \<noteq> IN_FLASH_WR_ENABLE \<Longrightarrow> fls s' = fls s"
  using assms(2) unfolding modbus_switch_def
  by (auto split: if_splits
      dest: func03.handle_ok [OF assms(1)] func04.handle_ok [OF assms(1)] func05.handle_ok [OF assms(1)]
        func10.handle_ok [OF assms(1)] func25.handle_ok [OF assms(1)] func26.handle_ok [OF assms(1)]
        func27.handle_ok [OF assms(1)] func2A.handle_ok [OF assms(1)] func2B.handle_ok [OF assms(1)]
        func41.handle_ok [OF assms(1)] unknown.handle_ok [OF assms(1)]
        func03.handle_guard [OF assms(1)] func04.handle_guard [OF assms(1)] func05.handle_guard [OF assms(1)]
        func10.handle_guard [OF assms(1)] func25.handle_guard [OF assms(1)] func26.handle_guard [OF assms(1)]
        func27.handle_guard [OF assms(1)] func2B.handle_guard [OF assms(1)]
        func41.handle_guard [OF assms(1)] unknown.handle_guard [OF assms(1)])

end


section \<open>Frames that are served, and frames that are not\<close>

definition frame_valid :: "u8 list \<Rightarrow> bool" where
  "frame_valid bs \<longleftrightarrow> (\<exists>m. bs = rtu_frame m)"

lemma last_two:
  assumes "2 \<le> length bs"
  obtains m x y where "bs = m @ [x, y]"
proof (cases bs rule: rev_cases)
  case (snoc n y)
  with assms show thesis by (cases n rule: rev_cases) (auto intro: that)
qed (use assms in simp)

lemma frame_valid_app: "frame_valid (m @ [x, y]) \<longleftrightarrow> be16 y x = MDB_Get_CRC16 m"
  unfolding frame_valid_def rtu_frame_def
  by simp (metis be16_hi_lo hi8_be16 lo8_be16)

lemma frame_valid_length: "frame_valid bs \<Longrightarrow> 2 \<le> length bs"
  by (auto simp: frame_valid_def rtu_frame_def)

lemma frame_valid_crc: "frame_valid bs \<longleftrightarrow> 2 \<le> length bs \<and> MDB_Get_CRC16 bs = 0"
proof (cases "2 \<le> length bs")
  case True
  then show ?thesis
    by (rule last_two) (auto simp: frame_valid_app MDB_Get_CRC16_foldl crc_remainder simp del: foldl_append)
qed (auto dest: frame_valid_length)

lemma frame_valid_parts:
  assumes "2 \<le> length bs"
  shows "frame_valid bs \<longleftrightarrow>
     be16 (bs ! (length bs - 1)) (bs ! (length bs - 2)) = MDB_Get_CRC16 (take (length bs - 2) bs)"
  by (rule last_two [OF assms]) (simp add: frame_valid_app nth_append)

text \<open>What \<open>ModbusHandle\<close> does with the frame that the port holds.\<close>

definition with_request :: "u8 list \<Rightarrow> mb \<Rightarrow> mb" where
  "with_request bs s = s\<lparr>base := (base s)\<lparr>Receive_Buf := bs @ drop (length bs) (Receive_Buf (base s))\<rparr>\<rparr>"

lemma with_request_simps [simp]:
  "dev (with_request bs s) = dev s" "cal (with_request bs s) = cal s" "fls (with_request bs s) = fls s"
  "port (with_request bs s) = port s" "Send_Buf (base (with_request bs s)) = Send_Buf (base s)"
  "InRomWrEn (base (with_request bs s)) = InRomWrEn (base s)" "Freeze (base (with_request bs s)) = Freeze (base s)"
  "Device_Addr (base (with_request bs s)) = Device_Addr (base s)"
  "ModBus_CallBack (base (with_request bs s)) = ModBus_CallBack (base s)"
  "i < length bs \<Longrightarrow> Receive_Buf (base (with_request bs s)) ! i = bs ! i"
  "n \<le> length bs \<Longrightarrow> take n (Receive_Buf (base (with_request bs s))) = take n bs"
  by (simp_all add: with_request_def nth_append)

lemma with_request_bufs [simp]:
  "bufs_ok (base s) \<Longrightarrow> length bs \<le> RECEIVE_SIZE \<Longrightarrow> bufs_ok (base (with_request bs s))"
  by (simp add: with_request_def bufs_ok_def)

lemma handle_cases:
  assumes "bufs_ok (base s)" "port_holds (port s) bs"
  shows "ModbusHandle H s =
     (if frame_valid bs \<and> (bs ! 0 = Device_Addr (base s) \<or> bs ! 0 = BROADCASTADDR)
      then Option.bind (modbus_switch H (bs ! 1) (with_request bs s)) finish_request
      else Some (with_request bs s))"
proof -
  let ?rb = "bs @ drop (length bs) (Receive_Buf (base s))" and ?n = "length bs"
  have len: "length bs \<le> 600" "length (Receive_Buf (base s)) = 600"
    and g: "Sensor_USART_GetReceData (Receive_Buf (base s)) (port s) = Some (of_nat ?n, ?rb)"
    using assms by (simp_all add: port_holds_def bufs_ok_def)
  have n: "unat (of_nat ?n :: u16) = ?n" using len by (simp add: unat_of_nat)
  have wr: "s\<lparr>base := (base s)\<lparr>Receive_Buf := ?rb\<rparr>\<rparr> = with_request bs s" by (simp add: with_request_def)
  show ?thesis
  proof (cases "?n < 2")
    case True
    then have "\<not> frame_valid bs" by (auto simp: frame_valid_def rtu_frame_def)
    then show ?thesis using True by (simp add: ModbusHandle_def g n wr)
  next
    case False
    have rds: "rd ?rb (?n - 1) = Some (bs ! (?n - 1))" "rd ?rb (?n - 2) = Some (bs ! (?n - 2))"
      "rdn ?rb 0 (?n - 2) = Some (take (?n - 2) bs)" "rd ?rb 0 = Some (bs ! 0)" "rd ?rb 1 = Some (bs ! 1)"
      using False len by (auto simp: rd_def nth_append simp del: One_nat_def)
    have 1: "(if \<not> a \<or> b \<noteq> c \<and> 0 \<noteq> c then x else y) = (if a \<and> (c = b \<or> c = 0) then y else x)"
      for a :: bool and b c :: u8 and x y :: "mb option" by auto
    show ?thesis
      using False frame_valid_parts [of bs] unfolding ModbusHandle_def g
      by (auto simp: n wr rds 1 Let_def simp del: One_nat_def)
  qed
qed

lemmas handle_ignores = handle_cases [THEN trans, OF _ _ if_not_P]
lemmas handle_serves = handle_cases [THEN trans, OF _ _ if_P]


section \<open>The line delivers a frame\<close>

text \<open>The device after the bytes \<open>bs\<close> have arrived and the line has fallen silent.\<close>

definition received :: "u8 list \<Rightarrow> mb \<Rightarrow> mb" where
  "received bs s = s\<lparr>port := rx_timeout (rx_bytes bs (port s))\<rparr>"

lemma received_simps [simp]:
  "base (received bs s) = base s" "dev (received bs s) = dev s" "cal (received bs s) = cal s"
  "fls (received bs s) = fls s"
  by (simp_all add: received_def)

lemma rx_timeout_tx:
  "trace (rx_timeout u) = trace u" "tx_live u \<Longrightarrow> tx_live (rx_timeout u)" "gState_READY u \<Longrightarrow> gState_READY (rx_timeout u)"
  by (auto simp: rx_timeout_def USARTx_IRQHandler_def HAL_UART_RxTimoCallback_def tx_live_def
      HAL_UART_CMatchCallback_def HAL_UART_TxCpltCallback_def Let_def)

lemma received_tx:
  "trace (port (received bs s)) = trace (port s)" "mb_ok s \<Longrightarrow> mb_ok (received bs s)"
  "gState_READY (port s) \<Longrightarrow> gState_READY (port (received bs s))"
  using rx_bytes_tx [of bs "port s"] rx_timeout_tx [of "rx_bytes bs (port s)"]
  by (simp_all add: received_def mb_ok_def tx_live_def)

lemma received_holds:
  "rx_ready (port s) \<Longrightarrow> length bs \<le> RECEIVE_SIZE \<Longrightarrow> port_holds (port (received bs s)) bs"
  by (simp add: received_def port_holds_rx)

text \<open>A request that is served, with a handler that leaves a reply and no callback.\<close>

lemma handle_replied:
  assumes "mb_ok s" "rx_ready (port s)" "length bs \<le> RECEIVE_SIZE" "frame_valid bs"
    and "bs ! 0 = Device_Addr (base s)"
    and "modbus_switch H (bs ! 1) (with_request bs (received bs s)) = Some t" "mb_ok t"
    and "port t = port (received bs s)" "ModBus_CallBack (base t) = None" "sendable True (base t)"
  obtains s' where "ModbusHandle H (received bs s) = Some s'" "mb_ok s'" "same_but_buf (base s') (base t)"
    "dev s' = dev t" "cal s' = cal t" "fls s' = fls t"
    "trace (port s') = trace (port s) @ [EvTx (gState_READY (port (received bs s))) (rtu_frame (reply (base t)))]"
proof -
  obtain s' where s': "MDB_Snd_Msg_RTU (Send_Len (base t)) True t = Some s'" "mb_ok s'"
    "same_but_buf (base s') (base t)" "dev s' = dev t" "cal s' = cal t" "fls s' = fls t"
    "trace (port s') = trace (port t)
       @ (if sendable True (base t) then [EvTx (gState_READY (port t)) (rtu_frame (reply (base t)))] else [])"
    by (rule Snd_Msg_ok [OF assms(7)])
  have "finish_request t = Some s'"
    using s'(1) same_but_buf_fields(9) [OF s'(3)] assms(9) by (simp add: finish_request_def)
  moreover have "bufs_ok (base (received bs s))" using assms(1) by (simp add: mb_ok_def)
  from handle_serves [OF this received_holds [OF assms(2,3)], of H] assms(4-6)
  have "ModbusHandle H (received bs s) = finish_request t" by simp
  ultimately show thesis
    using s'(7) assms(8,10) received_tx(1) by (intro that [OF _ s'(2-6)]) simp_all
qed

section \<open>Properties\<close>

lemma request_safe_parts:
  assumes "flash_hal H" "mb_ok s" "port_holds (port s) bs" "ModbusHandle H s = Some s'"
  shows "mb_ok s' \<and> emits s s' \<and> flash_safe (fls s) (fls s')
     \<and> (InRomWrEn (base s) \<noteq> IN_FLASH_WR_ENABLE \<longrightarrow> bs ! 1 \<noteq> 0x2A \<longrightarrow> fls s' = fls s)"
proof (cases "frame_valid bs \<and> (bs ! 0 = Device_Addr (base s) \<or> bs ! 0 = BROADCASTADDR)")
  case True
  have ok: "bufs_ok (base s)" and tx: "tx_live (port s)" and len: "length bs \<le> 600"
    using assms(2,3) by (simp_all add: mb_ok_def port_holds_def)
  obtain t where t: "modbus_switch H (bs ! 1) (with_request bs s) = Some t" "finish_request t = Some s'"
    using assms(4) handle_serves [OF ok assms(3) True] by (auto simp: bind_eq_Some_conv)
  have ok': "bufs_ok (base (with_request bs s))" using ok len by simp
  note h = flash_hal.switch_handled [OF assms(1) ok' t(1)]
  have "mb_ok t" using h(1) tx by (simp add: handled_def mb_ok_def)
  from finish_request_ok [OF this] t(2) have "mb_ok s'" "fls s' = fls t" "emits t s'" by auto
  then show ?thesis using h by (auto simp: handled_def emits_def)
next
  case False
  have ok: "bufs_ok (base s)" and len: "length bs \<le> 600"
    using assms(2,3) by (simp_all add: mb_ok_def port_holds_def)
  show ?thesis
    using handle_ignores [OF ok assms(3) False] assms(2,4) len
    by (auto simp: mb_ok_def emits_same)
qed

text \<open>C2.  Serving a frame is safe, whatever bytes the frame holds and whatever the flash answers: if
  \<open>ModbusHandle\<close> returns (that is, does not leave the bounds of its buffers; C3 says which requests
  it always returns from, and a request for 15 or more registers makes it write behind the send
  buffer), the buffers and the
  transmitter are in order again, every transmission it has started was started with a message of
  1 to 30 bytes and its CRC in the send buffer, the flash outside the parameter area is unchanged, and so is all of the flash when
  writing is not enabled and the function code is not 2A.\<close>

theorem request_safe:
  assumes "flash_hal H" "mb_ok s" "rx_ready (port s)" "length bs \<le> RECEIVE_SIZE"
    and "ModbusHandle H (received bs s) = Some s'"
  shows "mb_ok s' \<and> emits s s' \<and> flash_safe (fls s) (fls s')
     \<and> (InRomWrEn (base s) \<noteq> IN_FLASH_WR_ENABLE \<longrightarrow> bs ! 1 \<noteq> 0x2A \<longrightarrow> fls s' = fls s)"
  using request_safe_parts [OF assms(1) received_tx(2) [OF assms(2)] received_holds [OF assms(3,4)] assms(5)]
  by (simp add: emits_def received_tx(1))

text \<open>A frame whose checksum is wrong, that is too short to have one, or that is addressed to
  another device is ignored: nothing changes but the receive buffer, and nothing is sent.\<close>

theorem foreign_frame_ignored:
  assumes "bufs_ok (base s)" "rx_ready (port s)" "length bs \<le> RECEIVE_SIZE"
    and "length bs < 2 \<or> MDB_Get_CRC16 bs \<noteq> 0 \<or> bs ! 0 \<noteq> Device_Addr (base s) \<and> bs ! 0 \<noteq> BROADCASTADDR"
  shows "ModbusHandle H (received bs s) = Some (with_request bs (received bs s))"
  by (rule handle_ignores)
    (use received_holds [OF assms(2,3)] assms(1,4) in \<open>auto simp: frame_valid_crc\<close>)

text \<open>Noise: a correct frame for whatever device, changed within two neighbouring bytes on the
  line, is ignored by every device.\<close>

theorem corrupted_frame_ignored:
  assumes "bufs_ok (base s)" "rx_ready (port s)" "frame_valid (p @ [a, b] @ q)" "(a, b) \<noteq> (a', b')"
    and "length (p @ [a', b'] @ q) \<le> RECEIVE_SIZE"
  shows "ModbusHandle H (received (p @ [a', b'] @ q) s)
    = Some (with_request (p @ [a', b'] @ q) (received (p @ [a', b'] @ q) s))"
proof (rule handle_ignores [OF _ received_holds [OF assms(2,5)]])
  show "\<not> (frame_valid (p @ [a', b'] @ q)
       \<and> ((p @ [a', b'] @ q) ! 0 = Device_Addr (base (received (p @ [a', b'] @ q) s))
            \<or> (p @ [a', b'] @ q) ! 0 = BROADCASTADDR))"
    using assms(3) crc_burst [OF assms(4), of "0xFFFF" p q]
    by (auto simp: frame_valid_crc MDB_Get_CRC16_foldl simp del: foldl_append append_Cons append.simps)
qed (simp add: assms(1))

lemma take3_update: "3 \<le> length xs \<Longrightarrow> take 3 (xs[0 := a, Suc 0 := b, 2 := c]) = [a, b, c]"
  by (auto simp: numeral_3_eq_3 numeral_2_eq_2 Suc_le_length_iff)

text \<open>The message that is uploaded: the level and the air temperature as big-endian \<open>float\<close>s.\<close>

definition upload_message :: "mb \<Rightarrow> u8 list" where
  "upload_message s = [Device_Addr (base s), 4, 8]
     @ enc32 (f32_bits (f_of_int (uint (LiquidHeightAD (PCap_DataConvert_Out (dev s))))))
     @ enc32 (f32_bits (TemperInAir (ADC_TemperOut (dev s))))"

lemma AutoUpload_ok:
  assumes "mb_ok s"
  obtains s' where "ModbusAutoUpload s = Some s'" "mb_ok s'" "dev s' = dev s" "fls s' = fls s"
    "trace (port s') = trace (port s)
       @ (if Freeze (base s) = FREEZE_DISABLE then [EvTx (gState_READY (port s)) (rtu_frame (upload_message s))] else [])"
proof -
  let ?x = "f32_bits (f_of_int (uint (LiquidHeightAD (PCap_DataConvert_Out (dev s)))))"
  let ?y = "f32_bits (TemperInAir (ADC_TemperOut (dev s)))" and ?b = "base s"
  let ?b1 = "?b\<lparr>Send_Buf := (Send_Buf ?b)[0 := Device_Addr ?b, 1 := 4, 2 := 8], Send_Len := 3\<rparr>"
  have len: "length (Send_Buf ?b) = 32" "bufs_ok ?b1" using assms(1) by (simp_all add: mb_ok_def bufs_ok_def)
  have head: "reply ?b1 = [Device_Addr ?b, 4, 8]"
    using len(1) by (simp add: reply_def take3_update)
  obtain b2 where b2: "mb_put32 ?x ?b1 = Some b2" "bufs_ok b2" "reply b2 = reply ?b1 @ enc32 ?x"
    "unat (Send_Len b2) = 7" "same_but_reply b2 ?b1"
    by (rule mb_put32_ok [OF len(2), of ?x]) auto
  have l7: "b2\<lparr>Send_Len := 7\<rparr> = b2" using of_nat_unat_eq [OF b2(4)] by simp
  obtain b3 where b3: "mb_put32 ?y b2 = Some b3" "bufs_ok b3" "reply b3 = reply b2 @ enc32 ?y"
    "unat (Send_Len b3) = 11" "same_but_reply b3 b2"
    by (rule mb_put32_ok [OF b2(2), of ?y]) (use b2(4) in auto)
  have ok: "mb_ok (s\<lparr>base := b3\<rparr>)" using b3(2) assms(1) by (simp add: mb_ok_def)
  have fz: "sendable False b3 \<longleftrightarrow> Freeze ?b = FREEZE_DISABLE"
    using b3(4) same_but_reply_fields(6) [OF b3(5)] same_but_reply_fields(6) [OF b2(5)]
    by (simp add: sendable_def)
  have msg: "reply b3 = upload_message s"
    using b2(3) b3(3) head by (simp add: upload_message_def)
  let ?s = "s\<lparr>base := b3\<rparr>"
  obtain s' where "MDB_Snd_Msg_RTU (Send_Len (base ?s)) False ?s = Some s'" "mb_ok s'" "dev s' = dev ?s"
    "fls s' = fls ?s" "trace (port s') = trace (port ?s)
       @ (if sendable False (base ?s) then [EvTx (gState_READY (port ?s)) (rtu_frame (reply (base ?s)))] else [])"
    by (rule Snd_Msg_ok [OF ok, of False])
  then have s': "MDB_Snd_Msg_RTU (Send_Len b3) False ?s = Some s'" "mb_ok s'" "dev s' = dev s" "fls s' = fls s"
    "trace (port s') = trace (port s)
       @ (if sendable False b3 then [EvTx (gState_READY (port s)) (rtu_frame (reply b3))] else [])"
    by simp_all
  have "ModbusAutoUpload s = Some s'"
    unfolding ModbusAutoUpload_def using len(1) b2(1) b3(1) s'(1) by (simp add: l7 Let_def)
  from that [OF this s'(2-4) s'(5) [unfolded fz msg]] show thesis .
qed

lemma upload_valid: "valid_event (EvTx de (rtu_frame (upload_message s)))"
  by (auto simp: valid_event_def upload_message_def intro!: exI [of _ "upload_message s"])

lemma SensorEvent_ok:
  assumes "mb_ok s"
  shows "\<exists>old' s'. SensorEvent tick tick' old s = Some (old', s') \<and> mb_ok s' \<and> emits s s'
     \<and> dev s' = dev s \<and> fls s' = fls s"
proof -
  obtain s' where "ModbusAutoUpload s = Some s'" "mb_ok s'" "dev s' = dev s" "fls s' = fls s"
    "trace (port s') = trace (port s)
       @ (if Freeze (base s) = FREEZE_DISABLE then [EvTx (gState_READY (port s)) (rtu_frame (upload_message s))] else [])"
    by (rule AutoUpload_ok [OF assms])
  then show ?thesis
    using assms upload_valid by (auto simp: SensorEvent_def emits_def)
qed

text \<open>\<open>SensorEvent\<close> sends a measurement exactly when the upload is enabled and at least
  \<open>AutoUpload\<close> seconds have passed since the last one, also when the millisecond counter has
  wrapped around in between: the level and the air temperature, each as a big-endian \<open>float\<close>, with
  the address of the device; otherwise it does nothing.\<close>

theorem auto_upload_period:
  assumes "mb_ok s" "Freeze (base s) = FREEZE_DISABLE"
  shows "\<exists>s'. SensorEvent tick tick' old s = Some
       (if AutoUpload (base s) \<noteq> 0 \<and> unat (AutoUpload (base s)) * 1000 \<le> unat (tick - old) then (tick', s') else (old, s))
     \<and> mb_ok s' \<and> dev s' = dev s \<and> fls s' = fls s
     \<and> trace (port s') = trace (port s) @ [EvTx (gState_READY (port s))
         (rtu_frame ([Device_Addr (base s), 4, 8]
            @ enc32 (f32_bits (f_of_int (uint (LiquidHeightAD (PCap_DataConvert_Out (dev s))))))
            @ enc32 (f32_bits (TemperInAir (ADC_TemperOut (dev s))))))]"
proof -
  have period: "ucast (AutoUpload (base s)) * 1000 \<le> tick - old
      \<longleftrightarrow> unat (AutoUpload (base s)) * 1000 \<le> unat (tick - old)"
    using unat_u8_less [of "AutoUpload (base s)"] by (simp add: word_le_nat_alt unat_word_ariths)
  obtain s' where "ModbusAutoUpload s = Some s'" "mb_ok s'" "dev s' = dev s" "fls s' = fls s"
    "trace (port s') = trace (port s)
       @ (if Freeze (base s) = FREEZE_DISABLE then [EvTx (gState_READY (port s)) (rtu_frame (upload_message s))] else [])"
    by (rule AutoUpload_ok [OF assms(1)])
  then show ?thesis
    using assms(2) by (intro exI [of _ s']) (simp add: SensorEvent_def period upload_message_def)
qed

lemma mb_ok_with: "length bs \<le> 600 \<Longrightarrow> mb_ok (mb_with bs)"
  by (simp add: mb_ok_def bufs_ok_with) (simp add: mb_with_def usart_reset_def tx_live_def)

lemma mb_with_simps [simp]:
  "port (mb_with bs) = usart_reset" "Device_Addr (base (mb_with bs)) = 1" "Freeze (base (mb_with bs)) = 0"
  "AutoUpload (base (mb_with bs)) = 0" "InRomWrEn (base (mb_with bs)) = 15" "ModBus_CallBack (base (mb_with bs)) = None"
  by (simp_all add: mb_with_def base0_def)

lemma unknown_ok: "bufs_ok (base s) \<Longrightarrow> \<exists>t. unknown_function s = Some t"
  by (simp add: unknown_function_def bufs_ok_def Let_def)

text \<open>Whenever the handler returns, so does \<open>ModbusHandle\<close>.\<close>

lemma handle_returns:
  assumes "mb_ok s" "rx_ready (port s)" "length bs \<le> RECEIVE_SIZE" "flash_hal H"
    and "\<exists>t. modbus_switch H (bs ! 1) (with_request bs (received bs s)) = Some t"
  shows "\<exists>s'. ModbusHandle H (received bs s) = Some s'"
proof -
  let ?s = "received bs s"
  have ok: "mb_ok ?s" "bufs_ok (base ?s)" using assms(1) received_tx(2) [OF assms(1)] by (simp_all add: mb_ok_def)
  obtain t where t: "modbus_switch H (bs ! 1) (with_request bs ?s) = Some t" using assms(5) by blast
  have "handled (with_request bs ?s) t"
    using flash_hal.switch_handled(1) [OF assms(4) _ t] ok(2) assms(3) by simp
  then have "mb_ok t" using ok(1) by (simp add: handled_def mb_ok_def)
  then show ?thesis
    using handle_cases [OF ok(2) received_holds [OF assms(2,3)], of H] t finish_request_ok [of t] by auto
qed

lemma request_safe_witness:
  "\<exists>s'. ModbusHandle st_hal (received (rtu_frame [1, 0x42, 0]) (mb_with [])) = Some s'
     \<and> mb_ok s' \<and> emits (mb_with []) s' \<and> flash_safe blank_flash (fls s')"
proof -
  let ?s = "mb_with []" and ?bs = "rtu_frame [1, 0x42, 0]"
  have s: "mb_ok ?s" "rx_ready (port ?s)" "length ?bs \<le> RECEIVE_SIZE"
    by (simp_all add: mb_ok_with rx_ready_reset rtu_frame_def)
  have "?bs ! 1 = 0x42" by (simp add: rtu_frame_def)
  then have "modbus_switch st_hal (?bs ! 1) = unknown_function" by (simp add: fun_eq_iff modbus_switch_def)
  then have "\<exists>t. modbus_switch st_hal (?bs ! 1) (with_request ?bs (received ?bs ?s)) = Some t"
    using unknown_ok [of "with_request ?bs (received ?bs ?s)"] s(1,3) by (simp add: mb_ok_def)
  from handle_returns [OF s st_hal_flash_hal this] obtain s' where
    s': "ModbusHandle st_hal (received ?bs ?s) = Some s'" by blast
  then show ?thesis using request_safe [OF st_hal_flash_hal s s'] by (simp add: dev_with)
qed

lemma foreign_frame_ignored_witness:
  "ModbusHandle st_hal (received [2, 3, 0, 0x30, 0, 1] (mb_with []))
     = Some (with_request [2, 3, 0, 0x30, 0, 1] (received [2, 3, 0, 0x30, 0, 1] (mb_with [])))"
  by (rule foreign_frame_ignored) (simp_all add: bufs_ok_with rx_ready_reset)

lemma corrupted_frame_ignored_witness:
  "ModbusHandle st_hal (received ([1, 3, 0] @ [0x31, 0] @ [1, 0x84, 0x05]) (mb_with []))
     = Some (with_request ([1, 3, 0] @ [0x31, 0] @ [1, 0x84, 0x05]) (received ([1, 3, 0] @ [0x31, 0] @ [1, 0x84, 0x05]) (mb_with [])))"
proof (rule corrupted_frame_ignored [where a = "0x30" and b = 0])
  show "frame_valid ([1, 3, 0] @ [0x30, 0] @ [1, 0x84, 0x05])"
    unfolding frame_valid_crc by code_simp
qed (simp_all add: bufs_ok_with rx_ready_reset)

lemma auto_upload_period_witness:
  "\<exists>s'. SensorEvent 500 500 0xFFFFFC18 ((mb_with [])\<lparr>base := base0\<lparr>AutoUpload := 1\<rparr>\<rparr>) = Some (500, s')"
  using auto_upload_period [of "(mb_with [])\<lparr>base := base0\<lparr>AutoUpload := 1\<rparr>\<rparr>" 500 500 "0xFFFFFC18"] mb_ok_with [of "[]"]
  by (auto simp: mb_ok_def mb_with_def base0_def bufs_ok_def)

end
