(* ===== verification/ModbusHolding.thy ===== *)
theory ModbusHolding
  imports ModbusHandle
begin

text \<open>
  The holding registers as an abstract memory: what function code 10 promises for one register,
  separated into its effect on the variables (\<open>holding_mem\<close>) and on the flash (\<open>holding_param\<close>),
  the invariant that the flash holds what the variables hold (\<open>mirrors\<close>), and the end-to-end
  behaviour of requests that read or write them.
\<close>

section \<open>The specification of a register\<close>

text \<open>Which bytes a value of a register occupies in the parameter area; \<open>None\<close> for a value that
  is refused and for a reserved register.\<close>

definition holding_param :: "u16 \<Rightarrow> u16 \<Rightarrow> (u16 \<times> u8 list) option" where
  "holding_param a v =
     (if a = 0x30 then (if 0 < v \<and> v < 0xF8 then Some (DEVICE_ADDR, [ucast v]) else None)
      else if a = 0x31 then (if v < 6 then Some (BAUDRATE, [ucast v]) else None)
      else if a = 0x32 then (if v < 3 then Some (PARITY, [ucast v]) else None)
      else if a = 0x34 then (if v < 2 then Some (COMPENSATE, [ucast v]) else None)
      else if a = 0x35 then (if v < 10 then Some (FILTER, [ucast v]) else None)
      else if a = 0x36 then Some (AUTO_UPLOAD, [ucast v])
      else if a = 0x37 then (if 0 < v then Some (CORRECT_K, enc16 v) else None)
      else if a = 0x38 then Some (CORRECT_B, enc16 v)
      else if a = 0x39 then (if v < 2 then Some (OUTPUTMODE, [ucast v]) else None)
      else if a = 0x3F then (if 0 < v then Some (HEIGHTRANGE, enc16 v) else None)
      else None)"

definition holding_mem :: "u16 \<Rightarrow> u16 \<Rightarrow> mb \<Rightarrow> mb" where
  "holding_mem a v s =
     (let b = base s; d = dev s in
      if a = 0x30 then s\<lparr>base := b\<lparr>Device_Addr := ucast v\<rparr>\<rparr>
      else if a = 0x31 then s\<lparr>base := b\<lparr>BaudRate := ucast v, ModBus_CallBack := Some MB_USART_ReInit\<rparr>\<rparr>
      else if a = 0x32 then s\<lparr>base := b\<lparr>Parity := ucast v, ModBus_CallBack := Some MB_USART_ReInit\<rparr>\<rparr>
      else if a = 0x34 then s\<lparr>dev := upd_conv (\<lambda>P. P\<lparr>CompenEn := ucast v\<rparr>) d\<rparr>
      else if a = 0x35 then s\<lparr>dev := upd_filt (\<lambda>F. SwitchCurFilter (ucast v) (F\<lparr>FilterFactor := ucast v\<rparr>)) d\<rparr>
      else if a = 0x36 then s\<lparr>base := b\<lparr>AutoUpload := ucast v\<rparr>\<rparr>
      else if a = 0x37 then s\<lparr>dev := upd_conv (\<lambda>P. P\<lparr>Correct_K :=
             f_round f32 (f_div f64 (f_of_int (uint v)) (Fin 100))\<rparr>) d\<rparr>
      else if a = 0x38 then s\<lparr>dev := upd_conv (\<lambda>P. P\<lparr>Correct_B := f_of_int (uint v)\<rparr>) d\<rparr>
      else if a = 0x39 then s\<lparr>base := b\<lparr>Output_Mode := ucast v\<rparr>\<rparr>
      else if a = 0x3F then s\<lparr>dev := upd_conv (\<lambda>P. P\<lparr>HeightRange := v\<rparr>) d\<rparr>
      else s)"

lemma reg10_split:
  "reg10 H a v (enc16 v @ rest) s =
     (case holding_param a v of None \<Rightarrow> Some s
      | Some (p, bs) \<Rightarrow> write3 H p (if length bs = 2 then enc16 v @ rest else bs) (of_nat (length bs)) (holding_mem a v s))"
  by (simp add: reg10_def holding_param_def holding_mem_def Let_def)

lemma holding_param_bounds:
  "holding_param a v = Some (p, bs) \<Longrightarrow> 0 < unat p \<and> unat p + length bs \<le> 60 \<and> (length bs = 1 \<or> bs = enc16 v)"
  by (auto simp: holding_param_def split: if_splits)

context flash_hal
begin

lemma reg10_ok:
  "\<exists>t. reg10 H a v (enc16 v @ rest) s = Some t"
proof (cases "holding_param a v")
  case (Some pb)
  then obtain p bs where p: "holding_param a v = Some (p, bs)" by (cases pb) auto
  note b = holding_param_bounds [OF p]
  have n: "unat (of_nat (length bs) :: u16) = length bs" using b by auto
  obtain st f where "InFlash_Write3T_MultiBytes H (fls (holding_mem a v s)) p
      (if length bs = 2 then enc16 v @ rest else bs) (of_nat (length bs)) = Some (st, f)"
    by (rule write3t_param [of p "of_nat (length bs)" "if length bs = 2 then enc16 v @ rest else bs" "fls (holding_mem a v s)"])
      (use b n in auto)
  then show ?thesis
    by (simp only: reg10_split p write3_def option.case prod.case bind.simps) blast
qed (simp only: reg10_split option.case, blast)

end

text \<open>On a flash that does not fail: the variables and all three copies.\<close>

context reliable_flash
begin

lemma reg10_reliable:
  assumes "holding_param a v = Some (p, bs)" "good (fls s)"
  obtains f where "reg10 H a v (enc16 v @ rest) s = Some ((holding_mem a v s)\<lparr>fls := f\<rparr>)" "good f"
    "area f = overwrite3 (area (fls s)) (unat p) bs" "\<And>x. \<not> in_area x \<Longrightarrow> fl_mem f x = fl_mem (fls s) x"
proof -
  note b = holding_param_bounds [OF assms(1)]
  have n: "unat (of_nat (length bs) :: u16) = length bs" using b by auto
  have f: "fls (holding_mem a v s) = fls s" by (simp add: holding_mem_def Let_def)
  have tk: "take (length bs) (if length bs = 2 then enc16 v @ rest else bs) = bs"
    using b by auto
  obtain f' where "InFlash_Write3T_MultiBytes H (fls s) p
      (if length bs = 2 then enc16 v @ rest else bs) (of_nat (length bs)) = Some (OP_SUCCESS, f')" "good f'"
    "area f' = overwrite3 (area (fls s)) (unat p) (take (unat (of_nat (length bs) :: u16)) (if length bs = 2 then enc16 v @ rest else bs))"
    "\<And>x. \<not> in_area x \<Longrightarrow> fl_mem f' x = fl_mem (fls s) x"
    by (rule write3t_reliable [of p "of_nat (length bs)" "if length bs = 2 then enc16 v @ rest else bs" "fls s"])
      (use b n assms(2) in auto)
  then show thesis
    by (intro that [of f']) (simp_all only: reg10_split assms(1) write3_def f n tk option.case prod.case bind.simps)
qed

end


section \<open>The flash mirrors the variables\<close>

text \<open>The parameters that a restart would load are those in use.  \<open>Correct_B\<close> is left out: the code
  uses it with two different offsets.\<close>

definition mirrors :: "mb \<Rightarrow> bool" where
  "mirrors s \<longleftrightarrow> (let g = area (fls s); b = base s; P = PCap_DataConvert (dev s) in
     g 1 = Device_Addr b \<and> g 2 = BaudRate b \<and> g 3 = Parity b \<and> g 4 = FilterFactor (DataFilter (dev s))
     \<and> g 5 = AutoUpload b \<and> g 6 = CompenEn P \<and> g 8 = Output_Mode b \<and> be16 (g 9) (g 10) = HeightRange P
     \<and> f_round f32 (f_div f64 (f_of_int (uint (be16 (g 47) (g 48)))) (Fin 100)) = Correct_K P)"

lemma overwrite3_first: "k < 2048 \<Longrightarrow> p + length bs \<le> 2048 \<Longrightarrow>
    overwrite3 g p bs k = (if p \<le> k \<and> k < p + length bs then bs ! (k - p) else g k)"
  by (auto simp: overwrite3_def overwrite_def)

lemma SwitchCurFilter_factor [simp]: "FilterFactor (SwitchCurFilter x F) = FilterFactor F"
  by (simp add: SwitchCurFilter_def Let_def)

lemma mirrors_write:
  assumes "mirrors s" "holding_param a v = Some (p, bs)" "area f = overwrite3 (area (fls s)) (unat p) bs"
  shows "mirrors ((holding_mem a v s)\<lparr>fls := f\<rparr>)"
proof -
  have "a \<in> {0x30, 0x31, 0x32, 0x34, 0x35, 0x36, 0x37, 0x38, 0x39, 0x3F}"
    using assms(2) by (simp add: holding_param_def split: if_splits)
  then show ?thesis
    using assms(1,2)
    by (elim insertE emptyE; hypsubst)
      (simp_all add: mirrors_def holding_param_def holding_mem_def Let_def assms(3) split: if_splits,
       (elim conjE, hypsubst, simp add: overwrite3_first bytes_simps)+)
qed

text \<open>Reading what was written, and the other registers.\<close>

lemma holding_write_other: "a' \<noteq> a \<Longrightarrow> bufs_ok (base s) \<Longrightarrow>
    holding a' ((holding_mem a v s)\<lparr>fls := f\<rparr>) = holding a' s"
  by (auto simp: holding_def reg03_def holding_mem_def Let_def bufs_ok_def map_option_bind comp_def)

lemma holding_write_same:
  assumes "holding_param a v \<noteq> None" "a \<notin> {0x36, 0x37, 0x38}" "bufs_ok (base s)"
  shows "holding a ((holding_mem a v s)\<lparr>fls := f\<rparr>) = Some v"
proof -
  have u: "ucast (ucast v :: u8) = v" if "unat v < 256"
    using that by (simp add: word_unat_eq_iff unsigned_ucast_eq unsigned_take_bit_eq take_bit_nat_eq_self)
  show ?thesis
    using assms u
    by (auto simp: holding_def reg03_def holding_mem_def holding_param_def Let_def bufs_ok_def word_less_nat_alt split: if_splits)
qed

text \<open>The upload period is a byte; the offset of the level is not shifted when it is written, but is
  when it is read.\<close>

lemma holding_write_period: "holding 0x36 ((holding_mem 0x36 v s)\<lparr>fls := f\<rparr>) = Some (v AND 0xFF)"
proof -
  have "(ucast (ucast v :: u8) :: u16) = v AND 0xFF"
  proof -
    have m: "(0xFF :: u16) = mask 8" by (simp add: mask_eq_exp_minus_1)
    show ?thesis by (rule bit_word_eqI) (auto simp: m bit_simps)
  qed
  then show ?thesis by (simp add: holding_def reg03_def holding_mem_def Let_def)
qed

lemma holding_write_offset: "holding 0x38 ((holding_mem 0x38 v s)\<lparr>fls := f\<rparr>) = Some (v + 100)"
proof -
  have "f_to_u16 (Fin (of_int n)) = Some (word_of_int n)" if "0 \<le> n" "n < 65536" for n
  proof -
    have "(of_int n :: rat) < of_int 65536" "(of_int 0 :: rat) \<le> of_int n"
      using that by (simp_all only: of_int_less_iff of_int_le_iff)
    then show ?thesis by (simp add: f_to_u16_def)
  qed
  from this [OF uint_u16] have "f_to_u16 (f_of_int (uint v)) = Some v" unfolding f_of_u16 by simp
  then show ?thesis by (simp add: holding_def reg03_def holding_mem_def Let_def)
qed

section \<open>A request for one register\<close>

lemma Func10_one:
  assumes "bufs_ok (base s)" "InRomWrEn (base s) = IN_FLASH_WR_ENABLE" "req_num (base s) = 1"
    and "0x30 \<le> req_addr (base s)" "req_addr (base s) \<le> 0x41" "Receive_Buf (base s) ! 6 = 2"
    and "v = be16 (Receive_Buf (base s) ! 7) (Receive_Buf (base s) ! 8)"
  obtains b where "ModbusFunc10 H s = reg10 H (req_addr (base s)) v (enc16 v @ drop 9 (Receive_Buf (base s))) (s\<lparr>base := b\<rparr>)"
    "bufs_ok b" "reply b = take 6 (Receive_Buf (base s))" "same_but_reply b (base s)"
proof -
  obtain b where b: "ModBus_WritePreHandle (base s) = Some (req_addr (base s), req_num (base s), b)" "bufs_ok b"
    "reply b = take 6 (Receive_Buf (base s))" "same_but_reply b (base s)"
    using WritePreHandle_ok [OF assms(1)] by metis
  note f = same_but_reply_fields [OF b(4)]
  let ?rb = "Receive_Buf (base s)"
  have len: "length ?rb = 600" using assms(1) by (simp add: bufs_ok_def)
  have field: "drop 7 ?rb = enc16 v @ drop 9 ?rb"
    using len assms(7) Cons_nth_drop_Suc [of 7 ?rb] Cons_nth_drop_Suc [of 8 ?rb] by (simp add: bytes_simps)
  have rds: "rd ?rb 6 = Some 2" "rd ?rb 7 = Some (?rb ! 7)" "rd ?rb 8 = Some (?rb ! 8)"
    using len assms(6) by simp_all
  have l0: "loop10 H 2 0 x y = Some" for x y by (rule ext) simp
  have "ModbusFunc10 H s = reg10 H (req_addr (base s)) v (drop 7 ?rb) (s\<lparr>base := b\<rparr>)"
    using assms(2-5) unfolding ModbusFunc10_def b(1)
    by (simp add: rds f assms(7) [symmetric] l0 word_le_nat_alt word_less_nat_alt)
  then show thesis using b field by (intro that) (simp_all only:)
qed


section \<open>Which requests return\<close>

text \<open>The loop of function code 10 stays inside the receive buffer for up to 16 registers, although
  its index advances by the length of all the data.\<close>

context flash_hal
begin

lemma loop10_ok:
  assumes "bufs_ok (base s)" "unat i + n * unat DataLen \<le> 591 + unat DataLen" "unat DataLen \<le> 32"
  shows "\<exists>s'. loop10 H DataLen n a i s = Some s'"
  using assms
proof (induction n arbitrary: a i s)
  case (Suc n)
  let ?rb = "Receive_Buf (base s)"
  have len: "length ?rb = 600" using Suc.prems(1) by (simp add: bufs_ok_def)
  have i: "unat i \<le> 591" using Suc.prems(2) by simp
  have field: "drop (7 + unat i) ?rb = enc16 (be16 (?rb ! (7 + unat i)) (?rb ! (8 + unat i))) @ drop (9 + unat i) ?rb"
    using len i Cons_nth_drop_Suc [of "7 + unat i" ?rb] Cons_nth_drop_Suc [of "8 + unat i" ?rb]
    by (simp add: bytes_simps)
  obtain t where t: "reg10 H a (be16 (?rb ! (7 + unat i)) (?rb ! (8 + unat i))) (drop (7 + unat i) ?rb) s = Some t"
    using reg10_ok [of a "be16 (?rb ! (7 + unat i)) (?rb ! (8 + unat i))" "drop (9 + unat i) ?rb" s] field by auto
  have "unat (i + DataLen) = unat i + unat DataLen" using i Suc.prems(3) by (simp add: unat_word_ariths)
  moreover have "bufs_ok (base t)"
    using reg10_handled [OF t Suc.prems(1)] len i by (simp add: handled_def)
  ultimately show ?case
    using Suc.IH [of t "i + DataLen" "a + 1"] Suc.prems(2,3) t len i by (simp add: algebra_simps)
qed simp

lemma Func10_ok:
  assumes "bufs_ok (base s)" "unat (req_num (base s)) \<le> 16"
  shows "\<exists>s'. ModbusFunc10 H s = Some s'"
proof -
  obtain b where b: "ModBus_WritePreHandle (base s) = Some (req_addr (base s), req_num (base s), b)" "bufs_ok b"
    "same_but_reply b (base s)"
    by (rule WritePreHandle_ok [OF assms(1)])
  let ?r6 = "Receive_Buf (base s) ! 6" and ?n = "req_num (base s)"
  have r6: "rd (Receive_Buf (base s)) 6 = Some ?r6" using assms(1) by (simp add: bufs_ok_def)
  have "\<exists>s'. loop10 H (ucast ?r6) (unat ?n) (req_addr (base s)) 0 (s\<lparr>base := b\<rparr>) = Some s'"
    if "unat (ucast ?r6 :: u16) = unat ?n * 2"
  proof (rule loop10_ok)
    have "unat ?n * (unat ?n * 2) \<le> 16 * (unat ?n * 2)" using assms(2) by (intro mult_le_mono) auto
    then have "unat ?n * (unat ?n * 2) \<le> 591 + unat ?n * 2" using assms(2) by linarith
    then show "unat (0 :: u16) + unat ?n * unat (ucast ?r6 :: u16) \<le> 591 + unat (ucast ?r6 :: u16)"
      using that by simp
  qed (use b(2) that assms(2) in auto)
  then show ?thesis
    unfolding ModbusFunc10_def b(1) using calib_handled_exception [OF b(3,2)] by (auto simp: r6)
qed

end

lemma Func04_ok:
  assumes "bufs_ok (base s)" "unat (req_num (base s)) \<le> 14"
  shows "\<exists>s'. ModbusFunc04 s = Some s'"
proof -
  let ?n = "req_num (base s)" and ?a = "req_addr (base s)"
  let ?m = "(unat ?n + 1) div 2"
  obtain b1 b2 where b: "ModBus_ReadPreHandle (base s) = Some (?a, ?n, b1)" "mb_put (ucast (?n * 2)) b1 = Some b2"
    "bufs_ok b2" "unat (Send_Len b2) = 3"
    using read_head [OF assms(1), of "ucast (?n * 2)"] by metis
  obtain b1' where b1': "ModBus_ReadPreHandle (base s) = Some (?a, ?n, b1')" "bufs_ok b1'"
    by (rule ReadPreHandle_ok [OF assms(1)])
  have ok1: "bufs_ok b1" using b1' b(1) by simp
  obtain c where c: "mb_exception MB_ADDR_EXCEPTION b1 = Some c" by (rule mb_exception_ok [OF ok1])
  have "?m * 4 \<le> 28" using assms(2) by presburger
  then have "\<exists>b. loop04 ?m ?a (s\<lparr>base := b2\<rparr>) = Some (s\<lparr>base := b\<rparr>)"
    using input.loop_reply [of "s\<lparr>base := b2\<rparr>" "map (\<lambda>k. reg04 (?a + of_nat k * 2) s) [0..<?m]" ?a]
      b(3,4) assms(2) by (auto simp: reg04_frame)
  then show ?thesis unfolding ModbusFunc04_def b(1) using b(2) c by auto
qed

lemma Func41_ok: "bufs_ok (base s) \<Longrightarrow> \<exists>s'. ModbusFunc41 s = Some s'"
  by (auto simp: ModbusFunc41_def Let_def bufs_ok_def wrn_def)

text \<open>The frames that no handler can make overflow its buffer, and serving them.\<close>

definition served_frame :: "u8 list \<Rightarrow> bool" where
  "served_frame bs \<longleftrightarrow> 6 \<le> length bs \<and>
     (bs ! 1 \<notin> {0x03, 0x04, 0x10, 0x26, 0x27, 0x2A, 0x2B}
      \<or> bs ! 1 = 0x04 \<and> unat (be16 (bs ! 4) (bs ! 5)) \<le> 14
      \<or> bs ! 1 = 0x10 \<and> unat (be16 (bs ! 4) (bs ! 5)) \<le> 16)"

lemma switch_served:
  assumes "flash_hal H" "bufs_ok (base s)" "length bs \<le> RECEIVE_SIZE" "served_frame bs"
  shows "\<exists>t. modbus_switch H (bs ! 1) (with_request bs s) = Some t"
proof -
  let ?s = "with_request bs s"
  have ok: "bufs_ok (base ?s)" using assms(2,3) by simp
  have n: "req_num (base ?s) = be16 (bs ! 4) (bs ! 5)" using assms(4) by (simp add: req_num_def served_frame_def)
  show ?thesis
    using assms(4) unknown_ok [OF ok] flash_hal.Func05_ok [OF assms(1) ok] flash_hal.Func25_ok [OF assms(1) ok]
      flash_hal.Func10_ok [OF assms(1) ok] Func04_ok [OF ok] Func41_ok [OF ok] n
    by (auto simp: modbus_switch_def served_frame_def)
qed

lemma serving_returns:
  assumes "flash_hal H" "mb_ok s" "port_holds (port s) bs"
    and "frame_valid bs \<and> (bs ! 0 = Device_Addr (base s) \<or> bs ! 0 = BROADCASTADDR) \<Longrightarrow> served_frame bs"
  shows "\<exists>s'. ModbusHandle H s = Some s'"
proof (cases "frame_valid bs \<and> (bs ! 0 = Device_Addr (base s) \<or> bs ! 0 = BROADCASTADDR)")
  case True
  have ok: "bufs_ok (base s)" "length bs \<le> RECEIVE_SIZE"
    using assms(2,3) by (simp_all add: mb_ok_def port_holds_def)
  obtain t where t: "modbus_switch H (bs ! 1) (with_request bs s) = Some t"
    using switch_served [OF assms(1) ok assms(4) [OF True]] by blast
  have "handled (with_request bs s) t"
    using flash_hal.switch_handled(1) [OF assms(1) _ t] ok by simp
  then have "mb_ok t" using assms(2) by (simp add: handled_def mb_ok_def)
  then show ?thesis using handle_cases [OF ok(1) assms(3), of H] t True finish_request_ok [of t] by auto
next
  case False
  have "bufs_ok (base s)" using assms(2) by (simp add: mb_ok_def)
  from handle_ignores [OF this assms(3) False] show ?thesis by blast
qed


section \<open>Properties\<close>

text \<open>C3.  Requests that \<open>ModbusHandle\<close> always answers or ignores: for every frame on the line, of any
  contents, whose function code is 05, 25, 41 or unknown, or that reads at most 14 input registers
  or writes at most 16 holding registers, \<open>ModbusHandle\<close> returns, whatever the flash answers: it
  neither leaves the bounds of a buffer nor waits forever.\<close>

theorem request_returns:
  assumes "flash_hal H" "mb_ok s" "rx_ready (port s)" "length bs \<le> RECEIVE_SIZE" "6 \<le> length bs"
    and "bs ! 1 \<notin> {0x03, 0x04, 0x10, 0x26, 0x27, 0x2A, 0x2B}
         \<or> bs ! 1 = 0x04 \<and> unat (be16 (bs ! 4) (bs ! 5)) \<le> 14
         \<or> bs ! 1 = 0x10 \<and> unat (be16 (bs ! 4) (bs ! 5)) \<le> 16"
  shows "\<exists>s'. ModbusHandle H (received bs s) = Some s'"
proof (rule serving_returns [OF assms(1) received_tx(2) [OF assms(2)] received_holds [OF assms(3,4)]])
  show "served_frame bs" using assms(5,6) by (simp add: served_frame_def)
qed

lemma request_returns_witness:
  "\<exists>s'. ModbusHandle st_hal (received (rtu_frame [1, 0x10, 0, 0x30, 0, 1, 2, 0, 5]) (mb_with [])) = Some s'"
  by (rule request_returns) (simp_all add: mb_ok_with rx_ready_reset rtu_frame_def be16_small)

text \<open>C4.  A request for at most 13 holding registers, end to end.  A device that is not frozen and
  whose last frame has been sent receives the bytes of the request with its checksum and starts a
  transmission with the address, the function code, the number of bytes and the values of exactly
  these registers, high byte first and in order, and the checksum of the reply in the send buffer.
  Besides the port nothing changes but the two message buffers and the length of the message: all
  other parameters of the communication, those of the device, the calibration and the flash are
  what they were.\<close>

theorem read_holding_answered:
  assumes "mb_ok s" "rx_ready (port s)" "gState_READY (port s)" "Freeze (base s) = FREEZE_DISABLE"
    and "ModBus_CallBack (base s) = None" "Device_Addr (base s) \<noteq> BROADCASTADDR"
    and "0x30 \<le> a" "unat a + length vs \<le> 0x42" "vs \<noteq> []" "length vs \<le> 13"
    and "\<forall>k<length vs. holding (a + of_nat k) s = Some (vs ! k)"
    and "req = rtu_frame ([Device_Addr (base s), 3] @ enc16 a @ enc16 (of_nat (length vs)))"
  shows "\<exists>s'. ModbusHandle H (received req s) = Some s' \<and> mb_ok s'
     \<and> trace (port s') = trace (port s) @ [EvTx True (rtu_frame
          ([Device_Addr (base s), 3, of_nat (2 * length vs)] @ concat (map enc16 vs)))]
     \<and> base s' = (base s)\<lparr>Receive_Buf := req @ drop (length req) (Receive_Buf (base s)),
          Send_Buf := Send_Buf (base s'), Send_Len := Send_Len (base s')\<rparr>
     \<and> dev s' = dev s \<and> cal s' = cal s \<and> fls s' = fls s"
proof -
  let ?s = "with_request req (received req s)" and ?addr = "Device_Addr (base s)"
  have req: "length req = 8" "take 2 req = [?addr, 3]" "req ! 0 = ?addr" "req ! 1 = 3" "req ! 2 = hi8 a"
    "req ! 3 = lo8 a" "req ! 4 = hi8 (of_nat (length vs))" "req ! 5 = lo8 (of_nat (length vs))" "frame_valid req"
    unfolding assms(12) frame_valid_def by (simp_all add: rtu_frame_def)
  have ok: "bufs_ok (base ?s)" using assms(1) req(1) by (simp add: mb_ok_def)
  have h: "holding x ?s = holding x s" for x
    using assms(1) req(1)
    by (simp add: with_request_def received_def holding_def reg03_def Let_def map_option_bind comp_def mb_ok_def bufs_ok_def
        cong: if_cong)
  obtain b where b: "ModbusFunc03 ?s = Some (?s\<lparr>base := b\<rparr>)" "bufs_ok b"
    "reply b = [?addr, 3] @ of_nat (2 * length vs) # concat (map enc16 vs)"
    "same_but_reply_cb b (base ?s)" "ModBus_CallBack b = cb_after (a = 0x30) (base ?s)"
    using Func03_reply [OF ok, of a vs] assms(7-11) req
    by (auto simp: h req_addr_def req_num_def bytes_simps unat_of_nat)
  note f = same_but_reply_cb_fields [OF b(4)]
  have cb: "ModBus_CallBack b = None" using b(5) assms(5,6) req(1,3) by (simp add: cb_after_def)
  have len: "length (reply b) = 3 + 2 * length vs"
    unfolding b(3) by (simp add: length_concat comp_def sum_list_triv)
  then have "unat (Send_Len b) = 3 + 2 * length vs"
    using b(2) assms(10) by (simp add: reply_def bufs_ok_def split: if_splits)
  moreover have "Send_Buf b ! 0 = ?addr" using arg_cong [OF b(3), of "\<lambda>xs. xs ! 0"] len
    by (simp add: reply_def)
  ultimately have sb: "sendable True b" using assms(4,6,10) f(6) by (simp add: sendable_def)
  have sw: "modbus_switch H (req ! 1) ?s = Some (?s\<lparr>base := b\<rparr>)" using b(1) req(4) by (simp add: modbus_switch_def)
  obtain s' where s': "ModbusHandle H (received req s) = Some s'" "mb_ok s'" "same_but_buf (base s') b"
    "dev s' = dev s" "cal s' = cal s" "fls s' = fls s"
    "trace (port s') = trace (port s) @ [EvTx True (rtu_frame (reply b))]"
    by (rule handle_replied [OF assms(1,2) _ req(9) req(3) sw])
      (use req(1) b cb sb received_tx [where bs = req] assms(1,3) in \<open>auto simp: mb_ok_def\<close>)
  have "same_but_reply b (base ?s)"
    by (rule same_but_reply_cb_callback [OF b(4)]) (simp add: cb assms(5))
  then have "same_but_reply (base s') (base ?s)"
    using s'(3) by (cases "base s'"; cases b; cases "base ?s") (simp add: same_but_reply_def same_but_buf_def)
  moreover have "base ?s = (base s)\<lparr>Receive_Buf := req @ drop (length req) (Receive_Buf (base s))\<rparr>"
    by (simp add: with_request_def)
  ultimately have "base s' = (base s)\<lparr>Receive_Buf := req @ drop (length req) (Receive_Buf (base s)),
          Send_Buf := Send_Buf (base s'), Send_Len := Send_Len (base s')\<rparr>"
    by (simp add: same_but_reply_def)
  then show ?thesis using s' b(3) by simp
qed

lemma read_holding_answered_witness:
  "\<exists>s'. ModbusHandle st_hal (received (rtu_frame ([1, 3] @ enc16 0x31 @ enc16 2)) (mb_with [])) = Some s'
     \<and> trace (port s') = [EvTx True (rtu_frame [1, 3, 4, 0, 1, 0, 0])]"
proof -
  have h: "holding 0x31 (mb_with []) = Some 1" "holding 0x32 (mb_with []) = Some 0"
    by (simp_all add: holding_def reg03_def mb_with_def base0_def)
  have "\<exists>s'. ModbusHandle st_hal (received (rtu_frame ([1, 3] @ enc16 0x31 @ enc16 2)) (mb_with [])) = Some s' \<and> mb_ok s'
     \<and> trace (port s') = trace (port (mb_with [])) @ [EvTx True (rtu_frame
          ([Device_Addr (base (mb_with [])), 3, of_nat (2 * length [1, 0 :: u16])] @ concat (map enc16 [1, 0])))]
     \<and> base s' = (base (mb_with []))\<lparr>Receive_Buf := rtu_frame ([1, 3] @ enc16 0x31 @ enc16 2)
             @ drop (length (rtu_frame ([1, 3] @ enc16 0x31 @ enc16 2))) (Receive_Buf (base (mb_with []))),
          Send_Buf := Send_Buf (base s'), Send_Len := Send_Len (base s')\<rparr>
     \<and> dev s' = dev (mb_with []) \<and> cal s' = cal (mb_with []) \<and> fls s' = fls (mb_with [])"
    by (rule read_holding_answered [where a = "0x31"])
      (use h in \<open>auto simp: mb_ok_with rx_ready_reset less_Suc_eq_0_disj\<close>, simp_all add: usart_reset_def)
  moreover have "trace usart_reset = []" by (simp add: usart_reset_def)
  moreover have "hi8 1 = 0" "lo8 1 = 1" "hi8 0 = 0" "lo8 0 = 0" by code_simp+
  ultimately show ?thesis by auto
qed

text \<open>C5.  A write of one holding register, on a flash that does not fail and with writing enabled.  A
  value that the register accepts is stored in all three copies of its parameter and nowhere else
  in the flash, and leaves every other register as it was.  It reads back as it was written,
  with three exceptions: the upload period (0x36) keeps its low byte, the offset (0x38) reads back
  100 larger, and for the factor (0x37) nothing is said (\<open>correct_K_reads_one_less\<close>).  When the nine
  parameters of \<open>mirrors\<close> (address, baud rate, parity, filter, upload period, compensation switch,
  output mode, height range and factor; not the offset) were those that a restart would load from
  the flash, they are so again.  The reply is an echo of the request.  A refused value changes
  neither variables nor flash, but is echoed too.\<close>

theorem write_holding_register:
  assumes "reliable_flash H good" "good (fls s)" "bufs_ok (base s)" "InRomWrEn (base s) = IN_FLASH_WR_ENABLE"
    and "req_addr (base s) = a" "0x30 \<le> a" "a \<le> 0x41" "req_num (base s) = 1" "Receive_Buf (base s) ! 6 = 2"
    and "be16 (Receive_Buf (base s) ! 7) (Receive_Buf (base s) ! 8) = v" "mirrors s"
  shows "\<exists>s'. ModbusFunc10 H s = Some s' \<and> reply (base s') = take 6 (Receive_Buf (base s)) \<and> mirrors s'
     \<and> (case holding_param a v of
          None \<Rightarrow> fls s' = fls s \<and> dev s' = dev s
        | Some (p, bs) \<Rightarrow> area (fls s') = overwrite3 (area (fls s)) (unat p) bs \<and> flash_safe (fls s) (fls s')
            \<and> (a \<notin> {0x36, 0x37, 0x38} \<longrightarrow> holding a s' = Some v)
            \<and> (a = 0x36 \<longrightarrow> holding a s' = Some (v AND 0xFF)) \<and> (a = 0x38 \<longrightarrow> holding a s' = Some (v + 100)))
     \<and> (\<forall>a'. a' \<noteq> a \<or> holding_param a v = None \<longrightarrow> holding a' s' = holding a' s)"
proof -
  obtain b where b: "ModbusFunc10 H s = reg10 H a v (enc16 v @ drop 9 (Receive_Buf (base s))) (s\<lparr>base := b\<rparr>)"
    "bufs_ok b" "reply b = take 6 (Receive_Buf (base s))" "same_but_reply b (base s)"
    by (rule Func10_one [OF assms(3,4,8), of v H]) (use assms(5-7,9,10) in auto)
  let ?s = "s\<lparr>base := b\<rparr>"
  have m: "mirrors ?s" using assms(11) same_but_reply_fields [OF b(4)] by (simp add: mirrors_def Let_def)
  have h: "holding x ?s = holding x s" for x by (rule holding_frame [OF same_but_reply_imp_cb [OF b(4)]])
  show ?thesis
  proof (cases "holding_param a v")
    case None
    then show ?thesis using b(1,3) m by (simp add: reg10_split h del: append.simps append_Cons)
  next
    case (Some pb)
    then obtain p bs where p: "holding_param a v = Some (p, bs)" by (cases pb) auto
    obtain f where f: "reg10 H a v (enc16 v @ drop 9 (Receive_Buf (base s))) ?s = Some ((holding_mem a v ?s)\<lparr>fls := f\<rparr>)"
      "area f = overwrite3 (area (fls s)) (unat p) bs" "\<And>x. \<not> in_area x \<Longrightarrow> fl_mem f x = fl_mem (fls s) x"
      by (rule reliable_flash.reg10_reliable [OF assms(1) p, of ?s "drop 9 (Receive_Buf (base s))"]) (use assms(2) in simp_all)
    have "reply (base (holding_mem a v ?s)) = reply b" by (simp add: holding_mem_def Let_def reply_def)
    moreover have "mirrors ((holding_mem a v ?s)\<lparr>fls := f\<rparr>)" by (rule mirrors_write [OF m p]) (simp add: f(2))
    moreover have "a' \<noteq> a \<Longrightarrow> holding a' ((holding_mem a v ?s)\<lparr>fls := f\<rparr>) = holding a' s" for a'
      using holding_write_other [of a' a ?s, where v = v and f = f] b(2) h by simp
    moreover have "a \<notin> {0x36, 0x37, 0x38} \<Longrightarrow> holding a ((holding_mem a v ?s)\<lparr>fls := f\<rparr>) = Some v"
      by (rule holding_write_same) (use p b(2) in auto)
    moreover have "a = 0x36 \<Longrightarrow> holding a ((holding_mem a v ?s)\<lparr>fls := f\<rparr>) = Some (v AND 0xFF)"
      "a = 0x38 \<Longrightarrow> holding a ((holding_mem a v ?s)\<lparr>fls := f\<rparr>) = Some (v + 100)"
      by (simp_all add: holding_write_period holding_write_offset)
    moreover have "flash_safe (fls s) f" using f(3) by (auto simp: flash_safe_def)
    ultimately show ?thesis using b(1,3) f(1,2) p by simp
  qed
qed


text \<open>A device that has started from the flash \<open>f\<close> and received the bytes \<open>bs\<close>.\<close>

definition started :: "flash \<Rightarrow> u8 list \<Rightarrow> mb" where
  "started f bs =
     (let g = area f; s = mb_with bs in
      s\<lparr>base := (base s)\<lparr>Device_Addr := g 1, BaudRate := g 2, Parity := g 3, AutoUpload := g 5, Output_Mode := g 8\<rparr>,
        dev := upd_filt (\<lambda>F. F\<lparr>FilterFactor := g 4\<rparr>) (upd_conv (\<lambda>P. P\<lparr>CompenEn := g 6, HeightRange := be16 (g 9) (g 10),
          Correct_K := f_round f32 (f_div f64 (f_of_int (uint (be16 (g 47) (g 48)))) (Fin 100))\<rparr>) (dev s)),
        fls := f\<rparr>)"

lemma mirrors_started: "mirrors (started f bs)"
  by (simp add: mirrors_def started_def Let_def)

lemma started_simps [simp]:
  "fls (started f bs) = f" "InRomWrEn (base (started f bs)) = 15"
  "Receive_Buf (base (started f bs)) = bs @ replicate (600 - length bs) 0"
  "length bs \<le> 600 \<Longrightarrow> bufs_ok (base (started f bs))"
  by (simp_all add: started_def Let_def mb_with_def base0_def bufs_ok_def)

lemma write_holding_register_witness:
  "\<exists>s'. ModbusFunc10 st_hal (started blank_flash [1, 0x10, 0, 0x31, 0, 1, 2, 0, 3]) = Some s'
     \<and> reply (base s') = [1, 0x10, 0, 0x31, 0, 1] \<and> mirrors s' \<and> holding 0x31 s' = Some 3
     \<and> area (fls s') = overwrite3 (area blank_flash) 2 [3]"
proof -
  let ?s = "started blank_flash [1, 0x10, 0, 0x31, 0, 1, 2, 0, 3]"
  have p: "holding_param 0x31 3 = Some (BAUDRATE, [3])" by (simp add: holding_param_def)
  have "\<exists>s'. ModbusFunc10 st_hal ?s = Some s' \<and> reply (base s') = take 6 (Receive_Buf (base ?s)) \<and> mirrors s'
     \<and> (case holding_param 0x31 3 of
          None \<Rightarrow> fls s' = fls ?s \<and> dev s' = dev ?s
        | Some (p, bs) \<Rightarrow> area (fls s') = overwrite3 (area (fls ?s)) (unat p) bs \<and> flash_safe (fls ?s) (fls s')
            \<and> (0x31 \<notin> {0x36, 0x37, 0x38 :: u16} \<longrightarrow> holding 0x31 s' = Some 3)
            \<and> ((0x31 :: u16) = 0x36 \<longrightarrow> holding 0x31 s' = Some (3 AND 0xFF))
            \<and> ((0x31 :: u16) = 0x38 \<longrightarrow> holding 0x31 s' = Some (3 + 100)))
     \<and> (\<forall>a'. a' \<noteq> 0x31 \<or> holding_param 0x31 3 = None \<longrightarrow> holding a' s' = holding a' ?s)"
    by (rule write_holding_register [OF st_drv.reliable_flash_axioms])
      (simp_all add: mirrors_started no_faults_def blank_flash_def req_addr_def req_num_def be16_small)
  then show ?thesis by (auto simp: p)
qed

text \<open>The initialisation functions establish the mirror, and serving register writes keeps it, also
  when a request writes several registers.\<close>

lemma init_mirrors:
  assumes "ModBus_Init f b0 u0 = Some (b, u)" "DataConvertParam_Init f P0 = Some P" "DataFilterParam_Init f F0 n0 = Some F"
    and "base s = b\<lparr>InRomWrEn := x\<rparr>" "PCap_DataConvert (dev s) = P" "DataFilter (dev s) = F" "fls s = f"
  shows "mirrors s"
  using assms(1-3)
  by (auto simp: mirrors_def assms(4-7) Let_def ModBus_Init_def DataConvertParam_Init_def DataFilterParam_Init_def
      flash_u8_area flash_u16_area flash_u32_area)

lemma mirrors_reply: "same_but_reply b (base s) \<Longrightarrow> mirrors (s\<lparr>base := b\<rparr>) = mirrors s"
  by (simp add: mirrors_def Let_def same_but_reply_fields)

lemma mirrors_request [simp]: "mirrors (with_request r s) = mirrors s"
  by (simp add: mirrors_def Let_def with_request_def)

context reliable_flash
begin

lemma reg10_mirrors:
  assumes "reg10 H a v (enc16 v @ rest) s = Some s'" "mirrors s" "good (fls s)"
  shows "mirrors s' \<and> good (fls s')"
proof (cases "holding_param a v")
  case None
  then show ?thesis using assms by (simp add: reg10_split del: append.simps append_Cons)
next
  case (Some pb)
  then obtain p bs where p: "holding_param a v = Some (p, bs)" by (cases pb) auto
  obtain f where f: "reg10 H a v (enc16 v @ rest) s = Some ((holding_mem a v s)\<lparr>fls := f\<rparr>)" "good f"
    "area f = overwrite3 (area (fls s)) (unat p) bs"
    by (rule reg10_reliable [OF p assms(3), of rest]) blast
  then have "s' = (holding_mem a v s)\<lparr>fls := f\<rparr>" using assms(1) by simp
  then show ?thesis using mirrors_write [OF assms(2) p f(3)] f(2) by simp
qed

lemma loop10_mirrors:
  "loop10 H L n a i s = Some s' \<Longrightarrow> bufs_ok (base s) \<Longrightarrow> mirrors s \<Longrightarrow> good (fls s)
    \<Longrightarrow> mirrors s' \<and> good (fls s') \<and> bufs_ok (base s')"
proof (induction n arbitrary: a i s)
  case (Suc n)
  let ?rb = "Receive_Buf (base s)"
  obtain h l t where t: "rd ?rb (7 + unat i) = Some h" "rd ?rb (8 + unat i) = Some l"
    "reg10 H a (be16 h l) (drop (7 + unat i) ?rb) s = Some t" "loop10 H L n (a + 1) (i + L) t = Some s'"
    using Suc.prems(1) by (auto simp: bind_eq_Some_conv)
  have i: "8 + unat i < length ?rb" "h = ?rb ! (7 + unat i)" "l = ?rb ! (8 + unat i)"
    using t(1,2) by (auto simp: rd_def split: if_splits)
  have field: "drop (7 + unat i) ?rb = enc16 (be16 h l) @ drop (9 + unat i) ?rb"
    using i Cons_nth_drop_Suc [of "7 + unat i" ?rb] Cons_nth_drop_Suc [of "8 + unat i" ?rb]
    by (simp add: bytes_simps)
  have "mirrors t \<and> good (fls t)"
    by (rule reg10_mirrors [OF t(3) [unfolded field] Suc.prems(3,4)])
  moreover have "bufs_ok (base t)"
    using reg10_handled [OF t(3) Suc.prems(2)] i(1) by (simp add: handled_def)
  ultimately show ?case using Suc.IH [OF t(4)] by blast
qed simp

lemma Func10_mirrors:
  assumes "ModbusFunc10 H s = Some s'" "bufs_ok (base s)" "mirrors s" "good (fls s)"
  shows "mirrors s' \<and> good (fls s') \<and> bufs_ok (base s')"
proof -
  obtain b where b: "ModBus_WritePreHandle (base s) = Some (req_addr (base s), req_num (base s), b)" "bufs_ok b"
    "same_but_reply b (base s)"
    by (rule WritePreHandle_ok [OF assms(2)])
  have m: "mirrors (s\<lparr>base := b\<rparr>)" using assms(3) b(3) by (simp add: mirrors_reply)
  have fail: "mirrors s' \<and> good (fls s') \<and> bufs_ok (base s')" if ex: "mb_fail code s b = Some s'" for code
  proof -
    obtain c where "mb_exception code b = Some c" "s' = s\<lparr>base := c\<rparr>" using ex by (auto simp: bind_eq_Some_conv)
    then show ?thesis
      using mb_exception_frame [of code b c] b(2,3) assms(3,4) same_but_reply_trans
      by (auto simp: mirrors_reply)
  qed
  have loop: "mirrors s' \<and> good (fls s') \<and> bufs_ok (base s')" if "loop10 H L n a i (s\<lparr>base := b\<rparr>) = Some s'" for L n a i
    by (rule loop10_mirrors [OF that]) (use b(2) m assms(4) in simp_all)
  show ?thesis
    using assms(1) fail loop unfolding ModbusFunc10_def b(1) by (auto simp: bind_eq_Some_conv split: if_splits)
qed

end

text \<open>Requests to write holding registers, served one after the other.\<close>

fun write_requests :: "hal_flash \<Rightarrow> u8 list list \<Rightarrow> mb \<Rightarrow> mb option" where
  "write_requests H [] s = Some s"
| "write_requests H (r # rs) s = do { s \<leftarrow> ModbusFunc10 H (with_request r s); write_requests H rs s }"

text \<open>A request that fits the receive buffer and writes at most 16 registers.\<close>

definition short_write :: "u8 list \<Rightarrow> bool" where
  "short_write r \<longleftrightarrow> 6 \<le> length r \<and> length r \<le> 600 \<and> unat (be16 (r ! 4) (r ! 5)) \<le> 16"

context reliable_flash
begin

lemma write_requests_mirrors:
  assumes "bufs_ok (base s)" "mirrors s" "good (fls s)" "\<forall>r \<in> set rs. short_write r"
  shows "\<exists>s'. write_requests H rs s = Some s' \<and> mirrors s' \<and> good (fls s')"
  using assms
proof (induction rs arbitrary: s)
  case (Cons r rs)
  have r: "6 \<le> length r" "length r \<le> 600" "unat (be16 (r ! 4) (r ! 5)) \<le> 16"
    using Cons.prems(4) by (simp_all add: short_write_def)
  have ok: "bufs_ok (base (with_request r s))" using Cons.prems(1) r(2) by simp
  have "req_num (base (with_request r s)) = be16 (r ! 4) (r ! 5)" using r(1) by (simp add: req_num_def)
  then obtain t where t: "ModbusFunc10 H (with_request r s) = Some t" using Func10_ok [OF ok] r(3) by auto
  have "mirrors t \<and> good (fls t) \<and> bufs_ok (base t)"
    by (rule Func10_mirrors [OF t ok]) (use Cons.prems(2,3) in simp_all)
  then show ?case using Cons.IH [of t] Cons.prems(4) t by auto
qed simp

end



text \<open>The correction factor loses a step: after 53 has been written to register 0x37, it reads
  back as 52, because 53/100 is rounded down to a \<open>float\<close> and the product with 100 is truncated.\<close>

theorem correct_K_reads_one_less:
  "holding 0x37 ((holding_mem 0x37 53 s)\<lparr>fls := f\<rparr>) = Some 52"
proof -
  have "f_to_u16 (f_mul f32 (f_round f32 (f_div f64 (f_of_int 53) (Fin 100))) (f_of_int 100)) = Some 52"
    by code_simp
  then show ?thesis by (simp add: holding_def reg03_def holding_mem_def Let_def)
qed


context flash_hal
begin

lemma reg10_effect:
  "\<exists>f. reg10 H a v (enc16 v @ rest) s
     = Some (if holding_param a v = None then s else (holding_mem a v s)\<lparr>fls := f\<rparr>)"
proof (cases "holding_param a v")
  case (Some pb)
  then obtain p bs where p: "holding_param a v = Some (p, bs)" by (cases pb) auto
  obtain t where "reg10 H a v (enc16 v @ rest) s = Some t" using reg10_ok by blast
  moreover from this have "\<exists>f. t = (holding_mem a v s)\<lparr>fls := f\<rparr>"
    by (simp only: reg10_split p option.case prod.case write3_def) (auto simp: bind_eq_Some_conv)
  ultimately show ?thesis using p by auto
qed (simp only: reg10_split option.case, simp)

lemma loop10_Suc:
  assumes "bufs_ok (base s)" "unat i \<le> 591"
    and "v = be16 (Receive_Buf (base s) ! (7 + unat i)) (Receive_Buf (base s) ! (8 + unat i))"
  obtains f where "loop10 H L (Suc n) a i s
    = loop10 H L n (a + 1) (i + L) (if holding_param a v = None then s else (holding_mem a v s)\<lparr>fls := f\<rparr>)"
proof -
  let ?rb = "Receive_Buf (base s)"
  have len: "length ?rb = 600" using assms(1) by (simp add: bufs_ok_def)
  have field: "drop (7 + unat i) ?rb = enc16 v @ drop (9 + unat i) ?rb"
    using len assms(2,3) Cons_nth_drop_Suc [of "7 + unat i" ?rb] Cons_nth_drop_Suc [of "8 + unat i" ?rb]
    by (simp add: bytes_simps)
  have rds: "rd ?rb (7 + unat i) = Some (?rb ! (7 + unat i))" "rd ?rb (8 + unat i) = Some (?rb ! (8 + unat i))"
    using len assms(2) by simp_all
  obtain f where "reg10 H a v (drop (7 + unat i) ?rb) s
      = Some (if holding_param a v = None then s else (holding_mem a v s)\<lparr>fls := f\<rparr>)"
    unfolding field using reg10_effect by blast
  then show thesis
    by (intro that [of f]) (simp only: loop10.simps rds bind.simps assms(3) [symmetric])
qed

end

text \<open>Writing two registers in one request.  The index into the data advances by the length of
  all the data after the first register, so the second register does not receive its value, which
  has no effect at all, but the two bytes behind the data, which are the checksum of the request: a
  request to set the filter and the upload period sets the period to a byte of its checksum.\<close>

theorem write_two_registers_takes_checksum:
  assumes "flash_hal H" "bufs_ok (base s)" "InRomWrEn (base s) = IN_FLASH_WR_ENABLE"
    and "msg = [d, 0x10] @ enc16 0x35 @ enc16 2 @ [4] @ enc16 v @ enc16 w"
  shows "\<exists>s'. ModbusFunc10 H (with_request (rtu_frame msg) s) = Some s'
     \<and> AutoUpload (base s') = hi8 (MDB_Get_CRC16 msg)"
proof -
  let ?fr = "rtu_frame msg" and ?s = "with_request (rtu_frame msg) s" and ?c = "MDB_Get_CRC16 msg"
  have fr: "length ?fr = 13" "?fr ! 2 = hi8 0x35" "?fr ! 3 = lo8 0x35" "?fr ! 4 = hi8 2" "?fr ! 5 = lo8 2" "?fr ! 6 = 4"
    "?fr ! 11 = lo8 ?c" "?fr ! 12 = hi8 ?c"
    unfolding rtu_frame_def by (simp_all add: assms(4))
  have ok: "bufs_ok (base ?s)" using assms(2) fr(1) by simp
  have rq: "req_addr (base ?s) = 0x35" "req_num (base ?s) = 2"
    using fr by (simp_all add: req_addr_def req_num_def bytes_simps)
  obtain b where b: "ModBus_WritePreHandle (base ?s) = Some (0x35, 2, b)" "bufs_ok b" "same_but_reply b (base ?s)"
    using WritePreHandle_ok [OF ok] rq by metis
  note f = same_but_reply_fields [OF b(3)]
  let ?t = "?s\<lparr>base := b\<rparr>" and ?v = "be16 (Receive_Buf b ! 7) (Receive_Buf b ! 8)"
  have six: "rd (Receive_Buf (base ?s)) 6 = Some 4"
    using ok fr by (simp add: bufs_ok_def)
  have "ModbusFunc10 H ?s = loop10 H 4 2 0x35 0 ?t"
    unfolding ModbusFunc10_def b(1) six using f(7) assms(3) by simp
  then have start: "ModbusFunc10 H ?s = loop10 H 4 (Suc (Suc 0)) 0x35 0 ?t" by (simp only: numeral_2_eq_2)
  obtain f1 where 1: "loop10 H 4 (Suc (Suc 0)) 0x35 0 ?t = loop10 H 4 (Suc 0) (0x35 + 1) (0 + 4)
      (if holding_param 0x35 ?v = None then ?t else (holding_mem 0x35 ?v ?t)\<lparr>fls := f1\<rparr>)"
    by (rule flash_hal.loop10_Suc [OF assms(1), of ?t 0 ?v 4 "Suc 0" "0x35"]) (use b(2) in auto)
  define u where "u = (if holding_param 0x35 ?v = None then ?t else (holding_mem 0x35 ?v ?t)\<lparr>fls := f1\<rparr>)"
  have u: "base u = b" by (simp add: u_def holding_mem_def Let_def)
  have c: "be16 (lo8 ?c) (hi8 ?c) = be16 (Receive_Buf (base u) ! (7 + unat (4 :: u16))) (Receive_Buf (base u) ! (8 + unat (4 :: u16)))"
    unfolding u f(8) using fr by simp
  obtain f2 where 2: "loop10 H 4 (Suc 0) 0x36 4 u = loop10 H 4 0 (0x36 + 1) (4 + 4)
      (if holding_param 0x36 (be16 (lo8 ?c) (hi8 ?c)) = None then u else (holding_mem 0x36 (be16 (lo8 ?c) (hi8 ?c)) u)\<lparr>fls := f2\<rparr>)"
    by (rule flash_hal.loop10_Suc [OF assms(1) _ _ c, of 4 0 "0x36"]) (use b(2) u in auto)
  have e: "(0x35 :: u16) + 1 = 0x36" "(0 :: u16) + 4 = 4" by simp_all
  have "ModbusFunc10 H ?s = loop10 H 4 (Suc 0) 0x36 4 u" by (simp only: start 1 u_def e)
  also have "\<dots> = Some ((holding_mem 0x36 (be16 (lo8 ?c) (hi8 ?c)) u)\<lparr>fls := f2\<rparr>)"
    unfolding 2 by (simp add: holding_param_def)
  finally show ?thesis
    using lo8_be16 [of "lo8 ?c" "hi8 ?c"] by (simp add: holding_mem_def Let_def lo8_def)
qed

lemma write_two_registers_takes_checksum_witness:
  "\<exists>s'. ModbusFunc10 st_hal (with_request (rtu_frame [1, 0x10, 0, 0x35, 0, 2, 4, 0, 5, 0, 9]) (mb_with [])) = Some s'
     \<and> AutoUpload (base s') = 0x83"
proof -
  have e: "[1, 0x10, 0, 0x35, 0, 2, 4, 0, 5, 0, 9] = [1, 0x10] @ enc16 0x35 @ enc16 2 @ [4] @ enc16 5 @ enc16 (9 :: u16)"
    by code_simp
  have "hi8 (MDB_Get_CRC16 [1, 0x10, 0, 0x35, 0, 2, 4, 0, 5, 0, 9]) = 0x83" by code_simp
  with write_two_registers_takes_checksum [OF st_hal_flash_hal _ _ e, of "mb_with []"] show ?thesis
    by (simp add: bufs_ok_with)
qed


text \<open>The full-scale capacitance set by function code 27 does not survive a restart.  The request
  carries the bits \<open>w\<close> of a \<open>float\<close> of value \<open>v\<close>; the variables take the number \<open>v\<close>, the flash
  the bits \<open>w\<close>, and \<open>DataConvertParam_Init\<close> reads those as the number.\<close>

theorem calib_max_changes_at_restart:
  assumes "reliable_flash H good" "good (fls s)" "bufs_ok (base s)" "InRomWrEn (base s) = IN_FLASH_WR_ENABLE"
    and "take 11 (Receive_Buf (base s)) = [d, 0x27, 0, 0x80, 0, 2, 4] @ enc32 w" "f_to_u32 (f32_val w) = Some v"
  shows "\<exists>s' P'. ModbusFunc27 H s = Some s' \<and> CapMax (PCap_DataConvert (dev s')) = v
     \<and> InputRangeMax (DataFilter (dev s')) = v
     \<and> DataConvertParam_Init (fls s') P = Some P' \<and> CapMax P' = w"
proof -
  let ?rb = "Receive_Buf (base s)"
  have nth: "?rb ! k = ([d, 0x27, 0, 0x80, 0, 2, 4] @ enc32 w) ! k" if "k < 11" for k
    using arg_cong [OF assms(5), of "\<lambda>xs. xs ! k"] that by simp
  have len: "length ?rb = 600" using assms(3) by (simp add: bufs_ok_def)
  have field: "drop 7 ?rb = enc32 w @ drop 11 ?rb"
    using arg_cong [OF assms(5), of "drop 7"] append_take_drop_id [of 4 "drop 7 ?rb"]
    by (simp add: drop_take)
  obtain b where b: "ModBus_WritePreHandle (base s) = Some (0x80, 2, b)" "bufs_ok b" "same_but_reply b (base s)"
    using WritePreHandle_ok [OF assms(3)] nth [of 2] nth [of 3] nth [of 4] nth [of 5]
    by (auto simp: req_addr_def req_num_def be16_small)
  note f = same_but_reply_fields [OF b(3)]
  obtain g where g: "InFlash_Write3T_MultiBytes H (fls s) CAPMAX (enc32 w @ drop 11 ?rb) 4 = Some (OP_SUCCESS, g)"
    "area g = overwrite3 (area (fls s)) 15 (enc32 w)"
    by (rule reliable_flash.write3t_reliable [OF assms(1), of CAPMAX 4 "enc32 w @ drop 11 ?rb" "fls s"]) (use assms(2) in auto)
  let ?t = "s\<lparr>base := b, dev := upd_filt (\<lambda>F. F\<lparr>InputRangeMax := v\<rparr>) (upd_conv (\<lambda>P. P\<lparr>CapMax := v\<rparr>) (dev s)), fls := g\<rparr>"
  have "HexToFloat (drop 7 ?rb) = Some w" unfolding field by (simp add: bytes_simps)
  moreover have "reg27 H 0x80 (f32_val w) (drop 7 ?rb) (s\<lparr>base := b\<rparr>) = Some ?t"
    unfolding field using g(1) assms(6) by (simp add: reg27_def reg27_range_def Let_def write3_def)
  ultimately have "loop27 H 4 (Suc 0) 0x80 0 (s\<lparr>base := b\<rparr>) = Some ?t" by (simp add: f)
  moreover have "(unat (2 :: u16) + 1) div 2 = Suc 0" by simp
  moreover have "rd (Receive_Buf b) 6 = Some 4" using len nth [of 6] by (simp add: f)
  ultimately have "ModbusFunc27 H s = Some ?t"
    unfolding ModbusFunc27_def b(1) using assms(4) by (simp add: f del: loop27.simps)
  moreover have "\<exists>P'. DataConvertParam_Init g P = Some P' \<and> CapMax P' = w"
    using DataConvertParam_Init_range [of g P] by (auto simp: g(2) overwrite3_first bytes_simps)
  ultimately show ?thesis by auto
qed

lemma calib_max_changes_at_restart_witness:
  "\<exists>s' P'. ModbusFunc27 st_hal (mb_with [1, 0x27, 0, 0x80, 0, 2, 4, 0x49, 0xF4, 0x24, 0]) = Some s'
     \<and> CapMax (PCap_DataConvert (dev s')) = 2000000
     \<and> DataConvertParam_Init (fls s') convert_param0 = Some P' \<and> CapMax P' = 1240736768"
proof -
  have v: "f_to_u32 (f32_val 0x49F42400) = Some 2000000" by code_simp
  have e: "byte_of 3 0x49F42400 = 0x49" "byte_of 2 0x49F42400 = 0xF4" "byte_of (Suc 0) 0x49F42400 = 0x24"
    "byte_of 0 0x49F42400 = 0" by code_simp+
  let ?s = "mb_with [1, 0x27, 0, 0x80, 0, 2, 4, 0x49, 0xF4, 0x24, 0]"
  have "take 11 (Receive_Buf (base ?s)) = [1, 0x27, 0, 0x80, 0, 2, 4] @ enc32 0x49F42400"
    by (simp add: mb_with_def base0_def e)
  from calib_max_changes_at_restart [OF st_drv.reliable_flash_axioms _ _ _ this v, of convert_param0]
  show ?thesis by (auto simp: bufs_ok_with dev_with no_faults_def blank_flash_def)
qed

end
