(* ===== verification/PicocapData.thy ===== *)
theory PicocapData
  imports Prelude
begin

text \<open>
  The constants that the driver writes into the capacitance converter: the firmware
  \<open>SRAM_DATA\<close> and the configuration registers \<open>REG\<close> of \<open>BSP/Src/Picocap.c\<close>, whose values
  \<open>BSP/Inc/Picocap.h\<close> composes from the chosen setting of each register field.
\<close>

section \<open>Configuration registers\<close>

definition REG0_OTP_CONFIG_VALUE :: u32 where
  "REG0_OTP_CONFIG_VALUE =
     0x400000 OR 0x00 OR 0x20000 OR 0x00 OR push_bit 4 0x0F OR 0x0F"

definition REG1_IN_OSC_CONFIG_VALUE :: u32 where
  "REG1_IN_OSC_CONFIG_VALUE =
     0x201000 OR 0x22"

definition REG2_CAP_MEASURE_VALUE :: u32 where
  "REG2_CAP_MEASURE_VALUE =
     push_bit 16 0x01 OR push_bit 16 0x02 OR 0x00 OR 0x00 OR push_bit 12 0x01 OR 0x00 OR
     push_bit 8 0x05 OR 0x0B"

definition REG3_CAP_MEASURE_VALUE :: u32 where
  "REG3_CAP_MEASURE_VALUE =
     0x00 OR push_bit 16 13 OR push_bit 13 0x01 OR 512"

definition REG4_CAP_TEMP_MEASURE_VALUE :: u32 where
  "REG4_CAP_TEMP_MEASURE_VALUE =
     0x00 OR 0x00 OR push_bit 8 2 OR push_bit 4 0x01 OR 0x00 OR 0x00"

definition REG5_TEMP_MEASURE_VALUE :: u32 where
  "REG5_TEMP_MEASURE_VALUE =
     push_bit 22 0x02 OR 0"

definition REG6_TEMP_MEASURE_VALUE :: u32 where
  "REG6_TEMP_MEASURE_VALUE =
     0x00 OR 0x40"

definition REG7_CONFIG_VALUE :: u32 where
  "REG7_CONFIG_VALUE =
     0x1F0000"

definition REG8_DSP_CONFIG_VALUE :: u32 where
  "REG8_DSP_CONFIG_VALUE =
     push_bit 23 0x01 OR 0x00 OR 0x00 OR 0x00 OR 0x00 OR 0x00 OR push_bit 10 0 OR
     push_bit 8 0x01 OR push_bit 8 0x02 OR push_bit 4 0x01 OR 0x00 OR 0x00"

definition REG9_GPIO_CONFIG_VALUE :: u32 where
  "REG9_GPIO_CONFIG_VALUE =
     push_bit 20 0x01 OR push_bit 20 0x02 OR push_bit 20 0x08 OR
     push_bit 16 0x01 OR push_bit 16 0x02 OR push_bit 16 0x04 OR push_bit 16 0x08 OR
     push_bit 12 0x02 OR push_bit 4 0x08 OR 0x03 OR push_bit 2 0x03"

definition REG10_IN_1_8V_REGULATOR_VALUE :: u32 where
  "REG10_IN_1_8V_REGULATOR_VALUE =
     0x180000 OR 0x47"

definition PARAM0_VALUE :: u32 where
  "PARAM0_VALUE =
     0x00"

definition PARAM1_VALUE :: u32 where
  "PARAM1_VALUE =
     0x00"

definition PARAM2_PULSE_SELECT_VALUE :: u32 where
  "PARAM2_PULSE_SELECT_VALUE =
     0x00"

definition PARAM3_PULSE0_SLOPE_VALUE :: u32 where
  "PARAM3_PULSE0_SLOPE_VALUE =
     0"

definition PARAM4_PULSE0_OFFSET_VALUE :: u32 where
  "PARAM4_PULSE0_OFFSET_VALUE =
     0"

definition PARAM5_PULSE1_SLOPE_VALUE :: u32 where
  "PARAM5_PULSE1_SLOPE_VALUE =
     0"

definition PARAM6_PULSE1_OFFSET_VALUE :: u32 where
  "PARAM6_PULSE1_OFFSET_VALUE =
     0"

definition PARAM7_CAP_MEASURE_CONFIG_VALUE :: u32 where
  "PARAM7_CAP_MEASURE_CONFIG_VALUE =
     0x00"

definition PARAM8_GAIN_CORR_VALUE :: u32 where
  "PARAM8_GAIN_CORR_VALUE =
     0x200000"

definition REG20_RUNBIT_VALUE :: u32 where
  "REG20_RUNBIT_VALUE =
     0x00"

definition REG :: "u32 list" where
  "REG =
    [REG0_OTP_CONFIG_VALUE,
     REG1_IN_OSC_CONFIG_VALUE,
     REG2_CAP_MEASURE_VALUE,
     REG3_CAP_MEASURE_VALUE,
     REG4_CAP_TEMP_MEASURE_VALUE,
     REG5_TEMP_MEASURE_VALUE,
     REG6_TEMP_MEASURE_VALUE,
     REG7_CONFIG_VALUE,
     REG8_DSP_CONFIG_VALUE,
     REG9_GPIO_CONFIG_VALUE,
     REG10_IN_1_8V_REGULATOR_VALUE,
     PARAM0_VALUE,
     PARAM1_VALUE,
     PARAM2_PULSE_SELECT_VALUE,
     PARAM3_PULSE0_SLOPE_VALUE,
     PARAM4_PULSE0_OFFSET_VALUE,
     PARAM5_PULSE1_SLOPE_VALUE,
     PARAM6_PULSE1_OFFSET_VALUE,
     PARAM7_CAP_MEASURE_CONFIG_VALUE,
     PARAM8_GAIN_CORR_VALUE,
     REG20_RUNBIT_VALUE]"

text \<open>The value of every register, in the order of their addresses.\<close>

lemma REG_values:
  "REG = [0x4200FF, 0x201022, 0x03150B, 0x0D2200, 0x000210, 0x800000, 0x000040,
     0x1F0000, 0x800310, 0xBF208F, 0x180047, 0, 0, 0, 0, 0, 0, 0, 0, 0x200000, 0]"
  by code_simp

lemma length_REG [simp]: "length REG = 21"
  by (simp add: REG_def)

section \<open>Firmware\<close>

definition SRAM_DATA :: "u8 list" where
  "SRAM_DATA = [
     0x00, 0x00, 0x00, 0x62, 0x63, 0x00, 0x65, 0xBE, 0x01, 0x20, 0x26, 0x42, 0x5C, 0x48, 0xA0, 0x03,
     0x21, 0xE4, 0x20, 0x31, 0xA1, 0x03, 0x21, 0xE4, 0x20, 0x31, 0x84, 0x01, 0x23, 0x63, 0x01, 0x00,
     0x00, 0x00, 0x00, 0x00, 0x20, 0x0B, 0x43, 0x58, 0xC0, 0xFE, 0x43, 0xC0, 0x44, 0x7A, 0x7E, 0x20,
     0x0B, 0xC0, 0xC0, 0xC0, 0xC8, 0xFF, 0x43, 0xED, 0x44, 0xC0, 0xC0, 0xC0, 0xF6, 0xFF, 0x43, 0xEC,
     0x44, 0xC0, 0xC0, 0xC0, 0xC8, 0xFF, 0x41, 0x23, 0x94, 0xD0, 0x43, 0xEE, 0x44, 0xD2, 0x43, 0xEF,
     0x44, 0x20, 0x5A, 0x70, 0x60, 0x71, 0x61, 0x78, 0x68, 0x02, 0x7A, 0xF3, 0x43, 0xC7, 0xFE, 0x41,
     0xEB, 0x45, 0x5A, 0x21, 0xDF, 0x46, 0x46, 0x46, 0x46, 0xEC, 0x44, 0xC0, 0xC0, 0xC0, 0xC8, 0xFF,
     0x43, 0x55, 0xED, 0x45, 0xEC, 0x51, 0xF4, 0x41, 0x23, 0x88, 0xEA, 0x45, 0xF5, 0x41, 0x23, 0x88,
     0xE9, 0x45, 0x1D, 0x41, 0x43, 0x58, 0xEA, 0x21, 0x99, 0xE9, 0x50, 0x46, 0xEB, 0x44, 0xA9, 0x02,
     0xEB, 0x59, 0x43, 0xCA, 0xFE, 0x41, 0x5C, 0xA8, 0x03, 0xC0, 0x5A, 0xEB, 0x45, 0xEB, 0x41, 0xF2,
     0x45, 0xF6, 0x41, 0x23, 0x88, 0xEA, 0x45, 0xF7, 0x41, 0x23, 0x88, 0xE9, 0x45, 0x1F, 0x41, 0x43,
     0x58, 0xEA, 0x21, 0x99, 0xE9, 0x50, 0x46, 0xEB, 0x44, 0xA9, 0x02, 0xEB, 0x59, 0x43, 0xCA, 0xFE,
     0x41, 0x5C, 0xA8, 0x03, 0xC0, 0x5A, 0xEB, 0x45, 0xEB, 0x41, 0xF3, 0x45, 0x02, 0xFF, 0xFF, 0xFF,
     0x47, 0x47, 0x47, 0x47, 0x47, 0x47, 0x47, 0x47, 0x7C, 0x7D, 0x45, 0x41, 0x02, 0x47, 0x47, 0x47,
     0x47, 0x47, 0x47, 0x47, 0xF0, 0x7C, 0x6D, 0x45, 0x41, 0x6C, 0x7D, 0x45, 0x41, 0x02, 0x47, 0x47,
     0x47, 0x47, 0x47, 0x47, 0x47, 0xF0, 0x6C, 0x7D, 0x45, 0x41, 0x02, 0x47, 0x47, 0x47, 0x47, 0x47,
     0x47, 0x47, 0xF0, 0x7C, 0x6D, 0x45, 0x41, 0x45, 0x41, 0x02, 0x47, 0x47, 0x47, 0x47, 0x47, 0x47,
     0x47, 0xF0, 0x7C, 0x6D, 0x45, 0x41, 0x02, 0x47, 0x47, 0x47, 0x47, 0x47, 0x47, 0x47, 0x02, 0x4F,
     0x4F, 0x4F, 0x4F, 0x4F, 0x4F, 0x4F, 0x4F, 0x4F, 0x4F, 0x4F, 0x4F, 0x4F, 0x4F, 0x4F, 0x4F, 0x4F,
     0x4F, 0x4F, 0x4F, 0x4F, 0x4F, 0x4F, 0x4F, 0x4F, 0x4F, 0x4F, 0x4F, 0x4F, 0x4F, 0x4F, 0x4F, 0x4F,
     0x4F, 0x4F, 0x4F, 0x4F, 0x4F, 0x4F, 0x4F, 0x4F, 0x4F, 0x4F, 0x4F, 0x4F, 0x4F, 0x4F, 0x4F, 0x02,
     0x4E, 0x4E, 0x4E, 0x4E, 0x4E, 0x4E, 0x4E, 0x4E, 0x4E, 0x4E, 0x4E, 0x4E, 0x4E, 0x4E, 0x4E, 0x4E,
     0x4E, 0x4E, 0x4E, 0x4E, 0x4E, 0x4E, 0x4E, 0x4E, 0x4E, 0x4E, 0x4E, 0x4E, 0x4E, 0x4E, 0x4E, 0x4E,
     0x4E, 0x4E, 0x4E, 0x4E, 0x4E, 0x4E, 0x4E, 0x4E, 0x4E, 0x4E, 0x4E, 0x4E, 0x4E, 0x4E, 0x4E, 0x4E,
     0x02, 0x56, 0x56, 0x56, 0x56, 0x56, 0x56, 0x56, 0x56, 0x56, 0x56, 0x56, 0x56, 0x56, 0x56, 0x56,
     0x56, 0x56, 0x56, 0x56, 0x56, 0x56, 0x56, 0x56, 0x56, 0x56, 0x56, 0x56, 0x56, 0x56, 0x56, 0x56,
     0x56, 0x56, 0x56, 0x56, 0x56, 0x56, 0x56, 0x56, 0x56, 0x56, 0x56, 0x56, 0x56, 0x56, 0x56, 0x56,
     0x56, 0x02, 0x5E, 0x5E, 0x5E, 0x5E, 0x5E, 0x5E, 0x5E, 0x5E, 0x5E, 0x5E, 0x5E, 0x5E, 0x5E, 0x5E,
     0x5E, 0x5E, 0x5E, 0x5E, 0x5E, 0x5E, 0x5E, 0x5E, 0x5E, 0x5E, 0x5E, 0x5E, 0x5E, 0x5E, 0x5E, 0x5E,
     0x5E, 0x5E, 0x5E, 0x5E, 0x5E, 0x5E, 0x5E, 0x5E, 0x5E, 0x5E, 0x5E, 0x5E, 0x5E, 0x5E, 0x5E, 0x5E,
     0x5E, 0x5E, 0x5E, 0x02, 0x6A, 0xFD, 0x43, 0x40, 0x4F, 0x4F, 0x4F, 0xEB, 0x45, 0x7A, 0xF9, 0x41,
     0x43, 0x58, 0xEB, 0x21, 0x99, 0xEA, 0x44, 0xC0, 0xC0, 0xC0, 0xF1, 0xFF, 0x43, 0xEC, 0x44, 0xC0,
     0xC0, 0xC0, 0xC8, 0xFF, 0x41, 0xED, 0x45, 0xC0, 0x41, 0xC0, 0xC0, 0xC0, 0xF8, 0xFF, 0x43, 0xE9,
     0x44, 0x6A, 0x1D, 0x43, 0xAB, 0x01, 0xEA, 0x58, 0x8E, 0x03, 0xEC, 0x53, 0x1D, 0x50, 0x1F, 0x44,
     0xEC, 0x53, 0xED, 0x53, 0xE9, 0x43, 0xEC, 0x58, 0xAC, 0xE6, 0x8E, 0x26, 0xC0, 0xC0, 0xC0, 0xF9,
     0xFF, 0x43, 0xEC, 0x44, 0xC0, 0xC0, 0xC0, 0xC8, 0xFF, 0x43, 0xED, 0x44, 0xC0, 0x41, 0xC0, 0xC0,
     0xC0, 0xFC, 0xFF, 0x43, 0xE9, 0x44, 0x1D, 0x43, 0x1F, 0x59, 0xE9, 0x43, 0xED, 0x53, 0xEC, 0x53,
     0x58, 0xAC, 0xF2, 0x7A, 0xC0, 0xC0, 0xC0, 0xC9, 0xFF, 0x43, 0xEC, 0x44, 0xE7, 0x44, 0xE8, 0x44,
     0xC0, 0xC0, 0xC0, 0xC8, 0xFF, 0x43, 0xED, 0x44, 0x1F, 0x43, 0x4E, 0x4E, 0x4E, 0x44, 0xC0, 0xC0,
     0xC0, 0xCF, 0xFF, 0x43, 0xE9, 0x44, 0x8E, 0x07, 0xC0, 0xC0, 0xC0, 0xCB, 0xFF, 0x43, 0xE9, 0x44,
     0x40, 0x5D, 0x1D, 0x43, 0x1F, 0x21, 0xCA, 0xE8, 0x43, 0xEC, 0x44, 0x1D, 0x45, 0xF8, 0x43, 0xAB,
     0x0C, 0xC0, 0x41, 0xED, 0x53, 0x53, 0x1F, 0x43, 0x4E, 0x4E, 0x4E, 0x44, 0xE7, 0x53, 0xC0, 0x41,
     0xE8, 0x53, 0xE7, 0x53, 0x41, 0xEC, 0x45, 0xE9, 0x43, 0x5C, 0xAC, 0xD3, 0xC0, 0xC0, 0xC0, 0xCF,
     0xFF, 0x43, 0xE9, 0x44, 0xE8, 0x41, 0xE9, 0x43, 0x5C, 0xA8, 0x0C, 0xC0, 0x41, 0xE8, 0x43, 0x53,
     0xEC, 0x44, 0x1D, 0x44, 0x59, 0x43, 0xAB, 0xEB, 0xC8, 0x43, 0x46, 0x46, 0x46, 0x44, 0x7A, 0x8A,
     0x1B, 0xC0, 0x43, 0x40, 0x5D, 0x5D, 0x90, 0x15, 0xC8, 0x45, 0xC9, 0x45, 0xF8, 0x43, 0xAA, 0x0B,
     0xCA, 0x45, 0xCB, 0x45, 0xCC, 0x45, 0xCD, 0x45, 0xCE, 0x45, 0xCF, 0x45, 0x00, 0x02, 0xC0, 0x43,
     0x4E, 0x4E, 0xEA, 0x44, 0xE9, 0x44, 0x8E, 0x06, 0xC0, 0x43, 0x4E, 0xEA, 0x44, 0xE9, 0x44, 0xF8,
     0x43, 0xAB, 0x13, 0xC0, 0x43, 0x4E, 0xEA, 0x44, 0x4E, 0x50, 0xE9, 0x44, 0x8E, 0x08, 0xC0, 0x43,
     0xEA, 0x44, 0x4E, 0x4E, 0x50, 0xE9, 0x44, 0xC0, 0xC0, 0xC0, 0xC8, 0xFF, 0x43, 0x4E, 0x4E, 0xE9,
     0x51, 0x91, 0x01, 0x23, 0x5A, 0xEA, 0x43, 0xE9, 0x51, 0x92, 0x01, 0x23, 0x5A, 0xEA, 0x43, 0xE9,
     0x51, 0x93, 0x01, 0x23, 0x5A, 0xEA, 0x43, 0xE9, 0x51, 0x94, 0x01, 0x23, 0x5A, 0xEA, 0x43, 0xE9,
     0x51, 0x95, 0x01, 0x23, 0x5A, 0xEA, 0x43, 0xE9, 0x51, 0x96, 0x01, 0x23, 0x5A, 0xEA, 0x43, 0xE9,
     0x51, 0x97, 0x01, 0x23, 0x5A, 0xEA, 0x43, 0xE9, 0x51, 0x02, 0xE9, 0x43, 0x46, 0x46, 0xEC, 0x44,
     0x1D, 0x45, 0x02, 0x7A, 0xFA, 0x41, 0x4F, 0x4F, 0x4F, 0xE7, 0x45, 0x5A, 0xFB, 0x43, 0xE7, 0x75,
     0x21, 0xCA, 0x65, 0xD0, 0x45, 0x5A, 0xFC, 0x43, 0xE7, 0x21, 0xCA, 0xD1, 0x45, 0x5A, 0xFD, 0x43,
     0xE7, 0x21, 0xCA, 0xD2, 0x45, 0x79, 0x69, 0x02, 0xD7, 0xFE, 0x43, 0xE7, 0x45, 0x5D, 0xAD, 0x01,
     0x5D, 0x45, 0x41, 0x02, 0x1F, 0x43, 0x1D, 0x44, 0xC0, 0x43, 0xEC, 0x51, 0xED, 0x51, 0x5D, 0xAA,
     0xF2, 0x02, 0xFF, 0xFF, 0xFF, 0xFF, 0xFF, 0xFF, 0xFF, 0xFF, 0xFF, 0xFF, 0xFF, 0xFF, 0xFF, 0xFF]"

lemma length_SRAM_DATA [simp]: "length SRAM_DATA = 944"
  by (simp add: SRAM_DATA_def)

end
