(* ===== verification/Picocap.thy ===== *)
theory Picocap
  imports PicocapData InFlash
begin

text \<open>
  \<open>BSP/Src/Picocap.c\<close> with the transfer functions of \<open>BSP/Src/spi_bsp.c\<close>: the driver of the
  PCap capacitance converter, and \<open>Sensor_PCap_GetResult\<close> of \<open>APP/Src/Picocap_app.c\<close>.  The
  chip and ST's SPI driver are a parameter, the record \<open>hal_spi\<close> of operations on an
  environment state \<open>'c\<close>: setting the chip-select pin, sending bytes, exchanging bytes.  The
  receive arrays of the code are uninitialised, so the exchange delivers what the array
  holds afterwards, which a failed exchange leaves open.  Locale \<open>pcap_chip\<close> holds the laws of
  the chip's data sheet for a bus on which reading works, \<open>reliable_pcap\<close> adds that every
  write arrives.  \<open>HAL_Delay\<close> and the configuration of the pins and of the SPI peripheral do
  not appear.
\<close>

section \<open>The SPI port\<close>

record 'c hal_spi =
  hNSS :: "bool \<Rightarrow> 'c \<Rightarrow> 'c"
  hTransmit :: "u8 list \<Rightarrow> 'c \<Rightarrow> HAL_StatusTypeDef \<times> 'c"
  hTransmitReceive :: "u8 list \<Rightarrow> 'c \<Rightarrow> HAL_StatusTypeDef \<times> (nat \<Rightarrow> u8) \<times> 'c"

definition BSP_SPI_Transmit :: "'c hal_spi \<Rightarrow> u8 list \<Rightarrow> 'c \<Rightarrow> u8 \<times> 'c" where
  "BSP_SPI_Transmit S pData c =
     (let (st, c) = hTransmit S pData c in
      if st \<noteq> HAL_OK then (OP_FAILED, c) else (OP_SUCCESS, c))"

definition BSP_SPI_TransmitReceive :: "'c hal_spi \<Rightarrow> u8 list \<Rightarrow> 'c \<Rightarrow> u8 \<times> (nat \<Rightarrow> u8) \<times> 'c" where
  "BSP_SPI_TransmitReceive S TxData c =
     (let (st, RxData, c) = hTransmitReceive S TxData c in
      if st \<noteq> HAL_OK then (OP_FAILED, RxData, c) else (OP_SUCCESS, RxData, c))"

definition PCAP_SPI_ENABLE :: "'c hal_spi \<Rightarrow> 'c \<Rightarrow> 'c" where
  "PCAP_SPI_ENABLE S = hNSS S False"

definition PCAP_SPI_DISABLE :: "'c hal_spi \<Rightarrow> 'c \<Rightarrow> 'c" where
  "PCAP_SPI_DISABLE S = hNSS S True"

section \<open>Commands\<close>

definition PCap_NSS_Config :: "'c hal_spi \<Rightarrow> 'c \<Rightarrow> 'c" where
  "PCap_NSS_Config S c = hNSS S True c"

definition PCap_Reset :: "'c hal_spi \<Rightarrow> 'c \<Rightarrow> 'c" where
  "PCap_Reset S c =
     (let c = PCAP_SPI_ENABLE S c;
          (_, c) = BSP_SPI_Transmit S [0x88] c
      in PCAP_SPI_DISABLE S c)"

definition PCap_PTL_Reset :: "'c hal_spi \<Rightarrow> 'c \<Rightarrow> 'c" where
  "PCap_PTL_Reset S c =
     (let c = PCAP_SPI_ENABLE S c;
          (_, c) = BSP_SPI_Transmit S [0x8A] c
      in PCAP_SPI_DISABLE S c)"

definition PCap_Measure :: "'c hal_spi \<Rightarrow> 'c \<Rightarrow> 'c" where
  "PCap_Measure S c =
     (let c = PCAP_SPI_ENABLE S c;
          (_, c) = BSP_SPI_Transmit S [0x8C] c
      in PCAP_SPI_DISABLE S c)"

definition PCap_Enable :: "'c hal_spi \<Rightarrow> 'c \<Rightarrow> 'c" where
  "PCap_Enable S c =
     (let c = PCAP_SPI_ENABLE S c;
          (_, c) = BSP_SPI_Transmit S [0xC0 OR 20, 0, 0, 0x01] c
      in PCAP_SPI_DISABLE S c)"

definition PCap_Disable :: "'c hal_spi \<Rightarrow> 'c \<Rightarrow> 'c" where
  "PCap_Disable S c =
     (let c = PCAP_SPI_ENABLE S c;
          (_, c) = BSP_SPI_Transmit S [0xC0 OR 20, 0, 0, 0x00] c
      in PCAP_SPI_DISABLE S c)"

section \<open>Writing the firmware\<close>

text \<open>One pass of the inner loop: the byte \<open>d\<close> is written to address \<open>pCnt\<close> and read back.\<close>

definition write_and_read :: "'c hal_spi \<Rightarrow> u16 \<Rightarrow> u8 \<Rightarrow> 'c \<Rightarrow> (nat \<Rightarrow> u8) \<times> 'c" where
  "write_and_read S pCnt d c =
     (let c = PCAP_SPI_ENABLE S c;
          (_, c) = BSP_SPI_Transmit S [hi8 (0x9000 OR pCnt), lo8 (0x9000 OR pCnt), d] c;
          c = PCAP_SPI_DISABLE S c;
          c = PCAP_SPI_ENABLE S c;
          (_, receive, c) = BSP_SPI_TransmitReceive S [hi8 (0x1000 OR pCnt), lo8 (0x1000 OR pCnt), 0] c
      in (receive, PCAP_SPI_DISABLE S c))"

text \<open>The retry counter is a byte that the loop compares after incrementing it, so it cannot
  wrap around more than once; \<open>retry_measure\<close> also serves the counter of \<open>PCap_Init\<close>.\<close>

lemma retry_measure:
  assumes "(n :: u8) + 1 \<le> 10"
  shows "unat (9 - n) < unat (10 - n)"
proof -
  have "10 - n \<noteq> 0 \<or> n = 10" by auto
  moreover have "n \<noteq> 10" using assms by auto
  ultimately have "10 - n \<noteq> 0" by simp
  then have "unat ((10 - n) - 1) < unat (10 - n)"
    by (metis unat_minus_one diff_less unat_gt_0 word_gt_0 zero_less_one)
  then show ?thesis by (simp add: algebra_simps)
qed

function wr_byte :: "'c hal_spi \<Rightarrow> u16 \<Rightarrow> u8 \<Rightarrow> u8 \<Rightarrow> 'c \<Rightarrow> u8 \<times> 'c" where
  "wr_byte S pCnt d errcnt c =
     (let (receive, c') = write_and_read S pCnt d c in
      if 10 < errcnt + 1 then (OP_FAILED, c')
      else if d \<noteq> receive 2 then wr_byte S pCnt d (errcnt + 1) c'
      else (OP_SUCCESS, c'))"
  by auto
termination
  by (relation "measure (\<lambda>(S, pCnt, d, errcnt, c). unat (10 - errcnt))")
     (auto intro: retry_measure simp: not_less)

declare wr_byte.simps [simp del]

fun wr_bytes :: "'c hal_spi \<Rightarrow> u16 \<Rightarrow> u8 list \<Rightarrow> 'c \<Rightarrow> u8 \<times> 'c" where
  "wr_bytes S pCnt [] c = (OP_SUCCESS, c)"
| "wr_bytes S pCnt (d # ds) c =
     (let (r, c) = wr_byte S pCnt d 0 c in
      if r = OP_FAILED then (OP_FAILED, c) else wr_bytes S (pCnt + 1) ds c)"

definition PCap_WR_SRAM :: "'c hal_spi \<Rightarrow> 'c \<Rightarrow> u8 \<times> 'c" where
  "PCap_WR_SRAM S c = wr_bytes S 0 SRAM_DATA c"

section \<open>Configuration and initialisation\<close>

fun reg_loop :: "'c hal_spi \<Rightarrow> u8 \<Rightarrow> u32 list \<Rightarrow> 'c \<Rightarrow> 'c" where
  "reg_loop S rCnt [] c = c"
| "reg_loop S rCnt (v # vs) c =
     (let c = PCAP_SPI_ENABLE S c;
          (_, c) = BSP_SPI_Transmit S [0xC0 OR rCnt, byte_of 2 v, byte_of 1 v, byte_of 0 v] c;
          c = PCAP_SPI_DISABLE S c
      in reg_loop S (rCnt + 1) vs c)"

definition PCap_Reg_Config :: "'c hal_spi \<Rightarrow> 'c \<Rightarrow> 'c" where
  "PCap_Reg_Config S c = reg_loop S 0 REG c"

function load_firmware :: "'c hal_spi \<Rightarrow> u8 \<Rightarrow> 'c \<Rightarrow> 'c" where
  "load_firmware S WrSramCnt c =
     (let (WrSramErr, c') = PCap_WR_SRAM S c in
      if OP_SUCCESS = WrSramErr then c'
      else if 10 > WrSramCnt + 1 then load_firmware S (WrSramCnt + 1) (PCap_Reset S c')
      else PCap_Reset S c')"
  by auto
termination
  by (relation "measure (\<lambda>(S, n, c). unat (10 - n))") (auto intro: retry_measure less_imp_le)

declare load_firmware.simps [simp del]

definition PCap_Init :: "'c hal_spi \<Rightarrow> 'c \<Rightarrow> 'c" where
  "PCap_Init S c =
     (let c = PCap_NSS_Config S c;
          c = PCap_Reset S c;
          c = load_firmware S 0 c;
          c = PCap_Reg_Config S c;
          c = PCap_Enable S c;
          c = PCap_PTL_Reset S c
      in PCap_Measure S c)"

section \<open>Reading results\<close>

definition PCap_Res_Sta :: "'c hal_spi \<Rightarrow> 'c \<Rightarrow> u32 \<times> 'c" where
  "PCap_Res_Sta S c =
     (let c = PCAP_SPI_ENABLE S c;
          (_, receive, c) = BSP_SPI_TransmitReceive S [0x40 OR 8, 0, 0, 0] c;
          c = PCAP_SPI_DISABLE S c
      in (push_bit 16 (ucast (receive 1)) OR push_bit 8 (ucast (receive 2)) OR ucast (receive 3), c))"

definition PCap_Res_Data :: "'c hal_spi \<Rightarrow> u8 \<Rightarrow> 'c \<Rightarrow> u32 \<times> 'c" where
  "PCap_Res_Data S reg_addr c =
     (let c = PCAP_SPI_ENABLE S c;
          (_, receive, c) = BSP_SPI_TransmitReceive S [0x40 OR reg_addr, 0, 0, 0] c;
          c = PCAP_SPI_DISABLE S c
      in (push_bit 16 (ucast (receive 1)) OR push_bit 8 (ucast (receive 2)) OR ucast (receive 3), c))"

definition PCap_Res_Temperature :: "'c hal_spi \<Rightarrow> 'c \<Rightarrow> u32 \<times> 'c" where
  "PCap_Res_Temperature S c =
     (let c = PCAP_SPI_ENABLE S c;
          (_, receive, c) = BSP_SPI_TransmitReceive S [0x40 OR 13, 0, 0, 0] c;
          c = PCAP_SPI_DISABLE S c
      in (push_bit 16 (ucast (receive 1)) OR push_bit 8 (ucast (receive 2)) OR ucast (receive 3), c))"

text \<open>\<open>PCap_Result\<close> is the caller's variable before and after the call.\<close>

definition Sensor_PCap_GetResult :: "'c hal_spi \<Rightarrow> u8 \<Rightarrow> u32 \<Rightarrow> 'c \<Rightarrow> u8 \<times> u32 \<times> 'c" where
  "Sensor_PCap_GetResult S reg_addr PCap_Result c =
     (let (PCap_Status, c) = PCap_Res_Sta S c;
          (Result, PCap_Result, c) =
            (if PCap_Status AND push_bit 20 1 \<noteq> 0
             then (let (v, c) = PCap_Res_Data S reg_addr c in (OP_SUCCESS, v, c))
             else (OP_FAILED, PCap_Result, c));
          c = PCap_Measure S c
      in (Result, PCap_Result, c))"

end
