(* ===== verification/PicocapChip.thy ===== *)
theory PicocapChip
  imports Picocap
begin

text \<open>
  What the driver of the capacitance converter achieves.  The locales state the laws of the
  chip that the driver relies on; the chip model \<open>sim_pcap\<close>, a device with the command set of
  the data sheet whose firmware writes the environment can lose, satisfies both.
\<close>

section \<open>Transactions\<close>

text \<open>A transaction frames the transfer with the chip-select pin.\<close>

definition xmit :: "'c hal_spi \<Rightarrow> u8 list \<Rightarrow> 'c \<Rightarrow> 'c" where
  "xmit S bs c = hNSS S True (snd (hTransmit S bs (hNSS S False c)))"

definition xchg :: "'c hal_spi \<Rightarrow> u8 list \<Rightarrow> 'c \<Rightarrow> (nat \<Rightarrow> u8) \<times> 'c" where
  "xchg S bs c =
     (let (_, rx, c) = hTransmitReceive S bs (hNSS S False c) in (rx, hNSS S True c))"

abbreviation sram_write :: "nat \<Rightarrow> u8 \<Rightarrow> u8 list" where
  "sram_write a d \<equiv> [hi8 (0x9000 OR of_nat a), lo8 (0x9000 OR of_nat a), d]"

abbreviation sram_read :: "nat \<Rightarrow> u8 list" where
  "sram_read a \<equiv> [hi8 (0x1000 OR of_nat a), lo8 (0x1000 OR of_nat a), 0]"

named_theorems pcap_defs \<open>the driver's functions as transactions\<close>

lemma transmit_snd: "snd (BSP_SPI_Transmit S bs c) = snd (hTransmit S bs c)"
  by (simp add: BSP_SPI_Transmit_def split: prod.splits)

lemma transmit_xmit:
  "(case BSP_SPI_Transmit S bs (PCAP_SPI_ENABLE S c) of (_, c) \<Rightarrow> g (PCAP_SPI_DISABLE S c))
     = g (xmit S bs c)"
  by (simp add: xmit_def PCAP_SPI_ENABLE_def PCAP_SPI_DISABLE_def transmit_snd split_beta)

lemma receive_xchg:
  "(case BSP_SPI_TransmitReceive S bs (PCAP_SPI_ENABLE S c) of (_, rx, c) \<Rightarrow> g rx (PCAP_SPI_DISABLE S c))
     = (case xchg S bs c of (rx, c) \<Rightarrow> g rx c)"
  by (simp add: xchg_def BSP_SPI_TransmitReceive_def PCAP_SPI_ENABLE_def PCAP_SPI_DISABLE_def split_beta)

lemma PCap_commands [pcap_defs]:
  "PCap_Reset S = xmit S [0x88]" "PCap_PTL_Reset S = xmit S [0x8A]" "PCap_Measure S = xmit S [0x8C]"
  "PCap_Enable S = xmit S [0xC0 OR 20, 0, 0, 1]" "PCap_Disable S = xmit S [0xC0 OR 20, 0, 0, 0]"
  by (rule ext, simp add: PCap_Reset_def PCap_PTL_Reset_def PCap_Measure_def PCap_Enable_def
      PCap_Disable_def Let_def transmit_xmit [where g = "\<lambda>c. c"])+

lemma write_and_read_xfer [pcap_defs]:
  "write_and_read S (of_nat a) d c = xchg S (sram_read a) (xmit S (sram_write a d) c)"
  unfolding write_and_read_def Let_def
  by (simp add: receive_xchg [where g = Pair] transmit_xmit [where g = "xchg S (sram_read a)"])

lemma reg_loop_xmit [pcap_defs]:
  "reg_loop S rCnt (v # vs) c
     = reg_loop S (rCnt + 1) vs (xmit S [0xC0 OR rCnt, byte_of 2 v, byte_of 1 v, byte_of 0 v] c)"
  unfolding reg_loop.simps Let_def by (rule transmit_xmit)

definition word24 :: "(nat \<Rightarrow> u8) \<Rightarrow> u32" where
  "word24 rx = be32 0 (rx 1) (rx 2) (rx 3)"

lemma word24_or: "push_bit 16 (ucast (rx 1)) OR push_bit 8 (ucast (rx 2)) OR ucast (rx 3) = word24 rx"
  by (simp add: word24_def be32_def or.assoc)

lemma PCap_results [pcap_defs]:
  "PCap_Res_Sta S c = map_prod word24 id (xchg S [0x40 OR 8, 0, 0, 0] c)"
  "PCap_Res_Data S r c = map_prod word24 id (xchg S [0x40 OR r, 0, 0, 0] c)"
  "PCap_Res_Temperature S c = map_prod word24 id (xchg S [0x40 OR 13, 0, 0, 0] c)"
  unfolding PCap_Res_Sta_def PCap_Res_Data_def PCap_Res_Temperature_def Let_def word24_or
  by (simp_all only: receive_xchg [where g = "\<lambda>rx c. (word24 rx, c)"])
     (simp_all add: split_beta map_prod_def)

section \<open>A chip whose memory can be read\<close>

text \<open>Writes may fail, but they touch nothing else, and reading back is truthful.\<close>

locale pcap_chip =
  fixes S :: "'c hal_spi" and sram :: "'c \<Rightarrow> nat \<Rightarrow> u8"
  assumes write_elsewhere: "a < 0x1000 \<Longrightarrow> x \<noteq> a \<Longrightarrow> sram (xmit S (sram_write a d) c) x = sram c x"
    and read_keeps: "a < 0x1000 \<Longrightarrow> sram (snd (xchg S (sram_read a) c)) = sram c"
    and read_back: "a < 0x1000 \<Longrightarrow> fst (xchg S (sram_read a) c) 2 = sram c a"
begin

lemma write_and_read_effect:
  assumes "write_and_read S (of_nat a) d c = (rx, c')" "a < 0x1000"
  shows "rx 2 = sram c' a" and "x \<noteq> a \<Longrightarrow> sram c' x = sram c x"
  using assms read_keeps [of a] read_back [of a] write_elsewhere [of a]
  by (auto simp: pcap_defs prod_eq_iff)

lemma wr_byte_ok:
  assumes "wr_byte S (of_nat a) d errcnt c = (r, c')" and a: "a < 0x1000"
  shows "(\<forall>x. x \<noteq> a \<longrightarrow> sram c' x = sram c x) \<and> (r \<noteq> OP_FAILED \<longrightarrow> r = OP_SUCCESS \<and> sram c' a = d)"
  using assms(1)
proof (induction "unat (10 - errcnt)" arbitrary: errcnt c rule: less_induct)
  case less
  obtain rx c1 where w: "write_and_read S (of_nat a) d c = (rx, c1)"
    by (meson surj_pair)
  note eff = write_and_read_effect [OF w a]
  from less.prems w consider
      "r = OP_FAILED" "c' = c1"
    | "errcnt + 1 \<le> 10" "d \<noteq> rx 2" "wr_byte S (of_nat a) d (errcnt + 1) c1 = (r, c')"
    | "d = rx 2" "r = OP_SUCCESS" "c' = c1"
    by (auto simp: wr_byte.simps [of S "of_nat a" d errcnt] split: if_splits)
  then show ?case
  proof cases
    case 2
    then show ?thesis
      using less.hyps [of "errcnt + 1" c1] retry_measure [of errcnt] eff by simp
  qed (use eff in auto)
qed

lemma wr_bytes_ok:
  assumes "wr_bytes S (of_nat a) ds c = (OP_SUCCESS, c')" and "a + length ds \<le> 0x1000"
  shows "(\<forall>i < length ds. sram c' (a + i) = ds ! i) \<and> (\<forall>x < a. sram c' x = sram c x)"
  using assms
proof (induction ds arbitrary: a c)
  case (Cons d ds)
  obtain r c1 where b: "wr_byte S (of_nat a) d 0 c = (r, c1)"
    by (meson surj_pair)
  have "r \<noteq> OP_FAILED" and rest: "wr_bytes S (of_nat (Suc a)) ds c1 = (OP_SUCCESS, c')"
    using Cons.prems(1) b by (auto simp: ac_simps split: if_splits)
  then have IH: "\<And>i. i < length ds \<Longrightarrow> sram c' (Suc a + i) = ds ! i"
      "\<And>x. x < Suc a \<Longrightarrow> sram c' x = sram c1 x"
    using Cons.IH [of "Suc a" c1] Cons.prems(2) by simp_all
  have one: "sram c1 a = d" "\<And>x. x \<noteq> a \<Longrightarrow> sram c1 x = sram c x"
    using wr_byte_ok [OF b] \<open>r \<noteq> OP_FAILED\<close> Cons.prems(2) by auto
  show ?case
  proof (intro conjI allI impI)
    fix i assume "i < length (d # ds)"
    then show "sram c' (a + i) = (d # ds) ! i"
      using IH(1) [of "i - 1"] IH(2) [of a] one(1) by (cases i) simp_all
  qed (use IH(2) one(2) in simp)
qed simp

lemma WR_SRAM_ok:
  assumes "PCap_WR_SRAM S c = (OP_SUCCESS, c')" and "i < 944"
  shows "sram c' i = SRAM_DATA ! i"
  using wr_bytes_ok [of 0 SRAM_DATA c c'] assms by (simp add: PCap_WR_SRAM_def)

end

section \<open>A bus that loses nothing\<close>

text \<open>\<open>conf\<close> are the configuration registers, \<open>result\<close> the result registers, the status
  register at 8 among them, and \<open>good\<close> says that the bus works from now on.\<close>

locale reliable_pcap = pcap_chip +
  fixes conf :: "'c \<Rightarrow> nat \<Rightarrow> u32" and result :: "'c \<Rightarrow> nat \<Rightarrow> u32" and good :: "'c \<Rightarrow> bool"
  assumes xmit_good: "good c \<Longrightarrow> good (xmit S bs c)"
    and xchg_good: "good c \<Longrightarrow> good (snd (xchg S bs c))"
    and nss_good: "good c \<Longrightarrow> good (hNSS S level c)"
    and write_arrives: "good c \<Longrightarrow> a < 0x1000 \<Longrightarrow> sram (xmit S (sram_write a d) c) a = d"
    and conf_write: "good c \<Longrightarrow> k < 64 \<Longrightarrow>
          conf (xmit S [0xC0 OR of_nat k, b2, b1, b0] c) = (conf c)(k := be32 0 b2 b1 b0)"
    and conf_write_sram: "k < 64 \<Longrightarrow> sram (xmit S [0xC0 OR of_nat k, b2, b1, b0] c) = sram c"
    and command_keeps: "cmd = 0x8A \<or> cmd = 0x8C \<Longrightarrow> sram (xmit S [cmd] c) = sram c"
          "cmd = 0x8A \<or> cmd = 0x8C \<Longrightarrow> conf (xmit S [cmd] c) = conf c"
    and result_read: "good c \<Longrightarrow> k < 64 \<Longrightarrow>
          word24 (fst (xchg S [0x40 OR of_nat k, 0, 0, 0] c)) = result c k"
    and result_keeps: "k < 64 \<Longrightarrow> sram (snd (xchg S [0x40 OR of_nat k, 0, 0, 0] c)) = sram c"
          "k < 64 \<Longrightarrow> conf (snd (xchg S [0x40 OR of_nat k, 0, 0, 0] c)) = conf c"
          "k < 64 \<Longrightarrow> result (snd (xchg S [0x40 OR of_nat k, 0, 0, 0] c)) = result c"
    and run_status: "result c 8 AND push_bit 20 1 \<noteq> 0 \<longleftrightarrow> bit (conf c 20) 0"
begin

lemma wr_byte_succeeds:
  assumes "good c" "a < 0x1000"
  shows "fst (wr_byte S (of_nat a) d 0 c) = OP_SUCCESS \<and> good (snd (wr_byte S (of_nat a) d 0 c))"
proof -
  obtain rx c1 where w: "write_and_read S (of_nat a) d c = (rx, c1)"
    by (meson surj_pair)
  then have "good c1" "rx 2 = d"
    using assms xchg_good xmit_good read_back [of a "xmit S (sram_write a d) c"]
      write_arrives [of c a d] by (auto simp: pcap_defs prod_eq_iff)
  then show ?thesis
    using w by (simp add: wr_byte.simps [of S "of_nat a" d 0])
qed

lemma wr_bytes_succeeds:
  "good c \<Longrightarrow> a + length ds \<le> 0x1000 \<Longrightarrow>
     fst (wr_bytes S (of_nat a) ds c) = OP_SUCCESS \<and> good (snd (wr_bytes S (of_nat a) ds c))"
proof (induction ds arbitrary: a c)
  case (Cons d ds)
  then show ?case
    using wr_byte_succeeds [of c a d] Cons.IH [of "snd (wr_byte S (of_nat a) d 0 c)" "Suc a"]
    by (simp add: split_beta ac_simps)
qed simp

lemma WR_SRAM_succeeds:
  assumes "good c"
  obtains c' where "PCap_WR_SRAM S c = (OP_SUCCESS, c')" "good c'"
  using wr_bytes_succeeds [OF assms, of 0 SRAM_DATA] by (auto simp: PCap_WR_SRAM_def prod_eq_iff)

lemma load_firmware_ok:
  assumes "good c"
  obtains c' where "load_firmware S n c = c'" "good c'" "\<forall>i < 944. sram c' i = SRAM_DATA ! i"
proof -
  obtain c' where "PCap_WR_SRAM S c = (OP_SUCCESS, c')" "good c'"
    using WR_SRAM_succeeds [OF assms] .
  with that show ?thesis
    using WR_SRAM_ok by (simp add: load_firmware.simps [of S n])
qed

lemma reg_loop_ok:
  "good c \<Longrightarrow> k + length vs \<le> 64 \<Longrightarrow> \<forall>v \<in> set vs. byte_of 3 v = 0 \<Longrightarrow>
     good (reg_loop S (of_nat k) vs c) \<and> sram (reg_loop S (of_nat k) vs c) = sram c \<and>
     (\<forall>x. conf (reg_loop S (of_nat k) vs c) x = (if k \<le> x \<and> x < k + length vs then vs ! (x - k) else conf c x))"
proof (induction vs arbitrary: k c)
  case (Cons v vs)
  let ?c = "xmit S [0xC0 OR of_nat k, byte_of 2 v, byte_of 1 v, byte_of 0 v] c"
  have v: "be32 0 (byte_of 2 v) (byte_of 1 v) (byte_of 0 v) = v"
    using be32_bytes [of v] Cons.prems(3) by simp
  have "good ?c" "sram ?c = sram c" "conf ?c = (conf c)(k := v)"
    using Cons.prems conf_write [of c k] conf_write_sram [of k] xmit_good v by simp_all
  then show ?case
    using Cons.IH [of ?c "Suc k"] Cons.prems
    by (auto simp: reg_loop_xmit ac_simps nth_Cons' simp del: reg_loop.simps)
qed auto

lemma REG_24: "\<forall>v \<in> set REG. byte_of 3 v = 0"
  by (simp add: REG_values byte_of_def)

lemma Init_ok:
  assumes "good c"
  shows "good (PCap_Init S c)"
    and "i < 944 \<Longrightarrow> sram (PCap_Init S c) i = SRAM_DATA ! i"
    and "k < 20 \<Longrightarrow> conf (PCap_Init S c) k = REG ! k"
    and "conf (PCap_Init S c) 20 = 1"
proof -
  let ?c0 = "xmit S [0x88] (hNSS S True c)"
  obtain c1 where c1: "load_firmware S 0 ?c0 = c1" "good c1" "\<forall>i < 944. sram c1 i = SRAM_DATA ! i"
    using load_firmware_ok [of ?c0] assms xmit_good nss_good by blast
  define c2 where "c2 = reg_loop S 0 REG c1"
  have c2: "good c2" "sram c2 = sram c1" "k < 21 \<Longrightarrow> conf c2 k = REG ! k" for k
    using reg_loop_ok [OF c1(2), of 0 REG] REG_24 by (simp_all add: c2_def)
  define c3 where "c3 = xmit S [0xC0 OR 20, 0, 0, 1] c2"
  have c3: "good c3" "sram c3 = sram c2" "conf c3 = (conf c2)(20 := 1)"
    using conf_write [OF c2(1), of 20 0 0 1] conf_write_sram [of 20 0 0 1 c2] c2 xmit_good
    by (simp_all add: c3_def be32_def)
  have i: "PCap_Init S c = xmit S [0x8C] (xmit S [0x8A] c3)"
    using c1(1) by (simp add: PCap_Init_def pcap_defs PCap_Reg_Config_def PCap_NSS_Config_def c2_def c3_def)
  show "good (PCap_Init S c)" "i < 944 \<Longrightarrow> sram (PCap_Init S c) i = SRAM_DATA ! i"
    "k < 20 \<Longrightarrow> conf (PCap_Init S c) k = REG ! k" "conf (PCap_Init S c) 20 = 1"
    using c1 c2 c3 by (simp_all add: i xmit_good command_keeps)
qed

text \<open>The converter is polled: one status read, a result only while it runs, and in any case
  the next measurement.\<close>

lemma GetResult_ok:
  assumes "good c" "k < 64"
  obtains c' where "good c'" "sram c' = sram c" "conf c' = conf c"
    "Sensor_PCap_GetResult S (of_nat k) v c =
       (if bit (conf c 20) 0 then (OP_SUCCESS, result c k, xmit S [0x8C] c')
        else (OP_FAILED, v, xmit S [0x8C] c'))"
proof -
  let ?st = "[0x40 OR 8, 0, 0, 0] :: u8 list" and ?rd = "[0x40 OR of_nat k, 0, 0, 0] :: u8 list"
  let ?c1 = "snd (xchg S ?st c)"
  have st: "word24 (fst (xchg S ?st c)) = result c 8" "good ?c1" "sram ?c1 = sram c" "conf ?c1 = conf c"
    "result ?c1 = result c"
    using result_read [OF assms(1), of 8] result_keeps [of 8 c] xchg_good [OF assms(1)] by simp_all
  note rd = result_read [OF st(2) assms(2)] result_keeps [OF assms(2), of ?c1] xchg_good [OF st(2), of ?rd]
  show ?thesis
  proof (cases "bit (conf c 20) 0")
    case True
    then have "Sensor_PCap_GetResult S (of_nat k) v c = (OP_SUCCESS, result c k, xmit S [0x8C] (snd (xchg S ?rd ?c1)))"
      using st rd run_status [of c] by (simp add: Sensor_PCap_GetResult_def pcap_defs map_prod_def split_beta)
    with True st rd that [of "snd (xchg S ?rd ?c1)"] show ?thesis by simp
  next
    case False
    then have "Sensor_PCap_GetResult S (of_nat k) v c = (OP_FAILED, v, xmit S [0x8C] ?c1)"
      using st run_status [of c] by (simp add: Sensor_PCap_GetResult_def pcap_defs map_prod_def split_beta)
    with False st that [of ?c1] show ?thesis by simp
  qed
qed

end

section \<open>A chip\<close>

text \<open>\<open>pc_faults\<close> is the environment's choice of the firmware writes that get lost.\<close>

record pchip =
  pc_selected :: bool
  pc_sram :: "nat \<Rightarrow> u8"
  pc_conf :: "nat \<Rightarrow> u32"
  pc_cap :: "nat \<Rightarrow> u32"
  pc_faults :: "bool list"

definition pc_result :: "pchip \<Rightarrow> nat \<Rightarrow> u32" where
  "pc_result c k = (if k = 8 then (if bit (pc_conf c 20) 0 then push_bit 20 1 else 0)
                    else be32 0 (byte_of 2 (pc_cap c k)) (byte_of 1 (pc_cap c k)) (byte_of 0 (pc_cap c k)))"

definition sim_transmit :: "u8 list \<Rightarrow> pchip \<Rightarrow> HAL_StatusTypeDef \<times> pchip" where
  "sim_transmit bs c =
     (if \<not> pc_selected c then (HAL_OK, c)
      else case bs of
        [b] \<Rightarrow> (HAL_OK, if b = 0x88 then c\<lparr>pc_sram := (\<lambda>_. 0), pc_conf := (\<lambda>_. 0)\<rparr> else c)
      | [b0, b1, d] \<Rightarrow>
          if b0 AND 0xF0 \<noteq> 0x90 then (HAL_OK, c)
          else if pc_faults c \<noteq> [] \<and> hd (pc_faults c) then (HAL_TIMEOUT, c\<lparr>pc_faults := tl (pc_faults c)\<rparr>)
          else (HAL_OK, c\<lparr>pc_faults := tl (pc_faults c),
                          pc_sram := (pc_sram c)(unat (be16 (b0 AND 0x0F) b1) := d)\<rparr>)
      | [b0, b1, b2, b3] \<Rightarrow>
          (HAL_OK, if b0 AND 0xC0 = 0xC0
                   then c\<lparr>pc_conf := (pc_conf c)(unat (b0 AND 0x3F) := be32 0 b1 b2 b3)\<rparr> else c)
      | _ \<Rightarrow> (HAL_OK, c))"

definition sim_receive :: "u8 list \<Rightarrow> pchip \<Rightarrow> HAL_StatusTypeDef \<times> (nat \<Rightarrow> u8) \<times> pchip" where
  "sim_receive bs c =
     (HAL_OK,
      (if \<not> pc_selected c then (\<lambda>_. 0xFF)
       else case bs of
         [b0, b1, _] \<Rightarrow> (\<lambda>i. if i = 2 then pc_sram c (unat (be16 (b0 AND 0x0F) b1)) else 0)
       | [b0, _, _, _] \<Rightarrow> (\<lambda>i. if i = 0 then 0 else byte_of (3 - i) (pc_result c (unat (b0 AND 0x3F))))
       | _ \<Rightarrow> (\<lambda>_. 0)),
      c)"

definition sim_pcap :: "pchip hal_spi" where
  "sim_pcap = \<lparr>hNSS = (\<lambda>level c. c\<lparr>pc_selected := \<not> level\<rparr>), hTransmit = sim_transmit,
               hTransmitReceive = sim_receive\<rparr>"

lemma hi_lo_or: "hi8 (v OR w) = hi8 v OR hi8 w" "lo8 (v OR w) = lo8 v OR lo8 w"
  by (rule bit_word_eqI, auto simp: hi8_def lo8_def bit_simps)+

lemma nibble_cases:
  assumes "unat (h :: u8) < 16"
  shows "(0x90 OR h) AND 0xF0 = 0x90" "(0x90 OR h) AND 0x0F = h" "(0x10 OR h) AND 0x0F = h"
proof -
  have "0x0F = (mask 4 :: u8)" by (simp add: mask_eq_exp_minus_1)
  then have *: "h AND 0x0F = h"
    using less_mask_eq [of h 4] assms by (simp add: word_less_nat_alt)
  then have "h AND 0xF0 = h AND (0x0F AND 0xF0)"
    by (metis and.assoc)
  with * show "(0x90 OR h) AND 0xF0 = 0x90" "(0x90 OR h) AND 0x0F = h" "(0x10 OR h) AND 0x0F = h"
    by (simp_all add: bit.conj_disj_distrib2)
qed

lemma sram_opcode:
  assumes "a < 0x1000"
  shows "hi8 (0x9000 OR of_nat a) AND 0xF0 = 0x90"
    "unat (be16 (hi8 (0x9000 OR of_nat a) AND 0x0F) (lo8 (0x9000 OR of_nat a))) = a"
    "unat (be16 (hi8 (0x1000 OR of_nat a) AND 0x0F) (lo8 (0x1000 OR of_nat a))) = a"
proof -
  define w :: u16 where "w = of_nat a"
  have w: "unat w = a"
    using assms by (simp add: w_def unat_of_nat take_bit_nat_eq_self)
  have "be16 (hi8 w) (lo8 w) = w"
    by (rule be16_hi_lo)
  then have wa: "unat (be16 (hi8 w) (lo8 w)) = a"
    using w by simp
  have "unat (hi8 w) < 16"
    using wa assms by (simp add: unat_be16)
  moreover have "hi8 0x9000 = 0x90" "hi8 0x1000 = 0x10" "lo8 0x9000 = 0" "lo8 0x1000 = 0"
    by (simp_all add: hi8_def lo8_def)
  ultimately show "hi8 (0x9000 OR of_nat a) AND 0xF0 = 0x90"
    "unat (be16 (hi8 (0x9000 OR of_nat a) AND 0x0F) (lo8 (0x9000 OR of_nat a))) = a"
    "unat (be16 (hi8 (0x1000 OR of_nat a) AND 0x0F) (lo8 (0x1000 OR of_nat a))) = a"
    using wa by (simp_all add: hi_lo_or nibble_cases flip: w_def)
qed

text \<open>The six-bit address of a register in its opcode.\<close>

lemma register_opcode:
  assumes "k < 64"
  shows "(0xC0 OR of_nat k :: u8) AND 0xC0 = 0xC0" "unat ((0xC0 OR of_nat k :: u8) AND 0x3F) = k"
    "unat ((0x40 OR of_nat k :: u8) AND 0x3F) = k"
proof -
  define w :: u8 where "w = of_nat k"
  have w: "unat w = k"
    using assms by (simp add: w_def unat_of_nat take_bit_nat_eq_self)
  have m: "0x3F = (mask 6 :: u8)" by (simp add: mask_eq_exp_minus_1)
  have *: "w AND 0x3F = w"
    unfolding m by (rule less_mask_eq) (use w assms in \<open>simp add: word_less_nat_alt\<close>)
  then have "w AND 0xC0 = w AND (0x3F AND 0xC0)"
    by (metis and.assoc)
  with * w show "(0xC0 OR of_nat k :: u8) AND 0xC0 = 0xC0" "unat ((0xC0 OR of_nat k :: u8) AND 0x3F) = k"
    "unat ((0x40 OR of_nat k :: u8) AND 0x3F) = k"
    by (simp_all add: bit.conj_disj_distrib2 flip: w_def)
qed

lemma sim_pcap_ops:
  "xmit sim_pcap bs c = (snd (sim_transmit bs (c\<lparr>pc_selected := True\<rparr>)))\<lparr>pc_selected := False\<rparr>"
  "xchg sim_pcap bs c = (fst (snd (sim_receive bs (c\<lparr>pc_selected := True\<rparr>))), c\<lparr>pc_selected := False\<rparr>)"
  "hNSS sim_pcap level c = c\<lparr>pc_selected := \<not> level\<rparr>"
  by (simp_all add: xmit_def xchg_def sim_pcap_def sim_receive_def split_beta)

interpretation sim: pcap_chip sim_pcap pc_sram
  by unfold_locales
     (auto simp: sim_pcap_ops sim_transmit_def sim_receive_def sram_opcode split: if_splits)

definition no_lost_writes :: "pchip \<Rightarrow> bool" where
  "no_lost_writes c \<longleftrightarrow> pc_faults c = []"

interpretation sim: reliable_pcap sim_pcap pc_sram pc_conf pc_result no_lost_writes
proof unfold_locales
  fix c :: pchip and bs
  assume "no_lost_writes c"
  then show "no_lost_writes (xmit sim_pcap bs c)"
    by (auto simp: sim_pcap_ops sim_transmit_def no_lost_writes_def split: list.splits if_splits)
next
  fix c :: pchip and k :: nat
  assume k: "k < 64"
  have z: "byte_of 3 (pc_result c k) = 0"
    by (simp add: pc_result_def bytes_simps) (simp add: byte_of_def)
  have "pc_result (c\<lparr>pc_selected := True\<rparr>) = pc_result c"
    by (simp add: pc_result_def fun_eq_iff)
  then show "word24 (fst (xchg sim_pcap [0x40 OR of_nat k, 0, 0, 0] c)) = pc_result c k"
    using k be32_bytes [of "pc_result c k", unfolded z]
    by (simp add: sim_pcap_ops sim_receive_def word24_def register_opcode)
qed (auto simp: sim_pcap_ops sim_transmit_def sim_receive_def sram_opcode register_opcode
      no_lost_writes_def pc_result_def bytes_simps split: if_splits)

section \<open>Counting the transfers\<close>

text \<open>\<open>counted S\<close> is the bus \<open>S\<close> with a counter of the transfers that are started on it.\<close>

definition counted :: "'c hal_spi \<Rightarrow> ('c \<times> nat) hal_spi" where
  "counted S = \<lparr>hNSS = (\<lambda>level (c, n). (hNSS S level c, n)),
     hTransmit = (\<lambda>bs (c, n). let (st, c) = hTransmit S bs c in (st, (c, n + 1))),
     hTransmitReceive = (\<lambda>bs (c, n). let (st, rx, c) = hTransmitReceive S bs c in (st, rx, (c, n + 1)))\<rparr>"

lemma counted_ops:
  "xmit (counted S) bs (c, n) = (xmit S bs c, n + 1)"
  "xchg (counted S) bs (c, n) = (fst (xchg S bs c), (snd (xchg S bs c), n + 1))"
  "hNSS (counted S) level (c, n) = (hNSS S level c, n)"
  by (simp_all add: counted_def xmit_def xchg_def split_beta)

lemma write_and_read_counted:
  "write_and_read (counted S) a d (c, n) =
     (fst (write_and_read S a d c), (snd (write_and_read S a d c), n + 2))"
  using write_and_read_xfer [of "counted S" "unat a" d "(c, n)"] write_and_read_xfer [of S "unat a" d c]
  by (simp add: counted_ops)

lemma wr_byte_counted:
  "\<exists>m \<le> n + 2 * (unat (10 - e) + 1).
     wr_byte (counted S) a d e (c, n) = (fst (wr_byte S a d e c), (snd (wr_byte S a d e c), m))"
proof (induction "unat (10 - e)" arbitrary: e c n rule: less_induct)
  case less
  obtain rx c1 where w: "write_and_read S a d c = (rx, c1)"
    by (meson surj_pair)
  show ?case
  proof (cases "e + 1 \<le> 10 \<and> d \<noteq> rx 2")
    case True
    then obtain m where "m \<le> n + 2 + 2 * (unat (10 - (e + 1)) + 1)"
        "wr_byte (counted S) a d (e + 1) (c1, n + 2) =
           (fst (wr_byte S a d (e + 1) c1), (snd (wr_byte S a d (e + 1) c1), m))"
      using less [of "e + 1" "n + 2" c1] retry_measure [of e] by auto
    with True w retry_measure [of e] show ?thesis
      by (intro exI [of _ m])
         (simp add: wr_byte.simps [of "counted S" a d e] wr_byte.simps [of S a d e] write_and_read_counted
            not_less [symmetric])
  next
    case False
    then show ?thesis
      using w by (intro exI [of _ "n + 2"])
        (auto simp: wr_byte.simps [of "counted S" a d e] wr_byte.simps [of S a d e] write_and_read_counted)
  qed
qed

lemma wr_bytes_counted:
  "\<exists>m \<le> n + 22 * length ds.
     wr_bytes (counted S) a ds (c, n) = (fst (wr_bytes S a ds c), (snd (wr_bytes S a ds c), m))"
proof (induction ds arbitrary: a c n)
  case (Cons d ds)
  obtain m where m: "m \<le> n + 22"
      "wr_byte (counted S) a d 0 (c, n) = (fst (wr_byte S a d 0 c), (snd (wr_byte S a d 0 c), m))"
    using wr_byte_counted [of n 0 S a d c] by auto
  obtain m' where "m' \<le> m + 22 * length ds"
      "wr_bytes (counted S) (a + 1) ds (snd (wr_byte S a d 0 c), m) =
        (fst (wr_bytes S (a + 1) ds (snd (wr_byte S a d 0 c))),
         (snd (wr_bytes S (a + 1) ds (snd (wr_byte S a d 0 c))), m'))"
    using Cons.IH by blast
  with m show ?case
    by (cases "fst (wr_byte S a d 0 c) = OP_FAILED")
       (auto intro: exI [of _ m] exI [of _ m'] simp: split_beta)
qed auto

lemma load_firmware_counted:
  "\<exists>m \<le> n + 20769 * max 1 (unat (10 - k)). load_firmware (counted S) k (c, n) = (load_firmware S k c, m)"
proof (induction "unat (10 - k)" arbitrary: k c n rule: less_induct)
  case less
  obtain r c1 where w: "PCap_WR_SRAM S c = (r, c1)"
    by (meson surj_pair)
  obtain m where m: "m \<le> n + 20768" "PCap_WR_SRAM (counted S) (c, n) = (r, (c1, m))"
    using wr_bytes_counted [of n SRAM_DATA S 0 c] w by (auto simp: PCap_WR_SRAM_def)
  note unf = load_firmware.simps [of "counted S" k] load_firmware.simps [of S k]
  show ?case
  proof (cases "r \<noteq> OP_SUCCESS \<and> k + 1 < 10")
    case True
    then have lt: "unat (9 - k) < unat (10 - k)" "unat (9 - k) \<noteq> 0"
      by (auto intro!: retry_measure simp: unat_eq_zero less_imp_le)
    from True obtain m' where "m' \<le> m + 1 + 20769 * max 1 (unat (10 - (k + 1)))"
        "load_firmware (counted S) (k + 1) (xmit S [0x88] c1, m + 1) =
           (load_firmware S (k + 1) (xmit S [0x88] c1), m')"
      using less [of "k + 1" "m + 1" "xmit S [0x88] c1"] lt by auto
    with True w m lt show ?thesis
      by (intro exI [of _ m']) (simp add: unf pcap_defs counted_ops)
  next
    case False
    then show ?thesis
      using w m by (intro exI [of _ "if r = OP_SUCCESS then m else m + 1"])
        (auto simp: unf pcap_defs counted_ops)
  qed
qed

lemma reg_loop_counted:
  "reg_loop (counted S) k vs (c, n) = (reg_loop S k vs c, n + length vs)"
  by (induction vs arbitrary: k c n) (simp_all add: reg_loop_xmit counted_ops del: reg_loop.simps(2))

section \<open>The contract of the driver\<close>

text \<open>C26.  Whenever \<open>PCap_WR_SRAM\<close> reports success, the chip holds the whole firmware,
  whatever writes were lost on the way, as long as the chip reads back truthfully.\<close>

theorem firmware_verified:
  assumes "pcap_chip S sram" and "PCap_WR_SRAM S c = (OP_SUCCESS, c')" and "i < 944"
  shows "sram c' i = SRAM_DATA ! i"
  by (rule pcap_chip.WR_SRAM_ok [OF assms])

definition new_chip :: pchip where
  "new_chip = \<lparr>pc_selected = False, pc_sram = (\<lambda>_. 0xFF), pc_conf = (\<lambda>_. 0), pc_cap = (\<lambda>k. of_nat k),
               pc_faults = []\<rparr>"

lemma new_chip_good: "no_lost_writes new_chip"
  by (simp add: no_lost_writes_def new_chip_def)

theorem firmware_verified_witness:
  "pc_sram (snd (PCap_WR_SRAM sim_pcap new_chip)) 943 = SRAM_DATA ! 943"
  using sim.WR_SRAM_succeeds [OF new_chip_good]
  by (rule firmware_verified [OF sim.pcap_chip_axioms]) (auto elim: sim.WR_SRAM_succeeds [OF new_chip_good])

text \<open>C27.  On a bus that loses nothing \<open>PCap_Init\<close> leaves the chip with the firmware, the
  configuration and the run bit, and from then on \<open>Sensor_PCap_GetResult\<close> succeeds with the
  value of the requested result register.\<close>

theorem init_ready:
  assumes "reliable_pcap S sram conf result good" and "good c" and "k < 64"
    and "PCap_Init S c = c'"
  shows "(\<forall>i < 944. sram c' i = SRAM_DATA ! i) \<and> (\<forall>i < 20. conf c' i = REG ! i) \<and> conf c' 20 = 1 \<and>
    (\<exists>c''. Sensor_PCap_GetResult S (of_nat k) v c' = (OP_SUCCESS, result c' k, c''))"
proof -
  note init = reliable_pcap.Init_ok [OF assms(1,2), unfolded assms(4)]
  have "\<exists>c''. Sensor_PCap_GetResult S (of_nat k) v c' = (OP_SUCCESS, result c' k, c'')"
    by (rule reliable_pcap.GetResult_ok [OF assms(1) init(1) assms(3), of v]) (simp add: init(4))
  with init(2-4) show ?thesis by simp
qed

theorem init_ready_witness:
  "pc_sram (PCap_Init sim_pcap new_chip) 3 = SRAM_DATA ! 3 \<and> pc_conf (PCap_Init sim_pcap new_chip) 20 = 1 \<and>
   fst (Sensor_PCap_GetResult sim_pcap 1 0 (PCap_Init sim_pcap new_chip)) = OP_SUCCESS"
  using init_ready [OF sim.reliable_pcap_axioms new_chip_good, of 1 "PCap_Init sim_pcap new_chip" 0]
  by auto

text \<open>C28.  \<open>PCap_Init\<close> always returns, and whatever the bus answers it starts at most 207715
  transfers: each of the ten attempts to load the firmware gives up as soon as one byte has
  failed eleven times.\<close>

theorem init_bounded:
  "\<exists>m \<le> 207715. PCap_Init (counted S) (c, 0) = (PCap_Init S c, m)"
proof -
  obtain m where "m \<le> 207691"
      "load_firmware (counted S) 0 (xmit S [0x88] (hNSS S True c), 1)
         = (load_firmware S 0 (xmit S [0x88] (hNSS S True c)), m)"
    using load_firmware_counted [of 1 0 S "xmit S [0x88] (hNSS S True c)"] by auto
  then show ?thesis
    by (auto simp: PCap_Init_def PCap_NSS_Config_def PCap_Reg_Config_def pcap_defs counted_ops
        reg_loop_counted simp del: reg_loop.simps)
qed

end
