(* ===== verification/AppMain.thy ===== *)
theory AppMain
  imports ModbusHolding PicocapChip
begin

text \<open>
  \<open>Src/main.c\<close>: the start of the sensor's program and its main loop.  The record \<open>app\<close> is the
  whole state of the device: the Modbus state (parameters, flash, serial port), the buffers of
  the filter, ADC, DAC, the converter with its bus, and the local variables of \<open>main\<close>.  The
  body of the loop is cut into the blocks between which an interrupt makes a difference;
  \<open>At_clear\<close> is the gap between \<open>ModbusHandle\<close> and the clearing of the receive flag.  The step
  relation \<open>app_step\<close> interleaves the blocks with the interrupts: an interrupt comes between two
  blocks, not inside one.  (Inside a block the program waits for the end of a transmission, which
  is part of the block, and looks at the receive flag and the receive buffer once.)  A block
  that has no result, because it writes behind an array, makes no step: \<open>block_returns\<close> of \<open>AppLoop\<close>
  says when every block has one.  The set-up of clocks, the
  vector table, the watchdog and the DAC (\<open>BSP_DAC_Init\<close>) act on hardware only and are left out.
\<close>

section \<open>State\<close>

datatype loop_pc = At_modbus | At_clear | At_collect | At_adc | At_event

record 'c app =
  pc :: loop_pc
  mbs :: mb
  flt :: filter_buf
  adcs :: adc
  dacs :: dac
  pcap :: 'c
  FilterResult :: u32
  PCap_Tick_Old :: u32
  Old_Tick :: u32

abbreviation (input) "upd_out g s \<equiv> s\<lparr>dev := (dev s)\<lparr>PCap_DataConvert_Out := g (PCap_DataConvert_Out (dev s))\<rparr>\<rparr>"

section \<open>Initialisation\<close>

definition main_init :: "hal_flash \<Rightarrow> 'c hal_spi \<Rightarrow> u16 \<Rightarrow> u16 \<Rightarrow> u32 \<Rightarrow> 'c app \<Rightarrow> 'c app option" where
  "main_init H S vref30 vref110 tick a = do {
     let a = a\<lparr>PCap_Tick_Old := tick\<rparr>;
     f \<leftarrow> Check_Device_Param H (fls (mbs a));
     F \<leftarrow> DataFilterParam_Init f (DataFilter (dev (mbs a))) 10;
     P \<leftarrow> DataConvertParam_Init f (PCap_DataConvert (dev (mbs a)));
     T \<leftarrow> Sensor_ADC_TemperParam_Init f (ADC_TemperParam (dev (mbs a)));
     let d = (dev (mbs a))\<lparr>DataFilter := F, PCap_DataConvert := P, ADC_TemperParam := T\<rparr>;
     let a = a\<lparr>pcap := PCap_Init S (pcap a)\<rparr>;
     let a = a\<lparr>adcs := Sensor_ADC_Init vref30 vref110 (adcs a)\<rparr>;
     (b, u) \<leftarrow> ModBus_Init f (base (mbs a)) (port (mbs a));
     Some (a\<lparr>mbs := (mbs a)\<lparr>base := b, dev := d, fls := f, port := u\<rparr>, pc := At_modbus\<rparr>) }"

section \<open>The blocks of the loop\<close>

definition loop_modbus :: "hal_flash \<Rightarrow> 'c app \<Rightarrow> 'c app option" where
  "loop_modbus H a =
     (if Sensor_USART_Get_RX_Updata_Flag (port (mbs a)) \<noteq> 0
      then do { s \<leftarrow> ModbusHandle H (mbs a); Some (a\<lparr>mbs := s, pc := At_clear\<rparr>) }
      else Some (a\<lparr>pc := At_collect\<rparr>))"

definition loop_clear :: "'c app \<Rightarrow> 'c app" where
  "loop_clear a =
     a\<lparr>mbs := (mbs a)\<lparr>port := Sensor_USART_Clear_RX_Updata_Flag (port (mbs a))\<rparr>, pc := At_collect\<rparr>"

text \<open>The two reads of the tick counter are arguments.  A filter that has no result leaves
  \<open>FilterResult\<close> as it is.\<close>

definition collect_value :: "u32 \<Rightarrow> 'c app \<Rightarrow> 'c app option" where
  "collect_value v a = do {
     (r, out, P, B) \<leftarrow> Sensor_DataFilter (DataFilter (dev (mbs a))) (flt a) v;
     let s = mbs a;
     let a = a\<lparr>mbs := s\<lparr>dev := (dev s)\<lparr>DataFilter := P\<rparr>\<rparr>, flt := B,
               FilterResult := (case out of None \<Rightarrow> FilterResult a | Some x \<Rightarrow> x)\<rparr>;
     if r = OP_SUCCESS then do {
       let s = mbs a;
       Out \<leftarrow> Sensor_PCap_DataConvert (PCap_DataConvert (dev s)) (FilterResult a) (PCap_DataConvert_Out (dev s));
       let a = a\<lparr>mbs := s\<lparr>dev := (dev s)\<lparr>PCap_DataConvert_Out := Out\<rparr>\<rparr>\<rparr>;
       if CapDA_ClibEn (PCap_DataConvert (dev s)) = 0x0F
       then Some (a\<lparr>dacs := snd (BSP_DAC_Convert (PCapDA_ResultValue Out) DA_CHANNEL_2 (dacs a))\<rparr>)
       else Some (a\<lparr>dacs := snd (BSP_DAC_Convert (PCapDA_OutValue Out) DA_CHANNEL_2 (dacs a))\<rparr>) }
     else Some a }"

definition loop_collect :: "'c hal_spi \<Rightarrow> u32 \<Rightarrow> u32 \<Rightarrow> 'c app \<Rightarrow> 'c app option" where
  "loop_collect S tick tick' a =
     (if tick - PCap_Tick_Old a > 100 then do {
        let (Result, v, c) = Sensor_PCap_GetResult S 1
                               (PCap_ResultValue (PCap_DataConvert_Out (dev (mbs a)))) (pcap a);
        let a = a\<lparr>mbs := upd_out (\<lambda>Out. Out\<lparr>PCap_ResultValue := v\<rparr>) (mbs a), pcap := c\<rparr>;
        a \<leftarrow> (if Result = OP_SUCCESS then collect_value v a else Some a);
        Some (a\<lparr>PCap_Tick_Old := tick', pc := At_adc\<rparr>) }
      else Some (a\<lparr>pc := At_adc\<rparr>))"

definition loop_adc :: "'c app \<Rightarrow> 'c app option" where
  "loop_adc a =
     (if Sensor_ADC_Get_Updata_Flag (adcs a) = 1 then do {
        t \<leftarrow> Sensor_ADC_Get_TemperData (adcs a);
        let s = mbs a;
        let s = s\<lparr>dev := (dev s)\<lparr>ADC_TemperOut := (ADC_TemperOut (dev s))\<lparr>TemperInAir := t\<rparr>\<rparr>\<rparr>;
        Some (a\<lparr>mbs := s, adcs := Sensor_ADC_Clean_Updata_Flag (adcs a), pc := At_event\<rparr>) }
      else Some (a\<lparr>pc := At_event\<rparr>))"

definition loop_event :: "u32 \<Rightarrow> u32 \<Rightarrow> 'c app \<Rightarrow> 'c app option" where
  "loop_event tick tick' a = do {
     (old, s) \<leftarrow> SensorEvent tick tick' (Old_Tick a) (mbs a);
     Some (a\<lparr>mbs := s, Old_Tick := old, pc := At_modbus\<rparr>) }"

definition main_loop :: "hal_flash \<Rightarrow> 'c hal_spi \<Rightarrow> u32 \<Rightarrow> u32 \<Rightarrow> 'c app \<Rightarrow> 'c app option" where
  "main_loop H S tick tick' a =
     (case pc a of
        At_modbus \<Rightarrow> loop_modbus H a
      | At_clear \<Rightarrow> Some (loop_clear a)
      | At_collect \<Rightarrow> loop_collect S tick tick' a
      | At_adc \<Rightarrow> loop_adc a
      | At_event \<Rightarrow> loop_event tick tick' a)"

section \<open>Interleaving with the interrupts\<close>

text \<open>A byte arrives, the line falls silent, a transmission ends, the DMA controller delivers a
  group of conversions.\<close>

abbreviation (input) "on_port g a \<equiv> a\<lparr>mbs := (mbs a)\<lparr>port := g (port (mbs a))\<rparr>\<rparr>"

inductive app_step :: "hal_flash \<Rightarrow> 'c hal_spi \<Rightarrow> 'c app \<Rightarrow> 'c app \<Rightarrow> bool" for H S where
  main: "main_loop H S tick tick' a = Some a' \<Longrightarrow> app_step H S a a'"
| rx_byte: "app_step H S a (on_port (dma_rx b) a)"
| rx_end: "app_step H S a (on_port rx_timeout a)"
| tx_end: "\<not> gState_READY (port (mbs a)) \<Longrightarrow> app_step H S a (on_port tx_complete a)"
| adc_end: "adc_arrays data \<Longrightarrow>
    app_step H S a (a\<lparr>adcs := HAL_ADC_ConvCpltCallback ((adcs a)\<lparr>gADC_GetData := data\<rparr>)\<rparr>)"

inductive_cases app_stepE: "app_step H S a a'"

end
