(* ===== verification/AppLoop.thy ===== *)
theory AppLoop
  imports AppMain
begin

text \<open>
  The invariant of the running device: it holds after the initialisation and is kept by every
  block of the main loop and every interrupt, in every order, whatever arrives on the line,
  whatever the flash and the converter answer.
\<close>

section \<open>The receive buffer belongs to the DMA controller\<close>

lemma tx_complete_buf [frame_simps]: "USART_Receive_Buf (tx_complete u) = USART_Receive_Buf u"
  by (simp add: tx_complete_def USARTx_IRQHandler_def HAL_UART_RxTimoCallback_def
      HAL_UART_CMatchCallback_def HAL_UART_TxCpltCallback_def Let_def)

lemma rx_timeout_buf [frame_simps]: "USART_Receive_Buf (rx_timeout u) = USART_Receive_Buf u"
  by (simp add: rx_timeout_def USARTx_IRQHandler_def HAL_UART_RxTimoCallback_def
      HAL_UART_CMatchCallback_def HAL_UART_TxCpltCallback_def Let_def)

lemma wait_TX_buf: "wait_TX_Cplt u = Some u' \<Longrightarrow> USART_Receive_Buf u' = USART_Receive_Buf u"
  by (auto simp: wait_TX_Cplt_def frame_simps split: if_splits)

lemma Send_Data_buf: "Send_Data m n u = Some u' \<Longrightarrow> USART_Receive_Buf u' = USART_Receive_Buf u"
  by (auto simp: Send_Data_def BSP_UART_Transmit_DMA_def Sensor_USART_Clear_TX_Cplt_Flag_def
      bind_eq_Some_conv Let_def split: if_splits dest!: wait_TX_buf)

lemma Snd_Msg_buf:
  "MDB_Snd_Msg_RTU n chk s = Some s' \<Longrightarrow> USART_Receive_Buf (port s') = USART_Receive_Buf (port s)"
  by (auto simp: MDB_Snd_Msg_RTU_def bind_eq_Some_conv Let_def dest: Send_Data_buf split: if_splits)

lemma run_callback_buf:
  "run_callback c s = Some s' \<Longrightarrow> USART_Receive_Buf (port s') = USART_Receive_Buf (port s)"
  by (cases c) (auto simp: run_MB_USART_ReInit_def run_MB_Freeze_def run_MB_System_Reset_def
      run_MB_SendData_NoCheck_def USART_Init_fields bind_eq_Some_conv dest: wait_TX_buf Snd_Msg_buf)

lemma finish_request_buf:
  "finish_request s = Some s' \<Longrightarrow> USART_Receive_Buf (port s') = USART_Receive_Buf (port s)"
  by (auto simp: finish_request_def bind_eq_Some_conv dest!: Snd_Msg_buf run_callback_buf split: option.splits)

lemma SensorEvent_buf:
  "SensorEvent t t' old s = Some (old', s') \<Longrightarrow> USART_Receive_Buf (port s') = USART_Receive_Buf (port s)"
  by (auto simp: SensorEvent_def ModbusAutoUpload_def bind_eq_Some_conv Let_def
      dest!: Snd_Msg_buf split: if_splits)

section \<open>Serving whatever the port holds\<close>

lemma handle_keeps:
  assumes H: "flash_hal H" and ok: "mb_ok s" "length (USART_Receive_Buf (port s)) = RECEIVE_SIZE"
    and r: "ModbusHandle H s = Some s'"
  shows "mb_ok s'" "emits s s'" "flash_safe (fls s) (fls s')"
    "filter_step (DataFilter (dev s)) (DataFilter (dev s'))"
    "USART_Receive_Buf (port s') = USART_Receive_Buf (port s)"
proof -
  obtain bs where bs: "port_holds (port s) bs"
    by (rule port_holds_something [OF ok(2)])
  show "mb_ok s'" "emits s s'" "flash_safe (fls s) (fls s')"
    using request_safe_parts [OF H ok(1) bs r] by auto
  have b: "bufs_ok (base s)" "bufs_ok (base (with_request bs s))"
    using ok(1) bs by (simp_all add: mb_ok_def port_holds_def)
  have "filter_step (DataFilter (dev s)) (DataFilter (dev s'))
      \<and> USART_Receive_Buf (port s') = USART_Receive_Buf (port s)"
  proof (cases "frame_valid bs \<and> (bs ! 0 = Device_Addr (base s) \<or> bs ! 0 = BROADCASTADDR)")
    case True
    then obtain t where t: "modbus_switch H (bs ! 1) (with_request bs s) = Some t" "finish_request t = Some s'"
      using r handle_serves [OF b(1) bs True, of H] by (auto simp: bind_eq_Some_conv)
    have h: "handled (with_request bs s) t"
      by (rule flash_hal.switch_handled(1) [OF H b(2) t(1)])
    then have "mb_ok t" using ok(1) by (simp add: handled_def mb_ok_def)
    then show ?thesis
      using h t(2) finish_request_ok [of t] finish_request_buf [OF t(2)] by (auto simp: handled_def)
  next
    case False
    then show ?thesis
      using r handle_ignores [OF b(1) bs False, of H] by auto
  qed
  then show "filter_step (DataFilter (dev s)) (DataFilter (dev s'))"
    "USART_Receive_Buf (port s') = USART_Receive_Buf (port s)" by auto
qed

section \<open>The invariant\<close>

definition dac_ok :: "dac \<Rightarrow> bool" where
  "dac_ok d \<longleftrightarrow> (\<forall>v. DAC_out2 d = Some v \<longrightarrow> v \<le> 4095)"

definition app_inv :: "'c app \<Rightarrow> bool" where
  "app_inv a \<longleftrightarrow> mb_ok (mbs a) \<and> length (USART_Receive_Buf (port (mbs a))) = RECEIVE_SIZE
     \<and> list_all valid_event (trace (port (mbs a)))
     \<and> filter_inv 0 (- 1) (DataFilter (dev (mbs a))) (flt a)
     \<and> adc_arrays (uADC_GetResult (adcs a)) \<and> dac_ok (dacs a)"

lemma app_inv_pc [simp]: "app_inv (a\<lparr>pc := p\<rparr>) = app_inv a"
  by (simp add: app_inv_def)

lemma app_inv_ticks [simp]:
  "app_inv (a\<lparr>PCap_Tick_Old := t\<rparr>) = app_inv a" "app_inv (a\<lparr>Old_Tick := t\<rparr>) = app_inv a"
  "app_inv (a\<lparr>FilterResult := v\<rparr>) = app_inv a" "app_inv (a\<lparr>pcap := c\<rparr>) = app_inv a"
  by (simp_all add: app_inv_def)

lemma emits_valid: "emits s s' \<Longrightarrow> list_all valid_event (trace (port s)) \<Longrightarrow> list_all valid_event (trace (port s'))"
  by (auto simp: emits_def)

lemma app_inv_modbus:
  assumes "flash_hal H" "app_inv a" "loop_modbus H a = Some a'"
  shows "app_inv a' \<and> flash_safe (fls (mbs a)) (fls (mbs a'))"
proof (cases "Sensor_USART_Get_RX_Updata_Flag (port (mbs a)) = 0")
  case False
  then obtain s where s: "ModbusHandle H (mbs a) = Some s" "a' = a\<lparr>mbs := s, pc := At_clear\<rparr>"
    using assms(3) by (auto simp: loop_modbus_def bind_eq_Some_conv)
  have inv: "mb_ok (mbs a)" "length (USART_Receive_Buf (port (mbs a))) = RECEIVE_SIZE"
    "list_all valid_event (trace (port (mbs a)))" "filter_inv 0 (- 1) (DataFilter (dev (mbs a))) (flt a)"
    using assms(2) by (simp_all add: app_inv_def)
  note k = handle_keeps [OF assms(1) inv(1,2) s(1)]
  show ?thesis
    using k assms(2) emits_valid [OF k(2) inv(3)] filter_inv_step [OF inv(4) k(4)]
    by (simp add: s(2) app_inv_def)
qed (use assms in \<open>auto simp: loop_modbus_def\<close>)

lemma BSP_DAC_ok: "dac_ok d \<Longrightarrow> dac_ok (snd (BSP_DAC_Convert v ch d))"
  by (auto simp: BSP_DAC_Convert_def dac_ok_def split: DA_CHANNEL_NUM.splits)

lemma filter_step_inv:
  assumes "filter_inv 0 (- 1) P B"
  obtains r out P' B' where "Sensor_DataFilter P B v = Some (r, out, P', B')" "filter_inv 0 (- 1) P' B'"
  using DataFilter_returns [OF assms, of v] that by auto

lemma app_inv_collect_value:
  assumes "app_inv a" "collect_value v a = Some a'"
  shows "app_inv a' \<and> fls (mbs a') = fls (mbs a)"
proof -
  have "filter_inv 0 (- 1) (DataFilter (dev (mbs a))) (flt a)"
    using assms(1) by (simp add: app_inv_def)
  then obtain r out P B where
    "Sensor_DataFilter (DataFilter (dev (mbs a))) (flt a) v = Some (r, out, P, B)" "filter_inv 0 (- 1) P B"
    by (rule filter_step_inv)
  then show ?thesis
    using assms
    by (auto simp: collect_value_def app_inv_def mb_ok_def bind_eq_Some_conv Let_def BSP_DAC_ok split: if_splits)
qed

lemma app_inv_collect:
  assumes "app_inv a" "loop_collect S tick tick' a = Some a'"
  shows "app_inv a' \<and> fls (mbs a') = fls (mbs a)"
proof -
  have out: "app_inv (a\<lparr>mbs := upd_out g (mbs a)\<rparr>)" for g
    using assms(1) by (simp add: app_inv_def mb_ok_def)
  then have out': "app_inv (a\<lparr>mbs := upd_out g (mbs a), pcap := c\<rparr>)" for g c
    by simp
  show ?thesis
    using assms
    by (auto simp: loop_collect_def bind_eq_Some_conv Let_def split_beta out
        dest!: app_inv_collect_value [OF out'] split: if_splits)
qed

lemma app_inv_adc:
  assumes "app_inv a" "loop_adc a = Some a'"
  shows "app_inv a' \<and> fls (mbs a') = fls (mbs a)"
  using assms
  by (auto simp: loop_adc_def bind_eq_Some_conv Let_def app_inv_def mb_ok_def
      Sensor_ADC_Clean_Updata_Flag_def BSP_ADC_Conver_Start_def split: if_splits)

lemma app_inv_event:
  assumes "app_inv a" "loop_event tick tick' a = Some a'"
  shows "app_inv a' \<and> fls (mbs a') = fls (mbs a)"
proof -
  have ok: "mb_ok (mbs a)" using assms(1) by (simp add: app_inv_def)
  obtain old s where s: "SensorEvent tick tick' (Old_Tick a) (mbs a) = Some (old, s)"
    "mb_ok s" "emits (mbs a) s" "dev s = dev (mbs a)" "fls s = fls (mbs a)"
    using SensorEvent_ok [OF ok] by blast
  then have a': "a' = a\<lparr>mbs := s, Old_Tick := old, pc := At_modbus\<rparr>"
    using assms(2) by (simp add: loop_event_def)
  show ?thesis
    using assms(1) s SensorEvent_buf [OF s(1)] emits_valid [OF s(3)] by (simp add: a' app_inv_def)
qed

lemma app_inv_port:
  assumes "app_inv a" "trace u = trace (port (mbs a))" "tx_live (port (mbs a)) \<Longrightarrow> tx_live u"
    and "length (USART_Receive_Buf u) = length (USART_Receive_Buf (port (mbs a)))"
  shows "app_inv (a\<lparr>mbs := (mbs a)\<lparr>port := u\<rparr>\<rparr>)"
  using assms by (simp add: app_inv_def mb_ok_def)

lemma tx_complete_tx: "trace (tx_complete u) = trace u" "tx_live (tx_complete u)"
  by (simp_all add: tx_complete_fields tx_live_def)

lemma app_inv_main:
  assumes "flash_hal H" "app_inv a" "main_loop H S tick tick' a = Some a'"
  shows "app_inv a' \<and> flash_safe (fls (mbs a)) (fls (mbs a'))"
proof (cases "pc a")
  case At_clear
  have "app_inv (loop_clear a)"
    unfolding loop_clear_def using assms(2)
    by (subst app_inv_pc, intro app_inv_port) (simp_all add: Sensor_USART_Clear_RX_Updata_Flag_def tx_live_def)
  with At_clear assms(3) show ?thesis by (auto simp: main_loop_def loop_clear_def)
qed (use assms app_inv_modbus [OF assms(1,2)] app_inv_collect [OF assms(2)] app_inv_adc [OF assms(2)]
       app_inv_event [OF assms(2)] in \<open>auto simp: main_loop_def\<close>)

lemma app_inv_step:
  assumes H: "flash_hal H" and "app_step H S a a'" "app_inv a"
  shows "app_inv a' \<and> flash_safe (fls (mbs a)) (fls (mbs a'))"
  using assms(2,3)
proof (cases rule: app_step.cases)
  case (main tick tick')
  then show ?thesis using app_inv_main [OF H assms(3)] by blast
next
  case (adc_end data)
  then show ?thesis
    using assms(3) by (simp add: app_inv_def HAL_ADC_ConvCpltCallback_def BSP_ADC_Conver_Stop_def Let_def)
qed (use assms(3) in \<open>auto intro!: app_inv_port simp: dma_rx_tx tx_complete_tx frame_simps rx_timeout_tx\<close>)

text \<open>The variables before \<open>main\<close>: the arrays have their sizes, nothing is being sent, nothing has
  been put on the line or on the analogue output.\<close>

definition static_ok :: "'c app \<Rightarrow> bool" where
  "static_ok a \<longleftrightarrow> bufs_ok (base (mbs a)) \<and> TX_Cplt_Flag (port (mbs a)) \<noteq> 0
     \<and> length (USART_Receive_Buf (port (mbs a))) = RECEIVE_SIZE \<and> trace (port (mbs a)) = []
     \<and> filter_arrays (flt a) \<and> adc_arrays (uADC_GetResult (adcs a)) \<and> DAC_out2 (dacs a) = None"

lemma DataFilterParam_Init_started:
  assumes "DataFilterParam_Init f P n = Some P'"
  shows "filter_config P' \<and> FilterStart P' = 0"
proof -
  have "FilterStart (SwitchCurFilter b Q) = 0" for b Q
    by (simp add: SwitchCurFilter_def Let_def)
  then show ?thesis
    using assms SwitchCurFilter_config
    by (auto simp: DataFilterParam_Init_def bind_eq_Some_conv Let_def filter_config_def)
qed

lemma main_init_inv:
  assumes "static_ok a" "main_init H S v30 v110 tick a = Some a'"
  shows "app_inv a'"
proof -
  obtain F P T d f b u c ad where
    a': "a' = a\<lparr>PCap_Tick_Old := tick, pcap := c, adcs := ad,
              mbs := (mbs a)\<lparr>base := b, dev := (dev (mbs a))\<lparr>DataFilter := F, PCap_DataConvert := P,
                 ADC_TemperParam := T\<rparr>, fls := f, port := u\<rparr>, pc := At_modbus\<rparr>"
    and F: "DataFilterParam_Init f (DataFilter (dev (mbs a))) 10 = Some F"
    and ad: "ad = Sensor_ADC_Init v30 v110 (adcs a)"
    and b: "ModBus_Init f (base (mbs a)) (port (mbs a)) = Some (b, u)"
    using assms(2) by (auto simp: main_init_def bind_eq_Some_conv Let_def)
  have u: "bufs_ok b = bufs_ok (base (mbs a))" "u = Sensor_USART_Init (BaudRate b) (Parity b) (port (mbs a))"
    using b by (auto simp: ModBus_Init_def bind_eq_Some_conv Let_def bufs_ok_def)
  obtain x y z where "trace u = trace (port (mbs a)) @ [EvInit x y z]"
    using USART_Init_fields(4) u(2) by blast
  then show ?thesis
    using assms(1) u DataFilterParam_Init_started [OF F]
    by (simp add: a' ad app_inv_def static_ok_def mb_ok_def tx_live_def USART_Init_fields valid_event_def
        filter_inv_def dac_ok_def Sensor_ADC_Init_def Let_def)
qed

section \<open>The measurement\<close>

text \<open>A calibrated device without compensation: the filter works in the range of the conversion,
  and the output points are in order and in the range of the DAC.\<close>

definition calibrated_device :: "'c app \<Rightarrow> bool" where
  "calibrated_device a \<longleftrightarrow>
     (let C = PCap_DataConvert (dev (mbs a)); P = DataFilter (dev (mbs a)) in
      CompenEn C \<noteq> 1 \<and> conv_ok C \<and> CapDAMax C \<le> 4095 \<and> CapDA_ClibEn C \<noteq> 0x0F
      \<and> InputRangeMin P = CapMin C \<and> InputRangeMax P = CapMax C
      \<and> filter_inv (CapMin C) (CapMax C) P (flt a))"

definition output_kept :: "'c app \<Rightarrow> 'c app \<Rightarrow> bool" where
  "output_kept a a' \<longleftrightarrow> DAC_out2 (dacs a') = DAC_out2 (dacs a)
     \<or> (\<exists>v. DAC_out2 (dacs a') = Some v \<and> CapDAMin (PCap_DataConvert (dev (mbs a))) \<le> v
           \<and> v \<le> CapDAMax (PCap_DataConvert (dev (mbs a))))"

lemma clamp_range: "InputRangeMin P \<le> InputRangeMax P \<Longrightarrow> InputRangeMin P \<le> clamp P v \<and> clamp P v \<le> InputRangeMax P"
  by (auto simp: clamp_def Let_def not_less)

lemma collect_value_returns:
  assumes "calibrated_device a"
  shows "\<exists>a'. collect_value v a = Some a' \<and> calibrated_device a' \<and> output_kept a a' \<and> pc a' = pc a"
proof -
  let ?d = "dev (mbs a)"
  let ?C = "PCap_DataConvert ?d" and ?P = "DataFilter ?d"
  note h = assms [unfolded calibrated_device_def Let_def]
  have r: "InputRangeMin ?P = CapMin ?C" "InputRangeMax ?P = CapMax ?C" "CapMin ?C < CapMax ?C" "DA_ordered ?C"
    using h by (simp_all add: conv_ok_def)
  let ?P' = "?P\<lparr>FilterStart := if FilterStart ?P = 0 then 1 else FilterStart ?P\<rparr>"
  obtain q out B where f: "Sensor_DataFilter ?P (flt a) v = Some (q, out, ?P', B)"
    "filter_inv (CapMin ?C) (CapMax ?C) ?P' B"
    "(\<exists>x. q = OP_SUCCESS \<and> out = Some x \<and> CapMin ?C \<le> x \<and> x \<le> CapMax ?C) \<or> q = OP_FAILED \<and> out = None"
    using DataFilter_returns [of "CapMin ?C" "CapMax ?C" ?P "flt a" v] clamp_range [of ?P v] h r
    by (auto split: if_splits)
  from f(3) show ?thesis
  proof
    assume "\<exists>x. q = OP_SUCCESS \<and> out = Some x \<and> CapMin ?C \<le> x \<and> x \<le> CapMax ?C"
    then obtain x where x: "q = OP_SUCCESS" "out = Some x" "CapMin ?C \<le> x" "x \<le> CapMax ?C" by blast
    obtain Out where o: "Sensor_PCap_DataConvert ?C x (PCap_DataConvert_Out ?d) = Some Out"
      "CapDAMin ?C \<le> PCapDA_OutValue Out" "PCapDA_OutValue Out \<le> CapDAMax ?C"
      using DataConvert_returns [of ?C x "PCap_DataConvert_Out ?d"] x h r by auto
    have "PCapDA_OutValue Out \<le> 4095" using o(3) h by (meson order_trans)
    then show ?thesis
      using f x o h
      by (simp add: collect_value_def calibrated_device_def output_kept_def BSP_DAC_Convert_def Let_def)
  next
    assume "q = OP_FAILED \<and> out = None"
    then show ?thesis
      using f h by (simp add: collect_value_def calibrated_device_def output_kept_def Let_def)
  qed
qed

lemma collect_returns:
  assumes "calibrated_device a"
  shows "\<exists>a'. loop_collect S tick tick' a = Some a' \<and> calibrated_device a' \<and> output_kept a a' \<and> pc a' = At_adc"
proof (cases "100 < tick - PCap_Tick_Old a")
  case True
  obtain r v c where g: "Sensor_PCap_GetResult S 1 (PCap_ResultValue (PCap_DataConvert_Out (dev (mbs a)))) (pcap a) = (r, v, c)"
    using prod_cases3 by blast
  let ?a = "a\<lparr>mbs := upd_out (\<lambda>Out. Out\<lparr>PCap_ResultValue := v\<rparr>) (mbs a), pcap := c\<rparr>"
  have h: "calibrated_device ?a" using assms by (simp add: calibrated_device_def)
  obtain a1 where "collect_value v ?a = Some a1" "calibrated_device a1" "output_kept ?a a1" "pc a1 = pc ?a"
    using collect_value_returns [OF h, of v] by blast
  then show ?thesis
    using True g h by (simp add: loop_collect_def Let_def calibrated_device_def output_kept_def)
next
  case False
  then show ?thesis
    using assms by (simp add: loop_collect_def calibrated_device_def output_kept_def)
qed

lemma adc_returns:
  assumes "adc_arrays (uADC_GetResult (adcs a))"
  shows "\<exists>a'. loop_adc a = Some a' \<and> pc a' = At_event \<and> (calibrated_device a \<longrightarrow> calibrated_device a')"
proof -
  obtain t where "adc_sum 0 AD_GROUP_MAX AD_CHANNEL_TEMPSENSOR (uADC_GetResult (adcs a)) 0 = Some t"
    by (rule adc_average [OF assms, of AD_CHANNEL_TEMPSENSOR]) simp
  then show ?thesis
    by (simp add: loop_adc_def Sensor_ADC_Get_TemperData_def calibrated_device_def Let_def del: adc_sum.simps)
qed

lemma event_returns:
  assumes "mb_ok (mbs a)"
  shows "\<exists>a'. loop_event tick tick' a = Some a' \<and> pc a' = At_modbus \<and> (calibrated_device a \<longrightarrow> calibrated_device a')"
  using SensorEvent_ok [OF assms, of tick tick' "Old_Tick a"]
  by (auto simp: loop_event_def calibrated_device_def)

section \<open>The device\<close>

lemma main_init_returns:
  assumes "flash_hal H"
  shows "\<exists>a'. main_init H S v30 v110 tick a = Some a' \<and> only_area (fls (mbs a)) (fls (mbs a'))"
proof -
  obtain f where f: "Check_Device_Param H (fls (mbs a)) = Some f" "only_area (fls (mbs a)) f"
    using Check_Device_Param_returns [OF assms] by blast
  obtain F P T b u where
    "DataFilterParam_Init f (DataFilter (dev (mbs a))) 10 = Some F"
    "DataConvertParam_Init f (PCap_DataConvert (dev (mbs a))) = Some P"
    "Sensor_ADC_TemperParam_Init f (ADC_TemperParam (dev (mbs a))) = Some T"
    "ModBus_Init f (base (mbs a)) (port (mbs a)) = Some (b, u)"
    by (simp add: DataFilterParam_Init_def DataConvertParam_Init_def Sensor_ADC_TemperParam_Init_def
        ModBus_Init_def flash_u8_area flash_u16_area flash_u32_area Let_def
        flash_u16_area [unfolded flash_u16_def, folded TemperParam_u16_def])
  with f show ?thesis by (simp add: main_init_def Let_def)
qed

lemma run_inv:
  assumes "flash_hal H" "app_inv a" "(app_step H S)\<^sup>*\<^sup>* a a'"
  shows "app_inv a' \<and> flash_safe (fls (mbs a)) (fls (mbs a'))"
  using assms(3)
proof (induction rule: rtranclp_induct)
  case (step y z)
  then show ?case
    using app_inv_step [OF assms(1) step.hyps(2)] flash_safe_trans by blast
qed (use assms(2) in simp)

text \<open>A run from power-up keeps the invariant and writes in the parameter area only.\<close>

lemma device_run:
  assumes "flash_hal H" "static_ok a" "main_init H S v30 v110 tick a = Some a0" "(app_step H S)\<^sup>*\<^sup>* a0 a1"
  shows "app_inv a1 \<and> only_area (fls (mbs a)) (fls (mbs a1))"
proof -
  have "only_area (fls (mbs a)) (fls (mbs a0))"
    using main_init_returns [OF assms(1), of S v30 v110 tick a] assms(3) by auto
  moreover have "app_inv a1" "only_area (fls (mbs a0)) (fls (mbs a1))"
    using run_inv [OF assms(1) main_init_inv [OF assms(2,3)] assms(4)]
    by (simp_all add: flash_safe_def only_area_def)
  ultimately show ?thesis by (metis only_area_trans)
qed

text \<open>The next block of the loop has a result: a frame that is pending and for this device is one of
  those no handler overflows on, and the conversion is that of a calibrated device.\<close>

definition runs_on :: "'c app \<Rightarrow> bool" where
  "runs_on a \<longleftrightarrow>
     (pc a = At_modbus \<and> RX_Updata_Flag (port (mbs a)) \<noteq> 0 \<longrightarrow>
        (\<exists>bs. port_holds (port (mbs a)) bs \<and>
           (frame_valid bs \<and> (bs ! 0 = Device_Addr (base (mbs a)) \<or> bs ! 0 = BROADCASTADDR) \<longrightarrow> served_frame bs)))
     \<and> (pc a = At_collect \<longrightarrow> calibrated_device a)"

lemma block_returns:
  assumes "flash_hal H" "app_inv a" "runs_on a"
  shows "\<exists>a'. main_loop H S tick tick' a = Some a'"
proof (cases "pc a")
  case At_modbus
  have ok: "mb_ok (mbs a)" using assms(2) by (simp add: app_inv_def)
  show ?thesis
  proof (cases "RX_Updata_Flag (port (mbs a)) = 0")
    case False
    then obtain bs where "port_holds (port (mbs a)) bs"
      "frame_valid bs \<and> (bs ! 0 = Device_Addr (base (mbs a)) \<or> bs ! 0 = BROADCASTADDR) \<Longrightarrow> served_frame bs"
      using assms(3) At_modbus by (auto simp: runs_on_def)
    from serving_returns [OF assms(1) ok this] At_modbus False show ?thesis
      by (auto simp: main_loop_def loop_modbus_def Sensor_USART_Get_RX_Updata_Flag_def)
  qed (simp add: At_modbus main_loop_def loop_modbus_def Sensor_USART_Get_RX_Updata_Flag_def)
next
  case At_collect
  then show ?thesis using collect_returns [of a S tick tick'] assms(3) by (auto simp: main_loop_def runs_on_def)
next
  case At_adc
  then show ?thesis using adc_returns [of a] assms(2) by (auto simp: main_loop_def app_inv_def)
next
  case At_event
  then show ?thesis using event_returns [of a tick tick'] assms(2) by (auto simp: main_loop_def app_inv_def)
qed (simp add: main_loop_def)

text \<open>Who writes the message buffer: the serving of a frame and the automatic upload.\<close>

lemma Send_Buf_kept:
  assumes "app_step H S a a'" "pc a = At_modbus \<Longrightarrow> RX_Updata_Flag (port (mbs a)) = 0"
    and "pc a = At_event \<Longrightarrow> AutoUpload (base (mbs a)) = 0"
  shows "base (mbs a') = base (mbs a)"
  using assms(1)
proof (cases rule: app_step.cases)
  case (main tick tick')
  then show ?thesis
    using assms(2,3)
    by (auto simp: main_loop_def loop_modbus_def loop_clear_def loop_collect_def loop_adc_def loop_event_def
        SensorEvent_def collect_value_def Sensor_USART_Get_RX_Updata_Flag_def bind_eq_Some_conv Let_def
        split: loop_pc.splits if_splits prod.splits)
qed auto

text \<open>C1.  The device never gets out of order.  From power-up on, whatever the flash holds and
  answers, whatever the converter answers and whatever arrives on the line, in every interleaving
  of the blocks of the main loop with the interrupts: every transmission was started with a
  message and its checksum in the bytes it is to send, the buffers and the transmitter are in
  order, the filter's configuration and buffers allow the next sample, the analogue output has
  got a 12-bit value, and nothing outside the parameter area of the flash has changed.  From there
  the next block of the loop returns, unless a frame for this device is pending that is not one of
  \<open>served_frame\<close> (some of those make a handler write behind its buffer, and a run ends there) or
  the measurement is due on a device that is not calibrated; and the parameters and message
  buffers of the communication are changed by nothing but the serving of a frame and the automatic
  upload.  (The DMA controller reads the send buffer while it sends: what goes out is the message
  it was started with as long as neither of these two comes before its end.)\<close>

theorem device_safe:
  assumes "flash_hal H" "static_ok a" "main_init H S v30 v110 tick a = Some a0" "(app_step H S)\<^sup>*\<^sup>* a0 a1"
  shows "list_all valid_event (trace (port (mbs a1))) \<and> mb_ok (mbs a1)
     \<and> filter_inv 0 (- 1) (DataFilter (dev (mbs a1))) (flt a1)
     \<and> (\<forall>v. DAC_out2 (dacs a1) = Some v \<longrightarrow> v \<le> 4095)
     \<and> (\<forall>x. in_area x \<or> fl_mem (fls (mbs a1)) x = fl_mem (fls (mbs a)) x)
     \<and> (runs_on a1 \<longrightarrow> (\<exists>a2. main_loop H S tick1 tick2 a1 = Some a2))
     \<and> (\<forall>a2. app_step H S a1 a2 \<longrightarrow> base (mbs a2) = base (mbs a1)
          \<or> pc a1 = At_modbus \<and> RX_Updata_Flag (port (mbs a1)) \<noteq> 0
          \<or> pc a1 = At_event \<and> AutoUpload (base (mbs a1)) \<noteq> 0)"
proof (intro conjI allI impI)
  have i: "app_inv a1" "only_area (fls (mbs a)) (fls (mbs a1))" using device_run [OF assms] by auto
  then show "list_all valid_event (trace (port (mbs a1)))" "mb_ok (mbs a1)"
    "filter_inv 0 (- 1) (DataFilter (dev (mbs a1))) (flt a1)"
    "\<And>v. DAC_out2 (dacs a1) = Some v \<Longrightarrow> v \<le> 4095"
    "\<And>x. in_area x \<or> fl_mem (fls (mbs a1)) x = fl_mem (fls (mbs a)) x"
    by (simp_all add: app_inv_def dac_ok_def only_area_def)
  show "\<exists>a2. main_loop H S tick1 tick2 a1 = Some a2" if "runs_on a1"
    by (rule block_returns [OF assms(1) i(1) that])
  show "base (mbs a2) = base (mbs a1) \<or> pc a1 = At_modbus \<and> RX_Updata_Flag (port (mbs a1)) \<noteq> 0
      \<or> pc a1 = At_event \<and> AutoUpload (base (mbs a1)) \<noteq> 0" if "app_step H S a1 a2" for a2
    using Send_Buf_kept [OF that] by blast
qed

text \<open>C6.  The analogue output of a calibrated device: whatever the converter answers, a round of
  the measurement returns, leaves the device calibrated, and sets the output, if at all, to a value
  between the two ends of the calibrated output range.\<close>

theorem output_in_calibrated_range:
  assumes "calibrated_device a"
  shows "\<exists>a'. loop_collect S tick tick' a = Some a' \<and> calibrated_device a'
     \<and> (DAC_out2 (dacs a') = DAC_out2 (dacs a)
        \<or> (\<exists>v. DAC_out2 (dacs a') = Some v \<and> CapDAMin (PCap_DataConvert (dev (mbs a))) \<le> v
                \<and> v \<le> CapDAMax (PCap_DataConvert (dev (mbs a)))))"
  using collect_returns [OF assms, of S tick tick'] by (auto simp: output_kept_def)

text \<open>C21.  The main loop goes round: with no frame pending, a calibrated device in order comes from
  the head of the loop through the measurement, the temperature and the upload back to the head of
  the loop, again calibrated and in order, so that the watchdog is fed.\<close>

theorem loop_goes_round:
  assumes "app_inv a" "calibrated_device a" "pc a = At_modbus" "RX_Updata_Flag (port (mbs a)) = 0"
  shows "\<exists>a'. ((\<lambda>r. Option.bind r (main_loop H S tick tick')) ^^ 4) (Some a) = Some a'
     \<and> pc a' = At_modbus \<and> app_inv a' \<and> calibrated_device a'"
proof -
  let ?a1 = "a\<lparr>pc := At_collect\<rparr>"
  have 1: "main_loop H S tick tick' a = Some ?a1" "app_inv ?a1" "calibrated_device ?a1"
    using assms by (simp_all add: main_loop_def loop_modbus_def Sensor_USART_Get_RX_Updata_Flag_def calibrated_device_def)
  obtain a2 where 2: "loop_collect S tick tick' ?a1 = Some a2" "calibrated_device a2" "pc a2 = At_adc"
    using collect_returns [OF 1(3), of S tick tick'] by blast
  have i2: "app_inv a2" using app_inv_collect [OF 1(2) 2(1)] by simp
  then obtain a3 where 3: "loop_adc a2 = Some a3" "pc a3 = At_event" "calibrated_device a3"
    using adc_returns [of a2] 2(2) by (auto simp: app_inv_def)
  have i3: "app_inv a3" using app_inv_adc [OF i2 3(1)] by simp
  then obtain a4 where 4: "loop_event tick tick' a3 = Some a4" "pc a4 = At_modbus" "calibrated_device a4"
    using event_returns [of a3 tick tick'] 3(3) by (auto simp: app_inv_def)
  have i4: "app_inv a4" using app_inv_event [OF i3 4(1)] by simp
  have "((\<lambda>r. Option.bind r (main_loop H S tick tick')) ^^ 4) (Some a) = Some a4"
    using 1(1) 2(1,3) 3(1,2) 4(1) by (simp add: eval_nat_numeral main_loop_def)
  with 4 i4 show ?thesis by blast
qed

section \<open>A device that works\<close>

definition app0 :: "pchip app" where
  "app0 = \<lparr>pc = At_modbus, mbs = mb_with [], flt = filter_buf0,
     adcs = adc_sample, dacs = \<lparr>DAC_out1 = None, DAC_out2 = None\<rparr>, pcap = new_chip,
     FilterResult = 0, PCap_Tick_Old = 0, Old_Tick = 0\<rparr>"

lemma static_ok_app0: "static_ok app0"
  by (simp add: static_ok_def app0_def bufs_ok_with filter_arrays_def filter_buf0_def adc_arrays_sample)
     (simp add: usart_reset_def)

lemma device_safe_witness:
  "\<exists>a0. main_init st_hal sim_pcap 1750 1320 0 app0 = Some a0
     \<and> list_all valid_event (trace (port (mbs (on_port (dma_rx 7) a0))))"
proof -
  obtain a0 where a0: "main_init st_hal sim_pcap 1750 1320 0 app0 = Some a0"
    using main_init_returns [OF st_hal_flash_hal] by blast
  have "(app_step st_hal sim_pcap)\<^sup>*\<^sup>* a0 (on_port (dma_rx 7) a0)"
    by (rule r_into_rtranclp, rule app_step.rx_byte)
  from device_safe [OF st_hal_flash_hal static_ok_app0 a0 this] a0 show ?thesis by blast
qed

lemma calibrated_app0: "calibrated_device app0"
proof -
  have "SwitchCurFilter 2 P = P\<lparr>FilterBufMax := 2, FilterCycle := 12, FilterStart := 0\<rparr>" for P
    by (simp add: SwitchCurFilter_def)
  then show ?thesis
    by (simp add: calibrated_device_def app0_def mb_with_def dev0_def convert_param0_def filter_param0_def
        conv_ok_def DA_ordered_def filter_inv_def filter_config_def filter_arrays_def filter_buf0_def)
qed

lemma output_in_calibrated_range_witness:
  "\<exists>a'. loop_collect sim_pcap 200 201 app0 = Some a' \<and> calibrated_device a'"
  using output_in_calibrated_range [OF calibrated_app0, of sim_pcap 200 201] by blast

lemma app_inv_app0: "app_inv app0"
  using static_ok_app0 calibrated_app0
  by (simp add: app_inv_def static_ok_def mb_ok_def tx_live_def dac_ok_def calibrated_device_def filter_inv_def)
     (simp add: app0_def mb_with_def dev0_def filter_param0_def SwitchCurFilter_def usart_reset_def)

lemma loop_goes_round_witness:
  "\<exists>a'. ((\<lambda>r. Option.bind r (main_loop st_hal sim_pcap 200 201)) ^^ 4) (Some app0) = Some a' \<and> pc a' = At_modbus"
  using loop_goes_round [OF app_inv_app0 calibrated_app0, of st_hal sim_pcap 200 201]
  by (auto simp: app0_def usart_reset_def)

end
