(* ===== verification/BootPort.thy ===== *)
theory BootPort
  imports Usart
begin

text \<open>
  The RS-485 port of the boot loader.  \<open>usart_bsp.c\<close> and \<open>usart_app.c\<close> are the files of the
  sensor program, built with \<open>USING_CHARMATCH\<close> in place of \<open>USING_UART_TIMEOUT\<close>: a received line
  feed, not a pause on the line, ends a frame, and the time-out callback is the driver's weak
  one.  What does not depend on the configuration is taken from \<open>Usart\<close>.
\<close>

section \<open>The functions that depend on the configuration\<close>

definition boot_USART_Init :: "u8 \<Rightarrow> u8 \<Rightarrow> usart \<Rightarrow> usart" where
  "boot_USART_Init baudrate_code parity_code u =
     (let baudrate = (if baudrate_code = 0 then 4800
                      else if baudrate_code = 1 then 9600
                      else if baudrate_code = 2 then 19200
                      else if baudrate_code = 3 then 38400
                      else if baudrate_code = 4 then 57600
                      else if baudrate_code = 5 then 115200
                      else 9600);
          parity = (if parity_code = 0 then UART_PARITY_NONE
                    else if parity_code = 1 then UART_PARITY_ODD
                    else if parity_code = 2 then UART_PARITY_EVEN
                    else UART_PARITY_NONE);
          u = BSP_USART_UART_Init baudrate parity u;
          u = RS485_RE_DE_GPIO_Init u;
          u = BSP_UART_CharMatch_Config 0x0A u
      in BSP_UART_Receive_DMA 600 u)"

definition boot_CMatchCallback :: "usart \<Rightarrow> usart" where
  "boot_CMatchCallback u =
     (let rx_buf_used = RxXferSize u - DMA_Counter u;
          u = (if RX_OverRun_Flag u \<noteq> 0
               then u\<lparr>RX_Len := rx_buf_used + RxXferSize u - Used_RX_Len u, RX_OverRun_Flag := 0\<rparr>
               else u\<lparr>RX_Len := rx_buf_used - Used_RX_Len u\<rparr>)
      in u\<lparr>Used_RX_Len := rx_buf_used, RX_Updata_Flag := 1\<rparr>)"

definition boot_RxTimoCallback :: "usart \<Rightarrow> usart" where
  "boot_RxTimoCallback u = u"

definition boot_USARTx_IRQHandler :: "usart \<Rightarrow> usart" where
  "boot_USARTx_IRQHandler u =
     (let u = (if flag_RTO (hw u) then boot_RxTimoCallback (u\<lparr>hw := (hw u)\<lparr>flag_RTO := False\<rparr>\<rparr>) else u);
          u = (if flag_CM (hw u) then boot_CMatchCallback (u\<lparr>hw := (hw u)\<lparr>flag_CM := False\<rparr>\<rparr>) else u);
          u = (if flag_TC (hw u) \<and> TCIE (hw u)
               then HAL_UART_TxCpltCallback (u\<lparr>hw := (hw u)\<lparr>TCIE := False\<rparr>, gState_READY := True\<rparr>) else u)
      in u\<lparr>hw := clear_error_flags (hw u)\<rparr>)"

text \<open>The interrupts: a line feed has been received, a transmission has gone out.  The busy wait is
  that of \<open>Usart\<close> with the interrupt handler of this configuration.\<close>

definition char_match :: "usart \<Rightarrow> usart" where
  "char_match u = boot_USARTx_IRQHandler (u\<lparr>hw := (hw u)\<lparr>flag_CM := True\<rparr>\<rparr>)"

definition boot_tx_complete :: "usart \<Rightarrow> usart" where
  "boot_tx_complete u = boot_USARTx_IRQHandler (u\<lparr>hw := (hw u)\<lparr>flag_TC := True, TCIE := True\<rparr>\<rparr>)"

definition boot_wait_TX_Cplt :: "usart \<Rightarrow> usart option" where
  "boot_wait_TX_Cplt u =
     (if Sensor_USART_Get_TX_Cplt_Flag u \<noteq> 0 then Some u
      else if gState_READY u then None
      else Some (boot_tx_complete u))"

section \<open>Reception and transmission\<close>

lemmas boot_irq_simps = boot_USARTx_IRQHandler_def boot_RxTimoCallback_def boot_CMatchCallback_def
  HAL_UART_TxCpltCallback_def Let_def

lemma port_holds_char_match:
  assumes "rx_ready u" "length bs \<le> RECEIVE_SIZE"
  shows "port_holds (char_match (rx_bytes bs u)) bs"
proof -
  have "Sensor_USART_GetReceData rb (char_match v) = Sensor_USART_GetReceData rb (HAL_UART_RxTimoCallback v)" for v rb
    by (rule GetReceData_cong) (simp_all add: char_match_def HAL_UART_RxTimoCallback_def boot_irq_simps)
  then show ?thesis
    using port_holds_callback [OF assms] by (simp add: port_holds_def)
qed

lemma boot_tx_complete_fields:
  "TX_Cplt_Flag (boot_tx_complete u) = 1" "gState_READY (boot_tx_complete u)" "\<not> RE_DE_pin (boot_tx_complete u)"
  "trace (boot_tx_complete u) = trace u" "USART_Receive_Buf (boot_tx_complete u) = USART_Receive_Buf u"
  by (simp_all add: boot_tx_complete_def boot_irq_simps)

text \<open>No interrupt is pending and the port is between two frames.\<close>

definition quiet :: "usart \<Rightarrow> bool" where
  "quiet u \<longleftrightarrow> tx_live u \<and> rx_ready u \<and> \<not> flag_CM (hw u)"

lemma boot_wait_live:
  assumes "tx_live u"
  obtains v where "boot_wait_TX_Cplt u = Some v" "gState_READY v" "TX_Cplt_Flag v \<noteq> 0" "trace v = trace u"
    "USART_Receive_Buf v = USART_Receive_Buf u" "quiet u \<longrightarrow> quiet v"
proof (cases "TX_Cplt_Flag u = 0")
  case True
  have "quiet u \<Longrightarrow> quiet (boot_tx_complete u)"
    by (simp add: quiet_def boot_tx_complete_def boot_irq_simps rx_ready_def tx_live_def clear_error_flags_def)
  with True assms show thesis
    by (intro that [of "boot_tx_complete u"])
      (simp_all add: boot_wait_TX_Cplt_def tx_live_def Sensor_USART_Get_TX_Cplt_Flag_def boot_tx_complete_fields)
next
  case False
  with assms show thesis
    by (intro that [of u]) (simp_all add: boot_wait_TX_Cplt_def tx_live_def Sensor_USART_Get_TX_Cplt_Flag_def)
qed

text \<open>A frame arrives at a quiet port.\<close>

lemma quiet_char_match:
  assumes "quiet u" "length bs \<le> RECEIVE_SIZE"
  shows "quiet (char_match (rx_bytes bs u))" "RX_Updata_Flag (char_match (rx_bytes bs u)) = 1"
    "trace (char_match (rx_bytes bs u)) = trace u"
proof -
  let ?v = "rx_bytes bs u"
  have "rx_ready (rx_timeout ?v)"
    using rx_frame [of u bs "replicate 600 0"] assms by (simp add: quiet_def)
  then have "rx_ready (char_match ?v)"
    by (simp add: rx_ready_def char_match_def boot_irq_simps rx_timeout_def USARTx_IRQHandler_def
        HAL_UART_RxTimoCallback_def HAL_UART_CMatchCallback_def split: if_splits)
  then show "quiet (char_match ?v)"
    using assms(1) rx_bytes_tx [of bs u]
    by (simp add: quiet_def tx_live_def char_match_def boot_irq_simps clear_error_flags_def)
  show "RX_Updata_Flag (char_match ?v) = 1" "trace (char_match ?v) = trace u"
    using rx_bytes_tx [of bs u] by (simp_all add: char_match_def boot_irq_simps)
qed

end
