(* ===== verification/BootCommon.thy ===== *)
theory BootCommon
  imports BootPort
begin

text \<open>
  \<open>STM32F072_BOOT/APP/Src/common.c\<close>: decimal printing and number parsing of the menu, the
  decoding of the firmware data, and the two output functions.  A character is its code, a
  byte; a string buffer is a list with its bounds, so \<open>None\<close> is an access behind the buffer.
\<close>

section \<open>Character classes of \<open>common.h\<close>\<close>

definition IS_CAP_LETTER :: "u8 \<Rightarrow> bool" where "IS_CAP_LETTER c \<longleftrightarrow> c \<ge> 0x41 \<and> c \<le> 0x46"
definition IS_LC_LETTER :: "u8 \<Rightarrow> bool" where "IS_LC_LETTER c \<longleftrightarrow> c \<ge> 0x61 \<and> c \<le> 0x66"
definition IS_09 :: "u8 \<Rightarrow> bool" where "IS_09 c \<longleftrightarrow> c \<ge> 0x30 \<and> c \<le> 0x39"
definition ISVALIDHEX :: "u8 \<Rightarrow> bool" where "ISVALIDHEX c \<longleftrightarrow> IS_CAP_LETTER c \<or> IS_LC_LETTER c \<or> IS_09 c"
definition ISVALIDDEC :: "u8 \<Rightarrow> bool" where "ISVALIDDEC c \<longleftrightarrow> IS_09 c"

text \<open>The conversions are differences of type \<open>int\<close> that are added to a \<open>uint32_t\<close>.\<close>

definition CONVERTDEC :: "u8 \<Rightarrow> u32" where "CONVERTDEC c = ucast c - 0x30"
definition CONVERTHEX_ALPHA :: "u8 \<Rightarrow> u32" where
  "CONVERTHEX_ALPHA c = (if IS_CAP_LETTER c then ucast c - 0x41 + 10 else ucast c - 0x61 + 10)"
definition CONVERTHEX :: "u8 \<Rightarrow> u32" where
  "CONVERTHEX c = (if IS_09 c then ucast c - 0x30 else CONVERTHEX_ALPHA c)"

section \<open>Printing\<close>

text \<open>The loop has ten rounds; \<open>pos\<close> goes back to the start as long as only zeros have come.\<close>

fun int2str_loop :: "nat \<Rightarrow> u8 list \<Rightarrow> u32 \<Rightarrow> u32 \<Rightarrow> u32 \<Rightarrow> u32 \<Rightarrow> u8 list option" where
  "int2str_loop 0 p_str intnum divider pos status = Some p_str"
| "int2str_loop (Suc n) p_str intnum divider pos status = do {
     p_str \<leftarrow> wr p_str (unat pos) (ucast (intnum div divider + 48));
     let pos = pos + 1;
     let intnum = intnum mod divider;
     let divider = divider div 10;
     c \<leftarrow> rd p_str (unat (pos - 1));
     if c = 0x30 \<and> status = 0
     then int2str_loop n p_str intnum divider 0 status
     else int2str_loop n p_str intnum divider pos (status + 1) }"

definition Int2Str :: "u8 list \<Rightarrow> u32 \<Rightarrow> u8 list option" where
  "Int2Str p_str intnum = int2str_loop 10 p_str intnum 1000000000 0 0"

section \<open>Parsing\<close>

text \<open>The hexadecimal loop ends with the index and the value; the decimal loop with the result.
  The fuel of both is the bound \<open>i < 11\<close> of the code.\<close>

fun hex_loop :: "nat \<Rightarrow> u8 list \<Rightarrow> u32 \<Rightarrow> u32 \<Rightarrow> (u32 \<times> u32) option" where
  "hex_loop 0 s i val = Some (i, val)"
| "hex_loop (Suc n) s i val = do {
     c \<leftarrow> rd s (unat i);
     if c = 0 then Some (i, val)
     else if ISVALIDHEX c then hex_loop n s (i + 1) (push_bit 4 val + CONVERTHEX c)
     else Some (i, val) }"

fun dec_loop :: "nat \<Rightarrow> u8 list \<Rightarrow> u32 \<Rightarrow> u32 \<Rightarrow> u32 \<Rightarrow> (u32 \<times> u32) option" where
  "dec_loop 0 s i val p_intnum = Some (0, p_intnum)"
| "dec_loop (Suc n) s i val p_intnum = do {
     c \<leftarrow> rd s (unat i);
     if c = 0 then Some (1, val)
     else if (c = 0x6B \<or> c = 0x4B) \<and> i > 0 then Some (1, push_bit 10 val)
     else if (c = 0x6D \<or> c = 0x4D) \<and> i > 0 then Some (1, push_bit 20 val)
     else if ISVALIDDEC c then dec_loop n s (i + 1) (val * 10 + CONVERTDEC c) p_intnum
     else Some (0, p_intnum) }"

text \<open>\<open>p_intnum\<close> is the caller's variable before the call; the result is the return value and the
  variable.  The second character is read only when the first one is \<open>'0'\<close>.\<close>

definition Str2Int :: "u8 list \<Rightarrow> u32 \<Rightarrow> (u32 \<times> u32) option" where
  "Str2Int p_inputstr p_intnum = do {
     c0 \<leftarrow> rd p_inputstr 0;
     is_hex \<leftarrow> (if c0 = 0x30 then do { c1 \<leftarrow> rd p_inputstr 1; Some (c1 = 0x78 \<or> c1 = 0x58) } else Some False);
     if is_hex then do {
       (i, val) \<leftarrow> hex_loop 9 p_inputstr 2 0;
       c \<leftarrow> rd p_inputstr (unat i);
       if c = 0 then Some (1, val) else Some (0, p_intnum) }
     else dec_loop 11 p_inputstr 0 0 p_intnum }"

section \<open>Decoding\<close>

definition encryptionString :: "u8 list" where
  "encryptionString = map of_char ''ShenZhen Soway Science and Technology Development Co., Ltd.    '' @ [0]"

fun decode_loop :: "nat \<Rightarrow> nat \<Rightarrow> u32 \<Rightarrow> u8 list \<Rightarrow> u8 list option" where
  "decode_loop i 0 DecodeIndex pSource = Some pSource"
| "decode_loop i (Suc n) DecodeIndex pSource = do {
     k \<leftarrow> rd encryptionString (unat DecodeIndex);
     let key = k + 11;
     let DecodeIndex = DecodeIndex + 1;
     let DecodeIndex = (if DecodeIndex \<ge> 64 then 0 else DecodeIndex);
     b \<leftarrow> rd pSource i;
     pSource \<leftarrow> wr pSource i (b XOR key);
     decode_loop (Suc i) n DecodeIndex pSource }"

definition Decoding :: "u8 list \<Rightarrow> u32 \<Rightarrow> u8 list option" where
  "Decoding pSource Length = decode_loop 0 (unat Length) 0 pSource"

section \<open>Output\<close>

fun strlen_loop :: "nat \<Rightarrow> u8 list \<Rightarrow> u16 \<Rightarrow> u16 option" where
  "strlen_loop 0 s len = None"
| "strlen_loop (Suc n) s len = do {
     c \<leftarrow> rd s (unat len);
     if c \<noteq> 0 then strlen_loop n s (len + 1) else Some len }"

definition Serial_PutString :: "u8 list \<Rightarrow> usart \<Rightarrow> usart option" where
  "Serial_PutString p_string u = do {
     len \<leftarrow> strlen_loop 65536 p_string 0;
     u \<leftarrow> boot_wait_TX_Cplt u;
     let u = Sensor_USART_Clear_TX_Cplt_Flag u;
     (_, u) \<leftarrow> BSP_UART_Transmit_DMA p_string len u;
     Some u }"

definition Serial_PutByte :: "u8 \<Rightarrow> usart \<Rightarrow> (u8 \<times> usart) option" where
  "Serial_PutByte param u = do {
     u \<leftarrow> boot_wait_TX_Cplt u;
     let u = Sensor_USART_Clear_TX_Cplt_Flag u;
     BSP_UART_Transmit_DMA [param] 1 u }"

section \<open>Decoding is an exclusive or with a key stream\<close>

definition key_at :: "nat \<Rightarrow> u8" where
  "key_at i = encryptionString ! (i mod 64) + 11"

definition decoded :: "u8 list \<Rightarrow> u8 list" where
  "decoded bs = map (\<lambda>i. bs ! i XOR key_at i) [0..<length bs]"

lemma length_encryptionString: "length encryptionString = 64"
  by (simp add: encryptionString_def)

lemma length_decoded [simp]: "length (decoded bs) = length bs"
  by (simp add: decoded_def)

lemma decoded_involution [simp]: "decoded (decoded bs) = bs"
  by (rule nth_equalityI) (simp_all add: decoded_def xor.assoc)

lemma next_DecodeIndex:
  "unat k = i mod 64 \<Longrightarrow> unat (if k + 1 \<ge> 64 then 0 else k + 1 :: u32) = Suc i mod 64"
  by (auto simp: mod_Suc word_le_nat_alt unat_word_ariths)

lemma decode_loop_xor:
  "unat k = i mod 64 \<Longrightarrow> i + n \<le> length src \<Longrightarrow> decode_loop i n k src
     = Some (take i src @ map (\<lambda>j. src ! j XOR key_at j) [i..<i + n] @ drop (i + n) src)"
proof (induction n arbitrary: i k src)
  case (Suc n)
  let ?k = "if k + 1 \<ge> 64 then 0 else k + 1" and ?b = "src ! i XOR key_at i"
  have "rd encryptionString (unat k) = Some (encryptionString ! (i mod 64))"
    using Suc.prems by (simp add: length_encryptionString)
  then have "decode_loop i (Suc n) k src = decode_loop (Suc i) n ?k (src[i := ?b])"
    using Suc.prems by (simp add: Let_def key_at_def)
  also have "\<dots> = Some (take (Suc i) (src[i := ?b])
      @ map (\<lambda>j. src[i := ?b] ! j XOR key_at j) [Suc i..<Suc i + n] @ drop (Suc i + n) (src[i := ?b]))"
    using Suc.prems next_DecodeIndex [of k i] by (intro Suc.IH) simp_all
  also have "map (\<lambda>j. src[i := ?b] ! j XOR key_at j) [Suc i..<Suc i + n]
      = map (\<lambda>j. src ! j XOR key_at j) [Suc i..<Suc i + n]"
    by (rule map_cong) auto
  also have "take (Suc i) (src[i := ?b]) = take i src @ [?b]"
    using Suc.prems by (simp add: take_update_Suc)
  finally show ?case
    using Suc.prems by (simp add: upt_conv_Cons del: decode_loop.simps upt_Suc)
qed simp

lemma Decoding_decoded:
  assumes "unat n \<le> length src"
  shows "Decoding src n = Some (decoded (take (unat n) src) @ drop (unat n) src)"
proof -
  have "map (\<lambda>j. src ! j XOR key_at j) [0..<unat n] = decoded (take (unat n) src)"
    using assms by (simp add: decoded_def)
  then show ?thesis
    using assms decode_loop_xor [of 0 0 "unat n" src] by (simp add: Decoding_def)
qed

section \<open>Properties\<close>

text \<open>C36.  Decoding twice gives the data back, so the tool that encodes a firmware image may apply
  the same function: for every length inside the buffer the first call returns, keeps the
  bytes behind the length, and the second one restores the buffer.\<close>

theorem decoding_roundtrip:
  assumes "unat n \<le> length src"
  shows "\<exists>buf. Decoding src n = Some buf \<and> length buf = length src
     \<and> drop (unat n) buf = drop (unat n) src \<and> Decoding buf n = Some src"
proof (intro exI conjI)
  let ?buf = "decoded (take (unat n) src) @ drop (unat n) src"
  show "Decoding src n = Some ?buf" by (rule Decoding_decoded [OF assms])
  show "length ?buf = length src" "drop (unat n) ?buf = drop (unat n) src" using assms by simp_all
  show "Decoding ?buf n = Some src" using assms by (subst Decoding_decoded) simp_all
qed

lemma decoding_roundtrip_witness:
  "\<exists>buf. Decoding (replicate 100 0x20) 70 = Some buf \<and> length buf = 100
     \<and> drop 70 buf = replicate 30 0x20 \<and> Decoding buf 70 = Some (replicate 100 0x20)"
  using decoding_roundtrip [of 70 "replicate 100 0x20"] by simp

end
