(* ===== verification/BootAscii.thy ===== *)
theory BootAscii
  imports BootPort
begin

text \<open>
  \<open>STM32F072_BOOT/APP/Src/modbus_ascii.c\<close>: the frames of the boot loader's protocol, a colon,
  pairs of hexadecimal digits, a longitudinal checksum, carriage return and line feed.  The
  received frame is decoded in place.
\<close>

abbreviation (input) "ERR_NONE \<equiv> (0 :: u8)"
abbreviation (input) "ERR_ASCII \<equiv> (1 :: u8)"
abbreviation (input) "ERR_LRC \<equiv> (2 :: u8)"
abbreviation (input) "ERR_INVALID_DATA \<equiv> (3 :: u8)"
abbreviation (input) "ASCII_HEAD_DATA \<equiv> (0x3A :: u8)"
abbreviation (input) "ASCII_TAIL_FIRST_DATA \<equiv> (0x0D :: u8)"
abbreviation (input) "USART_ASCII_MAX_DATALEN \<equiv> (600 :: nat)"
abbreviation (input) "USART_ASCII_MIN_DATALEN \<equiv> (80 :: nat)"

section \<open>Digits and packets\<close>

definition MODBUS_ASCII_HexToAscii :: "u8 \<Rightarrow> nat \<Rightarrow> u8 list \<Rightarrow> u8 list option" where
  "MODBUS_ASCII_HexToAscii cyHexData p buf = do {
     let cyTemp = cyHexData div 16;
     buf \<leftarrow> (if 10 > cyTemp then wr buf p (cyTemp + 0x30) else wr buf p (cyTemp - 10 + 0x41));
     let cyTemp = cyHexData mod 16;
     (if 10 > cyTemp then wr buf (p + 1) (cyTemp + 0x30) else wr buf (p + 1) (cyTemp - 10 + 0x41)) }"

definition MODBUS_ASCII_AsciiToHex :: "u8 list \<Rightarrow> nat \<Rightarrow> u8 option" where
  "MODBUS_ASCII_AsciiToHex buf p = do {
     a \<leftarrow> rd buf p;
     let cyHexData = 0;
     let cyHexData = cyHexData + (if 0x41 > a then a - 0x30 else if 0x61 > a then a - 0x41 + 10 else a - 0x61 + 10);
     let cyHexData = cyHexData * 16;
     b \<leftarrow> rd buf (p + 1);
     Some (cyHexData + (if 0x41 > b then b - 0x30 else if 0x61 > b then b - 0x41 + 10 else b - 0x61 + 10)) }"

text \<open>The accumulator is an \<open>int8_t\<close>; its arithmetic is that of the byte modulo 256.\<close>

fun lrc_loop :: "nat \<Rightarrow> nat \<Rightarrow> u8 \<Rightarrow> u8 list \<Rightarrow> u8 option" where
  "lrc_loop i 0 cyLrcVal buf = Some cyLrcVal"
| "lrc_loop i (Suc n) cyLrcVal buf = do { b \<leftarrow> rd buf i; lrc_loop (Suc i) n (cyLrcVal + b) buf }"

definition MODBUS_GetLrc :: "u8 list \<Rightarrow> u16 \<Rightarrow> u8 option" where
  "MODBUS_GetLrc pCyRtuBuf cyLen = do {
     cyLrcVal \<leftarrow> lrc_loop 0 (unat cyLen) 0 pCyRtuBuf;
     Some (- cyLrcVal) }"

text \<open>The two pointers of \<open>AsciiPacketToRtuPacket\<close> point into the same array, the digits from
  \<open>src\<close> on and the result at its start.\<close>

fun ascii_loop :: "nat \<Rightarrow> nat \<Rightarrow> nat \<Rightarrow> u8 list \<Rightarrow> u8 list option" where
  "ascii_loop src i 0 buf = Some buf"
| "ascii_loop src i (Suc n) buf = do {
     v \<leftarrow> MODBUS_ASCII_AsciiToHex buf (src + i * 2);
     buf \<leftarrow> wr buf i v;
     ascii_loop src (Suc i) n buf }"

definition MODBUS_ASCII_AsciiPacketToRtuPacket :: "nat \<Rightarrow> u16 \<Rightarrow> u8 list \<Rightarrow> (u16 \<times> u8 list) option" where
  "MODBUS_ASCII_AsciiPacketToRtuPacket src cyAsciiLen buf =
     (if 1 = cyAsciiLen mod 2 then Some (0, buf)
      else do {
        let cyRtuLen = cyAsciiLen div 2;
        buf \<leftarrow> ascii_loop src 0 (unat cyRtuLen) buf;
        Some (cyRtuLen, buf) })"

fun rtu_loop :: "u8 list \<Rightarrow> nat \<Rightarrow> nat \<Rightarrow> nat \<Rightarrow> u8 list \<Rightarrow> u8 list option" where
  "rtu_loop rtu dst i 0 buf = Some buf"
| "rtu_loop rtu dst i (Suc n) buf = do {
     b \<leftarrow> rd rtu i;
     buf \<leftarrow> MODBUS_ASCII_HexToAscii b (dst + i * 2) buf;
     rtu_loop rtu dst (Suc i) n buf }"

definition MODBUS_ASCII_RtuPacketToAsciiPacket :: "u8 list \<Rightarrow> u16 \<Rightarrow> nat \<Rightarrow> u8 list \<Rightarrow> (u16 \<times> u8 list) option" where
  "MODBUS_ASCII_RtuPacketToAsciiPacket pCyRtuBuf cyRtuLen dst buf = do {
     let cyAsciiLen = cyRtuLen * 2;
     buf \<leftarrow> rtu_loop pCyRtuBuf dst 0 (unat cyRtuLen) buf;
     Some (cyAsciiLen, buf) }"

text \<open>The index at which the check stops; it is the length when every character is a digit.\<close>

fun check_ascii_loop :: "nat \<Rightarrow> nat \<Rightarrow> nat \<Rightarrow> u8 list \<Rightarrow> nat option" where
  "check_ascii_loop p i 0 buf = Some i"
| "check_ascii_loop p i (Suc n) buf = do {
     c \<leftarrow> rd buf (p + i);
     if 0x30 > c then Some i
     else if 0x39 < c \<and> c < 0x41 then Some i
     else if 0x46 < c \<and> c < 0x61 then Some i
     else if 0x66 < c then Some i
     else check_ascii_loop p (Suc i) n buf }"

definition MODBUS_ASCII_CheckAscii :: "nat \<Rightarrow> u16 \<Rightarrow> u8 list \<Rightarrow> u8 option" where
  "MODBUS_ASCII_CheckAscii p cyLen buf = do {
     i \<leftarrow> check_ascii_loop p 0 (unat cyLen) buf;
     Some (if i = unat cyLen then ERR_NONE else ERR_ASCII) }"

section \<open>Receiving and sending\<close>

text \<open>\<open>pCyLen\<close> is the caller's variable before the call; the result is the error code, the variable
  and the buffer.  \<open>*pCyLen - 1\<close> is an \<open>int\<close>: it is stored in the \<open>uint16_t\<close> parameter of
  \<open>MODBUS_GetLrc\<close>, and it is -1 as an index when the packet is empty.\<close>

definition MODBUS_ASCII_RecvData :: "u8 list \<Rightarrow> u16 \<Rightarrow> usart \<Rightarrow> (u8 \<times> u16 \<times> u8 list) option" where
  "MODBUS_ASCII_RecvData cyRecvBuff pCyLen u = do {
     (recv_len, buf) \<leftarrow> Sensor_USART_GetReceData cyRecvBuff u;
     let n = unat recv_len;
     if n \<le> 2 then Some (ERR_INVALID_DATA, pCyLen, buf)
     else do {
       c \<leftarrow> rd buf 0;
       if c \<noteq> ASCII_HEAD_DATA then Some (ERR_INVALID_DATA, pCyLen, buf)
       else do {
         c \<leftarrow> rd buf (n - 2);
         if c \<noteq> ASCII_TAIL_FIRST_DATA then Some (ERR_INVALID_DATA, pCyLen, buf)
         else do {
           e \<leftarrow> MODBUS_ASCII_CheckAscii 1 (recv_len - 3) buf;
           if ERR_ASCII = e then Some (ERR_ASCII, pCyLen, buf)
           else do {
             (pCyLen, buf) \<leftarrow> MODBUS_ASCII_AsciiPacketToRtuPacket 1 (recv_len - 3) buf;
             cyLrc \<leftarrow> MODBUS_GetLrc buf (pCyLen - 1);
             l \<leftarrow> (if pCyLen = 0 then None else rd buf (unat pCyLen - 1));
             if cyLrc \<noteq> l then Some (ERR_LRC, pCyLen, buf)
             else Some (ERR_NONE, pCyLen - 1, buf) } } } } }"

text \<open>\<open>Send_Buf\<close> is a static array of 80 bytes; the result is the return value, the array and
  the port.\<close>

definition MODBUS_ASCII_SendData :: "u8 list \<Rightarrow> u16 \<Rightarrow> u8 list \<Rightarrow> usart \<Rightarrow> (u8 \<times> u8 list \<times> usart) option" where
  "MODBUS_ASCII_SendData cySendBuff cyLen Send_Buf u =
     (if cyLen = 0 then Some (0, Send_Buf, u)
      else if unat cyLen * 2 + 5 > USART_ASCII_MAX_DATALEN then Some (0, Send_Buf, u)
      else do {
        buf \<leftarrow> wr Send_Buf 0 ASCII_HEAD_DATA;
        let cyAsciiLen = 1;
        cyLrc \<leftarrow> MODBUS_GetLrc cySendBuff cyLen;
        (k, buf) \<leftarrow> MODBUS_ASCII_RtuPacketToAsciiPacket cySendBuff cyLen 1 buf;
        let cyAsciiLen = cyAsciiLen + k;
        buf \<leftarrow> MODBUS_ASCII_HexToAscii cyLrc (unat cyAsciiLen) buf;
        let cyAsciiLen = cyAsciiLen + 2;
        buf \<leftarrow> wr buf (unat cyAsciiLen) 0x0D;
        let cyAsciiLen = cyAsciiLen + 1;
        buf \<leftarrow> wr buf (unat cyAsciiLen) 0x0A;
        let cyAsciiLen = cyAsciiLen + 1;
        u \<leftarrow> boot_wait_TX_Cplt u;
        let u = Sensor_USART_Clear_TX_Cplt_Flag u;
        let u = TX_ON u;
        (result, u) \<leftarrow> BSP_UART_Transmit_DMA buf cyAsciiLen u;
        Some (result, buf, u) })"


section \<open>What a frame is\<close>

definition hex_digit :: "u8 \<Rightarrow> u8" where
  "hex_digit d = (if 10 > d then d + 0x30 else d - 10 + 0x41)"

definition hex2 :: "u8 \<Rightarrow> u8 list" where
  "hex2 b = [hex_digit (b div 16), hex_digit (b mod 16)]"

definition digit_val :: "u8 \<Rightarrow> u8" where
  "digit_val c = (if 0x41 > c then c - 0x30 else if 0x61 > c then c - 0x41 + 10 else c - 0x61 + 10)"

definition is_digit :: "u8 \<Rightarrow> bool" where
  "is_digit c \<longleftrightarrow> \<not> (0x30 > c \<or> (0x39 < c \<and> c < 0x41) \<or> (0x46 < c \<and> c < 0x61) \<or> 0x66 < c)"

fun pairs :: "u8 list \<Rightarrow> u8 list" where
  "pairs (a # b # cs) = (digit_val a * 16 + digit_val b) # pairs cs"
| "pairs cs = []"

lemma pairs_Nil_iff: "even (length cs) \<Longrightarrow> pairs cs = [] \<longleftrightarrow> cs = []"
  by (cases cs rule: pairs.cases) simp_all

definition with_lrc :: "u8 list \<Rightarrow> u8 list" where
  "with_lrc bs = bs @ [- sum_list bs]"

text \<open>The frame of a packet: its bytes and their checksum between the colon and the line end.\<close>

definition frame_of :: "u8 list \<Rightarrow> u8 list" where
  "frame_of bs = 0x3A # concat (map hex2 (with_lrc bs)) @ [0x0D, 0x0A]"

lemma length_hex2 [simp]: "length (hex2 b) = 2"
  by (simp add: hex2_def)

lemma length_concat_hex2 [simp]: "length (concat (map hex2 bs)) = 2 * length bs"
  by (induction bs) simp_all

lemma length_frame_of: "length (frame_of bs) = 2 * length bs + 5"
  by (simp add: frame_of_def with_lrc_def)

lemma unat_hex_digit: "d < 16 \<Longrightarrow> unat (hex_digit d) = (if unat d < 10 then unat d + 48 else unat d + 55)"
  by (auto simp: hex_digit_def word_less_nat_alt unat_word_ariths unat_sub_if')

lemma nibbles: "b div 16 < 16" "b mod 16 < (16 :: u8)"
  using unat_u8_less [of b]
  by (simp_all add: word_less_nat_alt unat_div unat_mod)

lemma digit_hex: "d < 16 \<Longrightarrow> digit_val (hex_digit d) = d"
  by (rule word_unat_eq_iff [THEN iffD2])
    (auto simp: digit_val_def unat_hex_digit word_less_nat_alt unat_word_ariths unat_sub_if')

lemma is_digit_hex: "d < 16 \<Longrightarrow> is_digit (hex_digit d)"
  by (auto simp: is_digit_def unat_hex_digit word_less_nat_alt)

lemma is_digit_hex2: "c \<in> set (hex2 b) \<Longrightarrow> is_digit c"
  by (auto simp: hex2_def nibbles is_digit_hex)

lemma pairs_append_hex2: "pairs (hex2 b @ cs) = b # pairs cs"
  by (simp add: hex2_def digit_hex nibbles div_mult_mod_eq)

lemma pairs_hex [simp]: "pairs (concat (map hex2 bs)) = bs"
  by (induction bs) (simp_all add: pairs_append_hex2)

lemma length_pairs [simp]: "length (pairs cs) = length cs div 2"
  by (induction cs rule: pairs.induct) auto

section \<open>The loops\<close>

lemma HexToAscii_wrn:
  "p + 2 \<le> length buf \<Longrightarrow> MODBUS_ASCII_HexToAscii b p buf = wrn buf p (hex2 b)"
  using wr_wrn [of p buf "hex_digit (b div 16)" "[hex_digit (b mod 16)]"]
  by (simp add: MODBUS_ASCII_HexToAscii_def Let_def hex2_def hex_digit_def wr_wrn_single [symmetric]
      split: if_splits)

lemma AsciiToHex_val:
  "p + 2 \<le> length buf \<Longrightarrow>
     MODBUS_ASCII_AsciiToHex buf p = Some (digit_val (buf ! p) * 16 + digit_val (buf ! (p + 1)))"
  by (simp add: MODBUS_ASCII_AsciiToHex_def digit_val_def Let_def)

lemma lrc_loop_sum:
  "i + n \<le> length buf \<Longrightarrow> lrc_loop i n v buf = Some (v + sum_list (take n (drop i buf)))"
proof (induction n arbitrary: i v)
  case (Suc n)
  then have "take (Suc n) (drop i buf) = buf ! i # take n (drop (Suc i) buf)"
    by (simp add: Cons_nth_drop_Suc [symmetric])
  with Suc show ?case by (simp add: ac_simps)
qed simp

lemma GetLrc_sum:
  "unat n \<le> length buf \<Longrightarrow> MODBUS_GetLrc buf n = Some (- sum_list (take (unat n) buf))"
  by (simp add: MODBUS_GetLrc_def lrc_loop_sum)

text \<open>Decoding in place is safe because the reader is always ahead of the writer.\<close>

lemma ascii_loop_pairs:
  "src + 2 * (i + n) \<le> length buf \<Longrightarrow> 0 < src \<Longrightarrow>
     ascii_loop src i n buf = Some (take i buf @ pairs (take (2 * n) (drop (src + 2 * i) buf)) @ drop (i + n) buf)"
proof (induction n arbitrary: i buf)
  case (Suc n)
  let ?v = "digit_val (buf ! (src + i * 2)) * 16 + digit_val (buf ! (src + i * 2 + 1))"
  have split: "take (2 * Suc n) (drop (src + 2 * i) buf)
      = buf ! (src + i * 2) # buf ! (src + i * 2 + 1) # take (2 * n) (drop (src + 2 * Suc i) buf)"
    using Suc.prems by (simp add: Cons_nth_drop_Suc [symmetric] mult.commute)
  have "ascii_loop src (Suc i) n (buf[i := ?v]) = Some (take (Suc i) (buf[i := ?v])
      @ pairs (take (2 * n) (drop (src + 2 * Suc i) (buf[i := ?v]))) @ drop (Suc i + n) (buf[i := ?v]))"
    using Suc.prems by (intro Suc.IH) simp_all
  also have "take (Suc i) (buf[i := ?v]) = take i buf @ [?v]"
    using Suc.prems by (intro take_update_Suc [THEN trans]) simp_all
  finally show ?case
    using Suc.prems unfolding split by (simp add: AsciiToHex_val)
qed simp

lemma rtu_loop_hex:
  "i + n \<le> length rtu \<Longrightarrow> dst + 2 * (i + n) \<le> length buf \<Longrightarrow>
     rtu_loop rtu dst i n buf = wrn buf (dst + 2 * i) (concat (map hex2 (take n (drop i rtu))))"
proof (induction n arbitrary: i buf)
  case (Suc n)
  have split: "take (Suc n) (drop i rtu) = rtu ! i # take n (drop (Suc i) rtu)"
    using Suc.prems by (simp add: Cons_nth_drop_Suc [symmetric])
  obtain zs where zs: "wrn buf (dst + 2 * i) (hex2 (rtu ! i)) = Some zs" "length zs = length buf"
    using Suc.prems by (simp add: wrn_def)
  have "rtu_loop rtu dst (Suc i) n zs
      = wrn zs (dst + 2 * i + length (hex2 (rtu ! i))) (concat (map hex2 (take n (drop (Suc i) rtu))))"
    using Suc.prems zs(2) by (subst Suc.IH) simp_all
  then show ?case
    using Suc.prems zs wrn_append [of "dst + 2 * i" "hex2 (rtu ! i)" buf "concat (map hex2 (take n (drop (Suc i) rtu)))"]
    by (simp add: HexToAscii_wrn split mult.commute [of i])
qed simp

lemma check_ascii_loop_all:
  "p + i + n \<le> length buf \<Longrightarrow> \<exists>k. check_ascii_loop p i n buf = Some k
     \<and> (k = i + n \<longleftrightarrow> list_all is_digit (take n (drop (p + i) buf)))"
proof (induction n arbitrary: i)
  case (Suc n)
  have split: "take (Suc n) (drop (p + i) buf) = buf ! (p + i) # take n (drop (p + Suc i) buf)"
    using Suc.prems by (simp add: Cons_nth_drop_Suc [symmetric])
  show ?case
  proof (cases "is_digit (buf ! (p + i))")
    case True
    then have "check_ascii_loop p i (Suc n) buf = check_ascii_loop p (Suc i) n buf"
      using Suc.prems by (auto simp: is_digit_def)
    with Suc.IH [of "Suc i"] Suc.prems True show ?thesis by (simp add: split)
  next
    case False
    then have "check_ascii_loop p i (Suc n) buf = Some i"
      using Suc.prems by (auto simp: is_digit_def)
    with False show ?thesis by (simp add: split)
  qed
qed simp

lemma CheckAscii_digits:
  "p + unat n \<le> length buf \<Longrightarrow> MODBUS_ASCII_CheckAscii p n buf
     = Some (if list_all is_digit (take (unat n) (drop p buf)) then ERR_NONE else ERR_ASCII)"
  using check_ascii_loop_all [of p 0 "unat n" buf] by (auto simp: MODBUS_ASCII_CheckAscii_def)


section \<open>Receiving, on every frame\<close>

text \<open>The digits between the colon and the line end, and what they stand for.\<close>

definition frame_digits :: "u8 list \<Rightarrow> u8 list" where
  "frame_digits bs = take (length bs - 3) (tl bs)"

definition well_framed :: "u8 list \<Rightarrow> bool" where
  "well_framed bs \<longleftrightarrow> 2 < length bs \<and> bs ! 0 = 0x3A \<and> bs ! (length bs - 2) = 0x0D"

text \<open>The contract of \<open>MODBUS_ASCII_RecvData\<close> on a frame \<open>bs\<close> and the caller's buffer \<open>rb\<close>.\<close>

definition recv_spec :: "u8 list \<Rightarrow> u8 list \<Rightarrow> u16 \<Rightarrow> (u8 \<times> u16 \<times> u8 list) option" where
  "recv_spec bs rb old =
     (let buf = bs @ drop (length bs) rb; ds = frame_digits bs; p = pairs ds; buf' = p @ drop (length p) buf in
      if \<not> well_framed bs then Some (ERR_INVALID_DATA, old, buf)
      else if \<not> list_all is_digit ds then Some (ERR_ASCII, old, buf)
      else if odd (length ds) \<or> ds = [] then None
      else if sum_list p \<noteq> 0 then Some (ERR_LRC, of_nat (length p), buf')
      else Some (ERR_NONE, of_nat (length p - 1), buf'))"

lemma unat_of_nat_u16: "n < 65536 \<Longrightarrow> unat (of_nat n :: u16) = n"
  by (simp add: unat_of_nat)

lemma of_nat_pred: "0 < n \<Longrightarrow> (of_nat n :: u16) - 1 = of_nat (n - 1)"
  by (cases n) simp_all

lemma length_frame_digits: "length (frame_digits bs) = length bs - 3"
  by (simp add: frame_digits_def)

lemma frame_digits_drop:
  "2 < length bs \<Longrightarrow> take (length bs - 3) (drop (Suc 0) (bs @ ys)) = frame_digits bs"
  by (cases bs) (simp_all add: frame_digits_def)

lemma AsciiPacket_pairs:
  assumes "1 + unat n \<le> length buf" "even (unat n)"
  shows "MODBUS_ASCII_AsciiPacketToRtuPacket 1 n buf
     = Some (n div 2, pairs (take (unat n) (drop 1 buf)) @ drop (unat n div 2) buf)"
proof -
  have "n mod 2 = 0"
    using assms(2) by (simp add: word_unat_eq_iff unat_mod even_iff_mod_2_eq_zero)
  then show ?thesis
    using assms ascii_loop_pairs [of 1 0 "unat n div 2" buf]
    by (simp add: MODBUS_ASCII_AsciiPacketToRtuPacket_def Let_def unat_div)
qed

lemma AsciiPacket_odd: "odd (unat n) \<Longrightarrow> MODBUS_ASCII_AsciiPacketToRtuPacket src n buf = Some (0, buf)"
  by (simp add: MODBUS_ASCII_AsciiPacketToRtuPacket_def word_unat_eq_iff unat_mod odd_iff_mod_2_eq_one)

lemma sum_list_butlast_last: "xs \<noteq> [] \<Longrightarrow> sum_list xs = sum_list (butlast xs) + (last xs :: u8)"
  by (metis append_butlast_last_id sum_list.Cons sum_list.Nil sum_list_append add_0_right)

text \<open>The comparison of the stored checksum with the computed one.\<close>

lemma lrc_check:
  assumes "p \<noteq> []" "length p \<le> 600" "buf = p @ ys"
  shows "MODBUS_GetLrc buf (of_nat (length p) - 1) = Some (- sum_list (butlast p))"
    and "buf ! (length p - 1) = last p"
    and "- sum_list (butlast p) = last p \<longleftrightarrow> sum_list p = 0"
    and "unat (of_nat (length p) - 1 :: u16) = length p - 1"
proof -
  have l: "0 < length p" using assms(1) by simp
  then have "(of_nat (length p) :: u16) - 1 = of_nat (length p - 1)" by (rule of_nat_pred)
  then show u: "unat (of_nat (length p) - 1 :: u16) = length p - 1"
    using assms(2) by (simp only: unat_of_nat_u16)
  have "take (length p - 1) buf = butlast p"
    using assms(3) by (simp add: butlast_conv_take)
  then show "MODBUS_GetLrc buf (of_nat (length p) - 1) = Some (- sum_list (butlast p))"
    using assms(3) by (subst GetLrc_sum) (simp_all add: u)
  show "buf ! (length p - 1) = last p"
    using assms(1,3) l by (simp add: nth_append last_conv_nth)
  show "- sum_list (butlast p) = last p \<longleftrightarrow> sum_list p = 0"
    unfolding sum_list_butlast_last [OF assms(1)] by (metis add.commute add_eq_0_iff)
qed

text \<open>An empty packet: the length 65535 makes the checksum run out of the buffer.\<close>

lemma GetLrc_outside: "length buf < unat n \<Longrightarrow> MODBUS_GetLrc buf n = None"
proof -
  have "lrc_loop i k v buf = None" if "length buf < i + k" "i \<le> length buf" for i k v
    using that
  proof (induction k arbitrary: i v)
    case (Suc k)
    then show ?case by (cases "i < length buf") auto
  qed simp
  from this [of 0] show "length buf < unat n \<Longrightarrow> MODBUS_GetLrc buf n = None"
    by (simp add: MODBUS_GetLrc_def)
qed

lemma RecvData_spec:
  assumes "port_holds u bs" "length rb = 600"
  shows "MODBUS_ASCII_RecvData rb old u = recv_spec bs rb old"
proof -
  let ?buf = "bs @ drop (length bs) rb" and ?ds = "frame_digits bs"
  have len: "length bs \<le> 600" "length ?buf = 600"
    using assms by (simp_all add: port_holds_def)
  have get: "Sensor_USART_GetReceData rb u = Some (of_nat (length bs), ?buf)"
    using assms by (simp add: port_holds_def)
  have n: "unat (of_nat (length bs) :: u16) = length bs"
    using len by (simp add: unat_of_nat_u16)
  show ?thesis
  proof (cases "well_framed bs")
    case False
    then show ?thesis
      using len by (auto simp: MODBUS_ASCII_RecvData_def get n recv_spec_def well_framed_def Let_def nth_append)
  next
    case True
    then have w: "2 < length bs" "bs ! 0 = 0x3A" "bs ! (length bs - 2) = 0x0D" "?buf ! 0 = 0x3A"
      "?buf ! (length bs - 2) = 0x0D"
      by (auto simp: well_framed_def nth_append)
    have "(of_nat (length bs) :: u16) - 3 = of_nat (length bs - 3)" using w(1) by simp
    then have m: "unat ((of_nat (length bs) :: u16) - 3) = length ?ds"
      using len by (simp only: unat_of_nat_u16 length_frame_digits)
    have ds: "take (length ?ds) (drop (Suc 0) ?buf) = ?ds"
      using frame_digits_drop [OF w(1)] by (simp add: length_frame_digits)
    have head: "MODBUS_ASCII_RecvData rb old u = (
        if \<not> list_all is_digit ?ds then Some (ERR_ASCII, old, ?buf)
        else do {
          (pCyLen, buf) \<leftarrow> MODBUS_ASCII_AsciiPacketToRtuPacket 1 (of_nat (length bs) - 3) ?buf;
          cyLrc \<leftarrow> MODBUS_GetLrc buf (pCyLen - 1);
          l \<leftarrow> (if pCyLen = 0 then None else rd buf (unat pCyLen - 1));
          if cyLrc \<noteq> l then Some (ERR_LRC, pCyLen, buf) else Some (ERR_NONE, pCyLen - 1, buf) })"
      using w len m ds CheckAscii_digits [of 1 "of_nat (length bs) - 3" ?buf]
      by (simp add: MODBUS_ASCII_RecvData_def get n length_frame_digits Let_def)
    show ?thesis
    proof (cases "odd (length ?ds) \<or> ?ds = []")
      case True
      have none: "MODBUS_GetLrc buf (0 - 1) = None" if "length buf = 600" for buf
        using that by (intro GetLrc_outside) (simp add: unsigned_minus_1_eq_mask mask_eq_exp_minus_1)
      obtain buf where "MODBUS_ASCII_AsciiPacketToRtuPacket 1 (of_nat (length bs) - 3) ?buf = Some (0, buf)"
        "length buf = 600"
      proof (cases "odd (length ?ds)")
        case True
        with m len(2) that show thesis by (simp add: AsciiPacket_odd)
      next
        case False
        with True m have "(of_nat (length bs) :: u16) - 3 = 0" by (simp add: word_unat_eq_iff)
        then show thesis
          using len(2) that by (simp add: MODBUS_ASCII_AsciiPacketToRtuPacket_def)
      qed
      with True \<open>well_framed bs\<close> none show ?thesis
        by (simp add: head recv_spec_def Let_def)
    next
      case False
      define p where "p = pairs ?ds"
      let ?buf' = "p @ drop (length p) ?buf"
      have p: "p \<noteq> []" "length p \<le> 600" "length p = length ?ds div 2"
        using False len by (auto simp: p_def length_frame_digits pairs_Nil_iff)
      have l: "0 < length p" using p(1) by simp
      have u: "(of_nat (length p) :: u16) \<noteq> 0" "unat (of_nat (length p) :: u16) = length p"
        using l p(2) by (simp_all add: word_unat_eq_iff unat_of_nat_u16)
      have "((of_nat (length bs) :: u16) - 3) div 2 = of_nat (length p)"
        using p(2,3) m by (simp add: word_unat_eq_iff unat_div unat_of_nat_u16)
      then have a: "MODBUS_ASCII_AsciiPacketToRtuPacket 1 (of_nat (length bs) - 3) ?buf
          = Some (of_nat (length p), ?buf')"
        using False len w(1) m p(3) ds
        by (subst AsciiPacket_pairs) (simp_all add: length_frame_digits p_def)
      note c = lrc_check [OF p(1,2), of ?buf' "drop (length p) ?buf", OF refl]
      have r: "rd ?buf' (length p - 1) = Some (last p)"
        unfolding c(2) [symmetric]
        by (rule rd_Some, rule less_le_trans [of _ "length p"]) (use l in simp_all)
      have "MODBUS_ASCII_RecvData rb old u = (if \<not> list_all is_digit ?ds then Some (ERR_ASCII, old, ?buf)
          else if sum_list p \<noteq> 0 then Some (ERR_LRC, of_nat (length p), ?buf')
          else Some (ERR_NONE, of_nat (length p) - 1, ?buf'))"
        unfolding head a Option.bind.bind_lunit prod.case c(1) u(2) r if_not_P [OF u(1)] c(3) by simp
      then show ?thesis
        using False \<open>well_framed bs\<close>
        by (simp only: recv_spec_def Let_def p_def [symmetric] of_nat_pred [OF l]) simp
    qed
  qed
qed


section \<open>Sending\<close>

lemma SendData_frame:
  assumes u: "tx_live u" and n: "0 < unat n" "unat n \<le> 37" "unat n \<le> length msg" and sb: "length sb = 80"
  obtains sb' u' where "MODBUS_ASCII_SendData msg n sb u = Some (0, sb', u')" "length sb' = 80"
    "tx_live u'" "trace u' = trace u @ [EvTx True (frame_of (take (unat n) msg))]"
    "USART_Receive_Buf u' = USART_Receive_Buf u" "quiet u \<longrightarrow> quiet u'"
proof -
  let ?m = "take (unat n) msg" and ?k = "unat n"
  let ?hex = "concat (map hex2 ?m)" and ?tail = "hex2 (- sum_list ?m) @ [0x0D, 0x0A]"
  have m: "length ?m = ?k" using n by simp
  have u16: "unat (1 + n * 2 :: u16) = 1 + 2 * ?k" "unat (3 + n * 2 :: u16) = 3 + 2 * ?k"
    "unat (4 + n * 2 :: u16) = 4 + 2 * ?k" "unat (5 + n * 2 :: u16) = 5 + 2 * ?k"
    using n by (simp_all add: unat_word_ariths)
  define b0 where "b0 = 0x3A # tl sb"
  define b1 where "b1 = 0x3A # ?hex @ drop (1 + 2 * ?k) sb"
  define b2 where "b2 = 0x3A # ?hex @ hex2 (- sum_list ?m) @ drop (3 + 2 * ?k) sb"
  define b4 where "b4 = frame_of ?m @ drop (5 + 2 * ?k) sb"
  obtain c ss where ss: "sb = c # ss" using sb by (cases sb) auto
  have 0: "wr sb 0 0x3A = Some b0" "length b0 = 80" using sb by (simp_all add: b0_def ss)
  have 1: "MODBUS_ASCII_RtuPacketToAsciiPacket msg n (Suc 0) b0 = Some (n * 2, b1)"
    using n 0 m by (simp add: MODBUS_ASCII_RtuPacketToAsciiPacket_def rtu_loop_hex wrn_def b0_def b1_def ss
        split: if_splits)
  have 2: "MODBUS_ASCII_HexToAscii (- sum_list ?m) (Suc (2 * ?k)) b1 = Some b2"
    using n sb m by (simp add: HexToAscii_wrn wrn_def b1_def b2_def eval_nat_numeral)
  have "wrn b2 (3 + 2 * ?k) [0x0D, 0x0A] = Some b4"
    using n sb m wrn_at [of "3 + 2 * ?k" "0x3A # ?hex @ hex2 (- sum_list ?m)" "[0x0D, 0x0A]" "drop (3 + 2 * ?k) sb"]
    by (simp add: b2_def b4_def frame_of_def with_lrc_def add.commute)
  then obtain b3 where 3: "wr b2 (3 + 2 * ?k) 0x0D = Some b3" "wr b3 (4 + 2 * ?k) 0x0A = Some b4"
    using n sb m wr_wrn [of "3 + 2 * ?k" b2 "0x0D" "[0x0A]"]
    by (auto simp: b2_def wr_wrn_single [symmetric] split: Option.bind_splits)
  have len: "length b4 = 80" using n sb m by (simp add: b4_def length_frame_of)
  have bytes: "rdn b4 0 (5 + 2 * ?k) = Some (frame_of ?m)"
    using n m len by (simp add: rdn_def b4_def length_frame_of)
  obtain v where v: "boot_wait_TX_Cplt u = Some v" "gState_READY v" "TX_Cplt_Flag v \<noteq> 0"
    "trace v = trace u" "USART_Receive_Buf v = USART_Receive_Buf u" "quiet u \<longrightarrow> quiet v"
    by (rule boot_wait_live [OF u])
  have nz: "n \<noteq> 0" "5 + n * 2 \<noteq> (0 :: u16)"
    using n(1) u16(4) by (auto simp: word_unat_eq_iff)
  show thesis
    by (rule that [of b4 "TX_ON (v\<lparr>TX_Cplt_Flag := 0, gState_READY := False,
             trace := trace u @ [EvTx True (frame_of ?m)]\<rparr>)"])
      (use n nz v len in \<open>simp_all add: quiet_def rx_ready_def MODBUS_ASCII_SendData_def 0 1 2 3 u16 GetLrc_sum Let_def bytes
          BSP_UART_Transmit_DMA_def Sensor_USART_Clear_TX_Cplt_Flag_def tx_live_def\<close>)
qed


section \<open>Properties\<close>

text \<open>The frame of a packet is read back as the packet followed by its checksum.\<close>

lemma frame_digits_cons: "frame_digits (0x3A # ds @ [0x0D, b]) = ds"
  by (simp add: frame_digits_def)

lemma well_framed_cons: "well_framed (0x3A # ds @ [0x0D, b])"
  by (simp add: well_framed_def nth_append)

lemma hex_all_digits: "list_all is_digit (concat (map hex2 ps))"
  using is_digit_hex2 by (auto simp: list_all_iff)

text \<open>Any packet \<open>ps\<close>, with whatever checksum, between colon and line end.\<close>

lemma recv_spec_hex:
  assumes "ps \<noteq> []"
  shows "recv_spec (0x3A # concat (map hex2 ps) @ [0x0D, 0x0A]) rb old
    = Some (if sum_list ps \<noteq> 0 then ERR_LRC else ERR_NONE,
            of_nat (if sum_list ps \<noteq> 0 then length ps else length ps - 1),
            ps @ drop (length ps) ((0x3A # concat (map hex2 ps) @ [0x0D, 0x0A]) @ drop (2 * length ps + 3) rb))"
  using assms hex_all_digits [of ps]
  by (auto simp: recv_spec_def frame_digits_cons well_framed_cons Let_def hex2_def numeral_3_eq_3 dest: arg_cong [of _ _ length])

lemma frame_of_not_Nil: "with_lrc bs \<noteq> []" and sum_with_lrc: "sum_list (with_lrc bs) = 0"
  by (simp_all add: with_lrc_def)

text \<open>C31.  \<open>MODBUS_ASCII_RecvData\<close> on every content of the port, over all branches: frames
  without colon or carriage return, with a character that is no hexadecimal digit, with a
  wrong checksum, and good ones, for which the buffer holds the decoded packet.  A frame with
  an odd number of digits or none at all is the exception: the decoded length 0 makes the
  checksum loop read 65535 bytes, beyond the buffer (\<open>None\<close>).\<close>

theorem recv_every_frame:
  assumes "port_holds u bs" "length rb = 600"
  shows "MODBUS_ASCII_RecvData rb old u = recv_spec bs rb old"
  by (rule RecvData_spec [OF assms])

lemma recv_every_frame_witness:
  "MODBUS_ASCII_RecvData (replicate 600 0) 9 (char_match (rx_bytes [0x3A, 0x34, 0x31, 0x0D, 0x0A] usart_reset))
     = recv_spec [0x3A, 0x34, 0x31, 0x0D, 0x0A] (replicate 600 0) 9"
  using recv_every_frame [OF port_holds_char_match [OF rx_ready_reset], of "[0x3A, 0x34, 0x31, 0x0D, 0x0A]"
      "replicate 600 0" 9] by simp

text \<open>C32.  The frame format round trip: what \<open>MODBUS_ASCII_SendData\<close> puts on the line for a
  packet that fits its 80-byte buffer, with the RS-485 driver enabled, is accepted by
  \<open>MODBUS_ASCII_RecvData\<close> at a port that received it, wherever in its circular buffer, with
  the same packet and its length; and the sender can send again.\<close>

theorem ascii_frame_roundtrip:
  assumes "tx_live u" "0 < unat n" "unat n \<le> 37" "unat n \<le> length msg" "length sb = 80"
    and "rx_ready v" "length rb = 600"
  shows "\<exists>sb' u' frame rb'. MODBUS_ASCII_SendData msg n sb u = Some (0, sb', u') \<and> tx_live u'
     \<and> trace u' = trace u @ [EvTx True frame]
     \<and> MODBUS_ASCII_RecvData rb old (char_match (rx_bytes frame v)) = Some (ERR_NONE, n, rb')
     \<and> take (unat n) rb' = take (unat n) msg"
proof -
  let ?m = "take (unat n) msg"
  obtain sb' u' where s: "MODBUS_ASCII_SendData msg n sb u = Some (0, sb', u')" "tx_live u'"
    "trace u' = trace u @ [EvTx True (frame_of ?m)]"
    by (rule SendData_frame [OF assms(1-5)])
  have "length (frame_of ?m) \<le> RECEIVE_SIZE" using assms(3) by (simp add: length_frame_of)
  then have "port_holds (char_match (rx_bytes (frame_of ?m) v)) (frame_of ?m)"
    by (rule port_holds_char_match [OF assms(6)])
  note RecvData_spec [OF this assms(7), of old, unfolded frame_of_def recv_spec_hex [OF frame_of_not_Nil]]
  then have "MODBUS_ASCII_RecvData rb old (char_match (rx_bytes (frame_of ?m) v))
      = Some (ERR_NONE, n, with_lrc ?m @ drop (unat n + 1) (frame_of ?m @ drop (2 * unat n + 5) rb))"
    using assms(4) by (simp add: sum_with_lrc frame_of_def) (simp add: with_lrc_def add.commute)
  with s assms(4) show ?thesis
    by (intro exI conjI) (assumption | simp add: with_lrc_def)+
qed

lemma ascii_frame_roundtrip_witness:
  "\<exists>sb' u' frame rb'. MODBUS_ASCII_SendData [0x41, 0x41, 0, 1, 0, 1, 0] 7 (replicate 80 0) usart_reset = Some (0, sb', u')
     \<and> tx_live u' \<and> trace u' = trace usart_reset @ [EvTx True frame]
     \<and> MODBUS_ASCII_RecvData (replicate 600 9) 3 (char_match (rx_bytes frame usart_reset)) = Some (ERR_NONE, 7, rb')
     \<and> take 7 rb' = [0x41, 0x41, 0, 1, 0, 1, 0]"
  using ascii_frame_roundtrip [of usart_reset 7 "[0x41, 0x41, 0, 1, 0, 1, 0]" "replicate 80 0" usart_reset
      "replicate 600 9" 3, OF _ _ _ _ _ rx_ready_reset]
  by (simp add: tx_live_def usart_reset_def)

text \<open>The checksum: when exactly one byte of an accepted packet arrives changed, the frame is
  answered with \<open>ERR_LRC\<close>.\<close>

theorem lrc_detects_one_byte:
  assumes "length ps \<le> 298" "sum_list ps = 0" "i < length ps" "b \<noteq> ps ! i" "length rb = 600"
    and "port_holds u (0x3A # concat (map hex2 (ps[i := b])) @ [0x0D, 0x0A])"
  shows "\<exists>len rb'. MODBUS_ASCII_RecvData rb old u = Some (ERR_LRC, len, rb')"
proof -
  have "sum_list (ps[i := b]) = sum_list ps + b - ps ! i"
    using assms(3) by (induction ps arbitrary: i) (auto simp: nth_Cons split: nat.split)
  with assms(2,4) have "sum_list (ps[i := b]) \<noteq> 0" by simp
  moreover have "ps[i := b] \<noteq> []" using assms(3) by auto
  ultimately show ?thesis
    using RecvData_spec [OF assms(6,5), of old] by (simp add: recv_spec_hex)
qed

lemma lrc_detects_one_byte_witness:
  "\<exists>len rb'. MODBUS_ASCII_RecvData (replicate 600 0) 3
     (char_match (rx_bytes [0x3A, 0x34, 0x31, 0x42, 0x45, 0x0D, 0x0A] usart_reset)) = Some (ERR_LRC, len, rb')"
proof -
  have h: "0x3A # concat (map hex2 ([0x41, 0xBF][1 := 0xBE])) @ [0x0D, 0x0A] = [0x3A, 0x34, 0x31, 0x42, 0x45, 0x0D, 0x0A]"
    by (simp add: hex2_def hex_digit_def)
  have "port_holds (char_match (rx_bytes [0x3A, 0x34, 0x31, 0x42, 0x45, 0x0D, 0x0A] usart_reset))
      [0x3A, 0x34, 0x31, 0x42, 0x45, 0x0D, 0x0A]"
    by (rule port_holds_char_match [OF rx_ready_reset]) simp
  then show ?thesis
    using lrc_detects_one_byte [of "[0x41, 0xBF]" 1 "0xBE" "replicate 600 0"
        "char_match (rx_bytes [0x3A, 0x34, 0x31, 0x42, 0x45, 0x0D, 0x0A] usart_reset)" 3, unfolded h]
    by simp
qed

end
