(* ===== verification/BootFlash.thy ===== *)
theory BootFlash
  imports InFlash
begin

text \<open>
  The flash of the boot loader: \<open>STM32F072_BOOT/APP/Src/flash_if.c\<close>, which erases and programs
  the application area, and \<open>BSP/Src/In_Flash.c\<close> in the boot loader's configuration, one page
  of flags behind that area.  The option bytes are another part of the driver, a parameter like
  the flash: \<open>'o\<close> is their state and the record \<open>hal_ob\<close> the driver's functions on them.
\<close>

section \<open>\<open>flash_if.c\<close>\<close>

abbreviation APPLICATION_ADDRESS :: nat where "APPLICATION_ADDRESS \<equiv> 0x08003000"
abbreviation USER_FLASH_END_ADDRESS :: nat where "USER_FLASH_END_ADDRESS \<equiv> 0x0801E000"

abbreviation (input) "FLASHIF_OK \<equiv> (0 :: u32)"
abbreviation (input) "FLASHIF_ERASEKO \<equiv> (1 :: u32)"
abbreviation (input) "FLASHIF_WRITINGCTRL_ERROR \<equiv> (2 :: u32)"
abbreviation (input) "FLASHIF_WRITING_ERROR \<equiv> (3 :: u32)"
abbreviation (input) "FLASHIF_PROTECTION_ERRROR \<equiv> (4 :: u32)"

definition FLASH_If_Init :: "flash \<Rightarrow> flash" where
  "FLASH_If_Init f = HAL_FLASH_Lock (HAL_FLASH_Unlock f)"

definition FLASH_If_Erase :: "hal_flash \<Rightarrow> u32 \<Rightarrow> flash \<Rightarrow> u32 \<times> flash" where
  "FLASH_If_Erase H start f =
     (let NbrOfPages = (0x0801E000 - start) div 2048;
          (status, f) = hErase H (unat start) (unat NbrOfPages) (HAL_FLASH_Unlock f);
          f = HAL_FLASH_Lock f
      in (if status \<noteq> HAL_OK then FLASHIF_ERASEKO else FLASHIF_OK, f))"

text \<open>A word of the flash, little-endian.\<close>

definition flash_word :: "flash \<Rightarrow> nat \<Rightarrow> u32 option" where
  "flash_word f a = do {
     b0 \<leftarrow> flash_get f a; b1 \<leftarrow> flash_get f (a + 1); b2 \<leftarrow> flash_get f (a + 2); b3 \<leftarrow> flash_get f (a + 3);
     Some (be32 b3 b2 b1 b0) }"

text \<open>The loop of \<open>FLASH_If_Write\<close>, for the remaining number of words.  The two error returns are
  inside it; the flash is locked only when the loop runs to its end.  An address below 0x20000 is
  that of the flash as it is mapped at 0 (\<open>phys\<close>): programming there changes the boot loader's own
  code, and the verification reads it back.\<close>

fun if_write_loop :: "hal_flash \<Rightarrow> nat \<Rightarrow> nat \<Rightarrow> u32 \<Rightarrow> u32 list \<Rightarrow> flash \<Rightarrow> (u32 \<times> flash) option" where
  "if_write_loop H i 0 destination p_source f = Some (FLASHIF_OK, HAL_FLASH_Lock f)"
| "if_write_loop H i (Suc n) destination p_source f =
     (if \<not> destination \<le> 0x0801E000 - 4 then Some (FLASHIF_OK, HAL_FLASH_Lock f)
      else do {
        w \<leftarrow> rd p_source i;
        let (st, f) = hProgram H (unat destination) w f;
        if st = HAL_OK then do {
          r \<leftarrow> flash_word f (unat destination);
          if r \<noteq> w then Some (FLASHIF_WRITINGCTRL_ERROR, f)
          else if_write_loop H (Suc i) n (destination + 4) p_source f }
        else Some (FLASHIF_WRITING_ERROR, f) })"

definition FLASH_If_Write :: "hal_flash \<Rightarrow> u32 \<Rightarrow> u32 list \<Rightarrow> u32 \<Rightarrow> flash \<Rightarrow> (u32 \<times> flash) option" where
  "FLASH_If_Write H destination p_source len f =
     if_write_loop H 0 (unat len) destination p_source (HAL_FLASH_Unlock f)"

section \<open>Option bytes\<close>

record ob_program =
  WRPState_enable :: bool
  WRPPage :: u32
  USERConfig :: u8

text \<open>\<open>oGetConfig\<close> is \<open>HAL_FLASHEx_OBGetConfig\<close> (the fields \<open>WRPPage\<close>, where a set bit is an
  unprotected pair of pages, and \<open>USERConfig\<close>), \<open>oErase\<close> and \<open>oProgram\<close> are
  \<open>HAL_FLASHEx_OBErase\<close> and \<open>HAL_FLASHEx_OBProgram\<close> with \<open>OPTIONBYTE_WRP\<close>; the Boolean is the
  \<open>LOCK\<close> bit of the flash.\<close>

record 'o hal_ob =
  oGetConfig :: "'o \<Rightarrow> u32 \<times> u8"
  oUnlock :: "'o \<Rightarrow> 'o"
  oErase :: "bool \<Rightarrow> 'o \<Rightarrow> HAL_StatusTypeDef \<times> 'o"
  oProgram :: "ob_program \<Rightarrow> bool \<Rightarrow> 'o \<Rightarrow> HAL_StatusTypeDef \<times> 'o"

abbreviation (input) "FLASH_PAGE_TO_BE_PROTECTED \<equiv> (0x000FFFF0 :: u32)"
abbreviation (input) "FLASHIF_PROTECTION_NONE \<equiv> (0 :: u32)"
abbreviation (input) "FLASHIF_PROTECTION_WRPENABLED \<equiv> (2 :: u32)"
abbreviation (input) "FLASHIF_WRP_ENABLE \<equiv> (0 :: u32)"
abbreviation (input) "FLASHIF_WRP_DISABLE \<equiv> (1 :: u32)"

definition FLASH_If_GetWriteProtectionStatus :: "'o hal_ob \<Rightarrow> 'o \<Rightarrow> flash \<Rightarrow> u32 \<times> flash" where
  "FLASH_If_GetWriteProtectionStatus OB ob f =
     (let f = HAL_FLASH_Unlock f;
          (wrp, user) = oGetConfig OB ob;
          f = HAL_FLASH_Lock f;
          ProtectedPAGE = NOT wrp AND FLASH_PAGE_TO_BE_PROTECTED
      in (if ProtectedPAGE \<noteq> 0 then FLASHIF_PROTECTION_WRPENABLED else FLASHIF_PROTECTION_NONE, f))"

definition FLASH_If_WriteProtectionConfig :: "'o hal_ob \<Rightarrow> u32 \<Rightarrow> 'o \<Rightarrow> flash \<Rightarrow> u32 \<times> 'o \<times> flash" where
  "FLASH_If_WriteProtectionConfig OB protectionstate ob f =
     (let (wrp, user) = oGetConfig OB ob;
          config_new = \<lparr>WRPState_enable = (protectionstate = FLASHIF_WRP_ENABLE), WRPPage = 0, USERConfig = user\<rparr>;
          ProtectedPAGE = wrp OR FLASH_PAGE_TO_BE_PROTECTED;
          f = HAL_FLASH_Unlock f;
          ob = oUnlock OB ob;
          (result, ob) = oErase OB (fl_lock f) ob;
          (result, ob) = (if result = HAL_OK then oProgram OB (config_new\<lparr>WRPPage := ProtectedPAGE\<rparr>) (fl_lock f) ob
                          else (result, ob))
      in (if result = HAL_OK then FLASHIF_OK else FLASHIF_PROTECTION_ERRROR, ob, f))"

section \<open>\<open>In_Flash.c\<close> of the boot loader\<close>

abbreviation BOOT_BASE :: nat where "BOOT_BASE \<equiv> 0x0801E000"
abbreviation BOOT_END :: nat where "BOOT_END \<equiv> 0x07FF"

definition boot_Read_OneByte :: "flash \<Rightarrow> u16 \<Rightarrow> u8 option" where
  "boot_Read_OneByte f RWAddr = flash_get f (BOOT_BASE + unat RWAddr)"

fun boot_read_loop :: "flash \<Rightarrow> u16 \<Rightarrow> nat \<Rightarrow> u8 list option" where
  "boot_read_loop f RWAddress 0 = Some []"
| "boot_read_loop f RWAddress (Suc n) = do {
     b \<leftarrow> boot_Read_OneByte f RWAddress;
     bs \<leftarrow> boot_read_loop f (RWAddress + 1) n;
     Some (b # bs) }"

definition boot_Read_MultiBytes :: "flash \<Rightarrow> u16 \<Rightarrow> u16 \<Rightarrow> u8 list option" where
  "boot_Read_MultiBytes f RWAddr Rdlen = boot_read_loop f RWAddr (unat Rdlen)"

definition boot_Erase_Page :: "hal_flash \<Rightarrow> flash \<Rightarrow> u16 \<Rightarrow> u8 \<Rightarrow> HAL_StatusTypeDef \<times> flash" where
  "boot_Erase_Page H f RWAddr PageNb =
     (let (sta, f') = hErase H (BOOT_BASE + unat (page_of RWAddr)) (unat PageNb) (HAL_FLASH_Unlock f)
      in (sta, HAL_FLASH_Lock f'))"

definition boot_Write_OneByte :: "hal_flash \<Rightarrow> flash \<Rightarrow> u16 \<Rightarrow> u8 \<Rightarrow> (u8 \<times> flash) option" where
  "boot_Write_OneByte H f RWAddr WrData =
     (if BOOT_END < unat RWAddr then Some (OP_FAILED, f)
      else do {
        let WrAddr = page_of RWAddr;
        buf \<leftarrow> boot_Read_MultiBytes f WrAddr 2048;
        buf \<leftarrow> wr buf (unat RWAddr mod FLASH_PAGE_SIZE) WrData;
        v \<leftarrow> rd buf (unat RWAddr mod FLASH_PAGE_SIZE);
        let (est, f1) = (if v \<noteq> 0xFF then boot_Erase_Page H f RWAddr 1 else (HAL_OK, f));
        if est \<noteq> HAL_OK then Some (OP_FAILED, f1)
        else do {
          let (st, f2) = program_words H (unat WrAddr + BOOT_BASE) (words_of buf) est (HAL_FLASH_Unlock f1);
          let f3 = HAL_FLASH_Lock f2;
          Some (if st \<noteq> HAL_OK then OP_FAILED else OP_SUCCESS, f3) } })"

section \<open>Programming the application area\<close>

lemma flash_word_bytes:
  "flash_word f a = Some w \<Longrightarrow> k < 4 \<Longrightarrow> fl_mem f (phys (a + k)) = byte_of k w"
  using less4_cases [of k]
  by (auto simp: flash_word_def flash_get_def bytes_be32 bytes_be32 [unfolded One_nat_def]
      split: if_splits Option.bind_splits)

lemma next_dest: "d \<le> 0x0801DFFC \<Longrightarrow> unat (d + 4 :: u32) = unat d + 4"
  by (simp add: unat_word_ariths word_le_nat_alt)

context flash_hal
begin

lemma if_write_frame:
  "if_write_loop H i n d src f = Some (r, f')
    \<Longrightarrow> \<forall>i < 4 * n. unat d + i < USER_FLASH_END_ADDRESS \<longrightarrow> x \<noteq> phys (unat d + i) \<Longrightarrow> fl_mem f' x = fl_mem f x"
proof (induction n arbitrary: i d f)
  case (Suc n)
  show ?case
  proof (cases "d \<le> 0x0801DFFC")
    case True
    then obtain w st f1 where w: "rd src i = Some w" "hProgram H (unat d) w f = (st, f1)"
      using Suc.prems(1) by (auto split: Option.bind_splits prod.splits)
    have d: "unat d \<le> 0x0801DFFC" "unat (d + 4) = unat d + 4"
      using True by (simp_all add: next_dest word_le_nat_alt)
    have 1: "fl_mem f1 x = fl_mem f x"
      by (rule program_frame [OF w(2)]) (use Suc.prems(2) d in auto)
    have "x \<noteq> phys (unat (d + 4) + j)" if "j < 4 * n" "unat (d + 4) + j < USER_FLASH_END_ADDRESS" for j
      using Suc.prems(2) [rule_format, of "4 + j"] that d by (simp add: add.assoc)
    then have 2: "\<forall>j < 4 * n. unat (d + 4) + j < USER_FLASH_END_ADDRESS \<longrightarrow> x \<noteq> phys (unat (d + 4) + j)" by blast
    show ?thesis
    proof (cases "f' = f1")
      case False
      with Suc.prems(1) True w have "if_write_loop H (Suc i) n (d + 4) src f1 = Some (r, f')"
        by (auto split: Option.bind_splits if_splits)
      from Suc.IH [OF this 2] 1 show ?thesis by simp
    qed (simp add: 1)
  qed (use Suc.prems in auto)
qed auto

lemma if_write_high_frame:
  assumes "if_write_loop H i n d src f = Some (r, f')" "FLASH_LOW \<le> unat d"
    and "x < unat d \<or> unat d + 4 * n \<le> x \<or> USER_FLASH_END_ADDRESS \<le> x"
  shows "fl_mem f' x = fl_mem f x"
  by (rule if_write_frame [OF assms(1)]) (use assms(2,3) in auto)

text \<open>The error returns leave the flash unlocked, the others lock it.\<close>

lemma if_write_result:
  "if_write_loop H i n d src f = Some (r, f') \<Longrightarrow> \<not> fl_lock f
    \<Longrightarrow> (r = FLASHIF_OK \<or> r = FLASHIF_WRITINGCTRL_ERROR \<or> r = FLASHIF_WRITING_ERROR) \<and> (fl_lock f' \<longleftrightarrow> r = FLASHIF_OK)"
proof (induction n arbitrary: i d f)
  case (Suc n)
  show ?case
  proof (cases "d \<le> 0x0801DFFC")
    case True
    then obtain w st f1 where w: "rd src i = Some w" "hProgram H (unat d) w f = (st, f1)"
      using Suc.prems(1) by (auto split: Option.bind_splits prod.splits)
    have 1: "\<not> fl_lock f1" using program_lock [OF w(2)] Suc.prems(2) by simp
    show ?thesis
    proof (cases "if_write_loop H (Suc i) n (d + 4) src f1 = Some (r, f')")
      case False
      with Suc.prems(1) True w have "r \<noteq> 0 \<and> f' = f1 \<and> (r = 2 \<or> r = 3)"
        by (auto split: Option.bind_splits if_splits)
      with 1 show ?thesis by auto
    qed (use Suc.IH 1 in blast)
  qed (use Suc.prems in auto)
qed auto

text \<open>After \<open>FLASHIF_OK\<close> every word that lies in the area has been read back.\<close>

lemma if_write_ok:
  "if_write_loop H i n d src f = Some (FLASHIF_OK, f') \<Longrightarrow> j < n \<Longrightarrow> unat d + 4 * j \<le> 0x0801DFFC \<Longrightarrow> k < 4 \<Longrightarrow> FLASH_LOW \<le> unat d
    \<Longrightarrow> fl_mem f' (unat d + 4 * j + k) = byte_of k (src ! (i + j))"
proof (induction n arbitrary: i d f j)
  case (Suc n)
  have d: "d \<le> 0x0801DFFC" using Suc.prems(3) by (simp add: word_le_nat_alt)
  then obtain w f1 where w: "rd src i = Some w" "flash_word f1 (unat d) = Some w"
    "if_write_loop H (Suc i) n (d + 4) src f1 = Some (FLASHIF_OK, f')"
    using Suc.prems(1) by (auto split: Option.bind_splits prod.splits if_splits)
  show ?case
  proof (cases j)
    case 0
    have "fl_mem f' (unat d + k) = fl_mem f1 (unat d + k)"
      by (rule if_write_high_frame [OF w(3)]) (use Suc.prems(4,5) d in \<open>auto simp: next_dest\<close>)
    also have "\<dots> = byte_of k w" using flash_word_bytes [OF w(2) Suc.prems(4)] Suc.prems(5) by simp
    finally show ?thesis using w(1) 0 by (auto simp: rd_def split: if_splits)
  next
    case (Suc m)
    then show ?thesis
      using Suc.IH [OF w(3), of m] Suc.prems(2-5) d by (simp add: next_dest add.assoc)
  qed
qed simp

end

context reliable_flash
begin

lemma if_write_reliable:
  "good f \<Longrightarrow> \<not> fl_lock f \<Longrightarrow> unat d mod 4 = 0 \<Longrightarrow> FLASH_LOW \<le> unat d \<Longrightarrow> unat d + 4 * n \<le> USER_FLASH_END_ADDRESS
    \<Longrightarrow> i + n \<le> length src \<Longrightarrow> (\<And>x. unat d \<le> x \<Longrightarrow> x < unat d + 4 * n \<Longrightarrow> fl_mem f x = 0xFF)
    \<Longrightarrow> \<exists>f'. if_write_loop H i n d src f = Some (FLASHIF_OK, f') \<and> good f'"
proof (induction n arbitrary: i d f)
  case 0
  then show ?case by (simp add: good_lock)
next
  case (Suc n)
  let ?w = "src ! i"
  obtain st f1 where p: "hProgram H (unat d) ?w f = (st, f1)" by fastforce
  have d: "d \<le> 0x0801DFFC" using Suc.prems(5) by (simp add: word_le_nat_alt)
  note d4 = next_dest [OF d]
  have ok: "st = HAL_OK"
    by (rule program_succeeds [OF p Suc.prems(1-4)]) (use Suc.prems(5,7) in auto)
  have "fl_mem f1 (unat d + k) = byte_of k ?w" if "k < 4" for k
    by (rule program_high_ok [OF p [unfolded ok] Suc.prems(2-4) that])
  from this [of 0] this [of 1] this [of 2] this [of 3]
  have readback: "flash_word f1 (unat d) = Some ?w"
    using Suc.prems(4,5) by (simp add: flash_word_def flash_get_def be32_bytes be32_bytes_Suc)
  have "\<exists>f'. if_write_loop H (Suc i) n (d + 4) src f1 = Some (FLASHIF_OK, f') \<and> good f'"
  proof (rule Suc.IH)
    show "good f1" by (rule program_good [OF p Suc.prems(1)])
    show "\<not> fl_lock f1" using program_lock [OF p] Suc.prems(2) by simp
    show "fl_mem f1 x = 0xFF" if "unat (d + 4) \<le> x" "x < unat (d + 4) + 4 * n" for x
      using that program_high_frame [OF p Suc.prems(4), of x] Suc.prems(7) [of x] by (auto simp: d4)
  qed (use Suc.prems in \<open>simp_all add: d4 mod_add_left_eq\<close>)
  then show ?case
    using d p ok readback Suc.prems(6) by simp
qed

end

lemma words_of_nth: "4 * j + 3 < length bs \<Longrightarrow> k < 4 \<Longrightarrow> byte_of k (words_of bs ! j) = bs ! (4 * j + k)"
proof (induction bs arbitrary: j rule: words_of.induct)
  case (1 b0 b1 b2 b3 bs)
  show ?case
  proof (cases j)
    case 0
    then show ?thesis
      using less4_cases [OF "1.prems"(2)] by (auto simp: bytes_be32 bytes_be32 [unfolded One_nat_def])
  next
    case (Suc m)
    have "byte_of k (words_of bs ! m) = bs ! (4 * m + k)"
      by (rule "1.IH") (use "1.prems" Suc in simp_all)
    then show ?thesis by (simp add: Suc nth_Cons' numeral_eq_Suc)
  qed
qed auto

section \<open>The application area as a whole\<close>

text \<open>Addresses of the application area, from its start to the flags of the boot loader.\<close>

definition app_area :: "nat \<Rightarrow> bool" where
  "app_area x \<longleftrightarrow> APPLICATION_ADDRESS \<le> x \<and> x < USER_FLASH_END_ADDRESS"

definition flag_page :: "nat \<Rightarrow> bool" where
  "flag_page x \<longleftrightarrow> BOOT_BASE \<le> x \<and> x < BOOT_BASE + FLASH_PAGE_SIZE"

lemma app_pages: "unat ((0x0801E000 - 0x08003000) div 2048 :: u32) = 54"
  by simp

context flash_hal
begin

lemma erase_app:
  assumes "FLASH_If_Erase H 0x08003000 f = (r, f')"
  shows "fl_lock f'" "\<not> app_area x \<Longrightarrow> fl_mem f' x = fl_mem f x"
    "r = FLASHIF_OK \<Longrightarrow> app_area x \<Longrightarrow> fl_mem f' x = 0xFF"
proof -
  obtain st f1 where e: "hErase H 0x08003000 54 (HAL_FLASH_Unlock f) = (st, f1)" by fastforce
  then have r: "f' = HAL_FLASH_Lock f1" "r = (if st \<noteq> HAL_OK then 1 else 0)"
    using assms by (simp_all add: FLASH_If_Erase_def)
  show "fl_lock f'" by (simp add: r)
  show "fl_mem f' x = fl_mem f x" if "\<not> app_area x"
    using erase_frame [OF e, of x] that by (auto simp: r app_area_def)
  show "fl_mem f' x = 0xFF" if "r = FLASHIF_OK" "app_area x"
    using erase_ok [of "0x08003000" 54 "HAL_FLASH_Unlock f" f1 x] e that
    by (auto simp: r app_area_def split: if_splits)
qed

lemma boot_erase_page:
  assumes "boot_Erase_Page H f a 1 = (st, f1)" "unat a \<le> BOOT_END"
  shows "fl_lock f1" "\<not> flag_page x \<Longrightarrow> fl_mem f1 x = fl_mem f x"
proof -
  have a: "unat (page_of a) = 0" using assms(2) by (simp add: unat_page_of)
  show "fl_lock f1" "\<not> flag_page x \<Longrightarrow> fl_mem f1 x = fl_mem f x"
    using assms(1) erase_frame [of BOOT_BASE 1 "HAL_FLASH_Unlock f" _ _ x]
    by (auto simp: boot_Erase_Page_def a flag_page_def split: prod.splits)
qed

end

text \<open>When the page has been erased, \<open>buf\<close> has been programmed and \<open>st\<close> tells how that went.\<close>

definition boot_committed :: "hal_flash \<Rightarrow> flash \<Rightarrow> u16 \<Rightarrow> u8 list \<Rightarrow> u8 \<Rightarrow> flash \<Rightarrow> bool" where
  "boot_committed H f a buf st f' \<longleftrightarrow>
     (\<forall>f1. boot_Erase_Page H f a 1 = (HAL_OK, f1) \<longrightarrow>
        (\<exists>pst f2. program_words H BOOT_BASE (words_of buf) HAL_OK (HAL_FLASH_Unlock f1) = (pst, f2)
           \<and> f' = HAL_FLASH_Lock f2 \<and> st = (if pst \<noteq> HAL_OK then OP_FAILED else OP_SUCCESS)))"

lemma boot_read_page:
  "unat a + n \<le> 2048 \<Longrightarrow> boot_read_loop f a n = Some (map (\<lambda>k. fl_mem f (BOOT_BASE + (unat a + k))) [0..<n])"
proof (induction n arbitrary: a)
  case (Suc n)
  show ?case
  proof (cases n)
    case 0
    with Suc.prems show ?thesis by (simp add: boot_Read_OneByte_def flash_get_def)
  next
    case (Suc m)
    have "unat (a + 1) = unat a + 1"
      using Suc.prems Suc by (simp add: unat_word_ariths)
    then show ?thesis
      using Suc.prems Suc.IH [of "a + 1"] Suc
      by (simp add: boot_Read_OneByte_def flash_get_def map_upt_Suc del: upt_Suc)
  qed
qed simp

context flash_hal
begin

lemma boot_write_one:
  assumes a: "unat a \<le> BOOT_END" and v: "v \<noteq> 0xFF"
  obtains st f' buf where "boot_Write_OneByte H f a v = Some (st, f')" "fl_lock f'"
    "\<And>x. \<not> flag_page x \<Longrightarrow> fl_mem f' x = fl_mem f x"
    "boot_committed H f a buf st f'"
    "buf = (map (\<lambda>k. fl_mem f (BOOT_BASE + k)) [0..<2048])[unat a := v]"
proof -
  have pa: "unat (page_of a) = 0" "page_of a = 0" "unat a mod 2048 = unat a"
    using a by (simp_all add: unat_page_of word_unat_eq_iff)
  define page where "page = map (\<lambda>k. fl_mem f (BOOT_BASE + k)) [0..<2048]"
  define buf where "buf = page[unat a := v]"
  have rd: "boot_Read_MultiBytes f 0 2048 = Some page" and len: "length page = 2048" "length buf = 2048"
    and bo: "buf ! unat a = v"
    using a by (simp_all add: boot_Read_MultiBytes_def boot_read_page page_def buf_def)
  obtain est f1 where e: "boot_Erase_Page H f a 1 = (est, f1)" by fastforce
  note ef = boot_erase_page [OF e a]
  obtain pst f2 where p: "program_words H BOOT_BASE (words_of buf) est (HAL_FLASH_Unlock f1) = (pst, f2)"
    by fastforce
  have pf: "fl_mem f2 x = fl_mem f1 x" if "\<not> flag_page x" for x
    using program_words_frame [OF p] that len by (auto simp: flag_page_def words_of_length)
  have W: "boot_Write_OneByte H f a v = (if est \<noteq> HAL_OK then Some (OP_FAILED, f1)
      else Some (if pst \<noteq> HAL_OK then OP_FAILED else OP_SUCCESS, HAL_FLASH_Lock f2))"
    using a v e p by (cases "est = HAL_OK") (simp_all add: boot_Write_OneByte_def pa rd len buf_def [symmetric] bo Let_def)
  show thesis
  proof (cases "est = HAL_OK")
    case True
    then show thesis
      using W e p ef pf
      by (intro that [of "if pst \<noteq> HAL_OK then OP_FAILED else OP_SUCCESS" "HAL_FLASH_Lock f2" buf])
        (simp_all add: buf_def page_def boot_committed_def)
  next
    case False
    then show thesis
      using W e ef by (intro that [of OP_FAILED f1 buf]) (simp_all add: buf_def page_def boot_committed_def)
  qed
qed

end

context reliable_flash
begin

lemma erase_app_reliable:
  assumes "FLASH_If_Erase H 0x08003000 f = (r, f')" "good f"
  shows "r = FLASHIF_OK" "good f'"
proof -
  obtain st f1 where e: "hErase H 0x08003000 54 (HAL_FLASH_Unlock f) = (st, f1)" by fastforce
  have "st = HAL_OK"
    by (rule erase_succeeds [OF e]) (use assms(2) in \<open>simp_all add: good_lock\<close>)
  then show "r = FLASHIF_OK" "good f'"
    using assms e erase_good [OF e] by (simp_all add: FLASH_If_Erase_def good_lock) (auto simp: good_lock)
qed

lemma boot_erase_page_reliable:
  assumes "boot_Erase_Page H f a 1 = (st, f1)" "unat a \<le> BOOT_END" "good f"
  shows "st = HAL_OK" "good f1" "flag_page x \<Longrightarrow> fl_mem f1 x = 0xFF"
proof -
  have a: "unat (page_of a) = 0" using assms(2) by (simp add: unat_page_of)
  obtain f0 where e: "hErase H BOOT_BASE 1 (HAL_FLASH_Unlock f) = (st, f0)" and f1: "f1 = HAL_FLASH_Lock f0"
    using assms(1) by (auto simp: boot_Erase_Page_def a split: prod.splits)
  show ok: "st = HAL_OK"
    by (rule erase_succeeds [OF e]) (use assms(3) in \<open>simp_all add: good_lock\<close>)
  show "good f1" using erase_good [OF e] assms(3) by (simp add: good_lock f1)
  show "fl_mem f1 x = 0xFF" if "flag_page x"
    using erase_ok [OF e [unfolded ok], of x] that by (simp add: f1 flag_page_def)
qed

lemma boot_write_one_reliable:
  assumes a: "unat a \<le> BOOT_END" and v: "v \<noteq> 0xFF" and g: "good f"
  obtains f' where "boot_Write_OneByte H f a v = Some (OP_SUCCESS, f')" "good f'" "fl_lock f'"
    "\<And>x. \<not> flag_page x \<Longrightarrow> fl_mem f' x = fl_mem f x"
    "\<And>k. k < 2048 \<Longrightarrow> fl_mem f' (BOOT_BASE + k) = (if k = unat a then v else fl_mem f (BOOT_BASE + k))"
proof -
  obtain st f' buf where w: "boot_Write_OneByte H f a v = Some (st, f')" "fl_lock f'"
    "\<And>x. \<not> flag_page x \<Longrightarrow> fl_mem f' x = fl_mem f x"
    "boot_committed H f a buf st f'"
    "buf = (map (\<lambda>k. fl_mem f (BOOT_BASE + k)) [0..<2048])[unat a := v]"
    by (rule boot_write_one [OF a v, of f]) blast
  obtain est f1 where e: "boot_Erase_Page H f a 1 = (est, f1)" by fastforce
  note r = boot_erase_page_reliable [OF e a g]
  obtain pst f2 where p: "program_words H BOOT_BASE (words_of buf) HAL_OK (HAL_FLASH_Unlock f1) = (pst, f2)"
    "f' = HAL_FLASH_Lock f2" "st = (if pst \<noteq> HAL_OK then OP_FAILED else OP_SUCCESS)"
    using w(4) e r(1) by (auto simp: boot_committed_def)
  have len: "length buf = 2048" by (simp add: w(5))
  have ok: "pst = HAL_OK \<and> good f2"
    by (rule program_words_reliable [OF p(1)])
      (use r in \<open>auto simp: good_lock words_of_length len flag_page_def\<close>)
  have "fl_mem f2 (BOOT_BASE + k) = buf ! k" if "k < 2048" for k
    using program_words_ok [of BOOT_BASE buf HAL_OK "HAL_FLASH_Unlock f1" f2 k] p(1) ok that len by simp
  then show thesis
    using w(1-3) p ok a by (intro that [of f']) (simp_all add: good_lock w(5) nth_list_update)
qed

end

section \<open>Properties\<close>

text \<open>\<open>FLASH_If_Write\<close> at an address that is not an alias, over every outcome of the flash driver: it never changes a byte outside
  the words it was given, nor one at or behind \<open>USER_FLASH_END_ADDRESS\<close>; it answers one of its
  three codes; after \<open>FLASHIF_OK\<close> every given word that lies in the area is in the flash, byte
  by byte, and the flash is locked.  After an error the flash stays unlocked.\<close>

theorem flash_if_write_contract:
  assumes "flash_hal H" "FLASH_If_Write H d src n f = Some (r, f')" "FLASH_LOW \<le> unat d"
  shows "(\<forall>x. (unat d \<le> x \<and> x < unat d + 4 * unat n \<and> x < USER_FLASH_END_ADDRESS) \<or> fl_mem f' x = fl_mem f x)
     \<and> (r = FLASHIF_OK \<or> r = FLASHIF_WRITINGCTRL_ERROR \<or> r = FLASHIF_WRITING_ERROR)
     \<and> (fl_lock f' \<longleftrightarrow> r = FLASHIF_OK)
     \<and> (\<forall>j < unat n. \<forall>k < 4. r = FLASHIF_OK \<and> unat d + 4 * j + 4 \<le> USER_FLASH_END_ADDRESS
          \<longrightarrow> fl_mem f' (unat d + 4 * j + k) = byte_of k (src ! j))"
proof -
  have w: "if_write_loop H 0 (unat n) d src (HAL_FLASH_Unlock f) = Some (r, f')"
    using assms(2) by (simp add: FLASH_If_Write_def)
  have "(unat d \<le> x \<and> x < unat d + 4 * unat n \<and> x < USER_FLASH_END_ADDRESS) \<or> fl_mem f' x = fl_mem f x" for x
    using flash_hal.if_write_high_frame [OF assms(1) w assms(3), of x] by (simp add: not_le [symmetric]) blast
  moreover have "fl_mem f' (unat d + 4 * j + k) = byte_of k (src ! j)"
    if "j < unat n" "k < 4" "r = FLASHIF_OK" "unat d + 4 * j + 4 \<le> USER_FLASH_END_ADDRESS" for j k
    using flash_hal.if_write_ok [OF assms(1) w [unfolded that(3)] that(1) _ that(2) assms(3)] that(4) by simp
  moreover note flash_hal.if_write_result [OF assms(1) w]
  ultimately show ?thesis by auto
qed

lemma flash_if_write_contract_witness:
  "\<exists>f'. FLASH_If_Write st_hal 0x08003000 [0x04030201, 0x08070605] 2 blank_flash = Some (FLASHIF_OK, f')
     \<and> fl_lock f' \<and> fl_mem f' 0x08003005 = 6"
proof -
  obtain f' where w: "FLASH_If_Write st_hal 0x08003000 [0x04030201, 0x08070605] 2 blank_flash = Some (FLASHIF_OK, f')"
    using st_drv.if_write_reliable [of "HAL_FLASH_Unlock blank_flash" "0x08003000" 2 0 "[0x04030201, 0x08070605]"]
    by (auto simp: FLASH_If_Write_def blank_flash_def no_faults_def HAL_FLASH_Unlock_def)
  have "FLASH_LOW \<le> unat (0x08003000 :: u32)" by simp
  note c = flash_if_write_contract [OF st_hal_flash_hal w this]
  have "\<forall>j<2. \<forall>k<4. fl_mem f' (APPLICATION_ADDRESS + 4 * j + k) = byte_of k ([0x04030201, 0x08070605] ! j)"
    using c by auto
  from this [rule_format, of 1 1] have "fl_mem f' 0x08003005 = 6"
    by (simp add: byte_of_def)
  with w c show ?thesis by blast
qed

text \<open>The check of the write protection looks at the pages 8 to 39 only; the application area is
  the pages 6 to 59.\<close>

lemma protection_pages_unseen:
  "oGetConfig OB ob = (0xFFF007, user)
    \<Longrightarrow> fst (FLASH_If_GetWriteProtectionStatus OB ob f) = FLASHIF_PROTECTION_WRPENABLED"
  "oGetConfig OB ob = (0x000FFFF7, user)
    \<Longrightarrow> fst (FLASH_If_GetWriteProtectionStatus OB ob f) = FLASHIF_PROTECTION_NONE"
  by (simp_all add: FLASH_If_GetWriteProtectionStatus_def)

end
