(* ===== verification/BootMenu.thy ===== *)
theory BootMenu
  imports BootCommon BootAscii BootFlash
begin

text \<open>
  \<open>STM32F072_BOOT/APP/Src/menu_uart.c\<close>: the four messages by which a host loads a new
  application (start, erase, data, run).  The record holds the fields of
  \<open>ModBus_Param_TypeDef\<close>, the static variables of the file, the static buffer of
  \<open>MODBUS_ASCII_SendData\<close>, the port, the flash and the option bytes.  \<open>restarted\<close> is set by
  \<open>HAL_FLASH_OB_Launch\<close>, which resets the device: nothing of the handler is executed behind it.
\<close>

section \<open>State\<close>

abbreviation (input) "RESPONSE_ERR_NONE \<equiv> (0 :: u8)"
abbreviation (input) "RESPONSE_REC_ERR \<equiv> (1 :: u8)"
abbreviation (input) "RESPONSE_LRC_ERR \<equiv> (2 :: u8)"
abbreviation (input) "ADDR_DEVICEADDR \<equiv> (0 :: u16)"
abbreviation (input) "ADDR_ERASEFLAG \<equiv> (2046 :: u16)"
abbreviation (input) "ADDR_UPGRADEFLAG \<equiv> (2047 :: u16)"
abbreviation (input) "UPGRADED_DEVICEADDR \<equiv> (65 :: u8)"
abbreviation (input) "ERASE_FLAG \<equiv> (0x0C :: u8)"
abbreviation (input) "ERASE_FLAG_NONE \<equiv> (0xFF :: u8)"
abbreviation (input) "UPGRADE_FLAG \<equiv> (0x0C :: u8)"
abbreviation (input) "UPGRADE_FLAG_NONE \<equiv> (0xFF :: u8)"

text \<open>\<open>UpgradeWaitTime\<close> is an \<open>int8_t\<close>, the signed reading of a byte.\<close>

record 'o boot =
  Device_Addr :: u8
  ProgErase :: u8
  UpgradeWaitTime :: "8 word"
  RX_buf :: "u8 list"
  SendLen :: u8
  PacketCnt :: u16
  PacketNum :: u16
  Flashadrdst :: u32
  FileCheckSum :: u32
  FileRunCheckSum :: u32
  SendBuf :: "u8 list"
  ascii_Send_Buf :: "u8 list"
  bport :: usart
  bflash :: flash
  bob :: 'o
  restarted :: bool

section \<open>Access to the flags\<close>

definition Write_Memory_1_Byte :: "hal_flash \<Rightarrow> u16 \<Rightarrow> u8 \<Rightarrow> 'o boot \<Rightarrow> (u8 \<times> 'o boot) option" where
  "Write_Memory_1_Byte H addr WrData s = do {
     (r, f) \<leftarrow> boot_Write_OneByte H (bflash s) addr WrData;
     Some (r, s\<lparr>bflash := f\<rparr>) }"

definition Read_Memory_1_Byte :: "u16 \<Rightarrow> 'o boot \<Rightarrow> u8 option" where
  "Read_Memory_1_Byte addr s = boot_Read_OneByte (bflash s) addr"

section \<open>The cases of the handler\<close>

text \<open>\<open>SendBuf[SendLen++] = v\<close>, and two bytes of the receive buffer as a 16-bit number.\<close>

definition put :: "u8 \<Rightarrow> 'o boot \<Rightarrow> 'o boot option" where
  "put v s = do {
     b \<leftarrow> wr (SendBuf s) (unat (SendLen s)) v;
     Some (s\<lparr>SendBuf := b, SendLen := SendLen s + 1\<rparr>) }"

definition rx16 :: "'o boot \<Rightarrow> nat \<Rightarrow> u16 option" where
  "rx16 s i = do {
     a \<leftarrow> rd (RX_buf s) i;
     b \<leftarrow> rd (RX_buf s) (i + 1);
     Some (ucast a * 256 + ucast b) }"

definition msg_start :: "hal_flash \<Rightarrow> u16 \<Rightarrow> 'o boot \<Rightarrow> 'o boot option" where
  "msg_start H datalen s = do {
     let s = s\<lparr>UpgradeWaitTime := - 1\<rparr>;
     if 0 \<noteq> datalen \<and> 2 \<noteq> datalen then put RESPONSE_REC_ERR s
     else do {
       packetnum \<leftarrow> (if datalen = 2 then rx16 s 6 else Some 0);
       s \<leftarrow> put RESPONSE_ERR_NONE s;
       let s = s\<lparr>PacketNum := 0\<rparr>;
       let s = s\<lparr>PacketCnt := 0\<rparr>;
       if packetnum > 0 then do {
         let (_, f) = boot_Erase_Page H (bflash s) 0 1;
         Some (s\<lparr>bflash := f\<rparr>) }
       else Some s } }"

definition HAL_FLASH_OB_Launch :: "'o boot \<Rightarrow> 'o boot" where
  "HAL_FLASH_OB_Launch s = s\<lparr>restarted := True\<rparr>"

definition msg_erase :: "hal_flash \<Rightarrow> 'o hal_ob \<Rightarrow> u16 \<Rightarrow> 'o boot \<Rightarrow> 'o boot option" where
  "msg_erase H OB datalen s =
     (if 0 \<noteq> datalen then put RESPONSE_REC_ERR s
      else do {
        let s = s\<lparr>bflash := FLASH_If_Init (bflash s)\<rparr>;
        let (status, f) = FLASH_If_GetWriteProtectionStatus OB (bob s) (bflash s);
        let s = s\<lparr>bflash := f\<rparr>;
        let s = (if status \<noteq> FLASHIF_PROTECTION_NONE
                 then let (r, ob, f) = FLASH_If_WriteProtectionConfig OB FLASHIF_WRP_DISABLE (bob s) (bflash s);
                          s = s\<lparr>bob := ob, bflash := f\<rparr>
                      in (if r = FLASHIF_OK then HAL_FLASH_OB_Launch s else s)
                 else s);
        if restarted s then Some s
        else do {
          let (_, f) = FLASH_If_Erase H 0x08003000 (bflash s);
          let s = s\<lparr>bflash := f\<rparr>;
          let s = s\<lparr>Flashadrdst := 0x08003000\<rparr>;
          let s = s\<lparr>ProgErase := ERASE_FLAG\<rparr>;
          s \<leftarrow> put RESPONSE_ERR_NONE s;
          (_, s) \<leftarrow> Write_Memory_1_Byte H ADDR_ERASEFLAG ERASE_FLAG s;
          Some s } })"

text \<open>The loops of the data message: the announced checksum, the sum of the data as they arrive,
  and moving the decoded data to the start of the buffer.\<close>

fun check_sum_loop :: "nat \<Rightarrow> nat \<Rightarrow> u32 \<Rightarrow> u8 list \<Rightarrow> u32 option" where
  "check_sum_loop prt 0 acc buf = Some acc"
| "check_sum_loop prt (Suc n) acc buf = do {
     b \<leftarrow> rd buf (10 + prt);
     check_sum_loop (Suc prt) n (push_bit 8 acc + ucast b) buf }"

fun pack_sum_loop :: "nat \<Rightarrow> nat \<Rightarrow> u32 \<Rightarrow> u8 list \<Rightarrow> u32 option" where
  "pack_sum_loop prt 0 tpcksum buf = Some tpcksum"
| "pack_sum_loop prt (Suc n) tpcksum buf = do {
     b \<leftarrow> rd buf (10 + prt);
     pack_sum_loop (Suc prt) n (tpcksum + ucast b) buf }"

fun move_loop :: "nat \<Rightarrow> nat \<Rightarrow> u8 list \<Rightarrow> u8 list option" where
  "move_loop prt 0 buf = Some buf"
| "move_loop prt (Suc n) buf = do {
     b \<leftarrow> rd buf (10 + prt);
     buf \<leftarrow> wr buf prt b;
     move_loop (Suc prt) n buf }"

text \<open>The head packet announces the number of packets and the checksum.\<close>

definition data_head :: "u16 \<Rightarrow> u16 \<Rightarrow> 'o boot \<Rightarrow> 'o boot option" where
  "data_head packetnum packetcnt s = do {
     let s = s\<lparr>FileCheckSum := 0, FileRunCheckSum := 0\<rparr>;
     let s = s\<lparr>PacketNum := packetnum, PacketCnt := packetcnt\<rparr>;
     s \<leftarrow> put RESPONSE_ERR_NONE s;
     c \<leftarrow> check_sum_loop 0 4 (FileCheckSum s) (RX_buf s);
     Some (s\<lparr>FileCheckSum := c\<rparr>) }"

text \<open>The next packet: sum, decode, move, program.  The buffer is a word array, read
  little-endian.\<close>

definition data_next :: "hal_flash \<Rightarrow> u16 \<Rightarrow> 'o boot \<Rightarrow> 'o boot option" where
  "data_next H datalen s = do {
     let datalen = datalen - 4;
     tpcksum \<leftarrow> pack_sum_loop 0 (unat datalen) 0 (RX_buf s);
     dec \<leftarrow> Decoding (drop 10 (RX_buf s)) (ucast datalen);
     buf \<leftarrow> move_loop 0 (unat datalen) (take 10 (RX_buf s) @ dec);
     let s = s\<lparr>RX_buf := buf\<rparr>;
     (r, f) \<leftarrow> FLASH_If_Write H (Flashadrdst s) (words_of buf) (ucast (datalen div 4)) (bflash s);
     let s = s\<lparr>bflash := f\<rparr>;
     if r = 0 then do {
       let s = s\<lparr>PacketCnt := PacketCnt s + 1\<rparr>;
       s \<leftarrow> put RESPONSE_ERR_NONE s;
       let s = s\<lparr>FileRunCheckSum := FileRunCheckSum s + tpcksum\<rparr>;
       Some (s\<lparr>Flashadrdst := Flashadrdst s + ucast datalen\<rparr>) }
     else put RESPONSE_REC_ERR s }"

text \<open>\<open>packetcnt - 1\<close> is an \<open>int\<close>.\<close>

definition msg_data :: "hal_flash \<Rightarrow> u16 \<Rightarrow> 'o boot \<Rightarrow> 'o boot option" where
  "msg_data H datalen s = do {
     packetnum \<leftarrow> rx16 s 6;
     packetcnt \<leftarrow> rx16 s 8;
     if 0 = PacketNum s \<and> 1 < packetnum \<and> 0 = packetcnt then data_head packetnum packetcnt s
     else if PacketNum s = packetnum \<and> 1 < packetnum \<and> uint (PacketCnt s) = uint packetcnt - 1
             \<and> PacketNum s > packetcnt then data_next H datalen s
     else if PacketNum s = packetnum \<and> 1 < packetnum \<and> PacketCnt s = packetcnt
             \<and> PacketNum s > packetcnt then put RESPONSE_ERR_NONE s
     else put RESPONSE_REC_ERR s }"

definition msg_run :: "u16 \<Rightarrow> 'o boot \<Rightarrow> 'o boot option" where
  "msg_run datalen s =
     (if ((FileRunCheckSum s = FileCheckSum s \<and> uint (PacketCnt s) + 1 = uint (PacketNum s))
          \<or> 0 = PacketNum s) \<and> 0 = datalen
      then if 0 \<noteq> PacketNum s then put RESPONSE_ERR_NONE (s\<lparr>UpgradeWaitTime := 0\<rparr>)
           else if ProgErase s = ERASE_FLAG \<or> ProgErase s = ERASE_FLAG_NONE then put RESPONSE_REC_ERR s
           else put RESPONSE_ERR_NONE (s\<lparr>UpgradeWaitTime := 0\<rparr>)
      else put RESPONSE_LRC_ERR s)"

section \<open>The handler\<close>

text \<open>\<open>for(SendLen = 0; SendLen < 4; SendLen++) SendBuf[SendLen] = RX_buf[SendLen];\<close>\<close>

fun echo_loop :: "nat \<Rightarrow> 'o boot \<Rightarrow> 'o boot option" where
  "echo_loop 0 s = Some s"
| "echo_loop (Suc n) s = do {
     b \<leftarrow> rd (RX_buf s) (unat (SendLen s));
     s \<leftarrow> put b s;
     echo_loop n s }"

definition dispatch :: "hal_flash \<Rightarrow> 'o hal_ob \<Rightarrow> u16 \<Rightarrow> u16 \<Rightarrow> 'o boot \<Rightarrow> 'o boot option" where
  "dispatch H OB msgid datalen s =
     (if msgid = 1 then msg_start H datalen s
      else if msgid = 2 then msg_erase H OB datalen s
      else if msgid = 3 then msg_data H datalen s
      else if msgid = 4 then msg_run datalen s
      else put RESPONSE_REC_ERR s)"

definition send_reply :: "'o boot \<Rightarrow> 'o boot option" where
  "send_reply s = do {
     (_, sb, u) \<leftarrow> MODBUS_ASCII_SendData (SendBuf s) (ucast (SendLen s)) (ascii_Send_Buf s) (bport s);
     Some (s\<lparr>ascii_Send_Buf := sb, bport := u\<rparr>) }"

text \<open>What follows the reception; \<open>rcvlen - 0x06\<close> is an \<open>int\<close>.\<close>

definition handle_frame :: "hal_flash \<Rightarrow> 'o hal_ob \<Rightarrow> u8 \<Rightarrow> u16 \<Rightarrow> 'o boot \<Rightarrow> 'o boot option" where
  "handle_frame H OB fmerror rcvlen s = do {
     fc \<leftarrow> rd (RX_buf s) 1;
     if 0x41 \<noteq> fc then Some s
     else do {
       tmpaddr \<leftarrow> rd (RX_buf s) 0;
       msgid \<leftarrow> rx16 s 2;
       datalen \<leftarrow> rx16 s 4;
       if tmpaddr = 0 \<or> tmpaddr \<noteq> Device_Addr s then Some s
       else if uint rcvlen - 6 \<noteq> uint datalen then Some s
       else do {
         a \<leftarrow> rd (RX_buf s) 0;
         if Device_Addr s \<noteq> a \<and> 0xFF \<noteq> a then Some s
         else if UpgradeWaitTime s \<noteq> - 1 \<and> msgid \<noteq> 4 \<and> msgid \<noteq> 1 then Some s
         else do {
           s \<leftarrow> echo_loop 4 (s\<lparr>SendLen := 0\<rparr>);
           s \<leftarrow> put 0x00 s;
           s \<leftarrow> put 0x01 s;
           s \<leftarrow> (if fmerror = ERR_NONE then dispatch H OB msgid datalen s else put RESPONSE_LRC_ERR s);
           if restarted s then Some s else send_reply s } } } }"

text \<open>\<open>rcvlen0\<close> is the content of the local \<open>rcvlen\<close>, which the code does not initialise.\<close>

definition HandleFrameInformation :: "hal_flash \<Rightarrow> 'o hal_ob \<Rightarrow> u16 \<Rightarrow> 'o boot \<Rightarrow> 'o boot option" where
  "HandleFrameInformation H OB rcvlen0 s = do {
     (fmerror, rcvlen, buf) \<leftarrow> MODBUS_ASCII_RecvData (RX_buf s) rcvlen0 (bport s);
     handle_frame H OB fmerror rcvlen (s\<lparr>RX_buf := buf\<rparr>) }"

section \<open>The loops of the data message\<close>

definition bytes_sum :: "u8 list \<Rightarrow> u32" where
  "bytes_sum bs = sum_list (map ucast bs)"

lemma bytes_sum_simps [simp]: "bytes_sum [] = 0" "bytes_sum (bs @ cs) = bytes_sum bs + bytes_sum cs"
  by (simp_all add: bytes_sum_def)

lemma pack_sum_loop_sum:
  "10 + prt + n \<le> length buf \<Longrightarrow> pack_sum_loop prt n acc buf = Some (acc + bytes_sum (take n (drop (10 + prt) buf)))"
proof (induction n arbitrary: prt acc)
  case (Suc n)
  then have "take (Suc n) (drop (10 + prt) buf) = buf ! (10 + prt) # take n (drop (10 + Suc prt) buf)"
    by (simp add: Cons_nth_drop_Suc [symmetric])
  with Suc show ?case by (simp add: bytes_sum_def ac_simps)
qed simp

lemma pack_sum_loop_inside:
  "pack_sum_loop prt n acc buf = Some v \<Longrightarrow> 10 + prt \<le> length buf \<Longrightarrow> 10 + prt + n \<le> length buf"
  by (induction n arbitrary: prt acc) (fastforce simp: rd_def split: if_splits Option.bind_splits)+

lemma check_sum_loop_be32:
  "14 \<le> length buf \<Longrightarrow> check_sum_loop 0 4 0 buf = Some (be32 (buf ! 10) (buf ! 11) (buf ! 12) (buf ! 13))"
proof -
  have four: "4 = Suc (Suc (Suc (Suc 0)))" by simp
  show "14 \<le> length buf \<Longrightarrow> check_sum_loop 0 4 0 buf = Some (be32 (buf ! 10) (buf ! 11) (buf ! 12) (buf ! 13))"
    by (simp add: four flip: be32_sum)
qed

lemma move_loop_move:
  "10 + prt + n \<le> length buf \<Longrightarrow>
     move_loop prt n buf = Some (take prt buf @ take n (drop (10 + prt) buf) @ drop (prt + n) buf)"
proof (induction n arbitrary: prt buf)
  case (Suc n)
  let ?b = "buf ! (10 + prt)"
  have "take (Suc n) (drop (10 + prt) buf) = ?b # take n (drop (10 + Suc prt) buf)"
    using Suc.prems by (simp add: Cons_nth_drop_Suc [symmetric])
  moreover have "take (Suc prt) (buf[prt := ?b]) = take prt buf @ [?b]"
    using Suc.prems by (simp add: take_update_Suc)
  moreover have "move_loop (Suc prt) n (buf[prt := ?b]) = Some (take (Suc prt) (buf[prt := ?b])
      @ take n (drop (10 + Suc prt) (buf[prt := ?b])) @ drop (Suc prt + n) (buf[prt := ?b]))"
    using Suc.prems by (intro Suc.IH) simp
  ultimately show ?case using Suc.prems by simp
qed simp

text \<open>The data of a packet and the buffer after they have been decoded and moved.\<close>

definition packet_data :: "u16 \<Rightarrow> u8 list \<Rightarrow> u8 list" where
  "packet_data datalen buf = take (unat (datalen - 4)) (drop 10 buf)"

definition moved :: "u16 \<Rightarrow> u8 list \<Rightarrow> u8 list" where
  "moved datalen buf =
     (let ds = decoded (packet_data datalen buf); m = length ds
      in ds @ drop m (take 10 buf @ ds @ drop (10 + m) buf))"

lemma length_moved: "10 + unat (datalen - 4) \<le> length buf \<Longrightarrow> length (moved datalen buf) = length buf"
  by (simp add: moved_def packet_data_def Let_def)

lemma data_next_result:
  assumes "10 + unat (datalen - 4) \<le> length (RX_buf s)"
  shows "data_next H datalen s = do {
     let psum = bytes_sum (packet_data datalen (RX_buf s));
     let buf = moved datalen (RX_buf s);
     (r, f) \<leftarrow> FLASH_If_Write H (Flashadrdst s) (words_of buf) (ucast ((datalen - 4) div 4)) (bflash s);
     let s = s\<lparr>RX_buf := buf, bflash := f\<rparr>;
     if r = 0 then do {
       s \<leftarrow> put RESPONSE_ERR_NONE (s\<lparr>PacketCnt := PacketCnt s + 1\<rparr>);
       Some (s\<lparr>FileRunCheckSum := FileRunCheckSum s + psum,
               Flashadrdst := Flashadrdst s + ucast (datalen - 4)\<rparr>) }
     else put RESPONSE_REC_ERR s }"
proof -
  let ?m = "unat (datalen - 4)" and ?ds = "decoded (packet_data datalen (RX_buf s))"
  have m: "length ?ds = ?m" using assms by (simp add: packet_data_def)
  have sum: "pack_sum_loop 0 ?m 0 (RX_buf s) = Some (bytes_sum (packet_data datalen (RX_buf s)))"
    using assms pack_sum_loop_sum [of 0 ?m "RX_buf s" 0] by (simp add: packet_data_def)
  have dec: "Decoding (drop 10 (RX_buf s)) (ucast (datalen - 4)) = Some (?ds @ drop (10 + ?m) (RX_buf s))"
    using assms by (subst Decoding_decoded) (simp_all add: packet_data_def add.commute)
  have move: "move_loop 0 ?m (take 10 (RX_buf s) @ ?ds @ drop (10 + ?m) (RX_buf s)) = Some (moved datalen (RX_buf s))"
    using assms m by (subst move_loop_move) (simp_all add: moved_def Let_def)
  show ?thesis
    by (simp add: data_next_def Let_def sum dec move cong: if_cong)
qed

section \<open>What the handler may change\<close>

text \<open>A data packet for this device: message 3 with a packet number other than 0.\<close>

definition data_packet :: "'o boot \<Rightarrow> bool" where
  "data_packet s \<longleftrightarrow> rd (RX_buf s) 0 = Some (Device_Addr s) \<and> rd (RX_buf s) 1 = Some 0x41
     \<and> rx16 s 2 = Some 3 \<and> rx16 s 8 \<noteq> Some 0"

text \<open>The frame that the port holds is a data packet.\<close>

definition brings_data :: "u16 \<Rightarrow> 'o boot \<Rightarrow> bool" where
  "brings_data rcvlen0 s =
     (case MODBUS_ASCII_RecvData (RX_buf s) rcvlen0 (bport s) of
        None \<Rightarrow> False
      | Some (e, n, buf) \<Rightarrow> data_packet (s\<lparr>RX_buf := buf\<rparr>))"

text \<open>The bytes of the flash that a handler may program when the next packet goes to \<open>d\<close> and the
  frame may (\<open>e\<close>) be a data packet.\<close>

definition may_write :: "bool \<Rightarrow> u32 \<Rightarrow> nat \<Rightarrow> bool" where
  "may_write e d x \<longleftrightarrow> app_area x \<or> flag_page x
     \<or> (e \<and> (\<exists>k < 600. unat d + k < USER_FLASH_END_ADDRESS \<and> x = phys (unat d + k)))"

definition writes_in :: "bool \<Rightarrow> u32 \<Rightarrow> flash \<Rightarrow> flash \<Rightarrow> bool" where
  "writes_in e d f f' \<longleftrightarrow> (\<forall>x. \<not> may_write e d x \<longrightarrow> fl_mem f' x = fl_mem f x)"

lemma writes_in_refl [simp]: "writes_in e d f f"
  by (simp add: writes_in_def)

lemma writes_in_trans: "writes_in e d f g \<Longrightarrow> writes_in e d g h \<Longrightarrow> writes_in e d f h"
  by (auto simp: writes_in_def)

lemma writes_in_lock [simp]:
  "writes_in e d f (HAL_FLASH_Lock g) = writes_in e d f g" "writes_in e d f (HAL_FLASH_Unlock g) = writes_in e d f g"
  "writes_in e d (HAL_FLASH_Lock f) g = writes_in e d f g" "writes_in e d (HAL_FLASH_Unlock f) g = writes_in e d f g"
  by (simp_all add: writes_in_def)

context flash_hal
begin

lemma boot_erase_writes: "boot_Erase_Page H f 0 1 = (st, f') \<Longrightarrow> writes_in e d f f'"
  using boot_erase_page(2) [of f 0 st f'] by (auto simp: writes_in_def may_write_def)

lemma erase_app_writes: "FLASH_If_Erase H 0x08003000 f = (r, f') \<Longrightarrow> writes_in e d f f'"
  using erase_app(2) [of f r f'] by (auto simp: writes_in_def may_write_def)

lemma boot_write_writes:
  assumes "unat a \<le> BOOT_END" "v \<noteq> 0xFF"
  obtains st f' where "boot_Write_OneByte H f a v = Some (st, f')" "writes_in e d f f'" "fl_lock f'"
proof -
  obtain st f' buf where "boot_Write_OneByte H f a v = Some (st, f')" "fl_lock f'"
    "\<And>x. \<not> flag_page x \<Longrightarrow> fl_mem f' x = fl_mem f x"
    by (rule boot_write_one [OF assms, of f]) blast
  then show thesis by (intro that [of st f']) (auto simp: writes_in_def may_write_def)
qed

lemma if_write_writes:
  assumes "FLASH_If_Write H d src n f = Some (r, f')" "4 * unat n \<le> 600"
  shows "writes_in True d f f'"
proof -
  have w: "if_write_loop H 0 (unat n) d src (HAL_FLASH_Unlock f) = Some (r, f')"
    using assms(1) by (simp add: FLASH_If_Write_def)
  have "fl_mem f' x = fl_mem f x" if x: "\<not> may_write True d x" for x
  proof -
    have "fl_mem f' x = fl_mem (HAL_FLASH_Unlock f) x"
      by (rule if_write_frame [OF w]) (use x assms(2) in \<open>auto simp: may_write_def\<close>)
    then show ?thesis by simp
  qed
  then show ?thesis by (simp add: writes_in_def)
qed

end

text \<open>One message, between the six bytes of the reply's head and its seventh.\<close>

definition same_bufs :: "'o boot \<Rightarrow> 'o boot \<Rightarrow> bool" where
  "same_bufs s s' \<longleftrightarrow> length (RX_buf s') = length (RX_buf s) \<and> length (SendBuf s') = length (SendBuf s)
     \<and> ascii_Send_Buf s' = ascii_Send_Buf s \<and> bport s' = bport s \<and> Device_Addr s' = Device_Addr s"

definition next_dst :: "bool \<Rightarrow> u32 \<Rightarrow> u32 \<Rightarrow> bool" where
  "next_dst e d d' \<longleftrightarrow> d' = d \<or> d' = 0x08003000 \<or> (e \<and> (\<exists>n. unat n \<le> 590 \<and> d' = d + n))"

definition msg_step :: "bool \<Rightarrow> 'o boot \<Rightarrow> 'o boot \<Rightarrow> bool" where
  "msg_step e s s' \<longleftrightarrow> same_bufs s s' \<and> (restarted s' \<or> SendLen s' = 7)
     \<and> take 6 (SendBuf s') = take 6 (SendBuf s) \<and> next_dst e (Flashadrdst s) (Flashadrdst s')
     \<and> writes_in e (Flashadrdst s) (bflash s) (bflash s')"

lemma next_dst_refl [simp]: "next_dst e d d" "next_dst e d 0x08003000"
  by (simp_all add: next_dst_def)

lemma put_Some:
  "unat (SendLen s) < length (SendBuf s) \<Longrightarrow> put v s
     = Some (s\<lparr>SendBuf := (SendBuf s)[unat (SendLen s) := v], SendLen := SendLen s + 1\<rparr>)"
  by (simp add: put_def)

lemma put_SomeD:
  "put v s = Some s' \<Longrightarrow> unat (SendLen s) < length (SendBuf s)
    \<and> s' = s\<lparr>SendBuf := (SendBuf s)[unat (SendLen s) := v], SendLen := SendLen s + 1\<rparr>"
  by (auto simp: put_def wr_def split: if_splits Option.bind_splits)

lemma put_step:
  "put v t = Some s' \<Longrightarrow> SendLen t = 6 \<Longrightarrow> same_bufs s t \<Longrightarrow> SendBuf t = SendBuf s
    \<Longrightarrow> next_dst e (Flashadrdst s) (Flashadrdst t) \<Longrightarrow> writes_in e (Flashadrdst s) (bflash s) (bflash t) \<Longrightarrow> msg_step e s s'"
  by (drule put_SomeD) (simp add: msg_step_def same_bufs_def)

context flash_hal
begin

lemma msg_start_step:
  assumes "msg_start H dl s = Some s'" "SendLen s = 6"
  shows "msg_step e s s'"
proof (cases "0 \<noteq> dl \<and> 2 \<noteq> dl")
  case True
  show ?thesis
    by (rule put_step [of RESPONSE_REC_ERR "s\<lparr>UpgradeWaitTime := - 1\<rparr>"])
      (use assms True in \<open>simp_all add: msg_start_def same_bufs_def\<close>)
next
  case False
  with assms(1) obtain t where t: "put RESPONSE_ERR_NONE (s\<lparr>UpgradeWaitTime := - 1\<rparr>) = Some t"
    "s' = t\<lparr>PacketNum := 0, PacketCnt := 0\<rparr>
     \<or> (\<exists>st f. boot_Erase_Page H (bflash t) 0 1 = (st, f) \<and> s' = t\<lparr>PacketNum := 0, PacketCnt := 0, bflash := f\<rparr>)"
    by (auto simp: msg_start_def Let_def Option.bind_eq_Some_conv split: if_splits prod.splits)
  then show ?thesis
    using boot_erase_writes assms(2) put_SomeD [OF t(1)]
    by (auto simp: msg_step_def same_bufs_def)
qed

lemma msg_run_step: "msg_run dl s = Some s' \<Longrightarrow> SendLen s = 6 \<Longrightarrow> msg_step e s s'"
  by (auto simp: msg_run_def same_bufs_def split: if_splits intro!: put_step)

lemma msg_erase_step:
  assumes "msg_erase H OB dl s = Some s'" "SendLen s = 6"
  shows "msg_step e s s'"
proof (cases "dl = 0")
  case False
  then show ?thesis using assms by (auto simp: msg_erase_def same_bufs_def intro!: put_step)
next
  case True
  obtain status f1 where p: "FLASH_If_GetWriteProtectionStatus OB (bob s) (FLASH_If_Init (bflash s)) = (status, f1)"
    by fastforce
  have f1: "writes_in e d (bflash s) f1" for d
    using p by (auto simp: FLASH_If_GetWriteProtectionStatus_def FLASH_If_Init_def split: prod.splits)
  obtain r ob f2 where c: "FLASH_If_WriteProtectionConfig OB FLASHIF_WRP_DISABLE (bob s) f1 = (r, ob, f2)"
    by (cases "FLASH_If_WriteProtectionConfig OB FLASHIF_WRP_DISABLE (bob s) f1") auto
  have f2: "writes_in e d (bflash s) f2" for d
    using c f1 [of d] by (auto simp: FLASH_If_WriteProtectionConfig_def Let_def split: prod.splits if_splits)
  define t where "t = (if status \<noteq> FLASHIF_PROTECTION_NONE
      then (let t = s\<lparr>bob := ob, bflash := f2\<rparr> in if r = FLASHIF_OK then HAL_FLASH_OB_Launch t else t)
      else s\<lparr>bflash := f1\<rparr>)"
  have t: "same_bufs s t" "SendBuf t = SendBuf s" "SendLen t = 6" "Flashadrdst t = Flashadrdst s"
    "writes_in e d (bflash s) (bflash t)" for d
    using f1 f2 assms(2) by (simp_all add: t_def same_bufs_def HAL_FLASH_OB_Launch_def Let_def)
  have E: "(if restarted t then Some t
     else do {
       let (_, f) = FLASH_If_Erase H 0x08003000 (bflash t);
       let t = t\<lparr>bflash := f, Flashadrdst := 0x08003000, ProgErase := ERASE_FLAG\<rparr>;
       t \<leftarrow> put RESPONSE_ERR_NONE t;
       (_, t) \<leftarrow> Write_Memory_1_Byte H ADDR_ERASEFLAG ERASE_FLAG t;
       Some t }) = Some s'"
    using assms(1) True p c unfolding t_def by (auto simp: msg_erase_def Let_def split: if_splits prod.splits)
  show ?thesis
  proof (cases "restarted t")
    case True
    then show ?thesis using E t by (auto simp: msg_step_def)
  next
    case False
    obtain er f3 where e: "FLASH_If_Erase H 0x08003000 (bflash t) = (er, f3)" by fastforce
    obtain v where v: "put RESPONSE_ERR_NONE (t\<lparr>bflash := f3, Flashadrdst := 0x08003000, ProgErase := ERASE_FLAG\<rparr>) = Some v"
      "Write_Memory_1_Byte H ADDR_ERASEFLAG ERASE_FLAG v \<bind> (\<lambda>(_, t). Some t) = Some s'"
      using E False e by (auto simp: Option.bind_eq_Some_conv)
    have m: "msg_step e s v"
      by (rule put_step [OF v(1)])
        (use t writes_in_trans [OF t(5) erase_app_writes [OF e]] in \<open>simp_all add: same_bufs_def\<close>)
    obtain st f4 where w: "boot_Write_OneByte H (bflash v) ADDR_ERASEFLAG ERASE_FLAG = Some (st, f4)"
      "writes_in e (Flashadrdst s) (bflash v) f4"
      by (rule boot_write_writes [of ADDR_ERASEFLAG ERASE_FLAG]) simp_all
    then have "s' = v\<lparr>bflash := f4\<rparr>" using v(2) by (simp add: Write_Memory_1_Byte_def)
    then show ?thesis
      using m writes_in_trans [OF _ w(2)] by (simp add: msg_step_def same_bufs_def)
  qed
qed

lemma data_next_step:
  assumes "data_next H dl s = Some s'" "SendLen s = 6" "length (RX_buf s) = 600"
  shows "msg_step True s s'"
proof -
  let ?m = "unat (dl - 4)"
  have "\<exists>v. pack_sum_loop 0 ?m 0 (RX_buf s) = Some v"
    using assms(1) by (auto simp: data_next_def Let_def Option.bind_eq_Some_conv)
  then have m: "10 + ?m \<le> 600"
    using pack_sum_loop_inside [of 0 ?m 0 "RX_buf s"] assms(3) by auto
  let ?buf = "moved dl (RX_buf s)"
  have len: "length ?buf = 600" using m assms(3) by (simp add: length_moved)
  obtain r f where w: "FLASH_If_Write H (Flashadrdst s) (words_of ?buf) (ucast ((dl - 4) div 4)) (bflash s) = Some (r, f)"
    "(if r = 0 then put RESPONSE_ERR_NONE (s\<lparr>RX_buf := ?buf, bflash := f, PacketCnt := PacketCnt s + 1\<rparr>)
        \<bind> (\<lambda>t. Some (t\<lparr>FileRunCheckSum := FileRunCheckSum t + bytes_sum (packet_data dl (RX_buf s)),
                       Flashadrdst := Flashadrdst t + ucast (dl - 4)\<rparr>))
      else put RESPONSE_REC_ERR (s\<lparr>RX_buf := ?buf, bflash := f\<rparr>)) = Some s'"
    using assms(1) m assms(3)
    by (auto simp: data_next_result Let_def Option.bind_eq_Some_conv cong: if_cong)
  have "4 * unat (ucast ((dl - 4) div 4) :: u32) \<le> 600"
    using m by (simp add: unat_div)
  note wi = if_write_writes [OF w(1) this]
  have step: "msg_step True s t" if "put v (s\<lparr>RX_buf := ?buf, bflash := f, PacketCnt := c\<rparr>) = Some t" for v c t
    by (rule put_step [OF that]) (simp_all add: assms same_bufs_def len wi)
  show ?thesis
  proof (cases "r = 0")
    case True
    then obtain t where t: "put RESPONSE_ERR_NONE (s\<lparr>RX_buf := ?buf, bflash := f, PacketCnt := PacketCnt s + 1\<rparr>) = Some t"
      "s' = t\<lparr>FileRunCheckSum := FileRunCheckSum t + bytes_sum (packet_data dl (RX_buf s)),
              Flashadrdst := Flashadrdst t + ucast (dl - 4)\<rparr>"
      using w(2) by (auto simp: Option.bind_eq_Some_conv)
    have "Flashadrdst t = Flashadrdst s" using put_SomeD [OF t(1)] by simp
    moreover have "unat (ucast (dl - 4) :: u32) \<le> 590" using m by simp
    ultimately show ?thesis
      using step [OF t(1)] by (auto simp: t(2) msg_step_def same_bufs_def next_dst_def)
  next
    case False
    with w(2) step [of RESPONSE_REC_ERR "PacketCnt s" s'] show ?thesis by simp
  qed
qed

end

section \<open>The whole handler\<close>

lemma list6:
  assumes "6 \<le> length xs"
  obtains a b c d e f ys where "xs = a # b # c # d # e # f # ys"
  using assms by (auto simp: Suc_le_length_iff numeral_eq_Suc)

text \<open>The head of the reply: address, function code and message id of the request, length 1.\<close>

definition reply_head :: "'o boot \<Rightarrow> 'o boot" where
  "reply_head s = s\<lparr>SendBuf := take 4 (RX_buf s) @ [0, 1] @ drop 6 (SendBuf s), SendLen := 6\<rparr>"

lemma reply_head_Some:
  assumes "4 \<le> length (RX_buf s)" "6 \<le> length (SendBuf s)"
  shows "do { s \<leftarrow> echo_loop 4 (s\<lparr>SendLen := 0\<rparr>); s \<leftarrow> put 0x00 s; put 0x01 s } = Some (reply_head s)"
proof -
  have four: "4 = Suc (Suc (Suc (Suc 0)))" by simp
  obtain x0 x1 x2 x3 x4 x5 xs where "SendBuf s = x0 # x1 # x2 # x3 # x4 # x5 # xs"
    by (rule list6 [OF assms(2)])
  moreover obtain r0 r1 r2 r3 rs where "RX_buf s = r0 # r1 # r2 # r3 # rs"
    using assms(1) by (auto simp: Suc_le_length_iff four)
  ultimately show ?thesis
    unfolding four echo_loop.simps by (simp add: put_Some reply_head_def)
qed

definition boot_ok :: "'o boot \<Rightarrow> bool" where
  "boot_ok s \<longleftrightarrow> length (RX_buf s) = 600 \<and> length (SendBuf s) = 40 \<and> length (ascii_Send_Buf s) = 80
     \<and> tx_live (bport s) \<and> length (USART_Receive_Buf (bport s)) = RECEIVE_SIZE"

lemma RecvData_ok:
  assumes "MODBUS_ASCII_RecvData (RX_buf s) rcvlen0 (bport s) = Some (e, n, buf)" "boot_ok s"
  shows "boot_ok (s\<lparr>RX_buf := buf\<rparr>)"
proof -
  obtain bs where bs: "port_holds (bport s) bs"
    by (rule port_holds_something [of "bport s"]) (use assms(2) in \<open>simp add: boot_ok_def\<close>)
  have "recv_spec bs (RX_buf s) rcvlen0 = Some (e, n, buf)"
    using assms RecvData_spec [OF bs, of "RX_buf s" rcvlen0] by (simp add: boot_ok_def)
  then have "length buf = 600"
    using bs assms(2)
    by (auto simp: recv_spec_def Let_def boot_ok_def port_holds_def length_frame_digits split: if_splits)
  then show ?thesis using assms(2) by (simp add: boot_ok_def)
qed

lemma send_reply_ok:
  assumes "boot_ok s" "SendLen s = 7"
  obtains s' where "send_reply s = Some s'" "boot_ok s'"
    "s' = s\<lparr>ascii_Send_Buf := ascii_Send_Buf s', bport := bport s'\<rparr>"
    "trace (bport s') = trace (bport s) @ [EvTx True (frame_of (take 7 (SendBuf s)))]"
    "quiet (bport s) \<longrightarrow> quiet (bport s')"
proof -
  have pre: "tx_live (bport s)" "0 < unat (7 :: u16)" "unat (7 :: u16) \<le> 37" "unat (7 :: u16) \<le> length (SendBuf s)"
    "length (ascii_Send_Buf s) = 80"
    using assms(1) by (simp_all add: boot_ok_def)
  obtain sb u where "MODBUS_ASCII_SendData (SendBuf s) 7 (ascii_Send_Buf s) (bport s) = Some (0, sb, u)"
    "length sb = 80" "tx_live u" "trace u = trace (bport s) @ [EvTx True (frame_of (take (unat (7 :: u16)) (SendBuf s)))]"
    "USART_Receive_Buf u = USART_Receive_Buf (bport s)" "quiet (bport s) \<longrightarrow> quiet u"
    by (rule SendData_frame [OF pre])
  then show thesis
    using assms by (intro that [of "s\<lparr>ascii_Send_Buf := sb, bport := u\<rparr>"]) (simp_all add: send_reply_def boot_ok_def)
qed

context flash_hal
begin

lemma msg_data_step:
  assumes "msg_data H dl s = Some s'" "SendLen s = 6" "length (RX_buf s) = 600" "rx16 s 8 \<noteq> Some 0 \<Longrightarrow> e"
  shows "msg_step e s s'"
proof -
  have head: "msg_step e s s'" if h: "data_head pn pc s = Some s'" for pn pc
  proof -
    obtain t c where "put RESPONSE_ERR_NONE (s\<lparr>FileCheckSum := 0, FileRunCheckSum := 0, PacketNum := pn, PacketCnt := pc\<rparr>) = Some t"
      "s' = t\<lparr>FileCheckSum := c\<rparr>"
      using h by (auto simp: data_head_def Let_def Option.bind_eq_Some_conv)
    then show ?thesis using assms(2) by (auto simp: msg_step_def same_bufs_def dest!: put_SomeD)
  qed
  have other: "msg_step e s s'" if "put v s = Some s'" for v
    by (rule put_step [OF that]) (simp_all add: assms(2) same_bufs_def)
  have data: "msg_step e s s'" if "data_next H dl s = Some s'" "rx16 s 8 = Some k" "uint (PacketCnt s) = uint k - 1" for k
  proof -
    have "k \<noteq> 0"
    proof
      assume "k = 0"
      then have "uint (PacketCnt s) = - 1" using that(3) by simp
      moreover have "0 \<le> uint (PacketCnt s)" by simp
      ultimately show False by linarith
    qed
    with assms(4) that(2) have e by simp
    then show ?thesis using data_next_step [OF that(1) assms(2,3)] by simp
  qed
  show ?thesis
    using assms(1) head other data by (auto simp: msg_data_def Option.bind_eq_Some_conv split: if_splits)
qed

lemma dispatch_step:
  assumes "dispatch H OB mid dl s = Some s'" "SendLen s = 6" "length (RX_buf s) = 600"
    and "mid = 3 \<Longrightarrow> rx16 s 8 \<noteq> Some 0 \<Longrightarrow> e"
  shows "msg_step e s s'"
proof -
  have "msg_step e s s'" if "put v s = Some s'" for v
    by (rule put_step [OF that]) (simp_all add: assms(2) same_bufs_def)
  with assms msg_start_step msg_erase_step msg_data_step msg_run_step show ?thesis
    by (fastforce simp: dispatch_def split: if_splits)
qed

lemma handle_frame_step:
  assumes "handle_frame H OB fmerror rcvlen s = Some s'" "boot_ok s" "data_packet s \<Longrightarrow> e"
  shows "boot_ok s' \<and> (quiet (bport s) \<longrightarrow> quiet (bport s')) \<and> next_dst e (Flashadrdst s) (Flashadrdst s')
     \<and> writes_in e (Flashadrdst s) (bflash s) (bflash s')"
proof (cases "s' = s")
  case False
  let ?h = "reply_head s"
  have len: "4 \<le> length (RX_buf s)" "6 \<le> length (SendBuf s)" using assms(2) by (simp_all add: boot_ok_def)
  obtain mid dl t where t: "(if fmerror = ERR_NONE then dispatch H OB mid dl ?h else put RESPONSE_LRC_ERR ?h) = Some t"
    "(if restarted t then Some t else send_reply t) = Some s'" "rx16 s 2 = Some mid"
    "rd (RX_buf s) 0 = Some (Device_Addr s)" "rd (RX_buf s) 1 = Some 0x41"
    using assms(1) False reply_head_Some [OF len]
    by (fastforce simp: handle_frame_def Option.bind_eq_Some_conv split: if_splits)
  have h: "SendLen ?h = 6" "length (RX_buf ?h) = 600" "boot_ok ?h" "bport ?h = bport s"
    "Flashadrdst ?h = Flashadrdst s" "bflash ?h = bflash s"
    using assms(2) by (simp_all add: reply_head_def boot_ok_def)
  have rx: "rx16 ?h k = rx16 s k" for k by (simp add: rx16_def reply_head_def)
  have m: "msg_step e ?h t"
  proof (cases "fmerror = ERR_NONE")
    case True
    with t(1) have "dispatch H OB mid dl ?h = Some t" by simp
    then show ?thesis
      by (rule dispatch_step [OF _ h(1,2)]) (use t(3-5) assms(3) in \<open>simp add: data_packet_def rx\<close>)
  next
    case False
    then show ?thesis
      using t(1) by (auto simp: h same_bufs_def intro!: put_step)
  qed
  then have ok: "boot_ok t" "bport t = bport s"
    using h by (simp_all add: msg_step_def same_bufs_def boot_ok_def)
  show ?thesis
  proof (cases "restarted t")
    case True
    then show ?thesis using t(2) m ok h by (auto simp: msg_step_def)
  next
    case False
    then have "SendLen t = 7" using m by (simp add: msg_step_def)
    then obtain v where v: "send_reply t = Some v" "boot_ok v"
      "v = t\<lparr>ascii_Send_Buf := ascii_Send_Buf v, bport := bport v\<rparr>" "quiet (bport t) \<longrightarrow> quiet (bport v)"
      by (rule send_reply_ok [OF ok(1)])
    have "s' = v" using t(2) v(1) False by simp
    moreover have "Flashadrdst v = Flashadrdst t" "bflash v = bflash t" by (subst v(3), simp)+
    ultimately show ?thesis using v m ok h by (simp add: msg_step_def)
  qed
qed (use assms in simp)

text \<open>The handler on whatever the port holds.\<close>

lemma Handle_step:
  assumes "HandleFrameInformation H OB rcvlen0 s = Some s'" "boot_ok s"
  shows "boot_ok s' \<and> (quiet (bport s) \<longrightarrow> quiet (bport s'))
     \<and> next_dst (brings_data rcvlen0 s) (Flashadrdst s) (Flashadrdst s')
     \<and> writes_in (brings_data rcvlen0 s) (Flashadrdst s) (bflash s) (bflash s')"
proof -
  obtain e n buf where r: "MODBUS_ASCII_RecvData (RX_buf s) rcvlen0 (bport s) = Some (e, n, buf)"
    "handle_frame H OB e n (s\<lparr>RX_buf := buf\<rparr>) = Some s'"
    using assms(1) by (auto simp: HandleFrameInformation_def Option.bind_eq_Some_conv)
  have "data_packet (s\<lparr>RX_buf := buf\<rparr>) \<Longrightarrow> brings_data rcvlen0 s" by (simp add: brings_data_def r(1))
  from handle_frame_step [OF r(2) RecvData_ok [OF r(1) assms(2)] this] show ?thesis by simp
qed

end

end
