(* ===== verification/BootMain.thy ===== *)
theory BootMain
  imports BootMenu
begin

text \<open>
  \<open>STM32F072_BOOT/Src/main.c\<close>: the initialisation of the boot loader, its loop, which waits for
  messages until the upgrade time has passed or an upgrade is complete, and the jump to the
  application.  A step relation interleaves the loop with what the hardware does.
\<close>

section \<open>The main program\<close>

text \<open>Where the processor is: in the loop, which compares against \<open>Old_Tick\<close>; in the final empty
  loop; in the application, with its stack pointer and entry point; restarted.\<close>

datatype boot_phase =
    BWait u32
  | BHang
  | BJump u32 u32
  | BRestart

definition ModBus_Param_Init :: "'o boot \<Rightarrow> 'o boot option" where
  "ModBus_Param_Init s = do {
     a \<leftarrow> Read_Memory_1_Byte ADDR_DEVICEADDR s;
     let s = s\<lparr>Device_Addr := a\<rparr>;
     p \<leftarrow> Read_Memory_1_Byte ADDR_ERASEFLAG s;
     Some (s\<lparr>ProgErase := p\<rparr>) }"

definition boot_init :: "u32 \<Rightarrow> 'o boot \<Rightarrow> ('o boot \<times> boot_phase) option" where
  "boot_init tick s = do {
     s \<leftarrow> ModBus_Param_Init s;
     let s = s\<lparr>bport := boot_USART_Init 1 0 (bport s)\<rparr>;
     Upgrade_Flag \<leftarrow> Read_Memory_1_Byte ADDR_UPGRADEFLAG s;
     let s = (if Upgrade_Flag = UPGRADE_FLAG_NONE \<or> ProgErase s = ERASE_FLAG_NONE
              then s\<lparr>UpgradeWaitTime := - 1\<rparr> else s\<lparr>UpgradeWaitTime := 2\<rparr>);
     Some (s, BWait tick) }"

text \<open>\<open>UpgradeWaitTime * 1000 + Old_Tick\<close> is computed in \<open>uint32_t\<close>.\<close>

definition wait_over :: "u32 \<Rightarrow> u32 \<Rightarrow> 'o boot \<Rightarrow> bool" where
  "wait_over tick Old_Tick s \<longleftrightarrow>
     sint (UpgradeWaitTime s) \<ge> 0 \<and> tick > of_int (sint (UpgradeWaitTime s) * 1000) + Old_Tick"

definition JumpToUserApplication :: "'o boot \<Rightarrow> ('o boot \<times> boot_phase) option" where
  "JumpToUserApplication s = do {
     JumpAddress \<leftarrow> flash_word (bflash s) (APPLICATION_ADDRESS + 4);
     msp \<leftarrow> flash_word (bflash s) APPLICATION_ADDRESS;
     Some (s, BJump msp JumpAddress) }"

text \<open>The driver's \<open>HAL_UART_DeInit\<close> stops the port.\<close>

definition BSP_USART_UART_DeInit :: "usart \<Rightarrow> usart" where
  "BSP_USART_UART_DeInit u = u\<lparr>gState_READY := False\<rparr>"

definition boot_leave :: "hal_flash \<Rightarrow> 'o boot \<Rightarrow> ('o boot \<times> boot_phase) option" where
  "boot_leave H s = do {
     w \<leftarrow> flash_word (bflash s) APPLICATION_ADDRESS;
     if w AND 0x2FFE0000 = 0x20000000 then do {
       s \<leftarrow> (if ProgErase s \<noteq> ERASE_FLAG
             then do { (_, s) \<leftarrow> Write_Memory_1_Byte H ADDR_ERASEFLAG ERASE_FLAG s; Some s }
             else Some s);
       (_, s) \<leftarrow> Write_Memory_1_Byte H ADDR_UPGRADEFLAG UPGRADE_FLAG s;
       (_, s) \<leftarrow> Write_Memory_1_Byte H ADDR_DEVICEADDR UPGRADED_DEVICEADDR s;
       u \<leftarrow> boot_wait_TX_Cplt (bport s);
       let s = s\<lparr>bport := BSP_USART_UART_DeInit u\<rparr>;
       JumpToUserApplication s }
     else Some (s, BHang) }"

text \<open>One round of the loop, with the time it reads.\<close>

definition boot_poll :: "hal_flash \<Rightarrow> 'o hal_ob \<Rightarrow> u32 \<Rightarrow> u16 \<Rightarrow> u32 \<Rightarrow> 'o boot \<Rightarrow> ('o boot \<times> boot_phase) option" where
  "boot_poll H OB tick rcvlen0 Old_Tick s =
     (if wait_over tick Old_Tick s then boot_leave H s
      else if Sensor_USART_Get_RX_Updata_Flag (bport s) \<noteq> 0 then do {
        let s = s\<lparr>bport := Sensor_USART_Clear_RX_Updata_Flag (bport s)\<rparr>;
        s \<leftarrow> HandleFrameInformation H OB rcvlen0 s;
        Some (s, if restarted s then BRestart else BWait Old_Tick) }
      else Some (s, BWait Old_Tick))"

section \<open>Steps\<close>

definition on_bport :: "(usart \<Rightarrow> usart) \<Rightarrow> 'o boot \<Rightarrow> 'o boot" where
  "on_bport g s = s\<lparr>bport := g (bport s)\<rparr>"

text \<open>The loop finds a frame that is a data packet before any erase message has been served since
  the reset: \<open>Flashadrdst\<close> still is 0, so the packet would be programmed at the alias of the boot
  loader's code.\<close>

definition early_data :: "u16 \<Rightarrow> 'o boot \<Rightarrow> bool" where
  "early_data rcvlen0 s \<longleftrightarrow> Sensor_USART_Get_RX_Updata_Flag (bport s) \<noteq> 0 \<and> Flashadrdst s = 0
     \<and> brings_data rcvlen0 (on_bport Sensor_USART_Clear_RX_Updata_Flag s)"

text \<open>The number counts the frames that have been handled; the Boolean says that none of them was
  early data.\<close>

inductive boot_run :: "hal_flash \<Rightarrow> 'o hal_ob \<Rightarrow> 'o boot \<Rightarrow> nat \<Rightarrow> bool \<Rightarrow> 'o boot \<Rightarrow> boot_phase \<Rightarrow> bool"
  for H OB s0 where
  init: "boot_init tick s0 = Some (s, ph) \<Longrightarrow> boot_run H OB s0 0 True s ph"
| poll: "boot_run H OB s0 n ok s (BWait old) \<Longrightarrow> boot_poll H OB tick rcvlen0 old s = Some (s', ph)
    \<Longrightarrow> boot_run H OB s0 (if Sensor_USART_Get_RX_Updata_Flag (bport s) \<noteq> 0 then Suc n else n)
          (ok \<and> \<not> early_data rcvlen0 s) s' ph"
| rx_byte: "boot_run H OB s0 n ok s (BWait old) \<Longrightarrow> boot_run H OB s0 n ok (on_bport (dma_rx b) s) (BWait old)"
| rx_match: "boot_run H OB s0 n ok s (BWait old) \<Longrightarrow> boot_run H OB s0 n ok (on_bport char_match s) (BWait old)"
| tx_end: "boot_run H OB s0 n ok s (BWait old) \<Longrightarrow> \<not> gState_READY (bport s)
    \<Longrightarrow> boot_run H OB s0 n ok (on_bport boot_tx_complete s) (BWait old)"

section \<open>What a session may change\<close>

text \<open>The static variables at the reset.\<close>

definition boot_static :: "'o boot \<Rightarrow> bool" where
  "boot_static s \<longleftrightarrow> length (RX_buf s) = 600 \<and> length (SendBuf s) = 40 \<and> length (ascii_Send_Buf s) = 80
     \<and> length (USART_Receive_Buf (bport s)) = RECEIVE_SIZE \<and> TX_Cplt_Flag (bport s) \<noteq> 0
     \<and> PacketCnt s = 0 \<and> PacketNum s = 0 \<and> Flashadrdst s = 0 \<and> FileCheckSum s = 0 \<and> FileRunCheckSum s = 0
     \<and> \<not> restarted s"

text \<open>The next packet's address after \<open>n\<close> frames: still 0, where it starts, or behind the start of
  the application area.\<close>

definition dst_near :: "nat \<Rightarrow> u32 \<Rightarrow> bool" where
  "dst_near n d \<longleftrightarrow> d = 0 \<or> (APPLICATION_ADDRESS \<le> unat d \<and> unat d \<le> APPLICATION_ADDRESS + 590 * n)"

definition protects :: "flash \<Rightarrow> flash \<Rightarrow> bool" where
  "protects f f' \<longleftrightarrow> (\<forall>x. FLASH_LOW \<le> x \<and> \<not> app_area x \<and> \<not> flag_page x \<longrightarrow> fl_mem f' x = fl_mem f x)"

lemma protects_refl [simp]: "protects f f"
  by (simp add: protects_def)

lemma protects_trans: "protects f g \<Longrightarrow> protects g h \<Longrightarrow> protects f h"
  by (auto simp: protects_def)

lemma next_dst_near:
  assumes "next_dst e d d'" "dst_near n d" "n < 7000000" "\<not> (d = 0 \<and> e)"
  shows "dst_near (Suc n) d'"
proof -
  have "unat (d + k) = unat d + unat k" if "unat k \<le> 590" "d \<noteq> 0" for k
    using that assms(2,3) by (auto simp: dst_near_def unat_word_ariths)
  then show ?thesis
    using assms by (auto simp: next_dst_def dst_near_def)
qed

lemma writes_in_protects: "writes_in e d f f' \<Longrightarrow> dst_near n d \<Longrightarrow> \<not> (d = 0 \<and> e) \<Longrightarrow> protects f f'"
  by (fastforce simp: writes_in_def protects_def may_write_def dst_near_def app_area_def)

lemma dst_near_mono: "dst_near n d \<Longrightarrow> n \<le> m \<Longrightarrow> dst_near m d"
  by (auto simp: dst_near_def)

text \<open>The initialisation reads three bytes of the flag page.\<close>

lemma boot_read_flag: "unat a \<le> BOOT_END \<Longrightarrow> boot_Read_OneByte f a = Some (fl_mem f (BOOT_BASE + unat a))"
  by (simp add: boot_Read_OneByte_def flash_get_def)

lemma boot_init_result:
  assumes "boot_init tick s0 = Some (s, ph)"
  shows "ph = BWait tick"
    and "s = s0\<lparr>Device_Addr := fl_mem (bflash s0) BOOT_BASE, ProgErase := fl_mem (bflash s0) (BOOT_BASE + 2046),
              bport := boot_USART_Init 1 0 (bport s0),
              UpgradeWaitTime := (if fl_mem (bflash s0) (BOOT_BASE + 2047) = UPGRADE_FLAG_NONE
                 \<or> fl_mem (bflash s0) (BOOT_BASE + 2046) = ERASE_FLAG_NONE then - 1 else 2)\<rparr>"
  using assms by (auto simp: boot_init_def ModBus_Param_Init_def Read_Memory_1_Byte_def boot_read_flag Let_def)

lemma boot_USART_Init_ok:
  "TX_Cplt_Flag u \<noteq> 0 \<Longrightarrow> tx_live (boot_USART_Init b p u)"
  "USART_Receive_Buf (boot_USART_Init b p u) = USART_Receive_Buf u"
  by (simp_all add: boot_USART_Init_def BSP_USART_UART_Init_def RS485_RE_DE_GPIO_Init_def
      BSP_UART_CharMatch_Config_def BSP_UART_Receive_DMA_def tx_live_def Let_def)

lemma char_match_keeps:
  "tx_live u \<Longrightarrow> tx_live (char_match u)" "USART_Receive_Buf (char_match u) = USART_Receive_Buf u"
  by (simp_all add: char_match_def boot_irq_simps tx_live_def)

lemma boot_ok_port:
  assumes "boot_ok s"
  shows "boot_ok (on_bport (dma_rx b) s)" "boot_ok (on_bport char_match s)"
    "boot_ok (on_bport boot_tx_complete s)" "boot_ok (on_bport Sensor_USART_Clear_RX_Updata_Flag s)"
  using assms by (simp_all add: boot_ok_def on_bport_def dma_rx_tx dma_rx_buf char_match_keeps
      boot_tx_complete_fields Sensor_USART_Clear_RX_Updata_Flag_def) (simp_all add: tx_live_def boot_tx_complete_fields)

context flash_hal
begin

lemma Write_Memory_protects:
  assumes "unat a \<le> BOOT_END" "v \<noteq> 0xFF"
  obtains r s' where "Write_Memory_1_Byte H a v s = Some (r, s')" "protects (bflash s) (bflash s')"
    "s' = s\<lparr>bflash := bflash s'\<rparr>"
proof -
  obtain st f' buf where w: "boot_Write_OneByte H (bflash s) a v = Some (st, f')"
    "\<And>x. \<not> flag_page x \<Longrightarrow> fl_mem f' x = fl_mem (bflash s) x"
    by (rule boot_write_one [OF assms, of "bflash s"]) blast
  then show thesis
    by (intro that [of st "s\<lparr>bflash := f'\<rparr>"]) (auto simp: Write_Memory_1_Byte_def protects_def)
qed

lemma boot_leave_protects:
  assumes "boot_leave H s = Some (s', ph)"
  shows "protects (bflash s) (bflash s') \<and> (\<forall>old. ph \<noteq> BWait old)"
proof -
  obtain w where w: "flash_word (bflash s) APPLICATION_ADDRESS = Some w"
    using assms by (auto simp: boot_leave_def Option.bind_eq_Some_conv)
  show ?thesis
  proof (cases "w AND 0x2FFE0000 = 0x20000000")
    case False
    then show ?thesis using assms w by (simp add: boot_leave_def)
  next
    case True
    obtain r0 s0 where s0: "Write_Memory_1_Byte H ADDR_ERASEFLAG ERASE_FLAG s = Some (r0, s0)"
      "protects (bflash s) (bflash s0)"
      by (rule Write_Memory_protects [of ADDR_ERASEFLAG ERASE_FLAG s]) simp_all
    define s1 where "s1 = (if ProgErase s \<noteq> ERASE_FLAG then s0 else s)"
    have s1: "(if ProgErase s \<noteq> ERASE_FLAG
        then Write_Memory_1_Byte H ADDR_ERASEFLAG ERASE_FLAG s \<bind> (\<lambda>(_, s). Some s) else Some s) = Some s1"
      "protects (bflash s) (bflash s1)"
      using s0 by (simp_all add: s1_def)
    obtain r2 s2 where s2: "Write_Memory_1_Byte H ADDR_UPGRADEFLAG UPGRADE_FLAG s1 = Some (r2, s2)"
      "protects (bflash s1) (bflash s2)"
      by (rule Write_Memory_protects [of ADDR_UPGRADEFLAG UPGRADE_FLAG s1]) simp_all
    obtain r3 s3 where s3: "Write_Memory_1_Byte H ADDR_DEVICEADDR UPGRADED_DEVICEADDR s2 = Some (r3, s3)"
      "protects (bflash s2) (bflash s3)"
      by (rule Write_Memory_protects [of ADDR_DEVICEADDR UPGRADED_DEVICEADDR s2]) simp_all
    have "bflash s' = bflash s3 \<and> (\<exists>a b. ph = BJump a b)"
      using assms w True s1(1) s2(1) s3(1)
      by (auto simp: boot_leave_def JumpToUserApplication_def Let_def Option.bind_eq_Some_conv)
    then show ?thesis
      using protects_trans [OF s1(2) protects_trans [OF s2(2) s3(2)]] by auto
  qed
qed

lemma boot_run_inv:
  assumes "boot_run H OB s0 n ok s ph" "boot_static s0" "n \<le> 7000000" "ok"
  shows "protects (bflash s0) (bflash s) \<and> ((\<exists>old. ph = BWait old) \<longrightarrow> boot_ok s \<and> dst_near n (Flashadrdst s))"
  using assms
proof (induction n ok s ph)
  case (init tick s ph)
  then show ?case
    using boot_init_result(2) [OF init.hyps]
    by (simp add: boot_static_def boot_ok_def boot_USART_Init_ok dst_near_def)
next
  case (poll n ok s old tick rcvlen0 s' ph)
  let ?rx = "Sensor_USART_Get_RX_Updata_Flag (bport s) \<noteq> 0"
  have n: "n \<le> 7000000" "ok" "\<not> early_data rcvlen0 s" using poll.prems(2,3) by (auto split: if_splits)
  note IH = poll.IH [OF poll.prems(1) n(1,2)]
  show ?case
  proof (cases "wait_over tick old s")
    case True
    then have "boot_leave H s = Some (s', ph)" using poll.hyps(2) by (simp add: boot_poll_def)
    from boot_leave_protects [OF this] IH protects_trans show ?thesis by blast
  next
    case False
    note leave = False
    show ?thesis
    proof (cases ?rx)
      case False
      then show ?thesis using poll.hyps(2) leave IH by (auto simp: boot_poll_def)
    next
      case True
      let ?u = "on_bport Sensor_USART_Clear_RX_Updata_Flag s"
      have h: "HandleFrameInformation H OB rcvlen0 ?u = Some s'" "n < 7000000"
        using poll.hyps(2) leave True poll.prems(2)
        by (auto simp: boot_poll_def on_bport_def Let_def Option.bind_eq_Some_conv)
      have u: "boot_ok ?u" "Flashadrdst ?u = Flashadrdst s" "bflash ?u = bflash s"
        using IH boot_ok_port(4) by (auto simp: on_bport_def)
      have d: "dst_near n (Flashadrdst s)" using IH by simp
      have e: "\<not> (Flashadrdst s = 0 \<and> brings_data rcvlen0 ?u)" using n(3) True by (simp add: early_data_def)
      note hs = Handle_step [OF h(1) u(1)]
      have "protects (bflash s) (bflash s')"
        by (rule writes_in_protects [OF _ d e]) (use hs u in simp)
      moreover have "dst_near (Suc n) (Flashadrdst s')"
        by (rule next_dst_near [OF _ d h(2) e]) (use hs u in simp)
      ultimately show ?thesis
        using hs IH True protects_trans by auto
    qed
  qed
qed (use boot_ok_port in \<open>auto simp: on_bport_def\<close>)

end

section \<open>Properties\<close>

text \<open>C24.  The boot loader protects itself, as long as no data packet comes before an erase message:
  in every run from reset in which the host sends whatever else it wants, in any order, and however
  the flash driver and the option bytes answer, through at most 7,000,000 handled frames, only
  the application area and the boot loader's flag page change; its own code below the area and the
  application's parameters behind the flag page keep their contents.  (A data packet that comes
  before is programmed at address 0, the alias of the boot loader's code; \<open>early_data_hits_boot_code\<close>
  shows what that does.)\<close>

theorem boot_session_safe:
  assumes "flash_hal H" "boot_static s0" "boot_run H OB s0 n True s ph" "n \<le> 7000000"
    and "FLASH_LOW \<le> x" "x < APPLICATION_ADDRESS \<or> BOOT_BASE + FLASH_PAGE_SIZE \<le> x"
  shows "fl_mem (bflash s) x = fl_mem (bflash s0) x"
  using flash_hal.boot_run_inv [OF assms(1,3,2,4) TrueI] assms(5,6)
  by (auto simp: protects_def app_area_def flag_page_def)

text \<open>A new board: erased flash, no page protected.\<close>

definition no_ob :: "unit hal_ob" where
  "no_ob = \<lparr>oGetConfig = (\<lambda>_. (0xFFFFFFFF, 0xFF)), oUnlock = (\<lambda>ob. ob), oErase = (\<lambda>_ ob. (HAL_OK, ob)),
     oProgram = (\<lambda>_ _ ob. (HAL_OK, ob))\<rparr>"

definition boot0 :: "unit boot" where
  "boot0 = \<lparr>Device_Addr = 65, ProgErase = 0xFF, UpgradeWaitTime = - 1, RX_buf = replicate 600 0, SendLen = 0,
     PacketCnt = 0, PacketNum = 0, Flashadrdst = 0, FileCheckSum = 0, FileRunCheckSum = 0,
     SendBuf = replicate 40 0, ascii_Send_Buf = replicate 80 0, bport = usart_reset, bflash = blank_flash,
     bob = (), restarted = False\<rparr>"

lemma boot0_static: "boot_static boot0"
  by (simp add: boot_static_def boot0_def usart_reset_def)

lemma boot0_init: "\<exists>s. boot_init 7 boot0 = Some (s, BWait 7) \<and> bflash s = blank_flash"
  by (simp add: boot_init_def ModBus_Param_Init_def Read_Memory_1_Byte_def boot_read_flag Let_def boot0_def)

lemma boot_session_safe_witness:
  "\<exists>s ph. boot_run st_hal no_ob boot0 0 True s ph \<and> fl_mem (bflash s) 0x08001000 = 0xFF"
proof -
  obtain s where "boot_init 7 boot0 = Some (s, BWait 7)" using boot0_init by blast
  then have "boot_run st_hal no_ob boot0 0 True s (BWait 7)" by (rule boot_run.init)
  then have run: "boot_run st_hal no_ob boot0 0 True (on_bport (dma_rx 0x3A) s) (BWait 7)" by (rule boot_run.rx_byte)
  have "fl_mem (bflash (on_bport (dma_rx 0x3A) s)) 0x08001000 = fl_mem (bflash boot0) 0x08001000"
    by (rule boot_session_safe [OF st_hal_flash_hal boot0_static run]) simp_all
  then show ?thesis using run by (auto simp: boot0_def blank_flash_def)
qed

end
