(* ===== verification/BootUpgrade.thy ===== *)
theory BootUpgrade
  imports BootMain
begin

text \<open>
  A whole upgrade as the host sees it: the messages of \<open>menu_uart.c\<close> as frames on the line, the
  replies, and what is in the flash at the end.
\<close>

section \<open>Messages\<close>

text \<open>A message: address, function code \<open>0x41\<close>, message id, length of the data, data.\<close>

definition message :: "u8 \<Rightarrow> u8 \<Rightarrow> u8 list \<Rightarrow> u8 list" where
  "message a mid ds = [a, 0x41, 0, mid, hi8 (of_nat (length ds)), lo8 (of_nat (length ds))] @ ds"

text \<open>The answer to message \<open>mid\<close>, with the response code \<open>r\<close>.\<close>

definition answer :: "u8 \<Rightarrow> u8 \<Rightarrow> u8 \<Rightarrow> uart_event" where
  "answer a mid r = EvTx True (frame_of [a, 0x41, 0, mid, 0, 1, r])"

text \<open>The frame of a packet arrives and the loop of the boot loader handles it.\<close>

definition arrive :: "u8 list \<Rightarrow> 'o boot \<Rightarrow> 'o boot" where
  "arrive bs s = on_bport (\<lambda>u. Sensor_USART_Clear_RX_Updata_Flag (char_match (rx_bytes (frame_of bs) u))) s"

definition receive :: "hal_flash \<Rightarrow> 'o hal_ob \<Rightarrow> u16 \<Rightarrow> u8 list \<Rightarrow> 'o boot \<Rightarrow> 'o boot option" where
  "receive H OB rcvlen0 bs s = HandleFrameInformation H OB rcvlen0 (arrive bs s)"

fun session :: "hal_flash \<Rightarrow> 'o hal_ob \<Rightarrow> u16 \<Rightarrow> u8 list list \<Rightarrow> 'o boot \<Rightarrow> 'o boot option" where
  "session H OB rcvlen0 [] s = Some s"
| "session H OB rcvlen0 (m # ms) s = do { s \<leftarrow> receive H OB rcvlen0 m s; session H OB rcvlen0 ms s }"

lemma session_append:
  "session H OB r (ms @ ms') s = do { s \<leftarrow> session H OB r ms s; session H OB r ms' s }"
proof (induction ms arbitrary: s)
  case (Cons m ms)
  then show ?case by (cases "receive H OB r m s") simp_all
qed simp

section \<open>What arrives\<close>

lemma quiet_clear [simp]: "quiet (Sensor_USART_Clear_RX_Updata_Flag u) = quiet u"
  by (simp add: quiet_def rx_ready_def tx_live_def Sensor_USART_Clear_RX_Updata_Flag_def)

lemma arrive_fields [simp]:
  "RX_buf (arrive bs s) = RX_buf s" "SendBuf (arrive bs s) = SendBuf s" "ascii_Send_Buf (arrive bs s) = ascii_Send_Buf s"
  "Device_Addr (arrive bs s) = Device_Addr s" "UpgradeWaitTime (arrive bs s) = UpgradeWaitTime s"
  by (simp_all add: arrive_def on_bport_def)

lemma arrive_port:
  assumes "quiet (bport s)" "length bs \<le> 297"
  shows "quiet (bport (arrive bs s))" "port_holds (bport (arrive bs s)) (frame_of bs)"
    "trace (bport (arrive bs s)) = trace (bport s)"
proof -
  have l: "length (frame_of bs) \<le> RECEIVE_SIZE" using assms(2) by (simp add: length_frame_of)
  show "quiet (bport (arrive bs s))" "trace (bport (arrive bs s)) = trace (bport s)"
    using quiet_char_match [OF assms(1) l]
    by (simp_all add: arrive_def on_bport_def) (simp add: Sensor_USART_Clear_RX_Updata_Flag_def)
  have "rx_ready (bport s)" using assms(1) by (simp add: quiet_def)
  from port_holds_char_match [OF this l]
  have "\<forall>rb. length rb = RECEIVE_SIZE \<longrightarrow> Sensor_USART_GetReceData rb (bport (arrive bs s))
      = Some (of_nat (length (frame_of bs)), frame_of bs @ drop (length (frame_of bs)) rb)"
    by (auto simp: port_holds_def arrive_def on_bport_def Sensor_USART_Clear_RX_Updata_Flag_def
        intro: trans [OF GetReceData_cong])
  then show "port_holds (bport (arrive bs s)) (frame_of bs)" using l by (simp add: port_holds_def)
qed

text \<open>The receive buffer of the handler: the packet with its checksum, then what was there.\<close>

definition rx_of :: "u8 list \<Rightarrow> u8 list \<Rightarrow> u8 list" where
  "rx_of bs old = with_lrc bs @ drop (length bs + 1) (frame_of bs @ drop (2 * length bs + 5) old)"

lemma RecvData_message:
  assumes "quiet (bport s)" "length bs \<le> 297" "length (RX_buf s) = 600"
  shows "MODBUS_ASCII_RecvData (RX_buf s) r (bport (arrive bs s)) = Some (ERR_NONE, of_nat (length bs), rx_of bs (RX_buf s))"
proof -
  have "MODBUS_ASCII_RecvData (RX_buf s) r (bport (arrive bs s)) = recv_spec (frame_of bs) (RX_buf s) r"
    by (rule RecvData_spec [OF arrive_port(2) [OF assms(1,2)] assms(3)])
  also have "\<dots> = Some (ERR_NONE, of_nat (length bs), rx_of bs (RX_buf s))"
    unfolding frame_of_def recv_spec_hex [OF frame_of_not_Nil] sum_with_lrc
    by (simp add: rx_of_def frame_of_def with_lrc_def add.commute)
  finally show ?thesis .
qed

lemma length_rx_of: "length bs \<le> 297 \<Longrightarrow> length old = 600 \<Longrightarrow> length (rx_of bs old) = 600"
  by (simp add: rx_of_def with_lrc_def length_frame_of)

lemma rx_of_nth: "i < length bs \<Longrightarrow> rx_of bs old ! i = bs ! i"
  by (simp add: rx_of_def with_lrc_def nth_append)

lemma rx_of_part: "i + n \<le> length bs \<Longrightarrow> take n (drop i (rx_of bs old)) = take n (drop i bs)"
  by (simp add: rx_of_def with_lrc_def)

text \<open>The state in which the message is dispatched.\<close>

definition incoming :: "u8 list \<Rightarrow> 'o boot \<Rightarrow> 'o boot" where
  "incoming bs s = reply_head ((arrive bs s)\<lparr>RX_buf := rx_of bs (RX_buf s)\<rparr>)"

lemma be16_arith: "ucast h * 256 + ucast l = (be16 h l :: u16)"
proof -
  have "unat (ucast h * 256 + ucast l :: u16) = unat (be16 h l)"
    using unat_u8_less [of h] unat_u8_less [of l] by (simp add: unat_be16 unat_word_ariths)
  then show ?thesis by (rule word_unat_eq_iff [THEN iffD2])
qed

lemma rx16_be16: "i + 1 < length (RX_buf s) \<Longrightarrow> rx16 s i = Some (be16 (RX_buf s ! i) (RX_buf s ! (i + 1)))"
  by (simp add: rx16_def be16_arith)

lemma handle_frame_accepted:
  assumes "2 \<le> length (RX_buf t)" "RX_buf t ! 1 = 0x41" "RX_buf t ! 0 = Device_Addr t" "Device_Addr t \<noteq> 0"
    and "rx16 t 2 = Some mid" "rx16 t 4 = Some dl" "uint rcvlen - 6 = uint dl"
    and "UpgradeWaitTime t = - 1 \<or> mid = 4 \<or> mid = 1"
    and h: "do { s \<leftarrow> echo_loop 4 (t\<lparr>SendLen := 0\<rparr>); s \<leftarrow> put 0x00 s; put 0x01 s } = Some h"
  shows "handle_frame H OB fmerror rcvlen t = do {
      s \<leftarrow> (if fmerror = ERR_NONE then dispatch H OB mid dl h else put RESPONSE_LRC_ERR h);
      if restarted s then Some s else send_reply s }"
proof -
  obtain s1 s2 where s: "echo_loop 4 (t\<lparr>SendLen := 0\<rparr>) = Some s1" "put 0x00 s1 = Some s2" "put 0x01 s2 = Some h"
    using h by (auto simp: Option.bind_eq_Some_conv)
  have "0 < length (RX_buf t)" "1 < length (RX_buf t)" using assms(1) by linarith+
  moreover have "\<not> (UpgradeWaitTime t \<noteq> - 1 \<and> mid \<noteq> 4 \<and> mid \<noteq> 1)" using assms(8) by blast
  ultimately show ?thesis
    using assms(2-7) s unfolding handle_frame_def by auto
qed

lemma receive_message:
  assumes ok: "boot_ok s" and q: "quiet (bport s)" and a: "Device_Addr s = a" "a \<noteq> 0"
    and m: "m = message a mid ds" "length ds \<le> 290"
    and w: "UpgradeWaitTime s = - 1 \<or> mid = 1 \<or> mid = 4"
  shows "receive H OB r m s = do {
      s \<leftarrow> dispatch H OB (ucast mid) (of_nat (length ds)) (incoming m s);
      if restarted s then Some s else send_reply s }"
proof -
  have len: "length m = 6 + length ds" "length m \<le> 297" using m by (simp_all add: message_def)
  let ?s = "(arrive m s)\<lparr>RX_buf := rx_of m (RX_buf s)\<rparr>"
  have l: "length (RX_buf ?s) = 600" using len ok by (simp add: length_rx_of boot_ok_def)
  have nth: "RX_buf ?s ! 0 = a" "RX_buf ?s ! 1 = 0x41" "RX_buf ?s ! 2 = 0" "RX_buf ?s ! 3 = mid"
    "RX_buf ?s ! 4 = hi8 (of_nat (length ds))" "RX_buf ?s ! 5 = lo8 (of_nat (length ds))"
    using len(1) by (simp_all add: rx_of_nth) (simp_all add: m(1) message_def)
  have mid: "rx16 ?s 2 = Some (ucast mid)"
    using l nth by (simp add: rx16_def numeral_3_eq_3 [symmetric])
  have dl: "rx16 ?s 4 = Some (of_nat (length ds))"
    using l nth by (simp add: rx16_be16 be16_hi_lo)
  have u: "unat (of_nat (length m) :: u16) = length m" "unat (of_nat (length ds) :: u16) = length ds"
    by (rule unat_of_nat_u16; use len m(2) in simp)+
  then have "uint (of_nat (length m) :: u16) - 6 = uint (of_nat (length ds) :: u16)"
    using len(1) by (simp only: uint_nat)
  moreover have "ucast mid = (4 :: u16) \<longleftrightarrow> mid = 4" "ucast mid = (1 :: u16) \<longleftrightarrow> mid = 1"
    by (simp_all add: word_unat_eq_iff)
  moreover have "do { s \<leftarrow> echo_loop 4 (?s\<lparr>SendLen := 0\<rparr>); s \<leftarrow> put 0x00 s; put 0x01 s } = Some (incoming m s)"
    using ok l unfolding incoming_def by (intro reply_head_Some) (simp_all add: boot_ok_def)
  ultimately have "handle_frame H OB ERR_NONE (of_nat (length m)) ?s = do {
      s \<leftarrow> (if ERR_NONE = ERR_NONE then dispatch H OB (ucast mid) (of_nat (length ds)) (incoming m s)
           else put RESPONSE_LRC_ERR (incoming m s));
      if restarted s then Some s else send_reply s }"
    using l nth a w by (intro handle_frame_accepted mid dl) auto
  then show ?thesis
    using ok q len(2) by (simp add: receive_def HandleFrameInformation_def RecvData_message boot_ok_def)
qed

section \<open>Answers\<close>

text \<open>The boot loader with address \<open>a\<close> is ready for a message: nothing pending, the device good
  and no page of its check write-protected.\<close>

definition serving :: "(flash \<Rightarrow> bool) \<Rightarrow> 'o hal_ob \<Rightarrow> u8 \<Rightarrow> 'o boot \<Rightarrow> bool" where
  "serving good OB a s \<longleftrightarrow> boot_ok s \<and> quiet (bport s) \<and> Device_Addr s = a \<and> a \<noteq> 0 \<and> \<not> restarted s
     \<and> good (bflash s) \<and> NOT (fst (oGetConfig OB (bob s))) AND FLASH_PAGE_TO_BE_PROTECTED = 0"

lemma incoming_fields [simp]:
  "SendLen (incoming m s) = 6" "RX_buf (incoming m s) = rx_of m (RX_buf s)" "bport (incoming m s) = bport (arrive m s)"
  "ascii_Send_Buf (incoming m s) = ascii_Send_Buf s" "Device_Addr (incoming m s) = Device_Addr s"
  "ProgErase (incoming m s) = ProgErase s" "UpgradeWaitTime (incoming m s) = UpgradeWaitTime s"
  "PacketCnt (incoming m s) = PacketCnt s" "PacketNum (incoming m s) = PacketNum s"
  "Flashadrdst (incoming m s) = Flashadrdst s" "FileCheckSum (incoming m s) = FileCheckSum s"
  "FileRunCheckSum (incoming m s) = FileRunCheckSum s" "bflash (incoming m s) = bflash s" "bob (incoming m s) = bob s"
  "restarted (incoming m s) = restarted s"
  by (simp_all add: incoming_def reply_head_def arrive_def on_bport_def)

lemma incoming_SendBuf:
  assumes "m = message a mid ds"
  shows "SendBuf (incoming m s) = [a, 0x41, 0, mid, 0, 1] @ drop 6 (SendBuf s)"
proof -
  have "take 4 (rx_of m (RX_buf s)) = [a, 0x41, 0, mid]"
    using rx_of_part [of 0 4 m "RX_buf s"] assms by (simp add: message_def)
  then show ?thesis by (simp add: incoming_def reply_head_def)
qed

lemma put_incoming:
  assumes "boot_ok s" "SendLen t = 6" "SendBuf t = SendBuf (incoming m s)" "m = message a mid ds"
  shows "put r t = Some (t\<lparr>SendBuf := [a, 0x41, 0, mid, 0, 1, r] @ drop 7 (SendBuf s), SendLen := 7\<rparr>)"
proof -
  have "drop 6 (SendBuf s) = SendBuf s ! 6 # drop 7 (SendBuf s)"
    using assms(1) Cons_nth_drop_Suc [of 6 "SendBuf s"] by (simp add: boot_ok_def)
  then show ?thesis
    using assms(2,3) by (simp add: put_Some incoming_SendBuf [OF assms(4)])
qed

text \<open>The answer goes out; only the port and its buffer change.\<close>

lemma answer_sent:
  assumes s: "boot_ok s" "quiet (bport s)" and m: "m = message a mid ds" "length ds \<le> 290"
    and u: "bport u = bport (arrive m s)" "SendLen u = 7" "SendBuf u = [a, 0x41, 0, mid, 0, 1, r] @ drop 7 (SendBuf s)"
      "length (RX_buf u) = 600" "ascii_Send_Buf u = ascii_Send_Buf s" "\<not> restarted u"
  obtains sb p where "(if restarted u then Some u else send_reply u) = Some (u\<lparr>ascii_Send_Buf := sb, bport := p\<rparr>)"
    "boot_ok (u\<lparr>ascii_Send_Buf := sb, bport := p\<rparr>)" "quiet p" "trace p = trace (bport s) @ [answer a mid r]"
proof -
  have len: "length m \<le> 297" using m by (simp add: message_def)
  note p = arrive_port [OF s(2) len]
  have ok: "boot_ok u"
    using s(1) u p(1) by (simp add: boot_ok_def quiet_def rx_ready_def)
  obtain v where v: "send_reply u = Some v" "boot_ok v" "v = u\<lparr>ascii_Send_Buf := ascii_Send_Buf v, bport := bport v\<rparr>"
    "trace (bport v) = trace (bport u) @ [EvTx True (frame_of (take 7 (SendBuf u)))]"
    "quiet (bport u) \<longrightarrow> quiet (bport v)"
    by (rule send_reply_ok [OF ok u(2)])
  show thesis
    by (rule that [of "bport v" "ascii_Send_Buf v", folded v(3)]) (use v(1,2,4,5) u p in \<open>simp_all add: answer_def\<close>)
qed

lemma receive_answered:
  assumes s: "boot_ok s" "quiet (bport s)" "Device_Addr s = a" "a \<noteq> 0"
    and m: "m = message a mid ds" "length ds \<le> 290" and w: "UpgradeWaitTime s = - 1 \<or> mid = 1 \<or> mid = 4"
    and d: "dispatch H OB (ucast mid) (of_nat (length ds)) (incoming m s) = Some u"
    and u: "bport u = bport (arrive m s)" "SendLen u = 7" "SendBuf u = [a, 0x41, 0, mid, 0, 1, r] @ drop 7 (SendBuf s)"
      "length (RX_buf u) = 600" "ascii_Send_Buf u = ascii_Send_Buf s" "\<not> restarted u"
  obtains sb p where "receive H OB rcvlen0 m s = Some (u\<lparr>ascii_Send_Buf := sb, bport := p\<rparr>)"
    "boot_ok (u\<lparr>ascii_Send_Buf := sb, bport := p\<rparr>)" "quiet p" "trace p = trace (bport s) @ [answer a mid r]"
proof (rule answer_sent [OF s(1,2) m u])
  fix sb p
  assume *: "(if restarted u then Some u else send_reply u) = Some (u\<lparr>ascii_Send_Buf := sb, bport := p\<rparr>)"
    "boot_ok (u\<lparr>ascii_Send_Buf := sb, bport := p\<rparr>)" "quiet p" "trace p = trace (bport s) @ [answer a mid r]"
  show thesis
    by (rule that [OF _ *(2-4)]) (simp only: receive_message [OF s m w] d Option.bind.bind_lunit *(1))
qed

text \<open>The receive buffer at the dispatch of a message.\<close>

lemma message_buffer:
  assumes "boot_ok s" "m = message a mid ds" "length ds \<le> 290"
  shows "length (rx_of m (RX_buf s)) = 600"
    and "i < length ds \<Longrightarrow> rx_of m (RX_buf s) ! (6 + i) = ds ! i"
    and "i + n \<le> length ds \<Longrightarrow> take n (drop (6 + i) (rx_of m (RX_buf s))) = take n (drop i ds)"
proof -
  show "length (rx_of m (RX_buf s)) = 600"
    using assms by (simp add: boot_ok_def length_rx_of message_def)
  show "i < length ds \<Longrightarrow> rx_of m (RX_buf s) ! (6 + i) = ds ! i"
    using assms by (simp add: message_def rx_of_nth)
  have "drop (6 + i) m = drop i ds"
    using drop_drop [of i 6 m] by (simp add: add.commute assms(2) message_def)
  then show "i + n \<le> length ds \<Longrightarrow> take n (drop (6 + i) (rx_of m (RX_buf s))) = take n (drop i ds)"
    by (subst rx_of_part) (simp_all add: assms(2) message_def)
qed

text \<open>The flash holds the first bytes of the image, the rest of the area is erased, and the next
  packet goes behind them.\<close>

definition image_at :: "u8 list \<Rightarrow> flash \<Rightarrow> u32 \<Rightarrow> bool" where
  "image_at img f dst \<longleftrightarrow> length img mod 4 = 0 \<and> APPLICATION_ADDRESS + length img \<le> USER_FLASH_END_ADDRESS
     \<and> dst = of_nat (APPLICATION_ADDRESS + length img)
     \<and> (\<forall>k < length img. fl_mem f (APPLICATION_ADDRESS + k) = img ! k)
     \<and> (\<forall>x. APPLICATION_ADDRESS + length img \<le> x \<and> x < USER_FLASH_END_ADDRESS \<longrightarrow> fl_mem f x = 0xFF)"

abbreviation loaded :: "u8 list \<Rightarrow> 'o boot \<Rightarrow> bool" where
  "loaded img s \<equiv> image_at img (bflash s) (Flashadrdst s)"

definition data_message :: "u8 \<Rightarrow> u16 \<Rightarrow> u16 \<Rightarrow> u8 list \<Rightarrow> u8 list" where
  "data_message a n k d = message a 3 ([hi8 n, lo8 n, hi8 k, lo8 k] @ d)"

lemma unat_of_nat_u32: "n < 4294967296 \<Longrightarrow> unat (of_nat n :: u32) = n"
  by (simp add: unat_of_nat)

context reliable_flash
begin

lemma receive_start:
  assumes s: "serving good OB a s" and m: "m = message a 1 [hi8 n, lo8 n]"
  obtains v where "receive H OB r m s = Some v" "serving good OB a v" "UpgradeWaitTime v = - 1" "PacketNum v = 0"
    "Flashadrdst v = Flashadrdst s" "trace (bport v) = trace (bport s) @ [answer a 1 RESPONSE_ERR_NONE]"
proof -
  have s': "boot_ok s" "quiet (bport s)" "Device_Addr s = a" "a \<noteq> 0" using s by (simp_all add: serving_def)
  have short: "length [hi8 n, lo8 n] \<le> 290" by simp
  note b = message_buffer [OF s'(1) m short]
  have n: "rx16 t 6 = Some n" if "RX_buf t = rx_of m (RX_buf s)" for t
    using b(1) b(2) [of 0] b(2) [of 1] that by (simp add: rx16_be16 be16_hi_lo)
  obtain st f where e: "boot_Erase_Page H (bflash s) 0 1 = (st, f)" by fastforce
  have good: "good f" using boot_erase_page_reliable(2) [OF e] s by (simp add: serving_def)
  let ?u = "(incoming m s)\<lparr>UpgradeWaitTime := - 1, PacketNum := 0, PacketCnt := 0,
     SendBuf := [a, 0x41, 0, 1, 0, 1, RESPONSE_ERR_NONE] @ drop 7 (SendBuf s), SendLen := 7,
     bflash := (if n > 0 then f else bflash s)\<rparr>"
  have d: "dispatch H OB (ucast (1 :: u8)) (of_nat (length [hi8 n, lo8 n])) (incoming m s) = Some ?u"
    by (simp add: dispatch_def msg_start_def Let_def n e put_incoming [OF s'(1) _ _ m])
  obtain sb p where v: "receive H OB r m s = Some (?u\<lparr>ascii_Send_Buf := sb, bport := p\<rparr>)"
    "boot_ok (?u\<lparr>ascii_Send_Buf := sb, bport := p\<rparr>)" "quiet p" "trace p = trace (bport s) @ [answer a 1 RESPONSE_ERR_NONE]"
    by (rule receive_answered [OF s' m short _ d]) (use s b(1) in \<open>simp_all add: serving_def\<close>)
  show thesis
    by (rule that [OF v(1)]) (use s good v(2-4) in \<open>simp_all add: serving_def\<close>)
qed

lemma receive_erase:
  assumes s: "serving good OB a s" "UpgradeWaitTime s = - 1" and m: "m = message a 2 []"
  obtains v where "receive H OB r m s = Some v" "serving good OB a v" "UpgradeWaitTime v = - 1"
    "PacketNum v = PacketNum s" "loaded [] v" "trace (bport v) = trace (bport s) @ [answer a 2 RESPONSE_ERR_NONE]"
proof -
  have s': "boot_ok s" "quiet (bport s)" "Device_Addr s = a" "a \<noteq> 0" using s by (simp_all add: serving_def)
  have short: "length [] \<le> 290" by simp
  note b = message_buffer [OF s'(1) m short]
  let ?f = "HAL_FLASH_Lock (HAL_FLASH_Unlock (FLASH_If_Init (bflash s)))"
  have wrp: "FLASH_If_GetWriteProtectionStatus OB (bob s) (FLASH_If_Init (bflash s)) = (FLASHIF_PROTECTION_NONE, ?f)"
    using s(1) by (auto simp: FLASH_If_GetWriteProtectionStatus_def serving_def split: prod.splits)
  obtain er f1 where e: "FLASH_If_Erase H 0x08003000 ?f = (er, f1)" by fastforce
  have "good ?f" using s(1) by (simp add: good_lock FLASH_If_Init_def serving_def)
  note er = erase_app_reliable [OF e this]
  obtain f2 where w: "boot_Write_OneByte H f1 ADDR_ERASEFLAG ERASE_FLAG = Some (OP_SUCCESS, f2)" "good f2"
    "\<And>x. \<not> flag_page x \<Longrightarrow> fl_mem f2 x = fl_mem f1 x"
    by (rule boot_write_one_reliable [of ADDR_ERASEFLAG ERASE_FLAG f1]) (use er(2) in simp_all)
  have erased: "fl_mem f2 x = 0xFF" if "app_area x" for x
    using w(3) [of x] erase_app(3) [OF e er(1) that] that by (simp add: app_area_def flag_page_def)
  let ?u = "(incoming m s)\<lparr>bflash := f2, Flashadrdst := 0x08003000, ProgErase := ERASE_FLAG,
     SendBuf := [a, 0x41, 0, 2, 0, 1, RESPONSE_ERR_NONE] @ drop 7 (SendBuf s), SendLen := 7\<rparr>"
  have nr: "\<not> restarted s" using s by (simp add: serving_def)
  have d: "dispatch H OB (ucast (2 :: u8)) (of_nat (length [])) (incoming m s) = Some ?u"
    using nr by (simp add: dispatch_def msg_erase_def Let_def wrp e w(1) Write_Memory_1_Byte_def put_incoming [OF s'(1) _ _ m])
  obtain sb p where v: "receive H OB r m s = Some (?u\<lparr>ascii_Send_Buf := sb, bport := p\<rparr>)"
    "boot_ok (?u\<lparr>ascii_Send_Buf := sb, bport := p\<rparr>)" "quiet p" "trace p = trace (bport s) @ [answer a 2 RESPONSE_ERR_NONE]"
    by (rule receive_answered [OF s' m short _ d]) (use s b(1) in \<open>simp_all add: serving_def\<close>)
  show thesis
    by (rule that [OF v(1)]) (use s w(2) v(2-4) erased in \<open>simp_all add: serving_def image_at_def app_area_def\<close>)
qed

lemma receive_head:
  assumes s: "serving good OB a s" "UpgradeWaitTime s = - 1" "PacketNum s = 0" "1 < n"
    and m: "m = message a 3 [hi8 n, lo8 n, 0, 0, byte_of 3 c, byte_of 2 c, byte_of 1 c, byte_of 0 c]"
  obtains v where "receive H OB r m s = Some v" "serving good OB a v" "UpgradeWaitTime v = - 1"
    "PacketNum v = n" "PacketCnt v = 0" "FileCheckSum v = c" "FileRunCheckSum v = 0"
    "Flashadrdst v = Flashadrdst s" "bflash v = bflash s"
    "trace (bport v) = trace (bport s) @ [answer a 3 RESPONSE_ERR_NONE]"
proof -
  have s': "boot_ok s" "quiet (bport s)" "Device_Addr s = a" "a \<noteq> 0" using s by (simp_all add: serving_def)
  let ?ds = "[hi8 n, lo8 n, 0, 0, byte_of 3 c, byte_of 2 c, byte_of 1 c, byte_of 0 c]"
  have short: "length ?ds \<le> 290" by simp
  note b = message_buffer [OF s'(1) m short]
  have nth: "rx_of m (RX_buf s) ! 6 = hi8 n" "rx_of m (RX_buf s) ! 7 = lo8 n" "rx_of m (RX_buf s) ! 8 = 0"
    "rx_of m (RX_buf s) ! 9 = 0" "rx_of m (RX_buf s) ! 10 = byte_of 3 c" "rx_of m (RX_buf s) ! 11 = byte_of 2 c"
    "rx_of m (RX_buf s) ! 12 = byte_of 1 c" "rx_of m (RX_buf s) ! 13 = byte_of 0 c"
    using b(2) [of 0] b(2) [of 1] b(2) [of 2] b(2) [of 3] b(2) [of 4] b(2) [of 5] b(2) [of 6] b(2) [of 7]
    by simp_all
  have n: "rx16 t 6 = Some n" "rx16 t 8 = Some 0" if "RX_buf t = rx_of m (RX_buf s)" for t
    using b(1) nth that by (simp_all add: rx16_be16 be16_hi_lo) (simp add: be16_def)
  have c: "check_sum_loop 0 4 0 (rx_of m (RX_buf s)) = Some c"
    using b(1) nth by (simp add: check_sum_loop_be32 be32_bytes be32_bytes_Suc)
  let ?u = "(incoming m s)\<lparr>FileCheckSum := c, FileRunCheckSum := 0, PacketNum := n, PacketCnt := 0,
     SendBuf := [a, 0x41, 0, 3, 0, 1, RESPONSE_ERR_NONE] @ drop 7 (SendBuf s), SendLen := 7\<rparr>"
  have d: "dispatch H OB (ucast (3 :: u8)) (of_nat (length ?ds)) (incoming m s) = Some ?u"
    using s(3,4) by (simp add: dispatch_def msg_data_def data_head_def Let_def n c put_incoming [OF s'(1) _ _ m])
  obtain sb p where v: "receive H OB r m s = Some (?u\<lparr>ascii_Send_Buf := sb, bport := p\<rparr>)"
    "boot_ok (?u\<lparr>ascii_Send_Buf := sb, bport := p\<rparr>)" "quiet p" "trace p = trace (bport s) @ [answer a 3 RESPONSE_ERR_NONE]"
    by (rule receive_answered [OF s' m short _ d]) (use s b(1) in \<open>simp_all add: serving_def\<close>)
  show thesis
    by (rule that [OF v(1)]) (use s v(2-4) in \<open>simp_all add: serving_def\<close>)
qed

lemma receive_run:
  assumes s: "serving good OB a s" "PacketNum s \<noteq> 0" "FileRunCheckSum s = FileCheckSum s"
    "uint (PacketCnt s) + 1 = uint (PacketNum s)" and m: "m = message a 4 []"
  obtains v where "receive H OB r m s = Some v" "serving good OB a v" "UpgradeWaitTime v = 0" "bflash v = bflash s"
    "Flashadrdst v = Flashadrdst s" "trace (bport v) = trace (bport s) @ [answer a 4 RESPONSE_ERR_NONE]"
proof -
  have s': "boot_ok s" "quiet (bport s)" "Device_Addr s = a" "a \<noteq> 0" using s by (simp_all add: serving_def)
  have short: "length [] \<le> 290" by simp
  note b = message_buffer [OF s'(1) m short]
  let ?u = "(incoming m s)\<lparr>UpgradeWaitTime := 0,
     SendBuf := [a, 0x41, 0, 4, 0, 1, RESPONSE_ERR_NONE] @ drop 7 (SendBuf s), SendLen := 7\<rparr>"
  have d: "dispatch H OB (ucast (4 :: u8)) (of_nat (length [])) (incoming m s) = Some ?u"
    using s by (simp add: dispatch_def msg_run_def put_incoming [OF s'(1) _ _ m])
  obtain sb p where v: "receive H OB r m s = Some (?u\<lparr>ascii_Send_Buf := sb, bport := p\<rparr>)"
    "boot_ok (?u\<lparr>ascii_Send_Buf := sb, bport := p\<rparr>)" "quiet p" "trace p = trace (bport s) @ [answer a 4 RESPONSE_ERR_NONE]"
    by (rule receive_answered [OF s' m short _ d]) (use s b(1) in \<open>simp_all add: serving_def\<close>)
  show thesis
    by (rule that [OF v(1)]) (use s v(2-4) in \<open>simp_all add: serving_def\<close>)
qed

text \<open>Programming the decoded data behind what has been loaded.\<close>

lemma loaded_write:
  assumes "loaded img s" "good (bflash s)" "length d mod 4 = 0" "d \<noteq> []"
    and "APPLICATION_ADDRESS + length img + length d \<le> USER_FLASH_END_ADDRESS"
    and "length buf mod 4 = 0" "length d \<le> length buf" "take (length d) buf = d"
  obtains f where "FLASH_If_Write H (Flashadrdst s) (words_of buf) (of_nat (length d div 4)) (bflash s) = Some (FLASHIF_OK, f)"
    "good f" "image_at (img @ d) f (Flashadrdst s + of_nat (length d))"
proof -
  let ?n = "length d div 4" and ?a = "APPLICATION_ADDRESS + length img"
  have n: "4 * ?n = length d" using assms(3) by (simp add: mult_div_mod_eq [symmetric] minus_mod_eq_mult_div [symmetric])
  have "Flashadrdst s = of_nat ?a" using assms(1) unfolding image_at_def by blast
  moreover have "unat (of_nat ?a :: u32) = ?a" "unat (of_nat ?n :: u32) = ?n"
    by (rule unat_of_nat_u32; use assms(5) in simp)+
  ultimately have adr: "unat (Flashadrdst s) = ?a" "unat (of_nat ?n :: u32) = ?n" by simp_all
  have "\<exists>f. if_write_loop H 0 ?n (Flashadrdst s) (words_of buf) (HAL_FLASH_Unlock (bflash s)) = Some (FLASHIF_OK, f) \<and> good f"
  proof (rule if_write_reliable)
    show "unat (Flashadrdst s) mod 4 = 0" using assms(1) unfolding adr by (simp add: image_at_def mod_add_right_eq [symmetric])
    show "fl_mem (HAL_FLASH_Unlock (bflash s)) x = 0xFF"
      if "unat (Flashadrdst s) \<le> x" "x < unat (Flashadrdst s) + 4 * ?n" for x
      using that assms(1,5) unfolding adr n by (auto simp: image_at_def)
    show "0 + ?n \<le> length (words_of buf)" using assms(7) by (simp add: words_of_length div_le_mono)
  qed (use assms(2,5) in \<open>simp_all add: adr n good_lock\<close>)
  then obtain f where f: "if_write_loop H 0 ?n (Flashadrdst s) (words_of buf) (HAL_FLASH_Unlock (bflash s)) = Some (FLASHIF_OK, f)"
    "good f" by blast
  have new: "fl_mem f (?a + k) = d ! k" if "k < length d" for k
  proof -
    have "k < ?n * 4" using that n by simp
    then have "k div 4 < ?n" by (rule less_mult_imp_div_less)
    then have kd: "k div 4 < ?n" "4 * (k div 4) + 4 \<le> length d" using n by linarith+
    have "fl_mem f (unat (Flashadrdst s) + 4 * (k div 4) + k mod 4) = byte_of (k mod 4) (words_of buf ! (0 + k div 4))"
      by (rule if_write_ok [OF f(1) kd(1)]) (use kd(2) assms(5) adr in simp_all)
    also have "\<dots> = buf ! (4 * (k div 4) + k mod 4)"
      using kd(2) assms(7) by (subst words_of_nth) auto
    also have "\<dots> = take (length d) buf ! k" using that by simp
    finally show ?thesis by (simp add: adr assms(8) add.assoc)
  qed
  have old: "fl_mem f x = fl_mem (bflash s) x" if "x < ?a \<or> ?a + length d \<le> x" for x
    using if_write_high_frame [OF f(1), of x] that by (auto simp: adr n)
  show thesis
  proof (rule that [OF _ f(2)])
    show "FLASH_If_Write H (Flashadrdst s) (words_of buf) (of_nat ?n) (bflash s) = Some (FLASHIF_OK, f)"
      using f(1) by (simp add: FLASH_If_Write_def adr(2))
    have img: "fl_mem f (APPLICATION_ADDRESS + k) = (img @ d) ! k" if "k < length (img @ d)" for k
    proof (cases "k < length img")
      case True
      then show ?thesis using old [of "APPLICATION_ADDRESS + k"] assms(1) by (simp add: image_at_def nth_append)
    next
      case False
      then show ?thesis using new [of "k - length img"] that by (simp add: nth_append)
    qed
    have rest: "fl_mem f x = 0xFF" if "?a + length d \<le> x" "x < USER_FLASH_END_ADDRESS" for x
      using old [of x] that assms(1) by (simp add: image_at_def)
    show "image_at (img @ d) f (Flashadrdst s + of_nat (length d))"
      using assms(1,3,5) img rest by (simp add: image_at_def mod_add_eq [symmetric] add.assoc)
  qed
qed

text \<open>A data packet, whatever its programming does; \<open>P\<close> is what is known of the flash afterwards.\<close>

lemma receive_packet:
  assumes s: "serving good OB a s" "UpgradeWaitTime s = - 1" "PacketNum s = n" "1 < n" "k < n"
    "uint (PacketCnt s) = uint k - 1"
    and d: "length d \<le> 284"
    and w: "\<And>buf. length buf = 600 \<Longrightarrow> take (length d) buf = decoded d \<Longrightarrow> \<exists>f.
      FLASH_If_Write H (Flashadrdst s) (words_of buf) (of_nat (length d div 4)) (bflash s) = Some (FLASHIF_OK, f) \<and> good f \<and> P f"
  obtains v where "receive H OB r (data_message a n k d) s = Some v" "serving good OB a v" "UpgradeWaitTime v = - 1"
    "PacketNum v = n" "PacketCnt v = k" "FileCheckSum v = FileCheckSum s"
    "FileRunCheckSum v = FileRunCheckSum s + bytes_sum d" "P (bflash v)" "Flashadrdst v = Flashadrdst s + of_nat (length d)"
    "trace (bport v) = trace (bport s) @ [answer a 3 RESPONSE_ERR_NONE]"
proof -
  have s': "boot_ok s" "quiet (bport s)" "Device_Addr s = a" "a \<noteq> 0" using s by (simp_all add: serving_def)
  define ds where "ds = [hi8 n, lo8 n, hi8 k, lo8 k] @ d"
  define m where "m = message a 3 ds"
  define dl where "dl = (of_nat (length ds) :: u16)"
  define buf where "buf = moved dl (rx_of m (RX_buf s))"
  let ?l = "length d" and ?rx = "rx_of m (RX_buf s)"
  have lds: "length ds = 4 + ?l" by (simp add: ds_def)
  have short: "length ds \<le> 290" using d by (simp add: lds)
  note b = message_buffer [OF s'(1) m_def short]
  have nth: "?rx ! 6 = hi8 n" "?rx ! 7 = lo8 n" "?rx ! 8 = hi8 k" "?rx ! 9 = lo8 k"
    using b(2) [of 0] b(2) [of 1] b(2) [of 2] b(2) [of 3] by (simp_all add: ds_def)
  have rx: "rx16 t 6 = Some n" "rx16 t 8 = Some k" if "RX_buf t = ?rx" for t
    using b(1) nth that by (simp_all add: rx16_be16 be16_hi_lo)
  have "unat dl = 4 + ?l"
    unfolding dl_def lds by (rule unat_of_nat_u16) (use d in simp)
  then have u: "unat (dl - 4) = ?l" by (subst unat_sub) (simp_all add: word_le_nat_alt)
  have pd: "packet_data dl ?rx = d"
    using b(3) [of 4 ?l] by (simp add: packet_data_def u lds) (simp add: ds_def)
  have in_buf: "10 + unat (dl - 4) \<le> length ?rx" using b(1) d by (simp add: u)
  have buf: "length buf = 600" "take ?l buf = decoded d"
    using length_moved [OF in_buf] b(1) by (simp_all add: buf_def) (simp add: moved_def pd Let_def)
  have wn: "(ucast ((dl - 4) div 4) :: u32) = of_nat (length d div 4)"
    by (rule word_unat_eq_iff [THEN iffD2]) (use d in \<open>simp add: u unat_div unat_of_nat_u32\<close>)
  have dst: "(ucast (dl - 4) :: u32) = of_nat ?l"
    by (rule word_unat_eq_iff [THEN iffD2]) (use d in \<open>simp add: u unat_of_nat_u32\<close>)
  obtain f where f: "FLASH_If_Write H (Flashadrdst s) (words_of buf) (of_nat (length d div 4)) (bflash s) = Some (FLASHIF_OK, f)"
    "good f" "P f"
    using w [OF buf] by blast
  have "uint (PacketCnt s) + 1 = uint k" using s(6) by simp
  then have "of_int (uint (PacketCnt s) + 1) = (of_int (uint k) :: u16)" by (simp only:)
  then have k: "PacketCnt s + 1 = k" by simp
  let ?u = "(incoming m s)\<lparr>RX_buf := buf, bflash := f, PacketCnt := k,
     SendBuf := [a, 0x41, 0, 3, 0, 1, RESPONSE_ERR_NONE] @ drop 7 (SendBuf s), SendLen := 7,
     FileRunCheckSum := FileRunCheckSum s + bytes_sum d, Flashadrdst := Flashadrdst s + of_nat ?l\<rparr>"
  have next_packet: "data_next H dl (incoming m s) = Some ?u"
    using in_buf by (simp add: data_next_result Let_def pd wn f(1) k dst put_incoming [OF s'(1) _ _ m_def] flip: buf_def)
  have dd: "dispatch H OB (ucast (3 :: u8)) (of_nat (length ds)) (incoming m s) = Some ?u"
    using s(3-6) next_packet by (auto simp: dispatch_def msg_data_def rx simp flip: dl_def)
  obtain sb p where v: "receive H OB r m s = Some (?u\<lparr>ascii_Send_Buf := sb, bport := p\<rparr>)"
    "boot_ok (?u\<lparr>ascii_Send_Buf := sb, bport := p\<rparr>)" "quiet p" "trace p = trace (bport s) @ [answer a 3 RESPONSE_ERR_NONE]"
    by (rule receive_answered [OF s' m_def short _ dd]) (use s buf in \<open>simp_all add: serving_def\<close>)
  have mm: "data_message a n k d = m" by (simp add: m_def ds_def data_message_def)
  show thesis
    by (rule that [OF v(1) [folded mm]]) (use s f(2,3) v(2-4) in \<open>simp_all add: serving_def mm\<close>)
qed

lemma receive_data:
  assumes s: "serving good OB a s" "UpgradeWaitTime s = - 1" "PacketNum s = n" "1 < n" "k < n"
    "uint (PacketCnt s) = uint k - 1" "loaded img s"
    and d: "length d mod 4 = 0" "d \<noteq> []" "length d \<le> 284"
    "APPLICATION_ADDRESS + length img + length d \<le> USER_FLASH_END_ADDRESS"
  obtains v where "receive H OB r (data_message a n k d) s = Some v" "serving good OB a v" "UpgradeWaitTime v = - 1"
    "PacketNum v = n" "PacketCnt v = k" "FileCheckSum v = FileCheckSum s"
    "FileRunCheckSum v = FileRunCheckSum s + bytes_sum d" "loaded (img @ decoded d) v"
    "trace (bport v) = trace (bport s) @ [answer a 3 RESPONSE_ERR_NONE]"
proof -
  let ?P = "\<lambda>f. image_at (img @ decoded d) f (Flashadrdst s + of_nat (length d))"
  have "length (decoded d) \<noteq> 0" using d(2) by simp
  then have ne: "decoded d \<noteq> []" by (simp only: length_0_conv not_False_eq_True)
  have w: "\<exists>f. FLASH_If_Write H (Flashadrdst s) (words_of buf) (of_nat (length d div 4)) (bflash s) = Some (FLASHIF_OK, f)
      \<and> good f \<and> ?P f" if buf: "length buf = 600" "take (length d) buf = decoded d" for buf
  proof -
    have pre: "good (bflash s)" "length (decoded d) mod 4 = 0"
      "APPLICATION_ADDRESS + length img + length (decoded d) \<le> USER_FLASH_END_ADDRESS" "length buf mod 4 = 0"
      "length (decoded d) \<le> length buf" "take (length (decoded d)) buf = decoded d"
      using s(1) d buf by (simp_all add: serving_def)
    obtain f where "FLASH_If_Write H (Flashadrdst s) (words_of buf) (of_nat (length (decoded d) div 4)) (bflash s) = Some (FLASHIF_OK, f)"
      "good f" "image_at (img @ decoded d) f (Flashadrdst s + of_nat (length (decoded d)))"
      by (rule loaded_write [OF s(7) pre(1,2) ne pre(3-6)])
    then show ?thesis by (auto simp only: length_decoded)
  qed
  show thesis
    by (rule receive_packet [where P = ?P and r = r, OF s(1-6) d(3) w]) (assumption+, rule that, simp_all)
qed

end

section \<open>The session\<close>

fun data_messages :: "u8 \<Rightarrow> u16 \<Rightarrow> nat \<Rightarrow> u8 list list \<Rightarrow> u8 list list" where
  "data_messages a n k [] = []"
| "data_messages a n k (d # ds) = data_message a n (of_nat k) d # data_messages a n (Suc k) ds"

definition head_message :: "u8 \<Rightarrow> u16 \<Rightarrow> u32 \<Rightarrow> u8 list" where
  "head_message a n c = message a 3 [hi8 n, lo8 n, 0, 0, byte_of 3 c, byte_of 2 c, byte_of 1 c, byte_of 0 c]"

text \<open>The messages by which the packets \<open>ps\<close> are loaded into the device with address \<open>a\<close>.\<close>

definition upgrade_messages :: "u8 \<Rightarrow> u8 list list \<Rightarrow> u8 list list" where
  "upgrade_messages a ps =
     (let n = of_nat (length ps + 1) in
      [message a 1 [hi8 n, lo8 n], message a 2 [], head_message a n (bytes_sum (concat ps))]
      @ data_messages a n 1 ps @ [message a 4 []])"

definition packet_ok :: "u8 list \<Rightarrow> bool" where
  "packet_ok d \<longleftrightarrow> length d mod 4 = 0 \<and> d \<noteq> [] \<and> length d \<le> 284"

definition image_of :: "u8 list list \<Rightarrow> u8 list" where
  "image_of ps = concat (map decoded ps)"

lemma length_image_of [simp]: "length (image_of ps) = length (concat ps)"
  by (induction ps) (simp_all add: image_of_def)

lemma image_of_Cons: "image_of (d # ds) = decoded d @ image_of ds"
  by (simp add: image_of_def)

context reliable_flash
begin

lemma data_phase:
  assumes "serving good OB a s" "UpgradeWaitTime s = - 1" "PacketNum s = n" "1 < n" "uint (PacketCnt s) = int k - 1"
    "0 < k" "k + length ds \<le> unat n" "loaded img s" "\<forall>d \<in> set ds. packet_ok d"
    "APPLICATION_ADDRESS + length img + length (concat ds) \<le> USER_FLASH_END_ADDRESS"
  shows "\<exists>v. session H OB r (data_messages a n k ds) s = Some v \<and> serving good OB a v \<and> UpgradeWaitTime v = - 1
     \<and> PacketNum v = n \<and> uint (PacketCnt v) = int k - 1 + int (length ds) \<and> FileCheckSum v = FileCheckSum s
     \<and> FileRunCheckSum v = FileRunCheckSum s + bytes_sum (concat ds) \<and> loaded (img @ image_of ds) v
     \<and> trace (bport v) = trace (bport s) @ replicate (length ds) (answer a 3 RESPONSE_ERR_NONE)"
  using assms
proof (induction ds arbitrary: k s img)
  case Nil
  then show ?case by (simp add: image_of_def)
next
  case (Cons d ds)
  have k: "unat (of_nat k :: u16) = k"
    by (rule unat_of_nat_u16) (use Cons.prems(7) unat_u16_less [of n] in simp)
  have kn: "of_nat k < n" using Cons.prems(7) k by (simp add: word_less_nat_alt)
  have cnt: "uint (PacketCnt s) = uint (of_nat k :: u16) - 1" using Cons.prems(5) k by (simp only: uint_nat)
  have ok: "length d mod 4 = 0" "d \<noteq> []" "length d \<le> 284"
    "APPLICATION_ADDRESS + length img + length d \<le> USER_FLASH_END_ADDRESS"
    using Cons.prems(9,10) by (simp_all add: packet_ok_def)
  obtain v where v: "receive H OB r (data_message a n (of_nat k) d) s = Some v" "serving good OB a v"
    "UpgradeWaitTime v = - 1" "PacketNum v = n" "PacketCnt v = of_nat k" "FileCheckSum v = FileCheckSum s"
    "FileRunCheckSum v = FileRunCheckSum s + bytes_sum d" "loaded (img @ decoded d) v"
    "trace (bport v) = trace (bport s) @ [answer a 3 RESPONSE_ERR_NONE]"
    by (rule receive_data [OF Cons.prems(1-4) kn cnt Cons.prems(8) ok])
  have "uint (PacketCnt v) = int (Suc k) - 1" unfolding v(5) uint_nat k by simp
  note IH = Cons.IH [OF v(2-4) Cons.prems(4) this _ _ v(8)]
  obtain w where "session H OB r (data_messages a n (Suc k) ds) v = Some w" "serving good OB a w" "UpgradeWaitTime w = - 1"
    "PacketNum w = n" "uint (PacketCnt w) = int (Suc k) - 1 + int (length ds)" "FileCheckSum w = FileCheckSum v"
    "FileRunCheckSum w = FileRunCheckSum v + bytes_sum (concat ds)" "loaded ((img @ decoded d) @ image_of ds) w"
    "trace (bport w) = trace (bport v) @ replicate (length ds) (answer a 3 RESPONSE_ERR_NONE)"
    using IH Cons.prems(7,9,10) by auto
  then show ?case
    using v by (intro exI [of _ w]) (simp add: image_of_Cons add.assoc)
qed

lemma upgrade_session:
  assumes "serving good OB a s" "ps \<noteq> []" "\<forall>d \<in> set ps. packet_ok d" "length ps < 65535"
    "APPLICATION_ADDRESS + length (concat ps) \<le> USER_FLASH_END_ADDRESS"
  shows "\<exists>v. session H OB r (upgrade_messages a ps) s = Some v \<and> serving good OB a v \<and> UpgradeWaitTime v = 0
     \<and> loaded (image_of ps) v \<and> trace (bport v) = trace (bport s)
          @ map (\<lambda>mid. answer a mid RESPONSE_ERR_NONE) ([1, 2, 3] @ replicate (length ps) 3 @ [4])"
proof -
  let ?n = "of_nat (length ps + 1) :: u16" and ?c = "bytes_sum (concat ps)"
  have n: "unat ?n = length ps + 1" by (rule unat_of_nat_u16) (use assms(4) in simp)
  have "0 < length ps" using assms(2) by simp
  then have n1: "1 < ?n" unfolding word_less_nat_alt n by simp
  obtain s1 where s1: "receive H OB r (message a 1 [hi8 ?n, lo8 ?n]) s = Some s1" "serving good OB a s1"
    "UpgradeWaitTime s1 = - 1" "PacketNum s1 = 0" "trace (bport s1) = trace (bport s) @ [answer a 1 RESPONSE_ERR_NONE]"
    by (rule receive_start [OF assms(1) refl]) (rule that)
  obtain s2 where s2: "receive H OB r (message a 2 []) s1 = Some s2" "serving good OB a s2" "UpgradeWaitTime s2 = - 1"
    "PacketNum s2 = PacketNum s1" "loaded [] s2" "trace (bport s2) = trace (bport s1) @ [answer a 2 RESPONSE_ERR_NONE]"
    by (rule receive_erase [OF s1(2,3) refl])
  obtain s3 where s3: "receive H OB r (head_message a ?n ?c) s2 = Some s3" "serving good OB a s3" "UpgradeWaitTime s3 = - 1"
    "PacketNum s3 = ?n" "PacketCnt s3 = 0" "FileCheckSum s3 = ?c" "FileRunCheckSum s3 = 0"
    "Flashadrdst s3 = Flashadrdst s2" "bflash s3 = bflash s2"
    "trace (bport s3) = trace (bport s2) @ [answer a 3 RESPONSE_ERR_NONE]"
    by (rule receive_head [OF s2(2,3) _ n1 head_message_def]) (simp_all add: s2(4) s1(4))
  have "\<exists>v. session H OB r (data_messages a ?n 1 ps) s3 = Some v \<and> serving good OB a v \<and> UpgradeWaitTime v = - 1
     \<and> PacketNum v = ?n \<and> uint (PacketCnt v) = int 1 - 1 + int (length ps) \<and> FileCheckSum v = FileCheckSum s3
     \<and> FileRunCheckSum v = FileRunCheckSum s3 + ?c \<and> loaded ([] @ image_of ps) v
     \<and> trace (bport v) = trace (bport s3) @ replicate (length ps) (answer a 3 RESPONSE_ERR_NONE)"
    by (rule data_phase [OF s3(2-4) n1])
      (use s3(5,8,9) s2(5) assms(3,5) n in \<open>simp_all only: n, simp_all\<close>)
  then obtain s4 where s4: "session H OB r (data_messages a ?n 1 ps) s3 = Some s4" "serving good OB a s4"
    "PacketNum s4 = ?n" "uint (PacketCnt s4) = int (length ps)" "FileCheckSum s4 = ?c" "FileRunCheckSum s4 = ?c"
    "loaded (image_of ps) s4" "trace (bport s4) = trace (bport s3) @ replicate (length ps) (answer a 3 RESPONSE_ERR_NONE)"
    using s3(6,7) by auto
  have "uint ?n = int (length ps + 1)" by (simp only: uint_nat n)
  then have cnt: "uint (PacketCnt s4) + 1 = uint (PacketNum s4)" unfolding s4(3) s4(4) by simp
  have "PacketNum s4 \<noteq> 0" unfolding s4(3) word_unat_eq_iff n by simp
  then obtain v where v: "receive H OB r (message a 4 []) s4 = Some v" "serving good OB a v" "UpgradeWaitTime v = 0"
    "bflash v = bflash s4" "Flashadrdst v = Flashadrdst s4" "trace (bport v) = trace (bport s4) @ [answer a 4 RESPONSE_ERR_NONE]"
    by (rule receive_run [OF s4(2) _ _ cnt refl]) (simp_all add: s4(5,6))
  have "session H OB r (upgrade_messages a ps) s = Some v"
    using s1(1) s2(1) s3(1) s4(1) v(1) by (simp add: upgrade_messages_def Let_def session_append)
  then show ?thesis
    using v s4(7,8) s3(10) s2(6) s1(5) by (intro exI [of _ v]) (simp add: map_replicate_const)
qed

end

section \<open>Data before an erase message\<close>

text \<open>A word of zeros is programmed over anything, also through the alias of the boot loader's code.\<close>

lemma zeros_over_boot_code:
  assumes "no_faults f" "take 4 buf = [0, 0, 0, 0]"
  shows "\<exists>f'. FLASH_If_Write st_hal 0 (words_of buf) 1 f = Some (FLASHIF_OK, f') \<and> no_faults f'
     \<and> (\<forall>i < 4. fl_mem f' (FLASH_LOW + i) = 0)"
proof -
  let ?f = "HAL_FLASH_Unlock f"
  have "length (take 4 buf) = 4" by (simp add: assms(2))
  then have len: "4 \<le> length buf" by simp
  obtain b0 b1 b2 b3 bs where b: "buf = b0 # b1 # b2 # b3 # bs"
    by (rule words_of.cases [of buf]) (use len in auto)
  then have w: "rd (words_of buf) 0 = Some 0" using assms(2) by (simp add: be32_def rd_def)
  have p: "phys 0 = FLASH_LOW" "phys 1 = FLASH_LOW + 1" "phys 2 = FLASH_LOW + 2" "phys 3 = FLASH_LOW + 3"
    by (simp_all add: phys_def)
  have "driver_program 40 0 0 ?f = dev_word (phys 0) 0 ?f"
    by (rule driver_program_eq) (simp_all add: word_range_def p)
  then obtain f' where f': "hProgram st_hal 0 0 ?f = (HAL_OK, f')" "no_faults f'"
    "fl_mem f' FLASH_LOW = 0" "fl_mem f' (FLASH_LOW + 1) = 0" "fl_mem f' (FLASH_LOW + 2) = 0" "fl_mem f' (FLASH_LOW + 3) = 0"
    using assms(1)
    by (simp add: st_hal_def dev_word_def dev_half_def next_fault_def no_faults_def hw_ok_def byte_of_def
        HAL_FLASH_Unlock_def Let_def p)
  have "flash_word f' 0 = Some 0"
    using f'(3-6) by (simp add: flash_word_def flash_get_def phys_def be32_def)
  then have "FLASH_If_Write st_hal 0 (words_of buf) 1 f = Some (FLASHIF_OK, HAL_FLASH_Lock f')"
    using w f'(1) by (simp add: FLASH_If_Write_def)
  then show ?thesis
    using f'(2-6) less4_cases by (fastforce simp: no_faults_def HAL_FLASH_Lock_def)
qed

text \<open>What the exclusion of early data is about.  From any state in which the boot loader serves
  messages and has not served an erase message since its reset, on a device without faults, three
  messages that are all answered with success put zeros over the first word of the boot loader's
  own vector table: start, the head of two packets, and a data packet of four bytes that decode to
  zero.\<close>

theorem early_data_hits_boot_code:
  assumes "serving no_faults OB a s" "Flashadrdst s = 0"
  shows "\<exists>v. session st_hal OB r [message a 1 [0, 2], head_message a 2 c, data_message a 2 1 (decoded [0, 0, 0, 0])] s = Some v
     \<and> (\<forall>i < 4. fl_mem (bflash v) (FLASH_LOW + i) = 0)
     \<and> trace (bport v) = trace (bport s) @ [answer a 1 RESPONSE_ERR_NONE, answer a 3 RESPONSE_ERR_NONE, answer a 3 RESPONSE_ERR_NONE]"
proof -
  let ?d = "decoded [0, 0, 0, 0]" and ?P = "\<lambda>f. \<forall>i < 4. fl_mem f (FLASH_LOW + i) = 0"
  have two: "[hi8 2, lo8 2] = [0, 2]" by (simp add: hi8_def lo8_def)
  obtain s1 where s1: "receive st_hal OB r (message a 1 [0, 2]) s = Some s1" "serving no_faults OB a s1"
    "UpgradeWaitTime s1 = - 1" "PacketNum s1 = 0" "Flashadrdst s1 = Flashadrdst s"
    "trace (bport s1) = trace (bport s) @ [answer a 1 RESPONSE_ERR_NONE]"
    by (rule st_drv.receive_start [where n = 2 and r = r, OF assms(1), unfolded two, OF refl])
  obtain s2 where s2: "receive st_hal OB r (head_message a 2 c) s1 = Some s2" "serving no_faults OB a s2"
    "UpgradeWaitTime s2 = - 1" "PacketNum s2 = 2" "PacketCnt s2 = 0" "Flashadrdst s2 = Flashadrdst s1"
    "trace (bport s2) = trace (bport s1) @ [answer a 3 RESPONSE_ERR_NONE]"
    by (rule st_drv.receive_head [where n = 2 and c = c and r = r, OF s1(2-4) _ head_message_def]) simp_all
  have w: "\<exists>f. FLASH_If_Write st_hal (Flashadrdst s2) (words_of buf) (of_nat (length ?d div 4)) (bflash s2) = Some (FLASHIF_OK, f)
      \<and> no_faults f \<and> ?P f" if "length buf = 600" "take (length ?d) buf = decoded ?d" for buf
  proof -
    have four: "length ?d = 4" "4 div 4 = (1 :: nat)" by simp_all
    show ?thesis
      using zeros_over_boot_code [of "bflash s2" buf] that(2) s2(2,6) s1(5) assms(2)
      unfolding four decoded_involution by (simp add: serving_def)
  qed
  obtain v where v: "receive st_hal OB r (data_message a 2 1 ?d) s2 = Some v" "?P (bflash v)"
    "trace (bport v) = trace (bport s2) @ [answer a 3 RESPONSE_ERR_NONE]"
    by (rule st_drv.receive_packet [OF s2(2-4) _ _ _ _ w, of 1 r]) (simp_all add: s2(5))
  show ?thesis
    using s1(1,6) s2(1,7) v by (intro exI [of _ v]) simp
qed

section \<open>Leaving the boot loader\<close>

text \<open>The two words that the start of an application consists of.\<close>

lemma flash_word_app: "a \<in> {APPLICATION_ADDRESS..<USER_FLASH_END_ADDRESS - 4} \<Longrightarrow>
    (\<And>x. app_area x \<Longrightarrow> fl_mem f' x = fl_mem f x) \<Longrightarrow> flash_word f' a = flash_word f a"
  by (simp add: flash_word_def flash_get_def app_area_def)

context reliable_flash
begin

lemma Write_Memory_reliable:
  assumes "unat a \<le> BOOT_END" "v \<noteq> 0xFF" "good (bflash s)"
  obtains f where "Write_Memory_1_Byte H a v s = Some (OP_SUCCESS, s\<lparr>bflash := f\<rparr>)" "good f"
    "\<And>x. app_area x \<Longrightarrow> fl_mem f x = fl_mem (bflash s) x"
    "\<And>k. k < 2048 \<Longrightarrow> fl_mem f (BOOT_BASE + k) = (if k = unat a then v else fl_mem (bflash s) (BOOT_BASE + k))"
proof (rule boot_write_one_reliable [OF assms])
  fix f
  assume f: "boot_Write_OneByte H (bflash s) a v = Some (OP_SUCCESS, f)" "good f" "fl_lock f"
    "\<And>x. \<not> flag_page x \<Longrightarrow> fl_mem f x = fl_mem (bflash s) x"
    "\<And>k. k < 2048 \<Longrightarrow> fl_mem f (BOOT_BASE + k) = (if k = unat a then v else fl_mem (bflash s) (BOOT_BASE + k))"
  show thesis
    by (rule that [OF _ f(2) _ f(5)]) (use f(1,4) in \<open>simp_all add: Write_Memory_1_Byte_def app_area_def flag_page_def\<close>)
qed

lemma boot_leave_jumps:
  assumes "tx_live (bport s)" "good (bflash s)" "flash_word (bflash s) APPLICATION_ADDRESS = Some sp"
    "flash_word (bflash s) (APPLICATION_ADDRESS + 4) = Some pc" "sp AND 0x2FFE0000 = 0x20000000"
  shows "\<exists>s'. boot_leave H s = Some (s', BJump sp pc) \<and> (\<forall>x. app_area x \<longrightarrow> fl_mem (bflash s') x = fl_mem (bflash s) x)
     \<and> fl_mem (bflash s') BOOT_BASE = UPGRADED_DEVICEADDR \<and> fl_mem (bflash s') (BOOT_BASE + 2047) = UPGRADE_FLAG
     \<and> fl_mem (bflash s') (BOOT_BASE + 2046) = (if ProgErase s = ERASE_FLAG then fl_mem (bflash s) (BOOT_BASE + 2046) else ERASE_FLAG)"
proof -
  obtain f0 where f0: "Write_Memory_1_Byte H ADDR_ERASEFLAG ERASE_FLAG s = Some (OP_SUCCESS, s\<lparr>bflash := f0\<rparr>)" "good f0"
    "\<And>x. app_area x \<Longrightarrow> fl_mem f0 x = fl_mem (bflash s) x"
    "\<And>k. k < 2048 \<Longrightarrow> fl_mem f0 (BOOT_BASE + k) = (if k = unat ADDR_ERASEFLAG then ERASE_FLAG else fl_mem (bflash s) (BOOT_BASE + k))"
    by (rule Write_Memory_reliable [of ADDR_ERASEFLAG ERASE_FLAG s]) (use assms(2) in simp_all)
  define s1 where "s1 = (if ProgErase s \<noteq> ERASE_FLAG then s\<lparr>bflash := f0\<rparr> else s)"
  have s1: "(if ProgErase s \<noteq> ERASE_FLAG then Write_Memory_1_Byte H ADDR_ERASEFLAG ERASE_FLAG s \<bind> (\<lambda>(_, s). Some s)
      else Some s) = Some s1" "good (bflash s1)" "bport s1 = bport s"
    "\<And>x. app_area x \<Longrightarrow> fl_mem (bflash s1) x = fl_mem (bflash s) x"
    using f0 assms(2) by (simp_all add: s1_def)
  obtain f2 where f2: "Write_Memory_1_Byte H ADDR_UPGRADEFLAG UPGRADE_FLAG s1 = Some (OP_SUCCESS, s1\<lparr>bflash := f2\<rparr>)" "good f2"
    "\<And>x. app_area x \<Longrightarrow> fl_mem f2 x = fl_mem (bflash s1) x"
    "\<And>k. k < 2048 \<Longrightarrow> fl_mem f2 (BOOT_BASE + k) = (if k = unat ADDR_UPGRADEFLAG then UPGRADE_FLAG else fl_mem (bflash s1) (BOOT_BASE + k))"
    by (rule Write_Memory_reliable [of ADDR_UPGRADEFLAG UPGRADE_FLAG s1]) (use s1(2) in simp_all)
  have good2: "unat ADDR_DEVICEADDR \<le> BOOT_END" "UPGRADED_DEVICEADDR \<noteq> 0xFF" "good (bflash (s1\<lparr>bflash := f2\<rparr>))"
    using f2(2) by simp_all
  obtain f3 where f3: "Write_Memory_1_Byte H ADDR_DEVICEADDR UPGRADED_DEVICEADDR (s1\<lparr>bflash := f2\<rparr>)
      = Some (OP_SUCCESS, s1\<lparr>bflash := f2, bflash := f3\<rparr>)"
    "\<And>x. app_area x \<Longrightarrow> fl_mem f3 x = fl_mem f2 x"
    "\<And>k. k < 2048 \<Longrightarrow> fl_mem f3 (BOOT_BASE + k) = (if k = unat ADDR_DEVICEADDR then UPGRADED_DEVICEADDR else fl_mem f2 (BOOT_BASE + k))"
    by (rule Write_Memory_reliable [OF good2]) simp
  obtain u where u: "boot_wait_TX_Cplt (bport s) = Some u" by (rule boot_wait_live [OF assms(1)])
  have area: "app_area x \<Longrightarrow> fl_mem f3 x = fl_mem (bflash s) x" for x
    by (simp add: f3(2) f2(3) s1(4))
  have w: "flash_word f3 APPLICATION_ADDRESS = Some sp" "flash_word f3 (APPLICATION_ADDRESS + 4) = Some pc"
    using flash_word_app [of APPLICATION_ADDRESS f3 "bflash s"] flash_word_app [of "APPLICATION_ADDRESS + 4" f3 "bflash s"]
      area assms(3,4) by simp_all
  have "boot_leave H s = Some (s1\<lparr>bflash := f3, bport := BSP_USART_UART_DeInit u\<rparr>, BJump sp pc)"
    using assms(3,5) s1(1,3) f2(1) f3(1) u w
    by (simp add: boot_leave_def JumpToUserApplication_def Let_def)
  moreover have "fl_mem f3 (BOOT_BASE + 0) = UPGRADED_DEVICEADDR" "fl_mem f3 (BOOT_BASE + 2047) = UPGRADE_FLAG"
    using f3(3) [of 0] f3(3) [of 2047] f2(4) [of 2047] by simp_all
  moreover have "fl_mem f3 (BOOT_BASE + 2046) = fl_mem (bflash s1) (BOOT_BASE + 2046)"
    using f3(3) [of 2046] f2(4) [of 2046] by simp
  moreover have "fl_mem (bflash s1) (BOOT_BASE + 2046)
      = (if ProgErase s = ERASE_FLAG then fl_mem (bflash s) (BOOT_BASE + 2046) else ERASE_FLAG)"
    using f0(4) [of 2046] by (simp add: s1_def)
  ultimately show ?thesis using area by auto
qed

end

section \<open>When the wait is ended\<close>

text \<open>The image is complete: all packets have been programmed and their sum is the announced one;
  or no upgrade has begun and the flag of the flash is neither of the two values in use.\<close>

definition complete :: "'o boot \<Rightarrow> bool" where
  "complete s \<longleftrightarrow> (PacketNum s \<noteq> 0 \<and> FileRunCheckSum s = FileCheckSum s \<and> uint (PacketCnt s) + 1 = uint (PacketNum s))
     \<or> (PacketNum s = 0 \<and> ProgErase s \<noteq> ERASE_FLAG \<and> ProgErase s \<noteq> ERASE_FLAG_NONE)"

lemma put_wait: "put v s = Some s' \<Longrightarrow> UpgradeWaitTime s' = UpgradeWaitTime s"
  by (drule put_SomeD) simp

lemma msg_start_wait:
  assumes "msg_start H dl s = Some s'"
  shows "UpgradeWaitTime s' = - 1"
proof (cases "0 \<noteq> dl \<and> 2 \<noteq> dl")
  case True
  then show ?thesis
    using assms put_wait [of RESPONSE_REC_ERR "s\<lparr>UpgradeWaitTime := - 1\<rparr>" s'] by (simp add: msg_start_def)
next
  case False
  then obtain t where t: "put RESPONSE_ERR_NONE (s\<lparr>UpgradeWaitTime := - 1\<rparr>) = Some t"
    using assms by (cases "put RESPONSE_ERR_NONE (s\<lparr>UpgradeWaitTime := - 1\<rparr>)")
      (auto simp: msg_start_def Let_def Option.bind_eq_Some_conv split: if_splits)
  then have "UpgradeWaitTime t = - 1" using put_wait by fastforce
  moreover have "UpgradeWaitTime s' = UpgradeWaitTime t"
    using assms False
    by (cases "dl = 0"; cases "rx16 (s\<lparr>UpgradeWaitTime := - 1\<rparr>) 6") (auto simp: msg_start_def Let_def t split: if_splits prod.splits)
  ultimately show ?thesis by simp
qed

lemma msg_erase_wait: "msg_erase H OB dl s = Some s' \<Longrightarrow> UpgradeWaitTime s' = UpgradeWaitTime s"
  by (auto simp: msg_erase_def Let_def Option.bind_eq_Some_conv Write_Memory_1_Byte_def HAL_FLASH_OB_Launch_def
      split: if_splits prod.splits dest!: put_wait)

lemma data_next_wait: "data_next H dl s = Some s' \<Longrightarrow> UpgradeWaitTime s' = UpgradeWaitTime s"
  by (auto simp: data_next_def Let_def Option.bind_eq_Some_conv split: if_splits dest!: put_wait)

lemma data_head_wait: "data_head n k s = Some s' \<Longrightarrow> UpgradeWaitTime s' = UpgradeWaitTime s"
  by (auto simp: data_head_def Let_def Option.bind_eq_Some_conv dest!: put_wait)

lemma msg_data_wait: "msg_data H dl s = Some s' \<Longrightarrow> UpgradeWaitTime s' = UpgradeWaitTime s"
  by (auto simp: msg_data_def Option.bind_eq_Some_conv split: if_splits
      dest: put_wait data_head_wait data_next_wait)

lemma put_complete: "put v s = Some s' \<Longrightarrow> complete s' = complete s"
  by (drule put_SomeD) (simp add: complete_def)

lemma msg_run_wait:
  "msg_run dl s = Some s' \<Longrightarrow> (complete s' \<longleftrightarrow> complete s)
    \<and> (UpgradeWaitTime s' = UpgradeWaitTime s \<or> (UpgradeWaitTime s' = 0 \<and> complete s))"
  by (auto simp: msg_run_def complete_def split: if_splits dest!: put_SomeD)

lemma handle_frame_wait:
  assumes "handle_frame H OB e n s = Some s'" "boot_ok s"
  shows "UpgradeWaitTime s' = - 1 \<or> ((complete s' \<longleftrightarrow> complete s)
     \<and> (UpgradeWaitTime s' = UpgradeWaitTime s \<or> (UpgradeWaitTime s' = 0 \<and> complete s)))"
proof (cases "s' = s")
  case False
  let ?h = "reply_head s"
  have len: "4 \<le> length (RX_buf s)" "6 \<le> length (SendBuf s)" using assms(2) by (simp_all add: boot_ok_def)
  obtain mid dl t where t: "(if e = ERR_NONE then dispatch H OB mid dl ?h else put RESPONSE_LRC_ERR ?h) = Some t"
    "(if restarted t then Some t else send_reply t) = Some s'" "UpgradeWaitTime s = - 1 \<or> mid = 4 \<or> mid = 1"
    using assms(1) False reply_head_Some [OF len]
    by (fastforce simp: handle_frame_def Option.bind_eq_Some_conv split: if_splits)
  have h: "UpgradeWaitTime ?h = UpgradeWaitTime s" "complete ?h = complete s"
    by (simp_all add: reply_head_def complete_def)
  have r: "UpgradeWaitTime s' = UpgradeWaitTime t" "complete s' = complete t"
    using t(2) by (auto simp: send_reply_def complete_def Option.bind_eq_Some_conv split: if_splits)
  let ?goal = "UpgradeWaitTime t = - 1 \<or> ((complete t \<longleftrightarrow> complete ?h)
     \<and> (UpgradeWaitTime t = UpgradeWaitTime ?h \<or> (UpgradeWaitTime t = 0 \<and> complete ?h)))"
  have p: ?goal if "put v ?h = Some t" for v
    using put_wait [OF that] put_complete [OF that] by blast
  have ?goal
  proof (cases "e = ERR_NONE")
    case True
    then have d: "dispatch H OB mid dl ?h = Some t" using t(1) by simp
    consider "mid = 1" | "mid = 2" | "mid = 3" | "mid = 4" | "mid \<notin> {1, 2, 3, 4}" by blast
    then show ?thesis
    proof cases
      case 1
      then show ?thesis using msg_start_wait [of H dl ?h t] d by (simp add: dispatch_def)
    next
      case 2
      then show ?thesis using msg_erase_wait [of H OB dl ?h t] d t(3) by (simp add: dispatch_def h)
    next
      case 3
      then show ?thesis using msg_data_wait [of H dl ?h t] d t(3) by (simp add: dispatch_def h)
    next
      case 4
      then show ?thesis using msg_run_wait [of dl ?h t] d by (simp add: dispatch_def)
    next
      case 5
      then show ?thesis using p [of RESPONSE_REC_ERR] d by (simp add: dispatch_def)
    qed
  next
    case False
    then show ?thesis using p t(1) by simp
  qed
  then show ?thesis by (simp add: h r)
qed simp

text \<open>The same for the frame that the port holds.\<close>

lemma Handle_wait:
  assumes "HandleFrameInformation H OB rcvlen0 s = Some s'" "boot_ok s"
  shows "UpgradeWaitTime s' = - 1 \<or> ((complete s' \<longleftrightarrow> complete s)
     \<and> (UpgradeWaitTime s' = UpgradeWaitTime s \<or> (UpgradeWaitTime s' = 0 \<and> complete s)))"
proof -
  obtain e n buf where r: "MODBUS_ASCII_RecvData (RX_buf s) rcvlen0 (bport s) = Some (e, n, buf)"
    "handle_frame H OB e n (s\<lparr>RX_buf := buf\<rparr>) = Some s'"
    using assms(1) by (auto simp: HandleFrameInformation_def Option.bind_eq_Some_conv)
  from handle_frame_wait [OF r(2) RecvData_ok [OF r(1) assms(2)]] show ?thesis
    by (simp add: complete_def)
qed

text \<open>The flags of the flash say that an application is present.\<close>

definition marked :: "flash \<Rightarrow> bool" where
  "marked f \<longleftrightarrow> fl_mem f (BOOT_BASE + 2047) \<noteq> UPGRADE_FLAG_NONE \<and> fl_mem f (BOOT_BASE + 2046) \<noteq> ERASE_FLAG_NONE"

text \<open>The waiting time in every state of the loop: endless; two seconds, when the flags at the reset
  were set; none, when the upgrade is complete.\<close>

definition wait_inv :: "flash \<Rightarrow> 'o boot \<Rightarrow> bool" where
  "wait_inv f0 s \<longleftrightarrow> UpgradeWaitTime s = - 1 \<or> (UpgradeWaitTime s = 2 \<and> marked f0) \<or> (UpgradeWaitTime s = 0 \<and> complete s)"

lemma wait_inv_port [simp]: "wait_inv f0 (on_bport g s) = wait_inv f0 s"
  by (simp add: wait_inv_def complete_def on_bport_def)

context flash_hal
begin

lemma boot_run_waits:
  assumes "boot_run H OB s0 n ok s ph" "boot_static s0"
  shows "\<forall>old. ph = BWait old \<longrightarrow> boot_ok s \<and> wait_inv (bflash s0) s"
  using assms
proof (induction n ok s ph)
  case (init tick s ph)
  then show ?case
    using boot_init_result(2) [OF init.hyps]
    by (simp add: boot_static_def boot_ok_def boot_USART_Init_ok wait_inv_def marked_def)
next
  case (poll n ok s old tick rcvlen0 s' ph)
  note IH = poll.IH [OF poll.prems, rule_format, OF refl]
  show ?case
  proof (cases "wait_over tick old s")
    case True
    then have "boot_leave H s = Some (s', ph)" using poll.hyps(2) by (simp add: boot_poll_def)
    from boot_leave_protects [OF this] show ?thesis by blast
  next
    case False
    note leave = False
    show ?thesis
    proof (cases "Sensor_USART_Get_RX_Updata_Flag (bport s) = 0")
      case True
      then show ?thesis using poll.hyps(2) leave IH by (auto simp: boot_poll_def)
    next
      case False
      let ?u = "on_bport Sensor_USART_Clear_RX_Updata_Flag s"
      have h: "HandleFrameInformation H OB rcvlen0 ?u = Some s'"
        using poll.hyps(2) leave False
        by (auto simp: boot_poll_def on_bport_def Let_def Option.bind_eq_Some_conv)
      have u: "boot_ok ?u" "wait_inv (bflash s0) ?u" using IH boot_ok_port(4) [of s] by simp_all
      show ?thesis using Handle_step [OF h u(1)] Handle_wait [OF h u(1)] u(2) by (auto simp: wait_inv_def)
    qed
  qed
qed (simp_all add: boot_ok_port)

end

section \<open>Properties\<close>

text \<open>C25.  A whole upgrade.  When the flash driver does not fail and no page is protected, the
  messages start, erase, head, one per packet, and run load any firmware of at most 65,534
  packets of one to 71 words that fits the application area: every message is answered with
  success, the flash then holds the decoded packets one behind the other from the application
  address on and \<open>0xFF\<close> in the rest of the area, and the boot loader's waiting time is set to
  zero, which ends its loop.\<close>

theorem upgrade_completes:
  assumes "reliable_flash H good" "serving good OB a s" "ps \<noteq> []" "\<forall>d \<in> set ps. packet_ok d"
    "length ps < 65535" "APPLICATION_ADDRESS + length (concat ps) \<le> USER_FLASH_END_ADDRESS"
  shows "\<exists>v. session H OB r (upgrade_messages a ps) s = Some v \<and> UpgradeWaitTime v = 0
     \<and> (\<forall>k < length (concat ps). fl_mem (bflash v) (APPLICATION_ADDRESS + k) = image_of ps ! k)
     \<and> (\<forall>x. APPLICATION_ADDRESS + length (concat ps) \<le> x \<and> x < USER_FLASH_END_ADDRESS \<longrightarrow> fl_mem (bflash v) x = 0xFF)
     \<and> trace (bport v) = trace (bport s)
          @ map (\<lambda>mid. answer a mid RESPONSE_ERR_NONE) ([1, 2, 3] @ replicate (length ps) 3 @ [4])"
  using reliable_flash.upgrade_session [OF assms, of r] by (auto simp: image_at_def)

lemma quiet_reset: "quiet usart_reset"
  using rx_ready_reset by (simp add: quiet_def tx_live_def usart_reset_def)

lemma boot0_serving: "serving no_faults no_ob 65 boot0"
  using quiet_reset
  by (simp add: serving_def boot_ok_def quiet_def boot0_def no_ob_def no_faults_def blank_flash_def)
    (simp add: usart_reset_def)

lemma early_data_hits_boot_code_witness:
  "\<exists>v. session st_hal no_ob 0 [message 65 1 [0, 2], head_message 65 2 0, data_message 65 2 1 (decoded [0, 0, 0, 0])] boot0 = Some v
     \<and> fl_mem (bflash boot0) 0x08000003 = 0xFF \<and> fl_mem (bflash v) 0x08000003 = 0"
proof -
  have "Flashadrdst boot0 = 0" by (simp add: boot0_def)
  from early_data_hits_boot_code [OF boot0_serving this, of 0 0]
  obtain v where v: "session st_hal no_ob 0 [message 65 1 [0, 2], head_message 65 2 0, data_message 65 2 1 (decoded [0, 0, 0, 0])] boot0 = Some v"
    "\<forall>i < 4. fl_mem (bflash v) (FLASH_LOW + i) = 0" by blast
  from v(2) [rule_format, of 3] have "fl_mem (bflash v) 0x08000003 = 0" by simp
  with v(1) show ?thesis by (auto simp: boot0_def blank_flash_def)
qed

lemma upgrade_completes_witness:
  "\<exists>v. session st_hal no_ob 0 (upgrade_messages 65 [[1, 2, 3, 4], [5, 6, 7, 8]]) boot0 = Some v \<and> UpgradeWaitTime v = 0
     \<and> fl_mem (bflash v) 0x08003000 = image_of [[1, 2, 3, 4], [5, 6, 7, 8]] ! 0"
proof -
  obtain v where v: "session st_hal no_ob 0 (upgrade_messages 65 [[1, 2, 3, 4], [5, 6, 7, 8]]) boot0 = Some v"
    "UpgradeWaitTime v = 0"
    "\<forall>k<8. fl_mem (bflash v) (APPLICATION_ADDRESS + k) = image_of [[1, 2, 3, 4], [5, 6, 7, 8]] ! k"
    using upgrade_completes [OF st_drv.reliable_flash_axioms boot0_serving, of "[[1, 2, 3, 4], [5, 6, 7, 8]]" 0]
    by (auto simp: packet_ok_def)
  then show ?thesis using v(3) [rule_format, of 0] by auto
qed

text \<open>Leaving the loop: once the waiting time is over and the application starts with a stack
  pointer into the RAM, the boot loader marks the application as present and stores the
  address 65 in its flag page, touches nothing of the application area, and jumps to the entry
  point in the area's second word with the stack pointer from its first.\<close>

theorem boot_jumps:
  assumes "reliable_flash H good" "tx_live (bport s)" "good (bflash s)" "wait_over tick old s"
    and "flash_word (bflash s) APPLICATION_ADDRESS = Some sp" "flash_word (bflash s) (APPLICATION_ADDRESS + 4) = Some pc"
    and "sp AND 0x2FFE0000 = 0x20000000"
  shows "\<exists>s'. boot_poll H OB tick r old s = Some (s', BJump sp pc)
     \<and> (\<forall>x. app_area x \<longrightarrow> fl_mem (bflash s') x = fl_mem (bflash s) x)
     \<and> fl_mem (bflash s') BOOT_BASE = UPGRADED_DEVICEADDR \<and> fl_mem (bflash s') (BOOT_BASE + 2047) = UPGRADE_FLAG
     \<and> fl_mem (bflash s') (BOOT_BASE + 2046)
         = (if ProgErase s = ERASE_FLAG then fl_mem (bflash s) (BOOT_BASE + 2046) else ERASE_FLAG)"
  using reliable_flash.boot_leave_jumps [OF assms(1-3,5-7)] assms(4) by (simp add: boot_poll_def)

definition boot1 :: "unit boot" where
  "boot1 = boot0\<lparr>UpgradeWaitTime := 0, bflash := blank_flash\<lparr>fl_mem := (fl_mem blank_flash)
     (0x08003000 := 0, 0x08003001 := 0x10, 0x08003002 := 0, 0x08003003 := 0x20,
      0x08003004 := 0xC1, 0x08003005 := 0x30, 0x08003006 := 0, 0x08003007 := 8)\<rparr>\<rparr>"

lemma boot_jumps_witness:
  "\<exists>s'. boot_poll st_hal no_ob 9 0 7 boot1 = Some (s', BJump 0x20001000 0x080030C1)
     \<and> fl_mem (bflash s') BOOT_BASE = UPGRADED_DEVICEADDR"
proof -
  have "flash_word (bflash boot1) APPLICATION_ADDRESS = Some 0x20001000"
    "flash_word (bflash boot1) (APPLICATION_ADDRESS + 4) = Some 0x080030C1"
    by (simp_all add: boot1_def flash_word_def flash_get_def be32_def)
  moreover have "tx_live (bport boot1)" "no_faults (bflash boot1)" "wait_over 9 7 boot1"
    by (simp_all add: boot1_def boot0_def usart_reset_def tx_live_def no_faults_def blank_flash_def wait_over_def)
  ultimately show ?thesis
    using boot_jumps [OF st_drv.reliable_flash_axioms, of boot1 9 7 "0x20001000" "0x080030C1" no_ob 0] by auto
qed

text \<open>A frame sets the waiting time to zero only when it finds the upgrade complete; every other
  frame, good or bad, in every state and for every behaviour of flash and option bytes, keeps the
  waiting time or makes it endless.\<close>

theorem frame_ends_wait:
  assumes "boot_ok s" "HandleFrameInformation H OB rcvlen0 s = Some s'" "UpgradeWaitTime s' \<noteq> UpgradeWaitTime s"
    and "UpgradeWaitTime s' \<noteq> - 1"
  shows "UpgradeWaitTime s' = 0 \<and> complete s"
  using Handle_wait [OF assms(2,1)] assms(3,4) by blast

text \<open>A state in which one packet has been programmed and the run message has arrived.\<close>

definition boot2 :: "unit boot" where
  "boot2 = arrive (message 65 4 []) (boot0\<lparr>PacketNum := 2, PacketCnt := 1, FileCheckSum := 10, FileRunCheckSum := 10\<rparr>)"

lemma frame_ends_wait_witness:
  "\<exists>s'. HandleFrameInformation st_hal no_ob 0 boot2 = Some s' \<and> UpgradeWaitTime s' = 0 \<and> complete boot2"
proof -
  let ?s = "boot0\<lparr>PacketNum := 2, PacketCnt := 1, FileCheckSum := 10, FileRunCheckSum := 10\<rparr>"
  have s: "serving no_faults no_ob 65 ?s"
    using boot0_serving by (simp add: serving_def boot_ok_def)
  obtain v where v: "receive st_hal no_ob 0 (message 65 4 []) ?s = Some v" "UpgradeWaitTime v = 0"
    by (rule st_drv.receive_run [OF s _ _ _ refl, of 0]) simp_all
  have h: "HandleFrameInformation st_hal no_ob 0 boot2 = Some v"
    using v(1) by (simp add: boot2_def receive_def)
  have "quiet (bport ?s)" using s by (simp add: serving_def)
  from arrive_port(1) [OF this, of "message 65 4 []"] have "quiet (bport boot2)"
    by (simp add: boot2_def message_def)
  then have "boot_ok boot2"
    using s by (simp add: serving_def boot_ok_def quiet_def rx_ready_def boot2_def)
  moreover have "UpgradeWaitTime boot2 = - 1" by (simp add: boot2_def boot0_def)
  ultimately have "UpgradeWaitTime v = 0 \<and> complete boot2"
    using frame_ends_wait [OF _ h] v(2) by simp
  with h show ?thesis by blast
qed

text \<open>C30.  Why the boot loader leaves its loop.  In every run from reset, whatever arrives on the line
  and however flash and option bytes behave, the round of the loop that ends it (by the jump to
  the application, or in the final empty loop when the application has no valid stack pointer)
  has one of two reasons: both flags of the flash said at the reset that an application is
  present, the waiting time still is the two seconds of the start-up, and they have passed (this
  needs no frame); or the waiting time is zero and the upgrade is complete: every packet
  programmed and the sum of the received data equal to the announced checksum (or no upgrade
  begun and a flag value that the boot loader never writes).\<close>

theorem run_only_when_complete:
  assumes "flash_hal H" "boot_static s0" "boot_run H OB s0 n ok s (BWait old)"
    and "boot_poll H OB tick rcvlen0 old s = Some (s', ph)" "ph = BHang \<or> ph = BJump sp pc"
  shows "(UpgradeWaitTime s = 2 \<and> marked (bflash s0) \<and> tick > 2000 + old) \<or> (UpgradeWaitTime s = 0 \<and> complete s)"
proof -
  have over: "wait_over tick old s"
    using assms(4,5) by (auto simp: boot_poll_def Let_def Option.bind_eq_Some_conv split: if_splits)
  moreover have "wait_inv (bflash s0) s"
    using flash_hal.boot_run_waits [OF assms(1,3,2)] by simp
  ultimately show ?thesis by (auto simp: wait_inv_def wait_over_def)
qed

text \<open>A board with both flags set and no application.\<close>

definition boot3 :: "unit boot" where
  "boot3 = boot0\<lparr>bflash := blank_flash\<lparr>fl_mem := (fl_mem blank_flash)(BOOT_BASE + 2046 := 0x0C, BOOT_BASE + 2047 := 0x0C)\<rparr>\<rparr>"

lemma run_only_when_complete_witness:
  "\<exists>s s'. boot_run st_hal no_ob boot3 0 True s (BWait 7) \<and> boot_poll st_hal no_ob 2008 0 7 s = Some (s', BHang)
     \<and> UpgradeWaitTime s = 2 \<and> marked (bflash boot3)"
proof -
  obtain s where i: "boot_init 7 boot3 = Some (s, BWait 7)"
    by (simp add: boot_init_def ModBus_Param_Init_def Read_Memory_1_Byte_def boot_read_flag Let_def)
  have s: "UpgradeWaitTime s = 2" "bflash s = bflash boot3"
    using boot_init_result(2) [OF i] by (simp_all add: boot3_def)
  have static: "boot_static boot3" using boot0_static by (simp add: boot_static_def boot3_def)
  have run: "boot_run st_hal no_ob boot3 0 True s (BWait 7)" by (rule boot_run.init [OF i])
  have "flash_word (bflash s) APPLICATION_ADDRESS = Some 0xFFFFFFFF"
    unfolding s(2) by (simp add: boot3_def blank_flash_def flash_word_def flash_get_def be32_def)
  then have poll: "boot_poll st_hal no_ob 2008 0 7 s = Some (s, BHang)"
    using s(1) by (simp add: boot_poll_def wait_over_def boot_leave_def)
  from run_only_when_complete [OF st_hal_flash_hal static run poll] s(1) have "marked (bflash boot3)" by auto
  with run poll s(1) show ?thesis by blast
qed

text \<open>A message that arrives with a wrong checksum is not answered, although the handler has a
  response code for it: the decoded length counts the checksum byte only when the checksum is
  right, so the length test of the handler drops the frame.  Apart from the receive buffer
  the state stays as it is.\<close>

theorem bad_checksum_unanswered:
  assumes "boot_ok s" "port_holds (bport s) (0x3A # concat (map hex2 (message a mid ds @ [c])) @ [0x0D, 0x0A])"
    and "sum_list (message a mid ds @ [c]) \<noteq> 0" "length ds \<le> 290"
  shows "\<exists>buf. HandleFrameInformation H OB rcvlen0 s = Some (s\<lparr>RX_buf := buf\<rparr>)"
proof -
  let ?p = "message a mid ds @ [c]"
  have len: "length ?p = 7 + length ds" by (simp add: message_def)
  have rb: "length (RX_buf s) = 600" using assms(1) by (simp add: boot_ok_def)
  obtain buf where r: "MODBUS_ASCII_RecvData (RX_buf s) rcvlen0 (bport s) = Some (ERR_LRC, of_nat (length ?p), buf)"
    "take (length ?p) buf = ?p"
    using RecvData_spec [OF assms(2) rb, of rcvlen0] recv_spec_hex [of ?p "RX_buf s" rcvlen0] assms(3) by auto
  have b: "boot_ok (s\<lparr>RX_buf := buf\<rparr>)" by (rule RecvData_ok [OF r(1) assms(1)])
  have nth: "buf ! i = ?p ! i" if "i < 6" for i
    using arg_cong [OF r(2), of "\<lambda>xs. xs ! i"] that by (simp only: nth_take len)
  have "rx16 (s\<lparr>RX_buf := buf\<rparr>) 4 = Some (of_nat (length ds))"
    using b nth [of 4] nth [of 5] by (simp add: boot_ok_def rx16_be16 message_def be16_hi_lo)
  moreover have "uint (of_nat (length ?p) :: u16) - 6 \<noteq> uint (of_nat (length ds) :: u16)"
  proof -
    have "unat (of_nat (length ?p) :: u16) = length ?p" "unat (of_nat (length ds) :: u16) = length ds"
      by (rule unat_of_nat_u16; use assms(4) in \<open>simp add: message_def\<close>)+
    then show ?thesis unfolding uint_nat len by simp
  qed
  moreover have "rd buf 1 = Some 0x41" "\<exists>x. rd buf 0 = Some x" "\<exists>x. rx16 (s\<lparr>RX_buf := buf\<rparr>) 2 = Some x"
    using b nth [of 1] by (simp_all add: boot_ok_def message_def rx16_be16)
  ultimately have "handle_frame H OB ERR_LRC (of_nat (length ?p)) (s\<lparr>RX_buf := buf\<rparr>) = Some (s\<lparr>RX_buf := buf\<rparr>)"
    by (auto simp: handle_frame_def)
  then show ?thesis using r(1) by (auto simp: HandleFrameInformation_def)
qed

lemma bad_checksum_unanswered_witness:
  "\<exists>buf. HandleFrameInformation st_hal no_ob 0
     (on_bport (\<lambda>u. char_match (rx_bytes (0x3A # concat (map hex2 (message 65 4 [] @ [0])) @ [0x0D, 0x0A]) u)) boot0)
   = Some (on_bport (\<lambda>u. char_match (rx_bytes (0x3A # concat (map hex2 (message 65 4 [] @ [0])) @ [0x0D, 0x0A]) u)) boot0
        \<lparr>RX_buf := buf\<rparr>)"
proof -
  let ?f = "0x3A # concat (map hex2 (message 65 4 [] @ [0])) @ [0x0D, 0x0A]"
  let ?s = "on_bport (\<lambda>u. char_match (rx_bytes ?f u)) boot0"
  have l: "length ?f \<le> RECEIVE_SIZE" by (simp add: message_def)
  have q: "quiet (bport ?s)"
    using quiet_char_match(1) [OF quiet_reset l] by (simp add: on_bport_def boot0_def)
  have ok: "boot_ok ?s" using q by (simp add: boot_ok_def quiet_def rx_ready_def on_bport_def boot0_def)
  have p: "port_holds (bport ?s) ?f"
    using port_holds_char_match [OF rx_ready_reset l] by (simp add: on_bport_def boot0_def)
  show ?thesis
    by (rule bad_checksum_unanswered [OF ok p]) (simp_all add: message_def hi8_def lo8_def)
qed

end
