(* ===== verification/RttKernel.thy ===== *)
theory RttKernel
  imports Prelude
begin

text \<open>
  The parts of RT-Thread that the RT-Thread variant of the sensor's program calls
  (\<open>BC_Cap_Sensor_RTT/rt-thread/src\<close>): the device interface of \<open>device.c\<close> and the semaphores of
  \<open>ipc.c\<close>.  A device is its registration record \<open>rt_device\<close> and the state of its driver; the
  driver's functions are the record \<open>rt_ops\<close>, where \<open>None\<close> is \<open>RT_NULL\<close>.  A semaphore is its
  value and the list of the threads suspended on it; suspending and resuming a thread is left
  to the caller, who is told which thread it is.

  \<open>standard_driver\<close> is the interface between \<open>device.c\<close> and the drivers of the program: opening
  a stand-alone device starts its hardware exactly once.
\<close>

section \<open>Devices\<close>

abbreviation (input) "RT_EOK \<equiv> (0 :: int)"
abbreviation (input) "RT_ERROR \<equiv> (1 :: int)"
abbreviation (input) "RT_ENOSYS \<equiv> (6 :: int)"
abbreviation (input) "RT_EBUSY \<equiv> (7 :: int)"
abbreviation (input) "RT_DEVICE_FLAG_RDONLY \<equiv> (0x001 :: u16)"
abbreviation (input) "RT_DEVICE_FLAG_WRONLY \<equiv> (0x002 :: u16)"
abbreviation (input) "RT_DEVICE_FLAG_RDWR \<equiv> (0x003 :: u16)"
abbreviation (input) "RT_DEVICE_FLAG_STANDALONE \<equiv> (0x008 :: u16)"
abbreviation (input) "RT_DEVICE_FLAG_ACTIVATED \<equiv> (0x010 :: u16)"
abbreviation (input) "RT_DEVICE_OFLAG_CLOSE \<equiv> (0x000 :: u16)"
abbreviation (input) "RT_DEVICE_OFLAG_RDONLY \<equiv> (0x001 :: u16)"
abbreviation (input) "RT_DEVICE_OFLAG_WRONLY \<equiv> (0x002 :: u16)"
abbreviation (input) "RT_DEVICE_OFLAG_RDWR \<equiv> (0x003 :: u16)"
abbreviation (input) "RT_DEVICE_OFLAG_OPEN \<equiv> (0x008 :: u16)"
abbreviation (input) "RT_DEVICE_OFLAG_MASK \<equiv> (0xf0f :: u16)"

record rt_device =
  flag :: u16
  open_flag :: u16
  ref_count :: u8

text \<open>A buffer is the array that the caller's pointer refers to.  \<open>op_read\<close> and \<open>op_write\<close> take the
  position, the buffer and the size; \<open>None\<close> as a result is an access beyond the buffer.\<close>

record ('b, 's) rt_ops =
  op_init :: "('s \<Rightarrow> int \<times> 's) option"
  op_open :: "(u16 \<Rightarrow> 's \<Rightarrow> int \<times> 's) option"
  op_close :: "('s \<Rightarrow> int \<times> 's) option"
  op_read :: "(u32 \<Rightarrow> 'b list \<Rightarrow> u32 \<Rightarrow> 's \<Rightarrow> (u32 \<times> 'b list \<times> 's) option) option"
  op_write :: "(u32 \<Rightarrow> 'b list \<Rightarrow> u32 \<Rightarrow> 's \<Rightarrow> (u32 \<times> 's) option) option"

definition rt_device_register :: "u16 \<Rightarrow> rt_device" where
  "rt_device_register flags = \<lparr>flag = flags, open_flag = 0, ref_count = 0\<rparr>"

definition rt_device_init :: "('b, 's) rt_ops \<Rightarrow> rt_device \<Rightarrow> 's \<Rightarrow> int \<times> rt_device \<times> 's" where
  "rt_device_init ops d s =
     (case op_init ops of
        None \<Rightarrow> (RT_EOK, d, s)
      | Some device_init \<Rightarrow>
          if flag d AND RT_DEVICE_FLAG_ACTIVATED = 0
          then (case device_init s of (result, s) \<Rightarrow>
                  if result \<noteq> RT_EOK then (result, d, s)
                  else (result, d\<lparr>flag := flag d OR RT_DEVICE_FLAG_ACTIVATED\<rparr>, s))
          else (RT_EOK, d, s))"

text \<open>The first half of \<open>rt_device_open\<close>: the device is initialised when it has not been.\<close>

definition open_activate :: "('b, 's) rt_ops \<Rightarrow> rt_device \<Rightarrow> 's \<Rightarrow> int \<times> rt_device \<times> 's" where
  "open_activate ops d s =
     (if flag d AND RT_DEVICE_FLAG_ACTIVATED = 0
      then let (result, s) = (case op_init ops of None \<Rightarrow> (RT_EOK, s) | Some device_init \<Rightarrow> device_init s)
           in if result \<noteq> RT_EOK then (result, d, s)
              else (result, d\<lparr>flag := flag d OR RT_DEVICE_FLAG_ACTIVATED\<rparr>, s)
      else (RT_EOK, d, s))"

definition rt_device_open :: "('b, 's) rt_ops \<Rightarrow> u16 \<Rightarrow> rt_device \<Rightarrow> 's \<Rightarrow> int \<times> rt_device \<times> 's" where
  "rt_device_open ops oflag d s =
     (case open_activate ops d s of (result, d, s) \<Rightarrow>
        if result \<noteq> RT_EOK then (result, d, s)
        else if flag d AND RT_DEVICE_FLAG_STANDALONE \<noteq> 0 \<and> open_flag d AND RT_DEVICE_OFLAG_OPEN \<noteq> 0
        then (- RT_EBUSY, d, s)
        else
          case (case op_open ops of
                  Some device_open \<Rightarrow> (case device_open oflag s of (result, s) \<Rightarrow> (result, d, s))
                | None \<Rightarrow> (result, d\<lparr>open_flag := oflag AND RT_DEVICE_OFLAG_MASK\<rparr>, s)) of
            (result, d, s) \<Rightarrow>
              if result = RT_EOK \<or> result = - RT_ENOSYS
              then (result, d\<lparr>open_flag := open_flag d OR RT_DEVICE_OFLAG_OPEN, ref_count := ref_count d + 1\<rparr>, s)
              else (result, d, s))"

definition rt_device_close :: "('b, 's) rt_ops \<Rightarrow> rt_device \<Rightarrow> 's \<Rightarrow> int \<times> rt_device \<times> 's" where
  "rt_device_close ops d s =
     (if ref_count d = 0 then (- RT_ERROR, d, s)
      else let d = d\<lparr>ref_count := ref_count d - 1\<rparr> in
        if ref_count d \<noteq> 0 then (RT_EOK, d, s)
        else let (result, s) = (case op_close ops of None \<Rightarrow> (RT_EOK, s) | Some device_close \<Rightarrow> device_close s)
             in if result = RT_EOK \<or> result = - RT_ENOSYS
                then (result, d\<lparr>open_flag := RT_DEVICE_OFLAG_CLOSE\<rparr>, s)
                else (result, d, s))"

definition rt_device_read :: "('b, 's) rt_ops \<Rightarrow> rt_device \<Rightarrow> u32 \<Rightarrow> 'b list \<Rightarrow> u32 \<Rightarrow> 's \<Rightarrow> (u32 \<times> 'b list \<times> 's) option" where
  "rt_device_read ops d pos buffer n s =
     (if ref_count d = 0 then Some (0, buffer, s)
      else case op_read ops of
             Some device_read \<Rightarrow> device_read pos buffer n s
           | None \<Rightarrow> Some (0, buffer, s))"

definition rt_device_write :: "('b, 's) rt_ops \<Rightarrow> rt_device \<Rightarrow> u32 \<Rightarrow> 'b list \<Rightarrow> u32 \<Rightarrow> 's \<Rightarrow> (u32 \<times> 's) option" where
  "rt_device_write ops d pos buffer n s =
     (if ref_count d = 0 then Some (0, s)
      else case op_write ops of
             Some device_write \<Rightarrow> device_write pos buffer n s
           | None \<Rightarrow> Some (0, s))"

section \<open>Drivers that cannot fail to start\<close>

text \<open>The state of a stand-alone device between its registration and its first opening, and
  after it.\<close>

definition opened :: "u16 \<Rightarrow> rt_device" where
  "opened flags = \<lparr>flag = flags OR RT_DEVICE_FLAG_ACTIVATED, open_flag = RT_DEVICE_OFLAG_OPEN, ref_count = 1\<rparr>"

locale standard_driver =
  fixes ops :: "('b, 's) rt_ops" and start :: "'s \<Rightarrow> 's" and flags :: u16
  assumes init: "op_init ops = Some (\<lambda>s. (RT_EOK, start s))"
    and open': "op_open ops = Some (\<lambda>oflag s. (RT_EOK, s))"
    and standalone: "flags AND RT_DEVICE_FLAG_STANDALONE \<noteq> 0"
    and inactive: "flags AND RT_DEVICE_FLAG_ACTIVATED = 0"
begin

lemma activated: "(flags OR RT_DEVICE_FLAG_ACTIVATED) AND RT_DEVICE_FLAG_ACTIVATED \<noteq> 0"
proof
  assume "(flags OR RT_DEVICE_FLAG_ACTIVATED) AND RT_DEVICE_FLAG_ACTIVATED = 0"
  then have "bit ((flags OR RT_DEVICE_FLAG_ACTIVATED) AND RT_DEVICE_FLAG_ACTIVATED) 4 = bit (0 :: u16) 4" by simp
  then show False by (simp add: bit_simps)
qed

lemma standalone': "(flags OR RT_DEVICE_FLAG_ACTIVATED) AND RT_DEVICE_FLAG_STANDALONE \<noteq> 0"
proof -
  have "(flags OR RT_DEVICE_FLAG_ACTIVATED) AND RT_DEVICE_FLAG_STANDALONE = flags AND RT_DEVICE_FLAG_STANDALONE"
    by (simp add: bit.conj_disj_distrib2)
  then show ?thesis using standalone by simp
qed

lemma first_open: "rt_device_open ops oflag (rt_device_register flags) s = (RT_EOK, opened flags, start s)"
  using standalone' inactive
  by (simp add: rt_device_open_def open_activate_def rt_device_register_def opened_def init open' Let_def)

lemma second_open: "rt_device_open ops oflag (opened flags) s = (- RT_EBUSY, opened flags, s)"
  using activated standalone' by (simp add: rt_device_open_def open_activate_def opened_def)

lemma open_twice:
  "rt_device_open ops oflag (rt_device_register flags) s = (r, d, t)
   \<Longrightarrow> rt_device_open ops oflag' d t = (- RT_EBUSY, d, t) \<and> d = opened flags \<and> t = start s"
  by (auto simp: first_open second_open)

lemma opened_transfers:
  "op_read ops = Some f \<Longrightarrow> rt_device_read ops (opened flags) pos buf n s = f pos buf n s"
  "op_write ops = Some g \<Longrightarrow> rt_device_write ops (opened flags) pos buf n s = g pos buf n s"
  by (simp_all add: rt_device_read_def rt_device_write_def opened_def)

end

section \<open>Semaphores\<close>

datatype ipc_flag = RT_IPC_FLAG_FIFO | RT_IPC_FLAG_PRIO

record 't rt_sem =
  sem_value :: u16
  suspend_thread :: "'t list"
  sem_flag :: ipc_flag

datatype take_result = Taken | Timed_out | Suspended

definition rt_sem_init :: "u32 \<Rightarrow> ipc_flag \<Rightarrow> 't rt_sem" where
  "rt_sem_init value fl = \<lparr>sem_value = ucast value, suspend_thread = [], sem_flag = fl\<rparr>"

text \<open>\<open>prio\<close> is \<open>current_priority\<close>; the loop stops at the first thread of lower priority (a
  greater number).\<close>

fun ipc_insert_prio :: "('t \<Rightarrow> nat) \<Rightarrow> 't \<Rightarrow> 't list \<Rightarrow> 't list" where
  "ipc_insert_prio prio t [] = [t]"
| "ipc_insert_prio prio t (u # us) = (if prio t < prio u then t # u # us else u # ipc_insert_prio prio t us)"

definition rt_ipc_list_suspend :: "('t \<Rightarrow> nat) \<Rightarrow> 't \<Rightarrow> ipc_flag \<Rightarrow> 't list \<Rightarrow> 't list" where
  "rt_ipc_list_suspend prio t fl xs =
     (case fl of RT_IPC_FLAG_FIFO \<Rightarrow> xs @ [t] | RT_IPC_FLAG_PRIO \<Rightarrow> ipc_insert_prio prio t xs)"

text \<open>\<open>thread\<close> is the calling thread.  \<open>Suspended\<close> says that it has been taken off the ready
  queue and goes on, with the semaphore, when \<open>rt_sem_release\<close> resumes it (or, for a positive
  \<open>time\<close>, when its timer ends).\<close>

definition rt_sem_take :: "('t \<Rightarrow> nat) \<Rightarrow> 't \<Rightarrow> 't rt_sem \<Rightarrow> int \<Rightarrow> take_result \<times> 't rt_sem" where
  "rt_sem_take prio thread sem time =
     (if sem_value sem > 0 then (Taken, sem\<lparr>sem_value := sem_value sem - 1\<rparr>)
      else if time = 0 then (Timed_out, sem)
      else (Suspended, sem\<lparr>suspend_thread :=
              rt_ipc_list_suspend prio thread (sem_flag sem) (suspend_thread sem)\<rparr>))"

text \<open>The result names the thread that is resumed.\<close>

definition rt_sem_release :: "'t rt_sem \<Rightarrow> 't option \<times> 't rt_sem" where
  "rt_sem_release sem =
     (case suspend_thread sem of
        t # ts \<Rightarrow> (Some t, sem\<lparr>suspend_thread := ts\<rparr>)
      | [] \<Rightarrow> (None, sem\<lparr>sem_value := sem_value sem + 1\<rparr>))"

end
