(* ===== verification/RttDevices.thy ===== *)
theory RttDevices
  imports AppLoop RttKernel
begin

text \<open>
  The RT-Thread variant of the sensor's program, its devices and the threads that measure:
  the branches for \<open>USING_RT_THREAD_OS\<close> in \<open>Picocap_app.c\<close>, \<open>adc_app.c\<close> and \<open>dac_bsp.c\<close>
  (\<open>BC_Cap_Sensor_RTT/applications/APP\<close> and \<open>board/BSP\<close>, the same files as those of the
  bare-metal program), the start-up functions, and the loops of \<open>applications/main.c\<close> and of the
  ADC thread.  The state is that of the bare-metal program, \<open>app\<close>, with the registrations of the
  three devices; the fields of the device objects are those that the Modbus functions reach
  through \<open>ModBus_Device\<close>, \<open>dev\<close> of \<open>mb\<close>.

  The last section compares the two variants: the measuring thread does what the block
  \<open>loop_collect\<close> of the bare-metal loop does, and the start-up is \<open>main_init\<close> without the check of
  the stored parameters.
\<close>

section \<open>The capacitance converter as a device\<close>

definition pcap_init :: "'c hal_spi \<Rightarrow> 'c \<Rightarrow> int \<times> 'c" where
  "pcap_init S c = (RT_EOK, PCap_Init S c)"

definition pcap_open :: "u16 \<Rightarrow> 'c \<Rightarrow> int \<times> 'c" where
  "pcap_open oflag c = (RT_EOK, c)"

definition pcap_close :: "'c \<Rightarrow> int \<times> 'c" where
  "pcap_close c = (RT_EOK, c)"

text \<open>\<open>read_buf += 4\<close> moves a pointer to words by four words; \<open>k\<close> is its distance from the
  start of the caller's array.  \<open>RESULT_STATUS_ADDR\<close> is 8, \<open>RESULT_REG10_ADDR\<close> is 13 and
  \<open>RESULT_REG11_ADDR\<close> is 14.\<close>

function pcap_read_loop :: "'c hal_spi \<Rightarrow> u32 \<Rightarrow> u32 \<Rightarrow> u8 \<Rightarrow> nat \<Rightarrow> u32 list \<Rightarrow> 'c \<Rightarrow> (u32 \<times> u32 list \<times> 'c) option" where
  "pcap_read_loop S pos n i k buf c =
     (if ucast i < n + pos then
        if i < 8 \<or> i = 13 \<or> i = 14 then
          (case Sensor_PCap_GetResult S i 0 c of (r, v, c) \<Rightarrow>
             if r \<noteq> OP_SUCCESS then Some (0, buf, c)
             else Option.bind (wr buf k v) (\<lambda>buf. pcap_read_loop S pos n (i + 1) (k + 4) buf c))
        else if i > 14 then Some (ucast i - pos, buf, c)
        else pcap_read_loop S pos n (i + 1) (k + 4) buf c
      else Some (n, buf, c))"
  by pat_completeness auto
termination
proof (relation "measure (\<lambda>(S, pos, n, i, k, buf, c). 256 - unat i)", goal_cases)
  case (2 S pos n i k buf c x y z b)
  then show ?case by (auto simp: word_less_nat_alt unat_word_ariths)
next
  case (3 S pos n i k buf c)
  then have "unat i \<le> 14" by (simp add: word_less_nat_alt)
  then show ?case by (simp add: unat_word_ariths)
qed auto

declare pcap_read_loop.simps [simp del]

definition pcap_read :: "'c hal_spi \<Rightarrow> u32 \<Rightarrow> u32 list \<Rightarrow> u32 \<Rightarrow> 'c \<Rightarrow> (u32 \<times> u32 list \<times> 'c) option" where
  "pcap_read S pos buffer n c = pcap_read_loop S pos n (ucast pos) 0 buffer c"

definition pcap_ops :: "'c hal_spi \<Rightarrow> (u32, 'c) rt_ops" where
  "pcap_ops S = \<lparr>op_init = Some (pcap_init S), op_open = Some pcap_open, op_close = Some pcap_close,
                 op_read = Some (pcap_read S), op_write = None\<rparr>"

definition pcap_flags :: u16 where
  "pcap_flags = RT_DEVICE_FLAG_RDWR OR RT_DEVICE_FLAG_STANDALONE"

section \<open>The ADC as a device\<close>

text \<open>A cell of the caller's buffer holds a sample or, for the temperature, a \<open>float\<close>.\<close>

datatype adc_cell = Sample u16 | Degrees fval

definition stm32_adc_init :: "u16 \<Rightarrow> u16 \<Rightarrow> adc \<Rightarrow> int \<times> adc" where
  "stm32_adc_init vref30 vref110 a = (RT_EOK, Sensor_ADC_Init vref30 vref110 a)"

definition stm32_adc_open :: "u16 \<Rightarrow> adc \<Rightarrow> int \<times> adc" where
  "stm32_adc_open oflag a = (RT_EOK, a)"

definition stm32_adc_close :: "adc \<Rightarrow> int \<times> adc" where
  "stm32_adc_close a = (RT_EOK, a)"

function adc_read_loop :: "u32 \<Rightarrow> u32 \<Rightarrow> u8 \<Rightarrow> nat \<Rightarrow> adc_cell list \<Rightarrow> adc \<Rightarrow> (u32 \<times> adc_cell list \<times> adc) option" where
  "adc_read_loop pos n i k buf a =
     (if ucast i < n + pos then
        if i \<ge> 1 then Some (ucast i - pos, buf, a)
        else do {
          v \<leftarrow> Sensor_ADC_GetChn_Value (unat i) a;
          buf \<leftarrow> wr buf k (Sample v);
          adc_read_loop pos n (i + 1) (k + 2) buf a }
      else Some (n, buf, a))"
  by pat_completeness auto
termination
proof (relation "measure (\<lambda>(pos, n, i, k, buf, a). 256 - unat i)", goal_cases)
  case (2 pos n i k buf a x y)
  then have "unat i = 0" by (simp add: word_le_nat_alt)
  then show ?case by (simp add: unat_word_ariths)
qed auto

declare adc_read_loop.simps [simp del]

definition stm32_adc_read :: "u32 \<Rightarrow> adc_cell list \<Rightarrow> u32 \<Rightarrow> adc \<Rightarrow> (u32 \<times> adc_cell list \<times> adc) option" where
  "stm32_adc_read pos buffer n a =
     (if pos = 1 then do {
        t \<leftarrow> Sensor_ADC_Get_TemperData a;
        buffer \<leftarrow> wr buffer 0 (Degrees t);
        Some (1, buffer, a) }
      else adc_read_loop pos n (ucast pos) 0 buffer a)"

definition adc_ops :: "u16 \<Rightarrow> u16 \<Rightarrow> (adc_cell, adc) rt_ops" where
  "adc_ops vref30 vref110 =
     \<lparr>op_init = Some (stm32_adc_init vref30 vref110), op_open = Some stm32_adc_open,
      op_close = Some stm32_adc_close, op_read = Some stm32_adc_read, op_write = None\<rparr>"

definition adc_flags :: u16 where
  "adc_flags = RT_DEVICE_FLAG_RDONLY OR RT_DEVICE_FLAG_STANDALONE"

section \<open>The DAC as a device\<close>

definition stm32_dac_init :: "dac \<Rightarrow> int \<times> dac" where
  "stm32_dac_init d = (RT_EOK, d)"

definition stm32_dac_open :: "u16 \<Rightarrow> dac \<Rightarrow> int \<times> dac" where
  "stm32_dac_open oflag d = (RT_EOK, d)"

definition stm32_dac_close :: "dac \<Rightarrow> int \<times> dac" where
  "stm32_dac_close d = (RT_EOK, d)"

text \<open>Every channel gets the first element of the buffer, whose pointer is not advanced;
  \<open>DA_CHANNEL_TOTAL\<close> is 2.\<close>

function dac_write_loop :: "u32 \<Rightarrow> u32 \<Rightarrow> u8 \<Rightarrow> u16 list \<Rightarrow> dac \<Rightarrow> (u32 \<times> dac) option" where
  "dac_write_loop pos n i buf d =
     (if ucast i < n + pos then
        if i \<ge> 2 then Some (ucast i - pos, d)
        else do {
          v \<leftarrow> rd buf 0;
          dac_write_loop pos n (i + 1) buf
            (snd (BSP_DAC_Convert v (if i = 0 then DA_CHANNEL_1 else DA_CHANNEL_2) d)) }
      else Some (n, d))"
  by pat_completeness auto
termination
proof (relation "measure (\<lambda>(pos, n, i, buf, d). 256 - unat i)", goal_cases)
  case (2 pos n i buf d x)
  then have "unat i < 2" by (simp add: word_le_nat_alt)
  then show ?case by (simp add: unat_word_ariths)
qed auto

declare dac_write_loop.simps [simp del]

definition stm32_dac_write :: "u32 \<Rightarrow> u16 list \<Rightarrow> u32 \<Rightarrow> dac \<Rightarrow> (u32 \<times> dac) option" where
  "stm32_dac_write pos buffer n d = dac_write_loop pos n (ucast pos) buffer d"

definition dac_ops :: "(u16, dac) rt_ops" where
  "dac_ops = \<lparr>op_init = Some stm32_dac_init, op_open = Some stm32_dac_open, op_close = Some stm32_dac_close,
              op_read = None, op_write = Some stm32_dac_write\<rparr>"

definition dac_flags :: u16 where
  "dac_flags = RT_DEVICE_FLAG_WRONLY OR RT_DEVICE_FLAG_STANDALONE"

interpretation pcap_drv: standard_driver "pcap_ops S" "PCap_Init S" pcap_flags for S
  by unfold_locales (auto simp: pcap_flags_def pcap_ops_def pcap_init_def pcap_open_def fun_eq_iff)

interpretation adc_drv: standard_driver "adc_ops v30 v110" "Sensor_ADC_Init v30 v110" adc_flags for v30 v110
  by unfold_locales (auto simp: adc_flags_def adc_ops_def stm32_adc_init_def stm32_adc_open_def fun_eq_iff)

interpretation dac_drv: standard_driver dac_ops "\<lambda>d. d" dac_flags
  by unfold_locales (auto simp: dac_flags_def dac_ops_def stm32_dac_init_def stm32_dac_open_def fun_eq_iff)

section \<open>Start-up and the measuring threads\<close>

record rt_devs =
  pcap_dev :: rt_device
  adc_dev :: rt_device
  dac_dev :: rt_device

definition pcap_device_init :: "'c app \<Rightarrow> ('c app \<times> rt_device) option" where
  "pcap_device_init a = do {
     F \<leftarrow> DataFilterParam_Init (fls (mbs a)) (DataFilter (dev (mbs a))) 10;
     P \<leftarrow> DataConvertParam_Init (fls (mbs a)) (PCap_DataConvert (dev (mbs a)));
     Some (a\<lparr>mbs := (mbs a)\<lparr>dev := (dev (mbs a))\<lparr>DataFilter := F, PCap_DataConvert := P\<rparr>\<rparr>\<rparr>,
           rt_device_register pcap_flags) }"

definition adc_device_init :: "'c app \<Rightarrow> ('c app \<times> rt_device) option" where
  "adc_device_init a = do {
     T \<leftarrow> Sensor_ADC_TemperParam_Init (fls (mbs a)) (ADC_TemperParam (dev (mbs a)));
     Some (a\<lparr>mbs := (mbs a)\<lparr>dev := (dev (mbs a))\<lparr>ADC_TemperParam := T\<rparr>\<rparr>\<rparr>,
           rt_device_register adc_flags) }"

definition dac_device_init :: "rt_device" where
  "dac_device_init = rt_device_register dac_flags"

text \<open>\<open>modbus_init\<close> up to the creation of its threads: both devices are found, since their
  initialisation comes before (\<open>INIT_DEVICE_EXPORT\<close> before \<open>INIT_COMPONENT_EXPORT\<close>).\<close>

definition modbus_init :: "'c hal_spi \<Rightarrow> u16 \<Rightarrow> u16 \<Rightarrow> rt_devs \<Rightarrow> 'c app \<Rightarrow> (rt_devs \<times> 'c app) option" where
  "modbus_init S vref30 vref110 D a = do {
     let (r, d, x) = rt_device_open (adc_ops vref30 vref110) RT_DEVICE_OFLAG_RDONLY (adc_dev D) (adcs a);
     let D = D\<lparr>adc_dev := d\<rparr>; let a = a\<lparr>adcs := x\<rparr>;
     let (r, d, c) = rt_device_open (pcap_ops S) RT_DEVICE_OFLAG_RDWR (pcap_dev D) (pcap a);
     let D = D\<lparr>pcap_dev := d\<rparr>; let a = a\<lparr>pcap := c\<rparr>;
     (b, u) \<leftarrow> ModBus_Init (fls (mbs a)) (base (mbs a)) (port (mbs a));
     Some (D, a\<lparr>mbs := (mbs a)\<lparr>base := b, port := u\<rparr>\<rparr>) }"

text \<open>The statements of \<open>main\<close> before its loop.\<close>

definition main_thread_open :: "'c hal_spi \<Rightarrow> rt_devs \<Rightarrow> 'c app \<Rightarrow> rt_devs \<times> 'c app" where
  "main_thread_open S D a =
     (let (r, d, c) = rt_device_open (pcap_ops S) RT_DEVICE_OFLAG_RDWR (pcap_dev D) (pcap a);
          D = D\<lparr>pcap_dev := d\<rparr>; a = a\<lparr>pcap := c\<rparr>;
          (r, d, x) = rt_device_open dac_ops RT_DEVICE_OFLAG_WRONLY (dac_dev D) (dacs a)
      in (D\<lparr>dac_dev := d\<rparr>, a\<lparr>dacs := x\<rparr>))"

definition adc_thread_open :: "u16 \<Rightarrow> u16 \<Rightarrow> rt_devs \<Rightarrow> 'c app \<Rightarrow> rt_devs \<times> 'c app" where
  "adc_thread_open vref30 vref110 D a =
     (let (r, d, x) = rt_device_open (adc_ops vref30 vref110) RT_DEVICE_OFLAG_RDONLY (adc_dev D) (adcs a)
      in (D\<lparr>adc_dev := d\<rparr>, a\<lparr>adcs := x\<rparr>))"

text \<open>One round of the loop of \<open>main\<close>, up to \<open>rt_thread_mdelay\<close>.  The result and the
  value for the DAC are fields of the device object, arrays of one element here.\<close>

definition main_thread_value :: "rt_devs \<Rightarrow> u32 \<Rightarrow> 'c app \<Rightarrow> 'c app option" where
  "main_thread_value D v a = do {
     (r, out, P, B) \<leftarrow> Sensor_DataFilter (DataFilter (dev (mbs a))) (flt a) v;
     let s = mbs a;
     let a = a\<lparr>mbs := s\<lparr>dev := (dev s)\<lparr>DataFilter := P\<rparr>\<rparr>, flt := B,
               FilterResult := (case out of None \<Rightarrow> FilterResult a | Some x \<Rightarrow> x)\<rparr>;
     if r = OP_SUCCESS then do {
       let s = mbs a;
       Out \<leftarrow> Sensor_PCap_DataConvert (PCap_DataConvert (dev s)) (FilterResult a) (PCap_DataConvert_Out (dev s));
       let a = a\<lparr>mbs := s\<lparr>dev := (dev s)\<lparr>PCap_DataConvert_Out := Out\<rparr>\<rparr>\<rparr>;
       if CapDA_ClibEn (PCap_DataConvert (dev s)) = 0x0F
       then do { (k, d) \<leftarrow> rt_device_write dac_ops (dac_dev D) 1 [PCapDA_ResultValue Out] 1 (dacs a); Some (a\<lparr>dacs := d\<rparr>) }
       else do { (k, d) \<leftarrow> rt_device_write dac_ops (dac_dev D) 1 [PCapDA_OutValue Out] 1 (dacs a); Some (a\<lparr>dacs := d\<rparr>) } }
     else Some a }"

definition main_thread_round :: "'c hal_spi \<Rightarrow> rt_devs \<Rightarrow> 'c app \<Rightarrow> 'c app option" where
  "main_thread_round S D a = do {
     (k, buf, c) \<leftarrow> rt_device_read (pcap_ops S) (pcap_dev D) 1
                     [PCap_ResultValue (PCap_DataConvert_Out (dev (mbs a)))] 1 (pcap a);
     v \<leftarrow> rd buf 0;
     let a = a\<lparr>mbs := upd_out (\<lambda>Out. Out\<lparr>PCap_ResultValue := v\<rparr>) (mbs a), pcap := c\<rparr>;
     if k \<noteq> 0 then main_thread_value D v a else Some a }"

text \<open>One round of the loop of the ADC thread.\<close>

definition adc_thread_round :: "u16 \<Rightarrow> u16 \<Rightarrow> rt_devs \<Rightarrow> 'c app \<Rightarrow> 'c app option" where
  "adc_thread_round vref30 vref110 D a =
     (if Sensor_ADC_Get_Updata_Flag (adcs a) = 1 then do {
        (k, buf, x) \<leftarrow> rt_device_read (adc_ops vref30 vref110) (adc_dev D) 1
                        [Degrees (TemperInAir (ADC_TemperOut (dev (mbs a))))] 1 (adcs a);
        cell \<leftarrow> rd buf 0;
        let t = (case cell of Degrees t \<Rightarrow> t | Sample v \<Rightarrow> TemperInAir (ADC_TemperOut (dev (mbs a))));
        let s = mbs a;
        let s = s\<lparr>dev := (dev s)\<lparr>ADC_TemperOut := (ADC_TemperOut (dev s))\<lparr>TemperInAir := t\<rparr>\<rparr>\<rparr>;
        Some (a\<lparr>mbs := s, adcs := Sensor_ADC_Clean_Updata_Flag x\<rparr>) }
      else Some a)"

text \<open>The start-up: the devices are registered (\<open>INIT_DEVICE_EXPORT\<close>), then \<open>modbus_init\<close> runs
  (\<open>INIT_COMPONENT_EXPORT\<close>), then the main thread and the ADC thread open the devices that they
  use.\<close>

definition rtt_start :: "'c hal_spi \<Rightarrow> u16 \<Rightarrow> u16 \<Rightarrow> 'c app \<Rightarrow> (rt_devs \<times> 'c app) option" where
  "rtt_start S vref30 vref110 a = do {
     (a, adc) \<leftarrow> adc_device_init a;
     (a, pcap) \<leftarrow> pcap_device_init a;
     (D, a) \<leftarrow> modbus_init S vref30 vref110 \<lparr>pcap_dev = pcap, adc_dev = adc, dac_dev = dac_device_init\<rparr> a;
     let (D, a) = main_thread_open S D a;
     Some (adc_thread_open vref30 vref110 D a) }"

lemmas device_opens = pcap_drv.first_open adc_drv.first_open dac_drv.first_open
  pcap_drv.second_open adc_drv.second_open

section \<open>Single transfers\<close>

lemma pcap_read_one:
  "pcap_read S 1 [x] 1 c =
     (case Sensor_PCap_GetResult S 1 x c of (r, v, c) \<Rightarrow> Some (if r = OP_SUCCESS then 1 else 0, [v], c))"
proof -
  obtain r v c' where g: "Sensor_PCap_GetResult S 1 0 c = (r, v, c')" by (metis prod_cases3)
  have x: "Sensor_PCap_GetResult S 1 x c = (r, if r = OP_SUCCESS then v else x, c')"
    using g by (auto simp: Sensor_PCap_GetResult_def Let_def split: prod.splits if_splits)
  show ?thesis
    by (simp add: pcap_read_def pcap_read_loop.simps [of S 1 1 1] pcap_read_loop.simps [of S 1 1 2] g x)
qed

lemma dac_write_one: "stm32_dac_write 1 [v] 1 d = Some (1, snd (BSP_DAC_Convert v DA_CHANNEL_2 d))"
  by (simp add: stm32_dac_write_def dac_write_loop.simps [of 1 1 1] dac_write_loop.simps [of 1 1 2]
      word_le_nat_alt)

lemma pcap_opened_read: "rt_device_read (pcap_ops S) (opened pcap_flags) pos buf n c = pcap_read S pos buf n c"
  by (rule pcap_drv.opened_transfers) (simp add: pcap_ops_def)

lemma dac_opened_write: "rt_device_write dac_ops (opened dac_flags) pos buf n d = stm32_dac_write pos buf n d"
  by (rule dac_drv.opened_transfers) (simp add: dac_ops_def)

lemma adc_opened_read: "rt_device_read (adc_ops v30 v110) (opened adc_flags) pos buf n x = stm32_adc_read pos buf n x"
  by (rule adc_drv.opened_transfers) (simp add: adc_ops_def)

definition all_open :: "rt_devs \<Rightarrow> bool" where
  "all_open D \<longleftrightarrow> pcap_dev D = opened pcap_flags \<and> adc_dev D = opened adc_flags \<and> dac_dev D = opened dac_flags"

lemma value_same:
  "all_open D \<Longrightarrow> main_thread_value D v a = collect_value v a"
  by (simp add: main_thread_value_def collect_value_def all_open_def dac_opened_write dac_write_one
      cong: if_cong)

section \<open>The two variants of the program\<close>

text \<open>C18.  The measuring thread of the RT-Thread variant does what the bare-metal loop
  does when its measuring period is over: reading the converter through the device interface, filtering,
  converting and writing the analogue output leave the device in the same state, for every
  answer of the converter; and the ADC thread computes the temperature that the bare-metal loop
  computes.\<close>

theorem rtt_measures_as_bare_metal:
  assumes "all_open D" and "tick - PCap_Tick_Old a > 100"
  shows "loop_collect S tick tick' a =
           map_option (\<lambda>a'. a'\<lparr>PCap_Tick_Old := tick', pc := At_adc\<rparr>) (main_thread_round S D a) \<and>
         loop_adc a = map_option (\<lambda>a'. a'\<lparr>pc := At_event\<rparr>) (adc_thread_round v30 v110 D a)"
proof (rule conjI)
  obtain r v c where g: "Sensor_PCap_GetResult S 1 (PCap_ResultValue (PCap_DataConvert_Out (dev (mbs a)))) (pcap a)
      = (r, v, c)" by (metis prod_cases3)
  have d: "pcap_dev D = opened pcap_flags" using assms(1) by (simp add: all_open_def)
  show "loop_collect S tick tick' a =
      map_option (\<lambda>a'. a'\<lparr>PCap_Tick_Old := tick', pc := At_adc\<rparr>) (main_thread_round S D a)"
    using assms
    by (simp add: loop_collect_def main_thread_round_def d pcap_opened_read pcap_read_one g value_same
        Let_def) (cases "collect_value v (a\<lparr>mbs := upd_out (\<lambda>Out. Out\<lparr>PCap_ResultValue := v\<rparr>) (mbs a), pcap := c\<rparr>)"; simp)
  show "loop_adc a = map_option (\<lambda>a'. a'\<lparr>pc := At_event\<rparr>) (adc_thread_round v30 v110 D a)"
    using assms(1)
    by (simp add: loop_adc_def adc_thread_round_def all_open_def adc_opened_read stm32_adc_read_def Let_def)
      (simp split: bind_split)
qed

definition devs_open :: rt_devs where
  "devs_open = \<lparr>pcap_dev = opened pcap_flags, adc_dev = opened adc_flags, dac_dev = opened dac_flags\<rparr>"

theorem rtt_measures_as_bare_metal_witness:
  "loop_collect sim_pcap 200 201 app0
     = map_option (\<lambda>a'. a'\<lparr>PCap_Tick_Old := 201, pc := At_adc\<rparr>) (main_thread_round sim_pcap devs_open app0)"
  by (rule rtt_measures_as_bare_metal [THEN conjunct1]) (simp_all add: all_open_def devs_open_def app0_def)

text \<open>The devices after the start-up: each was opened by the first thread that asked, the later
  calls of \<open>rt_device_open\<close> were answered with \<open>RT_EBUSY\<close> and changed nothing.\<close>

lemma rtt_start_result:
  assumes "rtt_start S v30 v110 a = Some (D, a')"
  shows "all_open D" "pcap a' = PCap_Init S (pcap a)" "adcs a' = Sensor_ADC_Init v30 v110 (adcs a)"
  using assms
  by (auto simp: rtt_start_def adc_device_init_def pcap_device_init_def dac_device_init_def modbus_init_def
      main_thread_open_def adc_thread_open_def all_open_def bind_eq_Some_conv Let_def
      device_opens split: prod.splits)

lemma main_init_rtt_start:
  "main_init H S v30 v110 tick a =
     Option.bind (Check_Device_Param H (fls (mbs a))) (\<lambda>f.
       map_option (\<lambda>(D, a'). a'\<lparr>PCap_Tick_Old := tick, pc := At_modbus\<rparr>)
         (rtt_start S v30 v110 (a\<lparr>mbs := (mbs a)\<lparr>fls := f\<rparr>\<rparr>)))"
proof (cases "Check_Device_Param H (fls (mbs a))")
  case None
  then show ?thesis by (simp add: main_init_def Let_def)
next
  case (Some f)
  let ?T = "Sensor_ADC_TemperParam_Init f (ADC_TemperParam (dev (mbs a)))"
  let ?F = "DataFilterParam_Init f (DataFilter (dev (mbs a))) 10"
  let ?P = "DataConvertParam_Init f (PCap_DataConvert (dev (mbs a)))"
  let ?M = "ModBus_Init f (base (mbs a)) (port (mbs a))"
  show ?thesis
    by (cases ?T; cases ?F; cases ?P; cases ?M)
      (simp_all add: Some main_init_def rtt_start_def adc_device_init_def pcap_device_init_def
        modbus_init_def dac_device_init_def main_thread_open_def adc_thread_open_def device_opens
        Let_def split_beta)
qed

text \<open>C19.  The start-up of the RT-Thread variant is that of the bare-metal program
  without \<open>Check_Device_Param\<close>: after that check, \<open>main_init\<close> does to the device what the RT-Thread
  start-up does, in which every device ends up open and, although two threads open each of them, the
  converter and the ADC are initialised exactly once.\<close>

theorem rtt_starts_as_bare_metal:
  "main_init H S v30 v110 tick a =
     Option.bind (Check_Device_Param H (fls (mbs a))) (\<lambda>f.
       map_option (\<lambda>(D, a'). a'\<lparr>PCap_Tick_Old := tick, pc := At_modbus\<rparr>)
         (rtt_start S v30 v110 (a\<lparr>mbs := (mbs a)\<lparr>fls := f\<rparr>\<rparr>))) \<and>
   pred_option (\<lambda>(D, a'). all_open D \<and> pcap a' = PCap_Init S (pcap a) \<and> adcs a' = Sensor_ADC_Init v30 v110 (adcs a))
     (rtt_start S v30 v110 a)"
  using main_init_rtt_start [of H S v30 v110 tick a] rtt_start_result [of S v30 v110 a]
  by (cases "rtt_start S v30 v110 a") auto

section \<open>Larger transfers\<close>

text \<open>Reading two or more registers writes beyond the array of the caller: the second value goes
  four words further.\<close>

lemma pcap_read_overruns:
  assumes "Sensor_PCap_GetResult S 0 0 c = (OP_SUCCESS, v, c1)" "Sensor_PCap_GetResult S 1 0 c1 = (OP_SUCCESS, w, c2)"
    and "n = 2 \<or> n = 3 \<or> n = 4" "length buf = unat n"
  shows "pcap_read S 0 buf n c = None"
proof -
  have i: "(1 :: u32) < n" "0 < n" using assms(3) by (auto simp: word_less_nat_alt)
  have b: "0 < length buf" "length buf \<le> 4" using assms(3,4) by auto
  show ?thesis
    unfolding pcap_read_def
    using i b assms(1,2) by (simp add: pcap_read_loop.simps [of S 0 n 0] pcap_read_loop.simps [of S 0 n 1])
qed

text \<open>A write to both channels puts the first value on both.\<close>

lemma dac_write_repeats:
  "stm32_dac_write 0 [v, w] 2 d
     = Some (2, snd (BSP_DAC_Convert v DA_CHANNEL_2 (snd (BSP_DAC_Convert v DA_CHANNEL_1 d))))"
  by (simp add: stm32_dac_write_def dac_write_loop.simps [of 0 2 0] dac_write_loop.simps [of 0 2 1]
      dac_write_loop.simps [of 0 2 2] word_le_nat_alt)

end
