(* ===== verification/RttThreads.thy ===== *)
theory RttThreads
  imports ModbusHolding RttKernel
begin

text \<open>
  The RT-Thread variant of the sensor's program, its two Modbus threads: \<open>mb_hand\<close> serves the
  requests, \<open>mb_up\<close> sends the automatic upload (\<open>ModBusRtu.c\<close>, \<open>ModBus_Conf.c\<close>, \<open>usart_app.c\<close>, the
  branches for \<open>USING_RT_THREAD_OS\<close>).  They share the Modbus state \<open>mb\<close> with its send buffer and
  the serial port, and two semaphores: the receive interrupt releases \<open>usart_sem\<close>, the end of a transmission
  releases \<open>usart_tx_lock\<close>, which is taken before the next one.

  A thread is the point it has reached, \<open>rtt_pc\<close>, and \<open>thread_step\<close> executes the statements up to
  the next point: every call that may block and every access to the shared send buffer by
  \<open>mb_up\<close> is a point.  What \<open>mb_hand\<close> does between two of its points no other Modbus thread can
  interrupt, since it has the higher priority.  \<open>rtt_step\<close> interleaves the threads by priority
  with the interrupts, the timer of \<open>mb_up\<close> and the threads that measure (which may set the
  measured values to anything).
\<close>

section \<open>Requests up to their reply\<close>

text \<open>\<open>ModbusHandle\<close> up to the sending of the reply; \<open>True\<close> when there is one.\<close>

definition request_part :: "hal_flash \<Rightarrow> mb \<Rightarrow> (bool \<times> mb) option" where
  "request_part H s = do {
     (recv_len, rb) \<leftarrow> Sensor_USART_GetReceData (Receive_Buf (base s)) (port s);
     let s = s\<lparr>base := (base s)\<lparr>Receive_Buf := rb\<rparr>\<rparr>;
     let n = unat recv_len;
     if n < 2 then Some (False, s)
     else do {
       h \<leftarrow> rd rb (n - 1);
       l \<leftarrow> rd rb (n - 2);
       msg \<leftarrow> rdn rb 0 (n - 2);
       r0 \<leftarrow> rd rb 0;
       if be16 h l \<noteq> MDB_Get_CRC16 msg \<or> (Device_Addr (base s) \<noteq> r0 \<and> BROADCASTADDR \<noteq> r0)
       then Some (False, s)
       else do {
         fc \<leftarrow> rd rb 1;
         s \<leftarrow> modbus_switch H fc s;
         Some (True, s) } } }"

lemma ModbusHandle_split:
  "ModbusHandle H s = Option.bind (request_part H s) (\<lambda>(r, s). if r then finish_request s else Some s)"
proof (cases "Sensor_USART_GetReceData (Receive_Buf (base s)) (port s)")
  case None
  then show ?thesis by (simp add: ModbusHandle_def request_part_def)
next
  case (Some r)
  obtain n rb where "r = (n, rb)" by (cases r)
  then show ?thesis
    using Some
    by (simp add: ModbusHandle_def request_part_def Let_def split_beta
        if_distrib [of "\<lambda>x. Option.bind x _"] cong: if_cong)
qed

section \<open>Threads\<close>

datatype thread = HAND | UP

text \<open>\<open>MODBUS_HANDLE_THREAD_PRIORITY\<close> is 8 - 4, \<open>MODBUS_AUTOUPLOAD_THREAD_PRIORITY\<close> is 8 - 3; the
  smaller number is the higher priority.\<close>

fun current_priority :: "thread \<Rightarrow> nat" where
  "current_priority HAND = 4"
| "current_priority UP = 5"

text \<open>Why a thread takes \<open>TX_Lock\<close>: to send that many bytes (\<open>True\<close>: from the callback), to
  initialise the port again, to reset.\<close>

datatype purpose = Send u16 bool | ReInit | Reset

datatype rtt_pc =
    At_head | In_rx | At_flag | At_work
  | Up_start | Up_put1 "u8 list" | Up_put2 "u8 list"
  | At_crc u16 bool bool | At_tx u16 bool
  | At_take purpose | In_lock purpose | Own purpose
  | At_done | At_end | At_clear | Sleeping | Halted

record rtt =
  rmb :: mb
  usart_sem :: "thread rt_sem"
  usart_tx_lock :: "thread rt_sem"
  pcs :: "thread \<Rightarrow> rtt_pc"

abbreviation (input) "on_rmb g s \<equiv> s\<lparr>rmb := g (rmb s)\<rparr>"
abbreviation (input) "on_rport g s \<equiv> s\<lparr>rmb := (rmb s)\<lparr>port := g (port (rmb s))\<rparr>\<rparr>"
abbreviation (input) "goto t p s \<equiv> s\<lparr>pcs := (pcs s)(t := p)\<rparr>"

text \<open>\<open>stm32_usart_sem_init\<close>.\<close>

definition stm32_usart_sem_init :: "thread rt_sem \<times> thread rt_sem" where
  "stm32_usart_sem_init = (rt_sem_init 0 RT_IPC_FLAG_FIFO, rt_sem_init 1 RT_IPC_FLAG_FIFO)"

fun resumed :: "rtt_pc \<Rightarrow> rtt_pc" where
  "resumed (In_lock p) = Own p"
| "resumed In_rx = At_flag"
| "resumed p = p"

definition resume :: "thread option \<Rightarrow> rtt \<Rightarrow> rtt" where
  "resume r s = (case r of None \<Rightarrow> s | Some t \<Rightarrow> goto t (resumed (pcs s t)) s)"

definition take_lock :: "thread \<Rightarrow> purpose \<Rightarrow> rtt \<Rightarrow> rtt" where
  "take_lock t p s =
     (case rt_sem_take current_priority t (usart_tx_lock s) (- 1) of (r, l) \<Rightarrow>
        goto t (if r = Taken then Own p else In_lock p) (s\<lparr>usart_tx_lock := l\<rparr>))"

definition release_lock :: "rtt \<Rightarrow> rtt" where
  "release_lock s =
     (case rt_sem_release (usart_tx_lock s) of (r, l) \<Rightarrow> resume r (s\<lparr>usart_tx_lock := l\<rparr>))"

text \<open>The wait at the head of \<open>modbus_handle_thread_entry\<close>, in \<open>Sensor_USART_Get_RX_Updata_Flag\<close>.\<close>

definition take_rx :: "rtt \<Rightarrow> rtt" where
  "take_rx s =
     (case rt_sem_take current_priority HAND (usart_sem s) (- 1) of (r, l) \<Rightarrow>
        goto HAND (if r = Taken then At_flag else In_rx) (s\<lparr>usart_sem := l\<rparr>))"

text \<open>\<open>MDB_Snd_Msg_RTU\<close> up to the call of \<open>Send_Data\<close>; \<open>None\<close> as the second component: it returns
  without sending.\<close>

definition snd_prepare :: "u16 \<Rightarrow> bool \<Rightarrow> mb \<Rightarrow> (mb \<times> u16 option) option" where
  "snd_prepare len Check_Addr s =
     (let pMsg = Send_Buf (base s) in
      if len = 0 \<or> SEND_SIZE - 2 < unat len then Some (s, None)
      else do {
        addr \<leftarrow> rd pMsg 0;
        if addr = BROADCASTADDR \<and> Check_Addr then Some (s, None)
        else if Freeze (base s) \<noteq> FREEZE_DISABLE then Some (s, None)
        else do {
          msg \<leftarrow> rdn pMsg 0 (unat len);
          let uiCRC = MDB_Get_CRC16 msg;
          pMsg \<leftarrow> wr pMsg (unat len) (lo8 uiCRC);
          pMsg \<leftarrow> wr pMsg (unat len + 1) (hi8 uiCRC);
          Some (s\<lparr>base := (base s)\<lparr>Send_Buf := pMsg\<rparr>\<rparr>, Some (len + 2)) } })"

definition after_send :: "thread \<Rightarrow> bool \<Rightarrow> rtt_pc" where
  "after_send t cb = (if cb then At_end else At_done)"

text \<open>The end of \<open>ModbusHandle\<close>: the callback that the handler has left.  \<open>mb_up\<close> goes to sleep.\<close>

definition done_step :: "thread \<Rightarrow> rtt \<Rightarrow> rtt" where
  "done_step t s =
     (case t of
        UP \<Rightarrow> goto UP Sleeping s
      | HAND \<Rightarrow>
          (case ModBus_CallBack (base (rmb s)) of
             None \<Rightarrow> goto HAND At_clear s
           | Some MB_USART_ReInit \<Rightarrow> goto HAND (At_take ReInit) s
           | Some MB_Freeze \<Rightarrow>
               goto HAND At_end (on_rmb (\<lambda>m. m\<lparr>base := (base m)\<lparr>Freeze := FREEZE_ENABLE\<rparr>\<rparr>) s)
           | Some MB_System_Reset \<Rightarrow> goto HAND (At_take Reset) s
           | Some MB_SendData_NoCheck \<Rightarrow> goto HAND (At_crc (Send_Len (base (rmb s))) False True) s))"

text \<open>A thread that owns \<open>TX_Lock\<close>: the transmission is started, which leaves the release to the
  interrupt at its end; or the port is initialised and the lock released; or the system reset.
  The event of a transmission records what the shared send buffer holds and whether the driver of
  the line is on at its start.  The buffer may by then have been overwritten by the other thread,
  and may still be while the DMA controller reads it.\<close>

definition own_step :: "thread \<Rightarrow> purpose \<Rightarrow> rtt \<Rightarrow> rtt option" where
  "own_step t p s =
     (case p of
        Send n cb \<Rightarrow> do {
          (r, u) \<leftarrow> BSP_UART_Transmit_DMA (Send_Buf (base (rmb s))) n (port (rmb s));
          Some (goto t (after_send t cb) (on_rport (\<lambda>_. u) s)) }
      | ReInit \<Rightarrow>
          (let b = base (rmb s);
               s = on_rport (Sensor_USART_Init (BaudRate b) (Parity b)) s
           in Some (goto t At_end (release_lock s)))
      | Reset \<Rightarrow> Some (goto t Halted (on_rport (\<lambda>u. u\<lparr>trace := trace u @ [EvReset]\<rparr>) s)))"

definition upload_start :: "mb \<Rightarrow> (mb \<times> u32) option" where
  "upload_start s = do {
     let b = base s;
     sb \<leftarrow> wr (Send_Buf b) 0 (Device_Addr b);
     sb \<leftarrow> wr sb 1 0x04;
     sb \<leftarrow> wr sb 2 0x08;
     Some (s\<lparr>base := b\<lparr>Send_Buf := sb, Send_Len := 3\<rparr>\<rparr>,
           f32_bits (f_of_int (uint (LiquidHeightAD (PCap_DataConvert_Out (dev s)))))) }"

definition be_bytes :: "u32 \<Rightarrow> u8 list" where
  "be_bytes v = [byte_of 3 v, byte_of 2 v, byte_of 1 v, byte_of 0 v]"

definition put_step :: "u8 \<Rightarrow> mb \<Rightarrow> mb option" where
  "put_step v s = do { b \<leftarrow> mb_put v (base s); Some (s\<lparr>base := b\<rparr>) }"

text \<open>One step of a thread from the point it is at.\<close>

fun thread_step :: "hal_flash \<Rightarrow> thread \<Rightarrow> rtt_pc \<Rightarrow> rtt \<Rightarrow> rtt option" where
  "thread_step H HAND At_head s = Some (take_rx s)"
| "thread_step H UP At_head s =
     Some (goto UP (if AutoUpload (base (rmb s)) \<noteq> 0 then Up_start else Sleeping) s)"
| "thread_step H t At_flag s =
     Some (goto t (if RX_Updata_Flag (port (rmb s)) \<noteq> 0 then At_work else At_head) s)"
| "thread_step H t At_work s = do {
     (r, m) \<leftarrow> request_part H (rmb s);
     Some (goto t (if r then At_crc (Send_Len (base m)) True False else At_clear) (s\<lparr>rmb := m\<rparr>)) }"
| "thread_step H t Up_start s = do {
     (m, v) \<leftarrow> upload_start (rmb s);
     Some (goto t (Up_put1 (be_bytes v)) (s\<lparr>rmb := m\<rparr>)) }"
| "thread_step H t (Up_put1 (v # vs)) s = do {
     m \<leftarrow> put_step v (rmb s);
     Some (goto t (Up_put1 vs) (s\<lparr>rmb := m\<rparr>)) }"
| "thread_step H t (Up_put1 []) s =
     Some (goto t (Up_put2 (be_bytes (f32_bits (TemperInAir (ADC_TemperOut (dev (rmb s)))))))
       (on_rmb (\<lambda>m. m\<lparr>base := (base m)\<lparr>Send_Len := 7\<rparr>\<rparr>) s))"
| "thread_step H t (Up_put2 (v # vs)) s = do {
     m \<leftarrow> put_step v (rmb s);
     Some (goto t (Up_put2 vs) (s\<lparr>rmb := m\<rparr>)) }"
| "thread_step H t (Up_put2 []) s = Some (goto t (At_crc (Send_Len (base (rmb s))) False False) s)"
| "thread_step H t (At_crc len chk cb) s = do {
     (m, r) \<leftarrow> snd_prepare len chk (rmb s);
     Some (goto t (case r of None \<Rightarrow> after_send t cb | Some n \<Rightarrow> At_tx n cb) (s\<lparr>rmb := m\<rparr>)) }"
| "thread_step H t (At_tx n cb) s = Some (goto t (At_take (Send n cb)) (on_rport (\<lambda>u. TX_ON u) s))"
| "thread_step H t (At_take p) s = Some (take_lock t p s)"
| "thread_step H t (Own p) s = own_step t p s"
| "thread_step H t At_done s = Some (done_step t s)"
| "thread_step H t At_end s =
     Some (goto t At_clear (on_rmb (\<lambda>m. m\<lparr>base := (base m)\<lparr>ModBus_CallBack := None\<rparr>\<rparr>) s))"
| "thread_step H t At_clear s = Some (goto t At_head (on_rport Sensor_USART_Clear_RX_Updata_Flag s))"
| "thread_step H t p s = None"

fun runnable :: "rtt_pc \<Rightarrow> bool" where
  "runnable In_rx = False"
| "runnable (In_lock p) = False"
| "runnable Sleeping = False"
| "runnable Halted = False"
| "runnable p = True"

text \<open>The interrupts: the line falls silent after a frame, a transmission has ended.\<close>

definition rtt_rx_end :: "rtt \<Rightarrow> rtt" where
  "rtt_rx_end s =
     (let s = on_rport rx_timeout s in
      case rt_sem_release (usart_sem s) of (r, l) \<Rightarrow> resume r (s\<lparr>usart_sem := l\<rparr>))"

definition rtt_tx_end :: "rtt \<Rightarrow> rtt" where
  "rtt_tx_end s = release_lock (on_rport tx_complete s)"

inductive rtt_step :: "hal_flash \<Rightarrow> rtt \<Rightarrow> rtt \<Rightarrow> bool" for H where
  hand: "runnable (pcs s HAND) \<Longrightarrow> thread_step H HAND (pcs s HAND) s = Some s' \<Longrightarrow> rtt_step H s s'"
| up: "runnable (pcs s UP) \<Longrightarrow> \<not> runnable (pcs s HAND) \<Longrightarrow> pcs s HAND \<noteq> Halted
       \<Longrightarrow> thread_step H UP (pcs s UP) s = Some s' \<Longrightarrow> rtt_step H s s'"
| rx_byte: "pcs s HAND \<noteq> Halted \<Longrightarrow> rtt_step H s (on_rport (dma_rx b) s)"
| rx_end: "pcs s HAND \<noteq> Halted \<Longrightarrow> rtt_step H s (rtt_rx_end s)"
| tx_end: "pcs s HAND \<noteq> Halted \<Longrightarrow> \<not> gState_READY (port (rmb s)) \<Longrightarrow> rtt_step H s (rtt_tx_end s)"
| wake: "pcs s HAND \<noteq> Halted \<Longrightarrow> pcs s UP = Sleeping \<Longrightarrow> rtt_step H s (goto UP At_head s)"
| measured: "pcs s HAND \<noteq> Halted \<Longrightarrow> rtt_step H s (on_rmb (\<lambda>m. m\<lparr>dev := d\<rparr>) s)"

inductive_cases rtt_stepE: "rtt_step H s s'"

text \<open>The threads when \<open>modbus_init\<close> has started them.\<close>

definition rtt_init :: "mb \<Rightarrow> rtt" where
  "rtt_init m = \<lparr>rmb = m, usart_sem = fst stm32_usart_sem_init, usart_tx_lock = snd stm32_usart_sem_init,
                 pcs = (\<lambda>_. At_head)\<rparr>"

section \<open>The pieces compose to the functions of the bare-metal program\<close>

lemma MDB_Snd_split:
  "MDB_Snd_Msg_RTU len chk s =
     Option.bind (snd_prepare len chk s) (\<lambda>(m, r).
       case r of None \<Rightarrow> Some m
       | Some n \<Rightarrow> Option.bind (Send_Data (Send_Buf (base m)) n (port m)) (\<lambda>u. Some (m\<lparr>port := u\<rparr>)))"
  by (simp add: MDB_Snd_Msg_RTU_def snd_prepare_def Let_def if_distrib [of "\<lambda>x. Option.bind x _"] cong: if_cong)

definition put_all :: "u8 list \<Rightarrow> mb \<Rightarrow> mb option" where
  "put_all vs s = fold (\<lambda>v r. Option.bind r (put_step v)) vs (Some s)"

lemma ModbusAutoUpload_split:
  "ModbusAutoUpload s =
     Option.bind (upload_start s) (\<lambda>(s, v).
     Option.bind (put_all (be_bytes v) s) (\<lambda>s.
     Option.bind (put_all (be_bytes (f32_bits (TemperInAir (ADC_TemperOut (dev s)))))
                    (s\<lparr>base := (base s)\<lparr>Send_Len := 7\<rparr>\<rparr>)) (\<lambda>s.
     MDB_Snd_Msg_RTU (Send_Len (base s)) False s)))"
  by (simp add: ModbusAutoUpload_def upload_start_def put_all_def be_bytes_def put_step_def mb_put32_def Let_def)

section \<open>Who has the right to transmit\<close>

fun owns :: "rtt_pc \<Rightarrow> bool" where
  "owns (Own p) = True"
| "owns Halted = True"
| "owns p = False"

fun waits :: "rtt_pc \<Rightarrow> bool" where
  "waits (In_lock p) = True"
| "waits p = False"

text \<open>There is one right to transmit: in the semaphore, with a transmission that runs, or with a thread.\<close>

definition tokens :: "rtt \<Rightarrow> nat" where
  "tokens s = unat (sem_value (usart_tx_lock s)) + of_bool (\<not> gState_READY (port (rmb s)))
     + of_bool (owns (pcs s HAND)) + of_bool (owns (pcs s UP))"

definition queue_inv :: "rtt \<Rightarrow> bool" where
  "queue_inv s \<longleftrightarrow> sem_flag (usart_tx_lock s) = RT_IPC_FLAG_FIFO \<and> distinct (suspend_thread (usart_tx_lock s))
     \<and> (\<forall>t. t \<in> set (suspend_thread (usart_tx_lock s)) \<longleftrightarrow> waits (pcs s t))
     \<and> (suspend_thread (usart_tx_lock s) \<noteq> [] \<longrightarrow> sem_value (usart_tx_lock s) = 0)"

definition rx_inv :: "rtt \<Rightarrow> bool" where
  "rx_inv s \<longleftrightarrow> sem_flag (usart_sem s) = RT_IPC_FLAG_FIFO \<and> pcs s UP \<noteq> In_rx
     \<and> suspend_thread (usart_sem s) = (if pcs s HAND = In_rx then [HAND] else [])"

definition len_ok :: "u16 \<Rightarrow> bool" where
  "len_ok n \<longleftrightarrow> n \<noteq> 0 \<and> unat n \<le> SEND_SIZE"

fun pc_ok :: "rtt_pc \<Rightarrow> bool" where
  "pc_ok (At_tx n cb) = len_ok n"
| "pc_ok (At_take (Send n cb)) = len_ok n"
| "pc_ok (In_lock (Send n cb)) = len_ok n"
| "pc_ok (Own (Send n cb)) = len_ok n"
| "pc_ok p = True"

definition shape_inv :: "rtt \<Rightarrow> bool" where
  "shape_inv s \<longleftrightarrow> bufs_ok (base (rmb s)) \<and> \<not> TCIE (hw (port (rmb s))) \<and> (\<forall>t. pc_ok (pcs s t))"

definition rtt_inv :: "rtt \<Rightarrow> bool" where
  "rtt_inv s \<longleftrightarrow> tokens s = 1 \<and> queue_inv s \<and> rx_inv s \<and> shape_inv s"

lemmas inv_defs = rtt_inv_def tokens_def queue_inv_def rx_inv_def shape_inv_def

text \<open>The port's fields that matter here, under the operations of the port.\<close>

lemma port_rx_end:
  assumes "\<not> TCIE (hw u)"
  shows "gState_READY (rx_timeout u) = gState_READY u" "\<not> TCIE (hw (rx_timeout u))"
  using assms
  by (simp_all add: rx_timeout_def USARTx_IRQHandler_def HAL_UART_RxTimoCallback_def
      HAL_UART_CMatchCallback_def HAL_UART_TxCpltCallback_def clear_error_flags_def Let_def)

lemma port_rx_byte: "gState_READY (dma_rx b u) = gState_READY u" "hw (dma_rx b u) = hw u"
  by (simp_all add: dma_rx_def HAL_UART_RxCpltCallback_def Let_def)

lemma port_tx_end: "gState_READY (tx_complete u)" "\<not> TCIE (hw (tx_complete u))"
  by (simp_all add: tx_complete_def USARTx_IRQHandler_def HAL_UART_RxTimoCallback_def
      HAL_UART_CMatchCallback_def HAL_UART_TxCpltCallback_def clear_error_flags_def Let_def)

lemma port_init:
  "gState_READY (Sensor_USART_Init b p u)" "TCIE (hw (Sensor_USART_Init b p u)) = TCIE (hw u)"
  by (simp_all add: Sensor_USART_Init_def BSP_USART_UART_Init_def RS485_RE_DE_GPIO_Init_def
      BSP_UART_ReceiverTimeout_Config_def BSP_UART_Receive_DMA_def Let_def)

lemma transmit_starts:
  assumes "gState_READY u" "len_ok n" "length buf = SEND_SIZE"
  shows "BSP_UART_Transmit_DMA buf n u = Some (0, u\<lparr>gState_READY := False,
           trace := trace u @ [EvTx (RE_DE_pin u) (take (unat n) buf)]\<rparr>)"
  using assms by (auto simp: BSP_UART_Transmit_DMA_def len_ok_def word_unat_eq_iff)

text \<open>The semaphore operations keep the right to transmit.\<close>

lemma FIFO_suspend: "rt_ipc_list_suspend prio t RT_IPC_FLAG_FIFO xs = xs @ [t]"
  by (simp add: rt_ipc_list_suspend_def)

lemma thread_cases: "(\<forall>t. P t) \<longleftrightarrow> P HAND \<and> P UP"
  by (metis thread.exhaust)

lemma unat_minus_1: "0 < (w :: u16) \<Longrightarrow> unat (w - 1) = unat w - 1"
  by (simp add: unat_minus_one word_gt_0)

lemma take_lock_tokens:
  assumes "queue_inv s" "\<not> waits (pcs s t)" "\<not> owns (pcs s t)"
  shows "tokens (take_lock t p s) = tokens s" "queue_inv (take_lock t p s)"
  using assms
  by (cases t; cases "0 < sem_value (usart_tx_lock s)";
      auto simp: take_lock_def rt_sem_take_def tokens_def queue_inv_def FIFO_suspend unat_minus_1
        unat_gt_0 word_gt_0 thread_cases)+

lemma resumed_waits: "waits p \<Longrightarrow> owns (resumed p) \<and> \<not> waits (resumed p)"
  by (cases p) auto

lemma release_lock_tokens:
  assumes "queue_inv s" "tokens s = 0"
  shows "tokens (release_lock s) = 1" "queue_inv (release_lock s)"
proof -
  have v: "sem_value (usart_tx_lock s) = 0" using assms(2) by (auto simp: tokens_def unat_eq_0)
  have "tokens (release_lock s) = 1 \<and> queue_inv (release_lock s)"
  proof (cases "suspend_thread (usart_tx_lock s)")
    case Nil
    then show ?thesis
      using assms v by (auto simp: release_lock_def rt_sem_release_def resume_def tokens_def queue_inv_def)
  next
    case (Cons t ts)
    then have w: "waits (pcs s t)" "t \<notin> set ts" using assms(1) by (auto simp: queue_inv_def)
    have w': "owns (resumed (pcs s t))" "\<not> waits (resumed (pcs s t))" using resumed_waits [OF w(1)] by auto
    show ?thesis
      using Cons assms v w w'
      by (cases t) (auto simp: release_lock_def rt_sem_release_def resume_def tokens_def queue_inv_def thread_cases)
  qed
  then show "tokens (release_lock s) = 1" "queue_inv (release_lock s)" by auto
qed

text \<open>A step that moves one thread between points without the lock.\<close>

lemma move_inv:
  assumes "rtt_inv s" "\<not> owns (pcs s t)" "\<not> waits (pcs s t)" "pcs s t \<noteq> In_rx"
    and "\<not> owns q" "\<not> waits q" "q \<noteq> In_rx" "pc_ok q"
    and "gState_READY (port m) = gState_READY (port (rmb s))" "\<not> TCIE (hw (port m))" "bufs_ok (base m)"
  shows "rtt_inv (goto t q (s\<lparr>rmb := m\<rparr>))"
  using assms by (cases t) (auto simp: inv_defs thread_cases)

lemma take_lock_frame:
  "rmb (take_lock t p s) = rmb s" "usart_sem (take_lock t p s) = usart_sem s"
  "pcs (take_lock t p s) = (pcs s)(t := if 0 < sem_value (usart_tx_lock s) then Own p else In_lock p)"
  by (simp_all add: take_lock_def rt_sem_take_def)

lemma pc_ok_lock: "pc_ok (At_take p) \<Longrightarrow> pc_ok (Own p) \<and> pc_ok (In_lock p)"
  by (cases p) auto

lemma take_lock_inv:
  assumes "rtt_inv s" "pcs s t = At_take p"
  shows "rtt_inv (take_lock t p s)"
proof -
  have q: "queue_inv s" "tokens s = 1" "rx_inv s" "shape_inv s" using assms(1) by (simp_all add: rtt_inv_def)
  have "pc_ok (At_take p)" using q(4) assms(2) unfolding shape_inv_def by metis
  note ok = pc_ok_lock [OF this]
  have "rx_inv (take_lock t p s)"
    using q(3) assms(2) by (cases t) (auto simp: rx_inv_def take_lock_frame)
  moreover have "shape_inv (take_lock t p s)"
    using q(4) ok by (auto simp: shape_inv_def take_lock_frame)
  ultimately show ?thesis
    using take_lock_tokens [OF q(1), of t p] q(2) assms(2) by (simp add: rtt_inv_def)
qed

lemma pc_ok_resumed: "pc_ok p \<Longrightarrow> pc_ok (resumed p)"
  by (cases p rule: resumed.cases) (auto elim: pc_ok.elims)

lemma release_frame:
  assumes "queue_inv s"
  shows "rmb (release_lock s) = rmb s" "usart_sem (release_lock s) = usart_sem s"
    "pcs (release_lock s) t \<noteq> pcs s t \<Longrightarrow> waits (pcs s t) \<and> pcs (release_lock s) t = resumed (pcs s t)"
  using assms
  by (auto simp: release_lock_def rt_sem_release_def resume_def queue_inv_def split: list.splits if_splits)

lemma release_lock_inv:
  assumes "queue_inv s" "tokens s = 0" "rx_inv s" "shape_inv s"
  shows "rtt_inv (release_lock s)"
proof -
  note fr = release_frame [OF assms(1)]
  have pc: "pcs (release_lock s) t = pcs s t \<or> waits (pcs s t) \<and> pcs (release_lock s) t = resumed (pcs s t)" for t
    using fr(3) by blast
  have rx: "pcs (release_lock s) t = In_rx \<longleftrightarrow> pcs s t = In_rx" for t
    using pc [of t] resumed_waits [of "pcs s t"] by auto
  have ok: "pc_ok (pcs (release_lock s) t)" for t
    using pc [of t] assms(4) pc_ok_resumed [of "pcs s t"] by (auto simp: shape_inv_def)
  show ?thesis
    using release_lock_tokens [OF assms(1,2)] assms(3,4) rx ok
    by (simp add: rtt_inv_def rx_inv_def shape_inv_def fr(1,2))
qed

lemma take_rx_inv:
  assumes "rtt_inv s" "pcs s HAND = At_head"
  shows "rtt_inv (take_rx s)"
  using assms
  by (cases "0 < sem_value (usart_sem s)")
     (auto simp: take_rx_def rt_sem_take_def inv_defs FIFO_suspend thread_cases)

lemma rx_end_inv:
  assumes "rtt_inv s"
  shows "rtt_inv (rtt_rx_end s)"
proof -
  have u: "gState_READY (rx_timeout (port (rmb s))) = gState_READY (port (rmb s))"
    "\<not> TCIE (hw (rx_timeout (port (rmb s))))"
    using port_rx_end [of "port (rmb s)"] assms by (simp_all add: rtt_inv_def shape_inv_def)
  show ?thesis
    using assms u
    by (cases "pcs s HAND = In_rx")
       (auto simp: rtt_rx_end_def rt_sem_release_def resume_def inv_defs thread_cases Let_def)
qed

lemma tx_end_inv:
  assumes "rtt_inv s" "\<not> gState_READY (port (rmb s))"
  shows "rtt_inv (rtt_tx_end s)"
  unfolding rtt_tx_end_def
  by (rule release_lock_inv) (use assms in \<open>auto simp: inv_defs port_tx_end\<close>)

text \<open>The steps of the threads.\<close>

context flash_hal
begin

lemma request_part_keeps:
  assumes "request_part H s = Some (r, s')" "bufs_ok (base s)"
  shows "port s' = port s" "bufs_ok (base s')"
proof -
  have "port s' = port s \<and> bufs_ok (base s')"
  proof (cases "Sensor_USART_GetReceData (Receive_Buf (base s)) (port s)")
    case None
    then show ?thesis using assms(1) by (simp add: request_part_def)
  next
    case (Some x)
    obtain n rb where x: "x = (n, rb)" by (cases x)
    let ?s = "s\<lparr>base := (base s)\<lparr>Receive_Buf := rb\<rparr>\<rparr>"
    have "length rb = length (Receive_Buf (base s))"
      using Some x
      by (auto simp: Sensor_USART_GetReceData_def Let_def bind_eq_Some_conv split: if_splits dest!: wrn_length)
    then have ok: "bufs_ok (base ?s)" using assms(2) by (simp add: bufs_ok_def)
    show ?thesis
      using assms(1) Some x ok switch_handled(1) [OF ok]
      by (auto simp: request_part_def Let_def bind_eq_Some_conv handled_def split: if_splits)
  qed
  then show "port s' = port s" "bufs_ok (base s')" by auto
qed

end

lemma upload_start_keeps:
  "upload_start s = Some (m, v) \<Longrightarrow> bufs_ok (base s) \<Longrightarrow> port m = port s \<and> bufs_ok (base m)"
  by (auto simp: upload_start_def bind_eq_Some_conv bufs_ok_def Let_def dest!: wr_length)

lemma put_step_keeps:
  "put_step v s = Some m \<Longrightarrow> bufs_ok (base s) \<Longrightarrow> port m = port s \<and> bufs_ok (base m)"
  by (auto simp: put_step_def mb_put_def bind_eq_Some_conv bufs_ok_def dest!: wr_length)

lemma snd_prepare_keeps:
  assumes "snd_prepare len chk s = Some (m, r)" "bufs_ok (base s)"
  shows "port m = port s" "bufs_ok (base m)" "r = Some n \<Longrightarrow> len_ok n"
proof -
  have l: "\<not> (len = 0 \<or> 30 < unat len) \<Longrightarrow> len_ok (len + 2)"
    by (auto simp: len_ok_def unat_word_ariths word_unat_eq_iff)
  show "port m = port s" "bufs_ok (base m)" "r = Some n \<Longrightarrow> len_ok n"
    using assms l
    by (auto simp: snd_prepare_def bind_eq_Some_conv bufs_ok_def Let_def split: if_splits dest!: wr_length)
qed

lemma pc_ok_at: "rtt_inv s \<Longrightarrow> pc_ok (pcs s t)"
  by (simp add: inv_defs)

lemma owner_ready:
  assumes "rtt_inv s" "owns (pcs s t)"
  shows "gState_READY (port (rmb s))" "sem_value (usart_tx_lock s) = 0" "u \<noteq> t \<Longrightarrow> \<not> owns (pcs s u)"
proof -
  have v: "gState_READY (port (rmb s)) \<and> unat (sem_value (usart_tx_lock s)) = 0 \<and> (u \<noteq> t \<longrightarrow> \<not> owns (pcs s u))"
    using assms by (cases t; cases u) (auto simp: inv_defs split: if_splits)
  then show "gState_READY (port (rmb s))" "sem_value (usart_tx_lock s) = 0" "u \<noteq> t \<Longrightarrow> \<not> owns (pcs s u)"
    by (auto simp: unat_eq_0)
qed

lemma release_goto:
  assumes "queue_inv s" "\<not> waits (pcs s t)"
  shows "goto t q (release_lock s) = release_lock (goto t q s)"
proof (cases "suspend_thread (usart_tx_lock s)")
  case (Cons u us)
  then have "u \<noteq> t" using assms by (auto simp: queue_inv_def)
  then show ?thesis
    using Cons by (simp add: release_lock_def rt_sem_release_def resume_def fun_upd_twist)
qed (simp add: release_lock_def rt_sem_release_def resume_def)

text \<open>The owner of the right starts a transmission and gives it away.\<close>

lemma start_inv:
  assumes "rtt_inv s" "owns (pcs s t)"
    and "\<not> gState_READY (port m)" "\<not> TCIE (hw (port m))" "bufs_ok (base m)" "q = At_done \<or> q = At_end"
  shows "rtt_inv (s\<lparr>rmb := m, pcs := (pcs s)(t := q)\<rparr>)"
proof -
  let ?s = "s\<lparr>rmb := m, pcs := (pcs s)(t := q)\<rparr>"
  have q: "\<not> owns q" "\<not> waits q" "q \<noteq> In_rx" "pc_ok q" using assms(6) by auto
  have o: "pcs s t \<noteq> In_rx" "\<not> waits (pcs s t)" using assms(2) by (cases "pcs s t"; simp)+
  have "tokens ?s = 1"
    using owner_ready [OF assms(1,2)] assms(2,3) q(1) by (cases t) (auto simp: tokens_def)
  moreover have "queue_inv ?s" using assms(1) q(2) o(2) by (auto simp: rtt_inv_def queue_inv_def)
  moreover have "rx_inv ?s" using assms(1) q(3) o(1) by (cases t) (auto simp: rtt_inv_def rx_inv_def)
  moreover have "shape_inv ?s" using assms(1,4,5) q(4) by (simp add: rtt_inv_def shape_inv_def)
  ultimately show ?thesis by (simp add: rtt_inv_def)
qed

lemma own_step_inv:
  assumes "rtt_inv s" "pcs s t = Own p" "own_step t p s = Some s'"
  shows "rtt_inv s'"
proof -
  have o: "owns (pcs s t)" using assms(2) by simp
  note rd = owner_ready [OF assms(1) o]
  show ?thesis
  proof (cases p)
    case (Send n cb)
    have n: "len_ok n" "length (Send_Buf (base (rmb s))) = SEND_SIZE"
      using pc_ok_at [OF assms(1), of t] assms(1,2) Send by (simp_all add: inv_defs bufs_ok_def)
    then show ?thesis
      using assms(2,3) start_inv [OF assms(1) o, of _ "after_send t cb"] transmit_starts [OF rd(1) n] Send
        assms(1) by (auto simp: own_step_def after_send_def shape_inv_def rtt_inv_def)
  next
    case ReInit
    let ?b = "base (rmb s)"
    let ?t = "on_rport (Sensor_USART_Init (BaudRate ?b) (Parity ?b)) s"
    let ?s = "goto t At_end ?t"
    have q: "queue_inv ?t" using assms(1) by (simp add: rtt_inv_def queue_inv_def)
    have w: "\<not> waits (pcs ?t t)" using assms(2) by simp
    have s': "s' = release_lock ?s"
      using release_goto [OF q w, of At_end] assms(3) ReInit by (simp add: own_step_def Let_def)
    have "tokens ?s = 0" using rd o by (cases t) (auto simp: tokens_def port_init inv_defs unat_eq_0)
    moreover have "queue_inv ?s" using q w by (simp add: queue_inv_def)
    moreover have "rx_inv ?s" using assms(1,2) by (cases t) (auto simp: rtt_inv_def rx_inv_def)
    moreover have "shape_inv ?s" using assms(1) by (simp add: rtt_inv_def shape_inv_def port_init)
    ultimately show ?thesis unfolding s' by (intro release_lock_inv)
  next
    case Reset
    let ?s = "goto t Halted (on_rport (\<lambda>u. u\<lparr>trace := trace u @ [EvReset]\<rparr>) s)"
    have s': "s' = ?s" using assms(3) Reset by (simp add: own_step_def)
    have "tokens ?s = 1" using rd o by (cases t) (auto simp: tokens_def)
    moreover have "queue_inv ?s" using assms(1,2) by (simp add: rtt_inv_def queue_inv_def)
    moreover have "rx_inv ?s" using assms(1,2) by (cases t) (auto simp: rtt_inv_def rx_inv_def)
    moreover have "shape_inv ?s" using assms(1) by (simp add: rtt_inv_def shape_inv_def)
    ultimately show ?thesis unfolding s' by (simp add: rtt_inv_def)
  qed
qed

lemma done_step_inv:
  assumes "rtt_inv s" "pcs s t = At_done"
  shows "rtt_inv (done_step t s)"
proof -
  have m: "rtt_inv (goto t q (s\<lparr>rmb := m\<rparr>))"
    if "\<not> owns q" "\<not> waits q" "q \<noteq> In_rx" "pc_ok q" "port m = port (rmb s)" "bufs_ok (base m)" for q m
    by (rule move_inv) (use assms that in \<open>auto simp: inv_defs\<close>)
  have b: "bufs_ok (base (rmb s))" using assms(1) by (simp add: inv_defs)
  have m0: "rtt_inv (goto t q s)" if "\<not> owns q" "\<not> waits q" "q \<noteq> In_rx" "pc_ok q" for q
    using m [of q "rmb s"] that b by simp
  show ?thesis
    using m0 m [of At_end "(rmb s)\<lparr>base := (base (rmb s))\<lparr>Freeze := 15\<rparr>\<rparr>"] b
    by (cases t) (auto simp: done_step_def bufs_ok_def split: option.splits mb_callback.splits)
qed

context flash_hal
begin

lemma thread_step_inv:
  assumes i: "rtt_inv s" and st: "thread_step H t (pcs s t) s = Some s'"
  shows "rtt_inv s'"
proof -
  have b: "bufs_ok (base (rmb s))" "\<not> TCIE (hw (port (rmb s)))" using i by (simp_all add: inv_defs)
  have m: "rtt_inv (s\<lparr>rmb := m, pcs := (pcs s)(t := q)\<rparr>)"
    if "\<not> owns (pcs s t)" "\<not> waits (pcs s t)" "pcs s t \<noteq> In_rx" "\<not> owns q" "\<not> waits q" "q \<noteq> In_rx" "pc_ok q"
      "port m = port (rmb s)" "bufs_ok (base m)" for q m
    using move_inv [OF i, of t q m] that b by simp
  have m0: "rtt_inv (goto t q s)"
    if "\<not> owns (pcs s t)" "\<not> waits (pcs s t)" "pcs s t \<noteq> In_rx" "\<not> owns q" "\<not> waits q" "q \<noteq> In_rx" "pc_ok q" for q
    using m [of q "rmb s"] that b by simp
  show ?thesis
  proof (cases "pcs s t")
    case At_head
    then show ?thesis using st i m0 take_rx_inv by (cases t) auto
  next
    case At_work
    then obtain r m' where r: "request_part H (rmb s) = Some (r, m')"
      and s': "s' = s\<lparr>rmb := m', pcs := (pcs s)(t := if r then At_crc (Send_Len (base m')) True False else At_clear)\<rparr>"
      using st by (auto simp: bind_eq_Some_conv)
    show ?thesis
      unfolding s' by (rule m) (use At_work request_part_keeps [OF r b(1)] in auto)
  next
    case Up_start
    then show ?thesis using st b(1) by (auto simp: bind_eq_Some_conv dest!: upload_start_keeps intro!: m)
  next
    case (Up_put1 vs)
    then show ?thesis
      using st b(1) by (cases vs) (auto simp: bind_eq_Some_conv bufs_ok_def dest!: put_step_keeps intro!: m)
  next
    case (Up_put2 vs)
    then show ?thesis
      using st b(1) by (cases vs) (auto simp: bind_eq_Some_conv dest!: put_step_keeps intro!: m m0)
  next
    case (At_crc len chk cb)
    then obtain m' r where r: "snd_prepare len chk (rmb s) = Some (m', r)"
      and s': "s' = s\<lparr>rmb := m', pcs := (pcs s)(t := case r of None \<Rightarrow> after_send t cb | Some n \<Rightarrow> At_tx n cb)\<rparr>"
      using st by (auto simp: bind_eq_Some_conv)
    show ?thesis
      unfolding s' by (rule m)
        (use At_crc snd_prepare_keeps [OF r b(1)] in \<open>auto simp: after_send_def split: option.splits\<close>)
  next
    case (At_tx n cb)
    then have s': "s' = goto t (At_take (Send n cb)) (s\<lparr>rmb := (rmb s)\<lparr>port := TX_ON (port (rmb s))\<rparr>\<rparr>)"
      using st by simp
    have "len_ok n" using pc_ok_at [OF i, of t] At_tx by simp
    then show ?thesis
      unfolding s' by (intro move_inv [OF i]) (use At_tx b in auto)
  next
    case (At_take p)
    then show ?thesis using st take_lock_inv [OF i At_take] by simp
  next
    case (Own p)
    then show ?thesis using st own_step_inv [OF i Own] by simp
  next
    case At_done
    then show ?thesis using st done_step_inv [OF i At_done] by simp
  next
    case At_end
    then show ?thesis using st b(1) by (auto simp: bufs_ok_def intro!: m)
  next
    case At_clear
    then have s': "s' = goto t At_head (s\<lparr>rmb := (rmb s)\<lparr>port := Sensor_USART_Clear_RX_Updata_Flag (port (rmb s))\<rparr>\<rparr>)"
      using st by simp
    show ?thesis
      unfolding s' by (intro move_inv [OF i]) (use At_clear b in \<open>auto simp: Sensor_USART_Clear_RX_Updata_Flag_def\<close>)
  qed (use st m0 in auto)
qed

text \<open>Only a thread that has taken \<open>TX_Lock\<close> makes an event on the line.\<close>

lemma no_event_without_lock:
  assumes i: "rtt_inv s" and st: "thread_step H t (pcs s t) s = Some s'" and n: "\<not> owns (pcs s t)"
  shows "trace (port (rmb s')) = trace (port (rmb s))"
proof -
  have b: "bufs_ok (base (rmb s))" using i by (simp add: inv_defs)
  show ?thesis
  proof (cases "pcs s t")
    case At_head
    then show ?thesis using st by (cases t) (auto simp: take_rx_def split: prod.splits)
  next
    case At_work
    then show ?thesis using st by (auto simp: bind_eq_Some_conv dest!: request_part_keeps(1) [OF _ b])
  next
    case Up_start
    then show ?thesis using st b by (auto simp: bind_eq_Some_conv dest!: upload_start_keeps)
  next
    case (Up_put1 vs)
    then show ?thesis using st b by (cases vs) (auto simp: bind_eq_Some_conv dest!: put_step_keeps)
  next
    case (Up_put2 vs)
    then show ?thesis using st b by (cases vs) (auto simp: bind_eq_Some_conv dest!: put_step_keeps)
  next
    case (At_crc len chk cb)
    then show ?thesis using st by (auto simp: bind_eq_Some_conv dest!: snd_prepare_keeps(1) [OF _ b])
  next
    case (At_take p)
    then show ?thesis using st by (auto simp: take_lock_frame)
  next
    case At_done
    then show ?thesis
      using st by (cases t) (auto simp: done_step_def split: option.splits mb_callback.splits)
  next
    case At_clear
    then show ?thesis using st by (auto simp: Sensor_USART_Clear_RX_Updata_Flag_def)
  qed (use st n in auto)
qed

lemma rtt_step_inv:
  assumes "rtt_step H s s'" "rtt_inv s"
  shows "rtt_inv s'"
  using assms(1)
proof cases
  case (rx_byte b)
  then show ?thesis using assms(2) by (simp add: inv_defs port_rx_byte)
next
  case wake
  then show ?thesis using assms(2) move_inv [OF assms(2), of UP At_head "rmb s"] by (auto simp: inv_defs)
next
  case (measured d)
  then show ?thesis using assms(2) by (simp add: inv_defs)
qed (use assms(2) thread_step_inv rx_end_inv tx_end_inv in auto)

lemma rtt_reachable_inv: "(rtt_step H)\<^sup>*\<^sup>* s s' \<Longrightarrow> rtt_inv s \<Longrightarrow> rtt_inv s'"
  by (induction rule: rtranclp_induct) (auto intro: rtt_step_inv)

end

definition rtt_ready :: "mb \<Rightarrow> bool" where
  "rtt_ready m \<longleftrightarrow> bufs_ok (base m) \<and> gState_READY (port m) \<and> \<not> TCIE (hw (port m))"

lemma rtt_init_inv: "rtt_ready m \<Longrightarrow> rtt_inv (rtt_init m)"
  by (simp add: rtt_ready_def rtt_init_def stm32_usart_sem_init_def rt_sem_init_def inv_defs)

section \<open>Runs\<close>

text \<open>A frame for this device that arrives while \<open>mb_hand\<close> waits for one.\<close>

lemma request_part_frame:
  assumes "bufs_ok (base s)" "port_holds (port s) bs" "frame_valid bs" "bs ! 0 = Device_Addr (base s)"
  shows "request_part H s = Option.bind (modbus_switch H (bs ! 1) (with_request bs s)) (\<lambda>s. Some (True, s))"
proof -
  let ?rb = "bs @ drop (length bs) (Receive_Buf (base s))" and ?n = "length bs"
  have len: "length bs \<le> 600" "length (Receive_Buf (base s)) = 600" "2 \<le> length bs"
    and g: "Sensor_USART_GetReceData (Receive_Buf (base s)) (port s) = Some (of_nat ?n, ?rb)"
    using assms by (auto simp: port_holds_def bufs_ok_def frame_valid_def rtu_frame_def)
  have n: "unat (of_nat ?n :: u16) = ?n" using len by (simp add: unat_of_nat)
  have rds: "rd ?rb (?n - 1) = Some (bs ! (?n - 1))" "rd ?rb (?n - 2) = Some (bs ! (?n - 2))"
      "rdn ?rb 0 (?n - 2) = Some (take (?n - 2) bs)" "rd ?rb 0 = Some (bs ! 0)" "rd ?rb 1 = Some (bs ! 1)"
    using len by (auto simp: rd_def nth_append simp del: One_nat_def)
  have wr: "s\<lparr>base := (base s)\<lparr>Receive_Buf := ?rb\<rparr>\<rparr> = with_request bs s" by (simp add: with_request_def)
  show ?thesis
    using assms(3,4) len(3) frame_valid_parts [of bs] unfolding request_part_def g
    by (auto simp: n wr rds Let_def simp del: One_nat_def)
qed

lemma rx_bytes_run: "pcs s HAND \<noteq> Halted \<Longrightarrow> (rtt_step H)\<^sup>*\<^sup>* s (on_rport (rx_bytes bs) s)"
proof (induction bs arbitrary: s)
  case Nil
  then show ?case by (simp add: rx_bytes_def)
next
  case (Cons b bs)
  have "(rtt_step H)\<^sup>*\<^sup>* (on_rport (dma_rx b) s) (on_rport (rx_bytes bs) (on_rport (dma_rx b) s))"
    by (rule Cons.IH) (use Cons.prems in simp)
  moreover have "on_rport (rx_bytes bs) (on_rport (dma_rx b) s) = on_rport (rx_bytes (b # bs)) s"
    by (simp add: rx_bytes_def)
  ultimately show ?case
    using rtt_step.rx_byte [OF Cons.prems, of H b] by (metis converse_rtranclp_into_rtranclp)
qed

text \<open>A frame interrupts \<open>mb_up\<close>: it goes to \<open>mb_hand\<close>, which waits, and is about to be handled.\<close>

lemma frame_run:
  assumes "pcs s HAND = In_rx" "suspend_thread (usart_sem s) = [HAND]"
  shows "(rtt_step H)\<^sup>*\<^sup>* s (s\<lparr>rmb := received bs (rmb s), usart_sem := (usart_sem s)\<lparr>suspend_thread := []\<rparr>,
           pcs := (pcs s)(HAND := At_work)\<rparr>)"
proof -
  let ?s1 = "on_rport (rx_bytes bs) s"
  let ?s2 = "s\<lparr>rmb := received bs (rmb s), usart_sem := (usart_sem s)\<lparr>suspend_thread := []\<rparr>,
           pcs := (pcs s)(HAND := At_flag)\<rparr>"
  have 1: "(rtt_step H)\<^sup>*\<^sup>* s ?s1" by (rule rx_bytes_run) (use assms(1) in simp)
  have "rtt_step H ?s1 (rtt_rx_end ?s1)" by (rule rtt_step.rx_end) (use assms(1) in simp)
  moreover have "rtt_rx_end ?s1 = ?s2"
    using assms by (simp add: rtt_rx_end_def rt_sem_release_def resume_def received_def Let_def)
  ultimately have 2: "rtt_step H ?s1 ?s2" by simp
  have 3: "rtt_step H ?s2 (?s2\<lparr>pcs := (pcs s)(HAND := At_work)\<rparr>)"
    by (rule rtt_step.hand) (simp_all add: received_def rx_timeout_fields)
  show ?thesis using 1 2 3 by (simp add: rtranclp.rtrancl_into_rtrancl)
qed

text \<open>A reply that is too long to be sent: \<open>mb_hand\<close> drops it and waits for the next frame.\<close>

lemma drop_run:
  assumes "pcs s HAND = At_crc n True False" "SEND_SIZE - 2 < unat n" "ModBus_CallBack (base (rmb s)) = None"
    and "sem_value (usart_sem s) = 0" "sem_flag (usart_sem s) = RT_IPC_FLAG_FIFO" "suspend_thread (usart_sem s) = []"
  obtains s' where "(rtt_step H)\<^sup>*\<^sup>* s s'" "base (rmb s') = base (rmb s)" "pcs s' = (pcs s)(HAND := In_rx)"
proof -
  let ?s1 = "s\<lparr>pcs := (pcs s)(HAND := At_done)\<rparr>" and ?s2 = "s\<lparr>pcs := (pcs s)(HAND := At_clear)\<rparr>"
  let ?s3 = "s\<lparr>rmb := (rmb s)\<lparr>port := Sensor_USART_Clear_RX_Updata_Flag (port (rmb s))\<rparr>, pcs := (pcs s)(HAND := At_head)\<rparr>"
  have "rtt_step H s ?s1"
    by (rule rtt_step.hand) (use assms in \<open>simp_all add: snd_prepare_def after_send_def\<close>)
  moreover have "rtt_step H ?s1 ?s2"
    by (rule rtt_step.hand) (use assms in \<open>simp_all add: done_step_def\<close>)
  moreover have "rtt_step H ?s2 ?s3"
    by (rule rtt_step.hand) (use assms in \<open>simp_all\<close>)
  moreover have "rtt_step H ?s3 (take_rx ?s3)"
    by (rule rtt_step.hand) (use assms in \<open>simp_all\<close>)
  ultimately have "(rtt_step H)\<^sup>*\<^sup>* s (take_rx ?s3)" by (meson r_into_rtranclp rtranclp_trans)
  then show thesis
    by (rule that) (use assms in \<open>simp_all add: take_rx_def rt_sem_take_def\<close>)
qed

lemma put_overruns:
  assumes "length (Send_Buf (base m)) = SEND_SIZE" "unat (Send_Len (base m)) = 31"
  obtains m' where "put_step v m = Some m'" "\<And>w. put_step w m' = None"
proof -
  have "unat (Send_Len (base m) + 1) = 32" using assms(2) by (simp add: unat_word_ariths)
  then show thesis
    using assms by (intro that) (auto simp: put_step_def mb_put_def)
qed

lemma upload_start_ok:
  assumes "bufs_ok (base m)"
  obtains mu v where "upload_start m = Some (mu, v)" "bufs_ok (base mu)" "port mu = port m"
    "same_but_reply_cb (base mu) (base m)" "ModBus_CallBack (base mu) = ModBus_CallBack (base m)"
    "mu = m\<lparr>base := base mu\<rparr>" "Device_Addr (base mu) = Device_Addr (base m)"
proof -
  let ?b = "(base m)\<lparr>Send_Buf := (Send_Buf (base m))[0 := Device_Addr (base m), 1 := 4, 2 := 8], Send_Len := 3\<rparr>"
  show thesis
    by (rule that [of "m\<lparr>base := ?b\<rparr>"])
      (use assms in \<open>simp_all add: upload_start_def bufs_ok_def same_but_reply_cb_def Let_def\<close>)
qed

text \<open>A request for 14 registers: the range check admits it, its reply has 31 bytes.\<close>

lemma long_request:
  assumes "bufs_ok (base s)" "rx_ready (port s)" "ModBus_CallBack (base s) = None"
    and "\<forall>k<14. holding (0x31 + of_nat k) s \<noteq> None"
    and "req = rtu_frame ([Device_Addr (base s), 3] @ enc16 0x31 @ enc16 14)"
  obtains t where "request_part H (received req s) = Some (True, t)" "bufs_ok (base t)"
    "unat (Send_Len (base t)) = 31" "ModBus_CallBack (base t) = None"
proof -
  let ?s = "with_request req (received req s)" and ?addr = "Device_Addr (base s)"
  let ?vs = "map (\<lambda>k. the (holding (0x31 + of_nat k) s)) [0..<14]"
  have req: "length req = 8" "take 2 req = [?addr, 3]" "req ! 0 = ?addr" "req ! 1 = 3" "req ! 2 = hi8 0x31"
    "req ! 3 = lo8 0x31" "req ! 4 = hi8 14" "req ! 5 = lo8 14" "frame_valid req"
    unfolding assms(5) frame_valid_def by (simp_all add: rtu_frame_def)
  have ok: "bufs_ok (base ?s)" using assms(1) req(1) by simp
  have h: "holding x ?s = holding x s" for x
    using assms(1) req(1)
    by (simp add: with_request_def received_def holding_def reg03_def Let_def map_option_bind comp_def bufs_ok_def
        cong: if_cong)
  have hv: "holding (0x31 + of_nat k) ?s = Some (?vs ! k)" if "k < 14" for k
    using assms(4) that by (auto simp: h)
  obtain b where b: "ModbusFunc03 ?s = Some (?s\<lparr>base := b\<rparr>)" "bufs_ok b"
    "reply b = [?addr, 3] @ of_nat (2 * length ?vs) # concat (map enc16 ?vs)"
    "ModBus_CallBack b = cb_after False (base ?s)"
    using Func03_reply [OF ok, of "0x31" ?vs] hv req
    by (auto simp: req_addr_def req_num_def bytes_simps)
  have "length (concat (map enc16 vs)) = 2 * length vs" for vs
    by (induction vs) simp_all
  from this [of ?vs] have "length (reply b) = 31" unfolding b(3) by simp
  then have len: "unat (Send_Len b) = 31" using b(2) by (auto simp: reply_def bufs_ok_def min_def split: if_splits)
  have "request_part H (received req s) = Some (True, ?s\<lparr>base := b\<rparr>)"
    using request_part_frame [of "received req s" req H] received_holds [OF assms(2), of req] assms(1) req b(1)
    by (simp add: modbus_switch_def)
  then show thesis
    by (rule that) (use b(2,4) len assms(3) req(1) in \<open>simp_all add: with_request_def\<close>)
qed

text \<open>A thread that waits for \<open>TX_Lock\<close> and is next: the end of the transmission gives it the lock.\<close>

lemma tx_end_next:
  assumes "rtt_inv s" "\<not> gState_READY (port (rmb s))" "suspend_thread (usart_tx_lock s) = t # ts"
  shows "rtt_step H s (rtt_tx_end s)" "pcs (rtt_tx_end s) = (pcs s)(t := resumed (pcs s t))"
    "suspend_thread (usart_tx_lock (rtt_tx_end s)) = ts" "rmb (rtt_tx_end s) = (rmb s)\<lparr>port := tx_complete (port (rmb s))\<rparr>"
proof -
  have "pcs s HAND \<noteq> Halted" using assms(1,2) by (auto simp: inv_defs)
  then show "rtt_step H s (rtt_tx_end s)" using assms(2) by (rule rtt_step.tx_end)
  show "pcs (rtt_tx_end s) = (pcs s)(t := resumed (pcs s t))"
    "suspend_thread (usart_tx_lock (rtt_tx_end s)) = ts" "rmb (rtt_tx_end s) = (rmb s)\<lparr>port := tx_complete (port (rmb s))\<rparr>"
    using assms(3) by (simp_all add: rtt_tx_end_def release_lock_def rt_sem_release_def resume_def)
qed

lemma waits_resumed: "waits p \<Longrightarrow> \<exists>q. resumed p = Own q"
  by (cases p) auto

lemma owner_runs:
  assumes "rtt_inv s" "pcs s u = Own p" "waits (pcs s t)" "own_step u p s = Some s'"
  shows "rtt_step H s s'"
proof (cases u)
  case HAND
  then show ?thesis using assms by (intro rtt_step.hand) simp_all
next
  case UP
  then have "t = HAND" using assms(2,3) by (cases t) auto
  then have "\<not> runnable (pcs s HAND)" "pcs s HAND \<noteq> Halted" using assms(3) by (cases "pcs s HAND"; simp)+
  then show ?thesis using assms UP by (intro rtt_step.up) simp_all
qed

lemma waiting_next:
  assumes "rtt_inv s" "waits (pcs s t)" "\<And>u. u \<noteq> t \<Longrightarrow> \<not> waits (pcs s u)"
  shows "suspend_thread (usart_tx_lock s) = [t]"
proof -
  have 1: "set (suspend_thread (usart_tx_lock s)) = {t}" "distinct (suspend_thread (usart_tx_lock s))"
    using assms by (auto simp: inv_defs)
  then have "length (suspend_thread (usart_tx_lock s)) = 1" using distinct_card [OF 1(2)] by simp
  then obtain x where "suspend_thread (usart_tx_lock s) = [x]" by (auto simp: length_Suc_conv)
  then show ?thesis using 1(1) by simp
qed

context flash_hal
begin

text \<open>A thread waits while the other owns the lock: the other goes on and the waiting one gets it.\<close>

lemma waiting_gets_from_owner:
  assumes i: "rtt_inv s" and w: "waits (pcs s t)" and o: "pcs s u = Own p"
  shows "\<exists>s'. (rtt_step H)\<^sup>*\<^sup>* s s' \<and> ((\<exists>q. pcs s' t = Own q) \<or> (\<exists>v. pcs s' v = Halted))"
proof -
  have ut: "u \<noteq> t" using w o by auto
  have nw: "\<not> waits (pcs s v)" if "v \<noteq> t" for v
    using that ut o by (cases v; cases t; cases u) auto
  have q: "suspend_thread (usart_tx_lock s) = [t]" by (rule waiting_next [OF i w nw])
  obtain qq where qq: "resumed (pcs s t) = Own qq" using waits_resumed [OF w] by blast
  note rd = owner_ready [OF i, of u]
  show ?thesis
  proof (cases p)
    case (Send n cb)
    have n: "len_ok n" "length (Send_Buf (base (rmb s))) = SEND_SIZE"
      using pc_ok_at [OF i, of u] i o Send by (simp_all add: inv_defs bufs_ok_def)
    obtain s1 where s1: "own_step u p s = Some s1" "\<not> gState_READY (port (rmb s1))"
        "pcs s1 = (pcs s)(u := after_send u cb)" "usart_tx_lock s1 = usart_tx_lock s"
      using transmit_starts [OF rd(1) n] o Send by (simp add: own_step_def)
    have i1: "rtt_inv s1" by (rule own_step_inv [OF i o s1(1)])
    have 1: "rtt_step H s s1" by (rule owner_runs [OF i o w s1(1)])
    have "suspend_thread (usart_tx_lock s1) = t # []" using s1(4) q by simp
    note 2 = tx_end_next [OF i1 s1(2) this]
    have "pcs (rtt_tx_end s1) t = Own qq" using 2(2) s1(3) ut qq by simp
    moreover have "(rtt_step H)\<^sup>*\<^sup>* s (rtt_tx_end s1)" using 1 2(1) by (meson r_into_rtranclp rtranclp_trans)
    ultimately show ?thesis by blast
  next
    case ReInit
    obtain s1 where s1: "own_step u p s = Some s1" "pcs s1 t = Own qq"
      using q ut qq ReInit by (simp add: own_step_def release_lock_def rt_sem_release_def resume_def Let_def)
    have "rtt_step H s s1" by (rule owner_runs [OF i o w s1(1)])
    with s1(2) show ?thesis by (meson r_into_rtranclp)
  next
    case Reset
    obtain s1 where s1: "own_step u p s = Some s1" "pcs s1 u = Halted"
      using Reset by (simp add: own_step_def)
    have "rtt_step H s s1" by (rule owner_runs [OF i o w s1(1)])
    with s1(2) show ?thesis by (meson r_into_rtranclp)
  qed
qed

lemma waiting_gets_lock:
  assumes i: "rtt_inv s" and w: "waits (pcs s t)"
  shows "\<exists>s'. (rtt_step H)\<^sup>*\<^sup>* s s' \<and> ((\<exists>q. pcs s' t = Own q) \<or> (\<exists>v. pcs s' v = Halted))"
proof (cases "gState_READY (port (rmb s))")
  case True
  have "t \<in> set (suspend_thread (usart_tx_lock s))" using i w by (simp add: inv_defs)
  then have "sem_value (usart_tx_lock s) = 0" using i by (auto simp: inv_defs)
  then have "owns (pcs s HAND) \<or> owns (pcs s UP)"
    using i True by (cases "owns (pcs s HAND)"; cases "owns (pcs s UP)") (simp_all add: rtt_inv_def tokens_def)
  then obtain u where u: "owns (pcs s u)" by blast
  then show ?thesis
    using waiting_gets_from_owner [OF i w, of u] by (cases "pcs s u") auto
next
  case False
  have "t \<in> set (suspend_thread (usart_tx_lock s))" using i w by (simp add: inv_defs)
  then obtain v vs where q: "suspend_thread (usart_tx_lock s) = v # vs"
    by (cases "suspend_thread (usart_tx_lock s)") auto
  then have wv: "waits (pcs s v)" using i by (auto simp: inv_defs)
  note e = tx_end_next [OF i False q]
  obtain qq where qq: "pcs (rtt_tx_end s) v = Own qq" using waits_resumed [OF wv] e(2) by auto
  show ?thesis
  proof (cases "v = t")
    case True
    then show ?thesis using e(1) qq by (meson r_into_rtranclp)
  next
    case False
    then have "waits (pcs (rtt_tx_end s) t)" using e(2) w by simp
    from waiting_gets_from_owner [OF rtt_step_inv [OF e(1) i] this qq] e(1)
    show ?thesis by (meson converse_rtranclp_into_rtranclp)
  qed
qed

end

lemma events_from_owner:
  assumes "flash_hal H" "rtt_inv s" "owns (pcs s t)" "rtt_step H s s'"
  shows "trace (port (rmb s')) = trace (port (rmb s)) \<or> thread_step H t (pcs s t) s = Some s'"
proof -
  have other: "trace (port (rmb s')) = trace (port (rmb s))"
    if "thread_step H u (pcs s u) s = Some s'" "u \<noteq> t" for u
    using flash_hal.no_event_without_lock [OF assms(1,2) that(1)] owner_ready [OF assms(2), of t] assms(3) that(2) by blast
  show ?thesis
    using assms(4)
  proof cases
    case hand
    then show ?thesis using other by (cases "t = HAND") auto
  next
    case up
    then show ?thesis using other by (cases "t = UP") auto
  next
    case tx_end
    then show ?thesis using owner_ready [OF assms(2), of t] assms(3) by auto
  next
    case rx_end
    then show ?thesis by (auto simp: rtt_rx_end_def resume_def rx_timeout_tx Let_def split: prod.splits option.splits)
  qed (auto simp: dma_rx_tx)
qed

section \<open>Properties\<close>

text \<open>C7.  The two Modbus threads never transmit at the same time.  In every interleaving by
  priority of the threads with the interrupts, for every request, measured value and behaviour of the flash, a
  thread that has taken \<open>TX_Lock\<close> to send finds the transmitter free and is the only one that has
  it; its transmission is accepted, not lost to \<open>HAL_BUSY\<close>, and started with the number of bytes it
  has prepared, on what the send buffer then holds; and no other step, of a thread or of an
  interrupt, makes an event on the line.  (The lock covers the transmission only: that the buffer,
  which the threads share, still holds the thread's own message, and that the driver of the line is
  on, is not promised, see \<open>rtt_upload_overflows\<close> and \<open>rtt_waited_message_unheard\<close>.)\<close>

theorem rtt_transmit_exclusive:
  assumes "flash_hal H" and "rtt_ready m" and "(rtt_step H)\<^sup>*\<^sup>* (rtt_init m) s" and "pcs s t = Own (Send n cb)"
  shows "gState_READY (port (rmb s)) \<and> sem_value (usart_tx_lock s) = 0 \<and> (\<forall>u. u \<noteq> t \<longrightarrow> \<not> owns (pcs s u))
     \<and> (\<exists>s'. thread_step H t (pcs s t) s = Some s' \<and> \<not> gState_READY (port (rmb s'))
          \<and> trace (port (rmb s')) = trace (port (rmb s))
              @ [EvTx (RE_DE_pin (port (rmb s))) (take (unat n) (Send_Buf (base (rmb s))))])
     \<and> (\<forall>s'. rtt_step H s s' \<longrightarrow> trace (port (rmb s')) = trace (port (rmb s)) \<or> thread_step H t (pcs s t) s = Some s')"
proof -
  have i: "rtt_inv s"
    by (rule flash_hal.rtt_reachable_inv [OF assms(1,3) rtt_init_inv [OF assms(2)]])
  have n: "len_ok n" "length (Send_Buf (base (rmb s))) = SEND_SIZE"
    using pc_ok_at [OF i, of t] i assms(4) by (simp_all add: inv_defs bufs_ok_def)
  note rd = owner_ready [OF i, of t]
  have o: "trace (port (rmb s')) = trace (port (rmb s)) \<or> thread_step H t (pcs s t) s = Some s'"
    if "rtt_step H s s'" for s'
    by (rule events_from_owner [OF assms(1) i _ that]) (simp add: assms(4))
  show ?thesis
    using transmit_starts [OF rd(1) n] rd assms(4) o by (simp add: own_step_def)
qed

text \<open>C20.  The state of the two threads stays well formed in every run: the buffers keep
  their sizes, a message on its way to the line has 1 to 32 bytes, the value of \<open>usart_tx_lock\<close> is 0 or 1, its list
  holds each waiting thread once and only while the value is 0, and only \<open>mb_hand\<close> waits for
  frames.\<close>

theorem rtt_well_formed:
  assumes "flash_hal H" and "rtt_ready m" and "(rtt_step H)\<^sup>*\<^sup>* (rtt_init m) s"
  shows "length (Send_Buf (base (rmb s))) = 32 \<and> length (Receive_Buf (base (rmb s))) = 600 \<and> (\<forall>t. pc_ok (pcs s t))
     \<and> sem_value (usart_tx_lock s) \<le> 1 \<and> distinct (suspend_thread (usart_tx_lock s))
     \<and> set (suspend_thread (usart_tx_lock s)) = {t. waits (pcs s t)}
     \<and> (suspend_thread (usart_tx_lock s) = [] \<or> sem_value (usart_tx_lock s) = 0)
     \<and> suspend_thread (usart_sem s) = (if pcs s HAND = In_rx then [HAND] else []) \<and> pcs s UP \<noteq> In_rx"
proof -
  have i: "rtt_inv s"
    by (rule flash_hal.rtt_reachable_inv [OF assms(1,3) rtt_init_inv [OF assms(2)]])
  then have "unat (sem_value (usart_tx_lock s)) \<le> 1" by (simp add: inv_defs)
  then show ?thesis using i by (auto simp: inv_defs bufs_ok_def word_le_nat_alt)
qed

text \<open>C17.  No thread waits for \<open>TX_Lock\<close> for ever: from every state of every run in which
  it waits, a continuation leads to a state in which it has the lock, unless a request resets the
  system on the way.\<close>

theorem rtt_lock_granted:
  assumes "flash_hal H" and "rtt_ready m" and "(rtt_step H)\<^sup>*\<^sup>* (rtt_init m) s" and "waits (pcs s t)"
  shows "\<exists>s'. (rtt_step H)\<^sup>*\<^sup>* s s' \<and> ((\<exists>p. pcs s' t = Own p) \<or> (\<exists>u. pcs s' u = Halted))"
  by (rule flash_hal.waiting_gets_lock
        [OF assms(1) flash_hal.rtt_reachable_inv [OF assms(1,3) rtt_init_inv [OF assms(2)]] assms(4)])

text \<open>A message that had to wait is not heard.  \<open>Send_Data\<close> switches the RS-485
  driver on before it takes \<open>TX_Lock\<close>; the end of the transmission it waits for switches it off
  again, so the next thread in the list starts its own with the driver disabled.\<close>

theorem rtt_waited_message_unheard:
  assumes "rtt_inv s" and "\<not> gState_READY (port (rmb s))"
    and "suspend_thread (usart_tx_lock s) = t # ts" and "pcs s t = In_lock (Send n cb)"
  shows "rtt_step H s (rtt_tx_end s) \<and>
     (\<exists>s'. thread_step H t (pcs (rtt_tx_end s) t) (rtt_tx_end s) = Some s'
        \<and> trace (port (rmb s')) = trace (port (rmb s)) @ [EvTx False (take (unat n) (Send_Buf (base (rmb s))))])"
proof -
  note e = tx_end_next [OF assms(1-3)]
  have n: "len_ok n" "length (Send_Buf (base (rmb s))) = SEND_SIZE"
    using pc_ok_at [OF assms(1), of t] assms(1,4) by (simp_all add: inv_defs bufs_ok_def)
  show ?thesis
    using e transmit_starts [OF port_tx_end(1) n, of "port (rmb s)"] assms(4)
    by (simp add: own_step_def tx_complete_fields)
qed

text \<open>C40.  The two threads share the send buffer and its length without a lock.  On a
  device with automatic upload whose 14 registers from \<open>0x31\<close> on can be read, there is a run in
  which a request for them arrives while \<open>mb_up\<close> fills in its first value: \<open>mb_hand\<close> leaves the
  length at 31, and \<open>mb_up\<close> goes on to write behind the end of the buffer.\<close>

theorem rtt_upload_overflows:
  assumes "rtt_ready m" and "rx_ready (port m)" and "AutoUpload (base m) \<noteq> 0"
    and "ModBus_CallBack (base m) = None" and "\<forall>k<14. holding (0x31 + of_nat k) m \<noteq> None"
  shows "\<exists>s. (rtt_step H)\<^sup>*\<^sup>* (rtt_init m) s \<and> runnable (pcs s UP) \<and> \<not> runnable (pcs s HAND)
           \<and> thread_step H UP (pcs s UP) s = None"
proof -
  let ?req = "rtu_frame ([Device_Addr (base m), 3] @ enc16 0x31 @ enc16 14)"
  let ?s1 = "(rtt_init m)\<lparr>usart_sem := \<lparr>sem_value = 0, suspend_thread = [HAND], sem_flag = RT_IPC_FLAG_FIFO\<rparr>,
               pcs := (\<lambda>_. At_head)(HAND := In_rx)\<rparr>"
  obtain mu v where up: "upload_start m = Some (mu, v)" "bufs_ok (base mu)" "port mu = port m"
      "same_but_reply_cb (base mu) (base m)" "ModBus_CallBack (base mu) = ModBus_CallBack (base m)"
      "mu = m\<lparr>base := base mu\<rparr>" "Device_Addr (base mu) = Device_Addr (base m)"
    by (rule upload_start_ok [of m]) (use assms(1) in \<open>simp add: rtt_ready_def\<close>)
  have "holding a mu = holding a m" for a
    using holding_frame [OF up(4), of a] up(6) by simp
  then obtain t where t: "request_part H (received ?req mu) = Some (True, t)" "bufs_ok (base t)"
      "unat (Send_Len (base t)) = 31" "ModBus_CallBack (base t) = None"
    using long_request [of mu ?req H thesis] up assms(2,4,5) by simp
  let ?s3 = "?s1\<lparr>rmb := mu, pcs := (pcs ?s1)(UP := Up_put1 (be_bytes v))\<rparr>"
  have "rtt_step H (rtt_init m) ?s1"
    by (rule rtt_step.hand)
      (simp_all add: rtt_init_def stm32_usart_sem_init_def rt_sem_init_def take_rx_def rt_sem_take_def
        rt_ipc_list_suspend_def)
  moreover have "rtt_step H ?s1 (?s1\<lparr>pcs := (pcs ?s1)(UP := Up_start)\<rparr>)"
    by (rule rtt_step.up) (use assms(3) in \<open>simp_all add: rtt_init_def\<close>)
  moreover have "rtt_step H (?s1\<lparr>pcs := (pcs ?s1)(UP := Up_start)\<rparr>) ?s3"
    by (rule rtt_step.up) (use up(1) in \<open>simp_all add: rtt_init_def\<close>)
  ultimately have r3: "(rtt_step H)\<^sup>*\<^sup>* (rtt_init m) ?s3" by (meson r_into_rtranclp rtranclp_trans)
  let ?s4 = "?s3\<lparr>rmb := received ?req mu, usart_sem := (usart_sem ?s3)\<lparr>suspend_thread := []\<rparr>,
               pcs := (pcs ?s3)(HAND := At_work)\<rparr>"
  have r4: "(rtt_step H)\<^sup>*\<^sup>* ?s3 ?s4"
    using frame_run [of ?s3 H ?req] by simp
  let ?s5 = "?s4\<lparr>rmb := t, pcs := (pcs ?s4)(HAND := At_crc (Send_Len (base t)) True False)\<rparr>"
  have r5: "rtt_step H ?s4 ?s5"
    by (rule rtt_step.hand) (use t(1) in simp_all)
  obtain s6 where s6: "(rtt_step H)\<^sup>*\<^sup>* ?s5 s6" "base (rmb s6) = base t"
      "pcs s6 = (pcs ?s5)(HAND := In_rx)"
    by (rule drop_run [of ?s5 "Send_Len (base t)" H]) (use t(3,4) in simp_all)
  have r6: "(rtt_step H)\<^sup>*\<^sup>* (rtt_init m) s6"
    using r3 r4 r5 s6(1) by (meson r_into_rtranclp rtranclp_trans)
  have p6: "pcs s6 HAND = In_rx" "pcs s6 UP = Up_put1 (be_bytes v)" using s6(3) by simp_all
  obtain m7 where m7: "put_step (byte_of 3 v) (rmb s6) = Some m7" "\<And>w. put_step w m7 = None"
    by (rule put_overruns [of "rmb s6" "byte_of 3 v"]) (use s6(2) t(2,3) in \<open>simp_all add: bufs_ok_def\<close>)
  let ?s7 = "s6\<lparr>rmb := m7, pcs := (pcs s6)(UP := Up_put1 [byte_of 2 v, byte_of 1 v, byte_of 0 v])\<rparr>"
  have "rtt_step H s6 ?s7"
    by (rule rtt_step.up) (use p6 m7(1) in \<open>simp_all add: be_bytes_def\<close>)
  with r6 have "(rtt_step H)\<^sup>*\<^sup>* (rtt_init m) ?s7" by simp
  then show ?thesis
    by (rule exI [of _ ?s7, OF conjI]) (use p6 m7(2) in simp_all)
qed

section \<open>Runs that reach the hypotheses of the properties\<close>

text \<open>\<open>mb_hand\<close> waits for a frame, the receive state is at rest.\<close>

definition at_rest :: "rtt \<Rightarrow> bool" where
  "at_rest s \<longleftrightarrow> rtt_inv s \<and> pcs s HAND = In_rx \<and> rx_ready (port (rmb s)) \<and> Device_Addr (base (rmb s)) = 1
     \<and> Freeze (base (rmb s)) = FREEZE_DISABLE \<and> ModBus_CallBack (base (rmb s)) = None \<and> sem_value (usart_sem s) = 0"

definition unknown_request :: "u8 list" where "unknown_request = rtu_frame [1, 0x42, 0]"

lemma unknown_served:
  assumes "bufs_ok (base m)" "rx_ready (port m)" "Device_Addr (base m) = 1"
  obtains b where "request_part H (received unknown_request m) = Some (True, (received unknown_request m)\<lparr>base := b\<rparr>)"
    "bufs_ok b" "Send_Len b = 3" "Send_Buf b ! 0 = 1" "Freeze b = Freeze (base m)" "Device_Addr b = 1"
    "ModBus_CallBack b = ModBus_CallBack (base m)"
proof -
  let ?r = unknown_request
  let ?w = "with_request ?r (received ?r m)"
  have r: "length ?r = 5" "?r ! 0 = 1" "?r ! 1 = 0x42" "frame_valid ?r"
    unfolding unknown_request_def frame_valid_def by (simp_all add: rtu_frame_def)
  let ?b = "(base ?w)\<lparr>Send_Buf := (Send_Buf (base m))[0 := 1, 1 := 0x42 OR MB_REQ_FAILURE, 2 := MB_FUNC_EXCEPTION], Send_Len := 3\<rparr>"
  have u: "unknown_function ?w = Some (?w\<lparr>base := ?b\<rparr>)"
    using assms(1) r by (simp add: unknown_function_def bufs_ok_def with_request_def nth_append Let_def)
  have "request_part H (received ?r m) = Some (True, ?w\<lparr>base := ?b\<rparr>)"
    using request_part_frame [of "received ?r m" ?r H] received_holds [OF assms(2), of ?r] assms r u
    by (simp add: modbus_switch_def)
  moreover have "?w\<lparr>base := ?b\<rparr> = (received ?r m)\<lparr>base := ?b\<rparr>" by (simp add: with_request_def)
  ultimately show thesis
    by (intro that [of ?b]) (use assms r in \<open>simp_all add: with_request_def bufs_ok_def\<close>)
qed

lemma serve_run:
  assumes "flash_hal H" "at_rest s"
  obtains s' where "(rtt_step H)\<^sup>*\<^sup>* s s'" "pcs s' = (pcs s)(HAND := At_take (Send 5 False))" "rtt_inv s'"
    "rx_ready (port (rmb s'))" "Device_Addr (base (rmb s')) = 1" "Freeze (base (rmb s')) = FREEZE_DISABLE"
    "ModBus_CallBack (base (rmb s')) = None" "usart_tx_lock s' = usart_tx_lock s"
    "usart_sem s' = (usart_sem s)\<lparr>suspend_thread := []\<rparr>"
    "gState_READY (port (rmb s')) = gState_READY (port (rmb s))"
proof -
  note a = assms(2) [unfolded at_rest_def]
  let ?r = unknown_request and ?m = "rmb s"
  obtain b where b: "request_part H (received ?r ?m) = Some (True, (received ?r ?m)\<lparr>base := b\<rparr>)"
    "bufs_ok b" "Send_Len b = 3" "Send_Buf b ! 0 = 1" "Freeze b = Freeze (base ?m)" "Device_Addr b = 1"
    "ModBus_CallBack b = ModBus_CallBack (base ?m)"
    by (rule unknown_served [of ?m H]) (use a in \<open>simp_all add: inv_defs\<close>)
  let ?l = "(usart_sem s)\<lparr>suspend_thread := []\<rparr>"
  let ?s1 = "s\<lparr>rmb := received ?r ?m, usart_sem := ?l, pcs := (pcs s)(HAND := At_work)\<rparr>"
  have 1: "(rtt_step H)\<^sup>*\<^sup>* s ?s1" by (rule frame_run) (use a in \<open>simp_all add: inv_defs\<close>)
  let ?m2 = "(received ?r ?m)\<lparr>base := b\<rparr>"
  let ?s2 = "s\<lparr>rmb := ?m2, usart_sem := ?l, pcs := (pcs s)(HAND := At_crc 3 True False)\<rparr>"
  have 2: "rtt_step H ?s1 ?s2" by (rule rtt_step.hand) (use b(1,3) in simp_all)
  obtain sb where sb: "snd_prepare 3 True ?m2 = Some (?m2\<lparr>base := b\<lparr>Send_Buf := sb\<rparr>\<rparr>, Some 5)"
    using b(2,4,5) a by (simp add: snd_prepare_def bufs_ok_def Let_def)
  let ?m3 = "?m2\<lparr>base := b\<lparr>Send_Buf := sb\<rparr>\<rparr>"
  let ?s3 = "s\<lparr>rmb := ?m3, usart_sem := ?l, pcs := (pcs s)(HAND := At_tx 5 False)\<rparr>"
  have 3: "rtt_step H ?s2 ?s3" by (rule rtt_step.hand) (use sb in simp_all)
  let ?s4 = "s\<lparr>rmb := ?m3\<lparr>port := TX_ON (port ?m3)\<rparr>, usart_sem := ?l, pcs := (pcs s)(HAND := At_take (Send 5 False))\<rparr>"
  have 4: "rtt_step H ?s3 ?s4" by (rule rtt_step.hand) simp_all
  have r: "(rtt_step H)\<^sup>*\<^sup>* s ?s4" using 1 2 3 4 by (meson rtranclp.rtrancl_into_rtrancl)
  have i: "rtt_inv ?s4" by (rule flash_hal.rtt_reachable_inv [OF assms(1) r]) (use a in simp)
  have "length ?r \<le> RECEIVE_SIZE" by (simp add: unknown_request_def rtu_frame_def)
  then have rx0: "rx_ready (rx_timeout (rx_bytes ?r (port ?m)))" using rx_frame [of "port ?m" ?r "replicate 600 0"] a by simp
  have tcie: "\<not> TCIE (hw (rx_bytes ?r (port ?m)))" using a by (simp add: rx_bytes_tx inv_defs)
  have rx: "rx_ready (port (rmb ?s4))" using rx0 by (simp add: received_def rx_ready_def)
  show thesis
    by (rule that [OF r _ i rx]) (use a b in \<open>simp_all add: received_def port_rx_end(1) [OF tcie] rx_bytes_tx\<close>)
qed

lemma take_step:
  assumes "pcs s HAND = At_take p"
  shows "rtt_step H s (take_lock HAND p s)"
  by (rule rtt_step.hand) (use assms in simp_all)

text \<open>\<open>mb_hand\<close> has the lock: it starts its transmission and waits for the next frame.\<close>

lemma finish_run:
  assumes "flash_hal H" "rtt_inv s" "pcs s HAND = Own (Send 5 False)" "rx_ready (port (rmb s))"
    and "Device_Addr (base (rmb s)) = 1" "Freeze (base (rmb s)) = FREEZE_DISABLE" "ModBus_CallBack (base (rmb s)) = None"
    and "sem_value (usart_sem s) = 0"
  obtains s' where "(rtt_step H)\<^sup>*\<^sup>* s s'" "at_rest s'" "usart_tx_lock s' = usart_tx_lock s"
    "\<not> gState_READY (port (rmb s'))" "pcs s' UP = pcs s UP"
proof -
  have n: "len_ok 5" "length (Send_Buf (base (rmb s))) = SEND_SIZE" using assms(2) by (simp_all add: len_ok_def inv_defs bufs_ok_def)
  have rd: "gState_READY (port (rmb s))" using owner_ready(1) [OF assms(2), of HAND] assms(3) by simp
  let ?u = "(port (rmb s))\<lparr>gState_READY := False, trace := trace (port (rmb s))
              @ [EvTx (RE_DE_pin (port (rmb s))) (take 5 (Send_Buf (base (rmb s))))]\<rparr>"
  let ?m = "(rmb s)\<lparr>port := ?u\<rparr>"
  let ?s1 = "s\<lparr>rmb := ?m, pcs := (pcs s)(HAND := At_done)\<rparr>" and ?s2 = "s\<lparr>rmb := ?m, pcs := (pcs s)(HAND := At_clear)\<rparr>"
  let ?m3 = "?m\<lparr>port := Sensor_USART_Clear_RX_Updata_Flag ?u\<rparr>"
  let ?s3 = "s\<lparr>rmb := ?m3, pcs := (pcs s)(HAND := At_head)\<rparr>"
  have "rtt_step H s ?s1"
    by (rule rtt_step.hand) (use assms(3) transmit_starts [OF rd n] in \<open>simp_all add: own_step_def after_send_def\<close>)
  moreover have "rtt_step H ?s1 ?s2"
    by (rule rtt_step.hand) (use assms in \<open>simp_all add: done_step_def\<close>)
  moreover have "rtt_step H ?s2 ?s3" by (rule rtt_step.hand) simp_all
  moreover have "rtt_step H ?s3 (take_rx ?s3)" by (rule rtt_step.hand) simp_all
  ultimately have r: "(rtt_step H)\<^sup>*\<^sup>* s (take_rx ?s3)" by (meson r_into_rtranclp rtranclp_trans)
  have i: "rtt_inv (take_rx ?s3)" by (rule flash_hal.rtt_reachable_inv [OF assms(1) r assms(2)])
  have "rx_ready (Sensor_USART_Clear_RX_Updata_Flag ?u)"
    using assms(4) by (simp add: rx_ready_def Sensor_USART_Clear_RX_Updata_Flag_def)
  then have "at_rest (take_rx ?s3)"
    using i assms by (simp add: at_rest_def take_rx_def rt_sem_take_def)
  with r show thesis
    by (rule that) (simp_all add: take_rx_def rt_sem_take_def Sensor_USART_Clear_RX_Updata_Flag_def)
qed

text \<open>The device \<open>mb_with []\<close> is asked something twice: \<open>mb_hand\<close> comes to own the lock for its
  first reply, and waits for it with the second while the first is being sent.\<close>

lemma owning_reachable:
  obtains s where "(rtt_step st_hal)\<^sup>*\<^sup>* (rtt_init (mb_with [])) s" "pcs s HAND = Own (Send 5 False)"
    "rtt_inv s" "rx_ready (port (rmb s))" "Device_Addr (base (rmb s)) = 1" "Freeze (base (rmb s)) = FREEZE_DISABLE"
    "ModBus_CallBack (base (rmb s)) = None" "sem_value (usart_sem s) = 0"
    "pcs s UP = At_head"
proof -
  let ?init = "rtt_init (mb_with [])"
  let ?s = "take_rx ?init"
  have 1: "rtt_step st_hal ?init ?s" by (rule rtt_step.hand) (simp_all add: rtt_init_def)
  have rdy: "rtt_ready (mb_with [])" by (simp add: rtt_ready_def bufs_ok_with) (simp add: usart_reset_def)
  have i: "rtt_inv ?s" by (rule flash_hal.rtt_step_inv [OF st_hal_flash_hal 1 rtt_init_inv [OF rdy]])
  have rest: "at_rest ?s"
    using i rx_ready_reset
    by (simp add: at_rest_def take_rx_def rt_sem_take_def rtt_init_def stm32_usart_sem_init_def rt_sem_init_def)
  have l: "usart_tx_lock ?s = rt_sem_init 1 RT_IPC_FLAG_FIFO" "sem_value (usart_sem ?s) = 0"
    by (simp_all add: take_rx_def rt_sem_take_def rtt_init_def stm32_usart_sem_init_def rt_sem_init_def)
  obtain s' where s': "(rtt_step st_hal)\<^sup>*\<^sup>* ?s s'" "pcs s' = (pcs ?s)(HAND := At_take (Send 5 False))" "rtt_inv s'"
    "rx_ready (port (rmb s'))" "Device_Addr (base (rmb s')) = 1" "Freeze (base (rmb s')) = FREEZE_DISABLE"
    "ModBus_CallBack (base (rmb s')) = None" "usart_tx_lock s' = usart_tx_lock ?s"
    "usart_sem s' = (usart_sem ?s)\<lparr>suspend_thread := []\<rparr>"
    by (rule serve_run [OF st_hal_flash_hal rest])
  have t: "rtt_step st_hal s' (take_lock HAND (Send 5 False) s')" by (rule take_step) (simp add: s'(2))
  have r: "(rtt_step st_hal)\<^sup>*\<^sup>* ?init (take_lock HAND (Send 5 False) s')"
    using 1 s'(1) t by (meson converse_rtranclp_into_rtranclp rtranclp.rtrancl_into_rtrancl)
  have i': "rtt_inv (take_lock HAND (Send 5 False) s')"
    by (rule flash_hal.rtt_step_inv [OF st_hal_flash_hal t s'(3)])
  have o: "pcs (take_lock HAND (Send 5 False) s') HAND = Own (Send 5 False)"
    by (simp add: take_lock_frame s'(8) l(1) rt_sem_init_def)
  show thesis
    by (rule that [OF r o i'])
      (use s'(2,4-9) l(2) in \<open>simp_all add: take_lock_frame, simp add: take_rx_def rt_sem_take_def rtt_init_def
         stm32_usart_sem_init_def rt_sem_init_def\<close>)
qed

lemma waiting_reachable:
  obtains s where "(rtt_step st_hal)\<^sup>*\<^sup>* (rtt_init (mb_with [])) s" "pcs s HAND = In_lock (Send 5 False)"
    "rtt_inv s" "\<not> gState_READY (port (rmb s))" "suspend_thread (usart_tx_lock s) = [HAND]"
proof -
  obtain s where s: "(rtt_step st_hal)\<^sup>*\<^sup>* (rtt_init (mb_with [])) s" "pcs s HAND = Own (Send 5 False)"
    "rtt_inv s" "rx_ready (port (rmb s))" "Device_Addr (base (rmb s)) = 1" "Freeze (base (rmb s)) = FREEZE_DISABLE"
    "ModBus_CallBack (base (rmb s)) = None" "sem_value (usart_sem s) = 0"
    "pcs s UP = At_head"
    by (rule owning_reachable)
  obtain s1 where 1: "(rtt_step st_hal)\<^sup>*\<^sup>* s s1" "at_rest s1" "usart_tx_lock s1 = usart_tx_lock s"
    "\<not> gState_READY (port (rmb s1))" "pcs s1 UP = pcs s UP"
    by (rule finish_run [OF st_hal_flash_hal s(3,2,4-8)])
  obtain s2 where 2: "(rtt_step st_hal)\<^sup>*\<^sup>* s1 s2" "pcs s2 = (pcs s1)(HAND := At_take (Send 5 False))" "rtt_inv s2"
    "rx_ready (port (rmb s2))" "Device_Addr (base (rmb s2)) = 1" "Freeze (base (rmb s2)) = FREEZE_DISABLE"
    "ModBus_CallBack (base (rmb s2)) = None" "usart_tx_lock s2 = usart_tx_lock s1"
    "usart_sem s2 = (usart_sem s1)\<lparr>suspend_thread := []\<rparr>"
    "gState_READY (port (rmb s2)) = gState_READY (port (rmb s1))"
    by (rule serve_run [OF st_hal_flash_hal 1(2)])
  have v: "sem_value (usart_tx_lock s2) = 0"
    using owner_ready(2) [OF s(3), of HAND] s(2) 1(3) 2(8) by simp
  let ?s3 = "take_lock HAND (Send 5 False) s2"
  have 3: "rtt_step st_hal s2 ?s3" by (rule take_step) (simp add: 2(2))
  have r: "(rtt_step st_hal)\<^sup>*\<^sup>* (rtt_init (mb_with [])) ?s3"
    using s(1) 1(1) 2(1) 3 by (meson rtranclp_trans rtranclp.rtrancl_into_rtrancl)
  have i: "rtt_inv ?s3" by (rule flash_hal.rtt_step_inv [OF st_hal_flash_hal 3 2(3)])
  have w: "pcs ?s3 HAND = In_lock (Send 5 False)" by (simp add: take_lock_frame v)
  have up: "pcs ?s3 UP = At_head" using s(9) 1(5) 2(2) by (simp add: take_lock_frame)
  have g: "\<not> gState_READY (port (rmb ?s3))" using 1(4) 2(10) by (simp add: take_lock_frame)
  have "\<not> waits (pcs ?s3 u)" if "u \<noteq> HAND" for u using that up by (cases u) simp_all
  with w have q: "suspend_thread (usart_tx_lock ?s3) = [HAND]" by (intro waiting_next [OF i]) simp_all
  show thesis by (rule that [OF r w i g q])
qed

lemma rtt_ready_with: "rtt_ready (mb_with [])"
  by (simp add: rtt_ready_def bufs_ok_with) (simp add: usart_reset_def)

theorem rtt_transmit_exclusive_witness:
  "\<exists>s s'. (rtt_step st_hal)\<^sup>*\<^sup>* (rtt_init (mb_with [])) s \<and> pcs s HAND = Own (Send 5 False)
     \<and> thread_step st_hal HAND (pcs s HAND) s = Some s' \<and> trace (port (rmb s')) \<noteq> trace (port (rmb s))"
proof -
  obtain s where s: "(rtt_step st_hal)\<^sup>*\<^sup>* (rtt_init (mb_with [])) s" "pcs s HAND = Own (Send 5 False)"
    by (rule owning_reachable)
  from rtt_transmit_exclusive [OF st_hal_flash_hal rtt_ready_with s] s show ?thesis by force
qed

theorem rtt_well_formed_witness:
  "\<exists>s. (rtt_step st_hal)\<^sup>*\<^sup>* (rtt_init (mb_with [])) s \<and> set (suspend_thread (usart_tx_lock s)) = {HAND}
     \<and> sem_value (usart_tx_lock s) = 0 \<and> length (Send_Buf (base (rmb s))) = 32"
proof -
  obtain s where s: "(rtt_step st_hal)\<^sup>*\<^sup>* (rtt_init (mb_with [])) s" "suspend_thread (usart_tx_lock s) = [HAND]"
    by (rule waiting_reachable)
  from rtt_well_formed [OF st_hal_flash_hal rtt_ready_with s(1)] s show ?thesis by (intro exI [of _ s]) auto
qed

theorem rtt_lock_granted_witness:
  "\<exists>s. (rtt_step st_hal)\<^sup>*\<^sup>* (rtt_init (mb_with [])) s \<and> waits (pcs s HAND)
     \<and> (\<exists>s'. (rtt_step st_hal)\<^sup>*\<^sup>* s s' \<and> ((\<exists>p. pcs s' HAND = Own p) \<or> (\<exists>u. pcs s' u = Halted)))"
proof -
  obtain s where s: "(rtt_step st_hal)\<^sup>*\<^sup>* (rtt_init (mb_with [])) s" "pcs s HAND = In_lock (Send 5 False)"
    by (rule waiting_reachable)
  then have "waits (pcs s HAND)" by simp
  with rtt_lock_granted [OF st_hal_flash_hal rtt_ready_with s(1) this] s(1) show ?thesis by blast
qed

theorem rtt_waited_message_unheard_witness:
  "\<exists>s s'. (rtt_step st_hal)\<^sup>*\<^sup>* (rtt_init (mb_with [])) s \<and> pcs s HAND = In_lock (Send 5 False)
     \<and> thread_step st_hal HAND (pcs (rtt_tx_end s) HAND) (rtt_tx_end s) = Some s'
     \<and> trace (port (rmb s')) = trace (port (rmb s)) @ [EvTx False (take 5 (Send_Buf (base (rmb s))))]"
proof -
  obtain s where s: "(rtt_step st_hal)\<^sup>*\<^sup>* (rtt_init (mb_with [])) s" "pcs s HAND = In_lock (Send 5 False)"
    "rtt_inv s" "\<not> gState_READY (port (rmb s))" "suspend_thread (usart_tx_lock s) = [HAND]"
    by (rule waiting_reachable)
  from rtt_waited_message_unheard [OF s(3,4,5,2), of st_hal] s(1,2) show ?thesis by force
qed

definition uploading :: mb where
  "uploading = (mb_with [])\<lparr>base := base0\<lparr>AutoUpload := 1\<rparr>\<rparr>"

lemma uploading_registers: "\<forall>k<14. holding (0x31 + of_nat k) uploading \<noteq> None"
proof -
  have "f_to_u16 (f_mul f32 (Fin 1) (f_of_int 100)) = Some 100" "f_to_u16 (Fin 0) = Some 0"
    by code_simp+
  then have "\<forall>k\<in>set [0..<14]. holding (0x31 + of_nat k) uploading \<noteq> None"
    by (simp add: upt_rec) (simp add: holding_def reg03_def uploading_def mb_with_def base0_def dev0_def convert_param0_def)
  then show ?thesis by simp
qed

theorem rtt_upload_overflows_witness:
  "\<exists>s. (rtt_step st_hal)\<^sup>*\<^sup>* (rtt_init uploading) s \<and> runnable (pcs s UP)
     \<and> thread_step st_hal UP (pcs s UP) s = None"
proof -
  have p: "port uploading = port (mb_with [])" by (simp add: uploading_def)
  have "rtt_ready uploading"
    using rtt_ready_with unfolding rtt_ready_def p by (simp add: uploading_def bufs_ok_def base0_def)
  moreover have "rx_ready (port uploading)" using rx_ready_reset p by simp
  moreover have "AutoUpload (base uploading) \<noteq> 0" "ModBus_CallBack (base uploading) = None"
    by (simp_all add: uploading_def base0_def)
  ultimately show ?thesis using rtt_upload_overflows [of uploading st_hal] uploading_registers by blast
qed

end
