(* ===== verification/RttSched.thy ===== *)
theory RttSched
  imports RttKernel
begin

text \<open>
  The scheduler of RT-Thread with its threads and their timers (\<open>scheduler.c\<close>, \<open>thread.c\<close>,
  \<open>timer.c\<close>, \<open>clock.c\<close> and \<open>__rt_ffs\<close> of \<open>kservice.c\<close>), in the configuration of \<open>rtconfig.h\<close>: one
  processor, 8 priorities, no signals, no software timers.

  A thread is a value of the type \<open>'t\<close>; \<open>kern\<close> holds the ready queues, the list of running timers
  and the control blocks.  The only timers are those of the threads, so a timer is named by its
  thread.  The list in which a suspended thread waits belongs to its semaphore (\<open>RttKernel\<close>).
  \<open>None\<close> is a failed \<open>RT_ASSERT\<close> or the use of an entry of an empty list.
\<close>

section \<open>The first bit set\<close>

definition lowest_bit_bitmap :: "u8 list" where
  "lowest_bit_bitmap =
    [0, 0, 1, 0, 2, 0, 1, 0, 3, 0, 1, 0, 2, 0, 1, 0,
     4, 0, 1, 0, 2, 0, 1, 0, 3, 0, 1, 0, 2, 0, 1, 0,
     5, 0, 1, 0, 2, 0, 1, 0, 3, 0, 1, 0, 2, 0, 1, 0,
     4, 0, 1, 0, 2, 0, 1, 0, 3, 0, 1, 0, 2, 0, 1, 0,
     6, 0, 1, 0, 2, 0, 1, 0, 3, 0, 1, 0, 2, 0, 1, 0,
     4, 0, 1, 0, 2, 0, 1, 0, 3, 0, 1, 0, 2, 0, 1, 0,
     5, 0, 1, 0, 2, 0, 1, 0, 3, 0, 1, 0, 2, 0, 1, 0,
     4, 0, 1, 0, 2, 0, 1, 0, 3, 0, 1, 0, 2, 0, 1, 0,
     7, 0, 1, 0, 2, 0, 1, 0, 3, 0, 1, 0, 2, 0, 1, 0,
     4, 0, 1, 0, 2, 0, 1, 0, 3, 0, 1, 0, 2, 0, 1, 0,
     5, 0, 1, 0, 2, 0, 1, 0, 3, 0, 1, 0, 2, 0, 1, 0,
     4, 0, 1, 0, 2, 0, 1, 0, 3, 0, 1, 0, 2, 0, 1, 0,
     6, 0, 1, 0, 2, 0, 1, 0, 3, 0, 1, 0, 2, 0, 1, 0,
     4, 0, 1, 0, 2, 0, 1, 0, 3, 0, 1, 0, 2, 0, 1, 0,
     5, 0, 1, 0, 2, 0, 1, 0, 3, 0, 1, 0, 2, 0, 1, 0,
     4, 0, 1, 0, 2, 0, 1, 0, 3, 0, 1, 0, 2, 0, 1, 0]"

definition rt_ffs :: "u32 \<Rightarrow> int" where
  "rt_ffs value =
     (if value = 0 then 0
      else if value AND 0xff \<noteq> 0 then uint (lowest_bit_bitmap ! unat (value AND 0xff)) + 1
      else if value AND 0xff00 \<noteq> 0
      then uint (lowest_bit_bitmap ! unat (drop_bit 8 (value AND 0xff00))) + 9
      else if value AND 0xff0000 \<noteq> 0
      then uint (lowest_bit_bitmap ! unat (drop_bit 16 (value AND 0xff0000))) + 17
      else uint (lowest_bit_bitmap ! unat (drop_bit 24 (value AND 0xff000000))) + 25)"

lemma bitmap_table:
  "list_all (\<lambda>n. let i = unat (lowest_bit_bitmap ! n) in i < 8 \<and> n mod 2 ^ Suc i = 2 ^ i) [1..<256]"
  by code_simp

lemma bitmap_bit:
  assumes "0 < n" "n < 256"
  shows "unat (lowest_bit_bitmap ! n) < 8" "bit n (unat (lowest_bit_bitmap ! n))"
    "j < unat (lowest_bit_bitmap ! n) \<Longrightarrow> \<not> bit n j"
proof -
  let ?i = "unat (lowest_bit_bitmap ! n)"
  have "?i < 8 \<and> n mod 2 ^ Suc ?i = 2 ^ ?i"
    using bitmap_table assms by (simp only: list_all_iff Let_def set_upt) auto
  then have i: "?i < 8" "take_bit (Suc ?i) n = 2 ^ ?i" by (simp_all add: take_bit_eq_mod)
  show "?i < 8" by (rule i(1))
  have "bit (take_bit (Suc ?i) n) j \<longleftrightarrow> j = ?i" for j unfolding i(2) by (simp add: bit_exp_iff)
  then have b: "j < Suc ?i \<and> bit n j \<longleftrightarrow> j = ?i" for j by (simp add: bit_take_bit_iff)
  show "bit n ?i" using b [of ?i] by simp
  show "j < ?i \<Longrightarrow> \<not> bit n j" using b [of j] by auto
qed

text \<open>One byte of a word.\<close>

lemma byte_first_bit:
  fixes v :: u32
  assumes "v AND push_bit m 0xff \<noteq> 0" "m \<le> 24" "\<And>j. j < m \<Longrightarrow> \<not> bit v j"
  shows "\<exists>i. uint (lowest_bit_bitmap ! unat (drop_bit m (v AND push_bit m 0xff))) + int m = int i
           \<and> bit v i \<and> (\<forall>j<i. \<not> bit v j)"
proof -
  define n where "n = unat (drop_bit m (v AND push_bit m 0xff))"
  have ff: "(0xff :: u32) = mask 8" by (simp add: mask_eq_exp_minus_1)
  have bits: "bit n j \<longleftrightarrow> j < 8 \<and> bit v (m + j)" for j
    using assms(2) unfolding ff n_def by (auto simp: bit_simps bit_unsigned_iff)
  obtain j where j: "bit v j" "m \<le> j" "j < m + 8"
  proof -
    obtain j where "bit (v AND push_bit m 0xff) j" using assms(1) by (auto simp: bit_eq_iff)
    then show thesis by (intro that [of j]) (auto simp: ff bit_simps)
  qed
  have "bit n (j - m)" using bits [of "j - m"] j by auto
  then have "0 < n" by (cases "n = 0") auto
  moreover have "n < 256"
  proof -
    have "take_bit 8 n = n" using bits by (intro bit_eqI) (auto simp only: bit_take_bit_iff)
    then show ?thesis using take_bit_nat_less_exp [of 8 n] by simp
  qed
  ultimately have b: "bit n (unat (lowest_bit_bitmap ! n))"
      "\<And>j. j < unat (lowest_bit_bitmap ! n) \<Longrightarrow> \<not> bit n j" "unat (lowest_bit_bitmap ! n) < 8"
    using bitmap_bit by blast+
  let ?i = "m + unat (lowest_bit_bitmap ! n)"
  have "bit v ?i" using b(1) bits by simp
  moreover have "\<not> bit v j" if "j < ?i" for j
  proof (cases "j < m")
    case False
    then have "j - m < unat (lowest_bit_bitmap ! n)" using that by simp
    then show ?thesis using b(2) [of "j - m"] bits [of "j - m"] b(3) False by simp
  qed (rule assms(3))
  moreover have "uint (lowest_bit_bitmap ! n) + int m = int ?i" by simp
  ultimately show ?thesis unfolding n_def [symmetric] by blast
qed

lemma and_zero_bits: "v AND push_bit m 0xff = (0 :: u32) \<Longrightarrow> m \<le> j \<Longrightarrow> j < m + 8 \<Longrightarrow> \<not> bit v j"
proof
  assume a: "v AND push_bit m 0xff = 0" "m \<le> j" "j < m + 8" "bit v j"
  have ff: "(0xff :: u32) = mask 8" by (simp add: mask_eq_exp_minus_1)
  have "j < 32" using bit_imp_le_length [OF a(4)] by simp
  then have "bit (v AND push_bit m 0xff) j" using a(2-4) unfolding ff by (auto simp: bit_simps)
  then show False using a(1) by simp
qed

lemma rt_ffs_first_bit:
  assumes "v \<noteq> 0"
  shows "\<exists>i. rt_ffs v = int i + 1 \<and> bit v i \<and> (\<forall>j<i. \<not> bit v j)"
proof -
  have m: "push_bit 0 (0xff::u32) = 0xff" "push_bit 8 (0xff::u32) = 0xff00" "push_bit 16 (0xff::u32) = 0xff0000"
    "push_bit 24 (0xff::u32) = 0xff000000" by simp_all
  note z = and_zero_bits [of v 0, unfolded m] and_zero_bits [of v 8, unfolded m] and_zero_bits [of v 16, unfolded m]
  have d0: "drop_bit 0 w = w" for w :: u32 by simp
  show ?thesis
  proof (cases "v AND 0xff = 0")
    case False
    then show ?thesis
      using byte_first_bit [of v 0] assms unfolding m d0 by (force simp: rt_ffs_def)
  next
    case 0: True
    show ?thesis
    proof (cases "v AND 0xff00 = 0")
      case False
      then show ?thesis
        using byte_first_bit [of v 8] assms 0 z(1) unfolding m by (force simp: rt_ffs_def)
    next
      case 8: True
      have l8: "j < 16 \<Longrightarrow> \<not> bit v j" for j using z(1) [OF 0, of j] z(2) [OF 8, of j] by fastforce
      show ?thesis
      proof (cases "v AND 0xff0000 = 0")
        case False
        then show ?thesis
          using byte_first_bit [of v 16] assms 0 8 l8 unfolding m by (force simp: rt_ffs_def)
      next
        case 16: True
        have l16: "j < 24 \<Longrightarrow> \<not> bit v j" for j using l8 [of j] z(3) [OF 16, of j] by fastforce
        have "v AND 0xff000000 \<noteq> 0"
        proof
          assume "v AND 0xff000000 = 0"
          from and_zero_bits [of v 24, unfolded m, OF this] l16 have "j < 32 \<Longrightarrow> \<not> bit v j" for j by (cases "j < 24") auto
          then have "\<not> bit v j" for j using bit_imp_le_length [of v j] by fastforce
          then show False using assms by (auto simp: bit_eq_iff)
        qed
        then show ?thesis
          using byte_first_bit [of v 24] assms 0 8 16 l16 unfolding m by (force simp: rt_ffs_def)
      qed
    qed
  qed
qed

section \<open>Threads and ready queues\<close>

abbreviation (input) RT_THREAD_PRIORITY_MAX :: nat where "RT_THREAD_PRIORITY_MAX \<equiv> 8"
abbreviation (input) RT_ETIMEOUT :: int where "RT_ETIMEOUT \<equiv> 2"
abbreviation (input) RT_TICK_MAX_HALF :: u32 where "RT_TICK_MAX_HALF \<equiv> 0x7fffffff"

datatype rt_stat =
  RT_THREAD_INIT | RT_THREAD_READY | RT_THREAD_SUSPEND | RT_THREAD_RUNNING | RT_THREAD_CLOSE

text \<open>\<open>slice\<close> is the field \<open>init_tick\<close> of the thread; \<open>timer_active\<close>, \<open>timer_init\<close> and
  \<open>timeout_tick\<close> are the flag, \<open>init_tick\<close> and \<open>timeout_tick\<close> of its \<open>thread_timer\<close>.\<close>

record rt_thread =
  stat :: rt_stat
  thr_error :: int
  init_priority :: u8
  thr_priority :: u8
  number_mask :: u32
  slice :: u32
  remaining_tick :: u32
  timer_active :: bool
  timer_init :: u32
  timeout_tick :: u32

record 't kern =
  priority_table :: "'t list list"
  ready_group :: u32
  lock_nest :: u16
  current_thread :: "'t option"
  cur_priority :: u8
  timer_list :: "'t list"
  rt_tick :: u32
  tcb :: "'t \<Rightarrow> rt_thread"

abbreviation (input) "on_tcb t g k \<equiv> k\<lparr>tcb := (tcb k)(t := g (tcb k t))\<rparr>"

definition prio_of :: "'t kern \<Rightarrow> 't \<Rightarrow> nat" where
  "prio_of k t = unat (thr_priority (tcb k t))"

definition rt_system_scheduler_init :: "'t kern \<Rightarrow> 't kern" where
  "rt_system_scheduler_init k =
     k\<lparr>lock_nest := 0, priority_table := replicate RT_THREAD_PRIORITY_MAX [], ready_group := 0\<rparr>"

definition get_highest_priority_thread :: "'t kern \<Rightarrow> (u32 \<times> 't) option" where
  "get_highest_priority_thread k =
     (let p = rt_ffs (ready_group k) - 1 in
      if p < 0 then None
      else do {
        row \<leftarrow> rd (priority_table k) (nat p);
        t \<leftarrow> rd row 0;
        Some (word_of_int p, t) })"

definition rt_schedule_insert_thread :: "'t \<Rightarrow> 't kern \<Rightarrow> 't kern option" where
  "rt_schedule_insert_thread t k =
     (if current_thread k = Some t then Some (on_tcb t (\<lambda>b. b\<lparr>stat := RT_THREAD_RUNNING\<rparr>) k)
      else do {
        let k = on_tcb t (\<lambda>b. b\<lparr>stat := RT_THREAD_READY\<rparr>) k;
        row \<leftarrow> rd (priority_table k) (prio_of k t);
        Some (k\<lparr>priority_table := (priority_table k)[prio_of k t := row @ [t]],
                ready_group := ready_group k OR number_mask (tcb k t)\<rparr>) })"

text \<open>\<open>rt_list_remove\<close> takes the thread off the queue that it is in.\<close>

definition rt_schedule_remove_thread :: "'t \<Rightarrow> 't kern \<Rightarrow> 't kern option" where
  "rt_schedule_remove_thread t k =
     (let k = k\<lparr>priority_table := map (removeAll t) (priority_table k)\<rparr> in
      do {
        row \<leftarrow> rd (priority_table k) (prio_of k t);
        Some (if row = [] then k\<lparr>ready_group := ready_group k AND NOT (number_mask (tcb k t))\<rparr> else k) })"

definition rt_system_scheduler_start :: "'t kern \<Rightarrow> 't kern option" where
  "rt_system_scheduler_start k = do {
     (hp, to) \<leftarrow> get_highest_priority_thread k;
     let k = k\<lparr>current_thread := Some to\<rparr>;
     k \<leftarrow> rt_schedule_remove_thread to k;
     Some (on_tcb to (\<lambda>b. b\<lparr>stat := RT_THREAD_RUNNING\<rparr>) k) }"

definition rt_schedule :: "'t kern \<Rightarrow> 't kern option" where
  "rt_schedule k =
     (if lock_nest k = 0 \<and> ready_group k \<noteq> 0 then do {
        (hp, to) \<leftarrow> get_highest_priority_thread k;
        c \<leftarrow> current_thread k;
        let running = (stat (tcb k c) = RT_THREAD_RUNNING);
        let keep = (running \<and> ucast (thr_priority (tcb k c)) < hp);
        let to = (if keep then c else to);
        let need_insert = (running \<and> \<not> keep);
        if to \<noteq> c then do {
          let k = k\<lparr>cur_priority := ucast hp, current_thread := Some to\<rparr>;
          k \<leftarrow> (if need_insert then rt_schedule_insert_thread c k else Some k);
          k \<leftarrow> rt_schedule_remove_thread to k;
          Some (on_tcb to (\<lambda>b. b\<lparr>stat := RT_THREAD_RUNNING\<rparr>) k) }
        else do {
          k \<leftarrow> rt_schedule_remove_thread c k;
          Some (on_tcb c (\<lambda>b. b\<lparr>stat := RT_THREAD_RUNNING\<rparr>) k) } }
      else Some k)"

definition rt_enter_critical :: "'t kern \<Rightarrow> 't kern" where
  "rt_enter_critical k = k\<lparr>lock_nest := lock_nest k + 1\<rparr>"

definition rt_exit_critical :: "'t kern \<Rightarrow> 't kern option" where
  "rt_exit_critical k =
     (let k = k\<lparr>lock_nest := lock_nest k - 1\<rparr> in
      if sint (lock_nest k) \<le> 0 then
        let k = k\<lparr>lock_nest := 0\<rparr> in
        if current_thread k \<noteq> None then rt_schedule k else Some k
      else Some k)"

section \<open>The timers of the threads\<close>

definition timer_remove :: "'t \<Rightarrow> 't kern \<Rightarrow> 't kern" where
  "timer_remove t k = k\<lparr>timer_list := removeAll t (timer_list k)\<rparr>"

text \<open>The search for the place of a timer that ends at \<open>new\<close>: behind those that end at the same
  tick or, on the 32-bit counter, before.\<close>

fun timer_place :: "('t \<Rightarrow> u32) \<Rightarrow> u32 \<Rightarrow> 't \<Rightarrow> 't list \<Rightarrow> 't list" where
  "timer_place ends new x [] = [x]"
| "timer_place ends new x (y # ys) =
     (if ends y - new = 0 then y # timer_place ends new x ys
      else if ends y - new < RT_TICK_MAX_HALF then x # y # ys
      else y # timer_place ends new x ys)"

definition rt_timer_start :: "'t \<Rightarrow> 't kern \<Rightarrow> 't kern option" where
  "rt_timer_start t k =
     (let k = on_tcb t (\<lambda>b. b\<lparr>timer_active := False\<rparr>) (timer_remove t k) in
      if timer_init (tcb k t) < RT_TICK_MAX_HALF then
        let k = on_tcb t (\<lambda>b. b\<lparr>timeout_tick := rt_tick k + timer_init b\<rparr>) k;
            k = k\<lparr>timer_list := timer_place (\<lambda>u. timeout_tick (tcb k u)) (timeout_tick (tcb k t)) t (timer_list k)\<rparr>
        in Some (on_tcb t (\<lambda>b. b\<lparr>timer_active := True\<rparr>) k)
      else None)"

definition rt_timer_stop :: "'t \<Rightarrow> 't kern \<Rightarrow> int \<times> 't kern" where
  "rt_timer_stop t k =
     (if \<not> timer_active (tcb k t) then (- RT_ERROR, k)
      else (RT_EOK, on_tcb t (\<lambda>b. b\<lparr>timer_active := False\<rparr>) (timer_remove t k)))"

section \<open>Operations on threads\<close>

text \<open>\<open>_rt_thread_init\<close>, without the stack.\<close>

definition rt_thread_init :: "'t \<Rightarrow> u8 \<Rightarrow> u32 \<Rightarrow> 't kern \<Rightarrow> 't kern option" where
  "rt_thread_init t priority n k =
     (if unat priority < RT_THREAD_PRIORITY_MAX then
        Some (on_tcb t (\<lambda>b. \<lparr>stat = RT_THREAD_INIT, thr_error = RT_EOK, init_priority = priority,
                thr_priority = priority, number_mask = 0, slice = n, remaining_tick = n,
                timer_active = False, timer_init = 0, timeout_tick = 0\<rparr>) k)
      else None)"

definition rt_thread_resume :: "'t \<Rightarrow> 't kern \<Rightarrow> (int \<times> 't kern) option" where
  "rt_thread_resume t k =
     (if stat (tcb k t) \<noteq> RT_THREAD_SUSPEND then Some (- RT_ERROR, k)
      else do {
        let k = k\<lparr>priority_table := map (removeAll t) (priority_table k)\<rparr>;
        let k = snd (rt_timer_stop t k);
        k \<leftarrow> rt_schedule_insert_thread t k;
        Some (RT_EOK, k) })"

definition rt_thread_startup :: "'t \<Rightarrow> 't kern \<Rightarrow> 't kern option" where
  "rt_thread_startup t k =
     (if stat (tcb k t) \<noteq> RT_THREAD_INIT then None
      else do {
        let k = on_tcb t (\<lambda>b. b\<lparr>thr_priority := init_priority b\<rparr>) k;
        let k = on_tcb t (\<lambda>b. b\<lparr>number_mask := push_bit (unat (thr_priority b)) 1\<rparr>) k;
        let k = on_tcb t (\<lambda>b. b\<lparr>stat := RT_THREAD_SUSPEND\<rparr>) k;
        (r, k) \<leftarrow> rt_thread_resume t k;
        if current_thread k \<noteq> None then rt_schedule k else Some k })"

definition rt_thread_suspend :: "'t \<Rightarrow> 't kern \<Rightarrow> (int \<times> 't kern) option" where
  "rt_thread_suspend t k =
     (let st = stat (tcb k t) in
      if st \<noteq> RT_THREAD_READY \<and> st \<noteq> RT_THREAD_RUNNING then Some (- RT_ERROR, k)
      else if st = RT_THREAD_RUNNING \<and> current_thread k \<noteq> Some t then None
      else do {
        k \<leftarrow> rt_schedule_remove_thread t k;
        let k = on_tcb t (\<lambda>b. b\<lparr>stat := RT_THREAD_SUSPEND\<rparr>) k;
        Some (RT_EOK, snd (rt_timer_stop t k)) })"

definition rt_thread_yield :: "'t kern \<Rightarrow> 't kern option" where
  "rt_thread_yield k = rt_schedule k"

text \<open>\<open>rt_thread_sleep\<close> up to the switch to another thread; what follows, when the thread has been
  resumed, is \<open>rt_thread_slept\<close>.\<close>

definition rt_thread_sleep :: "u32 \<Rightarrow> 't kern \<Rightarrow> 't kern option" where
  "rt_thread_sleep n k = do {
     t \<leftarrow> current_thread k;
     (r, k) \<leftarrow> rt_thread_suspend t k;
     let k = on_tcb t (\<lambda>b. b\<lparr>timer_init := n\<rparr>) k;
     k \<leftarrow> rt_timer_start t k;
     rt_schedule k }"

definition rt_thread_slept :: "'t \<Rightarrow> 't kern \<Rightarrow> 't kern" where
  "rt_thread_slept t k =
     (if thr_error (tcb k t) = - RT_ETIMEOUT then on_tcb t (\<lambda>b. b\<lparr>thr_error := RT_EOK\<rparr>) k else k)"

text \<open>\<open>RT_TICK_PER_SECOND\<close> is 1000; the arithmetic is that of \<open>int\<close>.\<close>

definition rt_tick_from_millisecond :: "32 word \<Rightarrow> u32" where
  "rt_tick_from_millisecond ms =
     (if sint ms < 0 then - 1
      else word_of_int (1000 * (sint ms div 1000)) + word_of_int ((1000 * (sint ms mod 1000) + 999) div 1000))"

definition rt_thread_mdelay :: "32 word \<Rightarrow> 't kern \<Rightarrow> 't kern option" where
  "rt_thread_mdelay ms k = rt_thread_sleep (rt_tick_from_millisecond ms) k"

section \<open>The system tick\<close>

definition rt_thread_timeout :: "'t \<Rightarrow> 't kern \<Rightarrow> 't kern option" where
  "rt_thread_timeout t k =
     (if stat (tcb k t) \<noteq> RT_THREAD_SUSPEND then None
      else do {
        let k = on_tcb t (\<lambda>b. b\<lparr>thr_error := - RT_ETIMEOUT\<rparr>) k;
        let k = k\<lparr>priority_table := map (removeAll t) (priority_table k)\<rparr>;
        k \<leftarrow> rt_schedule_insert_thread t k;
        rt_schedule k })"

text \<open>The scheduler leaves the timers and the clock alone.\<close>

definition same_time :: "'t kern \<Rightarrow> 't kern \<Rightarrow> bool" where
  "same_time k k' \<longleftrightarrow> timer_list k' = timer_list k \<and> rt_tick k' = rt_tick k \<and> lock_nest k' = lock_nest k"

lemma same_time_trans: "same_time k k' \<Longrightarrow> same_time k' k'' \<Longrightarrow> same_time k k''"
  by (simp add: same_time_def)

lemma insert_time: "rt_schedule_insert_thread t k = Some k' \<Longrightarrow> same_time k k'"
  by (auto simp: rt_schedule_insert_thread_def Let_def bind_eq_Some_conv same_time_def split: if_splits)

lemma remove_time: "rt_schedule_remove_thread t k = Some k' \<Longrightarrow> same_time k k'"
  by (auto simp: rt_schedule_remove_thread_def Let_def bind_eq_Some_conv same_time_def)

lemma schedule_time: "rt_schedule k = Some k' \<Longrightarrow> same_time k k'"
  by (auto simp: rt_schedule_def Let_def bind_eq_Some_conv same_time_def
      dest!: insert_time remove_time split: if_splits prod.splits)

lemma timeout_time: "rt_thread_timeout t k = Some k' \<Longrightarrow> same_time k k'"
  by (auto simp: rt_thread_timeout_def Let_def bind_eq_Some_conv same_time_def
      dest!: insert_time schedule_time split: if_splits)

text \<open>The loop of \<open>rt_timer_check\<close>.  The timers are one-shot.\<close>

function timer_check_loop :: "'t kern \<Rightarrow> 't kern option" where
  "timer_check_loop k =
     (case timer_list k of
        [] \<Rightarrow> Some k
      | t # ts \<Rightarrow>
          if rt_tick k - timeout_tick (tcb k t) < RT_TICK_MAX_HALF then
            Option.bind (rt_thread_timeout t (timer_remove t k))
              (\<lambda>k. timer_check_loop (on_tcb t (\<lambda>b. b\<lparr>timer_active := False\<rparr>) k))
          else Some k)"
  by pat_completeness auto
termination
proof (relation "measure (\<lambda>k. length (timer_list k))", goal_cases)
  case (2 k t ts k')
  then show ?case
    by (auto dest!: timeout_time simp: same_time_def timer_remove_def less_Suc_eq_le)
qed simp

declare timer_check_loop.simps [simp del]

definition rt_timer_check :: "'t kern \<Rightarrow> 't kern option" where
  "rt_timer_check k = timer_check_loop k"

definition rt_tick_increase :: "'t kern \<Rightarrow> 't kern option" where
  "rt_tick_increase k = do {
     let k = k\<lparr>rt_tick := rt_tick k + 1\<rparr>;
     t \<leftarrow> current_thread k;
     let k = on_tcb t (\<lambda>b. b\<lparr>remaining_tick := remaining_tick b - 1\<rparr>) k;
     k \<leftarrow> (if remaining_tick (tcb k t) = 0
          then rt_thread_yield (on_tcb t (\<lambda>b. b\<lparr>remaining_tick := slice b\<rparr>) k) else Some k);
     rt_timer_check k }"

section \<open>The ready queues\<close>

definition started :: "rt_thread \<Rightarrow> bool" where
  "started b \<longleftrightarrow> stat b \<noteq> RT_THREAD_INIT \<and> stat b \<noteq> RT_THREAD_CLOSE"

text \<open>The queue of a priority holds each ready thread of that priority once; the group has the
  bits of the queues that are not empty.\<close>

definition queues_ok :: "'t kern \<Rightarrow> bool" where
  "queues_ok k \<longleftrightarrow> length (priority_table k) = 8
     \<and> (\<forall>p<8. distinct (priority_table k ! p)
            \<and> set (priority_table k ! p) = {t. stat (tcb k t) = RT_THREAD_READY \<and> prio_of k t = p})
     \<and> (\<forall>p. bit (ready_group k) p \<longleftrightarrow> p < 8 \<and> priority_table k ! p \<noteq> [])
     \<and> (\<forall>t. started (tcb k t) \<longrightarrow> prio_of k t < 8 \<and> number_mask (tcb k t) = 2 ^ prio_of k t)"

lemma queues_started:
  "queues_ok k \<Longrightarrow> started (tcb k t) \<Longrightarrow> prio_of k t < 8 \<and> number_mask (tcb k t) = 2 ^ prio_of k t
     \<and> length (priority_table k) = 8"
  by (simp add: queues_ok_def)

lemma in_queue: "queues_ok k \<Longrightarrow> p < 8 \<Longrightarrow>
    t \<in> set (priority_table k ! p) \<longleftrightarrow> stat (tcb k t) = RT_THREAD_READY \<and> prio_of k t = p"
  by (simp add: queues_ok_def)

lemma group_bit: "queues_ok k \<Longrightarrow> bit (ready_group k) p \<longleftrightarrow> p < 8 \<and> priority_table k ! p \<noteq> []"
  by (simp add: queues_ok_def)

lemma ready_queued:
  assumes "queues_ok k" "stat (tcb k t) = RT_THREAD_READY"
  shows "prio_of k t < 8" "t \<in> set (priority_table k ! prio_of k t)" "bit (ready_group k) (prio_of k t)"
proof -
  show p: "prio_of k t < 8" using queues_started [OF assms(1), of t] assms(2) by (simp add: started_def)
  show q: "t \<in> set (priority_table k ! prio_of k t)" using in_queue [OF assms(1) p] assms(2) by simp
  show "bit (ready_group k) (prio_of k t)" using group_bit [OF assms(1)] p q by force
qed

lemma group_ready: "queues_ok k \<Longrightarrow> ready_group k \<noteq> 0 \<longleftrightarrow> (\<exists>t. stat (tcb k t) = RT_THREAD_READY)"
proof
  assume q: "queues_ok k" and "ready_group k \<noteq> 0"
  then obtain p where "bit (ready_group k) p" by (auto simp: bit_eq_iff)
  then have "p < 8" "priority_table k ! p \<noteq> []" using group_bit [OF q] by simp_all
  then obtain t where "t \<in> set (priority_table k ! p)" by (metis last_in_set)
  then show "\<exists>t. stat (tcb k t) = RT_THREAD_READY" using in_queue [OF q \<open>p < 8\<close>] by blast
next
  assume "queues_ok k" and "\<exists>t. stat (tcb k t) = RT_THREAD_READY"
  then show "ready_group k \<noteq> 0" using ready_queued(3) by fastforce
qed

lemma highest_found:
  assumes "queues_ok k" "stat (tcb k u) = RT_THREAD_READY"
  obtains p t where "get_highest_priority_thread k = Some (of_nat p, t)" "p < 8" "prio_of k t = p"
    "stat (tcb k t) = RT_THREAD_READY" "\<And>u. stat (tcb k u) = RT_THREAD_READY \<Longrightarrow> p \<le> prio_of k u"
proof -
  have "ready_group k \<noteq> 0" using group_ready [OF assms(1)] assms(2) by blast
  from rt_ffs_first_bit [OF this] obtain p where p: "rt_ffs (ready_group k) = int p + 1"
      "bit (ready_group k) p" "\<And>j. j < p \<Longrightarrow> \<not> bit (ready_group k) j" by blast
  then have p8: "p < 8" "priority_table k ! p \<noteq> []" "length (priority_table k) = 8"
    using group_bit [OF assms(1)] assms(1) by (simp_all add: queues_ok_def)
  then obtain t ts where t: "priority_table k ! p = t # ts" by (cases "priority_table k ! p") auto
  then have "t \<in> set (priority_table k ! p)" by simp
  then have r: "stat (tcb k t) = RT_THREAD_READY" "prio_of k t = p"
    using in_queue [OF assms(1) p8(1)] by simp_all
  have least: "p \<le> prio_of k u" if u: "stat (tcb k u) = RT_THREAD_READY" for u
    using ready_queued(3) [OF assms(1) u] p(3) not_less by blast
  show thesis
    by (rule that [OF _ p8(1) r(2,1) least])
      (use p(1) p8 t in \<open>simp_all add: get_highest_priority_thread_def Let_def\<close>)
qed

lemma insert_ready:
  assumes "queues_ok k" "started (tcb k t)" "stat (tcb k t) \<noteq> RT_THREAD_READY" "current_thread k \<noteq> Some t"
  obtains k' where "rt_schedule_insert_thread t k = Some k'" "queues_ok k'"
    "tcb k' = (tcb k)(t := (tcb k t)\<lparr>stat := RT_THREAD_READY\<rparr>)" "current_thread k' = current_thread k"
    "cur_priority k' = cur_priority k"
proof -
  note s = queues_started [OF assms(1,2)]
  let ?p = "prio_of k t"
  let ?k = "k\<lparr>tcb := (tcb k)(t := (tcb k t)\<lparr>stat := RT_THREAD_READY\<rparr>),
              priority_table := (priority_table k)[?p := priority_table k ! ?p @ [t]],
              ready_group := ready_group k OR number_mask (tcb k t)\<rparr>"
  have pr: "prio_of ?k u = prio_of k u" for u by (simp add: prio_of_def)
  have "rt_schedule_insert_thread t k = Some ?k"
    using s assms(4) by (simp add: rt_schedule_insert_thread_def Let_def prio_of_def)
  moreover have "queues_ok ?k"
    unfolding queues_ok_def pr
  proof (intro conjI allI impI)
    show "length (priority_table ?k) = 8" using s by simp
  next
    fix p :: nat assume p: "p < 8"
    have q: "distinct (priority_table k ! p)"
        "set (priority_table k ! p) = {t. stat (tcb k t) = RT_THREAD_READY \<and> prio_of k t = p}"
      using assms(1) p by (simp_all add: queues_ok_def)
    have n: "t \<notin> set (priority_table k ! p)" using q(2) assms(3) by simp
    show "distinct (priority_table ?k ! p)" using q(1) n s by (simp add: nth_list_update)
    show "set (priority_table ?k ! p) = {u. stat (tcb ?k u) = RT_THREAD_READY \<and> prio_of k u = p}"
      using q(2) s p by (auto simp: nth_list_update)
  next
    fix p
    have "bit (2 ^ ?p :: u32) p \<longleftrightarrow> p = ?p" using s by (auto simp: bit_exp_iff)
    then show "bit (ready_group ?k) p \<longleftrightarrow> p < 8 \<and> priority_table ?k ! p \<noteq> []"
      using s group_bit [OF assms(1), of p] by (auto simp: bit_or_iff nth_list_update)
  next
    fix u assume "started (tcb ?k u)"
    then have "started (tcb k u)" using assms(2) by (cases "u = t") simp_all
    then show "prio_of k u < 8" "number_mask (tcb ?k u) = 2 ^ prio_of k u"
      using queues_started [OF assms(1)] by auto
  qed
  ultimately show thesis by (rule that) simp_all
qed

text \<open>A ready thread is taken out and gets another state; a thread that is in no queue stays
  where it is.\<close>

lemma remove_ready:
  assumes "queues_ok k" "stat (tcb k t) = RT_THREAD_READY" "x \<noteq> RT_THREAD_READY"
  obtains k' where "rt_schedule_remove_thread t k = Some k'"
    "queues_ok (on_tcb t (\<lambda>b. b\<lparr>stat := x\<rparr>) k')"
    "tcb k' = tcb k" "current_thread k' = current_thread k" "cur_priority k' = cur_priority k"
proof -
  have s: "prio_of k t < 8" "number_mask (tcb k t) = 2 ^ prio_of k t" "length (priority_table k) = 8"
    using queues_started [OF assms(1), of t] assms(2) by (simp_all add: started_def)
  let ?p = "prio_of k t" and ?T = "map (removeAll t) (priority_table k)"
  let ?g = "if removeAll t (priority_table k ! ?p) = [] then ready_group k AND NOT (number_mask (tcb k t))
            else ready_group k"
  let ?k = "k\<lparr>priority_table := ?T, ready_group := ?g\<rparr>"
  let ?k2 = "on_tcb t (\<lambda>b. b\<lparr>stat := x\<rparr>) ?k"
  have pr: "prio_of ?k2 u = prio_of k u" for u by (simp add: prio_of_def)
  have "rt_schedule_remove_thread t k = Some ?k"
    using s by (auto simp: rt_schedule_remove_thread_def Let_def prio_of_def)
  moreover have "queues_ok ?k2"
    unfolding queues_ok_def pr
  proof (intro conjI allI impI)
    show "length (priority_table ?k2) = 8" using s by simp
  next
    fix p :: nat assume p: "p < 8"
    have q: "distinct (priority_table k ! p)"
        "set (priority_table k ! p) = {t. stat (tcb k t) = RT_THREAD_READY \<and> prio_of k t = p}"
      using assms(1) p by (simp_all add: queues_ok_def)
    show "distinct (priority_table ?k2 ! p)" using q(1) s p by (simp add: distinct_removeAll)
    show "set (priority_table ?k2 ! p) = {u. stat (tcb ?k2 u) = RT_THREAD_READY \<and> prio_of k u = p}"
      using q(2) s p assms(3) by auto
  next
    fix p
    note b = group_bit [OF assms(1), of p]
    have m: "bit (NOT (2 ^ ?p) :: u32) p \<longleftrightarrow> p < 32 \<and> p \<noteq> ?p" using s by (auto simp: bit_not_iff bit_exp_iff)
    have ne: "priority_table k ! ?p \<noteq> []" using ready_queued(2) [OF assms(1,2)] by auto
    show "bit (ready_group ?k2) p \<longleftrightarrow> p < 8 \<and> priority_table ?k2 ! p \<noteq> []"
    proof (cases "p = ?p")
      case True
      then show ?thesis using b m s ne by (simp add: bit_and_iff)
    next
      case False
      then have "p < 8 \<Longrightarrow> removeAll t (priority_table k ! p) = priority_table k ! p"
        using in_queue [OF assms(1), of p t] by simp
      moreover have "p < 8 \<Longrightarrow> p < 32" by simp
      ultimately show ?thesis using b m s False by (auto simp: bit_and_iff)
    qed
  next
    fix u assume "started (tcb ?k2 u)"
    then have "started (tcb k u)" using assms(2) by (cases "u = t") (simp_all add: started_def)
    then show "prio_of k u < 8" "number_mask (tcb ?k2 u) = 2 ^ prio_of k u"
      using queues_started [OF assms(1)] by auto
  qed
  ultimately show thesis by (rule that) simp_all
qed

lemma not_queued:
  assumes "queues_ok k" "stat (tcb k t) \<noteq> RT_THREAD_READY"
  shows "map (removeAll t) (priority_table k) = priority_table k"
proof (rule map_idI)
  fix row assume "row \<in> set (priority_table k)"
  then obtain p where "p < 8" "row = priority_table k ! p" using assms(1) by (auto simp: in_set_conv_nth queues_ok_def)
  then show "removeAll t row = row" using in_queue [OF assms(1), of p t] assms(2) by simp
qed

lemma remove_absent:
  assumes "queues_ok k" "stat (tcb k t) \<noteq> RT_THREAD_READY" "started (tcb k t)"
  shows "rt_schedule_remove_thread t k = Some k"
proof -
  note s = queues_started [OF assms(1,3)]
  have "ready_group k AND NOT (2 ^ prio_of k t) = ready_group k" if "priority_table k ! prio_of k t = []"
  proof (rule bit_word_eqI)
    fix p :: nat assume "p < LENGTH(32)"
    then show "bit (ready_group k AND NOT (2 ^ prio_of k t)) p = bit (ready_group k) p"
      using that group_bit [OF assms(1), of "prio_of k t"] by (auto simp: bit_and_iff bit_not_iff bit_exp_iff)
  qed
  then show ?thesis
    using s not_queued [OF assms(1,2)] by (auto simp: rt_schedule_remove_thread_def Let_def prio_of_def)
qed

section \<open>Scheduling\<close>

abbreviation active :: "rt_thread \<Rightarrow> bool" where
  "active b \<equiv> stat b = RT_THREAD_READY \<or> stat b = RT_THREAD_RUNNING"

text \<open>Between the operations: only the current thread is running; it may have suspended itself and not
  yet called \<open>rt_schedule\<close>.\<close>

definition sched_ok :: "'t kern \<Rightarrow> bool" where
  "sched_ok k \<longleftrightarrow> queues_ok k \<and> (\<forall>t. stat (tcb k t) = RT_THREAD_RUNNING \<longrightarrow> current_thread k = Some t)
     \<and> (\<exists>c. current_thread k = Some c \<and> (stat (tcb k c) = RT_THREAD_RUNNING \<or> stat (tcb k c) = RT_THREAD_SUSPEND))"

lemma sched_queues: "sched_ok k \<Longrightarrow> queues_ok k"
  by (simp add: sched_ok_def)

lemma sched_running: "sched_ok k \<Longrightarrow> stat (tcb k t) = RT_THREAD_RUNNING \<Longrightarrow> current_thread k = Some t"
  by (simp add: sched_ok_def)

lemma sched_current:
  "sched_ok k \<Longrightarrow> current_thread k = Some c \<Longrightarrow> stat (tcb k c) = RT_THREAD_RUNNING \<or> stat (tcb k c) = RT_THREAD_SUSPEND"
  unfolding sched_ok_def by (metis option.inject)

lemma sched_okI:
  assumes "queues_ok k" "current_thread k = Some c" "stat (tcb k c) = RT_THREAD_RUNNING \<or> stat (tcb k c) = RT_THREAD_SUSPEND"
    and "\<And>t. stat (tcb k t) = RT_THREAD_RUNNING \<Longrightarrow> t = c"
  shows "sched_ok k"
  using assms unfolding sched_ok_def by blast

text \<open>What the scheduler promises.\<close>

definition runs_highest :: "'t kern \<Rightarrow> bool" where
  "runs_highest k \<longleftrightarrow>
     (\<exists>c. current_thread k = Some c \<and> stat (tcb k c) = RT_THREAD_RUNNING
        \<and> (\<forall>t. stat (tcb k t) = RT_THREAD_READY \<longrightarrow> prio_of k c \<le> prio_of k t))"

text \<open>Scheduling changes nothing but which of the active threads is running.\<close>

definition restat :: "'t kern \<Rightarrow> 't kern \<Rightarrow> bool" where
  "restat k k' \<longleftrightarrow> same_time k k'
     \<and> (\<forall>t. tcb k' t = (tcb k t)\<lparr>stat := stat (tcb k' t)\<rparr> \<and> (active (tcb k' t) \<longleftrightarrow> active (tcb k t))
          \<and> (\<not> active (tcb k t) \<longrightarrow> stat (tcb k' t) = stat (tcb k t)))"

lemma restat_refl [simp]: "restat k k"
  by (simp add: restat_def same_time_def)

lemma restat_prio: "restat k k' \<Longrightarrow> prio_of k' t = prio_of k t"
  unfolding restat_def prio_of_def by (metis rt_thread.ext_inject rt_thread.surjective rt_thread.update_convs(1))

lemma prio_less: "p < 8 \<Longrightarrow> ucast (thr_priority (tcb k c)) < (of_nat p :: u32) \<longleftrightarrow> prio_of k c < p"
  by (simp add: word_less_nat_alt unat_of_nat prio_of_def unat_ucast_up)

lemma schedule_switch:
  assumes "sched_ok k" "lock_nest k = 0" "current_thread k = Some c" "stat (tcb k u) = RT_THREAD_READY"
    and "stat (tcb k c) = RT_THREAD_RUNNING \<Longrightarrow> \<exists>t. stat (tcb k t) = RT_THREAD_READY \<and> prio_of k t \<le> prio_of k c"
  obtains k' where "rt_schedule k = Some k'" "sched_ok k'" "restat k k'" "runs_highest k'"
proof -
  note q = sched_queues [OF assms(1)]
  obtain p t where t: "get_highest_priority_thread k = Some (of_nat p, t)" "p < 8" "prio_of k t = p"
      "stat (tcb k t) = RT_THREAD_READY" "\<And>u. stat (tcb k u) = RT_THREAD_READY \<Longrightarrow> p \<le> prio_of k u"
    using highest_found [OF q assms(4)] by metis
  let ?run = "stat (tcb k c) = RT_THREAD_RUNNING"
  have nk: "\<not> (?run \<and> ucast (thr_priority (tcb k c)) < (of_nat p :: u32))"
  proof
    assume a: "?run \<and> ucast (thr_priority (tcb k c)) < (of_nat p :: u32)"
    then have "prio_of k c < p" using prio_less [OF t(2), of k c] by simp
    moreover obtain v where "stat (tcb k v) = RT_THREAD_READY" "prio_of k v \<le> prio_of k c" using assms(5) a by blast
    ultimately show False using t(5) [of v] by simp
  qed
  have c: "t \<noteq> c" using sched_current [OF assms(1,3)] t(4) by auto
  have run: "stat (tcb k v) = RT_THREAD_RUNNING \<Longrightarrow> v = c" for v using sched_running [OF assms(1), of v] assms(3) by simp
  have g: "ready_group k \<noteq> 0" using group_ready [OF q] assms(4) by blast
  let ?k1 = "k\<lparr>cur_priority := ucast (of_nat p :: u32), current_thread := Some t\<rparr>"
  have q1: "queues_ok ?k1" using q by (simp add: queues_ok_def prio_of_def)
  obtain k2 where k2: "(if ?run then rt_schedule_insert_thread c ?k1 else Some ?k1) = Some k2" "queues_ok k2"
      "tcb k2 = (if ?run then (tcb k)(c := (tcb k c)\<lparr>stat := RT_THREAD_READY\<rparr>) else tcb k)"
      "current_thread k2 = Some t"
  proof (cases ?run)
    case True
    then show thesis
      using insert_ready [OF q1, of c] that c by (auto simp: started_def)
  qed (use q1 that in auto)
  have "stat (tcb k2 t) = RT_THREAD_READY" using k2(3) t(4) c by simp
  then obtain k3 where k3: "rt_schedule_remove_thread t k2 = Some k3"
      "queues_ok (on_tcb t (\<lambda>b. b\<lparr>stat := RT_THREAD_RUNNING\<rparr>) k3)" "tcb k3 = tcb k2" "current_thread k3 = Some t"
    using remove_ready [OF k2(2), of t RT_THREAD_RUNNING] k2(4) by auto
  let ?k' = "on_tcb t (\<lambda>b. b\<lparr>stat := RT_THREAD_RUNNING\<rparr>) k3"
  have 1: "rt_schedule k = Some ?k'"
    using assms(2,3) g t(1) nk c k2(1) k3(1) by (auto simp: rt_schedule_def Let_def split: if_splits)
  have st: "tcb ?k' v = (if v = t then (tcb k t)\<lparr>stat := RT_THREAD_RUNNING\<rparr>
        else if v = c \<and> ?run then (tcb k c)\<lparr>stat := RT_THREAD_READY\<rparr> else tcb k v)" for v
    using k2(3) k3(3) c by simp
  have r: "restat k ?k'"
    using schedule_time [OF 1] t(4) unfolding restat_def st by simp
  have un: "v = t" if "stat (tcb ?k' v) = RT_THREAD_RUNNING" for v
  proof (rule ccontr)
    assume "v \<noteq> t"
    with that have "stat (tcb k v) = RT_THREAD_RUNNING" "\<not> (v = c \<and> ?run)" unfolding st by (simp_all split: if_splits)
    with run show False by metis
  qed
  have s: "sched_ok ?k'"
    by (rule sched_okI [OF k3(2) _ _ un]) (use k3(4) in simp_all)
  have "runs_highest ?k'"
    unfolding runs_highest_def restat_prio [OF r]
  proof (intro exI [of _ t] conjI allI impI)
    fix v assume "stat (tcb ?k' v) = RT_THREAD_READY"
    then have v: "stat (tcb k v) = RT_THREAD_READY \<or> v = c \<and> ?run"
      unfolding st by (simp split: if_splits)
    show "prio_of k t \<le> prio_of k v"
    proof (cases "stat (tcb k v) = RT_THREAD_READY")
      case True
      then show ?thesis using t(3,5) by simp
    next
      case False
      then have "v = c" "?run" using v by auto
      then show ?thesis using assms(5) t(3,5) by (metis order_trans)
    qed
  qed (use k3(4) in simp_all)
  with 1 s r show thesis by (rule that)
qed

lemma schedule_ok:
  assumes "sched_ok k" "active (tcb k i)"
  obtains k' where "rt_schedule k = Some k'" "sched_ok k'" "restat k k'" "lock_nest k = 0 \<longrightarrow> runs_highest k'"
proof (cases "lock_nest k = 0 \<and> (\<exists>u. stat (tcb k u) = RT_THREAD_READY)")
  case False
  note q = sched_queues [OF assms(1)]
  have "rt_schedule k = Some k"
    using False group_ready [OF q] by (auto simp: rt_schedule_def)
  moreover have "runs_highest k" if "lock_nest k = 0"
    using that False assms by (auto simp: runs_highest_def sched_ok_def)
  ultimately show thesis using that assms(1) by simp
next
  case True
  then obtain u where u: "lock_nest k = 0" "stat (tcb k u) = RT_THREAD_READY" by blast
  note q = sched_queues [OF assms(1)]
  obtain c where c: "current_thread k = Some c"
      "stat (tcb k c) = RT_THREAD_RUNNING \<or> stat (tcb k c) = RT_THREAD_SUSPEND"
    using assms(1) by (auto simp: sched_ok_def)
  show thesis
  proof (cases "stat (tcb k c) = RT_THREAD_RUNNING \<and> (\<forall>t. stat (tcb k t) = RT_THREAD_READY \<longrightarrow> prio_of k c < prio_of k t)")
    case False
    then have "stat (tcb k c) = RT_THREAD_RUNNING \<Longrightarrow> \<exists>t. stat (tcb k t) = RT_THREAD_READY \<and> prio_of k t \<le> prio_of k c"
      by (meson not_less)
    then show thesis using schedule_switch [OF assms(1) u(1) c(1) u(2)] that by metis
  next
    case keep: True
    obtain p t where t: "get_highest_priority_thread k = Some (of_nat p, t)" "p < 8" "prio_of k t = p"
        "stat (tcb k t) = RT_THREAD_READY" using highest_found [OF q u(2)] by metis
    have "ucast (thr_priority (tcb k c)) < (of_nat p :: u32)"
      using keep t(3,4) prio_less [OF t(2), of k c] by blast
    moreover have "rt_schedule_remove_thread c k = Some k"
      by (rule remove_absent [OF q]) (use keep in \<open>simp_all add: started_def\<close>)
    moreover have "(tcb k)(c := (tcb k c)\<lparr>stat := RT_THREAD_RUNNING\<rparr>) = tcb k" using keep by (simp add: fun_upd_idem)
    ultimately have "rt_schedule k = Some k"
      using u c(1) t(1) keep group_ready [OF q] by (auto simp: rt_schedule_def Let_def)
    moreover have "runs_highest k" using keep c(1) by (auto simp: runs_highest_def)
    ultimately show thesis using that assms(1) by simp
  qed
qed

end
