(* ===== verification/RttTick.thy ===== *)
theory RttTick
  imports RttSched
begin

text \<open>
  Invariants of the kernel of \<open>RttSched\<close> and what its operations do to them.  \<open>kern_inv\<close> says that the
  ready queues are consistent, the timers are in the order in which they end, and, while the
  scheduler is not locked, the current thread has the highest priority of the active ones.  Each
  operation has a lemma \<open>..._kern\<close>: it returns, it keeps the invariant, and \<open>moved\<close> says
  which threads it concerns.
\<close>

section \<open>Timers in order\<close>

definition left_at :: "u32 \<Rightarrow> 't kern \<Rightarrow> 't \<Rightarrow> nat" where
  "left_at T k t = unat (timeout_tick (tcb k t) - T)"

definition timers_at :: "u32 \<Rightarrow> 't kern \<Rightarrow> bool" where
  "timers_at T k \<longleftrightarrow> distinct (timer_list k) \<and> sorted (map (left_at T k) (timer_list k))
     \<and> (\<forall>t\<in>set (timer_list k). timer_active (tcb k t) \<and> stat (tcb k t) = RT_THREAD_SUSPEND
          \<and> left_at T k t < 0x7fffffff)"

definition kern_ok :: "'t \<Rightarrow> 't kern \<Rightarrow> bool" where
  "kern_ok i k \<longleftrightarrow> sched_ok k \<and> timers_at (rt_tick k) k \<and> active (tcb k i)"

definition kern_inv :: "'t \<Rightarrow> 't kern \<Rightarrow> bool" where
  "kern_inv i k \<longleftrightarrow> kern_ok i k \<and> (lock_nest k = 0 \<longrightarrow> runs_highest k)"

text \<open>What an operation leaves of a thread that it does not concern.\<close>

definition stays :: "'t kern \<Rightarrow> 't kern \<Rightarrow> 't \<Rightarrow> bool" where
  "stays k k' u \<longleftrightarrow> (active (tcb k' u) \<longleftrightarrow> active (tcb k u)) \<and> (\<not> active (tcb k u) \<longrightarrow> stat (tcb k' u) = stat (tcb k u))
     \<and> (u \<in> set (timer_list k') \<longleftrightarrow> u \<in> set (timer_list k)) \<and> timeout_tick (tcb k' u) = timeout_tick (tcb k u)
     \<and> thr_error (tcb k' u) = thr_error (tcb k u)"

text \<open>An operation concerns the threads in \<open>A\<close>: the others stay active or inactive as they are, and
  their timers go on.\<close>

definition moved :: "'t set \<Rightarrow> 't kern \<Rightarrow> 't kern \<Rightarrow> bool" where
  "moved A k k' \<longleftrightarrow> (\<forall>u. started (tcb k u) \<longrightarrow> started (tcb k' u) \<and> prio_of k' u = prio_of k u)
     \<and> (\<forall>u. u \<notin> A \<longrightarrow> stays k k' u)"

lemma moved_prio: "moved A k k' \<Longrightarrow> started (tcb k u) \<Longrightarrow> started (tcb k' u) \<and> prio_of k' u = prio_of k u"
  by (simp add: moved_def)

lemma moved_trans:
  assumes "moved A k k'" "moved B k' k''"
  shows "moved (A \<union> B) k k''"
proof -
  have "started (tcb k'' u) \<and> prio_of k'' u = prio_of k u" if "started (tcb k u)" for u
    using that moved_prio [OF assms(1)] moved_prio [OF assms(2), of u] by simp
  moreover have "stays k k'' u" if "u \<notin> A \<union> B" for u
    using that assms by (simp add: moved_def stays_def)
  ultimately show ?thesis by (simp add: moved_def)
qed

lemma moved_trans1: "moved A k k' \<Longrightarrow> moved A k' k'' \<Longrightarrow> moved A k k''"
  using moved_trans [of A k k' A k''] by simp

lemma moved_mono: "moved A k k' \<Longrightarrow> A \<subseteq> B \<Longrightarrow> moved B k k'"
  unfolding moved_def by blast

lemma moved_out:
  assumes "moved A k k'" "u \<notin> A"
  shows "active (tcb k' u) \<longleftrightarrow> active (tcb k u)" "\<not> active (tcb k u) \<Longrightarrow> stat (tcb k' u) = stat (tcb k u)"
    "u \<in> set (timer_list k') \<longleftrightarrow> u \<in> set (timer_list k)" "timeout_tick (tcb k' u) = timeout_tick (tcb k u)"
    "thr_error (tcb k' u) = thr_error (tcb k u)"
  using assms by (simp_all add: moved_def stays_def)

lemma restat_timer: "restat k k' \<Longrightarrow> timer_active (tcb k' t) = timer_active (tcb k t) \<and> timeout_tick (tcb k' t) = timeout_tick (tcb k t)
     \<and> thr_error (tcb k' t) = thr_error (tcb k t)"
  unfolding restat_def
  by (metis rt_thread.select_convs(2,8,10) rt_thread.surjective rt_thread.update_convs(1))

lemma restat_started: "restat k k' \<Longrightarrow> started (tcb k t) \<Longrightarrow> started (tcb k' t)"
  unfolding restat_def started_def by (metis rt_stat.distinct(1,3,5,7,13,17,19))

lemma restat_timers:
  assumes "restat k k'"
  shows "timers_at T k' = timers_at T k" "moved {} k k'" "rt_tick k' = rt_tick k" "timer_list k' = timer_list k"
proof -
  show l: "timer_list k' = timer_list k" "rt_tick k' = rt_tick k" using assms by (simp_all add: restat_def same_time_def)
  have "left_at T k' = left_at T k" using restat_timer [OF assms] by (simp add: left_at_def fun_eq_iff)
  moreover have "stat (tcb k' t) = RT_THREAD_SUSPEND \<longleftrightarrow> stat (tcb k t) = RT_THREAD_SUSPEND" for t
  proof -
    have "active (tcb k' t) \<longleftrightarrow> active (tcb k t)" "\<not> active (tcb k t) \<Longrightarrow> stat (tcb k' t) = stat (tcb k t)"
      using assms by (simp_all add: restat_def)
    then show ?thesis by (cases "stat (tcb k t)") auto
  qed
  ultimately show "timers_at T k' = timers_at T k" using l restat_timer [OF assms] by (simp add: timers_at_def)
  show "moved {} k k'"
    using l restat_timer [OF assms] restat_prio [OF assms] assms restat_started [OF assms]
    by (simp add: moved_def stays_def restat_def)
qed

lemma schedule_kern:
  assumes "kern_ok i k"
  obtains k' where "rt_schedule k = Some k'" "kern_inv i k'" "restat k k'"
proof -
  obtain k' where "rt_schedule k = Some k'" "sched_ok k'" "restat k k'" "lock_nest k = 0 \<longrightarrow> runs_highest k'"
    using schedule_ok [of k i] assms unfolding kern_ok_def by blast
  moreover from this have "active (tcb k' i)" "lock_nest k' = lock_nest k"
    using assms by (simp_all add: restat_def kern_ok_def same_time_def)
  ultimately show thesis
    using assms restat_timers [of k k'] by (intro that) (simp_all add: kern_inv_def kern_ok_def)
qed

section \<open>Suspending and resuming\<close>

lemma on_tcb_prio [simp]: "(\<And>b. thr_priority (g b) = thr_priority b) \<Longrightarrow> prio_of (on_tcb t g k) u = prio_of k u"
  by (simp add: prio_of_def)

text \<open>A thread that is in no queue may change its state as long as it does not become ready, and
  all fields but state, priority and mask.\<close>

lemma queues_on_tcb:
  assumes "queues_ok k" "thr_priority (g (tcb k t)) = thr_priority (tcb k t)" "number_mask (g (tcb k t)) = number_mask (tcb k t)"
    and "stat (tcb k t) = RT_THREAD_READY \<longleftrightarrow> stat (g (tcb k t)) = RT_THREAD_READY"
    and "started (g (tcb k t)) \<Longrightarrow> started (tcb k t)"
  shows "queues_ok (on_tcb t g k)"
proof -
  have pr: "prio_of (on_tcb t g k) u = prio_of k u" for u using assms(2) by (simp add: prio_of_def)
  have "stat (tcb (on_tcb t g k) u) = RT_THREAD_READY \<longleftrightarrow> stat (tcb k u) = RT_THREAD_READY" for u using assms(4) by simp
  moreover have "started (tcb (on_tcb t g k) u) \<Longrightarrow> started (tcb k u) \<and> number_mask (tcb (on_tcb t g k) u) = number_mask (tcb k u)" for u
    using assms(3,5) by (cases "u = t") simp_all
  ultimately show ?thesis using assms(1) unfolding queues_ok_def pr by simp
qed

lemma timers_on_tcb:
  assumes "timers_at T k" "t \<notin> set (timer_list k)"
  shows "timers_at T (on_tcb t g k)"
proof -
  have m: "map (left_at T (on_tcb t g k)) (timer_list k) = map (left_at T k) (timer_list k)"
    using assms(2) by (auto simp: left_at_def)
  have "sorted (map (left_at T (on_tcb t g k)) (timer_list k))"
    by (subst m) (use assms(1) in \<open>simp add: timers_at_def\<close>)
  moreover have "\<forall>u\<in>set (timer_list k). tcb (on_tcb t g k) u = tcb k u" using assms(2) by auto
  ultimately show "timers_at T (on_tcb t g k)"
    using assms(1) unfolding timers_at_def by (simp add: left_at_def)
qed

lemma moved_on_tcb:
  "(started (tcb k t) \<Longrightarrow> started (g (tcb k t)) \<and> thr_priority (g (tcb k t)) = thr_priority (tcb k t)) \<Longrightarrow> moved {t} k (on_tcb t g k)"
  by (simp add: moved_def stays_def prio_of_def started_def)

lemma not_sleeping: "timers_at T k \<Longrightarrow> stat (tcb k t) \<noteq> RT_THREAD_SUSPEND \<Longrightarrow> t \<notin> set (timer_list k)"
  unfolding timers_at_def by metis

lemma timers_remove:
  assumes "timers_at T k"
  shows "timers_at T (timer_remove t k)"
proof -
  have d: "distinct (timer_list k)" "sorted (map (left_at T k) (timer_list k))" using assms by (simp_all add: timers_at_def)
  have "left_at T (timer_remove t k) = left_at T k" by (simp add: left_at_def timer_remove_def fun_eq_iff)
  moreover have "sorted (map (left_at T k) (removeAll t (timer_list k)))"
    using d(2) sorted_filter [of "left_at T k"] by (simp add: removeAll_filter_not_eq)
  ultimately show ?thesis
    using assms by (simp add: timers_at_def distinct_removeAll timer_remove_def)
qed

abbreviation (input) "stopped t k \<equiv> on_tcb t (\<lambda>b. b\<lparr>timer_active := False\<rparr>) (timer_remove t k)"

lemma timer_stop: "timers_at T k \<Longrightarrow> snd (rt_timer_stop t k) = stopped t k"
  by (cases "timer_active (tcb k t)") (auto simp: rt_timer_stop_def timers_at_def timer_remove_def fun_upd_idem)

lemma timers_stopped: "timers_at T k \<Longrightarrow> timers_at T (stopped t k)"
  by (rule timers_on_tcb [OF timers_remove]) (simp_all add: timer_remove_def)

lemma moved_stopped: "moved {t} k (stopped t k)"
  by (simp add: moved_def stays_def prio_of_def started_def timer_remove_def)

lemma queues_cong:
  "priority_table k' = priority_table k \<Longrightarrow> ready_group k' = ready_group k \<Longrightarrow> tcb k' = tcb k \<Longrightarrow> queues_ok k' = queues_ok k"
  by (simp add: queues_ok_def prio_of_def)

lemma queues_stopped:
  assumes "queues_ok k"
  shows "queues_ok (stopped t k)"
proof (rule queues_on_tcb)
  show "queues_ok (timer_remove t k)" using assms queues_cong [of "timer_remove t k" k] by (simp add: timer_remove_def)
qed (simp_all add: started_def)

text \<open>The current thread suspends itself; it has no timer then.\<close>

lemma suspend_current:
  assumes "kern_ok i k" "current_thread k = Some t" "stat (tcb k t) = RT_THREAD_RUNNING" "t \<noteq> i"
  obtains k' where "rt_thread_suspend t k = Some (RT_EOK, k')" "kern_ok i k'" "moved {t} k k'"
    "timer_list k' = timer_list k" "t \<notin> set (timer_list k)" "current_thread k' = Some t" "rt_tick k' = rt_tick k"
    "lock_nest k' = lock_nest k" "tcb k' = (tcb k)(t := (tcb k t)\<lparr>stat := RT_THREAD_SUSPEND, timer_active := False\<rparr>)"
proof -
  have s: "sched_ok k" "timers_at (rt_tick k) k" "active (tcb k i)" using assms(1) by (simp_all add: kern_ok_def)
  have n: "t \<notin> set (timer_list k)" by (rule not_sleeping [OF s(2)]) (simp add: assms(3))
  let ?g = "\<lambda>b. b\<lparr>stat := RT_THREAD_SUSPEND, timer_active := False\<rparr>"
  let ?k = "on_tcb t ?g k"
  let ?k1 = "on_tcb t (\<lambda>b. b\<lparr>stat := RT_THREAD_SUSPEND\<rparr>) k"
  have "rt_schedule_remove_thread t k = Some k"
    by (rule remove_absent [OF sched_queues [OF s(1)]]) (simp_all add: assms(3) started_def)
  moreover have "snd (rt_timer_stop t ?k1) = ?k"
    using n by (subst timer_stop [OF timers_on_tcb [OF s(2) n]]) (simp add: timer_remove_def)
  ultimately have 1: "rt_thread_suspend t k = Some (RT_EOK, ?k)"
    using assms(2,3) by (simp add: rt_thread_suspend_def Let_def)
  have q: "queues_ok ?k"
    by (rule queues_on_tcb [OF sched_queues [OF s(1)]]) (simp_all add: assms(3) started_def)
  have un: "u = t" if "stat (tcb ?k u) = RT_THREAD_RUNNING" for u
    using that sched_running [OF s(1), of u] assms(2) by (cases "u = t") simp_all
  have "sched_ok ?k" by (rule sched_okI [OF q _ _ un]) (simp_all add: assms(2))
  then have "kern_ok i ?k"
    using timers_on_tcb [OF s(2) n, of ?g] s(3) assms(4) by (simp add: kern_ok_def)
  with 1 show thesis
    by (rule that) (use moved_on_tcb [where g = ?g and k = k and t = t] assms(2) n in \<open>simp_all add: started_def\<close>)
qed

text \<open>A suspended thread becomes ready, or goes on when it is the current one; \<open>g\<close> is what else is
  written to its control block.\<close>

lemma wake_thread:
  assumes "sched_ok k" "timers_at T k" "active (tcb k i)" "stat (tcb k t) = RT_THREAD_SUSPEND" "t \<notin> set (timer_list k)"
  obtains k' where "rt_schedule_insert_thread t k = Some k'" "sched_ok k'" "timers_at T k'" "active (tcb k' i)"
    "active (tcb k' t)" "timer_list k' = timer_list k" "moved {t} k k'" "same_time k k'"
    "\<exists>x. tcb k' = (tcb k)(t := (tcb k t)\<lparr>stat := x\<rparr>)" "current_thread k' = current_thread k"
proof (cases "current_thread k = Some t")
  case True
  let ?g = "\<lambda>b. b\<lparr>stat := RT_THREAD_RUNNING\<rparr>"
  let ?k = "on_tcb t ?g k"
  have 1: "rt_schedule_insert_thread t k = Some ?k" using True by (simp add: rt_schedule_insert_thread_def)
  have q: "queues_ok ?k"
    by (rule queues_on_tcb [OF sched_queues [OF assms(1)]]) (simp_all add: assms(4) started_def)
  have un: "u = t" if "stat (tcb ?k u) = RT_THREAD_RUNNING" for u
    using that sched_running [OF assms(1), of u] True by (cases "u = t") simp_all
  have "sched_ok ?k" by (rule sched_okI [OF q _ _ un]) (simp_all add: True)
  with 1 show thesis
    by (rule that)
      (use timers_on_tcb [OF assms(2,5)] moved_on_tcb [where g = ?g and k = k and t = t] assms(3) True in \<open>auto simp: same_time_def started_def\<close>)
next
  case False
  have q: "queues_ok k" by (rule sched_queues [OF assms(1)])
  obtain k' where k': "rt_schedule_insert_thread t k = Some k'" "queues_ok k'"
      "tcb k' = (tcb k)(t := (tcb k t)\<lparr>stat := RT_THREAD_READY\<rparr>)" "current_thread k' = current_thread k"
    by (rule insert_ready [OF q, of t]) (use assms(4) False in \<open>simp_all add: started_def\<close>)
  obtain c where c: "current_thread k = Some c" using assms(1) by (auto simp: sched_ok_def)
  have un: "u = c" if "stat (tcb k' u) = RT_THREAD_RUNNING" for u
    using that sched_running [OF assms(1), of u] c k'(3) by (cases "u = t") simp_all
  have st: "stat (tcb k' c) = RT_THREAD_RUNNING \<or> stat (tcb k' c) = RT_THREAD_SUSPEND"
    using sched_current [OF assms(1) c] c k'(3) False by (cases "c = t") simp_all
  have s: "sched_ok k'" by (rule sched_okI [OF k'(2) _ st un]) (use k'(4) c in simp_all)
  let ?g = "\<lambda>b. b\<lparr>stat := RT_THREAD_READY\<rparr>"
  note t = insert_time [OF k'(1), unfolded same_time_def]
  have e: "timers_at T k' = timers_at T (on_tcb t ?g k)" "moved {t} k k' = moved {t} k (on_tcb t ?g k)"
    using t k'(3) by (simp_all add: timers_at_def moved_def stays_def prio_of_def started_def left_at_def [abs_def])
  note to = timers_on_tcb [OF assms(2,5), where g = ?g]
  show thesis
    by (rule that [OF k'(1) s])
      (use e to moved_on_tcb [where g = ?g and k = k and t = t] assms(3) k'(3,4) t in \<open>auto simp: same_time_def started_def\<close>)
qed

lemma resume_kern:
  assumes "kern_ok i k" "stat (tcb k t) = RT_THREAD_SUSPEND"
  obtains k' where "rt_thread_resume t k = Some (RT_EOK, k')" "kern_ok i k'" "active (tcb k' t)"
    "moved {t} k k'" "rt_tick k' = rt_tick k" "lock_nest k' = lock_nest k" "t \<notin> set (timer_list k')"
    "\<And>u. u \<noteq> t \<Longrightarrow> tcb k' u = tcb k u" "current_thread k' = current_thread k"
proof -
  have s: "sched_ok k" "timers_at (rt_tick k) k" "active (tcb k i)" using assms(1) by (simp_all add: kern_ok_def)
  have q: "map (removeAll t) (priority_table k) = priority_table k"
    by (rule not_queued [OF sched_queues [OF s(1)]]) (simp add: assms(2))
  let ?k = "stopped t k"
  note ts = timers_stopped [OF s(2), of t]
  have cur: "current_thread ?k = current_thread k" by (simp add: timer_remove_def)
  obtain c where c: "current_thread k = Some c" using s(1) by (auto simp: sched_ok_def)
  have so: "sched_ok ?k"
  proof (rule sched_okI [OF queues_stopped [OF sched_queues [OF s(1)]]])
    show "current_thread ?k = Some c" using cur c by simp
    show "stat (tcb ?k c) = RT_THREAD_RUNNING \<or> stat (tcb ?k c) = RT_THREAD_SUSPEND"
      using sched_current [OF s(1) c] by (cases "c = t") (simp_all add: timer_remove_def)
    show "u = c" if "stat (tcb ?k u) = RT_THREAD_RUNNING" for u
      using that sched_running [OF s(1), of u] c by (simp add: timer_remove_def split: if_splits)
  qed
  obtain k' where k': "rt_schedule_insert_thread t ?k = Some k'" "sched_ok k'" "timers_at (rt_tick k) k'" "active (tcb k' i)"
    "active (tcb k' t)" "timer_list k' = timer_list ?k" "moved {t} ?k k'" "same_time ?k k'"
    "\<exists>x. tcb k' = (tcb ?k)(t := (tcb ?k t)\<lparr>stat := x\<rparr>)" "current_thread k' = current_thread ?k"
    by (rule wake_thread [OF so ts, of i t]) (use assms(2) s(3) in \<open>auto simp: timer_remove_def\<close>)
  have 1: "rt_thread_resume t k = Some (RT_EOK, k')"
    using assms(2) k'(1) timer_stop [OF s(2), of t] by (simp add: rt_thread_resume_def Let_def q)
  have 2: "kern_ok i k'" using k' by (simp add: kern_ok_def same_time_def timer_remove_def)
  have 3: "moved {t} k k'" by (rule moved_trans1 [OF moved_stopped k'(7)])
  have 4: "tcb k' u = tcb k u" if "u \<noteq> t" for u using k'(9) that by (auto simp: timer_remove_def)
  show thesis
    by (rule that [OF 1 2 k'(5) 3 _ _ _ 4]) (use k' in \<open>simp_all add: same_time_def timer_remove_def\<close>)
qed

section \<open>Sleeping\<close>

lemma half_less:
  fixes p q :: u32
  assumes "unat p < 0x7fffffff" "unat q < 0x7fffffff" "unat p \<noteq> unat q"
  shows "p - q < RT_TICK_MAX_HALF \<longleftrightarrow> unat q < unat p"
  using assms by (auto simp: word_less_nat_alt unat_sub_if')

lemma timer_order:
  fixes a b T :: u32
  assumes "unat (a - T) < 0x7fffffff" "unat (b - T) < 0x7fffffff"
  shows "a - b = 0 \<longleftrightarrow> unat (a - T) = unat (b - T)"
    "unat (a - T) \<noteq> unat (b - T) \<Longrightarrow> a - b < RT_TICK_MAX_HALF \<longleftrightarrow> unat (b - T) < unat (a - T)"
proof -
  have "a - b = (a - T) - (b - T)" by simp
  then show "unat (a - T) \<noteq> unat (b - T) \<Longrightarrow> a - b < RT_TICK_MAX_HALF \<longleftrightarrow> unat (b - T) < unat (a - T)"
    using half_less [OF assms] by simp
  show "a - b = 0 \<longleftrightarrow> unat (a - T) = unat (b - T)" by (simp add: word_unat_eq_iff [symmetric])
qed

lemma timer_place:
  fixes ends :: "'t \<Rightarrow> u32"
  assumes "\<forall>y\<in>set ys. unat (ends y - T) < 0x7fffffff" "unat (ends x - T) < 0x7fffffff"
    and "sorted (map (\<lambda>u. unat (ends u - T)) ys)"
  shows "set (timer_place ends (ends x) x ys) = insert x (set ys)"
    "sorted (map (\<lambda>u. unat (ends u - T)) (timer_place ends (ends x) x ys))"
    "x \<notin> set ys \<Longrightarrow> distinct ys \<Longrightarrow> distinct (timer_place ends (ends x) x ys)"
proof -
  have "set (timer_place ends (ends x) x ys) = insert x (set ys)
     \<and> sorted (map (\<lambda>u. unat (ends u - T)) (timer_place ends (ends x) x ys))
     \<and> (x \<notin> set ys \<longrightarrow> distinct ys \<longrightarrow> distinct (timer_place ends (ends x) x ys))"
    using assms(1,3)
  proof (induction ys)
    case (Cons y ys)
    have y: "unat (ends y - T) < 0x7fffffff" using Cons.prems by simp
    note o = timer_order [OF y assms(2)]
    consider "ends y - ends x = 0" | "ends y - ends x \<noteq> 0" "ends y - ends x < RT_TICK_MAX_HALF"
      | "ends y - ends x \<noteq> 0" "\<not> ends y - ends x < RT_TICK_MAX_HALF" by blast
    then show ?case
    proof cases
      case 1
      then show ?thesis using Cons o(1) by auto
    next
      case 2
      then show ?thesis using Cons.prems o by auto
    next
      case 3
      then show ?thesis using Cons o by auto
    qed
  qed simp
  then show "set (timer_place ends (ends x) x ys) = insert x (set ys)"
    "sorted (map (\<lambda>u. unat (ends u - T)) (timer_place ends (ends x) x ys))"
    "x \<notin> set ys \<Longrightarrow> distinct ys \<Longrightarrow> distinct (timer_place ends (ends x) x ys)" by auto
qed

text \<open>A suspended thread that has no timer starts it.\<close>

lemma timer_start:
  assumes "timers_at (rt_tick k) k" "t \<notin> set (timer_list k)" "stat (tcb k t) = RT_THREAD_SUSPEND" "timer_init (tcb k t) = n"
    and "n < RT_TICK_MAX_HALF"
  obtains k' where "rt_timer_start t k = Some k'" "timers_at (rt_tick k) k'" "t \<in> set (timer_list k')"
    "tcb k' = (tcb k)(t := (tcb k t)\<lparr>timeout_tick := rt_tick k + n, timer_active := True\<rparr>)"
    "k' = k\<lparr>timer_list := timer_list k', tcb := tcb k'\<rparr>" "\<And>u. u \<noteq> t \<Longrightarrow> u \<in> set (timer_list k') \<longleftrightarrow> u \<in> set (timer_list k)"
proof -
  let ?c = "(tcb k)(t := (tcb k t)\<lparr>timeout_tick := rt_tick k + n, timer_active := True\<rparr>)"
  let ?e = "\<lambda>u. timeout_tick (?c u)" and ?T = "rt_tick k" and ?l = "timer_list k"
  let ?p = "timer_place ?e (?e t) t ?l"
  let ?k = "k\<lparr>timer_list := ?p, tcb := ?c\<rparr>"
  have e: "?e u = timeout_tick (tcb k u)" if "u \<in> set ?l" for u using that assms(2) by auto
  have a: "\<forall>u\<in>set ?l. unat (?e u - ?T) < 0x7fffffff" "unat (?e t - ?T) < 0x7fffffff"
    using assms(1,5) e by (auto simp: timers_at_def left_at_def word_less_nat_alt)
  have "map (\<lambda>u. unat (?e u - ?T)) ?l = map (left_at ?T k) ?l" using e by (simp add: left_at_def)
  then have s: "sorted (map (\<lambda>u. unat (?e u - ?T)) ?l)" using assms(1) by (simp only: timers_at_def)
  note p = timer_place [OF a s]
  have f: "(\<lambda>u. timeout_tick (((tcb k)(t := (tcb k t)\<lparr>timer_active := False, timeout_tick := rt_tick k + n\<rparr>)) u)) = ?e"
    by auto
  have "rt_timer_start t k = Some ?k"
    using assms(2,4,5) f [unfolded fun_upd_apply]
    by (simp add: rt_timer_start_def timer_remove_def Let_def)
  moreover have "timers_at ?T ?k"
  proof -
    have "left_at ?T ?k = (\<lambda>u. unat (?e u - ?T))" by (simp add: left_at_def fun_eq_iff)
    then show ?thesis
      using p(1,2) p(3) assms(1,2,3) a unfolding timers_at_def by auto
  qed
  ultimately show thesis by (rule that) (use p(1) in simp_all)
qed

lemma sleep_kern:
  assumes "kern_ok i k" "current_thread k = Some t" "stat (tcb k t) = RT_THREAD_RUNNING" "t \<noteq> i" "n < RT_TICK_MAX_HALF"
  obtains k' where "rt_thread_sleep n k = Some k'" "kern_inv i k'" "moved {t} k k'" "t \<in> set (timer_list k')"
    "timeout_tick (tcb k' t) = rt_tick k + n" "rt_tick k' = rt_tick k" "lock_nest k' = lock_nest k"
proof -
  obtain k1 where k1: "rt_thread_suspend t k = Some (RT_EOK, k1)" "kern_ok i k1" "moved {t} k k1"
    "timer_list k1 = timer_list k" "t \<notin> set (timer_list k)" "current_thread k1 = Some t" "rt_tick k1 = rt_tick k"
    "lock_nest k1 = lock_nest k" "tcb k1 = (tcb k)(t := (tcb k t)\<lparr>stat := RT_THREAD_SUSPEND, timer_active := False\<rparr>)"
    by (rule suspend_current [OF assms(1-4)])
  let ?k1 = "on_tcb t (\<lambda>b. b\<lparr>timer_init := n\<rparr>) k1"
  have n1: "t \<notin> set (timer_list k1)" using k1(4,5) by simp
  have ok1: "sched_ok k1" "timers_at (rt_tick k) k1" "active (tcb k1 i)" using k1(2,7) by (simp_all add: kern_ok_def)
  have ta: "timers_at (rt_tick ?k1) ?k1" using timers_on_tcb [OF ok1(2) n1] k1(7) by simp
  obtain k2 where k2: "rt_timer_start t ?k1 = Some k2" "timers_at (rt_tick ?k1) k2" "t \<in> set (timer_list k2)"
    "tcb k2 = (tcb ?k1)(t := (tcb ?k1 t)\<lparr>timeout_tick := rt_tick ?k1 + n, timer_active := True\<rparr>)"
    "k2 = ?k1\<lparr>timer_list := timer_list k2, tcb := tcb k2\<rparr>"
    "\<And>u. u \<noteq> t \<Longrightarrow> u \<in> set (timer_list k2) \<longleftrightarrow> u \<in> set (timer_list ?k1)"
    by (rule timer_start [OF ta, of t n]) (use n1 k1(9) assms(5) in simp_all)
  let ?g = "\<lambda>b. b\<lparr>timer_init := n, timeout_tick := rt_tick k + n, timer_active := True\<rparr>"
  have t2: "tcb k2 = (tcb k1)(t := ?g (tcb k1 t))" using k2(4) k1(7) by simp
  have fields: "priority_table k2 = priority_table k1" "ready_group k2 = ready_group k1" "current_thread k2 = Some t"
    "rt_tick k2 = rt_tick k" "lock_nest k2 = lock_nest k"
    using k1(6-8) by (subst k2(5), simp)+
  have "queues_ok (on_tcb t ?g k1)"
    by (rule queues_on_tcb [OF sched_queues [OF ok1(1)]]) (simp_all add: k1(9) started_def)
  then have q2: "queues_ok k2" using fields t2 queues_cong [of k2 "on_tcb t ?g k1"] by simp
  have un: "u = t" if "stat (tcb k2 u) = RT_THREAD_RUNNING" for u
    using that sched_running [OF ok1(1), of u] k1(6) t2 by (cases "u = t") simp_all
  have s2: "sched_ok k2"
    by (rule sched_okI [OF q2 fields(3) _ un]) (simp add: t2 k1(9))
  have "kern_ok i k2" using s2 k2(2) ok1(3) fields(4) t2 assms(4) k1(7) by (simp add: kern_ok_def)
  then obtain k3 where k3: "rt_schedule k2 = Some k3" "kern_inv i k3" "restat k2 k3" by (rule schedule_kern)
  have m2: "moved {t} k1 k2" using k2(6) t2 by (simp add: moved_def stays_def prio_of_def started_def)
  note r = restat_timers [OF k3(3)]
  have m3: "moved {t} k k3"
    by (rule moved_trans1 [OF moved_trans1 [OF k1(3) m2] moved_mono [OF r(2)]]) simp
  have 1: "rt_thread_sleep n k = Some k3" using assms(2) k1(1) k2(1) k3(1) by (simp add: rt_thread_sleep_def)
  show thesis
    by (rule that [OF 1 k3(2) m3])
      (use r k2(3) fields k3(3) restat_timer [OF k3(3), of t] t2 in \<open>simp_all add: restat_def same_time_def\<close>)
qed

section \<open>The tick\<close>

lemma sched_cong:
  "priority_table k' = priority_table k \<Longrightarrow> ready_group k' = ready_group k \<Longrightarrow> tcb k' = tcb k
     \<Longrightarrow> current_thread k' = current_thread k \<Longrightarrow> sched_ok k' = sched_ok k"
  using queues_cong [of k' k] by (simp add: sched_ok_def)

text \<open>Fields of a control block that the scheduler does not look at.\<close>

lemma sched_on_tcb:
  assumes "sched_ok k" "stat (g (tcb k t)) = stat (tcb k t)" "thr_priority (g (tcb k t)) = thr_priority (tcb k t)"
    and "number_mask (g (tcb k t)) = number_mask (tcb k t)"
  shows "sched_ok (on_tcb t g k)" "runs_highest k \<Longrightarrow> runs_highest (on_tcb t g k)"
proof -
  have st: "stat (tcb (on_tcb t g k) u) = stat (tcb k u)" for u using assms(2) by simp
  have "queues_ok (on_tcb t g k)"
    by (rule queues_on_tcb [OF sched_queues [OF assms(1)]]) (use assms(2-4) in \<open>simp_all add: started_def\<close>)
  then show "sched_ok (on_tcb t g k)" using assms(1) unfolding sched_ok_def st by simp
  have "prio_of (on_tcb t g k) u = prio_of k u" for u using assms(3) by (simp add: prio_of_def)
  then show "runs_highest k \<Longrightarrow> runs_highest (on_tcb t g k)" unfolding runs_highest_def st by simp
qed

lemma timer_due: "unat (l :: u32) < 0x7fffffff \<Longrightarrow> 1 - l < RT_TICK_MAX_HALF \<longleftrightarrow> unat l \<le> 1"
  by (auto simp: word_less_nat_alt unat_sub_if')

lemma later_left:
  assumes "unat (e - T :: u32) \<ge> 1"
  shows "unat (e - (T + 1)) = unat (e - T) - 1"
proof -
  have "unat (p - 1) = unat p - 1" if "1 \<le> unat p" for p :: u32 using that by (simp add: unat_sub_if')
  from this [OF assms] show ?thesis by (simp add: algebra_simps)
qed

text \<open>The timer of \<open>t\<close> ends.\<close>

lemma timeout_kern:
  assumes "sched_ok k" "timers_at T k" "active (tcb k i)" "t \<in> set (timer_list k)"
  obtains k' where "rt_thread_timeout t (timer_remove t k) = Some k'"
    "sched_ok (on_tcb t (\<lambda>b. b\<lparr>timer_active := False\<rparr>) k')" "timers_at T (on_tcb t (\<lambda>b. b\<lparr>timer_active := False\<rparr>) k')"
    "active (tcb k' i)" "active (tcb k' t)" "thr_error (tcb k' t) = - RT_ETIMEOUT"
    "timer_list k' = removeAll t (timer_list k)" "moved {t} k k'" "rt_tick k' = rt_tick k" "lock_nest k' = lock_nest k"
    "lock_nest k = 0 \<longrightarrow> runs_highest (on_tcb t (\<lambda>b. b\<lparr>timer_active := False\<rparr>) k')"
proof -
  have st: "stat (tcb k t) = RT_THREAD_SUSPEND" using assms(2,4) by (auto simp: timers_at_def)
  let ?g = "\<lambda>b. b\<lparr>thr_error := - RT_ETIMEOUT\<rparr>" and ?k0 = "timer_remove t k"
  let ?k1 = "on_tcb t ?g ?k0"
  have n: "t \<notin> set (timer_list ?k0)" by (simp add: timer_remove_def)
  have t1: "timers_at T ?k1" by (rule timers_on_tcb [OF timers_remove [OF assms(2)] n])
  have s0: "sched_ok ?k0" using assms(1) sched_cong [of ?k0 k] by (simp add: timer_remove_def)
  then have s1: "sched_ok ?k1" by (rule sched_on_tcb(1)) simp_all
  have q: "map (removeAll t) (priority_table k) = priority_table k"
    by (rule not_queued [OF sched_queues [OF assms(1)]]) (simp add: st)
  obtain k2 where k2: "rt_schedule_insert_thread t ?k1 = Some k2" "sched_ok k2" "timers_at T k2" "active (tcb k2 i)"
    "active (tcb k2 t)" "timer_list k2 = timer_list ?k1" "moved {t} ?k1 k2" "same_time ?k1 k2"
    "\<exists>x. tcb k2 = (tcb ?k1)(t := (tcb ?k1 t)\<lparr>stat := x\<rparr>)" "current_thread k2 = current_thread ?k1"
    by (rule wake_thread [OF s1 t1, of i t]) (use st assms(3) in \<open>auto simp: timer_remove_def\<close>)
  obtain k3 where k3: "rt_schedule k2 = Some k3" "sched_ok k3" "restat k2 k3" "lock_nest k2 = 0 \<longrightarrow> runs_highest k3"
    by (rule schedule_ok [OF k2(2,5)])
  note r = restat_timers [OF k3(3)]
  have l3: "timer_list k3 = removeAll t (timer_list k)" using r(4) k2(6) by (simp add: timer_remove_def)
  then have n3: "t \<notin> set (timer_list k3)" by simp
  have a3: "active (tcb k3 i)" "active (tcb k3 t)" using k3(3) k2(4,5) by (simp_all add: restat_def)
  have e3: "thr_error (tcb k3 t) = - RT_ETIMEOUT" using restat_timer [OF k3(3), of t] k2(9) by auto
  have tm: "rt_tick k3 = rt_tick k" "lock_nest k3 = lock_nest k" "lock_nest k2 = lock_nest k"
    using k3(3) k2(8) by (simp_all add: restat_def same_time_def timer_remove_def)
  have 1: "rt_thread_timeout t ?k0 = Some k3"
    using st k2(1) k3(1) by (simp add: rt_thread_timeout_def timer_remove_def q)
  have m0: "moved {t} k ?k1" by (simp add: moved_def stays_def prio_of_def started_def timer_remove_def)
  have m: "moved {t} k k3" by (rule moved_trans1 [OF moved_trans1 [OF m0 k2(7)] moved_mono [OF r(2)]]) simp
  show thesis
  proof (rule that [OF 1 _ _ a3 e3 l3 m tm(1,2)])
    show "sched_ok (on_tcb t (\<lambda>b. b\<lparr>timer_active := False\<rparr>) k3)" by (rule sched_on_tcb(1) [OF k3(2)]) simp_all
    show "timers_at T (on_tcb t (\<lambda>b. b\<lparr>timer_active := False\<rparr>) k3)"
      by (rule timers_on_tcb [OF _ n3]) (simp add: r(1) k2(3))
    have "runs_highest (on_tcb t (\<lambda>b. b\<lparr>timer_active := False\<rparr>) k3)" if "lock_nest k = 0"
      by (rule sched_on_tcb(2) [OF k3(2)]) (use that tm(3) k3(4) in simp_all)
    then show "lock_nest k = 0 \<longrightarrow> runs_highest (on_tcb t (\<lambda>b. b\<lparr>timer_active := False\<rparr>) k3)" by blast
  qed
qed

definition due :: "u32 \<Rightarrow> 't kern \<Rightarrow> 't set" where
  "due T k = {t \<in> set (timer_list k). left_at T k t \<le> 1}"

lemma timer_check_kern:
  assumes "sched_ok k" "timers_at T k" "active (tcb k i)" "rt_tick k = T + 1"
  obtains k' where "timer_check_loop k = Some k'" "kern_ok i k'" "moved (due T k) k k'"
    "\<forall>t\<in>due T k. active (tcb k' t) \<and> thr_error (tcb k' t) = - RT_ETIMEOUT \<and> t \<notin> set (timer_list k')"
    "rt_tick k' = rt_tick k" "lock_nest k' = lock_nest k" "lock_nest k = 0 \<longrightarrow> runs_highest k \<longrightarrow> runs_highest k'"
  using assms
proof (induction "timer_list k" arbitrary: k thesis rule: length_induct)
  case (1 k)
  note that = 1(2) and prems = 1(3-6)
  have tick: "rt_tick k - timeout_tick (tcb k t) < RT_TICK_MAX_HALF \<longleftrightarrow> left_at T k t \<le> 1" if "t \<in> set (timer_list k)" for t
  proof -
    have "rt_tick k - timeout_tick (tcb k t) = 1 - (timeout_tick (tcb k t) - T)" using prems(4) by simp
    moreover have "unat (timeout_tick (tcb k t) - T) < 0x7fffffff"
      using prems(2) that by (simp add: timers_at_def left_at_def)
    ultimately show ?thesis using timer_due unfolding left_at_def by metis
  qed
  show ?case
  proof (cases "\<exists>t ts. timer_list k = t # ts \<and> left_at T k t \<le> 1")
    case False
    have s: "sorted (map (left_at T k) (timer_list k))" using prems(2) by (simp add: timers_at_def)
    have l: "2 \<le> left_at T k t" if "t \<in> set (timer_list k)" for t
    proof (cases "timer_list k")
      case (Cons x xs)
      then have "2 \<le> left_at T k x" using False by auto
      then show ?thesis using that s Cons by auto
    qed (use that in simp)
    then have d: "due T k = {}" unfolding due_def by fastforce
    have n: "left_at (T + 1) k t = left_at T k t - 1" if "t \<in> set (timer_list k)" for t
      using later_left [of "timeout_tick (tcb k t)" T] l [OF that] by (simp add: left_at_def)
    have "map (left_at (T + 1) k) (timer_list k) = map (\<lambda>x. x - 1) (map (left_at T k) (timer_list k))" using n by simp
    moreover have "sorted (map (\<lambda>x. x - 1) (map (left_at T k) (timer_list k)))"
      using s by (simp add: sorted_map sorted_wrt_map) (metis (mono_tags, lifting) diff_le_mono sorted_wrt_mono_rel)
    ultimately have "timers_at (T + 1) k"
      using prems(2) n unfolding timers_at_def by (metis less_imp_diff_less)
    then have "kern_ok i k" using prems by (simp add: kern_ok_def)
    moreover have "timer_check_loop k = Some k"
      using False tick by (cases "timer_list k") (auto simp: timer_check_loop.simps)
    ultimately show thesis by (intro that [of k]) (simp_all add: d moved_def stays_def)
  next
    case True
    then obtain t ts where t: "timer_list k = t # ts" "left_at T k t \<le> 1" by blast
    have tin: "t \<in> set (timer_list k)" using t(1) by simp
    obtain k1 where k1: "rt_thread_timeout t (timer_remove t k) = Some k1"
      "sched_ok (on_tcb t (\<lambda>b. b\<lparr>timer_active := False\<rparr>) k1)" "timers_at T (on_tcb t (\<lambda>b. b\<lparr>timer_active := False\<rparr>) k1)"
      "active (tcb k1 i)" "active (tcb k1 t)" "thr_error (tcb k1 t) = - RT_ETIMEOUT"
      "timer_list k1 = removeAll t (timer_list k)" "moved {t} k k1" "rt_tick k1 = rt_tick k" "lock_nest k1 = lock_nest k"
      "lock_nest k = 0 \<longrightarrow> runs_highest (on_tcb t (\<lambda>b. b\<lparr>timer_active := False\<rparr>) k1)"
      by (rule timeout_kern [OF prems(1-3) tin])
    let ?k = "on_tcb t (\<lambda>b. b\<lparr>timer_active := False\<rparr>) k1"
    have len: "length (timer_list ?k) < length (timer_list k)" using k1(7) t(1) by (simp add: le_imp_less_Suc)
    have a: "active (tcb ?k i)" "rt_tick ?k = T + 1" using k1(4,5,9) prems(4) by (cases "i = t"; simp)+
    obtain k2 where k2: "timer_check_loop ?k = Some k2" "kern_ok i k2" "moved (due T ?k) ?k k2"
      "\<forall>t\<in>due T ?k. active (tcb k2 t) \<and> thr_error (tcb k2 t) = - RT_ETIMEOUT \<and> t \<notin> set (timer_list k2)"
      "rt_tick k2 = rt_tick ?k" "lock_nest k2 = lock_nest ?k" "lock_nest ?k = 0 \<longrightarrow> runs_highest ?k \<longrightarrow> runs_highest k2"
      using 1(1) [rule_format, OF len refl _ k1(2,3) a] by metis
    have 1: "timer_check_loop k = Some k2"
      using t(1) tick [OF tin] t(2) k1(1) k2(1) by (simp add: timer_check_loop.simps [of k])
    have tl: "left_at T ?k u = left_at T k u" if "u \<noteq> t" for u
      using moved_out(4) [OF k1(8), of u] that by (simp add: left_at_def)
    have d: "due T k = insert t (due T ?k)" "t \<notin> due T ?k"
      using k1(7) t tin tl by (auto simp: due_def)
    have m1: "moved {t} k ?k" by (rule moved_trans1 [OF k1(8)]) (simp add: moved_def stays_def prio_of_def started_def)
    have m: "moved (due T k) k k2" using moved_trans [OF m1 k2(3)] d(1) by simp
    have "active (tcb k2 t) \<and> thr_error (tcb k2 t) = - RT_ETIMEOUT \<and> t \<notin> set (timer_list k2)"
      using moved_out [OF k2(3) d(2)] k1(5-7) by simp
    then have "\<forall>u\<in>due T k. active (tcb k2 u) \<and> thr_error (tcb k2 u) = - RT_ETIMEOUT \<and> u \<notin> set (timer_list k2)"
      using k2(4) d(1) by simp
    then show thesis
      by (intro that [OF 1 k2(2) m]) (use k2(5-7) k1(9-11) in simp_all)
  qed
qed

text \<open>Fields of a control block that no timer looks at.\<close>

lemma timers_field:
  assumes "\<And>b. stat (g b) = stat b" "\<And>b. timer_active (g b) = timer_active b" "\<And>b. timeout_tick (g b) = timeout_tick b"
    and "timer_list k' = timer_list k" "tcb k' = (tcb k)(t := g (tcb k t))"
  shows "timers_at T k' = timers_at T k"
proof -
  have "left_at T k' = left_at T k" using assms(3) by (simp add: left_at_def fun_eq_iff assms(5))
  moreover have "stat (tcb k' u) = stat (tcb k u)" "timer_active (tcb k' u) = timer_active (tcb k u)" for u
    using assms(1,2) by (simp_all add: assms(5))
  ultimately show ?thesis using assms(4) by (simp add: timers_at_def)
qed

lemma moved_due: "moved {} k k' \<Longrightarrow> due T k' = due T k"
  using moved_out [of "{}" k k'] by (auto simp: due_def left_at_def)

lemma tick_kern:
  assumes "kern_inv i k"
  obtains k' where "rt_tick_increase k = Some k'" "kern_inv i k'" "moved (due (rt_tick k) k) k k'"
    "\<forall>t\<in>due (rt_tick k) k. active (tcb k' t) \<and> thr_error (tcb k' t) = - RT_ETIMEOUT \<and> t \<notin> set (timer_list k')"
    "rt_tick k' = rt_tick k + 1" "lock_nest k' = lock_nest k"
proof -
  have s: "sched_ok k" "timers_at (rt_tick k) k" "active (tcb k i)" "lock_nest k = 0 \<longrightarrow> runs_highest k"
    using assms by (simp_all add: kern_inv_def kern_ok_def)
  obtain c where c: "current_thread k = Some c" using s(1) by (auto simp: sched_ok_def)
  let ?T = "rt_tick k"
  let ?k = "\<lambda>g. on_tcb c g (k\<lparr>rt_tick := ?T + 1\<rparr>)"
  have ka: "sched_ok (k\<lparr>rt_tick := ?T + 1\<rparr>)" using s(1) sched_cong [of "k\<lparr>rt_tick := ?T + 1\<rparr>" k] by simp
  have rh: "runs_highest k = runs_highest (k\<lparr>rt_tick := ?T + 1\<rparr>)" by (simp add: runs_highest_def prio_of_def)
  have g: "sched_ok (?k (\<lambda>b. b\<lparr>remaining_tick := f b\<rparr>))" "timers_at ?T (?k (\<lambda>b. b\<lparr>remaining_tick := f b\<rparr>))"
    "active (tcb (?k (\<lambda>b. b\<lparr>remaining_tick := f b\<rparr>)) i)" "moved {} k (?k (\<lambda>b. b\<lparr>remaining_tick := f b\<rparr>))"
    "lock_nest k = 0 \<longrightarrow> runs_highest (?k (\<lambda>b. b\<lparr>remaining_tick := f b\<rparr>))" for f
  proof -
    show "sched_ok (?k (\<lambda>b. b\<lparr>remaining_tick := f b\<rparr>))" by (rule sched_on_tcb(1) [OF ka]) simp_all
    have "timers_at ?T (?k (\<lambda>b. b\<lparr>remaining_tick := f b\<rparr>)) = timers_at ?T k"
      by (rule timers_field [where g = "\<lambda>b. b\<lparr>remaining_tick := f b\<rparr>"]) simp_all
    then show "timers_at ?T (?k (\<lambda>b. b\<lparr>remaining_tick := f b\<rparr>))" using s(2) by simp
    show "active (tcb (?k (\<lambda>b. b\<lparr>remaining_tick := f b\<rparr>)) i)" using s(3) by (cases "i = c") simp_all
    show "moved {} k (?k (\<lambda>b. b\<lparr>remaining_tick := f b\<rparr>))" by (simp add: moved_def stays_def prio_of_def started_def)
    have "runs_highest k \<Longrightarrow> runs_highest (?k (\<lambda>b. b\<lparr>remaining_tick := f b\<rparr>))"
      by (rule sched_on_tcb(2) [OF ka]) (use rh in simp_all)
    then show "lock_nest k = 0 \<longrightarrow> runs_highest (?k (\<lambda>b. b\<lparr>remaining_tick := f b\<rparr>))" using s(4) by blast
  qed
  let ?kb = "?k (\<lambda>b. b\<lparr>remaining_tick := remaining_tick b - 1\<rparr>)"
  let ?y = "remaining_tick (tcb ?kb c) = 0"
  obtain kd where kd: "(if ?y then rt_thread_yield (on_tcb c (\<lambda>b. b\<lparr>remaining_tick := slice b\<rparr>) ?kb) else Some ?kb) = Some kd"
    "sched_ok kd" "timers_at ?T kd" "active (tcb kd i)" "moved {} k kd" "lock_nest k = 0 \<longrightarrow> runs_highest kd"
    "rt_tick kd = ?T + 1" "lock_nest kd = lock_nest k"
  proof (cases ?y)
    case False
    show thesis by (rule that [of ?kb]) (use False g [of "\<lambda>b. remaining_tick b - 1"] in simp_all)
  next
    case True
    let ?kc = "?k (\<lambda>b. b\<lparr>remaining_tick := slice b\<rparr>)"
    note g = g [of slice]
    obtain kd where kd: "rt_schedule ?kc = Some kd" "sched_ok kd" "restat ?kc kd" "lock_nest ?kc = 0 \<longrightarrow> runs_highest kd"
      by (rule schedule_ok [OF g(1,3)])
    note r = restat_timers [OF kd(3)]
    show thesis
    proof (rule that [of kd])
      have "on_tcb c (\<lambda>b. b\<lparr>remaining_tick := slice b\<rparr>) ?kb = ?kc" by simp
      then show "(if ?y then rt_thread_yield (on_tcb c (\<lambda>b. b\<lparr>remaining_tick := slice b\<rparr>) ?kb) else Some ?kb) = Some kd"
        using True kd(1) by (simp add: rt_thread_yield_def)
      show "moved {} k kd" by (rule moved_trans1 [OF g(4) r(2)])
    qed (use kd(2-4) r(1,3) g(2,3) in \<open>simp_all add: restat_def same_time_def\<close>)
  qed
  obtain k' where k': "timer_check_loop kd = Some k'" "kern_ok i k'" "moved (due ?T kd) kd k'"
    "\<forall>t\<in>due ?T kd. active (tcb k' t) \<and> thr_error (tcb k' t) = - RT_ETIMEOUT \<and> t \<notin> set (timer_list k')"
    "rt_tick k' = rt_tick kd" "lock_nest k' = lock_nest kd" "lock_nest kd = 0 \<longrightarrow> runs_highest kd \<longrightarrow> runs_highest k'"
    by (rule timer_check_kern [OF kd(2-4,7)])
  note d = moved_due [OF kd(5), of ?T]
  have 1: "rt_tick_increase k = Some k'"
    using c kd(1) k'(1) by (simp add: rt_tick_increase_def rt_timer_check_def Let_def)
  have m: "moved (due ?T k) k k'" using moved_trans [OF kd(5) k'(3)] d by simp
  show thesis
    by (rule that [OF 1 _ m]) (use k' kd(6-8) d in \<open>simp_all add: kern_inv_def\<close>)
qed

end
