(* ===== verification/RttRun.thy ===== *)
theory RttRun
  imports RttTick
begin

text \<open>
  Runs of the kernel of \<open>RttSched\<close>: the start of the system (\<open>rtthread_startup\<close> of \<open>components.c\<close>)
  and \<open>kop\<close>, the operations that threads and interrupts perform on it in any order.  Runs keep the
  invariant of \<open>RttTick\<close>, so the thread that runs always has the highest priority, and a thread
  that sleeps is woken at the tick that it asked for.
\<close>

section \<open>Operations in any order\<close>

text \<open>\<open>Wait\<close> and \<open>Wake\<close> are the parts of \<open>rt_sem_take\<close> and \<open>rt_sem_release\<close> that suspend the current
  thread, \<open>rt_ipc_list_suspend\<close>, and resume another one, \<open>rt_ipc_list_resume\<close>.  \<open>Slept\<close> is the end
  of \<open>rt_thread_sleep\<close>.\<close>

datatype 't kop =
  Tick | Sleep u32 | Slept | Wait | Wake 't | Yield | Lock | Unlock | Create 't u8 u32 | Startup 't

definition kwait :: "'t kern \<Rightarrow> 't kern option" where
  "kwait k = do {
     t \<leftarrow> current_thread k;
     let k = on_tcb t (\<lambda>b. b\<lparr>thr_error := RT_EOK\<rparr>) k;
     (r, k) \<leftarrow> rt_thread_suspend t k;
     rt_schedule k }"

definition kwake :: "'t \<Rightarrow> 't kern \<Rightarrow> 't kern option" where
  "kwake t k = do {
     (r, k) \<leftarrow> rt_thread_resume t k;
     rt_schedule k }"

fun kexec :: "'t kop \<Rightarrow> 't kern \<Rightarrow> 't kern option" where
  "kexec Tick k = rt_tick_increase k"
| "kexec (Sleep n) k = rt_thread_sleep n k"
| "kexec Slept k = do { t \<leftarrow> current_thread k; Some (rt_thread_slept t k) }"
| "kexec Wait k = kwait k"
| "kexec (Wake t) k = kwake t k"
| "kexec Yield k = rt_thread_yield k"
| "kexec Lock k = Some (rt_enter_critical k)"
| "kexec Unlock k = rt_exit_critical k"
| "kexec (Create t p n) k = rt_thread_init t p n k"
| "kexec (Startup t) k = rt_thread_startup t k"

text \<open>When the callers use them: a thread waits or sleeps while it runs, the idle thread \<open>i\<close> never
  does; a sleep is shorter than half the range of the counter; a thread is created once and
  started after that.\<close>

fun kop_ok :: "'t \<Rightarrow> 't kern \<Rightarrow> 't kop \<Rightarrow> bool" where
  "kop_ok i k (Sleep n) \<longleftrightarrow> (case current_thread k of None \<Rightarrow> False
     | Some c \<Rightarrow> stat (tcb k c) = RT_THREAD_RUNNING \<and> c \<noteq> i \<and> n < RT_TICK_MAX_HALF)"
| "kop_ok i k Wait \<longleftrightarrow> (case current_thread k of None \<Rightarrow> False
     | Some c \<Rightarrow> stat (tcb k c) = RT_THREAD_RUNNING \<and> c \<noteq> i)"
| "kop_ok i k Slept \<longleftrightarrow> (case current_thread k of None \<Rightarrow> False
     | Some c \<Rightarrow> stat (tcb k c) = RT_THREAD_RUNNING)"
| "kop_ok i k Lock \<longleftrightarrow> lock_nest k < 0x7fff"
| "kop_ok i k (Create t p n) \<longleftrightarrow> (stat (tcb k t) = RT_THREAD_INIT \<or> stat (tcb k t) = RT_THREAD_CLOSE) \<and> p < 8"
| "kop_ok i k (Startup t) \<longleftrightarrow> stat (tcb k t) = RT_THREAD_INIT \<and> init_priority (tcb k t) < 8"
| "kop_ok i k _ \<longleftrightarrow> True"

fun krun :: "'t kop list \<Rightarrow> 't kern \<Rightarrow> 't kern option" where
  "krun [] k = Some k"
| "krun (x # xs) k = Option.bind (kexec x k) (krun xs)"

fun kops_ok :: "'t \<Rightarrow> 't kop list \<Rightarrow> 't kern \<Rightarrow> bool" where
  "kops_ok i [] k \<longleftrightarrow> True"
| "kops_ok i (x # xs) k \<longleftrightarrow> kop_ok i k x \<and> (case kexec x k of None \<Rightarrow> True | Some k' \<Rightarrow> kops_ok i xs k')"

section \<open>While the scheduler is locked\<close>

text \<open>No operation switches to another thread while the scheduler is locked, but the last
  \<open>rt_exit_critical\<close>.\<close>

definition held :: "'t kern \<Rightarrow> 't kern \<Rightarrow> bool" where
  "held k k' \<longleftrightarrow> lock_nest k' = lock_nest k \<and> current_thread k' = current_thread k"

lemma held_trans: "held k k' \<Longrightarrow> held k' k'' \<Longrightarrow> held k k''"
  by (simp add: held_def)

lemma locked_schedule: "lock_nest k \<noteq> 0 \<Longrightarrow> rt_schedule k = Some k' \<Longrightarrow> held k k'"
  by (simp add: rt_schedule_def held_def)

lemma insert_held: "rt_schedule_insert_thread t k = Some k' \<Longrightarrow> held k k'"
  by (auto simp: rt_schedule_insert_thread_def Let_def bind_eq_Some_conv held_def split: if_splits)

lemma remove_held: "rt_schedule_remove_thread t k = Some k' \<Longrightarrow> held k k'"
  by (auto simp: rt_schedule_remove_thread_def Let_def bind_eq_Some_conv held_def split: if_splits)

lemma stop_held: "held k (snd (rt_timer_stop t k))"
  by (simp add: rt_timer_stop_def timer_remove_def held_def)

lemma start_held: "rt_timer_start t k = Some k' \<Longrightarrow> held k k'"
  by (auto simp: rt_timer_start_def timer_remove_def held_def Let_def split: if_splits)

lemma resume_held: "rt_thread_resume t k = Some (r, k') \<Longrightarrow> held k k'"
  using stop_held [of "k\<lparr>priority_table := map (removeAll t) (priority_table k)\<rparr>" t]
  by (auto simp: rt_thread_resume_def Let_def bind_eq_Some_conv held_def dest!: insert_held split: if_splits)

lemma suspend_held:
  assumes "rt_thread_suspend t k = Some (r, k')"
  shows "held k k'"
proof (cases "k' = k")
  case False
  then obtain k1 where k1: "rt_schedule_remove_thread t k = Some k1"
    "k' = snd (rt_timer_stop t (on_tcb t (\<lambda>b. b\<lparr>stat := RT_THREAD_SUSPEND\<rparr>) k1))"
    using assms by (auto simp: rt_thread_suspend_def Let_def bind_eq_Some_conv split: if_splits)
  have "held (on_tcb t (\<lambda>b. b\<lparr>stat := RT_THREAD_SUSPEND\<rparr>) k1) k'" unfolding k1(2) by (rule stop_held)
  then show ?thesis using remove_held [OF k1(1)] by (simp add: held_def)
qed (simp add: held_def)

lemma locked_timeout: "lock_nest k \<noteq> 0 \<Longrightarrow> rt_thread_timeout t k = Some k' \<Longrightarrow> held k k'"
  by (auto simp: rt_thread_timeout_def Let_def bind_eq_Some_conv held_def rt_schedule_def
      dest!: insert_held split: if_splits)

lemma locked_timers: "lock_nest k \<noteq> 0 \<Longrightarrow> timer_check_loop k = Some k' \<Longrightarrow> held k k'"
proof (induction k rule: timer_check_loop.induct)
  case (1 k)
  show ?case
  proof (cases "timer_list k")
    case Nil
    then show ?thesis using "1.prems" by (simp add: timer_check_loop.simps [of k] held_def)
  next
    case (Cons t ts)
    show ?thesis
    proof (cases "rt_tick k - timeout_tick (tcb k t) < RT_TICK_MAX_HALF")
      case True
      then obtain k1 where k1: "rt_thread_timeout t (timer_remove t k) = Some k1"
        "timer_check_loop (on_tcb t (\<lambda>b. b\<lparr>timer_active := False\<rparr>) k1) = Some k'"
        using "1.prems"(2) Cons by (auto simp: timer_check_loop.simps [of k] bind_eq_Some_conv)
      have h: "held k k1"
        using locked_timeout [OF _ k1(1)] "1.prems"(1) by (simp add: held_def timer_remove_def)
      then have "lock_nest (on_tcb t (\<lambda>b. b\<lparr>timer_active := False\<rparr>) k1) \<noteq> 0"
        using "1.prems"(1) by (simp add: held_def)
      from "1.IH" [OF Cons True k1(1) this k1(2)] h show ?thesis by (simp add: held_def)
    next
      case False
      then show ?thesis using "1.prems" Cons by (simp add: timer_check_loop.simps [of k] held_def)
    qed
  qed
qed

lemma locked_tick:
  assumes "lock_nest k \<noteq> 0" "rt_tick_increase k = Some k'"
  shows "held k k'"
proof -
  obtain t where t: "current_thread k = Some t"
    using assms(2) by (auto simp: rt_tick_increase_def Let_def bind_eq_Some_conv)
  let ?k0 = "on_tcb t (\<lambda>b. b\<lparr>remaining_tick := remaining_tick b - 1\<rparr>) (k\<lparr>rt_tick := rt_tick k + 1\<rparr>)"
  let ?k1 = "if remaining_tick (tcb ?k0 t) = 0 then on_tcb t (\<lambda>b. b\<lparr>remaining_tick := slice b\<rparr>) ?k0 else ?k0"
  have h: "held k ?k1" by (simp add: held_def)
  have "timer_check_loop ?k1 = Some k'"
    using assms t
    by (simp add: rt_tick_increase_def rt_timer_check_def rt_thread_yield_def rt_schedule_def Let_def
        split: if_splits)
  from locked_timers [OF _ this] h assms(1) show ?thesis by (simp add: held_def)
qed

lemma locked_exec:
  assumes "lock_nest k \<noteq> 0" "kexec x k = Some k'"
  shows "current_thread k' = current_thread k \<or> x = Unlock \<and> lock_nest k' = 0"
proof (cases x)
  case Tick
  then show ?thesis using assms locked_tick [OF assms(1)] by (simp add: held_def)
next
  case (Sleep n)
  then obtain t r k1 k2 where k: "rt_thread_suspend t k = Some (r, k1)"
    "rt_timer_start t (on_tcb t (\<lambda>b. b\<lparr>timer_init := n\<rparr>) k1) = Some k2" "rt_schedule k2 = Some k'"
    using assms(2) by (auto simp: rt_thread_sleep_def Let_def bind_eq_Some_conv)
  have "held k k2" using suspend_held [OF k(1)] start_held [OF k(2)] by (simp add: held_def)
  then show ?thesis using assms(1) locked_schedule [OF _ k(3)] by (simp add: held_def)
next
  case Slept
  then show ?thesis using assms(2) by (auto simp: bind_eq_Some_conv rt_thread_slept_def)
next
  case Wait
  then obtain t r k1 where k: "rt_thread_suspend t (on_tcb t (\<lambda>b. b\<lparr>thr_error := RT_EOK\<rparr>) k) = Some (r, k1)"
    "rt_schedule k1 = Some k'"
    using assms(2) by (auto simp: kwait_def Let_def bind_eq_Some_conv)
  show ?thesis using assms(1) suspend_held [OF k(1)] locked_schedule [OF _ k(2)] by (simp add: held_def)
next
  case (Wake t)
  then obtain r k1 where k: "rt_thread_resume t k = Some (r, k1)" "rt_schedule k1 = Some k'"
    using assms(2) by (auto simp: kwake_def bind_eq_Some_conv)
  show ?thesis using assms(1) resume_held [OF k(1)] locked_schedule [OF _ k(2)] by (simp add: held_def)
next
  case Yield
  then show ?thesis using assms by (simp add: rt_thread_yield_def rt_schedule_def)
next
  case Lock
  then show ?thesis using assms(2) by (auto simp: rt_enter_critical_def)
next
  case Unlock
  show ?thesis
  proof (cases "sint (lock_nest k - 1) \<le> 0 \<and> current_thread k \<noteq> None")
    case True
    then have "rt_schedule (k\<lparr>lock_nest := 0\<rparr>) = Some k'"
      using assms(2) Unlock by (simp add: rt_exit_critical_def Let_def)
    from schedule_time [OF this] show ?thesis using Unlock by (simp add: same_time_def)
  next
    case False
    then show ?thesis using assms(2) Unlock by (auto simp: rt_exit_critical_def Let_def split: if_splits)
  qed
next
  case (Create t p n)
  then show ?thesis using assms(2) by (auto simp: rt_thread_init_def split: if_splits)
next
  case (Startup t)
  then obtain r k1 where k: "rt_thread_resume t (on_tcb t (\<lambda>b. b\<lparr>thr_priority := init_priority b,
        number_mask := push_bit (unat (init_priority b)) 1, stat := RT_THREAD_SUSPEND\<rparr>) k) = Some (r, k1)"
    "(if current_thread k1 \<noteq> None then rt_schedule k1 else Some k1) = Some k'"
    using assms(2) by (auto simp: rt_thread_startup_def Let_def bind_eq_Some_conv split: if_splits)
  show ?thesis
    using assms(1) resume_held [OF k(1)] locked_schedule [of k1 k'] k(2) by (auto simp: held_def split: if_splits)
qed

section \<open>The invariant\<close>

lemma inv_parts: "kern_inv i k \<Longrightarrow> kern_ok i k \<and> sched_ok k \<and> timers_at (rt_tick k) k \<and> active (tcb k i)"
  by (simp add: kern_inv_def kern_ok_def)

text \<open>Writing fields that neither the scheduler nor a timer looks at.\<close>

lemma field_kern:
  assumes "kern_inv i k" "\<And>b. stat (g b) = stat b" "\<And>b. thr_priority (g b) = thr_priority b" "\<And>b. number_mask (g b) = number_mask b"
    and "\<And>b. timer_active (g b) = timer_active b" "\<And>b. timeout_tick (g b) = timeout_tick b"
  shows "kern_inv i (on_tcb t g k)" "moved {t} k (on_tcb t g k)"
proof -
  note s = inv_parts [OF assms(1)]
  have "sched_ok (on_tcb t g k)" "runs_highest k \<Longrightarrow> runs_highest (on_tcb t g k)"
    using sched_on_tcb [of k g t] s assms(2-4) by simp_all
  moreover have "timers_at (rt_tick k) (on_tcb t g k) = timers_at (rt_tick k) k"
    by (rule timers_field [where g = g and t = t]) (use assms(2,5,6) in simp_all)
  ultimately show "kern_inv i (on_tcb t g k)"
    using s assms(1,2) by (cases "i = t") (simp_all add: kern_inv_def kern_ok_def)
  show "moved {t} k (on_tcb t g k)"
    using assms(2,3) by (intro moved_on_tcb) (simp add: started_def)
qed

lemma wait_kern:
  assumes "kern_inv i k" "current_thread k = Some t" "stat (tcb k t) = RT_THREAD_RUNNING" "t \<noteq> i"
  obtains k' where "kwait k = Some k'" "kern_inv i k'" "moved {t} k k'" "rt_tick k' = rt_tick k"
    "lock_nest k' = lock_nest k" "stat (tcb k' t) = RT_THREAD_SUSPEND" "t \<notin> set (timer_list k')"
proof -
  let ?k = "on_tcb t (\<lambda>b. b\<lparr>thr_error := RT_EOK\<rparr>) k"
  have f: "kern_inv i ?k" "moved {t} k ?k" by (rule field_kern [OF assms(1)]; simp)+
  obtain k1 where k1: "rt_thread_suspend t ?k = Some (RT_EOK, k1)" "kern_ok i k1" "moved {t} ?k k1"
    "timer_list k1 = timer_list ?k" "t \<notin> set (timer_list ?k)" "current_thread k1 = Some t" "rt_tick k1 = rt_tick ?k"
    "lock_nest k1 = lock_nest ?k" "tcb k1 = (tcb ?k)(t := (tcb ?k t)\<lparr>stat := RT_THREAD_SUSPEND, timer_active := False\<rparr>)"
    by (rule suspend_current [of i ?k t]) (use f(1) assms in \<open>simp_all add: kern_inv_def\<close>)
  obtain k2 where k2: "rt_schedule k1 = Some k2" "kern_inv i k2" "restat k1 k2" by (rule schedule_kern [OF k1(2)])
  note r = restat_timers [OF k2(3)]
  have m: "moved {t} k k2"
    by (rule moved_trans1 [OF moved_trans1 [OF f(2) k1(3)] moved_mono [OF r(2)]]) simp
  have st: "stat (tcb k1 t) = RT_THREAD_SUSPEND" using k1(9) by simp
  then have st2: "stat (tcb k2 t) = RT_THREAD_SUSPEND" using k2(3) unfolding restat_def by (metis rt_stat.distinct(9,15))
  have 1: "kwait k = Some k2" using assms(2) k1(1) k2(1) by (simp add: kwait_def Let_def)
  show thesis
    by (rule that [OF 1 k2(2) m _ _ st2]) (use r k1 k2(3) in \<open>simp_all add: restat_def same_time_def\<close>)
qed

lemma wake_kern:
  assumes "kern_inv i k"
  obtains k' where "kwake t k = Some k'" "kern_inv i k'" "moved (if stat (tcb k t) = RT_THREAD_SUSPEND then {t} else {}) k k'"
    "rt_tick k' = rt_tick k" "lock_nest k' = lock_nest k" "stat (tcb k t) = RT_THREAD_SUSPEND \<longrightarrow> active (tcb k' t)"
proof (cases "stat (tcb k t) = RT_THREAD_SUSPEND")
  case True
  obtain k1 where k1: "rt_thread_resume t k = Some (RT_EOK, k1)" "kern_ok i k1" "active (tcb k1 t)"
    "moved {t} k k1" "rt_tick k1 = rt_tick k" "lock_nest k1 = lock_nest k"
    using resume_kern [of i k t] inv_parts [OF assms] True by metis
  obtain k2 where k2: "rt_schedule k1 = Some k2" "kern_inv i k2" "restat k1 k2" by (rule schedule_kern [OF k1(2)])
  note r = restat_timers [OF k2(3)]
  have m: "moved {t} k k2" by (rule moved_trans1 [OF k1(4) moved_mono [OF r(2)]]) simp
  show thesis
    by (rule that [of k2]) (use k1 k2 m True in \<open>simp_all add: kwake_def restat_def same_time_def\<close>)
next
  case False
  have "kern_ok i k" using inv_parts [OF assms] by blast
  then obtain k2 where k2: "rt_schedule k = Some k2" "kern_inv i k2" "restat k k2" by (rule schedule_kern)
  show thesis
    by (rule that [of k2])
      (use k2 restat_timers [OF k2(3)] False in \<open>simp_all add: kwake_def rt_thread_resume_def restat_def same_time_def\<close>)
qed

lemma lock_kern:
  assumes "kern_inv i k" "lock_nest k < 0x7fff"
  shows "kern_inv i (rt_enter_critical k)" "moved {} k (rt_enter_critical k)" "rt_tick (rt_enter_critical k) = rt_tick k"
    "lock_nest (rt_enter_critical k) \<noteq> 0"
proof -
  let ?k = "rt_enter_critical k"
  show n: "lock_nest ?k \<noteq> 0"
  proof
    assume "lock_nest ?k = 0"
    then have "lock_nest k = - 1" unfolding rt_enter_critical_def by (simp add: eq_neg_iff_add_eq_0)
    then show False using assms(2) by simp
  qed
  have "sched_ok ?k = sched_ok k" by (rule sched_cong) (simp_all add: rt_enter_critical_def)
  then show "kern_inv i ?k"
    using n inv_parts [OF assms(1)] unfolding kern_inv_def kern_ok_def
    by (simp add: timers_at_def left_at_def [abs_def] rt_enter_critical_def)
  show "moved {} k ?k" "rt_tick ?k = rt_tick k" by (simp_all add: rt_enter_critical_def moved_def stays_def prio_of_def)
qed

lemma unlock_kern:
  assumes "kern_inv i k"
  obtains k' where "rt_exit_critical k = Some k'" "kern_inv i k'" "moved {} k k'" "rt_tick k' = rt_tick k"
proof -
  have ok: "kern_ok i (k\<lparr>lock_nest := n\<rparr>)" "moved {} k (k\<lparr>lock_nest := n\<rparr>)" for n
  proof -
    have "sched_ok (k\<lparr>lock_nest := n\<rparr>) = sched_ok k" by (rule sched_cong) simp_all
    then show "kern_ok i (k\<lparr>lock_nest := n\<rparr>)" using inv_parts [OF assms]
      by (simp add: kern_ok_def timers_at_def left_at_def [abs_def])
    show "moved {} k (k\<lparr>lock_nest := n\<rparr>)" by (simp add: moved_def stays_def prio_of_def)
  qed
  have c: "current_thread k \<noteq> None" using inv_parts [OF assms] by (auto simp: sched_ok_def)
  show thesis
  proof (cases "sint (lock_nest k - 1) \<le> 0")
    case True
    obtain k' where k': "rt_schedule (k\<lparr>lock_nest := 0\<rparr>) = Some k'" "kern_inv i k'" "restat (k\<lparr>lock_nest := 0\<rparr>) k'"
      by (rule schedule_kern [OF ok(1) [of 0]])
    note r = restat_timers [OF k'(3)]
    show thesis
      by (rule that [OF _ k'(2) moved_trans1 [OF ok(2) r(2)]])
        (use True c k'(1) r(3) in \<open>simp_all add: rt_exit_critical_def Let_def\<close>)
  next
    case False
    then have "lock_nest k - 1 \<noteq> 0" by auto
    then have "kern_inv i (k\<lparr>lock_nest := lock_nest k - 1\<rparr>)" using ok(1) by (simp add: kern_inv_def)
    then show thesis
      by (intro that [OF _ _ ok(2)]) (use False in \<open>simp_all add: rt_exit_critical_def Let_def\<close>)
  qed
qed

text \<open>The nesting depth is a signed 16-bit number: at a depth of \<open>0x8001\<close> one exit unlocks the scheduler.\<close>

lemma deep_lock_lost:
  assumes "kern_inv i k" "lock_nest k = 0x8001"
  shows "\<exists>k'. rt_exit_critical k = Some k' \<and> kern_inv i k' \<and> lock_nest k' = 0"
proof -
  have "sched_ok (k\<lparr>lock_nest := 0\<rparr>) = sched_ok k" by (rule sched_cong) simp_all
  then have "kern_ok i (k\<lparr>lock_nest := 0\<rparr>)"
    using inv_parts [OF assms(1)] by (simp add: kern_ok_def timers_at_def left_at_def [abs_def])
  then obtain k' where "rt_schedule (k\<lparr>lock_nest := 0\<rparr>) = Some k'" "kern_inv i k'" "restat (k\<lparr>lock_nest := 0\<rparr>) k'"
    by (rule schedule_kern)
  moreover have "current_thread k \<noteq> None" using inv_parts [OF assms(1)] by (auto simp: sched_ok_def)
  ultimately show ?thesis using assms(2) by (simp add: rt_exit_critical_def Let_def restat_def same_time_def)
qed

text \<open>A thread that is not ready gets a new control block that is not ready either.\<close>

lemma queues_other:
  assumes "queues_ok k" "stat (tcb k t) \<noteq> RT_THREAD_READY" "stat (g (tcb k t)) \<noteq> RT_THREAD_READY"
    and "started (g (tcb k t)) \<Longrightarrow> unat (thr_priority (g (tcb k t))) < 8
      \<and> number_mask (g (tcb k t)) = 2 ^ unat (thr_priority (g (tcb k t)))"
  shows "queues_ok (on_tcb t g k)"
proof -
  let ?k = "on_tcb t g k"
  have st: "stat (tcb ?k u) = RT_THREAD_READY \<longleftrightarrow> stat (tcb k u) = RT_THREAD_READY" for u
    using assms(2,3) by simp
  have pr: "u \<noteq> t \<Longrightarrow> prio_of ?k u = prio_of k u" for u by (simp add: prio_of_def)
  have "{u. stat (tcb ?k u) = RT_THREAD_READY \<and> prio_of ?k u = p} = {u. stat (tcb k u) = RT_THREAD_READY \<and> prio_of k u = p}" for p
    using assms(2,3) pr by auto
  moreover have "prio_of ?k u < 8 \<and> number_mask (tcb ?k u) = 2 ^ prio_of ?k u" if "started (tcb ?k u)" for u
    using that assms(4) queues_started [OF assms(1), of u] by (cases "u = t") (simp_all add: prio_of_def)
  ultimately show ?thesis using assms(1) unfolding queues_ok_def by simp
qed

lemma other_kern:
  assumes "kern_ok i k" "\<not> started (tcb k t)" "\<not> active (g (tcb k t))"
    and "started (g (tcb k t)) \<Longrightarrow> unat (thr_priority (g (tcb k t))) < 8
      \<and> number_mask (g (tcb k t)) = 2 ^ unat (thr_priority (g (tcb k t)))"
  shows "kern_ok i (on_tcb t g k)" "moved {t} k (on_tcb t g k)" "runs_highest k \<Longrightarrow> runs_highest (on_tcb t g k)"
proof -
  have s: "sched_ok k" "timers_at (rt_tick k) k" "active (tcb k i)" using assms(1) by (simp_all add: kern_ok_def)
  have n: "t \<notin> set (timer_list k)" by (rule not_sleeping [OF s(2)]) (use assms(2) in \<open>auto simp: started_def\<close>)
  obtain c where c: "current_thread k = Some c" using s(1) by (auto simp: sched_ok_def)
  have ct: "c \<noteq> t" using sched_current [OF s(1) c] assms(2) by (auto simp: started_def)
  have q: "queues_ok (on_tcb t g k)"
    by (rule queues_other [OF sched_queues [OF s(1)]]) (use assms(2-4) in \<open>auto simp: started_def\<close>)
  have un: "u = c" if "stat (tcb (on_tcb t g k) u) = RT_THREAD_RUNNING" for u
    using that sched_running [OF s(1), of u] c assms(3) by (cases "u = t") simp_all
  have "sched_ok (on_tcb t g k)"
    by (rule sched_okI [OF q _ _ un]) (use c ct sched_current [OF s(1) c] in simp_all)
  then show "kern_ok i (on_tcb t g k)"
    using timers_on_tcb [OF s(2) n] s(3) assms(2) by (auto simp: kern_ok_def started_def)
  show "moved {t} k (on_tcb t g k)" using assms(2) by (intro moved_on_tcb) simp
  show "runs_highest k \<Longrightarrow> runs_highest (on_tcb t g k)"
    using assms(3) c ct by (auto simp: runs_highest_def prio_of_def)
qed

lemma create_kern:
  assumes "kern_inv i k" "\<not> started (tcb k t)" "p < 8"
  obtains k' where "rt_thread_init t p n k = Some k'" "kern_inv i k'" "moved {t} k k'" "rt_tick k' = rt_tick k"
    "lock_nest k' = lock_nest k" "tcb k' = (tcb k)(t := tcb k' t)" "stat (tcb k' t) = RT_THREAD_INIT"
    "init_priority (tcb k' t) = p"
proof -
  have "kern_ok i k" using inv_parts [OF assms(1)] by blast
  let ?g = "\<lambda>b. \<lparr>stat = RT_THREAD_INIT, thr_error = RT_EOK, init_priority = p, thr_priority = p,
     number_mask = 0, slice = n, remaining_tick = n, timer_active = False, timer_init = 0, timeout_tick = 0\<rparr>"
  note o = other_kern [OF \<open>kern_ok i k\<close> assms(2), where g = ?g]
  have "kern_inv i (on_tcb t ?g k)" using o(1,3) assms(1) by (simp add: kern_inv_def started_def)
  moreover have "moved {t} k (on_tcb t ?g k)" by (rule o(2)) (simp_all add: started_def)
  moreover have "unat p < 8" using assms(3) by (simp add: word_less_nat_alt)
  ultimately show thesis by (intro that [of "on_tcb t ?g k"]) (simp_all add: rt_thread_init_def)
qed

lemma startup_kern:
  assumes "kern_inv i k" "stat (tcb k t) = RT_THREAD_INIT" "init_priority (tcb k t) < 8"
  obtains k' where "rt_thread_startup t k = Some k'" "kern_inv i k'" "moved {t} k k'" "rt_tick k' = rt_tick k"
    "lock_nest k' = lock_nest k" "active (tcb k' t)" "prio_of k' t = unat (init_priority (tcb k t))"
proof -
  have ok: "kern_ok i k" "\<not> started (tcb k t)" using inv_parts [OF assms(1)] assms(2) by (simp_all add: started_def)
  let ?g = "\<lambda>b. b\<lparr>thr_priority := init_priority b, number_mask := push_bit (unat (init_priority b)) 1,
      stat := RT_THREAD_SUSPEND\<rparr>"
  have p: "unat (init_priority (tcb k t)) < 8" using assms(3) by (simp add: word_less_nat_alt)
  have o: "kern_ok i (on_tcb t ?g k)" "moved {t} k (on_tcb t ?g k)"
    by (rule other_kern [OF ok, where g = ?g]; use p in \<open>simp add: push_bit_eq_mult\<close>)+
  obtain k1 where k1: "rt_thread_resume t (on_tcb t ?g k) = Some (RT_EOK, k1)" "kern_ok i k1" "active (tcb k1 t)"
    "moved {t} (on_tcb t ?g k) k1" "rt_tick k1 = rt_tick k" "lock_nest k1 = lock_nest k" "current_thread k1 = current_thread k"
    using resume_kern [OF o(1), of t] by auto
  have c: "current_thread k1 \<noteq> None" using k1(2) by (auto simp: kern_ok_def sched_ok_def)
  obtain k2 where k2: "rt_schedule k1 = Some k2" "kern_inv i k2" "restat k1 k2" by (rule schedule_kern [OF k1(2)])
  note r = restat_timers [OF k2(3)]
  have m: "moved {t} k k2" by (rule moved_trans1 [OF moved_trans1 [OF o(2) k1(4)] moved_mono [OF r(2)]]) simp
  have 1: "rt_thread_startup t k = Some k2"
    using assms(2) k1(1) k2(1) c by (simp add: rt_thread_startup_def Let_def)
  have pr: "prio_of (on_tcb t ?g k) t = unat (init_priority (tcb k t))" by (simp add: prio_of_def)
  have "started (tcb (on_tcb t ?g k) t)" by (simp add: started_def)
  then have "prio_of k1 t = unat (init_priority (tcb k t))" using moved_prio [OF k1(4)] pr by simp
  then show thesis
    by (intro that [OF 1 k2(2) m]) (use r k1(3,5,6) k2(3) restat_prio [OF k2(3)] in \<open>simp_all add: restat_def same_time_def\<close>)
qed

text \<open>The threads that an operation concerns.\<close>

fun concerns :: "'t kop \<Rightarrow> 't kern \<Rightarrow> 't set" where
  "concerns Tick k = due (rt_tick k) k"
| "concerns (Sleep n) k = set_option (current_thread k)"
| "concerns Slept k = set_option (current_thread k)"
| "concerns Wait k = set_option (current_thread k)"
| "concerns (Wake t) k = {t}"
| "concerns (Create t p n) k = {t}"
| "concerns (Startup t) k = {t}"
| "concerns _ k = {}"

lemma kexec_kern:
  assumes "kern_inv i k" "kop_ok i k x"
  obtains k' where "kexec x k = Some k'" "kern_inv i k'" "moved (concerns x k) k k'"
    "rt_tick k' = rt_tick k + (if x = Tick then 1 else 0)" "x \<noteq> Lock \<and> x \<noteq> Unlock \<longrightarrow> lock_nest k' = lock_nest k"
proof (cases x)
  case Tick
  obtain k' where "rt_tick_increase k = Some k'" "kern_inv i k'" "moved (due (rt_tick k) k) k k'"
    "\<forall>t\<in>due (rt_tick k) k. active (tcb k' t) \<and> thr_error (tcb k' t) = - RT_ETIMEOUT \<and> t \<notin> set (timer_list k')"
    "rt_tick k' = rt_tick k + 1" "lock_nest k' = lock_nest k" by (rule tick_kern [OF assms(1)])
  then show thesis using that Tick by simp
next
  case (Sleep n)
  then obtain c where "current_thread k = Some c" "stat (tcb k c) = RT_THREAD_RUNNING" "c \<noteq> i" "n < RT_TICK_MAX_HALF"
    using assms(2) by (auto split: option.splits)
  moreover have "kern_ok i k" using inv_parts [OF assms(1)] by blast
  ultimately obtain k' where "rt_thread_sleep n k = Some k'" "kern_inv i k'" "moved {c} k k'" "rt_tick k' = rt_tick k"
    "lock_nest k' = lock_nest k" using sleep_kern [of i k c n] by metis
  then show thesis using that Sleep \<open>current_thread k = Some c\<close> by simp
next
  case Slept
  then obtain c where c: "current_thread k = Some c" "stat (tcb k c) = RT_THREAD_RUNNING"
    using assms(2) by (auto split: option.splits)
  have f: "kern_inv i (on_tcb c (\<lambda>b. b\<lparr>thr_error := RT_EOK\<rparr>) k)" "moved {c} k (on_tcb c (\<lambda>b. b\<lparr>thr_error := RT_EOK\<rparr>) k)"
    by (rule field_kern [OF assms(1)]; simp)+
  have "moved {c} k k" by (simp add: moved_def stays_def)
  then show thesis using f c Slept assms(1) that [of "rt_thread_slept c k"] by (simp add: rt_thread_slept_def)
next
  case Wait
  then obtain c where "current_thread k = Some c" "stat (tcb k c) = RT_THREAD_RUNNING" "c \<noteq> i"
    using assms(2) by (auto split: option.splits)
  then obtain k' where "kwait k = Some k'" "kern_inv i k'" "moved {c} k k'" "rt_tick k' = rt_tick k"
    "lock_nest k' = lock_nest k" "stat (tcb k' c) = RT_THREAD_SUSPEND" "c \<notin> set (timer_list k')"
    by (rule wait_kern [OF assms(1)])
  then show thesis using that Wait \<open>current_thread k = Some c\<close> by simp
next
  case (Wake t)
  obtain k' where k': "kwake t k = Some k'" "kern_inv i k'" "moved (if stat (tcb k t) = RT_THREAD_SUSPEND then {t} else {}) k k'"
    "rt_tick k' = rt_tick k" "lock_nest k' = lock_nest k" "stat (tcb k t) = RT_THREAD_SUSPEND \<longrightarrow> active (tcb k' t)"
    by (rule wake_kern [OF assms(1)])
  have "moved {t} k k'" by (rule moved_mono [OF k'(3)]) auto
  with k' show thesis using that Wake by simp
next
  case Yield
  have "kern_ok i k" using inv_parts [OF assms(1)] by blast
  then obtain k' where k': "rt_schedule k = Some k'" "kern_inv i k'" "restat k k'" by (rule schedule_kern)
  then show thesis using restat_timers [OF k'(3)] that Yield by (simp add: rt_thread_yield_def restat_def same_time_def)
next
  case Lock
  then show thesis using lock_kern [OF assms(1)] assms(2) that by simp
next
  case Unlock
  obtain k' where "rt_exit_critical k = Some k'" "kern_inv i k'" "moved {} k k'" "rt_tick k' = rt_tick k"
    by (rule unlock_kern [OF assms(1)])
  then show thesis using that Unlock by simp
next
  case (Create t p n)
  obtain k' where "rt_thread_init t p n k = Some k'" "kern_inv i k'" "moved {t} k k'" "rt_tick k' = rt_tick k"
    "lock_nest k' = lock_nest k" "tcb k' = (tcb k)(t := tcb k' t)" "stat (tcb k' t) = RT_THREAD_INIT"
    "init_priority (tcb k' t) = p"
    by (rule create_kern [OF assms(1), of t p n]) (use Create assms(2) in \<open>auto simp: started_def\<close>)
  then show thesis using that Create by simp
next
  case (Startup t)
  obtain k' where "rt_thread_startup t k = Some k'" "kern_inv i k'" "moved {t} k k'" "rt_tick k' = rt_tick k"
    "lock_nest k' = lock_nest k" "active (tcb k' t)" "prio_of k' t = unat (init_priority (tcb k t))"
    using startup_kern [OF assms(1), of t] Startup assms(2) by (metis kop_ok.simps(6))
  then show thesis using that Startup by simp
qed

lemma krun_kern:
  assumes "kern_inv i k" "kops_ok i xs k"
  obtains k' where "krun xs k = Some k'" "kern_inv i k'"
  using assms
proof (induction xs arbitrary: k thesis)
  case (Cons x xs)
  have "kop_ok i k x" using Cons.prems(3) by simp
  then obtain k1 where "kexec x k = Some k1" "kern_inv i k1" using kexec_kern [OF Cons.prems(2), of x] by metis
  then show ?case using Cons.IH [of k1] Cons.prems(1,3) by auto
qed simp

section \<open>A sleeping thread\<close>

definition ticks :: "'t kop list \<Rightarrow> nat" where
  "ticks xs = length (filter (\<lambda>x. x = Tick) xs)"

lemma ticks_simps [simp]: "ticks [] = 0" "ticks (x # xs) = (if x = Tick then Suc (ticks xs) else ticks xs)"
  by (simp_all add: ticks_def)

lemma sleeps_suspended:
  assumes "kern_inv i k" "t \<in> set (timer_list k)"
  shows "stat (tcb k t) = RT_THREAD_SUSPEND"
proof -
  have "timers_at (rt_tick k) k" using inv_parts [OF assms(1)] by blast
  then show ?thesis using assms(2) unfolding timers_at_def by blast
qed

lemma sleeper_not_concerned:
  assumes "kern_inv i k" "kop_ok i k x" "t \<in> set (timer_list k)" "x \<noteq> Wake t" "x \<noteq> Tick"
  shows "t \<notin> concerns x k"
  using assms(2,4,5) sleeps_suspended [OF assms(1,3)] by (cases x) (auto split: option.splits)

lemma sleeper_step:
  assumes "kern_inv i k" "kop_ok i k x" "t \<in> set (timer_list k)" "x \<noteq> Wake t"
    and "x = Tick \<longrightarrow> 2 \<le> left_at (rt_tick k) k t"
  obtains k' where "kexec x k = Some k'" "kern_inv i k'" "t \<in> set (timer_list k')"
    "left_at (rt_tick k') k' t = left_at (rt_tick k) k t - (if x = Tick then 1 else 0)"
proof -
  obtain k' where k': "kexec x k = Some k'" "kern_inv i k'" "moved (concerns x k) k k'"
    "rt_tick k' = rt_tick k + (if x = Tick then 1 else 0)" "x \<noteq> Lock \<and> x \<noteq> Unlock \<longrightarrow> lock_nest k' = lock_nest k"
    by (rule kexec_kern [OF assms(1,2)])
  have n: "t \<notin> concerns x k"
    using sleeper_not_concerned [OF assms(1-4)] assms(5) by (cases "x = Tick") (auto simp: due_def)
  note o = moved_out [OF k'(3) n]
  have "left_at (rt_tick k') k' t = left_at (rt_tick k) k t - (if x = Tick then 1 else 0)"
    using o(4) k'(4) assms(5) later_left [of "timeout_tick (tcb k t)" "rt_tick k"] by (cases "x = Tick") (simp_all add: left_at_def)
  then show thesis using that k'(1,2) o(3) assms(3) by simp
qed

lemma sleeper_run:
  assumes "kern_inv i k" "kops_ok i xs k" "t \<in> set (timer_list k)" "Wake t \<notin> set xs"
    and "ticks xs < max 1 (left_at (rt_tick k) k t)"
  obtains k' where "krun xs k = Some k'" "kern_inv i k'" "t \<in> set (timer_list k')"
    "left_at (rt_tick k') k' t = left_at (rt_tick k) k t - ticks xs"
  using assms
proof (induction xs arbitrary: k thesis)
  case (Cons x xs)
  have w: "x \<noteq> Wake t" using Cons.prems(5) by auto
  have l: "x = Tick \<longrightarrow> 2 \<le> left_at (rt_tick k) k t" using Cons.prems(6) by (auto simp: max_def split: if_splits)
  obtain k1 where k1: "kexec x k = Some k1" "kern_inv i k1" "t \<in> set (timer_list k1)"
    "left_at (rt_tick k1) k1 t = left_at (rt_tick k) k t - (if x = Tick then 1 else 0)"
    by (rule sleeper_step [OF Cons.prems(2) _ Cons.prems(4) w l]) (use Cons.prems(3) in auto)
  have 1: "kops_ok i xs k1" "Wake t \<notin> set xs" "ticks xs < max 1 (left_at (rt_tick k1) k1 t)"
    using Cons.prems(3,5,6) k1(1,4) l by (auto simp: max_def split: if_splits)
  obtain k2 where "krun xs k1 = Some k2" "kern_inv i k2" "t \<in> set (timer_list k2)"
    "left_at (rt_tick k2) k2 t = left_at (rt_tick k1) k1 t - ticks xs"
    using Cons.IH [OF _ k1(2) 1(1) k1(3) 1(2,3)] by metis
  then show ?case using Cons.prems(1) k1(1,4) by simp
qed simp

text \<open>The thread that runs sleeps for \<open>n\<close> ticks.\<close>

lemma sleep_run:
  assumes "kern_inv i k" "current_thread k = Some t" "kops_ok i (Sleep n # xs) k" "Wake t \<notin> set xs"
    and "ticks xs < max 1 (unat n)"
  obtains k' where "krun (Sleep n # xs) k = Some k'" "kern_inv i k'" "t \<in> set (timer_list k')"
    "left_at (rt_tick k') k' t = unat n - ticks xs"
proof -
  have c: "stat (tcb k t) = RT_THREAD_RUNNING" "t \<noteq> i" "n < RT_TICK_MAX_HALF" using assms(2,3) by simp_all
  have "kern_ok i k" using inv_parts [OF assms(1)] by blast
  then obtain k1 where k1: "rt_thread_sleep n k = Some k1" "kern_inv i k1" "moved {t} k k1" "t \<in> set (timer_list k1)"
    "timeout_tick (tcb k1 t) = rt_tick k + n" "rt_tick k1 = rt_tick k" "lock_nest k1 = lock_nest k"
    by (rule sleep_kern [OF _ assms(2) c])
  have l: "left_at (rt_tick k1) k1 t = unat n" using k1(5,6) by (simp add: left_at_def)
  have o: "kops_ok i xs k1" "ticks xs < max 1 (left_at (rt_tick k1) k1 t)" using assms(3,5) k1(1) l by simp_all
  obtain k2 where "krun xs k1 = Some k2" "kern_inv i k2" "t \<in> set (timer_list k2)"
    "left_at (rt_tick k2) k2 t = left_at (rt_tick k1) k1 t - ticks xs"
    by (rule sleeper_run [OF k1(2) o(1) k1(4) assms(4) o(2)])
  then show thesis using that k1(1) l by simp
qed

lemma krun_append: "krun (xs @ ys) k = Option.bind (krun xs k) (krun ys)"
proof (induction xs arbitrary: k)
  case (Cons x xs)
  then show ?case by (cases "kexec x k") simp_all
qed simp

lemma kops_ok_append: "kops_ok i (xs @ ys) k \<Longrightarrow> krun xs k = Some k' \<Longrightarrow> kops_ok i xs k \<and> kops_ok i ys k'"
  by (induction xs arbitrary: k) (auto simp: bind_eq_Some_conv)

section \<open>The start of the system\<close>

definition rt_system_timer_init :: "'t kern \<Rightarrow> 't kern" where
  "rt_system_timer_init k = k\<lparr>timer_list := []\<rparr>"

definition rt_application_init :: "'t \<Rightarrow> 't kern \<Rightarrow> 't kern option" where
  "rt_application_init main_thread k = do {
     k \<leftarrow> rt_thread_init main_thread 3 20 k;
     rt_thread_startup main_thread k }"

definition rt_thread_idle_init :: "'t \<Rightarrow> 't kern \<Rightarrow> 't kern option" where
  "rt_thread_idle_init idle k = do {
     k \<leftarrow> rt_thread_init idle 7 32 k;
     rt_thread_startup idle k }"

definition rtthread_startup :: "'t \<Rightarrow> 't \<Rightarrow> 't kern \<Rightarrow> 't kern option" where
  "rtthread_startup main_thread idle k = do {
     let k = rt_system_timer_init k;
     let k = rt_system_scheduler_init k;
     k \<leftarrow> rt_application_init main_thread k;
     k \<leftarrow> rt_thread_idle_init idle k;
     rt_system_scheduler_start k }"

text \<open>The memory at the start: no thread runs and none is started.\<close>

definition fresh :: "'t kern \<Rightarrow> bool" where
  "fresh k \<longleftrightarrow> current_thread k = None \<and> (\<forall>t. \<not> started (tcb k t))"

lemma first_startup:
  assumes "queues_ok k" "current_thread k = None" "\<not> started (tcb k t)" "p < 8"
  obtains k' where "Option.bind (rt_thread_init t p n k) (rt_thread_startup t) = Some k'" "queues_ok k'" "current_thread k' = None"
    "timer_list k' = timer_list k" "lock_nest k' = lock_nest k" "stat (tcb k' t) = RT_THREAD_READY" "prio_of k' t = unat p"
    "\<forall>u. u \<noteq> t \<longrightarrow> tcb k' u = tcb k u"
proof -
  have p: "unat p < 8" using assms(4) by (simp add: word_less_nat_alt)
  let ?g = "\<lambda>b. \<lparr>stat = RT_THREAD_SUSPEND, thr_error = RT_EOK, init_priority = p, thr_priority = p,
     number_mask = push_bit (unat p) 1, slice = n, remaining_tick = n, timer_active = False, timer_init = 0, timeout_tick = 0\<rparr>"
  let ?k = "on_tcb t ?g k"
  have q: "queues_ok ?k"
    by (rule queues_other [OF assms(1)]) (use assms(3) p in \<open>auto simp: started_def push_bit_eq_mult\<close>)
  obtain k' where k': "rt_schedule_insert_thread t ?k = Some k'" "queues_ok k'"
    "tcb k' = (tcb ?k)(t := (tcb ?k t)\<lparr>stat := RT_THREAD_READY\<rparr>)" "current_thread k' = current_thread ?k"
    "cur_priority k' = cur_priority ?k"
    by (rule insert_ready [OF q, of t]) (use assms(2) in \<open>simp_all add: started_def\<close>)
  have "map (removeAll t) (priority_table k) = priority_table k"
    by (rule not_queued [OF assms(1)]) (use assms(3) in \<open>auto simp: started_def\<close>)
  then have "Option.bind (rt_thread_init t p n k) (rt_thread_startup t) = Some k'"
    using p k'(1,4) assms(2)
    by (simp add: rt_thread_init_def rt_thread_startup_def rt_thread_resume_def rt_timer_stop_def Let_def)
  then show thesis
    using that k' assms(2) insert_time [OF k'(1)] by (simp add: same_time_def prio_of_def)
qed

lemma queues_empty:
  assumes "\<forall>t. \<not> started (tcb k t)"
  shows "queues_ok (rt_system_scheduler_init k)"
proof -
  have "stat (tcb k t) \<noteq> RT_THREAD_READY" for t using assms by (simp add: started_def) (metis rt_stat.distinct(1,13))
  then show ?thesis using assms by (simp add: queues_ok_def rt_system_scheduler_init_def)
qed

lemma scheduler_start:
  assumes "queues_ok k" "stat (tcb k u) = RT_THREAD_READY" "\<forall>t. stat (tcb k t) \<noteq> RT_THREAD_RUNNING"
  obtains k' c where "rt_system_scheduler_start k = Some k'" "sched_ok k'" "runs_highest k'" "current_thread k' = Some c"
    "timer_list k' = timer_list k" "lock_nest k' = lock_nest k" "stat (tcb k c) = RT_THREAD_READY"
    "tcb k' = (tcb k)(c := (tcb k c)\<lparr>stat := RT_THREAD_RUNNING\<rparr>)"
proof -
  obtain p t where t: "get_highest_priority_thread k = Some (of_nat p, t)" "p < 8" "prio_of k t = p"
    "stat (tcb k t) = RT_THREAD_READY" "\<And>u. stat (tcb k u) = RT_THREAD_READY \<Longrightarrow> p \<le> prio_of k u"
    using highest_found [OF assms(1,2)] by metis
  have q: "queues_ok (k\<lparr>current_thread := Some t\<rparr>)" using assms(1) queues_cong [of "k\<lparr>current_thread := Some t\<rparr>" k] by simp
  obtain k1 where k1: "rt_schedule_remove_thread t (k\<lparr>current_thread := Some t\<rparr>) = Some k1"
    "queues_ok (on_tcb t (\<lambda>b. b\<lparr>stat := RT_THREAD_RUNNING\<rparr>) k1)"
    "tcb k1 = tcb k" "current_thread k1 = Some t" "cur_priority k1 = cur_priority k"
    using remove_ready [OF q, of t RT_THREAD_RUNNING] t(4) by auto
  let ?k = "on_tcb t (\<lambda>b. b\<lparr>stat := RT_THREAD_RUNNING\<rparr>) k1"
  have un: "v = t" if "stat (tcb ?k v) = RT_THREAD_RUNNING" for v
    using that assms(3) k1(3) by (cases "v = t") simp_all
  have s: "sched_ok ?k" by (rule sched_okI [OF k1(2) _ _ un]) (use k1(4) in simp_all)
  have "runs_highest ?k" using k1(3,4) t(3,5) by (auto simp: runs_highest_def prio_of_def)
  then show thesis
    by (intro that [of ?k t, OF _ s]) (use t(1,4) k1 remove_time [OF k1(1)] in \<open>simp_all add: rt_system_scheduler_start_def Let_def same_time_def\<close>)
qed

lemma startup_inv:
  assumes "fresh k0" "m \<noteq> i"
  obtains k where "rtthread_startup m i k0 = Some k" "kern_inv i k" "current_thread k = Some m" "lock_nest k = 0"
    "prio_of k m = 3" "prio_of k i = 7" "\<forall>t. active (tcb k t) \<longleftrightarrow> t = m \<or> t = i" "timer_list k = []"
    "\<forall>t. t \<noteq> m \<longrightarrow> t \<noteq> i \<longrightarrow> tcb k t = tcb k0 t"
proof -
  let ?k = "rt_system_scheduler_init (rt_system_timer_init k0)"
  have u: "\<not> started (tcb ?k t)" "tcb ?k = tcb k0" "current_thread ?k = None" for t
    using assms(1) by (simp_all add: fresh_def rt_system_scheduler_init_def rt_system_timer_init_def)
  have p8: "(3 :: u8) < 8" "(7 :: u8) < 8" by simp_all
  have q: "queues_ok ?k" by (rule queues_empty) (use u(1,2) in \<open>simp add: rt_system_timer_init_def\<close>)
  obtain k1 where k1: "Option.bind (rt_thread_init m 3 20 ?k) (rt_thread_startup m) = Some k1" "queues_ok k1" "current_thread k1 = None"
    "timer_list k1 = timer_list ?k" "lock_nest k1 = lock_nest ?k" "stat (tcb k1 m) = RT_THREAD_READY" "prio_of k1 m = unat (3::u8)"
    "\<forall>v. v \<noteq> m \<longrightarrow> tcb k1 v = tcb ?k v"
    by (rule first_startup [OF q u(3,1) p8(1)])
  have n: "\<not> started (tcb k1 i)" using k1(8) u(1) assms(2) by simp
  obtain k2 where k2: "Option.bind (rt_thread_init i 7 32 k1) (rt_thread_startup i) = Some k2" "queues_ok k2" "current_thread k2 = None"
    "timer_list k2 = timer_list k1" "lock_nest k2 = lock_nest k1" "stat (tcb k2 i) = RT_THREAD_READY" "prio_of k2 i = unat (7::u8)"
    "\<forall>v. v \<noteq> i \<longrightarrow> tcb k2 v = tcb k1 v"
    by (rule first_startup [OF k1(2,3) n p8(2)])
  have st: "tcb k2 v = tcb k0 v" if "v \<noteq> m" "v \<noteq> i" for v using that k1(8) k2(8) u(2) by simp
  have n0: "\<not> started (tcb k0 v)" for v using assms(1) by (simp add: fresh_def)
  have m2: "stat (tcb k2 m) = RT_THREAD_READY" using k1(6) k2(8) assms(2) by simp
  have rs: "stat (tcb k2 v) \<noteq> RT_THREAD_RUNNING" "stat (tcb k2 v) = RT_THREAD_READY \<longleftrightarrow> v = m \<or> v = i" for v
    using st [of v] n0 [of v] m2 k2(6) by (cases "v = m"; cases "v = i"; auto simp: started_def)+
  note rd = rs(2)
  have nr: "\<forall>t. stat (tcb k2 t) \<noteq> RT_THREAD_RUNNING" using rs(1) by blast
  obtain k3 c where k3: "rt_system_scheduler_start k2 = Some k3" "sched_ok k3" "runs_highest k3" "current_thread k3 = Some c"
    "timer_list k3 = timer_list k2" "lock_nest k3 = lock_nest k2" "stat (tcb k2 c) = RT_THREAD_READY"
    "tcb k3 = (tcb k2)(c := (tcb k2 c)\<lparr>stat := RT_THREAD_RUNNING\<rparr>)"
    by (rule scheduler_start [OF k2(2,6) nr])
  have p: "prio_of k3 m = 3" "prio_of k3 i = 7"
    using k1(7) k2(7,8) k3(8) assms(2) by (cases "c = m"; cases "c = i"; simp add: prio_of_def)+
  have c: "c = m"
  proof (rule ccontr)
    assume "c \<noteq> m"
    then have "c = i" "stat (tcb k3 m) = RT_THREAD_READY" using rd k3(7,8) by auto
    then show False using k3(3,4) p unfolding runs_highest_def by auto
  qed
  have t: "timer_list k3 = []" "lock_nest k3 = 0"
    using k1(4,5) k2(4,5) k3(5,6) by (simp_all add: rt_system_timer_init_def rt_system_scheduler_init_def)
  have a: "active (tcb k3 t) \<longleftrightarrow> t = m \<or> t = i" for t
    using rd [of t] nr k3(8) c by (cases "t = m") auto
  have "kern_inv i k3" using k3(2,3) t a by (simp add: kern_inv_def kern_ok_def timers_at_def)
  moreover have "rt_application_init m ?k = Some k1" "rt_thread_idle_init i k1 = Some k2"
    using k1(1) k2(1) by (simp_all add: rt_application_init_def rt_thread_idle_init_def)
  then have "rtthread_startup m i k0 = Some k3" using k3(1) by (simp add: rtthread_startup_def)
  ultimately show thesis using that [of k3] k3(4,8) c t p a st by simp
qed

section \<open>What runs of the kernel do\<close>

text \<open>C9.  After the start of the system every permitted sequence of thread operations and ticks
  returns without a failed assertion.  Exactly one thread is the current one, and while the
  scheduler is not locked that thread is running and no ready thread has a higher priority (a
  smaller number).\<close>

theorem kernel_schedules:
  assumes "fresh k0" "m \<noteq> i" "kops_ok i xs (the (rtthread_startup m i k0))"
  shows "\<exists>k k' c. rtthread_startup m i k0 = Some k \<and> current_thread k = Some m \<and> krun xs k = Some k'
    \<and> current_thread k' = Some c \<and> (\<forall>t. stat (tcb k' t) = RT_THREAD_RUNNING \<longrightarrow> t = c)
    \<and> (lock_nest k' = 0 \<longrightarrow> stat (tcb k' c) = RT_THREAD_RUNNING
        \<and> (\<forall>t. stat (tcb k' t) = RT_THREAD_READY \<longrightarrow> prio_of k' c \<le> prio_of k' t))"
proof -
  obtain k where k: "rtthread_startup m i k0 = Some k" "kern_inv i k" "current_thread k = Some m"
    using startup_inv [OF assms(1,2)] by metis
  obtain k' where k': "krun xs k = Some k'" "kern_inv i k'"
    by (rule krun_kern [OF k(2)]) (use k(1) assms(3) in simp)
  obtain c where c: "current_thread k' = Some c" using inv_parts [OF k'(2)] by (auto simp: sched_ok_def)
  have "\<forall>t. stat (tcb k' t) = RT_THREAD_RUNNING \<longrightarrow> t = c"
    using inv_parts [OF k'(2)] c by (auto simp: sched_ok_def)
  moreover have "lock_nest k' = 0 \<longrightarrow> stat (tcb k' c) = RT_THREAD_RUNNING
        \<and> (\<forall>t. stat (tcb k' t) = RT_THREAD_READY \<longrightarrow> prio_of k' c \<le> prio_of k' t)"
    using k'(2) c by (auto simp: kern_inv_def runs_highest_def)
  ultimately show ?thesis using k(1,3) k'(1) c by blast
qed

text \<open>C10.  A thread that sleeps for \<open>n\<close> ticks, whatever the other threads and the interrupts do in
  the meantime, is suspended until the \<open>n\<close>th tick (the first one when \<open>n\<close> is 0), also when the tick
  counter wraps around, and that tick makes it ready with the error code of a time-out.\<close>

theorem sleep_wakes_exactly:
  assumes "fresh k0" "m \<noteq> i" "rtthread_startup m i k0 = Some k" "kops_ok i (xs @ Sleep n # ys) k"
    and "krun xs k = Some k1" "current_thread k1 = Some t" "Wake t \<notin> set ys" "ticks ys < max 1 (unat n)"
  shows "\<exists>k2 k3. krun (Sleep n # ys) k1 = Some k2 \<and> stat (tcb k2 t) = RT_THREAD_SUSPEND
    \<and> kexec Tick k2 = Some k3
    \<and> (if ticks ys + 1 < max 1 (unat n) then stat (tcb k3 t) = RT_THREAD_SUSPEND
       else (stat (tcb k3 t) = RT_THREAD_READY \<or> stat (tcb k3 t) = RT_THREAD_RUNNING) \<and> thr_error (tcb k3 t) = - RT_ETIMEOUT)"
proof -
  have ok: "kops_ok i xs k" "kops_ok i (Sleep n # ys) k1" using kops_ok_append [OF assms(4,5)] by simp_all
  have "kern_inv i k" using startup_inv [OF assms(1,2)] assms(3) by (metis option.inject)
  then have k1: "kern_inv i k1" using krun_kern [OF _ ok(1)] assms(5) by (metis option.inject)
  obtain k2 where k2: "krun (Sleep n # ys) k1 = Some k2" "kern_inv i k2" "t \<in> set (timer_list k2)"
    "left_at (rt_tick k2) k2 t = unat n - ticks ys"
    by (rule sleep_run [OF k1 assms(6) ok(2) assms(7,8)])
  obtain k3 where k3: "rt_tick_increase k2 = Some k3" "kern_inv i k3" "moved (due (rt_tick k2) k2) k2 k3"
    "\<forall>t\<in>due (rt_tick k2) k2. active (tcb k3 t) \<and> thr_error (tcb k3 t) = - RT_ETIMEOUT \<and> t \<notin> set (timer_list k3)"
    "rt_tick k3 = rt_tick k2 + 1" "lock_nest k3 = lock_nest k2" by (rule tick_kern [OF k2(2)])
  have d: "t \<in> due (rt_tick k2) k2 \<longleftrightarrow> \<not> ticks ys + 1 < max 1 (unat n)"
    using k2(3,4) assms(8) by (auto simp: due_def)
  have "stat (tcb k3 t) = RT_THREAD_SUSPEND" if "ticks ys + 1 < max 1 (unat n)"
    using moved_out(3) [OF k3(3), of t] d that k2(3) sleeps_suspended [OF k3(2), of t] by blast
  then show ?thesis
    using k2(1) k3(1,4) d sleeps_suspended [OF k2(2,3)] by (intro exI [of _ k2] exI [of _ k3]) auto
qed

section \<open>Examples\<close>

text \<open>Memory that is all zero; thread 0 is the main thread and 1 the idle thread.\<close>

definition zero_tcb :: rt_thread where
  "zero_tcb = \<lparr>stat = RT_THREAD_INIT, thr_error = 0, init_priority = 0, thr_priority = 0, number_mask = 0,
     slice = 0, remaining_tick = 0, timer_active = False, timer_init = 0, timeout_tick = 0\<rparr>"

definition zero_kern :: "u32 \<Rightarrow> 't kern" where
  "zero_kern now = \<lparr>priority_table = [], ready_group = 0, lock_nest = 0, current_thread = None, cur_priority = 0,
     timer_list = [], rt_tick = now, tcb = \<lambda>_. zero_tcb\<rparr>"

lemma zero_fresh: "fresh (zero_kern now)"
  by (simp add: fresh_def zero_kern_def zero_tcb_def started_def)

lemmas kernel_steps = rt_system_timer_init_def rt_system_scheduler_init_def rt_application_init_def
  rt_thread_idle_init_def rt_thread_init_def rt_thread_startup_def rt_thread_resume_def rt_timer_stop_def
  rt_schedule_insert_thread_def rt_system_scheduler_start_def get_highest_priority_thread_def rt_ffs_def
  rt_schedule_remove_thread_def prio_of_def rt_schedule_def rt_enter_critical_def rt_exit_critical_def
  timer_remove_def rt_timer_start_def rt_thread_suspend_def rt_thread_sleep_def rt_thread_timeout_def
  timer_check_loop.simps rt_timer_check_def rt_tick_increase_def kwait_def kwake_def

lemma bitmap_entries:
  "lowest_bit_bitmap ! 8 = 3" "lowest_bit_bitmap ! 136 = 3" "lowest_bit_bitmap ! 128 = 7" "lowest_bit_bitmap ! 144 = 4"
  by (simp_all add: lowest_bit_bitmap_def)

lemma zero_started: "rtthread_startup 0 1 (zero_kern now :: nat kern) = Some
    \<lparr>priority_table = map (removeAll 0) ((map (removeAll 1) ((replicate 8 [])[3 := [0]]))[7 := [1]]), ready_group = 128, lock_nest = 0, current_thread = Some 0,
     cur_priority = 0, timer_list = [], rt_tick = now,
     tcb = (\<lambda>_. zero_tcb)
       (1 := zero_tcb\<lparr>stat := RT_THREAD_READY, init_priority := 7, thr_priority := 7, number_mask := 128,
              slice := 32, remaining_tick := 32\<rparr>,
        0 := zero_tcb\<lparr>stat := RT_THREAD_RUNNING, init_priority := 3, thr_priority := 3, number_mask := 8,
              slice := 20, remaining_tick := 20\<rparr>)\<rparr>"
  by (simp add: rtthread_startup_def kernel_steps zero_kern_def zero_tcb_def Let_def bitmap_entries)

text \<open>The main thread starts thread 2 and waits; then 2 runs.\<close>

definition demo :: "nat kop list" where
  "demo = [Create 2 4 5, Startup 2, Lock, Tick, Unlock, Wait, Tick]"

lemma demo_ok: "kops_ok 1 demo (the (rtthread_startup 0 1 (zero_kern 0)))"
  unfolding zero_started by (simp add: kernel_steps zero_tcb_def demo_def Let_def bitmap_entries)

lemma demo_runs:
  "Option.bind (rtthread_startup 0 1 (zero_kern 0)) (\<lambda>k. map_option current_thread (krun demo k)) = Some (Some 2)"
  unfolding zero_started by (simp add: kernel_steps zero_tcb_def demo_def Let_def bitmap_entries)

lemma kernel_schedules_witness:
  "\<exists>k k' c. rtthread_startup 0 1 (zero_kern 0) = Some k \<and> krun demo k = Some k' \<and> current_thread k' = Some c \<and> c = 2
    \<and> (\<forall>t. stat (tcb k' t) \<noteq> RT_THREAD_RUNNING \<or> t = 2)"
proof -
  have n: "(0 :: nat) \<noteq> 1" by simp
  obtain k k' c where k: "rtthread_startup 0 1 (zero_kern 0) = Some k" "krun demo k = Some k'" "current_thread k' = Some c"
    "\<forall>t. stat (tcb k' t) = RT_THREAD_RUNNING \<longrightarrow> t = c"
    using kernel_schedules [OF zero_fresh n demo_ok] by metis
  have "c = 2" using demo_runs unfolding k(1) by (simp only: Option.bind.simps k(2,3) option.map) simp
  then show ?thesis using k by metis
qed

text \<open>The tick counter wraps around while thread 2 sleeps for 3 ticks.\<close>

definition nap :: "nat kop list \<times> nat kop list" where
  "nap = ([Create 2 4 5, Startup 2, Wait], [Tick, Wake 0, Tick])"

lemma nap_ok: "kops_ok 1 (fst nap @ Sleep 3 # snd nap) (the (rtthread_startup 0 1 (zero_kern 0xfffffffe)))"
  unfolding zero_started by (simp add: kernel_steps zero_tcb_def nap_def Let_def bitmap_entries)

lemma nap_runs:
  "Option.bind (rtthread_startup 0 1 (zero_kern 0xfffffffe)) (\<lambda>k. map_option current_thread (krun (fst nap) k)) = Some (Some 2)"
  unfolding zero_started by (simp add: kernel_steps zero_tcb_def nap_def Let_def bitmap_entries)

lemma sleep_wakes_exactly_witness:
  "\<exists>k k1 k2 k3. rtthread_startup 0 1 (zero_kern 0xfffffffe) = Some k \<and> krun (fst nap) k = Some k1 \<and> current_thread k1 = Some 2
    \<and> krun (Sleep 3 # snd nap) k1 = Some k2 \<and> stat (tcb k2 2) = RT_THREAD_SUSPEND
    \<and> kexec Tick k2 = Some k3 \<and> thr_error (tcb k3 2) = - 2"
proof -
  have n: "(0 :: nat) \<noteq> 1" by simp
  obtain k :: "nat kern" where k: "rtthread_startup 0 1 (zero_kern 0xfffffffe) = Some k"
    using zero_started by blast
  obtain k1 where k1: "krun (fst nap) k = Some k1" "current_thread k1 = Some 2"
    using nap_runs unfolding k by (auto simp only: Option.bind.simps option.map map_option_eq_Some)
  have "kops_ok 1 (fst nap @ Sleep 3 # snd nap) k" using nap_ok unfolding k by simp
  note w = sleep_wakes_exactly [OF zero_fresh n k this k1]
  have "Wake 2 \<notin> set (snd nap)" "ticks (snd nap) < max 1 (unat (3 :: u32))" "\<not> ticks (snd nap) + 1 < max 1 (unat (3 :: u32))"
    by (simp_all add: nap_def)
  then show ?thesis using w k k1 by (metis (no_types, lifting))
qed

end
