(* ===== verification/RttSystem.thy ===== *)
theory RttSystem
  imports RttThreads RttRun
begin

text \<open>
  The kernel of \<open>RttSched\<close> and the Modbus threads of \<open>RttThreads\<close> together.  \<open>rtt_step\<close> of \<open>RttThreads\<close>
  lets a thread go on by its priority and when it is not waiting; here the kernel decides: a step of
  \<open>sys_step\<close> is made by the thread that the kernel has made the current one, its calls of the kernel
  (\<open>thread_calls\<close>) change the kernel's state, and the other threads of the program (main, idle, the
  measuring threads) run on the same kernel.  Each step of the detailed system is a step of \<open>rtt_step\<close> or
  leaves its state alone, so what \<open>RttThreads\<close> proves holds for it.
\<close>

section \<open>The system\<close>

text \<open>The two Modbus threads and all others.\<close>

datatype task = Mb thread | Task nat

text \<open>What the result of a semaphore operation means for the scheduler.\<close>

definition take_calls :: "take_result \<Rightarrow> task kop list" where
  "take_calls r = (if r = Suspended then [Wait] else [])"

definition release_calls :: "thread option \<Rightarrow> task kop list" where
  "release_calls r = (case r of None \<Rightarrow> [] | Some t \<Rightarrow> [Wake (Mb t)])"

abbreviation (input) AUTOUPLOAD_CYCLE :: "32 word" where "AUTOUPLOAD_CYCLE \<equiv> 1000"

text \<open>The calls of the kernel in a step of a Modbus thread.  \<open>Slept\<close> is the return of \<open>mb_up\<close> from
  \<open>rt_thread_mdelay\<close> at the head of its loop (it has no effect the first time).\<close>

definition thread_calls :: "thread \<Rightarrow> rtt \<Rightarrow> task kop list" where
  "thread_calls t s =
     (case pcs s t of
        At_head \<Rightarrow>
          (case t of
             HAND \<Rightarrow> take_calls (fst (rt_sem_take current_priority HAND (usart_sem s) (- 1)))
           | UP \<Rightarrow> Slept # (if AutoUpload (base (rmb s)) \<noteq> 0 then [] else [Sleep (rt_tick_from_millisecond 1000)]))
      | At_take p \<Rightarrow> take_calls (fst (rt_sem_take current_priority t (usart_tx_lock s) (- 1)))
      | Own ReInit \<Rightarrow> release_calls (fst (rt_sem_release (usart_tx_lock s)))
      | At_done \<Rightarrow>
          (case t of
             HAND \<Rightarrow> []
           | UP \<Rightarrow> [Sleep (rt_tick_from_millisecond (ucast (AutoUpload (base (rmb s))) * AUTOUPLOAD_CYCLE))])
      | _ \<Rightarrow> [])"

text \<open>The timer of \<open>mb_up\<close> has ended.\<close>

definition woken :: "task kern \<Rightarrow> rtt \<Rightarrow> rtt" where
  "woken k s = (if pcs s UP = Sleeping \<and> stat (tcb k (Mb UP)) \<noteq> RT_THREAD_SUSPEND then goto UP At_head s else s)"

text \<open>The other threads use the kernel for themselves: they wait, sleep and yield, wake and start
  each other, and lock the scheduler and unlock it, as \<open>rt_device_find\<close> does.  While the scheduler is
  locked the interrupts may resume a Modbus thread, but no thread is switched to.  An operation of
  the kernel is one step, an interrupt comes before or after it.\<close>

fun task_op :: "task kop \<Rightarrow> bool" where
  "task_op (Wake (Mb t)) = False"
| "task_op (Create (Mb t) p n) = False"
| "task_op (Startup (Mb t)) = False"
| "task_op Tick = False"
| "task_op x = True"

abbreviation (input) idle :: task where "idle \<equiv> Task 1"

inductive sys_step :: "hal_flash \<Rightarrow> task kern \<times> rtt \<Rightarrow> task kern \<times> rtt \<Rightarrow> bool" for H where
  thread: "pcs s HAND \<noteq> Halted \<Longrightarrow> current_thread k = Some (Mb t) \<Longrightarrow> krun (thread_calls t s) k = Some k'
      \<Longrightarrow> thread_step H t (pcs s t) s = Some s' \<Longrightarrow> sys_step H (k, s) (k', s')"
| task: "pcs s HAND \<noteq> Halted \<Longrightarrow> current_thread k = Some (Task n) \<Longrightarrow> task_op x \<Longrightarrow> kop_ok idle k x
      \<Longrightarrow> kexec x k = Some k' \<Longrightarrow> sys_step H (k, s) (k', s)"
| tick: "pcs s HAND \<noteq> Halted \<Longrightarrow> kexec Tick k = Some k' \<Longrightarrow> sys_step H (k, s) (k', woken k' s)"
| rx_byte: "pcs s HAND \<noteq> Halted \<Longrightarrow> sys_step H (k, s) (k, on_rport (dma_rx b) s)"
| rx_end: "pcs s HAND \<noteq> Halted \<Longrightarrow> krun (release_calls (fst (rt_sem_release (usart_sem s)))) k = Some k'
      \<Longrightarrow> sys_step H (k, s) (k', rtt_rx_end s)"
| tx_end: "pcs s HAND \<noteq> Halted \<Longrightarrow> \<not> gState_READY (port (rmb s))
      \<Longrightarrow> krun (release_calls (fst (rt_sem_release (usart_tx_lock s)))) k = Some k'
      \<Longrightarrow> sys_step H (k, s) (k', rtt_tx_end s)"
| measured: "pcs s HAND \<noteq> Halted \<Longrightarrow> sys_step H (k, s) (k, on_rmb (\<lambda>m. m\<lparr>dev := d\<rparr>) s)"

text \<open>The kernel when \<open>modbus_init\<close>, called by the main thread, has started the two threads.\<close>

definition modbus_init_threads :: "task kern \<Rightarrow> task kern option" where
  "modbus_init_threads = krun
     [Create (Mb HAND) (8 - 4) 20, Startup (Mb HAND), Create (Mb UP) (8 - 3) 20, Startup (Mb UP)]"

section \<open>The invariant\<close>

definition linked :: "task kern \<Rightarrow> rtt \<Rightarrow> thread \<Rightarrow> bool" where
  "linked k s t \<longleftrightarrow>
     (if runnable (pcs s t) then active (tcb k (Mb t)) else stat (tcb k (Mb t)) = RT_THREAD_SUSPEND)
     \<and> (Mb t \<in> set (timer_list k) \<longleftrightarrow> pcs s t = Sleeping)"

fun up_point :: "rtt_pc \<Rightarrow> bool" where
  "up_point (At_take p) = (\<exists>n. p = Send n False)"
| "up_point (In_lock p) = (\<exists>n. p = Send n False)"
| "up_point (Own p) = (\<exists>n. p = Send n False)"
| "up_point (At_crc n chk cb) = (\<not> cb)"
| "up_point (At_tx n cb) = (\<not> cb)"
| "up_point Halted = False"
| "up_point In_rx = False"
| "up_point At_flag = False"
| "up_point At_work = False"
| "up_point At_end = False"
| "up_point At_clear = False"
| "up_point p = True"

definition links :: "task kern \<Rightarrow> rtt \<Rightarrow> bool" where
  "links k s \<longleftrightarrow> (\<forall>t. linked k s t)"

definition prios :: "task kern \<Rightarrow> bool" where
  "prios k \<longleftrightarrow> (\<forall>t. started (tcb k (Mb t)) \<and> prio_of k (Mb t) = current_priority t)"

text \<open>The scheduler is locked by other threads only, so no Modbus thread runs while it is.\<close>

definition task_locks :: "task kern \<Rightarrow> bool" where
  "task_locks k \<longleftrightarrow> lock_nest k = 0 \<or> (\<exists>n. current_thread k = Some (Task n))"

lemma task_locks_kept:
  assumes "task_locks k" "kexec x k = Some k'" "x \<noteq> Lock \<and> x \<noteq> Unlock \<Longrightarrow> lock_nest k' = lock_nest k"
    and "x = Lock \<Longrightarrow> \<exists>n. current_thread k = Some (Task n)"
  shows "task_locks k'"
proof (cases "lock_nest k = 0")
  case False
  then show ?thesis using locked_exec [OF False assms(2)] assms(1) by (auto simp: task_locks_def)
next
  case True
  show ?thesis
  proof (cases x)
    case Lock
    then show ?thesis using assms(2,4) by (auto simp: task_locks_def rt_enter_critical_def)
  next
    case Unlock
    have "lock_nest k' = 0"
      using assms(2) Unlock True schedule_time [of "k\<lparr>lock_nest := 0\<rparr>" k']
      by (auto simp: rt_exit_critical_def Let_def same_time_def split: if_splits)
    then show ?thesis by (simp add: task_locks_def)
  qed (use assms(3) True in \<open>simp_all add: task_locks_def\<close>)
qed

lemma mb_unlocked: "task_locks k \<Longrightarrow> current_thread k = Some (Mb t) \<Longrightarrow> lock_nest k = 0"
  by (simp add: task_locks_def)

definition sys_inv :: "task kern \<Rightarrow> rtt \<Rightarrow> bool" where
  "sys_inv k s \<longleftrightarrow> kern_inv idle k \<and> task_locks k \<and> prios k \<and> rtt_inv s \<and> up_point (pcs s UP) \<and> pcs s HAND \<noteq> Sleeping
     \<and> (pcs s HAND \<noteq> Halted \<longrightarrow> links k s)"

lemma linksI: "(\<And>t. linked k s t) \<Longrightarrow> links k s"
  by (simp add: links_def)

lemma linksD: "links k s \<Longrightarrow> linked k s t"
  by (simp add: links_def)

text \<open>A thread that an operation does not concern.\<close>

lemma linked_frame:
  assumes "moved A k k'" "Mb t \<notin> A" "pcs s' t = pcs s t" "linked k s t"
  shows "linked k' s' t"
  using assms(4) moved_out [OF assms(1,2)] assms(3) unfolding linked_def by (auto split: if_splits)

lemma linked_active:
  assumes "kern_inv i k" "active (tcb k (Mb t))" "runnable (pcs s t)"
  shows "linked k s t"
proof -
  have "Mb t \<notin> set (timer_list k)" using sleeps_suspended [OF assms(1), of "Mb t"] assms(2) by auto
  then show ?thesis using assms(2,3) by (auto simp: linked_def)
qed

lemma prios_moved: "moved A k k' \<Longrightarrow> prios k \<Longrightarrow> prios k'"
  using moved_prio unfolding prios_def by metis

text \<open>The current thread is the one that \<open>rtt_step\<close> lets go on.\<close>

lemma current_runs:
  assumes "sys_inv k s" "pcs s HAND \<noteq> Halted" "current_thread k = Some (Mb t)"
  shows "runnable (pcs s t)" "stat (tcb k (Mb t)) = RT_THREAD_RUNNING" "t = UP \<Longrightarrow> \<not> runnable (pcs s HAND)"
proof -
  have "lock_nest k = 0" using mb_unlocked [OF _ assms(3)] assms(1) by (simp add: sys_inv_def)
  then have s: "runs_highest k" "linked k s HAND" "linked k s UP" "linked k s t"
    using assms(1,2) by (simp_all add: sys_inv_def kern_inv_def links_def)
  have "kern_inv idle k" using assms(1) by (simp add: sys_inv_def)
  then have so: "sched_ok k" using inv_parts [of idle k] by blast
  show r: "stat (tcb k (Mb t)) = RT_THREAD_RUNNING" using s(1) assms(3) by (auto simp: runs_highest_def)
  then show "runnable (pcs s t)" using s(4) by (auto simp: linked_def split: if_splits)
  show "\<not> runnable (pcs s HAND)" if "t = UP"
  proof
    assume "runnable (pcs s HAND)"
    then have a: "active (tcb k (Mb HAND))" using s(2) by (simp add: linked_def)
    have "stat (tcb k (Mb HAND)) \<noteq> RT_THREAD_RUNNING"
      using sched_running [OF so, of "Mb HAND"] assms(3) that by auto
    then have "prio_of k (Mb UP) \<le> prio_of k (Mb HAND)"
      using a s(1) assms(3) that by (auto simp: runs_highest_def)
    then show False using assms(1) by (simp add: sys_inv_def prios_def)
  qed
qed

lemma thread_rtt:
  assumes "sys_inv k s" "pcs s HAND \<noteq> Halted" "current_thread k = Some (Mb t)" "thread_step H t (pcs s t) s = Some s'"
  shows "rtt_step H s s'"
  using current_runs [OF assms(1-3)] assms(2,4) by (cases t) (auto intro: rtt_step.intros)

section \<open>The steps of the threads\<close>

text \<open>What a step does to the points of the threads, by the call of the kernel in it.\<close>

inductive moves :: "thread \<Rightarrow> rtt \<Rightarrow> rtt \<Rightarrow> task kop list \<Rightarrow> bool" for t s s' where
  goes: "\<forall>u. u \<noteq> t \<longrightarrow> pcs s' u = pcs s u \<Longrightarrow> runnable (pcs s' t) \<or> t = HAND \<and> pcs s' t = Halted \<Longrightarrow> moves t s s' []"
| blocks: "\<forall>u. u \<noteq> t \<longrightarrow> pcs s' u = pcs s u \<Longrightarrow> \<not> runnable (pcs s' t) \<Longrightarrow> pcs s' t \<noteq> Sleeping \<Longrightarrow> pcs s' t \<noteq> Halted
    \<Longrightarrow> moves t s s' [Wait]"
| sleeps: "pcs s' HAND = pcs s HAND \<Longrightarrow> t = UP \<Longrightarrow> pcs s' UP = Sleeping \<Longrightarrow> n < RT_TICK_MAX_HALF \<Longrightarrow> moves t s s' [Sleep n]"
| wakes: "u \<noteq> t \<Longrightarrow> waits (pcs s u) \<Longrightarrow> pcs s' u = resumed (pcs s u) \<Longrightarrow> runnable (pcs s' t) \<Longrightarrow> moves t s s' [Wake (Mb u)]"

lemma delay_small:
  "rt_tick_from_millisecond 1000 < RT_TICK_MAX_HALF"
  "rt_tick_from_millisecond (ucast (b :: u8) * AUTOUPLOAD_CYCLE) < RT_TICK_MAX_HALF"
proof -
  show "rt_tick_from_millisecond 1000 < RT_TICK_MAX_HALF" by (simp add: rt_tick_from_millisecond_def)
  have u: "0 \<le> uint b" "uint b < 256" using unsigned_less [of b] by (auto simp del: unsigned_less)
  have us: "uint (ucast b * 1000 :: u32) = uint b * 1000"
    using u by (simp add: uint_word_ariths unsigned_ucast_eq take_bit_eq_mod)
  have s: "sint (ucast b * 1000 :: u32) = uint b * 1000"
  proof -
    have "signed_take_bit 31 (uint b * 1000) = uint b * 1000"
    proof (rule signed_take_bit_int_eq_self)
      show "- (2 ^ 31) \<le> uint b * 1000" using u(1) by (rule order_trans [rotated, OF mult_nonneg_nonneg]) simp_all
      show "uint b * 1000 < 2 ^ 31" using u(2) by simp
    qed
    then show ?thesis using us by (simp add: sint_uint)
  qed
  have "(1000 * (uint b * 1000 mod 1000) + 999) div 1000 = 0" by simp
  then have "rt_tick_from_millisecond (ucast b * AUTOUPLOAD_CYCLE) = word_of_int (uint b * 1000)"
    using s by (simp add: rt_tick_from_millisecond_def)
  then have "uint (rt_tick_from_millisecond (ucast b * AUTOUPLOAD_CYCLE)) = uint b * 1000"
    using u by (simp add: uint_word_of_int take_bit_eq_mod us)
  then show "rt_tick_from_millisecond (ucast b * AUTOUPLOAD_CYCLE) < RT_TICK_MAX_HALF"
    using u(2) by (simp only: word_less_def) simp
qed

lemma runnable_resumed: "waits p \<Longrightarrow> runnable (resumed p) \<and> \<not> runnable p \<and> p \<noteq> Sleeping"
  by (cases p) auto

text \<open>The calls without the return from \<open>rt_thread_mdelay\<close>.\<close>

definition real_calls :: "thread \<Rightarrow> rtt \<Rightarrow> task kop list" where
  "real_calls t s = filter (\<lambda>x. x \<noteq> Slept) (thread_calls t s)"

lemma thread_calls_real: "thread_calls t s = (if t = UP \<and> pcs s UP = At_head then [Slept] else []) @ real_calls t s"
  unfolding real_calls_def thread_calls_def
  by (cases t; cases "pcs s t")
    (auto simp: take_calls_def release_calls_def split: option.split purpose.split)

lemma take_calls_value: "take_calls (fst (rt_sem_take prio t l (- 1))) = (if 0 < sem_value l then [] else [Wait])"
  by (simp add: take_calls_def rt_sem_take_def)

lemma take_rx_pcs: "pcs (take_rx s) = (pcs s)(HAND := if 0 < sem_value (usart_sem s) then At_flag else In_rx)"
  by (simp add: take_rx_def rt_sem_take_def)

lemma release_lock_pcs:
  "pcs (release_lock s) = (case suspend_thread (usart_tx_lock s) of [] \<Rightarrow> pcs s | u # us \<Rightarrow> (pcs s)(u := resumed (pcs s u)))"
  "release_calls (fst (rt_sem_release (usart_tx_lock s))) = (case suspend_thread (usart_tx_lock s) of [] \<Rightarrow> [] | u # us \<Rightarrow> [Wake (Mb u)])"
  by (simp_all add: release_lock_def rt_sem_release_def resume_def release_calls_def split: list.split)

lemma moves_take:
  assumes "pcs s' = (pcs s)(t := if 0 < sem_value l then p else q)" "runnable p" "\<not> runnable q" "q \<noteq> Sleeping" "q \<noteq> Halted"
  shows "moves t s s' (if 0 < sem_value l then [] else [Wait])"
  using assms by (auto intro: moves.intros)

lemma own_moves:
  assumes "own_step t p s = Some s'" "pcs s t = Own p" "rtt_inv s" "up_point (pcs s UP)"
  shows "moves t s s' (if p = ReInit then release_calls (fst (rt_sem_release (usart_tx_lock s))) else [])"
    "up_point (pcs s' UP)" "pcs s HAND \<noteq> Sleeping \<Longrightarrow> pcs s' HAND \<noteq> Sleeping"
proof -
  have up: "t = UP \<Longrightarrow> \<exists>n. p = Send n False" using assms(2,4) by auto
  have w: "u \<in> set (suspend_thread (usart_tx_lock s)) \<longleftrightarrow> waits (pcs s u)" for u
    using assms(3) by (simp add: inv_defs)
  have "moves t s s' (if p = ReInit then release_calls (fst (rt_sem_release (usart_tx_lock s))) else [])
    \<and> up_point (pcs s' UP) \<and> (pcs s HAND \<noteq> Sleeping \<longrightarrow> pcs s' HAND \<noteq> Sleeping)"
  proof (cases p)
    case (Send n cb)
    then obtain u where "s' = goto t (after_send t cb) (on_rport (\<lambda>_. u) s)"
      using assms(1) by (auto simp: own_step_def bind_eq_Some_conv)
    then show ?thesis
      using Send up assms(4) by (cases t) (auto simp: after_send_def intro!: moves.goes)
  next
    case Reset
    then have "t = HAND" using up by (cases t) auto
    then show ?thesis using Reset assms(1,4) by (auto simp: own_step_def intro!: moves.goes)
  next
    case ReInit
    then have t: "t = HAND" using up by (cases t) auto
    show ?thesis
    proof (cases "suspend_thread (usart_tx_lock s)")
      case Nil
      then show ?thesis
        using ReInit t assms(1,4) by (auto simp: own_step_def Let_def release_lock_pcs intro!: moves.goes)
    next
      case (Cons u us)
      then have u: "waits (pcs s u)" using w by auto
      then have ut: "u = UP" using t assms(2) by (cases u) auto
      have "moves HAND s s' [Wake (Mb UP)]"
        by (rule moves.wakes) (use ReInit t ut u Cons assms(1) in \<open>auto simp: own_step_def Let_def release_lock_pcs\<close>)
      moreover have "up_point (resumed (pcs s UP))" using u ut assms(4) by (cases "pcs s UP") auto
      ultimately show ?thesis
        using ReInit t ut Cons assms(1) by (auto simp: own_step_def Let_def release_lock_pcs)
    qed
  qed
  then show "moves t s s' (if p = ReInit then release_calls (fst (rt_sem_release (usart_tx_lock s))) else [])"
    "up_point (pcs s' UP)" "pcs s HAND \<noteq> Sleeping \<Longrightarrow> pcs s' HAND \<noteq> Sleeping" by simp_all
qed

text \<open>A step without a call.\<close>

lemma plain_moves:
  assumes "pcs s' = (pcs s)(t := q)" "runnable q" "t = UP \<Longrightarrow> up_point q" "up_point (pcs s UP)" "pcs s HAND \<noteq> Sleeping"
  shows "moves t s s' [] \<and> up_point (pcs s' UP) \<and> pcs s' HAND \<noteq> Sleeping"
  using assms by (cases t) (auto intro!: moves.goes)

lemma other_goes:
  assumes "thread_step H t p s = Some s'" "t = UP \<Longrightarrow> up_point p"
    and "\<not> (\<exists>c. p \<in> {At_head, At_take c, Own c, At_done})"
  shows "\<exists>q. pcs s' = (pcs s)(t := q) \<and> runnable q \<and> (t = UP \<longrightarrow> up_point q)"
proof (cases p)
  case (Up_put1 vs)
  then show ?thesis using assms by (cases vs) (auto simp: bind_eq_Some_conv)
next
  case (Up_put2 vs)
  then show ?thesis using assms by (cases vs) (auto simp: bind_eq_Some_conv)
next
  case (At_crc len chk cb)
  then obtain m r where "s' = goto t (case r of None \<Rightarrow> after_send t cb | Some n \<Rightarrow> At_tx n cb) (s\<lparr>rmb := m\<rparr>)"
    using assms(1) by (auto simp: bind_eq_Some_conv)
  then show ?thesis
    using At_crc assms(2) by (intro exI [of _ "case r of None \<Rightarrow> after_send t cb | Some n \<Rightarrow> At_tx n cb"])
      (auto simp: after_send_def split: option.splits)
qed (use assms in \<open>auto simp: bind_eq_Some_conv split: if_splits\<close>)

lemma step_moves:
  assumes "thread_step H t (pcs s t) s = Some s'" "rtt_inv s" "up_point (pcs s UP)" "pcs s HAND \<noteq> Sleeping"
  shows "moves t s s' (real_calls t s) \<and> up_point (pcs s' UP) \<and> pcs s' HAND \<noteq> Sleeping"
proof (cases "\<exists>c. pcs s t \<in> {At_head, At_take c, Own c, At_done}")
  case False
  then obtain q where "pcs s' = (pcs s)(t := q)" "runnable q" "t = UP \<longrightarrow> up_point q"
    using other_goes [OF assms(1)] assms(3) by auto
  moreover have "real_calls t s = []"
    using False by (cases "pcs s t") (auto simp: real_calls_def thread_calls_def)
  ultimately show ?thesis using plain_moves [of s' s t q] assms(3,4) by simp
next
  case True
  then consider (At_head) "pcs s t = At_head" | (At_take) p where "pcs s t = At_take p" | (Own) p where "pcs s t = Own p"
    | (At_done) "pcs s t = At_done" by auto
  then show ?thesis
  proof cases
    case At_head
    show ?thesis
    proof (cases t)
      case HAND
      then have "s' = take_rx s" using assms(1) At_head by simp
      then show ?thesis
        using moves_take [OF take_rx_pcs] At_head HAND assms(3) take_rx_pcs [of s]
        by (simp add: real_calls_def thread_calls_def take_calls_value)
    next
      case UP
      then have "s' = goto UP (if AutoUpload (base (rmb s)) \<noteq> 0 then Up_start else Sleeping) s" using assms(1) At_head by simp
      then show ?thesis
        using UP At_head assms(4) delay_small(1) by (auto simp: real_calls_def thread_calls_def intro!: moves.intros)
    qed
  next
    case (At_take p)
    then have "s' = take_lock t p s" using assms(1) by simp
    then show ?thesis
      using moves_take [OF take_lock_frame(3), of p t s] At_take assms(3,4) take_lock_frame(3) [of t p s]
      by (cases t) (auto simp: real_calls_def thread_calls_def take_calls_value)
  next
    case (Own p)
    then have o: "own_step t p s = Some s'" using assms(1) by simp
    have "real_calls t s = (if p = ReInit then release_calls (fst (rt_sem_release (usart_tx_lock s))) else [])"
      using Own by (cases p) (simp_all add: real_calls_def thread_calls_def release_lock_pcs split: list.split)
    then show ?thesis using own_moves [OF o Own assms(2,3)] assms(4) by simp
  next
    case At_done
    then have s': "s' = done_step t s" using assms(1) by simp
    show ?thesis
    proof (cases t)
      case UP
      then show ?thesis
        using At_done assms(4) delay_small(2) s'
        by (auto simp: real_calls_def thread_calls_def done_step_def intro!: moves.intros)
    next
      case HAND
      obtain q where "pcs s' = (pcs s)(HAND := q)" "runnable q"
        using s' HAND by (auto simp: done_step_def split: option.splits mb_callback.splits)
      then show ?thesis
        using plain_moves [of s' s HAND q] assms(3,4) HAND At_done by (simp add: real_calls_def thread_calls_def)
    qed
  qed
qed

section \<open>The kernel during a step\<close>

text \<open>An operation that concerns the thread \<open>t\<close> only.\<close>

lemma links_frame:
  assumes "moved {Mb t} k k'" "links k s" "\<And>u. u \<noteq> t \<Longrightarrow> pcs s' u = pcs s u" "linked k' s' t"
  shows "links k' s'"
proof (rule linksI)
  fix u
  show "linked k' s' u"
    by (cases "u = t") (use assms(3,4) linksD [OF assms(2)] in \<open>simp_all add: linked_frame [OF assms(1)]\<close>)
qed

lemma wake_suspended:
  assumes "kern_inv i k" "stat (tcb k t) = RT_THREAD_SUSPEND"
  obtains k' where "kwake t k = Some k'" "kern_inv i k'" "moved {t} k k'" "lock_nest k' = lock_nest k" "active (tcb k' t)"
proof -
  obtain k' where "kwake t k = Some k'" "kern_inv i k'" "moved (if stat (tcb k t) = RT_THREAD_SUSPEND then {t} else {}) k k'"
    "rt_tick k' = rt_tick k" "lock_nest k' = lock_nest k" "stat (tcb k t) = RT_THREAD_SUSPEND \<longrightarrow> active (tcb k' t)"
    by (rule wake_kern [OF assms(1)])
  then show thesis using that [of k'] assms(2) by simp
qed

text \<open>The current Modbus thread \<open>t\<close> makes one call.\<close>

lemma call_linked:
  assumes "kern_inv idle k" "lock_nest k = 0" "prios k" "links k s"
    and "current_thread k = Some (Mb t)" "stat (tcb k (Mb t)) = RT_THREAD_RUNNING" "moves t s s' cs"
  obtains k' where "krun cs k = Some k'" "kern_inv idle k'" "lock_nest k' = 0" "prios k'"
    "pcs s' HAND \<noteq> Halted \<longrightarrow> links k' s'"
  using assms(7)
proof cases
  case goes
  have m: "moved {Mb t} k k" by (simp add: moved_def stays_def)
  have "links k s'" if "pcs s' HAND \<noteq> Halted"
  proof (rule links_frame [OF m assms(4)])
    show "linked k s' t" using goes(3) that assms(6) by (intro linked_active [OF assms(1)]) auto
  qed (use goes(2) in simp)
  then show thesis using that [of k] assms(1-3) goes(1) by simp
next
  case blocks
  obtain k' where k': "kwait k = Some k'" "kern_inv idle k'" "moved {Mb t} k k'" "rt_tick k' = rt_tick k"
    "lock_nest k' = lock_nest k" "stat (tcb k' (Mb t)) = RT_THREAD_SUSPEND" "Mb t \<notin> set (timer_list k')"
    by (rule wait_kern [OF assms(1,5,6)]) simp_all
  have "links k' s'"
    by (rule links_frame [OF k'(3) assms(4)]) (use k'(6,7) blocks(2-4) in \<open>simp_all add: linked_def\<close>)
  then show thesis using that [of k'] k'(1,2,5) prios_moved [OF k'(3) assms(3)] assms(2) blocks(1) by simp
next
  case (sleeps n)
  have "kern_ok idle k" using inv_parts [OF assms(1)] by blast
  then obtain k' where k': "rt_thread_sleep n k = Some k'" "kern_inv idle k'" "moved {Mb t} k k'" "Mb t \<in> set (timer_list k')"
    "timeout_tick (tcb k' (Mb t)) = rt_tick k + n" "rt_tick k' = rt_tick k" "lock_nest k' = lock_nest k"
    by (rule sleep_kern [OF _ assms(5,6) _ sleeps(5)]) simp_all
  have "links k' s'"
  proof (rule links_frame [OF k'(3) assms(4)])
    show "linked k' s' t" using k'(4) sleeps(3,4) sleeps_suspended [OF k'(2,4)] by (simp add: linked_def)
    show "pcs s' u = pcs s u" if "u \<noteq> t" for u using that sleeps(2,3) by (cases u) simp_all
  qed
  then show thesis using that [of k'] k'(1,2,7) prios_moved [OF k'(3) assms(3)] assms(2) sleeps(1) by simp
next
  case (wakes u)
  note r = runnable_resumed [OF wakes(3)]
  have "stat (tcb k (Mb u)) = RT_THREAD_SUSPEND" using linksD [OF assms(4), of u] r by (simp add: linked_def)
  then obtain k' where k': "kwake (Mb u) k = Some k'" "kern_inv idle k'" "moved {Mb u} k k'"
    "lock_nest k' = lock_nest k" "active (tcb k' (Mb u))"
    by (rule wake_suspended [OF assms(1)])
  have a: "active (tcb k' (Mb t))" using moved_out(1) [OF k'(3), of "Mb t"] wakes(2) assms(6) by simp
  have "links k' s'"
  proof (rule linksI)
    fix v
    have "v = t \<or> v = u" using wakes(2) by (cases v; cases t; cases u) simp_all
    then show "linked k' s' v" using linked_active [OF k'(2)] a k'(5) wakes(4,5) r by auto
  qed
  then show thesis using that [of k'] k'(1,2,4) prios_moved [OF k'(3) assms(3)] assms(2) wakes(1) by simp
qed

text \<open>The return from \<open>rt_thread_mdelay\<close>.\<close>

lemma slept_linked:
  assumes "kern_inv idle k" "prios k" "links k s" "current_thread k = Some t"
  obtains k' where "kexec Slept k = Some k'" "kern_inv idle k'" "lock_nest k' = lock_nest k" "prios k'" "links k' s"
    "current_thread k' = Some t" "stat (tcb k' t) = stat (tcb k t)"
proof (cases "thr_error (tcb k t) = - RT_ETIMEOUT")
  case True
  let ?k = "on_tcb t (\<lambda>b. b\<lparr>thr_error := RT_EOK\<rparr>) k"
  have f: "kern_inv idle ?k" "moved {t} k ?k" by (rule field_kern [OF assms(1)]; simp)+
  have "linked ?k s u" for u using linksD [OF assms(3), of u] by (auto simp: linked_def split: if_splits)
  then have "links ?k s" by (rule linksI)
  then show thesis
    by (intro that [of ?k]) (use f prios_moved [OF f(2) assms(2)] assms(4) True in \<open>simp_all add: rt_thread_slept_def\<close>)
next
  case False
  then show thesis by (intro that [of k]) (use assms in \<open>simp_all add: rt_thread_slept_def\<close>)
qed

lemma sys_parts:
  assumes "sys_inv k s" "pcs s HAND \<noteq> Halted"
  shows "kern_inv idle k" "task_locks k" "prios k" "links k s" "rtt_inv s" "up_point (pcs s UP)" "pcs s HAND \<noteq> Sleeping"
  using assms by (simp_all add: sys_inv_def)

lemma thread_sys:
  assumes "sys_inv k s" "pcs s HAND \<noteq> Halted" "current_thread k = Some (Mb t)" "thread_step H t (pcs s t) s = Some s'"
    and "rtt_inv s'"
  obtains k' where "krun (thread_calls t s) k = Some k'" "sys_inv k' s'"
proof -
  note i = sys_parts [OF assms(1,2)]
  note l = mb_unlocked [OF i(2) assms(3)]
  have st: "stat (tcb k (Mb t)) = RT_THREAD_RUNNING" by (rule current_runs(2) [OF assms(1-3)])
  have m: "moves t s s' (real_calls t s)" "up_point (pcs s' UP)" "pcs s' HAND \<noteq> Sleeping"
    using step_moves [OF assms(4) i(5-7)] by simp_all
  show thesis
  proof (cases "t = UP \<and> pcs s UP = At_head")
    case False
    obtain k' where k': "krun (real_calls t s) k = Some k'" "kern_inv idle k'" "lock_nest k' = 0" "prios k'"
      "pcs s' HAND \<noteq> Halted \<longrightarrow> links k' s'"
      by (rule call_linked [OF i(1) l i(3,4) assms(3) st m(1)])
    moreover have "thread_calls t s = real_calls t s" using False by (auto simp: thread_calls_real)
    ultimately show thesis
      using m(2,3) assms(5) by (intro that [of k']) (simp_all add: sys_inv_def task_locks_def)
  next
    case True
    obtain k1 where k1: "kexec Slept k = Some k1" "kern_inv idle k1" "lock_nest k1 = lock_nest k" "prios k1" "links k1 s"
      "current_thread k1 = Some (Mb t)" "stat (tcb k1 (Mb t)) = stat (tcb k (Mb t))"
      by (rule slept_linked [OF i(1,3,4) assms(3)])
    have k1': "lock_nest k1 = 0" "stat (tcb k1 (Mb t)) = RT_THREAD_RUNNING" using k1(3,7) l st by simp_all
    obtain k' where k': "krun (real_calls t s) k1 = Some k'" "kern_inv idle k'" "lock_nest k' = 0" "prios k'"
      "pcs s' HAND \<noteq> Halted \<longrightarrow> links k' s'"
      by (rule call_linked [OF k1(2) k1'(1) k1(4-6) k1'(2) m(1)])
    have "thread_calls t s = Slept # real_calls t s" using True by (simp add: thread_calls_real)
    then show thesis
      using m(2,3) assms(5) k1(1) k' by (intro that [of k']) (simp_all add: sys_inv_def task_locks_def del: kexec.simps)
  qed
qed

section \<open>The interrupts and the other threads\<close>

text \<open>A semaphore is released by an interrupt; \<open>r\<close> is the thread that it resumes.\<close>

definition resumes :: "thread option \<Rightarrow> rtt \<Rightarrow> rtt \<Rightarrow> bool" where
  "resumes r s s' \<longleftrightarrow> (case r of None \<Rightarrow> pcs s' = pcs s
     | Some t \<Rightarrow> pcs s' = (pcs s)(t := resumed (pcs s t)) \<and> \<not> runnable (pcs s t) \<and> runnable (resumed (pcs s t)))"

lemma release_sys:
  assumes "sys_inv k s" "pcs s HAND \<noteq> Halted" "resumes r s s'" "rtt_inv s'"
  obtains k' where "krun (release_calls r) k = Some k'" "sys_inv k' s'"
proof -
  note i = sys_parts [OF assms(1,2)]
  show thesis
  proof (cases r)
    case None
    have p: "pcs s' = pcs s" using assms(3) None by (simp add: resumes_def)
    have "links k s'" by (rule linksI) (use linksD [OF i(4)] p in \<open>simp add: linked_def\<close>)
    then show thesis using that [of k] i p assms(4) None by (simp add: release_calls_def sys_inv_def)
  next
    case (Some t)
    have p: "pcs s' = (pcs s)(t := resumed (pcs s t))" "\<not> runnable (pcs s t)" "runnable (resumed (pcs s t))"
      using assms(3) Some by (simp_all add: resumes_def)
    have "stat (tcb k (Mb t)) = RT_THREAD_SUSPEND" using linksD [OF i(4), of t] p(2) by (simp add: linked_def)
    then obtain k' where k': "kwake (Mb t) k = Some k'" "kern_inv idle k'" "moved {Mb t} k k'"
      "lock_nest k' = lock_nest k" "active (tcb k' (Mb t))"
      by (rule wake_suspended [OF i(1)])
    have lk: "task_locks k'" by (rule task_locks_kept [OF i(2), of "Wake (Mb t)"]) (use k'(1,4) in simp_all)
    have l: "links k' s'"
    proof (rule links_frame [OF k'(3) i(4)])
      show "linked k' s' t" by (rule linked_active [OF k'(2,5)]) (use p in simp)
    qed (use p(1) in simp)
    have "up_point (resumed (pcs s UP))" using i(6) by (cases "pcs s UP") auto
    moreover have "resumed (pcs s HAND) \<noteq> Sleeping" using i(7) by (cases "pcs s HAND") auto
    ultimately have "up_point (pcs s' UP)" "pcs s' HAND \<noteq> Sleeping" using p(1) i(6,7) by (cases t; simp)+
    then show thesis
      using that [of k'] k' l lk prios_moved [OF k'(3) i(3)] assms(4) Some by (simp add: release_calls_def sys_inv_def)
  qed
qed

lemma rx_end_resumes:
  assumes "rtt_inv s"
  shows "resumes (fst (rt_sem_release (usart_sem s))) s (rtt_rx_end s)"
proof -
  have "suspend_thread (usart_sem s) = (if pcs s HAND = In_rx then [HAND] else [])" using assms by (simp add: inv_defs)
  then show ?thesis by (simp add: resumes_def rtt_rx_end_def rt_sem_release_def resume_def Let_def)
qed

lemma tx_end_resumes:
  assumes "rtt_inv s"
  shows "resumes (fst (rt_sem_release (usart_tx_lock s))) s (rtt_tx_end s)"
proof -
  have w: "u \<in> set (suspend_thread (usart_tx_lock s)) \<longleftrightarrow> waits (pcs s u)" for u using assms by (simp add: inv_defs)
  show ?thesis
  proof (cases "suspend_thread (usart_tx_lock s)")
    case (Cons u us)
    then have "waits (pcs s u)" using w by auto
    from runnable_resumed [OF this] show ?thesis
      using Cons by (simp add: resumes_def rtt_tx_end_def release_lock_def rt_sem_release_def resume_def)
  qed (simp add: resumes_def rtt_tx_end_def release_lock_def rt_sem_release_def resume_def)
qed

lemma tick_sys:
  assumes "sys_inv k s" "pcs s HAND \<noteq> Halted"
  obtains k' where "kexec Tick k = Some k'" "rtt_inv (woken k' s) \<longrightarrow> sys_inv k' (woken k' s)"
proof -
  note i = sys_parts [OF assms]
  note l = linksD [OF i(4)]
  obtain k' where k': "rt_tick_increase k = Some k'" "kern_inv idle k'" "moved (due (rt_tick k) k) k k'"
    "\<forall>t\<in>due (rt_tick k) k. active (tcb k' t) \<and> thr_error (tcb k' t) = - RT_ETIMEOUT \<and> t \<notin> set (timer_list k')"
    "rt_tick k' = rt_tick k + 1" "lock_nest k' = lock_nest k" by (rule tick_kern [OF i(1)])
  have lk: "task_locks k'" by (rule task_locks_kept [OF i(2), of Tick]) (use k'(1,6) in simp_all)
  have h: "Mb HAND \<notin> due (rt_tick k) k" using l [of HAND] i(7) by (simp add: due_def linked_def)
  have hand: "pcs (woken k' s) HAND = pcs s HAND" by (simp add: woken_def)
  have 1: "linked k' (woken k' s) HAND" by (rule linked_frame [OF k'(3) h hand l])
  have 2: "linked k' (woken k' s) UP"
  proof (cases "Mb UP \<in> due (rt_tick k) k")
    case True
    then have a: "active (tcb k' (Mb UP))" using k'(4) by blast
    have "pcs s UP = Sleeping" using True l [of UP] by (simp add: due_def linked_def)
    then have "pcs (woken k' s) UP = At_head" using a by (auto simp: woken_def)
    then show ?thesis using a by (intro linked_active [OF k'(2)]) simp_all
  next
    case False
    have u: "linked k' s UP" by (rule linked_frame [OF k'(3) False refl l])
    then have "woken k' s = s" by (auto simp: woken_def linked_def)
    then show ?thesis using u by simp
  qed
  have "linked k' (woken k' s) t" for t using 1 2 by (cases t) simp_all
  then have "links k' (woken k' s)" by (rule linksI)
  moreover have "up_point (pcs (woken k' s) UP)" using i(6) by (simp add: woken_def)
  ultimately show thesis
    using that [of k'] k'(1,2) lk prios_moved [OF k'(3) i(3)] i(7) hand by (simp add: sys_inv_def)
qed

text \<open>Another thread.\<close>

lemma task_not_concerned:
  assumes "task_op x" "current_thread k = Some (Task n)"
  shows "Mb t \<notin> concerns x k"
  using assms by (cases x rule: task_op.cases) auto

lemma task_sys:
  assumes "sys_inv k s" "pcs s HAND \<noteq> Halted" "current_thread k = Some (Task n)" "task_op x" "kop_ok idle k x"
    and "kexec x k = Some k'"
  shows "sys_inv k' s"
proof -
  note i = sys_parts [OF assms(1,2)]
  obtain k1 where k1: "kexec x k = Some k1" "kern_inv idle k1" "moved (concerns x k) k k1"
    "rt_tick k1 = rt_tick k + (if x = Tick then 1 else 0)" "x \<noteq> Lock \<and> x \<noteq> Unlock \<longrightarrow> lock_nest k1 = lock_nest k"
    by (rule kexec_kern [OF i(1) assms(5)])
  have "links k1 s"
    by (rule linksI, rule linked_frame [OF k1(3) task_not_concerned [OF assms(4,3)] refl linksD [OF i(4)]])
  moreover have "task_locks k1"
    by (rule task_locks_kept [OF i(2) k1(1)]) (use k1(5) assms(3) in simp_all)
  ultimately show ?thesis using k1 i prios_moved [OF k1(3) i(3)] assms(6) by (simp add: sys_inv_def)
qed

section \<open>Simulation\<close>

lemma rtt_run_inv: "flash_hal H \<Longrightarrow> rtt_inv s \<Longrightarrow> (rtt_step H)\<^sup>*\<^sup>* s s' \<Longrightarrow> rtt_inv s'"
  using flash_hal.rtt_reachable_inv by blast

lemma sys_step_rtt:
  assumes "sys_step H (k, s) (k', s')" "sys_inv k s"
  shows "pcs s HAND \<noteq> Halted \<and> (rtt_step H)\<^sup>*\<^sup>* s s'"
  using assms(1)
proof cases
  case (thread t)
  then show ?thesis using thread_rtt [OF assms(2)] by blast
next
  case tick
  have "(rtt_step H)\<^sup>*\<^sup>* s (woken k' s)"
    using tick(2) rtt_step.wake [of s H] by (auto simp: woken_def)
  then show ?thesis using tick by simp
qed (auto intro: rtt_step.intros)

lemma sys_step_inv:
  assumes "flash_hal H" "sys_step H (k, s) (k', s')" "sys_inv k s"
  shows "sys_inv k' s'"
proof -
  have h: "pcs s HAND \<noteq> Halted" "(rtt_step H)\<^sup>*\<^sup>* s s'" using sys_step_rtt [OF assms(2,3)] by simp_all
  note i = sys_parts [OF assms(3) h(1)]
  have r: "rtt_inv s'" by (rule rtt_run_inv [OF assms(1) i(5) h(2)])
  have same: "sys_inv k s'" if "pcs s' = pcs s"
    using assms(3) r that by (simp add: sys_inv_def links_def linked_def)
  show ?thesis
    using assms(2)
  proof cases
    case (thread t)
    obtain k2 where "krun (thread_calls t s) k = Some k2" "sys_inv k2 s'"
      by (rule thread_sys [OF assms(3) h(1) thread(2,4) r])
    then show ?thesis using thread(3) by simp
  next
    case (task n x)
    then show ?thesis using task_sys [OF assms(3) h(1) task(3-5)] by simp
  next
    case tick
    obtain k2 where "kexec Tick k = Some k2" "rtt_inv (woken k2 s) \<longrightarrow> sys_inv k2 (woken k2 s)"
      by (rule tick_sys [OF assms(3) h(1)])
    then show ?thesis using tick r by simp
  next
    case rx_end
    have r': "rtt_inv (rtt_rx_end s)" using r rx_end by simp
    obtain k2 where "krun (release_calls (fst (rt_sem_release (usart_sem s)))) k = Some k2" "sys_inv k2 (rtt_rx_end s)"
      by (rule release_sys [OF assms(3) h(1) rx_end_resumes [OF i(5)] r'])
    then show ?thesis using rx_end by simp
  next
    case tx_end
    have r': "rtt_inv (rtt_tx_end s)" using r tx_end by simp
    obtain k2 where "krun (release_calls (fst (rt_sem_release (usart_tx_lock s)))) k = Some k2" "sys_inv k2 (rtt_tx_end s)"
      by (rule release_sys [OF assms(3) h(1) tx_end_resumes [OF i(5)] r'])
    then show ?thesis using tx_end by simp
  qed (use same in simp_all)
qed

lemma sys_run:
  assumes "flash_hal H" "(sys_step H)\<^sup>*\<^sup>* (k, s) (k', s')" "sys_inv k s"
  shows "sys_inv k' s' \<and> (rtt_step H)\<^sup>*\<^sup>* s s'"
  using assms(2)
proof (induction rule: rtranclp_induct2)
  case refl
  then show ?case using assms(3) by simp
next
  case (step k1 s1 k2 s2)
  then show ?case using sys_step_inv [OF assms(1) step(2)] sys_step_rtt [OF step(2)] by (auto intro: rtranclp_trans)
qed

section \<open>The start\<close>

lemma create_startup:
  assumes "kern_inv i k" "\<not> started (tcb k t)" "p < 8"
  obtains k' where "krun [Create t p n, Startup t] k = Some k'" "kern_inv i k'" "moved {t} k k'" "lock_nest k' = lock_nest k"
    "active (tcb k' t)" "prio_of k' t = unat p"
proof -
  obtain k1 where k1: "rt_thread_init t p n k = Some k1" "kern_inv i k1" "moved {t} k k1" "rt_tick k1 = rt_tick k"
    "lock_nest k1 = lock_nest k" "tcb k1 = (tcb k)(t := tcb k1 t)" "stat (tcb k1 t) = RT_THREAD_INIT" "init_priority (tcb k1 t) = p"
    by (rule create_kern [OF assms])
  have p: "init_priority (tcb k1 t) < 8" using k1(8) assms(3) by simp
  obtain k2 where k2: "rt_thread_startup t k1 = Some k2" "kern_inv i k2" "moved {t} k1 k2" "rt_tick k2 = rt_tick k1"
    "lock_nest k2 = lock_nest k1" "active (tcb k2 t)" "prio_of k2 t = unat (init_priority (tcb k1 t))"
    by (rule startup_kern [OF k1(2,7) p])
  show thesis
    by (rule that [of k2]) (use k1 k2 moved_trans1 [OF k1(3) k2(3)] in simp_all)
qed

lemma active_started: "active b \<Longrightarrow> started b"
  by (auto simp: started_def)

lemma threads_started:
  assumes "kern_inv idle k" "lock_nest k = 0" "\<And>t. \<not> started (tcb k (Mb t))" "rtt_ready m"
  obtains k' where "modbus_init_threads k = Some k'" "sys_inv k' (rtt_init m)" "lock_nest k' = 0"
proof -
  have p8: "(8 - 4 :: u8) < 8" "(8 - 3 :: u8) < 8" by simp_all
  obtain k1 where k1: "krun [Create (Mb HAND) (8 - 4) 20, Startup (Mb HAND)] k = Some k1" "kern_inv idle k1" "moved {Mb HAND} k k1"
    "lock_nest k1 = lock_nest k" "active (tcb k1 (Mb HAND))" "prio_of k1 (Mb HAND) = unat (8 - 4 :: u8)"
    by (rule create_startup [OF assms(1,3) p8(1)])
  have "Mb UP \<notin> {Mb HAND}" by simp
  note o = moved_out(1,2) [OF k1(3) this]
  have n: "\<not> started (tcb k1 (Mb UP))" using o assms(3) [of UP] by (auto simp: started_def)
  obtain k2 where k2: "krun [Create (Mb UP) (8 - 3) 20, Startup (Mb UP)] k1 = Some k2" "kern_inv idle k2" "moved {Mb UP} k1 k2"
    "lock_nest k2 = lock_nest k1" "active (tcb k2 (Mb UP))" "prio_of k2 (Mb UP) = unat (8 - 3 :: u8)"
    by (rule create_startup [OF k1(2) n p8(2)])
  have h: "active (tcb k2 (Mb HAND))" "prio_of k2 (Mb HAND) = unat (8 - 4 :: u8)"
    using moved_out(1) [OF k2(3), of "Mb HAND"] moved_prio [OF k2(3) active_started [OF k1(5)]] k1(5,6) by auto
  have "modbus_init_threads k = Option.bind (krun [Create (Mb HAND) (8 - 4) 20, Startup (Mb HAND)] k) (krun [Create (Mb UP) (8 - 3) 20, Startup (Mb UP)])"
    unfolding modbus_init_threads_def by (subst krun_append [symmetric]) (simp only: append.simps)
  then have 1: "modbus_init_threads k = Some k2" using k1(1) k2(1) by (simp only: Option.bind.simps)
  have "linked k2 (rtt_init m) t" for t
    by (rule linked_active [OF k2(2)]) (use h(1) k2(5) in \<open>cases t; simp add: rtt_init_def\<close>)+
  then have "links k2 (rtt_init m)" by (rule linksI)
  moreover have "prios k2"
  proof -
    have "started (tcb k2 (Mb t)) \<and> prio_of k2 (Mb t) = current_priority t" for t
      using h k2(5,6) active_started by (cases t) auto
    then show ?thesis by (simp add: prios_def)
  qed
  moreover have u: "lock_nest k2 = 0" using k2(4) k1(4) assms(2) by simp
  ultimately have "sys_inv k2 (rtt_init m)"
    using k2(2) rtt_init_inv [OF assms(4)] by (simp add: sys_inv_def rtt_init_def task_locks_def)
  with 1 show thesis using u by (rule that)
qed

lemma system_started:
  assumes "fresh k0" "rtt_ready m"
  obtains k k' where "rtthread_startup (Task 0) idle k0 = Some k" "modbus_init_threads k = Some k'" "sys_inv k' (rtt_init m)"
    "current_thread k = Some (Task 0)" "lock_nest k' = 0"
proof -
  obtain k where k: "rtthread_startup (Task 0) idle k0 = Some k" "kern_inv idle k" "current_thread k = Some (Task 0)" "lock_nest k = 0"
    "prio_of k (Task 0) = 3" "prio_of k idle = 7" "\<forall>t. active (tcb k t) \<longleftrightarrow> t = Task 0 \<or> t = idle" "timer_list k = []"
    "\<forall>t. t \<noteq> Task 0 \<longrightarrow> t \<noteq> idle \<longrightarrow> tcb k t = tcb k0 t"
    by (rule startup_inv [OF assms(1), of "Task 0" idle]) simp_all
  have "\<not> started (tcb k (Mb t))" for t using k(9) assms(1) by (simp add: fresh_def)
  then obtain k' where "modbus_init_threads k = Some k'" "sys_inv k' (rtt_init m)" "lock_nest k' = 0"
    using threads_started [OF k(2,4) _ assms(2)] by metis
  then show thesis using that k(1,3) by blast
qed

section \<open>Preemption\<close>

text \<open>A thread of higher priority than the current one goes on as soon as it is resumed.\<close>

lemma wake_preempts:
  assumes "kern_inv i k" "lock_nest k = 0" "current_thread k = Some c" "stat (tcb k t) = RT_THREAD_SUSPEND"
    and "started (tcb k t)" "prio_of k t < prio_of k c" "kwake t k = Some k'"
  shows "current_thread k' = Some t \<and> stat (tcb k' t) = RT_THREAD_RUNNING"
proof -
  obtain k2 where k2: "kwake t k = Some k2" "kern_inv i k2" "moved {t} k k2" "lock_nest k2 = lock_nest k" "active (tcb k2 t)"
    by (rule wake_suspended [OF assms(1,4)])
  then have e: "k2 = k'" using assms(7) by simp
  have r: "runs_highest k" "runs_highest k'" using assms(1,2) k2(2,4) e by (simp_all add: kern_inv_def)
  have so: "sched_ok k" "sched_ok k'" using inv_parts [OF assms(1)] inv_parts [OF k2(2)] e by auto
  obtain d where d: "current_thread k' = Some d" "stat (tcb k' d) = RT_THREAD_RUNNING"
    "\<forall>u. stat (tcb k' u) = RT_THREAD_READY \<longrightarrow> prio_of k' d \<le> prio_of k' u" using r(2) by (auto simp: runs_highest_def)
  have "d = t"
  proof (rule ccontr)
    assume n: "d \<noteq> t"
    then have a: "active (tcb k d)" using moved_out(1) [OF k2(3), of d] d(2) e by simp
    have "prio_of k' d = prio_of k d" "prio_of k' t = prio_of k t"
      using moved_prio [OF k2(3)] active_started [OF a] assms(5) e by auto
    moreover have "stat (tcb k' t) = RT_THREAD_READY" using k2(5) e sched_running [OF so(2), of t] d(1) n by auto
    ultimately have "prio_of k d < prio_of k c" using d(3) assms(6) by (metis le_less_trans)
    moreover have "prio_of k c \<le> prio_of k d"
      using a r(1) assms(3) sched_running [OF so(1), of d] by (auto simp: runs_highest_def)
    ultimately show False by simp
  qed
  then show ?thesis using d by simp
qed

section \<open>What the system does\<close>

lemma system_run:
  assumes "flash_hal H" "rtt_ready m" "fresh k0" "rtthread_startup (Task 0) idle k0 = Some k"
    and "modbus_init_threads k = Some k1" "(sys_step H)\<^sup>*\<^sup>* (k1, rtt_init m) (k', s)"
  shows "sys_inv k' s \<and> (rtt_step H)\<^sup>*\<^sup>* (rtt_init m) s"
proof -
  obtain k2 k3 where "rtthread_startup (Task 0) idle k0 = Some k2" "modbus_init_threads k2 = Some k3" "sys_inv k3 (rtt_init m)"
    "current_thread k2 = Some (Task 0)" "lock_nest k3 = 0"
    by (rule system_started [OF assms(3,2)])
  then have "sys_inv k1 (rtt_init m)" using assms(4,5) by simp
  then show ?thesis by (rule sys_run [OF assms(1,6)])
qed

text \<open>C8.  The kernel runs the two Modbus threads as the model of the threads assumes.  After the
  start of the system, in every run of the kernel with the two threads, the other threads (which may lock the
  scheduler) and the interrupts between the operations of the kernel, the
  Modbus threads make a run of \<open>rtt_step\<close>; the kernel has a thread ready or running exactly when it
  is not waiting at its point, and \<open>mb_up\<close> in the timer list exactly while it sleeps; when a Modbus thread is the
  current one, it can go on and \<open>mb_hand\<close> is not kept waiting by \<open>mb_up\<close>; and the calls of the kernel
  in its step return.\<close>

theorem kernel_runs_threads:
  assumes "flash_hal H" and "rtt_ready m" and "fresh k0" and "rtthread_startup (Task 0) (Task 1) k0 = Some k"
    and "modbus_init_threads k = Some k1" and "(sys_step H)\<^sup>*\<^sup>* (k1, rtt_init m) (k', s)" and "pcs s HAND \<noteq> Halted"
  shows "(rtt_step H)\<^sup>*\<^sup>* (rtt_init m) s
    \<and> (\<forall>t. (stat (tcb k' (Mb t)) = RT_THREAD_READY \<or> stat (tcb k' (Mb t)) = RT_THREAD_RUNNING) = runnable (pcs s t)
          \<and> (Mb t \<in> set (timer_list k')) = (pcs s t = Sleeping))
    \<and> (\<forall>t. current_thread k' = Some (Mb t) \<longrightarrow> runnable (pcs s t) \<and> (t = UP \<longrightarrow> \<not> runnable (pcs s HAND))
          \<and> (\<forall>s'. thread_step H t (pcs s t) s = Some s' \<longrightarrow> (\<exists>k''. sys_step H (k', s) (k'', s'))))"
proof -
  have r: "sys_inv k' s" "(rtt_step H)\<^sup>*\<^sup>* (rtt_init m) s" using system_run [OF assms(1-6)] by simp_all
  note i = sys_parts [OF r(1) assms(7)]
  have l: "active (tcb k' (Mb t)) = runnable (pcs s t) \<and> (Mb t \<in> set (timer_list k')) = (pcs s t = Sleeping)" for t
    using linksD [OF i(4), of t] by (auto simp: linked_def split: if_splits)
  have c: "runnable (pcs s t) \<and> (t = UP \<longrightarrow> \<not> runnable (pcs s HAND))
     \<and> (\<forall>s'. thread_step H t (pcs s t) s = Some s' \<longrightarrow> (\<exists>k''. sys_step H (k', s) (k'', s')))"
    if t: "current_thread k' = Some (Mb t)" for t
  proof (intro conjI allI impI)
    show "runnable (pcs s t)" by (rule current_runs(1) [OF r(1) assms(7) t])
    show "\<not> runnable (pcs s HAND)" if "t = UP" by (rule current_runs(3) [OF r(1) assms(7) t that])
    fix s' assume st: "thread_step H t (pcs s t) s = Some s'"
    have "rtt_inv s'"
      by (rule rtt_run_inv [OF assms(1) i(5) r_into_rtranclp [of "rtt_step H", OF thread_rtt [OF r(1) assms(7) t st]]])
    then obtain k'' where "krun (thread_calls t s) k' = Some k''" "sys_inv k'' s'"
      by (rule thread_sys [OF r(1) assms(7) t st])
    then show "\<exists>k''. sys_step H (k', s) (k'', s')" using sys_step.thread [OF assms(7) t _ st] by blast
  qed
  show ?thesis using r(2) l c by blast
qed

text \<open>C11.  A frame interrupts the upload.  In every run in which \<open>mb_up\<close> is the current thread
  while \<open>mb_hand\<close> waits for a frame, the interrupt at the end of a frame makes \<open>mb_hand\<close> the running
  thread before \<open>mb_up\<close> executes another statement.\<close>

theorem frame_preempts_upload:
  assumes "flash_hal H" and "rtt_ready m" and "fresh k0" and "rtthread_startup (Task 0) (Task 1) k0 = Some k"
    and "modbus_init_threads k = Some k1" and "(sys_step H)\<^sup>*\<^sup>* (k1, rtt_init m) (k', s)"
    and "current_thread k' = Some (Mb UP)" and "pcs s HAND = In_rx"
  shows "\<exists>k''. sys_step H (k', s) (k'', rtt_rx_end s) \<and> pcs (rtt_rx_end s) HAND = At_flag
     \<and> pcs (rtt_rx_end s) UP = pcs s UP
     \<and> current_thread k'' = Some (Mb HAND) \<and> stat (tcb k'' (Mb HAND)) = RT_THREAD_RUNNING"
proof -
  have r: "sys_inv k' s" using system_run [OF assms(1-6)] by simp
  have h: "pcs s HAND \<noteq> Halted" using assms(8) by simp
  note i = sys_parts [OF r h]
  have q: "suspend_thread (usart_sem s) = [HAND]" using i(5) assms(8) by (simp add: inv_defs)
  have st: "stat (tcb k' (Mb HAND)) = RT_THREAD_SUSPEND" using linksD [OF i(4), of HAND] assms(8) by (simp add: linked_def)
  have pr: "started (tcb k' (Mb HAND))" "prio_of k' (Mb HAND) < prio_of k' (Mb UP)" using i(3) by (simp_all add: prios_def)
  obtain k'' where k'': "kwake (Mb HAND) k' = Some k''" by (rule wake_suspended [OF i(1) st])
  have p: "pcs (rtt_rx_end s) HAND = At_flag" "pcs (rtt_rx_end s) UP = pcs s UP"
    using q assms(8) by (simp_all add: rtt_rx_end_def rt_sem_release_def resume_def Let_def)
  have "krun (release_calls (fst (rt_sem_release (usart_sem s)))) k' = Some k''"
    using q k'' by (simp add: rt_sem_release_def release_calls_def)
  then have "sys_step H (k', s) (k'', rtt_rx_end s)" by (rule sys_step.rx_end [OF h])
  then show ?thesis using p wake_preempts [OF i(1) mb_unlocked [OF i(2) assms(7)] assms(7) st pr k''] by blast
qed

section \<open>A run\<close>

text \<open>The main thread waits; \<open>mb_hand\<close> waits for a frame; \<open>mb_up\<close> begins.\<close>

lemma more_bitmap_entries: "lowest_bit_bitmap ! 176 = 4" "lowest_bit_bitmap ! 160 = 5"
  by (simp_all add: lowest_bit_bitmap_def)

lemma first_switches:
  "Option.bind (rtthread_startup (Task 0) idle (zero_kern 0)) (\<lambda>k.
   Option.bind (modbus_init_threads k) (\<lambda>k1.
   Option.bind (kwait k1) (\<lambda>k2. Option.bind (kwait k2) (\<lambda>k3.
     Some (current_thread k1, current_thread k2, current_thread k3)))))
   = Some (Some (Task 0), Some (Mb HAND), Some (Mb UP))"
  by (simp add: rtthread_startup_def modbus_init_threads_def kernel_steps zero_kern_def zero_tcb_def Let_def bitmap_entries more_bitmap_entries)

lemma upload_reached:
  obtains k k1 k' s where "rtthread_startup (Task 0) (Task 1) (zero_kern 0) = Some k" "modbus_init_threads k = Some k1"
    "(sys_step st_hal)\<^sup>*\<^sup>* (k1, rtt_init (mb_with [])) (k', s)" "current_thread k' = Some (Mb UP)" "pcs s HAND = In_rx"
proof -
  let ?s = "rtt_init (mb_with [])"
  obtain k k1 where k: "rtthread_startup (Task 0) idle (zero_kern 0) = Some k" "modbus_init_threads k = Some k1" "sys_inv k1 ?s"
    "current_thread k = Some (Task 0)" "lock_nest k1 = 0"
    by (rule system_started [OF zero_fresh rtt_ready_with])
  obtain k2 k3 where w: "kwait k1 = Some k2" "kwait k2 = Some k3" "current_thread k1 = Some (Task 0)"
    "current_thread k2 = Some (Mb HAND)" "current_thread k3 = Some (Mb UP)"
    using first_switches k(1,2) by (auto simp: bind_eq_Some_conv)
  have h: "pcs ?s HAND \<noteq> Halted" "pcs ?s HAND = At_head" "sem_value (usart_sem ?s) = 0"
    by (simp_all add: rtt_init_def stm32_usart_sem_init_def rt_sem_init_def)
  have "runs_highest k1" using sys_parts(1) [OF k(3) h(1)] k(5) by (simp add: kern_inv_def)
  then have "kop_ok idle k1 Wait" using w(3) by (auto simp: runs_highest_def)
  then have 1: "sys_step st_hal (k1, ?s) (k2, ?s)"
    by (intro sys_step.task [OF h(1) w(3), of Wait]) (simp_all add: w(1))
  have "thread_calls HAND ?s = [Wait]" using h(2,3) by (simp add: thread_calls_def take_calls_value)
  then have 2: "sys_step st_hal (k2, ?s) (k3, take_rx ?s)"
    by (intro sys_step.thread [OF h(1) w(4)]) (simp_all add: w(2) h(2))
  have "(sys_step st_hal)\<^sup>*\<^sup>* (k1, ?s) (k3, take_rx ?s)" using 1 2 by (meson r_into_rtranclp rtranclp_trans)
  then show thesis by (rule that [OF k(1,2) _ w(5)]) (simp add: take_rx_pcs h(3))
qed

theorem kernel_runs_threads_witness:
  "\<exists>k k1 k' s. rtthread_startup (Task 0) (Task 1) (zero_kern 0) = Some k \<and> modbus_init_threads k = Some k1
     \<and> (sys_step st_hal)\<^sup>*\<^sup>* (k1, rtt_init (mb_with [])) (k', s) \<and> (rtt_step st_hal)\<^sup>*\<^sup>* (rtt_init (mb_with [])) s
     \<and> current_thread k' = Some (Mb UP) \<and> runnable (pcs s UP) \<and> \<not> runnable (pcs s HAND)"
proof -
  obtain k k1 k' s where u: "rtthread_startup (Task 0) (Task 1) (zero_kern 0) = Some k" "modbus_init_threads k = Some k1"
    "(sys_step st_hal)\<^sup>*\<^sup>* (k1, rtt_init (mb_with [])) (k', s)" "current_thread k' = Some (Mb UP)" "pcs s HAND = In_rx"
    by (rule upload_reached)
  have h: "pcs s HAND \<noteq> Halted" using u(5) by simp
  show ?thesis
    using kernel_runs_threads [OF st_hal_flash_hal rtt_ready_with zero_fresh u(1-3) h] u by blast
qed

theorem frame_preempts_upload_witness:
  "\<exists>k k1 k' k'' s. rtthread_startup (Task 0) (Task 1) (zero_kern 0) = Some k \<and> modbus_init_threads k = Some k1
     \<and> (sys_step st_hal)\<^sup>*\<^sup>* (k1, rtt_init (mb_with [])) (k', s) \<and> current_thread k' = Some (Mb UP)
     \<and> sys_step st_hal (k', s) (k'', rtt_rx_end s) \<and> current_thread k'' = Some (Mb HAND)"
proof -
  obtain k k1 k' s where u: "rtthread_startup (Task 0) (Task 1) (zero_kern 0) = Some k" "modbus_init_threads k = Some k1"
    "(sys_step st_hal)\<^sup>*\<^sup>* (k1, rtt_init (mb_with [])) (k', s)" "current_thread k' = Some (Mb UP)" "pcs s HAND = In_rx"
    by (rule upload_reached)
  from frame_preempts_upload [OF st_hal_flash_hal rtt_ready_with zero_fresh u] u show ?thesis by blast
qed

end
