(* ===== verification/RttMem.thy ===== *)
theory RttMem
  imports Prelude
begin

text \<open>
  The dynamic memory of RT-Thread (\<open>mem.c\<close>, \<open>RT_USING_SMALL_MEM\<close>): one area of RAM divided into
  blocks, each a header \<open>heap_mem\<close> of 12 bytes followed by its data.  The headers form a doubly
  linked list by their offsets from \<open>heap_ptr\<close>; the last one, \<open>heap_end\<close>, has no data.

  Pointers are addresses, 0 is \<open>RT_NULL\<close>.  \<open>heap_hdr\<close> maps the offset of a header to it; \<open>None\<close> is an
  offset at which the code has not written one, and the result \<open>None\<close> of an operation is the use of
  such a header or a loop that does not end.  Headers are kept apart from the data of the blocks: that the headers
  in the list and the data the clients own never overlap is part of what is shown, for clients that release and
  write only what they own.  \<open>RT_DEBUG\<close> is not defined in \<open>rtconfig.h\<close>, so \<open>RT_ASSERT\<close> and the debug messages
  are empty.  The semaphore \<open>heap_sem\<close> makes each operation atomic for the threads.
\<close>

section \<open>Headers\<close>

abbreviation (input) HEAP_MAGIC :: u16 where "HEAP_MAGIC \<equiv> 0x1ea0"
abbreviation (input) SIZEOF_STRUCT_MEM :: u32 where "SIZEOF_STRUCT_MEM \<equiv> 12"
abbreviation (input) MIN_SIZE :: u32 where "MIN_SIZE \<equiv> 12"
abbreviation (input) MIN_SIZE_ALIGNED :: u32 where "MIN_SIZE_ALIGNED \<equiv> 12"

definition RT_ALIGN :: "u32 \<Rightarrow> u32" where
  "RT_ALIGN n = (n + 4 - 1) AND NOT (4 - 1)"

definition RT_ALIGN_DOWN :: "u32 \<Rightarrow> u32" where
  "RT_ALIGN_DOWN n = n AND NOT (4 - 1)"

record heap_mem =
  hm_magic :: u16
  hm_used :: u16
  hm_next :: u32
  hm_prev :: u32

record heap =
  heap_ptr :: u32
  mem_size_aligned :: u32
  lfree :: u32
  heap_hdr :: "u32 \<rightharpoonup> heap_mem"
  heap_data :: "u32 \<Rightarrow> u8"

definition heap_end :: "heap \<Rightarrow> u32" where
  "heap_end h = mem_size_aligned h + SIZEOF_STRUCT_MEM"

abbreviation (input) "put_hdr x m h \<equiv> h\<lparr>heap_hdr := (heap_hdr h)(x \<mapsto> m)\<rparr>"

text \<open>A write to fields of the header at \<open>x\<close>.\<close>

definition upd_hdr :: "u32 \<Rightarrow> (heap_mem \<Rightarrow> heap_mem) \<Rightarrow> heap \<Rightarrow> heap option" where
  "upd_hdr x f h = (case heap_hdr h x of None \<Rightarrow> None | Some m \<Rightarrow> Some (put_hdr x (f m) h))"

section \<open>The operations\<close>

text \<open>When the area is too small, \<open>heap_ptr\<close> stays \<open>RT_NULL\<close>.\<close>

definition rt_system_heap_init :: "u32 \<Rightarrow> u32 \<Rightarrow> heap \<Rightarrow> heap" where
  "rt_system_heap_init begin_addr end_addr h =
     (let begin_align = RT_ALIGN begin_addr; end_align = RT_ALIGN_DOWN end_addr in
      if end_align > 2 * SIZEOF_STRUCT_MEM \<and> end_align - 2 * SIZEOF_STRUCT_MEM \<ge> begin_align then
        let h = h\<lparr>mem_size_aligned := end_align - begin_align - 2 * SIZEOF_STRUCT_MEM, heap_ptr := begin_align\<rparr>;
            e = mem_size_aligned h + SIZEOF_STRUCT_MEM;
            h = put_hdr 0 \<lparr>hm_magic = HEAP_MAGIC, hm_used = 0, hm_next = e, hm_prev = 0\<rparr> h;
            h = put_hdr e \<lparr>hm_magic = HEAP_MAGIC, hm_used = 1, hm_next = e, hm_prev = e\<rparr> h
        in h\<lparr>lfree := 0\<rparr>
      else h)"

definition plug_forward :: "u32 \<Rightarrow> heap \<Rightarrow> heap option" where
  "plug_forward x h = do {
     m \<leftarrow> heap_hdr h x;
     let nmem = hm_next m;
     n \<leftarrow> heap_hdr h nmem;
     if x \<noteq> nmem \<and> hm_used n = 0 \<and> nmem \<noteq> heap_end h then do {
       let h = (if lfree h = nmem then h\<lparr>lfree := x\<rparr> else h);
       h \<leftarrow> upd_hdr x (\<lambda>m. m\<lparr>hm_next := hm_next n\<rparr>) h;
       upd_hdr (hm_next n) (\<lambda>m. m\<lparr>hm_prev := x\<rparr>) h }
     else Some h }"

definition plug_backward :: "u32 \<Rightarrow> heap \<Rightarrow> heap option" where
  "plug_backward x h = do {
     m \<leftarrow> heap_hdr h x;
     let pmem = hm_prev m;
     p \<leftarrow> heap_hdr h pmem;
     if pmem \<noteq> x \<and> hm_used p = 0 then do {
       let h = (if lfree h = x then h\<lparr>lfree := pmem\<rparr> else h);
       h \<leftarrow> upd_hdr pmem (\<lambda>p. p\<lparr>hm_next := hm_next m\<rparr>) h;
       upd_hdr (hm_next m) (\<lambda>m. m\<lparr>hm_prev := pmem\<rparr>) h }
     else Some h }"

definition plug_holes :: "u32 \<Rightarrow> heap \<Rightarrow> heap option" where
  "plug_holes x h = do {
     h \<leftarrow> plug_forward x h;
     plug_backward x h }"

text \<open>The search of \<open>rt_malloc\<close>: the offset of the first block that is large enough.\<close>

partial_function (option) malloc_find :: "u32 \<Rightarrow> u32 \<Rightarrow> heap \<Rightarrow> u32 option option" where
  "malloc_find n p h =
     (if p < mem_size_aligned h - n then do {
        m \<leftarrow> heap_hdr h p;
        if hm_used m = 0 \<and> hm_next m - (p + SIZEOF_STRUCT_MEM) \<ge> n then Some (Some p)
        else malloc_find n (hm_next m) h }
      else Some None)"

partial_function (option) next_free :: "heap \<Rightarrow> heap option" where
  "next_free h = do {
     m \<leftarrow> heap_hdr h (lfree h);
     if hm_used m \<noteq> 0 \<and> lfree h \<noteq> heap_end h then next_free (h\<lparr>lfree := hm_next m\<rparr>) else Some h }"

declare malloc_find.simps [code] next_free.simps [code]

text \<open>The block at \<open>p\<close> becomes one of \<open>n\<close> bytes and a free one, or is used whole.\<close>

definition malloc_take :: "u32 \<Rightarrow> u32 \<Rightarrow> heap \<Rightarrow> heap option" where
  "malloc_take n p h = do {
     m \<leftarrow> heap_hdr h p;
     if hm_next m - (p + SIZEOF_STRUCT_MEM) \<ge> n + SIZEOF_STRUCT_MEM + MIN_SIZE_ALIGNED then do {
       let p2 = p + SIZEOF_STRUCT_MEM + n;
       let h = put_hdr p2 \<lparr>hm_magic = HEAP_MAGIC, hm_used = 0, hm_next = hm_next m, hm_prev = p\<rparr> h;
       h \<leftarrow> upd_hdr p (\<lambda>m. m\<lparr>hm_used := 1, hm_next := p2\<rparr>) h;
       if hm_next m \<noteq> mem_size_aligned h + SIZEOF_STRUCT_MEM
       then upd_hdr (hm_next m) (\<lambda>m. m\<lparr>hm_prev := p2\<rparr>) h else Some h }
     else upd_hdr p (\<lambda>m. m\<lparr>hm_used := 1\<rparr>) h }"

definition rt_malloc :: "u32 \<Rightarrow> heap \<Rightarrow> (u32 \<times> heap) option" where
  "rt_malloc n h =
     (if n = 0 then Some (0, h)
      else let n = RT_ALIGN n in
      if n > mem_size_aligned h then Some (0, h)
      else do {
        let n = (if n < MIN_SIZE_ALIGNED then MIN_SIZE_ALIGNED else n);
        r \<leftarrow> malloc_find n (lfree h) h;
        case r of
          None \<Rightarrow> Some (0, h)
        | Some p \<Rightarrow> do {
            h \<leftarrow> malloc_take n p h;
            h \<leftarrow> upd_hdr p (\<lambda>m. m\<lparr>hm_magic := HEAP_MAGIC\<rparr>) h;
            h \<leftarrow> (if p = lfree h then next_free h else Some h);
            Some (heap_ptr h + p + SIZEOF_STRUCT_MEM, h) } })"

definition rt_free :: "u32 \<Rightarrow> heap \<Rightarrow> heap option" where
  "rt_free rmem h =
     (if rmem = 0 then Some h
      else if rmem < heap_ptr h \<or> rmem \<ge> heap_ptr h + heap_end h then Some h
      else do {
        let x = rmem - SIZEOF_STRUCT_MEM - heap_ptr h;
        h \<leftarrow> upd_hdr x (\<lambda>m. m\<lparr>hm_magic := HEAP_MAGIC, hm_used := 0\<rparr>) h;
        let h = (if x < lfree h then h\<lparr>lfree := x\<rparr> else h);
        plug_holes x h })"

text \<open>\<open>rt_memcpy\<close> and \<open>rt_memset\<close> on the data.\<close>

definition copy_data :: "u32 \<Rightarrow> u32 \<Rightarrow> u32 \<Rightarrow> heap \<Rightarrow> heap" where
  "copy_data dst src n h = h\<lparr>heap_data := \<lambda>a. if a - dst < n then heap_data h (src + (a - dst)) else heap_data h a\<rparr>"

definition zero_data :: "u32 \<Rightarrow> u32 \<Rightarrow> heap \<Rightarrow> heap" where
  "zero_data dst n h = h\<lparr>heap_data := \<lambda>a. if a - dst < n then 0 else heap_data h a\<rparr>"

definition rt_realloc :: "u32 \<Rightarrow> u32 \<Rightarrow> heap \<Rightarrow> (u32 \<times> heap) option" where
  "rt_realloc rmem newsize h =
     (let newsize = RT_ALIGN newsize in
      if newsize > mem_size_aligned h then Some (0, h)
      else if newsize = 0 then do { h \<leftarrow> rt_free rmem h; Some (0, h) }
      else if rmem = 0 then rt_malloc newsize h
      else if rmem < heap_ptr h \<or> rmem \<ge> heap_ptr h + heap_end h then Some (rmem, h)
      else do {
        let p = rmem - SIZEOF_STRUCT_MEM - heap_ptr h;
        m \<leftarrow> heap_hdr h p;
        let n = hm_next m - p - SIZEOF_STRUCT_MEM;
        if n = newsize then Some (rmem, h)
        else if newsize + SIZEOF_STRUCT_MEM + MIN_SIZE < n then do {
          let p2 = p + SIZEOF_STRUCT_MEM + newsize;
          let h = put_hdr p2 \<lparr>hm_magic = HEAP_MAGIC, hm_used = 0, hm_next = hm_next m, hm_prev = p\<rparr> h;
          h \<leftarrow> upd_hdr p (\<lambda>m. m\<lparr>hm_next := p2\<rparr>) h;
          h \<leftarrow> (if hm_next m \<noteq> mem_size_aligned h + SIZEOF_STRUCT_MEM
               then upd_hdr (hm_next m) (\<lambda>m. m\<lparr>hm_prev := p2\<rparr>) h else Some h);
          h \<leftarrow> plug_holes p2 h;
          Some (rmem, h) }
        else do {
          (nmem, h) \<leftarrow> rt_malloc newsize h;
          if nmem \<noteq> 0 then do {
            let h = copy_data nmem rmem (if n < newsize then n else newsize) h;
            h \<leftarrow> rt_free rmem h;
            Some (nmem, h) }
          else Some (nmem, h) } })"

definition rt_calloc :: "u32 \<Rightarrow> u32 \<Rightarrow> heap \<Rightarrow> (u32 \<times> heap) option" where
  "rt_calloc count n h = do {
     (p, h) \<leftarrow> rt_malloc (count * n) h;
     Some (p, if p \<noteq> 0 then zero_data p (count * n) h else h) }"

end
