(* ===== verification/RttHeap.thy ===== *)
theory RttHeap
  imports RttMem
begin

text \<open>
  What the allocator of \<open>RttMem\<close> keeps and does.  \<open>heap_inv h bs\<close>: the blocks of the heap start at
  the offsets \<open>bs\<close>, they follow each other without gap or overlap from 0 to \<open>heap_end\<close>, the headers
  link them in both directions, no two neighbours are free, and \<open>lfree\<close> is a free block or \<open>heap_end\<close>.
\<close>

section \<open>Alignment\<close>

definition aligned :: "u32 \<Rightarrow> bool" where
  "aligned a \<longleftrightarrow> 4 dvd unat a"

lemma mask2: "(4 - 1 :: u32) = mask 2" "(3 :: u32) = mask 2"
  by (simp_all add: mask_eq_exp_minus_1)

lemma unat_take2: "unat (take_bit 2 a :: u32) = unat a mod 4"
  unfolding unsigned_take_bit_eq by (simp add: take_bit_eq_mod)

lemma aligned_and: "a AND (4 - 1) = 0 \<longleftrightarrow> aligned a"
proof -
  have "a AND mask 2 = 0 \<longleftrightarrow> unat a mod 4 = 0"
    by (metis unat_take2 take_bit_eq_mask unat_eq_zero)
  then show ?thesis unfolding mask2 aligned_def by (simp add: dvd_eq_mod_eq_0)
qed

lemma aligned_mod: "a mod 4 = 0 \<longleftrightarrow> aligned a"
proof -
  have "unat (a mod 4) = unat a mod 4" by (simp add: unat_mod)
  then show ?thesis unfolding aligned_def by (metis dvd_eq_mod_eq_0 unat_eq_zero)
qed

lemma unat_align_down: "unat (RT_ALIGN_DOWN a) = unat a div 4 * 4"
proof -
  have "RT_ALIGN_DOWN a = push_bit 2 (drop_bit 2 a)"
    unfolding RT_ALIGN_DOWN_def mask2 by (rule bit_word_eqI) (auto simp: bit_simps not_less simp flip: Suc_diff_le)
  also have "\<dots> = a - take_bit 2 a" using bits_ident [of 2 a] by (simp add: eq_diff_eq)
  finally have "unat (RT_ALIGN_DOWN a) = unat a - unat a mod 4"
    by (simp add: unat_sub word_le_nat_alt unat_take2)
  then show ?thesis by (simp add: minus_mod_eq_div_mult)
qed

lemma unat_align: "unat a + 3 < 2 ^ 32 \<Longrightarrow> unat (RT_ALIGN a) = (unat a + 3) div 4 * 4"
proof -
  assume a: "unat a + 3 < 2 ^ 32"
  have "unat (a + 3) = unat a + 3" using a by (simp add: unat_word_ariths)
  moreover have "RT_ALIGN a = RT_ALIGN_DOWN (a + 3)" by (simp add: RT_ALIGN_def RT_ALIGN_DOWN_def add.commute)
  ultimately show ?thesis by (simp add: unat_align_down)
qed

section \<open>The list of blocks\<close>

definition block :: "(u32 \<rightharpoonup> heap_mem) \<Rightarrow> u32 \<Rightarrow> u32 \<Rightarrow> u32 \<Rightarrow> bool" where
  "block H q b c \<longleftrightarrow> (\<exists>m. H b = Some m \<and> hm_magic m = HEAP_MAGIC \<and> hm_prev m = q \<and> hm_next m = c)
     \<and> aligned b \<and> unat b + 16 \<le> unat c"

fun chain :: "(u32 \<rightharpoonup> heap_mem) \<Rightarrow> u32 \<Rightarrow> u32 list \<Rightarrow> u32 \<Rightarrow> bool" where
  "chain H q [] e \<longleftrightarrow> True"
| "chain H q (b # bs) e \<longleftrightarrow> block H q b (hd (bs @ [e])) \<and> chain H b bs e"

definition free_at :: "(u32 \<rightharpoonup> heap_mem) \<Rightarrow> u32 \<Rightarrow> bool" where
  "free_at H b \<longleftrightarrow> (\<exists>m. H b = Some m \<and> hm_used m = 0)"

text \<open>The bytes that the block at \<open>b\<close> has for data.\<close>

definition room :: "(u32 \<rightharpoonup> heap_mem) \<Rightarrow> u32 \<Rightarrow> nat" where
  "room H b = (case H b of None \<Rightarrow> 0 | Some m \<Rightarrow> unat (hm_next m) - (unat b + 12))"

lemma block_room: "block H q b c \<Longrightarrow> room H b = unat c - (unat b + 12)"
  by (auto simp: block_def room_def)

lemma chain_append: "chain H q (xs @ ys) e \<longleftrightarrow> chain H q xs (hd (ys @ [e])) \<and> chain H (last (q # xs)) ys e"
proof (induction xs arbitrary: q)
  case (Cons x xs)
  have "hd ((xs @ ys) @ [e]) = hd (xs @ [hd (ys @ [e])])" by (cases xs; cases ys) simp_all
  then show ?case using Cons by simp
qed simp

lemma chain_cong: "(\<And>b. b \<in> set bs \<Longrightarrow> H' b = H b) \<Longrightarrow> chain H' q bs e = chain H q bs e"
  by (induction bs arbitrary: q) (simp_all add: block_def)

lemma chain_all_less: "chain H q bs e \<Longrightarrow> \<forall>b\<in>set bs. unat b + 16 \<le> unat e"
proof (induction bs arbitrary: q)
  case (Cons x xs)
  have i: "\<forall>b\<in>set xs. unat b + 16 \<le> unat e" using Cons.IH [of x] Cons.prems by simp
  have x: "unat x + 16 \<le> unat (hd (xs @ [e]))" using Cons.prems by (simp add: block_def)
  have "unat (hd (xs @ [e])) \<le> unat e" using i by (cases xs) auto
  then show ?case using i x by simp
qed simp

lemma chain_less: "chain H q bs e \<Longrightarrow> b \<in> set bs \<Longrightarrow> unat b + 16 \<le> unat e"
  using chain_all_less by blast

text \<open>The blocks lie in ascending order, each beyond the data of the one before.\<close>

lemma chain_ascending: "chain H q (xs @ ys) e \<Longrightarrow> x \<in> set xs \<Longrightarrow> y \<in> set ys \<Longrightarrow> unat x + 16 \<le> unat y"
proof -
  assume c: "chain H q (xs @ ys) e" and x: "x \<in> set xs" and y: "y \<in> set ys"
  obtain us vs where ys: "ys = us @ y # vs" using y by (auto simp: in_set_conv_decomp)
  have "chain H q ((xs @ us) @ (y # vs)) e" using c ys by simp
  then have "chain H q (xs @ us) y" unfolding chain_append [of H q "xs @ us"] by simp
  then show "unat x + 16 \<le> unat y" by (rule chain_less) (use x in simp)
qed

lemma chain_distinct: "chain H q bs e \<Longrightarrow> distinct bs"
proof (induction bs arbitrary: q)
  case (Cons x xs)
  have "x \<notin> set xs" using chain_ascending [of H q "[x]" xs e] Cons.prems by force
  then show ?case using Cons by auto
qed simp

lemma chain_block:
  assumes "chain H q bs e" "b \<in> set bs"
  obtains p c where "block H p b c" "c \<in> insert e (set bs)" "p \<in> insert q (set bs)" "unat c \<le> unat e"
    "\<forall>x\<in>set bs. unat x \<le> unat b \<or> unat c \<le> unat x"
proof -
  obtain us vs where bs: "bs = us @ b # vs" using assms(2) by (auto simp: in_set_conv_decomp)
  have c: "chain H q us b" "block H (last (q # us)) b (hd (vs @ [e]))" "chain H b vs e"
    using assms(1) unfolding bs chain_append by simp_all
  have "hd (vs @ [e]) \<in> insert e (set bs)" using bs by (cases vs) auto
  moreover have "last (q # us) \<in> insert q (set bs)" using bs by (cases us rule: rev_cases) auto
  moreover have "unat (hd (vs @ [e])) \<le> unat e" using chain_less [OF c(3), of "hd vs"] by (cases vs) auto
  moreover have "unat x \<le> unat b \<or> unat (hd (vs @ [e])) \<le> unat x" if "x \<in> set bs" for x
  proof -
    have "x \<in> set us \<Longrightarrow> unat x + 16 \<le> unat b" using chain_less [OF c(1)] by simp
    moreover have "unat (hd (vs @ [e])) \<le> unat x" if "x \<in> set vs"
    proof (cases vs)
      case (Cons y ys)
      then have "unat y + 16 \<le> unat x" if "x \<in> set ys"
        using that chain_ascending [of H b "[y]" ys e y x] c(3) by simp
      then show ?thesis using that Cons by auto
    qed (use that in simp)
    ultimately show ?thesis using \<open>x \<in> set bs\<close> bs by auto
  qed
  ultimately show thesis using that c(2) by blast
qed

text \<open>A link back is changed.\<close>

lemma chain_relink:
  assumes "chain H b ys e" "ys \<noteq> []" "H (hd ys) = Some m"
  shows "chain (H(hd ys \<mapsto> m\<lparr>hm_prev := q\<rparr>)) q ys e"
proof -
  obtain y zs where ys: "ys = y # zs" using assms(2) by (cases ys) auto
  have n: "y \<notin> set zs" using chain_distinct [OF assms(1)] ys by simp
  have "chain (H(y \<mapsto> m\<lparr>hm_prev := q\<rparr>)) y zs e = chain H y zs e" by (rule chain_cong) (use n in auto)
  then show ?thesis using assms(1,3) ys by (auto simp: block_def)
qed

text \<open>What the other blocks see of a header: whether it is used, and where the next one is.\<close>

definition view :: "(u32 \<rightharpoonup> heap_mem) \<Rightarrow> u32 \<Rightarrow> (u16 \<times> u32) option" where
  "view H b = map_option (\<lambda>m. (hm_used m, hm_next m)) (H b)"

lemma view_free: "view H' b = view H b \<Longrightarrow> free_at H' b = free_at H b"
  by (cases "H' b"; cases "H b") (auto simp: view_def free_at_def)

lemma view_room: "view H' b = view H b \<Longrightarrow> room H' b = room H b"
  by (auto simp: view_def room_def split: option.splits)

lemma between_not_in:
  assumes "chain H q (xs @ b # ys) e" "unat b < unat x" "unat x < unat (hd (ys @ [e]))"
  shows "x \<notin> set (xs @ b # ys)" "x \<noteq> e"
proof -
  have c: "chain H q xs b" "chain H b ys e" using assms(1) by (simp_all add: chain_append)
  have "unat u + 16 \<le> unat b" if "u \<in> set xs" for u using chain_less [OF c(1) that] .
  moreover have "unat (hd (ys @ [e])) \<le> unat u" if "u \<in> set ys" for u
  proof (cases ys)
    case (Cons y zs)
    then have "u \<in> set zs \<Longrightarrow> unat y + 16 \<le> unat u" using chain_ascending [of H b "[y]" zs e y u] c(2) by simp
    then show ?thesis using that Cons by auto
  qed (use that in simp)
  ultimately show "x \<notin> set (xs @ b # ys)" using assms(2,3) by fastforce
  have "unat (hd (ys @ [e])) \<le> unat e" using chain_less [OF c(2), of "hd ys"] by (cases ys) auto
  then show "x \<noteq> e" using assms(3) by auto
qed

lemma after_end: "chain H q ys e \<Longrightarrow> hd (ys @ [e]) \<noteq> e \<longleftrightarrow> ys \<noteq> []"
  using chain_less [of H q ys e "hd ys"] by (cases ys) auto

text \<open>The block at \<open>b\<close> is cut at \<open>b2\<close>.\<close>

lemma split_chain:
  assumes "chain H q (xs @ b # ys) e" "H b = Some m" "c = hd (ys @ [e])" "H c = Some mc"
    and "aligned b2" "unat b + 16 \<le> unat b2" "unat b2 + 16 \<le> unat c"
    and "hm_magic m' = HEAP_MAGIC" "hm_prev m' = hm_prev m" "hm_next m' = b2"
    and "hm_magic m2 = HEAP_MAGIC" "hm_prev m2 = b" "hm_next m2 = c"
    and "H' = (let H1 = H(b2 \<mapsto> m2, b \<mapsto> m') in if c \<noteq> e then H1(c \<mapsto> mc\<lparr>hm_prev := b2\<rparr>) else H1)"
  shows "chain H' q (xs @ b # b2 # ys) e" "\<forall>x\<in>insert e (set (xs @ ys)). view H' x = view H x"
    "H' b = Some m'" "H' b2 = Some m2"
proof -
  have c: "chain H q xs b" "block H (last (q # xs)) b c" "chain H b ys e"
    using assms(1,3) by (simp_all add: chain_append)
  note n = between_not_in [OF assms(1), of b2]
  have n2: "b2 \<notin> set xs" "b2 \<notin> set ys" "b2 \<noteq> b" "b2 \<noteq> e" "b2 \<noteq> c" using n assms(3,6,7) by auto
  have "distinct (xs @ b # ys)" by (rule chain_distinct [OF assms(1)])
  then have d: "b \<notin> set xs" "b \<notin> set ys" "set xs \<inter> set ys = {}" by auto
  have be: "b \<noteq> e" "\<forall>x\<in>set xs. x \<noteq> e" using chain_less [OF assms(1)] by fastforce+
  have ce: "c \<noteq> e \<longleftrightarrow> ys \<noteq> []" using after_end [OF c(3)] assms(3) by simp
  have cx: "c \<notin> set xs" "c \<noteq> b" using d be assms(3) by (cases ys; auto)+
  show b: "H' b = Some m'" "H' b2 = Some m2" using assms(14) n2 cx by (simp_all add: Let_def)
  have "chain H' q xs b = chain H q xs b"
    by (rule chain_cong) (use assms(14) n2 d cx in \<open>auto simp: Let_def\<close>)
  moreover have "block H' (last (q # xs)) b b2"
    using c(2) assms(2,6,8-10) b(1) by (auto simp: block_def)
  moreover have "block H' b b2 c" using assms(5,7,11-13) b(2) by (simp add: block_def)
  moreover have "chain H' b2 ys e"
  proof (cases "ys = []")
    case False
    have h: "hd ys = c" using False assms(3) by simp
    have "H (hd ys) = Some mc" using h assms(4) by simp
    then have "chain (H(c \<mapsto> mc\<lparr>hm_prev := b2\<rparr>)) b2 ys e" using chain_relink [OF c(3) False] h by simp
    moreover have "chain H' b2 ys e = chain (H(c \<mapsto> mc\<lparr>hm_prev := b2\<rparr>)) b2 ys e"
      by (rule chain_cong) (use assms(14) n2 d ce False in \<open>auto simp: Let_def\<close>)
    ultimately show ?thesis by simp
  qed simp
  ultimately show "chain H' q (xs @ b # b2 # ys) e" using c(1) assms(3) by (simp add: chain_append)
  show "\<forall>x\<in>insert e (set (xs @ ys)). view H' x = view H x"
    using assms(4,14) n2 d be by (auto simp: view_def Let_def)
qed

text \<open>The block at \<open>y\<close> behind \<open>b\<close> is joined to \<open>b\<close>.\<close>

lemma join_chain:
  assumes "chain H q (xs @ b # y # zs) e" "H b = Some m" "H y = Some my" "c = hd (zs @ [e])"
    and "m' = m\<lparr>hm_next := c\<rparr>" "H c = Some mc" "H' = H(b \<mapsto> m', c \<mapsto> mc\<lparr>hm_prev := b\<rparr>)"
  shows "chain H' q (xs @ b # zs) e" "\<forall>x\<in>insert e (set (xs @ zs)). view H' x = view H x" "H' b = Some m'" "hm_next my = c"
    "unat b + 16 \<le> unat y" "unat y + 16 \<le> unat c"
proof -
  have c: "chain H q xs b" "block H (last (q # xs)) b y" "block H b y c" "chain H y zs e"
    using assms(1,4) by (simp_all add: chain_append)
  have "distinct (xs @ b # y # zs)" by (rule chain_distinct [OF assms(1)])
  then have d: "b \<notin> set xs" "b \<notin> set zs" "set xs \<inter> set zs = {}" "y \<notin> set xs" "y \<notin> set zs" "b \<noteq> y" by auto
  have be: "b \<noteq> e" "\<forall>x\<in>set xs. x \<noteq> e" using chain_less [OF assms(1)] by fastforce+
  have cx: "c \<notin> set xs" "c \<noteq> b" using d be assms(4) by (cases zs; auto)+
  show nx: "hm_next my = c" using c(3) assms(3) by (auto simp: block_def)
  show bd: "unat b + 16 \<le> unat y" "unat y + 16 \<le> unat c" using c(2,3) by (simp_all add: block_def)
  show b: "H' b = Some m'" using assms(7) cx by simp
  have "chain H' q xs b = chain H q xs b"
    by (rule chain_cong) (use assms(7) d cx in auto)
  moreover have "block H' (last (q # xs)) b c" using c(2) bd assms(2,5) b by (auto simp: block_def)
  moreover have "chain H' b zs e"
  proof (cases "zs = []")
    case False
    have h: "hd zs = c" using False assms(4) by simp
    have "H (hd zs) = Some mc" using h assms(6) by simp
    then have "chain (H(c \<mapsto> mc\<lparr>hm_prev := b\<rparr>)) b zs e" using chain_relink [OF c(4) False] h by simp
    moreover have "chain H' b zs e = chain (H(c \<mapsto> mc\<lparr>hm_prev := b\<rparr>)) b zs e"
      by (rule chain_cong) (use assms(7) d in auto)
    ultimately show ?thesis by simp
  qed simp
  ultimately show "chain H' q (xs @ b # zs) e" using c(1) assms(4) by (simp add: chain_append)
  show "\<forall>x\<in>insert e (set (xs @ zs)). view H' x = view H x"
    using assms(6,7) d be by (auto simp: view_def)
qed

section \<open>The heap\<close>

definition area_ok :: "heap \<Rightarrow> bool" where
  "area_ok h \<longleftrightarrow> 0 < unat (heap_ptr h) \<and> aligned (heap_ptr h) \<and> aligned (mem_size_aligned h)
     \<and> 12 \<le> unat (mem_size_aligned h) \<and> unat (heap_ptr h) + unat (mem_size_aligned h) + 24 < 2 ^ 32"

definition blocks_ok :: "heap \<Rightarrow> u32 list \<Rightarrow> bool" where
  "blocks_ok h bs \<longleftrightarrow> area_ok h \<and> bs \<noteq> [] \<and> hd bs = 0 \<and> chain (heap_hdr h) 0 bs (heap_end h)
     \<and> (\<exists>m. heap_hdr h (heap_end h) = Some m \<and> hm_used m \<noteq> 0 \<and> hm_next m = heap_end h)"

abbreviation (input) "used_at H b \<equiv> \<not> free_at H b"

definition no_free_pair :: "(u32 \<rightharpoonup> heap_mem) \<Rightarrow> u32 list \<Rightarrow> bool" where
  "no_free_pair H bs \<longleftrightarrow> successively (\<lambda>a b. used_at H a \<or> used_at H b) bs"

definition live :: "heap \<Rightarrow> u32 list \<Rightarrow> u32 set" where
  "live h bs = {b \<in> set bs. used_at (heap_hdr h) b}"

definition lfree_ok :: "heap \<Rightarrow> u32 list \<Rightarrow> bool" where
  "lfree_ok h bs \<longleftrightarrow> (if lfree h = heap_end h then live h bs \<noteq> {}
     else lfree h \<in> set bs \<and> free_at (heap_hdr h) (lfree h))"

definition heap_inv :: "heap \<Rightarrow> u32 list \<Rightarrow> bool" where
  "heap_inv h bs \<longleftrightarrow> blocks_ok h bs \<and> no_free_pair (heap_hdr h) bs \<and> lfree_ok h bs"

text \<open>No free block lies below \<open>lfree\<close>.\<close>

definition heap_low :: "heap \<Rightarrow> u32 list \<Rightarrow> bool" where
  "heap_low h bs \<longleftrightarrow> (\<forall>b\<in>set bs. free_at (heap_hdr h) b \<longrightarrow> lfree h \<le> b)"

definition same_area :: "heap \<Rightarrow> heap \<Rightarrow> bool" where
  "same_area h h' \<longleftrightarrow> heap_ptr h' = heap_ptr h \<and> mem_size_aligned h' = mem_size_aligned h"

lemma same_area_end: "same_area h h' \<Longrightarrow> heap_end h' = heap_end h"
  by (simp add: same_area_def heap_end_def)

lemma area_ok_cong: "same_area h h' \<Longrightarrow> area_ok h' = area_ok h"
  by (simp add: same_area_def area_ok_def)

lemma unat_end: "area_ok h \<Longrightarrow> unat (heap_end h) = unat (mem_size_aligned h) + 12"
  by (simp add: area_ok_def heap_end_def unat_word_ariths)

lemma used_end: "blocks_ok h bs \<Longrightarrow> used_at (heap_hdr h) (heap_end h)"
  by (auto simp: blocks_ok_def free_at_def)

lemma no_free_pair_cong:
  "(\<And>b. b \<in> set bs \<Longrightarrow> free_at H' b = free_at H b) \<Longrightarrow> no_free_pair H' bs = no_free_pair H bs"
  unfolding no_free_pair_def by (rule successively_cong) auto

lemma blocks_header: "blocks_ok h bs \<Longrightarrow> b \<in> insert (heap_end h) (set bs) \<Longrightarrow> \<exists>m. heap_hdr h b = Some m"
  unfolding blocks_ok_def by (metis block_def chain_block insert_iff)

lemma blocks_split:
  assumes "blocks_ok h (xs @ b # ys)"
  obtains m mc where "heap_hdr h b = Some m" "hm_next m = hd (ys @ [heap_end h])" "hm_prev m = last (0 # xs)"
    "heap_hdr h (hm_next m) = Some mc" "unat b + 16 \<le> unat (hm_next m)" "unat (hm_next m) \<le> unat (heap_end h)"
    "aligned b" "hm_magic m = HEAP_MAGIC"
proof -
  let ?c = "hd (ys @ [heap_end h])"
  have c: "chain (heap_hdr h) 0 (xs @ b # ys) (heap_end h)" using assms by (simp add: blocks_ok_def)
  then have b: "block (heap_hdr h) (last (0 # xs)) b ?c" "chain (heap_hdr h) b ys (heap_end h)"
    by (simp_all add: chain_append)
  obtain m where m: "heap_hdr h b = Some m" "hm_magic m = HEAP_MAGIC" "hm_prev m = last (0 # xs)" "hm_next m = ?c"
    using b(1) by (auto simp: block_def)
  have i: "?c \<in> insert (heap_end h) (set (xs @ b # ys))" by (cases ys) auto
  obtain mc where mc: "heap_hdr h ?c = Some mc" using blocks_header [OF assms i] by auto
  have e: "unat ?c \<le> unat (heap_end h)" using chain_less [OF b(2), of "hd ys"] by (cases ys) auto
  show thesis by (rule that [of m mc]) (use m mc e b(1) in \<open>auto simp: block_def\<close>)
qed

end
