(* ===== verification/RttHeapOps.thy ===== *)
theory RttHeapOps
  imports RttHeap
begin

text \<open>Each operation of \<open>RttMem\<close> on a heap with the invariant of \<open>RttHeap\<close>.\<close>

section \<open>Allocation\<close>

lemma unat_plus: "unat a + unat b < 2 ^ 32 \<Longrightarrow> unat (a + b :: u32) = unat a + unat b"
  by (simp add: unat_word_ariths)

lemma unat_plus_12: "unat b + 16 \<le> unat (c :: u32) \<Longrightarrow> unat (b + 12 :: u32) = unat b + 12"
  using unsigned_less [of c, where ?'a = nat] by (simp add: unat_word_ariths)

lemma split_at:
  assumes "chain H 0 bs e" "p \<in> insert e (set bs)"
  obtains xs ys where "bs = xs @ ys" "p = hd (ys @ [e])" "\<forall>x\<in>set xs. unat x < unat p" "\<forall>y\<in>set ys. unat p \<le> unat y"
proof (cases "p = e")
  case True
  then show thesis using that [of bs "[]"] chain_less [OF assms(1)] by force
next
  case False
  then obtain xs ys where bs: "bs = xs @ p # ys" using assms(2) by (auto simp: in_set_conv_decomp)
  have "unat x < unat p" if "x \<in> set xs" for x
    using chain_ascending [OF assms(1) [unfolded bs] that, of p] by simp
  moreover have "unat p \<le> unat y" if "y \<in> set ys" for y
    using chain_ascending [of H 0 "xs @ [p]" ys e p y] assms(1) bs that by simp
  ultimately show thesis using that [of xs "p # ys"] bs by auto
qed

lemma malloc_find_total:
  assumes "blocks_ok h (xs @ ys)" "unat n \<le> unat (mem_size_aligned h)"
  shows "\<exists>r. malloc_find n (hd (ys @ [heap_end h])) h = Some r \<and>
    (case r of
       None \<Rightarrow> \<forall>b\<in>set ys. \<not> (free_at (heap_hdr h) b \<and> unat n \<le> room (heap_hdr h) b \<and> unat b + unat n < unat (mem_size_aligned h))
     | Some b \<Rightarrow> b \<in> set ys \<and> free_at (heap_hdr h) b \<and> unat n \<le> room (heap_hdr h) b \<and> unat b + unat n < unat (mem_size_aligned h))"
  using assms(1)
proof (induction ys arbitrary: xs)
  case Nil
  have "unat (mem_size_aligned h - n) \<le> unat (heap_end h)"
    using assms(2) unat_end Nil.prems by (simp add: blocks_ok_def unat_sub word_le_nat_alt)
  then show ?case by (subst malloc_find.simps) (simp add: word_less_nat_alt)
next
  case (Cons y ys)
  have ok: "blocks_ok h ((xs @ [y]) @ ys)" using Cons.prems by simp
  obtain m mc where m: "heap_hdr h y = Some m" "hm_next m = hd (ys @ [heap_end h])" "hm_prev m = last (0 # xs)"
    "heap_hdr h (hm_next m) = Some mc" "unat y + 16 \<le> unat (hm_next m)" "unat (hm_next m) \<le> unat (heap_end h)"
    "aligned y" "hm_magic m = HEAP_MAGIC"
    using Cons.prems by (rule blocks_split)
  have c: "chain (heap_hdr h) 0 (xs @ y # ys) (heap_end h)" using Cons.prems by (simp add: blocks_ok_def)
  have e: "unat (heap_end h) = unat (mem_size_aligned h) + 12" using Cons.prems by (simp add: blocks_ok_def unat_end)
  have lim: "y < mem_size_aligned h - n \<longleftrightarrow> unat y + unat n < unat (mem_size_aligned h)"
    using assms(2) by (auto simp: word_less_nat_alt unat_sub word_le_nat_alt)
  have r: "n \<le> hm_next m - (y + SIZEOF_STRUCT_MEM) \<longleftrightarrow> unat n \<le> room (heap_hdr h) y"
  proof -
    have "unat (y + 12) = unat y + 12" by (rule unat_plus_12 [OF m(5)])
    then show ?thesis using m(1,5) by (simp add: room_def word_le_nat_alt unat_sub)
  qed
  have asc: "unat y < unat z" if "z \<in> set ys" for z
    using chain_ascending [of "heap_hdr h" 0 "xs @ [y]" ys "heap_end h" y z] c that by simp
  show ?case
  proof (cases "y < mem_size_aligned h - n")
    case False
    have "malloc_find n y h = Some None" using False by (subst malloc_find.simps) simp
    moreover have "\<not> unat b + unat n < unat (mem_size_aligned h)" if "b \<in> set (y # ys)" for b
      using False lim asc that by fastforce
    ultimately show ?thesis by (auto intro!: exI [of _ None])
  next
    case True
    show ?thesis
    proof (cases "free_at (heap_hdr h) y \<and> unat n \<le> room (heap_hdr h) y")
      case fit: True
      then have "malloc_find n y h = Some (Some y)"
        using True m(1) r by (subst malloc_find.simps) (simp add: free_at_def)
      then show ?thesis using fit True lim by (auto intro!: exI [of _ "Some y"])
    next
      case no: False
      have "malloc_find n y h = malloc_find n (hm_next m) h"
        using True m(1) r no by (subst malloc_find.simps) (auto simp: free_at_def)
      then show ?thesis using Cons.IH [OF ok] m(2) no by (auto split: option.splits)
    qed
  qed
qed

lemma next_free_total:
  assumes "blocks_ok h (xs @ ys)" "lfree h = hd (ys @ [heap_end h])"
  shows "\<exists>l. next_free h = Some (h\<lparr>lfree := l\<rparr>) \<and> (\<forall>b\<in>set ys. free_at (heap_hdr h) b \<longrightarrow> l \<le> b)
    \<and> (if l = heap_end h then \<forall>b\<in>set ys. used_at (heap_hdr h) b else l \<in> set ys \<and> free_at (heap_hdr h) l)"
  using assms
proof (induction ys arbitrary: xs h)
  case Nil
  obtain m where "heap_hdr h (heap_end h) = Some m" using Nil.prems(1) by (auto simp: blocks_ok_def)
  moreover have "h\<lparr>lfree := heap_end h\<rparr> = h" using Nil.prems(2) by simp
  ultimately show ?case using Nil.prems(2) by (subst next_free.simps) (auto intro!: exI [of _ "heap_end h"])
next
  case (Cons y ys)
  let ?h = "h\<lparr>lfree := hd (ys @ [heap_end h])\<rparr>"
  obtain m mc where m: "heap_hdr h y = Some m" "hm_next m = hd (ys @ [heap_end h])" "hm_prev m = last (0 # xs)"
    "heap_hdr h (hm_next m) = Some mc" "unat y + 16 \<le> unat (hm_next m)" "unat (hm_next m) \<le> unat (heap_end h)"
    "aligned y" "hm_magic m = HEAP_MAGIC"
    using Cons.prems(1) by (rule blocks_split)
  have c: "chain (heap_hdr h) 0 (xs @ y # ys) (heap_end h)" using Cons.prems(1) by (simp add: blocks_ok_def)
  have asc: "unat y < unat z" if "z \<in> set ys" for z
    using chain_ascending [of "heap_hdr h" 0 "xs @ [y]" ys "heap_end h" y z] c that by simp
  have ne: "y \<noteq> heap_end h" using m(5,6) by auto
  show ?case
  proof (cases "free_at (heap_hdr h) y")
    case True
    have "next_free h = Some (h\<lparr>lfree := y\<rparr>)"
      using True m(1) Cons.prems(2) by (subst next_free.simps) (simp add: free_at_def)
    then show ?thesis using True ne asc by (auto simp: word_le_nat_alt less_imp_le intro!: exI [of _ y])
  next
    case False
    have step: "next_free h = next_free ?h"
      using False m(1,2) Cons.prems(2) ne by (subst next_free.simps) (simp add: free_at_def)
    have ok: "blocks_ok ?h ((xs @ [y]) @ ys)"
      using Cons.prems(1) by (simp add: blocks_ok_def area_ok_def heap_end_def)
    have "lfree ?h = hd (ys @ [heap_end ?h])" by (simp add: heap_end_def)
    have hh: "heap_hdr ?h = heap_hdr h" "heap_end ?h = heap_end h" "?h\<lparr>lfree := l\<rparr> = h\<lparr>lfree := l\<rparr>" for l
      by (simp_all add: heap_end_def)
    from Cons.IH [OF ok \<open>lfree ?h = hd (ys @ [heap_end ?h])\<close>] obtain l where l: "next_free h = Some (h\<lparr>lfree := l\<rparr>)"
      "\<forall>b\<in>set ys. free_at (heap_hdr h) b \<longrightarrow> l \<le> b"
      "if l = heap_end h then \<forall>b\<in>set ys. used_at (heap_hdr h) b else l \<in> set ys \<and> free_at (heap_hdr h) l"
      unfolding step hh by blast
    show ?thesis by (rule exI [of _ l]) (use l False in auto)
  qed
qed

text \<open>The block at \<open>b\<close> keeps \<open>n\<close> bytes of data; the rest becomes a free block.\<close>

definition cut :: "u32 \<Rightarrow> u32 \<Rightarrow> heap_mem \<Rightarrow> heap_mem \<Rightarrow> heap \<Rightarrow> heap option" where
  "cut b b2 m m' h =
     (let h = put_hdr b2 \<lparr>hm_magic = HEAP_MAGIC, hm_used = 0, hm_next = hm_next m, hm_prev = b\<rparr> h;
          h = put_hdr b m' h
      in if hm_next m \<noteq> heap_end h then upd_hdr (hm_next m) (\<lambda>m. m\<lparr>hm_prev := b2\<rparr>) h else Some h)"

lemma cut_block:
  assumes "blocks_ok h (xs @ b # ys)" "heap_hdr h b = Some m" "b2 = b + 12 + n" "aligned n" "4 \<le> unat n"
    and "unat n + 16 \<le> room (heap_hdr h) b"
    and "hm_magic m' = HEAP_MAGIC" "hm_prev m' = hm_prev m" "hm_next m' = b2"
  shows "\<exists>H. cut b b2 m m' h = Some (h\<lparr>heap_hdr := H\<rparr>) \<and> blocks_ok (h\<lparr>heap_hdr := H\<rparr>) (xs @ b # b2 # ys)
    \<and> (\<forall>x\<in>set (xs @ ys). view H x = view (heap_hdr h) x) \<and> H b = Some m'
    \<and> free_at H b2 \<and> unat b2 = unat b + 12 + unat n"
proof -
  obtain k mc where k: "heap_hdr h b = Some k" "hm_next k = hd (ys @ [heap_end h])" "hm_prev k = last (0 # xs)"
    "heap_hdr h (hm_next k) = Some mc" "unat b + 16 \<le> unat (hm_next k)" "unat (hm_next k) \<le> unat (heap_end h)"
    "aligned b" "hm_magic k = HEAP_MAGIC"
    using assms(1) by (rule blocks_split)
  have [simp]: "k = m" using k(1) assms(2) by simp
  define m2 where "m2 = \<lparr>hm_magic = HEAP_MAGIC, hm_used = 0, hm_next = hm_next m, hm_prev = b\<rparr>"
  define H where "H = (let H1 = (heap_hdr h)(b2 \<mapsto> m2, b \<mapsto> m') in
    if hm_next m \<noteq> heap_end h then H1(hm_next m \<mapsto> mc\<lparr>hm_prev := b2\<rparr>) else H1)"
  have r: "unat b + 12 + unat n + 16 \<le> unat (hm_next m)" using assms(2,6) k(5) by (simp add: room_def)
  have lim: "unat (hm_next m) < 2 ^ 32" using unsigned_less [of "hm_next m", where ?'a = nat] by simp
  have "unat (b + 12) = unat b + 12" using unat_plus_12 k(5) by simp
  then have b2: "unat b2 = unat b + 12 + unat n" using r lim assms(3) by (simp add: unat_plus)
  have al: "aligned b2" using k(7) assms(4) unfolding aligned_def b2 by simp
  have c: "chain (heap_hdr h) 0 (xs @ b # ys) (heap_end h)" using assms(1) by (simp add: blocks_ok_def)
  have hc: "hm_next m = hd (ys @ [heap_end h])" "heap_hdr h (hm_next m) = Some mc" using k by simp_all
  have lo: "unat b + 16 \<le> unat b2" "unat b2 + 16 \<le> unat (hm_next m)" using b2 r assms(5) by simp_all
  have f2: "hm_magic m2 = HEAP_MAGIC" "hm_prev m2 = b" "hm_next m2 = hm_next m" by (simp_all add: m2_def)
  note s = split_chain [OF c assms(2) hc al lo assms(7-9) f2 H_def]
  have n2: "b2 \<noteq> hm_next m" "b \<noteq> hm_next m" using lo by auto
  have e: "heap_end (h\<lparr>heap_hdr := H'\<rparr>) = heap_end h" for H' by (simp add: heap_end_def)
  have "cut b b2 m m' h = Some (h\<lparr>heap_hdr := H\<rparr>)"
    using n2 k(4) by (simp add: cut_def H_def m2_def e upd_hdr_def Let_def)
  moreover have "view H (heap_end h) = view (heap_hdr h) (heap_end h)" using s(2) by simp
  then have "\<exists>m. H (heap_end h) = Some m \<and> hm_used m \<noteq> 0 \<and> hm_next m = heap_end h"
    using assms(1) by (auto simp: view_def blocks_ok_def)
  then have "blocks_ok (h\<lparr>heap_hdr := H\<rparr>) (xs @ b # b2 # ys)"
    using s(1) assms(1) by (cases xs) (auto simp: blocks_ok_def e area_ok_def)
  moreover have "free_at H b2" using s(4) by (simp add: free_at_def m2_def)
  ultimately show ?thesis using s(2,3) b2 by auto
qed

lemma no_free_pair_view: "\<forall>x\<in>set bs. view H' x = view H x \<Longrightarrow> no_free_pair H' bs = no_free_pair H bs"
  by (rule no_free_pair_cong, rule view_free) blast

lemma no_free_pair_append:
  "no_free_pair H (xs @ b # ys) \<longleftrightarrow> no_free_pair H xs \<and> no_free_pair H ys
     \<and> (free_at H b \<longrightarrow> (xs \<noteq> [] \<longrightarrow> used_at H (last xs)) \<and> (ys \<noteq> [] \<longrightarrow> used_at H (hd ys)))"
  by (auto simp: no_free_pair_def successively_append_iff successively_Cons)

text \<open>The mark of a block as used or free.\<close>

lemma blocks_flag:
  fixes u :: u16
  assumes "blocks_ok h (xs @ p # ys)" "heap_hdr h p = Some m"
  defines "H \<equiv> (heap_hdr h)(p \<mapsto> m\<lparr>hm_used := u\<rparr>)"
  shows "blocks_ok (h\<lparr>heap_hdr := H\<rparr>) (xs @ p # ys)" "\<forall>x\<in>set (xs @ ys). view H x = view (heap_hdr h) x"
proof -
  have c: "chain (heap_hdr h) 0 (xs @ p # ys) (heap_end h)" using assms(1) by (simp add: blocks_ok_def)
  have d: "p \<notin> set xs" "p \<notin> set ys" "p \<noteq> heap_end h"
    using chain_distinct [OF c] chain_less [OF c, of p] by auto
  have bl: "block H q b e = block (heap_hdr h) q b e" for q b e
    using assms(2) by (auto simp: block_def H_def)
  have "chain H q bs e = chain (heap_hdr h) q bs e" for q bs e
    by (induction bs arbitrary: q) (simp_all add: bl)
  then show "blocks_ok (h\<lparr>heap_hdr := H\<rparr>) (xs @ p # ys)"
    using assms(1) d(3) by (auto simp: blocks_ok_def area_ok_def heap_end_def H_def)
  show "\<forall>x\<in>set (xs @ ys). view H x = view (heap_hdr h) x" using d by (auto simp: view_def H_def)
qed

text \<open>The block at \<open>p\<close> is handed out with \<open>n\<close> bytes; \<open>zs\<close> is the rest, if there is one.\<close>

definition taken :: "u32 \<Rightarrow> u32 \<Rightarrow> heap \<Rightarrow> u32 list \<Rightarrow> u32 list \<Rightarrow> (u32 \<rightharpoonup> heap_mem) \<Rightarrow> u32 list \<Rightarrow> bool" where
  "taken n p h xs ys H zs \<longleftrightarrow> malloc_take n p h = Some (h\<lparr>heap_hdr := H\<rparr>) \<and> blocks_ok (h\<lparr>heap_hdr := H\<rparr>) (xs @ p # zs @ ys)
    \<and> no_free_pair H (xs @ p # zs @ ys) \<and> (\<forall>x\<in>set (xs @ ys). view H x = view (heap_hdr h) x)
    \<and> (\<exists>m. H p = Some m \<and> hm_used m = 1 \<and> hm_magic m = HEAP_MAGIC) \<and> unat n \<le> room H p \<and> (\<forall>z\<in>set zs. free_at H z \<and> p \<le> z)"

lemma take_cut:
  assumes ok: "blocks_ok h (xs @ p # ys)" "no_free_pair (heap_hdr h) (xs @ p # ys)" "free_at (heap_hdr h) p"
    and n: "12 \<le> unat n" "aligned n" "unat n + 24 \<le> room (heap_hdr h) p"
    and m: "heap_hdr h p = Some m" "hm_magic m = HEAP_MAGIC" "n + 12 + 12 \<le> hm_next m - (p + 12)"
  shows "\<exists>H. taken n p h xs ys H [p + 12 + n]"
proof -
  define p2 where "p2 = p + 12 + n"
  define m' where "m' = m\<lparr>hm_used := 1, hm_next := p2\<rparr>"
  have pm: "hm_magic m' = HEAP_MAGIC" "hm_prev m' = hm_prev m" "hm_next m' = p2" using m(2) by (simp_all add: m'_def)
  have r4: "4 \<le> unat n" "unat n + 16 \<le> room (heap_hdr h) p" using n by simp_all
  obtain H where H: "cut p p2 m m' h = Some (h\<lparr>heap_hdr := H\<rparr>)" "blocks_ok (h\<lparr>heap_hdr := H\<rparr>) (xs @ p # p2 # ys)"
    "\<forall>x\<in>set (xs @ ys). view H x = view (heap_hdr h) x" "H p = Some m'" "free_at H p2" "unat p2 = unat p + 12 + unat n"
    using cut_block [OF ok(1) m(1) p2_def n(2) r4 pm] by blast
  have ne: "p \<noteq> p2" using H(6) by auto
  have "malloc_take n p h = cut p p2 m m' h"
    using m(1,3) ne unfolding p2_def
    by (simp add: malloc_take_def cut_def upd_hdr_def m'_def p2_def Let_def heap_end_def)
  moreover have "no_free_pair H (xs @ p # [p2] @ ys)"
  proof -
    have "no_free_pair H xs" "no_free_pair H ys"
      using ok(2) H(3) no_free_pair_view [of xs H "heap_hdr h"] no_free_pair_view [of ys H "heap_hdr h"]
      by (simp_all add: no_free_pair_append)
    moreover have "used_at H p" using H(4) by (simp add: free_at_def m'_def)
    moreover have "used_at H (hd ys)" if "ys \<noteq> []"
      using ok(2,3) H(3) that view_free [of H "hd ys" "heap_hdr h"] by (simp add: no_free_pair_append)
    ultimately show ?thesis using no_free_pair_append [of H "[]" p2 ys] no_free_pair_append [of H xs p "p2 # ys"]
      by (auto simp: no_free_pair_def)
  qed
  moreover have "unat n \<le> room H p" using H(4,6) by (simp add: room_def m'_def)
  ultimately show ?thesis using H pm(1)
    unfolding p2_def [symmetric] taken_def by (intro exI [of _ H]) (simp add: m'_def word_le_nat_alt)
qed

lemma take_whole:
  assumes ok: "blocks_ok h (xs @ p # ys)" "no_free_pair (heap_hdr h) (xs @ p # ys)" "unat n \<le> room (heap_hdr h) p"
    and m: "heap_hdr h p = Some m" "hm_magic m = HEAP_MAGIC" "\<not> n + 12 + 12 \<le> hm_next m - (p + 12)"
  shows "\<exists>H. taken n p h xs ys H []"
proof -
  define m' where "m' = m\<lparr>hm_used := 1\<rparr>"
  define H where "H = (heap_hdr h)(p \<mapsto> m')"
  have b: "blocks_ok (h\<lparr>heap_hdr := H\<rparr>) (xs @ p # ys)" and v: "\<forall>x\<in>set (xs @ ys). view H x = view (heap_hdr h) x"
    unfolding H_def m'_def by (rule blocks_flag [OF ok(1) m(1)])+
  have "no_free_pair H xs" "no_free_pair H ys"
    using ok(2) v no_free_pair_view [of xs H "heap_hdr h"] no_free_pair_view [of ys H "heap_hdr h"]
    by (simp_all add: no_free_pair_append)
  moreover have "used_at H p" by (simp add: free_at_def H_def m'_def)
  ultimately have "no_free_pair H (xs @ p # ys)" by (simp add: no_free_pair_append)
  moreover have "malloc_take n p h = Some (h\<lparr>heap_hdr := H\<rparr>)"
    using m(1,3) by (simp add: malloc_take_def upd_hdr_def H_def m'_def Let_def)
  moreover have "unat n \<le> room H p" using ok(3) m(1) by (simp add: room_def H_def m'_def)
  ultimately show ?thesis using b v m(2)
    unfolding taken_def by (intro exI [of _ H]) (simp add: H_def m'_def)
qed

lemma malloc_take_total:
  assumes "blocks_ok h (xs @ p # ys)" "no_free_pair (heap_hdr h) (xs @ p # ys)" "free_at (heap_hdr h) p"
    and "unat n \<le> room (heap_hdr h) p" "12 \<le> unat n" "aligned n"
  shows "\<exists>H zs. taken n p h xs ys H zs"
proof -
  obtain m mc where m: "heap_hdr h p = Some m" "hm_next m = hd (ys @ [heap_end h])" "hm_prev m = last (0 # xs)"
    "heap_hdr h (hm_next m) = Some mc" "unat p + 16 \<le> unat (hm_next m)" "unat (hm_next m) \<le> unat (heap_end h)"
    "aligned p" "hm_magic m = HEAP_MAGIC"
    using assms(1) by (rule blocks_split)
  have u: "room (heap_hdr h) p = unat (hm_next m - (p + 12))"
    using m(1,5) unat_plus_12 [OF m(5)] by (simp add: room_def unat_sub word_le_nat_alt)
  show ?thesis
  proof (cases "n + 12 + 12 \<le> hm_next m - (p + 12)")
    case True
    have a: "area_ok h" using assms(1) by (simp add: blocks_ok_def)
    have "room (heap_hdr h) p \<le> unat (mem_size_aligned h)" using m(1,6) unat_end [OF a] by (simp add: room_def)
    then have lim: "room (heap_hdr h) p + 24 < 2 ^ 32" using a unfolding area_ok_def by linarith
    then have "unat (n + 12 + 12) = unat n + 24" using assms(4) by (simp add: unat_word_ariths)
    then have r: "unat n + 24 \<le> room (heap_hdr h) p" using True u by (simp add: word_le_nat_alt)
    show ?thesis using take_cut [OF assms(1-3,5,6) r m(1,8) True] by blast
  next
    case False
    show ?thesis using take_whole [OF assms(1,2,4) m(1,8) False] by blast
  qed
qed

text \<open>The size of the block that a request for \<open>n\<close> bytes takes.\<close>

definition need :: "u32 \<Rightarrow> nat" where
  "need n = max 12 ((unat n + 3) div 4 * 4)"

definition fits :: "heap \<Rightarrow> u32 list \<Rightarrow> nat \<Rightarrow> bool" where
  "fits h bs k \<longleftrightarrow> (\<exists>b\<in>set bs. free_at (heap_hdr h) b \<and> k \<le> room (heap_hdr h) b \<and> unat b + k < unat (mem_size_aligned h))"

text \<open>An operation that moves to the blocks \<open>bs'\<close> and touches no live block outside \<open>X\<close>.\<close>

definition serves :: "heap \<Rightarrow> u32 list \<Rightarrow> heap \<Rightarrow> u32 list \<Rightarrow> u32 set \<Rightarrow> bool" where
  "serves h bs h' bs' X \<longleftrightarrow> heap_inv h' bs' \<and> same_area h h' \<and> heap_data h' = heap_data h
     \<and> live h' bs' - X = live h bs - X \<and> (\<forall>b\<in>live h bs - X. room (heap_hdr h') b = room (heap_hdr h) b)"

definition addr :: "heap \<Rightarrow> u32 \<Rightarrow> u32" where
  "addr h b = heap_ptr h + b + 12"

lemma need_ge: "12 \<le> need n" "unat n \<le> need n"
  by (auto simp: need_def)

lemma unat_addr:
  assumes "blocks_ok h bs" "b \<in> set bs"
  shows "unat (addr h b) = unat (heap_ptr h) + unat b + 12"
proof -
  have a: "area_ok h" and c: "chain (heap_hdr h) 0 bs (heap_end h)" using assms(1) by (simp_all add: blocks_ok_def)
  have "unat b + 16 \<le> unat (mem_size_aligned h) + 12" using chain_less [OF c assms(2)] unat_end [OF a] by simp
  then have l: "unat (heap_ptr h) + unat b + 12 < 2 ^ 32" using a unfolding area_ok_def by linarith
  then have "unat (heap_ptr h + b) = unat (heap_ptr h) + unat b" by (simp add: unat_plus)
  then show ?thesis using l by (simp add: addr_def unat_plus)
qed

lemma live_edit:
  assumes "\<forall>x\<in>set (xs @ ys). view H x = view (heap_hdr h) x" "\<forall>z\<in>set zs. free_at H z" "used_at H p" "free_at (heap_hdr h) p"
  shows "live (h\<lparr>heap_hdr := H\<rparr>) (xs @ p # zs @ ys) = insert p (live h (xs @ p # ys))"
proof -
  have "free_at H x = free_at (heap_hdr h) x" if "x \<in> set (xs @ ys)" for x by (rule view_free) (use assms(1) that in blast)
  then show ?thesis using assms(2-4) by (auto simp: live_def)
qed

lemma serves_take:
  assumes inv: "heap_inv h bs" and bs: "bs = xs @ p # ys" "free_at (heap_hdr h) p"
    and ok: "blocks_ok (h\<lparr>heap_hdr := H\<rparr>) (xs @ p # zs @ ys)" "no_free_pair H (xs @ p # zs @ ys)"
    and v: "\<forall>x\<in>set (xs @ ys). view H x = view (heap_hdr h) x" "used_at H p" "\<forall>z\<in>set zs. free_at H z \<and> p \<le> z"
    and l: "if p = lfree h then (\<forall>b\<in>set (p # zs @ ys). free_at H b \<longrightarrow> l \<le> b) \<and>
        (l \<noteq> heap_end h \<longrightarrow> l \<in> set (p # zs @ ys) \<and> free_at H l) else l = lfree h" "lfree h \<noteq> heap_end h"
  shows "serves h bs (h\<lparr>heap_hdr := H, lfree := l\<rparr>) (xs @ p # zs @ ys) {p}"
    "heap_low h bs \<Longrightarrow> lfree h \<le> p \<Longrightarrow> heap_low (h\<lparr>heap_hdr := H, lfree := l\<rparr>) (xs @ p # zs @ ys)"
    "live (h\<lparr>heap_hdr := H, lfree := l\<rparr>) (xs @ p # zs @ ys) = insert p (live h bs)"
proof -
  let ?h = "h\<lparr>heap_hdr := H, lfree := l\<rparr>" and ?bs = "xs @ p # zs @ ys"
  have same: "blocks_ok ?h ?bs = blocks_ok (h\<lparr>heap_hdr := H\<rparr>) ?bs" "live ?h ?bs = live (h\<lparr>heap_hdr := H\<rparr>) ?bs"
    by (simp_all add: blocks_ok_def area_ok_def heap_end_def live_def)
  have fr: "free_at H x = free_at (heap_hdr h) x" "room H x = room (heap_hdr h) x" if "x \<in> set (xs @ ys)" for x
    using view_free view_room v(1) that by blast+
  show lv: "live ?h ?bs = insert p (live h bs)" unfolding same(2) bs(1) by (rule live_edit) (use v bs in auto)
  have lk: "lfree h \<in> set bs" "free_at (heap_hdr h) (lfree h)" using inv l(2) by (simp_all add: heap_inv_def lfree_ok_def)
  have "lfree_ok ?h ?bs"
  proof (cases "p = lfree h")
    case True then show ?thesis using l(1) lv by (auto simp: lfree_ok_def heap_end_def)
  next
    case False
    then have "lfree h \<in> set (xs @ ys)" "l = lfree h" using lk bs(1) l(1) by auto
    then show ?thesis using fr lk(2) l(2) by (auto simp: lfree_ok_def heap_end_def)
  qed
  then have "heap_inv ?h ?bs" using same(1) ok by (simp add: heap_inv_def)
  moreover have "room H x = room (heap_hdr h) x" if "x \<in> live h bs - {p}" for x
    using that fr(2) bs(1) by (auto simp: live_def)
  ultimately show "serves h bs ?h ?bs {p}" unfolding serves_def using lv by (simp add: same_area_def)
  show "heap_low ?h ?bs" if low: "heap_low h bs" "lfree h \<le> p"
  proof (cases "p = lfree h")
    case True
    have "used_at H x" if x: "x \<in> set xs" for x
    proof
      assume "free_at H x"
      then have "p \<le> x" using low(1) x fr(1) True bs(1) by (auto simp: heap_low_def)
      moreover have "chain (heap_hdr h) 0 (xs @ p # ys) (heap_end h)" using inv bs(1) by (simp add: heap_inv_def blocks_ok_def)
      then have "unat x + 16 \<le> unat p" using chain_ascending [of _ 0 xs "p # ys" _ x p] x by simp
      ultimately show False by (simp add: word_le_nat_alt)
    qed
    then show ?thesis using l(1) True by (auto simp: heap_low_def)
  next
    case False
    have "l \<le> z" if "z \<in> set zs" for z using v(3) that low(2) False l(1) by (auto intro: order_trans)
    then show ?thesis using l(1) False low(1) fr(1) v(2) bs(1) by (auto simp: heap_low_def)
  qed
qed

definition granted :: "u32 \<Rightarrow> heap \<Rightarrow> u32 list \<Rightarrow> u32 \<Rightarrow> heap \<Rightarrow> u32 list \<Rightarrow> u32 \<Rightarrow> bool" where
  "granted n h bs p h' bs' b \<longleftrightarrow> p = addr h b \<and> serves h bs h' bs' {b} \<and> b \<notin> live h bs
     \<and> live h' bs' = insert b (live h bs) \<and> need n \<le> room (heap_hdr h') b \<and> (heap_low h bs \<longrightarrow> heap_low h' bs')
     \<and> fits h bs (need n)"

lemma rt_malloc_take:
  assumes inv: "heap_inv h bs" and bs: "bs = us @ vs" "lfree h = hd (vs @ [heap_end h])"
    and p: "p \<in> set vs" "free_at (heap_hdr h) p" "unat k \<le> room (heap_hdr h) p" "12 \<le> unat k" "aligned k" "unat k = need n"
      "unat p + unat k < unat (mem_size_aligned h)"
  shows "\<exists>h' bs'. granted n h bs (addr h p) h' bs' p \<and> do {
      h \<leftarrow> malloc_take k p h;
      h \<leftarrow> upd_hdr p (\<lambda>m. m\<lparr>hm_magic := HEAP_MAGIC\<rparr>) h;
      h \<leftarrow> (if p = lfree h then next_free h else Some h);
      Some (heap_ptr h + p + SIZEOF_STRUCT_MEM, h) } = Some (addr h p, h')"
proof -
  have ok: "blocks_ok h bs" "no_free_pair (heap_hdr h) bs" and c: "chain (heap_hdr h) 0 bs (heap_end h)"
    using inv by (simp_all add: heap_inv_def blocks_ok_def)
  have ne: "vs \<noteq> []" using p(1) by auto
  then have ll: "lfree h \<in> set vs" "lfree h \<noteq> heap_end h" using bs chain_less [OF c, of "hd vs"] by (cases vs; force)+
  obtain xs ys where xy: "bs = xs @ p # ys" using p(1) bs(1) by (metis Un_iff in_set_conv_decomp set_append)
  obtain H zs m where t: "malloc_take k p h = Some (h\<lparr>heap_hdr := H\<rparr>)" "blocks_ok (h\<lparr>heap_hdr := H\<rparr>) (xs @ p # zs @ ys)"
    "no_free_pair H (xs @ p # zs @ ys)" "\<forall>x\<in>set (xs @ ys). view H x = view (heap_hdr h) x"
    "H p = Some m" "hm_used m = 1" "hm_magic m = HEAP_MAGIC" "unat k \<le> room H p" "\<forall>z\<in>set zs. free_at H z \<and> p \<le> z"
    using malloc_take_total [OF ok [unfolded xy] p(2-5)] unfolding taken_def by blast
  have u: "upd_hdr p (\<lambda>m. m\<lparr>hm_magic := HEAP_MAGIC\<rparr>) (h\<lparr>heap_hdr := H\<rparr>) = Some (h\<lparr>heap_hdr := H\<rparr>)"
  proof -
    have "m\<lparr>hm_magic := HEAP_MAGIC\<rparr> = m" using t(7) by simp
    then show ?thesis using t(5) by (simp add: upd_hdr_def fun_upd_idem)
  qed
  have up: "used_at H p" using t(5,6) by (simp add: free_at_def)
  obtain l where l: "(if p = lfree h then next_free (h\<lparr>heap_hdr := H\<rparr>) else Some (h\<lparr>heap_hdr := H\<rparr>)) = Some (h\<lparr>heap_hdr := H, lfree := l\<rparr>)"
    "if p = lfree h then (\<forall>b\<in>set (p # zs @ ys). free_at H b \<longrightarrow> l \<le> b) \<and>
       (l \<noteq> heap_end h \<longrightarrow> l \<in> set (p # zs @ ys) \<and> free_at H l) else l = lfree h"
  proof (cases "p = lfree h")
    case True
    have "\<exists>l. next_free (h\<lparr>heap_hdr := H\<rparr>) = Some (h\<lparr>heap_hdr := H, lfree := l\<rparr>) \<and> (\<forall>b\<in>set (p # zs @ ys). free_at H b \<longrightarrow> l \<le> b)
      \<and> (if l = heap_end h then \<forall>b\<in>set (p # zs @ ys). used_at H b else l \<in> set (p # zs @ ys) \<and> free_at H l)"
    proof -
      have hh: "heap_end (h\<lparr>heap_hdr := H\<rparr>) = heap_end h" "heap_hdr (h\<lparr>heap_hdr := H\<rparr>) = H" by (simp_all add: heap_end_def)
      have "lfree (h\<lparr>heap_hdr := H\<rparr>) = hd ((p # zs @ ys) @ [heap_end (h\<lparr>heap_hdr := H\<rparr>)])" using True by simp
      from next_free_total [OF t(2) this] show ?thesis unfolding hh .
    qed
    then obtain l where "next_free (h\<lparr>heap_hdr := H\<rparr>) = Some (h\<lparr>heap_hdr := H, lfree := l\<rparr>)"
      "\<forall>b\<in>set (p # zs @ ys). free_at H b \<longrightarrow> l \<le> b"
      "if l = heap_end h then \<forall>b\<in>set (p # zs @ ys). used_at H b else l \<in> set (p # zs @ ys) \<and> free_at H l" by blast
    then show thesis using that [of l] True by presburger
  next
    case False
    have "h\<lparr>heap_hdr := H, lfree := lfree h\<rparr> = h\<lparr>heap_hdr := H\<rparr>" by simp
    then show thesis using that [of "lfree h"] False by simp
  qed
  let ?h = "h\<lparr>heap_hdr := H, lfree := l\<rparr>" and ?bs = "xs @ p # zs @ ys"
  note s = serves_take [OF inv xy p(2) t(2-4) up t(9) l(2) ll(2)]
  have "lfree h \<le> p"
  proof (cases vs)
    case (Cons v ws)
    then have "p = v \<or> unat v + 16 \<le> unat p" using chain_ascending [of _ 0 "us @ [v]" ws _ v p] c bs(1) p(1) by auto
    then show ?thesis using Cons bs(2) by (auto simp: word_le_nat_alt)
  qed (use ne in simp)
  then have "granted n h bs (addr h p) ?h ?bs p"
    unfolding granted_def using s t(8) p(2,3,6,7) xy by (auto simp: live_def fits_def)
  moreover have "do {
      h \<leftarrow> malloc_take k p h;
      h \<leftarrow> upd_hdr p (\<lambda>m. m\<lparr>hm_magic := HEAP_MAGIC\<rparr>) h;
      h \<leftarrow> (if p = lfree h then next_free h else Some h);
      Some (heap_ptr h + p + SIZEOF_STRUCT_MEM, h) } = Some (addr h p, ?h)"
    using l(1) by (simp add: t(1) u addr_def)
  ultimately show ?thesis by blast
qed

lemma rt_malloc_total:
  assumes inv: "heap_inv h bs" and n: "unat n + 3 < 2 ^ 32"
  shows "\<exists>p h'. rt_malloc n h = Some (p, h') \<and>
    (if p = 0 then h' = h \<and> (n \<noteq> 0 \<and> heap_low h bs \<longrightarrow> \<not> fits h bs (need n)) else \<exists>bs' b. granted n h bs p h' bs' b)"
proof -
  have ok: "blocks_ok h bs" and c: "chain (heap_hdr h) 0 bs (heap_end h)" and a: "area_ok h"
    using inv by (simp_all add: heap_inv_def blocks_ok_def)
  have M: "12 \<le> unat (mem_size_aligned h)" using a by (simp add: area_ok_def)
  define k where "k = (if RT_ALIGN n < 12 then 12 else RT_ALIGN n)"
  have al: "unat (RT_ALIGN n) = (unat n + 3) div 4 * 4" by (rule unat_align [OF n])
  have k: "unat k = need n" using al by (simp add: k_def need_def word_less_nat_alt)
  have "4 dvd need n" by (simp add: need_def max_def)
  then have ka: "aligned k" "12 \<le> unat k" using k need_ge by (simp_all add: aligned_def)
  have lf: "lfree h \<in> insert (heap_end h) (set bs)" using inv by (auto simp: heap_inv_def lfree_ok_def split: if_splits)
  obtain us vs where uv: "bs = us @ vs" "lfree h = hd (vs @ [heap_end h])" "\<forall>x\<in>set us. unat x < unat (lfree h)"
    "\<forall>y\<in>set vs. unat (lfree h) \<le> unat y"
    using c lf by (rule split_at)
  consider "n = 0" | "n \<noteq> 0" "mem_size_aligned h < RT_ALIGN n" | "n \<noteq> 0" "RT_ALIGN n \<le> mem_size_aligned h" by force
  then show ?thesis
  proof cases
    case 1 then show ?thesis by (simp add: rt_malloc_def)
  next
    case 2
    have "\<not> fits h bs (need n)" using 2(2) al by (auto simp: fits_def need_def word_less_nat_alt)
    then show ?thesis using 2 by (simp add: rt_malloc_def)
  next
    case 3
    have km: "unat k \<le> unat (mem_size_aligned h)" using 3(2) M by (simp add: k_def word_le_nat_alt)
    obtain r where r: "malloc_find k (lfree h) h = Some r"
      "case r of None \<Rightarrow> \<forall>b\<in>set vs. \<not> (free_at (heap_hdr h) b \<and> unat k \<le> room (heap_hdr h) b \<and> unat b + unat k < unat (mem_size_aligned h))
       | Some b \<Rightarrow> b \<in> set vs \<and> free_at (heap_hdr h) b \<and> unat k \<le> room (heap_hdr h) b \<and> unat b + unat k < unat (mem_size_aligned h)"
      using malloc_find_total [OF ok [unfolded uv(1)] km] uv(2) by auto
    have e: "rt_malloc n h = (case r of None \<Rightarrow> Some (0, h) | Some p \<Rightarrow> do {
        h \<leftarrow> malloc_take k p h;
        h \<leftarrow> upd_hdr p (\<lambda>m. m\<lparr>hm_magic := HEAP_MAGIC\<rparr>) h;
        h \<leftarrow> (if p = lfree h then next_free h else Some h);
        Some (heap_ptr h + p + SIZEOF_STRUCT_MEM, h) })"
      using 3 r(1) unfolding k_def by (simp add: rt_malloc_def Let_def not_less [THEN iffD2])
    show ?thesis
    proof (cases r)
      case None
      have "\<not> fits h bs (need n)" if "heap_low h bs"
        using None r(2) that uv k by (force simp: fits_def heap_low_def word_le_nat_alt)
      then show ?thesis using None e by simp
    next
      case (Some p)
      have p: "p \<in> set vs" "free_at (heap_hdr h) p" "unat k \<le> room (heap_hdr h) p"
        "unat p + unat k < unat (mem_size_aligned h)" using Some r(2) by auto
      obtain h' bs' where "granted n h bs (addr h p) h' bs' p" "rt_malloc n h = Some (addr h p, h')"
        using rt_malloc_take [OF inv uv(1,2) p(1-3) ka(2,1) k p(4)] e Some by auto
      moreover have "unat (addr h p) \<noteq> 0" using unat_addr [OF ok, of p] p(1) uv(1) by simp
      ultimately show ?thesis by auto
    qed
  qed
qed

end
