(* ===== verification/RttHeapFree.thy ===== *)
theory RttHeapFree
  imports RttHeapOps
begin

text \<open>Release and resizing of blocks: free neighbours are joined, the live blocks stay as they are.\<close>

section \<open>Joining free blocks\<close>

definition merges :: "heap \<Rightarrow> u32 list \<Rightarrow> heap \<Rightarrow> u32 list \<Rightarrow> bool" where
  "merges h bs h' bs' \<longleftrightarrow> blocks_ok h' bs' \<and> same_area h h' \<and> heap_data h' = heap_data h
     \<and> set bs' \<subseteq> set bs \<and> (\<forall>b\<in>set bs'. free_at (heap_hdr h') b = free_at (heap_hdr h) b)
     \<and> (\<forall>b\<in>set bs - set bs'. free_at (heap_hdr h) b)
     \<and> (\<forall>b\<in>live h bs. room (heap_hdr h') b = room (heap_hdr h) b)
     \<and> lfree h' \<le> lfree h \<and> (lfree h = heap_end h \<longrightarrow> lfree h' = heap_end h)
     \<and> (lfree h \<in> set bs \<and> free_at (heap_hdr h) (lfree h) \<longrightarrow> lfree h' \<in> set bs' \<and> free_at (heap_hdr h') (lfree h'))"

lemma merges_refl: "blocks_ok h bs \<Longrightarrow> merges h bs h bs"
  by (simp add: merges_def same_area_def)

lemma merges_free: "merges h bs h' bs' \<Longrightarrow> b \<in> set bs' \<Longrightarrow> free_at (heap_hdr h') b = free_at (heap_hdr h) b"
  unfolding merges_def by blast

lemma merges_live: "merges h bs h' bs' \<Longrightarrow> live h' bs' = live h bs"
  by (auto simp: merges_def live_def)

lemma merges_trans: "merges h bs h' bs' \<Longrightarrow> merges h' bs' h'' bs'' \<Longrightarrow> merges h bs h'' bs''"
proof -
  assume a: "merges h bs h' bs'" "merges h' bs' h'' bs''"
  have "same_area h h''" "heap_end h' = heap_end h" using a by (simp_all add: merges_def same_area_def heap_end_def)
  moreover have "room (heap_hdr h'') b = room (heap_hdr h) b" if "b \<in> live h bs" for b
    using a merges_live [OF a(1)] that by (auto simp: merges_def)
  moreover have "free_at (heap_hdr h) b" if "b \<in> set bs - set bs''" for b
  proof (cases "b \<in> set bs'")
    case True
    then have "free_at (heap_hdr h') b" using a(2) that by (auto simp: merges_def)
    then show ?thesis using a(1) True by (auto simp: merges_def)
  qed (use a(1) that in \<open>auto simp: merges_def\<close>)
  moreover have "free_at (heap_hdr h'') b = free_at (heap_hdr h) b" if "b \<in> set bs''" for b
    using a that by (auto simp: merges_def)
  moreover have "lfree h'' \<le> lfree h" using a by (auto simp: merges_def intro: order_trans)
  ultimately show ?thesis using a unfolding merges_def by auto
qed

lemma merges_low: "merges h bs h' bs' \<Longrightarrow> heap_low h bs \<Longrightarrow> heap_low h' bs'"
  unfolding heap_low_def merges_def by (meson order_trans subsetD)

text \<open>The block \<open>y\<close> behind \<open>b\<close> is joined to it.\<close>

definition join :: "u32 \<Rightarrow> u32 \<Rightarrow> u32 \<Rightarrow> heap \<Rightarrow> heap option" where
  "join b y c h = do {
     let h = (if lfree h = y then h\<lparr>lfree := b\<rparr> else h);
     h \<leftarrow> upd_hdr b (\<lambda>m. m\<lparr>hm_next := c\<rparr>) h;
     upd_hdr c (\<lambda>m. m\<lparr>hm_prev := b\<rparr>) h }"

lemma join_merges:
  assumes "blocks_ok h (xs @ b # y # zs)" "free_at (heap_hdr h) b" "free_at (heap_hdr h) y" "c = hd (zs @ [heap_end h])"
  shows "\<exists>h'. join b y c h = Some h' \<and> merges h (xs @ b # y # zs) h' (xs @ b # zs)"
proof -
  have ch: "chain (heap_hdr h) 0 (xs @ b # y # zs) (heap_end h)" using assms(1) by (simp add: blocks_ok_def)
  obtain m where m: "heap_hdr h b = Some m" using assms(2) by (auto simp: free_at_def)
  obtain my where my: "heap_hdr h y = Some my" using assms(3) by (auto simp: free_at_def)
  have "c \<in> insert (heap_end h) (set (xs @ b # y # zs))" using assms(4) by (cases zs) auto
  then obtain mc where mc: "heap_hdr h c = Some mc" using blocks_header [OF assms(1)] by blast
  define m' where "m' = m\<lparr>hm_next := c\<rparr>"
  define H where "H = (heap_hdr h)(b \<mapsto> m', c \<mapsto> mc\<lparr>hm_prev := b\<rparr>)"
  note j = join_chain [OF ch m my assms(4) m'_def mc H_def]
  let ?l = "if lfree h = y then b else lfree h"
  let ?h = "h\<lparr>heap_hdr := H, lfree := ?l\<rparr>"
  have e: "heap_end ?h = heap_end h" by (simp add: heap_end_def)
  have d: "distinct (xs @ b # y # zs)" by (rule chain_distinct [OF ch])
  have be: "b \<noteq> heap_end h" "y \<noteq> heap_end h" using chain_less [OF ch] by fastforce+
  have cb: "c \<noteq> b" using j(5,6) by auto
  have "join b y c h = Some ?h"
    using m mc cb by (simp add: join_def upd_hdr_def H_def m'_def Let_def)
  moreover have "blocks_ok ?h (xs @ b # zs)"
  proof -
    have "view H (heap_end h) = view (heap_hdr h) (heap_end h)" using j(2) by simp
    then have "\<exists>m. H (heap_end h) = Some m \<and> hm_used m \<noteq> 0 \<and> hm_next m = heap_end h"
      using assms(1) by (auto simp: view_def blocks_ok_def)
    then show ?thesis using j(1) assms(1) by (cases xs) (auto simp: blocks_ok_def e area_ok_def)
  qed
  moreover have fb: "free_at H b" using j(3) assms(2) m by (simp add: free_at_def m'_def)
  have fr: "free_at H x = free_at (heap_hdr h) x" "room H x = room (heap_hdr h) x" if "x \<in> set (xs @ zs)" for x
    using view_free view_room j(2) that by blast+
  have "?l \<le> lfree h" using j(5) by (simp add: word_le_nat_alt)
  ultimately have "merges h (xs @ b # y # zs) ?h (xs @ b # zs)"
    unfolding merges_def using fb fr be assms(2,3) d by (auto simp: same_area_def live_def)
  then show ?thesis using \<open>join b y c h = Some ?h\<close> by blast
qed

lemma plug_forward_merges:
  assumes "blocks_ok h (xs @ x # ys)" "free_at (heap_hdr h) x" "no_free_pair (heap_hdr h) ys"
  shows "\<exists>h' zs. plug_forward x h = Some h' \<and> merges h (xs @ x # ys) h' (xs @ x # zs)
    \<and> (zs \<noteq> [] \<longrightarrow> used_at (heap_hdr h) (hd zs)) \<and> no_free_pair (heap_hdr h) zs"
proof -
  obtain m mc where m: "heap_hdr h x = Some m" "hm_next m = hd (ys @ [heap_end h])" "hm_prev m = last (0 # xs)"
    "heap_hdr h (hm_next m) = Some mc" "unat x + 16 \<le> unat (hm_next m)" "unat (hm_next m) \<le> unat (heap_end h)"
    "aligned x" "hm_magic m = HEAP_MAGIC"
    using assms(1) by (rule blocks_split)
  have ne: "x \<noteq> hm_next m" using m(5) by auto
  show ?thesis
  proof (cases "ys \<noteq> [] \<and> free_at (heap_hdr h) (hd ys)")
    case True
    then obtain y zs where ys: "ys = y # zs" by (cases ys) auto
    have ok: "blocks_ok h ((xs @ [x]) @ y # zs)" using assms(1) ys by simp
    obtain k kc where k: "heap_hdr h y = Some k" "hm_next k = hd (zs @ [heap_end h])" "hm_prev k = last (0 # (xs @ [x]))"
      "heap_hdr h (hm_next k) = Some kc" "unat y + 16 \<le> unat (hm_next k)" "unat (hm_next k) \<le> unat (heap_end h)"
      "aligned y" "hm_magic k = HEAP_MAGIC"
      using ok by (rule blocks_split)
    have y: "hm_next m = y" "y \<noteq> heap_end h" "hm_used k = 0" using m(2) ys k(1,5,6) True by (auto simp: free_at_def)
    have "plug_forward x h = join x y (hm_next k) h"
      using m(1) k(1) y ne by (simp add: plug_forward_def join_def Let_def)
    then show ?thesis
      using join_merges [OF assms(1) [unfolded ys] assms(2), of "hm_next k"] True ys k(2) assms(3)
        no_free_pair_append [of "heap_hdr h" "[]" y zs] by auto
  next
    case False
    have "plug_forward x h = Some h"
    proof (cases ys)
      case Nil then show ?thesis using m(1,2,4) by (simp add: plug_forward_def)
    next
      case (Cons y zs)
      then have "hm_used mc \<noteq> 0" using False m(2,4) by (simp add: free_at_def)
      then show ?thesis using m(1,4) by (simp add: plug_forward_def)
    qed
    then show ?thesis using merges_refl [OF assms(1)] False assms(3) by auto
  qed
qed

lemma plug_backward_merges:
  assumes "blocks_ok h (xs @ x # ys)" "free_at (heap_hdr h) x" "no_free_pair (heap_hdr h) (xs)" "no_free_pair (heap_hdr h) (x # ys)"
  shows "\<exists>h' bs'. plug_backward x h = Some h' \<and> merges h (xs @ x # ys) h' bs' \<and> no_free_pair (heap_hdr h') bs'"
proof -
  obtain m mc where m: "heap_hdr h x = Some m" "hm_next m = hd (ys @ [heap_end h])" "hm_prev m = last (0 # xs)"
    "heap_hdr h (hm_next m) = Some mc" "unat x + 16 \<le> unat (hm_next m)" "unat (hm_next m) \<le> unat (heap_end h)"
    "aligned x" "hm_magic m = HEAP_MAGIC"
    using assms(1) by (rule blocks_split)
  show ?thesis
  proof (cases "xs = []")
    case True
    then have "x = 0" using assms(1) by (simp add: blocks_ok_def)
    then have "plug_backward x h = Some h" using m(1,3) True by (simp add: plug_backward_def)
    then show ?thesis using merges_refl [OF assms(1)] True assms(4) by auto
  next
    case False
    then obtain ws w where xs: "xs = ws @ [w]" by (cases xs rule: rev_cases) auto
    have ok: "blocks_ok h (ws @ w # x # ys)" using assms(1) xs by simp
    obtain k kc where k: "heap_hdr h w = Some k" "hm_next k = hd ((x # ys) @ [heap_end h])" "hm_prev k = last (0 # ws)"
      "heap_hdr h (hm_next k) = Some kc" "unat w + 16 \<le> unat (hm_next k)" "unat (hm_next k) \<le> unat (heap_end h)"
      "aligned w" "hm_magic k = HEAP_MAGIC"
      using ok by (rule blocks_split)
    have w: "hm_prev m = w" "w \<noteq> x" using m(3) xs k(2,5) by auto
    show ?thesis
    proof (cases "free_at (heap_hdr h) w")
      case True
      have "plug_backward x h = join w x (hm_next m) h"
        using m(1) k(1) w True by (simp add: plug_backward_def join_def Let_def free_at_def)
      then obtain h' where h': "plug_backward x h = Some h'" "merges h (ws @ w # x # ys) h' (ws @ w # ys)"
        using join_merges [OF ok True assms(2) m(2)] by auto
      have "no_free_pair (heap_hdr h) (ws @ w # ys)"
        using assms(2-4) True no_free_pair_append [of "heap_hdr h" ws w] no_free_pair_append [of "heap_hdr h" "[]" x ys]
        by (auto simp: xs)
      moreover have "no_free_pair (heap_hdr h') (ws @ w # ys) = no_free_pair (heap_hdr h) (ws @ w # ys)"
        by (rule no_free_pair_cong) (rule merges_free [OF h'(2)])
      ultimately show ?thesis using h' xs by auto
    next
      case False
      have "plug_backward x h = Some h" using m(1) k(1) w False by (simp add: plug_backward_def free_at_def)
      moreover have "no_free_pair (heap_hdr h) (xs @ x # ys)"
        using assms(3,4) False no_free_pair_append [of "heap_hdr h" "[]" x ys] by (auto simp: no_free_pair_append xs)
      ultimately show ?thesis using merges_refl [OF assms(1)] by auto
    qed
  qed
qed

lemma plug_holes_merges:
  assumes "blocks_ok h (xs @ x # ys)" "free_at (heap_hdr h) x" "no_free_pair (heap_hdr h) xs" "no_free_pair (heap_hdr h) ys"
  shows "\<exists>h' bs'. plug_holes x h = Some h' \<and> merges h (xs @ x # ys) h' bs' \<and> no_free_pair (heap_hdr h') bs'"
proof -
  obtain h1 zs where f: "plug_forward x h = Some h1" "merges h (xs @ x # ys) h1 (xs @ x # zs)"
    "zs \<noteq> [] \<longrightarrow> used_at (heap_hdr h) (hd zs)" "no_free_pair (heap_hdr h) zs"
    using plug_forward_merges [OF assms(1,2,4)] by blast
  have e: "free_at (heap_hdr h1) b = free_at (heap_hdr h) b" if "b \<in> set (xs @ x # zs)" for b
    by (rule merges_free [OF f(2) that])
  have ok: "blocks_ok h1 (xs @ x # zs)" using f(2) by (simp add: merges_def)
  have fx: "free_at (heap_hdr h1) x" using e assms(2) by simp
  have nx: "no_free_pair (heap_hdr h1) xs" using assms(3) no_free_pair_cong [of xs "heap_hdr h1" "heap_hdr h"] e by simp
  have "no_free_pair (heap_hdr h1) zs" using f(4) no_free_pair_cong [of zs "heap_hdr h1" "heap_hdr h"] e by simp
  then have nz: "no_free_pair (heap_hdr h1) (x # zs)"
    using f(3) e no_free_pair_append [of "heap_hdr h1" "[]" x zs] by (auto simp: no_free_pair_def)
  obtain h' bs' where "plug_backward x h1 = Some h'" "merges h1 (xs @ x # zs) h' bs'" "no_free_pair (heap_hdr h') bs'"
    using plug_backward_merges [OF ok fx nx nz] by blast
  then show ?thesis using merges_trans [OF f(2)] f(1) by (auto simp: plug_holes_def)
qed

section \<open>Release\<close>

lemma blocks_lfree [simp]: "blocks_ok (h\<lparr>lfree := l\<rparr>) bs = blocks_ok h bs"
  by (simp add: blocks_ok_def area_ok_def heap_end_def)

lemma addr_range:
  assumes "blocks_ok h bs" "b \<in> set bs"
  shows "addr h b \<noteq> 0" "\<not> addr h b < heap_ptr h" "addr h b < heap_ptr h + heap_end h" "addr h b - 12 - heap_ptr h = b"
proof -
  note u = unat_addr [OF assms]
  have a: "area_ok h" and c: "chain (heap_hdr h) 0 bs (heap_end h)" using assms(1) by (simp_all add: blocks_ok_def)
  have e: "unat (heap_ptr h) + unat (heap_end h) < 2 ^ 32" using a unat_end [OF a] by (simp add: area_ok_def)
  show "addr h b \<noteq> 0" "\<not> addr h b < heap_ptr h" using u by (auto simp: word_less_nat_alt)
  show "addr h b < heap_ptr h + heap_end h"
    using u unat_plus [OF e] chain_less [OF c assms(2)] by (simp add: word_less_nat_alt)
  show "addr h b - 12 - heap_ptr h = b" by (simp add: addr_def)
qed

lemma serves_merges:
  assumes "heap_inv h bs" "merges k bs1 h' bs'" "no_free_pair (heap_hdr h') bs'"
    and "same_area h k" "heap_data k = heap_data h" "live k bs1 - X = live h bs - X"
    and "\<forall>b\<in>live h bs - X. room (heap_hdr k) b = room (heap_hdr h) b"
    and "if lfree k = heap_end k then live k bs1 \<noteq> {} else lfree k \<in> set bs1 \<and> free_at (heap_hdr k) (lfree k)"
  shows "serves h bs h' bs' X"
proof -
  have lv: "live h' bs' = live k bs1" by (rule merges_live [OF assms(2)])
  have "heap_end h' = heap_end k" "blocks_ok h' bs'" "same_area k h'" "heap_data h' = heap_data k"
    using assms(2) by (auto simp: merges_def same_area_end)
  moreover have r: "room (heap_hdr h') b = room (heap_hdr k) b" if "b \<in> live k bs1" for b
    using assms(2) that unfolding merges_def by blast
  have "lfree_ok h' bs'"
  proof (cases "lfree k = heap_end k")
    case True
    then have "lfree h' = heap_end k" using assms(2) unfolding merges_def by blast
    then show ?thesis using True assms(8) lv \<open>heap_end h' = heap_end k\<close> by (simp add: lfree_ok_def)
  next
    case False
    then have l: "lfree h' \<in> set bs'" "free_at (heap_hdr h') (lfree h')"
      using assms(2,8) unfolding merges_def by (meson)+
    then have "lfree h' \<noteq> heap_end h'" using used_end \<open>blocks_ok h' bs'\<close> by auto
    then show ?thesis using l by (simp add: lfree_ok_def)
  qed
  have "room (heap_hdr h') b = room (heap_hdr h) b" if b: "b \<in> live h bs - X" for b
  proof -
    have "b \<in> live k bs1" using b assms(6) by blast
    then show ?thesis using b r assms(7) by simp
  qed
  ultimately show ?thesis
    using assms(3-6) lv \<open>lfree_ok h' bs'\<close> unfolding serves_def heap_inv_def same_area_def by auto
qed

lemma rt_free_total:
  assumes inv: "heap_inv h bs" and b: "b \<in> live h bs"
  shows "\<exists>h' bs'. rt_free (addr h b) h = Some h' \<and> serves h bs h' bs' {b} \<and> live h' bs' = live h bs - {b}
    \<and> (heap_low h bs \<longrightarrow> heap_low h' bs')"
proof -
  have ok: "blocks_ok h bs" "no_free_pair (heap_hdr h) bs" using inv by (simp_all add: heap_inv_def)
  have bb: "b \<in> set bs" "used_at (heap_hdr h) b" using b by (simp_all add: live_def)
  then obtain xs ys where bs: "bs = xs @ b # ys" by (auto simp: in_set_conv_decomp)
  obtain m mc where m: "heap_hdr h b = Some m" "hm_next m = hd (ys @ [heap_end h])" "hm_prev m = last (0 # xs)"
    "heap_hdr h (hm_next m) = Some mc" "unat b + 16 \<le> unat (hm_next m)" "unat (hm_next m) \<le> unat (heap_end h)"
    "aligned b" "hm_magic m = HEAP_MAGIC"
    using ok(1) [unfolded bs] by (rule blocks_split)
  define H where "H = (heap_hdr h)(b \<mapsto> m\<lparr>hm_used := 0\<rparr>)"
  note f = blocks_flag [OF ok(1) [unfolded bs] m(1), of 0, folded H_def]
  define l where "l = (if b < lfree h then b else lfree h)"
  let ?h = "h\<lparr>heap_hdr := H, lfree := l\<rparr>"
  have fr: "free_at H x = free_at (heap_hdr h) x" "room H x = room (heap_hdr h) x" if "x \<in> set (xs @ ys)" for x
    using view_free view_room f(2) that by blast+
  have fb: "free_at H b" by (simp add: free_at_def H_def)
  have d: "b \<notin> set xs" "b \<notin> set ys" using ok(1) bs chain_distinct [of "heap_hdr h" 0 bs] by (auto simp: blocks_ok_def)
  have n: "no_free_pair H xs" "no_free_pair H ys"
    using ok(2) f(2) no_free_pair_view [of xs H "heap_hdr h"] no_free_pair_view [of ys H "heap_hdr h"]
    by (simp_all add: bs no_free_pair_append)
  have ok': "blocks_ok ?h (xs @ b # ys)" using f(1) by simp
  obtain h' bs' where p: "plug_holes b ?h = Some h'" "merges ?h (xs @ b # ys) h' bs'" "no_free_pair (heap_hdr h') bs'"
    using plug_holes_merges [OF ok', of] fb n by auto
  have "m\<lparr>hm_magic := HEAP_MAGIC, hm_used := 0\<rparr> = m\<lparr>hm_used := 0\<rparr>" using m(8) by simp
  then have "rt_free (addr h b) h = Some h'"
    using addr_range [OF ok(1) bb(1)] m(1) p(1)
    by (simp add: rt_free_def upd_hdr_def H_def l_def Let_def not_le split: if_splits)
  moreover have lv: "live ?h (xs @ b # ys) = live h bs - {b}" using fr(1) fb d by (auto simp: live_def bs)
  have le: "lfree h = heap_end h \<Longrightarrow> b < lfree h" using m(5,6) by (simp add: word_less_nat_alt)
  have "l \<noteq> heap_end h \<and> l \<in> set bs \<and> free_at H l"
  proof (cases "b < lfree h")
    case True then show ?thesis using fb m(5,6) bs by (auto simp: l_def)
  next
    case False
    then have "lfree h \<noteq> heap_end h" using le by auto
    then have "lfree h \<in> set bs" "free_at (heap_hdr h) (lfree h)" using inv by (simp_all add: heap_inv_def lfree_ok_def)
    then show ?thesis using False \<open>lfree h \<noteq> heap_end h\<close> fr(1) bb(2) bs by (auto simp: l_def)
  qed
  then have lf: "if lfree ?h = heap_end ?h then live ?h (xs @ b # ys) \<noteq> {}
      else lfree ?h \<in> set (xs @ b # ys) \<and> free_at (heap_hdr ?h) (lfree ?h)"
    by (simp add: heap_end_def bs)
  have "room H x = room (heap_hdr h) x" if "x \<in> live h bs - {b}" for x
    by (rule fr(2)) (use that in \<open>auto simp: live_def bs\<close>)
  then have "serves h bs h' bs' {b}"
    by (intro serves_merges [OF inv p(2,3) _ _ _ _ lf]) (simp_all add: same_area_def lv)
  moreover have "heap_low h' bs'" if low: "heap_low h bs"
  proof (rule merges_low [OF p(2)])
    show "heap_low ?h (xs @ b # ys)"
      using low fr(1) bs by (auto simp: heap_low_def l_def not_less)
  qed
  ultimately show ?thesis using merges_live [OF p(2)] lv by auto
qed

section \<open>Resizing\<close>

definition align_up :: "u32 \<Rightarrow> nat" where
  "align_up n = (unat n + 3) div 4 * 4"

lemma align_up_ge: "unat n \<le> align_up n" "align_up n \<le> need n"
  by (auto simp: align_up_def need_def)

lemma data_simps [simp]:
  "heap_inv (h\<lparr>heap_data := d\<rparr>) bs = heap_inv h bs" "live (h\<lparr>heap_data := d\<rparr>) bs = live h bs"
  "heap_low (h\<lparr>heap_data := d\<rparr>) bs = heap_low h bs" "addr (h\<lparr>heap_data := d\<rparr>) b = addr h b"
  by (simp_all add: heap_inv_def blocks_ok_def area_ok_def heap_end_def lfree_ok_def live_def heap_low_def addr_def)

text \<open>The block at \<open>b\<close> shrinks in place.\<close>

lemma shrink_total:
  assumes inv: "heap_inv h bs" and b: "b \<in> live h bs" "heap_hdr h b = Some m"
    and n: "aligned n" "4 \<le> unat n" "unat n + 16 \<le> room (heap_hdr h) b"
  shows "\<exists>h' bs'. do { h \<leftarrow> cut b (b + 12 + n) m (m\<lparr>hm_next := b + 12 + n\<rparr>) h; plug_holes (b + 12 + n) h } = Some h'
    \<and> serves h bs h' bs' {b} \<and> live h' bs' = live h bs \<and> room (heap_hdr h') b = unat n"
proof -
  have ok: "blocks_ok h bs" "no_free_pair (heap_hdr h) bs" using inv by (simp_all add: heap_inv_def)
  have bb: "b \<in> set bs" "used_at (heap_hdr h) b" using b by (simp_all add: live_def)
  then obtain xs ys where bs: "bs = xs @ b # ys" by (auto simp: in_set_conv_decomp)
  define b2 where "b2 = b + 12 + n"
  obtain k mc where k: "heap_hdr h b = Some k" "hm_next k = hd (ys @ [heap_end h])" "hm_prev k = last (0 # xs)"
    "heap_hdr h (hm_next k) = Some mc" "unat b + 16 \<le> unat (hm_next k)" "unat (hm_next k) \<le> unat (heap_end h)"
    "aligned b" "hm_magic k = HEAP_MAGIC"
    using ok(1) [unfolded bs] by (rule blocks_split)
  let ?m = "m\<lparr>hm_next := b2\<rparr>"
  have pm: "hm_magic ?m = HEAP_MAGIC" "hm_prev ?m = hm_prev m" "hm_next ?m = b2" using k(1,8) b(2) by simp_all
  obtain H where H: "cut b b2 m ?m h = Some (h\<lparr>heap_hdr := H\<rparr>)" "blocks_ok (h\<lparr>heap_hdr := H\<rparr>) (xs @ b # b2 # ys)"
    "\<forall>x\<in>set (xs @ ys). view H x = view (heap_hdr h) x" "H b = Some ?m" "free_at H b2" "unat b2 = unat b + 12 + unat n"
    using cut_block [OF ok(1) [unfolded bs] b(2) b2_def n pm] by blast
  let ?h = "h\<lparr>heap_hdr := H\<rparr>"
  have fr: "free_at H x = free_at (heap_hdr h) x" "room H x = room (heap_hdr h) x" if "x \<in> set (xs @ ys)" for x
    using view_free view_room H(3) that by blast+
  have ub: "used_at H b" "room H b = unat n" using bb(2) b(2) H(4,6) by (simp_all add: free_at_def room_def)
  have n2: "no_free_pair H xs" "no_free_pair H ys"
    using ok(2) H(3) no_free_pair_view [of xs H "heap_hdr h"] no_free_pair_view [of ys H "heap_hdr h"]
    by (simp_all add: bs no_free_pair_append)
  then have nx: "no_free_pair H (xs @ [b])" using no_free_pair_append [of H xs b "[]"] ub by (simp add: no_free_pair_def)
  have ok': "blocks_ok ?h ((xs @ [b]) @ b2 # ys)" using H(2) by simp
  obtain h' bs' where p: "plug_holes b2 ?h = Some h'" "merges ?h ((xs @ [b]) @ b2 # ys) h' bs'" "no_free_pair (heap_hdr h') bs'"
    using plug_holes_merges [OF ok'] H(5) nx n2(2) by auto
  have lv: "live ?h ((xs @ [b]) @ b2 # ys) = live h bs" using fr(1) ub(1) bb(2) H(5) by (auto simp: live_def bs)
  have lf: "if lfree ?h = heap_end ?h then live ?h ((xs @ [b]) @ b2 # ys) \<noteq> {}
      else lfree ?h \<in> set ((xs @ [b]) @ b2 # ys) \<and> free_at (heap_hdr ?h) (lfree ?h)"
  proof (cases "lfree h = heap_end h")
    case True then show ?thesis using lv b(1) by (auto simp: heap_end_def)
  next
    case False
    then have "lfree h \<in> set bs" "free_at (heap_hdr h) (lfree h)" using inv by (simp_all add: heap_inv_def lfree_ok_def)
    moreover from this have "lfree h \<in> set (xs @ ys)" using bb(2) by (auto simp: bs)
    ultimately show ?thesis using False fr(1) [of "lfree h"] by (auto simp: heap_end_def)
  qed
  have "room H x = room (heap_hdr h) x" if "x \<in> live h bs - {b}" for x
    by (rule fr(2)) (use that in \<open>auto simp: live_def bs\<close>)
  then have "serves h bs h' bs' {b}"
    by (intro serves_merges [OF inv p(2,3) _ _ _ _ lf]) (simp_all add: same_area_def lv [simplified])
  moreover have "room (heap_hdr h') b = room H b"
    using p(2) lv b(1) unfolding merges_def by simp
  ultimately show ?thesis using H(1) p(1) merges_live [OF p(2)] lv ub(2) by (auto simp: b2_def)
qed

definition moved :: "u32 \<Rightarrow> heap \<Rightarrow> u32 list \<Rightarrow> u32 \<Rightarrow> u32 \<Rightarrow> heap \<Rightarrow> bool" where
  "moved n h bs b q h' \<longleftrightarrow> (\<exists>bs' c k. q = addr h c \<and> c \<notin> live h bs \<and> heap_inv h' bs' \<and> same_area h h'
     \<and> live h' bs' = insert c (live h bs - {b}) \<and> (\<forall>x\<in>live h bs - {b}. room (heap_hdr h') x = room (heap_hdr h) x)
     \<and> need n \<le> room (heap_hdr h') c \<and> unat k = min (room (heap_hdr h) b) (align_up n)
     \<and> heap_data h' = heap_data (copy_data q (addr h b) k h))"

lemma move_total:
  assumes inv: "heap_inv h bs" and b: "b \<in> live h bs"
    and g: "granted s h bs q h1 bs1 c" and k: "unat k = min (room (heap_hdr h) b) (align_up n)" "need s = need n"
  shows "\<exists>h'. rt_free (addr h b) (copy_data q (addr h b) k h1) = Some h' \<and> moved n h bs b q h'"
proof -
  have s: "serves h bs h1 bs1 {c}" "q = addr h c" "c \<notin> live h bs" "live h1 bs1 = insert c (live h bs)" "need s \<le> room (heap_hdr h1) c"
    using g by (simp_all add: granted_def)
  let ?h = "copy_data q (addr h b) k h1"
  have inv1: "heap_inv ?h bs1" using s(1) by (simp add: serves_def copy_data_def)
  have b1: "b \<in> live ?h bs1" using s(4) b by (simp add: copy_data_def)
  have "addr ?h b = addr h b" using s(1) by (simp add: copy_data_def addr_def serves_def same_area_def)
  then obtain h' bs' where f: "rt_free (addr h b) ?h = Some h'" "serves ?h bs1 h' bs' {b}" "live h' bs' = live ?h bs1 - {b}"
    using rt_free_total [OF inv1 b1] by auto
  have cb: "c \<noteq> b" using s(3) b by auto
  have lv: "live h' bs' = insert c (live h bs - {b})" using f(3) s(4) cb by (auto simp: copy_data_def)
  have d: "heap_data h1 = heap_data h" using s(1) by (simp add: serves_def)
  have hd: "heap_hdr ?h = heap_hdr h1" "live ?h bs1 = live h1 bs1" "heap_data ?h = heap_data (copy_data q (addr h b) k h)"
    by (simp_all add: copy_data_def d cong del: if_weak_cong)
  have "room (heap_hdr h') x = room (heap_hdr h) x" if "x \<in> live h bs - {b}" for x
  proof -
    have "room (heap_hdr h') x = room (heap_hdr ?h) x" using f(2) that s(4) by (simp add: serves_def hd)
    moreover have "x \<noteq> c" using that s(3) by auto
    then have "room (heap_hdr h1) x = room (heap_hdr h) x" using s(1) that by (simp add: serves_def)
    ultimately show ?thesis by (simp add: hd)
  qed
  moreover have "room (heap_hdr h') c = room (heap_hdr h1) c" using f(2) s(4) cb by (simp add: serves_def hd)
  moreover have "same_area h h'" using f(2) s(1) by (simp add: serves_def same_area_def copy_data_def)
  moreover have "heap_data h' = heap_data ?h" "heap_inv h' bs'" using f(2) by (simp_all add: serves_def)
  ultimately have "moved n h bs b q h'"
    unfolding moved_def using s(2,3,5) lv k hd(3) by (intro exI [of _ bs'] exI [of _ c] exI [of _ k]) simp
  then show ?thesis using f(1) by blast
qed

text \<open>The result of \<open>rt_realloc\<close> for the live block \<open>b\<close>: released, refused, resized in place, or moved.\<close>

definition resized :: "u32 \<Rightarrow> heap \<Rightarrow> u32 list \<Rightarrow> u32 \<Rightarrow> u32 \<Rightarrow> heap \<Rightarrow> bool" where
  "resized n h bs b q h' \<longleftrightarrow>
    (if n = 0 then q = 0 \<and> (\<exists>bs'. serves h bs h' bs' {b} \<and> live h' bs' = live h bs - {b})
     else if q = 0 then h' = h
     else if q = addr h b then \<exists>bs'. serves h bs h' bs' {b} \<and> live h' bs' = live h bs \<and> align_up n \<le> room (heap_hdr h') b
     else moved n h bs b q h')"

lemma realloc_eqs:
  assumes ok: "blocks_ok h bs" "b \<in> set bs" and m: "heap_hdr h b = Some m" "heap_hdr h (hm_next m) = Some mc"
    and ns: "ns = RT_ALIGN n" "ns \<le> mem_size_aligned h" "ns \<noteq> 0" and k: "k = hm_next m - b - 12"
  shows "k = ns \<Longrightarrow> rt_realloc (addr h b) n h = Some (addr h b, h)"
    "k \<noteq> ns \<Longrightarrow> ns + 12 + 12 < k \<Longrightarrow> b2 = b + 12 + ns \<Longrightarrow> b2 \<noteq> b \<Longrightarrow> rt_realloc (addr h b) n h =
      do { h' \<leftarrow> cut b b2 m (m\<lparr>hm_next := b2\<rparr>) h; h' \<leftarrow> plug_holes b2 h'; Some (addr h b, h') }"
    "k \<noteq> ns \<Longrightarrow> \<not> ns + 12 + 12 < k \<Longrightarrow> rt_realloc (addr h b) n h =
      do { (q, h1) \<leftarrow> rt_malloc ns h;
           if q \<noteq> 0 then do { h \<leftarrow> rt_free (addr h b) (copy_data q (addr h b) (if k < ns then k else ns) h1); Some (q, h) }
           else Some (q, h1) }"
proof -
  note ar = addr_range [OF ok]
  have inside: "(addr h b < heap_ptr h \<or> heap_ptr h + heap_end h \<le> addr h b) = False" using ar by auto
  have small: "(mem_size_aligned h < ns) = False" using ns(2) by auto
  show "k = ns \<Longrightarrow> rt_realloc (addr h b) n h = Some (addr h b, h)"
    unfolding rt_realloc_def ns(1) [symmetric] inside using ns(3) m(1) ar(1,4) small by (simp add: k)
  show "rt_realloc (addr h b) n h =
      do { h' \<leftarrow> cut b b2 m (m\<lparr>hm_next := b2\<rparr>) h; h' \<leftarrow> plug_holes b2 h'; Some (addr h b, h') }"
    if "k \<noteq> ns" "ns + 12 + 12 < k" "b2 = b + 12 + ns" "b2 \<noteq> b"
    unfolding rt_realloc_def ns(1) [symmetric] inside [unfolded heap_end_def] cut_def upd_hdr_def heap_end_def
    using that(1,2,4) ns(3) m ar(1,4) small inside [unfolded heap_end_def]
    by (simp add: k [symmetric] that(3) [symmetric] Let_def)
  show "rt_realloc (addr h b) n h =
      do { (q, h1) \<leftarrow> rt_malloc ns h;
           if q \<noteq> 0 then do { h \<leftarrow> rt_free (addr h b) (copy_data q (addr h b) (if k < ns then k else ns) h1); Some (q, h) }
           else Some (q, h1) }"
    if "k \<noteq> ns" "\<not> ns + 12 + 12 < k"
    unfolding rt_realloc_def ns(1) [symmetric] inside Let_def
    using that ns(3) m(1) ar(1,4) small by (simp add: k [symmetric] cong: if_cong)
qed

lemma realloc_moves:
  assumes inv: "heap_inv h bs" and b: "b \<in> live h bs" and n: "n \<noteq> 0"
    and ns: "unat ns = align_up n" "ns \<le> mem_size_aligned h" and k: "unat k = room (heap_hdr h) b"
    and e: "rt_realloc (addr h b) n h =
      do { (q, h1) \<leftarrow> rt_malloc ns h;
           if q \<noteq> 0 then do { h \<leftarrow> rt_free (addr h b) (copy_data q (addr h b) (if k < ns then k else ns) h1); Some (q, h) }
           else Some (q, h1) }"
  shows "\<exists>q h'. rt_realloc (addr h b) n h = Some (q, h') \<and> resized n h bs b q h'"
proof -
  have "area_ok h" using inv by (simp add: heap_inv_def blocks_ok_def)
  then have "unat (mem_size_aligned h) + 24 < 2 ^ 32" unfolding area_ok_def by linarith
  then have ns3: "unat ns + 3 < 2 ^ 32" using ns(2) by (simp add: word_le_nat_alt)
  obtain q h1 where q: "rt_malloc ns h = Some (q, h1)"
    "if q = 0 then h1 = h \<and> (ns \<noteq> 0 \<and> heap_low h bs \<longrightarrow> \<not> fits h bs (need ns)) else \<exists>bs' b. granted ns h bs q h1 bs' b"
    using rt_malloc_total [OF inv ns3] by blast
  show ?thesis
  proof (cases "q = 0")
    case True then show ?thesis using e q n by (simp add: resized_def)
  next
    case False
    obtain bs1 c where g: "granted ns h bs q h1 bs1 c" using q(2) False by auto
    have "need ns = need n" using ns(1) by (simp add: need_def align_up_def)
    moreover have "unat (if k < ns then k else ns) = min (room (heap_hdr h) b) (align_up n)"
      using k ns(1) by (auto simp: word_less_nat_alt)
    ultimately obtain h' where "rt_free (addr h b) (copy_data q (addr h b) (if k < ns then k else ns) h1) = Some h'" "moved n h bs b q h'"
      using move_total [OF inv b g] by blast
    moreover have "q \<noteq> addr h b" using g b by (auto simp: granted_def addr_def)
    ultimately show ?thesis using e q(1) False n by (simp add: resized_def)
  qed
qed

lemma rt_realloc_total:
  assumes inv: "heap_inv h bs" and b: "b \<in> live h bs" and n: "unat n + 3 < 2 ^ 32"
  shows "\<exists>q h'. rt_realloc (addr h b) n h = Some (q, h') \<and> resized n h bs b q h'"
proof -
  have ok: "blocks_ok h bs" and a: "area_ok h" and bb: "b \<in> set bs"
    using inv b by (simp_all add: heap_inv_def blocks_ok_def live_def)
  then obtain xs ys where bs: "bs = xs @ b # ys" by (auto simp: in_set_conv_decomp)
  define ns where "ns = RT_ALIGN n"
  have ns: "unat ns = align_up n" unfolding ns_def align_up_def by (rule unat_align [OF n])
  have al: "aligned ns" using ns by (simp add: aligned_def align_up_def)
  have z: "ns = 0 \<longleftrightarrow> n = 0" using ns by (auto simp: align_up_def unat_eq_zero [symmetric] simp del: unat_eq_zero)
  have "align_up n mod 4 = 0" by (simp add: align_up_def)
  then have n4: "4 \<le> unat ns" if "n \<noteq> 0" using that z ns by (cases "align_up n < 4") (auto simp: unat_eq_zero [symmetric] simp del: unat_eq_zero)
  obtain m mc where m: "heap_hdr h b = Some m" "hm_next m = hd (ys @ [heap_end h])" "hm_prev m = last (0 # xs)"
    "heap_hdr h (hm_next m) = Some mc" "unat b + 16 \<le> unat (hm_next m)" "unat (hm_next m) \<le> unat (heap_end h)"
    "aligned b" "hm_magic m = HEAP_MAGIC"
    using ok [unfolded bs] by (rule blocks_split)
  define k where "k = hm_next m - b - 12"
  have "unat k = unat (hm_next m - (b + 12))" by (simp add: k_def algebra_simps)
  then have k: "unat k = room (heap_hdr h) b"
    using m(1,5) unat_plus_12 [OF m(5)] by (simp add: room_def unat_sub word_le_nat_alt)
  note ar = addr_range [OF ok bb] and eqs = realloc_eqs [OF ok bb m(1,4) ns_def _ _ k_def]
  consider "mem_size_aligned h < ns" | "ns \<le> mem_size_aligned h" "n = 0" | "ns \<le> mem_size_aligned h" "ns \<noteq> 0" "n \<noteq> 0" "k = ns"
    | "ns \<le> mem_size_aligned h" "ns \<noteq> 0" "n \<noteq> 0" "k \<noteq> ns" "ns + 12 + 12 < k"
    | "ns \<le> mem_size_aligned h" "ns \<noteq> 0" "n \<noteq> 0" "k \<noteq> ns" "\<not> ns + 12 + 12 < k"
    using z by force
  then show ?thesis
  proof cases
    case 1
    then have "n \<noteq> 0" using z by auto
    then show ?thesis using 1 by (simp add: rt_realloc_def ns_def [symmetric] resized_def)
  next
    case 2
    obtain h' bs' where f: "rt_free (addr h b) h = Some h'" "serves h bs h' bs' {b}" "live h' bs' = live h bs - {b}"
      using rt_free_total [OF inv b] by auto
    have "rt_realloc (addr h b) n h = Some (0, h')"
      unfolding rt_realloc_def ns_def [symmetric] using 2 z f(1) by (simp add: not_less)
    then show ?thesis using f(2,3) 2(2) by (auto simp: resized_def)
  next
    case 3
    have "serves h bs h bs {b}" using inv by (simp add: serves_def same_area_def)
    then show ?thesis using eqs(1) [OF 3(1,2,4)] 3 ar(1) ns k by (auto simp: resized_def)
  next
    case 4
    have "unat (ns + 12 + 12) = unat ns + 24"
      using 4(1) a unfolding area_ok_def by (simp add: unat_word_ariths word_le_nat_alt)
    then have r: "unat ns + 16 \<le> room (heap_hdr h) b" using 4(5) k by (simp add: word_less_nat_alt)
    define b2 where "b2 = b + 12 + ns"
    obtain h' bs' where s: "do { h \<leftarrow> cut b b2 m (m\<lparr>hm_next := b2\<rparr>) h; plug_holes b2 h } = Some h'"
      "serves h bs h' bs' {b}" "live h' bs' = live h bs" "room (heap_hdr h') b = unat ns"
      using shrink_total [OF inv b m(1) al n4 [OF 4(3)] r] unfolding b2_def by blast
    have "unat b2 = unat b + 12 + unat ns"
      using unat_plus_12 [OF m(5)] r m(1,5,6) unsigned_less [of "hm_next m", where ?'a = nat]
      by (simp add: b2_def room_def unat_plus)
    then have "b2 \<noteq> b" by auto
    then have "rt_realloc (addr h b) n h = Some (addr h b, h')"
      using eqs(2) [OF 4(1,2,4,5) b2_def] s(1) by (auto simp: bind_eq_Some_conv)
    then show ?thesis using s(2-4) 4(3) ar(1) ns by (auto simp: resized_def)
  next
    case 5
    show ?thesis by (rule realloc_moves [OF inv b 5(3) ns 5(1) k eqs(3) [OF 5(1,2,4,5)]])
  qed
qed

end
