(* ===== verification/RttHeapClient.thy ===== *)
theory RttHeapClient
  imports RttHeapFree
begin

text \<open>
  The allocator and its clients: a sequence of requests, each served before the next, from the heap as
  \<open>rt_system_heap_init\<close> leaves it.  A client releases, resizes and writes only areas it owns.  What the
  clients see is a store of separate byte arrays (\<open>store_step\<close>), which the heap implements.
\<close>

section \<open>Clients\<close>

datatype heap_op = Malloc u32 | Calloc u32 u32 | Free u32 | Realloc u32 u32 | Write u32 nat u8

type_synonym areas = "u32 \<rightharpoonup> nat"

text \<open>The areas owned: their addresses, with the number of bytes requested.\<close>

fun heap_do :: "heap_op \<Rightarrow> heap \<times> areas \<Rightarrow> (heap \<times> areas) option" where
  "heap_do (Malloc n) (h, L) = do {
     (p, h) \<leftarrow> rt_malloc n h;
     Some (h, if p = 0 then L else L(p \<mapsto> unat n)) }"
| "heap_do (Calloc c n) (h, L) = do {
     (p, h) \<leftarrow> rt_calloc c n h;
     Some (h, if p = 0 then L else L(p \<mapsto> unat c * unat n)) }"
| "heap_do (Free a) (h, L) = do {
     h \<leftarrow> rt_free a h;
     Some (h, L(a := None)) }"
| "heap_do (Realloc a n) (h, L) = do {
     (p, h) \<leftarrow> rt_realloc a n h;
     Some (h, if n = 0 then L(a := None) else if p = 0 then L else (L(a := None))(p \<mapsto> unat n)) }"
| "heap_do (Write a i v) (h, L) = Some (h\<lparr>heap_data := (heap_data h)(a + word_of_nat i := v)\<rparr>, L)"

fun op_ok :: "heap_op \<Rightarrow> areas \<Rightarrow> bool" where
  "op_ok (Malloc n) L \<longleftrightarrow> uint n + 3 < 2 ^ 32"
| "op_ok (Calloc c n) L \<longleftrightarrow> uint c * uint n + 3 < 2 ^ 32"
| "op_ok (Free a) L \<longleftrightarrow> a = 0 \<or> L a \<noteq> None"
| "op_ok (Realloc a n) L \<longleftrightarrow> (a = 0 \<or> L a \<noteq> None) \<and> uint n + 3 < 2 ^ 32"
| "op_ok (Write a i v) L \<longleftrightarrow> (case L a of None \<Rightarrow> False | Some n \<Rightarrow> i < n)"

fun heap_run :: "heap_op list \<Rightarrow> heap \<times> areas \<Rightarrow> (heap \<times> areas) option" where
  "heap_run [] s = Some s"
| "heap_run (x # xs) s = do { s \<leftarrow> heap_do x s; heap_run xs s }"

text \<open>Every request of the sequence is one its clients may make.\<close>

fun ops_ok :: "heap_op list \<Rightarrow> heap \<times> areas \<Rightarrow> bool" where
  "ops_ok [] s \<longleftrightarrow> True"
| "ops_ok (x # xs) s \<longleftrightarrow> op_ok x (snd s) \<and> (case heap_do x s of None \<Rightarrow> True | Some t \<Rightarrow> ops_ok xs t)"

section \<open>The contract\<close>

text \<open>The bytes of each area.\<close>

definition contents :: "heap \<times> areas \<Rightarrow> u32 \<rightharpoonup> u8 list" where
  "contents s a = map_option (\<lambda>n. map (\<lambda>i. heap_data (fst s) (a + word_of_nat i)) [0..<n]) (snd s a)"

inductive store_step :: "heap_op \<Rightarrow> (u32 \<rightharpoonup> u8 list) \<Rightarrow> (u32 \<rightharpoonup> u8 list) \<Rightarrow> bool" where
  malloc: "C p = None \<Longrightarrow> length xs = unat n \<Longrightarrow> store_step (Malloc n) C (C(p \<mapsto> xs))"
| malloc_none: "store_step (Malloc n) C C"
| calloc: "C p = None \<Longrightarrow> store_step (Calloc c n) C (C(p \<mapsto> replicate (unat c * unat n) 0))"
| calloc_none: "store_step (Calloc c n) C C"
| free: "store_step (Free a) C (C(a := None))"
| realloc: "C a = Some xs \<Longrightarrow> (q = a \<or> C q = None) \<Longrightarrow> length ys = unat n \<Longrightarrow> n \<noteq> 0
    \<Longrightarrow> take (min (length xs) (unat n)) ys = take (min (length xs) (unat n)) xs
    \<Longrightarrow> store_step (Realloc a n) C ((C(a := None))(q \<mapsto> ys))"
| realloc_new: "C q = None \<Longrightarrow> length ys = unat n \<Longrightarrow> store_step (Realloc 0 n) C (C(q \<mapsto> ys))"
| realloc_none: "n \<noteq> 0 \<Longrightarrow> store_step (Realloc a n) C C"
| realloc_free: "store_step (Realloc a 0) C (C(a := None))"
| write_area: "C a = Some xs \<Longrightarrow> i < length xs \<Longrightarrow> store_step (Write a i v) C (C(a \<mapsto> xs[i := v]))"

inductive store_run :: "heap_op list \<Rightarrow> (u32 \<rightharpoonup> u8 list) \<Rightarrow> (u32 \<rightharpoonup> u8 list) \<Rightarrow> bool" where
  no_step: "store_run [] C C"
| one_step: "store_step x C C' \<Longrightarrow> store_run xs C' C'' \<Longrightarrow> store_run (x # xs) C C''"

text \<open>The headers in the list of blocks.\<close>

inductive in_list :: "heap \<Rightarrow> u32 \<Rightarrow> bool" for h where
  first: "in_list h 0"
| step: "in_list h x \<Longrightarrow> heap_hdr h x = Some m \<Longrightarrow> in_list h (hm_next m)"

text \<open>The areas are aligned, lie in the heap, and overlap neither each other nor a header.\<close>

definition areas_apart :: "heap \<Rightarrow> areas \<Rightarrow> bool" where
  "areas_apart h L \<longleftrightarrow>
     (\<forall>a n. L a = Some n \<longrightarrow> 4 dvd unat a \<and> unat (heap_ptr h) + 12 \<le> unat a \<and> unat a + n \<le> unat (heap_ptr h) + unat (heap_end h))
   \<and> (\<forall>a n b k. L a = Some n \<and> L b = Some k \<and> a \<noteq> b \<longrightarrow> unat a + n \<le> unat b \<or> unat b + k \<le> unat a)
   \<and> (\<forall>a n x. L a = Some n \<and> in_list h x \<longrightarrow>
        unat (heap_ptr h) + unat x + 12 \<le> unat a \<or> unat a + n \<le> unat (heap_ptr h) + unat x)"

section \<open>Where the areas lie\<close>

definition clients_inv :: "heap \<times> areas \<Rightarrow> u32 list \<Rightarrow> bool" where
  "clients_inv s bs \<longleftrightarrow> heap_inv (fst s) bs \<and> dom (snd s) = addr (fst s) ` live (fst s) bs
     \<and> (\<forall>b\<in>live (fst s) bs. \<forall>n. snd s (addr (fst s) b) = Some n \<longrightarrow> n \<le> room (heap_hdr (fst s)) b)"

lemma addr_inj [simp]: "addr h b = addr h c \<longleftrightarrow> b = c"
  by (simp add: addr_def)

lemma area_place:
  assumes "blocks_ok h bs" "b \<in> set bs"
  obtains c :: u32 where "unat (addr h b) + room (heap_hdr h) b = unat (heap_ptr h) + unat c" "unat b + 16 \<le> unat c" "unat c \<le> unat (heap_end h)"
    "\<forall>x\<in>insert (heap_end h) (set bs). unat x \<le> unat b \<or> unat c \<le> unat x" "aligned b"
proof -
  have c: "chain (heap_hdr h) 0 bs (heap_end h)" using assms(1) by (simp add: blocks_ok_def)
  obtain p c where p: "block (heap_hdr h) p b c" "c \<in> insert (heap_end h) (set bs)" "p \<in> insert 0 (set bs)" "unat c \<le> unat (heap_end h)"
    "\<forall>x\<in>set bs. unat x \<le> unat b \<or> unat c \<le> unat x"
    using c assms(2) by (rule chain_block)
  have "room (heap_hdr h) b = unat c - (unat b + 12)" "unat b + 16 \<le> unat c" "aligned b"
    using block_room [OF p(1)] p(1) by (simp_all add: block_def)
  then show thesis using that [of c] unat_addr [OF assms] p(4,5) by auto
qed

lemma in_list_blocks:
  assumes "blocks_ok h bs" "in_list h x"
  shows "x \<in> insert (heap_end h) (set bs)"
  using assms(2)
proof induction
  case first
  then show ?case using assms(1) hd_in_set [of bs] by (auto simp: blocks_ok_def)
next
  case (step x m)
  show ?case
  proof (cases "x = heap_end h")
    case True then show ?thesis using assms(1) step by (auto simp: blocks_ok_def)
  next
    case False
    then have "x \<in> set bs" "chain (heap_hdr h) 0 bs (heap_end h)" using step assms(1) by (simp_all add: blocks_ok_def)
    then obtain p c where "block (heap_hdr h) p x c" "c \<in> insert (heap_end h) (set bs)"
      "p \<in> insert 0 (set bs)" "unat c \<le> unat (heap_end h)" "\<forall>z\<in>set bs. unat z \<le> unat x \<or> unat c \<le> unat z"
      by (metis chain_block)
    then show ?thesis using step(2) by (auto simp: block_def)
  qed
qed

lemma blocks_in_list:
  assumes "blocks_ok h (xs @ b # ys)"
  shows "in_list h b"
  using assms
proof (induction xs arbitrary: b ys rule: rev_induct)
  case Nil
  then have "b = 0" by (simp add: blocks_ok_def)
  then show ?case by (simp add: in_list.first)
next
  case (snoc z xs)
  then have ok: "blocks_ok h (xs @ z # b # ys)" by simp
  obtain m mc where m: "heap_hdr h z = Some m" "hm_next m = hd ((b # ys) @ [heap_end h])" "hm_prev m = last (0 # xs)"
    "heap_hdr h (hm_next m) = Some mc" "unat z + 16 \<le> unat (hm_next m)" "unat (hm_next m) \<le> unat (heap_end h)"
    "aligned z" "hm_magic m = HEAP_MAGIC"
    using ok by (rule blocks_split)
  show ?case using in_list.step [OF snoc.IH [OF ok] m(1)] m(2) by simp
qed

text \<open>A free block of the list whose data area \<open>rt_malloc\<close> accepts for \<open>k\<close> bytes: it has the room,
  and when it is the last block of the heap it has more than that.\<close>

definition takes :: "heap \<Rightarrow> nat \<Rightarrow> u32 \<Rightarrow> bool" where
  "takes h k x \<longleftrightarrow> in_list h x \<and> (case heap_hdr h x of None \<Rightarrow> False
     | Some m \<Rightarrow> hm_used m = 0 \<and> unat x + 12 + k \<le> unat (hm_next m)
         \<and> (hm_next m = heap_end h \<longrightarrow> unat x + 12 + k < unat (hm_next m)))"

lemma takes_fits:
  assumes ok: "blocks_ok h bs"
  shows "(\<exists>x. takes h k x) \<longleftrightarrow> fits h bs k"
proof -
  have c: "chain (heap_hdr h) 0 bs (heap_end h)" and e: "unat (heap_end h) = unat (mem_size_aligned h) + 12"
    using ok by (simp_all add: blocks_ok_def unat_end)
  have block: "takes h k x \<longleftrightarrow> free_at (heap_hdr h) x \<and> k \<le> room (heap_hdr h) x \<and> unat x + k < unat (mem_size_aligned h)"
    if x: "x \<in> set bs" for x
  proof -
    obtain xs ys where bs: "bs = xs @ x # ys" using x by (auto simp: in_set_conv_decomp)
    obtain m mc where m: "heap_hdr h x = Some m" "hm_next m = hd (ys @ [heap_end h])" "hm_prev m = last (0 # xs)"
      "heap_hdr h (hm_next m) = Some mc" "unat x + 16 \<le> unat (hm_next m)" "unat (hm_next m) \<le> unat (heap_end h)"
      "aligned x" "hm_magic m = HEAP_MAGIC"
      using ok [unfolded bs] by (rule blocks_split)
    have "in_list h x" using blocks_in_list ok bs by blast
    moreover have "hm_next m = heap_end h \<or> unat (hm_next m) + 16 \<le> unat (heap_end h)"
      using m(2) bs chain_less [OF c, of "hd ys"] by (cases ys) auto
    ultimately show ?thesis using m(1,5) e by (auto simp: takes_def free_at_def room_def)
  qed
  have "x \<in> set bs" if "takes h k x" for x
  proof -
    have "x \<in> insert (heap_end h) (set bs)" using that in_list_blocks [OF ok] by (simp add: takes_def)
    moreover have "free_at (heap_hdr h) x" using that by (auto simp: takes_def free_at_def split: option.splits)
    ultimately show ?thesis using used_end [OF ok] by auto
  qed
  then show ?thesis using block by (auto simp: fits_def)
qed

lemma area_bounds:
  assumes "clients_inv s bs" "snd s a = Some n"
  obtains b and c :: u32 where "a = addr (fst s) b" "b \<in> live (fst s) bs" "unat (addr (fst s) b) + room (heap_hdr (fst s)) b = unat (heap_ptr (fst s)) + unat c"
    "unat b + 16 \<le> unat c" "unat c \<le> unat (heap_end (fst s))" "n \<le> room (heap_hdr (fst s)) b"
    "\<forall>x\<in>insert (heap_end (fst s)) (set bs). unat x \<le> unat b \<or> unat c \<le> unat x" "aligned b"
proof -
  have "a \<in> addr (fst s) ` live (fst s) bs" using assms by (auto simp: clients_inv_def)
  then obtain b where b: "a = addr (fst s) b" "b \<in> live (fst s) bs" by auto
  have ok: "blocks_ok (fst s) bs" "b \<in> set bs" using assms(1) b by (auto simp: clients_inv_def heap_inv_def live_def)
  obtain c :: u32 where "unat (addr (fst s) b) + room (heap_hdr (fst s)) b = unat (heap_ptr (fst s)) + unat c" "unat b + 16 \<le> unat c" "unat c \<le> unat (heap_end (fst s))"
    "\<forall>x\<in>insert (heap_end (fst s)) (set bs). unat x \<le> unat b \<or> unat c \<le> unat x" "aligned b"
    using ok by (rule area_place)
  moreover have "n \<le> room (heap_hdr (fst s)) b" using assms b by (auto simp: clients_inv_def)
  ultimately show thesis using that b by blast
qed

text \<open>Two live blocks keep apart with all the bytes they have.\<close>

lemma rooms_apart:
  assumes "heap_inv h bs" "b \<in> live h bs" "d \<in> live h bs" "b \<noteq> d"
  shows "unat (addr h b) + room (heap_hdr h) b \<le> unat (addr h d) \<or> unat (addr h d) + room (heap_hdr h) d \<le> unat (addr h b)"
proof -
  have ok: "blocks_ok h bs" and m: "b \<in> set bs" "d \<in> set bs" using assms by (simp_all add: heap_inv_def live_def)
  obtain c :: u32 where c: "unat (addr h b) + room (heap_hdr h) b = unat (heap_ptr h) + unat c" "unat b + 16 \<le> unat c" "unat c \<le> unat (heap_end h)"
    "\<forall>x\<in>insert (heap_end h) (set bs). unat x \<le> unat b \<or> unat c \<le> unat x" "aligned b" using ok m(1) by (rule area_place)
  obtain e :: u32 where e: "unat (addr h d) + room (heap_hdr h) d = unat (heap_ptr h) + unat e" "unat d + 16 \<le> unat e" "unat e \<le> unat (heap_end h)"
    "\<forall>x\<in>insert (heap_end h) (set bs). unat x \<le> unat d \<or> unat e \<le> unat x" "aligned d" using ok m(2) by (rule area_place)
  have "unat b \<noteq> unat d" using assms(4) by (simp add: word_unat_eq_iff)
  then show ?thesis using c e m unat_addr [OF ok] by (metis (no_types, lifting) add_leD1 insertI2 le_antisym le_trans linorder_linear nat_add_left_cancel_le add.assoc)
qed

lemma clients_apart:
  assumes inv: "clients_inv (h, L) bs"
  shows "areas_apart h L"
  unfolding areas_apart_def
proof (intro conjI allI impI)
  have ok: "blocks_ok h bs" using inv by (simp add: clients_inv_def heap_inv_def)
  have al: "aligned (heap_ptr h)" using ok by (simp add: blocks_ok_def area_ok_def)
  fix a n assume a: "L a = Some n"
  then obtain b and c :: u32 where b: "a = addr h b" "b \<in> live h bs" "unat (addr h b) + room (heap_hdr h) b = unat (heap_ptr h) + unat c"
    "unat b + 16 \<le> unat c" "unat c \<le> unat (heap_end h)" "n \<le> room (heap_hdr h) b"
    "\<forall>x\<in>insert (heap_end h) (set bs). unat x \<le> unat b \<or> unat c \<le> unat x" "aligned b"
    using area_bounds [OF inv, of a n] by auto
  have u: "unat a = unat (heap_ptr h) + unat b + 12" using unat_addr [OF ok] b(1,2) by (simp add: live_def)
  show "4 dvd unat a" using al b(8) by (simp add: aligned_def u)
  show "unat (heap_ptr h) + 12 \<le> unat a" using u by simp
  show "unat a + n \<le> unat (heap_ptr h) + unat (heap_end h)" using b by simp
next
  fix a n d k assume ad: "L a = Some n \<and> L d = Some k \<and> a \<noteq> d"
  obtain b where b: "a = addr h b" "b \<in> live h bs" "n \<le> room (heap_hdr h) b"
    using ad area_bounds [OF inv, of a n] by auto
  obtain e where e: "d = addr h e" "e \<in> live h bs" "k \<le> room (heap_hdr h) e"
    using ad area_bounds [OF inv, of d k] by auto
  have "heap_inv h bs" using inv by (simp add: clients_inv_def)
  then show "unat a + n \<le> unat d \<or> unat d + k \<le> unat a"
    using rooms_apart [of h bs b e] b e ad by fastforce
next
  have ok: "blocks_ok h bs" using inv by (simp add: clients_inv_def heap_inv_def)
  fix a n x assume a: "L a = Some n \<and> in_list h x"
  then obtain b and c :: u32 where b: "a = addr h b" "b \<in> live h bs" "unat (addr h b) + room (heap_hdr h) b = unat (heap_ptr h) + unat c"
    "unat b + 16 \<le> unat c" "unat c \<le> unat (heap_end h)" "n \<le> room (heap_hdr h) b"
    "\<forall>x\<in>insert (heap_end h) (set bs). unat x \<le> unat b \<or> unat c \<le> unat x" "aligned b"
    using area_bounds [OF inv, of a n] by auto
  have u: "unat a = unat (heap_ptr h) + unat b + 12" using unat_addr [OF ok] b(1,2) by (simp add: live_def)
  show "unat (heap_ptr h) + unat x + 12 \<le> unat a \<or> unat a + n \<le> unat (heap_ptr h) + unat x"
    using in_list_blocks [OF ok] a b u by fastforce
qed

end
