(* ===== verification/RttHeapStep.thy ===== *)
theory RttHeapStep
  imports RttHeapClient
begin

text \<open>Each request of a client of \<open>RttHeapClient\<close>: it returns, keeps the invariant and does a step of the store.\<close>

section \<open>Bytes\<close>

lemma unat_byte:
  assumes "unat (a :: u32) + i < 2 ^ 32"
  shows "unat (a + word_of_nat i) = unat a + i"
proof -
  have "unat (word_of_nat i :: u32) = i" using assms by (simp add: unat_of_nat)
  then show ?thesis using assms by (simp add: unat_plus)
qed

lemma within_area: "i < 2 ^ 32 \<Longrightarrow> (q + word_of_nat i :: u32) - q < k \<longleftrightarrow> i < unat k"
  by (simp add: word_less_nat_alt unat_of_nat)

lemma outside_area:
  assumes "unat (x :: u32) < unat q \<or> unat q + unat k \<le> unat x" "unat q + unat k < 2 ^ 32"
  shows "\<not> x - q < k"
proof (cases "unat x < unat q")
  case True
  have "unat (x - q) = 2 ^ 32 + unat x - unat q"
    using True unsigned_less [of q, where ?'a = nat] by (simp add: unat_sub_if')
  then show ?thesis using assms(2) by (simp add: word_less_nat_alt)
next
  case False
  then have "unat (x - q) = unat x - unat q" by (simp add: unat_sub word_le_nat_alt)
  then show ?thesis using assms False by (auto simp: word_less_nat_alt)
qed

definition bytes :: "heap \<Rightarrow> u32 \<Rightarrow> nat \<Rightarrow> u8 list" where
  "bytes h a n = map (\<lambda>i. heap_data h (a + word_of_nat i)) [0..<n]"

lemma length_area_bytes [simp]: "length (bytes h a n) = n"
  by (simp add: bytes_def)

lemma contents_alt: "contents (h, L) a = map_option (bytes h a) (L a)"
  by (cases "L a") (simp_all add: contents_def bytes_def)

lemma contents_upd [simp]:
  "contents (h, L(a \<mapsto> n)) = (contents (h, L))(a \<mapsto> bytes h a n)" "contents (h, L(a := None)) = (contents (h, L))(a := None)"
  by (auto simp: contents_alt)

lemma contents_cong:
  assumes "\<And>a n i. L a = Some n \<Longrightarrow> i < n \<Longrightarrow> heap_data h' (a + word_of_nat i) = heap_data h (a + word_of_nat i)"
  shows "contents (h', L) = contents (h, L)"
proof
  fix a show "contents (h', L) a = contents (h, L) a"
    using assms by (cases "L a") (auto simp: contents_alt bytes_def)
qed

lemma contents_same: "heap_data h' = heap_data h \<Longrightarrow> contents (h', L) = contents (h, L)"
  by (rule contents_cong) simp

lemma contents_dom: "contents (h, L) a = None \<longleftrightarrow> L a = None"
  by (simp add: contents_alt)

section \<open>The invariant of the clients\<close>

lemma clients_L: "clients_inv (h, L) bs \<Longrightarrow> L a = None \<longleftrightarrow> a \<notin> addr h ` live h bs"
  unfolding clients_inv_def by (metis domIff fst_conv snd_conv)

lemma clients_0:
  assumes "clients_inv (h, L) bs" shows "L 0 = None"
proof (rule ccontr)
  assume "L 0 \<noteq> None"
  then obtain b where "b \<in> live h bs" "addr h b = 0" using clients_L [OF assms, of 0] by auto
  then show False using addr_range(1) [of h bs b] assms by (simp add: clients_inv_def heap_inv_def live_def)
qed

lemma same_addr: "same_area h h' \<Longrightarrow> addr h' = addr h"
  by (simp add: same_area_def addr_def fun_eq_iff)

lemma clients_move:
  assumes inv: "clients_inv (h, L) bs" and h': "heap_inv h' bs'" "same_area h h'"
    and lv: "live h' bs' = K \<union> N" "K \<subseteq> live h bs" "\<forall>b\<in>K. room (heap_hdr h') b = room (heap_hdr h) b"
    and L': "\<forall>b\<in>K. L' (addr h b) = L (addr h b)" "\<forall>b\<in>N. \<exists>n. L' (addr h b) = Some n \<and> n \<le> room (heap_hdr h') b"
      "dom L' \<subseteq> addr h ` (K \<union> N)"
  shows "clients_inv (h', L') bs'"
proof -
  have i: "dom L = addr h ` live h bs" "\<forall>b\<in>live h bs. \<forall>n. L (addr h b) = Some n \<longrightarrow> n \<le> room (heap_hdr h) b"
    using inv by (simp_all add: clients_inv_def)
  have "addr h b \<in> dom L'" if "b \<in> K \<union> N" for b
  proof (cases "b \<in> K")
    case True
    then have "addr h b \<in> dom L" using i(1) lv(2) by auto
    then show ?thesis using L'(1) True by (auto simp: dom_def)
  qed (use that L'(2) in auto)
  then have "dom L' = addr h ` (K \<union> N)" using L'(3) by blast
  moreover have "n \<le> room (heap_hdr h') b" if "b \<in> K \<union> N" "L' (addr h b) = Some n" for b n
  proof (cases "b \<in> K")
    case True
    then show ?thesis using that L'(1) lv(2,3) i(2) by fastforce
  qed (use that L'(2) in auto)
  ultimately show ?thesis using h' lv(1) by (simp add: clients_inv_def same_addr)
qed

text \<open>No request but \<open>Realloc\<close> leaves a free block below \<open>lfree\<close>.\<close>

definition low_kept :: "heap_op \<Rightarrow> heap \<Rightarrow> u32 list \<Rightarrow> heap \<Rightarrow> u32 list \<Rightarrow> bool" where
  "low_kept x h bs h' bs' \<longleftrightarrow> (\<forall>a n. x \<noteq> Realloc a n) \<and> heap_low h bs \<longrightarrow> heap_low h' bs'"

lemma low_kept_realloc [simp]: "low_kept (Realloc a n) h bs h' bs'"
  by (simp add: low_kept_def)

lemma low_kept_refl [simp]: "low_kept x h bs h bs"
  by (simp add: low_kept_def)

definition step_ok :: "heap_op \<Rightarrow> heap \<times> areas \<Rightarrow> u32 list \<Rightarrow> bool" where
  "step_ok x s bs \<longleftrightarrow> (\<exists>s' bs'. heap_do x s = Some s' \<and> clients_inv s' bs' \<and> same_area (fst s) (fst s')
     \<and> store_step x (contents s) (contents s') \<and> low_kept x (fst s) bs (fst s') bs')"

lemma step_okI:
  "heap_do x (h, L) = Some (h', L') \<Longrightarrow> clients_inv (h', L') bs' \<Longrightarrow> same_area h h'
   \<Longrightarrow> store_step x (contents (h, L)) (contents (h', L')) \<Longrightarrow> low_kept x h bs h' bs'
   \<Longrightarrow> step_ok x (h, L) bs"
  unfolding step_ok_def by fastforce

lemma same_refl [simp]: "same_area h h" by (simp add: same_area_def)

lemma granted_clients:
  assumes inv: "clients_inv (h, L) bs" and g: "granted n h bs p h' bs' c" and k: "k \<le> need n"
  shows "clients_inv (h', L(p \<mapsto> k)) bs'" "same_area h h'" "L p = None" "heap_data h' = heap_data h"
proof -
  have s: "heap_inv h' bs'" "p = addr h c" "c \<notin> live h bs" "live h' bs' = insert c (live h bs)" "need n \<le> room (heap_hdr h') c"
    "\<forall>b\<in>live h bs - {c}. room (heap_hdr h') b = room (heap_hdr h) b" and sa: "same_area h h'"
    using g by (simp_all add: granted_def serves_def)
  then show "same_area h h'" "heap_data h' = heap_data h" using g by (simp_all add: granted_def serves_def)
  show "L p = None" using s(2,3) clients_L [OF inv] by auto
  have dl: "dom L = addr h ` live h bs" using inv by (simp add: clients_inv_def)
  show "clients_inv (h', L(p \<mapsto> k)) bs'"
    by (rule clients_move [OF inv s(1) sa, where K = "live h bs" and N = "{c}"]) (use s k dl in auto)
qed

lemma malloc_step:
  assumes inv: "clients_inv (h, L) bs" and n: "unat n + 3 < 2 ^ 32"
  shows "step_ok (Malloc n) (h, L) bs"
proof -
  have "heap_inv h bs" using inv by (simp add: clients_inv_def)
  then obtain p h' where r: "rt_malloc n h = Some (p, h')"
    "if p = 0 then h' = h \<and> (n \<noteq> 0 \<and> heap_low h bs \<longrightarrow> \<not> fits h bs (need n)) else \<exists>bs' b. granted n h bs p h' bs' b"
    using rt_malloc_total [OF _ n] by blast
  show ?thesis
  proof (cases "p = 0")
    case True
    then have "heap_do (Malloc n) (h, L) = Some (h, L)" using r by simp
    then show ?thesis by (rule step_okI [OF _ inv]) (simp_all add: malloc_none)
  next
    case False
    then obtain bs' c where g: "granted n h bs p h' bs' c" using r(2) by auto
    note c = granted_clients [OF inv g need_ge(2)]
    have "heap_do (Malloc n) (h, L) = Some (h', L(p \<mapsto> unat n))" using False r(1) by simp
    then show ?thesis
      by (rule step_okI [OF _ c(1,2)]) (use c(3) g in \<open>simp_all add: contents_same [OF c(4)] store_step.malloc contents_dom low_kept_def granted_def\<close>)
  qed
qed

lemma free_step:
  assumes inv: "clients_inv (h, L) bs" and a: "a = 0 \<or> L a \<noteq> None"
  shows "step_ok (Free a) (h, L) bs"
proof (cases "a = 0")
  case True
  have "heap_do (Free a) (h, L) = Some (h, L)"
    using True clients_0 [OF inv] by (simp add: rt_free_def fun_upd_idem)
  moreover have "store_step (Free a) (contents (h, L)) (contents (h, L))"
    using store_step.free [of a "contents (h, L)"] True clients_0 [OF inv] by (simp add: fun_upd_idem contents_alt)
  ultimately show ?thesis by (intro step_okI [OF _ inv]) simp_all
next
  case False
  then obtain b where b: "a = addr h b" "b \<in> live h bs" using a clients_L [OF inv] by auto
  have "heap_inv h bs" using inv by (simp add: clients_inv_def)
  then obtain h' bs' where f: "rt_free a h = Some h'" "serves h bs h' bs' {b}" "live h' bs' = live h bs - {b}"
      "heap_low h bs \<longrightarrow> heap_low h' bs'"
    using rt_free_total b by blast
  then have s: "heap_inv h' bs'" "same_area h h'" "heap_data h' = heap_data h"
    "\<forall>x\<in>live h bs - {b}. room (heap_hdr h') x = room (heap_hdr h) x" by (simp_all add: serves_def)
  have dl: "dom L = addr h ` live h bs" using inv by (simp add: clients_inv_def)
  have c: "clients_inv (h', L(a := None)) bs'"
    by (rule clients_move [OF inv s(1,2), where K = "live h bs - {b}" and N = "{}"]) (use s f(3) b dl in auto)
  have "heap_do (Free a) (h, L) = Some (h', L(a := None))" using f(1) by simp
  then show ?thesis by (rule step_okI [OF _ c s(2)]) (use f(4) in \<open>simp_all add: contents_same [OF s(3)] store_step.free low_kept_def\<close>)
qed

lemma area_word:
  assumes "clients_inv (h, L) bs" "L a = Some n" "i < n"
  shows "unat (a + word_of_nat i) = unat a + i" "unat a + n < 2 ^ 32" "i < 2 ^ 32"
proof -
  have ap: "areas_apart h L" by (rule clients_apart [OF assms(1)])
  have ok: "area_ok h" using assms(1) by (simp add: clients_inv_def heap_inv_def blocks_ok_def)
  have "unat a + n \<le> unat (heap_ptr h) + unat (heap_end h)" using ap assms(2) by (simp add: areas_apart_def)
  also have "\<dots> < 2 ^ 32" using ok unat_end [OF ok] by (simp add: area_ok_def)
  finally show "unat a + n < 2 ^ 32" .
  then show "unat (a + word_of_nat i) = unat a + i" "i < 2 ^ 32" using unat_byte [of a i] assms(3) by simp_all
qed

lemma write_step:
  assumes inv: "clients_inv (h, L) bs" and ok: "op_ok (Write a i v) L"
  shows "step_ok (Write a i v) (h, L) bs"
proof -
  obtain n where n: "L a = Some n" "i < n" using ok by (auto split: option.splits)
  let ?h = "h\<lparr>heap_data := (heap_data h)(a + word_of_nat i := v)\<rparr>"
  have ap: "areas_apart h L" by (rule clients_apart [OF inv])
  have "clients_inv (?h, L) bs" using inv by (simp add: clients_inv_def addr_def)
  moreover have "contents (?h, L) = (contents (h, L))(a \<mapsto> (bytes h a n)[i := v])"
  proof
    fix x show "contents (?h, L) x = ((contents (h, L))(a \<mapsto> (bytes h a n)[i := v])) x"
    proof (cases "x = a")
      case True
      have "a + word_of_nat j = a + word_of_nat i \<longleftrightarrow> j = i" if "j < n" for j
        using area_word(1) [OF inv n(1) that] area_word(1) [OF inv n] by (metis add_left_cancel)
      then show ?thesis using True n by (auto simp: contents_alt bytes_def nth_list_update intro!: nth_equalityI)
    next
      case False
      have "x + word_of_nat j \<noteq> a + word_of_nat i" if x: "L x = Some k" "j < k" for j k
      proof
        assume "x + word_of_nat j = a + word_of_nat i"
        then have "unat x + j = unat a + i" using area_word(1) [OF inv x] area_word(1) [OF inv n] by metis
        moreover have "unat x + k \<le> unat a \<or> unat a + n \<le> unat x" using ap x(1) n(1) False by (auto simp: areas_apart_def)
        ultimately show False using x(2) n(2) by linarith
      qed
      then show ?thesis using False by (cases "L x") (auto simp: contents_alt bytes_def)
    qed
  qed
  moreover have "store_step (Write a i v) (contents (h, L)) ((contents (h, L))(a \<mapsto> (bytes h a n)[i := v]))"
    by (rule store_step.write_area) (use n in \<open>simp_all add: contents_alt\<close>)
  ultimately show ?thesis by (intro step_okI [where h' = ?h and L' = L and bs' = bs]) (simp_all add: same_area_def low_kept_def)
qed

lemma calloc_step:
  assumes inv: "clients_inv (h, L) bs" and n: "unat c * unat n + 3 < 2 ^ 32"
  shows "step_ok (Calloc c n) (h, L) bs"
proof -
  have i: "heap_inv h bs" using inv by (simp add: clients_inv_def)
  have u: "unat (c * n) = unat c * unat n" using n by (simp add: unat_word_ariths)
  have n': "unat (c * n) + 3 < 2 ^ 32" using n u by simp
  obtain p h' where r: "rt_malloc (c * n) h = Some (p, h')"
    "if p = 0 then h' = h \<and> (c * n \<noteq> 0 \<and> heap_low h bs \<longrightarrow> \<not> fits h bs (need (c * n))) else \<exists>bs' b. granted (c * n) h bs p h' bs' b"
    using rt_malloc_total [OF i n'] by blast
  show ?thesis
  proof (cases "p = 0")
    case True
    then have "heap_do (Calloc c n) (h, L) = Some (h, L)" using r by (simp add: rt_calloc_def)
    then show ?thesis by (rule step_okI [OF _ inv]) (simp_all add: calloc_none)
  next
    case False
    then obtain bs' b where g: "granted (c * n) h bs p h' bs' b" using r(2) by auto
    note c = granted_clients [OF inv g, of "unat c * unat n"]
    have c': "clients_inv (h', L(p \<mapsto> unat c * unat n)) bs'" "same_area h h'" "L p = None" "heap_data h' = heap_data h"
      using c need_ge(2) [of "c * n"] u by simp_all
    let ?h = "zero_data p (c * n) h'"
    have lk: "low_kept (Calloc c n) h bs ?h bs'" using g by (simp add: low_kept_def granted_def zero_data_def)
    have "heap_do (Calloc c n) (h, L) = Some (?h, L(p \<mapsto> unat c * unat n))" using False r(1) by (simp add: rt_calloc_def)
    moreover have "clients_inv (?h, L(p \<mapsto> unat c * unat n)) bs'" using c'(1) by (simp add: clients_inv_def zero_data_def addr_def)
    moreover have "same_area h ?h" using c'(2) by (simp add: same_area_def zero_data_def)
    moreover have "bytes ?h p (unat c * unat n) = replicate (unat c * unat n) 0"
      using area_word(3) [OF c'(1), of p] within_area [of _ p "c * n"] u
      by (auto simp: bytes_def zero_data_def intro!: nth_equalityI)
    moreover have "contents (?h, L) = contents (h, L)"
    proof (rule contents_cong)
      fix a k i assume a: "L a = Some k" "i < k"
      have ne: "a \<noteq> p" using a(1) c'(3) by auto
      then have a': "(L(p \<mapsto> unat c * unat n)) a = Some k" using a(1) by simp
      have "unat a + k \<le> unat p \<or> unat p + unat c * unat n \<le> unat a" if "areas_apart h' (L(p \<mapsto> unat c * unat n))"
        using that a' ne unfolding areas_apart_def by (metis fun_upd_same)
      then have "unat (a + word_of_nat i) < unat p \<or> unat p + unat (c * n) \<le> unat (a + word_of_nat i)"
        using clients_apart [OF c'(1)] area_word(1) [OF c'(1) a' a(2)] a(2) u by auto
      moreover have "unat p + unat (c * n) < 2 ^ 32"
      proof (cases "unat c * unat n = 0")
        case False
        then show ?thesis using area_word(2) [OF c'(1), of p "unat c * unat n" 0] u by simp
      qed (use u unsigned_less [of p, where ?'a = nat] in \<open>auto simp del: unat_eq_zero\<close>)
      ultimately show "heap_data ?h (a + word_of_nat i) = heap_data h (a + word_of_nat i)"
        using outside_area c'(4) by (simp add: zero_data_def)
    qed
    ultimately show ?thesis
      by (intro step_okI [where h' = ?h and L' = "L(p \<mapsto> unat c * unat n)" and bs' = bs'])
        (simp_all add: store_step.calloc contents_dom c'(3) lk)
  qed
qed

lemma take_bytes: "k \<le> n \<Longrightarrow> take k (bytes h a n) = bytes h a k"
  by (simp add: bytes_def take_map)

text \<open>A copy into the block at \<open>c\<close> changes no other area.\<close>

lemma copy_keeps:
  assumes inv: "heap_inv h' bs'" and c: "c \<in> live h' bs'" "q = addr h' c" and k: "unat k \<le> room (heap_hdr h') c"
    and cl: "clients_inv (h', L') bs'" and L: "\<And>x l. L x = Some l \<Longrightarrow> x \<noteq> q \<and> L' x = Some l"
    and data: "heap_data h' = heap_data (copy_data q a k h)"
  shows "contents (h', L) = contents (h, L)"
proof (rule contents_cong)
  fix x l i assume x: "L x = Some l" "i < l"
  note Lx = L [OF x(1)]
  obtain d where d: "x = addr h' d" "d \<in> live h' bs'" using Lx clients_L [OF cl, of x] by auto
  have "l \<le> room (heap_hdr h') d" using cl Lx d by (simp add: clients_inv_def)
  moreover have "unat x + room (heap_hdr h') d \<le> unat q \<or> unat q + room (heap_hdr h') c \<le> unat x"
    using rooms_apart [OF inv d(2) c(1)] d(1) c(2) Lx by auto
  ultimately have o: "unat (x + word_of_nat i) < unat q \<or> unat q + unat k \<le> unat (x + word_of_nat i)"
    using area_word(1) [OF cl _ x(2), of x] Lx x(2) k by auto
  have ok: "blocks_ok h' bs'" "c \<in> set bs'" using inv c(1) by (simp_all add: heap_inv_def live_def)
  obtain e :: u32 where "unat (addr h' c) + room (heap_hdr h') c = unat (heap_ptr h') + unat e" "unat c + 16 \<le> unat e"
    "unat e \<le> unat (heap_end h')" "\<forall>x\<in>insert (heap_end h') (set bs'). unat x \<le> unat c \<or> unat e \<le> unat x" "aligned c"
    using ok by (rule area_place)
  then have "unat q + unat k \<le> unat (heap_ptr h') + unat (heap_end h')" using k c(2) by simp
  moreover have "area_ok h'" using ok(1) by (simp add: blocks_ok_def)
  ultimately have "unat q + unat k < 2 ^ 32" using unat_end [of h'] by (simp add: area_ok_def)
  then show "heap_data h' (x + word_of_nat i) = heap_data h (x + word_of_nat i)"
    using outside_area o data by (simp add: copy_data_def)
qed

lemma moved_step:
  assumes inv: "clients_inv (h, L) bs" and a: "a = addr h b" "b \<in> live h bs" and mv: "moved n h bs b q h'"
    and r: "rt_realloc a n h = Some (q, h')" "n \<noteq> 0" "q \<noteq> 0"
  shows "step_ok (Realloc a n) (h, L) bs"
proof -
  obtain bs' c k where m: "q = addr h c" "c \<notin> live h bs" "heap_inv h' bs'" "same_area h h'" "live h' bs' = insert c (live h bs - {b})"
    "\<forall>x\<in>live h bs - {b}. room (heap_hdr h') x = room (heap_hdr h) x" "need n \<le> room (heap_hdr h') c"
    "unat k = min (room (heap_hdr h) b) (align_up n)" "heap_data h' = heap_data (copy_data q a k h)"
    using mv a(1) unfolding moved_def by blast
  let ?L = "(L(a := None))(q \<mapsto> unat n)"
  have dl: "dom L = addr h ` live h bs" using inv by (simp add: clients_inv_def)
  have cb: "c \<noteq> b" using m(2) a(2) by auto
  have c: "clients_inv (h', ?L) bs'"
    by (rule clients_move [OF inv m(3,4), where K = "live h bs - {b}" and N = "{c}"])
      (use m a dl cb need_ge(2) [of n] in \<open>auto intro: order_trans\<close>)
  obtain j where j: "L a = Some j" using a dl by auto
  have jr: "j \<le> room (heap_hdr h) b" using inv j a by (simp add: clients_inv_def)
  have Lq: "L q = None" using m(1,2) clients_L [OF inv] by auto
  have kb: "unat k \<le> room (heap_hdr h') c" using m(7,8) align_up_ge(2) [of n] by simp
  have c': "c \<in> live h' bs'" "q = addr h' c" using m(1,5) same_addr [OF m(4)] by simp_all
  have keep: "contents (h', L(a := None)) = contents (h, L(a := None))"
    by (rule copy_keeps [OF m(3) c' kb c _ m(9)]) (use Lq in \<open>auto split: if_splits\<close>)
  have "take (min j (unat n)) (bytes h' q (unat n)) = take (min j (unat n)) (bytes h a j)"
  proof -
    have "heap_data h' (q + word_of_nat i) = heap_data h (a + word_of_nat i)" if i: "i < min j (unat n)" for i
    proof -
      have "i < 2 ^ 32" using i unsigned_less [of n, where ?'a = nat] by simp
      moreover have "i < unat k" using i jr align_up_ge(1) [of n] m(8) by simp
      ultimately show ?thesis using within_area m(9) by (simp add: copy_data_def)
    qed
    then show ?thesis by (simp add: take_bytes) (simp add: bytes_def)
  qed
  then have "store_step (Realloc a n) (contents (h, L)) ((contents (h, L))(a := None, q \<mapsto> bytes h' q (unat n)))"
    by (intro store_step.realloc [where xs = "bytes h a j"]) (use j Lq r(2) in \<open>simp_all add: contents_alt\<close>)
  moreover have "contents (h', ?L) = (contents (h, L))(a := None, q \<mapsto> bytes h' q (unat n))"
    using keep by simp
  moreover have "heap_do (Realloc a n) (h, L) = Some (h', ?L)" using r by simp
  ultimately show ?thesis by (intro step_okI [OF _ c m(4)]) simp_all
qed

lemma realloc_null_step:
  assumes inv: "clients_inv (h, L) bs" and n: "unat n + 3 < 2 ^ 32" "n \<noteq> 0"
  shows "step_ok (Realloc 0 n) (h, L) bs"
proof -
  have i: "heap_inv h bs" using inv by (simp add: clients_inv_def)
  then have "area_ok h" by (simp add: heap_inv_def blocks_ok_def)
  then have M: "unat (mem_size_aligned h) + 24 < 2 ^ 32" unfolding area_ok_def by linarith
  define s where "s = RT_ALIGN n"
  have s: "unat s = align_up n" unfolding s_def align_up_def by (rule unat_align [OF n(1)])
  have "0 < unat n" using n(2) by (simp add: unat_gt_0)
  then have s0: "s \<noteq> 0" using s align_up_ge(1) [of n] by (auto simp: unat_eq_zero [symmetric] simp del: unat_eq_zero)
  have L0: "L(0 := None) = L" using clients_0 [OF inv] by (simp add: fun_upd_idem)
  show ?thesis
  proof (cases "mem_size_aligned h < s")
    case True
    then have "heap_do (Realloc 0 n) (h, L) = Some (h, L)" using n(2) by (simp add: rt_realloc_def s_def)
    then show ?thesis by (rule step_okI [OF _ inv]) (simp_all add: realloc_none n(2))
  next
    case False
    then have "unat s + 3 < 2 ^ 32" using M by (simp add: word_less_nat_alt)
    then obtain p h' where r: "rt_malloc s h = Some (p, h')"
      "if p = 0 then h' = h \<and> (s \<noteq> 0 \<and> heap_low h bs \<longrightarrow> \<not> fits h bs (need s)) else \<exists>bs' b. granted s h bs p h' bs' b"
      using rt_malloc_total [OF i] by blast
    have e: "rt_realloc 0 n h = Some (p, h')" using False r(1) s0 by (simp add: rt_realloc_def s_def)
    show ?thesis
    proof (cases "p = 0")
      case True
      then have "heap_do (Realloc 0 n) (h, L) = Some (h, L)" using e r(2) n(2) by simp
      then show ?thesis by (rule step_okI [OF _ inv]) (simp_all add: realloc_none n(2))
    next
      case False
      then obtain bs' c where g: "granted s h bs p h' bs' c" using r(2) by auto
      have "unat n \<le> need s" using s align_up_ge(1) [of n] need_ge(2) [of s] by simp
      note c = granted_clients [OF inv g this]
      have "heap_do (Realloc 0 n) (h, L) = Some (h', L(p \<mapsto> unat n))" using False e n(2) L0 by simp
      then show ?thesis
        by (rule step_okI [OF _ c(1,2)]) (simp_all add: contents_same [OF c(4)] store_step.realloc_new contents_dom c(3))
    qed
  qed
qed

lemma uint_bound: "uint (n :: u32) + 3 < 2 ^ 32 \<longleftrightarrow> unat n + 3 < 2 ^ 32"
  "uint (c :: u32) * uint n + 3 < 2 ^ 32 \<longleftrightarrow> unat c * unat n + 3 < 2 ^ 32"
proof -
  have u: "uint m = int (unat m)" for m :: u32 by simp
  have l: "int k + 3 < 2 ^ 32 \<longleftrightarrow> k + 3 < 2 ^ 32" for k by simp
  show "uint n + 3 < 2 ^ 32 \<longleftrightarrow> unat n + 3 < 2 ^ 32" unfolding u by (rule l)
  have m: "uint c * uint n = int (unat c * unat n)" unfolding u by simp
  show "uint c * uint n + 3 < 2 ^ 32 \<longleftrightarrow> unat c * unat n + 3 < 2 ^ 32" unfolding m by (rule l)
qed

lemma realloc_owned_step:
  assumes inv: "clients_inv (h, L) bs" and a: "L a \<noteq> None" and n: "unat n + 3 < 2 ^ 32"
  shows "step_ok (Realloc a n) (h, L) bs"
proof -
  have i: "heap_inv h bs" and dl: "dom L = addr h ` live h bs" using inv by (simp_all add: clients_inv_def)
  obtain b where b: "a = addr h b" "b \<in> live h bs" using a dl by auto
  obtain q h' where r: "rt_realloc a n h = Some (q, h')"
    "if n = 0 then q = 0 \<and> (\<exists>bs'. serves h bs h' bs' {b} \<and> live h' bs' = live h bs - {b})
     else if q = 0 then h' = h
     else if q = a then \<exists>bs'. serves h bs h' bs' {b} \<and> live h' bs' = live h bs \<and> align_up n \<le> room (heap_hdr h') b
     else moved n h bs b q h'"
    using rt_realloc_total [OF i b(2) n] b(1) unfolding resized_def by blast
  consider "n = 0" | "n \<noteq> 0" "q = 0" | "n \<noteq> 0" "q \<noteq> 0" "q = a" | "n \<noteq> 0" "q \<noteq> 0" "q \<noteq> a" by auto
  then show ?thesis
  proof cases
    case 1
    obtain bs' where s: "serves h bs h' bs' {b}" "live h' bs' = live h bs - {b}" using r(2) 1 by auto
    then have s': "heap_inv h' bs'" "same_area h h'" "heap_data h' = heap_data h"
      "\<forall>x\<in>live h bs - {b}. room (heap_hdr h') x = room (heap_hdr h) x" by (simp_all add: serves_def)
    have c: "clients_inv (h', L(a := None)) bs'"
      by (rule clients_move [OF inv s'(1,2), where K = "live h bs - {b}" and N = "{}"]) (use s' s(2) b dl in auto)
    have "heap_do (Realloc a n) (h, L) = Some (h', L(a := None))" using 1 r(1) by simp
    then show ?thesis
      by (rule step_okI [OF _ c s'(2)]) (simp_all add: contents_same [OF s'(3)] 1 store_step.realloc_free)
  next
    case 2
    then have "heap_do (Realloc a n) (h, L) = Some (h, L)" using r by simp
    then show ?thesis by (rule step_okI [OF _ inv]) (simp_all add: realloc_none 2)
  next
    case 3
    obtain bs' where s: "serves h bs h' bs' {b}" "live h' bs' = live h bs" "align_up n \<le> room (heap_hdr h') b" using r(2) 3 by auto
    then have s': "heap_inv h' bs'" "same_area h h'" "heap_data h' = heap_data h"
      "\<forall>x\<in>live h bs - {b}. room (heap_hdr h') x = room (heap_hdr h) x" by (simp_all add: serves_def)
    have c: "clients_inv (h', L(a \<mapsto> unat n)) bs'"
      by (rule clients_move [OF inv s'(1,2), where K = "live h bs - {b}" and N = "{b}"])
        (use s' s b dl align_up_ge(1) [of n] in auto)
    obtain j where j: "L a = Some j" using b dl by auto
    have "store_step (Realloc a n) (contents (h, L)) ((contents (h, L))(a := None, a \<mapsto> bytes h a (unat n)))"
      by (rule store_step.realloc [where xs = "bytes h a j"]) (use j 3 in \<open>simp_all add: contents_alt take_bytes\<close>)
    then have st: "store_step (Realloc a n) (contents (h, L)) (contents (h', L(a \<mapsto> unat n)))"
      using s'(3) by (simp add: contents_same [OF s'(3)] bytes_def)
    have "heap_do (Realloc a n) (h, L) = Some (h', L(a \<mapsto> unat n))" using 3 r(1) by simp
    then show ?thesis by (rule step_okI [OF _ c s'(2) st]) simp
  next
    case 4
    then show ?thesis using moved_step [OF inv b _ r(1)] r(2) by simp
  qed
qed

lemma realloc_step:
  assumes inv: "clients_inv (h, L) bs" and ok: "op_ok (Realloc a n) L"
  shows "step_ok (Realloc a n) (h, L) bs"
proof -
  have n: "unat n + 3 < 2 ^ 32" using ok uint_bound(1) [of n] by simp
  consider "a = 0" "n \<noteq> 0" | "a = 0" "n = 0" | "a \<noteq> 0" by auto
  then show ?thesis
  proof cases
    case 1 then show ?thesis using realloc_null_step [OF inv n] by simp
  next
    case 2
    have "RT_ALIGN 0 = 0" by (simp add: RT_ALIGN_def)
    then have "heap_do (Realloc a n) (h, L) = Some (h, L(a := None))" using 2 by (simp add: rt_realloc_def rt_free_def)
    moreover have "L(a := None) = L" using 2 clients_0 [OF inv] by (simp add: fun_upd_idem)
    moreover have "store_step (Realloc a n) (contents (h, L)) (contents (h, L(a := None)))"
      using 2(2) by (simp add: store_step.realloc_free)
    ultimately show ?thesis by (intro step_okI [OF _ inv]) simp_all
  next
    case 3
    then show ?thesis using realloc_owned_step [OF inv _ n] ok by simp
  qed
qed

lemma client_step:
  assumes "clients_inv s bs" "op_ok x (snd s)"
  shows "step_ok x s bs"
proof (cases s)
  case (Pair h L)
  then show ?thesis
    using assms malloc_step calloc_step free_step realloc_step write_step uint_bound
    by (cases x) (auto simp del: heap_do.simps)
qed

lemma client_run:
  assumes "clients_inv s bs" "ops_ok xs s"
  shows "\<exists>t cs. heap_run xs s = Some t \<and> clients_inv t cs \<and> same_area (fst s) (fst t) \<and> store_run xs (contents s) (contents t)
    \<and> ((\<forall>a n. Realloc a n \<notin> set xs) \<and> heap_low (fst s) bs \<longrightarrow> heap_low (fst t) cs)"
  using assms
proof (induction xs arbitrary: s bs)
  case Nil
  then show ?case by (auto intro: store_run.no_step)
next
  case (Cons x xs)
  obtain t cs where t: "heap_do x s = Some t" "clients_inv t cs" "same_area (fst s) (fst t)" "store_step x (contents s) (contents t)"
    "low_kept x (fst s) bs (fst t) cs"
    using client_step [OF Cons.prems(1), of x] Cons.prems(2) unfolding step_ok_def ops_ok.simps by blast
  have "ops_ok xs t" using Cons.prems(2) t(1) by simp
  then obtain u ds where u: "heap_run xs t = Some u" "clients_inv u ds" "same_area (fst t) (fst u)" "store_run xs (contents t) (contents u)"
    "(\<forall>a n. Realloc a n \<notin> set xs) \<and> heap_low (fst t) cs \<longrightarrow> heap_low (fst u) ds"
    using Cons.IH [OF t(2)] by blast
  have "same_area (fst s) (fst u)" using t(3) u(3) by (simp add: same_area_def)
  moreover have "heap_run (x # xs) s = Some u" using t(1) u(1) by simp
  moreover have "store_run (x # xs) (contents s) (contents u)" using t(4) u(4) by (rule store_run.one_step)
  moreover have "heap_low (fst u) ds" if "\<forall>a n. Realloc a n \<notin> set (x # xs)" "heap_low (fst s) bs"
  proof -
    have "\<forall>a n. x \<noteq> Realloc a n" "\<forall>a n. Realloc a n \<notin> set xs" using that(1) by auto
    then show ?thesis using t(5) u(5) that(2) by (simp add: low_kept_def)
  qed
  ultimately show ?case using u(2) by blast
qed

end
