(* ===== verification/RttHeapServe.thy ===== *)
theory RttHeapServe
  imports RttHeapStep
begin

text \<open>What the clients of the heap are promised, from \<open>rt_system_heap_init\<close> on.\<close>

section \<open>The heap at the start\<close>

definition heap_fits :: "u32 \<Rightarrow> u32 \<Rightarrow> bool" where
  "heap_fits b e \<longleftrightarrow> 0 < b \<and> unat b + 3 < 2 ^ 32 \<and> unat (RT_ALIGN b) + 36 \<le> unat (RT_ALIGN_DOWN e)"

lemma init_inv:
  fixes h0 :: heap
  assumes "heap_fits b e"
  defines "h \<equiv> rt_system_heap_init b e h0"
  shows "heap_inv h [0]" "heap_low h [0]" "live h [0] = {}" "heap_ptr h = RT_ALIGN b"
    "unat (mem_size_aligned h) + 24 + unat (RT_ALIGN b) = unat (RT_ALIGN_DOWN e)"
proof -
  let ?b = "RT_ALIGN b" and ?e = "RT_ALIGN_DOWN e"
  have le: "unat ?b + 36 \<le> unat ?e" and b: "0 < unat b" "unat b + 3 < 2 ^ 32"
    using assms(1) by (simp_all add: heap_fits_def unat_gt_0 word_gt_0)
  define M where "M = ?e - ?b - 2 * 12"
  have u: "unat (?e - ?b) = unat ?e - unat ?b" using le by (simp add: unat_sub word_le_nat_alt)
  then have "unat (?e - ?b - 24) = unat ?e - unat ?b - 24" using le by (subst unat_sub) (simp_all add: word_le_nat_alt)
  then have M: "unat M + 24 + unat ?b = unat ?e" "12 \<le> unat M" using le by (simp_all add: M_def)
  have e24: "unat (?e - 24) = unat ?e - 24" using le by (simp add: unat_sub word_le_nat_alt)
  have c: "2 * 12 < ?e \<and> ?b \<le> ?e - 2 * 12" using le e24 by (simp add: word_less_nat_alt word_le_nat_alt)
  define H where "H = (heap_hdr h0)(0 \<mapsto> \<lparr>hm_magic = HEAP_MAGIC, hm_used = 0, hm_next = M + 12, hm_prev = 0\<rparr>,
    M + 12 \<mapsto> \<lparr>hm_magic = HEAP_MAGIC, hm_used = 1, hm_next = M + 12, hm_prev = M + 12\<rparr>)"
  have h: "h = h0\<lparr>mem_size_aligned := M, heap_ptr := ?b, heap_hdr := H, lfree := 0\<rparr>"
    using c by (simp add: h_def rt_system_heap_init_def Let_def M_def H_def)
  have f: "heap_ptr h = ?b" "mem_size_aligned h = M" "heap_hdr h = H" "lfree h = 0" unfolding h by simp_all
  have lim: "unat ?e < 2 ^ 32" using unsigned_less [of ?e, where ?'a = nat] by simp
  have "unat (M + 12) = unat M + 12" using M lim by (simp add: unat_word_ariths)
  then have em: "heap_end h = M + 12" "M + 12 \<noteq> 0" "unat (heap_end h) = unat M + 12" using f by (auto simp: heap_end_def)
  have ab: "unat ?b = (unat b + 3) div 4 * 4" by (rule unat_align [OF b(2)])
  have "4 dvd unat ?b" "4 dvd unat ?e" using ab by (simp_all add: unat_align_down)
  moreover have "unat M = unat ?e - (unat ?b + 24)" using M(1) by simp
  ultimately have "aligned ?b" "aligned M" by (simp_all add: aligned_def)
  moreover have "0 < unat ?b" using ab b(1) by simp
  ultimately have a: "area_ok h" using M lim f by (simp add: area_ok_def)
  have bl: "block H 0 0 (M + 12)" using em M(2) f by (simp add: block_def H_def aligned_def)
  have "blocks_ok h [0]" using a bl f em by (simp add: blocks_ok_def H_def)
  moreover have fr: "free_at H 0" using em by (simp add: free_at_def H_def)
  ultimately show "heap_inv h [0]" using f em by (simp add: heap_inv_def no_free_pair_def lfree_ok_def)
  show "heap_low h [0]" "live h [0] = {}" using fr f by (simp_all add: heap_low_def live_def)
  show "heap_ptr h = ?b" "unat (mem_size_aligned h) + 24 + unat ?b = unat ?e" using f M by simp_all
qed

lemma init_clients: "heap_fits b e \<Longrightarrow> clients_inv (rt_system_heap_init b e h0, Map.empty) [0]"
  by (simp add: clients_inv_def init_inv)

lemma contents_empty: "contents (h, Map.empty) = Map.empty"
  by (auto simp: contents_alt)

lemma run_from_init:
  assumes "heap_fits b e" "ops_ok xs (rt_system_heap_init b e h0, Map.empty)"
  obtains h L cs where "heap_run xs (rt_system_heap_init b e h0, Map.empty) = Some (h, L)" "clients_inv (h, L) cs"
    "same_area (rt_system_heap_init b e h0) h" "store_run xs Map.empty (contents (h, L))"
    "(\<forall>a n. Realloc a n \<notin> set xs) \<longrightarrow> heap_low h cs"
proof -
  obtain t cs where "heap_run xs (rt_system_heap_init b e h0, Map.empty) = Some t" "clients_inv t cs"
    "same_area (rt_system_heap_init b e h0) (fst t)" "store_run xs (contents (rt_system_heap_init b e h0, Map.empty)) (contents t)"
    "(\<forall>a n. Realloc a n \<notin> set xs) \<longrightarrow> heap_low (fst t) cs"
    using client_run [OF init_clients [OF assms(1)] assms(2)] init_inv(2) [OF assms(1), of h0] unfolding fst_conv by blast
  then show thesis using that by (cases t) (simp add: contents_empty)
qed

text \<open>A heap without live blocks is one free block.\<close>

lemma no_live_block:
  assumes "heap_inv h bs" "live h bs = {}"
  shows "bs = [0]" "lfree h = 0"
    "heap_hdr h 0 = Some \<lparr>hm_magic = HEAP_MAGIC, hm_used = 0, hm_next = heap_end h, hm_prev = 0\<rparr>"
proof -
  have ok: "blocks_ok h bs" "no_free_pair (heap_hdr h) bs" "lfree_ok h bs" using assms(1) by (simp_all add: heap_inv_def)
  have fr: "free_at (heap_hdr h) b" if "b \<in> set bs" for b using assms(2) that by (auto simp: live_def)
  obtain zs where bs: "bs = 0 # zs" using ok(1) by (cases bs) (auto simp: blocks_ok_def)
  have "zs = []"
  proof (cases zs)
    case (Cons z ws)
    then have "used_at (heap_hdr h) 0 \<or> used_at (heap_hdr h) z" using ok(2) bs by (simp add: no_free_pair_def)
    then show ?thesis using fr bs Cons by auto
  qed
  then show b: "bs = [0]" using bs by simp
  show "lfree h = 0" using ok(3) b assms(2) by (simp add: lfree_ok_def split: if_splits)
  have "block (heap_hdr h) 0 0 (heap_end h)" using ok(1) b by (simp add: blocks_ok_def)
  then obtain m where m: "heap_hdr h 0 = Some m" "hm_magic m = HEAP_MAGIC" "hm_prev m = 0" "hm_next m = heap_end h"
    by (auto simp: block_def)
  have "hm_used m = 0" using fr [of 0] b m(1) by (simp add: free_at_def)
  then show "heap_hdr h 0 = Some \<lparr>hm_magic = HEAP_MAGIC, hm_used = 0, hm_next = heap_end h, hm_prev = 0\<rparr>"
    using m by simp
qed

text \<open>The heap of the board: from the end of the program's data, which the linker gives, to the end of the RAM.\<close>

definition STM32_SRAM_END :: u32 where
  "STM32_SRAM_END = 0x20000000 + 16 * 1024"

lemma board_heap_fits:
  assumes "0x20000000 \<le> b" "b \<le> STM32_SRAM_END - 40"
  shows "heap_fits b STM32_SRAM_END"
proof -
  have b: "0x20000000 \<le> unat b" "unat b \<le> 0x20003fd8" using assms by (simp_all add: STM32_SRAM_END_def word_le_nat_alt)
  have "unat (RT_ALIGN_DOWN STM32_SRAM_END) = 0x20004000" by (simp add: unat_align_down STM32_SRAM_END_def)
  moreover have "unat (RT_ALIGN b) = (unat b + 3) div 4 * 4" by (rule unat_align) (use b in simp)
  moreover have "0 < b" using b(1) by (simp add: word_less_nat_alt)
  moreover have "(unat b + 3) div 4 * 4 \<le> unat b + 3" by simp
  ultimately show ?thesis unfolding heap_fits_def using b by simp
qed

section \<open>A small heap\<close>

text \<open>Between two addresses that are not aligned, 228 bytes; before the start, all variables are 0.\<close>

definition heap_off :: heap where
  "heap_off = \<lparr>heap_ptr = 0, mem_size_aligned = 0, lfree = 0, heap_hdr = Map.empty, heap_data = \<lambda>_. 0\<rparr>"

definition small_heap :: "heap \<times> areas" where
  "small_heap = (rt_system_heap_init 0x20000801 0x20000903 heap_off, Map.empty)"

definition small_requests :: "heap_op list" where
  "small_requests = [Malloc 20, Calloc 3 4, Write 0x20000810 19 7, Realloc 0x20000810 60, Free 0x20000830]"

lemma small_fits: "heap_fits 0x20000801 0x20000903"
  by (simp add: heap_fits_def RT_ALIGN_def RT_ALIGN_DOWN_def)

lemma small_ok: "ops_ok small_requests small_heap"
  by code_simp

lemma heap_run_some:
  assumes "map_option (\<lambda>s. f (fst s)) (heap_run xs s) = Some v"
  obtains h L where "heap_run xs s = Some (h, L)" "f h = v"
  using assms by (cases "heap_run xs s") auto

section \<open>The promises\<close>

text \<open>C12.  From its initialisation on, the heap serves every sequence of requests of clients that release and write only
  areas they own and ask for less than \<open>2 ^ 32 - 3\<close> bytes (a larger size wraps in \<open>RT_ALIGN\<close>, see \<open>malloc_wraps\<close>): each operation returns, and the areas handed out are aligned, lie between the ends of the
  heap, and overlap neither each other nor a header of the list.\<close>

theorem heap_serves_clients:
  assumes "heap_fits b e" "ops_ok xs (rt_system_heap_init b e h0, Map.empty)"
  shows "\<exists>h L. heap_run xs (rt_system_heap_init b e h0, Map.empty) = Some (h, L) \<and> areas_apart h L
    \<and> unat b \<le> unat (heap_ptr h) \<and> unat (heap_ptr h) + unat (heap_end h) + 12 \<le> unat e"
proof -
  obtain h L cs where r: "heap_run xs (rt_system_heap_init b e h0, Map.empty) = Some (h, L)" "clients_inv (h, L) cs"
    "same_area (rt_system_heap_init b e h0) h" "store_run xs Map.empty (contents (h, L))"
    "(\<forall>a n. Realloc a n \<notin> set xs) \<longrightarrow> heap_low h cs"
    using assms by (rule run_from_init)
  note i = init_inv(4,5) [OF assms(1), of h0]
  have "unat (RT_ALIGN b) = (unat b + 3) div 4 * 4" using unat_align assms(1) by (simp add: heap_fits_def)
  then have "unat b \<le> unat (heap_ptr h)" using r(3) i(1) by (simp add: same_area_def)
  moreover have "unat (heap_end h) = unat (mem_size_aligned h) + 12"
    using r(2) unat_end by (simp add: clients_inv_def heap_inv_def blocks_ok_def)
  then have "unat (heap_ptr h) + unat (heap_end h) + 12 = unat (RT_ALIGN_DOWN e)"
    using r(3) i by (simp add: same_area_def)
  then have "unat (heap_ptr h) + unat (heap_end h) + 12 \<le> unat e" by (simp add: unat_align_down)
  ultimately show ?thesis using r(1) clients_apart [OF r(2)] by blast
qed

theorem heap_serves_clients_witness:
  "\<exists>h L. heap_run small_requests small_heap = Some (h, L) \<and> areas_apart h L"
  using heap_serves_clients [OF small_fits small_ok [unfolded small_heap_def]] unfolding small_heap_def by blast

text \<open>C13.  The heap implements a store of byte arrays: what the clients see of a sequence of requests (with the sizes
  and the discipline of C12) is a sequence of steps
  of the store, in which an allocation adds an array (or fails), \<open>rt_calloc\<close> one of zeroes, \<open>rt_realloc\<close> keeps the bytes
  up to the smaller size, and no request changes an array it does not name.\<close>

theorem heap_implements_store:
  assumes "heap_fits b e" "ops_ok xs (rt_system_heap_init b e h0, Map.empty)"
  shows "\<exists>s. heap_run xs (rt_system_heap_init b e h0, Map.empty) = Some s \<and> store_run xs Map.empty (contents s)"
  using assms by (rule run_from_init) blast

theorem heap_implements_store_witness:
  "\<exists>s. heap_run small_requests small_heap = Some s \<and> store_run small_requests Map.empty (contents s)"
  using heap_implements_store [OF small_fits small_ok [unfolded small_heap_def]] unfolding small_heap_def by blast

text \<open>C14.  When the clients have returned every area, in any order, the heap is one free block again, as it was at
  first, and a request of any size that fitted then is served.\<close>

theorem heap_all_returned:
  assumes "heap_fits b e" "ops_ok xs (rt_system_heap_init b e h0, Map.empty)"
    and "heap_run xs (rt_system_heap_init b e h0, Map.empty) = Some (h, Map.empty)"
  shows "lfree h = 0 \<and> heap_hdr h 0 = Some \<lparr>hm_magic = HEAP_MAGIC, hm_used = 0, hm_next = heap_end h, hm_prev = 0\<rparr>
    \<and> (\<forall>n. n \<noteq> 0 \<and> unat n + 3 < 2 ^ 32 \<and> need n < unat (mem_size_aligned h) \<longrightarrow> (\<exists>p h'. rt_malloc n h = Some (p, h') \<and> p \<noteq> 0))"
proof -
  obtain h1 L cs where r: "heap_run xs (rt_system_heap_init b e h0, Map.empty) = Some (h1, L)" "clients_inv (h1, L) cs"
    "same_area (rt_system_heap_init b e h0) h1" "store_run xs Map.empty (contents (h1, L))"
    "(\<forall>a n. Realloc a n \<notin> set xs) \<longrightarrow> heap_low h1 cs"
    using assms(1,2) by (rule run_from_init)
  then have "clients_inv (h, Map.empty) cs" using assms(3) by simp
  then have i: "heap_inv h cs" "live h cs = {}" by (simp_all add: clients_inv_def)
  note n = no_live_block [OF i]
  have low: "heap_low h cs" using n(1,2) by (simp add: heap_low_def)
  have "\<exists>p h'. rt_malloc n h = Some (p, h') \<and> p \<noteq> 0"
    if n: "n \<noteq> 0" "unat n + 3 < 2 ^ 32" "need n < unat (mem_size_aligned h)" for n
  proof -
    have "area_ok h" using i(1) by (simp add: heap_inv_def blocks_ok_def)
    then have "fits h cs (need n)"
      using n(3) \<open>heap_hdr h 0 = _\<close> \<open>cs = [0]\<close> by (simp add: fits_def free_at_def room_def unat_end)
    then show ?thesis using rt_malloc_total [OF i(1) n(2)] n(1) low by (auto split: if_splits)
  qed
  then show ?thesis using n by blast
qed

theorem heap_all_returned_witness:
  "\<exists>h. heap_run [Malloc 20, Free 0x20000810] small_heap = Some (h, Map.empty) \<and> lfree h = 0
     \<and> (\<exists>p h'. rt_malloc 200 h = Some (p, h') \<and> p \<noteq> 0)"
proof -
  have m: "map_option fst (rt_malloc 20 (fst small_heap)) = Some 0x20000810"
    "(case rt_malloc 20 (fst small_heap) of None \<Rightarrow> None | Some (p, h) \<Rightarrow> map_option mem_size_aligned (rt_free p h)) = Some 228"
    by code_simp+
  from m(1) obtain h1 where h1: "rt_malloc 20 (fst small_heap) = Some (0x20000810, h1)" by auto
  then obtain h where h: "rt_free 0x20000810 h1 = Some h" "mem_size_aligned h = 228" using m(2) by auto
  have e: "small_heap = (fst small_heap, Map.empty)" by (simp add: small_heap_def)
  have run: "heap_run [Malloc 20, Free 0x20000810] small_heap = Some (h, Map.empty)"
    by (subst e) (simp add: h1 h fun_upd_idem)
  have ok: "ops_ok [Malloc 20, Free 0x20000810] small_heap" by code_simp
  have "need 200 = 200" by (simp add: need_def)
  then show ?thesis
    using heap_all_returned [OF small_fits ok [unfolded small_heap_def] run [unfolded small_heap_def]] run h(2) by simp
qed

text \<open>C15.  \<open>rt_malloc\<close> misses no free block that its search accepts: after any sequence of requests without
  \<open>rt_realloc\<close>, in whatever order the areas came and went, it succeeds exactly when the list has a
  free block with the room for the request, a block in the middle of the heap with at least the
  \<open>need n\<close> bytes (the size rounded up to a multiple of 4, and at least 12) and the last block of
  the heap with more than that.  (The code refuses the last block to a request of exactly its
  size, \<open>perfect_fit_refused\<close>; after an \<open>rt_realloc\<close> that cuts a block the search can miss the
  rest, \<open>realloc_loses_room\<close>.)\<close>

theorem malloc_finds_room:
  assumes "heap_fits b e" "ops_ok xs (rt_system_heap_init b e h0, Map.empty)" "\<forall>a n. Realloc a n \<notin> set xs"
    and "heap_run xs (rt_system_heap_init b e h0, Map.empty) = Some (h, L)" "n \<noteq> 0" "unat n + 3 < 2 ^ 32"
  shows "\<exists>p h'. rt_malloc n h = Some (p, h') \<and> (p \<noteq> 0 \<longleftrightarrow> (\<exists>x. takes h (need n) x))"
proof -
  obtain h1 L1 cs where r: "heap_run xs (rt_system_heap_init b e h0, Map.empty) = Some (h1, L1)" "clients_inv (h1, L1) cs"
    "same_area (rt_system_heap_init b e h0) h1" "store_run xs Map.empty (contents (h1, L1))"
    "(\<forall>a n. Realloc a n \<notin> set xs) \<longrightarrow> heap_low h1 cs"
    using assms(1,2) by (rule run_from_init)
  then have i: "heap_inv h cs" "heap_low h cs" using assms(3,4) by (simp_all add: clients_inv_def)
  then have ok: "blocks_ok h cs" by (simp add: heap_inv_def)
  obtain p h' where "rt_malloc n h = Some (p, h')"
    "if p = 0 then h' = h \<and> (n \<noteq> 0 \<and> heap_low h cs \<longrightarrow> \<not> fits h cs (need n)) else \<exists>bs' b. granted n h cs p h' bs' b"
    using rt_malloc_total [OF i(1) assms(6)] by blast
  then have "rt_malloc n h = Some (p, h') \<and> (p \<noteq> 0 \<longleftrightarrow> fits h cs (need n))"
    using assms(5) i(2) by (auto simp: granted_def split: if_splits)
  then show ?thesis unfolding takes_fits [OF ok] by blast
qed

theorem malloc_finds_room_witness:
  "\<exists>h L. heap_run [Malloc 20, Malloc 12, Free 0x20000810] small_heap = Some (h, L)
     \<and> (\<exists>p h'. rt_malloc 8 h = Some (p, h') \<and> p \<noteq> 0)"
proof -
  let ?xs = "[Malloc 20, Malloc 12, Free 0x20000810]" and ?m = "\<lparr>hm_magic = HEAP_MAGIC, hm_used = 0, hm_next = 32, hm_prev = 0\<rparr>"
  have "map_option (\<lambda>s. (heap_hdr (fst s) 0, heap_end (fst s))) (heap_run ?xs small_heap) = Some (Some ?m, 240)"
    by code_simp
  then obtain h L where h: "heap_run ?xs small_heap = Some (h, L)" "heap_hdr h 0 = Some ?m" "heap_end h = 240"
    using heap_run_some [of "\<lambda>h. (heap_hdr h 0, heap_end h)"] by blast
  have ok: "ops_ok ?xs small_heap" by code_simp
  have "need 8 = 12" by (simp add: need_def)
  then have t: "takes h (need 8) 0" using h(2,3) in_list.first [of h] by (simp add: takes_def)
  have "\<exists>p h'. rt_malloc 8 h = Some (p, h') \<and> (p \<noteq> 0 \<longleftrightarrow> (\<exists>x. takes h (need 8) x))"
    by (rule malloc_finds_room [OF small_fits ok [unfolded small_heap_def] _ h(1) [unfolded small_heap_def]]) simp_all
  then show ?thesis using h(1) t by blast
qed

section \<open>Where the promises end\<close>

text \<open>\<open>rt_realloc\<close> cuts a block without lowering \<open>lfree\<close>: the bytes given back are not found by the next request, although
  they have the room.\<close>

lemma realloc_loses_room:
  "(case heap_run [Malloc 212, Realloc 0x20000810 12] small_heap of
      None \<Rightarrow> False
    | Some (h, L) \<Rightarrow> lfree h = heap_end h \<and> map_option fst (rt_malloc 12 h) = Some 0
        \<and> heap_hdr h 24 = Some \<lparr>hm_magic = HEAP_MAGIC, hm_used = 0, hm_next = 240, hm_prev = 0\<rparr>)"
  by code_simp

text \<open>A request near the end of the address range wraps to 0 in \<open>RT_ALIGN\<close> and gets a block of 12 bytes.\<close>

lemma malloc_wraps:
  "(case rt_malloc 0xfffffffd (fst small_heap) of
      None \<Rightarrow> False | Some (p, h) \<Rightarrow> p = 0x20000810 \<and> map_option hm_next (heap_hdr h 0) = Some 24)"
  by code_simp

text \<open>A free block at the end of the heap is refused to a request of exactly its size.\<close>

lemma perfect_fit_refused:
  "map_option fst (rt_malloc 228 (fst small_heap)) = Some 0 \<and> room (heap_hdr (fst small_heap)) 0 = 228"
  by code_simp

end
