(* ===== verification/Spec2Isabelle.thy ===== *)
theory Spec2Isabelle
  imports Crc16 TypeConvert InFlashApp Usart PicocapApp AdcApp ModbusHolding AppLoop BootUpgrade
    RttDevices RttSystem RttHeapServe
begin

text \<open>
  The firmware of a capacitive liquid-level sensor (STM32F072) and its boot loader, in the bare-metal
  configuration (\<open>USING_RT_THREAD_OS\<close> undefined) and, for the sensor, as threads of the
  operating system RT-Thread (\<open>src/BC_Cap_Sensor_RTT\<close>, the same application files).  The sensor program under
  \<open>src/BC_Cap_Sensor\<close> collects the capacitance from a converter chip over SPI, filters it,
  converts it to a level and an analogue output, measures the temperature, and serves Modbus RTU
  requests on an RS-485 line; its parameters are kept in three copies in the flash.  The boot
  loader under \<open>src/STM32F072_BOOT\<close> receives a new application in Modbus ASCII messages,
  programs it into the flash and jumps to it.  Both programs share one flash: the boot loader's
  code lies below \<open>0x08003000\<close>, the application from there to \<open>0x0801E000\<close>, then a page of flags
  of the boot loader, then three pages with the parameters of the sensor.

  \<^bold>\<open>How the code is modelled.\<close>  A C function is a function on a state record and has the name it
  has in the source (with a prefix \<open>boot_\<close> where both programs have it with different
  configurations).  Integers are words of their C width; where C promotes to \<open>int\<close> the model
  computes on \<open>uint\<close> or \<open>sint\<close>.  The result type is an option wherever the code can leave the
  defined behaviour of C: \<open>None\<close> is an access outside an array, an undefined conversion from
  \<open>float\<close>, or a busy wait that nothing will end.  A theorem that something returns says
  \<open>\<exists>s'. f s = Some s'\<close>.  Static variables are fields of the record of their component; a loop is a
  recursive function with the name of its C function's purpose, over the number of its
  remaining rounds.  What is behind the drivers of the chip maker is a parameter: \<open>hal_flash\<close>
  (flash), \<open>hal_ob\<close> (option bytes) and \<open>hal_spi\<close> (SPI with the converter behind it); for the flash,
  the chip maker's driver itself is modelled down to the registers and shown to be such a \<open>hal_flash\<close>.

  \<^bold>\<open>Theories.\<close>
  \<^item> \<open>Prelude\<close>: bounds-checked array access, bytes of words, the option monad.
  \<^item> \<open>FlashHal\<close>: the flash, the driver \<open>hal_flash\<close> and two interfaces, the locales \<open>flash_hal\<close>
    (laws that hold whatever fails) and \<open>reliable_flash\<close> (a driver that does not fail on good
    states).  The flash is also mapped at address 0, as the device does at reset (\<open>phys\<close>).
  \<^item> \<open>HalFlash\<close> (\<open>stm32f0xx_hal_flash.c\<close>, \<open>stm32f0xx_hal_flash_ex.c\<close>): the flash controller and ST's
    driver for it.  On an idle controller the driver refines what the abstract operations do to
    the memory, which interprets both interfaces; \<open>st_hal\<close> is the driver with a controller that is
    busy for 40 ms per operation, and every witness that needs a flash runs on it.
  \<^item> \<open>InFlash\<close> (\<open>BSP/Src/In_Flash.c\<close>): bytes and pages.  \<open>InFlashApp\<close> (\<open>In_Flash_app.c\<close>):
    triple writes, comparison and repair of the three copies, defaults.
  \<^item> \<open>Crc16\<close>, \<open>TypeConvert\<close>, \<open>Float32\<close>: the checksum with its tables, the conversions and the
    trimmed average of \<open>TypeConvert.c\<close>, IEEE-754 arithmetic on rationals with rounding.
  \<^item> \<open>Usart\<close> (\<open>usart_bsp.c\<close>, \<open>usart_app.c\<close>): circular DMA reception, the end of a frame by
    receiver time-out, transmission with the driver-enable pin; interrupts are operations.
  \<^item> \<open>PicocapApp\<close> (\<open>Picocap_app.c\<close>): two-stage filter and conversion.  \<open>AdcApp\<close> (\<open>adc_app.c\<close>,
    \<open>dac_bsp.c\<close>): averages, temperature, output.
  \<^item> \<open>PicocapData\<close>, \<open>Picocap\<close> (\<open>Picocap.c\<close>, \<open>spi_bsp.c\<close>): the firmware of the converter, its
    download, configuration and read-out.  \<open>PicocapChip\<close>: the locales \<open>pcap_chip\<close> and
    \<open>reliable_pcap\<close> with what the driver achieves under them, and a simulated chip.
  \<^item> \<open>ModbusRtu\<close>, \<open>ModbusRead\<close>, \<open>ModbusCalib\<close>, \<open>ModbusWrite\<close>, \<open>ModbusHandle\<close> (\<open>ModBusRtu.c\<close>,
    \<open>ModBus_Conf.c\<close>): the state, the function codes 03, 04, 26, 2B, the codes 05 and 25 with the
    calibrations, the codes 10, 27, 2A, 41, dispatch and automatic upload.  \<open>ModbusHandler\<close>
    collects what every handler keeps; \<open>ModbusHolding\<close> relates the holding registers to an
    abstract memory.
  \<^item> \<open>AppMain\<close>, \<open>AppLoop\<close> (\<open>Src/main.c\<close>): initialisation and main loop as a step relation that
    interleaves the loop with the interrupts, and what holds in every reachable state.
  \<^item> \<open>BootPort\<close>, \<open>BootCommon\<close>, \<open>BootAscii\<close>, \<open>BootFlash\<close>, \<open>BootMenu\<close>, \<open>BootMain\<close>
    (\<open>usart_app.c\<close>, \<open>common.c\<close>, \<open>modbus_ascii.c\<close>, \<open>flash_if.c\<close> with \<open>In_Flash.c\<close>, \<open>menu_uart.c\<close>
    and \<open>main.c\<close> of the boot loader): frame format, decoding, programming, the four messages, the
    main loop as a step relation.  \<open>BootUpgrade\<close>: whole upgrade sessions.
  \<^item> \<open>RttKernel\<close> (\<open>device.c\<close>, \<open>ipc.c\<close> of RT-Thread): the device interface with the locale
    \<open>standard_driver\<close>, semaphores with their lists of waiting threads.  \<open>RttDevices\<close>: converter, ADC
    and DAC as devices (interpretations of that locale), start-up and the measuring threads.
    \<open>RttThreads\<close>: the two Modbus threads as a step relation that interleaves them by priority with
    the interrupts, at the points where they can block or where they share the send buffer.
  \<^item> \<open>RttSched\<close> (\<open>scheduler.c\<close>, \<open>thread.c\<close>, \<open>timer.c\<close>, \<open>clock.c\<close>, \<open>__rt_ffs\<close>): ready queues, scheduler,
    threads and their timers, system tick.  \<open>RttTick\<close>: the invariant of that kernel and what each
    operation does to it.  \<open>RttRun\<close> (\<open>rtthread_startup\<close>): sequences of operations from the start of the
    system.  \<open>RttSystem\<close>: the Modbus threads on that kernel, which simulates \<open>rtt_step\<close>.
  \<^item> \<open>RttMem\<close> (\<open>mem.c\<close>): the heap, headers of blocks by their offsets, and the operations on it.  \<open>RttHeap\<close>:
    its list of blocks and its invariant; \<open>RttHeapOps\<close>, \<open>RttHeapFree\<close>: allocation, release and resizing on it;
    \<open>RttHeapClient\<close>, \<open>RttHeapStep\<close>: clients with the areas they own, and the store of byte arrays they see;
    \<open>RttHeapServe\<close>: what they are promised from \<open>rt_system_heap_init\<close> on.
  \<^item> This theory: both programs on one device.

  \<^bold>\<open>What is shown.\<close>  Safety over every behaviour of the drivers: the sensor starts transmissions
  only with a message and its correct checksum in the send buffer, the sensor program writes only
  the parameter area of the flash, the filter and the output stay in range (\<open>device_safe\<close>,
  \<open>request_safe\<close>); the boot loader writes only the application and its page of flags, and its own code
  survives every session and restart in which no data packet comes before an erase message
  (\<open>boot_session_safe\<close>, \<open>boot_code_permanent\<close>); with such a packet it programs over its own code
  (\<open>early_data_hits_boot_code\<close>).  Progress: the requests that
  return, the main loop coming round, bounded retries.  Functional behaviour end to end: register
  reads and writes against the abstract memory, repair by majority, conversion, upload,
  upgrade and start of a firmware.  Equivalence of the table-driven checksum with the bitwise
  one, and of the measuring threads and the start-up of the RT-Thread variant with the bare-metal
  program; mutual exclusion and progress of its transmissions; the kernel below them, which runs the
  thread of the highest priority and wakes sleeping threads on time (\<open>kernel_runs_threads\<close>); the heap, whose
  areas keep apart and hold what was written into them until they are returned (\<open>heap_implements_store\<close>); refinement
  of the abstract flash by the register-level driver; round trips of parameters over a restart, of ASCII frames and of the decoding.  Error
  behaviour, with the deviations that the code has: each of them is a theorem with its witness.

  \<^bold>\<open>Bounds.\<close>  Loops of the model count rounds that the C code bounds, so no fuel is chosen; the
  retry loop of the firmware download has a measure.  The address at which the boot loader's
  message 3 programs is set by the erase message to the start of the application and advanced by at
  most 590 bytes per frame, so \<open>boot_session_safe\<close> and \<open>device_life\<close> allow 7,000,000 frames between
  two resets: with more of them and no further erase message the 32-bit address could wrap to 0.  An upgrade has at most 65,534 packets (16-bit
  counter) of 1 to 71 words (the 600-byte buffer).

  The size of a request to the heap is at most \<open>2 ^ 32 - 4\<close>, so that \<open>RT_ALIGN\<close> does not wrap (\<open>malloc_wraps\<close>
  shows what happens beyond), and the heap is at least 36 bytes long.  \<open>malloc_find\<close> and \<open>next_free\<close> walk the list of
  blocks without fuel; that they end is part of the theorems.

  Sleeping times of threads are below half the range of the 32-bit tick counter, as
  \<open>rt_timer_start\<close> asserts, and the scheduler is locked less than 0x8000 times at once.

  The flash driver waits at most 50,000 ms for an operation; \<open>hal_driver lat\<close> satisfies the laws for
  every duration \<open>lat\<close> up to that.

  \<^bold>\<open>Interrupts and DMA.\<close>  Interrupts come between the steps of the three step relations (\<open>app_step\<close>:
  the blocks of the main loop; \<open>boot_run\<close>: frames and looks at the clock; \<open>rtt_step\<close> and \<open>sys_step\<close>: the points
  where a thread can block or shares the send buffer, and the operations of the kernel), not inside a
  step.  A transmission is recorded at its start with what the send buffer then holds; the DMA
  controller reads the buffer while it sends, so the record is what goes out as long as the program
  leaves the buffer alone until the end (\<open>device_safe\<close> says which blocks write it,
  \<open>rtt_upload_overflows\<close> and \<open>rtt_waited_message_unheard\<close> what goes wrong between threads).  A step that has
  no result (an access outside an array) ends a run; \<open>request_returns\<close>, \<open>device_safe\<close>, \<open>loop_goes_round\<close>
  and \<open>rtt_upload_overflows\<close> say when the steps have results and when not.

  \<^bold>\<open>Not modelled.\<close>  Set-up of clocks, pins, DMA channels, SPI, ADC, DAC and watchdog registers, the
  start-up code and the vectors, which only configure hardware; the drivers of the chip maker but
  that of the flash; of RT-Thread the object names, the context switch itself, and what the program does not use
  (mutexes, mailboxes, deletion of threads, software timers), and its watchdog device; \<open>InFlash_Write_MultiBytes\<close> in the boot
  loader and \<open>BSP_SPI_Receive\<close>, which nothing calls.  A power failure inside an operation of the
  flash driver is an outcome of that driver only as far as the faults of its laws cover it.
\<close>

section \<open>Two programs on one flash\<close>

text \<open>A word of a firmware image, as the processor reads it.\<close>

definition image_word :: "nat \<Rightarrow> u8 list \<Rightarrow> u32" where
  "image_word k img = be32 (img ! (k + 3)) (img ! (k + 2)) (img ! (k + 1)) (img ! k)"

lemma flash_word_image:
  assumes "\<forall>i < length img. fl_mem f (APPLICATION_ADDRESS + i) = img ! i" "k + 4 \<le> length img"
    and "APPLICATION_ADDRESS + length img \<le> USER_FLASH_END_ADDRESS"
  shows "flash_word f (APPLICATION_ADDRESS + k) = Some (image_word k img)"
proof -
  have "fl_mem f (APPLICATION_ADDRESS + k + i) = img ! (k + i)" if "i < 4" for i
    using assms(1) [rule_format, of "k + i"] assms(2) that by (simp add: add.assoc)
  from this [of 0] this [of 1] this [of 2] this [of 3]
  have "flash_get f (APPLICATION_ADDRESS + k + i) = Some (img ! (k + i))" if "i \<in> {0, 1, 2, 3}" for i
    using that assms(2,3) by (auto simp: flash_get_def)
  from this [of 0] this [of 1] this [of 2] this [of 3] show ?thesis
    by (simp add: flash_word_def image_word_def)
qed

text \<open>The life of a device: the flash, and what a run of the boot loader or of the sensor program,
  cut off by a reset after any of its steps, makes of it.  Everything else starts from the
  statics of the program.  A run of the boot loader handles at most 7,000,000 frames and no data
  packet before an erase message.\<close>

inductive device_life :: "hal_flash \<Rightarrow> 'o hal_ob \<Rightarrow> 'c hal_spi \<Rightarrow> flash \<Rightarrow> flash \<Rightarrow> bool" for H OB S f0 where
  new: "device_life H OB S f0 f0"
| boot: "device_life H OB S f0 (bflash s0) \<Longrightarrow> boot_static s0 \<Longrightarrow> boot_run H OB s0 n True s ph \<Longrightarrow> n \<le> 7000000
    \<Longrightarrow> device_life H OB S f0 (bflash s)"
| app: "device_life H OB S f0 (fls (mbs a)) \<Longrightarrow> static_ok a \<Longrightarrow> main_init H S v30 v110 tick a = Some a0
    \<Longrightarrow> (app_step H S)\<^sup>*\<^sup>* a0 a1 \<Longrightarrow> device_life H OB S f0 (fls (mbs a1))"

lemma only_area_app:
  assumes "only_area f f'" "FLASH_LOW \<le> x" "x < IN_FLASH_BASE_ADDRESS"
  shows "fl_mem f' x = fl_mem f x"
  using assms(1,3) unfolding only_area_def in_area_def by (metis not_le)

text \<open>C23.  Whatever happens to a device in any number of restarts, each after any step of the boot loader
  or of the sensor program, with every behaviour of flash driver, option bytes and converter and
  every input on the line but one: the boot loader's own code stays what it was, so the device can
  always be upgraded again.  The input that is excluded is a data packet for this device before an
  erase message of the same run of the boot loader; such a packet is programmed at address 0,
  where the boot loader's code is mapped (\<open>early_data_hits_boot_code\<close>).  A run of the boot loader
  handles at most 7,000,000 frames, so that the address of the next packet cannot wrap.\<close>

theorem boot_code_permanent:
  assumes "flash_hal H" "device_life H OB S f0 f" "FLASH_LOW \<le> x" "x < APPLICATION_ADDRESS"
  shows "fl_mem f x = fl_mem f0 x"
  using assms(2)
proof induction
  case (boot s0 n s ph)
  have "protects (bflash s0) (bflash s)"
    using flash_hal.boot_run_inv [OF assms(1) boot.hyps(3,2,4) TrueI] by simp
  with boot.IH assms(3,4) show ?case
    by (simp add: protects_def app_area_def flag_page_def)
next
  case (app a v30 v110 tick a0 a1)
  have "fl_mem (fls (mbs a1)) x = fl_mem (fls (mbs a)) x"
    by (rule only_area_app) (use device_run [OF assms(1) app.hyps(2-4)] assms(3,4) in simp_all)
  with app.IH show ?case by simp
qed simp

lemma boot_code_permanent_witness:
  "\<exists>f. device_life st_hal no_ob sim_pcap blank_flash f \<and> fl_mem f 0x08001000 = 0xFF"
proof -
  obtain s where s: "boot_init 7 boot0 = Some (s, BWait 7)" using boot0_init by blast
  have "device_life st_hal no_ob sim_pcap blank_flash (bflash boot0)"
    by (simp add: boot0_def device_life.new)
  from device_life.boot [OF this boot0_static boot_run.init [OF s]]
  have life: "device_life st_hal no_ob sim_pcap blank_flash (bflash s)" by simp
  let ?b = "app0\<lparr>mbs := (mbs app0)\<lparr>fls := bflash s\<rparr>\<rparr>"
  obtain b0 where b0: "main_init st_hal sim_pcap 1750 1320 0 ?b = Some b0"
    using main_init_returns [OF st_hal_flash_hal] by blast
  have "static_ok ?b" using static_ok_app0 by (simp add: static_ok_def)
  from device_life.app [OF _ this b0 rtranclp.rtrancl_refl] life
  have "device_life st_hal no_ob sim_pcap blank_flash (fls (mbs b0))" by simp
  then show ?thesis
    using boot_code_permanent [OF st_hal_flash_hal, where x = "0x08001000"] by (fastforce simp: blank_flash_def)
qed

text \<open>C22.  Upgrade, start and use.  After the messages of an upgrade the boot loader leaves its loop at the
  next time it looks at the clock and jumps to the entry point of the new firmware with its
  stack pointer, and in every run of the sensor program that follows, whatever arrives on the
  line and however the flash driver answers, the firmware in the flash stays complete.\<close>

theorem upgrade_starts_new_firmware:
  assumes "reliable_flash H good" "serving good OB a s" "ps \<noteq> []" "\<forall>d \<in> set ps. packet_ok d"
    "length ps < 65535" "APPLICATION_ADDRESS + length (concat ps) \<le> USER_FLASH_END_ADDRESS"
    and "8 \<le> length (concat ps)" "image_word 0 (image_of ps) AND 0x2FFE0000 = 0x20000000" "old < tick"
  shows "\<exists>v s'. session H OB r (upgrade_messages a ps) s = Some v
     \<and> boot_poll H OB tick r' old v = Some (s', BJump (image_word 0 (image_of ps)) (image_word 4 (image_of ps)))
     \<and> (\<forall>b b0 b1. static_ok b \<and> fls (mbs b) = bflash s' \<and> main_init H S v30 v110 t0 b = Some b0 \<and> (app_step H S)\<^sup>*\<^sup>* b0 b1
          \<longrightarrow> (\<forall>k < length (concat ps). fl_mem (fls (mbs b1)) (APPLICATION_ADDRESS + k) = image_of ps ! k))"
proof -
  obtain v where v: "session H OB r (upgrade_messages a ps) s = Some v" "serving good OB a v" "UpgradeWaitTime v = 0"
    "loaded (image_of ps) v"
    using reliable_flash.upgrade_session [OF assms(1-6), of r] by blast
  have img: "\<forall>k < length (image_of ps). fl_mem (bflash v) (APPLICATION_ADDRESS + k) = image_of ps ! k"
    and len: "length (image_of ps) = length (concat ps)"
    using v(4) by (simp_all add: image_at_def)
  have w: "flash_word (bflash v) (APPLICATION_ADDRESS + k) = Some (image_word k (image_of ps))" if "k \<le> 4" for k
    by (rule flash_word_image [OF img]) (use that assms(6,7) len in simp_all)
  have live: "tx_live (bport v)" "good (bflash v)"
    using v(2) by (simp_all add: serving_def boot_ok_def)
  note w0 = w [of 0, simplified] and w4 = w [of 4, OF order_refl]
  obtain s' where s': "boot_leave H v = Some (s', BJump (image_word 0 (image_of ps)) (image_word 4 (image_of ps)))"
    "\<forall>x. app_area x \<longrightarrow> fl_mem (bflash s') x = fl_mem (bflash v) x"
    using reliable_flash.boot_leave_jumps [OF assms(1) live w0 w4 assms(8)] by blast
  have "boot_poll H OB tick r' old v = Some (s', BJump (image_word 0 (image_of ps)) (image_word 4 (image_of ps)))"
    using s'(1) v(3) assms(9) by (simp add: boot_poll_def wait_over_def)
  moreover have "fl_mem (fls (mbs b1)) (APPLICATION_ADDRESS + k) = image_of ps ! k"
    if "static_ok b" "fls (mbs b) = bflash s'" "main_init H S v30 v110 t0 b = Some b0" "(app_step H S)\<^sup>*\<^sup>* b0 b1"
      "k < length (concat ps)" for b b0 b1 k
  proof -
    have "fl_mem (fls (mbs b1)) (APPLICATION_ADDRESS + k) = fl_mem (bflash s') (APPLICATION_ADDRESS + k)"
      using device_run [OF reliable_flash.axioms(1) [OF assms(1)] that(1,3,4)] that(2,5) assms(6)
      by (intro only_area_app) simp_all
    then show ?thesis
      using s'(2) img len that(5) assms(6) by (simp add: app_area_def)
  qed
  ultimately show ?thesis using v(1) by blast
qed

text \<open>A firmware of one packet: stack pointer \<open>0x20001000\<close>, entry point \<open>0x080030C1\<close>, encoded.\<close>

definition small_firmware :: "u8 list list" where
  "small_firmware = [[0x5E, 0x63, 0x70, 0x59, 0xA4, 0x43, 0x70, 0x71]]"

lemma small_firmware_image: "image_of small_firmware = [0, 0x10, 0, 0x20, 0xC1, 0x30, 0, 8]"
  by (simp add: small_firmware_def image_of_def decoded_def key_at_def encryptionString_def upt_rec)

lemma upgrade_starts_new_firmware_witness:
  "\<exists>v s'. session st_hal no_ob 0 (upgrade_messages 65 small_firmware) boot0 = Some v
     \<and> boot_poll st_hal no_ob 9 0 7 v = Some (s', BJump 0x20001000 0x080030C1)"
proof -
  have img: "image_word 0 (image_of small_firmware) = 0x20001000" "image_word 4 (image_of small_firmware) = 0x080030C1"
    by (simp_all add: small_firmware_image image_word_def be32_def)
  have "\<exists>v s'. session st_hal no_ob 0 (upgrade_messages 65 small_firmware) boot0 = Some v
     \<and> boot_poll st_hal no_ob 9 0 7 v
         = Some (s', BJump (image_word 0 (image_of small_firmware)) (image_word 4 (image_of small_firmware)))
     \<and> (\<forall>b b0 b1. static_ok b \<and> fls (mbs b) = bflash s' \<and> main_init st_hal sim_pcap 0 0 0 b = Some b0
          \<and> (app_step st_hal sim_pcap)\<^sup>*\<^sup>* b0 b1
          \<longrightarrow> (\<forall>k < length (concat small_firmware). fl_mem (fls (mbs b1)) (APPLICATION_ADDRESS + k) = image_of small_firmware ! k))"
    by (rule upgrade_starts_new_firmware [OF st_drv.reliable_flash_axioms boot0_serving])
      (simp_all add: img, simp_all add: small_firmware_def packet_ok_def)
  then show ?thesis unfolding img by blast
qed

end
